(* ===== verification/Prelude.thy ===== *)
theory Prelude
  imports Main "HOL-Library.Word"
begin

text \<open>
  Shared vocabulary of the development: the outcome type of kernel operations and its
  sequencing combinator, byte-addressed memory with little-endian 16- and 32-bit accesses,
  block copies, the conversions between C's \<open>int\<close>/\<open>uint\<close> and HOL's numbers, and the
  generic lemmas on these that the component theories rely on.
\<close>

unbundle bit_operations_syntax

named_theorems mem_simps \<open>rewriting of reads over writes in byte-addressed memory\<close>
named_theorems kern_simps \<open>rewriting of sequenced kernel operations\<close>

section \<open>Outcomes of kernel operations\<close>

text \<open>
  A kernel operation returns a value, stops the machine (\<open>panic(msg)\<close> of console.c, which
  never returns), reaches a \<open>sleep\<close> that only another process can end (the string names
  what it waits for), or runs in a loop for ever.
\<close>

datatype 'a outcome = Ok 'a | Panic string | Blocked string | Forever

primrec bindE :: "'a outcome \<Rightarrow> ('a \<Rightarrow> 'b outcome) \<Rightarrow> 'b outcome" where
  "bindE (Ok x) f = f x"
| "bindE (Panic e) f = Panic e"
| "bindE (Blocked c) f = Blocked c"
| "bindE Forever f = Forever"

declare bindE.simps [kern_simps]

lemma bindE_eq_Ok [kern_simps]:
  "bindE m f = Ok y \<longleftrightarrow> (\<exists>x. m = Ok x \<and> f x = Ok y)"
  by (cases m) auto

lemma bindE_OkE [elim]:
  assumes "bindE m f = Ok y"
  obtains x where "m = Ok x" and "f x = Ok y"
  using assms by (cases m) auto

lemma bindE_eq_Panic:
  "bindE m f = Panic e \<longleftrightarrow> m = Panic e \<or> (\<exists>x. m = Ok x \<and> f x = Panic e)"
  by (cases m) auto

lemma bindE_assoc: "bindE (bindE m f) g = bindE m (\<lambda>x. bindE (f x) g)"
  by (cases m) auto

lemma bindE_cong [fundef_cong]:
  assumes "m = m'" and "\<And>x. m' = Ok x \<Longrightarrow> f x = f' x"
  shows "bindE m f = bindE m' f'"
  using assms by (cases m') auto

text \<open>A \<open>for\<close> loop whose body cannot change its bounds: the body runs on each index in turn.\<close>

fun forE :: "('b \<Rightarrow> 's \<Rightarrow> 's outcome) \<Rightarrow> 'b list \<Rightarrow> 's \<Rightarrow> 's outcome" where
  "forE f [] s = Ok s"
| "forE f (x # xs) s = bindE (f x s) (forE f xs)"

lemma forE_append: "forE f (xs @ ys) s = bindE (forE f xs s) (forE f ys)"
  by (induction xs arbitrary: s) (auto simp: bindE_assoc intro!: bindE_cong)

text \<open>A \<open>for\<close> loop whose body may return from the function: \<open>Some r\<close> ends it with result \<open>r\<close>.\<close>

fun loopE :: "('b \<Rightarrow> 's \<Rightarrow> ('r option \<times> 's) outcome) \<Rightarrow> 'b list \<Rightarrow> 's \<Rightarrow> ('r option \<times> 's) outcome" where
  "loopE f [] s = Ok (None, s)"
| "loopE f (x # xs) s = bindE (f x s) (\<lambda>(r, s). case r of Some v \<Rightarrow> Ok (Some v, s) | None \<Rightarrow> loopE f xs s)"

section \<open>Machine integers\<close>

type_synonym byte = "8 word"
type_synonym word16 = "16 word"
type_synonym word32 = "32 word"

text \<open>
  \<open>uint\<close> values that index blocks, inodes and buffers are kept as \<open>nat\<close>; where C's
  unsigned arithmetic can wrap the model writes the wrap-around out with \<open>u32\<close>.  \<open>s32\<close>
  reads an unsigned value back as a C \<open>int\<close>; \<open>i32\<close> wraps signed arithmetic.
\<close>

definition u32 :: "nat \<Rightarrow> nat" where
  "u32 n = n mod 2 ^ 32"

definition s32 :: "nat \<Rightarrow> int" where
  "s32 n = (let r = int n mod 2 ^ 32 in if r < 2 ^ 31 then r else r - 2 ^ 32)"

definition of_s32 :: "int \<Rightarrow> nat" where
  "of_s32 i = nat (i mod 2 ^ 32)"

lemma u32_less [simp]: "u32 n < 2 ^ 32"
  by (simp add: u32_def)

lemma u32_id [simp]: "n < 2 ^ 32 \<Longrightarrow> u32 n = n"
  by (simp add: u32_def)

lemma of_s32_less [simp]: "of_s32 i < 2 ^ 32"
  by (simp add: of_s32_def nat_less_iff)

lemma s32_of_s32: "- (2 ^ 31) \<le> i \<Longrightarrow> i < 2 ^ 31 \<Longrightarrow> s32 (of_s32 i) = i"
proof -
  assume lo: "- (2 ^ 31) \<le> i" and hi: "i < 2 ^ 31"
  have "i mod 2 ^ 32 = (if 0 \<le> i then i else i + 2 ^ 32)"
  proof (cases "0 \<le> i")
    case False
    have "i mod 2 ^ 32 = (i + 2 ^ 32) mod 2 ^ 32" by simp
    also have "\<dots> = i + 2 ^ 32" using lo False by (intro mod_pos_pos_trivial) auto
    finally show ?thesis using False by simp
  qed (use hi in \<open>simp\<close>)
  then show ?thesis using lo hi by (simp add: s32_def of_s32_def Let_def split: if_splits)
qed

lemma s32_nat: "n < 2 ^ 31 \<Longrightarrow> s32 n = int n"
  by (simp add: s32_def)

lemma of_s32_int: "n < 2 ^ 32 \<Longrightarrow> of_s32 (int n) = n"
  by (simp add: of_s32_def)

text \<open>The result of arithmetic on C's \<open>int\<close>, which wraps around.\<close>

definition i32 :: "int \<Rightarrow> int" where
  "i32 i = s32 (of_s32 i)"

lemma i32_id: "- (2 ^ 31) \<le> i \<Longrightarrow> i < 2 ^ 31 \<Longrightarrow> i32 i = i"
  by (simp only: i32_def s32_of_s32)

lemma i32_nat: "n < 2 ^ 31 \<Longrightarrow> i32 (int n) = int n"
  by (rule i32_id) auto

lemma i32_Suc: "i32 (i32 i + 1) = i32 (i + 1)"
proof -
  have "(i32 i + 1) mod 2 ^ 32 = (i + 1) mod 2 ^ 32"
  proof -
    have "i32 i mod 2 ^ 32 = i mod 2 ^ 32" by (simp add: i32_def s32_def of_s32_def Let_def mod_simps)
    then show ?thesis by (metis mod_add_left_eq)
  qed
  then show ?thesis by (simp only: i32_def of_s32_def)
qed

section \<open>Byte-addressed memory\<close>

text \<open>
  A C array or a region of physical memory is a function from offsets to bytes.  An access
  to a field at offset \<open>a\<close> reads or writes its bytes, least significant first (x86).
\<close>

type_synonym mem = "nat \<Rightarrow> byte"

definition get16 :: "mem \<Rightarrow> nat \<Rightarrow> word16" where
  "get16 m a = ucast (m a) OR push_bit 8 (ucast (m (a + 1)))"

definition put16 :: "nat \<Rightarrow> word16 \<Rightarrow> mem \<Rightarrow> mem" where
  "put16 a w m = m(a := ucast w, a + 1 := ucast (drop_bit 8 w))"

definition get32 :: "mem \<Rightarrow> nat \<Rightarrow> word32" where
  "get32 m a = ucast (m a)
     OR push_bit 8 (ucast (m (a + 1)))
     OR push_bit 16 (ucast (m (a + 2)))
     OR push_bit 24 (ucast (m (a + 3)))"

definition put32 :: "nat \<Rightarrow> word32 \<Rightarrow> mem \<Rightarrow> mem" where
  "put32 a w m = m(a := ucast w, a + 1 := ucast (drop_bit 8 w),
     a + 2 := ucast (drop_bit 16 w), a + 3 := ucast (drop_bit 24 w))"

text \<open>\<open>blit\<close> is what a block copy means: \<open>n\<close> bytes of \<open>src\<close> from \<open>s\<close> land in \<open>dst\<close> at \<open>d\<close>.\<close>

definition blit :: "mem \<Rightarrow> nat \<Rightarrow> mem \<Rightarrow> nat \<Rightarrow> nat \<Rightarrow> mem" where
  "blit dst d src s n = (\<lambda>i. if d \<le> i \<and> i < d + n then src (s + (i - d)) else dst i)"

definition fill :: "mem \<Rightarrow> nat \<Rightarrow> byte \<Rightarrow> nat \<Rightarrow> mem" where
  "fill dst d c n = (\<lambda>i. if d \<le> i \<and> i < d + n then c else dst i)"

lemma get16_put16_same [simp, mem_simps]: "get16 (put16 a w m) a = w"
  by (rule bit_word_eqI) (auto simp: get16_def put16_def bit_simps)

lemma get32_put32_same [simp, mem_simps]: "get32 (put32 a w m) a = w"
  by (rule bit_word_eqI) (auto simp: get32_def put32_def bit_simps, rule ccontr, simp)

lemma get32_cong:
  "(\<And>i. a \<le> i \<Longrightarrow> i < a + 4 \<Longrightarrow> m i = m' i) \<Longrightarrow> get32 m a = get32 m' a"
  by (simp add: get32_def)

lemma get16_cong:
  "(\<And>i. a \<le> i \<Longrightarrow> i < a + 2 \<Longrightarrow> m i = m' i) \<Longrightarrow> get16 m a = get16 m' a"
  by (simp add: get16_def)

lemma put32_other [mem_simps]: "i < a \<or> a + 4 \<le> i \<Longrightarrow> put32 a w m i = m i"
  by (auto simp: put32_def)

lemma put16_other [mem_simps]: "i < a \<or> a + 2 \<le> i \<Longrightarrow> put16 a w m i = m i"
  by (auto simp: put16_def)

lemma get32_put32_other [mem_simps]:
  "a + 4 \<le> b \<or> b + 4 \<le> a \<Longrightarrow> get32 (put32 b w m) a = get32 m a"
  by (rule get32_cong) (auto simp: put32_other)

lemma get16_put16_other [mem_simps]:
  "a + 2 \<le> b \<or> b + 2 \<le> a \<Longrightarrow> get16 (put16 b w m) a = get16 m a"
  by (rule get16_cong) (auto simp: put16_other)

lemma get32_put16_other [mem_simps]:
  "a + 4 \<le> b \<or> b + 2 \<le> a \<Longrightarrow> get32 (put16 b w m) a = get32 m a"
  by (rule get32_cong) (auto simp: put16_other)

lemma get16_put32_other [mem_simps]:
  "a + 2 \<le> b \<or> b + 4 \<le> a \<Longrightarrow> get16 (put32 b w m) a = get16 m a"
  by (rule get16_cong) (auto simp: put32_other)

lemma blit_inside [mem_simps]: "d \<le> i \<Longrightarrow> i < d + n \<Longrightarrow> blit dst d src s n i = src (s + (i - d))"
  by (simp add: blit_def)

lemma blit_outside [mem_simps]: "i < d \<or> d + n \<le> i \<Longrightarrow> blit dst d src s n i = dst i"
  by (auto simp: blit_def)

lemma blit_zero [simp]: "blit dst d src s 0 = dst"
  by (auto simp: blit_def fun_eq_iff)

lemma fill_inside [mem_simps]: "d \<le> i \<Longrightarrow> i < d + n \<Longrightarrow> fill dst d c n i = c"
  by (simp add: fill_def)

lemma fill_outside [mem_simps]: "i < d \<or> d + n \<le> i \<Longrightarrow> fill dst d c n i = dst i"
  by (auto simp: fill_def)

lemma fill_zero [simp]: "fill dst d c 0 = dst"
  by (auto simp: fill_def fun_eq_iff)

text \<open>Byte strings in memory: reading \<open>n\<close> bytes at \<open>a\<close>, writing a list of bytes at \<open>a\<close>.\<close>

definition read_bytes :: "mem \<Rightarrow> nat \<Rightarrow> nat \<Rightarrow> byte list" where
  "read_bytes m a n = map (\<lambda>i. m (a + i)) [0..<n]"

fun write_bytes :: "nat \<Rightarrow> byte list \<Rightarrow> mem \<Rightarrow> mem" where
  "write_bytes a [] m = m"
| "write_bytes a (x # xs) m = write_bytes (a + 1) xs (m(a := x))"

lemma write_bytes_apply:
  "write_bytes a xs m i = (if a \<le> i \<and> i < a + length xs then xs ! (i - a) else m i)"
  by (induction xs arbitrary: a m) (auto simp: nth_Cons')

lemma write_bytes_other [mem_simps]: "i < a \<or> a + length xs \<le> i \<Longrightarrow> write_bytes a xs m i = m i"
  by (auto simp: write_bytes_apply)

lemma length_read_bytes [simp]: "length (read_bytes m a n) = n"
  by (simp add: read_bytes_def)

lemma nth_read_bytes [simp]: "i < n \<Longrightarrow> read_bytes m a n ! i = m (a + i)"
  by (simp add: read_bytes_def)

lemma read_write_bytes [simp]: "read_bytes (write_bytes a xs m) a (length xs) = xs"
  by (simp add: list_eq_iff_nth_eq write_bytes_apply)

text \<open>\<open>cstr m p xs\<close>: at \<open>p\<close> memory holds the NUL-terminated string \<open>xs\<close>.\<close>

fun cstr :: "mem \<Rightarrow> nat \<Rightarrow> byte list \<Rightarrow> bool" where
  "cstr m p [] \<longleftrightarrow> m p = 0"
| "cstr m p (x # xs) \<longleftrightarrow> m p = x \<and> x \<noteq> 0 \<and> cstr m (p + 1) xs"

lemma cstr_cong:
  "(\<And>i. p \<le> i \<Longrightarrow> i \<le> p + length xs \<Longrightarrow> m i = m' i) \<Longrightarrow> cstr m p xs = cstr m' p xs"
proof (induction xs arbitrary: p)
  case (Cons x xs)
  have "cstr m (p + 1) xs = cstr m' (p + 1) xs" by (rule Cons.IH) (rule Cons.prems, auto)
  moreover have "m p = m' p" by (rule Cons.prems) auto
  ultimately show ?case by simp
qed simp

lemma cstr_unique: "cstr m p xs \<Longrightarrow> cstr m p ys \<Longrightarrow> xs = ys"
proof (induction xs arbitrary: p ys)
  case (Cons x xs)
  then show ?case by (cases ys) auto
qed (case_tac ys, auto)

lemma cstr_nonzero: "cstr m p xs \<Longrightarrow> 0 \<notin> set xs"
  by (induction xs arbitrary: p) auto

lemma cstr_nth: "cstr m p xs \<Longrightarrow> i < length xs \<Longrightarrow> m (p + i) = xs ! i"
proof (induction xs arbitrary: p i)
  case (Cons x xs)
  then show ?case using Cons.IH [of "p + 1" "i - 1"] by (cases i) auto
qed simp

lemma cstr_write: "0 \<notin> set xs \<Longrightarrow> cstr (write_bytes p (xs @ 0 # ys) m) p xs"
proof (induction xs arbitrary: p m)
  case (Cons x xs)
  have "write_bytes (p + 1) (xs @ 0 # ys) (m(p := x)) p = x" by (simp add: write_bytes_apply)
  with Cons show ?case by auto
qed (simp add: write_bytes_apply)

lemma cstr_read: "(\<And>i. i < l \<Longrightarrow> M (a + i) \<noteq> 0) \<Longrightarrow> M (a + l) = 0 \<Longrightarrow> cstr M a (read_bytes M a l)"
proof (induction l arbitrary: a)
  case 0
  then show ?case by (simp add: read_bytes_def)
next
  case (Suc l)
  have r: "read_bytes M a (Suc l) = M a # read_bytes M (a + 1) l"
    by (simp add: read_bytes_def upt_conv_Cons map_Suc_upt [symmetric] del: upt_Suc)
  have "M a \<noteq> 0" using Suc.prems(1) [of 0] by simp
  moreover have "cstr M (a + 1) (read_bytes M (a + 1) l)"
    by (rule Suc.IH) (use Suc.prems(1) [of "Suc i" for i] Suc.prems(2) in auto)
  ultimately show ?case by (simp add: r)
qed

end
