(* ===== verification/Kalloc.thy ===== *)
theory Kalloc
  imports Prelude
begin

text \<open>
  \<^verbatim>\<open>src/alarm/kalloc.c\<close>: the physical page allocator.  Kernel memory is byte-addressed by
  kernel virtual address; the free list is threaded through the first word of each free page,
  as in the source, and \<open>kfree\<close> fills the page with junk before linking it.  The record
  \<open>kmem_state\<close> is the root of the kernel's global state: later theories extend it with the
  globals of their source file.
\<close>

abbreviation PGSIZE :: nat where "PGSIZE \<equiv> 4096"
abbreviation KERNBASE :: nat where "KERNBASE \<equiv> 0x80000000"
abbreviation PHYSTOP :: nat where "PHYSTOP \<equiv> 0xE000000"

record kmem_state =
  kmem :: mem           \<comment> \<open>memory, by kernel virtual address\<close>
  freelist :: nat       \<comment> \<open>kmem.freelist, 0 for NULL\<close>
  use_lock :: bool      \<comment> \<open>kmem.use_lock\<close>
  kend :: nat           \<comment> \<open>end[]: first address after the kernel image\<close>

definition V2P :: "nat \<Rightarrow> nat" where
  "V2P a = u32 (a + 2 ^ 32 - KERNBASE)"

definition P2V :: "nat \<Rightarrow> nat" where
  "P2V a = u32 (a + KERNBASE)"

definition PGROUNDUP :: "nat \<Rightarrow> nat" where
  "PGROUNDUP sz = u32 (sz + PGSIZE - 1) div PGSIZE * PGSIZE"

definition PGROUNDDOWN :: "nat \<Rightarrow> nat" where
  "PGROUNDDOWN a = a div PGSIZE * PGSIZE"

definition kfree :: "nat \<Rightarrow> 'a kmem_state_scheme \<Rightarrow> 'a kmem_state_scheme outcome" where
  "kfree v s =
     (if v mod PGSIZE \<noteq> 0 \<or> v < kend s \<or> PHYSTOP \<le> V2P v then Panic ''kfree''
      else Ok (s\<lparr>kmem := put32 v (of_nat (freelist s)) (fill (kmem s) v 1 PGSIZE),
                 freelist := v\<rparr>))"

definition kalloc :: "'a kmem_state_scheme \<Rightarrow> nat \<times> 'a kmem_state_scheme" where
  "kalloc s =
     (let r = freelist s in
      if r \<noteq> 0 then (r, s\<lparr>freelist := unat (get32 (kmem s) r)\<rparr>) else (r, s))"

function freerange_loop ::
  "nat \<Rightarrow> nat \<Rightarrow> 'a kmem_state_scheme \<Rightarrow> 'a kmem_state_scheme outcome" where
  "freerange_loop p vend s =
     (if p + PGSIZE \<le> vend then bindE (kfree p s) (freerange_loop (p + PGSIZE) vend) else Ok s)"
  by pat_completeness auto
termination
  by (relation "measure (\<lambda>(p, vend, s). vend - p)") auto

declare freerange_loop.simps [simp del]

definition freerange :: "nat \<Rightarrow> nat \<Rightarrow> 'a kmem_state_scheme \<Rightarrow> 'a kmem_state_scheme outcome" where
  "freerange vstart vend s = freerange_loop (PGROUNDUP vstart) vend s"

definition kinit1 :: "nat \<Rightarrow> nat \<Rightarrow> 'a kmem_state_scheme \<Rightarrow> 'a kmem_state_scheme outcome" where
  "kinit1 vstart vend s = freerange vstart vend (s\<lparr>use_lock := False\<rparr>)"

definition kinit2 :: "nat \<Rightarrow> nat \<Rightarrow> 'a kmem_state_scheme \<Rightarrow> 'a kmem_state_scheme outcome" where
  "kinit2 vstart vend s = bindE (freerange vstart vend s) (\<lambda>s. Ok (s\<lparr>use_lock := True\<rparr>))"

section \<open>The free list\<close>

text \<open>
  \<open>freepage s v\<close> is what \<open>kfree\<close> checks: a page of physical memory above the kernel image.
  \<open>free_list s xs\<close>: following the links from \<open>freelist\<close> visits exactly \<open>xs\<close>, distinct pages.
\<close>

definition freepage :: "'a kmem_state_scheme \<Rightarrow> nat \<Rightarrow> bool" where
  "freepage s v \<longleftrightarrow> v mod PGSIZE = 0 \<and> kend s \<le> v \<and> KERNBASE \<le> v \<and> v < KERNBASE + PHYSTOP"

fun chain :: "mem \<Rightarrow> nat \<Rightarrow> nat list \<Rightarrow> bool" where
  "chain m p [] \<longleftrightarrow> p = 0"
| "chain m p (x # xs) \<longleftrightarrow> p = x \<and> x \<noteq> 0 \<and> chain m (unat (get32 m x)) xs"

definition free_list :: "'a kmem_state_scheme \<Rightarrow> nat list \<Rightarrow> bool" where
  "free_list s xs \<longleftrightarrow> distinct xs \<and> (\<forall>v \<in> set xs. freepage s v) \<and> chain (kmem s) (freelist s) xs"

definition pages_of :: "nat \<Rightarrow> nat \<Rightarrow> nat list" where
  "pages_of p vend = map (\<lambda>k. p + k * PGSIZE) [0..<(vend - p) div PGSIZE]"

lemma V2P_kernel: "KERNBASE \<le> v \<Longrightarrow> v < 2 ^ 32 \<Longrightarrow> V2P v = v - KERNBASE"
  by (simp add: V2P_def u32_def mod_if)

lemma V2P_user: "v < KERNBASE \<Longrightarrow> V2P v = v + KERNBASE"
  by (simp add: V2P_def u32_def)

lemma V2P_P2V: "p < KERNBASE \<Longrightarrow> V2P (P2V p) = p"
  by (simp add: V2P_def P2V_def u32_def mod_if)

lemma freepage_less: "freepage s v \<Longrightarrow> v < 2 ^ 32"
  by (simp add: freepage_def)

lemma kfree_check: "KERNBASE \<le> kend s \<Longrightarrow> v < 2 ^ 32 \<Longrightarrow>
  \<not> (v mod PGSIZE \<noteq> 0 \<or> v < kend s \<or> PHYSTOP \<le> V2P v) \<longleftrightarrow> freepage s v"
  by (cases "KERNBASE \<le> v") (auto simp: freepage_def V2P_kernel V2P_user)

lemma chain_cong:
  "(\<And>x. x \<in> set xs \<Longrightarrow> get32 m x = get32 m' x) \<Longrightarrow> chain m p xs = chain m' p xs"
  by (induction xs arbitrary: p) auto

lemma page_disjoint:
  assumes "(v::nat) mod PGSIZE = 0" and "x mod PGSIZE = 0" and "x \<noteq> v" and "i < 4"
  shows "x + i < v \<or> v + PGSIZE \<le> x + i"
proof -
  obtain a b where "v = a * PGSIZE" and "x = b * PGSIZE"
    using assms(1,2) by (metis div_mod_decomp add.right_neutral)
  with assms(3,4) show ?thesis by (cases "a < b") (auto simp: not_less le_less)
qed

lemma free_list_write:
  assumes fl: "free_list s xs" and v: "v mod PGSIZE = 0" "v \<notin> set xs"
    and same: "\<And>i. i < v \<or> v + PGSIZE \<le> i \<Longrightarrow> m i = kmem s i"
  shows "chain m (freelist s) xs"
proof -
  have "get32 m x = get32 (kmem s) x" if "x \<in> set xs" for x
  proof (rule get32_cong)
    fix i assume i: "x \<le> i" "i < x + 4"
    from fl that have "x mod PGSIZE = 0" by (auto simp: free_list_def freepage_def)
    moreover from v(2) that have "x \<noteq> v" by blast
    ultimately have "i < v \<or> v + PGSIZE \<le> i"
      using page_disjoint [OF v(1), of x "i - x"] i by simp
    then show "m i = kmem s i" by (rule same)
  qed
  with fl show ?thesis using chain_cong [of xs m "kmem s"] by (simp add: free_list_def)
qed

section \<open>The allocator's contract\<close>

text \<open>
  What the rest of the kernel relies on: allocation hands out the head of the free list and
  returns 0 exactly when it is empty, freeing a page that is not free puts it at the head.
  Client facts: \<open>n\<close> allocations give the first \<open>n\<close> pages of the list, all different and none
  still free, and freeing a page makes the next allocation return it.
\<close>

fun alloc_n :: "('s \<Rightarrow> nat \<times> 's) \<Rightarrow> nat \<Rightarrow> 's \<Rightarrow> nat list \<times> 's" where
  "alloc_n al 0 s = ([], s)"
| "alloc_n al (Suc n) s = (let (p, s1) = al s; (ps, s2) = alloc_n al n s1 in (p # ps, s2))"

locale page_allocator =
  fixes al :: "'s \<Rightarrow> nat \<times> 's"
    and fr :: "nat \<Rightarrow> 's \<Rightarrow> 's outcome"
    and frees :: "'s \<Rightarrow> nat list \<Rightarrow> bool"
    and page :: "'s \<Rightarrow> nat \<Rightarrow> bool"
  assumes al_empty: "frees s [] \<Longrightarrow> al s = (0, s)"
    and al_cons: "frees s (x # xs) \<Longrightarrow> \<exists>s'. al s = (x, s') \<and> frees s' xs"
    and frees_distinct: "frees s xs \<Longrightarrow> distinct xs \<and> 0 \<notin> set xs"
    and fr_ok: "frees s xs \<Longrightarrow> page s x \<Longrightarrow> x \<notin> set xs \<Longrightarrow>
      \<exists>s'. fr x s = Ok s' \<and> frees s' (x # xs)"
begin

lemma al_null_iff: "frees s xs \<Longrightarrow> fst (al s) = 0 \<longleftrightarrow> xs = []"
  using al_empty al_cons frees_distinct by (cases xs) (fastforce+)

lemma al_fresh: "frees s xs \<Longrightarrow> al s = (p, s') \<Longrightarrow> p \<noteq> 0 \<Longrightarrow> \<exists>ys. xs = p # ys \<and> frees s' ys \<and> p \<notin> set ys"
  using al_empty al_cons frees_distinct by (cases xs) (fastforce+)

lemma alloc_n_takes:
  "frees s xs \<Longrightarrow> n \<le> length xs \<Longrightarrow>
     \<exists>s'. alloc_n al n s = (take n xs, s') \<and> frees s' (drop n xs)"
proof (induction n arbitrary: s xs)
  case 0
  then show ?case by simp
next
  case (Suc n)
  then obtain x ys where xs: "xs = x # ys" by (cases xs) auto
  with Suc.prems al_cons obtain s1 where "al s = (x, s1)" "frees s1 ys" by blast
  with Suc.IH [of s1 ys] Suc.prems xs show ?case by auto
qed

lemma fr_al: "frees s xs \<Longrightarrow> page s x \<Longrightarrow> x \<notin> set xs \<Longrightarrow>
  \<exists>s' s''. fr x s = Ok s' \<and> al s' = (x, s'') \<and> frees s'' xs"
  using fr_ok al_cons by blast

end

lemma kalloc_cons:
  assumes "free_list s (x # xs)"
  shows "kalloc s = (x, s\<lparr>freelist := unat (get32 (kmem s) x)\<rparr>)"
    and "free_list (snd (kalloc s)) xs"
  using assms by (auto simp: free_list_def kalloc_def freepage_def Let_def)

lemma kfree_free_list:
  fixes s :: "'a kmem_state_scheme"
  assumes fl: "free_list s xs" and v: "freepage s v" "v \<notin> set xs"
  shows "\<exists>s'. kfree v s = Ok s' \<and> free_list s' (v # xs)"
proof -
  let ?s' = "s\<lparr>kmem := put32 v (of_nat (freelist s)) (fill (kmem s) v 1 PGSIZE), freelist := v\<rparr>"
  from v have "V2P v < PHYSTOP" unfolding freepage_def by (subst V2P_kernel) auto
  with v have "kfree v s = Ok ?s'" by (simp add: kfree_def freepage_def)
  have fl0: "freelist s < 2 ^ 32"
    using fl by (cases xs) (auto simp: free_list_def freepage_def)
  have "chain (kmem ?s') (freelist s) xs"
    using fl v by (intro free_list_write [OF fl, of v])
      (auto simp: freepage_def put32_other fill_outside)
  moreover have "unat (get32 (kmem ?s') v) = freelist s"
    using fl0 by (simp add: unat_of_nat)
  ultimately have "free_list ?s' (v # xs)"
    using fl v by (auto simp: free_list_def freepage_def)
  with \<open>kfree v s = Ok ?s'\<close> show ?thesis by blast
qed

interpretation kpages: page_allocator kalloc kfree free_list freepage
proof unfold_locales
  fix s :: "'a kmem_state_scheme" and xs x
  show "free_list s [] \<Longrightarrow> kalloc s = (0, s)"
    by (auto simp: free_list_def kalloc_def)
  show "free_list s (x # xs) \<Longrightarrow> \<exists>s'. kalloc s = (x, s') \<and> free_list s' xs"
    using kalloc_cons [of s x xs] by auto
  show "free_list s xs \<Longrightarrow> distinct xs \<and> 0 \<notin> set xs"
    by (auto simp: free_list_def freepage_def)
  show "free_list s xs \<Longrightarrow> freepage s x \<Longrightarrow> x \<notin> set xs \<Longrightarrow>
      \<exists>s'. kfree x s = Ok s' \<and> free_list s' (x # xs)"
    by (rule kfree_free_list)
qed

section \<open>Initialisation\<close>

lemma pages_of_step:
  "p + PGSIZE \<le> vend \<Longrightarrow> pages_of p vend = p # pages_of (p + PGSIZE) vend"
proof -
  assume le: "p + PGSIZE \<le> vend"
  then have "(vend - p) div PGSIZE = Suc ((vend - (p + PGSIZE)) div PGSIZE)"
    using le_div_geq [of PGSIZE "vend - p"] by (simp add: diff_diff_left)
  then show ?thesis
    by (simp add: pages_of_def upt_conv_Cons map_Suc_upt [symmetric] algebra_simps del: upt_Suc)
qed

lemma pages_of_end: "\<not> p + PGSIZE \<le> vend \<Longrightarrow> pages_of p vend = []"
  by (simp add: pages_of_def)

lemma distinct_pages_of: "distinct (pages_of p vend)"
  by (auto simp: pages_of_def distinct_map inj_on_def)

lemma kfree_kend: "kfree v s = Ok s' \<Longrightarrow> kend s' = kend s \<and> use_lock s' = use_lock s"
  by (auto simp: kfree_def split: if_splits)

lemma freerange_loop_frees:
  assumes "free_list s xs" and "\<forall>v \<in> set (pages_of p vend). freepage s v \<and> v \<notin> set xs"
  shows "\<exists>s'. freerange_loop p vend s = Ok s' \<and> free_list s' (rev (pages_of p vend) @ xs)
           \<and> use_lock s' = use_lock s"
  using assms
proof (induction p vend s arbitrary: xs rule: freerange_loop.induct)
  case (1 p vend s)
  show ?case
  proof (cases "p + PGSIZE \<le> vend")
    case False
    with "1.prems" show ?thesis
      by (simp add: freerange_loop.simps [of p vend s] pages_of_end)
  next
    case True
    note pg = pages_of_step [OF True]
    from "1.prems" pg obtain s1 where s1: "kfree p s = Ok s1" "free_list s1 (p # xs)"
      using kfree_free_list [of s xs p] by auto
    have "\<forall>v \<in> set (pages_of (p + PGSIZE) vend). freepage s1 v \<and> v \<notin> set (p # xs)"
      using "1.prems"(2) pg distinct_pages_of [of p vend] kfree_kend [OF s1(1)]
      by (auto simp: freepage_def)
    from "1.IH" [OF True s1(1) s1(2) this] s1 True pg kfree_kend [OF s1(1)]
    show ?thesis by (simp add: freerange_loop.simps [of p vend s])
  qed
qed

lemma freerange_loop_kend: "freerange_loop p vend s = Ok s' \<Longrightarrow> kend s' = kend s"
proof (induction p vend s rule: freerange_loop.induct)
  case (1 p vend s)
  from "1.prems" freerange_loop.simps [of p vend s] "1.IH" show ?case
    by (auto simp: bindE_eq_Ok split: if_splits dest: kfree_kend)
qed

text \<open>Two-phase start-up.  After \<open>kinit1\<close> on one range and \<open>kinit2\<close> on a disjoint one, the
  free list holds every whole page of both ranges, each once, and locking is switched on.\<close>

lemma kinit_frees_all:
  assumes "freelist s = 0" and "\<forall>v \<in> set (pages_of (PGROUNDUP a) b). freepage s v"
    and "\<forall>v \<in> set (pages_of (PGROUNDUP c) d). freepage s v"
    and "set (pages_of (PGROUNDUP a) b) \<inter> set (pages_of (PGROUNDUP c) d) = {}"
  shows "\<exists>s' xs. bindE (kinit1 a b s) (kinit2 c d) = Ok s' \<and> free_list s' xs \<and> use_lock s'
           \<and> set xs = set (pages_of (PGROUNDUP a) b) \<union> set (pages_of (PGROUNDUP c) d)"
proof -
  let ?s0 = "s\<lparr>use_lock := False\<rparr>"
  let ?A = "pages_of (PGROUNDUP a) b" and ?B = "pages_of (PGROUNDUP c) d"
  have "free_list ?s0 []" using assms(1) by (simp add: free_list_def)
  moreover have "\<forall>v \<in> set ?A. freepage ?s0 v \<and> v \<notin> set []"
    using assms(2) by (simp add: freepage_def)
  ultimately obtain s1 where s1: "freerange_loop (PGROUNDUP a) b ?s0 = Ok s1"
    "free_list s1 (rev ?A @ [])" using freerange_loop_frees by blast
  have "\<forall>v \<in> set ?B. freepage s1 v \<and> v \<notin> set (rev ?A @ [])"
    using assms(3,4) freerange_loop_kend [OF s1(1)] by (auto simp: freepage_def)
  with s1(2) obtain s2 where s2: "freerange_loop (PGROUNDUP c) d s1 = Ok s2"
    "free_list s2 (rev ?B @ rev ?A @ [])" using freerange_loop_frees by blast
  then have "free_list (s2\<lparr>use_lock := True\<rparr>) (rev ?B @ rev ?A @ [])"
    by (simp add: free_list_def freepage_def)
  with s1 s2 show ?thesis
    by (intro exI [of _ "s2\<lparr>use_lock := True\<rparr>"] exI [of _ "rev ?B @ rev ?A"])
      (auto simp: kinit1_def kinit2_def freerange_def)
qed

definition boot_mem :: kmem_state where
  "boot_mem = \<lparr>kmem = (\<lambda>_. 0), freelist = 0, use_lock = False, kend = 0x80110000\<rparr>"

end
