(* ===== verification/Sleeplock.thy ===== *)
theory Sleeplock
  imports Prelude
begin

text \<open>
  \<^verbatim>\<open>src/alarm/sleeplock.c\<close>: long-term locks for processes.  The inner spin lock makes each
  function one atomic step (theory \<open>Spinlock\<close>), so the model keeps the fields it protects:
  \<open>locked\<close> and the holder's \<open>pid\<close>.  \<open>sleep(lk, &lk->lk)\<close> on a held lock is the outcome
  \<open>Blocked\<close>: only another process's \<open>releasesleep\<close> lets the caller go on, and it then tests
  \<open>locked\<close> again.
\<close>

record sleeplock =
  locked :: bool
  lpid :: nat

definition initsleeplock :: sleeplock where
  "initsleeplock = \<lparr>locked = False, lpid = 0\<rparr>"

definition acquiresleep :: "nat \<Rightarrow> sleeplock \<Rightarrow> sleeplock outcome" where
  "acquiresleep pid lk =
     (if locked lk then Blocked ''sleep lock'' else Ok (lk\<lparr>locked := True, lpid := pid\<rparr>))"

definition releasesleep :: "sleeplock \<Rightarrow> sleeplock" where
  "releasesleep lk = lk\<lparr>locked := False, lpid := 0\<rparr>"

definition holdingsleep :: "sleeplock \<Rightarrow> bool" where
  "holdingsleep lk = locked lk"

section \<open>The mutual exclusion interface\<close>

text \<open>
  What users of a lock rely on: a free lock can be taken, a held one cannot, and releasing
  frees it.  From these laws alone: over any sequence of attempts and releases, the number of
  successful acquisitions exceeds the number of releases of a held lock by one exactly while
  the lock is held, so two acquisitions never succeed without a release between them.
\<close>

datatype 'p lock_op = Acquire 'p | Release

fun lock_run :: "('p \<Rightarrow> 'l \<Rightarrow> 'l outcome) \<Rightarrow> ('l \<Rightarrow> 'l) \<Rightarrow> ('l \<Rightarrow> bool) \<Rightarrow> 'l
    \<Rightarrow> 'p lock_op list \<Rightarrow> 'l \<times> nat \<times> nat" where
  "lock_run acq rel held l [] = (l, 0, 0)"
| "lock_run acq rel held l (Acquire p # ops) =
     (case acq p l of
        Ok l' \<Rightarrow> (let (m, a, r) = lock_run acq rel held l' ops in (m, Suc a, r))
      | _ \<Rightarrow> lock_run acq rel held l ops)"
| "lock_run acq rel held l (Release # ops) =
     (let (m, a, r) = lock_run acq rel held (rel l) ops in (m, a, if held l then Suc r else r))"

locale mutex =
  fixes free :: "'l"
    and acq :: "'p \<Rightarrow> 'l \<Rightarrow> 'l outcome"
    and rel :: "'l \<Rightarrow> 'l"
    and held :: "'l \<Rightarrow> bool"
  assumes held_free: "\<not> held free"
    and acq_free: "\<not> held l \<Longrightarrow> \<exists>l'. acq p l = Ok l' \<and> held l'"
    and acq_held: "held l \<Longrightarrow> acq p l \<noteq> Ok l'"
    and held_rel: "\<not> held (rel l)"
begin

lemma run_balance:
  "lock_run acq rel held l ops = (m, a, r) \<Longrightarrow>
     a + (if held l then 1 else 0) = r + (if held m then 1 else (0::nat))"
proof (induction ops arbitrary: l m a r)
  case Nil
  then show ?case by simp
next
  case (Cons op ops)
  show ?case
  proof (cases op)
    case (Acquire p)
    show ?thesis
    proof (cases "held l")
      case True
      then have "lock_run acq rel held l (op # ops) = lock_run acq rel held l ops"
        using acq_held Acquire by (cases "acq p l") auto
      with Cons.prems have "lock_run acq rel held l ops = (m, a, r)" by simp
      then show ?thesis by (rule Cons.IH)
    next
      case False
      then obtain l' where l': "acq p l = Ok l'" "held l'" using acq_free by blast
      obtain m' a' r' where rec: "lock_run acq rel held l' ops = (m', a', r')"
        by (cases "lock_run acq rel held l' ops")
      from Cons.IH [OF rec] Cons.prems Acquire False l' rec show ?thesis by auto
    qed
  next
    case Release
    obtain m' a' r' where rec: "lock_run acq rel held (rel l) ops = (m', a', r')"
      by (cases "lock_run acq rel held (rel l) ops")
    from Cons.IH [OF rec] Cons.prems Release rec show ?thesis
      by (auto simp: held_rel split: if_splits)
  qed
qed

lemma run_exclusive:
  assumes "lock_run acq rel held free ops = (m, a, r)"
  shows "r \<le> a \<and> a \<le> Suc r \<and> (held m \<longleftrightarrow> a = Suc r)"
  using run_balance [OF assms] held_free by (auto split: if_splits)

end

interpretation sl: mutex initsleeplock acquiresleep releasesleep holdingsleep
  by unfold_locales
    (auto simp: initsleeplock_def acquiresleep_def releasesleep_def holdingsleep_def)

end
