(* ===== verification/Ring.thy ===== *)
theory Ring
  imports Prelude
begin

text \<open>
  Doubly linked rings with a sentinel, as \<^verbatim>\<open>src/alarm/bio.c\<close> keeps them: the \<open>next\<close> and \<open>prev\<close>
  fields are maps from node to node, and \<open>ring nx pv h xs\<close> says that starting at the sentinel
  \<open>h\<close> the \<open>next\<close> links visit exactly \<open>xs\<close> and return to \<open>h\<close>, with \<open>prev\<close> the inverse.
  The lemmas show what unlinking a node, linking one behind the sentinel, and scanning in
  either direction do to that list.
\<close>

fun linked :: "(nat \<Rightarrow> nat) \<Rightarrow> (nat \<Rightarrow> nat) \<Rightarrow> nat list \<Rightarrow> bool" where
  "linked nx pv (a # b # r) \<longleftrightarrow> nx a = b \<and> pv b = a \<and> linked nx pv (b # r)"
| "linked nx pv r \<longleftrightarrow> True"

definition ring :: "(nat \<Rightarrow> nat) \<Rightarrow> (nat \<Rightarrow> nat) \<Rightarrow> nat \<Rightarrow> nat list \<Rightarrow> bool" where
  "ring nx pv h xs \<longleftrightarrow> distinct (h # xs) \<and> linked nx pv (h # xs @ [h])"

text \<open>A \<open>for\<close> loop over the ring that stops at the first node satisfying \<open>P\<close>.\<close>

partial_function (option) scan ::
  "(nat \<Rightarrow> nat) \<Rightarrow> nat \<Rightarrow> (nat \<Rightarrow> bool) \<Rightarrow> nat \<Rightarrow> nat option option" where
  "scan st h P b = (if b = h then Some None else if P b then Some (Some b) else scan st h P (st b))"

lemma linked_append:
  "linked nx pv (xs @ a # ys) \<longleftrightarrow> linked nx pv (xs @ [a]) \<and> linked nx pv (a # ys)"
proof (induction xs)
  case (Cons x xs)
  then show ?case by (cases xs) auto
qed simp

lemma linked_cong:
  "(\<And>x. x \<in> set (butlast zs) \<Longrightarrow> nx x = nx' x) \<Longrightarrow> (\<And>x. x \<in> set (tl zs) \<Longrightarrow> pv x = pv' x) \<Longrightarrow>
     linked nx pv zs = linked nx' pv' zs"
proof (induction nx pv zs rule: linked.induct)
  case (1 nx pv a b r)
  then have "linked nx pv (b # r) = linked nx' pv' (b # r)" by (intro "1.IH") (auto split: if_splits)
  with "1.prems" show ?case by auto
qed auto

lemma linked_rev: "linked nx pv zs \<Longrightarrow> linked pv nx (rev zs)"
proof (induction nx pv zs rule: linked.induct)
  case (1 nx pv a b r)
  then have "linked pv nx (rev r @ [b])" by simp
  with "1.prems" show ?case by (simp add: linked_append [of pv nx "rev r" b "[a]"])
qed auto

lemma ring_rev: "ring nx pv h xs \<Longrightarrow> ring pv nx h (rev xs)"
  using linked_rev [of nx pv "h # xs @ [h]"] by (auto simp: ring_def)

lemma ring_first: "ring nx pv h xs \<Longrightarrow> nx h = hd (xs @ [h])"
  by (cases xs) (auto simp: ring_def)

lemma ring_unlink:
  assumes r: "ring nx pv h (ys @ b # ws)"
  shows "ring (nx(pv b := nx b)) (pv(nx b := pv b)) h (ys @ ws)"
proof -
  obtain as L where L: "h # ys = as @ [L]" by (metis list.distinct(1) rev_exhaust)
  obtain R bs where R: "ws @ [h] = R # bs" by (cases "ws @ [h]") auto
  from r have d: "distinct (h # ys @ b # ws)" by (simp add: ring_def)
  have "h # (ys @ b # ws) @ [h] = as @ L # b # R # bs" using L R by simp
  with r have l: "linked nx pv (as @ L # b # R # bs)" by (simp add: ring_def)
  then have pb: "pv b = L" and nb: "nx b = R" and l1: "linked nx pv (as @ [L])"
    and l2: "linked nx pv (R # bs)"
    using linked_append [of nx pv as L "b # R # bs"] by auto
  have "distinct (h # ys)" and "distinct (ws @ [h])" using d by auto
  then have La: "L \<notin> set as" and R1: "R \<notin> set bs" unfolding L R by simp_all
  have tl: "tl (as @ [L]) = ys" unfolding L [symmetric] by simp
  have bl: "butlast (R # bs) = ws" unfolding R [symmetric] by simp
  have RM: "R \<in> insert h (set ws)" using arg_cong [OF R, of set] by auto
  have LM: "L \<in> insert h (set ys)" using arg_cong [OF L, of set] by auto
  have "linked (nx(L := R)) (pv(R := L)) (as @ [L])"
    using l1 La tl d RM by (subst linked_cong [where nx' = nx and pv' = pv]) auto
  moreover have "linked (nx(L := R)) (pv(R := L)) (R # bs)"
    using l2 R1 bl d LM by (subst linked_cong [where nx' = nx and pv' = pv]) auto
  ultimately have "linked (nx(L := R)) (pv(R := L)) (as @ L # R # bs)"
    using linked_append [of "nx(L := R)" "pv(R := L)" as L "R # bs"] by simp
  moreover have "as @ L # R # bs = h # (ys @ ws) @ [h]" using L R by simp
  ultimately show ?thesis using d pb nb by (simp add: ring_def)
qed

lemma ring_link:
  assumes r: "ring nx pv h xs" and b: "b \<notin> set (h # xs)"
  shows "ring (nx(b := nx h, h := b)) (pv(b := h, nx h := b)) h (b # xs)"
proof -
  obtain R bs where R: "xs @ [h] = R # bs" by (cases "xs @ [h]") auto
  have nh: "nx h = R" using ring_first [OF r] R by simp
  from r have d: "distinct (h # xs)" and "linked nx pv (h # R # bs)" using R by (simp_all add: ring_def)
  then have l: "linked nx pv (R # bs)" by simp
  have "distinct (xs @ [h])" using d by auto
  then have R1: "R \<notin> set bs" unfolding R by simp
  have bl: "butlast (R # bs) = xs" unfolding R [symmetric] by simp
  have RM: "R \<in> insert h (set xs)" "set bs \<subseteq> insert h (set xs)"
    using arg_cong [OF R, of set] by auto
  have "linked (nx(b := R, h := b)) (pv(b := h, R := b)) (R # bs)"
    using l R1 bl d b RM by (subst linked_cong [where nx' = nx and pv' = pv]) auto
  then have "linked (nx(b := R, h := b)) (pv(b := h, R := b)) (h # b # R # bs)"
    using b RM by auto
  then show ?thesis using d b R nh by (simp add: ring_def)
qed

lemma scan_linked:
  "linked nx pv (zs @ [h]) \<Longrightarrow> h \<notin> set zs \<Longrightarrow> scan nx h P (hd (zs @ [h])) = Some (find P zs)"
proof (induction zs)
  case Nil
  then show ?case by (simp add: scan.simps)
next
  case (Cons z zs)
  from Cons.prems have "nx z = hd (zs @ [h])" and "linked nx pv (zs @ [h])"
    by (cases zs; simp)+
  with Cons show ?case by (simp add: scan.simps [of nx h P z])
qed

lemma scan_ring: "ring nx pv h xs \<Longrightarrow> scan nx h P (nx h) = Some (find P xs)"
proof -
  assume r: "ring nx pv h xs"
  then have "linked nx pv (xs @ [h])" by (cases xs) (simp_all add: ring_def)
  with r show ?thesis
    unfolding ring_first [OF r] by (intro scan_linked) (auto simp: ring_def)
qed

lemma scan_ring_back: "ring nx pv h xs \<Longrightarrow> scan pv h P (pv h) = Some (find P (rev xs))"
  by (rule scan_ring [OF ring_rev])

lemma find_unique:
  "i \<in> set xs \<Longrightarrow> P i \<Longrightarrow> (\<And>j. j \<in> set xs \<Longrightarrow> P j \<Longrightarrow> j = i) \<Longrightarrow> find P xs = Some i"
proof (induction xs)
  case (Cons x xs)
  show ?case
  proof (cases "P x")
    case True
    with Cons.prems(3) have "x = i" by simp
    with True show ?thesis by simp
  next
    case False
    with Cons.prems(1,2) have "i \<in> set xs" by auto
    then have "find P xs = Some i"
      using Cons.prems(2) by (rule Cons.IH) (rule Cons.prems(3), simp)
    with False show ?thesis by simp
  qed
qed simp

lemma find_someD: "find P xs = Some i \<Longrightarrow> P i \<and> i \<in> set xs"
  by (induction xs) (auto split: if_splits)

lemma find_none_iff: "find P xs = None \<longleftrightarrow> (\<forall>x \<in> set xs. \<not> P x)"
  by (induction xs) auto

end
