(* ===== verification/Block_Interface.thy ===== *)
theory Block_Interface
  imports Prelude
begin

text \<open>
  The interface between the buffer cache (\<^verbatim>\<open>bio.c\<close>, provider) and the code that reads and writes
  disk blocks through it (\<^verbatim>\<open>log.c\<close> and \<^verbatim>\<open>fs.c\<close>, clients).  The laws say what \<open>bread\<close>,
  \<open>bwrite\<close>, \<open>brelse\<close> and a change of a held buffer's data do to four things a client can
  observe: the view of each block, the disk, the writes that reached the disk, and which
  blocks are pinned or held.  The client lemmas are the access patterns the sources use.
\<close>

locale block_cache =
  fixes rd :: "nat \<Rightarrow> 's \<Rightarrow> (nat \<times> 's) outcome"
    and wr :: "nat \<Rightarrow> 's \<Rightarrow> 's outcome"
    and rl :: "nat \<Rightarrow> 's \<Rightarrow> 's outcome"
    and put :: "nat \<Rightarrow> mem \<Rightarrow> 's \<Rightarrow> 's"
    and dat :: "nat \<Rightarrow> 's \<Rightarrow> mem"
    and inv :: "'s \<Rightarrow> bool"
    and vw :: "'s \<Rightarrow> nat \<Rightarrow> mem"
    and dk :: "'s \<Rightarrow> nat \<Rightarrow> mem"
    and hist :: "'s \<Rightarrow> (nat \<times> mem) list"
    and pin :: "'s \<Rightarrow> nat set"
    and held :: "'s \<Rightarrow> nat set"
    and hold :: "'s \<Rightarrow> nat \<Rightarrow> nat \<Rightarrow> bool"
    and size_of :: "'s \<Rightarrow> nat"
    and room :: nat
    and frame :: "'s \<Rightarrow> 's \<Rightarrow> bool"
  assumes rd_law: "inv s \<Longrightarrow> b < size_of s \<Longrightarrow> b \<notin> held s \<Longrightarrow>
      card (pin s \<union> held s) < room \<or> b \<in> pin s \<Longrightarrow>
      \<exists>i s'. rd b s = Ok (i, s') \<and> inv s' \<and> hold s' b i \<and> vw s' = vw s \<and> dk s' = dk s \<and>
        hist s' = hist s \<and> pin s' = pin s \<and> held s' = insert b (held s) \<and> frame s s' \<and>
        (\<forall>m j. hold s m j \<longrightarrow> hold s' m j)"
    and hold_law: "inv s \<Longrightarrow> hold s b i \<Longrightarrow> dat i s = vw s b"
    and put_law: "inv s \<Longrightarrow> hold s b i \<Longrightarrow>
      inv (put i d s) \<and> vw (put i d s) = (vw s)(b := d) \<and> dk (put i d s) = dk s \<and>
      hist (put i d s) = hist s \<and> pin (put i d s) = pin s \<and> held (put i d s) = held s \<and>
      frame s (put i d s) \<and> (\<forall>m j. hold s m j \<longrightarrow> hold (put i d s) m j)"
    and wr_law: "inv s \<Longrightarrow> hold s b i \<Longrightarrow>
      \<exists>s'. wr i s = Ok s' \<and> inv s' \<and> vw s' = vw s \<and> dk s' = (dk s)(b := vw s b) \<and>
        hist s' = hist s @ [(b, vw s b)] \<and> pin s' = pin s - {b} \<and> held s' = held s \<and>
        frame s s' \<and> (\<forall>m j. hold s m j \<longrightarrow> hold s' m j)"
    and rl_law: "inv s \<Longrightarrow> hold s b i \<Longrightarrow> b \<in> pin s \<or> vw s b = dk s b \<Longrightarrow>
      \<exists>s'. rl i s = Ok s' \<and> inv s' \<and> vw s' = vw s \<and> dk s' = dk s \<and> hist s' = hist s \<and>
        pin s' = pin s \<and> held s' = held s - {b} \<and> frame s s' \<and>
        (\<forall>m j. m \<noteq> b \<longrightarrow> hold s m j \<longrightarrow> hold s' m j)"
    and clean_law: "inv s \<Longrightarrow> b \<notin> held s \<Longrightarrow> b \<in> pin s \<or> vw s b = dk s b"
    and frame_size: "frame s s' \<Longrightarrow> size_of s' = size_of s"
    and frame_tr: "frame s s' \<Longrightarrow> frame s' s'' \<Longrightarrow> frame s s''"
    and pin_fin: "inv s \<Longrightarrow> finite (pin s \<union> held s)"
begin

text \<open>Two effects: nothing observable changed, or one block was written through to the disk.\<close>

definition unchanged :: "'s \<Rightarrow> 's \<Rightarrow> bool" where
  "unchanged s s' \<longleftrightarrow> inv s' \<and> vw s' = vw s \<and> dk s' = dk s \<and> hist s' = hist s \<and>
     pin s' = pin s \<and> held s' = held s \<and> frame s s'"

definition written :: "nat \<Rightarrow> mem \<Rightarrow> 's \<Rightarrow> 's \<Rightarrow> bool" where
  "written b d s s' \<longleftrightarrow> inv s' \<and> vw s' = (vw s)(b := d) \<and> dk s' = (dk s)(b := d) \<and>
     hist s' = hist s @ [(b, d)] \<and> pin s' = pin s - {b} \<and> held s' = held s \<and> frame s s'"

lemma peek_ok:
  assumes "inv s" "b < size_of s" "b \<notin> held s" "card (pin s \<union> held s) < room \<or> b \<in> pin s"
  shows "\<exists>i s1 s'. rd b s = Ok (i, s1) \<and> dat i s1 = vw s b \<and> rl i s1 = Ok s' \<and> unchanged s s'
           \<and> frame s s1"
proof -
  from rd_law [OF assms] obtain i s1 where 1: "rd b s = Ok (i, s1)" "inv s1" "hold s1 b i"
    "vw s1 = vw s" "dk s1 = dk s" "hist s1 = hist s" "pin s1 = pin s" "held s1 = insert b (held s)"
    "frame s s1" by blast
  have "b \<in> pin s1 \<or> vw s1 b = dk s1 b" using clean_law [OF assms(1,3)] 1 by simp
  from rl_law [OF 1(2,3) this] obtain s2 where 2: "rl i s1 = Ok s2" "inv s2" "vw s2 = vw s1"
    "dk s2 = dk s1" "hist s2 = hist s1" "pin s2 = pin s1" "held s2 = held s1 - {b}" "frame s1 s2"
    by blast
  from 1 2 hold_law [OF 1(2,3)] assms(3) frame_tr [OF 1(9) 2(8)] have "unchanged s s2"
    by (simp add: unchanged_def)
  with 1 2 hold_law [OF 1(2,3)] show ?thesis
    by (intro exI [of _ i] exI [of _ s1] exI [of _ s2]) simp
qed

lemma store_ok:
  assumes "inv s" "b < size_of s" "b \<notin> held s" "card (pin s \<union> held s) < room \<or> b \<in> pin s"
  shows "\<exists>i s1 s2 s'. rd b s = Ok (i, s1) \<and> dat i s1 = vw s b \<and> frame s s1 \<and>
           wr i (put i d s1) = Ok s2 \<and> rl i s2 = Ok s' \<and> written b d s s'"
proof -
  from rd_law [OF assms] obtain i s1 where 1: "rd b s = Ok (i, s1)" "inv s1" "hold s1 b i"
    "vw s1 = vw s" "dk s1 = dk s" "hist s1 = hist s" "pin s1 = pin s" "held s1 = insert b (held s)"
    "frame s s1" by blast
  from put_law [OF 1(2,3), of d] have 2: "inv (put i d s1)" "vw (put i d s1) = (vw s1)(b := d)"
    "dk (put i d s1) = dk s1" "hist (put i d s1) = hist s1" "pin (put i d s1) = pin s1"
    "held (put i d s1) = held s1" "frame s1 (put i d s1)" "hold (put i d s1) b i"
    using 1(3) by simp_all
  from wr_law [OF 2(1,8)] obtain s2 where 3: "wr i (put i d s1) = Ok s2" "inv s2"
    "vw s2 = vw (put i d s1)" "dk s2 = (dk (put i d s1))(b := vw (put i d s1) b)"
    "hist s2 = hist (put i d s1) @ [(b, vw (put i d s1) b)]" "pin s2 = pin (put i d s1) - {b}"
    "held s2 = held (put i d s1)" "frame (put i d s1) s2" "hold s2 b i" using 2(8) by blast
  have "b \<in> pin s2 \<or> vw s2 b = dk s2 b" using 3 by simp
  from rl_law [OF 3(2,9) this] obtain s3 where 4: "rl i s2 = Ok s3" "inv s3" "vw s3 = vw s2"
    "dk s3 = dk s2" "hist s3 = hist s2" "pin s3 = pin s2" "held s3 = held s2 - {b}" "frame s2 s3"
    by blast
  have "frame s s3" using 1(9) 2(7) 3(8) 4(8) frame_tr by blast
  then have "written b d s s3" using 1 2 3 4 assms(3) by (simp add: written_def)
  with 1 3 4 hold_law [OF 1(2,3)] show ?thesis
    by (intro exI [of _ i] exI [of _ s1] exI [of _ s2] exI [of _ s3]) simp
qed

text \<open>With source and destination held, the copy, the write and both releases.\<close>

lemma copy_held:
  assumes "inv s" "hold s a i" "hold s b j" "a \<noteq> b" "a \<in> pin s \<or> vw s a = dk s a"
  shows "\<exists>s1 s2 s'. wr j (put j (dat i s) s) = Ok s1 \<and> rl i s1 = Ok s2 \<and> rl j s2 = Ok s' \<and>
     inv s' \<and> vw s' = (vw s)(b := vw s a) \<and> dk s' = (dk s)(b := vw s a) \<and>
     hist s' = hist s @ [(b, vw s a)] \<and> pin s' = pin s - {b} \<and> held s' = held s - {a, b} \<and> frame s s'"
proof -
  let ?d = "vw s a" and ?p = "put j (vw s a) s"
  have d: "dat i s = ?d" by (rule hold_law [OF assms(1,2)])
  from put_law [OF assms(1,3), of ?d] have 2: "inv ?p" "vw ?p = (vw s)(b := ?d)" "dk ?p = dk s"
    "hist ?p = hist s" "pin ?p = pin s" "held ?p = held s" "frame s ?p" "hold ?p b j" "hold ?p a i"
    using assms(2,3) by simp_all
  from wr_law [OF 2(1,8)] obtain s1 where 3: "wr j ?p = Ok s1" "inv s1" "vw s1 = vw ?p"
    "dk s1 = (dk ?p)(b := vw ?p b)" "hist s1 = hist ?p @ [(b, vw ?p b)]" "pin s1 = pin ?p - {b}"
    "held s1 = held ?p" "frame ?p s1" "\<forall>m j. hold ?p m j \<longrightarrow> hold s1 m j" by (elim exE conjE)
  from 3(9) 2(8,9) have h: "hold s1 b j" "hold s1 a i" by blast+
  have "a \<in> pin s1 \<or> vw s1 a = dk s1 a" using 2 3 assms(4,5) by auto
  from rl_law [OF 3(2) h(2) this] obtain s2 where 4: "rl i s1 = Ok s2" "inv s2" "vw s2 = vw s1"
    "dk s2 = dk s1" "hist s2 = hist s1" "pin s2 = pin s1" "held s2 = held s1 - {a}" "frame s1 s2"
    "\<forall>m j. m \<noteq> a \<longrightarrow> hold s1 m j \<longrightarrow> hold s2 m j" by (elim exE conjE)
  from 4(9) h(1) assms(4) have h2: "hold s2 b j" by auto
  have "b \<in> pin s2 \<or> vw s2 b = dk s2 b" using 3 4 by simp
  from rl_law [OF 4(2) h2 this] obtain s3 where 5: "rl j s2 = Ok s3" "inv s3" "vw s3 = vw s2"
    "dk s3 = dk s2" "hist s3 = hist s2" "pin s3 = pin s2" "held s3 = held s2 - {b}" "frame s2 s3"
    by blast
  have "frame s s3" using 2(7) 3(8) 4(8) 5(8) frame_tr by blast
  moreover have "held s3 = held s - {a, b}" using 2 3 4 5 by auto
  ultimately show ?thesis using 2 3 4 5 d by (intro exI [of _ s1] exI [of _ s2] exI [of _ s3]) simp
qed

lemma card_insert_room:
  "inv s \<Longrightarrow> Suc (card (pin s \<union> held s)) < room \<Longrightarrow> card (pin s \<union> insert a (held s)) < room"
  using card_insert_if [OF pin_fin, of s a] by (auto split: if_splits)

text \<open>Copying block \<open>a\<close> to block \<open>b\<close>, reading the source first or the destination first.\<close>

lemma copy_source_first:
  assumes "inv s" "a < size_of s" "b < size_of s" "a \<noteq> b" "a \<notin> held s" "b \<notin> held s"
    "card (pin s \<union> held s) < room" "Suc (card (pin s \<union> held s)) < room \<or> b \<in> pin s"
  shows "\<exists>s'. bindE (rd a s) (\<lambda>(i, s). bindE (rd b s) (\<lambda>(j, s).
           bindE (wr j (put j (dat i s) s)) (\<lambda>s. bindE (rl i s) (rl j)))) = Ok s'
         \<and> written b (vw s a) s s'"
proof -
  from rd_law [OF assms(1,2,5)] assms(7) obtain i s1 where 1: "rd a s = Ok (i, s1)" "inv s1"
    "hold s1 a i" "vw s1 = vw s" "dk s1 = dk s" "hist s1 = hist s" "pin s1 = pin s"
    "held s1 = insert a (held s)" "frame s s1" by blast
  have "card (pin s1 \<union> held s1) < room \<or> b \<in> pin s1"
    using assms(8) card_insert_room [OF assms(1), of a] 1 by auto
  from rd_law [OF 1(2) _ _ this] 1 assms(3,4,6) frame_size [OF 1(9)]
  obtain j s2 where 2: "rd b s1 = Ok (j, s2)" "inv s2" "hold s2 b j" "vw s2 = vw s1" "dk s2 = dk s1"
    "hist s2 = hist s1" "pin s2 = pin s1" "held s2 = insert b (held s1)" "frame s1 s2" "hold s2 a i"
    by auto
  have "a \<in> pin s2 \<or> vw s2 a = dk s2 a" using clean_law [OF assms(1,5)] 1 2 by simp
  from copy_held [OF 2(2,10,3) assms(4) this] obtain s3 s4 s5 where
    3: "wr j (put j (dat i s2) s2) = Ok s3" "rl i s3 = Ok s4" "rl j s4 = Ok s5" "inv s5"
    "vw s5 = (vw s2)(b := vw s2 a)" "dk s5 = (dk s2)(b := vw s2 a)"
    "hist s5 = hist s2 @ [(b, vw s2 a)]" "pin s5 = pin s2 - {b}" "held s5 = held s2 - {a, b}"
    "frame s2 s5" by blast
  have "frame s s5" using 1(9) 2(9) 3(10) frame_tr by blast
  then have "written b (vw s a) s s5" using 1 2 3 assms(5,6) by (auto simp: written_def)
  with 1 2 3 show ?thesis by auto
qed

lemma copy_dest_first:
  assumes "inv s" "a < size_of s" "b < size_of s" "a \<noteq> b" "a \<notin> held s" "b \<notin> held s"
    "card (pin s \<union> held s) < room" "Suc (card (pin s \<union> held s)) < room \<or> a \<in> pin s"
  shows "\<exists>s'. bindE (rd b s) (\<lambda>(j, s). bindE (rd a s) (\<lambda>(i, s).
           bindE (wr j (put j (dat i s) s)) (\<lambda>s. bindE (rl i s) (rl j)))) = Ok s'
         \<and> written b (vw s a) s s'"
proof -
  from rd_law [OF assms(1,3,6)] assms(7) obtain j s1 where 1: "rd b s = Ok (j, s1)" "inv s1"
    "hold s1 b j" "vw s1 = vw s" "dk s1 = dk s" "hist s1 = hist s" "pin s1 = pin s"
    "held s1 = insert b (held s)" "frame s s1" by blast
  have "card (pin s1 \<union> held s1) < room \<or> a \<in> pin s1"
    using assms(8) card_insert_room [OF assms(1), of b] 1 by auto
  from rd_law [OF 1(2) _ _ this] 1 assms(2,4,5) frame_size [OF 1(9)]
  obtain i s2 where 2: "rd a s1 = Ok (i, s2)" "inv s2" "hold s2 a i" "vw s2 = vw s1" "dk s2 = dk s1"
    "hist s2 = hist s1" "pin s2 = pin s1" "held s2 = insert a (held s1)" "frame s1 s2" "hold s2 b j"
    by auto
  have "a \<in> pin s2 \<or> vw s2 a = dk s2 a" using clean_law [OF assms(1,5)] 1 2 by simp
  from copy_held [OF 2(2,3,10) assms(4) this] obtain s3 s4 s5 where
    3: "wr j (put j (dat i s2) s2) = Ok s3" "rl i s3 = Ok s4" "rl j s4 = Ok s5" "inv s5"
    "vw s5 = (vw s2)(b := vw s2 a)" "dk s5 = (dk s2)(b := vw s2 a)"
    "hist s5 = hist s2 @ [(b, vw s2 a)]" "pin s5 = pin s2 - {b}" "held s5 = held s2 - {a, b}"
    "frame s2 s5" by blast
  have "frame s s5" using 1(9) 2(9) 3(10) frame_tr by blast
  then have "written b (vw s a) s s5" using 1 2 3 assms(5,6) by (auto simp: written_def)
  with 1 2 3 show ?thesis by auto
qed

end

end
