(* ===== verification/Bio.thy ===== *)
theory Bio
  imports Kalloc Sleeplock Ring Block_Interface
begin

text \<open>
  \<^verbatim>\<open>src/alarm/bio.c\<close>, the buffer cache, over the memory disk of \<^verbatim>\<open>src/alarm/memide.c\<close>.
  Buffers are named by their index in \<open>bcache.buf\<close>; index \<open>NBUF\<close> is \<open>bcache.head\<close>.  The
  \<open>prev\<close>/\<open>next\<close> fields of all buffers are the maps \<open>bprev\<close>/\<open>bnext\<close>.  \<open>bcache.lock\<close> makes the
  list manipulations atomic.  \<open>diskwrites\<close> is a history variable: the writes that reached
  the disk, in order; it is what a crash argument needs and nothing reads it.
\<close>

abbreviation NBUF :: nat where "NBUF \<equiv> 30"
abbreviation BHEAD :: nat where "BHEAD \<equiv> NBUF"
abbreviation B_VALID :: word32 where "B_VALID \<equiv> 2"
abbreviation B_DIRTY :: word32 where "B_DIRTY \<equiv> 4"
abbreviation BSIZE :: nat where "BSIZE \<equiv> 512"

record buf =
  bflags :: word32
  bdev :: nat
  blockno :: nat
  block_lock :: sleeplock
  refcnt :: nat
  bdata :: mem

record bio_state = kmem_state +
  bufs :: "nat \<Rightarrow> buf"
  bnext :: "nat \<Rightarrow> nat"
  bprev :: "nat \<Rightarrow> nat"
  disk :: "nat \<Rightarrow> mem"
  disksize :: nat
  diskwrites :: "(nat \<times> mem) list"
  curpid :: nat

definition upd_buf :: "nat \<Rightarrow> (buf \<Rightarrow> buf) \<Rightarrow> 'a bio_state_scheme \<Rightarrow> 'a bio_state_scheme" where
  "upd_buf b f s = s\<lparr>bufs := (bufs s)(b := f (bufs s b))\<rparr>"

definition binit_step :: "nat \<Rightarrow> 'a bio_state_scheme \<Rightarrow> 'a bio_state_scheme" where
  "binit_step b s =
     (let s1 = s\<lparr>bnext := (bnext s)(b := bnext s BHEAD)\<rparr>;
          s2 = s1\<lparr>bprev := (bprev s1)(b := BHEAD)\<rparr>;
          s3 = upd_buf b (\<lambda>x. x\<lparr>block_lock := initsleeplock\<rparr>) s2;
          s4 = s3\<lparr>bprev := (bprev s3)(bnext s3 BHEAD := b)\<rparr>
      in s4\<lparr>bnext := (bnext s4)(BHEAD := b)\<rparr>)"

definition binit :: "'a bio_state_scheme \<Rightarrow> 'a bio_state_scheme" where
  "binit s = fold binit_step [0..<NBUF]
     (s\<lparr>bprev := (bprev s)(BHEAD := BHEAD), bnext := (bnext s)(BHEAD := BHEAD)\<rparr>)"

definition lock_buf :: "nat \<Rightarrow> 'a bio_state_scheme \<Rightarrow> (nat \<times> 'a bio_state_scheme) outcome" where
  "lock_buf b s =
     bindE (acquiresleep (curpid s) (block_lock (bufs s b)))
       (\<lambda>l. Ok (b, upd_buf b (\<lambda>x. x\<lparr>block_lock := l\<rparr>) s))"

definition bget :: "nat \<Rightarrow> nat \<Rightarrow> 'a bio_state_scheme \<Rightarrow> (nat \<times> 'a bio_state_scheme) outcome" where
  "bget dv bno s =
     (case scan (bnext s) BHEAD (\<lambda>b. bdev (bufs s b) = dv \<and> blockno (bufs s b) = bno)
             (bnext s BHEAD) of
        None \<Rightarrow> Forever
      | Some (Some b) \<Rightarrow> lock_buf b (upd_buf b (\<lambda>x. x\<lparr>refcnt := Suc (refcnt x)\<rparr>) s)
      | Some None \<Rightarrow>
          (case scan (bprev s) BHEAD
                  (\<lambda>b. refcnt (bufs s b) = 0 \<and> bflags (bufs s b) AND B_DIRTY = 0)
                  (bprev s BHEAD) of
             None \<Rightarrow> Forever
           | Some None \<Rightarrow> Panic ''bget: no buffers''
           | Some (Some b) \<Rightarrow>
               lock_buf b (upd_buf b
                 (\<lambda>x. x\<lparr>bdev := dv, blockno := bno, bflags := 0, refcnt := 1\<rparr>) s)))"

definition iderw :: "nat \<Rightarrow> 'a bio_state_scheme \<Rightarrow> 'a bio_state_scheme outcome" where
  "iderw i s =
     (let b = bufs s i in
      if \<not> holdingsleep (block_lock b) then Panic ''iderw: buf not locked''
      else if bflags b AND (B_VALID OR B_DIRTY) = B_VALID then Panic ''iderw: nothing to do''
      else if bdev b \<noteq> 1 then Panic ''iderw: request not for disk 1''
      else if disksize s \<le> blockno b then Panic ''iderw: block out of range''
      else if bflags b AND B_DIRTY \<noteq> 0 then
        Ok (upd_buf i (\<lambda>x. x\<lparr>bflags := (bflags b AND NOT B_DIRTY) OR B_VALID\<rparr>)
             (s\<lparr>disk := (disk s)(blockno b := bdata b),
                diskwrites := diskwrites s @ [(blockno b, bdata b)]\<rparr>))
      else
        Ok (upd_buf i (\<lambda>x. x\<lparr>bdata := disk s (blockno b), bflags := bflags b OR B_VALID\<rparr>) s))"

definition bread :: "nat \<Rightarrow> nat \<Rightarrow> 'a bio_state_scheme \<Rightarrow> (nat \<times> 'a bio_state_scheme) outcome" where
  "bread dv bno s =
     bindE (bget dv bno s) (\<lambda>(b, s).
       if bflags (bufs s b) AND B_VALID = 0
       then bindE (iderw b s) (\<lambda>s. Ok (b, s))
       else Ok (b, s))"

definition bwrite :: "nat \<Rightarrow> 'a bio_state_scheme \<Rightarrow> 'a bio_state_scheme outcome" where
  "bwrite b s =
     (if \<not> holdingsleep (block_lock (bufs s b)) then Panic ''bwrite''
      else iderw b (upd_buf b (\<lambda>x. x\<lparr>bflags := bflags x OR B_DIRTY\<rparr>) s))"

text \<open>The six pointer assignments of \<open>brelse\<close>, in the source's order.\<close>

definition relink :: "nat \<Rightarrow> 'a bio_state_scheme \<Rightarrow> 'a bio_state_scheme" where
  "relink b s =
     (let s1 = s\<lparr>bprev := (bprev s)(bnext s b := bprev s b)\<rparr>;
          s2 = s1\<lparr>bnext := (bnext s1)(bprev s1 b := bnext s1 b)\<rparr>;
          s3 = s2\<lparr>bnext := (bnext s2)(b := bnext s2 BHEAD)\<rparr>;
          s4 = s3\<lparr>bprev := (bprev s3)(b := BHEAD)\<rparr>;
          s5 = s4\<lparr>bprev := (bprev s4)(bnext s4 BHEAD := b)\<rparr>
      in s5\<lparr>bnext := (bnext s5)(BHEAD := b)\<rparr>)"

definition brelse :: "nat \<Rightarrow> 'a bio_state_scheme \<Rightarrow> 'a bio_state_scheme outcome" where
  "brelse b s =
     (if \<not> holdingsleep (block_lock (bufs s b)) then Panic ''brelse''
      else
        let s1 = upd_buf b (\<lambda>x. x\<lparr>block_lock := releasesleep (block_lock x)\<rparr>) s;
            s2 = upd_buf b (\<lambda>x. x\<lparr>refcnt := u32 (refcnt x + 2 ^ 32 - 1)\<rparr>) s1
        in Ok (if refcnt (bufs s2 b) = 0 then relink b s2 else s2))"

section \<open>The cache invariant and the block view\<close>

abbreviation valid :: "buf \<Rightarrow> bool" where "valid b \<equiv> bit (bflags b) (Suc 0)"
abbreviation dirty :: "buf \<Rightarrow> bool" where "dirty b \<equiv> bit (bflags b) 2"
abbreviation blocked :: "buf \<Rightarrow> bool" where "blocked b \<equiv> locked (block_lock b)"

text \<open>
  \<open>lru s xs\<close>: the ring holds every buffer once, most recently used first.  \<open>bcache_inv\<close>: that,
  each block of disk 1 in at most one buffer, a valid clean unlocked buffer agrees with the
  disk, a dirty buffer is valid, and the reference count is 1 for a locked buffer and 0
  otherwise (no process waits for a buffer between operations).  The \<open>view\<close> of a block is
  what a reader sees: the cached copy if there is one, else the disk.  \<open>dirtyb\<close> and \<open>heldb\<close>
  are the blocks pinned by the log and the blocks some caller has locked.
\<close>

definition lru :: "'a bio_state_scheme \<Rightarrow> nat list \<Rightarrow> bool" where
  "lru s xs \<longleftrightarrow> ring (bnext s) (bprev s) BHEAD xs \<and> set xs = {..<NBUF}"

definition bufof :: "'a bio_state_scheme \<Rightarrow> nat \<Rightarrow> nat option" where
  "bufof s bno = find (\<lambda>i. bdev (bufs s i) = 1 \<and> blockno (bufs s i) = bno) [0..<NBUF]"

definition view :: "'a bio_state_scheme \<Rightarrow> nat \<Rightarrow> mem" where
  "view s bno =
     (case bufof s bno of
        Some i \<Rightarrow> if valid (bufs s i) then bdata (bufs s i) else disk s bno
      | None \<Rightarrow> disk s bno)"

definition bcache_inv :: "'a bio_state_scheme \<Rightarrow> bool" where
  "bcache_inv s \<longleftrightarrow>
     (\<exists>xs. lru s xs) \<and>
     (\<forall>i < NBUF. \<forall>j < NBUF. bdev (bufs s i) = 1 \<longrightarrow> bdev (bufs s j) = 1 \<longrightarrow>
        blockno (bufs s i) = blockno (bufs s j) \<longrightarrow> i = j) \<and>
     (\<forall>i < NBUF. bdev (bufs s i) = 1 \<longrightarrow> valid (bufs s i) \<longrightarrow> \<not> dirty (bufs s i) \<longrightarrow>
        \<not> blocked (bufs s i) \<longrightarrow> bdata (bufs s i) = disk s (blockno (bufs s i))) \<and>
     (\<forall>i < NBUF. dirty (bufs s i) \<longrightarrow>
        valid (bufs s i) \<and> bdev (bufs s i) = 1 \<and> blockno (bufs s i) < disksize s) \<and>
     (\<forall>i < NBUF. refcnt (bufs s i) = (if blocked (bufs s i) then 1 else 0)) \<and>
     (\<forall>i < NBUF. blocked (bufs s i) \<longrightarrow> bdev (bufs s i) = 1)"

definition nfree :: "'a bio_state_scheme \<Rightarrow> nat" where
  "nfree s = card {i. i < NBUF \<and> refcnt (bufs s i) = 0 \<and> \<not> dirty (bufs s i)}"

definition dirtyb :: "'a bio_state_scheme \<Rightarrow> nat set" where
  "dirtyb s = {bno. \<exists>i. bufof s bno = Some i \<and> dirty (bufs s i)}"

definition heldb :: "'a bio_state_scheme \<Rightarrow> nat set" where
  "heldb s = {bno. \<exists>i. bufof s bno = Some i \<and> blocked (bufs s i)}"

definition avail :: "'a bio_state_scheme \<Rightarrow> nat \<Rightarrow> bool" where
  "avail s bno \<longleftrightarrow> bno \<notin> heldb s \<and> (bufof s bno \<noteq> None \<or> 0 < nfree s)"

text \<open>What a cache operation may change: the buffers, the ring and the disk.\<close>

definition bframe :: "'a bio_state_scheme \<Rightarrow> 'a bio_state_scheme \<Rightarrow> bool" where
  "bframe s s' \<longleftrightarrow>
     (\<exists>bs nx pv d w. s' = s\<lparr>bufs := bs, bnext := nx, bprev := pv, disk := d, diskwrites := w\<rparr>)"

section \<open>Flag arithmetic\<close>

lemma flag_dirty [simp]: "(f AND B_DIRTY = 0) = (\<not> bit f 2)"
  using and_exp_eq_0_iff_not_bit [of f 2] by simp

lemma flag_valid [simp]: "(f AND B_VALID = 0) = (\<not> bit f (Suc 0))"
  using and_exp_eq_0_iff_not_bit [of f 1] by simp

lemma flag_bits [simp]:
  "bit (f OR B_DIRTY) 2" "bit (f OR B_DIRTY) (Suc 0) = bit (f::word32) (Suc 0)"
  "bit ((f AND - 5) OR B_VALID) (Suc 0)" "\<not> bit ((f AND - 5) OR B_VALID) 2"
  "bit (f OR B_VALID) (Suc 0)" "bit (f OR B_VALID) 2 = bit f 2"
  "\<not> bit (f AND - 5) 2" "bit (f AND - 5) (Suc 0) = bit f (Suc 0)"
  by (simp_all add: bit_simps)

lemma flag_clean [simp]: "((f::word32) AND 6 = B_VALID) = (bit f (Suc 0) \<and> \<not> bit f 2)"
proof -
  have "bit (6::word32) n \<longleftrightarrow> n = 1 \<or> n = 2" for n
    by (cases n; simp; cases "n - 1"; simp; cases "n - 2"; simp add: bit_simps)
  moreover have "bit (2::word32) n \<longleftrightarrow> n = 1" for n
    by (cases n; simp; cases "n - 1"; simp add: bit_simps)
  moreover have "f AND 6 = 2 \<longleftrightarrow> (\<forall>n<32. bit (f AND 6) n = bit (2::word32) n)"
    by (auto intro: bit_word_eqI)
  ultimately have eq: "f AND 6 = 2 \<longleftrightarrow> (\<forall>n<32. (bit f n \<and> (n = 1 \<or> n = 2)) = (n = 1))"
    by (simp only: bit_and_iff)
  show ?thesis
  proof
    assume "f AND 6 = B_VALID"
    with eq have *: "\<forall>n<32. (bit f n \<and> (n = 1 \<or> n = 2)) = (n = 1)" by simp
    from *[rule_format, of 1] *[rule_format, of 2] show "bit f (Suc 0) \<and> \<not> bit f 2" by simp
  next
    assume "bit f (Suc 0) \<and> \<not> bit f 2"
    then show "f AND 6 = B_VALID" using eq by auto
  qed
qed

section \<open>Looking up buffers\<close>

lemma bcache_invD:
  assumes "bcache_inv s"
  shows "\<exists>xs. lru s xs"
    and "\<And>i j. i < NBUF \<Longrightarrow> j < NBUF \<Longrightarrow> bdev (bufs s i) = 1 \<Longrightarrow> bdev (bufs s j) = 1 \<Longrightarrow>
           blockno (bufs s i) = blockno (bufs s j) \<Longrightarrow> i = j"
    and "\<And>i. i < NBUF \<Longrightarrow> bdev (bufs s i) = 1 \<Longrightarrow> valid (bufs s i) \<Longrightarrow> \<not> dirty (bufs s i) \<Longrightarrow>
           \<not> blocked (bufs s i) \<Longrightarrow> bdata (bufs s i) = disk s (blockno (bufs s i))"
    and "\<And>i. i < NBUF \<Longrightarrow> dirty (bufs s i) \<Longrightarrow>
           valid (bufs s i) \<and> bdev (bufs s i) = 1 \<and> blockno (bufs s i) < disksize s"
    and "\<And>i. i < NBUF \<Longrightarrow> refcnt (bufs s i) = (if blocked (bufs s i) then 1 else 0)"
    and "\<And>i. i < NBUF \<Longrightarrow> blocked (bufs s i) \<Longrightarrow> bdev (bufs s i) = 1"
  using assms unfolding bcache_inv_def by blast+

lemma bufof_Some:
  assumes "bcache_inv s"
  shows "bufof s bno = Some i \<longleftrightarrow> i < NBUF \<and> bdev (bufs s i) = 1 \<and> blockno (bufs s i) = bno"
proof
  assume "bufof s bno = Some i"
  then show "i < NBUF \<and> bdev (bufs s i) = 1 \<and> blockno (bufs s i) = bno"
    unfolding bufof_def by (auto dest: find_someD)
next
  assume i: "i < NBUF \<and> bdev (bufs s i) = 1 \<and> blockno (bufs s i) = bno"
  show "bufof s bno = Some i"
    unfolding bufof_def
    by (rule find_unique) (use i bcache_invD(2) [OF assms] in auto)
qed

lemma bufof_None:
  "bufof s bno = None \<longleftrightarrow> (\<forall>i < NBUF. \<not> (bdev (bufs s i) = 1 \<and> blockno (bufs s i) = bno))"
  by (auto simp: bufof_def find_none_iff)

lemma scan_bufof:
  assumes inv: "bcache_inv s"
  shows "scan (bnext s) BHEAD (\<lambda>b. bdev (bufs s b) = 1 \<and> blockno (bufs s b) = bno)
           (bnext s BHEAD) = Some (bufof s bno)"
proof -
  obtain xs where r: "ring (bnext s) (bprev s) BHEAD xs" and set: "set xs = {..<NBUF}"
    using bcache_invD(1) [OF inv] by (auto simp: lru_def)
  let ?P = "\<lambda>b. bdev (bufs s b) = 1 \<and> blockno (bufs s b) = bno"
  have "find ?P xs = bufof s bno"
  proof (cases "bufof s bno")
    case None
    then have "find ?P xs = None" using set by (auto simp: bufof_None find_none_iff)
    with None show ?thesis by simp
  next
    case (Some i)
    then have "find ?P xs = Some i"
      using set bcache_invD(2) [OF inv] by (intro find_unique) (auto simp: bufof_Some [OF inv])
    with Some show ?thesis by simp
  qed
  with scan_ring [OF r] show ?thesis by simp
qed

lemma scan_free:
  assumes inv: "bcache_inv s" and free: "0 < nfree s"
  shows "\<exists>i < NBUF. refcnt (bufs s i) = 0 \<and> \<not> dirty (bufs s i) \<and>
           scan (bprev s) BHEAD (\<lambda>b. refcnt (bufs s b) = 0 \<and> bflags (bufs s b) AND B_DIRTY = 0)
             (bprev s BHEAD) = Some (Some i)"
proof -
  obtain xs where r: "ring (bnext s) (bprev s) BHEAD xs" and set: "set xs = {..<NBUF}"
    using bcache_invD(1) [OF inv] by (auto simp: lru_def)
  let ?P = "\<lambda>b. refcnt (bufs s b) = 0 \<and> bflags (bufs s b) AND B_DIRTY = 0"
  from free have "{i. i < NBUF \<and> refcnt (bufs s i) = 0 \<and> \<not> dirty (bufs s i)} \<noteq> {}"
    by (auto simp: nfree_def card_gt_0_iff)
  then have "\<exists>i \<in> set (rev xs). ?P i" using set by auto
  then have "find ?P (rev xs) \<noteq> None" by (simp only: find_none_iff) blast
  then obtain i where f: "find ?P (rev xs) = Some i" by blast
  from find_someD [OF f] set have "?P i \<and> i < NBUF" by simp
  with f scan_ring_back [OF r, of ?P] show ?thesis by (intro exI [of _ i]) simp
qed

section \<open>Loading a buffer\<close>

text \<open>
  \<open>loads s bno i b\<close>: buffer \<open>i\<close> may be given the contents \<open>b\<close> for block \<open>bno\<close>: a copy of the
  block, locked and referenced, in the buffer that already holds the block or in a free one.
\<close>

definition loads :: "'a bio_state_scheme \<Rightarrow> nat \<Rightarrow> nat \<Rightarrow> buf \<Rightarrow> bool" where
  "loads s bno i b \<longleftrightarrow>
     i < NBUF \<and> bno < disksize s \<and> bdev b = 1 \<and> blockno b = bno \<and> valid b \<and> blocked b \<and>
     bdata b = view s bno \<and> refcnt b = 1 \<and> \<not> blocked (bufs s i) \<and>
     (bufof s bno = Some i \<and> dirty b = dirty (bufs s i)
      \<or> bufof s bno = None \<and> \<not> dirty (bufs s i) \<and> \<not> dirty b)"

lemma iderw_read:
  assumes "blocked (bufs s i)" "\<not> valid (bufs s i)" "\<not> dirty (bufs s i)" "bdev (bufs s i) = 1"
    "blockno (bufs s i) < disksize s"
  shows "iderw i s = Ok (s\<lparr>bufs := (bufs s)(i := (bufs s i)\<lparr>bdata := disk s (blockno (bufs s i)),
           bflags := bflags (bufs s i) OR B_VALID\<rparr>)\<rparr>)"
  using assms by (simp add: iderw_def holdingsleep_def upd_buf_def Let_def)

lemma iderw_flush:
  assumes "blocked (bufs s i)" "dirty (bufs s i)" "bdev (bufs s i) = 1"
    "blockno (bufs s i) < disksize s"
  shows "iderw i s = Ok (s\<lparr>bufs := (bufs s)(i := (bufs s i)\<lparr>bflags :=
             (bflags (bufs s i) AND NOT B_DIRTY) OR B_VALID\<rparr>),
           disk := (disk s)(blockno (bufs s i) := bdata (bufs s i)),
           diskwrites := diskwrites s @ [(blockno (bufs s i), bdata (bufs s i))]\<rparr>)"
  using assms by (cases s) (simp add: iderw_def holdingsleep_def upd_buf_def Let_def)

lemma bread_after_bget:
  assumes g: "bget 1 bno s = Ok (i, s\<lparr>bufs := (bufs s)(i := b)\<rparr>)"
    and b: "blocked b" "bdev b = 1" "blockno b = bno" "dirty b \<longrightarrow> valid b"
    and bno: "bno < disksize s"
  shows "bread 1 bno s = Ok (i, s\<lparr>bufs := (bufs s)(i :=
     if valid b then b else b\<lparr>bdata := disk s bno, bflags := bflags b OR B_VALID\<rparr>)\<rparr>)"
proof (cases "valid b")
  case True
  with g show ?thesis by (simp add: bread_def)
next
  case False
  let ?s = "s\<lparr>bufs := (bufs s)(i := b)\<rparr>"
  from iderw_read [of ?s i] False b bno have "iderw i ?s = Ok (?s\<lparr>bufs := (bufs ?s)(i :=
      b\<lparr>bdata := disk s bno, bflags := bflags b OR B_VALID\<rparr>)\<rparr>)" by simp
  with g False show ?thesis by (simp add: bread_def)
qed

lemma bread_loads:
  assumes inv: "bcache_inv s" and av: "avail s bno" and bno: "bno < disksize s"
  shows "\<exists>i b. bread 1 bno s = Ok (i, s\<lparr>bufs := (bufs s)(i := b)\<rparr>) \<and> loads s bno i b"
proof (cases "bufof s bno")
  case (Some i)
  from Some have i: "i < NBUF" "bdev (bufs s i) = 1" "blockno (bufs s i) = bno"
    by (auto simp: bufof_Some [OF inv])
  from av Some have l: "\<not> blocked (bufs s i)" by (auto simp: avail_def heldb_def)
  with bcache_invD(5) [OF inv i(1)] have rc: "refcnt (bufs s i) = 0" by simp
  let ?b = "(bufs s i)\<lparr>refcnt := Suc (refcnt (bufs s i)),
              block_lock := (block_lock (bufs s i))\<lparr>locked := True, lpid := curpid s\<rparr>\<rparr>"
  have "bget 1 bno s = Ok (i, s\<lparr>bufs := (bufs s)(i := ?b)\<rparr>)"
    unfolding bget_def scan_bufof [OF inv] Some
    using l by (simp add: lock_buf_def acquiresleep_def upd_buf_def)
  from bread_after_bget [OF this] i bno bcache_invD(4) [OF inv i(1)]
  have "bread 1 bno s = Ok (i, s\<lparr>bufs := (bufs s)(i :=
     if valid ?b then ?b else ?b\<lparr>bdata := disk s bno, bflags := bflags ?b OR B_VALID\<rparr>)\<rparr>)"
    by simp
  moreover have "loads s bno i
     (if valid ?b then ?b else ?b\<lparr>bdata := disk s bno, bflags := bflags ?b OR B_VALID\<rparr>)"
    using i l rc Some bno by (auto simp: loads_def view_def)
  ultimately show ?thesis by blast
next
  case None
  from av None have "0 < nfree s" by (auto simp: avail_def)
  from scan_free [OF inv this] obtain i where i: "i < NBUF" "refcnt (bufs s i) = 0"
    "\<not> dirty (bufs s i)" and sf: "scan (bprev s) BHEAD
      (\<lambda>b. refcnt (bufs s b) = 0 \<and> bflags (bufs s b) AND B_DIRTY = 0) (bprev s BHEAD) = Some (Some i)"
    by blast
  from i have nl: "\<not> blocked (bufs s i)" using bcache_invD(5) [OF inv i(1)] by (auto split: if_splits)
  let ?b = "(bufs s i)\<lparr>bdev := 1, blockno := bno, bflags := 0, refcnt := 1,
              block_lock := (block_lock (bufs s i))\<lparr>locked := True, lpid := curpid s\<rparr>\<rparr>"
  have "bget 1 bno s = Ok (i, s\<lparr>bufs := (bufs s)(i := ?b)\<rparr>)"
    unfolding bget_def scan_bufof [OF inv] None sf
    using nl by (simp add: lock_buf_def acquiresleep_def upd_buf_def)
  from bread_after_bget [OF this] bno
  have "bread 1 bno s = Ok (i, s\<lparr>bufs := (bufs s)(i :=
     ?b\<lparr>bdata := disk s bno, bflags := 0 OR B_VALID\<rparr>)\<rparr>)" by simp
  moreover have "loads s bno i (?b\<lparr>bdata := disk s bno, bflags := 0 OR B_VALID\<rparr>)"
    using i nl None bno by (simp add: loads_def view_def bit_simps)
  ultimately show ?thesis by blast
qed

section \<open>What the operations do to the view\<close>

lemma bframeI:
  "s' = s\<lparr>bufs := bs, bnext := nx, bprev := pv, disk := d, diskwrites := w\<rparr> \<Longrightarrow> bframe s s'"
  unfolding bframe_def by blast

lemma bframe_refl [simp]: "bframe s s"
  by (rule bframeI [where bs = "bufs s" and nx = "bnext s" and pv = "bprev s" and d = "disk s"
        and w = "diskwrites s"]) simp

lemma bframe_trans [trans]:
  assumes "bframe s s'" and "bframe s' s''"
  shows "bframe s s''"
proof -
  from assms(2) obtain bs nx pv d w
    where 2: "s'' = s'\<lparr>bufs := bs, bnext := nx, bprev := pv, disk := d, diskwrites := w\<rparr>"
    unfolding bframe_def by blast
  from assms(1) have "s'' = s\<lparr>bufs := bs, bnext := nx, bprev := pv, disk := d, diskwrites := w\<rparr>"
    unfolding bframe_def 2 by auto
  then show ?thesis by (rule bframeI)
qed

lemma bframe_disksize: "bframe s s' \<Longrightarrow> disksize s' = disksize s"
  by (auto simp: bframe_def)

lemma bcache_invI:
  assumes "\<exists>xs. lru s xs"
    and "\<And>i j. i < NBUF \<Longrightarrow> j < NBUF \<Longrightarrow> bdev (bufs s i) = 1 \<Longrightarrow> bdev (bufs s j) = 1 \<Longrightarrow>
           blockno (bufs s i) = blockno (bufs s j) \<Longrightarrow> i = j"
    and "\<And>i. i < NBUF \<Longrightarrow> bdev (bufs s i) = 1 \<Longrightarrow> valid (bufs s i) \<Longrightarrow> \<not> dirty (bufs s i) \<Longrightarrow>
           \<not> blocked (bufs s i) \<Longrightarrow> bdata (bufs s i) = disk s (blockno (bufs s i))"
    and "\<And>i. i < NBUF \<Longrightarrow> dirty (bufs s i) \<Longrightarrow>
           valid (bufs s i) \<and> bdev (bufs s i) = 1 \<and> blockno (bufs s i) < disksize s"
    and "\<And>i. i < NBUF \<Longrightarrow> refcnt (bufs s i) = (if blocked (bufs s i) then 1 else 0)"
    and "\<And>i. i < NBUF \<Longrightarrow> blocked (bufs s i) \<Longrightarrow> bdev (bufs s i) = 1"
  shows "bcache_inv s"
  using assms unfolding bcache_inv_def by blast

lemma viewI:
  assumes "bcache_inv s" "i < NBUF" "bdev (bufs s i) = 1" "blockno (bufs s i) = bno" "valid (bufs s i)"
  shows "view s bno = bdata (bufs s i)"
  using assms by (simp add: view_def bufof_Some [OF assms(1), THEN iffD2])

text \<open>A buffer is free unless the log pins it or a caller holds it.\<close>

lemma nfree_count:
  assumes inv: "bcache_inv s"
  shows "nfree s + card (dirtyb s \<union> heldb s) = NBUF"
proof -
  note I = bcache_invD [OF inv]
  let ?U = "{i. i < NBUF \<and> (dirty (bufs s i) \<or> blocked (bufs s i))}"
  let ?F = "{i. i < NBUF \<and> refcnt (bufs s i) = 0 \<and> \<not> dirty (bufs s i)}"
  have dev: "bdev (bufs s i) = 1" if "i \<in> ?U" for i using that I(4,6) by blast
  have "dirtyb s \<union> heldb s = (\<lambda>i. blockno (bufs s i)) ` ?U"
    using dev by (auto simp: dirtyb_def heldb_def bufof_Some [OF inv] image_iff)
  moreover have "inj_on (\<lambda>i. blockno (bufs s i)) ?U"
    using dev I(2) by (auto intro!: inj_onI)
  ultimately have "card (dirtyb s \<union> heldb s) = card ?U" by (simp add: card_image)
  moreover have "?F = {..<NBUF} - ?U" using I(5) by (auto split: if_splits)
  then have "card ?F = NBUF - card ?U" by (simp add: card_Diff_subset subset_iff)
  moreover have "card ?U \<le> NBUF" using card_mono [of "{..<NBUF}" ?U] by auto
  ultimately show ?thesis by (simp add: nfree_def)
qed

lemma finite_dirtyb: "bcache_inv s \<Longrightarrow> finite (dirtyb s)" and finite_heldb: "bcache_inv s \<Longrightarrow> finite (heldb s)"
  by (auto simp: dirtyb_def heldb_def bufof_Some
      intro!: finite_subset [OF _ finite_imageI [OF finite_lessThan [of NBUF], of "\<lambda>i. blockno (bufs s i)"]])

lemma availI:
  assumes "bcache_inv s" "bno \<notin> heldb s" "card (dirtyb s \<union> heldb s) < NBUF \<or> bno \<in> dirtyb s"
  shows "avail s bno"
  using assms nfree_count [OF assms(1)] by (auto simp: avail_def dirtyb_def)

text \<open>Loading a block changes no view, pins nothing and uses up at most one free buffer.\<close>

lemma load_inv:
  assumes inv: "bcache_inv s" and ld: "loads s bno i b"
  shows "bcache_inv (s\<lparr>bufs := (bufs s)(i := b)\<rparr>)"
proof -
  note I = bcache_invD [OF inv]
  have other: "bufof s bno = Some j" if "j < NBUF" "bdev (bufs s j) = 1" "blockno (bufs s j) = bno" for j
    using that by (simp add: bufof_Some [OF inv])
  have uniq: "j = i" if "j < NBUF" "bdev (bufs s j) = 1" "blockno (bufs s j) = bno" for j
    using other [OF that] ld by (auto simp: loads_def)
  let ?s = "s\<lparr>bufs := (bufs s)(i := b)\<rparr>"
  show ?thesis
  proof (rule bcache_invI)
    show "\<exists>xs. lru ?s xs" using I(1) by (simp add: lru_def)
  next
    fix j k assume jk: "j < NBUF" "k < NBUF" "bdev (bufs ?s j) = 1" "bdev (bufs ?s k) = 1"
      "blockno (bufs ?s j) = blockno (bufs ?s k)"
    show "j = k"
    proof (cases "j = i")
      case True
      have "bdev (bufs s k) = 1 \<and> blockno (bufs s k) = bno" if "k \<noteq> i"
        using jk(4,5) True that ld by (simp add: loads_def)
      with uniq [OF jk(2)] True show ?thesis by blast
    next
      case False
      have "bdev (bufs s j) = 1 \<and> blockno (bufs s j) = bno" if "k = i"
        using jk(3,5) False that ld by (simp add: loads_def)
      moreover have "j = k" if "k \<noteq> i"
        using I(2) [OF jk(1,2)] jk(3-5) False that by simp
      ultimately show ?thesis using uniq [OF jk(1)] by blast
    qed
  next
    fix j assume "j < NBUF" "bdev (bufs ?s j) = 1" "valid (bufs ?s j)" "\<not> dirty (bufs ?s j)"
      "\<not> blocked (bufs ?s j)"
    with I(3) [of j] ld show "bdata (bufs ?s j) = disk ?s (blockno (bufs ?s j))"
      by (cases "j = i") (simp_all add: loads_def)
  next
    fix j assume "j < NBUF" "dirty (bufs ?s j)"
    with I(4) [of j] ld show "valid (bufs ?s j) \<and> bdev (bufs ?s j) = 1 \<and> blockno (bufs ?s j) < disksize ?s"
      by (cases "j = i") (simp_all add: loads_def)
  next
    fix j assume "j < NBUF"
    with I(5) [of j] ld show "refcnt (bufs ?s j) = (if blocked (bufs ?s j) then 1 else 0)"
      by (cases "j = i") (simp_all add: loads_def)
  next
    fix j assume "j < NBUF" "blocked (bufs ?s j)"
    with I(6) [of j] ld show "bdev (bufs ?s j) = 1"
      by (cases "j = i") (simp_all add: loads_def)
  qed
qed

lemma load_bufof:
  assumes inv: "bcache_inv s" and ld: "loads s bno i b"
  shows "bufof (s\<lparr>bufs := (bufs s)(i := b)\<rparr>) n =
     (if n = bno then Some i else if bufof s n = Some i then None else bufof s n)"
proof -
  let ?s = "s\<lparr>bufs := (bufs s)(i := b)\<rparr>"
  note B = bufof_Some [OF inv] bufof_Some [OF load_inv [OF inv ld]]
  consider "n = bno" | "n \<noteq> bno" "bufof s n = Some i" | j where "n \<noteq> bno" "bufof s n = Some j" "j \<noteq> i"
    | "n \<noteq> bno" "bufof s n = None" by (cases "bufof s n") auto
  then show ?thesis
  proof cases
    case 1
    with ld show ?thesis by (simp add: B loads_def)
  next
    case 2
    have "bufof ?s n = None"
      unfolding bufof_None using 2 ld bcache_invD(2) [OF inv] by (auto simp: B loads_def)
    with 2 show ?thesis by simp
  next
    case 3
    then have "bufof ?s n = Some j" by (simp add: B)
    with 3 show ?thesis by simp
  next
    case 4
    then have "bufof ?s n = None" using ld by (auto simp: bufof_None loads_def)
    with 4 show ?thesis by simp
  qed
qed

lemma load_view:
  assumes inv: "bcache_inv s" and ld: "loads s bno i b"
  shows "view (s\<lparr>bufs := (bufs s)(i := b)\<rparr>) = view s"
proof
  fix n
  let ?s = "s\<lparr>bufs := (bufs s)(i := b)\<rparr>"
  note B = load_bufof [OF inv ld, of n]
  consider "n = bno" | "n \<noteq> bno" "bufof s n = Some i" | "n \<noteq> bno" "bufof s n \<noteq> Some i" by auto
  then show "view ?s n = view s n"
  proof cases
    case 1
    with B ld show ?thesis by (simp add: view_def loads_def)
  next
    case 2
    then have i: "i < NBUF" "bdev (bufs s i) = 1" "blockno (bufs s i) = n"
      by (simp_all add: bufof_Some [OF inv])
    from 2 ld have "\<not> dirty (bufs s i)" "\<not> blocked (bufs s i)"
      using bufof_Some [OF inv, of bno i] i(3) by (auto simp: loads_def)
    with bcache_invD(3) [OF inv i(1,2)] i(3) have "valid (bufs s i) \<longrightarrow> bdata (bufs s i) = disk s n"
      by blast
    with 2 B show ?thesis by (simp add: view_def)
  next
    case 3
    with B show ?thesis by (cases "bufof s n") (simp_all add: view_def)
  qed
qed

lemma load_dirtyb:
  assumes inv: "bcache_inv s" and ld: "loads s bno i b"
  shows "dirtyb (s\<lparr>bufs := (bufs s)(i := b)\<rparr>) = dirtyb s"
proof (rule set_eqI)
  fix n
  note B = load_bufof [OF inv ld, of n]
  have "bufof s n = Some i \<Longrightarrow> n \<noteq> bno \<Longrightarrow> \<not> dirty (bufs s i)"
    using ld bufof_Some [OF inv, of bno i] bufof_Some [OF inv, of n i] by (auto simp: loads_def)
  then show "n \<in> dirtyb (s\<lparr>bufs := (bufs s)(i := b)\<rparr>) \<longleftrightarrow> n \<in> dirtyb s"
    using B ld by (cases "bufof s n") (auto simp: dirtyb_def loads_def)
qed

lemma load_heldb:
  assumes inv: "bcache_inv s" and ld: "loads s bno i b"
  shows "heldb (s\<lparr>bufs := (bufs s)(i := b)\<rparr>) = insert bno (heldb s)"
proof (rule set_eqI)
  fix n
  note B = load_bufof [OF inv ld, of n]
  show "n \<in> heldb (s\<lparr>bufs := (bufs s)(i := b)\<rparr>) \<longleftrightarrow> n \<in> insert bno (heldb s)"
    using B ld by (cases "bufof s n") (auto simp: heldb_def loads_def)
qed

lemma bufof_cong:
  "(\<And>i. i < NBUF \<Longrightarrow> bdev (bufs s' i) = bdev (bufs s i) \<and> blockno (bufs s' i) = blockno (bufs s i))
     \<Longrightarrow> bufof s' n = bufof s n"
  unfolding bufof_def by (rule find_cong) auto

text \<open>
  \<open>holds s bno i\<close>: the caller has block \<open>bno\<close> locked in buffer \<open>i\<close>, as between \<open>bread\<close> and
  \<open>brelse\<close>.
\<close>

definition holds :: "'a bio_state_scheme \<Rightarrow> nat \<Rightarrow> nat \<Rightarrow> bool" where
  "holds s bno i \<longleftrightarrow> bufof s bno = Some i \<and> blocked (bufs s i) \<and> valid (bufs s i) \<and> bno < disksize s"

lemma holdsD:
  assumes "bcache_inv s" and "holds s bno i"
  shows "i < NBUF" "bdev (bufs s i) = 1" "blockno (bufs s i) = bno" "blocked (bufs s i)"
    "valid (bufs s i)" "bno < disksize s" "refcnt (bufs s i) = 1" "view s bno = bdata (bufs s i)"
    "bno \<in> heldb s" "bufof s bno = Some i"
proof -
  from assms(2) have h: "bufof s bno = Some i" "blocked (bufs s i)" "valid (bufs s i)" "bno < disksize s"
    by (simp_all add: holds_def)
  then show i: "i < NBUF" "bdev (bufs s i) = 1" "blockno (bufs s i) = bno"
    by (simp_all add: bufof_Some [OF assms(1)])
  show "refcnt (bufs s i) = 1" using bcache_invD(5) [OF assms(1) i(1)] h by simp
  from h show "blocked (bufs s i)" "valid (bufs s i)" "bno < disksize s" "bufof s bno = Some i"
    by simp_all
  from h show "view s bno = bdata (bufs s i)" "bno \<in> heldb s" by (auto simp: view_def heldb_def)
qed

lemma bread_ok:
  assumes inv: "bcache_inv s" and av: "avail s bno" and bno: "bno < disksize s"
  shows "\<exists>i s'. bread 1 bno s = Ok (i, s') \<and> bcache_inv s' \<and> holds s' bno i \<and> view s' = view s
     \<and> disk s' = disk s \<and> diskwrites s' = diskwrites s \<and> dirtyb s' = dirtyb s
     \<and> heldb s' = insert bno (heldb s) \<and> bframe s s'
     \<and> (\<forall>n j. bufof s n = Some j \<longrightarrow> n \<in> dirtyb s \<union> heldb s \<longrightarrow> bufof s' n = Some j)
     \<and> (\<forall>m j. holds s m j \<longrightarrow> holds s' m j)"
proof -
  from bread_loads [OF inv av bno] obtain i b where br: "bread 1 bno s = Ok (i, s\<lparr>bufs := (bufs s)(i := b)\<rparr>)"
    and ld: "loads s bno i b" by blast
  let ?s = "s\<lparr>bufs := (bufs s)(i := b)\<rparr>"
  note B = load_bufof [OF inv ld]
  have pin: "bufof ?s n = Some j" if "bufof s n = Some j" "n \<in> dirtyb s \<union> heldb s" for n j
  proof (cases "n = bno")
    case True
    with B that ld show ?thesis by (auto simp: loads_def)
  next
    case False
    have "j \<noteq> i"
    proof
      assume "j = i"
      with that ld False have "dirty (bufs s i)" "bufof s bno = Some i"
        by (auto simp: dirtyb_def heldb_def loads_def)
      with \<open>j = i\<close> that(1) False show False
        using bufof_Some [OF inv, of bno i] bufof_Some [OF inv, of n i] by simp
    qed
    with B False that(1) show ?thesis by simp
  qed
  have "holds ?s m j" if "holds s m j" for m j
  proof -
    note H = holdsD [OF inv that]
    have "bufof ?s m = Some j" using pin [OF H(10)] H(9) by simp
    moreover have "j \<noteq> i" using ld H(4) by (auto simp: loads_def)
    ultimately show ?thesis using H by (simp add: holds_def)
  qed
  moreover have "holds ?s bno i" using B [of bno] ld by (simp add: holds_def loads_def)
  moreover have "bframe s ?s"
    by (rule bframeI [where bs = "(bufs s)(i := b)" and nx = "bnext s" and pv = "bprev s"
          and d = "disk s" and w = "diskwrites s"]) simp
  ultimately show ?thesis
    using br load_inv [OF inv ld] load_view [OF inv ld] load_dirtyb [OF inv ld]
      load_heldb [OF inv ld] pin by (intro exI [of _ i] exI [of _ ?s]) simp
qed

lemma holds_inj: "bcache_inv s \<Longrightarrow> holds s m i \<Longrightarrow> holds s n i \<Longrightarrow> m = n"
  by (metis holdsD(3))

text \<open>Changing the data of a held buffer changes the view of its block only.\<close>

definition set_data :: "nat \<Rightarrow> mem \<Rightarrow> 'a bio_state_scheme \<Rightarrow> 'a bio_state_scheme" where
  "set_data i d s = upd_buf i (\<lambda>x. x\<lparr>bdata := d\<rparr>) s"

lemma set_data_ok:
  assumes inv: "bcache_inv s" and h: "holds s bno i"
  shows "bcache_inv (set_data i d s)" "view (set_data i d s) = (view s)(bno := d)"
    "bufof (set_data i d s) n = bufof s n" "dirtyb (set_data i d s) = dirtyb s"
    "heldb (set_data i d s) = heldb s" "holds (set_data i d s) m j \<longleftrightarrow> holds s m j" "bframe s (set_data i d s)"
    "disk (set_data i d s) = disk s" "diskwrites (set_data i d s) = diskwrites s"
    "bdata (bufs (set_data i d s) i) = d"
proof -
  note H = holdsD [OF inv h]
  let ?s = "set_data i d s"
  have bs: "bufs ?s = (bufs s)(i := (bufs s i)\<lparr>bdata := d\<rparr>)" "disk ?s = disk s"
    "disksize ?s = disksize s" "bnext ?s = bnext s" "bprev ?s = bprev s"
    by (simp_all add: set_data_def upd_buf_def)
  show bo: "bufof ?s n = bufof s n" for n by (rule bufof_cong) (simp add: bs)
  show "bcache_inv ?s"
  proof (rule bcache_invI)
    show "\<exists>xs. lru ?s xs"
      using bcache_invD(1) [OF inv] by (simp add: lru_def bs)
    fix j k assume "j < NBUF" "k < NBUF" "bdev (bufs ?s j) = 1" "bdev (bufs ?s k) = 1"
      "blockno (bufs ?s j) = blockno (bufs ?s k)"
    then show "j = k" using bcache_invD(2) [OF inv, of j k] by (auto simp: bs split: if_splits)
  qed (use H bcache_invD(3-6) [OF inv] in \<open>auto simp: bs split: if_splits\<close>)
  show "view ?s = (view s)(bno := d)"
  proof
    fix n
    have "bufof s n = Some i \<Longrightarrow> n = bno" using H(3) by (simp add: bufof_Some [OF inv])
    then show "view ?s n = ((view s)(bno := d)) n"
      using H by (cases "bufof s n") (auto simp: view_def bo bs)
  qed
  show "dirtyb ?s = dirtyb s" "heldb ?s = heldb s" by (auto simp: dirtyb_def heldb_def bo bs)
  show "holds ?s m j \<longleftrightarrow> holds s m j" by (auto simp: holds_def bo bs)
  show "bframe s ?s"
    by (rule bframeI [where bs = "bufs ?s" and nx = "bnext s" and pv = "bprev s"
          and d = "disk s" and w = "diskwrites s"]) (simp add: set_data_def upd_buf_def)
  show "disk ?s = disk s" "diskwrites ?s = diskwrites s" "bdata (bufs ?s i) = d"
    by (simp_all add: set_data_def upd_buf_def)
qed

text \<open>Setting \<open>B_DIRTY\<close> on a held buffer, as \<open>log_write\<close> does, pins the block.\<close>

lemma pin_ok:
  assumes inv: "bcache_inv s" and h: "holds s bno i"
  defines "s' \<equiv> upd_buf i (\<lambda>x. x\<lparr>bflags := bflags x OR B_DIRTY\<rparr>) s"
  shows "bcache_inv s'" "view s' = view s" "dirtyb s' = insert bno (dirtyb s)" "heldb s' = heldb s"
    "holds s' m j \<longleftrightarrow> holds s m j" "bframe s s'" "disk s' = disk s" "diskwrites s' = diskwrites s"
proof -
  note H = holdsD [OF inv h]
  have bs: "bufs s' = (bufs s)(i := (bufs s i)\<lparr>bflags := bflags (bufs s i) OR B_DIRTY\<rparr>)"
    "disk s' = disk s" "disksize s' = disksize s" "bnext s' = bnext s" "bprev s' = bprev s"
    by (simp_all add: s'_def upd_buf_def)
  have bo: "bufof s' n = bufof s n" for n by (rule bufof_cong) (simp add: bs)
  show "bcache_inv s'"
  proof (rule bcache_invI)
    show "\<exists>xs. lru s' xs"
      using bcache_invD(1) [OF inv] by (simp add: lru_def bs)
    fix j k assume "j < NBUF" "k < NBUF" "bdev (bufs s' j) = 1" "bdev (bufs s' k) = 1"
      "blockno (bufs s' j) = blockno (bufs s' k)"
    then show "j = k" using bcache_invD(2) [OF inv, of j k] by (auto simp: bs split: if_splits)
  qed (use H bcache_invD(3-6) [OF inv] in \<open>auto simp: bs split: if_splits\<close>)
  have i: "bufof s n = Some i \<longleftrightarrow> n = bno" for n using H by (auto simp: bufof_Some [OF inv])
  show "view s' = view s"
  proof
    fix n show "view s' n = view s n"
      using H by (cases "bufof s n") (auto simp: view_def bo bs)
  qed
  show "dirtyb s' = insert bno (dirtyb s)"
  proof (rule set_eqI)
    fix n show "n \<in> dirtyb s' \<longleftrightarrow> n \<in> insert bno (dirtyb s)"
      using i [of n] i [of bno] by (cases "bufof s n") (auto simp: dirtyb_def bo bs)
  qed
  show "heldb s' = heldb s" by (auto simp: heldb_def bo bs)
  show "holds s' m j \<longleftrightarrow> holds s m j" by (auto simp: holds_def bo bs)
  show "bframe s s'"
    by (rule bframeI [where bs = "bufs s'" and nx = "bnext s" and pv = "bprev s"
          and d = "disk s" and w = "diskwrites s"]) (simp add: s'_def upd_buf_def)
  show "disk s' = disk s" "diskwrites s' = diskwrites s" by (simp_all add: s'_def upd_buf_def)
qed

text \<open>\<open>bwrite\<close> makes the disk agree with the view of the block and unpins it.\<close>

lemma bwrite_ok:
  assumes inv: "bcache_inv s" and h: "holds s bno i"
  shows "\<exists>s'. bwrite i s = Ok s' \<and> bcache_inv s' \<and> view s' = view s \<and>
     disk s' = (disk s)(bno := view s bno) \<and> diskwrites s' = diskwrites s @ [(bno, view s bno)] \<and>
     dirtyb s' = dirtyb s - {bno} \<and> heldb s' = heldb s \<and> bframe s s' \<and>
     (\<forall>n. bufof s' n = bufof s n) \<and> (\<forall>m j. holds s m j \<longrightarrow> holds s' m j)"
proof -
  note H = holdsD [OF inv h]
  define s' where "s' = s\<lparr>bufs := (bufs s)(i := (bufs s i)\<lparr>bflags :=
      ((bflags (bufs s i) OR B_DIRTY) AND NOT B_DIRTY) OR B_VALID\<rparr>),
      disk := (disk s)(bno := view s bno), diskwrites := diskwrites s @ [(bno, view s bno)]\<rparr>"
  have sel: "bufs s' = (bufs s)(i := (bufs s i)\<lparr>bflags :=
      ((bflags (bufs s i) OR B_DIRTY) AND NOT B_DIRTY) OR B_VALID\<rparr>)"
    "disk s' = (disk s)(bno := view s bno)" "diskwrites s' = diskwrites s @ [(bno, view s bno)]"
    "bnext s' = bnext s" "bprev s' = bprev s" "disksize s' = disksize s"
    by (simp_all add: s'_def)
  have w: "bwrite i s = Ok s'"
    unfolding bwrite_def s'_def
    using H iderw_flush [of "upd_buf i (\<lambda>x. x\<lparr>bflags := bflags x OR B_DIRTY\<rparr>) s" i]
    by (simp add: upd_buf_def holdingsleep_def)
  have bo: "bufof s' n = bufof s n" for n by (rule bufof_cong) (simp add: sel)
  have uniq: "bufof s n = Some i \<longleftrightarrow> n = bno" for n using H by (auto simp: bufof_Some [OF inv])
  have "bcache_inv s'"
  proof (rule bcache_invI)
    show "\<exists>xs. lru s' xs" using bcache_invD(1) [OF inv] by (simp add: lru_def sel)
    fix j k assume "j < NBUF" "k < NBUF" "bdev (bufs s' j) = 1" "bdev (bufs s' k) = 1"
      "blockno (bufs s' j) = blockno (bufs s' k)"
    then show "j = k" using bcache_invD(2) [OF inv, of j k] by (auto simp: sel split: if_splits)
  next
    fix j assume j: "j < NBUF" "bdev (bufs s' j) = 1" "valid (bufs s' j)" "\<not> dirty (bufs s' j)"
      "\<not> blocked (bufs s' j)"
    then have "j \<noteq> i" using H(4) by (auto simp: sel)
    with j bcache_invD(2) [OF inv j(1) H(1)] H(2,3) have "blockno (bufs s j) \<noteq> bno"
      by (auto simp: sel)
    with \<open>j \<noteq> i\<close> j bcache_invD(3) [OF inv, of j]
    show "bdata (bufs s' j) = disk s' (blockno (bufs s' j))" by (simp add: sel)
  qed (use H bcache_invD(4-6) [OF inv] in \<open>auto simp: sel split: if_splits\<close>)
  moreover have "view s' = view s"
  proof
    fix n show "view s' n = view s n"
      using H uniq [of n] by (cases "bufof s n") (auto simp: view_def bo sel)
  qed
  moreover have "dirtyb s' = dirtyb s - {bno}"
  proof (rule set_eqI)
    fix n show "n \<in> dirtyb s' \<longleftrightarrow> n \<in> dirtyb s - {bno}"
      using uniq [of n] by (cases "bufof s n") (auto simp: dirtyb_def bo sel)
  qed
  moreover have "heldb s' = heldb s" by (auto simp: heldb_def bo sel)
  moreover have "bframe s s'"
    by (rule bframeI [where bs = "bufs s'" and nx = "bnext s" and pv = "bprev s"
          and d = "disk s'" and w = "diskwrites s'"]) (simp add: s'_def)
  moreover have "holds s m j \<longrightarrow> holds s' m j" for m j by (auto simp: holds_def bo sel)
  ultimately show ?thesis using w bo sel(2,3) by blast
qed

text \<open>
  \<open>brelse\<close> unlocks and moves the buffer to the front of the ring; it keeps the view as long
  as an unpinned buffer goes back in agreement with the disk.
\<close>

lemma relink_ring:
  assumes "ring (bnext s) (bprev s) BHEAD xs" and "b \<in> set xs"
  shows "ring (bnext (relink b s)) (bprev (relink b s)) BHEAD (b # remove1 b xs)"
proof -
  obtain ys ws where xs: "xs = ys @ b # ws" and b: "b \<notin> set ys" using assms(2) by (meson split_list_first)
  have d: "distinct (BHEAD # xs)" using assms(1) by (simp add: ring_def)
  let ?nx = "(bnext s)(bprev s b := bnext s b)" and ?pv = "(bprev s)(bnext s b := bprev s b)"
  have r: "ring ?nx ?pv BHEAD (ys @ ws)" using assms(1) unfolding xs by (rule ring_unlink)
  have nb: "bnext s b \<noteq> b"
  proof -
    have "linked (bnext s) (bprev s) (BHEAD # ys @ b # (ws @ [BHEAD]))"
      using assms(1) xs by (simp add: ring_def)
    then have "linked (bnext s) (bprev s) (b # (ws @ [BHEAD]))"
      using linked_append [of "bnext s" "bprev s" "BHEAD # ys" b "ws @ [BHEAD]"] by simp
    with d xs show ?thesis by (cases ws) auto
  qed
  have "ring (?nx(b := ?nx BHEAD, BHEAD := b)) (?pv(b := BHEAD, ?nx BHEAD := b)) BHEAD (b # ys @ ws)"
    using d xs by (intro ring_link [OF r]) auto
  moreover have "remove1 b xs = ys @ ws" using xs b by (simp add: remove1_append)
  ultimately show ?thesis using nb d xs by (auto simp: relink_def Let_def)
qed

lemma relink_sel [simp]:
  "bufs (relink b s) = bufs s" "disk (relink b s) = disk s"
  "diskwrites (relink b s) = diskwrites s" "disksize (relink b s) = disksize s"
  by (simp_all add: relink_def Let_def)

lemma relink_bframe: "bframe s (relink b s)"
  by (rule bframeI [where bs = "bufs s" and nx = "bnext (relink b s)" and pv = "bprev (relink b s)"
        and d = "disk s" and w = "diskwrites s"]) (simp add: relink_def Let_def)

lemma brelse_ok:
  assumes inv: "bcache_inv s" and h: "holds s bno i"
    and clean: "bno \<in> dirtyb s \<or> view s bno = disk s bno"
  shows "\<exists>s'. brelse i s = Ok s' \<and> bcache_inv s' \<and> view s' = view s \<and> disk s' = disk s \<and>
     diskwrites s' = diskwrites s \<and> dirtyb s' = dirtyb s \<and> heldb s' = heldb s - {bno} \<and>
     bframe s s' \<and> (\<forall>n. bufof s' n = bufof s n) \<and>
     (\<forall>m j. m \<noteq> bno \<longrightarrow> holds s m j \<longrightarrow> holds s' m j) \<and>
     (\<forall>xs. lru s xs \<longrightarrow> lru s' (i # remove1 i xs))"
proof -
  note H = holdsD [OF inv h]
  define s1 where "s1 = s\<lparr>bufs := (bufs s)(i := (bufs s i)\<lparr>block_lock :=
      releasesleep (block_lock (bufs s i)), refcnt := 0\<rparr>)\<rparr>"
  define s' where "s' = relink i s1"
  have sel: "bufs s' = (bufs s)(i := (bufs s i)\<lparr>block_lock :=
      releasesleep (block_lock (bufs s i)), refcnt := 0\<rparr>)" "disk s' = disk s"
    "diskwrites s' = diskwrites s" "disksize s' = disksize s"
    by (simp_all add: s'_def s1_def)
  have w: "brelse i s = Ok s'"
    using H(4,7) by (simp add: brelse_def holdingsleep_def upd_buf_def u32_def s'_def s1_def Let_def)
  have bo: "bufof s' n = bufof s n" for n by (rule bufof_cong) (simp add: sel)
  have uniq: "bufof s n = Some i \<longleftrightarrow> n = bno" for n using H by (auto simp: bufof_Some [OF inv])
  have lru: "lru s' (i # remove1 i xs)" if "lru s xs" for xs
  proof -
    have "ring (bnext s1) (bprev s1) BHEAD xs" "i \<in> set xs" "distinct xs"
      using that H(1) by (auto simp: lru_def s1_def ring_def)
    from relink_ring [OF this(1,2)] this(2,3) that show ?thesis
      by (auto simp: lru_def s'_def)
  qed
  have "bcache_inv s'"
  proof (rule bcache_invI)
    show "\<exists>xs. lru s' xs" using bcache_invD(1) [OF inv] lru by blast
    fix j k assume "j < NBUF" "k < NBUF" "bdev (bufs s' j) = 1" "bdev (bufs s' k) = 1"
      "blockno (bufs s' j) = blockno (bufs s' k)"
    then show "j = k" using bcache_invD(2) [OF inv, of j k] by (auto simp: sel split: if_splits)
  next
    fix j assume j: "j < NBUF" "bdev (bufs s' j) = 1" "valid (bufs s' j)" "\<not> dirty (bufs s' j)"
      "\<not> blocked (bufs s' j)"
    show "bdata (bufs s' j) = disk s' (blockno (bufs s' j))"
    proof (cases "j = i")
      case True
      with j(4) have "bno \<notin> dirtyb s" using uniq [of bno] by (auto simp: dirtyb_def sel)
      with clean H True show ?thesis by (simp add: sel)
    next
      case False
      with j bcache_invD(3) [OF inv, of j] show ?thesis by (simp add: sel)
    qed
  qed (use H bcache_invD(4-6) [OF inv] in \<open>auto simp: sel releasesleep_def split: if_splits\<close>)
  moreover have "view s' = view s"
  proof
    fix n show "view s' n = view s n"
      by (cases "bufof s n") (auto simp: view_def bo sel)
  qed
  moreover have "dirtyb s' = dirtyb s" by (auto simp: dirtyb_def bo sel)
  moreover have "heldb s' = heldb s - {bno}"
  proof (rule set_eqI)
    fix n show "n \<in> heldb s' \<longleftrightarrow> n \<in> heldb s - {bno}"
      using uniq [of n] by (cases "bufof s n") (auto simp: heldb_def bo sel releasesleep_def)
  qed
  moreover have "bframe s s'"
  proof -
    have "bframe s s1"
      by (rule bframeI [where bs = "bufs s1" and nx = "bnext s" and pv = "bprev s"
            and d = "disk s" and w = "diskwrites s"]) (simp add: s1_def)
    then show ?thesis unfolding s'_def using relink_bframe by (rule bframe_trans)
  qed
  moreover have "holds s m j \<longrightarrow> holds s' m j" if "m \<noteq> bno" for m j
    using that uniq [of m] by (auto simp: holds_def bo sel)
  ultimately show ?thesis using w bo lru sel(2,3) by blast
qed

section \<open>Initialisation\<close>

lemma binit_ring:
  assumes "ring (bnext s) (bprev s) BHEAD xs" and "b \<notin> set (BHEAD # xs)"
  shows "ring (bnext (binit_step b s)) (bprev (binit_step b s)) BHEAD (b # xs)"
  using ring_link [OF assms] assms(2) by (simp add: binit_step_def upd_buf_def Let_def)

lemma binit_fold:
  "ring (bnext s) (bprev s) BHEAD xs \<Longrightarrow> distinct bs \<Longrightarrow> set bs \<inter> set (BHEAD # xs) = {} \<Longrightarrow>
     ring (bnext (fold binit_step bs s)) (bprev (fold binit_step bs s)) BHEAD (rev bs @ xs)"
proof (induction bs arbitrary: s xs)
  case (Cons b bs)
  from Cons.prems binit_ring [of s xs b]
  have "ring (bnext (binit_step b s)) (bprev (binit_step b s)) BHEAD (b # xs)" by simp
  from Cons.IH [OF this] Cons.prems show ?case by simp
qed simp

lemma binit_fold_sel:
  "disk (fold binit_step bs s) = disk s" "disksize (fold binit_step bs s) = disksize s"
  "diskwrites (fold binit_step bs s) = diskwrites s"
  "bufs (fold binit_step bs s) i =
     (if i \<in> set bs then (bufs s i)\<lparr>block_lock := initsleeplock\<rparr> else bufs s i)"
  by (induction bs arbitrary: s) (auto simp: binit_step_def upd_buf_def Let_def)

lemma binit_lru: "lru (binit s) (rev [0..<NBUF])"
proof -
  let ?s = "s\<lparr>bprev := (bprev s)(BHEAD := BHEAD), bnext := (bnext s)(BHEAD := BHEAD)\<rparr>"
  have "ring (bnext ?s) (bprev ?s) BHEAD []" by (simp add: ring_def)
  from binit_fold [OF this, of "[0..<NBUF]"] show ?thesis
    unfolding lru_def binit_def by (simp del: upt_Suc upt_rec_numeral add: atLeast0LessThan)
qed

text \<open>The state of a machine that has just booted on a disk image: a zeroed cache, then \<open>binit\<close>.\<close>

definition zero_buf :: buf where
  "zero_buf = \<lparr>bflags = 0, bdev = 0, blockno = 0, block_lock = \<lparr>locked = False, lpid = 0\<rparr>,
               refcnt = 0, bdata = (\<lambda>_. 0)\<rparr>"

definition boot_cache :: "'a bio_state_scheme \<Rightarrow> 'a bio_state_scheme" where
  "boot_cache s = binit (s\<lparr>bufs := (\<lambda>_. zero_buf), diskwrites := []\<rparr>)"

lemma boot_cache_sel [simp]:
  "disk (boot_cache s) = disk s" "disksize (boot_cache s) = disksize s"
  "diskwrites (boot_cache s) = []"
  "i < NBUF \<Longrightarrow> bufs (boot_cache s) i = zero_buf"
  by (auto simp: boot_cache_def binit_def binit_fold_sel zero_buf_def initsleeplock_def)

lemma boot_cache_ok:
  "bcache_inv (boot_cache s)" "view (boot_cache s) = disk s" "dirtyb (boot_cache s) = {}"
  "heldb (boot_cache s) = {}"
proof -
  have none: "bufof (boot_cache s) n = None" for n by (auto simp: bufof_None zero_buf_def)
  show "bcache_inv (boot_cache s)"
    by (rule bcache_invI) (use binit_lru in \<open>auto simp: boot_cache_def zero_buf_def
      dest: boot_cache_sel(4) [of _ s, unfolded boot_cache_def]\<close>)
  show "view (boot_cache s) = disk s" by (auto simp: view_def none)
  show "dirtyb (boot_cache s) = {}" "heldb (boot_cache s) = {}" by (auto simp: dirtyb_def heldb_def none)
qed

section \<open>The cache as a block store\<close>

lemma clean_block:
  assumes inv: "bcache_inv s" and "bno \<notin> heldb s"
  shows "bno \<in> dirtyb s \<or> view s bno = disk s bno"
proof (cases "bufof s bno")
  case (Some i)
  then have "i < NBUF" "bdev (bufs s i) = 1" "blockno (bufs s i) = bno"
    by (simp_all add: bufof_Some [OF inv])
  with Some assms(2) bcache_invD(3) [OF inv, of i] show ?thesis
    by (auto simp: view_def dirtyb_def heldb_def)
qed (simp add: view_def)

interpretation bc: block_cache "bread 1" bwrite brelse set_data "\<lambda>i s. bdata (bufs s i)" bcache_inv
  view disk diskwrites dirtyb heldb holds disksize NBUF bframe
proof unfold_locales
  fix s s' s'' :: "'a bio_state_scheme" and b i :: nat and d :: mem
  show "bcache_inv s \<Longrightarrow> b < disksize s \<Longrightarrow> b \<notin> heldb s \<Longrightarrow>
      card (dirtyb s \<union> heldb s) < NBUF \<or> b \<in> dirtyb s \<Longrightarrow>
      \<exists>i s'. bread 1 b s = Ok (i, s') \<and> bcache_inv s' \<and> holds s' b i \<and> view s' = view s \<and>
        disk s' = disk s \<and> diskwrites s' = diskwrites s \<and> dirtyb s' = dirtyb s \<and>
        heldb s' = insert b (heldb s) \<and> bframe s s' \<and> (\<forall>m j. holds s m j \<longrightarrow> holds s' m j)"
    using bread_ok [OF _ availI, of s b] by blast
  show "bcache_inv s \<Longrightarrow> holds s b i \<Longrightarrow> bdata (bufs s i) = view s b"
    using holdsD(8) by metis
  show "bcache_inv s \<Longrightarrow> holds s b i \<Longrightarrow>
      bcache_inv (set_data i d s) \<and> view (set_data i d s) = (view s)(b := d) \<and>
      disk (set_data i d s) = disk s \<and> diskwrites (set_data i d s) = diskwrites s \<and>
      dirtyb (set_data i d s) = dirtyb s \<and> heldb (set_data i d s) = heldb s \<and>
      bframe s (set_data i d s) \<and> (\<forall>m j. holds s m j \<longrightarrow> holds (set_data i d s) m j)"
    by (simp add: set_data_ok [of s b i])
  show "bcache_inv s \<Longrightarrow> holds s b i \<Longrightarrow>
      \<exists>s'. bwrite i s = Ok s' \<and> bcache_inv s' \<and> view s' = view s \<and>
        disk s' = (disk s)(b := view s b) \<and> diskwrites s' = diskwrites s @ [(b, view s b)] \<and>
        dirtyb s' = dirtyb s - {b} \<and> heldb s' = heldb s \<and> bframe s s' \<and>
        (\<forall>m j. holds s m j \<longrightarrow> holds s' m j)"
    using bwrite_ok by blast
  show "bcache_inv s \<Longrightarrow> holds s b i \<Longrightarrow> b \<in> dirtyb s \<or> view s b = disk s b \<Longrightarrow>
      \<exists>s'. brelse i s = Ok s' \<and> bcache_inv s' \<and> view s' = view s \<and> disk s' = disk s \<and>
        diskwrites s' = diskwrites s \<and> dirtyb s' = dirtyb s \<and> heldb s' = heldb s - {b} \<and>
        bframe s s' \<and> (\<forall>m j. m \<noteq> b \<longrightarrow> holds s m j \<longrightarrow> holds s' m j)"
    using brelse_ok [of s b i] by blast
  show "bcache_inv s \<Longrightarrow> b \<notin> heldb s \<Longrightarrow> b \<in> dirtyb s \<or> view s b = disk s b"
    by (rule clean_block)
  show "bframe s s' \<Longrightarrow> disksize s' = disksize s" by (rule bframe_disksize)
  show "bframe s s' \<Longrightarrow> bframe s' s'' \<Longrightarrow> bframe s s''" by (rule bframe_trans)
  show "bcache_inv s \<Longrightarrow> finite (dirtyb s \<union> heldb s)" by (simp add: finite_dirtyb finite_heldb)
qed

section \<open>Frame of the operations, whatever the state\<close>

lemma bframe_bufs: "bframe s (s\<lparr>bufs := bs\<rparr>)"
  by (rule bframeI [where bs = bs and nx = "bnext s" and pv = "bprev s" and d = "disk s"
        and w = "diskwrites s"]) simp

lemma bframe_disk: "bframe s (s\<lparr>bufs := bs, disk := d, diskwrites := w\<rparr>)"
  by (rule bframeI [where bs = bs and nx = "bnext s" and pv = "bprev s" and d = d and w = w]) simp

lemma upd_buf_frame: "bframe s (upd_buf b f s)"
  unfolding upd_buf_def by (rule bframe_bufs)

lemma lock_buf_frame: "lock_buf b s = Ok (i, s') \<Longrightarrow> bframe s s'"
  by (auto simp: lock_buf_def bindE_eq_Ok intro: upd_buf_frame)

lemma bget_frame: "bget dv bno s = Ok (i, s') \<Longrightarrow> bframe s s'"
  unfolding bget_def
  by (auto split: option.splits intro: bframe_trans [OF upd_buf_frame] lock_buf_frame)

lemma iderw_frame:
  assumes "iderw i s = Ok s'"
  shows "bframe s s'"
proof -
  let ?u = "\<lambda>f. upd_buf i f (s\<lparr>disk := (disk s)(blockno (bufs s i) := bdata (bufs s i)),
      diskwrites := diskwrites s @ [(blockno (bufs s i), bdata (bufs s i))]\<rparr>)"
  have "bframe s (?u f)" for f
    by (rule bframeI [where bs = "bufs (?u f)" and nx = "bnext s" and pv = "bprev s"
          and d = "disk (?u f)" and w = "diskwrites (?u f)"]) (simp add: upd_buf_def)
  with assms show ?thesis by (auto simp: iderw_def Let_def intro: upd_buf_frame split: if_splits)
qed

lemma bread_frame: "bread dv bno s = Ok (i, s') \<Longrightarrow> bframe s s'"
  by (auto simp: bread_def bindE_eq_Ok split: if_splits prod.splits
      dest!: bget_frame iderw_frame intro: bframe_trans)

lemma bwrite_frame: "bwrite b s = Ok s' \<Longrightarrow> bframe s s'"
  by (auto simp: bwrite_def split: if_splits dest!: iderw_frame intro: bframe_trans [OF upd_buf_frame])

lemma brelse_frame: "brelse b s = Ok s' \<Longrightarrow> bframe s s'"
  unfolding brelse_def Let_def
  by (auto split: if_splits intro: bframe_trans [OF upd_buf_frame upd_buf_frame]
      bframe_trans [OF bframe_trans [OF upd_buf_frame upd_buf_frame] relink_bframe])

lemma set_data_frame: "bframe s (set_data b d s)"
  unfolding set_data_def by (rule upd_buf_frame)

lemma binit_step_frame: "bframe s (binit_step b s)"
  unfolding binit_step_def Let_def upd_buf_def
  by (rule bframeI [where bs = "(bufs s)(b := (bufs s b)\<lparr>block_lock := initsleeplock\<rparr>)"
        and nx = "(bnext s)(b := bnext s BHEAD, BHEAD := b)"
        and pv = "(bprev s)(b := BHEAD, ((bnext s)(b := bnext s BHEAD)) BHEAD := b)"
        and d = "disk s" and w = "diskwrites s"]) (simp add: fun_upd_twist)

lemma boot_cache_frame: "bframe s (boot_cache s)"
proof -
  have f: "bframe s (fold binit_step xs s)" for xs and s :: "'a bio_state_scheme"
    by (induction xs arbitrary: s) (auto intro: bframe_trans [OF binit_step_frame])
  show ?thesis
    unfolding boot_cache_def binit_def
    by (rule bframe_trans [OF _ f], rule bframeI [where bs = "\<lambda>_. zero_buf" and nx = "(bnext s)(BHEAD := BHEAD)"
          and pv = "(bprev s)(BHEAD := BHEAD)" and d = "disk s" and w = "[]"]) simp
qed

lemmas bio_frames = bread_frame bwrite_frame brelse_frame

text \<open>The cache predicates depend on the cache's fields only.\<close>

lemma bio_cong:
  assumes "bufs s' = bufs s" "bnext s' = bnext s" "bprev s' = bprev s" "disk s' = disk s"
    "disksize s' = disksize s"
  shows "bcache_inv s' = bcache_inv s" "view s' = view s" "dirtyb s' = dirtyb s"
    "heldb s' = heldb s" "bufof s' n = bufof s n" "holds s' m i = holds s m i"
proof -
  show bo: "bufof s' n = bufof s n" for n by (simp add: bufof_def assms)
  show "bcache_inv s' = bcache_inv s" by (simp add: bcache_inv_def lru_def assms)
  show "view s' = view s" unfolding view_def bo assms ..
  show "dirtyb s' = dirtyb s" "heldb s' = heldb s" by (simp_all add: dirtyb_def heldb_def bo assms)
  show "holds s' m i = holds s m i" by (simp add: holds_def bo assms)
qed

end
