(* ===== verification/Tx_Interface.thy ===== *)
theory Tx_Interface
  imports Prelude
begin

text \<open>
  The interface between the log (\<^verbatim>\<open>log.c\<close> over \<^verbatim>\<open>bio.c\<close>, provider) and the file system (\<^verbatim>\<open>fs.c\<close>,
  client) inside a transaction.  \<open>ok s k H\<close>: \<open>k\<close> blocks are logged so far and the blocks \<open>H\<close> are
  held.  \<open>md i d\<close> stands for the source's two adjacent steps: change the data of a held buffer,
  then \<open>log_write\<close> it.  The client lemmas are the access patterns of \<^verbatim>\<open>fs.c\<close>: look at a block, and
  read-modify-log-release.
\<close>

locale logged_store =
  fixes rd :: "nat \<Rightarrow> 's \<Rightarrow> (nat \<times> 's) outcome"
    and md :: "nat \<Rightarrow> mem \<Rightarrow> 's \<Rightarrow> 's outcome"
    and rl :: "nat \<Rightarrow> 's \<Rightarrow> 's outcome"
    and dat :: "nat \<Rightarrow> 's \<Rightarrow> mem"
    and vw :: "'s \<Rightarrow> nat \<Rightarrow> mem"
    and ok :: "'s \<Rightarrow> nat \<Rightarrow> nat set \<Rightarrow> bool"
    and hold :: "'s \<Rightarrow> nat \<Rightarrow> nat \<Rightarrow> bool"
    and on_disk :: "'s \<Rightarrow> nat \<Rightarrow> bool"
    and loggable :: "'s \<Rightarrow> nat \<Rightarrow> bool"
    and frame :: "'s \<Rightarrow> 's \<Rightarrow> bool"
    and bufroom :: nat
    and logroom :: nat
  assumes rd_law: "ok s k H \<Longrightarrow> on_disk s b \<Longrightarrow> b \<notin> H \<Longrightarrow> k + card H < bufroom \<Longrightarrow>
      \<exists>i s'. rd b s = Ok (i, s') \<and> ok s' k (insert b H) \<and> hold s' b i \<and> vw s' = vw s \<and> frame s s' \<and>
        (\<forall>m j. hold s m j \<longrightarrow> hold s' m j)"
    and hold_law: "ok s k H \<Longrightarrow> hold s b i \<Longrightarrow> dat i s = vw s b"
    and md_law: "ok s k H \<Longrightarrow> hold s b i \<Longrightarrow> loggable s b \<Longrightarrow> k < logroom \<Longrightarrow>
      \<exists>s' k'. md i d s = Ok s' \<and> k \<le> k' \<and> k' \<le> Suc k \<and> ok s' k' H \<and> vw s' = (vw s)(b := d) \<and>
        frame s s' \<and> (\<forall>m j. hold s m j \<longrightarrow> hold s' m j)"
    and rl_law: "ok s k H \<Longrightarrow> hold s b i \<Longrightarrow>
      \<exists>s'. rl i s = Ok s' \<and> ok s' k (H - {b}) \<and> vw s' = vw s \<and> frame s s' \<and>
        (\<forall>m j. m \<noteq> b \<longrightarrow> hold s m j \<longrightarrow> hold s' m j)"
    and frame_disk: "frame s s' \<Longrightarrow> on_disk s' b = on_disk s b"
    and frame_log: "frame s s' \<Longrightarrow> loggable s' b = loggable s b"
    and frame_tr: "frame s s' \<Longrightarrow> frame s' s'' \<Longrightarrow> frame s s''"
    and loggable_disk: "loggable s b \<Longrightarrow> on_disk s b"
begin

text \<open>\<open>same k H s s'\<close>: still in the transaction, no block changed.\<close>

lemma look:
  assumes "ok s k H" "on_disk s b" "b \<notin> H" "k + card H < bufroom"
  shows "\<exists>i s1 s'. rd b s = Ok (i, s1) \<and> dat i s1 = vw s b \<and> frame s s1 \<and> rl i s1 = Ok s' \<and>
     ok s' k H \<and> vw s' = vw s \<and> frame s s' \<and> (\<forall>m j. m \<in> H \<longrightarrow> hold s m j \<longrightarrow> hold s' m j)"
proof -
  from rd_law [OF assms] obtain i s1 where 1: "rd b s = Ok (i, s1)" "ok s1 k (insert b H)" "hold s1 b i"
    "vw s1 = vw s" "frame s s1" "\<forall>m j. hold s m j \<longrightarrow> hold s1 m j" by blast
  from rl_law [OF 1(2,3)] obtain s2 where 2: "rl i s1 = Ok s2" "ok s2 k (insert b H - {b})" "vw s2 = vw s1"
    "frame s1 s2" "\<forall>m j. m \<noteq> b \<longrightarrow> hold s1 m j \<longrightarrow> hold s2 m j" by blast
  have H: "insert b H - {b} = H" using assms(3) by auto
  have "m \<in> H \<Longrightarrow> m \<noteq> b" for m using assms(3) by auto
  with 1 2 H hold_law [OF 1(2,3)] frame_tr [OF 1(5) 2(4)] show ?thesis
    by (intro exI [of _ i] exI [of _ s1] exI [of _ s2]) auto
qed

text \<open>With the block already held: change it, log it, release it.\<close>

lemma change_release:
  assumes "ok s k (insert b H)" "hold s b i" "b \<notin> H" "loggable s b" "k < logroom"
  shows "\<exists>s1 s' k'. md i d s = Ok s1 \<and> rl i s1 = Ok s' \<and> k \<le> k' \<and> k' \<le> Suc k \<and> ok s' k' H \<and>
     vw s' = (vw s)(b := d) \<and> frame s s' \<and> (\<forall>m j. m \<in> H \<longrightarrow> hold s m j \<longrightarrow> hold s' m j)"
proof -
  from md_law [OF assms(1,2,4,5), of d] obtain s1 k' where 1: "md i d s = Ok s1" "k \<le> k'" "k' \<le> Suc k"
    "ok s1 k' (insert b H)" "vw s1 = (vw s)(b := d)" "frame s s1" "\<forall>m j. hold s m j \<longrightarrow> hold s1 m j"
    by blast
  then have "hold s1 b i" using assms(2) by blast
  from rl_law [OF 1(4) this] obtain s2 where 2: "rl i s1 = Ok s2" "ok s2 k' (insert b H - {b})"
    "vw s2 = vw s1" "frame s1 s2" "\<forall>m j. m \<noteq> b \<longrightarrow> hold s1 m j \<longrightarrow> hold s2 m j" by blast
  have H: "insert b H - {b} = H" using assms(3) by auto
  have "m \<in> H \<Longrightarrow> m \<noteq> b" for m using assms(3) by auto
  with 1 2 H frame_tr [OF 1(6) 2(4)] show ?thesis
    by (intro exI [of _ s1] exI [of _ s2] exI [of _ k']) auto
qed

lemma update:
  assumes "ok s k H" "loggable s b" "b \<notin> H" "k + card H < bufroom" "k < logroom"
  shows "\<exists>i s1 s2 s' k'. rd b s = Ok (i, s1) \<and> dat i s1 = vw s b \<and> frame s s1 \<and>
     md i (f (vw s b)) s1 = Ok s2 \<and> rl i s2 = Ok s' \<and> k \<le> k' \<and> k' \<le> Suc k \<and> ok s' k' H \<and>
     vw s' = (vw s)(b := f (vw s b)) \<and> frame s s' \<and> (\<forall>m j. m \<in> H \<longrightarrow> hold s m j \<longrightarrow> hold s' m j)"
proof -
  from rd_law [OF assms(1) loggable_disk [OF assms(2)] assms(3,4)] obtain i s1 where
    1: "rd b s = Ok (i, s1)" "ok s1 k (insert b H)" "hold s1 b i"
    "vw s1 = vw s" "frame s s1" "\<forall>m j. hold s m j \<longrightarrow> hold s1 m j" by blast
  have "loggable s1 b" using assms(2) frame_log [OF 1(5)] by simp
  from change_release [OF 1(2,3) assms(3) this assms(5), of "f (vw s b)"] obtain s2 s3 k' where
    2: "md i (f (vw s b)) s1 = Ok s2" "rl i s2 = Ok s3" "k \<le> k'" "k' \<le> Suc k" "ok s3 k' H"
    "vw s3 = (vw s1)(b := f (vw s b))" "frame s1 s3" "\<forall>m j. m \<in> H \<longrightarrow> hold s1 m j \<longrightarrow> hold s3 m j"
    by blast
  with 1 hold_law [OF 1(2,3)] frame_tr [OF 1(5) 2(7)] show ?thesis
    by (intro exI [of _ i] exI [of _ s1] exI [of _ s2] exI [of _ s3] exI [of _ k']) auto
qed

end

end
