(* ===== verification/Log.thy ===== *)
theory Log
  imports Bio Tx_Interface
begin

text \<open>
  \<^verbatim>\<open>src/alarm/log.c\<close>: the write-ahead log that makes file system calls atomic across crashes,
  and \<open>readsb\<close> of \<^verbatim>\<open>src/alarm/fs.c\<close>, which it uses.  The fields of the global \<open>log\<close> extend the
  cache's state; \<open>log.lock\<close> makes the updates of these fields atomic.  On disk a header block
  (\<open>struct logheader\<close>, a count and the home block numbers, little-endian 32-bit) is followed by
  the logged blocks.
\<close>

abbreviation MAXOPBLOCKS :: int where "MAXOPBLOCKS \<equiv> 10"
abbreviation LOGSIZE :: int where "LOGSIZE \<equiv> 30"

record superblock =
  sb_size :: nat
  sb_nblocks :: nat
  sb_ninodes :: nat
  sb_nlog :: nat
  sb_logstart :: nat
  sb_inodestart :: nat
  sb_bmapstart :: nat

record log_state = bio_state +
  lstart :: nat
  lsize :: int
  outstanding :: int
  committing :: bool
  ldev :: nat
  lh_n :: int
  lh_block :: "nat \<Rightarrow> int"

definition decode_sb :: "mem \<Rightarrow> superblock" where
  "decode_sb d = \<lparr>sb_size = unat (get32 d 0), sb_nblocks = unat (get32 d 4),
     sb_ninodes = unat (get32 d 8), sb_nlog = unat (get32 d 12), sb_logstart = unat (get32 d 16),
     sb_inodestart = unat (get32 d 20), sb_bmapstart = unat (get32 d 24)\<rparr>"

definition readsb :: "nat \<Rightarrow> 'a bio_state_scheme \<Rightarrow> (superblock \<times> 'a bio_state_scheme) outcome" where
  "readsb dv s =
     bindE (bread dv 1 s) (\<lambda>(bp, s).
     let sb = decode_sb (bdata (bufs s bp))
     in bindE (brelse bp s) (\<lambda>s. Ok (sb, s)))"

definition install_step :: "nat \<Rightarrow> 'a log_state_scheme \<Rightarrow> 'a log_state_scheme outcome" where
  "install_step tail s =
     bindE (bread (ldev s) (lstart s + tail + 1) s) (\<lambda>(lbuf, s).
     bindE (bread (ldev s) (of_s32 (lh_block s tail)) s) (\<lambda>(dbuf, s).
     bindE (bwrite dbuf (set_data dbuf (bdata (bufs s lbuf)) s)) (\<lambda>s.
     bindE (brelse lbuf s) (brelse dbuf))))"

definition install_trans :: "'a log_state_scheme \<Rightarrow> 'a log_state_scheme outcome" where
  "install_trans s = forE install_step [0..<nat (lh_n s)] s"

text \<open>\<open>struct logheader\<close> in a block: \<open>n\<close> at offset 0, \<open>block[i]\<close> at offset \<open>4 + 4 * i\<close>.\<close>

definition head_n :: "mem \<Rightarrow> int" where
  "head_n d = s32 (unat (get32 d 0))"

definition head_block :: "mem \<Rightarrow> nat \<Rightarrow> int" where
  "head_block d i = s32 (unat (get32 d (4 + 4 * i)))"

definition head_put :: "int \<Rightarrow> (nat \<Rightarrow> int) \<Rightarrow> mem \<Rightarrow> mem" where
  "head_put n blk d =
     fold (\<lambda>i. put32 (4 + 4 * i) (word_of_int (blk i))) [0..<nat n] (put32 0 (word_of_int n) d)"

definition read_head :: "'a log_state_scheme \<Rightarrow> 'a log_state_scheme outcome" where
  "read_head s =
     bindE (bread (ldev s) (lstart s) s) (\<lambda>(b, s).
     let d = bdata (bufs s b); n = head_n d;
         s = s\<lparr>lh_n := n, lh_block := (\<lambda>i. if int i < n then head_block d i else lh_block s i)\<rparr>
     in brelse b s)"

definition write_head :: "'a log_state_scheme \<Rightarrow> 'a log_state_scheme outcome" where
  "write_head s =
     bindE (bread (ldev s) (lstart s) s) (\<lambda>(b, s).
     bindE (bwrite b (set_data b (head_put (lh_n s) (lh_block s) (bdata (bufs s b))) s))
       (brelse b))"

definition recover_from_log :: "'a log_state_scheme \<Rightarrow> 'a log_state_scheme outcome" where
  "recover_from_log s =
     bindE (read_head s) (\<lambda>s.
     bindE (install_trans s) (\<lambda>s.
     write_head (s\<lparr>lh_n := 0\<rparr>)))"

definition initlog :: "nat \<Rightarrow> 'a log_state_scheme \<Rightarrow> 'a log_state_scheme outcome" where
  "initlog dv s =
     (if BSIZE \<le> 4 + 4 * nat LOGSIZE then Panic ''initlog: too big logheader''
      else bindE (readsb dv s) (\<lambda>(sb, s).
        recover_from_log
          (s\<lparr>lstart := sb_logstart sb, lsize := int (sb_nlog sb), ldev := dv\<rparr>)))"

definition begin_op :: "'a log_state_scheme \<Rightarrow> 'a log_state_scheme outcome" where
  "begin_op s =
     (if committing s then Blocked ''log''
      else if LOGSIZE < lh_n s + (outstanding s + 1) * MAXOPBLOCKS then Blocked ''log''
      else Ok (s\<lparr>outstanding := outstanding s + 1\<rparr>))"

definition write_log_step :: "nat \<Rightarrow> 'a log_state_scheme \<Rightarrow> 'a log_state_scheme outcome" where
  "write_log_step tail s =
     bindE (bread (ldev s) (lstart s + tail + 1) s) (\<lambda>(to, s).
     bindE (bread (ldev s) (of_s32 (lh_block s tail)) s) (\<lambda>(from, s).
     bindE (bwrite to (set_data to (bdata (bufs s from)) s)) (\<lambda>s.
     bindE (brelse from s) (brelse to))))"

definition write_log :: "'a log_state_scheme \<Rightarrow> 'a log_state_scheme outcome" where
  "write_log s = forE write_log_step [0..<nat (lh_n s)] s"

definition commit :: "'a log_state_scheme \<Rightarrow> 'a log_state_scheme outcome" where
  "commit s =
     (if 0 < lh_n s then
        bindE (write_log s) (\<lambda>s.
        bindE (write_head s) (\<lambda>s.
        bindE (install_trans s) (\<lambda>s.
        write_head (s\<lparr>lh_n := 0\<rparr>))))
      else Ok s)"

definition end_op :: "'a log_state_scheme \<Rightarrow> 'a log_state_scheme outcome" where
  "end_op s =
     (let s1 = s\<lparr>outstanding := outstanding s - 1\<rparr> in
      if committing s1 then Panic ''log.committing''
      else if outstanding s1 = 0 then
        bindE (commit (s1\<lparr>committing := True\<rparr>)) (\<lambda>s. Ok (s\<lparr>committing := False\<rparr>))
      else Ok s1)"

text \<open>The search loop of \<open>log_write\<close>: the first slot holding the block, else \<open>log.lh.n\<close>.\<close>

fun log_slot :: "nat \<Rightarrow> (nat \<Rightarrow> int) \<Rightarrow> nat list \<Rightarrow> nat \<Rightarrow> nat" where
  "log_slot bno blk [] n = n"
| "log_slot bno blk (i # is) n = (if of_s32 (blk i) = bno then i else log_slot bno blk is n)"

definition log_write :: "nat \<Rightarrow> 'a log_state_scheme \<Rightarrow> 'a log_state_scheme outcome" where
  "log_write b s =
     (if LOGSIZE \<le> lh_n s \<or> lsize s - 1 \<le> lh_n s then Panic ''too big a transaction''
      else if outstanding s < 1 then Panic ''log_write outside of trans''
      else
        let bno = blockno (bufs s b);
            i = log_slot bno (lh_block s) [0..<nat (lh_n s)] (nat (lh_n s));
            s1 = s\<lparr>lh_block := (lh_block s)(i := s32 bno)\<rparr>;
            s2 = (if int i = lh_n s then s1\<lparr>lh_n := lh_n s + 1\<rparr> else s1)
        in Ok (upd_buf b (\<lambda>x. x\<lparr>bflags := bflags x OR B_DIRTY\<rparr>) s2))"

section \<open>Sequences of disk writes\<close>

definition apply_writes :: "(nat \<times> mem) list \<Rightarrow> (nat \<Rightarrow> mem) \<Rightarrow> nat \<Rightarrow> mem" where
  "apply_writes ws f = fold (\<lambda>(b, d) f. f(b := d)) ws f"

text \<open>\<open>wrote ws s s'\<close>: between \<open>s\<close> and \<open>s'\<close> exactly \<open>ws\<close> reached the disk, through the cache.\<close>

definition wrote :: "(nat \<times> mem) list \<Rightarrow> 'a log_state_scheme \<Rightarrow> 'a log_state_scheme \<Rightarrow> bool" where
  "wrote ws s s' \<longleftrightarrow> bcache_inv s' \<and> view s' = apply_writes ws (view s) \<and>
     disk s' = apply_writes ws (disk s) \<and> diskwrites s' = diskwrites s @ ws \<and>
     dirtyb s' = dirtyb s - fst ` set ws \<and> heldb s' = heldb s \<and> bframe s s'"

lemma apply_writes_simps [simp]:
  "apply_writes [] f = f" "apply_writes ((b, d) # ws) f = apply_writes ws (f(b := d))"
  "apply_writes (ws @ vs) f = apply_writes vs (apply_writes ws f)"
  by (simp_all add: apply_writes_def)

lemma apply_writes_other: "b \<notin> fst ` set ws \<Longrightarrow> apply_writes ws f b = f b"
  by (induction ws arbitrary: f) auto

lemma apply_writes_in:
  "distinct (map fst ws) \<Longrightarrow> (b, d) \<in> set ws \<Longrightarrow> apply_writes ws f b = d"
proof (induction ws arbitrary: f)
  case (Cons w ws)
  then show ?case
    by (cases w) (auto simp: apply_writes_other image_iff)
qed simp

lemma wrote_Nil: "bcache_inv s \<Longrightarrow> wrote [] s s"
  by (simp add: wrote_def)

lemma wrote_trans: "wrote ws s s' \<Longrightarrow> wrote vs s' s'' \<Longrightarrow> wrote (ws @ vs) s s''"
  by (auto simp: wrote_def intro: bframe_trans)

lemma wrote_one: "bc.written b d s s' \<Longrightarrow> wrote [(b, d)] s s'"
  by (simp add: wrote_def bc.written_def)

lemma bframe_log:
  assumes "bframe s s'"
  shows "lstart s' = lstart s" "lsize s' = lsize s" "outstanding s' = outstanding s"
    "committing s' = committing s" "ldev s' = ldev s" "lh_n s' = lh_n s" "lh_block s' = lh_block s"
    "disksize s' = disksize s"
  using assms by (auto simp: bframe_def)

text \<open>Updates of the log's own fields are invisible to the cache.\<close>

lemma log_upd_bio [simp]:
  "bcache_inv (s\<lparr>lh_n := n\<rparr>) = bcache_inv s" "bcache_inv (s\<lparr>lh_block := f\<rparr>) = bcache_inv s"
  "view (s\<lparr>lh_n := n\<rparr>) = view s" "view (s\<lparr>lh_block := f\<rparr>) = view s"
  "dirtyb (s\<lparr>lh_n := n\<rparr>) = dirtyb s" "dirtyb (s\<lparr>lh_block := f\<rparr>) = dirtyb s"
  "heldb (s\<lparr>lh_n := n\<rparr>) = heldb s" "heldb (s\<lparr>lh_block := f\<rparr>) = heldb s"
  by (rule bio_cong; simp)+

lemma log_upd_bio2 [simp]:
  "bcache_inv (s\<lparr>outstanding := c\<rparr>) = bcache_inv s" "bcache_inv (s\<lparr>committing := b\<rparr>) = bcache_inv s"
  "view (s\<lparr>outstanding := c\<rparr>) = view s" "view (s\<lparr>committing := b\<rparr>) = view s"
  "dirtyb (s\<lparr>outstanding := c\<rparr>) = dirtyb s" "dirtyb (s\<lparr>committing := b\<rparr>) = dirtyb s"
  "heldb (s\<lparr>outstanding := c\<rparr>) = heldb s" "heldb (s\<lparr>committing := b\<rparr>) = heldb s"
  "bcache_inv (s\<lparr>lstart := c'\<rparr>) = bcache_inv s" "view (s\<lparr>lstart := c'\<rparr>) = view s"
  "dirtyb (s\<lparr>lstart := c'\<rparr>) = dirtyb s" "heldb (s\<lparr>lstart := c'\<rparr>) = heldb s"
  "bcache_inv (s\<lparr>lsize := c\<rparr>) = bcache_inv s" "view (s\<lparr>lsize := c\<rparr>) = view s"
  "dirtyb (s\<lparr>lsize := c\<rparr>) = dirtyb s" "heldb (s\<lparr>lsize := c\<rparr>) = heldb s"
  "bcache_inv (s\<lparr>ldev := c'\<rparr>) = bcache_inv s" "view (s\<lparr>ldev := c'\<rparr>) = view s"
  "dirtyb (s\<lparr>ldev := c'\<rparr>) = dirtyb s" "heldb (s\<lparr>ldev := c'\<rparr>) = heldb s"
  by (rule bio_cong; simp)+

lemma bframe_lh: "bframe s s' \<Longrightarrow> bframe (s\<lparr>lh_n := n, lh_block := f\<rparr>) (s'\<lparr>lh_n := n, lh_block := f\<rparr>)"
proof -
  assume "bframe s s'"
  then obtain bs nx pv d w where "s' = s\<lparr>bufs := bs, bnext := nx, bprev := pv, disk := d, diskwrites := w\<rparr>"
    by (auto simp: bframe_def)
  then show ?thesis
    by (intro bframeI [where bs = bs and nx = nx and pv = pv and d = d and w = w]) simp
qed

section \<open>The header block\<close>

lemma head_put_below: "a + 4 \<le> 4 \<Longrightarrow> get32 (fold (\<lambda>i. put32 (4 + 4 * i) (w i)) is d) a = get32 d a"
  by (induction "is" arbitrary: d) (auto simp: get32_put32_other)

lemma head_put_fold:
  "i < n \<Longrightarrow> get32 (fold (\<lambda>i. put32 (4 + 4 * i) (w i)) [0..<n] d) (4 + 4 * i) = w i"
proof (induction n)
  case (Suc n)
  show ?case
  proof (cases "i = n")
    case False
    with Suc show ?thesis by (simp add: get32_put32_other)
  qed simp
qed simp

lemma unat_word_of_int_s32: "- (2 ^ 31) \<le> i \<Longrightarrow> i < 2 ^ 31 \<Longrightarrow> s32 (unat (word_of_int i :: word32)) = i"
proof -
  assume i: "- (2 ^ 31) \<le> i" "i < 2 ^ 31"
  have "unat (word_of_int i :: word32) = of_s32 i"
    by (simp add: of_s32_def unat_eq_nat_uint uint_word_of_int)
  with s32_of_s32 [OF i] show ?thesis by simp
qed

lemma head_n_put: "- (2 ^ 31) \<le> n \<Longrightarrow> n < 2 ^ 31 \<Longrightarrow> head_n (head_put n blk d) = n"
  unfolding head_n_def head_put_def by (simp add: head_put_below unat_word_of_int_s32)

lemma head_block_put:
  "int i < n \<Longrightarrow> - (2 ^ 31) \<le> blk i \<Longrightarrow> blk i < 2 ^ 31 \<Longrightarrow> head_block (head_put n blk d) i = blk i"
  unfolding head_block_def head_put_def
  by (simp add: head_put_fold unat_word_of_int_s32 del: upt_Suc)

section \<open>Reading and writing the log\<close>

lemma bindE_frame_cong:
  assumes "\<And>i s'. m = Ok (i, s') \<Longrightarrow> f i s' = g i s'"
  shows "bindE m (\<lambda>(i, s'). f i s') = bindE m (\<lambda>(i, s'). g i s')"
  using assms by (auto intro!: bindE_cong)

lemma bread_log:
  "bread dv b s = Ok (i, s') \<Longrightarrow> ldev s' = ldev s \<and> lstart s' = lstart s \<and> lh_n s' = lh_n s
     \<and> lh_block s' = lh_block s"
  using bframe_log [OF bread_frame] by metis

lemma install_step_eq:
  assumes "ldev s = 1"
  shows "install_step tail s = bindE (bread 1 (lstart s + tail + 1) s) (\<lambda>(l, s').
     bindE (bread 1 (of_s32 (lh_block s tail)) s') (\<lambda>(d, s').
     bindE (bwrite d (set_data d (bdata (bufs s' l)) s')) (\<lambda>s'. bindE (brelse l s') (brelse d))))"
  unfolding install_step_def assms
  by (rule bindE_frame_cong) (drule bread_log, simp add: assms)

lemma write_log_step_eq:
  assumes "ldev s = 1"
  shows "write_log_step tail s = bindE (bread 1 (lstart s + tail + 1) s) (\<lambda>(t, s').
     bindE (bread 1 (of_s32 (lh_block s tail)) s') (\<lambda>(f, s').
     bindE (bwrite t (set_data t (bdata (bufs s' f)) s')) (\<lambda>s'. bindE (brelse f s') (brelse t))))"
  unfolding write_log_step_def assms
  by (rule bindE_frame_cong) (drule bread_log, simp add: assms)

text \<open>
  \<open>log_wf s k\<close>: the log area lies on the disk, \<open>k\<close> home blocks fit in it and none of them is a
  log block.  \<open>home s t\<close> is the home block of log slot \<open>t\<close>.
\<close>

definition home :: "'a log_state_scheme \<Rightarrow> nat \<Rightarrow> nat" where
  "home s t = of_s32 (lh_block s t)"

definition log_area :: "'a log_state_scheme \<Rightarrow> nat set" where
  "log_area s = {lstart s..<lstart s + nat (lsize s)}"

definition log_wf :: "'a log_state_scheme \<Rightarrow> nat \<Rightarrow> bool" where
  "log_wf s k \<longleftrightarrow> bcache_inv s \<and> heldb s = {} \<and> ldev s = 1 \<and> int k < lsize s \<and> k < NBUF \<and>
     lstart s + nat (lsize s) \<le> disksize s \<and>
     (\<forall>t < k. home s t < disksize s \<and> home s t \<notin> log_area s)"

lemma log_slot_area: "log_wf s k \<Longrightarrow> t < k \<Longrightarrow>
  lstart s + t + 1 \<in> log_area s \<and> lstart s + t + 1 < disksize s"
  by (auto simp: log_wf_def log_area_def)

lemma log_start_area: "log_wf s k \<Longrightarrow> lstart s \<in> log_area s \<and> lstart s < disksize s"
  by (auto simp: log_wf_def log_area_def)

lemma wrote_log:
  assumes "wrote ws s s'"
  shows "bcache_inv s'" "heldb s' = heldb s" "lstart s' = lstart s" "lsize s' = lsize s"
    "ldev s' = ldev s" "lh_n s' = lh_n s" "lh_block s' = lh_block s" "disksize s' = disksize s"
    "home s' = home s" "log_area s' = log_area s" "outstanding s' = outstanding s"
    "committing s' = committing s"
proof -
  have f: "bframe s s'" using assms by (simp add: wrote_def)
  show "bcache_inv s'" "heldb s' = heldb s" using assms by (simp_all add: wrote_def)
  show "lstart s' = lstart s" "lsize s' = lsize s" "ldev s' = ldev s" "lh_n s' = lh_n s"
    "lh_block s' = lh_block s" "disksize s' = disksize s" "outstanding s' = outstanding s"
    "committing s' = committing s" using bframe_log [OF f] by simp_all
  then show "home s' = home s" "log_area s' = log_area s" by (auto simp: home_def log_area_def)
qed

lemma wrote_wf: "log_wf s k \<Longrightarrow> wrote ws s s' \<Longrightarrow> log_wf s' k"
  using wrote_log [of ws s s'] by (simp add: log_wf_def)

lemma write_log_loop:
  assumes "log_wf s k" "dirtyb s = home s ` {..<k}" "n \<le> k"
  shows "\<exists>s'. forE write_log_step [0..<n] s = Ok s' \<and>
     wrote (map (\<lambda>t. (lstart s + t + 1, view s (home s t))) [0..<n]) s s'"
  using assms(3)
proof (induction n)
  case 0
  with assms(1) show ?case by (auto simp: log_wf_def wrote_Nil)
next
  case (Suc n)
  then obtain s1 where s1: "forE write_log_step [0..<n] s = Ok s1"
    "wrote (map (\<lambda>t. (lstart s + t + 1, view s (home s t))) [0..<n]) s s1" by auto
  let ?ws = "map (\<lambda>t. (lstart s + t + 1, view s (home s t))) [0..<n]"
  note L = wrote_log [OF s1(2)]
  from Suc.prems have nk: "n < k" by simp
  have wf: "log_wf s1 k" by (rule wrote_wf [OF assms(1) s1(2)])
  have area: "fst ` set ?ws \<subseteq> log_area s" using log_slot_area [OF assms(1)] nk by force
  have home_out: "home s t \<notin> log_area s" if "t < k" for t using assms(1) that by (simp add: log_wf_def)
  have "dirtyb s1 = dirtyb s - fst ` set ?ws" using s1(2) by (simp add: wrote_def)
  with area home_out assms(2) have d1: "dirtyb s1 = home s ` {..<k}" by auto
  have v1: "view s1 (home s n) = view s (home s n)"
    using s1(2) apply_writes_other [of "home s n" ?ws "view s"] area home_out [OF nk]
    by (auto simp: wrote_def)
  have "card (dirtyb s1 \<union> heldb s1) \<le> k"
    using d1 wf card_image_le [of "{..<k}" "home s"] by (simp add: log_wf_def)
  then have "card (dirtyb s1 \<union> heldb s1) < NBUF" using wf by (simp add: log_wf_def)
  moreover have "home s n \<noteq> lstart s + n + 1" "home s n < disksize s1" "lstart s + n + 1 < disksize s1"
    "home s n \<in> dirtyb s1"
    using home_out [OF nk] log_slot_area [OF assms(1) nk] wf nk d1 L by (auto simp: log_wf_def)
  ultimately obtain s2 where "write_log_step n s1 = Ok s2"
    "bc.written (lstart s + n + 1) (view s1 (home s n)) s1 s2"
    using bc.copy_dest_first [of s1 "home s n" "lstart s + n + 1"] wf L
    unfolding write_log_step_eq [of s1, OF wf [unfolded log_wf_def, THEN conjunct2, THEN conjunct2, THEN conjunct1]]
    by (auto simp: log_wf_def home_def)
  with s1 v1 wrote_trans [OF s1(2) wrote_one] show ?case
    by (auto simp: forE_append)
qed

lemma install_loop:
  assumes "log_wf s k" "dirtyb s \<subseteq> home s ` {..<k}" "n \<le> k"
    "dirtyb s = {} \<or> dirtyb s = home s ` {..<k} \<and> inj_on (home s) {..<k}"
  shows "\<exists>s'. forE install_step [0..<n] s = Ok s' \<and>
     wrote (map (\<lambda>t. (home s t, view s (lstart s + t + 1))) [0..<n]) s s'"
  using assms(3)
proof (induction n)
  case 0
  with assms(1) show ?case by (auto simp: log_wf_def wrote_Nil)
next
  case (Suc n)
  let ?ws = "map (\<lambda>t. (home s t, view s (lstart s + t + 1))) [0..<n]"
  from Suc obtain s1 where s1: "forE install_step [0..<n] s = Ok s1" "wrote ?ws s s1" by auto
  note L = wrote_log [OF s1(2)]
  from Suc.prems have nk: "n < k" by simp
  have wf: "log_wf s1 k" by (rule wrote_wf [OF assms(1) s1(2)])
  have home_out: "home s t \<notin> log_area s" if "t < k" for t using assms(1) that by (simp add: log_wf_def)
  have a: "lstart s + n + 1 \<in> log_area s" "lstart s + n + 1 < disksize s"
    using log_slot_area [OF assms(1) nk] by simp_all
  have "lstart s + n + 1 \<notin> fst ` set ?ws" using a(1) home_out nk by force
  then have v1: "view s1 (lstart s + n + 1) = view s (lstart s + n + 1)"
    using s1(2) apply_writes_other [of "lstart s + n + 1" ?ws "view s"] by (simp add: wrote_def)
  have "fst ` set ?ws = home s ` {..<n}" by (simp add: image_image atLeast0LessThan)
  then have d1: "dirtyb s1 = dirtyb s - home s ` {..<n}" using s1(2) by (simp add: wrote_def)
  have "card (dirtyb s1 \<union> heldb s1) \<le> card (dirtyb s)"
    using d1 wf finite_dirtyb [of s] assms(1) by (auto simp: log_wf_def intro: card_mono)
  also have "\<dots> \<le> k" using assms(2) card_image_le [of "{..<k}" "home s"]
      card_mono [OF finite_imageI [OF finite_lessThan] assms(2)] by simp
  finally have room: "card (dirtyb s1 \<union> heldb s1) < NBUF" using wf by (simp add: log_wf_def)
  have room2: "Suc (card (dirtyb s1 \<union> heldb s1)) < NBUF \<or> home s n \<in> dirtyb s1"
  proof (cases "dirtyb s = {}")
    case True
    with d1 wf show ?thesis by (simp add: log_wf_def)
  next
    case False
    with assms(4) have "dirtyb s = home s ` {..<k}" and inj: "inj_on (home s) {..<k}" by simp_all
    moreover have "home s n \<notin> home s ` {..<n}" using inj_onD [OF inj, of n] nk by fastforce
    ultimately show ?thesis using d1 nk by auto
  qed
  have "home s n \<noteq> lstart s + n + 1" "home s n < disksize s1" "lstart s + n + 1 < disksize s1"
    using home_out [OF nk] a assms(1) nk L by (auto simp: log_wf_def)
  with room room2 obtain s2 where "install_step n s1 = Ok s2"
    "bc.written (home s n) (view s1 (lstart s + n + 1)) s1 s2"
    using bc.copy_source_first [of s1 "lstart s + n + 1" "home s n"] wf L
    unfolding install_step_eq [of s1, OF wf [unfolded log_wf_def, THEN conjunct2, THEN conjunct2, THEN conjunct1]]
    by (auto simp: log_wf_def home_def)
  with s1 v1 wrote_trans [OF s1(2) wrote_one] show ?case
    by (auto simp: forE_append)
qed

lemma write_head_ok:
  assumes "bcache_inv s" "heldb s = {}" "ldev s = 1" "lstart s < disksize s" "card (dirtyb s) < NBUF"
  shows "\<exists>s'. write_head s = Ok s' \<and>
     wrote [(lstart s, head_put (lh_n s) (lh_block s) (view s (lstart s)))] s s'"
proof -
  let ?d = "head_put (lh_n s) (lh_block s) (view s (lstart s))"
  from bc.store_ok [of s "lstart s" ?d] assms obtain i s1 s2 s' where
    1: "bread 1 (lstart s) s = Ok (i, s1)" "bdata (bufs s1 i) = view s (lstart s)" "bframe s s1"
    "bwrite i (set_data i ?d s1) = Ok s2" "brelse i s2 = Ok s'" "bc.written (lstart s) ?d s s'" by auto
  have "write_head s = Ok s'"
    unfolding write_head_def using 1 assms(3) bframe_log [OF 1(3)] by simp
  with wrote_one [OF 1(6)] show ?thesis by blast
qed

lemma read_head_ok:
  assumes "bcache_inv s" "heldb s = {}" "ldev s = 1" "lstart s < disksize s" "card (dirtyb s) < NBUF"
  shows "\<exists>s'. read_head s = Ok s' \<and> wrote [] (s\<lparr>lh_n := head_n (view s (lstart s)),
      lh_block := (\<lambda>i. if int i < head_n (view s (lstart s)) then head_block (view s (lstart s)) i
                      else lh_block s i)\<rparr>) s'"
proof -
  let ?n = "head_n (view s (lstart s))"
  let ?f = "\<lambda>i. if int i < ?n then head_block (view s (lstart s)) i else lh_block s i"
  let ?u = "\<lambda>s. s\<lparr>lh_n := ?n, lh_block := ?f\<rparr>"
  from bc.peek_ok [of s "lstart s"] assms obtain i s1 s2 where
    1: "bread 1 (lstart s) s = Ok (i, s1)" "bdata (bufs s1 i) = view s (lstart s)"
    "brelse i s1 = Ok s2" "bc.unchanged s s2" "bframe s s1" by auto
  have rel: "brelse i (?u s1) = Ok (?u s2)"
    using 1(3) by (auto simp: brelse_def upd_buf_def relink_def Let_def split: if_splits)
  have "read_head s = Ok (?u s2)"
    unfolding read_head_def using 1 assms(3) bframe_log [OF 1(5)] rel by (simp add: Let_def cong del: if_weak_cong)
  moreover have "wrote [] (?u s) (?u s2)"
    using 1(4) unfolding bc.unchanged_def wrote_def
    by (simp add: bframe_lh)
  ultimately show ?thesis by blast
qed

section \<open>Commit\<close>

text \<open>
  \<open>log_ready s k\<close>: a transaction of \<open>k\<close> blocks waits in the cache.  Each logged block is pinned
  (dirty) under its own slot, nothing else is, no buffer is held, and the header on disk is
  clear.
\<close>

definition log_ready :: "'a log_state_scheme \<Rightarrow> nat \<Rightarrow> bool" where
  "log_ready s k \<longleftrightarrow> log_wf s k \<and> lh_n s = int k \<and> dirtyb s = home s ` {..<k} \<and>
     inj_on (home s) {..<k} \<and> (\<forall>t < k. - (2 ^ 31) \<le> lh_block s t \<and> lh_block s t < 2 ^ 31) \<and>
     head_n (disk s (lstart s)) = 0"

definition log_part :: "'a log_state_scheme \<Rightarrow> nat \<Rightarrow> (nat \<times> mem) list" where
  "log_part s k = map (\<lambda>t. (lstart s + t + 1, view s (home s t))) [0..<k]"

definition home_part :: "'a log_state_scheme \<Rightarrow> nat \<Rightarrow> (nat \<times> mem) list" where
  "home_part s k = map (\<lambda>t. (home s t, view s (home s t))) [0..<k]"

definition commit_head :: "'a log_state_scheme \<Rightarrow> nat \<Rightarrow> mem" where
  "commit_head s k = head_put (int k) (lh_block s) (disk s (lstart s))"

definition commit_writes :: "'a log_state_scheme \<Rightarrow> nat \<Rightarrow> (nat \<times> mem) list" where
  "commit_writes s k = log_part s k @ [(lstart s, commit_head s k)] @ home_part s k
     @ [(lstart s, put32 0 0 (commit_head s k))]"

lemma head_put_0: "head_put 0 blk d = put32 0 0 d"
  by (simp add: head_put_def)

lemma wrote_lh_n: "wrote ws s s' \<Longrightarrow> wrote ws (s\<lparr>lh_n := n\<rparr>) (s'\<lparr>lh_n := n\<rparr>)"
proof -
  assume w: "wrote ws s s'"
  then have "bframe s s'" by (simp add: wrote_def)
  then obtain bs nx pv d v where "s' = s\<lparr>bufs := bs, bnext := nx, bprev := pv, disk := d, diskwrites := v\<rparr>"
    by (auto simp: bframe_def)
  then have "bframe (s\<lparr>lh_n := n\<rparr>) (s'\<lparr>lh_n := n\<rparr>)"
    by (intro bframeI [where bs = bs and nx = nx and pv = pv and d = d and w = v]) simp
  with w show ?thesis by (simp add: wrote_def)
qed

lemma log_ready_card: "log_ready s k \<Longrightarrow> card (dirtyb s) < NBUF"
  using card_image_le [of "{..<k}" "home s"] by (auto simp: log_ready_def log_wf_def)

lemma log_part_dom: "log_wf s k \<Longrightarrow> fst ` set (log_part s k) \<subseteq> log_area s - {lstart s}"
  using log_slot_area [of s k] by (force simp: log_part_def)

lemma home_part_dom: "fst ` set (home_part s k) = home s ` {..<k}"
  by (simp add: home_part_def image_image atLeast0LessThan)

lemma homes_out: "log_wf s k \<Longrightarrow> home s ` {..<k} \<inter> log_area s = {}"
  by (auto simp: log_wf_def)

lemma view_start:
  assumes "log_ready s k"
  shows "view s (lstart s) = disk s (lstart s)"
proof -
  have "lstart s \<notin> dirtyb s"
    using assms homes_out [of s k] log_start_area [of s k] by (auto simp: log_ready_def)
  moreover have "bcache_inv s" "lstart s \<notin> heldb s" using assms by (auto simp: log_ready_def log_wf_def)
  ultimately show ?thesis using clean_block by blast
qed

lemma apply_log_part:
  assumes "log_wf s k" "t < k"
  shows "apply_writes (log_part s k) f (lstart s + t + 1) = view s (home s t)"
  using assms(2) by (intro apply_writes_in) (auto simp: log_part_def o_def distinct_map inj_on_def)

lemma commit_ok:
  assumes r: "log_ready s k" and k: "0 < k"
  shows "\<exists>s'. commit s = Ok s' \<and> wrote (commit_writes s k) (s\<lparr>lh_n := 0\<rparr>) s'"
proof -
  have wf: "log_wf s k" and n: "lh_n s = int k" and d: "dirtyb s = home s ` {..<k}"
    and inj: "inj_on (home s) {..<k}" using r by (auto simp: log_ready_def)
  have st: "lstart s \<in> log_area s" "lstart s < disksize s" using log_start_area [OF wf] by auto
  from write_log_loop [OF wf d order_refl] obtain s1 where
    1: "write_log s = Ok s1" "wrote (log_part s k) s s1" by (auto simp: write_log_def n log_part_def)
  note L1 = wrote_log [OF 1(2)]
  have d1: "dirtyb s1 = home s ` {..<k}"
    using 1(2) d log_part_dom [OF wf] homes_out [OF wf] by (auto simp: wrote_def)
  have v1: "view s1 (lstart s) = disk s (lstart s)"
    using 1(2) log_part_dom [OF wf] view_start [OF r]
      apply_writes_other [of "lstart s" "log_part s k" "view s"] by (auto simp: wrote_def)
  have card1: "card (dirtyb s1) < NBUF" using d1 d log_ready_card [OF r] by simp
  from write_head_ok [of s1] L1 wf st card1 obtain s2 where
    2: "write_head s1 = Ok s2" "wrote [(lstart s, commit_head s k)] s1 s2"
    by (auto simp: log_wf_def n v1 commit_head_def)
  note L2 = wrote_log [OF 2(2)]
  have w2: "wrote (log_part s k @ [(lstart s, commit_head s k)]) s s2"
    by (rule wrote_trans [OF 1(2) 2(2)])
  note L2' = wrote_log [OF w2]
  have d2: "dirtyb s2 = home s ` {..<k}" using 2(2) d1 homes_out [OF wf] st by (auto simp: wrote_def)
  have v2: "view s2 (lstart s + t + 1) = view s (home s t)" if "t < k" for t
    using 1(2) 2(2) apply_log_part [OF wf that, of "view s"] by (simp add: wrote_def)
  have hp: "map (\<lambda>t. (home s t, view s2 (Suc (lstart s + t)))) [0..<k] = home_part s k"
    using v2 by (simp add: home_part_def)
  from install_loop [OF wrote_wf [OF wf w2], of k] d2 L2' inj obtain s3 where
    3: "install_trans s2 = Ok s3" "wrote (home_part s k) s2 s3"
    by (auto simp: install_trans_def n hp)
  note L3 = wrote_log [OF 3(2)]
  have d3: "dirtyb s3 = {}" using 3(2) d2 home_part_dom [of s k] by (simp add: wrote_def)
  have w3: "wrote ((log_part s k @ [(lstart s, commit_head s k)]) @ home_part s k) s s3"
    by (rule wrote_trans [OF w2 3(2)])
  have "lstart s \<notin> fst ` set (home_part s k)" using home_part_dom [of s k] homes_out [OF wf] st by auto
  then have v3: "view s3 (lstart s) = commit_head s k"
    using 2(2) 3(2) by (simp add: wrote_def apply_writes_other)
  from write_head_ok [of "s3\<lparr>lh_n := 0\<rparr>"] L3 L2' wf st d3 obtain s4 where
    4: "write_head (s3\<lparr>lh_n := 0\<rparr>) = Ok s4"
       "wrote [(lstart s, put32 0 0 (commit_head s k))] (s3\<lparr>lh_n := 0\<rparr>) s4"
    by (auto simp: log_wf_def v3 head_put_0)
  have "wrote (commit_writes s k) (s\<lparr>lh_n := 0\<rparr>) s4"
    using wrote_trans [OF wrote_lh_n [OF w3, of 0] 4(2)] by (simp add: commit_writes_def)
  moreover have "commit s = Ok s4" using 1 2 3 4 n k by (simp add: commit_def)
  ultimately show ?thesis by blast
qed

section \<open>Recovery\<close>

text \<open>The disk writes of \<open>recover_from_log\<close>, read off the disk image \<open>D\<close> alone.\<close>

definition rec_count :: "(nat \<Rightarrow> mem) \<Rightarrow> nat \<Rightarrow> nat" where
  "rec_count D st = nat (head_n (D st))"

definition rec_home :: "(nat \<Rightarrow> mem) \<Rightarrow> nat \<Rightarrow> nat \<Rightarrow> nat" where
  "rec_home D st t = of_s32 (head_block (D st) t)"

definition recover_writes :: "(nat \<Rightarrow> mem) \<Rightarrow> nat \<Rightarrow> (nat \<times> mem) list" where
  "recover_writes D st =
     map (\<lambda>t. (rec_home D st t, D (st + t + 1))) [0..<rec_count D st] @ [(st, put32 0 0 (D st))]"

text \<open>
  \<open>image_ok D st n sz\<close>: the log of \<open>n\<close> blocks at \<open>st\<close> that the image's header describes lies on
  a disk of \<open>sz\<close> blocks, and its home blocks do too, outside the log.
\<close>

definition image_ok :: "(nat \<Rightarrow> mem) \<Rightarrow> nat \<Rightarrow> nat \<Rightarrow> nat \<Rightarrow> bool" where
  "image_ok D st n sz \<longleftrightarrow> rec_count D st < n \<and> rec_count D st < NBUF \<and> st + n \<le> sz \<and>
     (\<forall>t < rec_count D st. rec_home D st t < sz \<and> rec_home D st t \<notin> {st..<st + n})"

lemma recover_ok:
  assumes inv: "bcache_inv s" "heldb s = {}" "dirtyb s = {}" "ldev s = 1"
    and im: "image_ok (view s) (lstart s) (nat (lsize s)) (disksize s)"
  shows "\<exists>s' f. recover_from_log s = Ok s' \<and>
     wrote (recover_writes (view s) (lstart s)) (s\<lparr>lh_block := f, lh_n := 0\<rparr>) s'"
proof -
  let ?D = "view s" and ?st = "lstart s"
  let ?n = "head_n (?D ?st)"
  let ?f = "\<lambda>i. if int i < ?n then head_block (?D ?st) i else lh_block s i"
  define u where "u = s\<lparr>lh_n := ?n, lh_block := ?f\<rparr>"
  have st: "?st < disksize s" using im by (simp add: image_ok_def)
  from read_head_ok [OF inv(1,2,4) st] inv(3) obtain s1 where
    1: "read_head s = Ok s1" "wrote [] u s1" by (auto simp: u_def)
  note L1 = wrote_log [OF 1(2)]
  have h: "home u t = rec_home ?D ?st t" if "t < rec_count ?D ?st" for t
    using that by (auto simp: home_def rec_home_def rec_count_def zless_nat_eq_int_zless u_def)
  have U: "lstart u = ?st" "nat (lh_n u) = rec_count ?D ?st" "view u = ?D" "dirtyb u = {}"
    "heldb u = {}" "ldev u = 1" "disksize u = disksize s"
    using inv by (simp_all add: u_def rec_count_def)
  have wf: "log_wf u (rec_count ?D ?st)"
    using im inv h by (auto simp: log_wf_def image_ok_def log_area_def u_def)
  have e1: "view s1 = ?D" "dirtyb s1 = {}" using 1(2) U by (simp_all add: wrote_def)
  let ?hw = "map (\<lambda>t. (rec_home ?D ?st t, ?D (?st + t + 1))) [0..<rec_count ?D ?st]"
  have hw: "map (\<lambda>t. (home u t, ?D (?st + t + 1))) [0..<rec_count ?D ?st] = ?hw"
    using h by simp
  from install_loop [OF wrote_wf [OF wf 1(2)], of "rec_count ?D ?st"] obtain s2 where
    2: "install_trans s1 = Ok s2" "wrote ?hw s1 s2"
    unfolding install_trans_def e1 L1 U hw by auto
  note L2 = wrote_log [OF 2(2)]
  have w2: "wrote ?hw u s2" using wrote_trans [OF 1(2) 2(2)] by simp
  have "?st \<notin> fst ` set ?hw" using im by (auto simp: image_ok_def)
  then have v2: "view s2 ?st = ?D ?st" using w2 U by (simp add: wrote_def apply_writes_other)
  have d2: "dirtyb s2 = {}" using w2 U by (simp add: wrote_def)
  from write_head_ok [of "s2\<lparr>lh_n := 0\<rparr>"] L1 L2 U inv st d2 v2 obtain s3 where
    3: "write_head (s2\<lparr>lh_n := 0\<rparr>) = Ok s3" "wrote [(?st, put32 0 0 (?D ?st))] (s2\<lparr>lh_n := 0\<rparr>) s3"
    by (auto simp: head_put_0)
  have "wrote (recover_writes ?D ?st) (s\<lparr>lh_block := ?f, lh_n := 0\<rparr>) s3"
    using wrote_trans [OF wrote_lh_n [OF w2, of 0] 3(2)] by (simp add: recover_writes_def u_def)
  moreover have "recover_from_log s = Ok s3" using 1 2 3 by (simp add: recover_from_log_def)
  ultimately show ?thesis by blast
qed

text \<open>
  A crash loses all but the disk; \<open>reboot D s\<close> is the machine with image \<open>D\<close> after the zeroed
  kernel data and \<open>binit\<close>.  \<open>sb_at D st n\<close>: block 1 of the image is a superblock that places a
  log of \<open>n\<close> blocks at \<open>st\<close>.
\<close>

definition reboot :: "(nat \<Rightarrow> mem) \<Rightarrow> 'a log_state_scheme \<Rightarrow> 'a log_state_scheme" where
  "reboot D s = boot_cache (s\<lparr>disk := D, lstart := 0, lsize := 0, outstanding := 0,
     committing := False, ldev := 0, lh_n := 0, lh_block := (\<lambda>_. 0)\<rparr>)"

definition sb_at :: "(nat \<Rightarrow> mem) \<Rightarrow> nat \<Rightarrow> nat \<Rightarrow> bool" where
  "sb_at D st n \<longleftrightarrow> sb_logstart (decode_sb (D 1)) = st \<and> sb_nlog (decode_sb (D 1)) = n
     \<and> 1 \<notin> {st..<st + n}"

lemma reboot_sel [simp]: "disk (reboot D s) = D" "disksize (reboot D s) = disksize s"
  "diskwrites (reboot D s) = []" "bcache_inv (reboot D s)" "view (reboot D s) = D"
  "dirtyb (reboot D s) = {}" "heldb (reboot D s) = {}"
  unfolding reboot_def by (simp_all add: boot_cache_ok)

lemma readsb_ok:
  assumes "bcache_inv s" "heldb s = {}" "card (dirtyb s) < NBUF" "1 < disksize s"
  shows "\<exists>s'. readsb 1 s = Ok (decode_sb (view s 1), s') \<and> bc.unchanged s s'"
proof -
  from bc.peek_ok [of s 1] assms obtain i s1 s2 where
    "bread 1 1 s = Ok (i, s1)" "bdata (bufs s1 i) = view s 1" "brelse i s1 = Ok s2"
    "bc.unchanged s s2" by auto
  then show ?thesis by (simp add: readsb_def Let_def)
qed

lemma initlog_ok:
  assumes sb: "sb_at D st n" and im: "image_ok D st n (disksize s)" and one: "1 < disksize s"
  shows "\<exists>r. initlog 1 (reboot D s) = Ok r \<and> bcache_inv r \<and> lh_n r = 0 \<and> lstart r = st \<and>
     lsize r = int n \<and> ldev r = 1 \<and> dirtyb r = {} \<and> heldb r = {} \<and>
     disk r = apply_writes (recover_writes D st) D \<and> view r = disk r \<and>
     diskwrites r = recover_writes D st \<and> disksize r = disksize s"
proof -
  from readsb_ok [of "reboot D s"] one obtain s1 where
    1: "readsb 1 (reboot D s) = Ok (decode_sb (D 1), s1)" "bc.unchanged (reboot D s) s1" by auto
  have f: "bframe (reboot D s) s1" using 1(2) by (simp add: bc.unchanged_def)
  let ?s = "s1\<lparr>lstart := st, lsize := int n, ldev := 1\<rparr>"
  have c: "bcache_inv ?s" "heldb ?s = {}" "dirtyb ?s = {}" "view ?s = D" "disk ?s = D"
    "diskwrites ?s = []" "disksize ?s = disksize s" "ldev ?s = 1"
    using 1(2) bframe_log(8) [OF f] by (simp_all add: bc.unchanged_def)
  from recover_ok [OF c(1-3,8)] im c obtain s2 g where
    2: "recover_from_log ?s = Ok s2"
       "wrote (recover_writes D st) (?s\<lparr>lh_block := g, lh_n := 0\<rparr>) s2" by auto
  note L = wrote_log [OF 2(2)]
  have "initlog 1 (reboot D s) = Ok s2"
    using 1(1) 2(1) sb by (simp add: initlog_def sb_at_def)
  moreover from 2(2) c L have "bcache_inv s2" "disk s2 = apply_writes (recover_writes D st) D"
    "view s2 = apply_writes (recover_writes D st) D" "diskwrites s2 = recover_writes D st"
    "dirtyb s2 = {}" "heldb s2 = {}" "lh_n s2 = 0" "lstart s2 = st" "lsize s2 = int n" "ldev s2 = 1"
    "disksize s2 = disksize s"
    by (simp_all add: wrote_def)
  ultimately show ?thesis by auto
qed

section \<open>Crash safety\<close>

text \<open>Installing twice is installing once, and a prefix of the writes does not matter before all of them.\<close>

lemma apply_writes_dom: "b \<in> fst ` set ws \<Longrightarrow> apply_writes ws f b = apply_writes ws g b"
proof (induction ws arbitrary: f g)
  case (Cons w ws)
  then show ?case
    by (cases w, cases "b \<in> fst ` set ws") (auto simp: apply_writes_other)
qed simp

lemma apply_writes_absorb:
  assumes "fst ` set vs \<subseteq> fst ` set ws"
  shows "apply_writes ws (apply_writes vs f) = apply_writes ws f"
proof
  fix b
  show "apply_writes ws (apply_writes vs f) b = apply_writes ws f b"
  proof (cases "b \<in> fst ` set ws")
    case False
    with assms have "b \<notin> fst ` set vs" by blast
    with False show ?thesis by (metis apply_writes_other)
  qed (rule apply_writes_dom)
qed

lemma head_n_clear [simp]: "head_n (put32 0 0 d) = 0"
  by (simp add: head_n_def s32_def)

lemma rec_count_clear: "head_n (D st) \<le> 0 \<Longrightarrow> recover_writes D st = [(st, put32 0 0 (D st))]"
  by (simp add: recover_writes_def rec_count_def)

text \<open>\<open>outside\<close>: the images agree on every block that is not part of the log.\<close>

definition same_outside :: "nat \<Rightarrow> nat \<Rightarrow> (nat \<Rightarrow> mem) \<Rightarrow> (nat \<Rightarrow> mem) \<Rightarrow> bool" where
  "same_outside st n D E \<longleftrightarrow> (\<forall>b. b \<notin> {st..<st + n} \<longrightarrow> D b = E b)"

definition sb_ok :: "'a log_state_scheme \<Rightarrow> nat \<Rightarrow> bool" where
  "sb_ok s k \<longleftrightarrow> sb_at (disk s) (lstart s) (nat (lsize s)) \<and> 1 \<notin> home s ` {..<k} \<and> 1 < disksize s"

definition crash_image :: "'a log_state_scheme \<Rightarrow> nat \<Rightarrow> nat \<Rightarrow> nat \<Rightarrow> mem" where
  "crash_image s k m = apply_writes (take m (commit_writes s k)) (disk s)"

lemma take_commit_writes:
  "m \<le> k \<Longrightarrow> take m (commit_writes s k) = take m (log_part s k)"
  "take (k + 1 + j) (commit_writes s k) =
     log_part s k @ [(lstart s, commit_head s k)] @ take j (home_part s k @ [(lstart s, put32 0 0 (commit_head s k))])"
  by (simp_all add: commit_writes_def log_part_def)

lemma commit_writes_dom:
  assumes "log_wf s k"
  shows "fst ` set (commit_writes s k) \<subseteq> log_area s \<union> home s ` {..<k}"
  using log_part_dom [OF assms] log_start_area [OF assms] home_part_dom [of s k]
  by (auto simp: commit_writes_def image_Un)

lemma crash_image_sb:
  assumes "log_wf s k" "sb_ok s k"
  shows "sb_at (crash_image s k m) (lstart s) (nat (lsize s))"
proof -
  have "fst ` set (take m (commit_writes s k)) \<subseteq> log_area s \<union> home s ` {..<k}"
    using commit_writes_dom [OF assms(1)] set_take_subset [of m "commit_writes s k"] by blast
  moreover have "1 \<notin> log_area s" using assms(2) by (simp add: sb_ok_def sb_at_def log_area_def)
  ultimately have "1 \<notin> fst ` set (take m (commit_writes s k))" using assms(2) by (auto simp: sb_ok_def)
  then have "crash_image s k m 1 = disk s 1" by (simp add: crash_image_def apply_writes_other)
  with assms(2) show ?thesis by (simp add: sb_ok_def sb_at_def)
qed

lemma crash_early:
  assumes r: "log_ready s k" and m: "m \<le> k"
  shows "recover_writes (crash_image s k m) (lstart s) = [(lstart s, put32 0 0 (disk s (lstart s)))]"
    and "image_ok (crash_image s k m) (lstart s) (nat (lsize s)) (disksize s)"
    and "same_outside (lstart s) (nat (lsize s)) (crash_image s k m) (disk s)"
proof -
  have wf: "log_wf s k" using r by (simp add: log_ready_def)
  have dom: "fst ` set (take m (log_part s k)) \<subseteq> log_area s - {lstart s}"
    using log_part_dom [OF wf] set_take_subset [of m "log_part s k"] by blast
  then have st: "crash_image s k m (lstart s) = disk s (lstart s)"
    by (subst crash_image_def, subst take_commit_writes(1) [OF m], subst apply_writes_other) auto
  then show "recover_writes (crash_image s k m) (lstart s) = [(lstart s, put32 0 0 (disk s (lstart s)))]"
    using r rec_count_clear [of "crash_image s k m" "lstart s"] by (simp add: log_ready_def)
  have "rec_count (crash_image s k m) (lstart s) = 0" using st r by (simp add: rec_count_def log_ready_def)
  then show "image_ok (crash_image s k m) (lstart s) (nat (lsize s)) (disksize s)"
    using wf by (auto simp: image_ok_def log_wf_def)
  show "same_outside (lstart s) (nat (lsize s)) (crash_image s k m) (disk s)"
    using dom by (auto simp: same_outside_def crash_image_def take_commit_writes(1) [OF m] log_area_def
        intro!: apply_writes_other)
qed

lemma commit_head_fields:
  assumes "log_ready s k"
  shows "head_n (commit_head s k) = int k" and "\<And>t. t < k \<Longrightarrow> head_block (commit_head s k) t = lh_block s t"
  using assms by (auto simp: commit_head_def log_ready_def log_wf_def intro: head_n_put head_block_put)

text \<open>Once the header is written the log holds the transaction, whatever part of the rest follows.\<close>

lemma crash_late:
  assumes r: "log_ready s k" and j: "j \<le> k"
  defines "D \<equiv> crash_image s k (k + 1 + j)"
  shows "recover_writes D (lstart s) = home_part s k @ [(lstart s, put32 0 0 (commit_head s k))]"
    and "image_ok D (lstart s) (nat (lsize s)) (disksize s)"
    and "D = apply_writes (take j (home_part s k))
              (apply_writes (log_part s k @ [(lstart s, commit_head s k)]) (disk s))"
proof -
  have wf: "log_wf s k" using r by (simp add: log_ready_def)
  have "take j (home_part s k @ [(lstart s, put32 0 0 (commit_head s k))]) = take j (home_part s k)"
    using j by (simp add: home_part_def)
  then show De: "D = apply_writes (take j (home_part s k))
      (apply_writes (log_part s k @ [(lstart s, commit_head s k)]) (disk s))"
    unfolding D_def crash_image_def take_commit_writes(2) by simp
  have "fst ` set (take j (home_part s k)) \<subseteq> home s ` {..<k}"
    using home_part_dom [of s k] set_take_subset [of j "home_part s k"] by blast
  then have log_same: "D b = apply_writes (log_part s k @ [(lstart s, commit_head s k)]) (disk s) b"
    if "b \<in> log_area s" for b
    unfolding De using that homes_out [OF wf] by (intro apply_writes_other) auto
  have st: "D (lstart s) = commit_head s k" using log_same log_start_area [OF wf] by simp
  have slot: "D (lstart s + t + 1) = view s (home s t)" if "t < k" for t
    using log_same [of "lstart s + t + 1"] log_slot_area [OF wf that]
      apply_log_part [OF wf that, of "disk s"] by simp
  have n: "rec_count D (lstart s) = k" by (simp add: rec_count_def st commit_head_fields [OF r])
  have h: "rec_home D (lstart s) t = home s t" if "t < k" for t
    using that by (simp add: rec_home_def st commit_head_fields [OF r] home_def)
  show "recover_writes D (lstart s) = home_part s k @ [(lstart s, put32 0 0 (commit_head s k))]"
    unfolding recover_writes_def n st using h slot by (simp add: home_part_def)
  show "image_ok D (lstart s) (nat (lsize s)) (disksize s)"
    using wf h by (auto simp: image_ok_def n log_wf_def log_area_def)
qed

lemma view_home_part:
  assumes r: "log_ready s k" and b: "b \<notin> log_area s" and f: "\<And>b. b \<notin> log_area s \<Longrightarrow> f b = disk s b"
  shows "apply_writes (home_part s k) f b = view s b"
proof (cases "b \<in> home s ` {..<k}")
  case True
  then have "(b, view s b) \<in> set (home_part s k)" by (force simp: home_part_def)
  moreover have "distinct (map fst (home_part s k))"
    using r by (simp add: home_part_def o_def distinct_map log_ready_def atLeast0LessThan)
  ultimately show ?thesis by (intro apply_writes_in)
next
  case False
  then have "b \<notin> dirtyb s" "b \<notin> heldb s" "bcache_inv s" using r by (auto simp: log_ready_def log_wf_def)
  then have "view s b = disk s b" using clean_block by blast
  with False f [OF b] show ?thesis by (simp add: home_part_dom apply_writes_other)
qed

lemma home_part_outside:
  assumes r: "log_ready s k"
  shows "same_outside (lstart s) (nat (lsize s))
     (apply_writes (home_part s k) (apply_writes (log_part s k @ [(lstart s, c)]) (disk s))) (view s)"
proof -
  have wf: "log_wf s k" using r by (simp add: log_ready_def)
  have "fst ` set (log_part s k @ [(lstart s, c)]) \<subseteq> log_area s"
    using log_part_dom [OF wf] log_start_area [OF wf] by auto
  then have "apply_writes (log_part s k @ [(lstart s, c)]) (disk s) b = disk s b" if "b \<notin> log_area s" for b
    using that by (intro apply_writes_other) blast
  then show ?thesis using view_home_part [OF r] by (simp add: same_outside_def log_area_def del: apply_writes_simps)
qed

section \<open>Transactions\<close>

lemma of_s32_s32: "n < 2 ^ 32 \<Longrightarrow> of_s32 (s32 n) = n"
  by (auto simp: of_s32_def s32_def Let_def)

lemma s32_range: "- (2 ^ 31) \<le> s32 n \<and> s32 n < 2 ^ 31"
proof -
  have "0 \<le> int n mod 2 ^ 32" "int n mod 2 ^ 32 < 2 ^ 32" by simp_all
  then show ?thesis by (simp add: s32_def Let_def del: pos_mod_bound pos_mod_sign)
qed

lemma log_slot_found:
  "(\<exists>i \<in> set is. of_s32 (blk i) = bno) \<Longrightarrow> log_slot bno blk is n \<in> set is \<and> of_s32 (blk (log_slot bno blk is n)) = bno"
  by (induction "is") auto

lemma log_slot_absent: "(\<forall>i \<in> set is. of_s32 (blk i) \<noteq> bno) \<Longrightarrow> log_slot bno blk is n = n"
  by (induction "is") auto

text \<open>
  \<open>log_open s k\<close> is \<open>log_ready\<close> in the middle of a system call: buffers may be held.
\<close>

definition log_open :: "'a log_state_scheme \<Rightarrow> nat \<Rightarrow> bool" where
  "log_open s k \<longleftrightarrow> bcache_inv s \<and> ldev s = 1 \<and> int k < lsize s \<and> k < NBUF \<and>
     lstart s + nat (lsize s) \<le> disksize s \<and>
     (\<forall>t < k. home s t < disksize s \<and> home s t \<notin> log_area s) \<and>
     lh_n s = int k \<and> dirtyb s = home s ` {..<k} \<and>
     inj_on (home s) {..<k} \<and> (\<forall>t < k. - (2 ^ 31) \<le> lh_block s t \<and> lh_block s t < 2 ^ 31) \<and>
     head_n (disk s (lstart s)) = 0"

lemma log_ready_open: "log_ready s k \<longleftrightarrow> log_open s k \<and> heldb s = {}"
  by (auto simp: log_ready_def log_open_def log_wf_def)

text \<open>What a home block may be: a block of the disk outside the log, numbered below \<open>2^32\<close>.\<close>

definition data_block :: "'a log_state_scheme \<Rightarrow> nat \<Rightarrow> bool" where
  "data_block s b \<longleftrightarrow> b < disksize s \<and> b \<notin> log_area s \<and> b < 2 ^ 32"

definition lh_insert :: "nat \<Rightarrow> 'a log_state_scheme \<Rightarrow> 'a log_state_scheme" where
  "lh_insert bno s =
     (let i = log_slot bno (lh_block s) [0..<nat (lh_n s)] (nat (lh_n s));
          s1 = s\<lparr>lh_block := (lh_block s)(i := s32 bno)\<rparr>
      in if int i = lh_n s then s1\<lparr>lh_n := lh_n s + 1\<rparr> else s1)"

lemma lh_insert_sel [simp]:
  "bcache_inv (lh_insert b s) = bcache_inv s" "view (lh_insert b s) = view s"
  "dirtyb (lh_insert b s) = dirtyb s" "heldb (lh_insert b s) = heldb s"
  "holds (lh_insert b s) m i = holds s m i" "disk (lh_insert b s) = disk s"
  "diskwrites (lh_insert b s) = diskwrites s" "disksize (lh_insert b s) = disksize s"
  "bufs (lh_insert b s) = bufs s"
  "lstart (lh_insert b s) = lstart s" "lsize (lh_insert b s) = lsize s" "ldev (lh_insert b s) = ldev s"
  "outstanding (lh_insert b s) = outstanding s" "committing (lh_insert b s) = committing s"
proof -
  have e: "bufs (lh_insert b s) = bufs s" "bnext (lh_insert b s) = bnext s"
    "bprev (lh_insert b s) = bprev s" "disk (lh_insert b s) = disk s" "disksize (lh_insert b s) = disksize s"
    by (simp_all add: lh_insert_def Let_def)
  show "bcache_inv (lh_insert b s) = bcache_inv s" "view (lh_insert b s) = view s"
    "dirtyb (lh_insert b s) = dirtyb s" "heldb (lh_insert b s) = heldb s"
    "holds (lh_insert b s) m i = holds s m i" by (rule bio_cong [OF e])+
qed (simp_all add: lh_insert_def Let_def)

lemma log_write_eq:
  "log_write i s =
     (if LOGSIZE \<le> lh_n s \<or> lsize s - 1 \<le> lh_n s then Panic ''too big a transaction''
      else if outstanding s < 1 then Panic ''log_write outside of trans''
      else Ok (upd_buf i (\<lambda>x. x\<lparr>bflags := bflags x OR B_DIRTY\<rparr>) (lh_insert (blockno (bufs s i)) s)))"
  by (simp add: log_write_def lh_insert_def Let_def)

text \<open>The header after \<open>log_write\<close>: a block already logged keeps its slot, a new one is appended.\<close>

lemma lh_insert_slots:
  assumes o: "log_open s k" and b: "b < 2 ^ 32"
  shows "b \<in> home s ` {..<k} \<Longrightarrow> lh_n (lh_insert b s) = int k \<and> (\<forall>t < k. home (lh_insert b s) t = home s t)"
    and "b \<notin> home s ` {..<k} \<Longrightarrow> lh_n (lh_insert b s) = int k + 1 \<and> home (lh_insert b s) k = b \<and>
           (\<forall>t < k. home (lh_insert b s) t = home s t)"
    and "(\<forall>t < Suc k. t < k \<or> b \<notin> home s ` {..<k} \<longrightarrow>
           - (2 ^ 31) \<le> lh_block (lh_insert b s) t \<and> lh_block (lh_insert b s) t < 2 ^ 31)"
proof -
  have n: "lh_n s = int k" and rg: "\<forall>t < k. - (2 ^ 31) \<le> lh_block s t \<and> lh_block s t < 2 ^ 31"
    using o by (simp_all add: log_open_def)
  let ?i = "log_slot b (lh_block s) [0..<k] k"
  { assume "b \<in> home s ` {..<k}"
    then have "\<exists>i \<in> set [0..<k]. of_s32 (lh_block s i) = b" by (auto simp: home_def)
    from log_slot_found [OF this, of k] have i: "?i < k" "of_s32 (lh_block s ?i) = b" by simp_all
    then show "lh_n (lh_insert b s) = int k \<and> (\<forall>t < k. home (lh_insert b s) t = home s t)"
      using b by (auto simp: lh_insert_def n Let_def home_def of_s32_s32) }
  { assume "b \<notin> home s ` {..<k}"
    then have "?i = k" by (intro log_slot_absent) (auto simp: home_def)
    then show "lh_n (lh_insert b s) = int k + 1 \<and> home (lh_insert b s) k = b \<and>
        (\<forall>t < k. home (lh_insert b s) t = home s t)"
      using b by (auto simp: lh_insert_def n Let_def home_def of_s32_s32) }
  show "(\<forall>t < Suc k. t < k \<or> b \<notin> home s ` {..<k} \<longrightarrow>
      - (2 ^ 31) \<le> lh_block (lh_insert b s) t \<and> lh_block (lh_insert b s) t < 2 ^ 31)"
  proof (cases "b \<in> home s ` {..<k}")
    case True
    then show ?thesis using rg s32_range [of b] by (auto simp: lh_insert_def n Let_def less_Suc_eq)
  next
    case False
    then have "?i = k" by (intro log_slot_absent) (auto simp: home_def)
    then show ?thesis using rg s32_range [of b] by (auto simp: lh_insert_def n Let_def less_Suc_eq)
  qed
qed

text \<open>
  \<open>log_write\<close> on a held data block, within the admitted size: it returns, the block is pinned
  and recorded once, and no block's view changes.
\<close>

lemma log_write_ok:
  assumes o: "log_open s k" and out: "1 \<le> outstanding s" and h: "holds s b i" and d: "data_block s b"
    and sz: "int k < LOGSIZE - 1" "int k < lsize s - 1"
  shows "\<exists>s' k'. log_write i s = Ok s' \<and> log_open s' k' \<and>
     k' = (if b \<in> home s ` {..<k} then k else Suc k) \<and>
     home s' ` {..<k'} = insert b (home s ` {..<k}) \<and> view s' = view s \<and> heldb s' = heldb s \<and>
     (\<forall>m j. holds s' m j = holds s m j) \<and> b \<in> dirtyb s' \<and> disk s' = disk s \<and>
     disksize s' = disksize s \<and> lstart s' = lstart s \<and> lsize s' = lsize s \<and>
     outstanding s' = outstanding s \<and> committing s' = committing s \<and> diskwrites s' = diskwrites s"
proof -
  have inv: "bcache_inv s" and n: "lh_n s = int k" using o by (simp_all add: log_open_def)
  let ?l = "lh_insert b s"
  define s' where "s' = upd_buf i (\<lambda>x. x\<lparr>bflags := bflags x OR B_DIRTY\<rparr>) ?l"
  have w: "log_write i s = Ok s'"
    using out sz n holdsD(3) [OF inv h] by (simp add: log_write_eq s'_def)
  have hl: "holds ?l b i" and il: "bcache_inv ?l" using h inv by simp_all
  note P = pin_ok [OF il hl, folded s'_def]
  note F = bframe_log [OF P(6)]
  have b32: "b < 2 ^ 32" using d by (simp add: data_block_def)
  define k' where "k' = (if b \<in> home s ` {..<k} then k else Suc k)"
  note S = lh_insert_slots [OF o b32]
  have hm: "home s' = home ?l" by (simp add: fun_eq_iff home_def F)
  have "home s' ` {..<k'} = insert b (home s ` {..<k}) \<and> lh_n s' = int k' \<and> inj_on (home s') {..<k'}"
  proof (cases "b \<in> home s ` {..<k}")
    case True
    with S(1) have e: "\<forall>t < k. home s' t = home s t" "lh_n s' = int k" by (simp_all add: hm F)
    with True o show ?thesis
      by (auto simp: k'_def log_open_def inj_on_def)
  next
    case False
    with S(2) have e: "\<forall>t < k. home s' t = home s t" "lh_n s' = int k + 1" "home s' k = b"
      by (simp_all add: hm F)
    with False o show ?thesis
      by (auto simp: k'_def log_open_def inj_on_def lessThan_Suc) (metis imageI lessThan_iff)
  qed
  then have homes: "home s' ` {..<k'} = insert b (home s ` {..<k})" and n': "lh_n s' = int k'"
    and inj: "inj_on (home s') {..<k'}" by simp_all
  have area: "log_area s' = log_area s" by (simp add: log_area_def F)
  have ok: "home s' t < disksize s \<and> home s' t \<notin> log_area s" if "t < k'" for t
  proof -
    have "home s' t \<in> insert b (home s ` {..<k})" using homes that by blast
    with o d show ?thesis by (auto simp: log_open_def data_block_def)
  qed
  have rg: "\<forall>t < k'. - (2 ^ 31) \<le> lh_block s' t \<and> lh_block s' t < 2 ^ 31"
    using S(3) by (auto simp: k'_def F split: if_splits)
  have "int k' < lsize s" "k' < NBUF" using sz o by (auto simp: k'_def log_open_def)
  then have "log_open s' k'"
    using o P(1,3,7) F(1,2,5,8) homes n' inj ok rg area by (simp add: log_open_def)
  with w P F homes show ?thesis
    by (intro exI [of _ s'] exI [of _ k']) (simp add: k'_def)
qed

text \<open>
  The pattern every file system routine uses to change a block: read it, change the data,
  \<open>log_write\<close>, release.  A system call is a sequence of these between \<open>begin_op\<close> and \<open>end_op\<close>.
\<close>

definition tx_update :: "nat \<times> mem \<Rightarrow> 'a log_state_scheme \<Rightarrow> 'a log_state_scheme outcome" where
  "tx_update u s =
     bindE (bread 1 (fst u) s) (\<lambda>(i, s).
     bindE (log_write i (set_data i (snd u) s)) (brelse i))"

definition tx_run :: "(nat \<times> mem) list \<Rightarrow> 'a log_state_scheme \<Rightarrow> 'a log_state_scheme outcome" where
  "tx_run us s = bindE (begin_op s) (\<lambda>s. bindE (forE tx_update us s) end_op)"

lemma log_open_frame:
  assumes "log_open s k" "bframe s s'" "bcache_inv s'" "dirtyb s' = dirtyb s" "disk s' = disk s"
  shows "log_open s' k"
  using assms(1,3-5) bframe_log [OF assms(2)]
  by (simp add: log_open_def home_def [abs_def] log_area_def)

lemma tx_update_ok:
  assumes r: "log_ready s k" and out: "1 \<le> outstanding s" and d: "data_block s b"
    and sz: "int k < LOGSIZE - 1" "int k < lsize s - 1"
  shows "\<exists>s' k'. tx_update (b, v) s = Ok s' \<and> log_ready s' k' \<and> k \<le> k' \<and> k' \<le> Suc k \<and>
     home s' ` {..<k'} = insert b (home s ` {..<k}) \<and> view s' = (view s)(b := v) \<and>
     disk s' = disk s \<and> diskwrites s' = diskwrites s \<and> disksize s' = disksize s \<and>
     lstart s' = lstart s \<and> lsize s' = lsize s \<and> outstanding s' = outstanding s \<and>
     committing s' = committing s"
proof -
  have o: "log_open s k" and inv: "bcache_inv s" and nh: "heldb s = {}"
    using r by (simp_all add: log_ready_open log_open_def)
  have "b < disksize s" using d by (simp add: data_block_def)
  with bc.rd_law [OF inv, of b] log_ready_card [OF r] nh obtain i s1 where
    1: "bread 1 b s = Ok (i, s1)" "bcache_inv s1" "holds s1 b i" "view s1 = view s" "disk s1 = disk s"
    "diskwrites s1 = diskwrites s" "dirtyb s1 = dirtyb s" "heldb s1 = {b}" "bframe s s1" by auto
  let ?p = "set_data i v s1"
  have 2: "bcache_inv ?p" "view ?p = (view s1)(b := v)" "disk ?p = disk s1"
    "diskwrites ?p = diskwrites s1" "dirtyb ?p = dirtyb s1" "heldb ?p = heldb s1" "bframe s1 ?p"
    "holds ?p b i" using bc.put_law [OF 1(2,3), of v] 1(3) by simp_all
  have fr: "bframe s ?p" by (rule bframe_trans [OF 1(9) 2(7)])
  note F = bframe_log [OF fr]
  have op: "log_open ?p k" by (rule log_open_frame [OF o fr]) (simp_all add: 1 2)
  have hm: "home ?p = home s" by (simp add: home_def [abs_def] F)
  have d2: "data_block ?p b" using d by (simp add: data_block_def log_area_def F)
  from log_write_ok [OF op _ 2(8) d2 sz(1)] out sz(2) obtain s2 k' where
    3: "log_write i ?p = Ok s2" "log_open s2 k'" "k' = (if b \<in> home s ` {..<k} then k else Suc k)"
    "home s2 ` {..<k'} = insert b (home s ` {..<k})" "view s2 = view ?p" "heldb s2 = heldb ?p"
    "holds s2 b i" "b \<in> dirtyb s2" "disk s2 = disk ?p" "disksize s2 = disksize ?p" "lstart s2 = lstart ?p"
    "lsize s2 = lsize ?p" "outstanding s2 = outstanding ?p" "committing s2 = committing ?p"
    "diskwrites s2 = diskwrites ?p"
    using 2(8) by (auto simp: F hm)
  have inv2: "bcache_inv s2" using 3(2) by (simp add: log_open_def)
  from bc.rl_law [OF inv2 3(7)] 3(8) obtain s3 where
    4: "brelse i s2 = Ok s3" "bcache_inv s3" "view s3 = view s2" "disk s3 = disk s2"
    "diskwrites s3 = diskwrites s2" "dirtyb s3 = dirtyb s2" "heldb s3 = heldb s2 - {b}" "bframe s2 s3"
    by blast
  note G = bframe_log [OF 4(8)]
  have "log_ready s3 k'"
    using log_open_frame [OF 3(2) 4(8,2,6,4)] 4(7) 3(6) 2(6) 1(8) by (simp add: log_ready_open)
  moreover have "home s3 ` {..<k'} = insert b (home s ` {..<k})"
    using 3(4) by (simp add: home_def [abs_def] G)
  ultimately show ?thesis
    using 1 2 3 4 F G by (intro exI [of _ s3] exI [of _ k']) (auto simp: tx_update_def)
qed

lemma initlog_ready:
  assumes "sb_at D st n" "image_ok D st n (disksize s)" "1 < disksize s"
  shows "\<exists>r. initlog 1 (reboot D s) = Ok r \<and> log_ready r 0 \<and> lstart r = st \<and> lsize r = int n \<and>
     disk r = apply_writes (recover_writes D st) D \<and> diskwrites r = recover_writes D st \<and>
     disksize r = disksize s"
proof -
  from initlog_ok [OF assms] obtain r where r: "initlog 1 (reboot D s) = Ok r" "bcache_inv r"
    "lh_n r = 0" "lstart r = st" "lsize r = int n" "ldev r = 1" "dirtyb r = {}" "heldb r = {}"
    "disk r = apply_writes (recover_writes D st) D" "disksize r = disksize s"
    "diskwrites r = recover_writes D st" by blast
  have "log_ready r 0"
    using r assms(2) by (simp add: log_ready_def log_wf_def image_ok_def recover_writes_def)
  with r show ?thesis by blast
qed

lemma same_outside_header:
  "same_outside st n D E \<Longrightarrow> 0 < n \<Longrightarrow> same_outside st n (apply_writes [(st, h)] D) E"
  by (auto simp: same_outside_def)

text \<open>
  A crash after any number \<open>m\<close> of \<open>commit\<close>'s disk writes, then a boot: up to the header write
  the old contents are back, from then on the new ones.
\<close>

lemma crash_recovery:
  assumes r: "log_ready s k" and sb: "sb_ok s k" and t: "disksize t = disksize s"
  shows "\<exists>r. initlog 1 (reboot (crash_image s k m) t) = Ok r \<and> log_ready r 0 \<and>
     same_outside (lstart s) (nat (lsize s)) (disk r) (if m \<le> k then disk s else view s)"
proof -
  let ?st = "lstart s" and ?n = "nat (lsize s)" and ?D = "crash_image s k m"
  have wf: "log_wf s k" using r by (simp add: log_ready_def)
  have n0: "0 < ?n" using wf by (simp add: log_wf_def)
  have one: "1 < disksize s" using sb by (simp add: sb_ok_def)
  note init = initlog_ready [OF crash_image_sb [OF wf sb, of m], of t, unfolded t, OF _ one]
  consider "m \<le> k" | j where "m = k + 1 + j" "j \<le> k" | "2 * k + 2 \<le> m"
  proof -
    have "m \<le> k \<or> (k + 1 \<le> m \<and> m \<le> 2 * k + 1) \<or> 2 * k + 2 \<le> m" by linarith
    moreover have "k + 1 \<le> m \<Longrightarrow> m \<le> 2 * k + 1 \<Longrightarrow> m = k + 1 + (m - k - 1) \<and> m - k - 1 \<le> k" by simp
    ultimately show thesis using that by blast
  qed
  then show ?thesis
  proof cases
    case 1
    note E = crash_early [OF r 1]
    from init [OF E(2)] E(1) same_outside_header [OF E(3) n0] 1 show ?thesis by auto
  next
    case 2
    note E = crash_late [OF r 2(2), folded 2(1)]
    let ?X = "apply_writes (log_part s k @ [(?st, commit_head s k)]) (disk s)"
    have "fst ` set (take j (home_part s k)) \<subseteq> fst ` set (home_part s k)"
      using set_take_subset by (rule image_mono)
    then have "apply_writes (recover_writes ?D ?st) ?D =
        apply_writes [(?st, put32 0 0 (commit_head s k))] (apply_writes (home_part s k) ?X)"
      unfolding E(1) unfolding E(3) by (simp only: apply_writes_simps(3) apply_writes_absorb)
    with init [OF E(2)] same_outside_header [OF home_part_outside [OF r] n0] 2 show ?thesis
      by (auto simp del: apply_writes_simps)
  next
    case 3
    then have "take m (commit_writes s k) = commit_writes s k"
      by (simp add: commit_writes_def log_part_def home_part_def)
    then have D: "?D = apply_writes [(?st, put32 0 0 (commit_head s k))] (apply_writes (home_part s k)
        (apply_writes (log_part s k @ [(?st, commit_head s k)]) (disk s)))"
      by (simp add: crash_image_def commit_writes_def)
    have so: "same_outside ?st ?n ?D (view s)"
      unfolding D by (rule same_outside_header [OF home_part_outside [OF r] n0])
    have st: "head_n (?D ?st) = 0" by (simp add: D)
    then have "image_ok ?D ?st ?n (disksize s)"
      using wf by (auto simp: image_ok_def rec_count_def log_wf_def)
    from init [OF this] rec_count_clear [of ?D ?st] st same_outside_header [OF so n0] 3 show ?thesis
      by auto
  qed
qed

lemma tx_updates_ok:
  assumes r: "log_ready s 0" and out: "1 \<le> outstanding s" and d: "\<forall>b \<in> fst ` set us. data_block s b"
    and sz: "int (card (fst ` set (butlast us))) < min (LOGSIZE - 1) (lsize s - 1)"
  shows "\<exists>s' k. forE tx_update us s = Ok s' \<and> log_ready s' k \<and> k = card (fst ` set us) \<and>
     home s' ` {..<k} = fst ` set us \<and> view s' = apply_writes us (view s) \<and> disk s' = disk s \<and>
     diskwrites s' = diskwrites s \<and> disksize s' = disksize s \<and> lstart s' = lstart s \<and>
     lsize s' = lsize s \<and> outstanding s' = outstanding s \<and> committing s' = committing s"
  using d sz
proof (induction us rule: rev_induct)
  case Nil
  with r show ?case by auto
next
  case (snoc u us)
  obtain b v where u: "u = (b, v)" by (cases u)
  have c: "int (card (fst ` set us)) < min (LOGSIZE - 1) (lsize s - 1)" using snoc.prems(2) by simp
  have "card (fst ` set (butlast us)) \<le> card (fst ` set us)"
    by (intro card_mono image_mono) (auto dest: in_set_butlastD)
  with c have "int (card (fst ` set (butlast us))) < min (LOGSIZE - 1) (lsize s - 1)" by simp
  with snoc.IH snoc.prems(1) obtain s1 k where
    1: "forE tx_update us s = Ok s1" "log_ready s1 k" "k = card (fst ` set us)"
    "home s1 ` {..<k} = fst ` set us" "view s1 = apply_writes us (view s)" "disk s1 = disk s"
    "diskwrites s1 = diskwrites s" "disksize s1 = disksize s" "lstart s1 = lstart s" "lsize s1 = lsize s"
    "outstanding s1 = outstanding s" "committing s1 = committing s" by auto
  have "data_block s1 b" using snoc.prems(1) u 1 by (auto simp: data_block_def log_area_def)
  from tx_update_ok [OF 1(2) _ this, of v] 1 out c obtain s2 k' where
    2: "tx_update (b, v) s1 = Ok s2" "log_ready s2 k'" "home s2 ` {..<k'} = insert b (fst ` set us)"
    "view s2 = (view s1)(b := v)" "disk s2 = disk s1" "diskwrites s2 = diskwrites s1"
    "disksize s2 = disksize s1" "lstart s2 = lstart s1" "lsize s2 = lsize s1"
    "outstanding s2 = outstanding s1" "committing s2 = committing s1" by auto
  have "card (home s2 ` {..<k'}) = k'" using 2(2) by (simp add: log_ready_def card_image)
  then have "k' = card (fst ` set (us @ [u]))" using 2(3) u by simp
  with 1 2 u show ?case by (intro exI [of _ s2] exI [of _ k']) (auto simp: forE_append)
qed

text \<open>The disk after a crash \<open>m\<close> writes into the run from \<open>s\<close> to \<open>s'\<close>.\<close>

definition crash_after :: "nat \<Rightarrow> 'a log_state_scheme \<Rightarrow> 'a log_state_scheme \<Rightarrow> nat \<Rightarrow> mem" where
  "crash_after m s s' = apply_writes (take m (drop (length (diskwrites s)) (diskwrites s'))) (disk s)"

lemma commit_empty: "log_ready s 0 \<Longrightarrow> commit s = Ok s"
  by (simp add: commit_def log_ready_def)

text \<open>The system call as a whole: \<open>begin_op\<close>, the updates, \<open>end_op\<close> with its \<open>commit\<close>.\<close>

lemma log_ready_outs [simp]:
  "log_ready (s\<lparr>outstanding := x\<rparr>) k = log_ready s k" "log_ready (s\<lparr>committing := y\<rparr>) k = log_ready s k"
  by (simp_all add: log_ready_def log_wf_def home_def [abs_def] log_area_def)

lemma view_clean: "log_ready s 0 \<Longrightarrow> view s = disk s"
  using clean_block by (fastforce simp: log_ready_def log_wf_def)

lemma commit_done:
  assumes r: "log_ready s k"
  shows "\<exists>s'. commit s = Ok s' \<and> log_ready s' 0 \<and> outstanding s' = outstanding s \<and>
     same_outside (lstart s) (nat (lsize s)) (disk s') (view s) \<and>
     diskwrites s' = diskwrites s @ (if k = 0 then [] else commit_writes s k)"
proof (cases "k = 0")
  case True
  with r commit_empty [of s] view_clean [of s] show ?thesis by (simp add: same_outside_def)
next
  case False
  have wf: "log_wf s k" using r by (simp add: log_ready_def)
  from commit_ok [OF r] False obtain s' where
    1: "commit s = Ok s'" "wrote (commit_writes s k) (s\<lparr>lh_n := 0\<rparr>) s'" by auto
  note L = wrote_log [OF 1(2)]
  have "home s ` {..<k} \<subseteq> fst ` set (commit_writes s k)"
    unfolding home_part_dom [symmetric] by (rule image_mono) (auto simp: commit_writes_def)
  then have d: "disk s' = apply_writes (commit_writes s k) (disk s)" "dirtyb s' = {}" "lh_n s' = 0"
    using 1(2) L(6) r by (auto simp: wrote_def log_ready_def)
  then have D: "disk s' = apply_writes [(lstart s, put32 0 0 (commit_head s k))] (apply_writes (home_part s k)
        (apply_writes (log_part s k @ [(lstart s, commit_head s k)]) (disk s)))"
    by (simp add: commit_writes_def)
  have "0 < nat (lsize s)" using wf by (simp add: log_wf_def)
  from same_outside_header [OF home_part_outside [OF r] this]
  have so: "same_outside (lstart s) (nat (lsize s)) (disk s') (view s)" unfolding D .
  have "disk s' (lstart s) = put32 0 0 (commit_head s k)" by (simp add: D)
  then have "log_ready s' 0" using wf L d by (simp add: log_ready_def log_wf_def)
  with 1 L so False show ?thesis by (auto simp: wrote_def)
qed

text \<open>C1: a system call is atomic.  \<open>begin_op\<close>, updates of at most \<open>MAXOPBLOCKS\<close> different blocks
  through \<open>log_write\<close>, and \<open>end_op\<close> return without panic; the disk then holds exactly the
  updates; and if the machine crashes after any number \<open>m\<close> of the disk writes of the call and
  boots again, \<open>initlog\<close> returns and leaves every block outside the log as it was before the
  call (up to the header write) or as after it (from then on), with the log empty.\<close>

theorem tx_atomic:
  assumes r: "log_ready s 0" and idle: "outstanding s = 0" "\<not> committing s"
    and sb: "sb_at (disk s) (lstart s) (nat (lsize s))" and dt: "disksize t = disksize s"
    and d: "\<forall>b \<in> fst ` set us. data_block s b \<and> b \<noteq> 1" and one: "1 < disksize s"
    and sz: "int (card (fst ` set us)) \<le> MAXOPBLOCKS" "MAXOPBLOCKS + 1 < lsize s"
  shows "\<exists>s'. tx_run us s = Ok s' \<and> log_ready s' 0 \<and> outstanding s' = 0 \<and> \<not> committing s' \<and>
     same_outside (lstart s) (nat (lsize s)) (disk s') (apply_writes us (disk s)) \<and>
     (\<forall>m. \<exists>r. initlog 1 (reboot (crash_after m s s') t) = Ok r \<and> log_ready r 0 \<and>
        same_outside (lstart s) (nat (lsize s)) (disk r)
          (if m \<le> card (fst ` set us) then disk s else apply_writes us (disk s)))"
proof -
  let ?s1 = "s\<lparr>outstanding := 1\<rparr>" and ?k = "card (fst ` set us)"
  have b: "begin_op s = Ok ?s1" using r idle by (simp add: begin_op_def log_ready_def)
  have "\<forall>b \<in> fst ` set us. data_block ?s1 b" using d by (simp add: data_block_def log_area_def)
  moreover have "card (fst ` set (butlast us)) \<le> ?k"
    by (intro card_mono image_mono) (auto dest: in_set_butlastD)
  ultimately obtain s2 where
    2: "forE tx_update us ?s1 = Ok s2" "log_ready s2 ?k" "home s2 ` {..<?k} = fst ` set us"
    "view s2 = apply_writes us (view s)" "disk s2 = disk s" "diskwrites s2 = diskwrites s"
    "disksize s2 = disksize s" "lstart s2 = lstart s" "lsize s2 = lsize s" "outstanding s2 = 1"
    "committing s2 = committing s" using tx_updates_ok [of ?s1 us] r sz by auto
  let ?s3 = "s2\<lparr>outstanding := 0, committing := True\<rparr>"
  have r3: "log_ready ?s3 ?k" using 2(2) by simp
  from commit_done [OF r3] obtain s4 where
    4: "commit ?s3 = Ok s4" "log_ready s4 0" "outstanding s4 = 0"
    "same_outside (lstart s) (nat (lsize s)) (disk s4) (view s2)"
    "diskwrites s4 = diskwrites s @ (if ?k = 0 then [] else commit_writes ?s3 ?k)"
    using 2 by auto
  let ?s' = "s4\<lparr>committing := False\<rparr>"
  have run: "tx_run us s = Ok ?s'" using b 2 4 idle by (simp add: tx_run_def end_op_def)
  have v: "view s2 = apply_writes us (disk s)" using 2(4) view_clean [OF r] by simp
  have sb3: "sb_ok ?s3 ?k" using sb d 2 one by (auto simp: sb_ok_def home_def [abs_def])
  have "\<exists>r. initlog 1 (reboot (crash_after m s ?s') t) = Ok r \<and> log_ready r 0 \<and>
      same_outside (lstart s) (nat (lsize s)) (disk r) (if m \<le> ?k then disk s else apply_writes us (disk s))"
    for m
  proof -
    have t3: "disksize t = disksize ?s3" using dt 2 by simp
    have "crash_after m s ?s' = crash_image ?s3 ?k (if ?k = 0 then 0 else m)"
      using 4(5) 2(5) by (simp add: crash_after_def crash_image_def)
    moreover have "?k = 0 \<Longrightarrow> us = []" by simp
    ultimately show ?thesis
      using crash_recovery [OF r3 sb3 t3, of "if ?k = 0 then 0 else m"] 2 v by (auto split: if_splits)
  qed
  with run 4 v show ?thesis by (intro exI [of _ ?s']) simp
qed

text \<open>
  A disk of 100 blocks whose superblock places a log of 30 blocks at block 2, as \<^verbatim>\<open>mkfs\<close> does,
  and the machine that has booted on it.
\<close>

definition demo_sb :: mem where
  "demo_sb = put32 16 2 (put32 12 30 (\<lambda>_. 0))"

definition demo_disk :: "nat \<Rightarrow> mem" where
  "demo_disk b = (if b = 1 then demo_sb else (\<lambda>_. 0))"

definition demo_base :: log_state where
  "demo_base = \<lparr>kmem = (\<lambda>_. 0), freelist = 0, use_lock = False, kend = 0, bufs = (\<lambda>_. zero_buf),
     bnext = (\<lambda>_. 0), bprev = (\<lambda>_. 0), disk = demo_disk, disksize = 100, diskwrites = [], curpid = 1,
     lstart = 2, lsize = 30, outstanding = 0, committing = False, ldev = 1, lh_n = 0,
     lh_block = (\<lambda>_. 0)\<rparr>"

definition demo_log :: log_state where
  "demo_log = boot_cache demo_base"

lemmas boot_cache_log [simp] = bframe_log [OF boot_cache_frame]

lemma demo_log_ready: "log_ready demo_log 0" "outstanding demo_log = 0" "\<not> committing demo_log"
  "disk demo_log = demo_disk" "disksize demo_log = 100" "lstart demo_log = 2" "lsize demo_log = 30"
  "sb_at demo_disk 2 30"
proof -
  show "disk demo_log = demo_disk" "disksize demo_log = 100" "lstart demo_log = 2" "lsize demo_log = 30"
    "outstanding demo_log = 0" "\<not> committing demo_log"
    by (simp_all add: demo_log_def demo_base_def)
  show "sb_at demo_disk 2 30"
    by (simp add: sb_at_def demo_disk_def decode_sb_def demo_sb_def get32_put32_other)
  have "head_n (\<lambda>_. 0) = 0" by (simp add: head_n_def get32_def s32_def)
  then show "log_ready demo_log 0"
    unfolding log_ready_def log_wf_def demo_log_def
    by (simp add: boot_cache_ok demo_base_def demo_disk_def)
qed

theorem tx_atomic_witness:
  "\<exists>s'. tx_run [(50, \<lambda>_. 7), (60, \<lambda>_. 8)] demo_log = Ok s' \<and> log_ready s' 0 \<and>
     outstanding s' = 0 \<and> \<not> committing s' \<and>
     same_outside 2 30 (disk s') (apply_writes [(50, \<lambda>_. 7), (60, \<lambda>_. 8)] demo_disk) \<and>
     (\<forall>m. \<exists>r. initlog 1 (reboot (crash_after m demo_log s') demo_log) = Ok r \<and> log_ready r 0 \<and>
        same_outside 2 30 (disk r)
          (if m \<le> 2 then demo_disk else apply_writes [(50, \<lambda>_. 7), (60, \<lambda>_. 8)] demo_disk))"
  using tx_atomic [of demo_log demo_log "[(50, \<lambda>_. 7), (60, \<lambda>_. 8)]"] demo_log_ready
  by (simp add: data_block_def log_area_def numeral_2_eq_2 [symmetric] del: apply_writes_simps
      split del: if_split cong: if_cong)

lemma recover_again:
  fixes m :: nat
  assumes im: "image_ok D st n sz"
  defines "E \<equiv> apply_writes (take m (recover_writes D st)) D"
  shows "image_ok E st n sz" and "apply_writes (recover_writes E st) E = apply_writes (recover_writes D st) D"
proof -
  let ?hw = "map (\<lambda>t. (rec_home D st t, D (st + t + 1))) [0..<rec_count D st]"
  have RW: "recover_writes D st = ?hw @ [(st, put32 0 0 (D st))]" by (simp add: recover_writes_def)
  have "image_ok E st n sz \<and> apply_writes (recover_writes E st) E = apply_writes (recover_writes D st) D"
  proof (cases "m \<le> rec_count D st")
    case True
    then have t: "take m (recover_writes D st) = take m ?hw" by (simp add: RW)
    have "fst ` set (take m ?hw) \<subseteq> fst ` set ?hw" using set_take_subset by (rule image_mono)
    moreover have "fst ` set ?hw = rec_home D st ` {..<rec_count D st}"
      by (simp add: image_image atLeast0LessThan)
    ultimately have td: "fst ` set (take m ?hw) \<subseteq> rec_home D st ` {..<rec_count D st}" by simp
    have same: "E b = D b" if "b \<in> {st..<st + n}" for b
      unfolding E_def t using im td that by (intro apply_writes_other) (auto simp: image_ok_def)
    have st: "E st = D st" using same im by (simp add: image_ok_def)
    then have c: "rec_count E st = rec_count D st" "rec_home E st = rec_home D st"
      by (simp_all add: rec_count_def rec_home_def [abs_def])
    have "E (st + t + 1) = D (st + t + 1)" if "t < rec_count D st" for t
      using same [of "st + t + 1"] that im by (simp add: image_ok_def)
    then have "recover_writes E st = recover_writes D st" by (simp add: recover_writes_def c st)
    moreover have "fst ` set (take m (recover_writes D st)) \<subseteq> fst ` set (recover_writes D st)"
      using set_take_subset by (rule image_mono)
    then have "apply_writes (recover_writes D st) E = apply_writes (recover_writes D st) D"
      unfolding E_def by (rule apply_writes_absorb)
    ultimately show ?thesis using im by (simp add: image_ok_def c)
  next
    case False
    then have E: "E = apply_writes (recover_writes D st) D" by (simp add: RW E_def)
    then have st: "E st = put32 0 0 (D st)" by (simp add: RW)
    then have "recover_writes E st = [(st, put32 0 0 (E st))]" by (intro rec_count_clear) simp
    moreover have "put32 0 0 (E st) = E st" unfolding st by (auto simp: put32_def)
    moreover have "image_ok E st n sz" using im st by (simp add: image_ok_def rec_count_def)
    ultimately show ?thesis using E by simp
  qed
  then show "image_ok E st n sz"
    "apply_writes (recover_writes E st) E = apply_writes (recover_writes D st) D" by simp_all
qed

lemma recover_keeps_sb:
  assumes sb: "sb_at D st n" and n: "0 < n" and h1: "1 \<notin> rec_home D st ` {..<rec_count D st}"
  shows "sb_at (apply_writes (take m (recover_writes D st)) D) st n"
proof -
  have "fst ` set (recover_writes D st) = insert st (rec_home D st ` {..<rec_count D st})"
    by (simp add: recover_writes_def image_Un image_image atLeast0LessThan)
  moreover have "st \<noteq> 1" using sb n by (auto simp: sb_at_def)
  ultimately have "1 \<notin> fst ` set (recover_writes D st)" using h1 by simp
  then have "1 \<notin> fst ` set (take m (recover_writes D st))" by (auto dest: in_set_takeD)
  then show ?thesis using sb by (simp add: sb_at_def apply_writes_other)
qed

text \<open>C2: recovery survives crashes too.  If the machine crashes after any number of the disk
  writes of a recovery and boots again, the second recovery leaves exactly the disk that the
  first one would have left.\<close>

theorem recovery_idempotent:
  assumes sb: "sb_at D st n" and im: "image_ok D st n (disksize s)" and one: "1 < disksize s"
    and h1: "1 \<notin> rec_home D st ` {..<rec_count D st}"
  shows "\<exists>r r'. initlog 1 (reboot D s) = Ok r \<and>
     initlog 1 (reboot (apply_writes (take m (diskwrites r)) D) s) = Ok r' \<and> disk r' = disk r"
proof -
  have "0 < n" using im by (simp add: image_ok_def)
  from initlog_ready [OF recover_keeps_sb [OF sb this h1, of m] recover_again(1) [OF im] one]
  obtain r' where "initlog 1 (reboot (apply_writes (take m (recover_writes D st)) D) s) = Ok r'"
    "disk r' = apply_writes (recover_writes D st) D" using recover_again(2) [OF im, of m] by auto
  with initlog_ready [OF sb im one] show ?thesis by auto
qed

text \<open>A disk on which a crash has left a committed transaction of one block (block 50) in the log.\<close>

definition crashed_disk :: "nat \<Rightarrow> mem" where
  "crashed_disk = demo_disk(2 := put32 4 50 (put32 0 1 (\<lambda>_. 0)), 3 := (\<lambda>_. 9))"

theorem recovery_idempotent_witness:
  "\<exists>r r'. initlog 1 (reboot crashed_disk demo_log) = Ok r \<and>
     initlog 1 (reboot (apply_writes (take 1 (diskwrites r)) crashed_disk) demo_log) = Ok r' \<and>
     disk r' = disk r"
proof -
  have sb: "sb_at crashed_disk 2 30"
    using demo_log_ready(8) by (simp add: sb_at_def crashed_disk_def)
  have c: "rec_count crashed_disk 2 = 1" "rec_home crashed_disk 2 0 = 50"
    by (simp_all add: crashed_disk_def rec_count_def rec_home_def head_n_def head_block_def
        get32_put32_other s32_def of_s32_def)
  have "image_ok crashed_disk 2 30 (disksize demo_log)"
    using c by (simp add: image_ok_def demo_log_ready(5))
  then show ?thesis
    using recovery_idempotent [OF sb, of demo_log 1] c by (simp add: demo_log_ready(5) lessThan_Suc)
qed

text \<open>
  The first \<open>n\<close> calls of \<open>begin_op\<close> on an idle log: admitted as long as \<open>n * MAXOPBLOCKS\<close> fits in
  \<open>LOGSIZE\<close>.
\<close>

fun begin_n :: "nat \<Rightarrow> 'a log_state_scheme \<Rightarrow> 'a log_state_scheme outcome" where
  "begin_n 0 s = Ok s"
| "begin_n (Suc n) s = bindE (begin_op s) (begin_n n)"

text \<open>C3: the admission test of \<open>begin_op\<close> is one block too generous for a log of \<open>LOGSIZE\<close>
  blocks, the size \<^verbatim>\<open>mkfs.c\<close> lays out.  Three calls are admitted, which may write ten blocks each;
  the first 29 different blocks are logged, and \<open>log_write\<close> of the thirtieth panics.\<close>

theorem admission_gap:
  assumes r: "log_ready s 0" "lsize s = LOGSIZE" "outstanding s = 0" "\<not> committing s"
    and us: "distinct (map fst us)" "length us = 29" "\<forall>b \<in> fst ` set us. data_block s b"
    and b: "data_block s b" "b \<notin> fst ` set us"
  shows "\<exists>s3 s29. begin_n 3 s = Ok s3 \<and> forE tx_update us s3 = Ok s29 \<and> lh_n s29 = 29 \<and>
     tx_update (b, v) s29 = Panic ''too big a transaction''"
proof -
  let ?s3 = "s\<lparr>outstanding := 3\<rparr>"
  have b3: "begin_n 3 s = Ok ?s3"
    using r by (simp add: numeral_3_eq_3 begin_op_def log_ready_def)
  have "card (fst ` set (butlast us)) \<le> length (butlast us)"
    by (rule order.trans [OF card_image_le card_length]) simp
  moreover have card: "card (fst ` set us) = 29" using us(1,2) distinct_card [of "map fst us"] by simp
  moreover have "\<forall>b \<in> fst ` set us. data_block ?s3 b" using us(3) by (simp add: data_block_def log_area_def)
  ultimately obtain s29 where
    2: "forE tx_update us ?s3 = Ok s29" "log_ready s29 29" "home s29 ` {..<29} = fst ` set us"
    "disksize s29 = disksize s" "lsize s29 = LOGSIZE"
    using tx_updates_ok [of ?s3 us] r us(2) by auto
  have inv: "bcache_inv s29" "heldb s29 = {}" and n: "lh_n s29 = 29"
    using 2(2) by (simp_all add: log_ready_def log_wf_def)
  have "b < disksize s29" using b(1) 2(4) by (simp add: data_block_def)
  with bc.rd_law [OF inv(1), of b] log_ready_card [OF 2(2)] inv(2) obtain i s' where
    3: "bread 1 b s29 = Ok (i, s')" "bframe s29 s'" by auto
  have "log_write i (set_data i v s') = Panic ''too big a transaction''"
    using bframe_log [OF bframe_trans [OF 3(2) set_data_frame]] n 2(5) by (simp add: log_write_def)
  with b3 2 3 n show ?thesis by (simp add: tx_update_def)
qed

theorem admission_gap_witness:
  "\<exists>s3 s29. begin_n 3 demo_log = Ok s3 \<and>
     forE tx_update (map (\<lambda>b. (b, \<lambda>_. 1)) [40..<69]) s3 = Ok s29 \<and> lh_n s29 = 29 \<and>
     tx_update (70, \<lambda>_. 1) s29 = Panic ''too big a transaction''"
  using admission_gap [of demo_log "map (\<lambda>b. (b, \<lambda>_. 1)) [40..<69]" 70 "\<lambda>_. 1"] demo_log_ready
  by (simp add: data_block_def log_area_def o_def image_image del: upt_rec_numeral)

section \<open>The log as a transactional block store\<close>

text \<open>
  \<open>tx_ok s k H\<close>: \<open>k\<close> blocks are logged and not yet committed, the blocks \<open>H\<close> are held and
  every change made so far is pinned.  Logging a data block takes an operation in progress.  \<open>tx_frame\<close>: only the cache and the in-memory log header
  may differ; nothing reaches the disk before the commit.
\<close>

definition tx_ok :: "'a log_state_scheme \<Rightarrow> nat \<Rightarrow> nat set \<Rightarrow> bool" where
  "tx_ok s k H \<longleftrightarrow> log_open s k \<and> heldb s = H \<and> LOGSIZE \<le> lsize s \<and>
     (\<forall>b. b \<in> dirtyb s \<or> view s b = disk s b)"

definition loggable :: "'a log_state_scheme \<Rightarrow> nat \<Rightarrow> bool" where
  "loggable s b \<longleftrightarrow> data_block s b \<and> 1 \<le> outstanding s"

definition tx_frame :: "'a log_state_scheme \<Rightarrow> 'a log_state_scheme \<Rightarrow> bool" where
  "tx_frame s s' \<longleftrightarrow> (\<exists>bs nx pv n f. s' = s\<lparr>bufs := bs, bnext := nx, bprev := pv, lh_n := n, lh_block := f\<rparr>)"

abbreviation on_disk :: "'a log_state_scheme \<Rightarrow> nat \<Rightarrow> bool" where
  "on_disk s b \<equiv> b < disksize s"

definition log_modify :: "nat \<Rightarrow> mem \<Rightarrow> 'a log_state_scheme \<Rightarrow> 'a log_state_scheme outcome" where
  "log_modify i d s = log_write i (set_data i d s)"

lemma tx_frameI: "s' = s\<lparr>bufs := bs, bnext := nx, bprev := pv, lh_n := n, lh_block := f\<rparr> \<Longrightarrow> tx_frame s s'"
  unfolding tx_frame_def by blast

lemma tx_frame_refl [simp]: "tx_frame s s"
  by (rule tx_frameI [where bs = "bufs s" and nx = "bnext s" and pv = "bprev s" and n = "lh_n s"
        and f = "lh_block s"]) simp

lemma tx_frame_trans [trans]: "tx_frame s s' \<Longrightarrow> tx_frame s' s'' \<Longrightarrow> tx_frame s s''"
  unfolding tx_frame_def by (elim exE) (rule exI, rule exI, rule exI, rule exI, rule exI, simp)

lemma bframe_tx_frame:
  assumes "bframe s s'" "disk s' = disk s" "diskwrites s' = diskwrites s"
  shows "tx_frame s s'"
proof -
  obtain bs nx pv d w where s': "s' = s\<lparr>bufs := bs, bnext := nx, bprev := pv, disk := d, diskwrites := w\<rparr>"
    using assms(1) by (auto simp: bframe_def)
  with assms(2,3) have "d = disk s" "w = diskwrites s" by simp_all
  with s' show ?thesis
    by (intro tx_frameI [where bs = bs and nx = nx and pv = pv and n = "lh_n s" and f = "lh_block s"]) simp
qed

lemma tx_frame_sel:
  assumes "tx_frame s s'"
  shows "disk s' = disk s" "diskwrites s' = diskwrites s" "disksize s' = disksize s" "lstart s' = lstart s"
    "lsize s' = lsize s" "outstanding s' = outstanding s" "committing s' = committing s" "ldev s' = ldev s"
    "kmem s' = kmem s" "freelist s' = freelist s" "curpid s' = curpid s"
  using assms by (auto simp: tx_frame_def)

lemma lh_insert_frame: "tx_frame s (lh_insert b s)"
  by (rule tx_frameI [where bs = "bufs s" and nx = "bnext s" and pv = "bprev s" and n = "lh_n (lh_insert b s)"
        and f = "lh_block (lh_insert b s)"]) (simp add: lh_insert_def Let_def)

lemma log_write_frame:
  assumes "log_write i s = Ok s'"
  shows "tx_frame s s'"
proof -
  let ?l = "lh_insert (blockno (bufs s i)) s"
  have s': "s' = upd_buf i (\<lambda>x. x\<lparr>bflags := bflags x OR B_DIRTY\<rparr>) ?l"
    using assms by (simp add: log_write_eq split: if_splits)
  have "tx_frame ?l s'"
    unfolding s' by (rule bframe_tx_frame [OF upd_buf_frame]) (simp_all add: upd_buf_def)
  then show ?thesis by (rule tx_frame_trans [OF lh_insert_frame])
qed

lemma log_modify_frame: "log_modify i d s = Ok s' \<Longrightarrow> tx_frame s s'"
  unfolding log_modify_def
  by (rule tx_frame_trans [OF bframe_tx_frame [OF set_data_frame] log_write_frame])
    (simp_all add: set_data_def upd_buf_def)

lemma log_open_card: "log_open s k \<Longrightarrow> card (dirtyb s) = k"
  by (simp add: log_open_def card_image)

lemma tx_ok_read:
  assumes ok: "tx_ok s k H" and b: "b < disksize s" "b \<notin> H" "k + card H < NBUF"
  shows "\<exists>i s'. bread 1 b s = Ok (i, s') \<and> tx_ok s' k (insert b H) \<and> holds s' b i \<and> view s' = view s \<and>
     tx_frame s s' \<and> (\<forall>m j. holds s m j \<longrightarrow> holds s' m j)"
proof -
  have o: "log_open s k" and inv: "bcache_inv s" and H: "heldb s = H"
    using ok by (simp_all add: tx_ok_def log_open_def)
  have "card (dirtyb s \<union> heldb s) \<le> k + card H"
    using card_Un_le [of "dirtyb s" H] log_open_card [OF o] H by simp
  with b bc.rd_law [OF inv, of b] H obtain i s' where
    1: "bread 1 b s = Ok (i, s')" "bcache_inv s'" "holds s' b i" "view s' = view s" "disk s' = disk s"
    "diskwrites s' = diskwrites s" "dirtyb s' = dirtyb s" "heldb s' = insert b H" "bframe s s'"
    "\<forall>m j. holds s m j \<longrightarrow> holds s' m j" by auto
  have "tx_ok s' k (insert b H)"
    using ok log_open_frame [OF o 1(9,2,7,5)] bframe_log [OF 1(9)] 1 by (simp add: tx_ok_def)
  with 1 bframe_tx_frame [OF 1(9,5,6)] show ?thesis by blast
qed

lemma tx_ok_modify:
  assumes ok: "tx_ok s k H" and h: "holds s b i" and b: "loggable s b" and k: "k < 29"
  shows "\<exists>s' k'. log_modify i d s = Ok s' \<and> k \<le> k' \<and> k' \<le> Suc k \<and> tx_ok s' k' H \<and>
     view s' = (view s)(b := d) \<and> tx_frame s s' \<and> (\<forall>m j. holds s m j \<longrightarrow> holds s' m j)"
proof -
  have o: "log_open s k" and inv: "bcache_inv s" using ok by (simp_all add: tx_ok_def log_open_def)
  let ?p = "set_data i d s"
  note P = bc.put_law [OF inv h, of d]
  have fr: "bframe s ?p" using P by simp
  note F = bframe_log [OF fr]
  have op: "log_open ?p k" by (rule log_open_frame [OF o fr]) (use P in simp_all)
  have hp: "holds ?p b i" using P h by simp
  have dp: "data_block ?p b" using b by (simp add: loggable_def data_block_def log_area_def F)
  have "int k < lsize ?p - 1" using ok k F by (simp add: tx_ok_def)
  with log_write_ok [OF op _ hp dp] ok k b F P obtain s' k' where
    1: "log_write i ?p = Ok s'" "log_open s' k'" "k' = (if b \<in> home ?p ` {..<k} then k else Suc k)"
    "home s' ` {..<k'} = insert b (home ?p ` {..<k})" "view s' = view ?p" "heldb s' = H"
    "\<forall>m j. holds s' m j = holds ?p m j" "disk s' = disk s" "lsize s' = lsize s"
    "outstanding s' = outstanding s"
    by (auto simp: tx_ok_def loggable_def)
  have m: "log_modify i d s = Ok s'" using 1(1) by (simp add: log_modify_def)
  have "dirtyb s' = insert b (dirtyb s)"
    using 1(2,4) op P by (simp add: log_open_def)
  then have "tx_ok s' k' H" using ok 1 P by (auto simp: tx_ok_def)
  moreover have "k \<le> k'" "k' \<le> Suc k" using 1(3) by simp_all
  ultimately show ?thesis using m 1 P log_modify_frame [OF m] by auto
qed

lemma tx_ok_release:
  assumes ok: "tx_ok s k H" and h: "holds s b i"
  shows "\<exists>s'. brelse i s = Ok s' \<and> tx_ok s' k (H - {b}) \<and> view s' = view s \<and> tx_frame s s' \<and>
     (\<forall>m j. m \<noteq> b \<longrightarrow> holds s m j \<longrightarrow> holds s' m j)"
proof -
  have o: "log_open s k" and inv: "bcache_inv s" using ok by (simp_all add: tx_ok_def log_open_def)
  have "b \<in> dirtyb s \<or> view s b = disk s b" using ok by (simp add: tx_ok_def)
  from bc.rl_law [OF inv h this] obtain s' where
    1: "brelse i s = Ok s'" "bcache_inv s'" "view s' = view s" "disk s' = disk s"
    "diskwrites s' = diskwrites s" "dirtyb s' = dirtyb s" "heldb s' = heldb s - {b}" "bframe s s'"
    "\<forall>m j. m \<noteq> b \<longrightarrow> holds s m j \<longrightarrow> holds s' m j" by blast
  have "tx_ok s' k (H - {b})"
    using ok log_open_frame [OF o 1(8,2,6,4)] bframe_log [OF 1(8)] 1 by (simp add: tx_ok_def)
  with 1 bframe_tx_frame [OF 1(8,4,5)] show ?thesis by blast
qed

interpretation tx: logged_store "bread 1" log_modify brelse "\<lambda>i s. bdata (bufs s i)" view tx_ok holds
  on_disk loggable tx_frame NBUF 29
proof unfold_locales
  fix s s' s'' :: "'a log_state_scheme" and k b i :: nat and H d
  show "tx_ok s k H \<Longrightarrow> on_disk s b \<Longrightarrow> b \<notin> H \<Longrightarrow> k + card H < NBUF \<Longrightarrow>
      \<exists>i s'. bread 1 b s = Ok (i, s') \<and> tx_ok s' k (insert b H) \<and> holds s' b i \<and> view s' = view s \<and>
        tx_frame s s' \<and> (\<forall>m j. holds s m j \<longrightarrow> holds s' m j)" by (rule tx_ok_read)
  show "tx_ok s k H \<Longrightarrow> holds s b i \<Longrightarrow> bdata (bufs s i) = view s b"
    using holdsD(8) by (metis tx_ok_def log_open_def)
  show "tx_ok s k H \<Longrightarrow> holds s b i \<Longrightarrow> loggable s b \<Longrightarrow> k < 29 \<Longrightarrow>
      \<exists>s' k'. log_modify i d s = Ok s' \<and> k \<le> k' \<and> k' \<le> Suc k \<and> tx_ok s' k' H \<and>
        view s' = (view s)(b := d) \<and> tx_frame s s' \<and> (\<forall>m j. holds s m j \<longrightarrow> holds s' m j)"
    by (rule tx_ok_modify)
  show "tx_ok s k H \<Longrightarrow> holds s b i \<Longrightarrow>
      \<exists>s'. brelse i s = Ok s' \<and> tx_ok s' k (H - {b}) \<and> view s' = view s \<and> tx_frame s s' \<and>
        (\<forall>m j. m \<noteq> b \<longrightarrow> holds s m j \<longrightarrow> holds s' m j)" by (rule tx_ok_release)
  show "tx_frame s s' \<Longrightarrow> on_disk s' b = on_disk s b" by (simp add: tx_frame_sel)
  show "tx_frame s s' \<Longrightarrow> loggable s' b = loggable s b"
    by (simp add: loggable_def data_block_def log_area_def tx_frame_sel)
  show "tx_frame s s' \<Longrightarrow> tx_frame s' s'' \<Longrightarrow> tx_frame s s''" by (rule tx_frame_trans)
  show "loggable s b \<Longrightarrow> on_disk s b" by (simp add: loggable_def data_block_def)
qed

end
