(* ===== verification/Inode.thy ===== *)
theory Inode
  imports Log
begin

text \<open>
  The first half of \<^verbatim>\<open>src/alarm/fs.c\<close>: the block bitmap, on-disk inodes and the inode cache,
  and the block map of a file.  An inode pointer is an index into \<open>icache.inode\<close>, \<open>None\<close> is the
  null pointer where the source tests for it.  \<open>log_modify\<close> is a change of a held buffer
  followed by \<open>log_write\<close>, as the source always writes it.  \<open>icache.lock\<close> makes the updates of
  the reference counts atomic.
\<close>

abbreviation NDIRECT :: nat where "NDIRECT \<equiv> 12"
abbreviation NINDIRECT :: nat where "NINDIRECT \<equiv> 128"
abbreviation MAXFILE :: nat where "MAXFILE \<equiv> NDIRECT + NINDIRECT"
abbreviation NINODE :: nat where "NINODE \<equiv> 50"
abbreviation IPB :: nat where "IPB \<equiv> 8"
abbreviation BPB :: nat where "BPB \<equiv> 4096"
abbreviation T_DIR :: word16 where "T_DIR \<equiv> 1"
abbreviation T_FILE :: word16 where "T_FILE \<equiv> 2"
abbreviation T_DEV :: word16 where "T_DEV \<equiv> 3"

record inode =
  idev :: nat
  inum :: nat
  iref :: int
  ilk :: sleeplock
  ivalid :: bool
  itype :: word16
  imajor :: word16
  iminor :: word16
  inlink :: word16
  isize :: nat
  iaddrs :: "nat \<Rightarrow> nat"

record fs_state = log_state +
  sb :: superblock
  inodes :: "nat \<Rightarrow> inode"

definition upd_inode :: "nat \<Rightarrow> (inode \<Rightarrow> inode) \<Rightarrow> 'a fs_state_scheme \<Rightarrow> 'a fs_state_scheme" where
  "upd_inode ip f s = s\<lparr>inodes := (inodes s)(ip := f (inodes s ip))\<rparr>"

definition IBLOCK :: "nat \<Rightarrow> superblock \<Rightarrow> nat" where
  "IBLOCK i sbk = i div IPB + sb_inodestart sbk"

definition BBLOCK :: "nat \<Rightarrow> superblock \<Rightarrow> nat" where
  "BBLOCK b sbk = b div BPB + sb_bmapstart sbk"

section \<open>Blocks\<close>

definition bzero :: "nat \<Rightarrow> nat \<Rightarrow> 'a log_state_scheme \<Rightarrow> 'a log_state_scheme outcome" where
  "bzero dv bno s =
     bindE (bread dv bno s) (\<lambda>(bp, s).
     bindE (log_modify bp (fill (bdata (bufs s bp)) 0 0 BSIZE) s) (brelse bp))"

definition bit_mask :: "nat \<Rightarrow> byte" where
  "bit_mask bi = push_bit (bi mod 8) 1"

definition balloc_step :: "nat \<Rightarrow> nat \<Rightarrow> 'a fs_state_scheme \<Rightarrow> (nat option \<times> 'a fs_state_scheme) outcome" where
  "balloc_step dv b s =
     bindE (bread dv (BBLOCK b (sb s)) s) (\<lambda>(bp, s).
     let d = bdata (bufs s bp) in
     case find (\<lambda>bi. d (bi div 8) AND bit_mask bi = 0) [0..<min BPB (sb_size (sb s) - b)] of
       Some bi \<Rightarrow>
         bindE (log_modify bp (d(bi div 8 := d (bi div 8) OR bit_mask bi)) s) (\<lambda>s.
         bindE (brelse bp s) (\<lambda>s.
         bindE (bzero dv (b + bi) s) (\<lambda>s. Ok (Some (b + bi), s))))
     | None \<Rightarrow> bindE (brelse bp s) (\<lambda>s. Ok (None, s)))"

definition balloc :: "nat \<Rightarrow> 'a fs_state_scheme \<Rightarrow> (nat \<times> 'a fs_state_scheme) outcome" where
  "balloc dv s =
     bindE (loopE (balloc_step dv) (map (\<lambda>c. c * BPB) [0..<(sb_size (sb s) + BPB - 1) div BPB]) s)
       (\<lambda>(r, s). case r of Some b \<Rightarrow> Ok (b, s) | None \<Rightarrow> Panic ''balloc: out of blocks'')"

definition bfree :: "nat \<Rightarrow> nat \<Rightarrow> 'a fs_state_scheme \<Rightarrow> 'a fs_state_scheme outcome" where
  "bfree dv b s =
     bindE (readsb dv s) (\<lambda>(sb', s).
     let s = s\<lparr>sb := sb'\<rparr> in
     bindE (bread dv (BBLOCK b (sb s)) s) (\<lambda>(bp, s).
     let d = bdata (bufs s bp); bi = b mod BPB in
     if d (bi div 8) AND bit_mask bi = 0 then Panic ''freeing free block''
     else bindE (log_modify bp (d(bi div 8 := d (bi div 8) AND NOT (bit_mask bi))) s) (brelse bp)))"

section \<open>Inodes\<close>

text \<open>\<open>struct dinode\<close>: 64 bytes, \<open>type major minor nlink\<close> (shorts), \<open>size\<close>, \<open>addrs[NDIRECT+1]\<close>.\<close>

definition dinode_off :: "nat \<Rightarrow> nat" where
  "dinode_off ino = ino mod IPB * 64"

definition put_dinode :: "nat \<Rightarrow> inode \<Rightarrow> mem \<Rightarrow> mem" where
  "put_dinode off i d =
     fold (\<lambda>j. put32 (off + 12 + 4 * j) (of_nat (iaddrs i j))) [0..<NDIRECT + 1]
       (put32 (off + 8) (of_nat (isize i)) (put16 (off + 6) (inlink i) (put16 (off + 4) (iminor i)
         (put16 (off + 2) (imajor i) (put16 off (itype i) d)))))"

definition get_dinode :: "nat \<Rightarrow> mem \<Rightarrow> inode \<Rightarrow> inode" where
  "get_dinode off d i = i\<lparr>itype := get16 d off, imajor := get16 d (off + 2), iminor := get16 d (off + 4),
     inlink := get16 d (off + 6), isize := unat (get32 d (off + 8)),
     iaddrs := (\<lambda>j. if j < NDIRECT + 1 then unat (get32 d (off + 12 + 4 * j)) else iaddrs i j)\<rparr>"

definition iinit :: "nat \<Rightarrow> 'a fs_state_scheme \<Rightarrow> 'a fs_state_scheme outcome" where
  "iinit dv s =
     (let s = fold (\<lambda>i. upd_inode i (\<lambda>x. x\<lparr>ilk := initsleeplock\<rparr>)) [0..<NINODE] s
      in bindE (readsb dv s) (\<lambda>(sb', s). Ok (s\<lparr>sb := sb'\<rparr>)))"

text \<open>The loop of \<open>iget\<close>: the entry of the inode, and the first free entry seen before it.\<close>

fun iget_scan :: "(nat \<Rightarrow> inode) \<Rightarrow> nat \<Rightarrow> nat \<Rightarrow> nat list \<Rightarrow> nat option \<Rightarrow> nat option \<times> nat option" where
  "iget_scan t dv ino [] emp = (None, emp)"
| "iget_scan t dv ino (i # is) emp =
     (if 0 < iref (t i) \<and> idev (t i) = dv \<and> inum (t i) = ino then (Some i, emp)
      else iget_scan t dv ino is (if emp = None \<and> iref (t i) = 0 then Some i else emp))"

definition iget :: "nat \<Rightarrow> nat \<Rightarrow> 'a fs_state_scheme \<Rightarrow> (nat \<times> 'a fs_state_scheme) outcome" where
  "iget dv ino s =
     (case iget_scan (inodes s) dv ino [0..<NINODE] None of
        (Some ip, _) \<Rightarrow> Ok (ip, upd_inode ip (\<lambda>x. x\<lparr>iref := iref x + 1\<rparr>) s)
      | (None, None) \<Rightarrow> Panic ''iget: no inodes''
      | (None, Some ip) \<Rightarrow>
          Ok (ip, upd_inode ip (\<lambda>x. x\<lparr>idev := dv, inum := ino, iref := 1, ivalid := False\<rparr>) s))"

definition ialloc_step :: "nat \<Rightarrow> word16 \<Rightarrow> nat \<Rightarrow> 'a fs_state_scheme \<Rightarrow> (nat option \<times> 'a fs_state_scheme) outcome" where
  "ialloc_step dv ty ino s =
     bindE (bread dv (IBLOCK ino (sb s)) s) (\<lambda>(bp, s).
     let d = bdata (bufs s bp); off = dinode_off ino in
     if get16 d off = 0 then
       bindE (log_modify bp (put16 off ty (fill d off 0 64)) s) (\<lambda>s.
       bindE (brelse bp s) (\<lambda>s.
       bindE (iget dv ino s) (\<lambda>(ip, s). Ok (Some ip, s))))
     else bindE (brelse bp s) (\<lambda>s. Ok (None, s)))"

definition ialloc :: "nat \<Rightarrow> word16 \<Rightarrow> 'a fs_state_scheme \<Rightarrow> (nat \<times> 'a fs_state_scheme) outcome" where
  "ialloc dv ty s =
     bindE (loopE (ialloc_step dv ty) [1..<sb_ninodes (sb s)] s)
       (\<lambda>(r, s). case r of Some ip \<Rightarrow> Ok (ip, s) | None \<Rightarrow> Panic ''ialloc: no inodes'')"

definition iupdate :: "nat \<Rightarrow> 'a fs_state_scheme \<Rightarrow> 'a fs_state_scheme outcome" where
  "iupdate ip s =
     (let i = inodes s ip in
      bindE (bread (idev i) (IBLOCK (inum i) (sb s)) s) (\<lambda>(bp, s).
      bindE (log_modify bp (put_dinode (dinode_off (inum i)) i (bdata (bufs s bp))) s) (brelse bp)))"

definition idup :: "nat \<Rightarrow> 'a fs_state_scheme \<Rightarrow> 'a fs_state_scheme" where
  "idup ip s = upd_inode ip (\<lambda>x. x\<lparr>iref := iref x + 1\<rparr>) s"

definition ilock :: "nat option \<Rightarrow> 'a fs_state_scheme \<Rightarrow> 'a fs_state_scheme outcome" where
  "ilock p s =
     (case p of None \<Rightarrow> Panic ''ilock''
      | Some ip \<Rightarrow>
          if iref (inodes s ip) < 1 then Panic ''ilock''
          else bindE (acquiresleep (curpid s) (ilk (inodes s ip))) (\<lambda>lk.
            let s = upd_inode ip (\<lambda>x. x\<lparr>ilk := lk\<rparr>) s in
            if ivalid (inodes s ip) then Ok s
            else
              let i = inodes s ip in
              bindE (bread (idev i) (IBLOCK (inum i) (sb s)) s) (\<lambda>(bp, s).
              let s = upd_inode ip (get_dinode (dinode_off (inum i)) (bdata (bufs s bp))) s in
              bindE (brelse bp s) (\<lambda>s.
              let s = upd_inode ip (\<lambda>x. x\<lparr>ivalid := True\<rparr>) s in
              if itype (inodes s ip) = 0 then Panic ''ilock: no type'' else Ok s))))"

definition iunlock :: "nat option \<Rightarrow> 'a fs_state_scheme \<Rightarrow> 'a fs_state_scheme outcome" where
  "iunlock p s =
     (case p of None \<Rightarrow> Panic ''iunlock''
      | Some ip \<Rightarrow>
          if \<not> holdingsleep (ilk (inodes s ip)) \<or> iref (inodes s ip) < 1 then Panic ''iunlock''
          else Ok (upd_inode ip (\<lambda>x. x\<lparr>ilk := releasesleep (ilk x)\<rparr>) s))"

section \<open>Inode content\<close>

definition bmap :: "nat \<Rightarrow> nat \<Rightarrow> 'a fs_state_scheme \<Rightarrow> (nat \<times> 'a fs_state_scheme) outcome" where
  "bmap ip bn s =
     (let dv = idev (inodes s ip) in
      if bn < NDIRECT then
        (if iaddrs (inodes s ip) bn = 0 then
           bindE (balloc dv s) (\<lambda>(addr, s).
           Ok (addr, upd_inode ip (\<lambda>x. x\<lparr>iaddrs := (iaddrs x)(bn := addr)\<rparr>) s))
         else Ok (iaddrs (inodes s ip) bn, s))
      else let bn = bn - NDIRECT in
      if bn < NINDIRECT then
        bindE (if iaddrs (inodes s ip) NDIRECT = 0 then
                 bindE (balloc dv s) (\<lambda>(addr, s).
                 Ok (addr, upd_inode ip (\<lambda>x. x\<lparr>iaddrs := (iaddrs x)(NDIRECT := addr)\<rparr>) s))
               else Ok (iaddrs (inodes s ip) NDIRECT, s)) (\<lambda>(addr, s).
        bindE (bread dv addr s) (\<lambda>(bp, s).
        bindE (if get32 (bdata (bufs s bp)) (4 * bn) = 0 then
                 bindE (balloc dv s) (\<lambda>(addr, s).
                 bindE (log_modify bp (put32 (4 * bn) (of_nat addr) (bdata (bufs s bp))) s) (\<lambda>s. Ok (addr, s)))
               else Ok (unat (get32 (bdata (bufs s bp)) (4 * bn)), s)) (\<lambda>(addr, s).
        bindE (brelse bp s) (\<lambda>s. Ok (addr, s)))))
      else Panic ''bmap: out of range'')"

definition itrunc_direct :: "nat \<Rightarrow> nat \<Rightarrow> 'a fs_state_scheme \<Rightarrow> 'a fs_state_scheme outcome" where
  "itrunc_direct ip i s =
     (if iaddrs (inodes s ip) i \<noteq> 0 then
        bindE (bfree (idev (inodes s ip)) (iaddrs (inodes s ip) i) s) (\<lambda>s.
        Ok (upd_inode ip (\<lambda>x. x\<lparr>iaddrs := (iaddrs x)(i := 0)\<rparr>) s))
      else Ok s)"

definition itrunc_indirect :: "nat \<Rightarrow> nat \<Rightarrow> nat \<Rightarrow> 'a fs_state_scheme \<Rightarrow> 'a fs_state_scheme outcome" where
  "itrunc_indirect ip bp j s =
     (let a = get32 (bdata (bufs s bp)) (4 * j) in
      if a \<noteq> 0 then bfree (idev (inodes s ip)) (unat a) s else Ok s)"

definition itrunc :: "nat \<Rightarrow> 'a fs_state_scheme \<Rightarrow> 'a fs_state_scheme outcome" where
  "itrunc ip s =
     bindE (forE (itrunc_direct ip) [0..<NDIRECT] s) (\<lambda>s.
     bindE (if iaddrs (inodes s ip) NDIRECT \<noteq> 0 then
              bindE (bread (idev (inodes s ip)) (iaddrs (inodes s ip) NDIRECT) s) (\<lambda>(bp, s).
              bindE (forE (itrunc_indirect ip bp) [0..<NINDIRECT] s) (\<lambda>s.
              bindE (brelse bp s) (\<lambda>s.
              bindE (bfree (idev (inodes s ip)) (iaddrs (inodes s ip) NDIRECT) s) (\<lambda>s.
              Ok (upd_inode ip (\<lambda>x. x\<lparr>iaddrs := (iaddrs x)(NDIRECT := 0)\<rparr>) s)))))
            else Ok s) (\<lambda>s.
     iupdate ip (upd_inode ip (\<lambda>x. x\<lparr>isize := 0\<rparr>) s)))"

definition iput :: "nat \<Rightarrow> 'a fs_state_scheme \<Rightarrow> 'a fs_state_scheme outcome" where
  "iput ip s =
     bindE (acquiresleep (curpid s) (ilk (inodes s ip))) (\<lambda>lk.
     let s = upd_inode ip (\<lambda>x. x\<lparr>ilk := lk\<rparr>) s in
     bindE (if ivalid (inodes s ip) \<and> inlink (inodes s ip) = 0 \<and> iref (inodes s ip) = 1 then
              bindE (itrunc ip s) (\<lambda>s.
              bindE (iupdate ip (upd_inode ip (\<lambda>x. x\<lparr>itype := 0\<rparr>) s)) (\<lambda>s.
              Ok (upd_inode ip (\<lambda>x. x\<lparr>ivalid := False\<rparr>) s)))
            else Ok s) (\<lambda>s.
     let s = upd_inode ip (\<lambda>x. x\<lparr>ilk := releasesleep (ilk x)\<rparr>) s in
     Ok (upd_inode ip (\<lambda>x. x\<lparr>iref := iref x - 1\<rparr>) s)))"

definition iunlockput :: "nat \<Rightarrow> 'a fs_state_scheme \<Rightarrow> 'a fs_state_scheme outcome" where
  "iunlockput ip s = bindE (iunlock (Some ip) s) (iput ip)"

record stat =
  st_type :: word16
  st_dev :: nat
  st_ino :: nat
  st_nlink :: word16
  st_size :: nat

definition stati :: "nat \<Rightarrow> 'a fs_state_scheme \<Rightarrow> stat" where
  "stati ip s = (let i = inodes s ip in
     \<lparr>st_type = itype i, st_dev = idev i, st_ino = inum i, st_nlink = inlink i, st_size = isize i\<rparr>)"

section \<open>The bitmap\<close>

text \<open>\<open>used V sbk b\<close>: in the block contents \<open>V\<close>, block \<open>b\<close> is marked in use.\<close>

definition used :: "(nat \<Rightarrow> mem) \<Rightarrow> superblock \<Rightarrow> nat \<Rightarrow> bool" where
  "used V sbk b = bit (V (BBLOCK b sbk) (b mod BPB div 8)) (b mod 8)"

definition mark :: "bool \<Rightarrow> superblock \<Rightarrow> nat \<Rightarrow> (nat \<Rightarrow> mem) \<Rightarrow> nat \<Rightarrow> mem" where
  "mark v sbk b V = (let bb = BBLOCK b sbk; i = b mod BPB div 8 in
     V(bb := (V bb)(i := if v then V bb i OR bit_mask b else V bb i AND NOT (bit_mask b))))"

text \<open>The bitmap's blocks lie on the disk outside the log, and a block marked free is a data block.\<close>

definition bitmap_ok :: "'a fs_state_scheme \<Rightarrow> bool" where
  "bitmap_ok s \<longleftrightarrow> (\<forall>b < sb_size (sb s). loggable s (BBLOCK b (sb s)) \<and>
     (\<not> used (view s) (sb s) b \<longrightarrow> loggable s b \<and> (\<forall>c < sb_size (sb s). b \<noteq> BBLOCK c (sb s))))"

lemma bit_mask_zero [simp]: "(x AND bit_mask bi = 0) \<longleftrightarrow> \<not> bit x (bi mod 8)"
  by (simp add: bit_mask_def bit_iff_and_push_bit_not_eq_0)

lemma bit_mask_set [simp]:
  "j < 8 \<Longrightarrow> bit (x OR bit_mask b) j \<longleftrightarrow> bit x j \<or> j = b mod 8"
  "j < 8 \<Longrightarrow> bit (x AND NOT (bit_mask b)) j \<longleftrightarrow> bit x j \<and> j \<noteq> b mod 8"
  by (auto simp: bit_mask_def bit_simps)

lemma bit_mask_mod [simp]: "bit_mask (b mod BPB) = bit_mask b"
  by (simp add: bit_mask_def mod_mod_cancel)

lemma used_mark: "used (mark v sbk b V) sbk c = (if c = b then v else used V sbk c)"
proof -
  have m: "c mod 8 = c mod BPB mod 8" "b mod 8 = b mod BPB mod 8" by (simp_all add: mod_mod_cancel)
  have "c = b \<longleftrightarrow> BBLOCK c sbk = BBLOCK b sbk \<and> c mod BPB div 8 = b mod BPB div 8 \<and> c mod 8 = b mod 8"
  proof
    assume r: "BBLOCK c sbk = BBLOCK b sbk \<and> c mod BPB div 8 = b mod BPB div 8 \<and> c mod 8 = b mod 8"
    then have "c mod BPB = b mod BPB" using m by (metis div_mult_mod_eq)
    moreover have "c div BPB = b div BPB" using r by (simp add: BBLOCK_def)
    ultimately show "c = b" by (metis div_mult_mod_eq)
  qed simp
  then show ?thesis by (auto simp: used_def mark_def Let_def)
qed

lemma mark_other: "n \<noteq> BBLOCK b sbk \<Longrightarrow> mark v sbk b V n = V n"
  by (simp add: mark_def Let_def)

lemma tx_frame_fs: "tx_frame s s' \<Longrightarrow> sb s' = sb s \<and> inodes s' = inodes s"
  by (auto simp: tx_frame_def)

section \<open>Allocating and freeing blocks\<close>

lemma bzero_ok:
  assumes "tx_ok s k H" "loggable s b" "b \<notin> H" "k + card H < NBUF" "k < 29"
  shows "\<exists>s' k'. bzero 1 b s = Ok s' \<and> k \<le> k' \<and> k' \<le> Suc k \<and> tx_ok s' k' H \<and>
     view s' = (view s)(b := fill (view s b) 0 0 BSIZE) \<and> tx_frame s s' \<and>
     (\<forall>m j. m \<in> H \<longrightarrow> holds s m j \<longrightarrow> holds s' m j)"
proof -
  from tx.update [OF assms, of "\<lambda>d. fill d 0 0 BSIZE"] obtain i s1 s2 s' k' where
    1: "bread 1 b s = Ok (i, s1)" "bdata (bufs s1 i) = view s b"
    "log_modify i (fill (view s b) 0 0 BSIZE) s1 = Ok s2" "brelse i s2 = Ok s'" "k \<le> k'" "k' \<le> Suc k"
    "tx_ok s' k' H" "view s' = (view s)(b := fill (view s b) 0 0 BSIZE)" "tx_frame s s'"
    "\<forall>m j. m \<in> H \<longrightarrow> holds s m j \<longrightarrow> holds s' m j" by blast
  then have "bzero 1 b s = Ok s'" by (simp add: bzero_def)
  with 1 show ?thesis by blast
qed

lemma find_chunk:
  assumes "0 < B"
  shows "find P [c * B..<sz] = (case find (\<lambda>i. P (c * B + i)) [0..<min B (sz - c * B)] of
     Some i \<Rightarrow> Some (c * B + i) | None \<Rightarrow> find P [Suc c * B..<sz])"
proof -
  let ?n = "min B (sz - c * B)"
  have app: "find P (xs @ ys) = (case find P xs of Some x \<Rightarrow> Some x | None \<Rightarrow> find P ys)" for xs ys
    by (induction xs) auto
  have mp: "find P (map f xs) = map_option f (find (\<lambda>i. P (f i)) xs)" for f and xs :: "nat list"
    by (induction xs) auto
  have m: "[c * B..<c * B + ?n] = map (\<lambda>i. c * B + i) [0..<?n]" by (simp add: map_add_upt add.commute)
  have s: "[c * B..<sz] = [c * B..<c * B + ?n] @ [Suc c * B..<sz]"
  proof (cases "sz \<le> Suc c * B")
    case True
    then have "?n = sz - c * B" by simp
    with True show ?thesis by (cases "c * B \<le> sz") auto
  next
    case False
    then have "?n = B" by simp
    moreover have "[c * B..<sz] = [c * B..<c * B + B] @ [c * B + B..<sz]"
      using False upt_add_eq_append [of "c * B" "c * B + B" "sz - (c * B + B)"] by (simp add: add.commute)
    ultimately show ?thesis by (simp add: add.commute)
  qed
  show ?thesis unfolding s app m mp by (simp split: option.splits)
qed

text \<open>The blocks after \<open>b\<close> is marked in use and zeroed.\<close>

definition alloc_view :: "superblock \<Rightarrow> nat \<Rightarrow> (nat \<Rightarrow> mem) \<Rightarrow> nat \<Rightarrow> mem" where
  "alloc_view sbk b V = (mark True sbk b V)(b := fill (V b) 0 0 BSIZE)"

text \<open>One bitmap block: the first clear bit below the file system's size, if any.\<close>

lemma balloc_step_ok:
  assumes ok: "tx_ok s k H" and bm: "bitmap_ok s" and room: "k + 2 \<le> 29" "k + 1 + card H < NBUF"
    and H: "\<forall>b < sb_size (sb s). BBLOCK b (sb s) \<notin> H \<and> (b \<in> H \<longrightarrow> used (view s) (sb s) b)"
    and c: "c * BPB < sb_size (sb s)"
  defines "r \<equiv> map_option (\<lambda>i. c * BPB + i)
      (find (\<lambda>i. \<not> used (view s) (sb s) (c * BPB + i)) [0..<min BPB (sb_size (sb s) - c * BPB)])"
  shows "\<exists>s' k'. balloc_step 1 (c * BPB) s = Ok (r, s') \<and> k \<le> k' \<and> k' \<le> k + 2 \<and> tx_ok s' k' H \<and>
     tx_frame s s' \<and> (\<forall>m j. m \<in> H \<longrightarrow> holds s m j \<longrightarrow> holds s' m j) \<and>
     (case r of None \<Rightarrow> view s' = view s \<and> k' = k
      | Some b \<Rightarrow> view s' = alloc_view (sb s) b (view s))"
proof -
  let ?V = "view s" and ?bb = "BBLOCK (c * BPB) (sb s)" and ?sz = "sb_size (sb s)"
  have dbb: "loggable s ?bb" and nH: "?bb \<notin> H" using bm c H by (auto simp: bitmap_ok_def)
  have kH: "k + card H < NBUF" using room by simp
  from tx.rd_law [OF ok tx.loggable_disk [OF dbb] nH kH] obtain i s1 where
    1: "bread 1 ?bb s = Ok (i, s1)" "tx_ok s1 k (insert ?bb H)" "holds s1 ?bb i" "view s1 = ?V"
    "tx_frame s s1" "\<forall>m j. holds s m j \<longrightarrow> holds s1 m j" by blast
  have d: "bdata (bufs s1 i) = ?V ?bb" using tx.hold_law [OF 1(2,3)] 1(4) by simp
  have bb: "BBLOCK (c * BPB + j) (sb s) = ?bb" "(c * BPB + j) mod BPB = j" if "j < BPB" for j
    using that by (simp_all add: BBLOCK_def)
  have P: "(bdata (bufs s1 i) (j div 8) AND bit_mask j = 0) \<longleftrightarrow> \<not> used ?V (sb s) (c * BPB + j)"
    if "j < BPB" for j
    using bb [OF that] mod_mod_cancel [of 8 BPB "c * BPB + j"] by (simp add: used_def d)
  have fc: "find P xs = find Q xs" if "\<forall>x \<in> set xs. P x = Q x" for P Q and xs :: "nat list"
    using that by (induction xs) auto
  have f: "find (\<lambda>j. bdata (bufs s1 i) (j div 8) AND bit_mask j = 0) [0..<min BPB (?sz - c * BPB)] =
      find (\<lambda>j. \<not> used ?V (sb s) (c * BPB + j)) [0..<min BPB (?sz - c * BPB)]"
    by (rule fc) (use P in auto)
  have sb1: "sb s1 = sb s" using tx_frame_fs [OF 1(5)] by simp
  show ?thesis
  proof (cases "find (\<lambda>j. \<not> used ?V (sb s) (c * BPB + j)) [0..<min BPB (?sz - c * BPB)]")
    case None
    from tx.rl_law [OF 1(2,3)] obtain s2 where
      2: "brelse i s1 = Ok s2" "tx_ok s2 k (insert ?bb H - {?bb})" "view s2 = view s1" "tx_frame s1 s2"
      "\<forall>m j. m \<noteq> ?bb \<longrightarrow> holds s1 m j \<longrightarrow> holds s2 m j" by blast
    have HH: "insert ?bb H - {?bb} = H" using nH by auto
    have keep: "\<forall>m j. m \<in> H \<longrightarrow> holds s m j \<longrightarrow> holds s2 m j" using 1(6) 2(5) nH by metis
    have "balloc_step 1 (c * BPB) s = Ok (r, s2)"
      using 1 2 None f by (simp add: balloc_step_def r_def Let_def sb1 del: bit_mask_zero)
    then show ?thesis
      using 1(4) 2(2,3) None HH keep tx_frame_trans [OF 1(5) 2(4)]
      by (intro exI [of _ s2] exI [of _ k]) (auto simp: r_def)
  next
    case (Some j)
    let ?b = "c * BPB + j"
    from Some have j: "j < BPB" "?b < ?sz" "\<not> used ?V (sb s) ?b"
      using find_someD [OF Some] by auto
    have db: "loggable s ?b" and nb: "\<forall>c < ?sz. ?b \<noteq> BBLOCK c (sb s)" using bm j by (auto simp: bitmap_ok_def)
    then have neq: "?b \<noteq> ?bb" using c by blast
    have bH: "?b \<notin> H" using H j by blast
    let ?d = "(?V ?bb)(j div 8 := ?V ?bb (j div 8) OR bit_mask j)"
    have "loggable s1 ?bb" using dbb tx.frame_log [OF 1(5)] by simp
    from tx.change_release [OF 1(2,3) nH this, of ?d] room obtain s2 s3 k1 where
      2: "log_modify i ?d s1 = Ok s2" "brelse i s2 = Ok s3" "k \<le> k1" "k1 \<le> Suc k" "tx_ok s3 k1 H"
      "view s3 = (view s1)(?bb := ?d)" "tx_frame s1 s3" "\<forall>m j. m \<in> H \<longrightarrow> holds s1 m j \<longrightarrow> holds s3 m j"
      by auto
    have f3: "tx_frame s s3" by (rule tx_frame_trans [OF 1(5) 2(7)])
    have "loggable s3 ?b" using db tx.frame_log [OF f3] by simp
    from bzero_ok [OF 2(5) this bH] room 2(4) obtain s4 k2 where
      3: "bzero 1 ?b s3 = Ok s4" "k1 \<le> k2" "k2 \<le> Suc k1" "tx_ok s4 k2 H"
      "view s4 = (view s3)(?b := fill (view s3 ?b) 0 0 BSIZE)" "tx_frame s3 s4"
      "\<forall>m j. m \<in> H \<longrightarrow> holds s3 m j \<longrightarrow> holds s4 m j" by auto
    have "bit_mask j = bit_mask ?b" using bit_mask_mod [of ?b] bb(2) [OF j(1)] by simp
    then have mk: "mark True (sb s) ?b ?V = ?V(?bb := ?d)"
      using bb [OF j(1)] by (simp add: mark_def Let_def)
    have "view s4 = alloc_view (sb s) ?b ?V"
      unfolding alloc_view_def mk using 1(4) 2(6) 3(5) neq by simp
    moreover have "balloc_step 1 (c * BPB) s = Ok (r, s4)"
      using 1 2 3 Some f d by (simp add: balloc_step_def r_def Let_def sb1 del: bit_mask_zero)
    ultimately show ?thesis
      using 1 2 3 Some tx_frame_trans [OF f3 3(6)] by (intro exI [of _ s4] exI [of _ k2]) (auto simp: r_def)
  qed
qed

text \<open>The state in which a block can be allocated while the blocks \<open>H\<close> are held.\<close>

definition can_alloc :: "'a fs_state_scheme \<Rightarrow> nat \<Rightarrow> nat set \<Rightarrow> bool" where
  "can_alloc s k H \<longleftrightarrow> tx_ok s k H \<and> bitmap_ok s \<and> k + 2 \<le> 29 \<and> k + 1 + card H < NBUF \<and>
     (\<forall>b < sb_size (sb s). BBLOCK b (sb s) \<notin> H \<and> (b \<in> H \<longrightarrow> used (view s) (sb s) b))"

definition first_free :: "'a fs_state_scheme \<Rightarrow> nat option" where
  "first_free s = find (\<lambda>b. \<not> used (view s) (sb s) b) [0..<sb_size (sb s)]"

lemma loggable_frame: "tx_frame s s' \<Longrightarrow> loggable s' b = loggable s b"
  by (rule tx.frame_log)

lemma bitmap_ok_frame: "tx_frame s s' \<Longrightarrow> view s' = view s \<Longrightarrow> bitmap_ok s' = bitmap_ok s"
  by (simp add: bitmap_ok_def loggable_frame tx_frame_fs)

lemma chunk_count: "n \<le> (n + BPB - 1) div BPB * BPB"
  using div_mult_mod_eq [of "n + BPB - 1" BPB] mod_less_divisor [of BPB "n + BPB - 1"] by linarith

lemma chunk_less: "c < (n + BPB - 1) div BPB \<Longrightarrow> c * BPB < n"
  using div_mult_mod_eq [of "n + BPB - 1" BPB] mult_le_mono1 [of "Suc c" "(n + BPB - 1) div BPB" BPB] by simp

lemma balloc_loop_ok:
  assumes "can_alloc s k H" "c \<le> (sb_size (sb s) + BPB - 1) div BPB"
  shows "\<exists>r s' k'. loopE (balloc_step 1) (map (\<lambda>c. c * BPB) [c..<(sb_size (sb s) + BPB - 1) div BPB]) s = Ok (r, s') \<and>
     r = find (\<lambda>b. \<not> used (view s) (sb s) b) [c * BPB..<sb_size (sb s)] \<and>
     k \<le> k' \<and> k' \<le> k + 2 \<and> tx_ok s' k' H \<and>
     tx_frame s s' \<and> (\<forall>m j. m \<in> H \<longrightarrow> holds s m j \<longrightarrow> holds s' m j) \<and>
     (case r of None \<Rightarrow> view s' = view s \<and> k' = k | Some b \<Rightarrow> view s' = alloc_view (sb s) b (view s))"
  using assms
proof (induction "(sb_size (sb s) + BPB - 1) div BPB - c" arbitrary: c s)
  case 0
  let ?C = "(sb_size (sb s) + BPB - 1) div BPB"
  have "sb_size (sb s) \<le> ?C * BPB" by (rule chunk_count)
  moreover have "c = ?C" using 0 by simp
  ultimately show ?case
    using "0.prems" by (intro exI [of _ None] exI [of _ s] exI [of _ k]) (auto simp: can_alloc_def)
next
  case (Suc n)
  let ?sz = "sb_size (sb s)" and ?C = "(sb_size (sb s) + BPB - 1) div BPB"
  have cC: "c < ?C" using Suc.hyps(2) by simp
  then have c: "c * BPB < ?sz" by (rule chunk_less)
  have ok: "tx_ok s k H" and bm: "bitmap_ok s" and room: "k + 2 \<le> 29" "k + 1 + card H < NBUF"
    and H: "\<forall>b < ?sz. BBLOCK b (sb s) \<notin> H \<and> (b \<in> H \<longrightarrow> used (view s) (sb s) b)"
    using Suc.prems(1) by (simp_all add: can_alloc_def)
  let ?f = "find (\<lambda>i. \<not> used (view s) (sb s) (c * BPB + i)) [0..<min BPB (?sz - c * BPB)]"
  from balloc_step_ok [OF ok bm room H c] obtain s1 k1 where
    1: "balloc_step 1 (c * BPB) s = Ok (map_option (\<lambda>i. c * BPB + i) ?f, s1)" "k \<le> k1" "k1 \<le> k + 2"
    "tx_ok s1 k1 H" "tx_frame s s1" "\<forall>m j. m \<in> H \<longrightarrow> holds s m j \<longrightarrow> holds s1 m j"
    "case map_option (\<lambda>i. c * BPB + i) ?f of None \<Rightarrow> view s1 = view s \<and> k1 = k
      | Some b \<Rightarrow> view s1 = alloc_view (sb s) b (view s)"
    by blast
  have ups: "map (\<lambda>c. c * BPB) [c..<?C] = c * BPB # map (\<lambda>c. c * BPB) [Suc c..<?C]"
    using cC by (simp add: upt_conv_Cons)
  have fd: "find (\<lambda>b. \<not> used (view s) (sb s) b) [c * BPB..<?sz] =
      (case ?f of Some i \<Rightarrow> Some (c * BPB + i) | None \<Rightarrow> find (\<lambda>b. \<not> used (view s) (sb s) b) [Suc c * BPB..<?sz])"
    by (rule find_chunk) simp
  show ?case
  proof (cases ?f)
    case (Some i)
    then show ?thesis unfolding ups fd using 1
      by (intro exI [of _ "Some (c * BPB + i)"] exI [of _ s1] exI [of _ k1]) simp
  next
    case None
    then have v: "view s1 = view s" "k1 = k" using 1(7) by simp_all
    have s1: "sb s1 = sb s" using tx_frame_fs [OF 1(5)] by simp
    have ca: "can_alloc s1 k H"
      using Suc.prems(1) 1(4,5) v s1 by (simp add: can_alloc_def bitmap_ok_frame)
    have n: "n = (sb_size (sb s1) + BPB - 1) div BPB - Suc c" "Suc c \<le> (sb_size (sb s1) + BPB - 1) div BPB"
      unfolding s1 using Suc.hyps(2) cC by simp_all
    from Suc.hyps(1) [OF n(1) ca n(2), unfolded s1 v] obtain r s' k' where
      2: "loopE (balloc_step 1) (map (\<lambda>c. c * BPB) [Suc c..<?C]) s1 = Ok (r, s')"
      "r = find (\<lambda>b. \<not> used (view s) (sb s) b) [Suc c * BPB..<?sz]"
      "k \<le> k'" "k' \<le> k + 2" "tx_ok s' k' H" "tx_frame s1 s'" "\<forall>m j. m \<in> H \<longrightarrow> holds s1 m j \<longrightarrow> holds s' m j"
      "case r of None \<Rightarrow> view s' = view s \<and> k' = k | Some b \<Rightarrow> view s' = alloc_view (sb s) b (view s)"
      by blast
    have "loopE (balloc_step 1) (map (\<lambda>c. c * BPB) [c..<?C]) s = Ok (r, s')"
      unfolding ups using 1(1) None 2(1) by simp
    moreover have "r = find (\<lambda>b. \<not> used (view s) (sb s) b) [c * BPB..<?sz]"
      unfolding fd using None 2(2) by simp
    moreover have "\<forall>m j. m \<in> H \<longrightarrow> holds s m j \<longrightarrow> holds s' m j" using 1(6) 2(7) by blast
    ultimately show ?thesis using 2(3-5,8) tx_frame_trans [OF 1(5) 2(6)] by blast
  qed
qed

lemma balloc_ok:
  assumes "can_alloc s k H" "first_free s = Some b"
  shows "\<exists>s' k'. balloc 1 s = Ok (b, s') \<and> k \<le> k' \<and> k' \<le> k + 2 \<and> tx_ok s' k' H \<and> tx_frame s s' \<and>
     (\<forall>m j. m \<in> H \<longrightarrow> holds s m j \<longrightarrow> holds s' m j) \<and> view s' = alloc_view (sb s) b (view s)"
  using balloc_loop_ok [OF assms(1), of 0] assms(2) by (auto simp: balloc_def first_free_def)

lemma balloc_full:
  assumes "can_alloc s k H" "first_free s = None"
  shows "balloc 1 s = Panic ''balloc: out of blocks''"
  using balloc_loop_ok [OF assms(1), of 0] assms(2) by (auto simp: balloc_def first_free_def)

lemma readsb_tx:
  assumes ok: "tx_ok s k H" and one: "1 < disksize s" "1 \<notin> H" and room: "k + card H < NBUF"
  shows "\<exists>s'. readsb 1 s = Ok (decode_sb (view s 1), s') \<and> tx_ok s' k H \<and> view s' = view s \<and> tx_frame s s' \<and>
     (\<forall>m j. m \<in> H \<longrightarrow> holds s m j \<longrightarrow> holds s' m j)"
proof -
  from tx.look [OF ok one room] obtain i s1 s' where
    "bread 1 1 s = Ok (i, s1)" "bdata (bufs s1 i) = view s 1" "brelse i s1 = Ok s'"
    "tx_ok s' k H" "view s' = view s" "tx_frame s s'" "\<forall>m j. m \<in> H \<longrightarrow> holds s m j \<longrightarrow> holds s' m j" by blast
  then show ?thesis by (auto simp: readsb_def Let_def)
qed

text \<open>The superblock in memory is the one on disk, in block 1, which is in use and not a bitmap block.\<close>

definition sb_known :: "'a fs_state_scheme \<Rightarrow> nat set \<Rightarrow> bool" where
  "sb_known s H \<longleftrightarrow> decode_sb (view s 1) = sb s \<and> 1 < disksize s \<and> 1 \<notin> H \<and>
     (\<forall>c < sb_size (sb s). BBLOCK c (sb s) \<noteq> 1) \<and> used (view s) (sb s) 1"

lemma bfree_read:
  assumes ok: "tx_ok s k H" and sb: "sb_known s H" and room: "k + card H < NBUF"
    and bb: "loggable s (BBLOCK b (sb s))" "BBLOCK b (sb s) \<notin> H"
  shows "\<exists>i s2. tx_ok s2 k (insert (BBLOCK b (sb s)) H) \<and> holds s2 (BBLOCK b (sb s)) i \<and> view s2 = view s \<and>
     tx_frame s s2 \<and> (\<forall>m j. m \<in> H \<longrightarrow> holds s m j \<longrightarrow> holds s2 m j) \<and>
     bfree 1 b s = (if used (view s) (sb s) b then
       bindE (log_modify i (mark False (sb s) b (view s) (BBLOCK b (sb s))) s2) (brelse i)
       else Panic ''freeing free block'')"
proof -
  let ?bb = "BBLOCK b (sb s)"
  from readsb_tx [OF ok _ _ room] sb obtain s1 where
    1: "readsb 1 s = Ok (sb s, s1)" "tx_ok s1 k H" "view s1 = view s" "tx_frame s s1"
    "\<forall>m j. m \<in> H \<longrightarrow> holds s m j \<longrightarrow> holds s1 m j" by (auto simp: sb_known_def)
  have sb1: "sb s1 = sb s" using tx_frame_fs [OF 1(4)] by simp
  then have id: "s1\<lparr>sb := sb s\<rparr> = s1" by simp
  have "on_disk s1 ?bb" using bb(1) tx_frame_sel(3) [OF 1(4)] by (simp add: loggable_def data_block_def)
  from tx.rd_law [OF 1(2) this bb(2) room] obtain i s2 where
    2: "bread 1 ?bb s1 = Ok (i, s2)" "tx_ok s2 k (insert ?bb H)" "holds s2 ?bb i" "view s2 = view s1"
    "tx_frame s1 s2" "\<forall>m j. holds s1 m j \<longrightarrow> holds s2 m j" by blast
  have rd': "bread 1 ?bb (s1\<lparr>sb := sb s\<rparr>) = Ok (i, s2)" unfolding id by (rule 2(1))
  have d: "bdata (bufs s2 i) = view s ?bb" using tx.hold_law [OF 2(2,3)] 2(4) 1(3) by simp
  have u: "(view s ?bb (b mod BPB div 8) AND bit_mask (b mod BPB) = 0) \<longleftrightarrow> \<not> used (view s) (sb s) b"
    by (simp add: used_def mod_mod_cancel)
  have "bfree 1 b s = (if used (view s) (sb s) b then
      bindE (log_modify i (mark False (sb s) b (view s) ?bb) s2) (brelse i) else Panic ''freeing free block'')"
    unfolding bfree_def Let_def using 1(1) 2(1) d u sb1 rd'
    by (simp add: mark_def Let_def del: bit_mask_zero)
  with 1 2 tx_frame_trans [OF 1(4) 2(5)] show ?thesis
    by (intro exI [of _ i] exI [of _ s2]) auto
qed

lemma bfree_ok:
  assumes ok: "tx_ok s k H" and sb: "sb_known s H" and room: "k + card H < NBUF" "k < 29"
    and bb: "loggable s (BBLOCK b (sb s))" "BBLOCK b (sb s) \<notin> H" and u: "used (view s) (sb s) b"
  shows "\<exists>s' k'. bfree 1 b s = Ok s' \<and> k \<le> k' \<and> k' \<le> Suc k \<and> tx_ok s' k' H \<and>
     view s' = mark False (sb s) b (view s) \<and> tx_frame s s' \<and>
     (\<forall>m j. m \<in> H \<longrightarrow> holds s m j \<longrightarrow> holds s' m j)"
proof -
  let ?bb = "BBLOCK b (sb s)"
  from bfree_read [OF ok sb room(1) bb] u obtain i s2 where
    1: "tx_ok s2 k (insert ?bb H)" "holds s2 ?bb i" "view s2 = view s" "tx_frame s s2"
    "\<forall>m j. m \<in> H \<longrightarrow> holds s m j \<longrightarrow> holds s2 m j"
    "bfree 1 b s = bindE (log_modify i (mark False (sb s) b (view s) ?bb) s2) (brelse i)" by auto
  have "loggable s2 ?bb" using bb(1) loggable_frame [OF 1(4)] by simp
  from tx.change_release [OF 1(1,2) bb(2) this room(2)] obtain s3 s' k' where
    2: "log_modify i (mark False (sb s) b (view s) ?bb) s2 = Ok s3" "brelse i s3 = Ok s'" "k \<le> k'"
    "k' \<le> Suc k" "tx_ok s' k' H" "view s' = (view s2)(?bb := mark False (sb s) b (view s) ?bb)"
    "tx_frame s2 s'" "\<forall>m j. m \<in> H \<longrightarrow> holds s2 m j \<longrightarrow> holds s' m j" by blast
  have "view s' = mark False (sb s) b (view s)"
    using 2(6) 1(3) by (auto simp: fun_eq_iff mark_other)
  with 1 2 tx_frame_trans [OF 1(4) 2(7)] show ?thesis by (intro exI [of _ s'] exI [of _ k']) auto
qed

lemma bfree_free:
  assumes "tx_ok s k H" "sb_known s H" "k + card H < NBUF"
    "loggable s (BBLOCK b (sb s))" "BBLOCK b (sb s) \<notin> H" "\<not> used (view s) (sb s) b"
  shows "bfree 1 b s = Panic ''freeing free block''"
  using bfree_read [OF assms(1-5)] assms(6) by auto

section \<open>On-disk inodes\<close>

text \<open>Field offsets of an on-disk inode do not overlap, and inodes of a block do not either.\<close>

lemma addrs_put_get:
  "j < n \<Longrightarrow> get32 (fold (\<lambda>j. put32 (a + 4 * j) (w j)) [0..<n] d) (a + 4 * j) = w j"
proof (induction n)
  case (Suc n)
  then show ?case by (cases "j = n") (auto simp: get32_put32_other)
qed simp

lemma addrs_put_other:
  "b + 4 \<le> a \<or> a + 4 * n \<le> b \<Longrightarrow> get32 (fold (\<lambda>j. put32 (a + 4 * j) (w j)) [0..<n] d) b = get32 d b"
  "b + 2 \<le> a \<or> a + 4 * n \<le> b \<Longrightarrow> get16 (fold (\<lambda>j. put32 (a + 4 * j) (w j)) [0..<n] d) b = get16 d b"
  by (induction n) (auto simp: get32_put32_other get16_put32_other)

lemma dinode_roundtrip:
  assumes "isize i < 2 ^ 32" "\<forall>j < NDIRECT + 1. iaddrs i j < 2 ^ 32"
  shows "get_dinode off (put_dinode off i d) x = x\<lparr>itype := itype i, imajor := imajor i, iminor := iminor i,
     inlink := inlink i, isize := isize i, iaddrs := (\<lambda>j. if j < NDIRECT + 1 then iaddrs i j else iaddrs x j)\<rparr>"
proof -
  let ?p = "put_dinode off i d"
  have "get16 ?p off = itype i" "get16 ?p (off + 2) = imajor i" "get16 ?p (off + 4) = iminor i"
    "get16 ?p (off + 6) = inlink i" "get32 ?p (off + 8) = of_nat (isize i)"
    by (simp_all add: put_dinode_def addrs_put_other get16_put32_other get16_put16_other
        get32_put16_other del: upt_Suc upt_rec_numeral fold_simps)
  moreover have "get32 ?p (off + 12 + 4 * j) = of_nat (iaddrs i j)" if "j < NDIRECT + 1" for j
    unfolding put_dinode_def using that by (intro addrs_put_get) simp
  ultimately show ?thesis
    using assms by (simp add: get_dinode_def unat_of_nat cong: if_cong)
qed

lemma put_dinode_other:
  "b + 4 \<le> off \<or> off + 64 \<le> b \<Longrightarrow> get32 (put_dinode off i d) b = get32 d b"
  "b + 2 \<le> off \<or> off + 64 \<le> b \<Longrightarrow> get16 (put_dinode off i d) b = get16 d b"
  by (elim disjE; simp add: put_dinode_def addrs_put_other get16_put32_other get16_put16_other
      get32_put16_other get32_put32_other del: upt_Suc upt_rec_numeral fold_simps)+

lemma dinode_other:
  assumes "ino mod IPB \<noteq> ino' mod IPB"
  shows "get_dinode (dinode_off ino') (put_dinode (dinode_off ino) i d) x = get_dinode (dinode_off ino') d x"
proof -
  have sep: "dinode_off ino' + 64 \<le> dinode_off ino \<or> dinode_off ino + 64 \<le> dinode_off ino'"
    using assms by (auto simp: dinode_off_def)
  have "get32 (put_dinode (dinode_off ino) i d) (dinode_off ino' + 12 + 4 * j) = get32 d (dinode_off ino' + 12 + 4 * j)"
    if "j < 13" for j using that sep by (intro put_dinode_other) auto
  then show ?thesis using sep by (auto simp: get_dinode_def put_dinode_other fun_eq_iff)
qed

lemma iupdate_ok:
  assumes ok: "tx_ok s k H" and dv: "idev (inodes s ip) = 1" and k: "k + card H < NBUF" "k < 29"
    and b: "loggable s (IBLOCK (inum (inodes s ip)) (sb s))" "IBLOCK (inum (inodes s ip)) (sb s) \<notin> H"
  shows "\<exists>s' k'. iupdate ip s = Ok s' \<and> k \<le> k' \<and> k' \<le> Suc k \<and> tx_ok s' k' H \<and> tx_frame s s' \<and>
     (let ib = IBLOCK (inum (inodes s ip)) (sb s) in
      view s' = (view s)(ib := put_dinode (dinode_off (inum (inodes s ip))) (inodes s ip) (view s ib))) \<and>
     (\<forall>m j. m \<in> H \<longrightarrow> holds s m j \<longrightarrow> holds s' m j)"
proof -
  let ?ib = "IBLOCK (inum (inodes s ip)) (sb s)"
  let ?f = "put_dinode (dinode_off (inum (inodes s ip))) (inodes s ip)"
  from tx.update [OF ok b k, of ?f] obtain i s1 s2 s' k' where
    1: "bread 1 ?ib s = Ok (i, s1)" "bdata (bufs s1 i) = view s ?ib" "log_modify i (?f (view s ?ib)) s1 = Ok s2"
    "brelse i s2 = Ok s'" "k \<le> k'" "k' \<le> Suc k" "tx_ok s' k' H" "view s' = (view s)(?ib := ?f (view s ?ib))"
    "tx_frame s s'" "\<forall>m j. m \<in> H \<longrightarrow> holds s m j \<longrightarrow> holds s' m j" by blast
  then have "iupdate ip s = Ok s'" by (simp add: iupdate_def dv Let_def)
  with 1 show ?thesis by (auto simp: Let_def)
qed

text \<open>Changes of the inode cache are invisible to the log and the buffer cache.\<close>

lemma upd_inode_sel [simp]:
  "view (upd_inode ip f s) = view s" "tx_ok (upd_inode ip f s) k H = tx_ok s k H"
  "holds (upd_inode ip f s) b i = holds s b i" "loggable (upd_inode ip f s) b = loggable s b"
  "sb (upd_inode ip f s) = sb s" "disksize (upd_inode ip f s) = disksize s"
  "curpid (upd_inode ip f s) = curpid s" "inodes (upd_inode ip f s) = (inodes s)(ip := f (inodes s ip))"
  "bufs (upd_inode ip f s) = bufs s" "disk (upd_inode ip f s) = disk s"
proof -
  have e: "bufs (upd_inode ip f s) = bufs s" "bnext (upd_inode ip f s) = bnext s"
    "bprev (upd_inode ip f s) = bprev s" "disk (upd_inode ip f s) = disk s"
    "disksize (upd_inode ip f s) = disksize s" by (simp_all add: upd_inode_def)
  note B = bio_cong [OF e]
  show "view (upd_inode ip f s) = view s" "holds (upd_inode ip f s) b i = holds s b i" by (rule B)+
  show "tx_ok (upd_inode ip f s) k H = tx_ok s k H"
    unfolding tx_ok_def log_open_def home_def [abs_def] log_area_def B e by (simp add: upd_inode_def)
  show "loggable (upd_inode ip f s) b = loggable s b"
    by (simp add: loggable_def data_block_def log_area_def upd_inode_def)
qed (simp_all add: upd_inode_def)

lemma upd_inode_twice [simp]: "upd_inode ip f (upd_inode ip g s) = upd_inode ip (f \<circ> g) s"
  by (simp add: upd_inode_def)

text \<open>Locking an entry that has not been read yet loads the on-disk inode.\<close>

lemma ilock_loads:
  fixes s :: "'a fs_state_scheme"
  assumes ok: "tx_ok s k H" and i: "idev (inodes s ip) = 1" "1 \<le> iref (inodes s ip)"
      "\<not> locked (ilk (inodes s ip))" "\<not> ivalid (inodes s ip)"
    and k: "k + card H < NBUF" and b: "on_disk s (IBLOCK (inum (inodes s ip)) (sb s))"
      "IBLOCK (inum (inodes s ip)) (sb s) \<notin> H"
    and ty: "get16 (view s (IBLOCK (inum (inodes s ip)) (sb s))) (dinode_off (inum (inodes s ip))) \<noteq> 0"
  shows "\<exists>s'. ilock (Some ip) s = Ok s' \<and> tx_ok s' k H \<and> view s' = view s \<and>
     inodes s' = (inodes s)(ip := (get_dinode (dinode_off (inum (inodes s ip)))
        (view s (IBLOCK (inum (inodes s ip)) (sb s))) ((inodes s ip)\<lparr>ilk := \<lparr>locked = True, lpid = curpid s\<rparr>\<rparr>))
        \<lparr>ivalid := True\<rparr>) \<and> sb s' = sb s"
proof -
  let ?ib = "IBLOCK (inum (inodes s ip)) (sb s)" and ?off = "dinode_off (inum (inodes s ip))"
  let ?lk = "\<lparr>locked = True, lpid = curpid s\<rparr>"
  let ?s0 = "upd_inode ip (\<lambda>x. x\<lparr>ilk := ?lk\<rparr>) s"
  have lk: "acquiresleep (curpid s) (ilk (inodes s ip)) = Ok ?lk"
    using i(3) by (simp add: acquiresleep_def)
  have ok0: "tx_ok ?s0 k H" and od: "on_disk ?s0 ?ib" using ok b(1) by simp_all
  from tx.rd_law [OF ok0 od b(2) k] obtain bp s1 where
    1: "bread 1 ?ib ?s0 = Ok (bp, s1)" "tx_ok s1 k (insert ?ib H)" "holds s1 ?ib bp" "view s1 = view ?s0"
    "tx_frame ?s0 s1" by blast
  have d: "bdata (bufs s1 bp) = view s ?ib" using tx.hold_law [OF 1(2,3)] 1(4) by simp
  have s1: "sb s1 = sb s" "inodes s1 = (inodes s)(ip := (inodes s ip)\<lparr>ilk := ?lk\<rparr>)"
    using tx_frame_fs [OF 1(5)] by simp_all
  let ?s2 = "upd_inode ip (get_dinode ?off (view s ?ib)) s1"
  have "tx_ok ?s2 k (insert ?ib H)" "holds ?s2 ?ib bp" using 1 by simp_all
  from tx.rl_law [OF this] obtain s3 where
    3: "brelse bp ?s2 = Ok s3" "tx_ok s3 k (insert ?ib H - {?ib})" "view s3 = view ?s2" "tx_frame ?s2 s3" by blast
  have HH: "insert ?ib H - {?ib} = H" using b(2) by auto
  have s3: "sb s3 = sb s" "inodes s3 = (inodes s)(ip := get_dinode ?off (view s ?ib) ((inodes s ip)\<lparr>ilk := ?lk\<rparr>))"
    using tx_frame_fs [OF 3(4)] s1 by simp_all
  let ?s4 = "upd_inode ip (\<lambda>x. x\<lparr>ivalid := True\<rparr>) s3"
  have t4: "itype (inodes ?s4 ip) = get16 (view s ?ib) ?off" by (simp add: s3 get_dinode_def)
  have "ilock (Some ip) s = Ok ?s4"
    using i 1(1) d 3(1) lk t4 ty s1 s3 by (simp add: ilock_def Let_def)
  moreover have "inodes ?s4 = (inodes s)(ip := (get_dinode ?off (view s ?ib) ((inodes s ip)\<lparr>ilk := ?lk\<rparr>))
      \<lparr>ivalid := True\<rparr>)"
    by (simp add: s3)
  ultimately show ?thesis using 3 1(4) HH s3 by (intro exI [of _ ?s4]) simp
qed

text \<open>The fields of an inode that live on disk.\<close>

definition same_content :: "inode \<Rightarrow> inode \<Rightarrow> bool" where
  "same_content i j \<longleftrightarrow> itype i = itype j \<and> imajor i = imajor j \<and> iminor i = iminor j \<and>
     inlink i = inlink j \<and> isize i = isize j \<and> (\<forall>n < NDIRECT + 1. iaddrs i n = iaddrs j n)"

text \<open>C37: the inode cache is write-through.  After \<open>iupdate\<close>, whatever the cache entry is
  overwritten with (as long as it stays an unlocked, referenced, not yet read entry for the same
  inode), \<open>ilock\<close> reads back every field that \<open>iupdate\<close> saved; the other on-disk inodes are
  unchanged.\<close>

theorem iupdate_ilock:
  fixes s :: "'a fs_state_scheme"
  assumes ok: "tx_ok s k {}" "k < 29" and i: "idev (inodes s ip) = 1" "itype (inodes s ip) \<noteq> 0"
      "isize (inodes s ip) < 2 ^ 32" "\<forall>j < NDIRECT + 1. iaddrs (inodes s ip) j < 2 ^ 32"
    and b: "loggable s (IBLOCK (inum (inodes s ip)) (sb s))"
    and e: "idev e = 1" "inum e = inum (inodes s ip)" "1 \<le> iref e" "\<not> locked (ilk e)" "\<not> ivalid e"
  shows "\<exists>s' s''. iupdate ip s = Ok s' \<and> ilock (Some ip) (upd_inode ip (\<lambda>_. e) s') = Ok s'' \<and>
     same_content (inodes s'' ip) (inodes s ip) \<and> view s'' = view s' \<and>
     (\<forall>n x. n \<noteq> inum (inodes s ip) \<longrightarrow> get_dinode (dinode_off n) (view s' (IBLOCK n (sb s))) x =
        get_dinode (dinode_off n) (view s (IBLOCK n (sb s))) x)"
proof -
  let ?i = "inodes s ip"
  let ?ib = "IBLOCK (inum ?i) (sb s)" and ?off = "dinode_off (inum ?i)"
  from iupdate_ok [OF ok(1) i(1) _ ok(2) b] ok(2) obtain s' k' where
    1: "iupdate ip s = Ok s'" "k' \<le> Suc k" "tx_ok s' k' {}" "tx_frame s s'"
    "view s' = (view s)(?ib := put_dinode ?off ?i (view s ?ib))" by (auto simp: Let_def)
  have sb': "sb s' = sb s" using tx_frame_fs [OF 1(4)] by simp
  let ?t = "upd_inode ip (\<lambda>_. e) s'"
  have "on_disk ?t ?ib" using b tx_frame_sel(3) [OF 1(4)] by (simp add: loggable_def data_block_def)
  moreover have rt: "get_dinode ?off (view s' ?ib) x = x\<lparr>itype := itype ?i, imajor := imajor ?i, iminor := iminor ?i,
     inlink := inlink ?i, isize := isize ?i, iaddrs := (\<lambda>j. if j < NDIRECT + 1 then iaddrs ?i j else iaddrs x j)\<rparr>" for x
    using dinode_roundtrip [OF i(3,4)] 1(5) by simp
  then have "get16 (view s' ?ib) ?off = itype ?i"
    by (metis (no_types, lifting) get_dinode_def inode.select_convs(6) inode.surjective inode.update_convs(6-11))
  ultimately obtain s'' where
    2: "ilock (Some ip) ?t = Ok s''" "view s'' = view ?t"
    "inodes s'' = (inodes ?t)(ip := (get_dinode ?off (view s' ?ib) (e\<lparr>ilk := \<lparr>locked = True, lpid = curpid ?t\<rparr>\<rparr>))\<lparr>ivalid := True\<rparr>)"
    using ilock_loads [of ?t k' "{}" ip] 1(2,3) ok(2) e i(2) sb' by auto
  have "same_content (inodes s'' ip) ?i" unfolding 2(3) rt same_content_def by simp
  moreover have "get_dinode (dinode_off n) (view s' (IBLOCK n (sb s))) x =
      get_dinode (dinode_off n) (view s (IBLOCK n (sb s))) x" if "n \<noteq> inum ?i" for n x
  proof (cases "IBLOCK n (sb s) = ?ib")
    case True
    with that have "inum ?i mod IPB \<noteq> n mod IPB"
      by (auto simp: IBLOCK_def) (metis div_mult_mod_eq)
    with dinode_other True show ?thesis unfolding 1(5) by simp
  qed (simp add: 1(5))
  ultimately show ?thesis using 1(1) 2(1,2) by auto
qed

section \<open>Reference counts of the inode cache\<close>

text \<open>
  What the cache promises: at most one entry in use per inode.  \<open>refs s dv ino\<close> is the number of
  references to that inode held by the rest of the kernel.
\<close>

definition icache_inv :: "'a fs_state_scheme \<Rightarrow> bool" where
  "icache_inv s \<longleftrightarrow> (\<forall>i < NINODE. 0 \<le> iref (inodes s i)) \<and>
     (\<forall>i < NINODE. \<forall>j < NINODE. 0 < iref (inodes s i) \<longrightarrow> 0 < iref (inodes s j) \<longrightarrow>
        idev (inodes s i) = idev (inodes s j) \<longrightarrow> inum (inodes s i) = inum (inodes s j) \<longrightarrow> i = j)"

definition refs :: "'a fs_state_scheme \<Rightarrow> nat \<Rightarrow> nat \<Rightarrow> int" where
  "refs s dv ino = (\<Sum>i < NINODE. if idev (inodes s i) = dv \<and> inum (inodes s i) = ino then iref (inodes s i) else 0)"

lemma iget_scan_Some:
  "iget_scan t dv ino is e = (Some i, e') \<Longrightarrow> i \<in> set is \<and> 0 < iref (t i) \<and> idev (t i) = dv \<and> inum (t i) = ino"
  by (induction t dv ino "is" e rule: iget_scan.induct) (auto split: if_splits)

lemma iget_scan_None:
  "iget_scan t dv ino is e = (None, e') \<Longrightarrow>
     (\<forall>i \<in> set is. \<not> (0 < iref (t i) \<and> idev (t i) = dv \<and> inum (t i) = ino)) \<and>
     e' = (case e of Some x \<Rightarrow> Some x | None \<Rightarrow> find (\<lambda>i. iref (t i) = 0) is)"
  by (induction t dv ino "is" e rule: iget_scan.induct) (auto split: if_splits option.splits)

lemma refs_upd:
  assumes "ip < NINODE" "idev (f (inodes s ip)) = dv" "inum (f (inodes s ip)) = ino"
  shows "refs (upd_inode ip f s) d n = refs s d n
     - (if idev (inodes s ip) = d \<and> inum (inodes s ip) = n then iref (inodes s ip) else 0)
     + (if dv = d \<and> ino = n then iref (f (inodes s ip)) else 0)"
proof -
  let ?g = "\<lambda>t i. if idev (t i) = d \<and> inum (t i) = n then iref (t i) else (0::int)"
  have "sum (?g (inodes s)) {..<NINODE} = ?g (inodes s) ip + sum (?g (inodes s)) ({..<NINODE} - {ip})"
    using assms(1) by (intro sum.remove) auto
  moreover have "sum (?g (inodes (upd_inode ip f s))) {..<NINODE} =
      ?g (inodes (upd_inode ip f s)) ip + sum (?g (inodes (upd_inode ip f s))) ({..<NINODE} - {ip})"
    using assms(1) by (intro sum.remove) auto
  moreover have "sum (?g (inodes (upd_inode ip f s))) ({..<NINODE} - {ip}) = sum (?g (inodes s)) ({..<NINODE} - {ip})"
    by (rule sum.cong) auto
  ultimately show ?thesis using assms(2,3) by (simp add: refs_def)
qed

lemma icache_inv_upd:
  assumes inv: "icache_inv s" and ref: "0 \<le> iref (f (inodes s ip))"
    and new: "\<And>i. i < NINODE \<Longrightarrow> i \<noteq> ip \<Longrightarrow> 0 < iref (inodes s i) \<Longrightarrow> 0 < iref (f (inodes s ip)) \<Longrightarrow>
      idev (inodes s i) = idev (f (inodes s ip)) \<Longrightarrow> inum (inodes s i) = inum (f (inodes s ip)) \<Longrightarrow> False"
  shows "icache_inv (upd_inode ip f s)"
  unfolding icache_inv_def
proof (intro conjI allI impI)
  fix i assume "i < NINODE"
  then show "0 \<le> iref (inodes (upd_inode ip f s) i)" using inv ref by (simp add: icache_inv_def)
next
  fix i j assume a: "i < NINODE" "j < NINODE" "0 < iref (inodes (upd_inode ip f s) i)"
    "0 < iref (inodes (upd_inode ip f s) j)" "idev (inodes (upd_inode ip f s) i) = idev (inodes (upd_inode ip f s) j)"
    "inum (inodes (upd_inode ip f s) i) = inum (inodes (upd_inode ip f s) j)"
  show "i = j"
  proof (cases "i = ip \<or> j = ip")
    case True
    then show ?thesis using a new [of i] new [of j] by (cases "i = ip"; cases "j = ip") simp_all
  next
    case False
    then show ?thesis using a inv by (simp add: icache_inv_def)
  qed
qed

text \<open>\<open>iget\<close> returns the entry of the inode it was asked for and adds one reference to that
  inode and to no other, keeping one entry per inode; it panics exactly when the inode is not
  cached and all entries are in use.\<close>

lemma iget_counts:
  assumes inv: "icache_inv s"
  shows "(case iget dv ino s of
       Ok (ip, s') \<Rightarrow> ip < NINODE \<and> idev (inodes s' ip) = dv \<and> inum (inodes s' ip) = ino \<and>
         1 \<le> iref (inodes s' ip) \<and> icache_inv s' \<and>
         (\<forall>d n. refs s' d n = refs s d n + (if d = dv \<and> n = ino then 1 else 0))
     | Panic e \<Rightarrow> e = ''iget: no inodes'' \<and> refs s dv ino = 0 \<and> (\<forall>i < NINODE. 0 < iref (inodes s i))
     | _ \<Rightarrow> False)"
proof (cases "iget_scan (inodes s) dv ino [0..<NINODE] None")
  case (Pair r e)
  show ?thesis
  proof (cases r)
    case (Some ip)
    have i: "ip < NINODE" "0 < iref (inodes s ip)" "idev (inodes s ip) = dv" "inum (inodes s ip) = ino"
      using iget_scan_Some [OF Pair [unfolded Some]] by simp_all
    let ?s' = "upd_inode ip (\<lambda>x. x\<lparr>iref := iref x + 1\<rparr>) s"
    have "icache_inv ?s'"
      by (rule icache_inv_upd [OF inv]) (use i inv in \<open>auto simp: icache_inv_def\<close>)
    moreover have "iget dv ino s = Ok (ip, ?s')" by (simp add: iget_def Pair Some)
    ultimately show ?thesis using i refs_upd [of ip "\<lambda>x. x\<lparr>iref := iref x + 1\<rparr>" s dv ino] by auto
  next
    case None
    note N = iget_scan_None [OF Pair [unfolded None]]
    have z: "\<not> (idev (inodes s i) = dv \<and> inum (inodes s i) = ino) \<or> iref (inodes s i) = 0" if "i < NINODE" for i
    proof -
      have "i \<in> set [0..<NINODE]" using that by simp
      then have "\<not> (0 < iref (inodes s i) \<and> idev (inodes s i) = dv \<and> inum (inodes s i) = ino)" using N by blast
      moreover have "0 \<le> iref (inodes s i)" using inv that by (simp add: icache_inv_def)
      ultimately show ?thesis by auto
    qed
    then have r0: "refs s dv ino = 0" unfolding refs_def by (intro sum.neutral) auto
    show ?thesis
    proof (cases "find (\<lambda>i. iref (inodes s i) = 0) [0..<NINODE]")
      case (Some ip)
      let ?f = "\<lambda>x. x\<lparr>idev := dv, inum := ino, iref := 1, ivalid := False\<rparr>"
      have ip: "ip < NINODE" "iref (inodes s ip) = 0" using find_someD [OF Some] by auto
      have "icache_inv (upd_inode ip ?f s)"
        by (rule icache_inv_upd [OF inv]) (simp, drule z, simp)
      moreover have "iget dv ino s = Ok (ip, upd_inode ip ?f s)" using N Some by (simp add: iget_def Pair None)
      ultimately show ?thesis using ip refs_upd [of ip ?f s dv ino] by auto
    next
      case N2: None
      then have "\<forall>i < NINODE. iref (inodes s i) \<noteq> 0" by (auto simp: find_none_iff)
      then have "\<forall>i < NINODE. 0 < iref (inodes s i)" using inv by (simp add: icache_inv_def less_le)
      moreover have "iget dv ino s = Panic ''iget: no inodes''" using N N2 by (simp add: iget_def Pair None)
      ultimately show ?thesis using r0 by simp
    qed
  qed
qed

text \<open>Which operations leave the inode cache, or the identity and reference counts in it, alone.\<close>

lemma bframe_inodes: "bframe s s' \<Longrightarrow> inodes s' = inodes s"
  by (auto simp: bframe_def)

lemma bread_inodes: "bread dv b s = Ok (i, s') \<Longrightarrow> inodes s' = inodes s"
  by (rule bframe_inodes [OF bread_frame])

lemma brelse_inodes: "brelse i s = Ok s' \<Longrightarrow> inodes s' = inodes s"
  by (rule bframe_inodes [OF brelse_frame])

lemma log_modify_inodes: "log_modify i d s = Ok s' \<Longrightarrow> inodes s' = inodes s"
  using tx_frame_fs [OF log_modify_frame] by blast

lemmas block_inodes = bread_inodes brelse_inodes log_modify_inodes

lemma readsb_inodes: "readsb dv s = Ok (x, s') \<Longrightarrow> inodes s' = inodes s"
  by (auto simp: readsb_def Let_def bindE_eq_Ok dest!: block_inodes)

lemma bfree_inodes: "bfree dv b s = Ok s' \<Longrightarrow> inodes s' = inodes s"
  by (auto simp: bfree_def Let_def bindE_eq_Ok dest!: block_inodes readsb_inodes split: if_splits)

lemma iupdate_inodes: "iupdate ip s = Ok s' \<Longrightarrow> inodes s' = inodes s"
  by (auto simp: iupdate_def Let_def bindE_eq_Ok dest!: block_inodes)

definition keys :: "'a fs_state_scheme \<Rightarrow> nat \<Rightarrow> nat \<times> nat \<times> int" where
  "keys s i = (idev (inodes s i), inum (inodes s i), iref (inodes s i))"

lemma keys_cong: "inodes s' = inodes s \<Longrightarrow> keys s' = keys s"
  by (simp add: keys_def fun_eq_iff)

lemma keys_upd: "(\<And>x. idev (f x) = idev x \<and> inum (f x) = inum x \<and> iref (f x) = iref x) \<Longrightarrow> keys (upd_inode ip f s) = keys s"
  by (simp add: keys_def fun_eq_iff)

lemma forE_keys:
  assumes "\<And>x s s'. f x s = Ok s' \<Longrightarrow> keys s' = keys s" and "forE f xs s = Ok s'"
  shows "keys s' = keys s"
  using assms(2)
proof (induction xs arbitrary: s)
  case (Cons x xs)
  then obtain s1 where "f x s = Ok s1" "forE f xs s1 = Ok s'" by (auto simp: bindE_eq_Ok)
  with Cons.IH [of s1] assms(1) [of x s s1] show ?case by simp
qed simp

lemma itrunc_direct_keys: "itrunc_direct ip i s = Ok s' \<Longrightarrow> keys s' = keys s"
  by (auto simp: itrunc_direct_def bindE_eq_Ok keys_upd split: if_splits
      dest!: bfree_inodes intro: keys_cong)

lemma itrunc_indirect_keys: "itrunc_indirect ip bp j s = Ok s' \<Longrightarrow> keys s' = keys s"
  by (auto simp: itrunc_indirect_def Let_def split: if_splits dest!: bfree_inodes intro: keys_cong)

lemma itrunc_indirects_keys: "forE (itrunc_indirect ip bp) js s = Ok s' \<Longrightarrow> keys s' = keys s"
  by (rule forE_keys [OF itrunc_indirect_keys])

lemma itrunc_keys: "itrunc ip s = Ok s' \<Longrightarrow> keys s' = keys s"
proof -
  assume "itrunc ip s = Ok s'"
  then obtain s1 s2 where 1: "forE (itrunc_direct ip) [0..<NDIRECT] s = Ok s1"
    and 2: "(if iaddrs (inodes s1 ip) NDIRECT \<noteq> 0 then
              bindE (bread (idev (inodes s1 ip)) (iaddrs (inodes s1 ip) NDIRECT) s1) (\<lambda>(bp, s).
              bindE (forE (itrunc_indirect ip bp) [0..<NINDIRECT] s) (\<lambda>s.
              bindE (brelse bp s) (\<lambda>s.
              bindE (bfree (idev (inodes s ip)) (iaddrs (inodes s ip) NDIRECT) s) (\<lambda>s.
              Ok (upd_inode ip (\<lambda>x. x\<lparr>iaddrs := (iaddrs x)(NDIRECT := 0)\<rparr>) s)))))
            else Ok s1) = Ok s2"
    and 3: "iupdate ip (upd_inode ip (\<lambda>x. x\<lparr>isize := 0\<rparr>) s2) = Ok s'"
    unfolding itrunc_def by (elim bindE_OkE)
  have k1: "keys s1 = keys s" by (rule forE_keys [OF itrunc_direct_keys 1])
  have "keys s2 = keys s1"
    using 2 by (auto simp: bindE_eq_Ok keys_upd split: if_splits
        dest!: bfree_inodes [THEN keys_cong] block_inodes(1,2) [THEN keys_cong] itrunc_indirects_keys)
  moreover have "keys s' = keys s2"
    using keys_cong [OF iupdate_inodes [OF 3]] by (simp add: keys_upd)
  ultimately show ?thesis using k1 by simp
qed

lemma refs_keys: "keys s' = keys s \<Longrightarrow> refs s' = refs s \<and> icache_inv s' = icache_inv s"
proof -
  assume k: "keys s' = keys s"
  have e: "idev (inodes s' i) = idev (inodes s i)" "inum (inodes s' i) = inum (inodes s i)"
    "iref (inodes s' i) = iref (inodes s i)" for i using fun_cong [OF k, of i] by (simp_all add: keys_def)
  have "refs s' = refs s" by (intro ext) (simp only: refs_def e)
  then show ?thesis by (simp only: icache_inv_def e)
qed

text \<open>C38: \<open>iput\<close>, whether or not it frees the inode on disk, gives back exactly one reference to
  the inode, to no other, and keeps one entry per inode.\<close>

theorem iput_counts:
  assumes inv: "icache_inv s" and ip: "ip < NINODE" "1 \<le> iref (inodes s ip)" and r: "iput ip s = Ok s'"
  shows "icache_inv s' \<and> (\<forall>d n. refs s' d n = refs s d n -
     (if d = idev (inodes s ip) \<and> n = inum (inodes s ip) then 1 else 0))"
proof -
  from r obtain lk s1 where
    1: "acquiresleep (curpid s) (ilk (inodes s ip)) = Ok lk" and
    2: "(let s = upd_inode ip (\<lambda>x. x\<lparr>ilk := lk\<rparr>) s in
      if ivalid (inodes s ip) \<and> inlink (inodes s ip) = 0 \<and> iref (inodes s ip) = 1 then
              bindE (itrunc ip s) (\<lambda>s.
              bindE (iupdate ip (upd_inode ip (\<lambda>x. x\<lparr>itype := 0\<rparr>) s)) (\<lambda>s.
              Ok (upd_inode ip (\<lambda>x. x\<lparr>ivalid := False\<rparr>) s)))
            else Ok s) = Ok s1" and
    3: "s' = upd_inode ip (\<lambda>x. x\<lparr>iref := iref x - 1\<rparr>) (upd_inode ip (\<lambda>x. x\<lparr>ilk := releasesleep (ilk x)\<rparr>) s1)"
    unfolding iput_def Let_def by (auto simp: bindE_eq_Ok)
  have "keys s1 = keys s"
    using 2 by (auto simp: Let_def bindE_eq_Ok keys_upd split: if_splits
        dest!: itrunc_keys iupdate_inodes [THEN keys_cong])
  define T where "T = upd_inode ip (\<lambda>x. x\<lparr>ilk := releasesleep (ilk x)\<rparr>) s1"
  let ?f = "\<lambda>x. x\<lparr>iref := iref x - 1\<rparr>"
  have k: "keys T = keys s" using \<open>keys s1 = keys s\<close> by (simp add: T_def keys_upd)
  have t: "idev (inodes T ip) = idev (inodes s ip)" "inum (inodes T ip) = inum (inodes s ip)"
    "iref (inodes T ip) = iref (inodes s ip)" using fun_cong [OF k, of ip] by (simp_all add: keys_def)
  have ti: "icache_inv T" "refs T = refs s" using refs_keys [OF k] inv by simp_all
  have "icache_inv (upd_inode ip ?f T)"
  proof (rule icache_inv_upd [OF ti(1)])
    show "0 \<le> iref (?f (inodes T ip))" using t ip(2) by simp
    fix i assume "i < NINODE" "i \<noteq> ip" "0 < iref (inodes T i)" "idev (inodes T i) = idev (?f (inodes T ip))"
      "inum (inodes T i) = inum (?f (inodes T ip))"
    moreover have "0 < iref (inodes T ip)" using t ip(2) by simp
    ultimately show False using ti(1) ip(1) unfolding icache_inv_def by simp
  qed
  moreover have "refs (upd_inode ip ?f T) d n = refs s d n -
     (if d = idev (inodes s ip) \<and> n = inum (inodes s ip) then 1 else 0)" for d n
    using refs_upd [of ip ?f T "idev (inodes s ip)" "inum (inodes s ip)" d n] ip(1) t ti(2) by auto
  ultimately show ?thesis unfolding 3 T_def [symmetric] by simp
qed

section \<open>A small file system\<close>

text \<open>
  A disk of 100 blocks laid out as \<^verbatim>\<open>mkfs.c\<close> does (log at 2, inodes at 32, bitmap at 58, data from
  59), booted, with one operation begun.  Cache entry 0 is the root directory's inode; block 99 holds an
  entry for the name "." in its second slot.
\<close>

definition small_sb :: superblock where
  "small_sb = \<lparr>sb_size = 100, sb_nblocks = 41, sb_ninodes = 200, sb_nlog = 30, sb_logstart = 2,
     sb_inodestart = 32, sb_bmapstart = 58\<rparr>"

definition small_disk :: "nat \<Rightarrow> mem" where
  "small_disk b =
     (if b = 1 then put32 24 58 (put32 20 32 (put32 16 2 (put32 12 30 (put32 8 200 (put32 4 41 (put32 0 100 (\<lambda>_. 0)))))))
      else if b = 32 then put16 70 1 (put16 64 T_DIR (\<lambda>_. 0))
      else if b = 58 then (\<lambda>i. if i < 7 then 0xFF else if i = 7 then 7 else 0)
      else if b = 99 then (\<lambda>_. 0)(16 := 1, 18 := 0x2E)
      else (\<lambda>_. 0))"

definition root_inode :: inode where
  "root_inode = \<lparr>idev = 1, inum = 1, iref = 1, ilk = initsleeplock, ivalid = True, itype = T_DIR, imajor = 0,
     iminor = 0, inlink = 1, isize = 0, iaddrs = (\<lambda>_. 0)\<rparr>"

definition free_inode :: inode where
  "free_inode = \<lparr>idev = 0, inum = 0, iref = 0, ilk = initsleeplock, ivalid = False, itype = 0, imajor = 0,
     iminor = 0, inlink = 0, isize = 0, iaddrs = (\<lambda>_. 0)\<rparr>"

definition small_fs :: fs_state where
  "small_fs = boot_cache \<lparr>kmem = (\<lambda>_. 0), freelist = 0, use_lock = True, kend = 0, bufs = (\<lambda>_. zero_buf),
     bnext = (\<lambda>_. 0), bprev = (\<lambda>_. 0), disk = small_disk, disksize = 100, diskwrites = [], curpid = 1,
     lstart = 2, lsize = 30, outstanding = 1, committing = False, ldev = 1, lh_n = 0,
     lh_block = (\<lambda>_. 0), sb = small_sb, inodes = (\<lambda>i. if i = 0 then root_inode else free_inode)\<rparr>"

lemma bframe_fs: "bframe s s' \<Longrightarrow> sb s' = sb s \<and> inodes s' = inodes s \<and> curpid s' = curpid s"
  by (auto simp: bframe_def)

lemma small_fs_sel:
  "sb small_fs = small_sb" "inodes small_fs = (\<lambda>i. if i = 0 then root_inode else free_inode)"
  "disk small_fs = small_disk" "view small_fs = small_disk" "disksize small_fs = 100" "lstart small_fs = 2"
  "lsize small_fs = 30" "curpid small_fs = 1" "outstanding small_fs = 1"
  unfolding small_fs_def by (simp_all add: boot_cache_ok bframe_fs [OF boot_cache_frame])

lemma small_sb_decode: "decode_sb (small_disk 1) = small_sb"
  by (simp add: decode_sb_def small_disk_def small_sb_def get32_put32_other)

lemma small_tx: "tx_ok small_fs 0 {}"
proof -
  have "head_n (\<lambda>_. 0) = 0" by (simp add: head_n_def get32_def s32_def)
  then show ?thesis
    unfolding small_fs_def tx_ok_def log_open_def
    by (simp add: boot_cache_ok small_disk_def)
qed

lemma small_loggable: "loggable small_fs b \<longleftrightarrow> b < 2 \<or> 32 \<le> b \<and> b < 100"
  by (auto simp: loggable_def data_block_def log_area_def small_fs_sel)

lemma small_used: "b < 100 \<Longrightarrow> used small_disk small_sb b \<longleftrightarrow> b < 59"
proof -
  assume b: "b < 100"
  have B: "BBLOCK b small_sb = 58" "b mod BPB = b" using b by (simp_all add: BBLOCK_def small_sb_def)
  have ff: "bit (0xFF :: byte) n" if "n < 8" for n
  proof -
    have e: "(0xFF :: byte) = mask 8" by (simp add: mask_eq_exp_minus_1)
    show ?thesis unfolding e using that by (simp add: bit_mask_iff)
  qed
  have seven: "bit (7 :: byte) n \<longleftrightarrow> n < 3" for n
  proof -
    have e: "(7 :: byte) = mask 3" by (simp add: mask_eq_exp_minus_1)
    show ?thesis unfolding e by (auto simp: bit_mask_iff)
  qed
  consider "b div 8 < 7" | "b div 8 = 7" | "7 < b div 8" by linarith
  then show ?thesis
  proof cases
    case 1
    then have "b < 56" by (simp add: div_less_iff_less_mult)
    then show ?thesis using 1 ff by (simp add: used_def B small_disk_def)
  next
    case 2
    then have e: "b < 59 \<longleftrightarrow> b mod 8 < 3" using div_mult_mod_eq [of b 8] by linarith
    show ?thesis using 2 seven [of "b mod 8"] unfolding e by (simp add: used_def B small_disk_def)
  next
    case 3
    then have "59 \<le> b" using div_le_mono [of b 58 8] by (cases "59 \<le> b") auto
    then show ?thesis using 3 by (simp add: used_def B small_disk_def)
  qed
qed

lemma small_can_alloc: "can_alloc small_fs 0 {}"
proof -
  have "BBLOCK b small_sb = 58" if "b < 100" for b using that by (simp add: BBLOCK_def small_sb_def)
  then have "bitmap_ok small_fs"
    by (auto simp: bitmap_ok_def small_loggable small_fs_sel small_used small_sb_def)
      (use small_used [unfolded small_sb_def] in force)+
  with small_tx show ?thesis by (simp add: can_alloc_def)
qed

section \<open>Properties\<close>

text \<open>Freeing a block clears its bit and no other, and freeing it again panics.\<close>

lemma bfree_twice:
  assumes ok: "tx_ok s k {}" and sk: "sb_known s {}" and k: "k \<le> 28" and b: "b < sb_size (sb s)" "b \<noteq> 1" "used (view s) (sb s) b"
    and lg: "loggable s (BBLOCK b (sb s))"
  shows "\<exists>s'. bfree 1 b s = Ok s' \<and> (\<forall>c < sb_size (sb s). used (view s') (sb s) c \<longleftrightarrow> c \<noteq> b \<and> used (view s) (sb s) c) \<and>
     bfree 1 b s' = Panic ''freeing free block''"
proof -
  from bfree_ok [OF ok sk _ _ lg _ b(3)] k obtain s' k' where
    1: "bfree 1 b s = Ok s'" "k' \<le> Suc k" "tx_ok s' k' {}" "view s' = mark False (sb s) b (view s)" "tx_frame s s'" by auto
  have f: "sb s' = sb s" "disksize s' = disksize s" using tx_frame_fs [OF 1(5)] tx_frame_sel(3) [OF 1(5)] by auto
  have u: "used (view s') (sb s) c \<longleftrightarrow> c \<noteq> b \<and> used (view s) (sb s) c" for c
    using used_mark [of False "sb s" b "view s" c] by (auto simp: 1(4))
  have "BBLOCK b (sb s) \<noteq> 1" using sk b(1) by (simp add: sb_known_def)
  then have "view s' 1 = view s 1" by (simp add: 1(4) mark_other)
  then have sk': "sb_known s' {}" using sk u [of 1] b(2) by (simp add: sb_known_def f)
  have "loggable s' (BBLOCK b (sb s'))" using lg loggable_frame [OF 1(5)] f by simp
  from bfree_free [OF 1(3) sk' _ this] 1(2) k u [of b] f have "bfree 1 b s' = Panic ''freeing free block''" by simp
  with 1(1) u show ?thesis by blast
qed

text \<open>C36: \<open>balloc\<close> returns the first block that the bitmap marks free, marks it, zeroes it and
  changes nothing else; it panics exactly when no block is free.  Freeing the block afterwards
  restores the whole bitmap, and freeing it a second time panics.\<close>

theorem balloc_bfree:
  assumes ca: "can_alloc s k {}" and sbk: "sb_known s {}" and k: "k \<le> 26"
  shows "case first_free s of
     None \<Rightarrow> balloc 1 s = Panic ''balloc: out of blocks''
   | Some b \<Rightarrow> \<exists>s1 s2. balloc 1 s = Ok (b, s1) \<and> view s1 = alloc_view (sb s) b (view s) \<and>
       bfree 1 b s1 = Ok s2 \<and> (\<forall>c < sb_size (sb s). used (view s2) (sb s) c = used (view s) (sb s) c) \<and>
       bfree 1 b s2 = Panic ''freeing free block''"
proof (cases "first_free s")
  case None
  with balloc_full [OF ca] show ?thesis by simp
next
  case (Some b)
  let ?V = "view s" and ?bb = "BBLOCK b (sb s)"
  have b: "\<not> used ?V (sb s) b" "b < sb_size (sb s)"
    using find_someD [OF Some [unfolded first_free_def]] by auto
  have dbb: "loggable s ?bb" and nb: "\<And>c. c < sb_size (sb s) \<Longrightarrow> b \<noteq> BBLOCK c (sb s)"
    using ca b by (auto simp: can_alloc_def bitmap_ok_def)
  from balloc_ok [OF ca Some] obtain s1 k1 where
    1: "balloc 1 s = Ok (b, s1)" "k1 \<le> k + 2" "tx_ok s1 k1 {}" "tx_frame s s1" "view s1 = alloc_view (sb s) b ?V"
    by blast
  have b1: "b \<noteq> 1" "?bb \<noteq> 1" using b sbk by (auto simp: sb_known_def)
  have f: "sb s1 = sb s" "disksize s1 = disksize s" using tx_frame_fs [OF 1(4)] tx_frame_sel(3) [OF 1(4)] by auto
  have u: "used (view s1) (sb s) c \<longleftrightarrow> c = b \<or> used ?V (sb s) c" if "BBLOCK c (sb s) \<noteq> b" for c
    using used_mark [of True "sb s" b ?V c] that by (simp add: 1(5) alloc_view_def used_def)
  have "view s1 1 = view s 1" using b1 by (simp add: 1(5) alloc_view_def mark_other)
  moreover have "BBLOCK 1 (sb s) \<noteq> b" using nb [of 0] b(2) by (auto simp: BBLOCK_def)
  ultimately have sk: "sb_known s1 {}" using sbk f u [of 1] by (simp add: sb_known_def)
  have "loggable s1 (BBLOCK b (sb s1))" using dbb loggable_frame [OF 1(4)] f by simp
  moreover have "used (view s1) (sb s1) b" using u [of b] nb [OF b(2)] f by auto
  ultimately obtain s2 where 2: "bfree 1 b s1 = Ok s2" "bfree 1 b s2 = Panic ''freeing free block''"
    "\<forall>c < sb_size (sb s). used (view s2) (sb s) c \<longleftrightarrow> c \<noteq> b \<and> used (view s1) (sb s) c"
    using bfree_twice [OF 1(3) sk, of b] 1(2) k b(2) b1(1) f by auto
  have "used (view s2) (sb s) c = used ?V (sb s) c" if "c < sb_size (sb s)" for c
    using 2(3) u [of c] nb [OF that] that b(1) by auto
  with 1 2 Some show ?thesis by auto
qed

lemma small_sb_known: "sb_known small_fs {}"
proof -
  have "BBLOCK c small_sb \<noteq> 1" for c by (simp add: BBLOCK_def small_sb_def)
  then show ?thesis
    using small_used [of 1] small_sb_decode by (simp add: sb_known_def small_fs_sel)
qed

lemma small_first_free: "first_free small_fs = Some 59"
proof -
  have "[0..<100] = [0..<59] @ 59 # [60..<100]" by (simp add: upt_rec)
  moreover have "find P (xs @ y # ys) = Some y" if "\<forall>x \<in> set xs. \<not> P x" "P y" for P xs and y :: nat and ys
    using that by (induction xs) auto
  moreover have "sb_size small_sb = 100" by (simp add: small_sb_def)
  ultimately show ?thesis
    using small_used by (simp add: first_free_def small_fs_sel)
qed

theorem balloc_bfree_witness:
  "\<exists>s1 s2. balloc 1 small_fs = Ok (59, s1) \<and> view s1 = alloc_view small_sb 59 small_disk \<and>
     bfree 1 59 s1 = Ok s2 \<and> (\<forall>c < 100. used (view s2) small_sb c = (c < 59)) \<and>
     bfree 1 59 s2 = Panic ''freeing free block''"
proof -
  have sz: "sb_size small_sb = 100" by (simp add: small_sb_def)
  from balloc_bfree [OF small_can_alloc small_sb_known] obtain s1 s2 where
    "balloc 1 small_fs = Ok (59, s1)" "view s1 = alloc_view small_sb 59 small_disk"
    "bfree 1 59 s1 = Ok s2" "\<forall>c < 100. used (view s2) small_sb c = used small_disk small_sb c"
    "bfree 1 59 s2 = Panic ''freeing free block''"
    by (auto simp: small_first_free small_fs_sel sz)
  with small_used show ?thesis by (intro exI [of _ s1] exI [of _ s2]) simp
qed

theorem iupdate_ilock_witness:
  "\<exists>s' s''. iupdate 0 small_fs = Ok s' \<and>
     ilock (Some 0) (upd_inode 0 (\<lambda>_. free_inode\<lparr>idev := 1, inum := 1, iref := 1\<rparr>) s') = Ok s'' \<and>
     same_content (inodes s'' 0) root_inode"
proof -
  have "loggable small_fs (IBLOCK 1 small_sb)" by (simp add: small_loggable IBLOCK_def small_sb_def)
  with iupdate_ilock [OF small_tx, of 0 "free_inode\<lparr>idev := 1, inum := 1, iref := 1\<rparr>"] show ?thesis
    by (auto simp: small_fs_sel root_inode_def free_inode_def initsleeplock_def)
qed

lemma small_icache: "icache_inv small_fs"
  by (auto simp: icache_inv_def small_fs_sel root_inode_def free_inode_def)

theorem iput_counts_witness:
  "\<exists>s'. iput 0 small_fs = Ok s' \<and> icache_inv s' \<and> refs s' 1 1 = refs small_fs 1 1 - 1"
proof -
  have "\<exists>s'. iput 0 small_fs = Ok s'"
    by (simp add: iput_def small_fs_sel acquiresleep_def root_inode_def initsleeplock_def Let_def)
  then obtain s' where s': "iput 0 small_fs = Ok s'" by blast
  from iput_counts [OF small_icache _ _ s'] s' show ?thesis
    by (simp add: small_fs_sel root_inode_def)
qed

end
