(* ===== verification/Digits.thy ===== *)
theory Digits
  imports Prelude
begin

text \<open>
  Number printing, as all the repository's \<open>printf\<close> variants do it: produce the digits of an
  unsigned number least significant first in a small buffer, then emit them in reverse.  The
  lemmas say that the emitted digits denote the number and how long the buffer must be.
\<close>

text \<open>\<open>digits[d]\<close> of \<^verbatim>\<open>console.c\<close> (lower case) and of \<^verbatim>\<open>printf.c\<close> (upper case).\<close>

definition digit_lower :: "nat \<Rightarrow> byte" where
  "digit_lower d = of_nat (if d < 10 then 48 + d else 87 + d)"

definition digit_upper :: "nat \<Rightarrow> byte" where
  "digit_upper d = of_nat (if d < 10 then 48 + d else 55 + d)"

text \<open>The \<open>do ... while\<close> loop: digits of \<open>x\<close>, least significant first.  Bases are 8, 10 or 16.\<close>

function rev_digits :: "nat \<Rightarrow> nat \<Rightarrow> nat list" where
  "rev_digits base x =
     x mod base # (if x div base = 0 \<or> base < 2 then [] else rev_digits base (x div base))"
  by pat_completeness auto
termination
proof (relation "measure snd")
  fix base x :: nat
  assume "\<not> (x div base = 0 \<or> base < 2)"
  then have "0 < x" "1 < base" by (auto intro: Nat.gr0I)
  then show "((base, x div base), base, x) \<in> measure snd" by simp
qed simp

declare rev_digits.simps [simp del]

text \<open>The number a list of digits denotes, most significant digit first.\<close>

definition horner :: "nat \<Rightarrow> nat list \<Rightarrow> nat" where
  "horner base ds = foldl (\<lambda>v d. v * base + d) 0 ds"

lemma horner_snoc [simp]: "horner base (ds @ [d]) = horner base ds * base + d"
  by (simp add: horner_def)

lemma horner_Nil [simp]: "horner base [] = 0"
  by (simp add: horner_def)

lemma rev_digits_value: "2 \<le> base \<Longrightarrow> horner base (rev (rev_digits base x)) = x"
proof (induction base x rule: rev_digits.induct)
  case (1 base x)
  then show ?case
    by (subst rev_digits.simps) (auto simp: div_eq_0_iff)
qed

lemma rev_digits_range: "2 \<le> base \<Longrightarrow> d \<in> set (rev_digits base x) \<Longrightarrow> d < base"
proof (induction base x rule: rev_digits.induct)
  case (1 base x)
  from "1.prems"(2) have "d = x mod base \<or> (x div base \<noteq> 0 \<and> d \<in> set (rev_digits base (x div base)))"
    by (subst (asm) rev_digits.simps) (auto split: if_splits)
  with "1.IH" "1.prems"(1) show ?case by auto
qed

lemma rev_digits_length:
  "2 \<le> base \<Longrightarrow> 0 < n \<Longrightarrow> x < base ^ n \<Longrightarrow> length (rev_digits base x) \<le> n"
proof (induction base x arbitrary: n rule: rev_digits.induct)
  case (1 base x)
  show ?case
  proof (cases "x div base = 0")
    case True
    then show ?thesis using "1.prems" by (subst rev_digits.simps) simp
  next
    case False
    then have "base \<le> x" by (meson div_less not_less)
    then have n: "n \<noteq> 1" using "1.prems"(3) by auto
    then obtain m where m: "n = Suc m" "0 < m" using "1.prems"(2) by (cases n) auto
    have "x div base < base ^ m" using "1.prems" m by (simp add: div_less_iff_less_mult mult.commute)
    then have "length (rev_digits base (x div base)) \<le> m" using "1.IH" False "1.prems"(1) m by simp
    then show ?thesis using m False "1.prems"(1) by (subst rev_digits.simps) simp
  qed
qed

lemma rev_digits_no_leading_zero:
  "2 \<le> base \<Longrightarrow> rev_digits base x \<noteq> [] \<and> (last (rev_digits base x) = 0 \<longrightarrow> x = 0)"
proof (induction base x rule: rev_digits.induct)
  case (1 base x)
  show ?case
  proof (cases "x div base = 0")
    case True
    then have "rev_digits base x = [x mod base]" by (subst rev_digits.simps) simp
    moreover have "x mod base = x" using True "1.prems" by (simp add: div_eq_0_iff)
    ultimately show ?thesis by simp
  next
    case False
    then have "rev_digits base x = x mod base # rev_digits base (x div base)"
      using "1.prems" by (subst rev_digits.simps) simp
    moreover have "x \<noteq> 0" using False by (metis div_0)
    ultimately show ?thesis using "1.IH" False "1.prems" by auto
  qed
qed

text \<open>Reading digit characters back.\<close>

definition digit_value :: "byte \<Rightarrow> nat" where
  "digit_value c = (if c < 58 then unat c - 48 else if c < 91 then unat c - 55 else unat c - 87)"

lemma unat_byte: "n < 256 \<Longrightarrow> unat (of_nat n :: byte) = n"
  by (simp add: unat_of_nat)

lemma digit_value_lower [simp]: "d < 16 \<Longrightarrow> digit_value (digit_lower d) = d"
  by (auto simp: digit_value_def digit_lower_def word_less_nat_alt unat_of_nat)

lemma digit_value_upper [simp]: "d < 16 \<Longrightarrow> digit_value (digit_upper d) = d"
  by (auto simp: digit_value_def digit_upper_def word_less_nat_alt unat_of_nat)

end
