(* ===== verification/Console.thy ===== *)
theory Console
  imports Inode Digits
begin

text \<open>
  \<^verbatim>\<open>src/alarm/console.c\<close> with \<open>uartputc\<close> of \<^verbatim>\<open>src/alarm/uart.c\<close> as its serial output: formatted
  printing, the CGA screen, and the line-editing input buffer.  \<open>cons.lock\<close> makes each function
  one step.  The input indices \<open>r\<close>, \<open>w\<close>, \<open>e\<close> are C's \<open>uint\<close> and wrap around at \<open>2^32\<close>; the buffer
  is indexed modulo \<open>INPUT_BUF\<close>.  Bytes sent to the serial port are appended to \<open>uartout\<close>.
\<close>

abbreviation INPUT_BUF :: nat where "INPUT_BUF \<equiv> 128"
abbreviation BACKSPACE :: nat where "BACKSPACE \<equiv> 0x100"

record cons_state = fs_state +
  panicked :: bool
  conlocking :: bool
  devcons :: bool                \<comment> \<open>\<open>devsw[CONSOLE]\<close> is filled in\<close>
  crt :: "nat \<Rightarrow> word16"         \<comment> \<open>CGA memory\<close>
  crtpos :: nat                  \<comment> \<open>the cursor registers 14 and 15\<close>
  uart :: bool                   \<comment> \<open>a serial port was found\<close>
  uartout :: "byte list"
  inbuf :: "nat \<Rightarrow> byte"
  in_r :: word32
  in_w :: word32
  in_e :: word32
  curkilled :: bool              \<comment> \<open>\<open>myproc()->killed\<close>\<close>

section \<open>Output\<close>

text \<open>The characters \<open>printint\<close> puts out.  Negating the least \<open>int\<close> wraps to itself, \<open>2^31\<close> unsigned.\<close>

definition printint_chars :: "int \<Rightarrow> nat \<Rightarrow> bool \<Rightarrow> byte list" where
  "printint_chars xx base sign =
     (let neg = sign \<and> xx < 0;
          x = (if neg then of_s32 (- xx) else of_s32 xx);
          buf = map digit_lower (rev_digits base x) @ (if neg then [0x2D] else [])
      in rev buf)"

text \<open>The cursor movement of \<open>cgaputc\<close>, and its scrolling when the cursor reaches line 24.\<close>

definition cga_move :: "nat \<Rightarrow> nat \<Rightarrow> (nat \<Rightarrow> word16) \<Rightarrow> nat \<times> (nat \<Rightarrow> word16)" where
  "cga_move c pos m =
     (if c = 10 then (pos + (80 - pos mod 80), m)
      else if c = BACKSPACE then (if 0 < pos then pos - 1 else pos, m)
      else (pos + 1, m(pos := (of_nat c AND 0xFF) OR 0x0700)))"

definition cga_scroll :: "nat \<Rightarrow> (nat \<Rightarrow> word16) \<Rightarrow> nat \<times> (nat \<Rightarrow> word16)" where
  "cga_scroll pos m =
     (if 24 \<le> pos div 80 then
        (pos - 80, \<lambda>i. if pos - 80 \<le> i \<and> i < 24 * 80 then 0 else if i < 23 * 80 then m (i + 80) else m i)
      else (pos, m))"

definition cgaputc :: "nat \<Rightarrow> 'a cons_state_scheme \<Rightarrow> 'a cons_state_scheme outcome" where
  "cgaputc c s =
     (let (pos, m) = cga_move c (crtpos s) (crt s) in
      if 25 * 80 < pos then Panic ''pos under/overflow''
      else let (pos, m) = cga_scroll pos m in Ok (s\<lparr>crtpos := pos, crt := m(pos := 0x0720)\<rparr>))"

definition uartputc :: "nat \<Rightarrow> 'a cons_state_scheme \<Rightarrow> 'a cons_state_scheme" where
  "uartputc c s = (if \<not> uart s then s else s\<lparr>uartout := uartout s @ [of_nat c]\<rparr>)"

definition consputc :: "nat \<Rightarrow> 'a cons_state_scheme \<Rightarrow> 'a cons_state_scheme outcome" where
  "consputc c s =
     (if panicked s then Forever
      else cgaputc c (if c = BACKSPACE then uartputc 8 (uartputc 32 (uartputc 8 s)) else uartputc c s))"

definition putchars :: "byte list \<Rightarrow> 'a cons_state_scheme \<Rightarrow> 'a cons_state_scheme outcome" where
  "putchars cs s = forE (\<lambda>c. consputc (unat c)) cs s"

definition printint :: "int \<Rightarrow> nat \<Rightarrow> bool \<Rightarrow> 'a cons_state_scheme \<Rightarrow> 'a cons_state_scheme outcome" where
  "printint xx base sign s = putchars (printint_chars xx base sign) s"

text \<open>\<open>for(; *s; s++) consputc(*s)\<close>\<close>

partial_function (option) putstr :: "mem \<Rightarrow> nat \<Rightarrow> 'a cons_state_scheme \<Rightarrow> 'a cons_state_scheme outcome option" where
  "putstr m p s =
     (if m p = 0 then Some (Ok s)
      else case consputc (unat (m p)) s of Ok s' \<Rightarrow> putstr m (p + 1) s' | e \<Rightarrow> Some e)"

definition put_arg_str :: "nat \<Rightarrow> 'a cons_state_scheme \<Rightarrow> 'a cons_state_scheme outcome" where
  "put_arg_str p s =
     (if p = 0 then putchars [0x28, 0x6e, 0x75, 0x6c, 0x6c, 0x29] s
      else case putstr (kmem s) p s of Some r \<Rightarrow> r | None \<Rightarrow> Forever)"

text \<open>
  The loop of \<open>cprintf\<close> over the format's characters; \<open>argp\<close> gives the argument words on the
  stack in order, \<open>a\<close> is how many are used.
\<close>

fun cprintf_loop :: "byte list \<Rightarrow> (nat \<Rightarrow> word32) \<Rightarrow> nat \<Rightarrow> 'a cons_state_scheme \<Rightarrow> 'a cons_state_scheme outcome" where
  "cprintf_loop [] argp a s = Ok s"
| "cprintf_loop (c # fmt) argp a s =
     (if c \<noteq> 0x25 then bindE (consputc (unat c) s) (cprintf_loop fmt argp a)
      else case fmt of [] \<Rightarrow> Ok s
      | c # fmt \<Rightarrow>
          if c = 0x64 then bindE (printint (sint (argp a)) 10 True s) (cprintf_loop fmt argp (a + 1))
          else if c = 0x78 \<or> c = 0x70 then bindE (printint (sint (argp a)) 16 False s) (cprintf_loop fmt argp (a + 1))
          else if c = 0x73 then bindE (put_arg_str (unat (argp a)) s) (cprintf_loop fmt argp (a + 1))
          else if c = 0x25 then bindE (consputc 0x25 s) (cprintf_loop fmt argp a)
          else bindE (consputc 0x25 s) (\<lambda>s. bindE (consputc (unat c) s) (cprintf_loop fmt argp a)))"

definition cprintf :: "byte list option \<Rightarrow> (nat \<Rightarrow> word32) \<Rightarrow> 'a cons_state_scheme \<Rightarrow> 'a cons_state_scheme outcome" where
  "cprintf fmt argp s =
     (case fmt of None \<Rightarrow> Panic ''null fmt'' | Some f \<Rightarrow> cprintf_loop f argp 0 s)"

section \<open>Input\<close>

definition in_at :: "'a cons_state_scheme \<Rightarrow> word32 \<Rightarrow> byte" where
  "in_at s i = inbuf s (unat i mod INPUT_BUF)"

partial_function (option) kill_line :: "'a cons_state_scheme \<Rightarrow> 'a cons_state_scheme outcome option" where
  "kill_line s =
     (if in_e s \<noteq> in_w s \<and> in_at s (in_e s - 1) \<noteq> 10 then
        case consputc BACKSPACE (s\<lparr>in_e := in_e s - 1\<rparr>) of Ok s' \<Rightarrow> kill_line s' | e \<Rightarrow> Some e
      else Some (Ok s))"

definition cons_char :: "nat \<Rightarrow> 'a cons_state_scheme \<Rightarrow> 'a cons_state_scheme outcome" where
  "cons_char c s =
     (if c \<noteq> 0 \<and> in_e s - in_r s < of_nat INPUT_BUF then
        let c = (if c = 13 then 10 else c);
            s = s\<lparr>inbuf := (inbuf s)(unat (in_e s) mod INPUT_BUF := of_nat c), in_e := in_e s + 1\<rparr>
        in bindE (consputc c s) (\<lambda>s.
           Ok (if c = 10 \<or> c = 4 \<or> in_e s = in_r s + of_nat INPUT_BUF then s\<lparr>in_w := in_e s\<rparr> else s))
      else Ok s)"

text \<open>
  One character from \<open>getc\<close>.  The result says whether \<open>procdump\<close> is due once the lock is
  released.  Committing a line wakes the readers sleeping on \<open>input.r\<close>.
\<close>

definition cons_step :: "nat \<Rightarrow> bool \<times> 'a cons_state_scheme \<Rightarrow> (bool \<times> 'a cons_state_scheme) outcome" where
  "cons_step c = (\<lambda>(dump, s).
     if c = 16 then Ok (True, s)
     else if c = 21 then (case kill_line s of Some r \<Rightarrow> bindE r (\<lambda>s. Ok (dump, s)) | None \<Rightarrow> Forever)
     else if c = 8 \<or> c = 127 then
       (if in_e s \<noteq> in_w s then bindE (consputc BACKSPACE (s\<lparr>in_e := in_e s - 1\<rparr>)) (\<lambda>s. Ok (dump, s))
        else Ok (dump, s))
     else bindE (cons_char c s) (\<lambda>s. Ok (dump, s)))"

text \<open>\<open>cs\<close>: the characters \<open>getc\<close> delivers before it returns a negative number.\<close>

definition consoleintr :: "nat list \<Rightarrow> 'a cons_state_scheme \<Rightarrow> (bool \<times> 'a cons_state_scheme) outcome" where
  "consoleintr cs s = forE cons_step cs (False, s)"

text \<open>
  The loop of \<open>consoleread\<close> with \<open>n\<close> bytes to go; it gives the bytes still to go, or \<open>None\<close> when
  the process was killed while it would have had to wait.
\<close>

fun cread_loop :: "nat \<Rightarrow> nat \<Rightarrow> mem \<Rightarrow> nat \<Rightarrow> 'a cons_state_scheme \<Rightarrow> (nat option \<times> mem \<times> 'a cons_state_scheme) outcome" where
  "cread_loop 0 target D dst s = Ok (Some 0, D, s)"
| "cread_loop (Suc n) target D dst s =
     (if in_r s = in_w s then
        (if curkilled s then Ok (None, D, s) else Blocked ''input.r'')
      else
        let c = in_at s (in_r s); s' = s\<lparr>in_r := in_r s + 1\<rparr> in
        if c = 4 then
          Ok (Some (Suc n), D, if Suc n < target then s'\<lparr>in_r := in_r s' - 1\<rparr> else s')
        else if c = 10 then Ok (Some n, D(dst := c), s')
        else cread_loop n target (D(dst := c)) (dst + 1) s')"

definition consoleread ::
  "nat \<Rightarrow> mem \<Rightarrow> nat \<Rightarrow> int \<Rightarrow> 'a cons_state_scheme \<Rightarrow> (int \<times> mem \<times> 'a cons_state_scheme) outcome" where
  "consoleread ip D dst n s =
     bindE (iunlock (Some ip) s) (\<lambda>s.
     bindE (cread_loop (nat n) (of_s32 n) D dst s) (\<lambda>(r, D, s).
     bindE (ilock (Some ip) s) (\<lambda>s.
     Ok (case r of None \<Rightarrow> -1 | Some m \<Rightarrow> n - int m, D, s))))"

definition consolewrite ::
  "nat \<Rightarrow> mem \<Rightarrow> nat \<Rightarrow> int \<Rightarrow> 'a cons_state_scheme \<Rightarrow> (int \<times> 'a cons_state_scheme) outcome" where
  "consolewrite ip S src n s =
     bindE (iunlock (Some ip) s) (\<lambda>s.
     bindE (putchars (read_bytes S src (nat n)) s) (\<lambda>s.
     bindE (ilock (Some ip) s) (\<lambda>s. Ok (n, s))))"

definition consoleinit :: "'a cons_state_scheme \<Rightarrow> 'a cons_state_scheme" where
  "consoleinit s = s\<lparr>devcons := True, conlocking := True\<rparr>"

section \<open>The input buffer as a queue of lines\<close>

text \<open>
  \<open>queue s\<close> are the committed characters, \<open>line s\<close> the line being edited.  The specification
  works on this pair of lists: an edit character changes the line, a line end, end-of-file or a
  full buffer moves it to the queue.
\<close>

definition idx :: "word32 \<Rightarrow> nat \<Rightarrow> nat" where
  "idx r i = (unat r + i) mod INPUT_BUF"

definition chars :: "'a cons_state_scheme \<Rightarrow> nat \<Rightarrow> nat \<Rightarrow> byte list" where
  "chars s a b = map (\<lambda>i. inbuf s (idx (in_r s) i)) [a..<b]"

definition wlen :: "'a cons_state_scheme \<Rightarrow> nat" where
  "wlen s = unat (in_w s - in_r s)"

definition elen :: "'a cons_state_scheme \<Rightarrow> nat" where
  "elen s = unat (in_e s - in_r s)"

definition queue :: "'a cons_state_scheme \<Rightarrow> byte list" where
  "queue s = chars s 0 (wlen s)"

definition line :: "'a cons_state_scheme \<Rightarrow> byte list" where
  "line s = chars s (wlen s) (elen s)"

definition cons_inv :: "'a cons_state_scheme \<Rightarrow> bool" where
  "cons_inv s \<longleftrightarrow> wlen s \<le> elen s \<and> elen s \<le> INPUT_BUF"

fun ed_step :: "nat \<Rightarrow> byte list \<times> byte list \<Rightarrow> byte list \<times> byte list" where
  "ed_step c (q, l) =
     (if c = 16 then (q, l)
      else if c = 21 then (q, rev (dropWhile (\<lambda>x. x \<noteq> 10) (rev l)))
      else if c = 8 \<or> c = 127 then (q, butlast l)
      else if c \<noteq> 0 \<and> length q + length l < INPUT_BUF then
        let c = (if c = 13 then 10 else c); l = l @ [of_nat c] in
        if c = 10 \<or> c = 4 \<or> length q + length l = INPUT_BUF then (q @ l, []) else (q, l)
      else (q, l))"

lemma unat_add_mod: "unat (r + of_nat i :: word32) mod INPUT_BUF = (unat r + i) mod INPUT_BUF"
proof -
  have "unat (r + of_nat i :: word32) = (unat r + i) mod 2 ^ 32"
    by (simp add: unat_word_ariths unat_of_nat mod_add_right_eq)
  then show ?thesis by (simp add: mod_mod_cancel)
qed

lemma in_at_idx: "in_at s (in_r s + of_nat i) = inbuf s (idx (in_r s) i)"
  unfolding in_at_def idx_def unat_add_mod ..

lemma in_at_e: "in_at s (in_e s) = inbuf s (idx (in_r s) (elen s))"
  using in_at_idx [of s "elen s"] by (simp add: elen_def)

lemma idx_inj: "i < j \<Longrightarrow> j < i + INPUT_BUF \<Longrightarrow> idx r i \<noteq> idx r j"
proof
  assume a: "i < j" "j < i + INPUT_BUF" "idx r i = idx r j"
  then have "(unat r + j) mod INPUT_BUF = (unat r + i) mod INPUT_BUF" by (simp add: idx_def)
  then have "INPUT_BUF dvd (unat r + j) - (unat r + i)" by (rule mod_eq_dvd_iff_nat [THEN iffD1, rotated]) (use a in simp)
  then have "INPUT_BUF dvd j - i" by simp
  then show False using a by (auto dest: dvd_imp_le)
qed

lemma cgaputc_changes: "cgaputc c s = Ok s' \<Longrightarrow> \<exists>p f. s' = s\<lparr>crtpos := p, crt := f\<rparr>"
  by (auto simp: cgaputc_def Let_def split: if_splits prod.splits)

lemma consputc_changes:
  assumes "consputc c s = Ok s'"
  shows "\<exists>u p f. s' = s\<lparr>uartout := u, crtpos := p, crt := f\<rparr>"
proof -
  let ?s1 = "if c = BACKSPACE then uartputc 8 (uartputc 32 (uartputc 8 s)) else uartputc c s"
  have "cgaputc c ?s1 = Ok s'" using assms by (simp add: consputc_def split: if_splits)
  then obtain p f where "s' = ?s1\<lparr>crtpos := p, crt := f\<rparr>" using cgaputc_changes by blast
  moreover have "\<exists>u. ?s1 = s\<lparr>uartout := u\<rparr>"
    by (cases "uart s") (auto simp: uartputc_def intro: exI [of _ "uartout s"])
  ultimately show ?thesis by force
qed

lemma consputc_frame:
  assumes "consputc c s = Ok s'"
  shows "in_r s' = in_r s" "in_w s' = in_w s" "in_e s' = in_e s" "inbuf s' = inbuf s" "curkilled s' = curkilled s"
    "inodes s' = inodes s"
  using consputc_changes [OF assms] by auto

lemma chars_cong: "in_r s' = in_r s \<Longrightarrow> inbuf s' = inbuf s \<Longrightarrow> chars s' a b = chars s a b"
  by (simp add: chars_def)

lemma length_chars [simp]: "length (chars s a b) = b - a"
  by (simp add: chars_def)

lemma chars_append: "a \<le> b \<Longrightarrow> b \<le> c \<Longrightarrow> chars s a b @ chars s b c = chars s a c"
  using upt_add_eq_append [of a b "c - b"] by (simp add: chars_def flip: map_append)

text \<open>Moving the edit index back by one drops the last character of the line.\<close>

lemma elen_pred: "wlen s < elen s \<Longrightarrow> elen (s\<lparr>in_e := in_e s - 1\<rparr>) = elen s - 1"
proof -
  assume "wlen s < elen s"
  then have "in_e s - in_r s \<noteq> 0" by (auto simp: elen_def)
  then have "unat ((in_e s - in_r s) - 1) = unat (in_e s - in_r s) - 1" by (rule unat_minus_one)
  moreover have e: "in_e s - 1 - in_r s = (in_e s - in_r s) - 1" by simp
  moreover have "in_e (s\<lparr>in_e := in_e s - 1\<rparr>) = in_e s - 1" "in_r (s\<lparr>in_e := in_e s - 1\<rparr>) = in_r s" by simp_all
  ultimately show ?thesis unfolding elen_def by (simp only: e)
qed

lemma in_e_w: "in_e s \<noteq> in_w s \<longleftrightarrow> elen s \<noteq> wlen s"
proof -
  have "elen s = wlen s \<longleftrightarrow> in_e s - in_r s = in_w s - in_r s"
    unfolding elen_def wlen_def by (rule word_unat_eq_iff [symmetric])
  then show ?thesis by simp
qed

lemma chars_last: "a < b \<Longrightarrow> chars s a b = chars s a (b - 1) @ [inbuf s (idx (in_r s) (b - 1))]"
  by (cases b) (simp_all add: chars_def)

lemma back_one:
  assumes inv: "cons_inv s" and ne: "in_e s \<noteq> in_w s" and p: "consputc BACKSPACE (s\<lparr>in_e := in_e s - 1\<rparr>) = Ok s'"
  shows "cons_inv s'" "queue s' = queue s" "line s' = butlast (line s)" "elen s' = elen s - 1" "wlen s' = wlen s"
    "in_at s (in_e s - 1) = last (line s)" "line s \<noteq> []"
proof -
  have lt: "wlen s < elen s" using inv ne by (auto simp: cons_inv_def in_e_w)
  note F = consputc_frame [OF p]
  show w: "wlen s' = wlen s" using F by (simp add: wlen_def)
  show e: "elen s' = elen s - 1" using F elen_pred [OF lt] by (simp add: elen_def)
  show "cons_inv s'" using inv lt unfolding cons_inv_def w e by linarith
  have c: "chars s' a b = chars s a b" for a b by (rule chars_cong) (use F in simp_all)
  show "queue s' = queue s" by (simp add: queue_def w c)
  show "line s' = butlast (line s)" using chars_last [OF lt, of s] by (simp add: line_def w e c)
  show "line s \<noteq> []" using lt by (simp add: line_def chars_def)
  have "in_e s - 1 = in_r s + of_nat (elen s - 1)" using lt by (simp add: elen_def)
  then show "in_at s (in_e s - 1) = last (line s)"
    using in_at_idx [of s "elen s - 1"] chars_last [OF lt, of s] by (simp add: line_def)
qed

text \<open>The screen: the cursor stays in the first 24 lines, so no character makes \<open>cgaputc\<close> panic.\<close>

definition screen_ok :: "'a cons_state_scheme \<Rightarrow> bool" where
  "screen_ok s \<longleftrightarrow> \<not> panicked s \<and> crtpos s < 24 * 80"

lemma cga_move_bound: "pos < 24 * 80 \<Longrightarrow> cga_move c pos m = (p, m') \<Longrightarrow> p \<le> 24 * 80"
proof -
  assume pos: "pos < 24 * 80" and m: "cga_move c pos m = (p, m')"
  have "r < 80 \<Longrightarrow> q * 80 + r + (80 - r) = (q + 1) * 80" for q r :: nat by simp
  from this [of "pos mod 80" "pos div 80"]
  have "pos + (80 - pos mod 80) = (pos div 80 + 1) * 80" by (simp only: div_mult_mod_eq)
  moreover have "pos div 80 < 24" using pos by (simp add: div_less_iff_less_mult)
  ultimately have "pos + (80 - pos mod 80) \<le> 24 * 80" by simp
  with pos m show ?thesis by (auto simp: cga_move_def split: if_splits)
qed

lemma cga_scroll_bound: "p \<le> 24 * 80 \<Longrightarrow> cga_scroll p m = (p', m') \<Longrightarrow> p' < 24 * 80"
  by (auto simp: cga_scroll_def div_le_dividend less_eq_div_iff_mult_less_eq not_le div_less_iff_less_mult split: if_splits)

lemma consputc_total: "screen_ok s \<Longrightarrow> \<exists>s'. consputc c s = Ok s' \<and> screen_ok s'"
proof -
  assume s: "screen_ok s"
  let ?s1 = "if c = BACKSPACE then uartputc 8 (uartputc 32 (uartputc 8 s)) else uartputc c s"
  have s1: "crtpos ?s1 = crtpos s" "crt ?s1 = crt s" "panicked ?s1 = panicked s" by (auto simp: uartputc_def)
  obtain p m where p: "cga_move c (crtpos s) (crt s) = (p, m)" by fastforce
  obtain p' m' where p': "cga_scroll p m = (p', m')" by fastforce
  have b: "p \<le> 24 * 80" "p' < 24 * 80"
    using s cga_move_bound [OF _ p] cga_scroll_bound [OF _ p'] by (auto simp: screen_ok_def)
  have "consputc c s = Ok (?s1\<lparr>crtpos := p', crt := m'(p' := 0x0720)\<rparr>)"
    using s b unfolding consputc_def cgaputc_def s1 by (simp add: screen_ok_def p p')
  moreover have "screen_ok (?s1\<lparr>crtpos := p', crt := m'(p' := 0x0720)\<rparr>)"
    using s b s1 by (simp add: screen_ok_def)
  ultimately show ?thesis by blast
qed

lemma rev_last: "xs \<noteq> [] \<Longrightarrow> rev xs = last xs # rev (butlast xs)"
  by (induction xs rule: rev_induct) auto

lemma in_at_last:
  assumes "wlen s < elen s"
  shows "in_at s (in_e s - 1) = last (line s)" "line s \<noteq> []"
proof -
  have "in_e s - 1 = in_r s + of_nat (elen s - 1)" using assms by (simp add: elen_def)
  then show "in_at s (in_e s - 1) = last (line s)"
    using in_at_idx [of s "elen s - 1"] chars_last [OF assms, of s] by (simp add: line_def)
  show "line s \<noteq> []" using assms by (simp add: line_def chars_def)
qed

text \<open>\<open>kill_line\<close> ends, and removes the line back to the last newline in it.\<close>

lemma kill_line_refines:
  assumes "cons_inv s" "screen_ok s"
  shows "\<exists>s'. kill_line s = Some (Ok s') \<and> screen_ok s' \<and> cons_inv s' \<and> queue s' = queue s \<and>
     line s' = rev (dropWhile (\<lambda>x. x \<noteq> 10) (rev (line s)))"
  using assms
proof (induction "elen s - wlen s" arbitrary: s rule: less_induct)
  case less
  show ?case
  proof (cases "in_e s \<noteq> in_w s \<and> in_at s (in_e s - 1) \<noteq> 10")
    case False
    then have k: "kill_line s = Some (Ok s)" by (subst kill_line.simps) auto
    have "rev (dropWhile (\<lambda>x. x \<noteq> 10) (rev (line s))) = line s"
    proof (cases "line s = []")
      case ne: False
      then have lt: "wlen s < elen s" by (simp add: line_def chars_def)
      with False in_at_last [OF lt] have "last (line s) = 10" by (auto simp: in_e_w)
      then show ?thesis using rev_last [OF ne] by (metis (full_types) dropWhile.simps(2) rev_rev_ident)
    qed simp
    then show ?thesis using k less.prems by simp
  next
    case True
    let ?t = "s\<lparr>in_e := in_e s - 1\<rparr>"
    have "screen_ok ?t" using less.prems(2) by (simp add: screen_ok_def)
    then obtain s1 where 1: "consputc BACKSPACE ?t = Ok s1" "screen_ok s1" using consputc_total by blast
    note B = back_one [OF less.prems(1) conjunct1 [OF True] 1(1)]
    have "wlen s < elen s" using True less.prems(1) by (auto simp: cons_inv_def in_e_w)
    then have "elen s1 - wlen s1 < elen s - wlen s" using B(4,5) by simp
    from less.hyps [OF this B(1) 1(2)] obtain s' where IH: "kill_line s1 = Some (Ok s')" "screen_ok s'"
      "cons_inv s'" "queue s' = queue s1" "line s' = rev (dropWhile (\<lambda>x. x \<noteq> 10) (rev (line s1)))" by auto
    have "kill_line s = Some (Ok s')" using True 1(1) IH(1) by (subst kill_line.simps) simp
    moreover have "line s' = rev (dropWhile (\<lambda>x. x \<noteq> 10) (rev (line s)))"
      unfolding rev_last [OF B(7)] using IH(5) B(3,6) True by simp
    ultimately show ?thesis using IH B(2) by auto
  qed
qed

lemma unat_plus_one: "unat (x :: word32) < 2 ^ 32 - 1 \<Longrightarrow> unat (x + 1) = Suc (unat x)"
  by (simp add: unat_word_ariths)

text \<open>Appending a character while the buffer is not full.\<close>

lemma cons_char_refines:
  assumes inv: "cons_inv s" and scr: "screen_ok s"
  shows "\<exists>s'. cons_char c s = Ok s' \<and> screen_ok s' \<and> cons_inv s' \<and>
     (queue s', line s') = (if c \<noteq> 0 \<and> length (queue s) + length (line s) < INPUT_BUF then
        let c = (if c = 13 then 10 else c); l = line s @ [of_nat c] in
        if c = 10 \<or> c = 4 \<or> length (queue s) + length l = INPUT_BUF then (queue s @ l, []) else (queue s, l)
      else (queue s, line s))"
proof -
  have len: "length (queue s) = wlen s" "length (line s) = elen s - wlen s" "wlen s \<le> elen s" "elen s \<le> INPUT_BUF"
    using inv by (auto simp: queue_def line_def cons_inv_def)
  have lt: "in_e s - in_r s < of_nat INPUT_BUF \<longleftrightarrow> elen s < INPUT_BUF" by (simp add: elen_def word_less_nat_alt)
  show ?thesis
  proof (cases "c \<noteq> 0 \<and> elen s < INPUT_BUF")
    case False
    then show ?thesis using inv scr len lt by (auto simp: cons_char_def)
  next
    case True
    define d where "d = (if c = 13 then 10 else c)"
    let ?t = "s\<lparr>inbuf := (inbuf s)(unat (in_e s) mod INPUT_BUF := of_nat d), in_e := in_e s + 1\<rparr>"
    have "screen_ok ?t" using scr by (simp add: screen_ok_def)
    then obtain s1 where 1: "consputc d ?t = Ok s1" "screen_ok s1" using consputc_total by blast
    note F = consputc_frame [OF 1(1)]
    have ie: "unat (in_e s) mod INPUT_BUF = idx (in_r s) (elen s)"
      using unat_add_mod [of "in_r s" "elen s"] by (simp add: elen_def idx_def)
    have d1: "in_e s1 - in_r s1 = (in_e s - in_r s) + 1" using F(1,3) by simp
    have u1: "unat ((in_e s - in_r s) + 1) = Suc (elen s)"
      unfolding elen_def using True by (intro unat_plus_one) (simp add: elen_def)
    have e1: "elen s1 = Suc (elen s)" unfolding elen_def d1 u1 by (simp add: elen_def)
    have w1: "wlen s1 = wlen s" using F by (simp add: wlen_def)
    have nth: "inbuf s1 (idx (in_r s1) i) = inbuf s (idx (in_r s) i)" if "i < elen s" for i
      using F ie idx_inj [of i "elen s" "in_r s"] that True by simp
    have ch: "chars s1 a b = chars s a b" if "b \<le> elen s" for a b
      unfolding chars_def using that nth by (intro map_cong) auto
    have lastc: "inbuf s1 (idx (in_r s1) (elen s)) = of_nat d" using F ie by simp
    have q: "queue s1 = queue s" using len by (simp add: queue_def w1 ch)
    have l: "line s1 = line s @ [of_nat d]"
      using chars_last [of "wlen s" "Suc (elen s)" s1] lastc len by (simp add: line_def w1 e1 ch)
    let ?commit = "d = 10 \<or> d = 4 \<or> in_e s1 = in_r s1 + of_nat INPUT_BUF"
    have full: "in_e s1 = in_r s1 + of_nat INPUT_BUF \<longleftrightarrow> Suc (elen s) = INPUT_BUF"
    proof -
      have "in_e s1 = in_r s1 + of_nat INPUT_BUF \<longleftrightarrow> in_e s1 - in_r s1 = of_nat INPUT_BUF"
        by (simp add: diff_eq_eq add.commute)
      also have "\<dots> \<longleftrightarrow> elen s1 = INPUT_BUF" by (simp add: elen_def word_unat_eq_iff)
      finally show ?thesis by (simp add: e1)
    qed
    let ?s' = "if ?commit then s1\<lparr>in_w := in_e s1\<rparr> else s1"
    have r: "cons_char c s = Ok ?s'"
      using True lt 1 by (simp add: cons_char_def Let_def d_def [symmetric] split del: if_split)
    have w2: "wlen (s1\<lparr>in_w := in_e s1\<rparr>) = elen s1" "elen (s1\<lparr>in_w := in_e s1\<rparr>) = elen s1"
      by (simp_all add: wlen_def elen_def)
    have "queue (s1\<lparr>in_w := in_e s1\<rparr>) = queue s1 @ line s1"
    proof -
      have "queue (s1\<lparr>in_w := in_e s1\<rparr>) = chars s1 0 (elen s1)" by (simp add: queue_def w2 chars_def)
      also have "\<dots> = queue s1 @ line s1"
        using chars_append [of 0 "wlen s1" "elen s1" s1] len by (simp add: queue_def line_def w1 e1)
      finally show ?thesis .
    qed
    moreover have "line (s1\<lparr>in_w := in_e s1\<rparr>) = []" by (simp add: line_def w2 chars_def)
    moreover have "cons_inv ?s'" using len e1 w1 w2 True by (simp add: cons_inv_def)
    moreover have "screen_ok ?s'" using 1(2) by (simp add: screen_ok_def)
    moreover have n: "length (queue s) + length (line s) = elen s" using len by simp
    have "(queue ?s', line ?s') = (if d = 10 \<or> d = 4 \<or> Suc (elen s) = INPUT_BUF
        then (queue s @ line s @ [of_nat d], []) else (queue s, line s @ [of_nat d]))"
      using calculation(1,2) q l full by (cases ?commit) simp_all
    ultimately show ?thesis
      using r True n by (intro exI [of _ ?s']) (simp add: Let_def d_def [symmetric] split del: if_split)
  qed
qed

lemma cons_step_refines:
  assumes inv: "cons_inv s" and scr: "screen_ok s"
  shows "\<exists>s'. cons_step c (d, s) = Ok (d \<or> c = 16, s') \<and> screen_ok s' \<and> cons_inv s' \<and>
     (queue s', line s') = ed_step c (queue s, line s)"
proof -
  consider "c = 16" | "c = 21" | "c = 8 \<or> c = 127" | "c \<noteq> 16" "c \<noteq> 21" "\<not> (c = 8 \<or> c = 127)" by blast
  then show ?thesis
  proof cases
    case 1
    then show ?thesis using inv scr by (simp add: cons_step_def)
  next
    case 2
    then show ?thesis using kill_line_refines [OF inv scr] by (auto simp: cons_step_def)
  next
    case 3
    show ?thesis
    proof (cases "in_e s = in_w s")
      case True
      then have "line s = []" using inv in_e_w [of s] by (auto simp: line_def chars_def)
      with True 3 show ?thesis using inv scr by (auto simp: cons_step_def)
    next
      case False
      have "screen_ok (s\<lparr>in_e := in_e s - 1\<rparr>)" using scr by (simp add: screen_ok_def)
      then obtain s1 where 1: "consputc BACKSPACE (s\<lparr>in_e := in_e s - 1\<rparr>) = Ok s1" "screen_ok s1"
        using consputc_total by blast
      from 3 False 1 back_one [OF inv False 1(1)] show ?thesis by (auto simp: cons_step_def)
    qed
  next
    case 4
    from cons_char_refines [OF inv scr, of c] obtain s' where
      s': "cons_char c s = Ok s'" "screen_ok s'" "cons_inv s'"
      "(queue s', line s') = (if c \<noteq> 0 \<and> length (queue s) + length (line s) < INPUT_BUF then
        let c = (if c = 13 then 10 else c); l = line s @ [of_nat c] in
        if c = 10 \<or> c = 4 \<or> length (queue s) + length l = INPUT_BUF then (queue s @ l, []) else (queue s, l)
      else (queue s, line s))" by blast
    have "cons_step c (d, s) = Ok (d \<or> c = 16, s')" using 4 s'(1) by (simp add: cons_step_def)
    moreover have "(queue s', line s') = ed_step c (queue s, line s)"
      unfolding s'(4) using 4 by (simp split del: if_split)
    ultimately show ?thesis using s'(2,3) by blast
  qed
qed

text \<open>C39: the console input buffer implements line editing.  For any characters typed,
  \<open>consoleintr\<close> returns without panic, the ring indices stay consistent (also when they wrap
  around \<open>2^32\<close>), and the committed input and the line under edit are what the list specification
  \<open>ed_step\<close> says; a process listing is requested exactly if control-P was typed.\<close>

theorem consoleintr_refines:
  assumes "cons_inv s" "screen_ok s"
  shows "\<exists>s'. consoleintr cs s = Ok (16 \<in> set cs, s') \<and> screen_ok s' \<and> cons_inv s' \<and>
     (queue s', line s') = fold ed_step cs (queue s, line s)"
proof -
  have "\<exists>s'. forE cons_step cs (d, s) = Ok (d \<or> 16 \<in> set cs, s') \<and> screen_ok s' \<and> cons_inv s' \<and>
     (queue s', line s') = fold ed_step cs (queue s, line s)" for d using assms
  proof (induction cs arbitrary: d s)
    case (Cons c cs)
    from cons_step_refines [OF Cons.prems, of c d] obtain s1 where
      1: "cons_step c (d, s) = Ok (d \<or> c = 16, s1)" "screen_ok s1" "cons_inv s1"
      "(queue s1, line s1) = ed_step c (queue s, line s)" by blast
    from Cons.IH [OF 1(3,2), of "d \<or> c = 16"] 1 show ?case by (auto simp del: ed_step.simps)
  qed auto
  from this [of False] show ?thesis by (simp add: consoleintr_def)
qed

section \<open>Reading the console\<close>

text \<open>
  What a read of \<open>n\<close> more bytes takes from the committed characters: up to a newline (included) or
  a control-D, which ends the read and is kept for the next one unless nothing was read yet.
\<close>

fun take_line :: "nat \<Rightarrow> nat \<Rightarrow> byte list \<Rightarrow> (byte list \<times> byte list) option" where
  "take_line 0 target q = Some ([], q)"
| "take_line (Suc n) target [] = None"
| "take_line (Suc n) target (c # q) =
     (if c = 4 then Some ([], if Suc n < target then c # q else q)
      else if c = 10 then Some ([c], q)
      else map_option (\<lambda>(bs, r). (c # bs, r)) (take_line n target q))"

lemma idx_Suc: "idx (r + 1) i = idx r (Suc i)"
proof -
  have "unat (r + 1) mod INPUT_BUF = (unat r + 1) mod INPUT_BUF" using unat_add_mod [of r 1] by simp
  then have "(unat (r + 1) + i) mod INPUT_BUF = (unat r + 1 + i) mod INPUT_BUF" by (metis mod_add_left_eq)
  then show ?thesis by (simp add: idx_def)
qed

lemma pop_one:
  assumes inv: "cons_inv s" and ne: "in_r s \<noteq> in_w s"
  defines "s' \<equiv> s\<lparr>in_r := in_r s + 1\<rparr>"
  shows "cons_inv s'" "queue s = in_at s (in_r s) # queue s'" "line s' = line s"
proof -
  have p: "unat (x - (r + 1)) = unat (x - r) - 1" if "x \<noteq> r" for x r :: word32
  proof -
    have "unat ((x - r) - 1) = unat (x - r) - 1" using that by (intro unat_minus_one) simp
    moreover have "x - (r + 1) = (x - r) - 1" by simp
    ultimately show ?thesis by (simp only:)
  qed
  have "in_w s \<noteq> in_r s" using ne by simp
  then have "wlen s \<noteq> 0" unfolding wlen_def by (metis eq_iff_diff_eq_0 unat_eq_zero)
  then have w0: "0 < wlen s" by simp
  then have "in_e s \<noteq> in_r s" using inv by (auto simp: cons_inv_def elen_def)
  then have e: "elen s' = elen s - 1" "wlen s' = wlen s - 1"
    using p [of "in_e s" "in_r s"] p [of "in_w s" "in_r s"] ne by (simp_all add: elen_def wlen_def s'_def)
  have c: "chars s' a b = chars s (Suc a) (Suc b)" for a b
    unfolding chars_def map_Suc_upt [symmetric] s'_def by (simp add: idx_Suc)
  show "cons_inv s'" using inv e by (auto simp: cons_inv_def)
  have "chars s 0 (wlen s) = inbuf s (idx (in_r s) 0) # chars s (Suc 0) (wlen s)"
    using w0 by (simp add: chars_def upt_conv_Cons)
  moreover have "in_at s (in_r s) = inbuf s (idx (in_r s) 0)" using in_at_idx [of s 0] by simp
  ultimately show "queue s = in_at s (in_r s) # queue s'" using w0 by (simp add: queue_def c e)
  show "line s' = line s" using w0 inv by (simp add: line_def c e cons_inv_def)
qed

lemma queue_empty: "in_r s = in_w s \<longleftrightarrow> queue s = []"
proof -
  have "queue s = [] \<longleftrightarrow> wlen s = 0" by (simp add: queue_def chars_def)
  also have "\<dots> \<longleftrightarrow> in_w s - in_r s = 0" by (simp only: wlen_def unat_eq_zero)
  finally show ?thesis by auto
qed

text \<open>A console read delivers exactly the next line.  It stores the bytes that \<open>take_line\<close> takes
  from the committed input, leaves the rest of the input and the line under edit alone, and
  waits (or, for a killed process, gives up) exactly when the committed input runs out first.\<close>

lemma cread_takes_line:
  assumes "cons_inv s"
  shows "case take_line n target (queue s) of
     Some (bs, rest) \<Rightarrow> \<exists>s'. cread_loop n target D dst s = Ok (Some (n - length bs), write_bytes dst bs D, s') \<and>
       queue s' = rest \<and> line s' = line s \<and> cons_inv s' \<and> length bs \<le> n
   | None \<Rightarrow> if curkilled s then \<exists>D' s'. cread_loop n target D dst s = Ok (None, D', s')
             else cread_loop n target D dst s = Blocked ''input.r''"
  using assms
proof (induction n arbitrary: D dst s)
  case 0
  then show ?case by simp
next
  case (Suc n)
  show ?case
  proof (cases "in_r s = in_w s")
    case True
    then show ?thesis by (simp add: queue_empty)
  next
    case False
    let ?c = "in_at s (in_r s)" and ?s = "s\<lparr>in_r := in_r s + 1\<rparr>"
    note P = pop_one [OF Suc.prems False]
    note IH = Suc.IH [OF P(1), of "D(dst := ?c)" "dst + 1"]
    consider "?c = 4" | "?c = 10" | "?c \<noteq> 4" "?c \<noteq> 10" by blast
    then show ?thesis
    proof cases
      case 1
      have q: "queue s = 4 # queue ?s" using P(2) 1 by simp
      have "take_line (Suc n) target (queue s) = Some ([], if Suc n < target then queue s else queue ?s)"
        unfolding q by simp
      then show ?thesis using 1 P(1,3) False Suc.prems by (simp add: Let_def)
    next
      case 2
      then show ?thesis using P False unfolding P(2) by (simp add: Let_def)
    next
      case 3
      then have r: "cread_loop (Suc n) target D dst s = cread_loop n target (D(dst := ?c)) (dst + 1) ?s"
        using False by (simp add: Let_def)
      have q: "take_line (Suc n) target (queue s) = map_option (\<lambda>(bs, r). (?c # bs, r)) (take_line n target (queue ?s))"
        unfolding P(2) using 3 by simp
      show ?thesis using IH P(3) unfolding r q
        by (cases "take_line n target (queue ?s)") (auto simp: Suc_diff_le)
    qed
  qed
qed

section \<open>Numbers\<close>

text \<open>\<open>printint\<close> prints numbers exactly and within its 16-byte buffer.  The characters are an
  optional minus sign and digits without leading zeros that denote the number, the absolute value
  for signed printing (also of the least \<open>int\<close>) and the unsigned value otherwise.\<close>

lemma printint_exact:
  assumes "base = 10 \<or> base = 16" "- (2 ^ 31) \<le> xx" "xx < 2 ^ 31"
  shows "\<exists>sg ds. printint_chars xx base sign = sg @ map digit_lower ds \<and>
     sg = (if sign \<and> xx < 0 then [0x2D] else []) \<and> length (printint_chars xx base sign) \<le> 16 \<and>
     (\<forall>d \<in> set ds. d < base) \<and> (hd ds = 0 \<longrightarrow> ds = [0]) \<and>
     int (horner base ds) = (if sign then \<bar>xx\<bar> else xx mod 2 ^ 32)"
proof -
  define x where "x = (if sign \<and> xx < 0 then of_s32 (- xx) else of_s32 xx)"
  have b2: "2 \<le> base" using assms(1) by auto
  have x: "int x = (if sign then \<bar>xx\<bar> else xx mod 2 ^ 32)" "x < 2 ^ 32"
    using assms(2,3) by (auto simp: x_def of_s32_def)
  let ?ds = "rev (rev_digits base x)"
  have c: "printint_chars xx base sign = (if sign \<and> xx < 0 then [0x2D] else []) @ map digit_lower ?ds"
    by (simp add: printint_chars_def Let_def x_def rev_map)
  have "(2::nat) ^ 32 \<le> base ^ 10" using assms(1) by auto
  with x(2) have "length (rev_digits base x) \<le> 10" by (intro rev_digits_length [OF b2]) auto
  then have len: "length (printint_chars xx base sign) \<le> 16" by (simp add: c)
  note L = rev_digits_no_leading_zero [OF b2, of x]
  have "hd ?ds = 0 \<longrightarrow> ?ds = [0]"
  proof
    assume "hd ?ds = 0"
    then have "x = 0" using L by (simp add: hd_rev)
    then show "?ds = [0]" by (subst rev_digits.simps) simp
  qed
  moreover have "\<forall>d \<in> set ?ds. d < base" using rev_digits_range [OF b2] by simp
  moreover have "int (horner base ?ds) = (if sign then \<bar>xx\<bar> else xx mod 2 ^ 32)"
    using rev_digits_value [OF b2, of x] x(1) by simp
  ultimately show ?thesis
    using c len by (intro exI [of _ "if sign \<and> xx < 0 then [0x2D] else []"] exI [of _ ?ds] conjI refl)
qed

text \<open>A console whose indices are about to wrap around: two characters committed, none edited.\<close>

definition demo_cons :: cons_state where
  "demo_cons = fs_state.extend small_fs (cons_state.fields False True True (\<lambda>_. 0) 0 True []
     (\<lambda>i. if i = 127 then 10 else 0x61) (- 2) 0 0 False)"

lemma demo_cons_sel:
  "in_r demo_cons = - 2" "in_w demo_cons = 0" "in_e demo_cons = 0" "crtpos demo_cons = 0" "\<not> panicked demo_cons"
  "inbuf demo_cons = (\<lambda>i. if i = 127 then 10 else 0x61)" "\<not> curkilled demo_cons"
  by (simp_all add: demo_cons_def fs_state.defs cons_state.defs)

lemma demo_cons_ok: "cons_inv demo_cons" "screen_ok demo_cons" "queue demo_cons = [0x61, 10]" "line demo_cons = []"
proof -
  have w: "wlen demo_cons = 2" "elen demo_cons = 2" by (simp_all add: wlen_def elen_def demo_cons_sel)
  show "cons_inv demo_cons" by (simp add: cons_inv_def w)
  show "screen_ok demo_cons" by (simp add: screen_ok_def demo_cons_sel)
  have "idx (- 2) 0 = 126" "idx (- 2) 1 = 127" by (simp_all add: idx_def)
  then show "queue demo_cons = [0x61, 10]" by (simp add: queue_def w chars_def demo_cons_sel upt_rec)
  show "line demo_cons = []" by (simp add: line_def w chars_def)
qed

theorem consoleintr_refines_witness:
  "\<exists>s'. consoleintr [0x62, 0x63, 8, 13] demo_cons = Ok (False, s') \<and>
     queue s' = [0x61, 10, 0x62, 10] \<and> line s' = []"
  using consoleintr_refines [OF demo_cons_ok(1,2), of "[0x62, 0x63, 8, 13]"] by (auto simp: demo_cons_ok(3,4))

end
