(* ===== verification/Cstring.thy ===== *)
theory Cstring
  imports Prelude
begin

text \<open>
  \<^verbatim>\<open>src/alarm/string.c\<close>: the kernel's memory and string routines, on byte-addressed memory.
  Pointers are addresses; the regions they denote do not wrap around the end of the address
  space.  The lemmas give each routine's meaning in terms of \<open>fill\<close>, \<open>blit\<close> and the contents
  of NUL-terminated strings.
\<close>

section \<open>Block operations\<close>

text \<open>\<open>rep stosb\<close> and \<open>rep stosl\<close> of \<^verbatim>\<open>x86.h\<close>: store \<open>cnt\<close> copies of a byte or a word upwards.\<close>

primrec stosb :: "nat \<Rightarrow> byte \<Rightarrow> nat \<Rightarrow> mem \<Rightarrow> mem" where
  "stosb addr data 0 m = m"
| "stosb addr data (Suc cnt) m = stosb (addr + 1) data cnt (m(addr := data))"

primrec stosl :: "nat \<Rightarrow> word32 \<Rightarrow> nat \<Rightarrow> mem \<Rightarrow> mem" where
  "stosl addr data 0 m = m"
| "stosl addr data (Suc cnt) m = stosl (addr + 4) data cnt (put32 addr data m)"

definition memset :: "nat \<Rightarrow> word32 \<Rightarrow> nat \<Rightarrow> mem \<Rightarrow> mem" where
  "memset dst c n m =
     (if dst mod 4 = 0 \<and> n mod 4 = 0 then
        let c = c AND 0xFF
        in stosl dst (push_bit 24 c OR push_bit 16 c OR push_bit 8 c OR c) (n div 4) m
      else stosb dst (ucast c) n m)"

primrec memcmp :: "nat \<Rightarrow> nat \<Rightarrow> nat \<Rightarrow> mem \<Rightarrow> int" where
  "memcmp s1 s2 0 m = 0"
| "memcmp s1 s2 (Suc n) m =
     (if m s1 \<noteq> m s2 then uint (m s1) - uint (m s2) else memcmp (s1 + 1) (s2 + 1) n m)"

primrec copy_down :: "nat \<Rightarrow> nat \<Rightarrow> nat \<Rightarrow> mem \<Rightarrow> mem" where
  "copy_down d s 0 m = m"
| "copy_down d s (Suc n) m = copy_down (d - 1) (s - 1) n (m(d - 1 := m (s - 1)))"

primrec copy_up :: "nat \<Rightarrow> nat \<Rightarrow> nat \<Rightarrow> mem \<Rightarrow> mem" where
  "copy_up d s 0 m = m"
| "copy_up d s (Suc n) m = copy_up (d + 1) (s + 1) n (m(d := m s))"

definition memmove :: "nat \<Rightarrow> nat \<Rightarrow> nat \<Rightarrow> mem \<Rightarrow> mem" where
  "memmove dst src n m =
     (if src < dst \<and> src + n > dst then copy_down (dst + n) (src + n) n m
      else copy_up dst src n m)"

definition memcpy :: "nat \<Rightarrow> nat \<Rightarrow> nat \<Rightarrow> mem \<Rightarrow> mem" where
  "memcpy dst src n m = memmove dst src n m"

section \<open>Strings\<close>

primrec strncmp :: "nat \<Rightarrow> nat \<Rightarrow> nat \<Rightarrow> mem \<Rightarrow> int" where
  "strncmp p q 0 m = 0"
| "strncmp p q (Suc n) m =
     (if m p \<noteq> 0 \<and> m p = m q then strncmp (p + 1) (q + 1) n m else uint (m p) - uint (m q))"

text \<open>The first loop of \<open>strncpy\<close> copies up to and including the NUL, the second pads.\<close>

primrec strncpy_pad :: "nat \<Rightarrow> nat \<Rightarrow> mem \<Rightarrow> mem" where
  "strncpy_pad s 0 m = m"
| "strncpy_pad s (Suc n) m = strncpy_pad (s + 1) n (m(s := 0))"

primrec strncpy_nat :: "nat \<Rightarrow> nat \<Rightarrow> nat \<Rightarrow> mem \<Rightarrow> mem" where
  "strncpy_nat s t 0 m = m"
| "strncpy_nat s t (Suc n) m =
     (if m t \<noteq> 0 then strncpy_nat (s + 1) (t + 1) n (m(s := m t))
      else strncpy_pad (s + 1) n (m(s := m t)))"

definition strncpy :: "nat \<Rightarrow> nat \<Rightarrow> int \<Rightarrow> mem \<Rightarrow> mem" where
  "strncpy s t n m = strncpy_nat s t (nat n) m"

primrec safestrcpy_nat :: "nat \<Rightarrow> nat \<Rightarrow> nat \<Rightarrow> mem \<Rightarrow> mem" where
  "safestrcpy_nat s t 0 m = m(s := 0)"
| "safestrcpy_nat s t (Suc n) m =
     (if m t \<noteq> 0 then safestrcpy_nat (s + 1) (t + 1) n (m(s := m t))
      else m(s := m t, s + 1 := 0))"

definition safestrcpy :: "nat \<Rightarrow> nat \<Rightarrow> int \<Rightarrow> mem \<Rightarrow> mem" where
  "safestrcpy s t n m = (if n \<le> 0 then m else safestrcpy_nat s t (nat (n - 1)) m)"

partial_function (option) strlen_from :: "nat \<Rightarrow> mem \<Rightarrow> nat \<Rightarrow> nat option" where
  "strlen_from s m n = (if m (s + n) \<noteq> 0 then strlen_from s m (n + 1) else Some n)"

definition strlen :: "nat \<Rightarrow> mem \<Rightarrow> nat option" where
  "strlen s m = strlen_from s m 0"

section \<open>Meaning of the block operations\<close>

lemma stosb_fill: "stosb a c n m = fill m a c n"
  by (induction n arbitrary: a m) (auto simp: fill_def fun_eq_iff)

lemma rep_byte:
  fixes c :: word32
  defines "w \<equiv> push_bit 24 (c AND 0xFF) OR push_bit 16 (c AND 0xFF) OR push_bit 8 (c AND 0xFF) OR (c AND 0xFF)"
  shows "ucast w = (ucast c :: byte)" "ucast (drop_bit 8 w) = (ucast c :: byte)"
    "ucast (drop_bit 16 w) = (ucast c :: byte)" "ucast (drop_bit 24 w) = (ucast c :: byte)"
proof -
  have e: "(0xFF :: word32) = mask 8" by (simp add: mask_eq_exp_minus_1)
  show "ucast w = (ucast c :: byte)" "ucast (drop_bit 8 w) = (ucast c :: byte)"
    "ucast (drop_bit 16 w) = (ucast c :: byte)" "ucast (drop_bit 24 w) = (ucast c :: byte)"
    unfolding w_def e by (rule bit_word_eqI; auto simp: bit_simps)+
qed

lemma stosl_fill:
  assumes "ucast w = c" "ucast (drop_bit 8 w) = c" "ucast (drop_bit 16 w) = c" "ucast (drop_bit 24 w) = c"
  shows "stosl a w n m = fill m a c (4 * n)"
proof (induction n arbitrary: a m)
  case (Suc n)
  have "fill (put32 a w m) (a + 4) c (4 * n) = fill m a c (4 * Suc n)"
    using assms by (auto simp: fill_def put32_def fun_eq_iff)
  with Suc show ?case by simp
qed simp

lemma memset_fill: "memset dst c n m = fill m dst (ucast c) n"
  using stosl_fill [OF rep_byte, of dst c "n div 4" m]
  by (auto simp: memset_def Let_def stosb_fill)

lemma copy_up_blit: "d \<le> s \<or> s + n \<le> d \<Longrightarrow> copy_up d s n m = blit m d m s n"
proof (induction n arbitrary: d s m)
  case (Suc n)
  then have "copy_up (d + 1) (s + 1) n (m(d := m s)) =
      blit (m(d := m s)) (d + 1) (m(d := m s)) (s + 1) n" by (intro Suc.IH) auto
  also have "\<dots> = blit m d m s (Suc n)"
  proof
    fix i
    have "Suc d \<le> i \<Longrightarrow> s + 1 + (i - (d + 1)) = s + (i - d)" by simp
    then show "blit (m(d := m s)) (d + 1) (m(d := m s)) (s + 1) n i = blit m d m s (Suc n) i"
      using Suc.prems by (auto simp: blit_def)
  qed
  finally show ?case by simp
qed simp

lemma copy_down_blit:
  "s \<le> d \<Longrightarrow> n \<le> s \<Longrightarrow> copy_down d s n m = blit m (d - n) m (s - n) n"
proof (induction n arbitrary: d s m)
  case (Suc n)
  let ?m = "m(d - 1 := m (s - 1))"
  have "copy_down (d - 1) (s - 1) n ?m = blit ?m (d - 1 - n) ?m (s - 1 - n) n"
    using Suc.prems by (intro Suc.IH) auto
  also have "\<dots> = blit m (d - Suc n) m (s - Suc n) (Suc n)"
    using Suc.prems by (auto simp: blit_def fun_eq_iff)
  finally show ?case by simp
qed simp

lemma memmove_blit: "memmove dst src n m = blit m dst m src n"
proof (cases "src < dst \<and> src + n > dst")
  case True
  then show ?thesis using copy_down_blit [of "src + n" "dst + n" n m] by (simp add: memmove_def)
next
  case False
  then show ?thesis by (auto simp: memmove_def not_less intro!: copy_up_blit)
qed

lemma memcmp_zero: "memcmp s1 s2 n m = 0 \<longleftrightarrow> (\<forall>i < n. m (s1 + i) = m (s2 + i))"
proof (induction n arbitrary: s1 s2)
  case (Suc n)
  show ?case
  proof (cases "m s1 = m s2")
    case True
    with Suc show ?thesis by (auto simp: less_Suc_eq_0_disj)
  next
    case False
    then have "uint (m s1) \<noteq> uint (m s2)" by (simp add: word_uint_eq_iff)
    with False show ?thesis by auto
  qed
qed simp

section \<open>Meaning of the string operations\<close>

lemma strlen_from_ok:
  "cstr m (s + n) xs \<Longrightarrow> strlen_from s m n = Some (n + length xs)"
proof (induction xs arbitrary: n)
  case Nil
  then show ?case by (subst strlen_from.simps) simp
next
  case (Cons x xs)
  then show ?case using Cons.IH [of "n + 1"] by (subst strlen_from.simps) simp
qed

lemma strlen_ok: "cstr m s xs \<Longrightarrow> strlen s m = Some (length xs)"
  using strlen_from_ok [of m s 0 xs] by (simp add: strlen_def)

lemma strncmp_sign:
  "cstr m p xs \<Longrightarrow> cstr m q ys \<Longrightarrow>
     (strncmp p q n m = 0 \<longleftrightarrow> take n xs = take n ys) \<and>
     (strncmp p q n m < 0 \<longleftrightarrow> ord_class.lexordp (take n xs) (take n ys))"
proof (induction n arbitrary: p q xs ys)
  case (Suc n)
  have le: "uint a \<noteq> uint b \<longleftrightarrow> a \<noteq> b" "uint a < uint b \<longleftrightarrow> a < b" for a b :: byte
    by (simp_all add: word_uint_eq_iff word_less_def)
  show ?case
  proof (cases xs)
    case Nil
    then have "m p = 0" using Suc.prems by simp
    with Suc.prems Nil show ?thesis
      by (cases ys) (auto simp: word_neq_0_conv word_less_def uint_0_iff)
  next
    case (Cons x xs')
    note x = this
    show ?thesis
    proof (cases ys)
      case Nil
      with x Suc.prems show ?thesis by (auto simp: uint_0_iff)
    next
      case (Cons y ys')
      with x Suc.prems Suc.IH [of "p + 1" xs' "q + 1" ys'] le [of x y] show ?thesis
        by (cases "x = y") auto
    qed
  qed
qed simp

lemma strncpy_pad_zero: "strncpy_pad s n m = write_bytes s (replicate n 0) m"
  by (induction n arbitrary: s m) auto

lemma strncpy_bytes:
  assumes "cstr m t xs" "s + n \<le> t \<or> t + length xs < s"
  shows "strncpy_nat s t n m = write_bytes s (take n (xs @ replicate n 0)) m"
  using assms
proof (induction n arbitrary: s t m xs)
  case (Suc n)
  show ?case
  proof (cases xs)
    case Nil
    with Suc.prems show ?thesis by (simp add: strncpy_pad_zero)
  next
    case (Cons x ys)
    have "cstr (m(s := x)) (t + 1) ys = cstr m (t + 1) ys"
      using Suc.prems(2) Cons by (intro cstr_cong) auto
    with Suc.prems(1) Cons have c: "cstr (m(s := x)) (t + 1) ys" by simp
    have "strncpy_nat (s + 1) (t + 1) n (m(s := x)) =
        write_bytes (s + 1) (take n (ys @ replicate n 0)) (m(s := x))"
      by (rule Suc.IH [OF c]) (use Suc.prems(2) Cons in auto)
    with Suc.prems Cons show ?thesis by (simp add: replicate_append_same [symmetric])
  qed
qed simp

lemma safestrcpy_bytes:
  assumes "cstr m t xs" "s + n < t \<or> t + length xs < s"
  shows "safestrcpy_nat s t n m =
     write_bytes s (if n \<le> length xs then take n xs @ [0] else xs @ [0, 0]) m"
  using assms
proof (induction n arbitrary: s t m xs)
  case (Suc n)
  show ?case
  proof (cases xs)
    case Nil
    with Suc.prems show ?thesis by simp
  next
    case (Cons x ys)
    have "cstr (m(s := x)) (t + 1) ys = cstr m (t + 1) ys"
      using Suc.prems(2) Cons by (intro cstr_cong) auto
    with Suc.prems(1) Cons have c: "cstr (m(s := x)) (t + 1) ys" by simp
    have "safestrcpy_nat (s + 1) (t + 1) n (m(s := x)) =
        write_bytes (s + 1) (if n \<le> length ys then take n ys @ [0] else ys @ [0, 0]) (m(s := x))"
      by (rule Suc.IH [OF c]) (use Suc.prems(2) Cons in auto)
    with Suc.prems Cons show ?thesis by simp
  qed
qed simp

section \<open>Properties\<close>

text \<open>The block routines do what their names say, for every pair of regions.  \<open>memmove\<close>
  copies correctly whether or not source and destination overlap, \<open>memset\<close> fills with the low
  byte whether or not it takes the word-at-a-time path, and \<open>memcmp\<close> returns 0 exactly on equal
  regions.\<close>

lemma block_ops:
  "memmove dst src n m = blit m dst m src n \<and> memcpy dst src n m = blit m dst m src n \<and>
   memset dst c n m = fill m dst (ucast c) n \<and>
   (memcmp s1 s2 n m = 0 \<longleftrightarrow> read_bytes m s1 n = read_bytes m s2 n)"
  by (auto simp: memcpy_def memmove_blit memset_fill memcmp_zero list_eq_iff_nth_eq)

text \<open>\<open>safestrcpy\<close> into a buffer of \<open>n\<close> bytes disjoint from the source always leaves a
  NUL-terminated string there, the source cut to \<open>n - 1\<close> characters, whose length \<open>strlen\<close>
  returns, and touches nothing outside the buffer.\<close>

lemma safestrcpy_bounded:
  assumes "cstr m t xs" "0 < n" "s + nat n \<le> t \<or> t + length xs < s"
  shows "cstr (safestrcpy s t n m) s (take (nat n - 1) xs) \<and>
     strlen s (safestrcpy s t n m) = Some (min (nat n - 1) (length xs)) \<and>
     (\<forall>i. i < s \<or> s + nat n \<le> i \<longrightarrow> safestrcpy s t n m i = m i)"
proof -
  let ?k = "nat n - 1"
  let ?w = "if ?k \<le> length xs then take ?k xs @ [0] else xs @ [0, 0]"
  have "s + ?k < t \<or> t + length xs < s" using assms(2,3) by auto
  then have e: "safestrcpy s t n m = write_bytes s ?w m"
    using assms(1,2) safestrcpy_bytes [of m t xs s ?k] by (simp add: safestrcpy_def nat_diff_distrib)
  have "\<exists>ys. ?w = take ?k xs @ 0 # ys" by simp
  then obtain ys where ys: "?w = take ?k xs @ 0 # ys" by blast
  have nz: "0 \<notin> set (take ?k xs)" using cstr_nonzero [OF assms(1)] by (auto dest: in_set_takeD)
  have c: "cstr (safestrcpy s t n m) s (take ?k xs)" unfolding e ys by (rule cstr_write [OF nz])
  have "s + length ?w \<le> s + nat n" using assms(2) by auto
  then have "i < s \<or> s + nat n \<le> i \<Longrightarrow> safestrcpy s t n m i = m i" for i
    unfolding e by (intro write_bytes_other) auto
  with c strlen_ok [OF c] show ?thesis by auto
qed

end
