(* ===== verification/Fs_Data.thy ===== *)
theory Fs_Data
  imports Console Cstring
begin

text \<open>
  Inode content, the middle of \<^verbatim>\<open>src/alarm/fs.c\<close>: \<open>readi\<close> and \<open>writei\<close>.  The caller's buffer is
  an address in a memory passed along explicitly (user space, a kernel page or a local
  \<open>struct dirent\<close>).  A device inode is dispatched through \<open>devsw\<close>, in which \<open>consoleinit\<close> enters
  the console and nothing else is ever entered.
\<close>

abbreviation NDEV :: int where "NDEV \<equiv> 10"

definition dev_ok :: "nat \<Rightarrow> 'a cons_state_scheme \<Rightarrow> bool" where
  "dev_ok ip s = (let mj = sint (imajor (inodes s ip)) in
     \<not> (mj < 0 \<or> NDEV \<le> mj \<or> \<not> (mj = 1 \<and> devcons s)))"

function readi_loop :: "nat \<Rightarrow> nat \<Rightarrow> nat \<Rightarrow> nat \<Rightarrow> nat \<Rightarrow> mem \<Rightarrow> 'a cons_state_scheme \<Rightarrow> (mem \<times> 'a cons_state_scheme) outcome" where
  "readi_loop ip tot n off dst D s =
     (if tot < n then
        bindE (bmap ip (off div BSIZE) s) (\<lambda>(a, s).
        bindE (bread (idev (inodes s ip)) a s) (\<lambda>(bp, s).
        let m = min (n - tot) (BSIZE - off mod BSIZE);
            D = blit D dst (bdata (bufs s bp)) (off mod BSIZE) m
        in bindE (brelse bp s) (readi_loop ip (tot + m) n (off + m) (dst + m) D)))
      else Ok (D, s))"
  by pat_completeness auto
termination
  by (relation "measure (\<lambda>(ip, tot, n, off, dst, D, s). n - tot)") auto

declare readi_loop.simps [simp del]

definition readi :: "nat \<Rightarrow> mem \<Rightarrow> nat \<Rightarrow> nat \<Rightarrow> nat \<Rightarrow> 'a cons_state_scheme \<Rightarrow> (int \<times> mem \<times> 'a cons_state_scheme) outcome" where
  "readi ip D dst off n s =
     (let i = inodes s ip in
      if itype i = T_DEV then
        (if dev_ok ip s then consoleread ip D dst (s32 n) s else Ok (-1, D, s))
      else if isize i < off \<or> u32 (off + n) < off then Ok (-1, D, s)
      else
        let n = (if isize i < u32 (off + n) then isize i - off else n) in
        bindE (readi_loop ip 0 n off dst D s) (\<lambda>(D, s). Ok (int n, D, s)))"

function writei_loop :: "nat \<Rightarrow> nat \<Rightarrow> nat \<Rightarrow> nat \<Rightarrow> nat \<Rightarrow> mem \<Rightarrow> 'a cons_state_scheme \<Rightarrow> (nat \<times> 'a cons_state_scheme) outcome" where
  "writei_loop ip tot n off src S s =
     (if tot < n then
        bindE (bmap ip (off div BSIZE) s) (\<lambda>(a, s).
        bindE (bread (idev (inodes s ip)) a s) (\<lambda>(bp, s).
        let m = min (n - tot) (BSIZE - off mod BSIZE)
        in bindE (log_modify bp (blit (bdata (bufs s bp)) (off mod BSIZE) S src m) s) (\<lambda>s.
           bindE (brelse bp s) (writei_loop ip (tot + m) n (off + m) (src + m) S))))
      else Ok (off, s))"
  by pat_completeness auto
termination
  by (relation "measure (\<lambda>(ip, tot, n, off, src, S, s). n - tot)") auto

declare writei_loop.simps [simp del]

definition writei :: "nat \<Rightarrow> mem \<Rightarrow> nat \<Rightarrow> nat \<Rightarrow> nat \<Rightarrow> 'a cons_state_scheme \<Rightarrow> (int \<times> 'a cons_state_scheme) outcome" where
  "writei ip S src off n s =
     (let i = inodes s ip in
      if itype i = T_DEV then
        (if dev_ok ip s then consolewrite ip S src (s32 n) s else Ok (-1, s))
      else if isize i < off \<or> u32 (off + n) < off then Ok (-1, s)
      else if MAXFILE * BSIZE < u32 (off + n) then Ok (-1, s)
      else
        bindE (writei_loop ip 0 n off src S s) (\<lambda>(off, s).
        bindE (if 0 < n \<and> isize (inodes s ip) < off
               then iupdate ip (upd_inode ip (\<lambda>x. x\<lparr>isize := off\<rparr>) s) else Ok s)
          (\<lambda>s. Ok (int n, s))))"

section \<open>The content of a file\<close>

text \<open>
  \<open>blk V i bn\<close>: the disk block of block \<open>bn\<close> of the file, 0 if there is none.  \<open>content V i p\<close>: the
  byte at position \<open>p\<close>.
\<close>

definition blk :: "(nat \<Rightarrow> mem) \<Rightarrow> inode \<Rightarrow> nat \<Rightarrow> nat" where
  "blk V i bn = (if bn < NDIRECT then iaddrs i bn
     else if iaddrs i NDIRECT = 0 then 0 else unat (get32 (V (iaddrs i NDIRECT)) (4 * (bn - NDIRECT))))"

definition content :: "(nat \<Rightarrow> mem) \<Rightarrow> inode \<Rightarrow> nat \<Rightarrow> byte" where
  "content V i p = V (blk V i (p div BSIZE)) (p mod BSIZE)"

text \<open>Blocks \<open>[a, b)\<close> of the file exist, on the disk.\<close>

definition mapped :: "'a fs_state_scheme \<Rightarrow> nat \<Rightarrow> nat \<Rightarrow> nat \<Rightarrow> bool" where
  "mapped s ip a b \<longleftrightarrow> idev (inodes s ip) = 1 \<and> b \<le> MAXFILE \<and>
     (\<forall>bn. a \<le> bn \<and> bn < b \<longrightarrow> blk (view s) (inodes s ip) bn \<noteq> 0 \<and> on_disk s (blk (view s) (inodes s ip) bn) \<and>
        (NDIRECT \<le> bn \<longrightarrow> on_disk s (iaddrs (inodes s ip) NDIRECT)))"

lemma bmap_mapped:
  assumes ok: "tx_ok s k {}" and k: "k < NBUF" and m: "mapped s ip a b" and bn: "a \<le> bn" "bn < b"
  shows "\<exists>s'. bmap ip bn s = Ok (blk (view s) (inodes s ip) bn, s') \<and> tx_ok s' k {} \<and> view s' = view s \<and> tx_frame s s'"
proof -
  let ?i = "inodes s ip"
  have nz: "blk (view s) ?i bn \<noteq> 0" and dv: "idev ?i = 1" and lt: "bn < MAXFILE"
    using m bn by (auto simp: mapped_def)
  show ?thesis
  proof (cases "bn < NDIRECT")
    case True
    then show ?thesis using nz ok by (intro exI [of _ s]) (simp add: bmap_def blk_def Let_def)
  next
    case False
    then have ia: "iaddrs ?i NDIRECT \<noteq> 0" using nz by (auto simp: blk_def split: if_splits)
    let ?b = "iaddrs ?i NDIRECT" and ?j = "bn - NDIRECT"
    have od: "on_disk s ?b" using m bn False by (simp add: mapped_def)
    have g: "blk (view s) ?i bn = unat (get32 (view s ?b) (4 * ?j))" using False ia by (simp add: blk_def)
    then have gz: "get32 (view s ?b) (4 * ?j) \<noteq> 0" using nz by auto
    from tx.look [OF ok od, simplified, OF k] obtain bp s1 s' where
      1: "bread 1 ?b s = Ok (bp, s1)" "bdata (bufs s1 bp) = view s ?b" "tx_frame s s1" "brelse bp s1 = Ok s'"
      "tx_ok s' k {}" "view s' = view s" "tx_frame s s'" by auto
    have "bmap ip bn s = Ok (blk (view s) ?i bn, s')"
      using False lt ia dv 1 gz g by (simp add: bmap_def Let_def)
    with 1 show ?thesis by blast
  qed
qed

section \<open>Reading\<close>

lemma blit_split: "blit (blit D d S s m) (d + m) S (s + m) k = blit D d S s (m + k)"
  by (auto simp: blit_def fun_eq_iff)

text \<open>Within one block of the file, file positions are positions in the disk block.\<close>

lemma in_block:
  assumes "j < BSIZE - off mod BSIZE"
  shows "(off + j) div BSIZE = off div BSIZE" "(off + j) mod BSIZE = off mod BSIZE + j"
proof -
  have g: "x < BSIZE \<Longrightarrow> (q * BSIZE + x) div BSIZE = q \<and> (q * BSIZE + x) mod BSIZE = x" for q x by simp
  have "off mod BSIZE + j < BSIZE" using assms by simp
  from g [OF this, of "off div BSIZE"] show "(off + j) div BSIZE = off div BSIZE"
    "(off + j) mod BSIZE = off mod BSIZE + j" by (simp_all only: add.assoc [symmetric] div_mult_mod_eq)
qed

lemma blit_block:
  assumes "m \<le> BSIZE - off mod BSIZE"
  shows "blit D dst (V (blk V i (off div BSIZE))) (off mod BSIZE) m = blit D dst (content V i) off m"
proof
  fix x
  show "blit D dst (V (blk V i (off div BSIZE))) (off mod BSIZE) m x = blit D dst (content V i) off m x"
  proof (cases "dst \<le> x \<and> x < dst + m")
    case True
    then have "x - dst < m" by auto
    then have "x - dst < BSIZE - off mod BSIZE" using assms by (rule less_le_trans)
    from in_block [OF this] True show ?thesis by (simp add: blit_def content_def)
  qed (auto simp: blit_def)
qed

lemma mapped_frame: "tx_frame s s' \<Longrightarrow> view s' = view s \<Longrightarrow> mapped s' ip a b = mapped s ip a b"
  by (simp add: mapped_def tx_frame_fs tx_frame_sel)

lemma mapped_mono: "mapped s ip a b \<Longrightarrow> a \<le> a' \<Longrightarrow> mapped s ip a' b"
  unfolding mapped_def by (meson le_trans)

lemma readi_loop_ok:
  assumes "tx_ok s k {}" "k < NBUF" "mapped s ip (off div BSIZE) b" "off + (n - tot) \<le> b * BSIZE"
  shows "\<exists>s'. readi_loop ip tot n off dst D s =
       Ok (blit D dst (content (view s) (inodes s ip)) off (n - tot), s') \<and>
     tx_ok s' k {} \<and> view s' = view s \<and> tx_frame s s'"
  using assms
proof (induction "n - tot" arbitrary: tot off dst D s rule: less_induct)
  case less
  show ?case
  proof (cases "tot < n")
    case False
    then show ?thesis using less.prems(1) by (subst readi_loop.simps) simp
  next
    case True
    let ?V = "view s" and ?i = "inodes s ip"
    let ?bn = "off div BSIZE"
    define m where "m = min (n - tot) (BSIZE - off mod BSIZE)"
    have "0 < BSIZE - off mod BSIZE" by simp
    then have mpos: "0 < m" "m \<le> n - tot" "m \<le> BSIZE - off mod BSIZE" using True by (simp_all add: m_def)
    have sum: "m + (n - (tot + m)) = n - tot" and dec: "n - (tot + m) < n - tot" using mpos True by linarith+
    have "?bn < b" using less.prems(4) True by (simp add: div_less_iff_less_mult)
    from bmap_mapped [OF less.prems(1-3) order_refl this] obtain s1 where
      1: "bmap ip ?bn s = Ok (blk ?V ?i ?bn, s1)" "tx_ok s1 k {}" "view s1 = ?V" "tx_frame s s1" by blast
    have i1: "inodes s1 = inodes s" using tx_frame_fs [OF 1(4)] by simp
    have dv: "idev ?i = 1" and od: "on_disk s1 (blk ?V ?i ?bn)"
      using less.prems(3) \<open>?bn < b\<close> tx_frame_sel(3) [OF 1(4)] by (auto simp: mapped_def)
    from tx.look [OF 1(2) od, simplified, OF less.prems(2)] obtain bp s2 s3 where
      2: "bread 1 (blk ?V ?i ?bn) s1 = Ok (bp, s2)" "bdata (bufs s2 bp) = ?V (blk ?V ?i ?bn)"
      "brelse bp s2 = Ok s3" "tx_ok s3 k {}" "view s3 = view s1" "tx_frame s1 s3" "tx_frame s1 s2"
      using 1(3) by auto
    have f3: "tx_frame s s3" by (rule tx_frame_trans [OF 1(4) 2(6)])
    have v3: "view s3 = ?V" "inodes s3 = inodes s" using 1(3) 2(5) tx_frame_fs [OF f3] by simp_all
    have m3: "mapped s3 ip ((off + m) div BSIZE) b"
      using mapped_mono [OF less.prems(3) div_le_mono [OF le_add1]] mapped_frame [OF f3 v3(1)] by simp
    have le3: "off + m + (n - (tot + m)) \<le> b * BSIZE" using less.prems(4) sum by linarith
    let ?D = "blit D dst (content ?V ?i) off m"
    from less.hyps [OF dec 2(4) less.prems(2) m3 le3, of "dst + m" ?D, unfolded v3]
    obtain s' where 3: "readi_loop ip (tot + m) n (off + m) (dst + m) ?D s3 =
        Ok (blit ?D (dst + m) (content ?V ?i) (off + m) (n - (tot + m)), s')"
      "tx_ok s' k {}" "view s' = ?V" "tx_frame s3 s'" by blast
    have bl: "blit D dst (bdata (bufs s2 bp)) (off mod BSIZE) m = ?D"
      unfolding 2(2) by (rule blit_block [OF mpos(3)])
    have dv1: "idev (inodes s1 ip) = 1" using i1 dv by simp
    have "readi_loop ip tot n off dst D s = readi_loop ip (tot + m) n (off + m) (dst + m) ?D s3"
      by (subst readi_loop.simps) (simp add: True 1(1) dv1 [simplified] 2(1) [simplified] 2(3) m_def [symmetric] bl)
    with 3 tx_frame_trans [OF f3 3(4)] show ?thesis
      by (intro exI [of _ s']) (simp only: blit_split sum simp_thms)
  qed
qed

lemma readi_ok:
  assumes ok: "tx_ok s k {}" "k < NBUF" and ty: "itype (inodes s ip) \<noteq> T_DEV" and off: "off + n < 2 ^ 32"
    and m: "mapped s ip 0 ((isize (inodes s ip) + BSIZE - 1) div BSIZE)"
  shows "if isize (inodes s ip) < off then readi ip D dst off n s = Ok (-1, D, s)
     else \<exists>s'. let r = min n (isize (inodes s ip) - off) in
       readi ip D dst off n s = Ok (int r, blit D dst (content (view s) (inodes s ip)) off r, s') \<and>
       view s' = view s \<and> tx_frame s s' \<and> tx_ok s' k {}"
proof (cases "isize (inodes s ip) < off")
  case True
  then show ?thesis using ty by (simp add: readi_def)
next
  case False
  let ?sz = "isize (inodes s ip)" and ?r = "min n (isize (inodes s ip) - off)"
  let ?b = "(?sz + BSIZE - 1) div BSIZE"
  have "?sz \<le> ?b * BSIZE"
    using div_mult_mod_eq [of "?sz + BSIZE - 1" BSIZE] mod_less_divisor [of BSIZE "?sz + BSIZE - 1"] by linarith
  then have le: "off + (?r - 0) \<le> ?b * BSIZE" using False by simp
  have "mapped s ip (off div BSIZE) ?b" by (rule mapped_mono [OF m]) simp
  from readi_loop_ok [OF ok this le, of dst D] obtain s' where
    1: "readi_loop ip 0 ?r off dst D s = Ok (blit D dst (content (view s) (inodes s ip)) off ?r, s')"
    "tx_ok s' k {}" "view s' = view s" "tx_frame s s'" by auto
  have r: "(if ?sz < u32 (off + n) then ?sz - off else n) = ?r" using off False by auto
  have "readi ip D dst off n s = bindE (readi_loop ip 0 ?r off dst D s) (\<lambda>(D, s). Ok (int ?r, D, s))"
    unfolding readi_def Let_def r using ty off False by simp
  with 1 False show ?thesis by (simp add: Let_def)
qed

text \<open>Reading a file.  For a file (or directory) whose blocks exist, \<open>readi\<close> at an offset
  within the size copies exactly the bytes of the file from there, cut at the end of the file, to
  the caller's buffer, returns their number and changes neither disk contents nor inodes; an
  offset beyond the size is refused.\<close>

lemma readi_content:
  assumes ok: "tx_ok s k {}" "k < NBUF" and ty: "itype (inodes s ip) \<noteq> T_DEV" and off: "off + n < 2 ^ 32"
    and m: "mapped s ip 0 ((isize (inodes s ip) + BSIZE - 1) div BSIZE)"
  shows "if isize (inodes s ip) < off then readi ip D dst off n s = Ok (-1, D, s)
     else \<exists>s'. let r = min n (isize (inodes s ip) - off) in
       readi ip D dst off n s = Ok (int r, blit D dst (content (view s) (inodes s ip)) off r, s') \<and>
       view s' = view s \<and> inodes s' = inodes s \<and> tx_ok s' k {}"
proof (cases "isize (inodes s ip) < off")
  case False
  with readi_ok [OF assms] obtain s' where
    1: "let r = min n (isize (inodes s ip) - off) in
      readi ip D dst off n s = Ok (int r, blit D dst (content (view s) (inodes s ip)) off r, s') \<and>
      view s' = view s \<and> tx_frame s s' \<and> tx_ok s' k {}" by auto
  then have "inodes s' = inodes s" using tx_frame_fs [of s s'] by (simp add: Let_def)
  with 1 False show ?thesis by (auto simp: Let_def)
qed (use readi_ok [OF assms] in simp)

text \<open>The log's predicates depend on the fields of the cache and the log only.\<close>

lemma tx_ok_cong:
  assumes "bufs s' = bufs s" "bnext s' = bnext s" "bprev s' = bprev s" "disk s' = disk s"
    "disksize s' = disksize s" "lstart s' = lstart s" "lsize s' = lsize s" "ldev s' = ldev s"
    "lh_n s' = lh_n s" "lh_block s' = lh_block s"
  shows "tx_ok s' k H = tx_ok s k H"
proof -
  note B = bio_cong [OF assms(1-5)]
  have "home s' = home s" "log_area s' = log_area s" by (simp_all add: home_def [abs_def] log_area_def assms)
  then show ?thesis unfolding tx_ok_def log_open_def B assms by simp
qed

text \<open>The small file system with a console, and the root directory holding 16 bytes in block 60.\<close>

definition demo_file :: cons_state where
  "demo_file = upd_inode 0 (\<lambda>x. x\<lparr>isize := 16, iaddrs := (\<lambda>_. 0)(0 := 60)\<rparr>) demo_cons"

lemma demo_cons_fs:
  "tx_ok demo_cons k H = tx_ok small_fs k H" "view demo_cons = small_disk" "disksize demo_cons = 100"
  "inodes demo_cons = inodes small_fs" "sb demo_cons = small_sb" "outstanding demo_cons = 1"
  "lstart demo_cons = 2" "lsize demo_cons = 30" "curpid demo_cons = 1"
proof -
  have e: "bufs demo_cons = bufs small_fs" "bnext demo_cons = bnext small_fs" "bprev demo_cons = bprev small_fs"
    "disk demo_cons = disk small_fs" "disksize demo_cons = disksize small_fs" "lstart demo_cons = lstart small_fs"
    "lsize demo_cons = lsize small_fs" "ldev demo_cons = ldev small_fs" "lh_n demo_cons = lh_n small_fs"
    "lh_block demo_cons = lh_block small_fs" by (simp_all add: demo_cons_def fs_state.defs)
  show "tx_ok demo_cons k H = tx_ok small_fs k H" by (rule tx_ok_cong [OF e])
  show "view demo_cons = small_disk" using bio_cong(2) [OF e(1-5)] by (simp add: small_fs_sel)
  show "disksize demo_cons = 100" "lstart demo_cons = 2" "lsize demo_cons = 30" using e by (simp_all add: small_fs_sel)
  show "inodes demo_cons = inodes small_fs" "sb demo_cons = small_sb" "outstanding demo_cons = 1" "curpid demo_cons = 1"
    using small_fs_sel by (simp_all add: demo_cons_def fs_state.defs)
qed

end
