(* ===== verification/Path.thy ===== *)
theory Path
  imports Fs_Data
begin

text \<open>
  Directories and path names, the end of \<^verbatim>\<open>src/alarm/fs.c\<close>: \<open>namecmp\<close>, \<open>dirlookup\<close>, \<open>dirlink\<close>,
  \<open>skipelem\<close>, \<open>namex\<close>, \<open>namei\<close> and \<open>nameiparent\<close>.  Paths and names are addresses in the memory
  \<open>M\<close> the kernel sees while it runs for a process.  The local variables whose address is taken (the
  directory entries of \<open>dirlookup\<close> and \<open>dirlink\<close>, the name buffer of \<open>namei\<close>) lie above the 32-bit
  address space, apart from every object a pointer can reach.
\<close>

abbreviation DIRSIZ :: nat where "DIRSIZ \<equiv> 14"
abbreviation ROOTDEV :: nat where "ROOTDEV \<equiv> 1"
abbreviation ROOTINO :: nat where "ROOTINO \<equiv> 1"
abbreviation slash :: byte where "slash \<equiv> 0x2F"

text \<open>\<open>struct dirent\<close>: the inode number at offset 0, the name at offset 2, 16 bytes in all.\<close>

abbreviation de_size :: nat where "de_size \<equiv> 16"
abbreviation lookup_de :: nat where "lookup_de \<equiv> 0x100000000"
abbreviation link_de :: nat where "link_de \<equiv> 0x100000010"
abbreviation namei_name :: nat where "namei_name \<equiv> 0x100000020"

definition namecmp :: "nat \<Rightarrow> nat \<Rightarrow> mem \<Rightarrow> int" where
  "namecmp s t M = strncmp s t DIRSIZ M"

text \<open>The offsets at which the loops over a directory of \<open>n\<close> bytes read entries.\<close>

definition dir_offs :: "nat \<Rightarrow> nat list" where
  "dir_offs n = map (\<lambda>j. j * de_size) [0..<(n + de_size - 1) div de_size]"

definition dirlookup_step :: "nat \<Rightarrow> nat \<Rightarrow> nat \<Rightarrow> mem \<times> 'a cons_state_scheme \<Rightarrow>
    ((nat \<times> nat) option \<times> mem \<times> 'a cons_state_scheme) outcome" where
  "dirlookup_step dp name off = (\<lambda>(M, s).
     bindE (readi dp M lookup_de off de_size s) (\<lambda>(r, M, s).
     if r \<noteq> int de_size then Panic ''dirlookup read''
     else if get16 M lookup_de = 0 then Ok (None, M, s)
     else if namecmp name (lookup_de + 2) M = 0 then
       bindE (iget (idev (inodes s dp)) (unat (get16 M lookup_de)) s) (\<lambda>(ip, s). Ok (Some (ip, off), M, s))
     else Ok (None, M, s)))"

text \<open>The result is the inode and the offset of its entry (what \<open>*poff\<close> receives).\<close>

definition dirlookup :: "nat \<Rightarrow> nat \<Rightarrow> mem \<Rightarrow> 'a cons_state_scheme \<Rightarrow>
    ((nat \<times> nat) option \<times> mem \<times> 'a cons_state_scheme) outcome" where
  "dirlookup dp name M s =
     (if itype (inodes s dp) \<noteq> T_DIR then Panic ''dirlookup not DIR''
      else loopE (dirlookup_step dp name) (dir_offs (isize (inodes s dp))) (M, s))"

definition dirlink_step :: "nat \<Rightarrow> nat \<Rightarrow> mem \<times> 'a cons_state_scheme \<Rightarrow>
    (nat option \<times> mem \<times> 'a cons_state_scheme) outcome" where
  "dirlink_step dp off = (\<lambda>(M, s).
     bindE (readi dp M link_de off de_size s) (\<lambda>(r, M, s).
     if r \<noteq> int de_size then Panic ''dirlink read''
     else Ok (if get16 M link_de = 0 then Some off else None, M, s)))"

definition dirlink :: "nat \<Rightarrow> nat \<Rightarrow> nat \<Rightarrow> mem \<Rightarrow> 'a cons_state_scheme \<Rightarrow> (int \<times> mem \<times> 'a cons_state_scheme) outcome" where
  "dirlink dp name ino M s =
     bindE (dirlookup dp name M s) (\<lambda>(r, M, s).
     case r of
       Some (ip, _) \<Rightarrow> bindE (iput ip s) (\<lambda>s. Ok (-1, M, s))
     | None \<Rightarrow>
         let offs = dir_offs (isize (inodes s dp)) in
         bindE (loopE (dirlink_step dp) offs (M, s)) (\<lambda>(r, M, s).
         let off = (case r of Some off \<Rightarrow> off | None \<Rightarrow> length offs * de_size);
             M = strncpy (link_de + 2) name (int DIRSIZ) M;
             M = put16 link_de (of_nat ino) M
         in bindE (writei dp M link_de off de_size s) (\<lambda>(r, s).
            if r \<noteq> int de_size then Panic ''dirlink'' else Ok (0, M, s))))"

section \<open>Paths\<close>

partial_function (option) skip_while :: "(byte \<Rightarrow> bool) \<Rightarrow> mem \<Rightarrow> nat \<Rightarrow> nat option" where
  "skip_while P M p = (if P (M p) then skip_while P M (p + 1) else Some p)"

text \<open>\<open>None\<close> when a loop runs off an unterminated string; the inner \<open>None\<close> is the null pointer.\<close>

definition skipelem :: "nat \<Rightarrow> nat \<Rightarrow> mem \<Rightarrow> (nat option \<times> mem) option" where
  "skipelem path name M =
     (case skip_while (\<lambda>c. c = slash) M path of None \<Rightarrow> None | Some s \<Rightarrow>
      if M s = 0 then Some (None, M)
      else case skip_while (\<lambda>c. c \<noteq> slash \<and> c \<noteq> 0) M s of None \<Rightarrow> None | Some e \<Rightarrow>
        let len = e - s;
            M = (if DIRSIZ \<le> len then memmove name s DIRSIZ M
                 else (memmove name s len M)(name + len := 0))
        in case skip_while (\<lambda>c. c = slash) M e of None \<Rightarrow> None | Some p \<Rightarrow> Some (Some p, M))"

text \<open>
  The loop of \<open>namex\<close>, with as much fuel as the path has characters and one more: every iteration
  but the last consumes a path element.
\<close>

fun namex_loop :: "nat \<Rightarrow> nat \<Rightarrow> bool \<Rightarrow> nat \<Rightarrow> nat \<Rightarrow> mem \<Rightarrow> 'a cons_state_scheme \<Rightarrow>
    (nat option \<times> mem \<times> 'a cons_state_scheme) outcome" where
  "namex_loop 0 path par name ip M s = Forever"
| "namex_loop (Suc fuel) path par name ip M s =
     (case skipelem path name M of
        None \<Rightarrow> Forever
      | Some (None, M) \<Rightarrow>
          if par then bindE (iput ip s) (\<lambda>s. Ok (None, M, s)) else Ok (Some ip, M, s)
      | Some (Some path, M) \<Rightarrow>
          bindE (ilock (Some ip) s) (\<lambda>s.
          if itype (inodes s ip) \<noteq> T_DIR then bindE (iunlockput ip s) (\<lambda>s. Ok (None, M, s))
          else if par \<and> M path = 0 then bindE (iunlock (Some ip) s) (\<lambda>s. Ok (Some ip, M, s))
          else bindE (dirlookup ip name M s) (\<lambda>(r, M, s).
            case r of
              None \<Rightarrow> bindE (iunlockput ip s) (\<lambda>s. Ok (None, M, s))
            | Some (nxt, _) \<Rightarrow> bindE (iunlockput ip s) (namex_loop fuel path par name nxt M))))"

definition namex :: "nat \<Rightarrow> nat \<Rightarrow> bool \<Rightarrow> nat \<Rightarrow> mem \<Rightarrow> 'a cons_state_scheme \<Rightarrow>
    (nat option \<times> mem \<times> 'a cons_state_scheme) outcome" where
  "namex cwd path par name M s =
     bindE (if M path = slash then iget ROOTDEV ROOTINO s else Ok (cwd, idup cwd s)) (\<lambda>(ip, s).
     case strlen path M of None \<Rightarrow> Forever
     | Some n \<Rightarrow> namex_loop (Suc n) path par name ip M s)"

definition namei :: "nat \<Rightarrow> nat \<Rightarrow> mem \<Rightarrow> 'a cons_state_scheme \<Rightarrow> (nat option \<times> mem \<times> 'a cons_state_scheme) outcome" where
  "namei cwd path M s = namex cwd path False namei_name M s"

definition nameiparent :: "nat \<Rightarrow> nat \<Rightarrow> nat \<Rightarrow> mem \<Rightarrow> 'a cons_state_scheme \<Rightarrow> (nat option \<times> mem \<times> 'a cons_state_scheme) outcome" where
  "nameiparent cwd path name M s = namex cwd path True name M s"

section \<open>One path element\<close>

text \<open>The next element of a path and what follows it, slashes removed.\<close>

definition next_elem :: "byte list \<Rightarrow> (byte list \<times> byte list) option" where
  "next_elem xs = (let ys = dropWhile (\<lambda>c. c = slash) xs in
     if ys = [] then None
     else Some (takeWhile (\<lambda>c. c \<noteq> slash) ys, dropWhile (\<lambda>c. c = slash) (dropWhile (\<lambda>c. c \<noteq> slash) ys)))"

lemma cstr_drop: "cstr M p xs \<Longrightarrow> n \<le> length xs \<Longrightarrow> cstr M (p + n) (drop n xs)"
proof (induction n arbitrary: p xs)
  case (Suc n)
  from Suc.prems obtain x ys where x: "xs = x # ys" "cstr M (p + 1) ys" "n \<le> length ys" by (cases xs) auto
  from Suc.IH [OF x(2,3)] x(1) show ?case by simp
qed simp

lemma length_split_while: "length xs = length (takeWhile P xs) + length (dropWhile P xs)"
  by (subst takeWhile_dropWhile_id [of P xs, symmetric]) (simp only: length_append)

lemma skip_while_ok:
  assumes "cstr M p xs" "\<not> P 0"
  shows "skip_while P M p = Some (p + length (takeWhile P xs))"
  using assms
proof (induction xs arbitrary: p)
  case Nil
  then show ?case by (subst skip_while.simps) simp
next
  case (Cons x xs)
  then show ?case by (subst skip_while.simps) simp
qed

lemma cstr_dropWhile: "cstr M p xs \<Longrightarrow> cstr M (p + length (takeWhile P xs)) (dropWhile P xs)"
  using cstr_drop [of M p xs "length (takeWhile P xs)"] by (simp add: length_takeWhile_le dropWhile_eq_drop)

lemma takeWhile_both:
  "0 \<notin> set ys \<Longrightarrow> takeWhile (\<lambda>c. c \<noteq> slash \<and> c \<noteq> (0::byte)) ys = takeWhile (\<lambda>c. c \<noteq> slash) ys"
  by (rule takeWhile_cong) auto

lemma next_elem_length: "next_elem xs = Some (e, rest) \<Longrightarrow> length rest < length xs \<and> e \<noteq> []"
proof -
  assume n: "next_elem xs = Some (e, rest)"
  let ?ys = "dropWhile (\<lambda>c. c = slash) xs"
  have y: "?ys \<noteq> []" "e = takeWhile (\<lambda>c. c \<noteq> slash) ?ys"
    "rest = dropWhile (\<lambda>c. c = slash) (dropWhile (\<lambda>c. c \<noteq> slash) ?ys)"
    using n by (auto simp: next_elem_def Let_def split: if_splits)
  then obtain a as where as: "?ys = a # as" by (cases ?ys) auto
  then have "a \<noteq> slash" by (metis (full_types) dropWhile_eq_Cons_conv)
  moreover have "length as < length xs" using as length_dropWhile_le [of "\<lambda>c. c = slash" xs] by simp
  moreover have "length rest \<le> length as"
    using y as \<open>a \<noteq> slash\<close> by (simp add: le_trans [OF length_dropWhile_le length_dropWhile_le])
  ultimately show ?thesis using y as by simp
qed

text \<open>\<open>skipelem\<close> on a terminated path apart from the name buffer: the element, cut to \<open>DIRSIZ\<close>
  bytes or terminated, lands in the buffer, and the result points at the rest.\<close>

lemma skipelem_ok:
  assumes c: "cstr M p xs" and dis: "name + DIRSIZ \<le> p \<or> p + length xs < name"
  shows "skipelem p name M = (case next_elem xs of
     None \<Rightarrow> Some (None, M)
   | Some (e, rest) \<Rightarrow> Some (Some (p + (length xs - length rest)), write_bytes name (take DIRSIZ (e @ [0])) M))"
proof -
  let ?S = "\<lambda>c. c = slash" and ?N = "\<lambda>c. c \<noteq> slash"
  define ys where "ys = dropWhile ?S xs"
  define s where "s = p + length (takeWhile ?S xs)"
  have sp: "skip_while ?S M p = Some s" using skip_while_ok [OF c] by (simp add: s_def)
  have cy: "cstr M s ys" unfolding s_def ys_def by (rule cstr_dropWhile [OF c])
  have len: "length xs = (s - p) + length ys" "p \<le> s"
    using length_split_while [of xs ?S] by (simp_all add: s_def ys_def)
  show ?thesis
  proof (cases ys)
    case Nil
    then show ?thesis using sp cy by (simp add: skipelem_def next_elem_def ys_def [symmetric] Let_def)
  next
    case (Cons y ys')
    then have nz: "M s \<noteq> 0" using cy by auto
    define e where "e = takeWhile ?N ys"
    define zs where "zs = dropWhile ?N ys"
    have ye: "ys = e @ zs" by (simp add: e_def zs_def)
    have se: "skip_while (\<lambda>c. c \<noteq> slash \<and> c \<noteq> 0) M s = Some (s + length e)"
      using skip_while_ok [OF cy, of "\<lambda>c. c \<noteq> slash \<and> c \<noteq> 0"] cstr_nonzero [OF cy] by (simp add: takeWhile_both e_def)
    have cz: "cstr M (s + length e) zs" unfolding e_def zs_def by (rule cstr_dropWhile [OF cy])
    define M' where "M' = (if DIRSIZ \<le> length e then memmove name s DIRSIZ M else (memmove name s (length e) M)(name + length e := 0))"
    have nth: "i < length e \<Longrightarrow> M (s + i) = e ! i" for i using cstr_nth [OF cy, of i] by (simp add: ye nth_append)
    have M': "M' = write_bytes name (take DIRSIZ (e @ [0])) M"
    proof
      fix i
      show "M' i = write_bytes name (take DIRSIZ (e @ [0])) M i"
        using nth [of "i - name"]
        by (auto simp: M'_def memmove_blit blit_def write_bytes_apply nth_append min_def not_less le_Suc_eq)
    qed
    have "cstr M' (s + length e) zs"
    proof -
      have "M i = M' i" if "s + length e \<le> i" "i \<le> s + length e + length zs" for i
        unfolding M' using dis len that ye by (subst write_bytes_other) auto
      from cstr_cong [of "s + length e" zs M M', OF this] cz show ?thesis by simp
    qed
    from skip_while_ok [OF this, of ?S]
    have sz: "skip_while ?S M' (s + length e) = Some (s + length e + length (takeWhile ?S zs))" by simp
    have ne: "next_elem xs = Some (e, dropWhile ?S zs)"
      using Cons by (simp add: next_elem_def ys_def [symmetric] e_def zs_def)
    have "length zs = length (takeWhile ?S zs) + length (dropWhile ?S zs)"
      by (rule length_split_while)
    then have "s + length e + length (takeWhile ?S zs) = p + (length xs - length (dropWhile ?S zs))"
      using len ye by simp
    then show ?thesis
      using sp nz se sz M' by (simp add: skipelem_def ne M'_def [symmetric] Let_def)
  qed
qed

section \<open>Walking a path\<close>

text \<open>All elements of a path.\<close>

function path_elems :: "byte list \<Rightarrow> byte list list" where
  "path_elems xs = (case next_elem xs of None \<Rightarrow> [] | Some (e, rest) \<Rightarrow> e # path_elems rest)"
  by pat_completeness auto
termination
  by (relation "measure length") (auto dest: next_elem_length)

declare path_elems.simps [simp del]

text \<open>
  The specification of \<open>namex\<close> on the list of elements: no scanning of characters, no fuel.
\<close>

fun walk :: "byte list list \<Rightarrow> bool \<Rightarrow> nat \<Rightarrow> nat \<Rightarrow> mem \<Rightarrow> 'a cons_state_scheme \<Rightarrow>
    (nat option \<times> mem \<times> 'a cons_state_scheme) outcome" where
  "walk [] par name ip M s =
     (if par then bindE (iput ip s) (\<lambda>s. Ok (None, M, s)) else Ok (Some ip, M, s))"
| "walk (e # es) par name ip M s =
     (let M = write_bytes name (take DIRSIZ (e @ [0])) M in
      bindE (ilock (Some ip) s) (\<lambda>s.
      if itype (inodes s ip) \<noteq> T_DIR then bindE (iunlockput ip s) (\<lambda>s. Ok (None, M, s))
      else if par \<and> es = [] then bindE (iunlock (Some ip) s) (\<lambda>s. Ok (Some ip, M, s))
      else bindE (dirlookup ip name M s) (\<lambda>(r, M, s).
        case r of
          None \<Rightarrow> bindE (iunlockput ip s) (\<lambda>s. Ok (None, M, s))
        | Some (nxt, _) \<Rightarrow> bindE (iunlockput ip s) (walk es par name nxt M))))"

text \<open>Reading into a buffer leaves memory outside it alone.\<close>

lemma cread_loop_frame:
  "cread_loop n target D dst s = Ok (r, D', s') \<Longrightarrow> i < dst \<or> dst + n \<le> i \<Longrightarrow> D' i = D i"
proof (induction n arbitrary: D dst s)
  case (Suc n)
  show ?case
  proof (cases "in_r s = in_w s \<or> in_at s (in_r s) = 4 \<or> in_at s (in_r s) = 10")
    case True
    then show ?thesis using Suc.prems by (auto split: if_splits simp: Let_def)
  next
    case False
    then have "cread_loop n target (D(dst := in_at s (in_r s))) (dst + 1) (s\<lparr>in_r := in_r s + 1\<rparr>) = Ok (r, D', s')"
      using Suc.prems(1) by (simp add: Let_def)
    from Suc.IH [OF this] Suc.prems(2) show ?thesis by auto
  qed
qed simp

lemma readi_loop_frame:
  "readi_loop ip tot n off dst D s = Ok (D', s') \<Longrightarrow> i < dst \<or> dst + (n - tot) \<le> i \<Longrightarrow> D' i = D i"
proof (induction "n - tot" arbitrary: tot off dst D s rule: less_induct)
  case less
  show ?case
  proof (cases "tot < n")
    case False
    then show ?thesis using less.prems by (subst (asm) readi_loop.simps) simp
  next
    case True
    define m where "m = min (n - tot) (BSIZE - off mod BSIZE)"
    have "0 < BSIZE - off mod BSIZE" by simp
    then have m: "0 < m" "m \<le> n - tot" using True by (simp_all add: m_def)
    from less.prems(1) obtain X s3 where
      r: "readi_loop ip (tot + m) n (off + m) (dst + m) (blit D dst X (off mod BSIZE) m) s3 = Ok (D', s')"
      unfolding readi_loop.simps [of ip tot n off dst D s] by (auto simp: True m_def [symmetric] bindE_eq_Ok Let_def)
    have "D' i = blit D dst X (off mod BSIZE) m i"
      using less.hyps [OF _ r] m less.prems(2) by auto
    also have "\<dots> = D i" using less.prems(2) m by (auto simp: blit_def)
    finally show ?thesis .
  qed
qed

lemma readi_frame:
  assumes "readi ip D dst off n s = Ok (r, D', s')" "n < 2 ^ 31" "i < dst \<or> dst + n \<le> i"
  shows "D' i = D i"
proof (cases "itype (inodes s ip) = T_DEV")
  case True
  then show ?thesis using assms
    by (auto simp: readi_def Let_def consoleread_def bindE_eq_Ok s32_nat split: if_splits dest: cread_loop_frame)
next
  case False
  define n' where "n' = (if isize (inodes s ip) < u32 (off + n) then isize (inodes s ip) - off else n)"
  have "u32 (off + n) \<le> off + n" by (simp add: u32_def)
  then have "n' \<le> n" by (auto simp: n'_def)
  then have out: "i < dst \<or> dst + (n' - 0) \<le> i" using assms(3) by auto
  show ?thesis
    using assms False
    by (auto simp: readi_def Let_def n'_def [symmetric] bindE_eq_Ok split: if_splits dest: readi_loop_frame [OF _ out])
qed

lemma dirlookup_step_frame:
  assumes "dirlookup_step dp name off (M, s) = Ok (r, M', s')" "i < lookup_de"
  shows "M' i = M i"
  using assms by (auto simp: dirlookup_step_def bindE_eq_Ok split: if_splits dest: readi_frame)

lemma dirlookup_frame:
  assumes "dirlookup dp name M s = Ok (r, M', s')" "i < lookup_de"
  shows "M' i = M i"
proof -
  have "loopE (dirlookup_step dp name) offs (M, s) = Ok (r, M', s') \<Longrightarrow> M' i = M i" for offs
  proof (induction offs arbitrary: M s)
    case (Cons off offs)
    from Cons.prems obtain r1 M1 s1 where
      1: "dirlookup_step dp name off (M, s) = Ok (r1, M1, s1)" by (auto simp: bindE_eq_Ok)
    from dirlookup_step_frame [OF 1 assms(2)] Cons 1 show ?case by (cases r1) auto
  qed simp
  then show ?thesis using assms(1) by (auto simp: dirlookup_def split: if_splits)
qed

lemma path_elems_nil: "path_elems [] = []"
  by (simp add: path_elems.simps next_elem_def)

lemma path_elems_dropWhile: "path_elems (dropWhile (\<lambda>c. c = slash) xs) = path_elems xs"
  by (subst (1 2) path_elems.simps) (simp add: next_elem_def)

lemma rest_empty:
  assumes "next_elem xs = Some (e, rest)"
  shows "path_elems rest = [] \<longleftrightarrow> rest = []"
proof -
  have r: "dropWhile (\<lambda>c. c = slash) rest = rest"
    using assms by (auto simp: next_elem_def Let_def dropWhile_idem split: if_splits)
  show ?thesis by (subst path_elems.simps) (simp add: next_elem_def r)
qed

lemma next_elem_rest: "next_elem xs = Some (e, rest) \<Longrightarrow> rest = drop (length xs - length rest) xs"
proof -
  assume "next_elem xs = Some (e, rest)"
  then obtain a b c where "xs = a @ b @ c @ rest"
    unfolding next_elem_def Let_def
    by (auto split: if_splits) (metis takeWhile_dropWhile_id)
  then show ?thesis by simp
qed

lemma namex_loop_walk:
  assumes "cstr M path xs" "length xs < fuel" "path + length xs < lookup_de"
    "name + DIRSIZ \<le> path \<or> path + length xs < name"
  shows "namex_loop fuel path par name ip M s = walk (path_elems xs) par name ip M s"
  using assms
proof (induction fuel arbitrary: path xs par ip M s)
  case (Suc fuel)
  note sk = skipelem_ok [OF Suc.prems(1,4)]
  show ?case
  proof (cases "next_elem xs")
    case None
    then show ?thesis by (simp add: sk path_elems.simps [of xs])
  next
    case (Some er)
    obtain e rest where er: "er = (e, rest)" by (cases er)
    define q where "q = path + (length xs - length rest)"
    define N0 where "N0 = write_bytes name (take DIRSIZ (e @ [0])) M"
    have ne: "next_elem xs = Some (e, rest)" using Some er by simp
    have lt: "length rest < length xs" using next_elem_length [OF ne] by simp
    have pl: "q + length rest = path + length xs" using lt by (simp add: q_def)
    have cr: "cstr M q rest"
      using cstr_drop [OF Suc.prems(1), of "length xs - length rest"] next_elem_rest [OF ne] by (simp add: q_def)
    have out: "N0 i = M i" if "path \<le> i" "i \<le> path + length xs" for i
      unfolding N0_def using Suc.prems(4) that by (subst write_bytes_other) auto
    have cM: "cstr N q rest" if "\<And>i. i < lookup_de \<Longrightarrow> N i = N0 i" for N
      using cstr_cong [of q rest N M] cr that out lt Suc.prems(3) by (auto simp: q_def)
    have z: "N0 q = 0 \<longleftrightarrow> path_elems rest = []"
      using cM [of N0] rest_empty [OF ne] by (cases rest) auto
    have IH: "namex_loop fuel q b name nxt N s' = walk (path_elems rest) b name nxt N s'"
      if "\<And>i. i < lookup_de \<Longrightarrow> N i = N0 i" for N nxt b and s' :: "'a cons_state_scheme"
      by (rule Suc.IH [OF cM [OF that]]) (use Suc.prems lt pl in auto)
    have sk': "skipelem path name M = Some (Some q, N0)" unfolding sk ne q_def N0_def by simp
    have el: "path_elems xs = e # path_elems rest" by (subst path_elems.simps) (simp add: ne)
    show ?thesis
      unfolding el walk.simps N0_def [symmetric] Let_def
      by (auto simp: sk' z split: option.splits intro!: bindE_cong IH)
        (erule (1) dirlookup_frame)+
  qed
qed simp

text \<open>C40: path resolution visits the elements of the path.  On a terminated path apart from the name
  buffer \<open>namex\<close> behaves as the walk over the list of its elements (split at slashes, empty ones
  dropped, each handed over in the name buffer cut to 14 bytes), starting at the root or at the
  current directory; its character loops end.\<close>

theorem namex_walk:
  assumes "cstr M path xs" "path + length xs < lookup_de" "name + DIRSIZ \<le> path \<or> path + length xs < name"
  shows "namex cwd path par name M s =
     bindE (if xs \<noteq> [] \<and> hd xs = slash then iget ROOTDEV ROOTINO s else Ok (cwd, idup cwd s))
       (\<lambda>(ip, s). walk (path_elems xs) par name ip M s)"
proof -
  have h: "M path = slash \<longleftrightarrow> xs \<noteq> [] \<and> hd xs = slash" using assms(1) by (cases xs) auto
  have w: "namex_loop (Suc (length xs)) path par name ip M t = walk (path_elems xs) par name ip M t" for ip and t :: "'a cons_state_scheme"
    by (rule namex_loop_walk [OF assms(1) lessI assms(2,3)])
  show ?thesis
    unfolding namex_def h strlen_ok [OF assms(1)]
    by (simp add: w del: namex_loop.simps)
qed

theorem namex_walk_witness:
  "let M = write_bytes 100 [slash, slash, 0x61, slash, 0x62, 0x63, 0] (\<lambda>_. 7) in
   namex 3 100 True 10 M demo_cons =
     bindE (iget ROOTDEV ROOTINO demo_cons) (\<lambda>(ip, s). walk [[0x61], [0x62, 0x63]] True 10 ip M s)"
proof -
  let ?M = "write_bytes 100 [slash, slash, 0x61, slash, 0x62, 0x63, 0] (\<lambda>_. 7)"
  have c: "cstr ?M 100 [slash, slash, 0x61, slash, 0x62, 0x63]" by simp
  have e: "path_elems [slash, slash, 0x61, slash, 0x62, 0x63] = [[0x61], [0x62, 0x63]]"
    by (simp add: path_elems.simps next_elem_def)
  show ?thesis using namex_walk [OF c, of 10 3 True demo_cons] by (simp add: e)
qed

section \<open>Searching a directory\<close>

text \<open>A name field: the bytes before the first NUL, at most \<open>DIRSIZ\<close>.  Entry \<open>j\<close> of a directory.\<close>

definition name_at :: "mem \<Rightarrow> nat \<Rightarrow> byte list" where
  "name_at M p = takeWhile (\<lambda>c. c \<noteq> 0) (read_bytes M p DIRSIZ)"

definition entry_inum :: "(nat \<Rightarrow> mem) \<Rightarrow> inode \<Rightarrow> nat \<Rightarrow> word16" where
  "entry_inum V i j = get16 (content V i) (j * de_size)"

definition entry_name :: "(nat \<Rightarrow> mem) \<Rightarrow> inode \<Rightarrow> nat \<Rightarrow> byte list" where
  "entry_name V i j = name_at (content V i) (j * de_size + 2)"

definition find_entry :: "(nat \<Rightarrow> mem) \<Rightarrow> inode \<Rightarrow> byte list \<Rightarrow> nat option" where
  "find_entry V i nm = find (\<lambda>j. entry_inum V i j \<noteq> 0 \<and> entry_name V i j = nm) [0..<isize i div de_size]"

lemma strncmp_zero:
  "strncmp p q n M = 0 \<longleftrightarrow>
     takeWhile (\<lambda>c. c \<noteq> 0) (read_bytes M p n) = takeWhile (\<lambda>c. c \<noteq> 0) (read_bytes M q n)"
proof (induction n arbitrary: p q)
  case (Suc n)
  have "read_bytes M a (Suc n) = M a # read_bytes M (Suc a) n" for a
    by (simp add: read_bytes_def upt_conv_Cons map_Suc_upt [symmetric] del: upt_Suc)
  then show ?case using Suc by (auto simp: word_uint_eq_iff)
qed (simp add: read_bytes_def)

lemma namecmp_zero: "namecmp p q M = 0 \<longleftrightarrow> name_at M p = name_at M q"
  unfolding namecmp_def name_at_def by (rule strncmp_zero)

lemma name_at_cong: "(\<And>i. p \<le> i \<Longrightarrow> i < p + DIRSIZ \<Longrightarrow> M i = M' i) \<Longrightarrow> name_at M p = name_at M' p"
  unfolding name_at_def read_bytes_def by (intro arg_cong [of _ _ "takeWhile _"] map_cong) auto

lemma entry_read:
  fixes M :: mem and V :: "nat \<Rightarrow> mem" and i :: inode and j :: nat
  defines "N \<equiv> blit M lookup_de (content V i) (j * de_size) de_size"
  shows "get16 N lookup_de = entry_inum V i j" "name_at N (lookup_de + 2) = entry_name V i j"
    "name + DIRSIZ \<le> lookup_de \<Longrightarrow> name_at N name = name_at M name"
proof -
  show "get16 N lookup_de = entry_inum V i j" by (simp add: N_def entry_inum_def get16_def blit_def)
  show "name_at N (lookup_de + 2) = entry_name V i j"
    unfolding N_def entry_name_def name_at_def read_bytes_def
    by (intro arg_cong [of _ _ "takeWhile _"] map_cong) (auto simp: blit_def ac_simps)
  show "name_at N name = name_at M name" if "name + DIRSIZ \<le> lookup_de"
    by (rule name_at_cong) (use that in \<open>simp add: N_def blit_def\<close>)
qed

text \<open>A directory whose blocks exist, made of whole entries.\<close>

definition dir_ok :: "'a cons_state_scheme \<Rightarrow> nat \<Rightarrow> bool" where
  "dir_ok s dp \<longleftrightarrow> itype (inodes s dp) = T_DIR \<and> de_size dvd isize (inodes s dp) \<and>
     mapped s dp 0 ((isize (inodes s dp) + BSIZE - 1) div BSIZE)"

lemma dir_ok_size: "dir_ok s dp \<Longrightarrow> isize (inodes s dp) \<le> MAXFILE * BSIZE"
proof -
  assume "dir_ok s dp"
  then have "(isize (inodes s dp) + BSIZE - 1) div BSIZE \<le> MAXFILE" by (simp add: dir_ok_def mapped_def)
  then show ?thesis by simp
qed

lemma dirlookup_step_entry:
  assumes ok: "tx_ok s k {}" "k < NBUF" and d: "dir_ok s dp" and nm: "name + DIRSIZ \<le> lookup_de"
    and j: "j < isize (inodes s dp) div de_size"
  shows "\<exists>M' s'. (view s' = view s \<and> tx_frame s s' \<and> tx_ok s' k {} \<and> name_at M' name = name_at M name) \<and>
     dirlookup_step dp name (j * de_size) (M, s) =
       (if entry_inum (view s) (inodes s dp) j \<noteq> 0 \<and> entry_name (view s) (inodes s dp) j = name_at M name
        then bindE (iget (idev (inodes s dp)) (unat (entry_inum (view s) (inodes s dp) j)) s')
               (\<lambda>(ip, s). Ok (Some (ip, j * de_size), M', s))
        else Ok (None, M', s'))"
proof -
  let ?i = "inodes s dp" and ?V = "view s"
  define N where "N = blit M lookup_de (content ?V ?i) (j * de_size) de_size"
  have sz: "isize ?i \<le> MAXFILE * BSIZE" by (rule dir_ok_size [OF d])
  have le: "j * de_size + de_size \<le> isize ?i" using j by (auto simp: less_eq_div_iff_mult_less_eq [symmetric])
  have r: "min de_size (isize ?i - j * de_size) = de_size" "\<not> isize ?i < j * de_size" using le by auto
  have lt: "j * de_size + de_size < 2 ^ 32" using sz le by simp
  have ty: "itype ?i \<noteq> T_DEV" using d by (simp add: dir_ok_def)
  from readi_ok [OF ok ty lt, of M lookup_de] d r le
  obtain s' where 1: "readi dp M lookup_de (j * de_size) de_size s = Ok (int de_size, N, s')"
    "view s' = view s" "tx_frame s s'" "tx_ok s' k {}"
    by (auto simp: dir_ok_def N_def)
  note e = entry_read [where M = M and V = ?V and i = ?i and j = j, folded N_def]
  show ?thesis
    apply (rule exI [of _ N], rule exI [of _ s'])
    using 1 e nm tx_frame_fs [OF 1(3)] by (auto simp: dirlookup_step_def namecmp_zero)
qed

lemma dirlookup_scan:
  assumes "tx_ok s k {}" "k < NBUF" "dir_ok s dp" "name + DIRSIZ \<le> lookup_de"
    "set js \<subseteq> {..<isize (inodes s dp) div de_size}"
  shows "\<exists>M' s'. view s' = view s \<and> tx_frame s s' \<and> tx_ok s' k {} \<and>
     loopE (dirlookup_step dp name) (map (\<lambda>j. j * de_size) js) (M, s) =
       (case find (\<lambda>j. entry_inum (view s) (inodes s dp) j \<noteq> 0 \<and> entry_name (view s) (inodes s dp) j = name_at M name) js of
          None \<Rightarrow> Ok (None, M', s')
        | Some j \<Rightarrow> bindE (iget (idev (inodes s dp)) (unat (entry_inum (view s) (inodes s dp) j)) s')
            (\<lambda>(ip, s). Ok (Some (ip, j * de_size), M', s)))"
  using assms
proof (induction js arbitrary: M s)
  case Nil
  then show ?case by (intro exI [of _ M] exI [of _ s]) simp
next
  case (Cons j js)
  let ?P = "\<lambda>j. entry_inum (view s) (inodes s dp) j \<noteq> 0 \<and> entry_name (view s) (inodes s dp) j = name_at M name"
  have "j < isize (inodes s dp) div de_size" using Cons.prems(5) by simp
  from dirlookup_step_entry [OF Cons.prems(1-4) this, of M] obtain M1 s1 where
    1: "view s1 = view s" "tx_frame s s1" "tx_ok s1 k {}" "name_at M1 name = name_at M name" and
    st: "dirlookup_step dp name (j * de_size) (M, s) =
       (if ?P j then bindE (iget (idev (inodes s dp)) (unat (entry_inum (view s) (inodes s dp) j)) s1)
               (\<lambda>(ip, s). Ok (Some (ip, j * de_size), M1, s))
        else Ok (None, M1, s1))" by blast
  have f: "inodes s1 = inodes s" using tx_frame_fs [OF 1(2)] by simp
  show ?case
  proof (cases "?P j")
    case True
    then have F: "find ?P (j # js) = Some j" by simp
    show ?thesis
      unfolding F using True
      by (intro exI [of _ M1] exI [of _ s1]) (simp add: st 1 bindE_assoc case_prod_unfold)
  next
    case False
    have d: "dir_ok s1 dp" using Cons.prems(3) mapped_frame [OF 1(2,1)] by (simp add: dir_ok_def f)
    have js: "set js \<subseteq> {..<isize (inodes s1 dp) div de_size}" using Cons.prems(5) f by simp
    have F: "find ?P (j # js) = find ?P js" unfolding find.simps by (rule if_not_P [OF False])
    have "loopE (dirlookup_step dp name) (map (\<lambda>j. j * de_size) (j # js)) (M, s) =
       loopE (dirlookup_step dp name) (map (\<lambda>j. j * de_size) js) (M1, s1)" by (simp add: st [unfolded if_not_P [OF False]])
    with Cons.IH [OF 1(3) Cons.prems(2) d Cons.prems(4) js, of M1, unfolded f 1(1,4)] tx_frame_trans [OF 1(2)]
    show ?thesis unfolding F by auto
  qed
qed

text \<open>Searching a directory.  In a directory made of whole entries whose blocks exist,
  \<open>dirlookup\<close> finds the first entry in use whose name agrees with the name searched for (both cut
  to 14 bytes at most), takes a reference to its inode and reports the entry's offset; without such
  an entry it returns nothing.  Disk contents are unchanged, and no other outcome exists than those
  of \<open>iget\<close>.\<close>

lemma dirlookup_first:
  assumes ok: "tx_ok s k {}" "k < NBUF" and d: "dir_ok s dp" and nm: "name + DIRSIZ \<le> lookup_de"
  shows "\<exists>M' s'. view s' = view s \<and> tx_frame s s' \<and> tx_ok s' k {} \<and>
     dirlookup dp name M s =
       (case find_entry (view s) (inodes s dp) (name_at M name) of
          None \<Rightarrow> Ok (None, M', s')
        | Some j \<Rightarrow> bindE (iget (idev (inodes s dp)) (unat (entry_inum (view s) (inodes s dp) j)) s')
            (\<lambda>(ip, s). Ok (Some (ip, j * de_size), M', s)))"
proof -
  let ?n = "isize (inodes s dp)"
  have "de_size dvd ?n" using d by (simp add: dir_ok_def)
  then have n: "(?n + de_size - 1) div de_size = ?n div de_size" by (elim dvdE) simp
  have js: "set [0..<?n div de_size] \<subseteq> {..<?n div de_size}" by auto
  have ty: "itype (inodes s dp) = T_DIR" using d by (simp add: dir_ok_def)
  from dirlookup_scan [OF ok d nm js, of M] show ?thesis
    unfolding dirlookup_def dir_offs_def n find_entry_def using ty by fastforce
qed

text \<open>The root directory with its entries in block 99.\<close>

definition demo_dir :: cons_state where
  "demo_dir = upd_inode 0 (\<lambda>x. x\<lparr>isize := 32, iaddrs := (\<lambda>_. 0)(0 := 99)\<rparr>) demo_cons"

lemma demo_dir_ok: "tx_ok demo_dir 0 {}" "view demo_dir = small_disk" "dir_ok demo_dir 0" "idev (inodes demo_dir 0) = 1"
proof -
  have i: "inodes demo_dir 0 = root_inode\<lparr>isize := 32, iaddrs := (\<lambda>_. 0)(0 := 99)\<rparr>"
    by (simp add: demo_dir_def demo_cons_fs small_fs_sel)
  show "tx_ok demo_dir 0 {}" "view demo_dir = small_disk" by (simp_all add: demo_dir_def demo_cons_fs small_tx)
  have "disksize demo_dir = 100" by (simp add: demo_dir_def demo_cons_fs)
  then show "dir_ok demo_dir 0"
    by (simp add: dir_ok_def mapped_def i root_inode_def blk_def \<open>view demo_dir = small_disk\<close>)
  show "idev (inodes demo_dir 0) = 1" by (simp add: i root_inode_def)
qed

lemma demo_dir_find: "find_entry small_disk (inodes demo_dir 0) [0x2E] = Some 1"
  "entry_inum small_disk (inodes demo_dir 0) 1 = 1"
proof -
  have i: "inodes demo_dir 0 = root_inode\<lparr>isize := 32, iaddrs := (\<lambda>_. 0)(0 := 99)\<rparr>"
    by (simp add: demo_dir_def demo_cons_fs small_fs_sel)
  have c: "content small_disk (inodes demo_dir 0) p = ((\<lambda>_. 0)(16 := 1, 18 := 0x2E)) p" if "p < 512" for p
    using that by (simp add: content_def blk_def i root_inode_def small_disk_def)
  have e: "entry_inum small_disk (inodes demo_dir 0) 0 = 0" "entry_inum small_disk (inodes demo_dir 0) 1 = 1"
    by (simp_all add: entry_inum_def get16_def c)
  have n: "entry_name small_disk (inodes demo_dir 0) 1 = [0x2E]"
    by (simp add: entry_name_def name_at_def read_bytes_def c upt_rec)
  show "entry_inum small_disk (inodes demo_dir 0) 1 = 1" by (rule e)
  show "find_entry small_disk (inodes demo_dir 0) [0x2E] = Some 1"
    using e n by (simp add: find_entry_def i root_inode_def upt_rec)
qed

end
