(* ===== verification/Spinlock.thy ===== *)
theory Spinlock
  imports Prelude
begin

text \<open>
  \<^verbatim>\<open>src/alarm/spinlock.c\<close>: spin locks and the nesting of interrupt disabling.  \<open>cpu_flags\<close> holds the
  fields of \<open>struct cpu\<close> that \<open>pushcli\<close> and \<open>popcli\<close> use and the processor's interrupt flag.
  \<open>acquire\<close> and \<open>release\<close> are split at their memory accesses, so that the pieces of several
  processors can interleave; their sequential composition is the whole function.
\<close>

record cpu_flags =
  ncli :: int
  intena :: bool
  iflag :: bool     \<comment> \<open>FL_IF in eflags\<close>

record spinlock =
  lk_locked :: word32
  lk_cpu :: "nat option"
  lk_pcs :: "word32 list"

definition initlock :: "spinlock \<Rightarrow> spinlock" where
  "initlock lk = lk\<lparr>lk_locked := 0, lk_cpu := None\<rparr>"

definition pushcli :: "cpu_flags \<Rightarrow> cpu_flags" where
  "pushcli c =
     (let eflags = iflag c;
          c = c\<lparr>iflag := False\<rparr>;
          c = (if ncli c = 0 then c\<lparr>intena := eflags\<rparr> else c)
      in c\<lparr>ncli := ncli c + 1\<rparr>)"

definition popcli :: "cpu_flags \<Rightarrow> cpu_flags outcome" where
  "popcli c =
     (if iflag c then Panic ''popcli - interruptible''
      else let c = c\<lparr>ncli := ncli c - 1\<rparr> in
        if ncli c < 0 then Panic ''popcli''
        else Ok (if ncli c = 0 \<and> intena c then c\<lparr>iflag := True\<rparr> else c))"

definition holding :: "nat \<Rightarrow> spinlock \<Rightarrow> bool" where
  "holding me lk \<longleftrightarrow> lk_locked lk \<noteq> 0 \<and> lk_cpu lk = Some me"

text \<open>The chain of saved frame pointers, for at most \<open>n\<close> frames.\<close>

fun frames :: "nat \<Rightarrow> mem \<Rightarrow> nat \<Rightarrow> word32 list" where
  "frames 0 m ebp = []"
| "frames (Suc n) m ebp =
     (if ebp = 0 \<or> ebp < 0x80000000 \<or> ebp = 0xffffffff then []
      else get32 m (ebp + 4) # frames n m (unat (get32 m ebp)))"

definition getcallerpcs :: "mem \<Rightarrow> nat \<Rightarrow> word32 list" where
  "getcallerpcs m v = (let ps = frames 10 m (u32 (v + 2 ^ 32 - 8)) in ps @ replicate (10 - length ps) 0)"

text \<open>The pieces of \<open>acquire\<close>: before the loop, one exchange, after the loop.\<close>

definition acquire_enter :: "nat \<Rightarrow> spinlock \<Rightarrow> cpu_flags \<Rightarrow> cpu_flags outcome" where
  "acquire_enter me lk c = (let c = pushcli c in if holding me lk then Panic ''acquire'' else Ok c)"

definition xchg_locked :: "spinlock \<Rightarrow> bool \<times> spinlock" where
  "xchg_locked lk = (lk_locked lk = 0, lk\<lparr>lk_locked := 1\<rparr>)"

definition acquire_record :: "nat \<Rightarrow> word32 list \<Rightarrow> spinlock \<Rightarrow> spinlock" where
  "acquire_record me pcs lk = lk\<lparr>lk_cpu := Some me, lk_pcs := pcs\<rparr>"

definition acquire :: "nat \<Rightarrow> mem \<Rightarrow> nat \<Rightarrow> spinlock \<Rightarrow> cpu_flags \<Rightarrow> (spinlock \<times> cpu_flags) outcome" where
  "acquire me m v lk c =
     bindE (acquire_enter me lk c) (\<lambda>c.
     case xchg_locked lk of
       (True, lk) \<Rightarrow> Ok (acquire_record me (getcallerpcs m v) lk, c)
     | (False, lk) \<Rightarrow> Blocked ''spin lock'')"

text \<open>The pieces of \<open>release\<close>: clearing the owner, the store that frees the lock, \<open>popcli\<close>.\<close>

definition release_owner :: "nat \<Rightarrow> spinlock \<Rightarrow> spinlock outcome" where
  "release_owner me lk = (if \<not> holding me lk then Panic ''release'' else Ok (lk\<lparr>lk_pcs := (lk_pcs lk)[0 := 0], lk_cpu := None\<rparr>))"

definition release_store :: "spinlock \<Rightarrow> spinlock" where
  "release_store lk = lk\<lparr>lk_locked := 0\<rparr>"

definition release :: "nat \<Rightarrow> spinlock \<Rightarrow> cpu_flags \<Rightarrow> (spinlock \<times> cpu_flags) outcome" where
  "release me lk c =
     bindE (release_owner me lk) (\<lambda>lk.
     let lk = release_store lk in bindE (popcli c) (\<lambda>c. Ok (lk, c)))"

section \<open>Nested critical sections\<close>

datatype cli_op = Push | Pop

fun cli_run :: "cli_op list \<Rightarrow> cpu_flags \<Rightarrow> cpu_flags outcome" where
  "cli_run [] c = Ok c"
| "cli_run (Push # ops) c = cli_run ops (pushcli c)"
| "cli_run (Pop # ops) c = bindE (popcli c) (cli_run ops)"

text \<open>\<open>depth d ops\<close>: from nesting depth \<open>d\<close> the operations never pop at depth 0; the final depth.\<close>

fun depth :: "nat \<Rightarrow> cli_op list \<Rightarrow> nat option" where
  "depth d [] = Some d"
| "depth d (Push # ops) = depth (Suc d) ops"
| "depth d (Pop # ops) = (case d of 0 \<Rightarrow> None | Suc e \<Rightarrow> depth e ops)"

definition cli_ok :: "bool \<Rightarrow> nat \<Rightarrow> cpu_flags \<Rightarrow> bool" where
  "cli_ok f d c \<longleftrightarrow> ncli c = int d \<and> (if d = 0 then iflag c = f else \<not> iflag c \<and> intena c = f)"

lemma cli_ok_push: "cli_ok f d c \<Longrightarrow> cli_ok f (Suc d) (pushcli c)"
  by (auto simp: cli_ok_def pushcli_def Let_def)

lemma cli_ok_pop: "cli_ok f (Suc d) c \<Longrightarrow> \<exists>c'. popcli c = Ok c' \<and> cli_ok f d c'"
  by (auto simp: cli_ok_def popcli_def Let_def)

lemma cli_run_ok:
  "cli_ok f d c \<Longrightarrow>
     (case depth d ops of Some d' \<Rightarrow> \<exists>c'. cli_run ops c = Ok c' \<and> cli_ok f d' c'
      | None \<Rightarrow> \<exists>e. cli_run ops c = Panic e)"
proof (induction ops c arbitrary: d rule: cli_run.induct)
  case (2 ops c)
  show ?case using "2.IH" [OF cli_ok_push [OF "2.prems"]] by (simp split: option.splits)
next
  case (3 ops c)
  show ?case
  proof (cases d)
    case 0
    then show ?thesis using "3.prems" by (auto simp: cli_ok_def popcli_def Let_def)
  next
    case (Suc e)
    from cli_ok_pop [OF "3.prems" [unfolded Suc]] "3.IH" [of _ e] Suc show ?thesis by (auto split: option.splits)
  qed
qed simp

text \<open>Interrupt disabling nests.  Started with no nesting and interrupts on or off, a sequence of
  \<open>pushcli\<close> and \<open>popcli\<close> calls runs without panic exactly when no \<open>popcli\<close> is unmatched; then
  interrupts are off while calls are unmatched, and a balanced sequence restores the flag it found.\<close>

lemma cli_nesting:
  assumes "ncli c = 0"
  shows "case depth 0 ops of
     None \<Rightarrow> \<exists>e. cli_run ops c = Panic e
   | Some d \<Rightarrow> \<exists>c'. cli_run ops c = Ok c' \<and> ncli c' = int d \<and> (iflag c' \<longleftrightarrow> d = 0 \<and> iflag c)"
proof -
  have "cli_ok (iflag c) 0 c" using assms by (simp add: cli_ok_def)
  from cli_run_ok [OF this, of ops] show ?thesis
    by (auto simp: cli_ok_def split: option.splits if_splits)
qed

section \<open>Mutual exclusion\<close>

text \<open>
  Several processors run \<open>acquire(lk)\<close>, a critical section and \<open>release(lk)\<close>, in any interleaving of
  the pieces above.  \<open>phase\<close> is where a processor stands: outside, spinning, past the loop but
  before \<open>lk->cpu\<close> is set, in the critical section, in \<open>release\<close> before and after the store, or
  stopped by a panic.  A processor may take the lock again only after it has left.
\<close>

datatype phase = Outside | Spinning | Taken | Critical | Releasing | Released | Stopped

record smp =
  lk :: spinlock
  cpus :: "nat \<Rightarrow> cpu_flags"
  ph :: "nat \<Rightarrow> phase"

abbreviation goto :: "nat \<Rightarrow> phase \<Rightarrow> smp \<Rightarrow> smp" where
  "goto me p s \<equiv> s\<lparr>ph := (ph s)(me := p)\<rparr>"

inductive step :: "smp \<Rightarrow> smp \<Rightarrow> bool" where
  st_enter: "ph s me = Outside \<Longrightarrow> acquire_enter me (lk s) (cpus s me) = Ok c \<Longrightarrow>
    step s (goto me Spinning (s\<lparr>cpus := (cpus s)(me := c)\<rparr>))"
| st_enter_panic: "ph s me = Outside \<Longrightarrow> acquire_enter me (lk s) (cpus s me) = Panic e \<Longrightarrow>
    step s (goto me Stopped s)"
| st_spin: "ph s me = Spinning \<Longrightarrow> xchg_locked (lk s) = (False, l) \<Longrightarrow> step s (s\<lparr>lk := l\<rparr>)"
| st_take: "ph s me = Spinning \<Longrightarrow> xchg_locked (lk s) = (True, l) \<Longrightarrow> step s (goto me Taken (s\<lparr>lk := l\<rparr>))"
| st_record: "ph s me = Taken \<Longrightarrow> step s (goto me Critical (s\<lparr>lk := acquire_record me pcs (lk s)\<rparr>))"
| st_leave: "ph s me = Critical \<Longrightarrow> release_owner me (lk s) = Ok l \<Longrightarrow> step s (goto me Releasing (s\<lparr>lk := l\<rparr>))"
| st_leave_panic: "ph s me = Critical \<Longrightarrow> release_owner me (lk s) = Panic e \<Longrightarrow> step s (goto me Stopped s)"
| st_store: "ph s me = Releasing \<Longrightarrow> step s (goto me Released (s\<lparr>lk := release_store (lk s)\<rparr>))"
| st_done: "ph s me = Released \<Longrightarrow> popcli (cpus s me) = Ok c \<Longrightarrow>
    step s (goto me Outside (s\<lparr>cpus := (cpus s)(me := c)\<rparr>))"
| st_done_panic: "ph s me = Released \<Longrightarrow> popcli (cpus s me) = Panic e \<Longrightarrow> step s (goto me Stopped s)"

inductive_cases stepE: "step s s'"

inductive reachable :: "(nat \<Rightarrow> bool) \<Rightarrow> smp \<Rightarrow> bool" for f where
  boot: "lk s = initlock l \<Longrightarrow> (\<And>i. ph s i = Outside) \<Longrightarrow> (\<And>i. cli_ok (f i) 0 (cpus s i)) \<Longrightarrow> reachable f s"
| run: "reachable f s \<Longrightarrow> step s s' \<Longrightarrow> reachable f s'"

fun owning :: "phase \<Rightarrow> bool" where
  "owning p \<longleftrightarrow> p \<in> {Taken, Critical, Releasing}"

lemma owning_simps [simp]:
  "\<not> owning Outside" "\<not> owning Spinning" "owning Taken" "owning Critical" "owning Releasing" "\<not> owning Released"
  by simp_all

declare owning.simps [simp del]

definition nest :: "phase \<Rightarrow> nat" where
  "nest p = (case p of Outside \<Rightarrow> 0 | _ \<Rightarrow> 1)"

lemma nest_simps [simp]:
  "nest Outside = 0" "nest Spinning = 1" "nest Taken = 1" "nest Critical = 1" "nest Releasing = 1" "nest Released = 1"
  by (simp_all add: nest_def)

text \<open>\<open>smp_inv f ow s\<close>: \<open>ow\<close> is the processor that owns the lock, if any.\<close>

definition smp_inv :: "(nat \<Rightarrow> bool) \<Rightarrow> nat option \<Rightarrow> smp \<Rightarrow> bool" where
  "smp_inv f ow s \<longleftrightarrow>
     (\<forall>i. ph s i \<noteq> Stopped \<and> cli_ok (f i) (nest (ph s i)) (cpus s i)) \<and>
     (\<forall>i. owning (ph s i) \<longleftrightarrow> ow = Some i) \<and> (lk_locked (lk s) = 0 \<longleftrightarrow> ow = None) \<and>
     (\<forall>i. lk_cpu (lk s) = Some i \<longleftrightarrow> ph s i = Critical)"

lemma smp_inv_holding: "smp_inv f ow s \<Longrightarrow> holding i (lk s) \<longleftrightarrow> ph s i = Critical"
  unfolding smp_inv_def holding_def by (metis option.distinct(1) owning_simps(4))

lemma cli_ok_enter: "cli_ok f 0 c \<Longrightarrow> \<not> holding me l \<Longrightarrow> \<exists>c'. acquire_enter me l c = Ok c' \<and> cli_ok f 1 c'"
  using cli_ok_push [of f 0 c] by (simp add: acquire_enter_def Let_def)

lemma smp_inv_step:
  assumes inv: "smp_inv f ow s" and st: "step s s'"
  shows "\<exists>ow'. smp_inv f ow' s'"
proof -
  note h = smp_inv_holding [OF inv]
  have cli: "cli_ok (f i) (nest (ph s i)) (cpus s i)" for i
    using inv by (simp add: smp_inv_def)
  have own: "owning (ph s i) \<longleftrightarrow> ow = Some i" for i using inv by (simp add: smp_inv_def)
  have oth: "owning (ph s j) \<Longrightarrow> i \<noteq> j \<Longrightarrow> ph s i \<noteq> Critical" for i j using own [of j] own [of i] by auto
  note me = own cli
  show ?thesis using st
  proof (cases rule: step.cases)
    case (st_enter me c)
    then have "cli_ok (f me) 1 c" using cli_ok_enter [of "f me" "cpus s me" me "lk s"] me(2) [of me] h by auto
    then show ?thesis using inv st_enter me(1) [of me] me(2) [of me] by (intro exI [of _ ow]) (auto simp: smp_inv_def)
  next
    case (st_enter_panic me e)
    then show ?thesis using h by (simp add: acquire_enter_def Let_def split: if_splits)
  next
    case (st_spin me l)
    then show ?thesis using inv by (intro exI [of _ ow]) (auto simp: smp_inv_def xchg_locked_def)
  next
    case (st_take me l)
    then show ?thesis using inv me(2) [of me] by (intro exI [of _ "Some me"]) (auto simp: smp_inv_def xchg_locked_def)
  next
    case (st_record me pcs)
    then show ?thesis using inv me(1) [of me] me(2) [of me] oth [of me]
      by (intro exI [of _ ow]) (auto simp: smp_inv_def acquire_record_def)
  next
    case (st_leave me l)
    then show ?thesis using inv me(1) [of me] me(2) [of me] oth [of me]
      by (intro exI [of _ ow]) (auto simp: smp_inv_def release_owner_def split: if_splits)
  next
    case (st_leave_panic me e)
    then show ?thesis using h by (simp add: release_owner_def split: if_splits)
  next
    case (st_store me)
    then show ?thesis using inv me(1) [of me] me(2) [of me]
      by (intro exI [of _ None]) (auto simp: smp_inv_def release_store_def)
  next
    case (st_done me c)
    then have "cli_ok (f me) 0 c" using cli_ok_pop [of "f me" 0 "cpus s me"] me(2) [of me] by simp
    then show ?thesis using inv st_done me(1) [of me] me(2) [of me] by (intro exI [of _ ow]) (auto simp: smp_inv_def)
  next
    case (st_done_panic me e)
    then show ?thesis using cli_ok_pop [of "f me" 0 "cpus s me"] me(2) [of me] by auto
  qed
qed

lemma smp_inv_reachable: "reachable f s \<Longrightarrow> \<exists>ow. smp_inv f ow s"
proof (induction rule: reachable.induct)
  case (boot s l)
  then show ?case by (intro exI [of _ None]) (simp add: smp_inv_def initlock_def)
qed (use smp_inv_step in blast)

text \<open>C13: spin locks exclude each other.  However the memory accesses of \<open>acquire\<close> and \<open>release\<close> on
  any number of processors interleave, at most one processor is between winning the exchange and the
  releasing store, \<open>holding\<close> is true exactly for the one in its critical section, none of the panics
  in \<open>acquire\<close>, \<open>release\<close> and \<open>popcli\<close> is reached, and interrupts are off from \<open>acquire\<close> to the end of
  \<open>release\<close> and as before afterwards.\<close>

theorem spin_exclusion:
  assumes "reachable f s"
  shows "(\<forall>i j. owning (ph s i) \<longrightarrow> owning (ph s j) \<longrightarrow> i = j) \<and>
     (\<forall>i. holding i (lk s) \<longleftrightarrow> ph s i = Critical) \<and>
     (\<forall>i. ph s i \<noteq> Stopped \<and> (iflag (cpus s i) \<longleftrightarrow> ph s i = Outside \<and> f i))"
proof (intro conjI)
  from smp_inv_reachable [OF assms] obtain ow where inv: "smp_inv f ow s" by blast
  show "\<forall>i. holding i (lk s) \<longleftrightarrow> ph s i = Critical" using smp_inv_holding [OF inv] by blast
  show "\<forall>i. ph s i \<noteq> Stopped \<and> (iflag (cpus s i) \<longleftrightarrow> ph s i = Outside \<and> f i)"
  proof
    fix i
    from inv have "ph s i \<noteq> Stopped \<and> cli_ok (f i) (nest (ph s i)) (cpus s i)"
      by (simp add: smp_inv_def)
    then show "ph s i \<noteq> Stopped \<and> (iflag (cpus s i) \<longleftrightarrow> ph s i = Outside \<and> f i)"
      by (cases "ph s i") (auto simp: cli_ok_def)
  qed
  show "\<forall>i j. owning (ph s i) \<longrightarrow> owning (ph s j) \<longrightarrow> i = j" using inv unfolding smp_inv_def by (metis option.inject)
qed

text \<open>Processor 0 has taken the lock while processor 1 has begun to spin.\<close>

definition smp_boot :: smp where
  "smp_boot = \<lparr>lk = initlock \<lparr>lk_locked = 7, lk_cpu = None, lk_pcs = []\<rparr>,
     cpus = (\<lambda>_. \<lparr>ncli = 0, intena = False, iflag = True\<rparr>), ph = (\<lambda>_. Outside)\<rparr>"

definition smp_demo :: smp where
  "smp_demo = goto 0 Taken (smp_boot\<lparr>lk := (lk smp_boot)\<lparr>lk_locked := 1\<rparr>,
     cpus := (cpus smp_boot)(0 := pushcli (cpus smp_boot 0), 1 := pushcli (cpus smp_boot 1)),
     ph := (ph smp_boot)(1 := Spinning)\<rparr>)"

lemma smp_demo_reachable: "reachable (\<lambda>_. True) smp_demo"
proof -
  let ?c = "pushcli \<lparr>ncli = 0, intena = False, iflag = True\<rparr>"
  let ?s1 = "goto 0 Spinning (smp_boot\<lparr>cpus := (cpus smp_boot)(0 := ?c)\<rparr>)"
  let ?s2 = "goto 1 Spinning (?s1\<lparr>cpus := (cpus ?s1)(1 := ?c)\<rparr>)"
  have e: "acquire_enter i (lk smp_boot) \<lparr>ncli = 0, intena = False, iflag = True\<rparr> = Ok ?c" for i
    by (simp add: acquire_enter_def holding_def smp_boot_def initlock_def)
  have r0: "reachable (\<lambda>_. True) smp_boot" by (rule boot) (simp_all add: smp_boot_def cli_ok_def)
  have "step smp_boot ?s1" by (rule step.st_enter) (simp_all add: e [of 0] smp_boot_def, simp add: e [unfolded smp_boot_def, simplified])
  then have r1: "reachable (\<lambda>_. True) ?s1" by (rule reachable.run [OF r0])
  have "step ?s1 ?s2"
    by (rule step.st_enter) (use e [of 1] in \<open>simp_all add: smp_boot_def\<close>)
  then have r2: "reachable (\<lambda>_. True) ?s2" by (rule reachable.run [OF r1])
  have "step ?s2 (goto 0 Taken (?s2\<lparr>lk := (lk smp_boot)\<lparr>lk_locked := 1\<rparr>\<rparr>))"
    by (rule step.st_take) (simp_all add: xchg_locked_def smp_boot_def initlock_def)
  moreover have "goto 0 Taken (?s2\<lparr>lk := (lk smp_boot)\<lparr>lk_locked := 1\<rparr>\<rparr>) = smp_demo"
    by (simp add: smp_demo_def smp_boot_def fun_upd_twist)
  ultimately show ?thesis using reachable.run [OF r2] by simp
qed

theorem spin_exclusion_witness:
  "owning (ph smp_demo 0) \<and> \<not> owning (ph smp_demo 1) \<and> \<not> holding 0 (lk smp_demo)"
  using spin_exclusion [OF smp_demo_reachable] by (auto simp: smp_demo_def)

end
