(* ===== verification/Vm.thy ===== *)
theory Vm
  imports Path Spinlock
begin

text \<open>
  \<^verbatim>\<open>src/alarm/vm.c\<close>: page tables.  They live in kernel memory as in the source: a page directory and
  page tables of 1024 little-endian words each, in pages of the allocator.  A null pointer returned
  for a page table entry or a page is \<open>None\<close>.  The state adds the kernel's page directory, the linker
  symbol \<open>data\<close> and the processor (segment descriptors, task state, page table register).
\<close>

section \<open>The processor\<close>

record segdesc =
  sd_lim_15_0 :: nat
  sd_base_15_0 :: nat
  sd_base_23_16 :: nat
  sd_type :: nat
  sd_s :: nat
  sd_dpl :: nat
  sd_p :: nat
  sd_lim_19_16 :: nat
  sd_avl :: nat
  sd_rsv1 :: nat
  sd_db :: nat
  sd_g :: nat
  sd_base_31_24 :: nat

definition SEG :: "nat \<Rightarrow> nat \<Rightarrow> nat \<Rightarrow> nat \<Rightarrow> segdesc" where
  "SEG ty base lim dpl =
     \<lparr>sd_lim_15_0 = lim div 2 ^ 12 mod 2 ^ 16, sd_base_15_0 = base mod 2 ^ 16,
      sd_base_23_16 = base div 2 ^ 16 mod 2 ^ 8, sd_type = ty, sd_s = 1, sd_dpl = dpl, sd_p = 1,
      sd_lim_19_16 = lim div 2 ^ 28, sd_avl = 0, sd_rsv1 = 0, sd_db = 1, sd_g = 1, sd_base_31_24 = base div 2 ^ 24\<rparr>"

definition SEG16 :: "nat \<Rightarrow> nat \<Rightarrow> nat \<Rightarrow> nat \<Rightarrow> segdesc" where
  "SEG16 ty base lim dpl =
     \<lparr>sd_lim_15_0 = lim mod 2 ^ 16, sd_base_15_0 = base mod 2 ^ 16,
      sd_base_23_16 = base div 2 ^ 16 mod 2 ^ 8, sd_type = ty, sd_s = 1, sd_dpl = dpl, sd_p = 1,
      sd_lim_19_16 = lim div 2 ^ 16, sd_avl = 0, sd_rsv1 = 0, sd_db = 1, sd_g = 0, sd_base_31_24 = base div 2 ^ 24\<rparr>"

record cpu = cpu_flags +
  gdt :: "nat \<Rightarrow> segdesc"
  ts_addr :: nat           \<comment> \<open>\<open>&mycpu()->ts\<close>\<close>
  ts_ss0 :: nat
  ts_esp0 :: nat
  ts_iomb :: nat
  tr :: nat                \<comment> \<open>task register\<close>
  cr3 :: nat

abbreviation SEG_KCODE :: nat where "SEG_KCODE \<equiv> 1"
abbreviation SEG_KDATA :: nat where "SEG_KDATA \<equiv> 2"
abbreviation SEG_UCODE :: nat where "SEG_UCODE \<equiv> 3"
abbreviation SEG_UDATA :: nat where "SEG_UDATA \<equiv> 4"
abbreviation SEG_TSS :: nat where "SEG_TSS \<equiv> 5"
abbreviation DPL_USER :: nat where "DPL_USER \<equiv> 3"
abbreviation KSTACKSIZE :: nat where "KSTACKSIZE \<equiv> 4096"

record vm_state = cons_state +
  kpgdir :: nat
  kdata :: nat             \<comment> \<open>\<open>data[]\<close> of kernel.ld\<close>
  mycpu :: cpu

text \<open>\<open>STA_X|STA_R\<close> is 10, \<open>STA_W\<close> 2, \<open>STS_T32A\<close> 9; \<open>sizeof(struct taskstate)\<close> is 104.\<close>

definition seginit :: "'a vm_state_scheme \<Rightarrow> 'a vm_state_scheme" where
  "seginit s = s\<lparr>mycpu := (mycpu s)\<lparr>gdt := (gdt (mycpu s))
     (SEG_KCODE := SEG 10 0 0xffffffff 0, SEG_KDATA := SEG 2 0 0xffffffff 0,
      SEG_UCODE := SEG 10 0 0xffffffff DPL_USER, SEG_UDATA := SEG 2 0 0xffffffff DPL_USER)\<rparr>\<rparr>"

section \<open>Page tables\<close>

abbreviation PTE_P :: word32 where "PTE_P \<equiv> 1"
abbreviation PTE_W :: word32 where "PTE_W \<equiv> 2"
abbreviation PTE_U :: word32 where "PTE_U \<equiv> 4"
abbreviation NPDENTRIES :: nat where "NPDENTRIES \<equiv> 1024"
abbreviation EXTMEM :: nat where "EXTMEM \<equiv> 0x100000"
abbreviation DEVSPACE :: nat where "DEVSPACE \<equiv> 0xFE000000"
abbreviation KERNLINK :: nat where "KERNLINK \<equiv> 0x80100000"

definition PDX :: "nat \<Rightarrow> nat" where "PDX va = va div 2 ^ 22 mod 1024"
definition PTX :: "nat \<Rightarrow> nat" where "PTX va = va div 2 ^ 12 mod 1024"
definition PGADDR :: "nat \<Rightarrow> nat \<Rightarrow> nat \<Rightarrow> nat" where "PGADDR d t ofs = u32 (push_bit 22 d OR push_bit 12 t OR ofs)"
definition PTE_ADDR :: "word32 \<Rightarrow> nat" where "PTE_ADDR pte = unat (pte AND NOT 0xFFF)"
definition PTE_FLAGS :: "word32 \<Rightarrow> word32" where "PTE_FLAGS pte = pte AND 0xFFF"

definition walkpgdir :: "nat \<Rightarrow> nat \<Rightarrow> bool \<Rightarrow> 'a kmem_state_scheme \<Rightarrow> nat option \<times> 'a kmem_state_scheme" where
  "walkpgdir pgdir va alloc s =
     (let pde = pgdir + 4 * PDX va; e = get32 (kmem s) pde in
      if e AND PTE_P \<noteq> 0 then (Some (P2V (PTE_ADDR e) + 4 * PTX va), s)
      else if \<not> alloc then (None, s)
      else let (pgtab, s) = kalloc s in
        if pgtab = 0 then (None, s)
        else
          let s = s\<lparr>kmem := memset pgtab 0 PGSIZE (kmem s)\<rparr>;
              s = s\<lparr>kmem := put32 pde (of_nat (V2P pgtab) OR PTE_P OR PTE_W OR PTE_U) (kmem s)\<rparr>
          in (Some (pgtab + 4 * PTX va), s))"

definition mappages_step :: "nat \<Rightarrow> word32 \<Rightarrow> nat \<times> nat \<Rightarrow> 'a kmem_state_scheme \<Rightarrow> (int option \<times> 'a kmem_state_scheme) outcome" where
  "mappages_step pgdir perm = (\<lambda>(a, pa) s.
     case walkpgdir pgdir a True s of
       (None, s) \<Rightarrow> Ok (Some (-1), s)
     | (Some pte, s) \<Rightarrow>
         if get32 (kmem s) pte AND PTE_P \<noteq> 0 then Panic ''remap''
         else Ok (None, s\<lparr>kmem := put32 pte (of_nat pa OR perm OR PTE_P) (kmem s)\<rparr>))"

text \<open>The pages the loop of \<open>mappages\<close> visits, from \<open>a\<close> to \<open>last\<close> inclusive, with their frames;
  addresses wrap at \<open>2\<^sup>3\<^sup>2\<close>, as for the mapping of \<open>DEVSPACE\<close>.\<close>

definition map_range :: "nat \<Rightarrow> nat \<Rightarrow> nat \<Rightarrow> (nat \<times> nat) list" where
  "map_range a lst pa = map (\<lambda>k. (u32 (a + k * PGSIZE), u32 (pa + k * PGSIZE)))
     [0..<u32 (lst + 2 ^ 32 - a) div PGSIZE + 1]"

definition mappages :: "nat \<Rightarrow> nat \<Rightarrow> nat \<Rightarrow> nat \<Rightarrow> word32 \<Rightarrow> 'a kmem_state_scheme \<Rightarrow> (int \<times> 'a kmem_state_scheme) outcome" where
  "mappages pgdir va sz pa perm s =
     (let a = PGROUNDDOWN va; lst = PGROUNDDOWN (u32 (va + sz + 2 ^ 32 - 1)) in
      bindE (loopE (mappages_step pgdir perm) (map_range a lst pa) s) (\<lambda>(r, s).
      Ok (case r of Some v \<Rightarrow> (v, s) | None \<Rightarrow> (0, s))))"

function deallocuvm_loop :: "nat \<Rightarrow> nat \<Rightarrow> nat \<Rightarrow> 'a kmem_state_scheme \<Rightarrow> 'a kmem_state_scheme outcome" where
  "deallocuvm_loop pgdir a oldsz s =
     (if a < oldsz then
        case fst (walkpgdir pgdir a False s) of
          None \<Rightarrow>
            let a' = u32 (u32 (PGADDR (PDX a + 1) 0 0 + 2 ^ 32 - PGSIZE) + PGSIZE)
            in if a < a' then deallocuvm_loop pgdir a' oldsz s else Forever
        | Some pte \<Rightarrow>
            bindE (let e = get32 (kmem s) pte in
                   if e AND PTE_P \<noteq> 0 then
                     let pa = PTE_ADDR e in
                     if pa = 0 then Panic ''kfree''
                     else bindE (kfree (P2V pa) s) (\<lambda>s. Ok (s\<lparr>kmem := put32 pte 0 (kmem s)\<rparr>))
                   else Ok s) (\<lambda>s.
            let a' = u32 (a + PGSIZE) in if a < a' then deallocuvm_loop pgdir a' oldsz s else Forever)
      else Ok s)"
  by pat_completeness auto
termination
  by (relation "measure (\<lambda>(pgdir, a, oldsz, s). oldsz - a)") auto

declare deallocuvm_loop.simps [simp del]

text \<open>An address that wraps around makes the loop start over for ever; callers keep \<open>oldsz\<close> at or
  below \<open>KERNBASE\<close>.\<close>

definition deallocuvm :: "nat \<Rightarrow> nat \<Rightarrow> nat \<Rightarrow> 'a kmem_state_scheme \<Rightarrow> (nat \<times> 'a kmem_state_scheme) outcome" where
  "deallocuvm pgdir oldsz newsz s =
     (if oldsz \<le> newsz then Ok (oldsz, s)
      else bindE (deallocuvm_loop pgdir (PGROUNDUP newsz) oldsz s) (\<lambda>s. Ok (newsz, s)))"

definition freevm_step :: "nat \<Rightarrow> nat \<Rightarrow> 'a kmem_state_scheme \<Rightarrow> 'a kmem_state_scheme outcome" where
  "freevm_step pgdir i s =
     (let e = get32 (kmem s) (pgdir + 4 * i) in
      if e AND PTE_P \<noteq> 0 then kfree (P2V (PTE_ADDR e)) s else Ok s)"

definition freevm :: "nat \<Rightarrow> 'a kmem_state_scheme \<Rightarrow> 'a kmem_state_scheme outcome" where
  "freevm pgdir s =
     (if pgdir = 0 then Panic ''freevm: no pgdir''
      else bindE (deallocuvm pgdir KERNBASE 0 s) (\<lambda>(_, s).
           bindE (forE (freevm_step pgdir) [0..<NPDENTRIES] s) (kfree pgdir)))"

text \<open>The table \<open>kmap\<close>: virtual address, physical range, permissions.\<close>

definition kmap :: "nat \<Rightarrow> (nat \<times> nat \<times> nat \<times> word32) list" where
  "kmap data = [(KERNBASE, 0, EXTMEM, PTE_W), (KERNLINK, V2P KERNLINK, V2P data, 0),
     (data, V2P data, PHYSTOP, PTE_W), (DEVSPACE, DEVSPACE, 0, PTE_W)]"

definition setupkvm_step :: "nat \<Rightarrow> nat \<times> nat \<times> nat \<times> word32 \<Rightarrow> 'a kmem_state_scheme \<Rightarrow> (unit option \<times> 'a kmem_state_scheme) outcome" where
  "setupkvm_step pgdir = (\<lambda>(virt, start, pend, perm) s.
     bindE (mappages pgdir virt (u32 (pend + 2 ^ 32 - start)) start perm s) (\<lambda>(r, s).
     if r < 0 then bindE (freevm pgdir s) (\<lambda>s. Ok (Some (), s)) else Ok (None, s)))"

definition setupkvm :: "'a vm_state_scheme \<Rightarrow> (nat option \<times> 'a vm_state_scheme) outcome" where
  "setupkvm s =
     (let (pgdir, s) = kalloc s in
      if pgdir = 0 then Ok (None, s)
      else let s = s\<lparr>kmem := memset pgdir 0 PGSIZE (kmem s)\<rparr> in
        if P2V PHYSTOP > DEVSPACE then Panic ''PHYSTOP too high''
        else bindE (loopE (setupkvm_step pgdir) (kmap (kdata s)) s) (\<lambda>(r, s).
          Ok (case r of Some _ \<Rightarrow> None | None \<Rightarrow> Some pgdir, s)))"

definition switchkvm :: "'a vm_state_scheme \<Rightarrow> 'a vm_state_scheme" where
  "switchkvm s = s\<lparr>mycpu := (mycpu s)\<lparr>cr3 := V2P (kpgdir s)\<rparr>\<rparr>"

definition kvmalloc :: "'a vm_state_scheme \<Rightarrow> 'a vm_state_scheme outcome" where
  "kvmalloc s =
     bindE (setupkvm s) (\<lambda>(r, s).
     Ok (switchkvm (s\<lparr>kpgdir := (case r of Some p \<Rightarrow> p | None \<Rightarrow> 0)\<rparr>)))"

text \<open>The process is given by its kernel stack and page directory.\<close>

definition cpu_cli :: "(cpu_flags \<Rightarrow> cpu_flags) \<Rightarrow> cpu \<Rightarrow> cpu" where
  "cpu_cli f c = (let d = f (cpu_flags.truncate c) in c\<lparr>ncli := ncli d, intena := intena d, iflag := iflag d\<rparr>)"

definition switchuvm :: "(nat \<times> nat) option \<Rightarrow> 'a vm_state_scheme \<Rightarrow> 'a vm_state_scheme outcome" where
  "switchuvm p s =
     (case p of None \<Rightarrow> Panic ''switchuvm: no process''
      | Some (kstack, pgdir) \<Rightarrow>
          if kstack = 0 then Panic ''switchuvm: no kstack''
          else if pgdir = 0 then Panic ''switchuvm: no pgdir''
          else
            let c = cpu_cli pushcli (mycpu s);
                c = c\<lparr>gdt := (gdt c)(SEG_TSS := (SEG16 9 (ts_addr c) (104 - 1) 0)\<lparr>sd_s := 0\<rparr>),
                      ts_ss0 := SEG_KDATA * 8, ts_esp0 := u32 (kstack + KSTACKSIZE),
                      ts_iomb := 0xFFFF, tr := SEG_TSS * 8, cr3 := V2P pgdir\<rparr>
            in bindE (popcli (cpu_flags.truncate c)) (\<lambda>d. Ok (s\<lparr>mycpu := cpu_cli (\<lambda>_. d) c\<rparr>)))"

text \<open>\<open>init\<close> points into kernel memory.  Without a page the kernel faults at address 0 for ever:
  \<open>trap\<close> returns from a page fault to the faulting instruction.\<close>

definition inituvm :: "nat \<Rightarrow> nat \<Rightarrow> nat \<Rightarrow> 'a kmem_state_scheme \<Rightarrow> 'a kmem_state_scheme outcome" where
  "inituvm pgdir init sz s =
     (if PGSIZE \<le> sz then Panic ''inituvm: more than a page''
      else let (m, s) = kalloc s in
        if m = 0 then Forever
        else let s = s\<lparr>kmem := memset m 0 PGSIZE (kmem s)\<rparr> in
          bindE (mappages pgdir 0 PGSIZE (V2P m) (PTE_W OR PTE_U) s) (\<lambda>(_, s).
          Ok (s\<lparr>kmem := memmove m init sz (kmem s)\<rparr>)))"

definition page_offs :: "nat \<Rightarrow> nat list" where
  "page_offs n = map (\<lambda>k. k * PGSIZE) [0..<(n + PGSIZE - 1) div PGSIZE]"

definition loaduvm_step :: "nat \<Rightarrow> nat \<Rightarrow> nat \<Rightarrow> nat \<Rightarrow> nat \<Rightarrow> nat \<Rightarrow> 'a vm_state_scheme \<Rightarrow> (int option \<times> 'a vm_state_scheme) outcome" where
  "loaduvm_step pgdir addr ip offset sz i s =
     (case fst (walkpgdir pgdir (u32 (addr + i)) False s) of
        None \<Rightarrow> Panic ''loaduvm: address should exist''
      | Some pte \<Rightarrow>
          let pa = PTE_ADDR (get32 (kmem s) pte);
              n = (if sz - i < PGSIZE then sz - i else PGSIZE)
          in bindE (readi ip (kmem s) (P2V pa) (u32 (offset + i)) n s) (\<lambda>(r, D, s).
             let s = s\<lparr>kmem := D\<rparr> in Ok (if r \<noteq> int n then Some (-1) else None, s)))"

definition loaduvm :: "nat \<Rightarrow> nat \<Rightarrow> nat \<Rightarrow> nat \<Rightarrow> nat \<Rightarrow> 'a vm_state_scheme \<Rightarrow> (int \<times> 'a vm_state_scheme) outcome" where
  "loaduvm pgdir addr ip offset sz s =
     (if addr mod PGSIZE \<noteq> 0 then Panic ''loaduvm: addr must be page aligned''
      else bindE (loopE (loaduvm_step pgdir addr ip offset sz) (page_offs sz) s) (\<lambda>(r, s).
        Ok (case r of Some v \<Rightarrow> v | None \<Rightarrow> 0, s)))"

definition ascii :: "string \<Rightarrow> byte list" where
  "ascii = map of_char"

definition allocuvm_step :: "nat \<Rightarrow> nat \<Rightarrow> nat \<Rightarrow> nat \<Rightarrow> 'a vm_state_scheme \<Rightarrow> (nat option \<times> 'a vm_state_scheme) outcome" where
  "allocuvm_step pgdir oldsz newsz a s =
     (let (m, s) = kalloc s in
      if m = 0 then
        bindE (cprintf (Some (ascii ''allocuvm out of memory'' @ [10])) (\<lambda>_. 0) s) (\<lambda>s.
        bindE (deallocuvm pgdir newsz oldsz s) (\<lambda>(_, s). Ok (Some 0, s)))
      else
        let s = s\<lparr>kmem := memset m 0 PGSIZE (kmem s)\<rparr> in
        bindE (mappages pgdir a PGSIZE (V2P m) (PTE_W OR PTE_U) s) (\<lambda>(r, s).
        if r < 0 then
          bindE (cprintf (Some (ascii ''allocuvm out of memory (2)'' @ [10])) (\<lambda>_. 0) s) (\<lambda>s.
          bindE (deallocuvm pgdir newsz oldsz s) (\<lambda>(_, s).
          bindE (kfree m s) (\<lambda>s. Ok (Some 0, s))))
        else Ok (None, s)))"

definition allocuvm :: "nat \<Rightarrow> nat \<Rightarrow> nat \<Rightarrow> 'a vm_state_scheme \<Rightarrow> (nat \<times> 'a vm_state_scheme) outcome" where
  "allocuvm pgdir oldsz newsz s =
     (if KERNBASE \<le> newsz then Ok (0, s)
      else if newsz < oldsz then Ok (oldsz, s)
      else
        let a = PGROUNDUP oldsz in
        bindE (loopE (allocuvm_step pgdir oldsz newsz) (map (\<lambda>o'. a + o') (page_offs (newsz - a))) s) (\<lambda>(r, s).
        Ok (case r of Some v \<Rightarrow> v | None \<Rightarrow> newsz, s)))"

definition clearpteu :: "nat \<Rightarrow> nat \<Rightarrow> 'a kmem_state_scheme \<Rightarrow> 'a kmem_state_scheme outcome" where
  "clearpteu pgdir uva s =
     (case fst (walkpgdir pgdir uva False s) of
        None \<Rightarrow> Panic ''clearpteu''
      | Some pte \<Rightarrow> Ok (s\<lparr>kmem := put32 pte (get32 (kmem s) pte AND NOT PTE_U) (kmem s)\<rparr>))"

definition copyuvm_step :: "nat \<Rightarrow> nat \<Rightarrow> nat \<Rightarrow> 'a vm_state_scheme \<Rightarrow> (unit option \<times> 'a vm_state_scheme) outcome" where
  "copyuvm_step pgdir d i s =
     (case fst (walkpgdir pgdir i False s) of
        None \<Rightarrow> Panic ''copyuvm: pte should exist''
      | Some pte \<Rightarrow>
          let e = get32 (kmem s) pte in
          if e AND PTE_P = 0 then Panic ''copyuvm: page not present''
          else
            let pa = PTE_ADDR e; flags = PTE_FLAGS e; (m, s) = kalloc s in
            if m = 0 then Ok (Some (), s)
            else
              let s = s\<lparr>kmem := memmove m (P2V pa) PGSIZE (kmem s)\<rparr> in
              bindE (mappages d i PGSIZE (V2P m) flags s) (\<lambda>(r, s).
              Ok (if r < 0 then Some () else None, s)))"

definition copyuvm :: "nat \<Rightarrow> nat \<Rightarrow> 'a vm_state_scheme \<Rightarrow> (nat option \<times> 'a vm_state_scheme) outcome" where
  "copyuvm pgdir sz s =
     bindE (setupkvm s) (\<lambda>(d, s).
     case d of None \<Rightarrow> Ok (None, s)
     | Some d \<Rightarrow>
         bindE (loopE (copyuvm_step pgdir d) (page_offs sz) s) (\<lambda>(r, s).
         case r of None \<Rightarrow> Ok (Some d, s)
         | Some _ \<Rightarrow> bindE (freevm d s) (\<lambda>s. Ok (None, s))))"

text \<open>\<open>M\<close> is the memory the kernel sees: for a missing page table \<open>uva2ka\<close> reads the entry through
  the null pointer, at address 0.\<close>

definition uva2ka :: "nat \<Rightarrow> nat \<Rightarrow> mem \<Rightarrow> 'a kmem_state_scheme \<Rightarrow> nat option" where
  "uva2ka pgdir uva M s =
     (let e = (case fst (walkpgdir pgdir uva False s) of None \<Rightarrow> get32 M 0 | Some pte \<Rightarrow> get32 (kmem s) pte) in
      if e AND PTE_P = 0 then None
      else if e AND PTE_U = 0 then None
      else Some (P2V (PTE_ADDR e)))"

lemma page_rest: "va - PGROUNDDOWN va < PGSIZE"
proof -
  have "va - PGROUNDDOWN va = va mod PGSIZE" by (simp add: PGROUNDDOWN_def minus_div_mult_eq_mod)
  then show ?thesis by simp
qed

function copyout :: "nat \<Rightarrow> nat \<Rightarrow> mem \<Rightarrow> nat \<Rightarrow> nat \<Rightarrow> 'a kmem_state_scheme \<Rightarrow> int \<times> 'a kmem_state_scheme" where
  "copyout pgdir va M buf len s =
     (if 0 < len then
        let va0 = PGROUNDDOWN va in
        case uva2ka pgdir va0 M s of
          None \<Rightarrow> (-1, s)
        | Some pa0 \<Rightarrow>
            let n = min (PGSIZE - (va - va0)) len
            in copyout pgdir (u32 (va0 + PGSIZE)) M (buf + n) (len - n)
                 (s\<lparr>kmem := blit (kmem s) (pa0 + (va - va0)) M buf n\<rparr>)
      else (0, s))"
  by pat_completeness auto
termination
  by (relation "measure (\<lambda>(pgdir, va, M, buf, len, s). len)") (auto simp: page_rest)

declare copyout.simps [simp del]

section \<open>Page tables as maps\<close>

text \<open>
  The table a directory entry points to, and the entry for a virtual address.  \<open>pt_ok s pgdir xs\<close>: with
  \<open>xs\<close> the free pages, the directory and its page tables are different pages of physical memory, none
  of them free.
\<close>

definition pde_at :: "'a kmem_state_scheme \<Rightarrow> nat \<Rightarrow> nat \<Rightarrow> word32" where
  "pde_at s pgdir i = get32 (kmem s) (pgdir + 4 * i)"

definition present :: "'a kmem_state_scheme \<Rightarrow> nat \<Rightarrow> nat \<Rightarrow> bool" where
  "present s pgdir i \<longleftrightarrow> pde_at s pgdir i AND PTE_P \<noteq> 0"

definition table :: "'a kmem_state_scheme \<Rightarrow> nat \<Rightarrow> nat \<Rightarrow> nat" where
  "table s pgdir i = P2V (PTE_ADDR (pde_at s pgdir i))"

definition translate :: "'a kmem_state_scheme \<Rightarrow> nat \<Rightarrow> nat \<Rightarrow> word32 option" where
  "translate s pgdir va =
     (if present s pgdir (PDX va) then
        let e = get32 (kmem s) (table s pgdir (PDX va) + 4 * PTX va)
        in if e AND PTE_P \<noteq> 0 then Some e else None
      else None)"

definition pt_ok :: "'a kmem_state_scheme \<Rightarrow> nat \<Rightarrow> nat list \<Rightarrow> bool" where
  "pt_ok s pgdir xs \<longleftrightarrow> free_list s xs \<and> freepage s pgdir \<and> pgdir \<notin> set xs \<and>
     (\<forall>i < 1024. present s pgdir i \<longrightarrow>
        freepage s (table s pgdir i) \<and> table s pgdir i \<noteq> pgdir \<and> table s pgdir i \<notin> set xs \<and>
        (\<forall>j < 1024. present s pgdir j \<longrightarrow> table s pgdir i = table s pgdir j \<longrightarrow> i = j))"

abbreviation same_page :: "nat \<Rightarrow> nat \<Rightarrow> bool" where
  "same_page v w \<equiv> PDX v = PDX w \<and> PTX v = PTX w"

lemma PDX_less [simp]: "PDX va < 1024" by (simp add: PDX_def)
lemma PTX_less [simp]: "PTX va < 1024" by (simp add: PTX_def)

lemma freepage_simps [simp]:
  "freepage (s\<lparr>kmem := m\<rparr>) v = freepage s v" "freepage (s\<lparr>freelist := l\<rparr>) v = freepage s v"
  by (simp_all add: freepage_def)

lemma page_word_cong:
  assumes "\<And>i. p \<le> i \<Longrightarrow> i < p + PGSIZE \<Longrightarrow> m i = m' i" "i < 1024"
  shows "get32 m (p + 4 * i) = get32 m' (p + 4 * i)"
  by (rule get32_cong) (use assms in auto)

text \<open>Pages are disjoint: bytes of one page do not lie in another.\<close>

lemma page_apart:
  assumes "freepage s p" "freepage s q" "p \<noteq> q" "p \<le> i" "i < p + PGSIZE"
  shows "i < q \<or> q + PGSIZE \<le> i"
proof -
  obtain a b where "p = a * PGSIZE" "q = b * PGSIZE"
    using assms(1,2) unfolding freepage_def by (metis div_mod_decomp add.right_neutral)
  with assms(3-5) show ?thesis by (cases "a < b") (auto simp: not_less le_less)
qed

lemma free_list_page:
  assumes "free_list s xs" "freepage s v" "v \<notin> set xs"
    "\<And>i. i < v \<or> v + PGSIZE \<le> i \<Longrightarrow> m i = kmem s i"
  shows "free_list (s\<lparr>kmem := m\<rparr>) xs"
proof -
  have "v mod PGSIZE = 0" using assms(2) by (simp add: freepage_def)
  from free_list_write [OF assms(1) this assms(3,4)] assms(1) show ?thesis
    by (simp add: free_list_def)
qed

lemma PTE_ADDR_page:
  assumes "p mod PGSIZE = 0" "p < 2 ^ 32" "f AND NOT 0xFFF = 0"
  shows "PTE_ADDR (of_nat p OR f) = p"
proof -
  have m: "(0xFFF :: word32) = mask 12" by (simp add: mask_eq_exp_minus_1)
  have "take_bit 12 p = 0" using assms(1) by (simp add: take_bit_eq_mod)
  then have "take_bit 12 (of_nat p :: word32) = 0" by (simp flip: of_nat_take_bit)
  then have "n < 12 \<Longrightarrow> \<not> bit (of_nat p :: word32) n" for n
    by (metis bit_take_bit_iff bit_0_eq bot_apply bot_bool_def)
  then have "(of_nat p :: word32) AND NOT 0xFFF = of_nat p"
    unfolding m by (intro bit_word_eqI) (auto simp: bit_and_iff bit_not_iff bit_mask_iff)
  then have "(of_nat p OR f) AND NOT 0xFFF = of_nat p" using assms(3) by (simp add: bit.conj_disj_distrib2)
  then show ?thesis using assms(2) by (simp add: PTE_ADDR_def unat_of_nat)
qed

lemma P2V_V2P: "KERNBASE \<le> p \<Longrightarrow> p < 2 ^ 32 \<Longrightarrow> P2V (V2P p) = p"
  by (simp add: V2P_kernel P2V_def)

lemma new_pde:
  assumes "freepage s p"
  shows "P2V (PTE_ADDR (of_nat (V2P p) OR PTE_P OR PTE_W OR PTE_U)) = p"
    "(of_nat (V2P p) OR PTE_P OR PTE_W OR PTE_U :: word32) AND PTE_P \<noteq> 0"
proof -
  have p: "KERNBASE \<le> p" "p < 2 ^ 32" "p mod PGSIZE = 0" using assms by (auto simp: freepage_def)
  have "PGSIZE dvd p" "PGSIZE dvd KERNBASE" using p(3) by auto
  then have "PGSIZE dvd p - KERNBASE" by (rule dvd_diff_nat)
  then have v: "V2P p mod PGSIZE = 0" "V2P p < 2 ^ 32" using p by (simp_all add: V2P_kernel)
  have "PTE_ADDR (of_nat (V2P p) OR (PTE_P OR PTE_W OR PTE_U)) = V2P p"
    by (rule PTE_ADDR_page [OF v]) simp
  then show "P2V (PTE_ADDR (of_nat (V2P p) OR PTE_P OR PTE_W OR PTE_U)) = p"
    using P2V_V2P [OF p(1,2)] by (simp add: or.assoc)
  have "bit (of_nat (V2P p) OR PTE_P OR PTE_W OR PTE_U :: word32) 0" by (simp add: bit_simps)
  then show "(of_nat (V2P p) OR PTE_P OR PTE_W OR PTE_U :: word32) AND PTE_P \<noteq> 0"
    by (simp add: and_one_eq odd_iff_mod_2_eq_one bit_0)
qed

lemma memset_zero_page: "freepage s p \<Longrightarrow> memset p 0 PGSIZE m = fill m p 0 PGSIZE"
  by (simp add: memset_fill)

text \<open>Writing inside one page of the structure leaves the words of the other pages alone.\<close>

lemma pde_at_other:
  assumes "freepage s pgdir" "freepage s v" "v \<noteq> pgdir" "i < 1024"
    "\<And>x. x < v \<or> v + PGSIZE \<le> x \<Longrightarrow> m x = kmem s x"
  shows "pde_at (s\<lparr>kmem := m\<rparr>) pgdir i = pde_at s pgdir i"
  unfolding pde_at_def using assms page_apart [OF assms(1,2)]
  by (simp, intro page_word_cong) auto

text \<open>\<open>walkpgdir\<close> with allocation: the entry's address; a table is made from the first free page if
  there was none, and no translation changes.\<close>

lemma walk_present:
  "present s pgdir (PDX va) \<Longrightarrow> walkpgdir pgdir va al s = (Some (table s pgdir (PDX va) + 4 * PTX va), s)"
  by (simp add: walkpgdir_def Let_def present_def table_def pde_at_def)

lemma walk_absent:
  "\<not> present s pgdir (PDX va) \<Longrightarrow> walkpgdir pgdir va False s = (None, s)"
  by (simp add: walkpgdir_def Let_def present_def pde_at_def)

lemma walk_alloc:
  assumes ok: "pt_ok s pgdir xs" and np: "\<not> present s pgdir (PDX va)"
  shows "case xs of [] \<Rightarrow> walkpgdir pgdir va True s = (None, s)
   | p # ys \<Rightarrow> \<exists>s'. walkpgdir pgdir va True s = (Some (p + 4 * PTX va), s') \<and> pt_ok s' pgdir ys \<and>
       present s' pgdir (PDX va) \<and> table s' pgdir (PDX va) = p \<and>
       (\<forall>i. i \<noteq> PDX va \<longrightarrow> i < 1024 \<longrightarrow> pde_at s' pgdir i = pde_at s pgdir i) \<and>
       translate s' pgdir = translate s pgdir \<and> kend s' = kend s \<and>
       (\<forall>x. (x < pgdir \<or> pgdir + PGSIZE \<le> x) \<longrightarrow> (x < p \<or> p + PGSIZE \<le> x) \<longrightarrow> kmem s' x = kmem s x)"
proof (cases xs)
  case Nil
  then have "kalloc s = (0, s)" using ok by (simp add: pt_ok_def kpages.al_empty)
  then show ?thesis using np Nil by (simp add: walkpgdir_def Let_def present_def pde_at_def)
next
  case (Cons p ys)
  let ?i = "PDX va"
  have fl: "free_list s (p # ys)" and d: "freepage s pgdir" "pgdir \<notin> set (p # ys)"
    using ok Cons by (auto simp: pt_ok_def)
  have p: "freepage s p" "p \<noteq> 0" "p \<noteq> pgdir" "p \<notin> set ys" using fl d by (auto simp: free_list_def freepage_def)
  define s1 where "s1 = s\<lparr>freelist := unat (get32 (kmem s) p)\<rparr>"
  define e where "e = (of_nat (V2P p) OR PTE_P OR PTE_W OR PTE_U :: word32)"
  define m1 where "m1 = fill (kmem s) p 0 PGSIZE"
  define m2 where "m2 = put32 (pgdir + 4 * ?i) e m1"
  define s' where "s' = s1\<lparr>kmem := m2\<rparr>"
  have ka: "kalloc s = (p, s1)" using kalloc_cons [OF fl] by (simp add: s1_def)
  have w: "walkpgdir pgdir va True s = (Some (p + 4 * PTX va), s')"
    using np p(2) memset_zero_page [OF p(1)]
    by (simp add: walkpgdir_def Let_def present_def pde_at_def ka s'_def m2_def m1_def e_def s1_def)
  have fl1: "free_list s1 ys" using kalloc_cons(2) [OF fl] ka by simp
  have m1o: "x < p \<or> p + PGSIZE \<le> x \<Longrightarrow> m1 x = kmem s x" for x by (simp add: m1_def fill_outside)
  have m2d: "x < pgdir \<or> pgdir + PGSIZE \<le> x \<Longrightarrow> m2 x = m1 x" for x
    unfolding m2_def by (rule put32_other) (use PDX_less [of va] in linarith)
  have fp: "freepage s1 = freepage s" by (simp add: s1_def fun_eq_iff freepage_def)
  have "free_list (s1\<lparr>kmem := m1\<rparr>) ys"
    by (rule free_list_page [OF fl1]) (use fp p m1o in \<open>auto simp: s1_def\<close>)
  then have fl2: "free_list s' ys"
    using free_list_page [of "s1\<lparr>kmem := m1\<rparr>" ys pgdir m2] fp d m2d by (simp add: s'_def)
  have pd: "pde_at s' pgdir i = (if i = ?i then e else pde_at s pgdir i)" if "i < 1024" for i
  proof (cases "i = ?i")
    case False
    then have "get32 m2 (pgdir + 4 * i) = get32 m1 (pgdir + 4 * i)"
      unfolding m2_def by (intro get32_put32_other) auto
    also have "\<dots> = get32 (kmem s) (pgdir + 4 * i)"
      by (rule page_word_cong) (use m1o page_apart [OF d(1) p(1)] p(3) that in auto)
    finally show ?thesis using False by (simp add: pde_at_def s'_def)
  qed (simp add: pde_at_def s'_def m2_def)
  have pr: "present s' pgdir i \<longleftrightarrow> i = ?i \<or> present s pgdir i" if "i < 1024" for i
    using pd [OF that] new_pde(2) [OF p(1)] by (auto simp: present_def e_def)
  have tb: "table s' pgdir i = (if i = ?i then p else table s pgdir i)" if "i < 1024" for i
    using pd [OF that] new_pde(1) [OF p(1)] by (auto simp: table_def e_def)
  have old: "freepage s (table s pgdir i)" "table s pgdir i \<noteq> pgdir" "table s pgdir i \<notin> set (p # ys)"
    if "i < 1024" "present s pgdir i" for i using ok that Cons by (auto simp: pt_ok_def)
  have "freepage s' = freepage s" by (simp add: s'_def s1_def fun_eq_iff)
  then have pt: "pt_ok s' pgdir ys"
    using ok fl2 d p old np unfolding pt_ok_def by (auto simp: pr tb Cons) 
  have same: "get32 m2 (table s pgdir i + 4 * j) = get32 (kmem s) (table s pgdir i + 4 * j)"
    if "i < 1024" "present s pgdir i" "j < 1024" for i j
    by (rule page_word_cong [OF _ that(3)])
      (use old [OF that(1,2)] page_apart [OF old(1) [OF that(1,2)] p(1)] page_apart [OF old(1) [OF that(1,2)] d(1)] m1o m2d in auto)
  have zero: "get32 m2 (p + 4 * j) = 0" if "j < 1024" for j
  proof -
    have "get32 m2 (p + 4 * j) = get32 (\<lambda>_. 0) (p + 4 * j)"
      by (rule page_word_cong [OF _ that]) (use page_apart [OF p(1) d(1)] p(3) m2d in \<open>auto simp: m1_def fill_inside\<close>)
    then show ?thesis by (simp add: get32_def)
  qed
  have tr: "translate s' pgdir v = translate s pgdir v" for v
  proof (cases "PDX v = ?i")
    case True
    then have "translate s' pgdir v = None"
      using pr [of ?i] tb [of ?i] zero [of "PTX v"] by (simp add: translate_def s'_def)
    then show ?thesis using True np by (simp add: translate_def)
  next
    case False
    then show ?thesis using pr [of "PDX v"] tb [of "PDX v"] same [of "PDX v" "PTX v"] by (simp add: translate_def s'_def)
  qed
  have fr: "kmem s' x = kmem s x" if "x < pgdir \<or> pgdir + PGSIZE \<le> x" "x < p \<or> p + PGSIZE \<le> x" for x
    using m2d [OF that(1)] m1o [OF that(2)] by (simp add: s'_def)
  have "kend s' = kend s" by (simp add: s'_def s1_def)
  with w pt pr [of ?i] tb [of ?i] pd tr fr Cons show ?thesis by (auto simp: fun_eq_iff)
qed

text \<open>Writing the entry of a present table changes exactly that translation.\<close>

lemma set_entry:
  fixes e :: word32
  assumes ok: "pt_ok s pgdir xs" and pr: "present s pgdir (PDX va)"
  defines "s' \<equiv> s\<lparr>kmem := put32 (table s pgdir (PDX va) + 4 * PTX va) e (kmem s)\<rparr>"
  shows "pt_ok s' pgdir xs" and "pde_at s' pgdir i = pde_at s pgdir i \<or> \<not> i < 1024"
    and "translate s' pgdir v = (if same_page v va then if e AND PTE_P \<noteq> 0 then Some e else None else translate s pgdir v)"
proof -
  let ?i = "PDX va" and ?t = "table s pgdir (PDX va)"
  have d: "freepage s pgdir" "pgdir \<notin> set xs" "free_list s xs" using ok by (auto simp: pt_ok_def)
  have t: "freepage s ?t" "?t \<noteq> pgdir" "?t \<notin> set xs" using ok pr by (auto simp: pt_ok_def)
  have out: "x < ?t \<or> ?t + PGSIZE \<le> x \<Longrightarrow> put32 (?t + 4 * PTX va) e (kmem s) x = kmem s x" for x
    by (rule put32_other) (use PTX_less [of va] in linarith)
  have pd: "i < 1024 \<Longrightarrow> pde_at s' pgdir i = pde_at s pgdir i" for i
    unfolding s'_def by (rule pde_at_other [OF d(1) t(1,2) _ out])
  then have pt: "i < 1024 \<Longrightarrow> present s' pgdir i = present s pgdir i \<and> table s' pgdir i = table s pgdir i" for i
    by (simp add: present_def table_def)
  show "pde_at s' pgdir i = pde_at s pgdir i \<or> \<not> i < 1024" using pd by blast
  have "free_list s' xs" unfolding s'_def by (rule free_list_page [OF d(3) t(1,3) out])
  moreover have "freepage s' = freepage s" by (simp add: s'_def fun_eq_iff)
  ultimately show "pt_ok s' pgdir xs" using ok unfolding pt_ok_def by (simp add: pt)
  show "translate s' pgdir v = (if same_page v va then if e AND PTE_P \<noteq> 0 then Some e else None else translate s pgdir v)"
  proof (cases "PDX v = ?i")
    case True
    have "PTX v \<noteq> PTX va \<Longrightarrow>
      get32 (put32 (?t + 4 * PTX va) e (kmem s)) (?t + 4 * PTX v) = get32 (kmem s) (?t + 4 * PTX v)"
      by (intro get32_put32_other) auto
    with True pr pt [of ?i] show ?thesis by (auto simp: translate_def s'_def)
  next
    case False
    have "get32 (put32 (?t + 4 * PTX va) e (kmem s)) (table s pgdir (PDX v) + 4 * PTX v) =
      get32 (kmem s) (table s pgdir (PDX v) + 4 * PTX v)" if "present s pgdir (PDX v)"
    proof (rule page_word_cong)
      fix x assume "table s pgdir (PDX v) \<le> x" "x < table s pgdir (PDX v) + PGSIZE"
      moreover have "freepage s (table s pgdir (PDX v))" "table s pgdir (PDX v) \<noteq> ?t"
        using ok that pr False by (auto simp: pt_ok_def)
      ultimately show "put32 (?t + 4 * PTX va) e (kmem s) x = kmem s x" using page_apart [OF _ t(1)] out by blast
    qed simp
    with False pt [of "PDX v"] show ?thesis by (auto simp: translate_def s'_def)
  qed
qed

lemma present_bit: "(x OR perm OR PTE_P :: word32) AND PTE_P \<noteq> 0"
proof -
  have "bit (x OR perm OR PTE_P :: word32) 0" by (simp add: bit_simps)
  then show ?thesis by (simp add: and_one_eq odd_iff_mod_2_eq_one bit_0)
qed

text \<open>One page: an existing mapping is a panic, a missing table with no free page left is refused, and
  otherwise exactly the one translation is added.\<close>

lemma mappages_step_ok:
  assumes ok: "pt_ok s pgdir xs"
  shows "mappages_step pgdir perm (va, pa) s = Panic ''remap'' \<and> translate s pgdir va \<noteq> None
   \<or> mappages_step pgdir perm (va, pa) s = Ok (Some (-1), s) \<and> xs = [] \<and> \<not> present s pgdir (PDX va)
   \<or> (\<exists>s' ys. mappages_step pgdir perm (va, pa) s = Ok (None, s') \<and> translate s pgdir va = None \<and> pt_ok s' pgdir ys \<and>
        length xs \<le> Suc (length ys) \<and> set ys \<subseteq> set xs \<and>
        (\<forall>v. translate s' pgdir v = (if same_page v va then Some (of_nat pa OR perm OR PTE_P) else translate s pgdir v)))"
proof -
  let ?e = "of_nat pa OR perm OR PTE_P :: word32"
  have tr: "get32 (kmem s) (table s pgdir (PDX va) + 4 * PTX va) AND PTE_P \<noteq> 0 \<longleftrightarrow> translate s pgdir va \<noteq> None"
    if "present s pgdir (PDX va)" for s :: "'a kmem_state_scheme" using that by (auto simp: translate_def Let_def)
  show ?thesis
  proof (cases "present s pgdir (PDX va)")
    case True
    show ?thesis
    proof (cases "translate s pgdir va")
      case None
      let ?s = "s\<lparr>kmem := put32 (table s pgdir (PDX va) + 4 * PTX va) ?e (kmem s)\<rparr>"
      have "mappages_step pgdir perm (va, pa) s = Ok (None, ?s)"
        using tr [OF True] None by (simp add: mappages_step_def walk_present [OF True])
      with set_entry [OF ok True, of ?e] present_bit None show ?thesis by auto
    next
      case (Some e)
      then show ?thesis using tr [OF True] by (auto simp: mappages_step_def walk_present [OF True])
    qed
  next
    case False
    then have none: "translate s pgdir va = None" by (simp add: translate_def)
    show ?thesis
    proof (cases xs)
      case Nil
      then show ?thesis using walk_alloc [OF ok False] False by (simp add: mappages_step_def)
    next
      case (Cons p ys)
      from walk_alloc [OF ok False] Cons obtain s1 where
        1: "walkpgdir pgdir va True s = (Some (p + 4 * PTX va), s1)" "pt_ok s1 pgdir ys"
        "present s1 pgdir (PDX va)" "table s1 pgdir (PDX va) = p" "translate s1 pgdir = translate s pgdir" by auto
      let ?s = "s1\<lparr>kmem := put32 (table s1 pgdir (PDX va) + 4 * PTX va) ?e (kmem s1)\<rparr>"
      have "mappages_step pgdir perm (va, pa) s = Ok (None, ?s)"
        using tr [OF 1(3)] none 1 by (simp add: mappages_step_def)
      with set_entry [OF 1(2,3), of ?e] present_bit none 1(5) Cons show ?thesis by auto
    qed
  qed
qed

text \<open>A list of pages to map, all different: each gets its frame, nothing else changes.\<close>

definition pages_apart :: "(nat \<times> nat) list \<Rightarrow> bool" where
  "pages_apart ps \<longleftrightarrow> distinct (map (\<lambda>(a, pa). (PDX a, PTX a)) ps)"

definition adds :: "(nat \<times> nat) list \<Rightarrow> word32 \<Rightarrow> (nat \<Rightarrow> word32 option) \<Rightarrow> (nat \<Rightarrow> word32 option) \<Rightarrow> bool" where
  "adds ps perm t t' \<longleftrightarrow> (\<forall>v.
     (\<forall>(a, pa) \<in> set ps. same_page v a \<longrightarrow> t' v = Some (of_nat pa OR perm OR PTE_P)) \<and>
     ((\<forall>(a, pa) \<in> set ps. \<not> same_page v a) \<longrightarrow> t' v = t v))"

lemma adds_Cons:
  assumes t1: "\<forall>v. t1 v = (if same_page v a then Some (of_nat pa OR perm OR PTE_P) else t v)"
    and ps: "adds ps perm t1 t'" and ap: "\<And>b pb. (b, pb) \<in> set ps \<Longrightarrow> \<not> same_page b a"
  shows "adds ((a, pa) # ps) perm t t'"
  unfolding adds_def
proof
  fix v
  have P: "(\<forall>(b, pb) \<in> set ps. same_page v b \<longrightarrow> t' v = Some (of_nat pb OR perm OR PTE_P))"
    "(\<forall>(b, pb) \<in> set ps. \<not> same_page v b) \<Longrightarrow> t' v = t1 v" using ps by (auto simp: adds_def)
  show "(\<forall>(b, pb) \<in> set ((a, pa) # ps). same_page v b \<longrightarrow> t' v = Some (of_nat pb OR perm OR PTE_P)) \<and>
     ((\<forall>(b, pb) \<in> set ((a, pa) # ps). \<not> same_page v b) \<longrightarrow> t' v = t v)"
  proof (cases "same_page v a")
    case True
    then have "\<forall>(b, pb) \<in> set ps. \<not> same_page v b" using ap by force
    then show ?thesis using P(2) t1 True by auto
  next
    case False
    then show ?thesis using P t1 by auto
  qed
qed

lemma mappages_loop_ok:
  assumes "pt_ok s pgdir xs" "length ps \<le> length xs" "\<forall>(a, pa) \<in> set ps. translate s pgdir a = None" "pages_apart ps"
  shows "\<exists>s' ys. loopE (mappages_step pgdir perm) ps s = Ok (None, s') \<and> pt_ok s' pgdir ys \<and> set ys \<subseteq> set xs \<and>
     adds ps perm (translate s pgdir) (translate s' pgdir)"
  using assms
proof (induction ps arbitrary: s xs)
  case Nil
  then show ?case by (auto simp: adds_def)
next
  case (Cons ap ps)
  obtain a pa where ap: "ap = (a, pa)" by (cases ap)
  have ne: "xs \<noteq> []" "translate s pgdir a = None" using Cons.prems(2,3) ap by auto
  from mappages_step_ok [OF Cons.prems(1), of perm a pa] ne obtain s1 ys where
    1: "mappages_step pgdir perm (a, pa) s = Ok (None, s1)" "pt_ok s1 pgdir ys" "length xs \<le> Suc (length ys)" "set ys \<subseteq> set xs"
    "\<forall>v. translate s1 pgdir v = (if same_page v a then Some (of_nat pa OR perm OR PTE_P) else translate s pgdir v)" by auto
  have apart: "\<not> same_page b a" if "(b, pb) \<in> set ps" for b pb
    using Cons.prems(4) that by (force simp: pages_apart_def ap)
  have "\<forall>(b, pb) \<in> set ps. translate s1 pgdir b = None" using Cons.prems(3) 1(5) apart by auto
  from Cons.IH [OF 1(2) _ this] Cons.prems(2,4) 1(3) obtain s' zs where
    2: "loopE (mappages_step pgdir perm) ps s1 = Ok (None, s')" "pt_ok s' pgdir zs" "set zs \<subseteq> set ys"
    "adds ps perm (translate s1 pgdir) (translate s' pgdir)" by (auto simp: pages_apart_def)
  have "adds (ap # ps) perm (translate s pgdir) (translate s' pgdir)"
    unfolding ap by (rule adds_Cons [OF 1(5) 2(4) apart])
  then show ?case using 1(1,4) 2 by (auto simp: ap)
qed

lemma page_index: "v < 2 ^ 32 \<Longrightarrow> PDX v = v div PGSIZE div 1024 \<and> PTX v = v div PGSIZE mod 1024"
  by (auto simp: PDX_def PTX_def div_mult2_eq [symmetric] less_mult_imp_div_less)

lemma same_page_iff: "v < 2 ^ 32 \<Longrightarrow> w < 2 ^ 32 \<Longrightarrow> same_page v w \<longleftrightarrow> v div PGSIZE = w div PGSIZE"
  by (simp only: page_index) (metis div_mult_mod_eq)

lemma u32_word: "(of_nat (u32 n) :: word32) = of_nat n"
  by (simp add: word_of_nat_eq_iff u32_def take_bit_eq_mod)

text \<open>The pages \<open>p\<close> to \<open>q\<close> and their frames from \<open>pa\<close> on.\<close>

definition page_pair :: "nat \<Rightarrow> nat \<Rightarrow> nat \<Rightarrow> nat \<times> nat" where
  "page_pair p pa k = ((p + k) * PGSIZE, u32 (pa + k * PGSIZE))"

lemma page_pair_va:
  assumes "p + k < 2 ^ 20"
  shows "fst (page_pair p pa k) < 2 ^ 32" "fst (page_pair p pa k) div PGSIZE = p + k"
    "v < 2 ^ 32 \<Longrightarrow> same_page v (fst (page_pair p pa k)) \<longleftrightarrow> v div PGSIZE = p + k"
proof -
  show lt: "fst (page_pair p pa k) < 2 ^ 32" and dv: "fst (page_pair p pa k) div PGSIZE = p + k" using assms by (simp_all add: page_pair_def)
  show "same_page v (fst (page_pair p pa k)) \<longleftrightarrow> v div PGSIZE = p + k" if "v < 2 ^ 32"
    using same_page_iff [OF that lt] dv by simp
qed

lemma map_range_pairs:
  assumes "p \<le> q" and "q < 2 ^ 20"
  shows "map_range (p * PGSIZE) (q * PGSIZE) pa = map (page_pair p pa) [0..<q - p + 1]"
proof -
  have "u32 (q * PGSIZE + 2 ^ 32 - p * PGSIZE) = (q - p) * PGSIZE"
    using assms by (simp add: u32_def mod_if diff_mult_distrib)
  then have n: "u32 (q * PGSIZE + 2 ^ 32 - p * PGSIZE) div PGSIZE + 1 = q - p + 1" by simp
  have "(u32 (p * PGSIZE + k * PGSIZE), u32 (pa + k * PGSIZE)) = page_pair p pa k" if "k < q - p + 1" for k
  proof -
    have "(p + k) * PGSIZE < 2 ^ 32" using assms that by simp
    then show ?thesis unfolding page_pair_def add_mult_distrib [symmetric] by (simp only: u32_id)
  qed
  then show ?thesis unfolding map_range_def n by simp
qed

lemma page_pairs_apart:
  assumes "p + n \<le> 2 ^ 20"
  shows "pages_apart (map (page_pair p pa) [0..<n])"
proof -
  have "inj_on (\<lambda>k. (PDX (fst (page_pair p pa k)), PTX (fst (page_pair p pa k)))) (set [0..<n])"
  proof (rule inj_onI)
    fix i j assume ij: "i \<in> set [0..<n]" "j \<in> set [0..<n]"
      and e: "(PDX (fst (page_pair p pa i)), PTX (fst (page_pair p pa i))) = (PDX (fst (page_pair p pa j)), PTX (fst (page_pair p pa j)))"
    have lt: "p + i < 2 ^ 20" "p + j < 2 ^ 20" using ij assms by auto
    have "same_page (fst (page_pair p pa i)) (fst (page_pair p pa j))" using e by simp
    then show "i = j" using page_pair_va(3) [OF lt(2) page_pair_va(1) [OF lt(1)]] page_pair_va(2) [OF lt(1)] by simp
  qed
  then show ?thesis by (simp add: pages_apart_def distinct_map comp_def case_prod_unfold)
qed

lemma adds_range:
  assumes a: "adds (map (page_pair p pa) [0..<q - p + 1]) perm t t'" and pq: "p \<le> q" "q < 2 ^ 20" and v: "v < 2 ^ 32"
  shows "t' v = (if p \<le> v div PGSIZE \<and> v div PGSIZE \<le> q
     then Some (of_nat (pa + (v div PGSIZE - p) * PGSIZE) OR perm OR PTE_P) else t v)"
proof (cases "p \<le> v div PGSIZE \<and> v div PGSIZE \<le> q")
  case True
  let ?k = "v div PGSIZE - p"
  have k: "?k < q - p + 1" "p + ?k < 2 ^ 20" using True pq by linarith+
  have "same_page v (fst (page_pair p pa ?k))" using page_pair_va(3) [OF k(2) v] True by simp
  moreover have "page_pair p pa ?k \<in> set (map (page_pair p pa) [0..<q - p + 1])" unfolding set_map by (rule imageI) (use k(1) in \<open>simp only: set_upt atLeastLessThan_iff le0 simp_thms\<close>)
  ultimately have "t' v = Some (of_nat (u32 (pa + ?k * PGSIZE)) OR perm OR PTE_P)"
    using a unfolding adds_def by (force simp: page_pair_def)
  then show ?thesis using True by (simp add: u32_word)
next
  case False
  have "\<not> same_page v (fst (page_pair p pa k))" if "k < q - p + 1" for k
  proof -
    have "p + k < 2 ^ 20" using that pq by linarith
    then show ?thesis using page_pair_va(3) [OF _ v] that False pq(1) by fastforce
  qed
  then have "\<forall>(a, pa) \<in> set (map (page_pair p pa) [0..<q - p + 1]). \<not> same_page v a" by (auto simp: page_pair_def)
  then show ?thesis using a False unfolding adds_def by auto
qed

text \<open>C4: \<open>mappages\<close> extends the address space.  Given a well-formed page directory, enough free pages
  for new page tables and a range that does not wrap and is not mapped yet, \<open>mappages\<close> succeeds, every
  page of the range translates to its frame with the given permissions, every other translation is
  as before, and the page directory is well-formed again.\<close>

theorem mappages_maps:
  assumes ok: "pt_ok s pgdir xs" and r: "0 < sz" "va + sz \<le> 2 ^ 32"
    and fresh: "\<forall>v < 2 ^ 32. va div PGSIZE \<le> v div PGSIZE \<and> v div PGSIZE \<le> (va + sz - 1) div PGSIZE \<longrightarrow> translate s pgdir v = None"
    and enough: "(va + sz - 1) div PGSIZE - va div PGSIZE < length xs"
  shows "\<exists>s' ys. mappages pgdir va sz pa perm s = Ok (0, s') \<and> pt_ok s' pgdir ys \<and> set ys \<subseteq> set xs \<and>
     (\<forall>v < 2 ^ 32. translate s' pgdir v =
        (if va div PGSIZE \<le> v div PGSIZE \<and> v div PGSIZE \<le> (va + sz - 1) div PGSIZE
         then Some (of_nat (pa + (v div PGSIZE - va div PGSIZE) * PGSIZE) OR perm OR PTE_P)
         else translate s pgdir v))"
proof -
  define p q where "p = va div PGSIZE" and "q = (va + sz - 1) div PGSIZE"
  let ?ps = "map (page_pair p pa) [0..<q - p + 1]"
  have pq: "p \<le> q" "q < 2 ^ 20" using r by (auto simp: p_def q_def div_le_mono less_mult_imp_div_less)
  have "u32 (va + sz + 2 ^ 32 - 1) = va + sz - 1" using r by (simp add: u32_def mod_if)
  then have e: "PGROUNDDOWN (u32 (va + sz + 2 ^ 32 - 1)) = q * PGSIZE" "PGROUNDDOWN va = p * PGSIZE"
    by (simp_all add: PGROUNDDOWN_def p_def q_def)
  have "pages_apart ?ps" by (rule page_pairs_apart) (use pq in simp)
  moreover have "\<forall>(a, pa) \<in> set ?ps. translate s pgdir a = None"
  proof -
    have "translate s pgdir (fst (page_pair p pa k)) = None" if "k < q - p + 1" for k
    proof -
      have k: "p + k < 2 ^ 20" using that pq by linarith
      show ?thesis using fresh [rule_format, OF page_pair_va(1) [OF k]] page_pair_va(2) [OF k] that pq
        unfolding p_def [symmetric] q_def [symmetric] by simp
    qed
    then show ?thesis by (auto simp: page_pair_def)
  qed
  moreover have "length ?ps \<le> length xs" using enough by (simp add: p_def q_def)
  ultimately obtain s' ys where
    1: "loopE (mappages_step pgdir perm) ?ps s = Ok (None, s')" "pt_ok s' pgdir ys" "set ys \<subseteq> set xs"
    "adds ?ps perm (translate s pgdir) (translate s' pgdir)"
    using mappages_loop_ok [OF ok] by blast
  have "mappages pgdir va sz pa perm s = Ok (0, s')" unfolding mappages_def Let_def e map_range_pairs [OF pq] using 1(1) by simp
  with 1(2,3) adds_range [OF 1(4) pq] show ?thesis by (auto simp: p_def q_def)
qed

text \<open>An empty page directory and one free page.\<close>

definition demo_pt :: kmem_state where
  "demo_pt = \<lparr>kmem = (\<lambda>_. 0), freelist = 0x80201000, use_lock = False, kend = 0x80110000\<rparr>"

lemma demo_pt_ok: "pt_ok demo_pt 0x80200000 [0x80201000]" "translate demo_pt 0x80200000 v = None"
proof -
  have "\<not> present demo_pt 0x80200000 i" for i by (simp add: present_def pde_at_def demo_pt_def get32_def)
  then show "pt_ok demo_pt 0x80200000 [0x80201000]" "translate demo_pt 0x80200000 v = None"
    by (simp_all add: pt_ok_def translate_def) (simp add: demo_pt_def free_list_def freepage_def get32_def)
qed

theorem mappages_maps_witness:
  "\<exists>s'. mappages 0x80200000 0x1000 0x1000 0x300000 PTE_W demo_pt = Ok (0, s') \<and>
     translate s' 0x80200000 0x1ABC = Some 0x300003 \<and> translate s' 0x80200000 0x2000 = None"
proof -
  have "\<exists>s' ys. mappages 0x80200000 0x1000 0x1000 0x300000 PTE_W demo_pt = Ok (0, s') \<and> pt_ok s' 0x80200000 ys \<and>
     set ys \<subseteq> set [0x80201000] \<and> (\<forall>v < 2 ^ 32. translate s' 0x80200000 v =
        (if 0x1000 div PGSIZE \<le> v div PGSIZE \<and> v div PGSIZE \<le> (0x1000 + 0x1000 - 1) div PGSIZE
         then Some (of_nat (0x300000 + (v div PGSIZE - 0x1000 div PGSIZE) * PGSIZE) OR PTE_W OR PTE_P)
         else translate demo_pt 0x80200000 v))"
    by (rule mappages_maps [OF demo_pt_ok(1)]) (simp_all add: demo_pt_ok(2))
  then obtain s' where m: "mappages 0x80200000 0x1000 0x1000 0x300000 PTE_W demo_pt = Ok (0, s')" and
    "\<forall>v < 2 ^ 32. translate s' 0x80200000 v =
        (if 0x1000 div PGSIZE \<le> v div PGSIZE \<and> v div PGSIZE \<le> (0x1000 + 0x1000 - 1) div PGSIZE
         then Some (of_nat (0x300000 + (v div PGSIZE - 0x1000 div PGSIZE) * PGSIZE) OR PTE_W OR PTE_P)
         else translate demo_pt 0x80200000 v)" by blast
  from this(2) [rule_format, of "0x1ABC"] this(2) [rule_format, of "0x2000"]
  have "translate s' 0x80200000 0x1ABC = Some 0x300003" "translate s' 0x80200000 0x2000 = None"
    by (simp_all add: demo_pt_ok(2))
  with m show ?thesis by blast
qed

end
