(* ===== verification/Pipe.thy ===== *)
theory Pipe
  imports Prelude
begin

text \<open>
  \<^verbatim>\<open>src/alarm/pipe.c\<close>: the bounded buffer between two processes.  \<open>pipewrite\<close> and \<open>piperead\<close> run
  atomically under \<open>p->lock\<close> from one \<open>sleep\<close> to the next, so the model gives one such stretch each:
  its result is a return value or the sleep it ends in, together with the channels it wakes.  The
  processes' side (who sleeps, who is woken) is added as a step relation below.
\<close>

abbreviation PIPESIZE :: nat where "PIPESIZE \<equiv> 512"

record pipe =
  pdata :: "nat \<Rightarrow> byte"
  nread :: word32
  nwrite :: word32
  readopen :: bool
  writeopen :: bool

text \<open>The channels \<open>&p->nread\<close> and \<open>&p->nwrite\<close>.  \<open>Sleep i\<close>: asleep with \<open>i\<close> bytes transferred.\<close>

datatype pchan = Nread | Nwrite
datatype pres = Ret int | Sleep nat

definition newpipe :: "(nat \<Rightarrow> byte) \<Rightarrow> pipe" where
  "newpipe d = \<lparr>pdata = d, nread = 0, nwrite = 0, readopen = True, writeopen = True\<rparr>"

definition pipeclose :: "bool \<Rightarrow> pipe \<Rightarrow> bool \<times> pchan \<times> pipe" where
  "pipeclose writable p =
     (let (c, p) = (if writable then (Nread, p\<lparr>writeopen := False\<rparr>) else (Nwrite, p\<lparr>readopen := False\<rparr>))
      in (\<not> readopen p \<and> \<not> writeopen p, c, p))"

definition pipe_full :: "pipe \<Rightarrow> bool" where
  "pipe_full p \<longleftrightarrow> nwrite p = nread p + of_nat PIPESIZE"

definition put_byte :: "byte \<Rightarrow> pipe \<Rightarrow> pipe" where
  "put_byte c p = p\<lparr>pdata := (pdata p)(unat (nwrite p) mod PIPESIZE := c), nwrite := nwrite p + 1\<rparr>"

definition get_byte :: "pipe \<Rightarrow> byte \<times> pipe" where
  "get_byte p = (pdata p (unat (nread p) mod PIPESIZE), p\<lparr>nread := nread p + 1\<rparr>)"

text \<open>\<open>pipewrite\<close> from byte \<open>i\<close> on, with \<open>killed\<close> the caller's flag.\<close>

function pipewrite_from :: "nat \<Rightarrow> nat \<Rightarrow> (nat \<Rightarrow> byte) \<Rightarrow> bool \<Rightarrow> pipe \<Rightarrow> pres \<times> pchan list \<times> pipe" where
  "pipewrite_from i n addr killed p =
     (if i < n then
        if pipe_full p then
          if \<not> readopen p \<or> killed then (Ret (-1), [], p) else (Sleep i, [Nread], p)
        else pipewrite_from (i + 1) n addr killed (put_byte (addr i) p)
      else (Ret (int n), [Nread], p))"
  by pat_completeness auto
termination
  by (relation "measure (\<lambda>(i, n, addr, killed, p). n - i)") auto

declare pipewrite_from.simps [simp del]

function piperead_copy :: "nat \<Rightarrow> nat \<Rightarrow> (nat \<Rightarrow> byte) \<Rightarrow> pipe \<Rightarrow> nat \<times> (nat \<Rightarrow> byte) \<times> pipe" where
  "piperead_copy i n addr p =
     (if i < n then
        if nread p = nwrite p then (i, addr, p)
        else let (c, p) = get_byte p in piperead_copy (i + 1) n (addr(i := c)) p
      else (i, addr, p))"
  by pat_completeness auto
termination
  by (relation "measure (\<lambda>(i, n, addr, p). n - i)") auto

declare piperead_copy.simps [simp del]

definition piperead :: "nat \<Rightarrow> (nat \<Rightarrow> byte) \<Rightarrow> bool \<Rightarrow> pipe \<Rightarrow> pres \<times> pchan list \<times> (nat \<Rightarrow> byte) \<times> pipe" where
  "piperead n addr killed p =
     (if nread p = nwrite p \<and> writeopen p then
        if killed then (Ret (-1), [], addr, p) else (Sleep 0, [], addr, p)
      else let (i, addr, p) = piperead_copy 0 n addr p in (Ret (int i), [Nwrite], addr, p))"

section \<open>The pipe as a queue\<close>

text \<open>The bytes in the pipe; the counters are unsigned and may wrap.\<close>

definition count :: "pipe \<Rightarrow> nat" where
  "count p = unat (nwrite p - nread p)"

definition contents :: "pipe \<Rightarrow> byte list" where
  "contents p = map (\<lambda>k. pdata p (unat (nread p + of_nat k) mod PIPESIZE)) [0..<count p]"

definition pipe_inv :: "pipe \<Rightarrow> bool" where
  "pipe_inv p \<longleftrightarrow> count p \<le> PIPESIZE"

lemma length_contents [simp]: "length (contents p) = count p"
  by (simp add: contents_def)

lemma empty_iff: "nread p = nwrite p \<longleftrightarrow> contents p = []"
  by (auto simp: contents_def count_def unat_eq_0)

lemma full_iff: "pipe_inv p \<Longrightarrow> pipe_full p \<longleftrightarrow> count p = PIPESIZE"
proof -
  have "pipe_full p \<longleftrightarrow> nwrite p - nread p = of_nat PIPESIZE"
    by (simp add: pipe_full_def algebra_simps)
  also have "\<dots> \<longleftrightarrow> count p = PIPESIZE" by (simp add: count_def unat_arith_simps)
  finally show ?thesis .
qed

lemma slot: "k < 2 ^ 32 \<Longrightarrow> unat (r + of_nat k :: word32) mod PIPESIZE = (unat r + k) mod PIPESIZE"
proof -
  assume k: "k < 2 ^ 32"
  have "PIPESIZE dvd 2 ^ 32" by simp
  then show ?thesis using k by (simp add: unat_word_ariths unat_of_nat mod_mod_cancel)
qed

lemma slot_apart: "j < k \<Longrightarrow> k < PIPESIZE \<Longrightarrow> (a + j) mod PIPESIZE \<noteq> (a + k) mod PIPESIZE"
proof
  assume jk: "j < k" "k < PIPESIZE" and e: "(a + j) mod PIPESIZE = (a + k) mod PIPESIZE"
  then have "PIPESIZE dvd (a + k) - (a + j)" using mod_eq_dvd_iff_nat [of "a + j" "a + k" PIPESIZE] by simp
  then show False using jk by (auto dest: dvd_imp_le)
qed

lemma put_byte_ok:
  assumes "pipe_inv p" "\<not> pipe_full p"
  shows "pipe_inv (put_byte c p) \<and> contents (put_byte c p) = contents p @ [c]"
proof -
  let ?q = "put_byte c p"
  have lt: "count p < PIPESIZE" using assms full_iff by (auto simp: pipe_inv_def)
  define d where "d = nwrite p - nread p"
  have "1 + d \<noteq> 0"
  proof
    assume "1 + d = 0"
    then have "d = - 1" by (simp add: eq_neg_iff_add_eq_0 add.commute)
    then show False using lt by (simp add: count_def d_def [symmetric] unsigned_minus_1_eq_mask mask_eq_exp_minus_1)
  qed
  then have "unat (1 + d) = Suc (unat d)" by (rule unatSuc)
  moreover have "nwrite ?q - nread ?q = 1 + d" by (simp add: put_byte_def d_def)
  ultimately have cq: "count ?q = Suc (count p)" by (simp add: count_def d_def)
  have w: "nwrite p = nread p + of_nat (count p)" by (simp add: count_def)
  have s: "unat (nwrite p) mod PIPESIZE = (unat (nread p) + count p) mod PIPESIZE"
    unfolding w using lt by (intro slot) simp
  have old: "pdata ?q (unat (nread p + of_nat k) mod PIPESIZE) = pdata p (unat (nread p + of_nat k) mod PIPESIZE)"
    if "k < count p" for k
    using slot [of k "nread p"] slot_apart [of k "count p" "unat (nread p)"] that lt s by (simp add: put_byte_def)
  have new: "pdata ?q (unat (nread p + of_nat (count p)) mod PIPESIZE) = c" using w by (simp add: put_byte_def)
  have "nread ?q = nread p" by (simp add: put_byte_def)
  then show ?thesis using cq lt old new by (simp add: pipe_inv_def contents_def)
qed

lemma get_byte_ok:
  assumes "pipe_inv p" "contents p = c # cs"
  shows "\<exists>q. get_byte p = (c, q) \<and> contents q = cs \<and> pipe_inv q \<and> nwrite q = nwrite p \<and> readopen q = readopen p \<and> writeopen q = writeopen p"
proof -
  let ?q = "p\<lparr>nread := nread p + 1\<rparr>"
  have cp: "count p = Suc (length cs)" using assms(2) length_contents [of p] by simp
  define d where "d = nwrite p - nread p"
  have "d \<noteq> 0" using cp by (auto simp: count_def d_def)
  then have "unat (d - 1) = unat d - 1" by (rule unat_minus_one)
  moreover have "nwrite ?q - nread ?q = d - 1" by (simp add: d_def)
  then have "count ?q = unat (d - 1)" by (simp only: count_def)
  ultimately have cq: "count ?q = length cs" using cp by (simp add: count_def d_def)
  have c: "c = pdata p (unat (nread p) mod PIPESIZE)"
    using assms(2) cp by (simp add: contents_def upt_conv_Cons del: upt_Suc)
  have "contents ?q = tl (contents p)"
    unfolding contents_def cq cp by (simp add: upt_conv_Cons map_Suc_upt [symmetric] add.commute add.left_commute del: upt_Suc)
  then show ?thesis using assms c cp cq by (simp add: get_byte_def pipe_inv_def)
qed

text \<open>A stretch of writing appends a part of the data, a stretch of reading removes from the front.\<close>

lemma pipewrite_from_ok:
  assumes "pipe_inv p" "i \<le> n"
  shows "\<exists>j r w q. pipewrite_from i n addr killed p = (r, w, q) \<and> i \<le> j \<and> j \<le> n \<and> pipe_inv q \<and>
     contents q = contents p @ map addr [i..<j] \<and> readopen q = readopen p \<and> writeopen q = writeopen p \<and>
     (r = Ret (int n) \<and> w = [Nread] \<and> j = n
      \<or> r = Ret (-1) \<and> w = [] \<and> j < n \<and> pipe_full q \<and> (\<not> readopen p \<or> killed)
      \<or> r = Sleep j \<and> w = [Nread] \<and> j < n \<and> pipe_full q \<and> readopen p \<and> \<not> killed)"
  using assms
proof (induction "n - i" arbitrary: i p)
  case 0
  then show ?case by (intro exI [of _ n]) (subst pipewrite_from.simps, simp)
next
  case (Suc k)
  then have lt: "i < n" by simp
  show ?case
  proof (cases "pipe_full p")
    case True
    then show ?thesis using lt Suc.prems by (intro exI [of _ i]) (subst pipewrite_from.simps, auto)
  next
    case False
    have k: "k = n - (i + 1)" "i + 1 \<le> n" using Suc.hyps(2) lt by auto
    note q = put_byte_ok [OF Suc.prems(1) False, of "addr i"]
    have ro: "readopen (put_byte c p) = readopen p" "writeopen (put_byte c p) = writeopen p" for c
      by (simp_all add: put_byte_def)
    from Suc.hyps(1) [OF k(1) conjunct1 [OF q] k(2)] obtain j r w q' where
      1: "pipewrite_from (i + 1) n addr killed (put_byte (addr i) p) = (r, w, q')" "i + 1 \<le> j" "j \<le> n" "pipe_inv q'"
      "contents q' = contents p @ addr i # map addr [i + 1..<j]" "readopen q' = readopen p" "writeopen q' = writeopen p"
      "r = Ret (int n) \<and> w = [Nread] \<and> j = n
      \<or> r = Ret (-1) \<and> w = [] \<and> j < n \<and> pipe_full q' \<and> (\<not> readopen p \<or> killed)
      \<or> r = Sleep j \<and> w = [Nread] \<and> j < n \<and> pipe_full q' \<and> readopen p \<and> \<not> killed"
      using q ro by auto
    have "pipewrite_from i n addr killed p = (r, w, q')" using lt False 1(1) by (subst pipewrite_from.simps) simp
    moreover have "contents q' = contents p @ map addr [i..<j]" using 1(2,5) by (simp add: upt_conv_Cons)
    ultimately show ?thesis using 1 by (intro exI [of _ j] exI [of _ r] exI [of _ w] exI [of _ q']) auto
  qed
qed

lemma piperead_copy_ok:
  assumes "pipe_inv p" "i \<le> n"
  shows "\<exists>addr' q. piperead_copy i n addr p = (i + min (n - i) (count p), addr', q) \<and> pipe_inv q \<and>
     contents q = drop (n - i) (contents p) \<and> readopen q = readopen p \<and> writeopen q = writeopen p \<and>
     map addr' [i..<i + min (n - i) (count p)] = take (n - i) (contents p) \<and>
     (\<forall>x. x < i \<or> i + min (n - i) (count p) \<le> x \<longrightarrow> addr' x = addr x)"
  using assms
proof (induction "n - i" arbitrary: i p addr)
  case 0
  then show ?case by (subst piperead_copy.simps) simp
next
  case (Suc k)
  then have lt: "i < n" by simp
  show ?case
  proof (cases "contents p")
    case Nil
    then have "count p = 0" "nread p = nwrite p" using length_contents [of p] empty_iff [of p] by auto
    then show ?thesis using lt Suc.prems Nil by (subst piperead_copy.simps) simp
  next
    case (Cons c cs)
    then have ne: "nread p \<noteq> nwrite p" and cp: "count p = Suc (length cs)"
      using empty_iff [of p] length_contents [of p] by auto
    from get_byte_ok [OF Suc.prems(1) Cons] obtain q where
      q: "get_byte p = (c, q)" "contents q = cs" "pipe_inv q" "readopen q = readopen p" "writeopen q = writeopen p" by blast
    have cq: "count q = length cs" using q(2) length_contents [of q] by simp
    have k: "k = n - (i + 1)" "i + 1 \<le> n" using Suc.hyps(2) lt by auto
    from Suc.hyps(1) [OF k(1) q(3) k(2), of "addr(i := c)"] obtain addr' q' where
      1: "piperead_copy (i + 1) n (addr(i := c)) q = (i + 1 + min (n - (i + 1)) (length cs), addr', q')" "pipe_inv q'"
      "contents q' = drop (n - (i + 1)) cs" "readopen q' = readopen p" "writeopen q' = writeopen p"
      "map addr' [i + 1..<i + 1 + min (n - (i + 1)) (length cs)] = take (n - (i + 1)) cs"
      "\<forall>x. x < i + 1 \<or> i + 1 + min (n - (i + 1)) (length cs) \<le> x \<longrightarrow> addr' x = (addr(i := c)) x"
      unfolding cq q(2,4,5) by auto
    define e where "e = i + min (n - i) (count p)"
    have e: "i + 1 + min (n - (i + 1)) (length cs) = e" "i < e" using lt cp by (auto simp: e_def)
    have d: "n - i = Suc (n - (i + 1))" using lt by simp
    have "piperead_copy i n addr p = (e, addr', q')" using lt ne q(1) 1(1) e by (subst piperead_copy.simps) simp
    moreover have "map addr' [i..<e] = take (n - i) (contents p)"
      using 1(6) [unfolded e(1)] 1(7) e(2) d Cons by (simp add: upt_conv_Cons)
    moreover have "contents q' = drop (n - i) (contents p)" using 1(3) d Cons by simp
    moreover have "\<forall>x. x < i \<or> e \<le> x \<longrightarrow> addr' x = addr x" using 1(7) e by auto
    ultimately show ?thesis using 1 unfolding e_def [symmetric] by blast
  qed
qed

section \<open>Readers and writers\<close>

text \<open>
  Any number of processes use the pipe.  A process is idle, is inside \<open>pipewrite\<close> with \<open>i\<close> of the
  bytes of \<open>data\<close> written, or inside \<open>piperead\<close>; inside, it is ready to run or asleep on the channel
  its call sleeps on.  The trace records the bytes that went in and came out.  An end is closed only
  when no call on it is in progress (each call holds a reference to its file).  A process killed while
  asleep is woken, as \<open>kill\<close> does; \<open>kills\<close> says whether a process may be killed while it writes.
\<close>

datatype pact = Idle | Writing "byte list" nat | Reading nat

record psys =
  pp :: pipe
  act :: "nat \<Rightarrow> pact"
  asleep :: "nat \<Rightarrow> pchan option"
  sent :: "byte list"
  recv :: "byte list"

definition wake :: "pchan list \<Rightarrow> (nat \<Rightarrow> pchan option) \<Rightarrow> nat \<Rightarrow> pchan option" where
  "wake cs w = (\<lambda>q. case w q of Some c \<Rightarrow> if c \<in> set cs then None else Some c | None \<Rightarrow> None)"

abbreviation nth_or0 :: "byte list \<Rightarrow> nat \<Rightarrow> byte" where
  "nth_or0 xs i \<equiv> (if i < length xs then xs ! i else 0)"

definition can_close :: "bool \<Rightarrow> psys \<Rightarrow> bool" where
  "can_close wr s \<longleftrightarrow> (\<forall>q. case act s q of Idle \<Rightarrow> True | Writing _ _ \<Rightarrow> \<not> wr | Reading _ \<Rightarrow> wr)"

inductive pstep :: "bool \<Rightarrow> psys \<Rightarrow> psys \<Rightarrow> bool" for kills where
  call_write: "act s q = Idle \<Longrightarrow> writeopen (pp s) \<Longrightarrow> pstep kills s (s\<lparr>act := (act s)(q := Writing data 0)\<rparr>)"
| call_read: "act s q = Idle \<Longrightarrow> readopen (pp s) \<Longrightarrow> pstep kills s (s\<lparr>act := (act s)(q := Reading n)\<rparr>)"
| write_ret: "act s q = Writing data i \<Longrightarrow> asleep s q = None \<Longrightarrow> (killed \<longrightarrow> kills) \<Longrightarrow>
    pipewrite_from i (length data) (nth_or0 data) killed (pp s) = (Ret r, w, p') \<Longrightarrow>
    pstep kills s (s\<lparr>pp := p', act := (act s)(q := Idle), asleep := wake w (asleep s),
      sent := sent s @ drop (count (pp s)) (contents p')\<rparr>)"
| write_sleep: "act s q = Writing data i \<Longrightarrow> asleep s q = None \<Longrightarrow>
    pipewrite_from i (length data) (nth_or0 data) False (pp s) = (Sleep j, w, p') \<Longrightarrow>
    pstep kills s (s\<lparr>pp := p', act := (act s)(q := Writing data j), asleep := (wake w (asleep s))(q := Some Nwrite),
      sent := sent s @ drop (count (pp s)) (contents p')\<rparr>)"
| read_ret: "act s q = Reading n \<Longrightarrow> asleep s q = None \<Longrightarrow>
    piperead n addr killed (pp s) = (Ret r, w, addr', p') \<Longrightarrow>
    pstep kills s (s\<lparr>pp := p', act := (act s)(q := Idle), asleep := wake w (asleep s),
      recv := recv s @ map addr' [0..<nat r]\<rparr>)"
| read_sleep: "act s q = Reading n \<Longrightarrow> asleep s q = None \<Longrightarrow>
    piperead n addr killed (pp s) = (Sleep j, w, addr', p') \<Longrightarrow>
    pstep kills s (s\<lparr>pp := p', asleep := (wake w (asleep s))(q := Some Nread)\<rparr>)"
| close: "can_close wr s \<Longrightarrow> pipeclose wr (pp s) = (freed, c, p') \<Longrightarrow>
    pstep kills s (s\<lparr>pp := p', asleep := wake [c] (asleep s)\<rparr>)"
| kill: "pstep kills s (s\<lparr>asleep := (asleep s)(q := None)\<rparr>)"

inductive pipe_run :: "bool \<Rightarrow> psys \<Rightarrow> bool" for kills where
  start: "pp s = newpipe d \<Longrightarrow> (\<And>q. act s q = Idle \<and> asleep s q = None) \<Longrightarrow> sent s = [] \<Longrightarrow> recv s = [] \<Longrightarrow> pipe_run kills s"
| more: "pipe_run kills s \<Longrightarrow> pstep kills s s' \<Longrightarrow> pipe_run kills s'"

lemma wake_simps:
  "wake [c] w q = Some d \<longleftrightarrow> w q = Some d \<and> d \<noteq> c" "wake [] w = w"
  by (auto simp: wake_def fun_eq_iff split: option.splits)

text \<open>What came out and what is inside is what went in; a process sleeps inside its call; no call is
  in progress on a closed end.\<close>

definition psys_inv :: "psys \<Rightarrow> bool" where
  "psys_inv s \<longleftrightarrow> pipe_inv (pp s) \<and> sent s = recv s @ contents (pp s) \<and>
     (\<forall>q data i. act s q = Writing data i \<longrightarrow> i \<le> length data \<and> writeopen (pp s)) \<and>
     (\<forall>q n. act s q = Reading n \<longrightarrow> readopen (pp s)) \<and>
     (\<forall>q. asleep s q = Some Nwrite \<longrightarrow> (\<exists>data i. act s q = Writing data i)) \<and>
     (\<forall>q. asleep s q = Some Nread \<longrightarrow> (\<exists>n. act s q = Reading n))"

text \<open>Nobody sleeps without a reason.\<close>

definition no_lost :: "psys \<Rightarrow> bool" where
  "no_lost s \<longleftrightarrow> (\<forall>q. asleep s q = Some Nread \<longrightarrow> contents (pp s) = [] \<and> writeopen (pp s)) \<and>
     (\<forall>q. asleep s q = Some Nwrite \<longrightarrow> count (pp s) = PIPESIZE \<and> readopen (pp s))"

lemma write_facts:
  assumes inv: "psys_inv s" and a: "act s q = Writing data i"
    and w: "pipewrite_from i (length data) (nth_or0 data) killed (pp s) = (r, w, p')"
  shows "pipe_inv p' \<and> sent s @ drop (count (pp s)) (contents p') = recv s @ contents p' \<and>
     readopen p' = readopen (pp s) \<and> writeopen p' = writeopen (pp s) \<and> count (pp s) \<le> count p' \<and>
     (case r of Ret x \<Rightarrow> w = [Nread] \<or> w = [] \<and> count p' = PIPESIZE \<and> (\<not> readopen p' \<or> killed)
      | Sleep j \<Rightarrow> w = [Nread] \<and> count p' = PIPESIZE \<and> readopen p' \<and> j \<le> length data)"
proof -
  have pre: "pipe_inv (pp s)" "i \<le> length data" "sent s = recv s @ contents (pp s)" using inv a by (auto simp: psys_inv_def)
  from pipewrite_from_ok [OF pre(1,2), of "nth_or0 data" killed] w obtain j where
    1: "j \<le> length data" "pipe_inv p'" "contents p' = contents (pp s) @ map (nth_or0 data) [i..<j]"
    "readopen p' = readopen (pp s)" "writeopen p' = writeopen (pp s)"
    "r = Ret (int (length data)) \<and> w = [Nread] \<and> j = length data
      \<or> r = Ret (-1) \<and> w = [] \<and> j < length data \<and> pipe_full p' \<and> (\<not> readopen (pp s) \<or> killed)
      \<or> r = Sleep j \<and> w = [Nread] \<and> j < length data \<and> pipe_full p' \<and> readopen (pp s) \<and> \<not> killed" by auto
  have "count (pp s) \<le> count p'" using arg_cong [OF 1(3), of length] by simp
  moreover have "sent s @ drop (count (pp s)) (contents p') = recv s @ contents p'" using pre(3) 1(3) by simp
  ultimately show ?thesis using 1 full_iff [OF 1(2)] by auto
qed

lemma read_facts:
  assumes inv: "pipe_inv p" and r: "piperead n addr killed p = (r, w, addr', p')"
  shows "pipe_inv p' \<and> readopen p' = readopen p \<and> writeopen p' = writeopen p \<and>
     (case r of Ret x \<Rightarrow> contents p = map addr' [0..<nat x] @ contents p' \<and> (w = [Nwrite] \<or> w = [] \<and> p' = p \<and> x = -1)
      | Sleep j \<Rightarrow> w = [] \<and> p' = p \<and> contents p = [] \<and> writeopen p)"
proof (cases "nread p = nwrite p \<and> writeopen p")
  case True
  then show ?thesis using assms empty_iff [of p] by (auto simp: piperead_def split: if_splits)
next
  case False
  from piperead_copy_ok [OF inv, of 0 n addr] obtain addr1 q where
    1: "piperead_copy 0 n addr p = (min n (count p), addr1, q)" "pipe_inv q" "contents q = drop n (contents p)"
    "readopen q = readopen p" "writeopen q = writeopen p" "map addr1 [0..<min n (count p)] = take n (contents p)" by auto
  show ?thesis using r False 1 by (auto simp: piperead_def)
qed

lemma psys_inv_step:
  assumes inv: "psys_inv s" and st: "pstep kills s s'"
  shows "psys_inv s'"
  using st
proof (cases rule: pstep.cases)
  case (write_ret q data i killed r w p')
  from write_facts [OF inv write_ret(2,5)] show ?thesis
    using inv write_ret unfolding psys_inv_def by (auto simp: wake_simps)
next
  case (write_sleep q data i j w p')
  from write_facts [OF inv write_sleep(2,4)] show ?thesis
    using inv write_sleep unfolding psys_inv_def by (auto simp: wake_simps)
next
  case (read_ret q n addr killed r w addr' p')
  have "pipe_inv (pp s)" using inv by (simp add: psys_inv_def)
  from read_facts [OF this read_ret(4)] show ?thesis
    using inv read_ret unfolding psys_inv_def by (auto simp: wake_simps)
next
  case (read_sleep q n addr killed j w addr' p')
  have "pipe_inv (pp s)" using inv by (simp add: psys_inv_def)
  from read_facts [OF this read_sleep(4)] show ?thesis
    using inv read_sleep unfolding psys_inv_def by (auto simp: wake_simps)
next
  case (close wr freed c p')
  then have "pipe_inv p' = pipe_inv (pp s)" "contents p' = contents (pp s)"
    by (auto simp: pipeclose_def pipe_inv_def contents_def count_def split: if_splits)
  then show ?thesis using inv close unfolding psys_inv_def can_close_def pipeclose_def
    by (auto simp: wake_simps split: if_splits pact.splits)
qed (use inv in \<open>auto simp: psys_inv_def\<close>)

lemma psys_inv_run: "pipe_run kills s \<Longrightarrow> psys_inv s"
proof (induction rule: pipe_run.induct)
  case (start s d)
  then show ?case by (simp add: psys_inv_def pipe_inv_def contents_def count_def newpipe_def)
qed (rule psys_inv_step)

lemma no_lost_step:
  assumes inv: "psys_inv s" and nl: "no_lost s" and st: "pstep False s s'"
  shows "no_lost s'"
  using st
proof (cases rule: pstep.cases)
  case (write_ret q data i killed r w p')
  from write_facts [OF inv write_ret(2,5)] have
    1: "w = [Nread] \<or> w = [] \<and> \<not> readopen p'" "readopen p' = readopen (pp s)" "count (pp s) \<le> count p'" "pipe_inv p'"
    using write_ret(4) by auto
  have nr: "\<not> readopen (pp s) \<Longrightarrow> asleep s x \<noteq> Some Nread" for x using inv unfolding psys_inv_def by blast
  show ?thesis using nl write_ret 1 nr unfolding no_lost_def pipe_inv_def by (auto simp: wake_simps)
next
  case (write_sleep q data i j w p')
  from write_facts [OF inv write_sleep(2,4)] have
    1: "w = [Nread]" "count p' = PIPESIZE" "readopen p'" by auto
  show ?thesis using nl write_sleep 1 unfolding no_lost_def by (auto simp: wake_simps)
next
  case (read_ret q n addr killed r w addr' p')
  have p: "pipe_inv (pp s)" using inv by (simp add: psys_inv_def)
  from read_facts [OF p read_ret(4)] have
    1: "contents (pp s) = map addr' [0..<nat r] @ contents p'" "w = [Nwrite] \<or> w = [] \<and> p' = pp s" "writeopen p' = writeopen (pp s)" by auto
  show ?thesis using nl read_ret 1 unfolding no_lost_def by (auto simp: wake_simps)
next
  case (read_sleep q n addr killed j w addr' p')
  have p: "pipe_inv (pp s)" using inv by (simp add: psys_inv_def)
  from read_facts [OF p read_sleep(4)] have 1: "w = []" "p' = pp s" "contents (pp s) = []" "writeopen (pp s)" by auto
  show ?thesis using nl read_sleep 1 unfolding no_lost_def by (auto simp: wake_simps)
next
  case (close wr freed c p')
  then have "contents p' = contents (pp s)" "count p' = count (pp s)"
    by (auto simp: pipeclose_def contents_def count_def split: if_splits)
  then show ?thesis using nl close unfolding no_lost_def pipeclose_def by (auto simp: wake_simps split: if_splits)
qed (use nl in \<open>auto simp: no_lost_def\<close>)

text \<open>C23: the pipe is a FIFO of bounded size.  Whatever processes write, read, sleep, are woken or
  killed and close the ends, in any order, the bytes received are a prefix of the bytes sent and at
  most 512 bytes are under way, also when the byte counters wrap around.\<close>

theorem pipe_fifo:
  assumes "pipe_run kills s"
  shows "sent s = recv s @ contents (pp s) \<and> length (contents (pp s)) \<le> PIPESIZE"
  using psys_inv_run [OF assms] by (simp add: psys_inv_def pipe_inv_def)

text \<open>C22: no wake-up is lost as long as no process is killed while it writes: a process sleeping in
  \<open>piperead\<close> sees an empty pipe that can still be written, one sleeping in \<open>pipewrite\<close> a full pipe
  that can still be read; so readers and writers never sleep at the same time.\<close>

theorem pipe_wakeups:
  assumes "pipe_run False s"
  shows "(asleep s q = Some Nread \<longrightarrow> contents (pp s) = [] \<and> writeopen (pp s)) \<and>
     (asleep s q = Some Nwrite \<longrightarrow> length (contents (pp s)) = PIPESIZE \<and> readopen (pp s)) \<and>
     \<not> (asleep s q = Some Nread \<and> asleep s q' = Some Nwrite)"
proof -
  from assms have "no_lost s"
  proof (induction rule: pipe_run.induct)
    case (start s d)
    then show ?case by (simp add: no_lost_def)
  next
    case (more s s')
    then show ?case using no_lost_step psys_inv_run by blast
  qed
  then show ?thesis unfolding no_lost_def by (auto simp flip: length_contents)
qed

text \<open>Process 0 sleeps reading the empty pipe, process 1 is about to write 513 bytes.\<close>

definition pipe_demo :: psys where
  "pipe_demo = \<lparr>pp = newpipe (\<lambda>_. 0), act = (\<lambda>_. Idle)(0 := Reading 1, 1 := Writing (replicate 513 7) 0),
     asleep = (\<lambda>_. None)(0 := Some Nread), sent = [], recv = []\<rparr>"

lemma pipe_demo_run: "pipe_run kills pipe_demo"
proof -
  let ?s0 = "\<lparr>pp = newpipe (\<lambda>_. 0), act = (\<lambda>_. Idle), asleep = (\<lambda>_. None), sent = [], recv = []\<rparr> :: psys"
  let ?s1 = "?s0\<lparr>act := (act ?s0)(0 := Reading 1)\<rparr>"
  let ?s2 = "?s1\<lparr>pp := pp ?s1, asleep := (wake [] (asleep ?s1))(0 := Some Nread)\<rparr>"
  have "pipe_run kills ?s0" by (rule pipe_run.start [of _ "\<lambda>_. 0"]) simp_all
  then have "pipe_run kills ?s1" by (rule pipe_run.more) (rule pstep.call_read, simp_all add: newpipe_def)
  then have "pipe_run kills ?s2"
    by (rule pipe_run.more) (rule pstep.read_sleep [of _ _ 1 "\<lambda>_. 0" False 0 "[]" "\<lambda>_. 0"], simp_all add: piperead_def newpipe_def)
  then have "pipe_run kills (?s2\<lparr>act := (act ?s2)(1 := Writing (replicate 513 7) 0)\<rparr>)"
    by (rule pipe_run.more) (rule pstep.call_write, simp_all add: newpipe_def)
  then show ?thesis by (simp add: pipe_demo_def wake_simps)
qed

theorem pipe_fifo_witness: "sent pipe_demo = recv pipe_demo @ contents (pp pipe_demo)"
  using pipe_fifo [OF pipe_demo_run] by blast

theorem pipe_wakeups_witness: "asleep pipe_demo 0 = Some Nread \<and> contents (pp pipe_demo) = [] \<and> writeopen (pp pipe_demo)"
proof -
  have "asleep pipe_demo 0 = Some Nread" by (simp add: pipe_demo_def)
  with pipe_wakeups [OF pipe_demo_run, of 0] show ?thesis by blast
qed

text \<open>C24: a wake-up can be lost when a writer is killed.  \<open>pipewrite\<close> of a killed process fills the pipe
  and returns -1 without \<open>wakeup(&p->nread)\<close>: a state is reachable in which a reader is still asleep
  although the pipe is full.\<close>

theorem pipe_lost_wakeup:
  "\<exists>s q. pipe_run True s \<and> asleep s q = Some Nread \<and> length (contents (pp s)) = PIPESIZE"
proof -
  define p d where "p = pp pipe_demo" and "d = replicate 513 (7 :: byte)"
  have ld: "length d = 513" by (simp add: d_def)
  have inv: "psys_inv pipe_demo" by (rule psys_inv_run [OF pipe_demo_run])
  have c: "count p = 0" by (simp add: p_def pipe_demo_def newpipe_def count_def)
  obtain r w p' where w: "pipewrite_from 0 (length d) (nth_or0 d) True p = (r, w, p')" by (metis prod_cases3)
  have "pipe_inv p" using inv by (simp add: psys_inv_def p_def)
  from pipewrite_from_ok [OF this, of 0 "length d" "nth_or0 d" True] w obtain j where
    1: "j \<le> 513" "pipe_inv p'" "contents p' = contents p @ map (nth_or0 d) [0..<j]"
    "r = Ret 513 \<and> j = 513 \<or> r = Ret (-1) \<and> w = [] \<and> pipe_full p'" unfolding ld by auto
  have "count p' = j" using arg_cong [OF 1(3), of length] c by simp
  then have r: "r = Ret (-1)" "w = []" "pipe_full p'" using 1 by (auto simp: pipe_inv_def)
  have a: "act pipe_demo 1 = Writing d 0" "asleep pipe_demo 1 = None" by (simp_all add: pipe_demo_def d_def)
  let ?s = "pipe_demo\<lparr>pp := p', act := (act pipe_demo)(1 := Idle), asleep := wake w (asleep pipe_demo),
      sent := sent pipe_demo @ drop (count (pp pipe_demo)) (contents p')\<rparr>"
  have "pstep True pipe_demo ?s" by (rule pstep.write_ret [OF a _ w [unfolded r(1) p_def]]) simp
  then have "pipe_run True ?s" by (rule pipe_run.more [OF pipe_demo_run])
  moreover have "asleep ?s 0 = Some Nread" using r by (simp add: wake_simps) (simp add: pipe_demo_def)
  moreover have "length (contents (pp ?s)) = PIPESIZE" using r full_iff [OF 1(2)] by simp
  ultimately show ?thesis by blast
qed

end
