(* ===== verification/File.thy ===== *)
theory File
  imports Vm Pipe
begin

text \<open>
  \<^verbatim>\<open>src/alarm/file.c\<close> and the set-up and tear-down of pipes in \<^verbatim>\<open>src/alarm/pipe.c\<close>: the table of
  open files.  A pipe lives in a page of the allocator; the state keeps its fields by the page's
  address.  Buffers are addresses in the memory \<open>M\<close> the caller sees.  Waking other processes is left to
  the process table (theory \<open>Pipe\<close> shows what the wake-ups achieve); a call that sleeps is \<open>Blocked\<close>.
\<close>

datatype fdtype = FD_NONE | FD_PIPE | FD_INODE

record file_rec =
  ftype :: fdtype
  fref :: int
  freadable :: bool
  fwritable :: bool
  fpipe :: nat
  fip :: nat
  foff :: nat

abbreviation NFILE :: nat where "NFILE \<equiv> 100"

record file_state = vm_state +
  ftable :: "nat \<Rightarrow> file_rec"
  pipes :: "nat \<Rightarrow> pipe"

definition upd_file :: "nat \<Rightarrow> (file_rec \<Rightarrow> file_rec) \<Rightarrow> 'a file_state_scheme \<Rightarrow> 'a file_state_scheme" where
  "upd_file f g s = s\<lparr>ftable := (ftable s)(f := g (ftable s f))\<rparr>"

definition filealloc :: "'a file_state_scheme \<Rightarrow> nat option \<times> 'a file_state_scheme" where
  "filealloc s =
     (case find (\<lambda>f. fref (ftable s f) = 0) [0..<NFILE] of
        Some f \<Rightarrow> (Some f, upd_file f (\<lambda>x. x\<lparr>fref := 1\<rparr>) s)
      | None \<Rightarrow> (None, s))"

definition filedup :: "nat \<Rightarrow> 'a file_state_scheme \<Rightarrow> 'a file_state_scheme outcome" where
  "filedup f s =
     (if fref (ftable s f) < 1 then Panic ''filedup''
      else Ok (upd_file f (\<lambda>x. x\<lparr>fref := fref x + 1\<rparr>) s))"

text \<open>\<open>pipeclose(p, writable)\<close> frees the page when both ends are closed.\<close>

definition close_pipe :: "nat \<Rightarrow> bool \<Rightarrow> 'a file_state_scheme \<Rightarrow> 'a file_state_scheme outcome" where
  "close_pipe p writable s =
     (case pipeclose writable (pipes s p) of (freed, _, q) \<Rightarrow>
        let s = s\<lparr>pipes := (pipes s)(p := q)\<rparr> in if freed then kfree p s else Ok s)"

definition fileclose :: "nat \<Rightarrow> 'a file_state_scheme \<Rightarrow> 'a file_state_scheme outcome" where
  "fileclose f s =
     (if fref (ftable s f) < 1 then Panic ''fileclose''
      else let s = upd_file f (\<lambda>x. x\<lparr>fref := fref x - 1\<rparr>) s in
        if 0 < fref (ftable s f) then Ok s
        else let ff = ftable s f;
                 s = upd_file f (\<lambda>x. x\<lparr>fref := 0, ftype := FD_NONE\<rparr>) s
          in case ftype ff of
               FD_PIPE \<Rightarrow> close_pipe (fpipe ff) (fwritable ff) s
             | FD_INODE \<Rightarrow> bindE (begin_op s) (\<lambda>s. bindE (iput (fip ff) s) end_op)
             | FD_NONE \<Rightarrow> Ok s)"

text \<open>The label \<open>bad\<close> is reached before a page was obtained, so only the files are closed there.\<close>

definition pipealloc :: "'a file_state_scheme \<Rightarrow> ((nat \<times> nat) option \<times> 'a file_state_scheme) outcome" where
  "pipealloc s =
     (case filealloc s of
        (None, s) \<Rightarrow> Ok (None, s)
      | (Some f0, s) \<Rightarrow>
          (case filealloc s of
             (None, s) \<Rightarrow> bindE (fileclose f0 s) (\<lambda>s. Ok (None, s))
           | (Some f1, s) \<Rightarrow>
               let (p, s) = kalloc s in
               if p = 0 then bindE (fileclose f0 s) (\<lambda>s. bindE (fileclose f1 s) (\<lambda>s. Ok (None, s)))
               else
                 let s = s\<lparr>pipes := (pipes s)(p := newpipe (pdata (pipes s p)))\<rparr>;
                     s = upd_file f0 (\<lambda>x. x\<lparr>ftype := FD_PIPE, freadable := True, fwritable := False, fpipe := p\<rparr>) s;
                     s = upd_file f1 (\<lambda>x. x\<lparr>ftype := FD_PIPE, freadable := False, fwritable := True, fpipe := p\<rparr>) s
                 in Ok (Some (f0, f1), s)))"

definition filestat :: "nat \<Rightarrow> 'a file_state_scheme \<Rightarrow> (stat option \<times> 'a file_state_scheme) outcome" where
  "filestat f s =
     (if ftype (ftable s f) = FD_INODE then
        bindE (ilock (Some (fip (ftable s f))) s) (\<lambda>s.
        let st = stati (fip (ftable s f)) s in
        bindE (iunlock (Some (fip (ftable s f))) s) (\<lambda>s. Ok (Some st, s)))
      else Ok (None, s))"

definition read_pipe :: "nat \<Rightarrow> mem \<Rightarrow> nat \<Rightarrow> int \<Rightarrow> 'a file_state_scheme \<Rightarrow> (int \<times> mem \<times> 'a file_state_scheme) outcome" where
  "read_pipe p M addr n s =
     (case piperead (nat n) (\<lambda>i. M (addr + i)) (curkilled s) (pipes s p) of
        (Ret r, _, b, q) \<Rightarrow> Ok (r, blit M addr b 0 (nat r), s\<lparr>pipes := (pipes s)(p := q)\<rparr>)
      | (Sleep _, _) \<Rightarrow> Blocked ''p->nread'')"

definition write_pipe :: "nat \<Rightarrow> mem \<Rightarrow> nat \<Rightarrow> int \<Rightarrow> 'a file_state_scheme \<Rightarrow> (int \<times> 'a file_state_scheme) outcome" where
  "write_pipe p M addr n s =
     (case pipewrite_from 0 (nat n) (\<lambda>i. M (addr + i)) (curkilled s) (pipes s p) of
        (Ret r, _, q) \<Rightarrow> Ok (if r = int (nat n) then n else r, s\<lparr>pipes := (pipes s)(p := q)\<rparr>)
      | (Sleep _, _) \<Rightarrow> Blocked ''p->nwrite'')"

definition fileread :: "nat \<Rightarrow> mem \<Rightarrow> nat \<Rightarrow> int \<Rightarrow> 'a file_state_scheme \<Rightarrow> (int \<times> mem \<times> 'a file_state_scheme) outcome" where
  "fileread f M addr n s =
     (let x = ftable s f in
      if \<not> freadable x then Ok (-1, M, s)
      else case ftype x of
        FD_PIPE \<Rightarrow> read_pipe (fpipe x) M addr n s
      | FD_INODE \<Rightarrow>
          bindE (ilock (Some (fip x)) s) (\<lambda>s.
          bindE (readi (fip x) M addr (foff (ftable s f)) (of_s32 n) s) (\<lambda>(r, M, s).
          let s = (if 0 < r then upd_file f (\<lambda>x. x\<lparr>foff := u32 (foff x + nat r)\<rparr>) s else s) in
          bindE (iunlock (Some (fip x)) s) (\<lambda>s. Ok (r, M, s))))
      | FD_NONE \<Rightarrow> Panic ''fileread'')"

text \<open>\<open>((MAXOPBLOCKS-1-1-2) / 2) * 512\<close> bytes go into one transaction.\<close>

abbreviation write_max :: int where "write_max \<equiv> ((10 - 1 - 1 - 2) div 2) * 512"

definition write_chunk :: "nat \<Rightarrow> mem \<Rightarrow> nat \<Rightarrow> int \<Rightarrow> 'a file_state_scheme \<Rightarrow> (int \<times> 'a file_state_scheme) outcome" where
  "write_chunk f M addr n1 s =
     bindE (begin_op s) (\<lambda>s.
     bindE (ilock (Some (fip (ftable s f))) s) (\<lambda>s.
     bindE (writei (fip (ftable s f)) M addr (foff (ftable s f)) (of_s32 n1) s) (\<lambda>(r, s).
     let s = (if 0 < r then upd_file f (\<lambda>x. x\<lparr>foff := u32 (foff x + nat r)\<rparr>) s else s) in
     bindE (iunlock (Some (fip (ftable s f))) s) (\<lambda>s.
     bindE (end_op s) (\<lambda>s. Ok (r, s))))))"

function filewrite_loop :: "nat \<Rightarrow> mem \<Rightarrow> nat \<Rightarrow> int \<Rightarrow> int \<Rightarrow> 'a file_state_scheme \<Rightarrow> (int \<times> 'a file_state_scheme) outcome" where
  "filewrite_loop f M addr n i s =
     (if i < n then
        let n1 = min (n - i) write_max in
        bindE (write_chunk f M (addr + nat i) n1 s) (\<lambda>(r, s).
        if r < 0 then Ok (i, s)
        else if r \<noteq> n1 then Panic ''short filewrite''
        else filewrite_loop f M addr n (i + r) s)
      else Ok (i, s))"
  by pat_completeness auto
termination
  by (relation "measure (\<lambda>(f, M, addr, n, i, s). nat (n - i))") auto

declare filewrite_loop.simps [simp del]

definition filewrite :: "nat \<Rightarrow> mem \<Rightarrow> nat \<Rightarrow> int \<Rightarrow> 'a file_state_scheme \<Rightarrow> (int \<times> 'a file_state_scheme) outcome" where
  "filewrite f M addr n s =
     (let x = ftable s f in
      if \<not> fwritable x then Ok (-1, s)
      else case ftype x of
        FD_PIPE \<Rightarrow> write_pipe (fpipe x) M addr n s
      | FD_INODE \<Rightarrow> bindE (filewrite_loop f M addr n 0 s) (\<lambda>(i, s). Ok (if i = n then n else -1, s))
      | FD_NONE \<Rightarrow> Panic ''filewrite'')"

section \<open>Reference counts\<close>

lemma upd_file_sel [simp]:
  "ftable (upd_file f g s) = (ftable s)(f := g (ftable s f))" "pipes (upd_file f g s) = pipes s"
  by (simp_all add: upd_file_def)

lemma filealloc_ok:
  "case filealloc s of
     (None, s') \<Rightarrow> s' = s \<and> (\<forall>f < NFILE. fref (ftable s f) \<noteq> 0)
   | (Some f, s') \<Rightarrow> f < NFILE \<and> fref (ftable s f) = 0 \<and> (\<forall>g < f. fref (ftable s g) \<noteq> 0) \<and>
       s' = upd_file f (\<lambda>x. x\<lparr>fref := 1\<rparr>) s"
proof (cases "find (\<lambda>f. fref (ftable s f) = 0) [0..<NFILE]")
  case None
  then show ?thesis by (simp add: filealloc_def) (auto simp: find_None_iff)
next
  case (Some f)
  then obtain i where i: "i < length [0..<NFILE]" "fref (ftable s ([0..<NFILE] ! i)) = 0" "f = [0..<NFILE] ! i"
    "\<forall>j < i. fref (ftable s ([0..<NFILE] ! j)) \<noteq> 0" unfolding find_Some_iff by auto
  then have "f = i" "i < NFILE" by (auto simp: nth_upt)
  then show ?thesis using i Some by (auto simp: filealloc_def)
qed

definition file_inv :: "'a file_state_scheme \<Rightarrow> bool" where
  "file_inv s \<longleftrightarrow> (\<forall>f < NFILE. 0 \<le> fref (ftable s f) \<and> (fref (ftable s f) = 0 \<longrightarrow> ftype (ftable s f) = FD_NONE))"

text \<open>Reference counts of open files.  \<open>filealloc\<close> hands out the first unused entry with one
  reference, or reports that all 100 are in use; \<open>filedup\<close> of an entry in use adds a reference and
  \<open>fileclose\<close> takes exactly it back; a \<open>fileclose\<close> without a reference is a panic, and one of the last
  reference frees the entry before it runs the close operation of the pipe or the inode.\<close>

lemma file_refcounts:
  "(case filealloc s of
     (None, s') \<Rightarrow> s' = s \<and> (\<forall>f < NFILE. fref (ftable s f) \<noteq> 0)
   | (Some f, s') \<Rightarrow> f < NFILE \<and> fref (ftable s f) = 0 \<and> (\<forall>g < f. fref (ftable s g) \<noteq> 0) \<and>
       s' = upd_file f (\<lambda>x. x\<lparr>fref := 1\<rparr>) s) \<and>
   (if fref (ftable s f) < 1 then filedup f s = Panic ''filedup'' \<and> fileclose f s = Panic ''fileclose''
    else bindE (filedup f s) (fileclose f) = Ok s) \<and>
   (fref (ftable s f) = 1 \<longrightarrow> fileclose f s =
     (let t = upd_file f (\<lambda>x. x\<lparr>fref := 0, ftype := FD_NONE\<rparr>) s in
      case ftype (ftable s f) of FD_NONE \<Rightarrow> Ok t
      | FD_PIPE \<Rightarrow> close_pipe (fpipe (ftable s f)) (fwritable (ftable s f)) t
      | FD_INODE \<Rightarrow> bindE (begin_op t) (\<lambda>t. bindE (iput (fip (ftable s f)) t) end_op)))"
proof (intro conjI)
  have undo: "upd_file f (\<lambda>x. x\<lparr>fref := fref x - 1\<rparr>) (upd_file f (\<lambda>x. x\<lparr>fref := fref x + 1\<rparr>) s) = s"
    by (simp add: upd_file_def)
  then show "if fref (ftable s f) < 1 then filedup f s = Panic ''filedup'' \<and> fileclose f s = Panic ''fileclose''
    else bindE (filedup f s) (fileclose f) = Ok s"
    by (simp add: filedup_def fileclose_def Let_def)
  show "fref (ftable s f) = 1 \<longrightarrow> fileclose f s =
     (let t = upd_file f (\<lambda>x. x\<lparr>fref := 0, ftype := FD_NONE\<rparr>) s in
      case ftype (ftable s f) of FD_NONE \<Rightarrow> Ok t
      | FD_PIPE \<Rightarrow> close_pipe (fpipe (ftable s f)) (fwritable (ftable s f)) t
      | FD_INODE \<Rightarrow> bindE (begin_op t) (\<lambda>t. bindE (iput (fip (ftable s f)) t) end_op))"
    by (simp add: fileclose_def Let_def upd_file_def split: fdtype.splits)
qed (rule filealloc_ok)

text \<open>A table with one open file, entry 0, on the read end of the pipe in page \<open>0x80300000\<close>.\<close>

definition demo_cpu :: cpu where
  "demo_cpu = \<lparr>ncli = 0, intena = False, iflag = True, gdt = (\<lambda>_. SEG 0 0 0 0), ts_addr = 0, ts_ss0 = 0,
     ts_esp0 = 0, ts_iomb = 0, tr = 0, cr3 = 0\<rparr>"

definition demo_files :: file_state where
  "demo_files = vm_state.extend (cons_state.extend demo_cons (vm_state.fields 0 0x80108000 demo_cpu))
     (file_state.fields
       ((\<lambda>_. \<lparr>ftype = FD_NONE, fref = 0, freadable = False, fwritable = False, fpipe = 0, fip = 0, foff = 0\<rparr>)
        (0 := \<lparr>ftype = FD_PIPE, fref = 1, freadable = True, fwritable = False, fpipe = 0x80300000, fip = 0, foff = 0\<rparr>))
       (\<lambda>_. newpipe (\<lambda>_. 0)))"

end
