(* ===== verification/Proc.thy ===== *)
theory Proc
  imports File
begin

text \<open>
  \<^verbatim>\<open>src/alarm/proc.c\<close>: the process table.  It is a component of the state of its own, next to the
  rest of the kernel (memory, file system, open files): an operation takes both and returns both.
  A process is its index in \<open>ptable.proc\<close>.  Giving up the processor (\<open>sched\<close>) ends an operation with no
  process running; \<open>scheduler\<close> then dispatches the next one.  \<open>ptable.lock\<close> makes what runs under it atomic; the checks of
  \<open>sched\<close> on that lock hold by construction.  An operation is that of one processor, whose \<open>mycpu()->proc\<close> is
  \<open>running\<close>; the steps of several processors are interleaved in the section on the kernel as a whole.
\<close>

abbreviation NPROC :: nat where "NPROC \<equiv> 64"
abbreviation NOFILE :: nat where "NOFILE \<equiv> 16"

datatype procstate = UNUSED | EMBRYO | SLEEPING | RUNNABLE | RUNNING | ZOMBIE

text \<open>A channel is an address, or the process structure that \<open>wait\<close> sleeps on.\<close>

datatype chan = NoChan | Addr nat | ProcChan nat

record proc =
  psz :: nat
  ppgdir :: nat
  kstack :: nat
  pstate :: procstate
  pid :: int
  parent :: "nat option"
  tf :: nat                  \<comment> \<open>address of the trap frame\<close>
  pcontext :: nat
  pchan :: chan
  killed :: bool
  ofile :: "nat \<Rightarrow> nat option"
  cwd :: "nat option"
  pname :: "byte list"
  handler :: nat
  alarmtime :: int
  alarmpassed :: int
  handling_alarm :: bool
  alarm_tf :: nat

record ptab =
  ptable :: "nat \<Rightarrow> proc"
  initproc :: "nat option"
  nextpid :: int
  running :: "nat option"    \<comment> \<open>\<open>mycpu()->proc\<close>\<close>
  first :: bool              \<comment> \<open>\<open>forkret\<close>'s static variable\<close>
  trapret :: nat
  forkret_addr :: nat
  initcode :: nat
  initcode_size :: nat

definition upd_proc :: "nat \<Rightarrow> (proc \<Rightarrow> proc) \<Rightarrow> ptab \<Rightarrow> ptab" where
  "upd_proc i f t = t\<lparr>ptable := (ptable t)(i := f (ptable t i))\<rparr>"

lemma upd_proc_sel [simp]:
  "ptable (upd_proc i f t) = (ptable t)(i := f (ptable t i))" "initproc (upd_proc i f t) = initproc t"
  "nextpid (upd_proc i f t) = nextpid t" "running (upd_proc i f t) = running t" "first (upd_proc i f t) = first t"
  "trapret (upd_proc i f t) = trapret t" "forkret_addr (upd_proc i f t) = forkret_addr t"
  by (simp_all add: upd_proc_def)

text \<open>\<open>mycpu\<close>: the processor whose APIC identifier is the current one.\<close>

definition mycpu_index :: "bool \<Rightarrow> nat \<Rightarrow> nat list \<Rightarrow> nat outcome" where
  "mycpu_index interrupts apicid ids =
     (if interrupts then Panic ''mycpu called with interrupts enabled''
      else case find (\<lambda>i. ids ! i = apicid) [0..<length ids] of
        Some i \<Rightarrow> Ok i | None \<Rightarrow> Panic ''unknown apicid'')"

definition myproc :: "ptab \<Rightarrow> nat option" where
  "myproc t = running t"

section \<open>Creating processes\<close>

text \<open>\<open>allocproc\<close>: the part under \<open>ptable.lock\<close>, and the rest.  \<open>sizeof(struct trapframe)\<close> is 76, \<open>sizeof(struct context)\<close> 20.\<close>

definition alloc_entry :: "ptab \<Rightarrow> (nat \<times> ptab) option" where
  "alloc_entry t =
     (case find (\<lambda>i. pstate (ptable t i) = UNUSED) [0..<NPROC] of
        None \<Rightarrow> None
      | Some i \<Rightarrow>
          let t = upd_proc i (\<lambda>p. p\<lparr>pstate := EMBRYO, pid := nextpid t\<rparr>) t
          in Some (i, t\<lparr>nextpid := i32 (nextpid t + 1)\<rparr>))"

definition alloc_rest :: "nat \<Rightarrow> ptab \<Rightarrow> 'a file_state_scheme \<Rightarrow> (nat option \<times> ptab \<times> 'a file_state_scheme) outcome" where
  "alloc_rest i t s =
     (let (k, s) = kalloc s;
          t = upd_proc i (\<lambda>p. p\<lparr>kstack := k\<rparr>) t
      in if k = 0 then Ok (None, upd_proc i (\<lambda>p. p\<lparr>pstate := UNUSED\<rparr>) t, s)
      else
        let sp = k + KSTACKSIZE - 76;
            t = upd_proc i (\<lambda>p. p\<lparr>tf := sp\<rparr>) t;
            sp = sp - 4;
            s = s\<lparr>kmem := put32 sp (of_nat (trapret t)) (kmem s)\<rparr>;
            sp = sp - 20;
            t = upd_proc i (\<lambda>p. p\<lparr>pcontext := sp\<rparr>) t;
            s = s\<lparr>kmem := put32 (sp + 16) (of_nat (forkret_addr t)) (memset sp 0 20 (kmem s))\<rparr>;
            (a, s) = kalloc s;
            t = upd_proc i (\<lambda>p. p\<lparr>alarmtime := 0, alarmpassed := 0, handler := 0, handling_alarm := False,
                                 alarm_tf := a\<rparr>) t
        in if a = 0 then
             bindE (kfree k s) (\<lambda>s. Ok (None, upd_proc i (\<lambda>p. p\<lparr>kstack := 0, pstate := UNUSED\<rparr>) t, s))
           else Ok (Some i, t, s\<lparr>kmem := memset a 0 76 (kmem s)\<rparr>))"

definition allocproc :: "ptab \<Rightarrow> 'a file_state_scheme \<Rightarrow> (nat option \<times> ptab \<times> 'a file_state_scheme) outcome" where
  "allocproc t s = (case alloc_entry t of None \<Rightarrow> Ok (None, t, s) | Some (i, t) \<Rightarrow> alloc_rest i t s)"

text \<open>Offsets in \<open>struct trapframe\<close>.\<close>

abbreviation tf_eax :: nat where "tf_eax \<equiv> 28"
abbreviation tf_es :: nat where "tf_es \<equiv> 40"
abbreviation tf_ds :: nat where "tf_ds \<equiv> 44"
abbreviation tf_trapno :: nat where "tf_trapno \<equiv> 48"
abbreviation tf_eip :: nat where "tf_eip \<equiv> 56"
abbreviation tf_cs :: nat where "tf_cs \<equiv> 60"
abbreviation tf_eflags :: nat where "tf_eflags \<equiv> 64"
abbreviation tf_esp :: nat where "tf_esp \<equiv> 68"
abbreviation tf_ss :: nat where "tf_ss \<equiv> 72"

text \<open>The frame of the first process.  Its path and name are literals.\<close>

definition init_frame :: "nat \<Rightarrow> mem \<Rightarrow> mem" where
  "init_frame f m =
     (let m = memset f 0 76 m;
          m = put16 (f + tf_cs) (of_nat (SEG_UCODE * 8 + DPL_USER)) m;
          m = put16 (f + tf_ds) (of_nat (SEG_UDATA * 8 + DPL_USER)) m;
          m = put16 (f + tf_es) (get16 m (f + tf_ds)) m;
          m = put16 (f + tf_ss) (get16 m (f + tf_ds)) m;
          m = put32 (f + tf_eflags) 0x200 m;
          m = put32 (f + tf_esp) (of_nat PGSIZE) m
      in put32 (f + tf_eip) 0 m)"

definition userinit :: "ptab \<Rightarrow> 'a file_state_scheme \<Rightarrow> (ptab \<times> 'a file_state_scheme) outcome" where
  "userinit t s =
     bindE (allocproc t s) (\<lambda>(r, t, s).
     let t = t\<lparr>initproc := r\<rparr> in
     case r of None \<Rightarrow> Forever
     | Some i \<Rightarrow>
         bindE (setupkvm s) (\<lambda>(d, s).
         case d of None \<Rightarrow> Panic ''userinit: out of memory?''
         | Some d \<Rightarrow>
             bindE (inituvm d (initcode t) (initcode_size t) s) (\<lambda>s.
             let s = s\<lparr>kmem := init_frame (tf (ptable t i)) (kmem s)\<rparr>;
                 t = upd_proc i (\<lambda>p. p\<lparr>ppgdir := d, psz := PGSIZE, pname := ascii ''initcode''\<rparr>) t in
             bindE (namei 0 0 (write_bytes 0 [slash, 0] (\<lambda>_. 0)) s) (\<lambda>(ip, _, s).
             Ok (upd_proc i (\<lambda>p. p\<lparr>cwd := ip, pstate := RUNNABLE\<rparr>) t, s)))))"

definition growproc :: "nat \<Rightarrow> int \<Rightarrow> ptab \<Rightarrow> 'a file_state_scheme \<Rightarrow> (int \<times> ptab \<times> 'a file_state_scheme) outcome" where
  "growproc cur n t s =
     (let p = ptable t cur; sz = psz p in
      bindE (if 0 < n then allocuvm (ppgdir p) sz (u32 (sz + of_s32 n)) s
             else if n < 0 then deallocuvm (ppgdir p) sz (u32 (sz + of_s32 n)) s
             else Ok (sz, s)) (\<lambda>(sz, s).
      if n \<noteq> 0 \<and> sz = 0 then Ok (-1, t, s)
      else let t = upd_proc cur (\<lambda>p. p\<lparr>psz := sz\<rparr>) t in
        bindE (switchuvm (Some (kstack p, ppgdir p)) s) (\<lambda>s. Ok (0, t, s))))"

definition dup_files :: "nat \<Rightarrow> nat \<Rightarrow> ptab \<Rightarrow> 'a file_state_scheme \<Rightarrow> 'a file_state_scheme outcome" where
  "dup_files cur fd t s = (case ofile (ptable t cur) fd of None \<Rightarrow> Ok s | Some f \<Rightarrow> filedup f s)"

text \<open>The child's entry, copied from the parent's (\<open>c\<close>).\<close>

definition fork_child :: "nat \<Rightarrow> proc \<Rightarrow> nat \<Rightarrow> proc \<Rightarrow> proc" where
  "fork_child cur c d p = p\<lparr>ppgdir := d, psz := psz c, parent := Some cur,
     ofile := (\<lambda>fd. if fd < NOFILE \<and> ofile c fd \<noteq> None then ofile c fd else ofile p fd),
     cwd := cwd c, pname := take 15 (pname c), pstate := RUNNABLE\<rparr>"

definition fork_copy :: "nat \<Rightarrow> nat \<Rightarrow> ptab \<Rightarrow> 'a file_state_scheme \<Rightarrow> (int \<times> ptab \<times> 'a file_state_scheme) outcome" where
  "fork_copy cur np t s =
     bindE (copyuvm (ppgdir (ptable t cur)) (psz (ptable t cur)) s) (\<lambda>(d, s).
     case d of
       None \<Rightarrow>
         bindE (kfree (kstack (ptable t np)) s) (\<lambda>s.
         Ok (-1, upd_proc np (\<lambda>p. p\<lparr>ppgdir := 0, kstack := 0, pstate := UNUSED\<rparr>) t, s))
     | Some d \<Rightarrow>
         let c = ptable t cur;
             s = s\<lparr>kmem := put32 (tf (ptable t np) + tf_eax) 0 (blit (kmem s) (tf (ptable t np)) (kmem s) (tf c) 76)\<rparr>
         in bindE (forE (\<lambda>fd. dup_files cur fd t) [0..<NOFILE] s) (\<lambda>s.
            bindE (case cwd c of Some ip \<Rightarrow> Ok (idup ip s) | None \<Rightarrow> Forever) (\<lambda>s.
            let t = upd_proc np (fork_child cur c d) t in Ok (pid (ptable t np), t, s))))"

definition fork_made :: "nat \<Rightarrow> nat option \<times> ptab \<times> 'a file_state_scheme \<Rightarrow> (int \<times> ptab \<times> 'a file_state_scheme) outcome" where
  "fork_made cur = (\<lambda>(r, t, s). case r of None \<Rightarrow> Ok (-1, t, s) | Some np \<Rightarrow> fork_copy cur np t s)"

definition fork :: "nat \<Rightarrow> ptab \<Rightarrow> 'a file_state_scheme \<Rightarrow> (int \<times> ptab \<times> 'a file_state_scheme) outcome" where
  "fork cur t s = bindE (allocproc t s) (fork_made cur)"

text \<open>What remains of \<open>fork\<close> when \<open>alloc_entry\<close> has found the entry \<open>i\<close>.\<close>

definition fork_rest :: "nat \<Rightarrow> nat \<Rightarrow> ptab \<Rightarrow> 'a file_state_scheme \<Rightarrow> (int \<times> ptab \<times> 'a file_state_scheme) outcome" where
  "fork_rest cur i t s = bindE (alloc_rest i t s) (fork_made cur)"

lemma fork_split: "fork cur t s = (case alloc_entry t of None \<Rightarrow> Ok (-1, t, s) | Some (i, t) \<Rightarrow> fork_rest cur i t s)"
  by (simp add: fork_def allocproc_def fork_made_def fork_rest_def split: option.splits prod.splits)

section \<open>Sleeping and waking\<close>

definition wakeup1 :: "chan \<Rightarrow> ptab \<Rightarrow> ptab" where
  "wakeup1 c t = t\<lparr>ptable := (\<lambda>i. let p = ptable t i in
     if i < NPROC \<and> pstate p = SLEEPING \<and> pchan p = c then p\<lparr>pstate := RUNNABLE\<rparr> else p)\<rparr>"

definition wakeup :: "chan \<Rightarrow> ptab \<Rightarrow> ptab" where
  "wakeup c t = wakeup1 c t"

text \<open>\<open>sched\<close> and the end of the scheduler's turn: no process runs, the kernel's page table is loaded.\<close>

definition sched :: "ptab \<Rightarrow> 'a file_state_scheme \<Rightarrow> (ptab \<times> 'a file_state_scheme) outcome" where
  "sched t s =
     (case running t of
        None \<Rightarrow> Forever
      | Some i \<Rightarrow>
          if pstate (ptable t i) = RUNNING then Panic ''sched running''
          else Ok (t\<lparr>running := None\<rparr>, switchkvm s))"

definition yield :: "ptab \<Rightarrow> 'a file_state_scheme \<Rightarrow> (ptab \<times> 'a file_state_scheme) outcome" where
  "yield t s =
     (case running t of None \<Rightarrow> Forever
      | Some i \<Rightarrow> sched (upd_proc i (\<lambda>p. p\<lparr>pstate := RUNNABLE\<rparr>) t) s)"

text \<open>\<open>sleep\<close> up to its \<open>sched\<close>; what follows when the process runs again only clears the channel.\<close>

definition sleep :: "chan \<Rightarrow> ptab \<Rightarrow> 'a file_state_scheme \<Rightarrow> (ptab \<times> 'a file_state_scheme) outcome" where
  "sleep c t s =
     (case running t of None \<Rightarrow> Panic ''sleep''
      | Some i \<Rightarrow> sched (upd_proc i (\<lambda>p. p\<lparr>pchan := c, pstate := SLEEPING\<rparr>) t) s)"

definition sleep_return :: "nat \<Rightarrow> ptab \<Rightarrow> ptab" where
  "sleep_return i t = upd_proc i (\<lambda>p. p\<lparr>pchan := NoChan\<rparr>) t"

definition kill :: "int \<Rightarrow> ptab \<Rightarrow> int \<times> ptab" where
  "kill k t =
     (case find (\<lambda>i. pid (ptable t i) = k) [0..<NPROC] of
        None \<Rightarrow> (-1, t)
      | Some i \<Rightarrow> (0, upd_proc i (\<lambda>p. p\<lparr>killed := True,
          pstate := (if pstate p = SLEEPING then RUNNABLE else pstate p)\<rparr>) t))"

section \<open>Ending processes\<close>

definition close_fd :: "nat \<Rightarrow> nat \<Rightarrow> ptab \<times> 'a file_state_scheme \<Rightarrow> (ptab \<times> 'a file_state_scheme) outcome" where
  "close_fd cur fd = (\<lambda>(t, s).
     case ofile (ptable t cur) fd of None \<Rightarrow> Ok (t, s)
     | Some f \<Rightarrow> bindE (fileclose f s) (\<lambda>s. Ok (upd_proc cur (\<lambda>p. p\<lparr>ofile := (ofile p)(fd := None)\<rparr>) t, s)))"

definition chan_of :: "nat option \<Rightarrow> chan" where
  "chan_of p = (case p of Some i \<Rightarrow> ProcChan i | None \<Rightarrow> NoChan)"

definition reparent :: "nat \<Rightarrow> nat \<Rightarrow> ptab \<Rightarrow> ptab" where
  "reparent cur i t =
     (if parent (ptable t i) = Some cur then
        let t = upd_proc i (\<lambda>p. p\<lparr>parent := initproc t\<rparr>) t in
        if pstate (ptable t i) = ZOMBIE then wakeup1 (chan_of (initproc t)) t else t
      else t)"

text \<open>The part of \<open>exit\<close> under \<open>ptable.lock\<close>.\<close>

definition exit_table :: "nat \<Rightarrow> ptab \<Rightarrow> ptab" where
  "exit_table cur t =
     (let t = wakeup1 (chan_of (parent (ptable t cur))) t;
          t = fold (reparent cur) [0..<NPROC] t
      in upd_proc cur (\<lambda>p. p\<lparr>pstate := ZOMBIE\<rparr>) t)"

definition exit :: "nat \<Rightarrow> ptab \<Rightarrow> 'a file_state_scheme \<Rightarrow> (ptab \<times> 'a file_state_scheme) outcome" where
  "exit cur t s =
     (if initproc t = Some cur then Panic ''init exiting''
      else
        bindE (forE (close_fd cur) [0..<NOFILE] (t, s)) (\<lambda>(t, s).
        bindE (begin_op s) (\<lambda>s.
        bindE (case cwd (ptable t cur) of Some ip \<Rightarrow> iput ip s | None \<Rightarrow> Forever) (\<lambda>s.
        bindE (end_op s) (\<lambda>s.
        let t = upd_proc cur (\<lambda>p. p\<lparr>cwd := None\<rparr>) t in sched (exit_table cur t) s)))))"

text \<open>One pass of \<open>wait\<close>: a zombie child is reaped, no child or a killed caller gives -1, otherwise the
  caller sleeps until a child exits.\<close>

definition wait :: "nat \<Rightarrow> ptab \<Rightarrow> 'a file_state_scheme \<Rightarrow> (int \<times> ptab \<times> 'a file_state_scheme) outcome" where
  "wait cur t s =
     (case find (\<lambda>i. parent (ptable t i) = Some cur \<and> pstate (ptable t i) = ZOMBIE) [0..<NPROC] of
        Some i \<Rightarrow>
          let p = ptable t i in
          bindE (kfree (kstack p) s) (\<lambda>s.
          bindE (freevm (ppgdir p) s) (\<lambda>s.
          Ok (pid p, upd_proc i (\<lambda>p. p\<lparr>kstack := 0, pid := 0, parent := None,
                pname := [], killed := False, pstate := UNUSED\<rparr>) t, s)))
      | None \<Rightarrow>
          if (\<forall>i \<in> set [0..<NPROC]. parent (ptable t i) \<noteq> Some cur) \<or> killed (ptable t cur) then Ok (-1, t, s)
          else Blocked ''wait'')"

section \<open>Scheduling\<close>

text \<open>Process \<open>i\<close> is given the processor.  \<open>curpid\<close> and \<open>curkilled\<close> are what the file system and the
  console read of \<open>myproc()\<close>.\<close>

definition dispatch :: "nat \<Rightarrow> ptab \<Rightarrow> 'a file_state_scheme \<Rightarrow> (ptab \<times> 'a file_state_scheme) outcome" where
  "dispatch i t s =
     (let p = ptable t i in
      bindE (switchuvm (Some (kstack p, ppgdir p)) s) (\<lambda>s.
      Ok (upd_proc i (\<lambda>p. p\<lparr>pstate := RUNNING\<rparr>) (t\<lparr>running := Some i\<rparr>),
          s\<lparr>curpid := nat (pid p), curkilled := killed p\<rparr>)))"

text \<open>The scheduler's loop continues at \<open>pos\<close> in the table and wraps around; with no runnable process it
  goes on looking for one.\<close>

definition scheduler :: "nat \<Rightarrow> ptab \<Rightarrow> 'a file_state_scheme \<Rightarrow> (ptab \<times> 'a file_state_scheme) outcome" where
  "scheduler pos t s =
     (case find (\<lambda>i. pstate (ptable t i) = RUNNABLE) ([pos..<NPROC] @ [0..<pos]) of
        Some i \<Rightarrow> dispatch i t s
      | None \<Rightarrow> Blocked ''scheduler'')"

definition forkret :: "ptab \<Rightarrow> 'a file_state_scheme \<Rightarrow> (ptab \<times> 'a file_state_scheme) outcome" where
  "forkret t s =
     (if first t then
        bindE (iinit ROOTDEV s) (\<lambda>s. bindE (initlog ROOTDEV s) (\<lambda>s. Ok (t\<lparr>first := False\<rparr>, s)))
      else Ok (t, s))"

section \<open>What the operations do to the table\<close>

lemma find_in: "find P xs = Some x \<Longrightarrow> x \<in> set xs \<and> P x"
  by (induction xs) (auto split: if_splits)

lemma find_NPROC: "find P [0..<NPROC] = Some i \<Longrightarrow> i < NPROC \<and> P i"
  using find_in [of P "[0..<NPROC]" i] by simp

text \<open>\<open>woken p q\<close>: \<open>q\<close> is \<open>p\<close>, possibly made runnable from sleep.\<close>

definition woken :: "proc \<Rightarrow> proc \<Rightarrow> bool" where
  "woken p q \<longleftrightarrow> q = p \<or> pstate p = SLEEPING \<and> q = p\<lparr>pstate := RUNNABLE\<rparr>"

lemma woken_trans: "woken p q \<Longrightarrow> woken q r \<Longrightarrow> woken p r"
  by (auto simp: woken_def)

lemma wakeup1_woken: "woken (ptable t i) (ptable (wakeup1 c t) i)"
  by (auto simp: wakeup1_def woken_def Let_def)

lemma wakeup1_sel [simp]:
  "initproc (wakeup1 c t) = initproc t" "nextpid (wakeup1 c t) = nextpid t" "running (wakeup1 c t) = running t"
  by (simp_all add: wakeup1_def)

definition adopt :: "nat \<Rightarrow> nat \<Rightarrow> ptab \<Rightarrow> nat \<Rightarrow> proc" where
  "adopt cur n t i = (let p = ptable t i in
     if i < n \<and> parent p = Some cur then p\<lparr>parent := initproc t\<rparr> else p)"

lemma reparent_fold:
  assumes "initproc t \<noteq> Some cur"
  shows "(\<forall>i. woken (adopt cur n t i) (ptable (fold (reparent cur) [0..<n] t) i)) \<and>
     initproc (fold (reparent cur) [0..<n] t) = initproc t \<and> nextpid (fold (reparent cur) [0..<n] t) = nextpid t \<and>
     running (fold (reparent cur) [0..<n] t) = running t"
proof (induction n)
  case 0
  then show ?case by (simp add: adopt_def woken_def)
next
  case (Suc n)
  define u where "u = fold (reparent cur) [0..<n] t"
  have IH: "\<And>i. woken (adopt cur n t i) (ptable u i)" "initproc u = initproc t" "nextpid u = nextpid t" "running u = running t"
    using Suc by (auto simp: u_def)
  have pn: "parent (ptable u n) = parent (ptable t n)"
    using IH(1) [of n] by (auto simp: adopt_def woken_def Let_def)
  have "woken (adopt cur (Suc n) t i) (ptable (reparent cur n u) i)" for i
  proof (cases "parent (ptable t n) = Some cur")
    case False
    then have "adopt cur (Suc n) t i = adopt cur n t i" by (auto simp: adopt_def less_Suc_eq Let_def)
    then show ?thesis using IH(1) False pn by (simp add: reparent_def)
  next
    case True
    let ?v = "upd_proc n (\<lambda>p. p\<lparr>parent := initproc u\<rparr>) u"
    have v: "woken (adopt cur (Suc n) t i) (ptable ?v i)"
      using IH(1) [of i] IH(2) True by (cases "i = n") (auto simp: adopt_def woken_def less_Suc_eq Let_def)
    show ?thesis
      using True pn woken_trans [OF v wakeup1_woken] v by (auto simp: reparent_def Let_def)
  qed
  moreover have "initproc (reparent cur n u) = initproc u" "nextpid (reparent cur n u) = nextpid u" "running (reparent cur n u) = running u"
    by (simp_all add: reparent_def Let_def)
  ultimately show ?case using IH by (simp add: u_def)
qed

lemma adopt_cong:
  "woken (ptable t i) (ptable u i) \<Longrightarrow> initproc u = initproc t \<Longrightarrow> woken (adopt cur n t i) (adopt cur n u i)"
  by (auto simp: adopt_def woken_def Let_def)

lemma exit_table_ok:
  assumes "initproc t \<noteq> Some cur" "pstate (ptable t cur) \<noteq> SLEEPING"
  shows "i \<noteq> cur \<Longrightarrow> woken (adopt cur NPROC t i) (ptable (exit_table cur t) i)"
    "ptable (exit_table cur t) cur = (adopt cur NPROC t cur)\<lparr>pstate := ZOMBIE\<rparr>"
    "initproc (exit_table cur t) = initproc t" "nextpid (exit_table cur t) = nextpid t" "running (exit_table cur t) = running t"
proof -
  define u where "u = wakeup1 (chan_of (parent (ptable t cur))) t"
  define v where "v = fold (reparent cur) [0..<NPROC] u"
  have u: "initproc u = initproc t" "nextpid u = nextpid t" "running u = running t" by (simp_all add: u_def)
  have v: "woken (adopt cur NPROC u i) (ptable v i)" "initproc v = initproc u" "nextpid v = nextpid u" "running v = running u" for i
    using reparent_fold [of u cur NPROC] assms u by (auto simp: v_def)
  have e: "exit_table cur t = upd_proc cur (\<lambda>p. p\<lparr>pstate := ZOMBIE\<rparr>) v" by (simp add: exit_table_def u_def v_def Let_def)
  have w: "woken (adopt cur NPROC t i) (ptable v i)" for i
    by (rule woken_trans [OF adopt_cong v(1)]) (simp_all add: u_def wakeup1_woken)
  show "i \<noteq> cur \<Longrightarrow> woken (adopt cur NPROC t i) (ptable (exit_table cur t) i)" using w by (simp add: e)
  have "ptable v cur = adopt cur NPROC t cur"
    using w [of cur] assms(2) by (auto simp: woken_def adopt_def Let_def split: if_splits)
  then show "ptable (exit_table cur t) cur = (adopt cur NPROC t cur)\<lparr>pstate := ZOMBIE\<rparr>" by (simp add: e)
  show "initproc (exit_table cur t) = initproc t" "nextpid (exit_table cur t) = nextpid t" "running (exit_table cur t) = running t"
    using u v by (simp_all add: e)
qed

text \<open>\<open>alloc_rest\<close> and the rest of \<open>fork\<close> change one entry: it becomes the runnable child, or is unused again.\<close>

lemma alloc_rest_table:
  assumes "alloc_rest i t s = Ok (r, t', s')"
  shows "\<exists>p. ptable t' = (ptable t)(i := p) \<and> pid p = pid (ptable t i) \<and> killed p = killed (ptable t i) \<and>
    nextpid t' = nextpid t \<and> initproc t' = initproc t \<and> running t' = running t \<and>
    (r = None \<and> pstate p = UNUSED \<or> r = Some i \<and> pstate p = pstate (ptable t i))"
  using assms
  apply (simp add: alloc_rest_def Let_def split: prod.splits if_splits)
  apply (auto simp: bindE_eq_Ok split: prod.splits if_splits)
  done

lemma fork_rest_table:
  assumes "fork_rest cur i t s = Ok (r, t', s')"
  shows "\<exists>p. ptable t' = (ptable t)(i := p) \<and> pid p = pid (ptable t i) \<and> killed p = killed (ptable t i) \<and>
    nextpid t' = nextpid t \<and> initproc t' = initproc t \<and> running t' = running t \<and>
    (r = -1 \<and> pstate p = UNUSED \<or> r = pid p \<and> pstate p = RUNNABLE \<and> parent p = Some cur)"
proof -
  from assms obtain a t1 s1 where al: "alloc_rest i t s = Ok (a, t1, s1)" and f: "fork_made cur (a, t1, s1) = Ok (r, t', s')"
    by (auto simp: fork_rest_def bindE_eq_Ok)
  from alloc_rest_table [OF al] obtain p where
    p: "ptable t1 = (ptable t)(i := p)" "pid p = pid (ptable t i)" "killed p = killed (ptable t i)" "nextpid t1 = nextpid t"
    "initproc t1 = initproc t" "running t1 = running t" "a = None \<and> pstate p = UNUSED \<or> a = Some i" by auto
  show ?thesis
  proof (cases a)
    case None
    then show ?thesis using f p by (auto simp: fork_made_def)
  next
    case (Some j)
    then have "a = Some i" using p(7) by simp
    have "fork_copy cur i t1 s1 = Ok (r, t', s')" using f \<open>a = Some i\<close> by (simp add: fork_made_def)
    then have "r = -1 \<and> t' = upd_proc i (\<lambda>p. p\<lparr>ppgdir := 0, kstack := 0, pstate := UNUSED\<rparr>) t1 \<or>
      (\<exists>d. r = pid (ptable t' i) \<and> t' = upd_proc i (fork_child cur (ptable t1 cur) d) t1)"
      unfolding fork_copy_def Let_def
      by (elim bindE_OkE) (auto elim!: bindE_OkE split: option.splits)
    with p show ?thesis by (intro exI [of _ "ptable t' i"]) (auto simp: fork_child_def)
  qed
qed

lemma alloc_entry_table:
  assumes "alloc_entry t = Some (i, t')"
  shows "i < NPROC" "pstate (ptable t i) = UNUSED" "ptable t' = (ptable t)(i := (ptable t i)\<lparr>pstate := EMBRYO, pid := nextpid t\<rparr>)"
    "nextpid t' = i32 (nextpid t + 1)" "initproc t' = initproc t" "running t' = running t"
    "find (\<lambda>i. pstate (ptable t i) = UNUSED) [0..<NPROC] = Some i"
  using assms find_NPROC [of "\<lambda>i. pstate (ptable t i) = UNUSED" i] by (auto simp: alloc_entry_def Let_def split: option.splits)

section \<open>The invariant of the process table\<close>

text \<open>
  \<open>alive\<close>: a process that can still run; \<open>settled\<close>: one that is completely made.  \<open>C c\<close> is the process of processor \<open>c\<close>,
  \<open>F p\<close> the entry that process \<open>p\<close> is making in \<open>fork\<close>, and \<open>n\<close> the number of entries handed out since boot.  The invariant: the
  processes marked running are those of the processors, no two of which have the same; the first process is alive;
  every other process, zombies included, has a parent that is alive, so its exit will be collected; an entry half
  made has a maker; and until \<open>nextpid\<close> has been through all positive numbers, process identifiers are all different.
\<close>

definition alive :: "proc \<Rightarrow> bool" where
  "alive p \<longleftrightarrow> pstate p \<in> {SLEEPING, RUNNABLE, RUNNING}"

definition in_use :: "proc \<Rightarrow> bool" where
  "in_use p \<longleftrightarrow> pstate p \<noteq> UNUSED"

definition settled :: "proc \<Rightarrow> bool" where
  "settled p \<longleftrightarrow> pstate p \<notin> {UNUSED, EMBRYO}"

definition run_inv :: "(nat \<Rightarrow> nat option) \<Rightarrow> ptab \<Rightarrow> bool" where
  "run_inv C t \<longleftrightarrow> (\<forall>i < NPROC. pstate (ptable t i) = RUNNING \<longleftrightarrow> (\<exists>c. C c = Some i)) \<and> (\<forall>c i. C c = Some i \<longrightarrow> i < NPROC) \<and>
     (\<forall>c d i. C c = Some i \<longrightarrow> C d = Some i \<longrightarrow> c = d)"

definition family_inv :: "ptab \<Rightarrow> bool" where
  "family_inv t \<longleftrightarrow> (\<exists>r < NPROC. initproc t = Some r \<and> alive (ptable t r)) \<and>
     (\<forall>i < NPROC. settled (ptable t i) \<and> initproc t \<noteq> Some i \<longrightarrow>
        (\<exists>p < NPROC. parent (ptable t i) = Some p \<and> alive (ptable t p)))"

definition embryo_inv :: "(nat \<Rightarrow> nat option) \<Rightarrow> ptab \<Rightarrow> bool" where
  "embryo_inv F t \<longleftrightarrow> (\<forall>i < NPROC. pstate (ptable t i) = EMBRYO \<longleftrightarrow> (\<exists>p. F p = Some i)) \<and>
     (\<forall>p i. F p = Some i \<longrightarrow> p < NPROC \<and> i < NPROC \<and> alive (ptable t p)) \<and> (\<forall>p q i. F p = Some i \<longrightarrow> F q = Some i \<longrightarrow> p = q)"

definition pid_inv :: "nat \<Rightarrow> ptab \<Rightarrow> bool" where
  "pid_inv n t \<longleftrightarrow> nextpid t = i32 (2 + int n) \<and>
     (n \<le> 2 ^ 31 - 2 \<longrightarrow> (\<forall>i < NPROC. in_use (ptable t i) \<longrightarrow> 0 < pid (ptable t i) \<and> pid (ptable t i) < 2 + int n) \<and>
       (\<forall>i < NPROC. \<forall>j < NPROC. in_use (ptable t i) \<longrightarrow> in_use (ptable t j) \<longrightarrow> pid (ptable t i) = pid (ptable t j) \<longrightarrow> i = j))"

definition proc_inv :: "nat \<Rightarrow> (nat \<Rightarrow> nat option) \<Rightarrow> (nat \<Rightarrow> nat option) \<Rightarrow> ptab \<Rightarrow> bool" where
  "proc_inv n C F t \<longleftrightarrow> run_inv C t \<and> family_inv t \<and> embryo_inv F t \<and> pid_inv n t"

text \<open>What each part of the invariant asks of a change.\<close>

lemma run_same: "run_inv C t \<Longrightarrow> (\<And>i. i < NPROC \<Longrightarrow> pstate (ptable u i) = RUNNING \<longleftrightarrow> pstate (ptable t i) = RUNNING) \<Longrightarrow> run_inv C u"
  unfolding run_inv_def by metis

lemma run_off:
  assumes "run_inv C t" "C c = Some i" "pstate (ptable u i) \<noteq> RUNNING"
    "\<And>j. j < NPROC \<Longrightarrow> j \<noteq> i \<Longrightarrow> pstate (ptable u j) = RUNNING \<longleftrightarrow> pstate (ptable t j) = RUNNING"
  shows "run_inv (C(c := None)) u"
  using assms unfolding run_inv_def by (simp split: if_splits) (metis option.inject)

lemma run_on:
  assumes "run_inv C t" "C c = None" "i < NPROC" "pstate (ptable t i) \<noteq> RUNNING" "pstate (ptable u i) = RUNNING"
    "\<And>j. j < NPROC \<Longrightarrow> j \<noteq> i \<Longrightarrow> pstate (ptable u j) = RUNNING \<longleftrightarrow> pstate (ptable t j) = RUNNING"
  shows "run_inv (C(c := Some i)) u"
proof -
  have n: "C d \<noteq> Some i" for d using assms(1,3,4) unfolding run_inv_def by blast
  have "pstate (ptable u j) = RUNNING \<longleftrightarrow> (\<exists>d. (C(c := Some i)) d = Some j)" if "j < NPROC" for j
  proof (cases "j = i")
    case False
    then show ?thesis using assms(1,2) assms(6) [OF that False] that unfolding run_inv_def by (metis fun_upd_apply option.distinct(1) option.inject)
  qed (use assms(5) in auto)
  then show ?thesis using assms(1,3) n unfolding run_inv_def by (auto split: if_splits)
qed

lemma initE:
  assumes "family_inv t"
  obtains q where "q < NPROC" "initproc t = Some q" "alive (ptable t q)"
  using assms unfolding family_inv_def by blast

lemma parentE:
  assumes "family_inv t" "j < NPROC" "settled (ptable t j)" "initproc t \<noteq> Some j"
  obtains p where "p < NPROC" "parent (ptable t j) = Some p" "alive (ptable t p)"
  using assms unfolding family_inv_def by blast

lemma family_invI:
  assumes "q < NPROC" "initproc u = Some q" "alive (ptable u q)"
    "\<And>j. j < NPROC \<Longrightarrow> settled (ptable u j) \<Longrightarrow> j \<noteq> q \<Longrightarrow> \<exists>k < NPROC. parent (ptable u j) = Some k \<and> alive (ptable u k)"
  shows "family_inv u"
  using assms unfolding family_inv_def by auto

lemma family_keep:
  assumes "family_inv t" "initproc u = initproc t" "\<And>j. j < NPROC \<Longrightarrow> alive (ptable t j) \<Longrightarrow> alive (ptable u j)"
    "\<And>j. j < NPROC \<Longrightarrow> settled (ptable u j) \<Longrightarrow> settled (ptable t j) \<and> parent (ptable u j) = parent (ptable t j) \<or>
       (\<exists>c < NPROC. parent (ptable u j) = Some c \<and> alive (ptable u c))"
  shows "family_inv u"
proof -
  obtain q where q: "q < NPROC" "initproc t = Some q" "alive (ptable t q)" by (rule initE [OF assms(1)])
  show ?thesis
  proof (rule family_invI [OF q(1)])
    fix j assume j: "j < NPROC" "settled (ptable u j)" "j \<noteq> q"
    have "\<exists>k < NPROC. parent (ptable u j) = Some k \<and> alive (ptable u k)" if "settled (ptable t j)" "parent (ptable u j) = parent (ptable t j)"
      using parentE [OF assms(1) j(1) that(1)] assms(3) that(2) j(3) q(2) by (metis option.inject)
    then show "\<exists>k < NPROC. parent (ptable u j) = Some k \<and> alive (ptable u k)" using assms(4) [OF j(1,2)] by blast
  qed (use q assms in auto)
qed

lemma family_less:
  assumes "family_inv t" "initproc u = initproc t" "\<And>j. j < NPROC \<Longrightarrow> alive (ptable t j) \<Longrightarrow> alive (ptable u j)"
    "\<And>j. j < NPROC \<Longrightarrow> settled (ptable u j) \<Longrightarrow> settled (ptable t j) \<and> parent (ptable u j) = parent (ptable t j)"
  shows "family_inv u"
  by (rule family_keep [of t u]) (use assms in blast)+

lemma embryo_same:
  assumes "embryo_inv F t" "\<And>i. i < NPROC \<Longrightarrow> pstate (ptable u i) = EMBRYO \<longleftrightarrow> pstate (ptable t i) = EMBRYO"
    "\<And>p i. F p = Some i \<Longrightarrow> alive (ptable t p) \<Longrightarrow> alive (ptable u p)"
  shows "embryo_inv F u"
  using assms unfolding embryo_inv_def by metis

lemma embryo_new:
  assumes e: "embryo_inv F t" and p: "F p = None" "p < NPROC" "alive (ptable t p)" and i: "i < NPROC" "pstate (ptable t i) = UNUSED"
    and u: "ptable u = (ptable t)(i := x)" "pstate x = EMBRYO"
  shows "embryo_inv (F(p := Some i)) u"
proof -
  have n: "F q \<noteq> Some i" for q using e i unfolding embryo_inv_def by (metis procstate.distinct(1))
  have al: "q \<noteq> i" if "alive (ptable t q)" for q using that i(2) by (auto simp: alive_def)
  have a: "pstate (ptable u j) = EMBRYO \<longleftrightarrow> (\<exists>q. (F(p := Some i)) q = Some j)" if "j < NPROC" for j
  proof (cases "j = i")
    case False
    then have "(\<exists>q. (F(p := Some i)) q = Some j) \<longleftrightarrow> (\<exists>q. F q = Some j)" using p(1) by (metis fun_upd_apply option.distinct(1) option.inject)
    then show ?thesis using e that False u(1) unfolding embryo_inv_def by simp
  qed (use u in auto)
  have b: "q < NPROC \<and> j < NPROC \<and> alive (ptable u q)" if "(F(p := Some i)) q = Some j" for q j
  proof (cases "q = p")
    case False
    then have "q < NPROC" "j < NPROC" "alive (ptable t q)" using that e unfolding embryo_inv_def by (auto simp: fun_upd_def)
    then show ?thesis using al u(1) by simp
  qed (use that p i al [OF p(3)] u(1) in auto)
  show ?thesis unfolding embryo_inv_def using a b e n unfolding embryo_inv_def by (auto split: if_splits)
qed

lemma embryo_done:
  assumes e: "embryo_inv F t" and p: "F p = Some i" and u: "ptable u = (ptable t)(i := x)" "pstate x \<noteq> EMBRYO"
  shows "embryo_inv (F(p := None)) u"
proof -
  have i: "pstate (ptable t i) = EMBRYO" "\<And>q. F q = Some i \<Longrightarrow> q = p" using e p unfolding embryo_inv_def by metis+
  have al: "q \<noteq> i" if "alive (ptable t q)" for q using that i(1) by (auto simp: alive_def)
  have "(\<exists>q. (F(p := None)) q = Some j) \<longleftrightarrow> j \<noteq> i \<and> (\<exists>q. F q = Some j)" for j using p i(2) by (metis fun_upd_apply option.distinct(1) option.inject)
  then show ?thesis using e u al unfolding embryo_inv_def by (auto split: if_splits)
qed

lemma pid_same:
  assumes "pid_inv n t" "nextpid u = nextpid t"
    "\<And>i. i < NPROC \<Longrightarrow> in_use (ptable u i) \<Longrightarrow> in_use (ptable t i) \<and> pid (ptable u i) = pid (ptable t i)"
  shows "pid_inv n u"
  using assms unfolding pid_inv_def by metis

lemma pid_new:
  assumes b: "pid_inv n t" and i: "i < NPROC" and u: "ptable u = (ptable t)(i := x)" "pid x = nextpid t" "nextpid u = i32 (nextpid t + 1)"
  shows "pid_inv (Suc n) u"
proof -
  have x: "nextpid t = i32 (2 + int n)" using b by (simp add: pid_inv_def)
  have y: "nextpid u = i32 (2 + int (Suc n))" unfolding u(3) x using i32_Suc [of "2 + int n"] by (simp add: algebra_simps)
  show ?thesis
  proof (cases "Suc n \<le> 2 ^ 31 - 2")
    case True
    then have "nextpid t = 2 + int n" unfolding x by (intro i32_id) auto
    with b True u y show ?thesis unfolding pid_inv_def
      by (auto split: if_splits)
  qed (use y in \<open>simp add: pid_inv_def\<close>)
qed

text \<open>Changes that keep all of it: waking processes and changing fields it does not mention.\<close>

definition alike :: "proc \<Rightarrow> proc \<Rightarrow> bool" where
  "alike p q \<longleftrightarrow> pid q = pid p \<and> parent q = parent p \<and>
     (pstate q = pstate p \<or> pstate p = SLEEPING \<and> pstate q = RUNNABLE)"

lemma woken_alike: "woken p q \<Longrightarrow> alike p q"
  by (auto simp: woken_def alike_def)

lemma alike_refl [simp]: "alike p p" by (simp add: alike_def)

lemma alike_state:
  assumes "alike p q"
  shows "alive q = alive p" "in_use q = in_use p" "settled q = settled p" "pstate q = RUNNING \<longleftrightarrow> pstate p = RUNNING"
    "pstate q = EMBRYO \<longleftrightarrow> pstate p = EMBRYO" "pid q = pid p" "parent q = parent p"
  using assms by (auto simp: alike_def alive_def in_use_def settled_def)

lemma proc_inv_alike:
  assumes "proc_inv n C F t" "\<And>i. i < NPROC \<Longrightarrow> alike (ptable t i) (ptable u i)" "initproc u = initproc t" "nextpid u = nextpid t"
  shows "proc_inv n C F u"
proof -
  note a = alike_state [OF assms(2)]
  have i: "run_inv C t" "family_inv t" "embryo_inv F t" "pid_inv n t" using assms(1) by (auto simp: proc_inv_def)
  have l: "F p = Some j \<Longrightarrow> p < NPROC" for p j using i(3) by (simp add: embryo_inv_def)
  show ?thesis unfolding proc_inv_def
    using run_same [OF i(1), of u] family_less [OF i(2) assms(3)] embryo_same [OF i(3), of u] pid_same [OF i(4) assms(4)] l by (simp add: a)
qed

text \<open>The process of a processor gives it up, to run again later.\<close>

lemma proc_inv_sched:
  assumes "proc_inv n C F t" "C c = Some i" "\<And>j. j \<noteq> i \<Longrightarrow> ptable u j = ptable t j"
    "pid (ptable u i) = pid (ptable t i)" "parent (ptable u i) = parent (ptable t i)" "pstate (ptable u i) \<in> {RUNNABLE, SLEEPING}"
    "initproc u = initproc t" "nextpid u = nextpid t"
  shows "proc_inv n (C(c := None)) F u"
proof -
  have inv: "run_inv C t" "family_inv t" "embryo_inv F t" "pid_inv n t" using assms(1) by (auto simp: proc_inv_def)
  have i: "i < NPROC" "pstate (ptable t i) = RUNNING" using inv(1) assms(2) unfolding run_inv_def by blast+
  have a: "alive (ptable u j) = alive (ptable t j)" "in_use (ptable u j) = in_use (ptable t j)" "settled (ptable u j) = settled (ptable t j)"
    "pid (ptable u j) = pid (ptable t j)" "parent (ptable u j) = parent (ptable t j)" "pstate (ptable u j) = EMBRYO \<longleftrightarrow> pstate (ptable t j) = EMBRYO" for j
    using assms(3-6) i by (cases "j = i"; auto simp: alive_def in_use_def settled_def)+
  have "pstate (ptable u i) \<noteq> RUNNING" using assms(6) by auto
  then show ?thesis unfolding proc_inv_def
    using run_off [OF inv(1) assms(2), of u] family_less [OF inv(2) assms(7)] embryo_same [OF inv(3), of u] pid_same [OF inv(4) assms(8)] assms(3)
    by (simp add: a)
qed

lemma proc_inv_alloc:
  assumes inv: "proc_inv n C F t" and p: "C c = Some cur" "F cur = None" and a: "alloc_entry t = Some (i, u)"
  shows "proc_inv (Suc n) C (F(cur := Some i)) u"
proof -
  have v: "run_inv C t" "family_inv t" "embryo_inv F t" "pid_inv n t" using inv by (auto simp: proc_inv_def)
  have c: "cur < NPROC" "alive (ptable t cur)" using v(1) p(1) unfolding run_inv_def alive_def by blast+
  note e = alloc_entry_table [OF a]
  have "run_inv C u" by (rule run_same [OF v(1)]) (simp add: e(2,3))
  moreover have "family_inv u" by (rule family_less [of t u]) (use v(2) e(2,5) in \<open>auto simp: e(3) alive_def settled_def split: if_splits\<close>)
  moreover have "embryo_inv (F(cur := Some i)) u" by (rule embryo_new [OF v(3) p(2) c e(1,2,3)]) simp
  moreover have "pid_inv (Suc n) u" by (rule pid_new [OF v(4) e(1,3) _ e(4)]) simp
  ultimately show ?thesis by (simp add: proc_inv_def)
qed

lemma proc_inv_made:
  assumes inv: "proc_inv n C F t" and p: "C c = Some cur" "F cur = Some i" and u: "ptable u = (ptable t)(i := x)" "pid x = pid (ptable t i)"
    "nextpid u = nextpid t" "initproc u = initproc t" and x: "pstate x = UNUSED \<or> pstate x = RUNNABLE \<and> parent x = Some cur"
  shows "proc_inv n C (F(cur := None)) u"
proof -
  have v: "run_inv C t" "family_inv t" "embryo_inv F t" "pid_inv n t" using inv by (auto simp: proc_inv_def)
  have c: "cur < NPROC" "alive (ptable t cur)" using v(1) p(1) unfolding run_inv_def alive_def by blast+
  have i: "i < NPROC" "pstate (ptable t i) = EMBRYO" using v(3) p(2) unfolding embryo_inv_def by blast+
  then have "\<not> alive (ptable t i)" "in_use (ptable t i)" by (simp_all add: alive_def in_use_def)
  then have al: "alive (ptable u j)" if "alive (ptable t j)" for j using that u(1) by (cases "j = i") auto
  have "run_inv C u" by (rule run_same [OF v(1)]) (cases "pstate x"; use i x in \<open>simp add: u(1)\<close>)
  have f: "settled (ptable t j) \<and> parent (ptable u j) = parent (ptable t j) \<or> (\<exists>c < NPROC. parent (ptable u j) = Some c \<and> alive (ptable u c))"
    if "settled (ptable u j)" for j
  proof (cases "j = i")
    case True
    then have "parent (ptable u j) = Some cur" using x that by (simp add: u(1) settled_def)
    then show ?thesis using c(1) al [OF c(2)] by blast
  qed (use that in \<open>simp add: u(1)\<close>)
  have "family_inv u" by (rule family_keep [of t u]) (use v(2) u(4) al f in blast)+
  moreover note \<open>run_inv C u\<close>
  moreover have "embryo_inv (F(cur := None)) u" by (rule embryo_done [OF v(3) p(2) u(1)]) (use x in auto)
  moreover have "pid_inv n u" by (rule pid_same [OF v(4) u(3)]) (use \<open>in_use (ptable t i)\<close> u(2) in \<open>auto simp: u(1)\<close>)
  ultimately show ?thesis by (simp add: proc_inv_def)
qed

lemma proc_inv_reap:
  assumes inv: "proc_inv n C F t" and i: "pstate (ptable t i) = ZOMBIE" and u: "ptable u = (ptable t)(i := x)" "pstate x = UNUSED"
    "nextpid u = nextpid t" "initproc u = initproc t"
  shows "proc_inv n C F u"
proof -
  have v: "run_inv C t" "family_inv t" "embryo_inv F t" "pid_inv n t" using inv by (auto simp: proc_inv_def)
  have "\<not> alive (ptable t i)" using i by (simp add: alive_def)
  then have al: "alive (ptable u j)" if "alive (ptable t j)" for j using that u(1) by (cases "j = i") auto
  have "run_inv C u" by (rule run_same [OF v(1)]) (simp add: u(1,2) i)
  moreover have "family_inv u" by (rule family_less [OF v(2) u(4) al]) (use u(2) in \<open>simp_all add: u(1) settled_def split: if_splits\<close>)
  moreover have "embryo_inv F u" by (rule embryo_same [OF v(3) _ al]) (use i u in auto)
  moreover have "pid_inv n u" by (rule pid_same [OF v(4) u(3)]) (use u in \<open>auto simp: in_use_def\<close>)
  ultimately show ?thesis by (simp add: proc_inv_def)
qed

lemma proc_inv_exit:
  assumes inv: "proc_inv n C F t" and cur: "C c = Some cur" "F cur = None" and ni: "initproc t \<noteq> Some cur"
  shows "proc_inv n (C(c := None)) F (exit_table cur t)"
proof -
  let ?u = "exit_table cur t"
  have v: "run_inv C t" "family_inv t" "embryo_inv F t" "pid_inv n t" using inv by (auto simp: proc_inv_def)
  have c: "cur < NPROC" "pstate (ptable t cur) = RUNNING" using v(1) cur unfolding run_inv_def by blast+
  have ok: "pstate (ptable t cur) \<noteq> SLEEPING" using c by simp
  note e = exit_table_ok [OF ni ok]
  have st: "pstate (ptable ?u cur) = ZOMBIE" "pid (ptable ?u cur) = pid (ptable t cur)"
    using e(2) by (auto simp: adopt_def Let_def)
  have oth: "alive (ptable ?u j) = alive (ptable t j)" "in_use (ptable ?u j) = in_use (ptable t j)" "settled (ptable ?u j) = settled (ptable t j)"
    "pstate (ptable ?u j) = RUNNING \<longleftrightarrow> pstate (ptable t j) = RUNNING" "pstate (ptable ?u j) = EMBRYO \<longleftrightarrow> pstate (ptable t j) = EMBRYO"
    "pid (ptable ?u j) = pid (ptable t j)" if "j \<noteq> cur" for j
    using e(1) [OF that] by (auto simp: woken_def adopt_def alive_def in_use_def settled_def Let_def split: if_splits)
  have par: "parent (ptable ?u j) = (if parent (ptable t j) = Some cur then initproc t else parent (ptable t j))" if "j < NPROC" for j
    using e(1) [of j] e(2) that by (cases "j = cur") (auto simp: woken_def adopt_def Let_def split: if_splits)
  obtain q where q: "q < NPROC" "initproc t = Some q" "alive (ptable t q)" by (rule initE [OF v(2)])
  have qu: "alive (ptable ?u q)" using q ni oth(1) [of q] by auto
  have use: "in_use (ptable ?u j) = in_use (ptable t j)" "settled (ptable ?u j) = settled (ptable t j)" "pid (ptable ?u j) = pid (ptable t j)"
    "pstate (ptable ?u j) = EMBRYO \<longleftrightarrow> pstate (ptable t j) = EMBRYO" for j
    using oth [of j] st c by (cases "j = cur"; auto simp: in_use_def settled_def)+
  have "run_inv (C(c := None)) ?u" by (rule run_off [OF v(1) cur(1)]) (use st oth in auto)
  moreover have "family_inv ?u"
  proof (rule family_invI [OF q(1)])
    fix j assume j: "j < NPROC" "settled (ptable ?u j)" "j \<noteq> q"
    then have "settled (ptable t j)" "initproc t \<noteq> Some j" using use q by auto
    then obtain p where p: "p < NPROC" "parent (ptable t j) = Some p" "alive (ptable t p)"
      using parentE [OF v(2) j(1)] by blast
    show "\<exists>p < NPROC. parent (ptable ?u j) = Some p \<and> alive (ptable ?u p)"
      using par [OF j(1)] p q qu oth(1) [of p] by (cases "p = cur") auto
  qed (use q qu e(3) in auto)
  moreover have "embryo_inv F ?u" by (rule embryo_same [OF v(3)]) (use use(4) in simp, metis oth(1) cur(2) option.distinct(1))
  moreover have "pid_inv n ?u" by (rule pid_same [OF v(4) e(4)]) (use use in auto)
  ultimately show ?thesis by (simp add: proc_inv_def)
qed

lemma proc_inv_dispatch:
  assumes inv: "proc_inv n C F t" and c: "C c = None" and i: "i < NPROC" "pstate (ptable t i) = RUNNABLE"
    and u: "ptable u = (ptable t)(i := (ptable t i)\<lparr>pstate := RUNNING\<rparr>)" "initproc u = initproc t" "nextpid u = nextpid t"
  shows "proc_inv n (C(c := Some i)) F u"
proof -
  have v: "run_inv C t" "family_inv t" "embryo_inv F t" "pid_inv n t" using inv by (auto simp: proc_inv_def)
  have a: "alive (ptable u j) = alive (ptable t j)" "in_use (ptable u j) = in_use (ptable t j)" "settled (ptable u j) = settled (ptable t j)"
    "pid (ptable u j) = pid (ptable t j)" "parent (ptable u j) = parent (ptable t j)" "pstate (ptable u j) = EMBRYO \<longleftrightarrow> pstate (ptable t j) = EMBRYO" for j
    using i by (auto simp: u(1) alive_def in_use_def settled_def)
  have "run_inv (C(c := Some i)) u" by (rule run_on [OF v(1) c i(1)]) (use i u in auto)
  then show ?thesis unfolding proc_inv_def
    using family_less [OF v(2) u(2)] embryo_same [OF v(3), of u] pid_same [OF v(4) u(3)] by (simp add: a)
qed

section \<open>The kernel on several processors\<close>

text \<open>
  The kernel at the level of its process table.  Each step is one of processor \<open>c\<close>, which sees its own \<open>C c\<close> as
  \<open>running\<close>: its process makes a call, or the scheduler dispatches when it has none.  The steps are what runs
  under \<open>ptable.lock\<close>; \<open>fork\<close> takes two of them, between which others run, and \<open>exit\<close> closes its files before its last
  one.  The other system calls change fields of the caller's own entry only (\<open>m_own\<close>).  The rest of the kernel, \<open>s\<close>, is
  arbitrary in every step.
\<close>

abbreviation on_cpu :: "(nat \<Rightarrow> nat option) \<Rightarrow> nat \<Rightarrow> ptab \<Rightarrow> ptab" where
  "on_cpu C c t \<equiv> t\<lparr>running := C c\<rparr>"

type_synonym cpus = "(nat \<Rightarrow> nat option) \<times> (nat \<Rightarrow> nat option) \<times> ptab"

inductive kstep :: "cpus \<Rightarrow> cpus \<Rightarrow> bool" where
  k_fork: "C c = Some cur \<Longrightarrow> F cur = Some i \<Longrightarrow> fork_rest cur i (on_cpu C c t) (s :: file_state) = Ok (r, t', s') \<Longrightarrow>
    kstep (C, F, t) (C(c := running t'), F(cur := None), t')"
| k_close: "C c = Some cur \<Longrightarrow> close_fd cur fd (on_cpu C c t, s :: file_state) = Ok (t', s') \<Longrightarrow> kstep (C, F, t) (C(c := running t'), F, t')"
| k_exit: "C c = Some cur \<Longrightarrow> F cur = None \<Longrightarrow> initproc t \<noteq> Some cur \<Longrightarrow>
    sched (exit_table cur (on_cpu C c t)) (s :: file_state) = Ok (t', s') \<Longrightarrow> kstep (C, F, t) (C(c := running t'), F, t')"
| k_wait: "C c = Some cur \<Longrightarrow> wait cur (on_cpu C c t) (s :: file_state) = Ok (r, t', s') \<Longrightarrow> kstep (C, F, t) (C(c := running t'), F, t')"
| k_wait_sleep: "C c = Some cur \<Longrightarrow> wait cur (on_cpu C c t) (s :: file_state) = Blocked w \<Longrightarrow>
    sleep (ProcChan cur) (on_cpu C c t) s = Ok (t', s') \<Longrightarrow> kstep (C, F, t) (C(c := running t'), F, t')"
| k_sleep: "sleep ch (on_cpu C c t) (s :: file_state) = Ok (t', s') \<Longrightarrow> kstep (C, F, t) (C(c := running t'), F, t')"
| k_return: "C c = Some cur \<Longrightarrow> kstep (C, F, t) (C, F, sleep_return cur t)"
| k_wakeup: "kstep (C, F, t) (C, F, wakeup ch t)"
| k_kill: "kill k t = (r, t') \<Longrightarrow> kstep (C, F, t) (C, F, t')"
| k_yield: "yield (on_cpu C c t) (s :: file_state) = Ok (t', s') \<Longrightarrow> kstep (C, F, t) (C(c := running t'), F, t')"
| k_grow: "C c = Some cur \<Longrightarrow> growproc cur n (on_cpu C c t) (s :: file_state) = Ok (r, t', s') \<Longrightarrow> kstep (C, F, t) (C(c := running t'), F, t')"
| k_own: "C c = Some cur \<Longrightarrow> pid (f (ptable t cur)) = pid (ptable t cur) \<Longrightarrow> parent (f (ptable t cur)) = parent (ptable t cur) \<Longrightarrow>
    pstate (f (ptable t cur)) = pstate (ptable t cur) \<Longrightarrow> kstep (C, F, t) (C, F, upd_proc cur f t)"
| k_sched: "C c = None \<Longrightarrow> pos \<le> NPROC \<Longrightarrow> scheduler pos (on_cpu C c t) (s :: file_state) = Ok (t', s') \<Longrightarrow>
    kstep (C, F, t) (C(c := running t'), F, t')"
| k_forkret: "forkret (on_cpu C c t) (s :: file_state) = Ok (t', s') \<Longrightarrow> kstep (C, F, t) (C(c := running t'), F, t')"

text \<open>The table as \<open>userinit\<close> leaves it: one process, runnable, with identifier 1.\<close>

definition booted :: "ptab \<Rightarrow> bool" where
  "booted t \<longleftrightarrow> (\<exists>r < NPROC. initproc t = Some r \<and> pstate (ptable t r) = RUNNABLE \<and> pid (ptable t r) = 1 \<and>
     (\<forall>i < NPROC. i \<noteq> r \<longrightarrow> pstate (ptable t i) = UNUSED)) \<and> nextpid t = 2 \<and> running t = None"

inductive kreach :: "nat \<Rightarrow> cpus \<Rightarrow> bool" where
  k_boot: "booted t \<Longrightarrow> kreach 0 (\<lambda>_. None, \<lambda>_. None, t)"
| k_step: "kreach n x \<Longrightarrow> kstep x y \<Longrightarrow> kreach n y"
| k_alloc: "kreach n (C, F, t) \<Longrightarrow> C c = Some cur \<Longrightarrow> F cur = None \<Longrightarrow> alloc_entry t = Some (i, t') \<Longrightarrow>
    kreach (Suc n) (C, F(cur := Some i), t')"

lemma proc_inv_cpu [simp]: "proc_inv n C F (t\<lparr>running := r\<rparr>) = proc_inv n C F t"
  by (simp add: proc_inv_def run_inv_def family_inv_def embryo_inv_def pid_inv_def)

lemma sched_inv:
  assumes inv: "proc_inv n C F t" and r: "C c = Some i" "running t = C c" and st: "st \<in> {RUNNABLE, SLEEPING}"
    and s: "sched (upd_proc i (\<lambda>p. (f p)\<lparr>pstate := st\<rparr>) t) s = Ok (t', s')"
    and f: "\<And>p. pid (f p) = pid p \<and> parent (f p) = parent p"
  shows "proc_inv n (C(c := running t')) F t'"
proof -
  have t': "t' = (upd_proc i (\<lambda>p. (f p)\<lparr>pstate := st\<rparr>) t)\<lparr>running := None\<rparr>"
    using s r st by (auto simp: sched_def)
  have "proc_inv n (C(c := None)) F t'" by (rule proc_inv_sched [OF inv r(1)]) (use f st in \<open>auto simp: t'\<close>)
  then show ?thesis by (simp add: t')
qed

lemma same_cpu: "proc_inv n C F t \<Longrightarrow> running t = C c \<Longrightarrow> proc_inv n (C(c := running t)) F t"
  by simp

text \<open>Operations of one processor that leave its process alone keep the invariant when they only make such changes.\<close>

lemma proc_inv_own:
  assumes "proc_inv n C F t" "\<And>i. i < NPROC \<Longrightarrow> alike (ptable t i) (ptable u i)" "initproc u = initproc t" "nextpid u = nextpid t" "running u = C c"
  shows "proc_inv n (C(c := running u)) F u"
  by (rule same_cpu [OF proc_inv_alike [OF assms(1-4)] assms(5)])

lemma proc_inv_step: "kstep x y \<Longrightarrow> x = (C, F, t) \<Longrightarrow> y = (C', F', t') \<Longrightarrow> proc_inv n C F t \<Longrightarrow> proc_inv n C' F' t'"
proof (induction arbitrary: C F t C' F' t' rule: kstep.induct)
  case (k_fork C0 c cur F0 i t0 s r u s')
  from fork_rest_table [OF k_fork(3)] obtain p where
    p: "ptable u = (ptable t0)(i := p)" "pid p = pid (ptable t0 i)" "nextpid u = nextpid t0" "initproc u = initproc t0" "running u = C0 c"
    "pstate p = UNUSED \<or> pstate p = RUNNABLE \<and> parent p = Some cur" by auto
  have "proc_inv n C0 (F0(cur := None)) u" by (rule proc_inv_made [of n C0 F0 t0 c cur i u p]) (use k_fork p in simp_all)
  then have "proc_inv n (C0(c := running u)) (F0(cur := None)) u" by (rule same_cpu) (rule p(5))
  then show ?case using k_fork(4,5) by auto
next
  case (k_close C0 c cur fd t0 s u s' F0)
  have "proc_inv n (C0(c := running u)) F0 u"
    by (rule proc_inv_own [of _ _ _ t0]) (use k_close in \<open>auto simp: close_fd_def bindE_eq_Ok alike_def split: option.splits if_splits\<close>)
  then show ?case using k_close.prems by auto
next
  case (k_exit C0 c cur F0 t0 s u s')
  have i: "proc_inv n C0 F0 (on_cpu C0 c t0)" "initproc (on_cpu C0 c t0) \<noteq> Some cur" using k_exit by simp_all
  have "proc_inv n (C0(c := None)) F0 (exit_table cur (on_cpu C0 c t0))" by (rule proc_inv_exit [OF i(1) k_exit(1,2) i(2)])
  moreover have "u = (exit_table cur (on_cpu C0 c t0))\<lparr>running := None\<rparr>"
    using k_exit(4) by (auto simp: sched_def split: option.splits if_splits)
  ultimately have "proc_inv n (C0(c := running u)) F0 u" by simp
  then show ?case using k_exit.prems by auto
next
  case (k_wait C0 c cur t0 s r u s' F0)
  have i: "proc_inv n C0 F0 t0" using k_wait by simp
  have "proc_inv n (C0(c := running u)) F0 u"
  proof (cases "find (\<lambda>i. parent (ptable t0 i) = Some cur \<and> pstate (ptable t0 i) = ZOMBIE) [0..<NPROC]")
    case None
    then have "u = on_cpu C0 c t0" using k_wait(2) by (auto simp: wait_def split: if_splits)
    then show ?thesis using same_cpu [of n C0 F0 u c] i by simp
  next
    case (Some j)
    from find_NPROC [OF Some] have z: "pstate (ptable t0 j) = ZOMBIE" by auto
    from k_wait(2) Some have u: "ptable u = (ptable t0)(j := ptable u j)" "pstate (ptable u j) = UNUSED" "nextpid u = nextpid t0"
      "initproc u = initproc t0" "running u = C0 c" by (auto simp: wait_def Let_def bindE_eq_Ok)
    show ?thesis by (rule same_cpu [OF proc_inv_reap [OF i z u(1-4)] u(5)])
  qed
  then show ?case using k_wait.prems by auto
next
  case (k_wait_sleep C0 c cur t0 s w u s' F0)
  have "proc_inv n (C0(c := running u)) F0 u"
    by (rule sched_inv [of _ _ _ "on_cpu C0 c t0" _ cur SLEEPING "\<lambda>p. p\<lparr>pchan := ProcChan cur\<rparr>"]) (use k_wait_sleep in \<open>auto simp: sleep_def\<close>)
  then show ?case using k_wait_sleep.prems by auto
next
  case (k_sleep ch C0 c t0 s u s' F0)
  then obtain cur where cur: "C0 c = Some cur" by (auto simp: sleep_def split: option.splits)
  have "proc_inv n (C0(c := running u)) F0 u"
    by (rule sched_inv [of _ _ _ "on_cpu C0 c t0" _ cur SLEEPING "\<lambda>p. p\<lparr>pchan := ch\<rparr>"]) (use k_sleep cur in \<open>auto simp: sleep_def\<close>)
  then show ?case using k_sleep.prems by auto
next
  case (k_return C0 c cur F0 t0)
  have "proc_inv n C0 F0 (sleep_return cur t0)"
    unfolding sleep_return_def by (rule proc_inv_alike [of _ _ _ t0]) (use k_return in \<open>auto simp: alike_def split: if_splits\<close>)
  then show ?case using k_return.prems by auto
next
  case (k_wakeup C0 F0 t0 ch)
  have "proc_inv n C0 F0 (wakeup ch t0)"
    unfolding wakeup_def by (rule proc_inv_alike [of _ _ _ t0]) (use k_wakeup in \<open>simp_all add: woken_alike wakeup1_woken\<close>)
  then show ?case using k_wakeup.prems by auto
next
  case (k_kill k t0 r u C0 F0)
  have "proc_inv n C0 F0 u"
    by (rule proc_inv_alike [of _ _ _ t0]) (use k_kill in \<open>auto simp: kill_def alike_def split: option.splits if_splits\<close>)
  then show ?case using k_kill.prems by auto
next
  case (k_yield C0 c t0 s u s' F0)
  then obtain cur where cur: "C0 c = Some cur" by (auto simp: yield_def split: option.splits)
  have "proc_inv n (C0(c := running u)) F0 u"
    by (rule sched_inv [of _ _ _ "on_cpu C0 c t0" _ cur RUNNABLE "\<lambda>p. p"]) (use k_yield cur in \<open>auto simp: yield_def\<close>)
  then show ?case using k_yield.prems by auto
next
  case (k_grow C0 c cur m t0 s r u s' F0)
  have "proc_inv n (C0(c := running u)) F0 u"
    by (rule proc_inv_own [of _ _ _ t0]) (use k_grow in \<open>auto simp: growproc_def Let_def bindE_eq_Ok alike_def split: if_splits\<close>)
  then show ?case using k_grow.prems by auto
next
  case (k_own C0 c cur f t0 F0)
  have "proc_inv n C0 F0 (upd_proc cur f t0)" by (rule proc_inv_alike [of _ _ _ t0]) (use k_own in \<open>auto simp: alike_def split: if_splits\<close>)
  then show ?case using k_own.prems by auto
next
  case (k_sched C0 c pos t0 s u s' F0)
  then obtain j where j: "find (\<lambda>i. pstate (ptable t0 i) = RUNNABLE) ([pos..<NPROC] @ [0..<pos]) = Some j"
    by (auto simp: scheduler_def split: option.splits)
  from find_in [OF this] have "j < NPROC" "pstate (ptable t0 j) = RUNNABLE" using k_sched(2) by auto
  moreover have "ptable u = (ptable t0)(j := (ptable t0 j)\<lparr>pstate := RUNNING\<rparr>)" "initproc u = initproc t0" "nextpid u = nextpid t0" "running u = Some j"
    using k_sched(3) j by (auto simp: scheduler_def dispatch_def Let_def bindE_eq_Ok)
  ultimately have "proc_inv n (C0(c := running u)) F0 u" using proc_inv_dispatch [of n C0 F0 t0 c j u] k_sched by simp
  then show ?case using k_sched.prems by auto
next
  case (k_forkret C0 c t0 s u s' F0)
  have "proc_inv n (C0(c := running u)) F0 u"
    by (rule proc_inv_own [of _ _ _ t0]) (use k_forkret in \<open>auto simp: forkret_def bindE_eq_Ok split: if_splits\<close>)
  then show ?case using k_forkret.prems by auto
qed

lemma userinit_booted:
  assumes un: "\<And>i. pstate (ptable t i) = UNUSED" and n: "nextpid t = 1" and r: "running t = None"
    and u: "userinit t s = Ok (t', s')"
  shows "booted t'"
proof -
  from u obtain i t1 s1 where 1: "allocproc t s = Ok (Some i, t1, s1)"
    by (auto simp: userinit_def bindE_eq_Ok Let_def split: option.splits)
  then obtain t0 where a: "alloc_entry t = Some (i, t0)" "alloc_rest i t0 s = Ok (Some i, t1, s1)"
    using alloc_rest_table by (auto simp: allocproc_def split: option.splits) blast
  note e = alloc_entry_table [OF a(1)]
  from alloc_rest_table [OF a(2)] obtain p where p: "ptable t1 = (ptable t)(i := p)" "pid p = 1" "nextpid t1 = 2" "running t1 = None"
    using n r e by (auto simp: i32_id)
  from u have "pid (ptable t' i) = 1 \<and> pstate (ptable t' i) = RUNNABLE \<and> (\<forall>j. j \<noteq> i \<longrightarrow> ptable t' j = ptable t j) \<and>
      nextpid t' = 2 \<and> running t' = None \<and> initproc t' = Some i"
    using p by (auto simp: userinit_def 1 bindE_eq_Ok Let_def split: option.splits)
  then show ?thesis using e(1) un by (auto simp: booted_def)
qed

lemma proc_inv_boot: "booted t \<Longrightarrow> proc_inv 0 (\<lambda>_. None) (\<lambda>_. None) t"
  unfolding booted_def proc_inv_def run_inv_def family_inv_def embryo_inv_def pid_inv_def
  by (auto simp: alive_def in_use_def settled_def i32_id)

lemma proc_inv_reach: "kreach n (C, F, t) \<Longrightarrow> proc_inv n C F t"
proof (induction n "(C, F, t)" arbitrary: C F t rule: kreach.induct)
  case (k_step n x C F t)
  obtain C0 F0 t0 where x: "x = (C0, F0, t0)" by (cases x)
  from proc_inv_step [OF k_step(3) x refl k_step(2) [OF x]] show ?case .
qed (auto intro: proc_inv_boot proc_inv_alloc)

text \<open>C25: the process table is consistent, on any number of processors.  From boot on, however processes fork, exit, wait,
  sleep, are woken, killed and scheduled: the processes marked running are exactly those that the processors run, each
  on one; the first process never dies; every other process, zombies included, has a parent that is alive, so
  \<open>wait\<close> can collect it; an entry that \<open>fork\<close> has not finished belongs to a living process; and as long as no more than
  \<open>2 ^ 31 - 2\<close> entries were handed out, so that \<open>nextpid\<close> has not wrapped around, the process identifiers in use
  are different.\<close>

theorem process_table:
  assumes "kreach n (C, F, t)"
  shows "(\<forall>i < NPROC. pstate (ptable t i) = RUNNING \<longleftrightarrow> (\<exists>c. C c = Some i)) \<and>
     (\<forall>c d i. C c = Some i \<longrightarrow> C d = Some i \<longrightarrow> c = d) \<and>
     (\<exists>r < NPROC. initproc t = Some r \<and> alive (ptable t r)) \<and>
     (\<forall>i < NPROC. settled (ptable t i) \<and> initproc t \<noteq> Some i \<longrightarrow>
        (\<exists>p < NPROC. parent (ptable t i) = Some p \<and> alive (ptable t p))) \<and>
     (\<forall>i < NPROC. pstate (ptable t i) = EMBRYO \<longrightarrow> (\<exists>p < NPROC. F p = Some i \<and> alive (ptable t p))) \<and>
     (n \<le> 2 ^ 31 - 2 \<longrightarrow> (\<forall>i < NPROC. \<forall>j < NPROC. in_use (ptable t i) \<longrightarrow> in_use (ptable t j) \<longrightarrow>
        pid (ptable t i) = pid (ptable t j) \<longrightarrow> i = j))"
proof -
  have i: "run_inv C t" "family_inv t" "embryo_inv F t" "pid_inv n t" using proc_inv_reach [OF assms] by (auto simp: proc_inv_def)
  show ?thesis
    using i(1) [unfolded run_inv_def] i(2) [unfolded family_inv_def] i(3) [unfolded embryo_inv_def] i(4) [unfolded pid_inv_def]
    by (intro conjI) (simp, simp, simp, simp, metis, simp)
qed

text \<open>Process identifiers are C integers: after \<open>2 ^ 31 - 1\<close> comes the smallest negative number.\<close>

lemma pid_wraps: "alloc_entry t = Some (i, t') \<Longrightarrow> nextpid t = 2 ^ 31 - 1 \<Longrightarrow> nextpid t' = - (2 ^ 31)"
  by (simp add: alloc_entry_table(4) i32_def s32_def of_s32_def Let_def)

text \<open>The first process alone, and the same after it was killed.\<close>

definition demo_proc :: proc where
  "demo_proc = \<lparr>psz = 0, ppgdir = 0, kstack = 0, pstate = UNUSED, pid = 0, parent = None, tf = 0, pcontext = 0,
     pchan = NoChan, killed = False, ofile = (\<lambda>_. None), cwd = None, pname = [], handler = 0, alarmtime = 0,
     alarmpassed = 0, handling_alarm = False, alarm_tf = 0\<rparr>"

definition demo_table :: ptab where
  "demo_table = \<lparr>ptable = (\<lambda>_. demo_proc)(0 := demo_proc\<lparr>pstate := RUNNABLE, pid := 1\<rparr>), initproc = Some 0,
     nextpid = 2, running = None, first = True, trapret = 0, forkret_addr = 0, initcode = 0, initcode_size = 0\<rparr>"

lemma demo_table_reach: "kreach 0 (\<lambda>_. None, \<lambda>_. None, snd (kill 1 demo_table))"
proof -
  have "kreach 0 (\<lambda>_. None, \<lambda>_. None, demo_table)" by (rule k_boot) (auto simp: booted_def demo_table_def demo_proc_def)
  then show ?thesis by (rule k_step) (rule k_kill [of 1 _ "fst (kill 1 demo_table)"], simp)
qed

theorem process_table_witness:
  "\<exists>r < NPROC. initproc (snd (kill 1 demo_table)) = Some r \<and> alive (ptable (snd (kill 1 demo_table)) r)"
  using process_table [OF demo_table_reach] by blast

section \<open>Killing a process that does not exist\<close>

lemma allocproc_succeeds:
  assumes i: "find (\<lambda>i. pstate (ptable t i) = UNUSED) [0..<NPROC] = Some i" and fl: "free_list s (k # a # xs)"
  shows "\<exists>t' s'. allocproc t s = Ok (Some i, t', s')"
proof -
  define s1 where "s1 = s\<lparr>freelist := unat (get32 (kmem s) k)\<rparr>"
  have k: "kalloc s = (k, s1)" "free_list s1 (a # xs)" using kalloc_cons [OF fl] by (auto simp: s1_def)
  have kp: "freepage s1 k" "k \<notin> set (a # xs)" "k \<noteq> 0" "a \<noteq> 0"
    using fl by (auto simp: free_list_def s1_def freepage_def)
  define sp where "sp = k + KSTACKSIZE - 76"
  define m where "m = put32 (sp - 4 - 20 + 16) (of_nat (forkret_addr t)) (memset (sp - 4 - 20) 0 20 (put32 (sp - 4) (of_nat (trapret t)) (kmem s1)))"
  have "free_list (s1\<lparr>kmem := m\<rparr>) (a # xs)"
    by (rule free_list_page [OF k(2) kp(1,2)])
      (auto simp: m_def sp_def memset_fill put32_other fill_outside)
  from kalloc_cons [OF this] obtain s2 where s2: "kalloc (s1\<lparr>kmem := m\<rparr>) = (a, s2)" by blast
  show ?thesis
    unfolding allocproc_def alloc_entry_def alloc_rest_def i option.case Let_def k(1) prod.case upd_proc_sel ptab.simps
    using kp(3,4) s2 unfolding m_def sp_def by (simp del: diff_diff_left)
qed

text \<open>\<open>kill(0)\<close> damages a process that is yet to be created.  Unused entries have process identifier
  0, and \<open>kill\<close> does not check the state: \<open>kill(0)\<close> reports success and marks the first such entry
  as killed.  When it is also the first unused one, the next \<open>allocproc\<close> hands it out with the mark
  still set, and a process that \<open>fork\<close> makes in it starts its life killed.\<close>

lemma kill_zero:
  assumes i: "find (\<lambda>i. pid (ptable t i) = 0) [0..<NPROC] = Some i"
    and un: "find (\<lambda>i. pstate (ptable t i) = UNUSED) [0..<NPROC] = Some i" and fl: "free_list s (k # a # xs)"
  shows "fst (kill 0 t) = 0 \<and>
     (\<exists>t' s'. allocproc (snd (kill 0 t)) s = Ok (Some i, t', s') \<and> killed (ptable t' i)) \<and>
     (\<forall>cur r t' s'. fork cur (snd (kill 0 t)) s = Ok (r, t', s') \<and> r \<noteq> -1 \<longrightarrow> killed (ptable t' i))"
proof -
  let ?u = "snd (kill 0 t)"
  have u: "fst (kill 0 t) = 0" "ptable ?u = (ptable t)(i := (ptable t i)\<lparr>killed := True\<rparr>)"
    using i find_NPROC [OF un] by (auto simp: kill_def)
  have "(\<lambda>j. pstate (ptable ?u j) = UNUSED) = (\<lambda>j. pstate (ptable t j) = UNUSED)" using u(2) by (auto simp: fun_eq_iff)
  then have fu: "find (\<lambda>j. pstate (ptable ?u j) = UNUSED) [0..<NPROC] = Some i" using un by simp
  from allocproc_succeeds [OF fu fl] obtain t' s' where 1: "allocproc ?u s = Ok (Some i, t', s')" by blast
  obtain u0 where u0: "alloc_entry ?u = Some (i, u0)" "killed (ptable u0 i)" using fu u(2) by (simp add: alloc_entry_def Let_def)
  have "killed (ptable t' i)" using 1 u0 alloc_rest_table [of i u0 s] by (auto simp: allocproc_def)
  moreover have "killed (ptable t' i)" if "fork cur ?u s = Ok (r, t', s')" for cur r t' s'
    using that u0 fork_rest_table [of cur i u0 s r t' s'] by (auto simp: fork_split)
  ultimately show ?thesis using u(1) 1 by blast
qed

lemma demo_free: "free_list (demo_files\<lparr>kmem := put32 0x80400000 0x80401000 (\<lambda>_. 0), freelist := 0x80400000, kend := 0x80110000\<rparr>) [0x80400000, 0x80401000]"
proof -
  have "get32 (put32 0x80400000 0x80401000 (\<lambda>_. 0)) 0x80401000 = 0" by (subst get32_put32_other) (simp_all add: get32_def)
  then show ?thesis by (simp add: free_list_def freepage_def)
qed

end
