(* ===== verification/Sysproc.thy ===== *)
theory Sysproc
  imports Proc
begin

text \<open>
  System call arguments (\<^verbatim>\<open>src/alarm/syscall.c\<close>), the process system calls (\<^verbatim>\<open>src/alarm/sysproc.c\<close>,
  \<open>sys_date\<close> of \<^verbatim>\<open>src/date/sysproc.c\<close>) and the real-time clock (\<open>cmostime\<close> in \<^verbatim>\<open>src/date/lapic.c\<close>).
  \<open>M\<close> is the memory of the calling process, as the kernel sees it during the call.  The trap frame lies
  in kernel memory.
\<close>

section \<open>Arguments\<close>

definition fetchint :: "proc \<Rightarrow> nat \<Rightarrow> mem \<Rightarrow> int option" where
  "fetchint p addr M =
     (if psz p \<le> addr \<or> psz p < u32 (addr + 4) then None else Some (s32 (unat (get32 M addr))))"

fun scan_nul :: "nat \<Rightarrow> nat \<Rightarrow> mem \<Rightarrow> nat option" where
  "scan_nul s 0 M = None"
| "scan_nul s (Suc n) M = (if M s = 0 then Some s else scan_nul (s + 1) n M)"

text \<open>The length of the string; the pointer is the address itself.\<close>

definition fetchstr :: "proc \<Rightarrow> nat \<Rightarrow> mem \<Rightarrow> nat option" where
  "fetchstr p addr M =
     (if psz p \<le> addr then None
      else case scan_nul addr (psz p - addr) M of Some s \<Rightarrow> Some (s - addr) | None \<Rightarrow> None)"

definition argint :: "proc \<Rightarrow> nat \<Rightarrow> mem \<Rightarrow> 'a kmem_state_scheme \<Rightarrow> int option" where
  "argint p n M s = fetchint p (u32 (unat (get32 (kmem s) (tf p + tf_esp)) + 4 + 4 * n)) M"

definition argptr :: "proc \<Rightarrow> nat \<Rightarrow> int \<Rightarrow> mem \<Rightarrow> 'a kmem_state_scheme \<Rightarrow> nat option" where
  "argptr p n len M s =
     (case argint p n M s of None \<Rightarrow> None
      | Some i \<Rightarrow>
          let a = of_s32 i in
          if len < 0 \<or> psz p \<le> a \<or> psz p < u32 (a + nat len) then None else Some a)"

definition argstr :: "proc \<Rightarrow> nat \<Rightarrow> mem \<Rightarrow> 'a kmem_state_scheme \<Rightarrow> (nat \<times> nat) option" where
  "argstr p n M s =
     (case argint p n M s of None \<Rightarrow> None
      | Some i \<Rightarrow> let a = of_s32 i in (case fetchstr p a M of None \<Rightarrow> None | Some l \<Rightarrow> Some (a, l)))"

section \<open>Process calls\<close>

definition sys_fork :: "nat \<Rightarrow> ptab \<Rightarrow> 'a file_state_scheme \<Rightarrow> (int \<times> ptab \<times> 'a file_state_scheme) outcome" where
  "sys_fork cur t s = fork cur t s"

definition sys_exit :: "nat \<Rightarrow> ptab \<Rightarrow> 'a file_state_scheme \<Rightarrow> (ptab \<times> 'a file_state_scheme) outcome" where
  "sys_exit cur t s = exit cur t s"

definition sys_wait :: "nat \<Rightarrow> ptab \<Rightarrow> 'a file_state_scheme \<Rightarrow> (int \<times> ptab \<times> 'a file_state_scheme) outcome" where
  "sys_wait cur t s = wait cur t s"

definition sys_kill :: "nat \<Rightarrow> mem \<Rightarrow> ptab \<Rightarrow> 'a kmem_state_scheme \<Rightarrow> int \<times> ptab" where
  "sys_kill cur M t s =
     (case argint (ptable t cur) 0 M s of None \<Rightarrow> (-1, t) | Some k \<Rightarrow> kill k t)"

definition sys_getpid :: "nat \<Rightarrow> ptab \<Rightarrow> int" where
  "sys_getpid cur t = pid (ptable t cur)"

definition sys_sbrk :: "nat \<Rightarrow> mem \<Rightarrow> ptab \<Rightarrow> 'a file_state_scheme \<Rightarrow> (int \<times> ptab \<times> 'a file_state_scheme) outcome" where
  "sys_sbrk cur M t s =
     (case argint (ptable t cur) 0 M s of None \<Rightarrow> Ok (-1, t, s)
      | Some n \<Rightarrow>
          let addr = s32 (psz (ptable t cur)) in
          bindE (growproc cur n t s) (\<lambda>(r, t, s). Ok (if r < 0 then -1 else addr, t, s)))"

text \<open>\<open>sys_sleep\<close> reads \<open>ticks\<close> once and tests it again each time it is woken; \<open>n\<close> is compared as
  unsigned.  \<open>None\<close>: asleep on \<open>&ticks\<close>.\<close>

definition sys_sleep_test :: "word32 \<Rightarrow> int \<Rightarrow> word32 \<Rightarrow> bool \<Rightarrow> int option" where
  "sys_sleep_test ticks0 n now klld =
     (if now - ticks0 < of_int n then if klld then Some (-1) else None else Some 0)"

definition sys_uptime :: "word32 \<Rightarrow> int" where
  "sys_uptime now = s32 (unat now)"

definition sys_alarm :: "nat \<Rightarrow> mem \<Rightarrow> ptab \<Rightarrow> 'a kmem_state_scheme \<Rightarrow> int \<times> ptab" where
  "sys_alarm cur M t s =
     (case argint (ptable t cur) 0 M s of None \<Rightarrow> (-1, t)
      | Some n \<Rightarrow>
          (case argptr (ptable t cur) 1 4 M s of None \<Rightarrow> (-1, t)
           | Some h \<Rightarrow> (0, upd_proc cur (\<lambda>p. p\<lparr>alarmtime := n, alarmpassed := 0, handler := h\<rparr>) t)))"

section \<open>The real-time clock\<close>

text \<open>
  The CMOS clock changes while it is read: \<open>dev k reg\<close> is the value register \<open>reg\<close> shows at the
  \<open>k\<close>-th read.
\<close>

record rtcdate =
  second :: nat
  minute :: nat
  hour :: nat
  day :: nat
  month :: nat
  year :: nat

definition fill_rtcdate :: "(nat \<Rightarrow> nat \<Rightarrow> nat) \<Rightarrow> nat \<Rightarrow> rtcdate \<times> nat" where
  "fill_rtcdate dev k =
     (\<lparr>second = dev k 0, minute = dev (k + 1) 2, hour = dev (k + 2) 4, day = dev (k + 3) 7,
       month = dev (k + 4) 8, year = dev (k + 5) 9\<rparr>, k + 6)"

partial_function (option) cmos_loop :: "(nat \<Rightarrow> nat \<Rightarrow> nat) \<Rightarrow> nat \<Rightarrow> rtcdate option" where
  "cmos_loop dev k =
     (let (t1, k) = fill_rtcdate dev k in
      if bit (dev k 0x0A) 7 then cmos_loop dev (k + 1)
      else let (t2, k) = fill_rtcdate dev (k + 1) in
        if t1 = t2 then Some t1 else cmos_loop dev k)"

definition CONV :: "nat \<Rightarrow> nat" where
  "CONV x = (x div 16) * 10 + x mod 16"

definition cmostime :: "(nat \<Rightarrow> nat \<Rightarrow> nat) \<Rightarrow> nat \<Rightarrow> rtcdate option" where
  "cmostime dev k =
     (let bcd = (\<not> bit (dev k 0x0B) 2) in
      case cmos_loop dev (k + 1) of None \<Rightarrow> None
      | Some t1 \<Rightarrow>
          let t1 = (if bcd then \<lparr>second = CONV (second t1), minute = CONV (minute t1), hour = CONV (hour t1),
                      day = CONV (day t1), month = CONV (month t1), year = CONV (year t1)\<rparr> else t1)
          in Some (t1\<lparr>year := u32 (year t1 + 2000)\<rparr>))"

text \<open>The structure in the caller's memory: six words.\<close>

definition put_date :: "nat \<Rightarrow> rtcdate \<Rightarrow> mem \<Rightarrow> mem" where
  "put_date a r m = put32 (a + 20) (of_nat (year r)) (put32 (a + 16) (of_nat (month r)) (put32 (a + 12) (of_nat (day r))
     (put32 (a + 8) (of_nat (hour r)) (put32 (a + 4) (of_nat (minute r)) (put32 a (of_nat (second r)) m)))))"

definition sys_date :: "(nat \<Rightarrow> nat \<Rightarrow> nat) \<Rightarrow> nat \<Rightarrow> nat \<Rightarrow> mem \<Rightarrow> ptab \<Rightarrow> 'a kmem_state_scheme \<Rightarrow> (int \<times> mem) outcome" where
  "sys_date dev k cur M t s =
     (case argptr (ptable t cur) 0 24 M s of None \<Rightarrow> Ok (-1, M)
      | Some a \<Rightarrow> (case cmostime dev k of None \<Rightarrow> Forever | Some r \<Rightarrow> Ok (0, put_date a r M)))"

section \<open>Properties\<close>

lemma scan_nul_ok:
  "scan_nul s n M = (if \<exists>i < n. M (s + i) = 0 then Some (s + (LEAST i. M (s + i) = 0)) else None)"
proof (induction n arbitrary: s)
  case (Suc n)
  show ?case
  proof (cases "M s = 0")
    case True
    then have "(LEAST i. M (s + i) = 0) = 0" by (intro Least_equality) auto
    moreover have "\<exists>i < Suc n. M (s + i) = 0" using True by (intro exI [of _ 0]) simp
    ultimately show ?thesis using True by simp
  next
    case False
    have ex: "(\<exists>i < Suc n. M (s + i) = 0) \<longleftrightarrow> (\<exists>i < n. M (s + 1 + i) = 0)"
      using False by (simp add: Ex_less_Suc2)
    have "(LEAST i. M (s + i) = 0) = Suc (LEAST i. M (s + 1 + i) = 0)" if "M (s + 1 + j) = 0" for j
      using Least_Suc [of "\<lambda>i. M (s + i) = 0" "Suc j"] that False by simp
    then show ?thesis using Suc.IH [of "s + 1"] False ex by auto
  qed
qed simp

text \<open>C29: system call arguments are checked against the size of the process.  With a size of at most
  \<open>KERNBASE\<close>, an accepted integer argument is read inside the process, an accepted block of \<open>len\<close> bytes
  lies inside the process without wrapping around, and an accepted string starts inside, is
  terminated inside, and has the length reported.\<close>

theorem args_in_bounds:
  assumes sz: "psz p \<le> KERNBASE"
  shows "(fetchint p addr M = Some i \<longrightarrow> addr + 4 \<le> psz p \<and> i = s32 (unat (get32 M addr))) \<and>
     (argptr p n len M s = Some a \<longrightarrow> len < 2 ^ 31 \<longrightarrow> 0 \<le> len \<and> a + nat len \<le> psz p \<and> a < psz p) \<and>
     (argstr p n M s = Some (a, l) \<longrightarrow> a + l < psz p \<and> cstr M a (read_bytes M a l))"
proof -
  have "addr + 4 \<le> psz p \<and> i = s32 (unat (get32 M addr))" if "fetchint p addr M = Some i"
    using sz that by (auto simp: fetchint_def u32_def split: if_splits)
  moreover have "0 \<le> len \<and> a + nat len \<le> psz p \<and> a < psz p" if "argptr p n len M s = Some a" "len < 2 ^ 31"
  proof -
    have b: "0 \<le> len" "a < psz p" "u32 (a + nat len) \<le> psz p"
      using that by (auto simp: argptr_def Let_def split: option.splits if_splits)
    then have "a + nat len < 2 ^ 32" using sz that(2) by simp
    then show ?thesis using b by auto
  qed
  moreover have "a + l < psz p \<and> cstr M a (read_bytes M a l)" if "argstr p n M s = Some (a, l)"
  proof -
    have f: "fetchstr p a M = Some l" using that by (auto simp: argstr_def Let_def split: option.splits)
    then have a: "a < psz p" by (auto simp: fetchstr_def split: if_splits)
    have "\<exists>i < psz p - a. M (a + i) = 0" and l: "l = (LEAST i. M (a + i) = 0)"
      using f a by (auto simp: fetchstr_def scan_nul_ok split: if_splits)
    then obtain j where j: "j < psz p - a" "M (a + j) = 0" by blast
    have "M (a + l) = 0" "l \<le> j" unfolding l using j(2) by (rule LeastI, rule Least_le)
    moreover have "M (a + i) \<noteq> 0" if "i < l" for i using not_less_Least [of i "\<lambda>i. M (a + i) = 0"] that l by simp
    ultimately show ?thesis using j(1) cstr_read [of l M a] by auto
  qed
  ultimately show ?thesis by blast
qed

theorem args_in_bounds_witness:
  "let p = demo_proc\<lparr>psz := 0x2000, tf := 0x80400000\<rparr>; M = write_bytes 0x1008 [0x61, 0x62, 0] (put32 0x1004 0x1008 (\<lambda>_. 7));
       s = demo_files\<lparr>kmem := put32 (0x80400000 + 68) 0x1000 (\<lambda>_. 0)\<rparr> in
   argptr p 0 100 M s = Some 0x1008 \<and> 0x1008 + nat 100 \<le> psz p \<and> fetchint p 0x1FFD M = None"
proof -
  let ?p = "demo_proc\<lparr>psz := 0x2000, tf := 0x80400000\<rparr>" and ?M = "write_bytes 0x1008 [0x61, 0x62, 0] (put32 0x1004 0x1008 (\<lambda>_. 7))"
  let ?s = "demo_files\<lparr>kmem := put32 (0x80400000 + 68) 0x1000 (\<lambda>_. 0)\<rparr>"
  have "get32 ?M 0x1004 = get32 (put32 0x1004 0x1008 (\<lambda>_. 7)) 0x1004" by (rule get32_cong) simp
  then have m: "get32 ?M 0x1004 = 0x1008" by simp
  have "unat (get32 (put32 2151678020 4096 (\<lambda>_. 0)) 2151678020) = 0x1000" by (subst get32_put32_same) simp
  then have i: "argint ?p 0 ?M ?s = Some 0x1008"
    using m by (simp add: argint_def fetchint_def s32_def)
  then have a: "argptr ?p 0 100 ?M ?s = Some 0x1008" by (simp add: argptr_def of_s32_def)
  have "psz ?p \<le> KERNBASE" by simp
  from args_in_bounds [OF this, of "0x1FFD" ?M _ 0 100 ?s "0x1008"] a show ?thesis
    by (auto simp: Let_def fetchint_def)
qed

section \<open>The date\<close>

text \<open>Two decimal digits as the clock encodes them.\<close>

definition BCD :: "nat \<Rightarrow> nat" where
  "BCD v = (v div 10) * 16 + v mod 10"

lemma CONV_BCD [simp]: "CONV (BCD v) = v"
proof -
  have "v mod 10 < 16" using mod_less_divisor [of 10 v] by linarith
  then have "BCD v div 16 = v div 10" "BCD v mod 16 = v mod 10" by (simp_all add: BCD_def)
  then show ?thesis by (simp add: CONV_def)
qed

lemma cmos_loop_stable:
  assumes "\<And>j r. k \<le> j \<Longrightarrow> dev j r = regs r" "\<not> bit (regs 0x0A) 7"
  shows "cmos_loop dev k = Some \<lparr>second = regs 0, minute = regs 2, hour = regs 4, day = regs 7, month = regs 8, year = regs 9\<rparr>"
  by (subst cmos_loop.simps) (simp add: fill_rtcdate_def assms)

lemma cmos_loop_ends:
  assumes "\<And>j r. K \<le> j \<Longrightarrow> dev j r = regs r" "\<not> bit (regs 0x0A) 7"
  shows "\<exists>r. cmos_loop dev k = Some r"
proof (induction "K - k" arbitrary: k rule: less_induct)
  case less
  show ?case
  proof (cases "K \<le> k")
    case True
    then show ?thesis using cmos_loop_stable [of k dev regs] assms by simp
  next
    case False
    have IH: "\<exists>r. cmos_loop dev (k + Suc n) = Some r" for n by (rule less) (use False in simp)
    show ?thesis using IH [of 6] IH [of 12] by (subst cmos_loop.simps) (auto simp: fill_rtcdate_def Let_def add.commute)
  qed
qed

text \<open>C30: reading the clock.  Once the registers of the clock stop changing and no update is in progress,
  \<open>cmostime\<close> returns, however they changed before; and when they are stable from the start and hold a
  date as binary-coded decimals, it returns exactly that date, with the year in this century.\<close>

theorem clock_read:
  assumes "\<And>j r. K \<le> j \<Longrightarrow> dev j r = regs r" "\<not> bit (regs 0x0A) 7"
  shows "(\<exists>r. cmostime dev k = Some r) \<and>
     (K \<le> k \<and> \<not> bit (regs 0x0B) 2 \<and> regs 0 = BCD (second d) \<and> regs 2 = BCD (minute d) \<and> regs 4 = BCD (hour d) \<and>
      regs 7 = BCD (day d) \<and> regs 8 = BCD (month d) \<and> regs 9 = BCD (year d) \<and> year d < 100 \<longrightarrow>
      cmostime dev k = Some \<lparr>second = second d, minute = minute d, hour = hour d, day = day d, month = month d, year = 2000 + year d\<rparr>)"
proof (intro conjI impI)
  from cmos_loop_ends [of K dev regs "k + 1"] assms obtain r where "cmos_loop dev (k + 1) = Some r" by blast
  then show "\<exists>r. cmostime dev k = Some r" by (simp add: cmostime_def Let_def)
  assume h: "K \<le> k \<and> \<not> bit (regs 0x0B) 2 \<and> regs 0 = BCD (second d) \<and> regs 2 = BCD (minute d) \<and> regs 4 = BCD (hour d) \<and>
      regs 7 = BCD (day d) \<and> regs 8 = BCD (month d) \<and> regs 9 = BCD (year d) \<and> year d < 100"
  then have "cmos_loop dev (k + 1) = Some \<lparr>second = regs 0, minute = regs 2, hour = regs 4, day = regs 7, month = regs 8, year = regs 9\<rparr>"
    using assms by (intro cmos_loop_stable) auto
  then show "cmostime dev k = Some \<lparr>second = second d, minute = minute d, hour = hour d, day = day d, month = month d, year = 2000 + year d\<rparr>"
    using h assms by (simp add: cmostime_def Let_def)
qed

definition demo_clock :: "nat \<Rightarrow> nat" where
  "demo_clock r = (if r = 0 then 0x56 else if r = 2 then 0x34 else if r = 4 then 0x12 else if r = 7 then 0x29
     else if r = 8 then 0x02 else if r = 9 then 0x24 else 0)"

theorem clock_read_witness:
  "cmostime (\<lambda>_. demo_clock) 5 = Some \<lparr>second = 56, minute = 34, hour = 12, day = 29, month = 2, year = 2024\<rparr>"
proof -
  have "\<not> bit (demo_clock 0x0A) 7" by (simp add: demo_clock_def)
  from clock_read [of 0 "\<lambda>_. demo_clock", OF refl this, of 5 "\<lparr>second = 56, minute = 34, hour = 12, day = 29, month = 2, year = 24\<rparr>"]
  show ?thesis by (simp add: demo_clock_def BCD_def)
qed

end
