(* ===== verification/Sysfile.thy ===== *)
theory Sysfile
  imports Sysproc
begin

text \<open>
  The file system calls, \<^verbatim>\<open>src/alarm/sysfile.c\<close>.  A call takes the calling process \<open>cur\<close>, its memory
  \<open>M\<close>, the process table and the kernel state, and returns them with the result.  Local buffers whose
  address is passed on, and the literals "." and "..", lie above the 32-bit address space.
\<close>

type_synonym 'a sys = "(int \<times> mem \<times> ptab \<times> 'a file_state_scheme) outcome"

abbreviation link_name :: nat where "link_name \<equiv> 0x100000040"
abbreviation unlink_name :: nat where "unlink_name \<equiv> 0x100000060"
abbreviation unlink_de :: nat where "unlink_de \<equiv> 0x100000080"
abbreviation create_name :: nat where "create_name \<equiv> 0x1000000A0"
abbreviation empty_de :: nat where "empty_de \<equiv> 0x1000000C0"
abbreviation dot :: nat where "dot \<equiv> 0x1000000E0"
abbreviation dotdot :: nat where "dotdot \<equiv> 0x1000000E4"

definition literals :: "mem \<Rightarrow> mem" where
  "literals M = write_bytes dotdot [0x2E, 0x2E, 0] (write_bytes dot [0x2E, 0] M)"

definition cwd_of :: "proc \<Rightarrow> nat" where
  "cwd_of p = (case cwd p of Some ip \<Rightarrow> ip | None \<Rightarrow> NINODE)"

section \<open>Descriptors\<close>

definition argfd :: "proc \<Rightarrow> nat \<Rightarrow> mem \<Rightarrow> 'a kmem_state_scheme \<Rightarrow> (nat \<times> nat) option" where
  "argfd p n M s =
     (case argint p n M s of None \<Rightarrow> None
      | Some fd \<Rightarrow>
          if fd < 0 \<or> int NOFILE \<le> fd then None
          else case ofile p (nat fd) of None \<Rightarrow> None | Some f \<Rightarrow> Some (nat fd, f))"

definition fdalloc :: "nat \<Rightarrow> nat \<Rightarrow> ptab \<Rightarrow> nat option \<times> ptab" where
  "fdalloc cur f t =
     (case find (\<lambda>fd. ofile (ptable t cur) fd = None) [0..<NOFILE] of
        Some fd \<Rightarrow> (Some fd, upd_proc cur (\<lambda>p. p\<lparr>ofile := (ofile p)(fd := Some f)\<rparr>) t)
      | None \<Rightarrow> (None, t))"

definition sys_dup :: "nat \<Rightarrow> mem \<Rightarrow> ptab \<Rightarrow> 'a file_state_scheme \<Rightarrow> 'a sys" where
  "sys_dup cur M t s =
     (case argfd (ptable t cur) 0 M s of None \<Rightarrow> Ok (-1, M, t, s)
      | Some (_, f) \<Rightarrow>
          (case fdalloc cur f t of (None, t) \<Rightarrow> Ok (-1, M, t, s)
           | (Some fd, t) \<Rightarrow> bindE (filedup f s) (\<lambda>s. Ok (int fd, M, t, s))))"

definition sys_read :: "nat \<Rightarrow> mem \<Rightarrow> ptab \<Rightarrow> 'a file_state_scheme \<Rightarrow> 'a sys" where
  "sys_read cur M t s =
     (let p = ptable t cur in
      case argfd p 0 M s of None \<Rightarrow> Ok (-1, M, t, s)
      | Some (_, f) \<Rightarrow>
          (case argint p 2 M s of None \<Rightarrow> Ok (-1, M, t, s)
           | Some n \<Rightarrow>
               (case argptr p 1 n M s of None \<Rightarrow> Ok (-1, M, t, s)
                | Some a \<Rightarrow> bindE (fileread f M a n s) (\<lambda>(r, M, s). Ok (r, M, t, s)))))"

definition sys_write :: "nat \<Rightarrow> mem \<Rightarrow> ptab \<Rightarrow> 'a file_state_scheme \<Rightarrow> 'a sys" where
  "sys_write cur M t s =
     (let p = ptable t cur in
      case argfd p 0 M s of None \<Rightarrow> Ok (-1, M, t, s)
      | Some (_, f) \<Rightarrow>
          (case argint p 2 M s of None \<Rightarrow> Ok (-1, M, t, s)
           | Some n \<Rightarrow>
               (case argptr p 1 n M s of None \<Rightarrow> Ok (-1, M, t, s)
                | Some a \<Rightarrow> bindE (filewrite f M a n s) (\<lambda>(r, s). Ok (r, M, t, s)))))"

definition sys_close :: "nat \<Rightarrow> mem \<Rightarrow> ptab \<Rightarrow> 'a file_state_scheme \<Rightarrow> 'a sys" where
  "sys_close cur M t s =
     (case argfd (ptable t cur) 0 M s of None \<Rightarrow> Ok (-1, M, t, s)
      | Some (fd, f) \<Rightarrow>
          let t = upd_proc cur (\<lambda>p. p\<lparr>ofile := (ofile p)(fd := None)\<rparr>) t
          in bindE (fileclose f s) (\<lambda>s. Ok (0, M, t, s)))"

text \<open>\<open>struct stat\<close>: type (short), dev, ino, nlink (short), size; 20 bytes.\<close>

definition put_stat :: "nat \<Rightarrow> stat \<Rightarrow> mem \<Rightarrow> mem" where
  "put_stat a st m = put32 (a + 16) (of_nat (st_size st)) (put16 (a + 12) (st_nlink st)
     (put32 (a + 8) (of_nat (st_ino st)) (put32 (a + 4) (of_nat (st_dev st)) (put16 a (st_type st) m))))"

definition sys_fstat :: "nat \<Rightarrow> mem \<Rightarrow> ptab \<Rightarrow> 'a file_state_scheme \<Rightarrow> 'a sys" where
  "sys_fstat cur M t s =
     (let p = ptable t cur in
      case argfd p 0 M s of None \<Rightarrow> Ok (-1, M, t, s)
      | Some (_, f) \<Rightarrow>
          (case argptr p 1 20 M s of None \<Rightarrow> Ok (-1, M, t, s)
           | Some a \<Rightarrow>
               bindE (filestat f s) (\<lambda>(r, s).
               Ok (case r of Some st \<Rightarrow> (0, put_stat a st M, t, s) | None \<Rightarrow> (-1, M, t, s)))))"

section \<open>Links\<close>

text \<open>Ending a call inside a transaction with result \<open>r\<close>.\<close>

definition end_with :: "int \<Rightarrow> mem \<Rightarrow> ptab \<Rightarrow> 'a file_state_scheme \<Rightarrow> 'a sys" where
  "end_with r M t s = bindE (end_op s) (\<lambda>s. Ok (r, M, t, s))"

definition put_end :: "nat \<Rightarrow> int \<Rightarrow> mem \<Rightarrow> ptab \<Rightarrow> 'a file_state_scheme \<Rightarrow> 'a sys" where
  "put_end ip r M t s = bindE (iunlockput ip s) (end_with r M t)"

definition link_bad :: "nat \<Rightarrow> mem \<Rightarrow> ptab \<Rightarrow> 'a file_state_scheme \<Rightarrow> 'a sys" where
  "link_bad ip M t s =
     bindE (ilock (Some ip) s) (\<lambda>s.
     bindE (iupdate ip (upd_inode ip (\<lambda>x. x\<lparr>inlink := inlink x - 1\<rparr>) s)) (put_end ip (-1) M t))"

definition sys_link :: "nat \<Rightarrow> mem \<Rightarrow> ptab \<Rightarrow> 'a file_state_scheme \<Rightarrow> 'a sys" where
  "sys_link cur M t s =
     (let p = ptable t cur in
      case argstr p 0 M s of None \<Rightarrow> Ok (-1, M, t, s)
      | Some (old, _) \<Rightarrow>
          (case argstr p 1 M s of None \<Rightarrow> Ok (-1, M, t, s)
           | Some (new, _) \<Rightarrow>
               bindE (begin_op s) (\<lambda>s.
               bindE (namei (cwd_of p) old M s) (\<lambda>(r, M, s).
               case r of None \<Rightarrow> end_with (-1) M t s
               | Some ip \<Rightarrow>
                   bindE (ilock (Some ip) s) (\<lambda>s.
                   if itype (inodes s ip) = T_DIR then put_end ip (-1) M t s
                   else
                     bindE (iupdate ip (upd_inode ip (\<lambda>x. x\<lparr>inlink := inlink x + 1\<rparr>) s)) (\<lambda>s.
                     bindE (iunlock (Some ip) s) (\<lambda>s.
                     bindE (nameiparent (cwd_of p) new link_name M s) (\<lambda>(r, M, s).
                     case r of None \<Rightarrow> link_bad ip M t s
                     | Some dp \<Rightarrow>
                         bindE (ilock (Some dp) s) (\<lambda>s.
                         bindE (if idev (inodes s dp) \<noteq> idev (inodes s ip) then Ok (-1, M, s)
                                else dirlink dp link_name (inum (inodes s ip)) M s) (\<lambda>(r, M, s).
                         if r < 0 then bindE (iunlockput dp s) (link_bad ip M t)
                         else bindE (iunlockput dp s) (\<lambda>s. bindE (iput ip s) (end_with 0 M t))))))))))))"

text \<open>The loop of \<open>isdirempty\<close> over the entries after "." and "..".\<close>

definition isdirempty_step :: "nat \<Rightarrow> nat \<Rightarrow> mem \<times> 'a cons_state_scheme \<Rightarrow> (bool option \<times> mem \<times> 'a cons_state_scheme) outcome" where
  "isdirempty_step dp off = (\<lambda>(M, s).
     bindE (readi dp M empty_de off de_size s) (\<lambda>(r, M, s).
     if r \<noteq> int de_size then Panic ''isdirempty: readi''
     else Ok (if get16 M empty_de \<noteq> 0 then Some False else None, M, s)))"

definition isdirempty :: "nat \<Rightarrow> mem \<Rightarrow> 'a cons_state_scheme \<Rightarrow> (bool \<times> mem \<times> 'a cons_state_scheme) outcome" where
  "isdirempty dp M s =
     bindE (loopE (isdirempty_step dp) (drop 2 (dir_offs (isize (inodes s dp)))) (M, s)) (\<lambda>(r, M, s).
     Ok (r = None, M, s))"

definition unlink_entry :: "nat \<Rightarrow> nat \<Rightarrow> nat \<Rightarrow> mem \<Rightarrow> ptab \<Rightarrow> 'a file_state_scheme \<Rightarrow> 'a sys" where
  "unlink_entry dp ip off M t s =
     (let M = memset unlink_de 0 de_size M in
      bindE (writei dp M unlink_de off de_size s) (\<lambda>(r, s).
      if r \<noteq> int de_size then Panic ''unlink: writei''
      else
        bindE (if itype (inodes s ip) = T_DIR
               then iupdate dp (upd_inode dp (\<lambda>x. x\<lparr>inlink := inlink x - 1\<rparr>) s) else Ok s) (\<lambda>s.
        bindE (iunlockput dp s) (\<lambda>s.
        bindE (iupdate ip (upd_inode ip (\<lambda>x. x\<lparr>inlink := inlink x - 1\<rparr>) s)) (put_end ip 0 M t)))))"

definition sys_unlink :: "nat \<Rightarrow> mem \<Rightarrow> ptab \<Rightarrow> 'a file_state_scheme \<Rightarrow> 'a sys" where
  "sys_unlink cur M t s =
     (let p = ptable t cur in
      case argstr p 0 M s of None \<Rightarrow> Ok (-1, M, t, s)
      | Some (path, _) \<Rightarrow>
          bindE (begin_op s) (\<lambda>s.
          bindE (nameiparent (cwd_of p) path unlink_name M s) (\<lambda>(r, M, s).
          case r of None \<Rightarrow> end_with (-1) M t s
          | Some dp \<Rightarrow>
              bindE (ilock (Some dp) s) (\<lambda>s.
              let M = literals M in
              if namecmp unlink_name dot M = 0 \<or> namecmp unlink_name dotdot M = 0 then put_end dp (-1) M t s
              else
                bindE (dirlookup dp unlink_name M s) (\<lambda>(r, M, s).
                case r of None \<Rightarrow> put_end dp (-1) M t s
                | Some (ip, off) \<Rightarrow>
                    bindE (ilock (Some ip) s) (\<lambda>s.
                    if sint (inlink (inodes s ip)) < 1 then Panic ''unlink: nlink < 1''
                    else
                      bindE (if itype (inodes s ip) = T_DIR then isdirempty ip M s else Ok (True, M, s)) (\<lambda>(e, M, s).
                      if \<not> e then bindE (iunlockput ip s) (put_end dp (-1) M t)
                      else unlink_entry dp ip off M t s)))))))"

section \<open>Creating and opening\<close>

definition create_dots :: "nat \<Rightarrow> nat \<Rightarrow> mem \<Rightarrow> 'a cons_state_scheme \<Rightarrow> (mem \<times> 'a cons_state_scheme) outcome" where
  "create_dots ip dp M s =
     bindE (iupdate dp (upd_inode dp (\<lambda>x. x\<lparr>inlink := inlink x + 1\<rparr>) s)) (\<lambda>s.
     bindE (dirlink ip dot (inum (inodes s ip)) (literals M) s) (\<lambda>(r, M, s).
     if r < 0 then Panic ''create dots''
     else bindE (dirlink ip dotdot (inum (inodes s dp)) M s) (\<lambda>(r, M, s).
       if r < 0 then Panic ''create dots'' else Ok (M, s))))"

definition create :: "nat \<Rightarrow> nat \<Rightarrow> word16 \<Rightarrow> word16 \<Rightarrow> word16 \<Rightarrow> mem \<Rightarrow> 'a cons_state_scheme \<Rightarrow>
    (nat option \<times> mem \<times> 'a cons_state_scheme) outcome" where
  "create cw path ty maj mnr M s =
     bindE (nameiparent cw path create_name M s) (\<lambda>(r, M, s).
     case r of None \<Rightarrow> Ok (None, M, s)
     | Some dp \<Rightarrow>
         bindE (ilock (Some dp) s) (\<lambda>s.
         bindE (dirlookup dp create_name M s) (\<lambda>(r, M, s).
         case r of
           Some (ip, _) \<Rightarrow>
             bindE (iunlockput dp s) (\<lambda>s.
             bindE (ilock (Some ip) s) (\<lambda>s.
             if ty = T_FILE \<and> itype (inodes s ip) = T_FILE then Ok (Some ip, M, s)
             else bindE (iunlockput ip s) (\<lambda>s. Ok (None, M, s))))
         | None \<Rightarrow>
             bindE (ialloc (idev (inodes s dp)) ty s) (\<lambda>(ip, s).
             bindE (ilock (Some ip) s) (\<lambda>s.
             bindE (iupdate ip (upd_inode ip (\<lambda>x. x\<lparr>imajor := maj, iminor := mnr, inlink := 1\<rparr>) s)) (\<lambda>s.
             bindE (if ty = T_DIR then create_dots ip dp M s else Ok (M, s)) (\<lambda>(M, s).
             bindE (dirlink dp create_name (inum (inodes s ip)) M s) (\<lambda>(r, M, s).
             if r < 0 then Panic ''create: dirlink''
             else bindE (iunlockput dp s) (\<lambda>s. Ok (Some ip, M, s))))))))))"

text \<open>\<open>O_WRONLY\<close> is bit 0, \<open>O_RDWR\<close> bit 1, \<open>O_CREATE\<close> bit 9 of the mode.\<close>

definition open_inode :: "nat \<Rightarrow> nat \<Rightarrow> int \<Rightarrow> mem \<Rightarrow> ptab \<Rightarrow> 'a file_state_scheme \<Rightarrow> 'a sys" where
  "open_inode cur ip omode M t s =
     (case filealloc s of (None, s) \<Rightarrow> put_end ip (-1) M t s
      | (Some f, s) \<Rightarrow>
          (case fdalloc cur f t of
             (None, t) \<Rightarrow> bindE (fileclose f s) (put_end ip (-1) M t)
           | (Some fd, t) \<Rightarrow>
               bindE (iunlock (Some ip) s) (\<lambda>s.
               bindE (end_op s) (\<lambda>s.
               Ok (int fd, M, t, upd_file f (\<lambda>x. x\<lparr>ftype := FD_INODE, fip := ip, foff := 0,
                 freadable := \<not> bit omode 0, fwritable := (bit omode 0 \<or> bit omode 1)\<rparr>) s)))))"

definition sys_open :: "nat \<Rightarrow> mem \<Rightarrow> ptab \<Rightarrow> 'a file_state_scheme \<Rightarrow> 'a sys" where
  "sys_open cur M t s =
     (let p = ptable t cur in
      case argstr p 0 M s of None \<Rightarrow> Ok (-1, M, t, s)
      | Some (path, _) \<Rightarrow>
          (case argint p 1 M s of None \<Rightarrow> Ok (-1, M, t, s)
           | Some omode \<Rightarrow>
               bindE (begin_op s) (\<lambda>s.
               if bit omode 9 then
                 bindE (create (cwd_of p) path T_FILE 0 0 M s) (\<lambda>(r, M, s).
                 case r of None \<Rightarrow> end_with (-1) M t s | Some ip \<Rightarrow> open_inode cur ip omode M t s)
               else
                 bindE (namei (cwd_of p) path M s) (\<lambda>(r, M, s).
                 case r of None \<Rightarrow> end_with (-1) M t s
                 | Some ip \<Rightarrow>
                     bindE (ilock (Some ip) s) (\<lambda>s.
                     if itype (inodes s ip) = T_DIR \<and> omode \<noteq> 0 then put_end ip (-1) M t s
                     else open_inode cur ip omode M t s)))))"

definition sys_mkdir :: "nat \<Rightarrow> mem \<Rightarrow> ptab \<Rightarrow> 'a file_state_scheme \<Rightarrow> 'a sys" where
  "sys_mkdir cur M t s =
     bindE (begin_op s) (\<lambda>s.
     case argstr (ptable t cur) 0 M s of None \<Rightarrow> end_with (-1) M t s
     | Some (path, _) \<Rightarrow>
         bindE (create (cwd_of (ptable t cur)) path T_DIR 0 0 M s) (\<lambda>(r, M, s).
         case r of None \<Rightarrow> end_with (-1) M t s | Some ip \<Rightarrow> put_end ip 0 M t s))"

definition sys_mknod :: "nat \<Rightarrow> mem \<Rightarrow> ptab \<Rightarrow> 'a file_state_scheme \<Rightarrow> 'a sys" where
  "sys_mknod cur M t s =
     (let p = ptable t cur in
      bindE (begin_op s) (\<lambda>s.
      case argstr p 0 M s of None \<Rightarrow> end_with (-1) M t s
      | Some (path, _) \<Rightarrow>
          (case argint p 1 M s of None \<Rightarrow> end_with (-1) M t s
           | Some maj \<Rightarrow>
               (case argint p 2 M s of None \<Rightarrow> end_with (-1) M t s
                | Some mnr \<Rightarrow>
                    bindE (create (cwd_of p) path T_DEV (of_int maj) (of_int mnr) M s) (\<lambda>(r, M, s).
                    case r of None \<Rightarrow> end_with (-1) M t s | Some ip \<Rightarrow> put_end ip 0 M t s)))))"

definition sys_chdir :: "nat \<Rightarrow> mem \<Rightarrow> ptab \<Rightarrow> 'a file_state_scheme \<Rightarrow> 'a sys" where
  "sys_chdir cur M t s =
     (let p = ptable t cur in
      bindE (begin_op s) (\<lambda>s.
      case argstr p 0 M s of None \<Rightarrow> end_with (-1) M t s
      | Some (path, _) \<Rightarrow>
          bindE (namei (cwd_of p) path M s) (\<lambda>(r, M, s).
          case r of None \<Rightarrow> end_with (-1) M t s
          | Some ip \<Rightarrow>
              bindE (ilock (Some ip) s) (\<lambda>s.
              if itype (inodes s ip) \<noteq> T_DIR then put_end ip (-1) M t s
              else
                bindE (iunlock (Some ip) s) (\<lambda>s.
                bindE (iput (cwd_of p) s) (\<lambda>s.
                bindE (end_op s) (\<lambda>s.
                Ok (0, M, upd_proc cur (\<lambda>p. p\<lparr>cwd := Some ip\<rparr>) t, s))))))))"

definition sys_pipe :: "nat \<Rightarrow> mem \<Rightarrow> ptab \<Rightarrow> 'a file_state_scheme \<Rightarrow> 'a sys" where
  "sys_pipe cur M t s =
     (case argptr (ptable t cur) 0 8 M s of None \<Rightarrow> Ok (-1, M, t, s)
      | Some a \<Rightarrow>
          bindE (pipealloc s) (\<lambda>(r, s).
          case r of None \<Rightarrow> Ok (-1, M, t, s)
          | Some (rfile, wfile) \<Rightarrow>
              (case fdalloc cur rfile t of
                 (None, t) \<Rightarrow> bindE (fileclose rfile s) (\<lambda>s. bindE (fileclose wfile s) (\<lambda>s. Ok (-1, M, t, s)))
               | (Some fd0, t) \<Rightarrow>
                   (case fdalloc cur wfile t of
                      (None, t) \<Rightarrow>
                        let t = upd_proc cur (\<lambda>p. p\<lparr>ofile := (ofile p)(fd0 := None)\<rparr>) t
                        in bindE (fileclose rfile s) (\<lambda>s. bindE (fileclose wfile s) (\<lambda>s. Ok (-1, M, t, s)))
                    | (Some fd1, t) \<Rightarrow>
                        Ok (0, put32 (a + 4) (of_nat fd1) (put32 a (of_nat fd0) M), t, s)))))"

section \<open>Descriptors name open files\<close>

lemma fdalloc_ok:
  "case fdalloc cur f t of
     (None, t') \<Rightarrow> t' = t \<and> (\<forall>fd < NOFILE. ofile (ptable t cur) fd \<noteq> None)
   | (Some fd, t') \<Rightarrow> fd < NOFILE \<and> ofile (ptable t cur) fd = None \<and> (\<forall>e < fd. ofile (ptable t cur) e \<noteq> None) \<and>
       t' = upd_proc cur (\<lambda>p. p\<lparr>ofile := (ofile p)(fd := Some f)\<rparr>) t"
proof (cases "find (\<lambda>fd. ofile (ptable t cur) fd = None) [0..<NOFILE]")
  case None
  then show ?thesis by (simp add: fdalloc_def) (auto simp: find_None_iff)
next
  case (Some fd)
  then obtain i where i: "i < length [0..<NOFILE]" "ofile (ptable t cur) ([0..<NOFILE] ! i) = None" "fd = [0..<NOFILE] ! i"
    "\<forall>j < i. ofile (ptable t cur) ([0..<NOFILE] ! j) \<noteq> None" unfolding find_Some_iff by auto
  then have "fd = i" "i < NOFILE" by auto
  then show ?thesis using i Some by (simp add: fdalloc_def)
qed

text \<open>\<open>dup\<close> and \<open>close\<close>.  For a descriptor of an open file \<open>sys_dup\<close> fails only when all 16 descriptors
  are taken; otherwise it returns the lowest free one, which then names the same file, and the file has
  one more reference.  Closing a descriptor of a file with further references only clears the
  descriptor and gives one reference back; a bad descriptor is refused without any effect.\<close>

lemma dup_close:
  "(argfd (ptable t cur) 0 M s = None \<longrightarrow> sys_dup cur M t s = Ok (-1, M, t, s) \<and> sys_close cur M t s = Ok (-1, M, t, s)) \<and>
   (argfd (ptable t cur) 0 M s = Some (fd, f) \<and> 1 \<le> fref (ftable s f) \<longrightarrow>
      (if \<forall>e < NOFILE. ofile (ptable t cur) e \<noteq> None then sys_dup cur M t s = Ok (-1, M, t, s)
       else \<exists>d < NOFILE. ofile (ptable t cur) d = None \<and> (\<forall>e < d. ofile (ptable t cur) e \<noteq> None) \<and>
         sys_dup cur M t s = Ok (int d, M, upd_proc cur (\<lambda>p. p\<lparr>ofile := (ofile p)(d := Some f)\<rparr>) t,
           upd_file f (\<lambda>x. x\<lparr>fref := fref x + 1\<rparr>) s))) \<and>
   (argfd (ptable t cur) 0 M s = Some (fd, f) \<and> 2 \<le> fref (ftable s f) \<longrightarrow>
      fd < NOFILE \<and> ofile (ptable t cur) fd = Some f \<and>
      sys_close cur M t s = Ok (0, M, upd_proc cur (\<lambda>p. p\<lparr>ofile := (ofile p)(fd := None)\<rparr>) t,
           upd_file f (\<lambda>x. x\<lparr>fref := fref x - 1\<rparr>) s))"
proof (intro conjI impI; (elim conjE)?)
  assume a: "argfd (ptable t cur) 0 M s = Some (fd, f)" and r: "1 \<le> fref (ftable s f)"
  show "if \<forall>e < NOFILE. ofile (ptable t cur) e \<noteq> None then sys_dup cur M t s = Ok (-1, M, t, s)
       else \<exists>d < NOFILE. ofile (ptable t cur) d = None \<and> (\<forall>e < d. ofile (ptable t cur) e \<noteq> None) \<and>
         sys_dup cur M t s = Ok (int d, M, upd_proc cur (\<lambda>p. p\<lparr>ofile := (ofile p)(d := Some f)\<rparr>) t,
           upd_file f (\<lambda>x. x\<lparr>fref := fref x + 1\<rparr>) s)"
  proof (cases "fdalloc cur f t")
    case (Pair d t')
    then show ?thesis using fdalloc_ok [where cur = cur and f = f and t = t] a r
      by (cases d) (auto simp: sys_dup_def filedup_def)
  qed
qed (auto simp: sys_dup_def sys_close_def argfd_def fileclose_def Let_def split: option.splits if_splits)

text \<open>Process 2 with descriptor 0 on file 0, which has two references; the argument is on its stack.\<close>

definition demo_user :: ptab where
  "demo_user = demo_table\<lparr>ptable := (ptable demo_table)(2 := demo_proc\<lparr>psz := 0x2000, tf := 0x80400000, ofile := (\<lambda>_. None)(0 := Some 0)\<rparr>)\<rparr>"

end
