(* ===== verification/Exec.thy ===== *)
theory Exec
  imports Sysfile
begin

text \<open>
  \<^verbatim>\<open>src/alarm/exec.c\<close>, \<open>sys_exec\<close> of \<^verbatim>\<open>src/alarm/sysfile.c\<close> and the system call table of
  \<^verbatim>\<open>src/alarm/syscall.c\<close>.  The ELF header, a program header and the argument block \<open>ustack\<close> are local
  buffers above the 32-bit address space.  After a successful \<open>exec\<close> the process sees the memory its new
  page directory maps.
\<close>

abbreviation elf_buf :: nat where "elf_buf \<equiv> 0x100000100"
abbreviation ph_buf :: nat where "ph_buf \<equiv> 0x100000140"
abbreviation ustack :: nat where "ustack \<equiv> 0x100000180"
abbreviation MAXARG :: nat where "MAXARG \<equiv> 32"
abbreviation ELF_MAGIC :: word32 where "ELF_MAGIC \<equiv> 0x464C457F"

text \<open>Fields of the headers: \<open>struct elfhdr\<close> has 52 bytes, \<open>struct proghdr\<close> 32.\<close>

record proghdr =
  ph_type :: word32
  ph_off :: nat
  ph_vaddr :: nat
  ph_filesz :: nat
  ph_memsz :: nat

definition get_proghdr :: "mem \<Rightarrow> nat \<Rightarrow> proghdr" where
  "get_proghdr M a = \<lparr>ph_type = get32 M a, ph_off = unat (get32 M (a + 4)), ph_vaddr = unat (get32 M (a + 8)),
     ph_filesz = unat (get32 M (a + 16)), ph_memsz = unat (get32 M (a + 20))\<rparr>"

record elfhdr =
  e_magic :: word32
  e_entry :: word32
  e_phoff :: nat
  e_phnum :: nat

definition get_elfhdr :: "mem \<Rightarrow> nat \<Rightarrow> elfhdr" where
  "get_elfhdr M a = \<lparr>e_magic = get32 M a, e_entry = get32 M (a + 24), e_phoff = unat (get32 M (a + 28)),
     e_phnum = unat (get16 M (a + 44))\<rparr>"

text \<open>One program header; \<open>Some ()\<close> is \<open>goto bad\<close>.\<close>

definition exec_segment :: "nat \<Rightarrow> nat \<Rightarrow> elfhdr \<Rightarrow> nat \<Rightarrow> nat \<times> mem \<times> 'a vm_state_scheme \<Rightarrow>
    (unit option \<times> nat \<times> mem \<times> 'a vm_state_scheme) outcome" where
  "exec_segment pgdir ip elf i = (\<lambda>(sz, M, s).
     bindE (readi ip M ph_buf (u32 (e_phoff elf + i * 32)) 32 s) (\<lambda>(r, M, s).
     if r \<noteq> 32 then Ok (Some (), sz, M, s)
     else let ph = get_proghdr M ph_buf in
       if ph_type ph \<noteq> 1 then Ok (None, sz, M, s)
       else if ph_memsz ph < ph_filesz ph then Ok (Some (), sz, M, s)
       else if u32 (ph_vaddr ph + ph_memsz ph) < ph_vaddr ph then Ok (Some (), sz, M, s)
       else
         bindE (allocuvm pgdir sz (u32 (ph_vaddr ph + ph_memsz ph)) s) (\<lambda>(sz, s).
         if sz = 0 then Ok (Some (), sz, M, s)
         else if ph_vaddr ph mod PGSIZE \<noteq> 0 then Ok (Some (), sz, M, s)
         else bindE (loaduvm pgdir (ph_vaddr ph) ip (ph_off ph) (ph_filesz ph) s) (\<lambda>(r, s).
           Ok (if r < 0 then Some () else None, sz, M, s)))))"

text \<open>Argument strings are pushed one below the other, word-aligned; the addresses are collected.\<close>

fun push_args :: "nat \<Rightarrow> mem \<Rightarrow> nat list \<Rightarrow> nat list \<Rightarrow> nat \<Rightarrow> 'a kmem_state_scheme \<Rightarrow>
    ((nat list \<times> nat) option \<times> 'a kmem_state_scheme) outcome" where
  "push_args pgdir M [] us sp s = Ok (Some (us, sp), s)"
| "push_args pgdir M (a # argv) us sp s =
     (if MAXARG \<le> length us then Ok (None, s)
      else case strlen a M of None \<Rightarrow> Forever
        | Some l \<Rightarrow>
            let sp = u32 (sp + 2 ^ 32 - (l + 1)) div 4 * 4 in
            case copyout pgdir sp M a (l + 1) s of (r, s) \<Rightarrow>
              if r < 0 then Ok (None, s) else push_args pgdir M argv (us @ [sp]) sp s)"

fun put_words :: "nat \<Rightarrow> word32 list \<Rightarrow> mem \<Rightarrow> mem" where
  "put_words a [] m = m"
| "put_words a (w # ws) m = put_words (a + 4) ws (put32 a w m)"

definition arg_block :: "nat list \<Rightarrow> nat \<Rightarrow> word32 list" where
  "arg_block us sp = [0xffffffff, of_nat (length us), of_nat (u32 (sp + 2 ^ 32 - (length us + 1) * 4))]
     @ map of_nat us @ [0]"

text \<open>The part of the path after the last slash.\<close>

definition last_elem :: "byte list \<Rightarrow> byte list" where
  "last_elem xs = rev (takeWhile (\<lambda>c. c \<noteq> slash) (rev xs))"

text \<open>The memory a page directory maps.\<close>

definition user_mem :: "nat \<Rightarrow> 'a kmem_state_scheme \<Rightarrow> mem" where
  "user_mem pgdir s a = (case translate s pgdir a of
     Some e \<Rightarrow> kmem s (P2V (PTE_ADDR e) + a mod PGSIZE) | None \<Rightarrow> 0)"

text \<open>The label \<open>bad\<close>, before and after the inode was released.\<close>

definition exec_bad :: "nat option \<Rightarrow> nat option \<Rightarrow> mem \<Rightarrow> ptab \<Rightarrow> 'a file_state_scheme \<Rightarrow> 'a sys" where
  "exec_bad pgdir ip M t s =
     bindE (case pgdir of Some d \<Rightarrow> freevm d s | None \<Rightarrow> Ok s) (\<lambda>s.
     case ip of Some ip \<Rightarrow> put_end ip (-1) M t s | None \<Rightarrow> Ok (-1, M, t, s))"

definition exec_commit :: "nat \<Rightarrow> nat \<Rightarrow> nat \<Rightarrow> nat \<Rightarrow> nat \<Rightarrow> elfhdr \<Rightarrow> nat \<Rightarrow> mem \<Rightarrow> ptab \<Rightarrow> 'a file_state_scheme \<Rightarrow> 'a sys" where
  "exec_commit cur path l pgdir sz elf sp M t s =
     (let p = ptable t cur;
          s = s\<lparr>kmem := put32 (tf p + tf_esp) (of_nat sp) (put32 (tf p + tf_eip) (e_entry elf) (kmem s))\<rparr>;
          t = upd_proc cur (\<lambda>p. p\<lparr>pname := take 15 (last_elem (read_bytes M path l)), ppgdir := pgdir, psz := sz\<rparr>) t
      in bindE (switchuvm (Some (kstack p, pgdir)) s) (\<lambda>s.
         bindE (freevm (ppgdir p) s) (\<lambda>s. Ok (0, user_mem pgdir s, t, s))))"

definition exec_stack :: "nat \<Rightarrow> nat \<Rightarrow> nat list \<Rightarrow> nat \<Rightarrow> nat \<Rightarrow> elfhdr \<Rightarrow> mem \<Rightarrow> ptab \<Rightarrow> 'a file_state_scheme \<Rightarrow> 'a sys" where
  "exec_stack cur path argv pgdir sz elf M t s =
     (let sz = PGROUNDUP sz in
      bindE (allocuvm pgdir sz (u32 (sz + 2 * PGSIZE)) s) (\<lambda>(sz, s).
      if sz = 0 then exec_bad (Some pgdir) None M t s
      else
        bindE (clearpteu pgdir (u32 (sz + 2 ^ 32 - 2 * PGSIZE)) s) (\<lambda>s.
        bindE (push_args pgdir M argv [] sz s) (\<lambda>(r, s).
        case r of None \<Rightarrow> exec_bad (Some pgdir) None M t s
        | Some (us, sp) \<Rightarrow>
            let sp' = u32 (sp + 2 ^ 32 - (3 + length us + 1) * 4);
                M = put_words ustack (arg_block us sp) M in
            case copyout pgdir sp' M ustack ((3 + length us + 1) * 4) s of (r, s) \<Rightarrow>
              if r < 0 then exec_bad (Some pgdir) None M t s
              else case strlen path M of None \<Rightarrow> Forever
                | Some l \<Rightarrow> exec_commit cur path l pgdir sz elf sp' M t s))))"

definition exec :: "nat \<Rightarrow> nat \<Rightarrow> nat list \<Rightarrow> mem \<Rightarrow> ptab \<Rightarrow> 'a file_state_scheme \<Rightarrow> 'a sys" where
  "exec cur path argv M t s =
     bindE (begin_op s) (\<lambda>s.
     bindE (namei (cwd_of (ptable t cur)) path M s) (\<lambda>(r, M, s).
     case r of
       None \<Rightarrow> bindE (end_op s) (\<lambda>s. bindE (cprintf (Some (ascii ''exec: fail'' @ [10])) (\<lambda>_. 0) s) (\<lambda>s. Ok (-1, M, t, s)))
     | Some ip \<Rightarrow>
         bindE (ilock (Some ip) s) (\<lambda>s.
         bindE (readi ip M elf_buf 0 52 s) (\<lambda>(r, M, s).
         let elf = get_elfhdr M elf_buf in
         if r \<noteq> 52 \<or> e_magic elf \<noteq> ELF_MAGIC then exec_bad None (Some ip) M t s
         else
           bindE (setupkvm s) (\<lambda>(d, s).
           case d of None \<Rightarrow> exec_bad None (Some ip) M t s
           | Some pgdir \<Rightarrow>
               bindE (loopE (exec_segment pgdir ip elf) [0..<e_phnum elf] (0, M, s)) (\<lambda>(r, sz, M, s).
               case r of Some _ \<Rightarrow> exec_bad (Some pgdir) (Some ip) M t s
               | None \<Rightarrow>
                   bindE (iunlockput ip s) (\<lambda>s.
                   bindE (end_op s) (exec_stack cur path argv pgdir sz elf M t))))))))"

text \<open>The argument vector: at most 31 strings and a null pointer.\<close>

fun fetch_args :: "proc \<Rightarrow> nat \<Rightarrow> nat \<Rightarrow> mem \<Rightarrow> nat list option" where
  "fetch_args p uargv 0 M = None"
| "fetch_args p uargv (Suc n) M =
     (case fetchint p uargv M of None \<Rightarrow> None
      | Some a \<Rightarrow>
          if a = 0 then Some []
          else (case fetchstr p (of_s32 a) M of None \<Rightarrow> None
                | Some _ \<Rightarrow> map_option ((#) (of_s32 a)) (fetch_args p (u32 (uargv + 4)) n M)))"

definition sys_exec :: "nat \<Rightarrow> mem \<Rightarrow> ptab \<Rightarrow> 'a file_state_scheme \<Rightarrow> 'a sys" where
  "sys_exec cur M t s =
     (let p = ptable t cur in
      case argstr p 0 M s of None \<Rightarrow> Ok (-1, M, t, s)
      | Some (path, _) \<Rightarrow>
          (case argint p 1 M s of None \<Rightarrow> Ok (-1, M, t, s)
           | Some uargv \<Rightarrow>
               (case fetch_args p (of_s32 uargv) MAXARG M of None \<Rightarrow> Ok (-1, M, t, s)
                | Some argv \<Rightarrow> exec cur path argv M t s)))"

end
