(* ===== verification/Trap.thy ===== *)
theory Trap
  imports Exec
begin

text \<open>
  \<^verbatim>\<open>src/alarm/trap.c\<close>: interrupts, exceptions and system calls, with the delivery of alarms; the
  dispatcher of \<^verbatim>\<open>src/alarm/syscall.c\<close> and \<open>procdump\<close> of \<^verbatim>\<open>src/alarm/proc.c\<close>.  The state of the whole
  kernel is the process table, the rest of the kernel, the memory of the running process and the tick
  counter.  The trap frame is in kernel memory; devices hand over the characters they received.
\<close>

record kern =
  ktab :: ptab
  kst :: file_state
  umem :: mem
  ticks :: word32
  cpu :: nat                 \<comment> \<open>the number of the processor, \<open>cpuid()\<close>\<close>

abbreviation T_PGFLT :: word32 where "T_PGFLT \<equiv> 14"
abbreviation T_SYSCALL :: word32 where "T_SYSCALL \<equiv> 64"
abbreviation T_IRQ0 :: word32 where "T_IRQ0 \<equiv> 32"
abbreviation IRQ_TIMER :: word32 where "IRQ_TIMER \<equiv> 0"
abbreviation IRQ_KBD :: word32 where "IRQ_KBD \<equiv> 1"
abbreviation IRQ_COM1 :: word32 where "IRQ_COM1 \<equiv> 4"
abbreviation IRQ_IDE :: word32 where "IRQ_IDE \<equiv> 14"
abbreviation IRQ_SPURIOUS :: word32 where "IRQ_SPURIOUS \<equiv> 31"

text \<open>The channel \<open>&ticks\<close>, and an address standing for \<open>p->name\<close> when it is printed.\<close>

abbreviation ticks_chan :: chan where "ticks_chan \<equiv> Addr 0"
abbreviation name_addr :: nat where "name_addr \<equiv> 0xFFFFF000"

definition cprintf_named :: "byte list \<Rightarrow> byte list \<Rightarrow> (nat \<Rightarrow> word32) \<Rightarrow> 'a cons_state_scheme \<Rightarrow> 'a cons_state_scheme outcome" where
  "cprintf_named nm fmt args s =
     bindE (cprintf (Some fmt) args (s\<lparr>kmem := write_bytes name_addr (nm @ [0]) (kmem s)\<rparr>))
       (\<lambda>s'. Ok (s'\<lparr>kmem := kmem s\<rparr>))"

definition words :: "word32 list \<Rightarrow> nat \<Rightarrow> word32" where
  "words ws i = (if i < length ws then ws ! i else 0)"

section \<open>System calls\<close>

text \<open>A system call returns a value in the process that made it, or ends the process.\<close>

datatype 'a sysret = Returns int mem ptab 'a | Gone ptab 'a

definition ret :: "(int \<times> mem \<times> ptab \<times> 'a) outcome \<Rightarrow> 'a sysret outcome" where
  "ret m = bindE m (\<lambda>(r, M, t, s). Ok (Returns r M t s))"

definition ret_proc :: "mem \<Rightarrow> (int \<times> ptab \<times> 'a) outcome \<Rightarrow> 'a sysret outcome" where
  "ret_proc M m = bindE m (\<lambda>(r, t, s). Ok (Returns r M t s))"

definition sys_sleep :: "nat \<Rightarrow> mem \<Rightarrow> word32 \<Rightarrow> ptab \<Rightarrow> 'a file_state_scheme \<Rightarrow> (int \<times> ptab \<times> 'a file_state_scheme) outcome" where
  "sys_sleep cur M now t s =
     (case argint (ptable t cur) 0 M s of None \<Rightarrow> Ok (-1, t, s)
      | Some n \<Rightarrow>
          (case sys_sleep_test now n now (killed (ptable t cur)) of Some r \<Rightarrow> Ok (r, t, s) | None \<Rightarrow> Blocked ''ticks''))"

text \<open>The table \<open>syscalls\<close>.\<close>

definition syscalls :: "int \<Rightarrow> nat \<Rightarrow> mem \<Rightarrow> word32 \<Rightarrow> ptab \<Rightarrow> 'a file_state_scheme \<Rightarrow> 'a file_state_scheme sysret outcome option" where
  "syscalls num cur M now t s =
     (if num = 1 then Some (ret_proc M (sys_fork cur t s))
      else if num = 2 then Some (bindE (sys_exit cur t s) (\<lambda>(t, s). Ok (Gone t s)))
      else if num = 3 then Some (ret_proc M (sys_wait cur t s))
      else if num = 4 then Some (ret (sys_pipe cur M t s))
      else if num = 5 then Some (ret (sys_read cur M t s))
      else if num = 6 then Some (case sys_kill cur M t s of (r, t) \<Rightarrow> Ok (Returns r M t s))
      else if num = 7 then Some (ret (sys_exec cur M t s))
      else if num = 8 then Some (ret (sys_fstat cur M t s))
      else if num = 9 then Some (ret (sys_chdir cur M t s))
      else if num = 10 then Some (ret (sys_dup cur M t s))
      else if num = 11 then Some (Ok (Returns (sys_getpid cur t) M t s))
      else if num = 12 then Some (ret_proc M (sys_sbrk cur M t s))
      else if num = 13 then Some (ret_proc M (sys_sleep cur M now t s))
      else if num = 14 then Some (Ok (Returns (sys_uptime now) M t s))
      else if num = 15 then Some (ret (sys_open cur M t s))
      else if num = 16 then Some (ret (sys_write cur M t s))
      else if num = 17 then Some (ret (sys_mknod cur M t s))
      else if num = 18 then Some (ret (sys_unlink cur M t s))
      else if num = 19 then Some (ret (sys_link cur M t s))
      else if num = 20 then Some (ret (sys_mkdir cur M t s))
      else if num = 21 then Some (ret (sys_close cur M t s))
      else if num = 22 then Some (case sys_alarm cur M t s of (r, t) \<Rightarrow> Ok (Returns r M t s))
      else None)"

text \<open>The result goes to \<open>eax\<close> of the trap frame the process has when the call returns.\<close>

definition set_eax :: "nat \<Rightarrow> int \<Rightarrow> kern \<Rightarrow> kern" where
  "set_eax cur r k = k\<lparr>kst := (kst k)\<lparr>kmem := put32 (tf (ptable (ktab k) cur) + tf_eax) (of_int r) (kmem (kst k))\<rparr>\<rparr>"

definition syscall :: "nat \<Rightarrow> kern \<Rightarrow> kern outcome" where
  "syscall cur k =
     (let p = ptable (ktab k) cur; num = sint (get32 (kmem (kst k)) (tf p + tf_eax)) in
      case syscalls num cur (umem k) (ticks k) (ktab k) (kst k) of
        Some m \<Rightarrow>
          bindE m (\<lambda>r. case r of
            Returns v M t s \<Rightarrow> Ok (set_eax cur v (k\<lparr>ktab := t, kst := s, umem := M\<rparr>))
          | Gone t s \<Rightarrow> Ok (k\<lparr>ktab := t, kst := s\<rparr>))
      | None \<Rightarrow>
          bindE (cprintf_named (pname p) (ascii ''%d %s: unknown sys call %d'' @ [10])
                   (words [of_int (pid p), of_nat name_addr, of_int num]) (kst k)) (\<lambda>s.
          Ok (set_eax cur (-1) (k\<lparr>kst := s\<rparr>))))"

section \<open>The process listing\<close>

definition state_name :: "procstate \<Rightarrow> string" where
  "state_name st = (case st of UNUSED \<Rightarrow> ''unused'' | EMBRYO \<Rightarrow> ''embryo'' | SLEEPING \<Rightarrow> ''sleep ''
     | RUNNABLE \<Rightarrow> ''runble'' | RUNNING \<Rightarrow> ''run   '' | ZOMBIE \<Rightarrow> ''zombie'')"

text \<open>\<open>getcallerpcs\<close> starts from the \<open>ebp\<close> saved in the context of a sleeping process.\<close>

definition dump_step :: "ptab \<Rightarrow> nat \<Rightarrow> 'a cons_state_scheme \<Rightarrow> 'a cons_state_scheme outcome" where
  "dump_step t i s =
     (let p = ptable t i in
      if pstate p = UNUSED then Ok s
      else
        bindE (cprintf_named (pname p) (ascii (''%d '' @ state_name (pstate p) @ '' %s''))
                 (words [of_int (pid p), of_nat name_addr]) s) (\<lambda>s.
        bindE (if pstate p = SLEEPING then
                 forE (\<lambda>pc. cprintf (Some (ascii '' %p'')) (words [pc]))
                   (takeWhile (\<lambda>pc. pc \<noteq> 0) (getcallerpcs (kmem s) (unat (get32 (kmem s) (pcontext p + 12)) + 8))) s
               else Ok s) (\<lambda>s.
        cprintf (Some [10]) (words []) s)))"

definition procdump :: "ptab \<Rightarrow> 'a cons_state_scheme \<Rightarrow> 'a cons_state_scheme outcome" where
  "procdump t s = forE (dump_step t) [0..<NPROC] s"

section \<open>Traps\<close>

definition frame32 :: "nat \<Rightarrow> nat \<Rightarrow> kern \<Rightarrow> word32" where
  "frame32 f o' k = get32 (kmem (kst k)) (f + o')"

definition from_user :: "nat \<Rightarrow> kern \<Rightarrow> bool" where
  "from_user f k \<longleftrightarrow> get16 (kmem (kst k)) (f + tf_cs) AND 3 = of_nat DPL_USER"

text \<open>
  A store of the kernel through a user-supplied address, by the page tables in use: \<open>CR0_WP\<close> is set (\<^verbatim>\<open>entry.S\<close>), so that the
  kernel too can only write to pages that are present and writable.  Below \<open>KERNBASE\<close> the bytes are those of
  the process, above those of the kernel itself.  A page fault of the kernel at this point comes back to the
  same instruction with interrupts off (\<open>page_fault_ignored\<close> below), forever; a store across the end of the address space
  is a general protection fault, which panics.
\<close>

definition writable :: "nat \<Rightarrow> 'a vm_state_scheme \<Rightarrow> bool" where
  "writable a s \<longleftrightarrow>
     (let d = P2V (cr3 (mycpu s)) in
      pde_at s d (PDX a) AND PTE_W \<noteq> 0 \<and> (case translate s d a of None \<Rightarrow> False | Some e \<Rightarrow> e AND PTE_W \<noteq> 0))"

definition can_store :: "nat \<Rightarrow> kern \<Rightarrow> bool" where
  "can_store a k \<longleftrightarrow> writable a (kst k) \<and> writable (a + 3) (kst k)"

definition user_put :: "nat \<Rightarrow> word32 \<Rightarrow> mem \<Rightarrow> mem" where
  "user_put a w m = (\<lambda>i. if i < KERNBASE then put32 a w m i else m i)"

definition kern_put :: "nat \<Rightarrow> word32 \<Rightarrow> mem \<Rightarrow> mem" where
  "kern_put a w m = (\<lambda>i. if i < KERNBASE then m i else put32 a w m i)"

definition store32 :: "nat \<Rightarrow> word32 \<Rightarrow> kern \<Rightarrow> kern outcome" where
  "store32 a w k =
     (if 2 ^ 32 < a + 4 then Panic ''trap''
      else if can_store a k then
        Ok (k\<lparr>umem := user_put a w (umem k), kst := (kst k)\<lparr>kmem := kern_put a w (kmem (kst k))\<rparr>\<rparr>)
      else Forever)"

definition put_frame :: "nat \<Rightarrow> nat \<Rightarrow> word32 \<Rightarrow> kern \<Rightarrow> kern" where
  "put_frame f o' w k = k\<lparr>kst := (kst k)\<lparr>kmem := put32 (f + o') w (kmem (kst k))\<rparr>\<rparr>"

definition copy_frame :: "nat \<Rightarrow> nat \<Rightarrow> kern \<Rightarrow> kern" where
  "copy_frame dst src k = k\<lparr>kst := (kst k)\<lparr>kmem := memmove dst src 76 (kmem (kst k))\<rparr>\<rparr>"

text \<open>The alarm of the running process on a clock tick from user mode.\<close>

definition save_frame :: "nat \<Rightarrow> nat \<Rightarrow> kern \<Rightarrow> kern" where
  "save_frame f cur k =
     (let k = copy_frame (alarm_tf (ptable (ktab k) cur)) f k in put_frame f tf_esp (frame32 f tf_esp k - 4) k)"

definition deliver_alarm :: "nat \<Rightarrow> nat \<Rightarrow> kern \<Rightarrow> kern outcome" where
  "deliver_alarm f cur k =
     (let k = save_frame f cur k in
      bindE (store32 (unat (frame32 f tf_esp k)) 0xFFFFFFFF k) (\<lambda>k.
      let k = put_frame f tf_eip (of_nat (handler (ptable (ktab k) cur))) k
      in Ok (k\<lparr>ktab := upd_proc cur (\<lambda>p. p\<lparr>alarmpassed := 0, handling_alarm := True\<rparr>) (ktab k)\<rparr>)))"

definition alarm_tick :: "nat \<Rightarrow> nat \<Rightarrow> kern \<Rightarrow> kern outcome" where
  "alarm_tick f cur k =
     (let p = ptable (ktab k) cur in
      if 0 < alarmtime p \<and> \<not> handling_alarm p then
        let k = k\<lparr>ktab := upd_proc cur (\<lambda>p. p\<lparr>alarmpassed := alarmpassed p + 1\<rparr>) (ktab k)\<rparr> in
        if alarmtime p \<le> alarmpassed p + 1 then deliver_alarm f cur k else Ok k
      else Ok k)"

definition clock_tick :: "kern \<Rightarrow> kern" where
  "clock_tick k = (if cpu k = 0 then k\<lparr>ticks := ticks k + 1, ktab := wakeup ticks_chan (ktab k)\<rparr> else k)"

definition timer_intr :: "nat \<Rightarrow> kern \<Rightarrow> kern outcome" where
  "timer_intr f k =
     (let k = clock_tick k in
      case myproc (ktab k) of
        Some cur \<Rightarrow> if from_user f k then alarm_tick f cur k else Ok k
      | None \<Rightarrow> Ok k)"

text \<open>\<open>kbdintr\<close> and \<open>uartintr\<close> hand the received characters to \<open>consoleintr\<close>.\<close>

definition console_chars :: "nat list \<Rightarrow> kern \<Rightarrow> kern outcome" where
  "console_chars cs k =
     bindE (consoleintr cs (kst k)) (\<lambda>(dump, s).
     bindE (if dump then procdump (ktab k) s else Ok s) (\<lambda>s. Ok (k\<lparr>kst := s\<rparr>)))"

definition exit_current :: "nat \<Rightarrow> kern \<Rightarrow> kern outcome" where
  "exit_current cur k = bindE (exit cur (ktab k) (kst k)) (\<lambda>(t, s). Ok (k\<lparr>ktab := t, kst := s\<rparr>))"

definition exit_if_killed :: "nat \<Rightarrow> kern \<Rightarrow> kern outcome" where
  "exit_if_killed f k =
     (case myproc (ktab k) of
        Some cur \<Rightarrow> if killed (ptable (ktab k) cur) \<and> from_user f k then exit_current cur k else Ok k
      | None \<Rightarrow> Ok k)"

definition set_killed :: "nat \<Rightarrow> kern \<Rightarrow> kern" where
  "set_killed cur k = k\<lparr>ktab := upd_proc cur (\<lambda>p. p\<lparr>killed := True\<rparr>) (ktab k), kst := (kst k)\<lparr>curkilled := True\<rparr>\<rparr>"

definition trap_default :: "nat \<Rightarrow> word32 \<Rightarrow> kern \<Rightarrow> kern outcome" where
  "trap_default f cr2 k =
     (let user = (get16 (kmem (kst k)) (f + tf_cs) AND 3 \<noteq> 0) in
      case myproc (ktab k) of
        Some cur \<Rightarrow>
          if \<not> user then Panic ''trap''
          else let p = ptable (ktab k) cur in
            bindE (cprintf_named (pname p) (ascii ''pid %d %s: trap %d err %d on cpu %d eip 0x%x addr 0x%x--kill proc'' @ [10])
                     (words [of_int (pid p), of_nat name_addr, frame32 f tf_trapno k, frame32 f 52 k, of_nat (cpu k),
                             frame32 f tf_eip k, cr2]) (kst k)) (\<lambda>s.
            Ok (set_killed cur (k\<lparr>kst := s\<rparr>)))
      | None \<Rightarrow> Panic ''trap'')"

text \<open>What follows the switch: the process may have been killed, and gives up the processor on a tick.
  When it runs again, \<open>exit_if_killed\<close> is what remains of \<open>trap\<close>.\<close>

definition trap_tail :: "nat \<Rightarrow> kern \<Rightarrow> kern outcome" where
  "trap_tail f k =
     bindE (exit_if_killed f k) (\<lambda>k.
     case myproc (ktab k) of
       Some cur \<Rightarrow>
         if pstate (ptable (ktab k) cur) = RUNNING \<and> frame32 f tf_trapno k = T_IRQ0 + IRQ_TIMER then
           bindE (yield (ktab k) (kst k)) (\<lambda>(t, s). Ok (k\<lparr>ktab := t, kst := s\<rparr>))
         else exit_if_killed f k
     | None \<Rightarrow> Ok k)"

text \<open>The page fault case: the return from an alarm handler restores the saved frame, any other page
  fault is ignored.\<close>

definition alarm_return :: "nat \<Rightarrow> word32 \<Rightarrow> kern \<Rightarrow> kern option" where
  "alarm_return f cr2 k =
     (case myproc (ktab k) of
        Some cur \<Rightarrow>
          if handling_alarm (ptable (ktab k) cur) \<and> cr2 = 0xFFFFFFFF then
            let k = copy_frame f (alarm_tf (ptable (ktab k) cur)) k
            in Some (k\<lparr>ktab := upd_proc cur (\<lambda>p. p\<lparr>handling_alarm := False\<rparr>) (ktab k)\<rparr>)
          else None
      | None \<Rightarrow> None)"

definition trap_syscall :: "nat \<Rightarrow> kern \<Rightarrow> kern outcome" where
  "trap_syscall f k =
     (case myproc (ktab k) of None \<Rightarrow> Forever
      | Some cur \<Rightarrow>
          if killed (ptable (ktab k) cur) then exit_current cur k
          else
            bindE (syscall cur (k\<lparr>ktab := upd_proc cur (\<lambda>p. p\<lparr>tf := f\<rparr>) (ktab k)\<rparr>)) (\<lambda>k.
            case myproc (ktab k) of None \<Rightarrow> Ok k
            | Some cur \<Rightarrow> if killed (ptable (ktab k) cur) then exit_current cur k else Ok k))"

definition trap :: "nat \<Rightarrow> word32 \<Rightarrow> nat list \<Rightarrow> kern \<Rightarrow> kern outcome" where
  "trap f cr2 cs k =
     (let n = frame32 f tf_trapno k in
      if n = T_SYSCALL then trap_syscall f k
      else if n = T_IRQ0 + IRQ_TIMER then bindE (timer_intr f k) (trap_tail f)
      else if n = T_IRQ0 + IRQ_IDE \<or> n = T_IRQ0 + IRQ_IDE + 1 then trap_tail f k
      else if n = T_IRQ0 + IRQ_KBD \<or> n = T_IRQ0 + IRQ_COM1 then bindE (console_chars cs k) (trap_tail f)
      else if n = T_IRQ0 + 7 \<or> n = T_IRQ0 + IRQ_SPURIOUS then
        bindE (cprintf (Some (ascii ''cpu%d: spurious interrupt at %x:%x'' @ [10]))
                 (words [of_nat (cpu k), ucast (get16 (kmem (kst k)) (f + tf_cs)), frame32 f tf_eip k]) (kst k)) (\<lambda>s.
        trap_tail f (k\<lparr>kst := s\<rparr>))
      else if n = T_PGFLT then
        (case alarm_return f cr2 k of Some k \<Rightarrow> Ok k | None \<Rightarrow> trap_tail f k)
      else bindE (trap_default f cr2 k) (trap_tail f))"

section \<open>The alarm\<close>

lemma kern_store_sel [simp]:
  "ktab (copy_frame d s k) = ktab k" "umem (copy_frame d s k) = umem k" "ticks (copy_frame d s k) = ticks k"
  "ktab (put_frame f o' w k) = ktab k" "umem (put_frame f o' w k) = umem k" "ticks (put_frame f o' w k) = ticks k"
  by (simp_all add: copy_frame_def put_frame_def)

lemma kmem_put_frame [simp]: "kmem (kst (put_frame f o' w k)) = put32 (f + o') w (kmem (kst k))"
  by (simp add: put_frame_def)

lemma kmem_copy_frame [simp]: "kmem (kst (copy_frame d s k)) = blit (kmem (kst k)) d (kmem (kst k)) s 76"
  by (simp add: copy_frame_def memmove_blit)

lemma wakeup_sel [simp]: "running (wakeup c t) = running t"
  by (simp add: wakeup_def)

lemma wakeup_running: "pstate (ptable t i) = RUNNING \<Longrightarrow> ptable (wakeup c t) i = ptable t i"
  by (simp add: wakeup_def wakeup1_def Let_def)

lemma clock_tick_sel [simp]:
  "kst (clock_tick k) = kst k" "umem (clock_tick k) = umem k" "running (ktab (clock_tick k)) = running (ktab k)"
  by (simp_all add: clock_tick_def)

lemma clock_tick_running:
  "pstate (ptable (ktab k) i) = RUNNING \<Longrightarrow> ptable (ktab (clock_tick k)) i = ptable (ktab k) i"
  by (simp add: clock_tick_def wakeup_running)

text \<open>A process that may take an alarm: it runs, in user mode, and its alarm is due on this tick.\<close>

definition alarm_due :: "nat \<Rightarrow> nat \<Rightarrow> kern \<Rightarrow> bool" where
  "alarm_due f cur k \<longleftrightarrow>
     (let p = ptable (ktab k) cur in
      running (ktab k) = Some cur \<and> pstate p = RUNNING \<and> \<not> killed p \<and> from_user f k \<and>
      0 < alarmtime p \<and> \<not> handling_alarm p \<and> alarmtime p \<le> alarmpassed p + 1 \<and>
      (alarm_tf p + 76 \<le> f \<or> f + 76 \<le> alarm_tf p))"

lemma timer_intr_due:
  assumes "alarm_due f cur k"
  shows "timer_intr f k = deliver_alarm f cur
     ((clock_tick k)\<lparr>ktab := upd_proc cur (\<lambda>p. p\<lparr>alarmpassed := alarmpassed p + 1\<rparr>) (ktab (clock_tick k))\<rparr>)"
  using assms by (simp add: alarm_due_def Let_def timer_intr_def myproc_def alarm_tick_def clock_tick_running from_user_def)

text \<open>The trap returns by giving up the processor, which leaves memory alone.\<close>

lemma trap_tail_timer:
  assumes "running (ktab k) = Some cur" and "pstate (ptable (ktab k) cur) = RUNNING"
    and "\<not> killed (ptable (ktab k) cur)" and "frame32 f tf_trapno k = T_IRQ0 + IRQ_TIMER"
  shows "trap_tail f k = Ok (k\<lparr>ktab := (upd_proc cur (\<lambda>p. p\<lparr>pstate := RUNNABLE\<rparr>) (ktab k))\<lparr>running := None\<rparr>,
     kst := switchkvm (kst k)\<rparr>)"
  using assms by (simp add: trap_tail_def exit_if_killed_def myproc_def yield_def sched_def)

lemma kmem_switchkvm [simp]: "kmem (switchkvm s) = kmem s"
  by (simp add: switchkvm_def)

text \<open>What \<open>save_frame\<close> leaves, and the memory of the kernel and of the process after an alarm was delivered on a stack
  in user memory.\<close>

lemma save_frame_sel [simp]:
  "ktab (save_frame f cur k) = ktab k" "umem (save_frame f cur k) = umem k" "ticks (save_frame f cur k) = ticks k"
  by (simp_all add: save_frame_def Let_def)

lemma save_frame_memory:
  assumes "alarm_tf (ptable (ktab k) cur) + 76 \<le> f \<or> f + 76 \<le> alarm_tf (ptable (ktab k) cur)"
  shows "kmem (kst (save_frame f cur k)) = put32 (f + tf_esp) (frame32 f tf_esp k - 4)
      (blit (kmem (kst k)) (alarm_tf (ptable (ktab k) cur)) (kmem (kst k)) f 76)"
    "frame32 f tf_esp (save_frame f cur k) = frame32 f tf_esp k - 4"
proof -
  have "get32 (blit (kmem (kst k)) (alarm_tf (ptable (ktab k) cur)) (kmem (kst k)) f 76) (f + tf_esp) = frame32 f tf_esp k"
    unfolding frame32_def by (rule get32_cong) (use assms in \<open>auto simp: blit_def\<close>)
  then show m: "kmem (kst (save_frame f cur k)) = put32 (f + tf_esp) (frame32 f tf_esp k - 4)
      (blit (kmem (kst k)) (alarm_tf (ptable (ktab k) cur)) (kmem (kst k)) f 76)"
    by (simp add: save_frame_def Let_def frame32_def)
  show "frame32 f tf_esp (save_frame f cur k) = frame32 f tf_esp k - 4" unfolding frame32_def [of _ _ "save_frame f cur k"] m by simp
qed

text \<open>Whether the store is possible is decided by the page tables alone.\<close>

lemma can_store_cong: "kst k = kst k' \<Longrightarrow> can_store a k = can_store a k'"
  by (simp add: can_store_def)

lemma save_frame_cong: "kst k = kst k' \<Longrightarrow> alarm_tf (ptable (ktab k) cur) = alarm_tf (ptable (ktab k') cur) \<Longrightarrow>
    kst (save_frame f cur k) = kst (save_frame f cur k')"
  by (simp add: save_frame_def copy_frame_def put_frame_def frame32_def Let_def)

lemma deliver_alarm_faults:
  assumes "alarm_tf (ptable (ktab k) cur) + 76 \<le> f \<or> f + 76 \<le> alarm_tf (ptable (ktab k) cur)"
    and "unat (frame32 f tf_esp k - 4) + 4 \<le> 2 ^ 32" and "\<not> can_store (unat (frame32 f tf_esp k - 4)) (save_frame f cur k)"
  shows "deliver_alarm f cur k = Forever"
  using assms(2,3) by (simp add: deliver_alarm_def Let_def save_frame_memory(2) [OF assms(1)] store32_def)

lemma deliver_alarm_memory:
  fixes k :: kern and f cur :: nat
  defines "p \<equiv> ptable (ktab k) cur" and "a \<equiv> unat (frame32 f tf_esp k - 4)"
  assumes apart: "alarm_tf p + 76 \<le> f \<or> f + 76 \<le> alarm_tf p" and user: "a + 4 \<le> KERNBASE" and "can_store a (save_frame f cur k)"
  obtains k' where "deliver_alarm f cur k = Ok k'" "\<forall>i < 76. kmem (kst k') (alarm_tf p + i) = kmem (kst k) (f + i)"
    "frame32 f tf_eip k' = of_nat (handler p)" "frame32 f tf_esp k' = frame32 f tf_esp k - 4"
    "\<forall>i < 76. i < tf_eip \<or> tf_cs \<le> i \<and> i < tf_esp \<or> tf_ss \<le> i \<longrightarrow> kmem (kst k') (f + i) = kmem (kst k) (f + i)"
    "umem k' = put32 a 0xFFFFFFFF (umem k)"
    "ktab k' = upd_proc cur (\<lambda>p. p\<lparr>alarmpassed := 0, handling_alarm := True\<rparr>) (ktab k)"
proof -
  define m where "m = blit (kmem (kst k)) (alarm_tf p) (kmem (kst k)) f 76"
  note s = save_frame_memory [OF apart [unfolded p_def]]
  have u: "user_put a w x = put32 a w x" "kern_put a w x = x" for w x
    using user by (auto simp: user_put_def kern_put_def put32_other)
  define k' where "k' = (case deliver_alarm f cur k of Ok k' \<Rightarrow> k')"
  have e: "deliver_alarm f cur k = Ok k'" "umem k' = put32 a 0xFFFFFFFF (umem k)"
    "ktab k' = upd_proc cur (\<lambda>p. p\<lparr>alarmpassed := 0, handling_alarm := True\<rparr>) (ktab k)"
    "kmem (kst k') = put32 (f + tf_eip) (of_nat (handler p)) (put32 (f + tf_esp) (frame32 f tf_esp k - 4) m)"
    using assms(5) user s unfolding k'_def by (simp_all add: deliver_alarm_def Let_def store32_def u m_def p_def flip: a_def)
  show thesis
  proof (rule that [OF e(1) _ _ _ _ e(2,3)])
    show "\<forall>i < 76. kmem (kst k') (alarm_tf p + i) = kmem (kst k) (f + i)"
      unfolding e by (use apart in \<open>auto simp: put32_other m_def blit_def\<close>)
    show "frame32 f tf_eip k' = of_nat (handler p)" unfolding frame32_def e by simp
    show "frame32 f tf_esp k' = frame32 f tf_esp k - 4"
      unfolding frame32_def [of _ _ k'] e by (simp add: get32_put32_other)
    show "\<forall>i < 76. i < tf_eip \<or> tf_cs \<le> i \<and> i < tf_esp \<or> tf_ss \<le> i \<longrightarrow> kmem (kst k') (f + i) = kmem (kst k) (f + i)"
      unfolding e by (use apart in \<open>auto simp: put32_other m_def blit_def\<close>)
  qed
qed

text \<open>The state in which \<open>deliver_alarm\<close> is called agrees with the one before the tick in all that matters.\<close>

abbreviation ticked :: "nat \<Rightarrow> kern \<Rightarrow> kern" where
  "ticked cur k \<equiv> (clock_tick k)\<lparr>ktab := upd_proc cur (\<lambda>p. p\<lparr>alarmpassed := alarmpassed p + 1\<rparr>) (ktab (clock_tick k))\<rparr>"

lemma ticked_sel:
  assumes "alarm_due f cur k"
  shows "kst (ticked cur k) = kst k" "umem (ticked cur k) = umem k" "running (ktab (ticked cur k)) = Some cur"
    "ptable (ktab (ticked cur k)) cur = (ptable (ktab k) cur)\<lparr>alarmpassed := alarmpassed (ptable (ktab k) cur) + 1\<rparr>"
    "frame32 f o' (ticked cur k) = frame32 f o' k" "can_store a (save_frame f cur (ticked cur k)) = can_store a (save_frame f cur k)"
proof -
  show "kst (ticked cur k) = kst k" "umem (ticked cur k) = umem k" "running (ktab (ticked cur k)) = Some cur"
    "frame32 f o' (ticked cur k) = frame32 f o' k"
    using assms by (simp_all add: alarm_due_def Let_def frame32_def)
  show t: "ptable (ktab (ticked cur k)) cur = (ptable (ktab k) cur)\<lparr>alarmpassed := alarmpassed (ptable (ktab k) cur) + 1\<rparr>"
    using assms by (simp add: alarm_due_def Let_def clock_tick_running)
  show "can_store a (save_frame f cur (ticked cur k)) = can_store a (save_frame f cur k)"
    by (rule can_store_cong, rule save_frame_cong) (use t in simp_all)
qed

lemma timer_intr_faults:
  assumes "alarm_due f cur k" "unat (frame32 f tf_esp k - 4) + 4 \<le> 2 ^ 32" "\<not> can_store (unat (frame32 f tf_esp k - 4)) (save_frame f cur k)"
  shows "timer_intr f k = Forever"
proof -
  have "alarm_tf (ptable (ktab k) cur) + 76 \<le> f \<or> f + 76 \<le> alarm_tf (ptable (ktab k) cur)" using assms(1) by (simp add: alarm_due_def Let_def)
  then show ?thesis unfolding timer_intr_due [OF assms(1)]
    by (intro deliver_alarm_faults) (use assms ticked_sel [OF assms(1)] in simp_all)
qed

lemma timer_intr_delivers:
  fixes k :: kern and f cur :: nat
  defines "p \<equiv> ptable (ktab k) cur" and "a \<equiv> unat (frame32 f tf_esp k - 4)"
  assumes due: "alarm_due f cur k" and user: "a + 4 \<le> KERNBASE" and "can_store a (save_frame f cur k)"
  obtains k1 kd :: kern where "timer_intr f k = Ok kd" "running (ktab k1) = Some cur" "ptable (ktab k1) cur = p\<lparr>alarmpassed := alarmpassed p + 1\<rparr>"
    "\<forall>i < 76. kmem (kst kd) (alarm_tf p + i) = kmem (kst k) (f + i)"
    "frame32 f tf_eip kd = of_nat (handler p)" "frame32 f tf_esp kd = frame32 f tf_esp k - 4"
    "\<forall>i < 76. i < tf_eip \<or> tf_cs \<le> i \<and> i < tf_esp \<or> tf_ss \<le> i \<longrightarrow> kmem (kst kd) (f + i) = kmem (kst k) (f + i)"
    "umem kd = put32 a 0xFFFFFFFF (umem k)"
    "ktab kd = upd_proc cur (\<lambda>p. p\<lparr>alarmpassed := 0, handling_alarm := True\<rparr>) (ktab k1)"
proof -
  note t = ticked_sel [OF due]
  have apart: "alarm_tf (ptable (ktab (ticked cur k)) cur) + 76 \<le> f \<or> f + 76 \<le> alarm_tf (ptable (ktab (ticked cur k)) cur)"
    using due t(4) by (simp add: alarm_due_def Let_def)
  have user': "unat (frame32 f tf_esp (ticked cur k) - 4) + 4 \<le> KERNBASE"
    and store: "can_store (unat (frame32 f tf_esp (ticked cur k) - 4)) (save_frame f cur (ticked cur k))"
    using assms(4,5) unfolding t(5,6) a_def .
  note that' = that [of _ "ticked cur k", unfolded timer_intr_due [OF due], OF _ t(3), unfolded t(4), folded p_def, OF _ refl]
  have sel: "handler (p\<lparr>alarmpassed := alarmpassed p + 1\<rparr>) = handler p" "alarm_tf (p\<lparr>alarmpassed := alarmpassed p + 1\<rparr>) = alarm_tf p" by simp_all
  show thesis
    by (rule deliver_alarm_memory [OF apart user' store, unfolded t(1,2,4,5), folded p_def a_def, unfolded sel])
      (rule that' [unfolded timer_intr_due [OF due]])
qed

text \<open>C21: an alarm interrupts a process and comes back.  On a clock tick in user mode on which the alarm of the
  running process is due, and when the page of its stack is mapped for writing, the trap saves the process's frame, sets the
  process to run its handler with the return address \<open>0xFFFFFFFF\<close> pushed on the user stack and every other register as it
  was, and no further alarm can be taken.  When the handler returns, to \<open>0xFFFFFFFF\<close>, the page fault puts the
  saved frame back byte for byte, whatever happened in between as long as the saved frame was kept: the process continues
  where it was interrupted, and alarms are possible again.  When the stack is not mapped for writing, the trap never ends.\<close>

theorem alarm_round_trip:
  fixes k :: kern and f cur :: nat
  defines "p \<equiv> ptable (ktab k) cur" and "a \<equiv> unat (frame32 f tf_esp k - 4)"
  assumes due: "alarm_due f cur k" and timer: "frame32 f tf_trapno k = T_IRQ0 + IRQ_TIMER"
    and user: "a + 4 \<le> KERNBASE"
  shows "if \<not> can_store a (save_frame f cur k) then trap f cr2 cs k = Forever
   else \<exists>k'. trap f cr2 cs k = Ok k' \<and>
     frame32 f tf_eip k' = of_nat (handler p) \<and> frame32 f tf_esp k' = frame32 f tf_esp k - 4 \<and>
     (\<forall>i < 76. i < tf_eip \<or> tf_cs \<le> i \<and> i < tf_esp \<or> tf_ss \<le> i \<longrightarrow> kmem (kst k') (f + i) = kmem (kst k) (f + i)) \<and>
     umem k' = put32 a 0xFFFFFFFF (umem k) \<and>
     handling_alarm (ptable (ktab k') cur) \<and> alarmpassed (ptable (ktab k') cur) = 0 \<and>
     (\<forall>k2 f' cs'. running (ktab k2) = Some cur \<and> handling_alarm (ptable (ktab k2) cur) \<and>
        alarm_tf (ptable (ktab k2) cur) = alarm_tf p \<and>
        (\<forall>i < 76. kmem (kst k2) (alarm_tf p + i) = kmem (kst k') (alarm_tf p + i)) \<and>
        frame32 f' tf_trapno k2 = T_PGFLT \<longrightarrow>
        (\<exists>k3. trap f' 0xFFFFFFFF cs' k2 = Ok k3 \<and> (\<forall>i < 76. kmem (kst k3) (f' + i) = kmem (kst k) (f + i)) \<and>
           umem k3 = umem k2 \<and> ktab k3 = upd_proc cur (\<lambda>p. p\<lparr>handling_alarm := False\<rparr>) (ktab k2)))"
proof (cases "can_store a (save_frame f cur k)")
  case False
  then show ?thesis using timer timer_intr_faults [OF due, folded a_def] user by (simp add: trap_def Let_def)
next
  case True
  obtain k1 kd :: kern where d: "timer_intr f k = Ok kd" and k1: "running (ktab k1) = Some cur" "ptable (ktab k1) cur = p\<lparr>alarmpassed := alarmpassed p + 1\<rparr>"
    and mem: "\<forall>i < 76. kmem (kst kd) (alarm_tf p + i) = kmem (kst k) (f + i)"
    "frame32 f tf_eip kd = of_nat (handler p)" "frame32 f tf_esp kd = frame32 f tf_esp k - 4"
    "\<forall>i < 76. i < tf_eip \<or> tf_cs \<le> i \<and> i < tf_esp \<or> tf_ss \<le> i \<longrightarrow> kmem (kst kd) (f + i) = kmem (kst k) (f + i)"
    "umem kd = put32 a 0xFFFFFFFF (umem k)"
    and tab: "ktab kd = upd_proc cur (\<lambda>p. p\<lparr>alarmpassed := 0, handling_alarm := True\<rparr>) (ktab k1)"
    by (rule timer_intr_delivers [OF due user [unfolded a_def] True [unfolded a_def], folded p_def a_def]) (rule that, assumption+)
  have p: "pstate p = RUNNING" "\<not> killed p" using due by (auto simp: alarm_due_def Let_def p_def)
  have no: "frame32 f tf_trapno kd = T_IRQ0 + IRQ_TIMER"
    using timer mem(4) unfolding frame32_def by (subst get32_cong [of _ _ "kmem (kst k)"]) (auto simp: add.assoc dest!: le_Suc_ex)
  define k' where "k' = kd\<lparr>ktab := (upd_proc cur (\<lambda>p. p\<lparr>pstate := RUNNABLE\<rparr>) (ktab kd))\<lparr>running := None\<rparr>, kst := switchkvm (kst kd)\<rparr>"
  have "trap_tail f kd = Ok k'"
    unfolding k'_def by (rule trap_tail_timer) (use k1 p no in \<open>simp_all add: tab\<close>)
  then have tr: "trap f cr2 cs k = Ok k'" using timer d by (simp add: trap_def Let_def)
  have restore: "\<exists>k3. trap f' 0xFFFFFFFF cs' k2 = Ok k3 \<and> (\<forall>i < 76. kmem (kst k3) (f' + i) = kmem (kst k) (f + i)) \<and>
      umem k3 = umem k2 \<and> ktab k3 = upd_proc cur (\<lambda>p. p\<lparr>handling_alarm := False\<rparr>) (ktab k2)"
    if "running (ktab k2) = Some cur" "handling_alarm (ptable (ktab k2) cur)" "alarm_tf (ptable (ktab k2) cur) = alarm_tf p"
      "\<forall>i < 76. kmem (kst k2) (alarm_tf p + i) = kmem (kst k') (alarm_tf p + i)" "frame32 f' tf_trapno k2 = T_PGFLT" for k2 f' cs'
    using that mem(1) by (simp add: trap_def Let_def alarm_return_def myproc_def k'_def blit_def)
  have k': "frame32 f o' k' = frame32 f o' kd" "kmem (kst k') = kmem (kst kd)" "umem k' = umem kd"
    "handling_alarm (ptable (ktab k') cur)" "alarmpassed (ptable (ktab k') cur) = 0" for o'
    by (simp_all add: frame32_def k'_def tab)
  have "trap f cr2 cs k = Ok k'" by (rule tr)
  then show ?thesis using True mem restore k' by (simp add: exI [of _ k'])
qed

text \<open>A frame in kernel memory and a process whose alarm, every tick, is due.  Its page directory maps the page of the stack
  and, as every page directory does, a page of the kernel for writing.\<close>

definition alarm_demo :: kern where
  "alarm_demo =
     \<lparr>ktab = demo_table\<lparr>running := Some 0, ptable := (ptable demo_table)(0 := demo_proc\<lparr>pstate := RUNNING, pid := 1,
        handler := 0x1000, alarmtime := 1, alarm_tf := 0x80401000\<rparr>)\<rparr>,
      kst = demo_files\<lparr>mycpu := (mycpu demo_files)\<lparr>cr3 := 0x500000\<rparr>,
        kmem := put32 0x80500000 0x501007 (put32 0x80501008 0x600007 (put32 0x80500800 0x502003 (put32 0x80502800 0x200003
          (put32 (0x80400000 + tf_esp) 0x3000 (put16 (0x80400000 + tf_cs) 0x1B (put32 (0x80400000 + tf_trapno) 32 (\<lambda>_. 0)))))))\<rparr>,
      umem = (\<lambda>_. 0), ticks = 7, cpu = 0\<rparr>"

lemma alarm_demo_due:
  "alarm_due 0x80400000 0 alarm_demo" "frame32 0x80400000 tf_trapno alarm_demo = T_IRQ0 + IRQ_TIMER"
  "frame32 0x80400000 tf_esp alarm_demo = 0x3000" "handler (ptable (ktab alarm_demo) 0) = 0x1000"
  by (simp_all add: alarm_due_def alarm_demo_def Let_def from_user_def frame32_def mem_simps demo_proc_def)

lemma get32_blit_far: "d + n \<le> a \<or> a + 4 \<le> d \<Longrightarrow> get32 (blit m d m' e n) a = get32 m a"
  by (rule get32_cong) (auto simp: blit_def)

lemma alarm_demo_store: "can_store 0x2FFC (save_frame 0x80400000 0 alarm_demo)"
    "can_store 0x80200000 (save_frame 0x80400000 0 (put_frame 0x80400000 tf_esp 0x80200004 alarm_demo))"
  by (simp_all add: can_store_def writable_def translate_def present_def pde_at_def table_def Let_def save_frame_def copy_frame_def put_frame_def
      memmove_blit alarm_demo_def get32_blit_far mem_simps PDX_def PTX_def P2V_def u32_def PTE_ADDR_def)

theorem alarm_round_trip_witness:
  "\<exists>k'. trap 0x80400000 0 [] alarm_demo = Ok k' \<and> frame32 0x80400000 tf_eip k' = 0x1000 \<and>
     umem k' = put32 0x2FFC 0xFFFFFFFF (umem alarm_demo)"
proof -
  have esp: "unat (frame32 0x80400000 tf_esp alarm_demo - 4) = 0x2FFC" by (simp add: alarm_demo_due(3))
  have "unat (frame32 0x80400000 tf_esp alarm_demo - 4) + 4 \<le> KERNBASE" by (simp add: esp)
  from alarm_round_trip [OF alarm_demo_due(1,2) this, of 0 "[]"]
  obtain k' where "trap 0x80400000 0 [] alarm_demo = Ok k'"
    "frame32 0x80400000 tf_eip k' = of_nat (handler (ptable (ktab alarm_demo) 0))"
    "umem k' = put32 (unat (frame32 0x80400000 tf_esp alarm_demo - 4)) 0xFFFFFFFF (umem alarm_demo)"
    unfolding esp using alarm_demo_store(1) by auto
  then show ?thesis by (simp only: esp alarm_demo_due(4)) simp
qed



section \<open>Page faults\<close>

text \<open>A page fault that is not the return of an alarm handler is ignored.  Whatever address the
  process touched, \<open>trap\<close> returns with the kernel unchanged and the process neither killed nor moved
  past the instruction, which will fault again.\<close>

lemma page_fault_ignored:
  assumes "running (ktab k) = Some cur" and "\<not> killed (ptable (ktab k) cur)" and "frame32 f tf_trapno k = T_PGFLT"
    and "\<not> handling_alarm (ptable (ktab k) cur) \<or> cr2 \<noteq> 0xFFFFFFFF"
  shows "trap f cr2 cs k = Ok k"
  using assms by (auto simp: trap_def Let_def alarm_return_def myproc_def trap_tail_def exit_if_killed_def)

end
