(* ===== verification/Fs_Write.thy ===== *)
theory Fs_Write
  imports Fs_Data
begin

text \<open>
  What \<open>writei\<close> of \<^verbatim>\<open>src/alarm/fs.c\<close> does to a file: blocks are allocated through \<open>bmap\<close> where the file has none
  yet, the bytes land at their positions, and neither the rest of the file nor the blocks of other files change.
\<close>

section \<open>A file and its blocks\<close>

text \<open>
  Position \<open>q < MAXFILE\<close> of a file is its data block \<open>q\<close>, position \<open>MAXFILE\<close> its indirect block.  \<open>fbyte\<close> is the byte
  at a position of the file; a block that does not exist counts as zeros.
\<close>

definition addr :: "(nat \<Rightarrow> mem) \<Rightarrow> inode \<Rightarrow> nat \<Rightarrow> nat" where
  "addr V i q = (if q = MAXFILE then iaddrs i NDIRECT else blk V i q)"

definition fbyte :: "(nat \<Rightarrow> mem) \<Rightarrow> inode \<Rightarrow> nat \<Rightarrow> byte" where
  "fbyte V i p = (if blk V i (p div BSIZE) = 0 then 0 else content V i p)"

text \<open>\<open>L\<close> are the blocks that may be logged, \<open>B\<close> is the superblock.\<close>

definition bmok :: "(nat \<Rightarrow> bool) \<Rightarrow> superblock \<Rightarrow> (nat \<Rightarrow> mem) \<Rightarrow> bool" where
  "bmok L B V \<longleftrightarrow> (\<forall>b < sb_size B. L (BBLOCK b B) \<and>
     (\<not> used V B b \<longrightarrow> L b \<and> (\<forall>c < sb_size B. b \<noteq> BBLOCK c B))) \<and> used V B 0 \<and> sb_size B < 2 ^ 32"

definition good :: "(nat \<Rightarrow> bool) \<Rightarrow> superblock \<Rightarrow> (nat \<Rightarrow> mem) \<Rightarrow> nat \<Rightarrow> bool" where
  "good L B V b \<longleftrightarrow> b < sb_size B \<and> used V B b \<and> L b \<and> (\<forall>c < sb_size B. b \<noteq> BBLOCK c B)"

definition file_ok :: "(nat \<Rightarrow> bool) \<Rightarrow> superblock \<Rightarrow> (nat \<Rightarrow> mem) \<Rightarrow> inode \<Rightarrow> bool" where
  "file_ok L B V i \<longleftrightarrow> bmok L B V \<and>
     (\<forall>q \<le> MAXFILE. addr V i q \<noteq> 0 \<longrightarrow> good L B V (addr V i q)) \<and>
     (\<forall>q \<le> MAXFILE. \<forall>r \<le> MAXFILE. q \<noteq> r \<longrightarrow> addr V i q = addr V i r \<longrightarrow> addr V i q = 0)"

text \<open>A block of the data area in use by something else.\<close>

definition foreign :: "superblock \<Rightarrow> (nat \<Rightarrow> mem) \<Rightarrow> inode \<Rightarrow> nat \<Rightarrow> bool" where
  "foreign B V i c \<longleftrightarrow> c < sb_size B \<and> used V B c \<and> (\<forall>d < sb_size B. c \<noteq> BBLOCK d B) \<and> (\<forall>q \<le> MAXFILE. c \<noteq> addr V i q)"

definition free_blocks :: "superblock \<Rightarrow> (nat \<Rightarrow> mem) \<Rightarrow> nat set" where
  "free_blocks B V = {b. b < sb_size B \<and> \<not> used V B b}"

lemma finite_free [simp]: "finite (free_blocks B V)"
  by (simp add: free_blocks_def)

lemma fresh_block:
  assumes "bmok L B V" "b \<in> free_blocks B V"
  shows "b \<noteq> 0" "L b" "c < sb_size B \<Longrightarrow> b \<noteq> BBLOCK c B" "b < sb_size B" "\<not> used V B b" "b < 2 ^ 32"
  using assms by (auto simp: bmok_def free_blocks_def intro: less_trans)

lemma alloc_used:
  assumes "bmok L B V" "b \<in> free_blocks B V" "c < sb_size B"
  shows "used (alloc_view B b V) B c \<longleftrightarrow> c = b \<or> used V B c"
  using used_mark [of True B b V c] fresh_block(3) [OF assms]
  by (simp add: alloc_view_def used_def)

lemma alloc_same: "c \<noteq> b \<Longrightarrow> c \<noteq> BBLOCK b B \<Longrightarrow> alloc_view B b V c = V c"
  by (simp add: alloc_view_def mark_other)

lemma alloc_zero: "x < BSIZE \<Longrightarrow> alloc_view B b V b x = 0"
  by (simp add: alloc_view_def fill_def)

text \<open>A change of one block outside the bitmap leaves the bitmap as it is.\<close>

lemma used_upd: "c \<noteq> BBLOCK b B \<Longrightarrow> used (V(c := d)) B b = used V B b"
  by (simp add: used_def)

section \<open>A file that gets a block\<close>

text \<open>Position \<open>q\<close>, empty so far, gets the free block \<open>b\<close>.\<close>

definition extends :: "(nat \<Rightarrow> bool) \<Rightarrow> superblock \<Rightarrow> (nat \<Rightarrow> mem) \<Rightarrow> inode \<Rightarrow> nat \<Rightarrow> nat \<Rightarrow> (nat \<Rightarrow> mem) \<Rightarrow> inode \<Rightarrow> bool" where
  "extends L B V i q b V' i' \<longleftrightarrow> file_ok L B V i \<and> b \<in> free_blocks B V \<and> q \<le> MAXFILE \<and> addr V i q = 0 \<and>
     (\<forall>r \<le> MAXFILE. addr V' i' r = (if r = q then b else addr V i r)) \<and>
     (\<forall>c < sb_size B. used V' B c \<longleftrightarrow> c = b \<or> used V B c) \<and>
     (\<forall>c. c \<noteq> b \<longrightarrow> (\<forall>d < sb_size B. c \<noteq> BBLOCK d B) \<longrightarrow> c \<noteq> addr V i MAXFILE \<longrightarrow> V' c = V c) \<and>
     (q < MAXFILE \<longrightarrow> (\<forall>x < BSIZE. V' b x = 0))"

lemma extendsI:
  assumes "file_ok L B V i" "b \<in> free_blocks B V" "q \<le> MAXFILE" "addr V i q = 0"
    and "\<And>r. r \<le> MAXFILE \<Longrightarrow> addr V' i' r = (if r = q then b else addr V i r)"
    and "\<And>c. c < sb_size B \<Longrightarrow> used V' B c \<longleftrightarrow> c = b \<or> used V B c"
    and "\<And>c. c \<noteq> b \<Longrightarrow> \<forall>d < sb_size B. c \<noteq> BBLOCK d B \<Longrightarrow> c \<noteq> addr V i MAXFILE \<Longrightarrow> V' c = V c"
    and "\<And>x. x < BSIZE \<Longrightarrow> V' b x = 0"
  shows "extends L B V i q b V' i'"
  using assms unfolding extends_def by blast

lemma extendsD:
  assumes "extends L B V i q b V' i'"
  shows "file_ok L B V i" "b \<in> free_blocks B V" "q \<le> MAXFILE" "addr V i q = 0"
    "r \<le> MAXFILE \<Longrightarrow> addr V' i' r = (if r = q then b else addr V i r)"
    "c < sb_size B \<Longrightarrow> used V' B c \<longleftrightarrow> c = b \<or> used V B c"
    "c \<noteq> b \<Longrightarrow> \<forall>d < sb_size B. c \<noteq> BBLOCK d B \<Longrightarrow> c \<noteq> addr V i MAXFILE \<Longrightarrow> V' c = V c"
    "q < MAXFILE \<Longrightarrow> x < BSIZE \<Longrightarrow> V' b x = 0" "bmok L B V"
  using assms unfolding extends_def file_ok_def by simp_all

lemma fresh_not_addr:
  assumes "file_ok L B V i" "b \<in> free_blocks B V" "r \<le> MAXFILE"
  shows "addr V i r \<noteq> b"
  using assms fresh_block(1,5) [of L B V b] unfolding file_ok_def good_def by metis

lemma data_not_indirect:
  assumes "file_ok L B V i" "r < MAXFILE" "addr V i r \<noteq> 0"
  shows "addr V i r \<noteq> addr V i MAXFILE" "good L B V (addr V i r)"
proof -
  have r: "r \<le> MAXFILE" "r \<noteq> MAXFILE" using assms(2) by simp_all
  show "addr V i r \<noteq> addr V i MAXFILE" using assms(1,3) r order_refl unfolding file_ok_def by metis
  show "good L B V (addr V i r)" using assms(1,3) r(1) unfolding file_ok_def by metis
qed

lemma extends_ok:
  assumes "extends L B V i q b V' i'"
  shows "file_ok L B V' i'"
proof -
  note E = extendsD [OF assms]
  have sz: "0 < sb_size B" using fresh_block(4) [OF E(9,2)] by simp
  have bm': "bmok L B V'" using E(9) E(6) [OF sz] E(6) unfolding bmok_def by auto
  have "good L B V' c" if "good L B V c" for c using that E(6) by (simp add: good_def)
  moreover have "good L B V' b" using fresh_block [OF E(9,2)] E(6) by (auto simp: good_def)
  ultimately have "\<forall>r \<le> MAXFILE. addr V' i' r \<noteq> 0 \<longrightarrow> good L B V' (addr V' i' r)"
    using E(1,5) by (auto simp: file_ok_def)
  moreover have "addr V' i' r = 0" if "r \<le> MAXFILE" "t \<le> MAXFILE" "r \<noteq> t" "addr V' i' r = addr V' i' t" for r t
    using that E(5) fresh_not_addr [OF E(1,2)] E(1) unfolding file_ok_def by (metis (full_types))
  ultimately show ?thesis using bm' unfolding file_ok_def by blast
qed

lemma extends_bytes:
  assumes x: "extends L B V i q b V' i'" and p: "p < MAXFILE * BSIZE"
  shows "fbyte V' i' p = fbyte V i p"
proof -
  note E = extendsD [OF x]
  define r where "r = p div BSIZE"
  have r: "r < MAXFILE" using p unfolding r_def by (simp add: div_less_iff_less_mult)
  have blk: "blk V i r = addr V i r" "blk V' i' r = addr V' i' r" using r by (simp_all add: addr_def)
  show ?thesis
  proof (cases "r = q")
    case True
    then show ?thesis using r blk E(4) E(5) [of r] E(8) fresh_block(1) [OF E(9,2)]
      by (simp add: fbyte_def content_def r_def [symmetric])
  next
    case False
    then have a: "addr V' i' r = addr V i r" using E(5) r by simp
    show ?thesis
    proof (cases "addr V i r = 0")
      case False
      note g = data_not_indirect [OF E(1) r False]
      then have "V' (addr V i r) = V (addr V i r)" using fresh_not_addr [OF E(1,2)] r by (intro E(7)) (auto simp: good_def)
      then show ?thesis using a blk by (simp add: fbyte_def content_def r_def [symmetric])
    qed (use a blk in \<open>simp add: fbyte_def r_def [symmetric]\<close>)
  qed
qed

lemma extends_foreign:
  assumes x: "extends L B V i q b V' i'" and c: "foreign B V i c"
  shows "foreign B V' i' c \<and> V' c = V c"
proof -
  note E = extendsD [OF x]
  have "c \<noteq> b" using c fresh_block(5) [OF E(9,2)] by (auto simp: foreign_def)
  moreover have "V' c = V c" using c \<open>c \<noteq> b\<close> by (intro E(7)) (auto simp: foreign_def)
  ultimately show ?thesis using c E(5,6) by (auto simp: foreign_def)
qed

lemma extends_mono:
  assumes "extends L B V i q b V' i'" "r < MAXFILE" "blk V i r \<noteq> 0"
  shows "blk V' i' r \<noteq> 0"
  using extendsD(5) [OF assms(1), of r] assms(2,3) fresh_block(1) [OF extendsD(9,2) [OF assms(1)]]
  by (auto simp: addr_def split: if_splits)

lemma extends_free: "extends L B V i q b V' i' \<Longrightarrow> free_blocks B V' = free_blocks B V - {b}"
  by (auto simp: free_blocks_def dest: extendsD(6))

lemma get32_zero: "(\<And>x. a \<le> x \<Longrightarrow> x < a + 4 \<Longrightarrow> m x = 0) \<Longrightarrow> get32 m a = 0"
  by (simp add: get32_def)

lemma file_indirect:
  assumes "file_ok L B V i" "iaddrs i NDIRECT \<noteq> 0"
  shows "good L B V (iaddrs i NDIRECT)"
proof -
  have "addr V i MAXFILE = iaddrs i NDIRECT" by (simp add: addr_def)
  then show ?thesis using assms unfolding file_ok_def by (metis order_refl)
qed

lemma alloc_data:
  assumes "b \<in> free_blocks B V" "c \<noteq> b" "\<forall>d < sb_size B. c \<noteq> BBLOCK d B"
  shows "alloc_view B b V c = V c"
  by (rule alloc_same) (use assms in \<open>auto simp: free_blocks_def\<close>)

lemma alloc_slot:
  assumes ok: "file_ok L B V i" and b: "b \<in> free_blocks B V" and q: "q \<le> NDIRECT" "iaddrs i q = 0"
  shows "extends L B V i (if q = NDIRECT then MAXFILE else q) b (alloc_view B b V) (i\<lparr>iaddrs := (iaddrs i)(q := b)\<rparr>)"
proof -
  let ?V = "alloc_view B b V" and ?i = "i\<lparr>iaddrs := (iaddrs i)(q := b)\<rparr>" and ?q = "if q = NDIRECT then MAXFILE else q"
  have bm: "bmok L B V" using ok by (simp add: file_ok_def)
  have z: "get32 (?V b) (4 * j) = 0" if "j < NINDIRECT" for j by (rule get32_zero) (use that in \<open>simp add: alloc_zero\<close>)
  have ind: "?V (iaddrs i NDIRECT) = V (iaddrs i NDIRECT)" if "iaddrs i NDIRECT \<noteq> 0"
  proof (rule alloc_data [OF b])
    have g: "good L B V (iaddrs i NDIRECT)" by (rule file_indirect [OF ok that])
    show "iaddrs i NDIRECT \<noteq> b" using g fresh_block(5) [OF bm b] by (auto simp: good_def)
    show "\<forall>d < sb_size B. iaddrs i NDIRECT \<noteq> BBLOCK d B" using g by (simp add: good_def)
  qed
  have "addr ?V ?i r = (if r = ?q then b else addr V i r)" if "r \<le> MAXFILE" for r
  proof (cases "r < NDIRECT")
    case True
    then show ?thesis using q(1) by (simp add: addr_def blk_def)
  next
    case False
    then show ?thesis using that q z [of "r - NDIRECT"] ind by (auto simp: addr_def blk_def)
  qed
  moreover have "addr V i ?q = 0" "?q \<le> MAXFILE" using q by (auto simp: addr_def blk_def)
  ultimately show ?thesis
    by (intro extendsI [OF ok b]) (use alloc_used [OF bm b] alloc_data [OF b] alloc_zero in \<open>simp_all\<close>)
qed

lemma alloc_entry:
  assumes ok: "file_ok L B V i" and b: "b \<in> free_blocks B V" and ind: "ind = iaddrs i NDIRECT" "ind \<noteq> 0"
    and j: "j < NINDIRECT" "get32 (V ind) (4 * j) = 0"
  shows "extends L B V i (NDIRECT + j) b ((alloc_view B b V)(ind := put32 (4 * j) (of_nat b) (V ind))) i"
proof -
  let ?V = "(alloc_view B b V)(ind := put32 (4 * j) (of_nat b) (V ind))"
  have bm: "bmok L B V" using ok by (simp add: file_ok_def)
  have g: "good L B V ind" unfolding ind(1) by (rule file_indirect [OF ok]) (use ind in simp)
  have nb: "ind \<noteq> b" using g fresh_block(5) [OF bm b] by (auto simp: good_def)
  have bn: "unat (of_nat b :: word32) = b" using fresh_block(6) [OF bm b] by (simp add: unat_of_nat)
  have u: "used ?V B c \<longleftrightarrow> c = b \<or> used V B c" if "c < sb_size B" for c
    using alloc_used [OF bm b that] that g by (simp add: used_upd good_def)
  have "addr ?V i r = (if r = NDIRECT + j then b else addr V i r)" if le: "r \<le> MAXFILE" for r
  proof (cases "NDIRECT \<le> r \<and> r < MAXFILE")
    case True
    show ?thesis
    proof (cases "r = NDIRECT + j")
      case False
      then have "4 * (r - NDIRECT) + 4 \<le> 4 * j \<or> 4 * j + 4 \<le> 4 * (r - NDIRECT)" using True by auto
      then show ?thesis using True False ind j(1) by (auto simp: addr_def blk_def get32_put32_other)
    qed (use True ind j(1) bn in \<open>simp add: addr_def blk_def\<close>)
  next
    case False
    then consider "r < NDIRECT" | "r = MAXFILE" using le by linarith
    then show ?thesis using j(1) by cases (simp_all add: addr_def blk_def)
  qed
  moreover have "addr V i (NDIRECT + j) = 0" "addr V i MAXFILE = ind" using ind j by (auto simp: addr_def blk_def)
  ultimately show ?thesis
    by (intro extendsI [OF ok b]) (use j(1) u alloc_data [OF b] alloc_zero nb in \<open>simp_all\<close>)
qed

section \<open>A block of the file that is written\<close>

lemma write_data:
  fixes V :: "nat \<Rightarrow> mem" and i :: inode and q :: nat and d :: mem
  assumes ok: "file_ok L B V i" and q: "q < MAXFILE" "blk V i q \<noteq> 0"
  defines "V' \<equiv> V(blk V i q := d)"
  shows "file_ok L B V' i" "p < MAXFILE * BSIZE \<Longrightarrow> fbyte V' i p = (if p div BSIZE = q then d (p mod BSIZE) else fbyte V i p)"
    "free_blocks B V' = free_blocks B V" "foreign B V i c \<Longrightarrow> foreign B V' i c \<and> V' c = V c" "r < MAXFILE \<Longrightarrow> blk V' i r = blk V i r"
proof -
  let ?a = "blk V i q"
  have a: "?a = addr V i q" using q(1) by (simp add: addr_def)
  have g: "good L B V ?a" "?a \<noteq> addr V i MAXFILE" using data_not_indirect [OF ok q(1)] q(2) unfolding a by auto
  have u: "used V' B c = used V B c" if "c < sb_size B" for c
    unfolding V'_def using g(1) that by (intro used_upd) (simp add: good_def)
  have A: "addr V' i r = addr V i r" for r using g(2) by (auto simp: addr_def blk_def V'_def)
  have blk: "blk V' i r = blk V i r" if "r < MAXFILE" for r using A [of r] that by (simp add: addr_def)
  then show "r < MAXFILE \<Longrightarrow> blk V' i r = blk V i r" .
  have "used V' B 0 = used V B 0" using g(1) by (intro u) (simp add: good_def)
  then have "bmok L B V'" using ok u unfolding file_ok_def bmok_def by auto
  moreover have "good L B V' c = good L B V c" for c using u by (auto simp: good_def)
  ultimately show "file_ok L B V' i" using ok unfolding file_ok_def A by simp
  show "free_blocks B V' = free_blocks B V" using u by (auto simp: free_blocks_def)
  show "foreign B V i c \<Longrightarrow> foreign B V' i c \<and> V' c = V c"
    using u A a q(1) unfolding foreign_def by (auto simp: V'_def)
  assume p: "p < MAXFILE * BSIZE"
  let ?r = "p div BSIZE"
  have r: "?r < MAXFILE" using p by (simp add: div_less_iff_less_mult)
  have br: "blk V' i ?r = blk V i ?r" "blk V i ?r = addr V i ?r" using A [of ?r] r by (auto simp: addr_def)
  have "?r \<noteq> q \<Longrightarrow> blk V i ?r \<noteq> 0 \<Longrightarrow> blk V i ?r \<noteq> ?a"
    using ok r q(1) unfolding br(2) a file_ok_def by (metis less_imp_le)
  then show "fbyte V' i p = (if ?r = q then d (p mod BSIZE) else fbyte V i p)"
    using q br(1) blk by (auto simp: fbyte_def content_def V'_def)
qed

section \<open>bmap\<close>

definition fstate :: "nat \<Rightarrow> nat \<Rightarrow> 'a fs_state_scheme \<Rightarrow> bool" where
  "fstate ip k s \<longleftrightarrow> tx_ok s k {} \<and> file_ok (loggable s) (sb s) (view s) (inodes s ip) \<and> idev (inodes s ip) = 1"

abbreviation nfree :: "'a fs_state_scheme \<Rightarrow> nat" where
  "nfree s \<equiv> card (free_blocks (sb s) (view s))"

text \<open>What stays: other inodes, the other fields of this one, the blocks it has, and the blocks of other files.\<close>

definition fsame :: "nat \<Rightarrow> 'a fs_state_scheme \<Rightarrow> 'a fs_state_scheme \<Rightarrow> bool" where
  "fsame ip s s' \<longleftrightarrow> sb s' = sb s \<and> loggable s' = loggable s \<and> disksize s' = disksize s \<and> (\<forall>j. j \<noteq> ip \<longrightarrow> inodes s' j = inodes s j) \<and>
     (\<exists>f. inodes s' ip = (inodes s ip)\<lparr>iaddrs := f\<rparr>) \<and>
     (\<forall>q < MAXFILE. blk (view s) (inodes s ip) q \<noteq> 0 \<longrightarrow> blk (view s') (inodes s' ip) q \<noteq> 0) \<and>
     (\<forall>c. foreign (sb s) (view s) (inodes s ip) c \<longrightarrow> foreign (sb s) (view s') (inodes s' ip) c \<and> view s' c = view s c)"

lemma fsame_refl [simp]: "fsame ip s s"
proof -
  have "inodes s ip = (inodes s ip)\<lparr>iaddrs := iaddrs (inodes s ip)\<rparr>" by simp
  then show ?thesis unfolding fsame_def by blast
qed

lemma fsame_trans: "fsame ip s s' \<Longrightarrow> fsame ip s' s'' \<Longrightarrow> fsame ip s s''"
  unfolding fsame_def by auto

lemma frame_eqs:
  assumes "tx_frame s s'"
  shows "inodes s' = inodes s" "sb s' = sb s" "loggable s' = loggable s" "disksize s' = disksize s"
  using tx_frame_fs [OF assms] loggable_frame [OF assms] tx_frame_sel(3) [OF assms] by (auto simp: fun_eq_iff)

lemma fsame_frame:
  assumes "tx_frame s s'" "\<And>q. q < MAXFILE \<Longrightarrow> blk (view s) (inodes s ip) q \<noteq> 0 \<Longrightarrow> blk (view s') (inodes s ip) q \<noteq> 0"
    "\<And>c. foreign (sb s) (view s) (inodes s ip) c \<Longrightarrow> foreign (sb s) (view s') (inodes s ip) c \<and> view s' c = view s c"
  shows "fsame ip s s'"
proof -
  have "\<exists>f. inodes s ip = (inodes s ip)\<lparr>iaddrs := f\<rparr>" by (rule exI [of _ "iaddrs (inodes s ip)"]) simp
  then show ?thesis using assms(2,3) by (simp add: fsame_def frame_eqs [OF assms(1)])
qed

lemma fsame_extends:
  assumes "tx_frame s s1" "inodes s' = (inodes s)(ip := (inodes s ip)\<lparr>iaddrs := f\<rparr>)" "sb s' = sb s1" "loggable s' = loggable s1"
    "disksize s' = disksize s1" "extends (loggable s) (sb s) (view s) (inodes s ip) q b (view s') (inodes s' ip)"
  shows "fsame ip s s'"
  using assms(2-) extends_foreign [OF assms(6)] extends_mono [OF assms(6)] unfolding fsame_def by (auto simp: frame_eqs [OF assms(1)])

lemma fstate_alloc:
  assumes ok: "tx_ok s k H" and fl: "file_ok (loggable s) (sb s) (view s) i" and free: "1 \<le> nfree s"
    and room: "k + 2 \<le> 29" "k + 1 + card H < NBUF" and H: "\<And>h. h \<in> H \<Longrightarrow> good (loggable s) (sb s) (view s) h"
  obtains b s' k' where "balloc 1 s = Ok (b, s')" "b \<in> free_blocks (sb s) (view s)" "k \<le> k'" "k' \<le> k + 2" "tx_ok s' k' H" "tx_frame s s'"
    "\<And>m j. m \<in> H \<Longrightarrow> holds s m j \<Longrightarrow> holds s' m j" "view s' = alloc_view (sb s) b (view s)"
proof -
  have "bitmap_ok s" using fl by (simp add: file_ok_def bmok_def bitmap_ok_def)
  then have ca: "can_alloc s k H" using ok room H by (auto simp: can_alloc_def good_def)
  have "free_blocks (sb s) (view s) \<noteq> {}" using free by auto
  then have "first_free s \<noteq> None" by (auto simp: first_free_def find_None_iff free_blocks_def)
  then obtain b where b: "first_free s = Some b" by blast
  then have "b \<in> free_blocks (sb s) (view s)" using find_someD [OF b [unfolded first_free_def]] by (auto simp: free_blocks_def)
  with balloc_ok [OF ca b] show ?thesis using that by blast
qed

text \<open>A direct block, or the indirect block, that does not exist yet.\<close>

lemma slot_ok:
  assumes st: "fstate ip k s" and q: "q \<le> NDIRECT" "iaddrs (inodes s ip) q = 0" and free: "1 \<le> nfree s" and room: "k + 2 \<le> 29"
  obtains b s' k' where "bindE (balloc 1 s) (\<lambda>(addr, s). Ok (addr, upd_inode ip (\<lambda>x. x\<lparr>iaddrs := (iaddrs x)(q := addr)\<rparr>) s)) = Ok (b, s')"
    "b \<noteq> 0" "iaddrs (inodes s' ip) q = b" "k' \<le> k + 2" "fstate ip k' s'" "fsame ip s s'" "nfree s \<le> nfree s' + 1"
    "\<forall>p < MAXFILE * BSIZE. fbyte (view s') (inodes s' ip) p = fbyte (view s) (inodes s ip) p"
proof -
  have S: "tx_ok s k {}" "file_ok (loggable s) (sb s) (view s) (inodes s ip)" "idev (inodes s ip) = 1"
    using st by (auto simp: fstate_def)
  obtain b s1 k' where A: "balloc 1 s = Ok (b, s1)" "b \<in> free_blocks (sb s) (view s)" "k' \<le> k + 2" "tx_ok s1 k' {}" "tx_frame s s1"
    "view s1 = alloc_view (sb s) b (view s)"
    by (rule fstate_alloc [OF S(1,2) free room]) (use room in auto)
  define s' where "s' = upd_inode ip (\<lambda>x. x\<lparr>iaddrs := (iaddrs x)(q := b)\<rparr>) s1"
  note i1 = frame_eqs [OF A(5)]
  have s': "view s' = alloc_view (sb s) b (view s)" "inodes s' ip = (inodes s ip)\<lparr>iaddrs := (iaddrs (inodes s ip))(q := b)\<rparr>"
    "sb s' = sb s" "loggable s' = loggable s" "tx_ok s' k' {}"
    using A(4,6) i1 by (auto simp: s'_def fun_eq_iff)
  have x: "extends (loggable s) (sb s) (view s) (inodes s ip) (if q = NDIRECT then MAXFILE else q) b (view s') (inodes s' ip)"
    unfolding s' by (rule alloc_slot [OF S(2) A(2) q])
  have "fsame ip s s'" by (rule fsame_extends [OF A(5) _ _ _ _ x]) (auto simp: s'_def i1 fun_eq_iff)
  moreover have "fstate ip k' s'" using extends_ok [OF x] S(3) s' by (simp add: fstate_def)
  moreover have "nfree s \<le> nfree s' + 1" using extends_free [OF x] A(2) unfolding s'(3) by (simp add: card_Diff_singleton_if)
  moreover have "b \<noteq> 0" using fresh_block(1) [OF _ A(2)] S(2) by (auto simp: file_ok_def)
  ultimately show ?thesis using that [of b s' k'] A(1,3) extends_bytes [OF x] s'(2) by (simp add: s'_def)
qed

text \<open>The entry of a data block in the indirect block.\<close>

definition entry_step :: "nat \<Rightarrow> nat \<Rightarrow> 'a fs_state_scheme \<Rightarrow> (nat \<times> 'a fs_state_scheme) outcome" where
  "entry_step ind j s = bindE (bread 1 ind s) (\<lambda>(bp, s).
        bindE (if get32 (bdata (bufs s bp)) (4 * j) = 0 then
                 bindE (balloc 1 s) (\<lambda>(addr, s).
                 bindE (log_modify bp (put32 (4 * j) (of_nat addr) (bdata (bufs s bp))) s) (\<lambda>s. Ok (addr, s)))
               else Ok (unat (get32 (bdata (bufs s bp)) (4 * j)), s)) (\<lambda>(addr, s).
        bindE (brelse bp s) (\<lambda>s. Ok (addr, s))))"

lemma entry_old:
  assumes st: "fstate ip k s" and ind: "iaddrs (inodes s ip) NDIRECT = ind" "ind \<noteq> 0" and j: "get32 (view s ind) (4 * j) \<noteq> 0"
    and room: "k + 3 \<le> 29"
  obtains s' where "entry_step ind j s = Ok (unat (get32 (view s ind) (4 * j)), s')" "fstate ip k s'" "view s' = view s" "tx_frame s s'"
proof -
  have S: "tx_ok s k {}" "file_ok (loggable s) (sb s) (view s) (inodes s ip)" using st by (auto simp: fstate_def)
  have od: "on_disk s ind" using tx.loggable_disk file_indirect [OF S(2)] ind by (auto simp: good_def)
  from tx.look [OF S(1) od] room obtain bp s1 s2 where
    1: "bread 1 ind s = Ok (bp, s1)" "bdata (bufs s1 bp) = view s ind" "brelse bp s1 = Ok s2" "tx_ok s2 k {}" "view s2 = view s"
    "tx_frame s s2" by auto
  have "fstate ip k s2" using st 1(4,5) by (simp add: fstate_def frame_eqs [OF 1(6)])
  then show ?thesis using that [of s2] 1 j by (simp add: entry_step_def)
qed

lemma entry_new:
  assumes st: "fstate ip k s" and ind: "iaddrs (inodes s ip) NDIRECT = ind" "ind \<noteq> 0"
    and j: "j < NINDIRECT" "get32 (view s ind) (4 * j) = 0" and free: "1 \<le> nfree s" and room: "k + 3 \<le> 29"
  obtains b s' k' where "entry_step ind j s = Ok (b, s')" "k' \<le> k + 3" "tx_ok s' k' {}" "tx_frame s s'"
    "extends (loggable s) (sb s) (view s) (inodes s ip) (NDIRECT + j) b (view s') (inodes s ip)"
proof -
  let ?V = "view s" and ?i = "inodes s ip"
  have S: "tx_ok s k {}" "file_ok (loggable s) (sb s) ?V ?i" using st by (auto simp: fstate_def)
  have g: "good (loggable s) (sb s) ?V ind" using file_indirect [OF S(2)] ind by simp
  have od: "on_disk s ind" using tx.loggable_disk g by (auto simp: good_def)
  from tx.rd_law [OF S(1) od] room obtain bp s1 where
    1: "bread 1 ind s = Ok (bp, s1)" "tx_ok s1 k {ind}" "holds s1 ind bp" "view s1 = ?V" "tx_frame s s1" by auto
  have d1: "bdata (bufs s1 bp) = ?V ind" using tx.hold_law [OF 1(2,3)] 1(4) by simp
  note f1 = frame_eqs [OF 1(5)]
  have file1: "file_ok (loggable s1) (sb s1) (view s1) ?i" using S(2) f1 1(4) by simp
  obtain b s2 k2 where 2: "balloc 1 s1 = Ok (b, s2)" "b \<in> free_blocks (sb s) ?V" "k2 \<le> k + 2" "tx_ok s2 k2 {ind}" "tx_frame s1 s2"
    "holds s2 ind bp" "view s2 = alloc_view (sb s) b ?V"
    by (rule fstate_alloc [OF 1(2) file1]) (use free room g 1(3) f1 1(4) in auto)
  have nb: "ind \<noteq> b" using fresh_not_addr [OF S(2) 2(2), of MAXFILE] ind by (simp add: addr_def)
  have "view s2 ind = ?V ind" unfolding 2(7) by (rule alloc_data [OF 2(2) nb]) (use g in \<open>simp add: good_def\<close>)
  then have d2: "bdata (bufs s2 bp) = ?V ind" using tx.hold_law [OF 2(4,6)] by simp
  note fr = tx_frame_trans [OF 1(5) 2(5)]
  have lg: "loggable s2 ind" using g by (simp add: good_def frame_eqs [OF fr])
  let ?d = "put32 (4 * j) (of_nat b) (?V ind)"
  from tx.change_release [OF 2(4,6) _ lg, of ?d] room 2(3) obtain s3 s4 k' where 3: "log_modify bp ?d s2 = Ok s3" "brelse bp s3 = Ok s4"
    "k' \<le> Suc k2" "tx_ok s4 k' {}" "view s4 = (view s2)(ind := ?d)" "tx_frame s2 s4" by auto
  have "entry_step ind j s = Ok (b, s4)" unfolding entry_step_def using 1(1) 2(1) 3(1,2) d1 d2 j(2) by simp
  moreover have "extends (loggable s) (sb s) ?V ?i (NDIRECT + j) b (view s4) ?i"
    unfolding 3(5) 2(7) by (rule alloc_entry [OF S(2) 2(2)]) (use ind j in auto)
  ultimately show ?thesis using that [of b s4 k'] 2(3) 3(3,4) tx_frame_trans [OF fr 3(6)] by simp
qed

text \<open>What \<open>bmap\<close> achieves: block \<open>bn\<close> exists afterwards, and the file has the same bytes.\<close>

definition mapped_to :: "nat \<Rightarrow> nat \<Rightarrow> nat \<Rightarrow> nat \<Rightarrow> nat \<Rightarrow> 'a fs_state_scheme \<Rightarrow> (nat \<times> 'a fs_state_scheme) outcome \<Rightarrow> bool" where
  "mapped_to ip bn k dk dn s r \<longleftrightarrow> (\<exists>b s' k'. r = Ok (b, s') \<and> b \<noteq> 0 \<and> blk (view s') (inodes s' ip) bn = b \<and> k' \<le> k + dk \<and>
     fstate ip k' s' \<and> fsame ip s s' \<and> nfree s \<le> nfree s' + dn \<and>
     (\<forall>p < MAXFILE * BSIZE. fbyte (view s') (inodes s' ip) p = fbyte (view s) (inodes s ip) p))"

lemma mapped_toI:
  "r = Ok (b, s') \<Longrightarrow> b \<noteq> 0 \<Longrightarrow> blk (view s') (inodes s' ip) bn = b \<Longrightarrow> k' \<le> k + dk \<Longrightarrow> fstate ip k' s' \<Longrightarrow> fsame ip s s' \<Longrightarrow>
   nfree s \<le> nfree s' + dn \<Longrightarrow> (\<And>p. p < MAXFILE * BSIZE \<Longrightarrow> fbyte (view s') (inodes s' ip) p = fbyte (view s) (inodes s ip) p) \<Longrightarrow>
   mapped_to ip bn k dk dn s r"
  unfolding mapped_to_def by blast

lemma entry_ok:
  assumes st: "fstate ip k s" and ind: "iaddrs (inodes s ip) NDIRECT = ind" "ind \<noteq> 0" and j: "j < NINDIRECT"
    and free: "1 \<le> nfree s" and room: "k + 3 \<le> 29"
  shows "mapped_to ip (NDIRECT + j) k 3 1 s (entry_step ind j s)"
proof (cases "get32 (view s ind) (4 * j) = 0")
  case False
  from entry_old [OF st ind False room] obtain s' where s': "entry_step ind j s = Ok (unat (get32 (view s ind) (4 * j)), s')"
    "fstate ip k s'" "view s' = view s" "tx_frame s s'" .
  have "fsame ip s s'" by (rule fsame_frame [OF s'(4)]) (simp_all add: s'(3))
  moreover have "unat (get32 (view s ind) (4 * j)) \<noteq> 0" using False by (simp only: unsigned_eq_0_iff not_False_eq_True)
  ultimately show ?thesis using ind j by (intro mapped_toI [OF s'(1) _ _ _ s'(2)]) (simp_all add: blk_def s'(3) frame_eqs [OF s'(4)])
next
  case True
  from entry_new [OF st ind j True free room] obtain b s' k' where s': "entry_step ind j s = Ok (b, s')" "k' \<le> k + 3"
    "tx_ok s' k' {}" "tx_frame s s'" and x: "extends (loggable s) (sb s) (view s) (inodes s ip) (NDIRECT + j) b (view s') (inodes s ip)" .
  note E = extendsD [OF x] and e = frame_eqs [OF s'(4)]
  have "fsame ip s s'" by (rule fsame_frame [OF s'(4)]) (use extends_mono [OF x] extends_foreign [OF x] in blast)+
  moreover have "blk (view s') (inodes s ip) (NDIRECT + j) = b" using E(5) [of "NDIRECT + j"] j by (simp add: addr_def)
  moreover have "nfree s \<le> nfree s' + 1" using extends_free [OF x] E(2) unfolding e by (simp add: card_Diff_singleton_if)
  moreover have "fstate ip k' s'" using extends_ok [OF x] st s'(3) by (simp add: fstate_def e)
  ultimately show ?thesis using s'(2) fresh_block(1) [OF E(9,2)] extends_bytes [OF x]
    by (intro mapped_toI [OF s'(1)]) (simp_all add: e)
qed

lemma mapped_to_trans:
  assumes s1: "k1 \<le> k + 2" "fsame ip s s1" "nfree s \<le> nfree s1 + 1"
    "\<And>p. p < MAXFILE * BSIZE \<Longrightarrow> fbyte (view s1) (inodes s1 ip) p = fbyte (view s) (inodes s ip) p"
    and r: "mapped_to ip bn k1 3 1 s1 r"
  shows "mapped_to ip bn k 5 2 s r"
proof -
  from r obtain b s' k' where r': "r = Ok (b, s')" "b \<noteq> 0" "blk (view s') (inodes s' ip) bn = b" "k' \<le> k1 + 3" "fstate ip k' s'"
    "fsame ip s1 s'" "nfree s1 \<le> nfree s' + 1" "\<forall>p < MAXFILE * BSIZE. fbyte (view s') (inodes s' ip) p = fbyte (view s1) (inodes s1 ip) p"
    unfolding mapped_to_def by blast
  have "k' \<le> k + 5" "nfree s \<le> nfree s' + 2" using s1(1,3) r'(4,7) by linarith+
  then show ?thesis using r'(8) s1(4) by (intro mapped_toI [OF r'(1,2,3) _ r'(5) fsame_trans [OF s1(2) r'(6)]]) simp_all
qed

lemma bmap_indirect:
  "NDIRECT \<le> bn \<Longrightarrow> bn < MAXFILE \<Longrightarrow> idev (inodes s ip) = 1 \<Longrightarrow> bmap ip bn s =
     bindE (if iaddrs (inodes s ip) NDIRECT = 0 then
              bindE (balloc 1 s) (\<lambda>(addr, s). Ok (addr, upd_inode ip (\<lambda>x. x\<lparr>iaddrs := (iaddrs x)(NDIRECT := addr)\<rparr>) s))
            else Ok (iaddrs (inodes s ip) NDIRECT, s)) (\<lambda>(addr, s). entry_step addr (bn - NDIRECT) s)"
proof -
  assume "NDIRECT \<le> bn" "bn < MAXFILE" and dv: "idev (inodes s ip) = 1"
  then have "\<not> bn < NDIRECT" "bn - NDIRECT < NINDIRECT" by linarith+
  then show ?thesis by (simp only: bmap_def Let_def entry_step_def dv if_True if_False)
qed

lemma bmap_ok:
  assumes st: "fstate ip k s" and bn: "bn < MAXFILE" and free: "2 \<le> nfree s" and room: "k + 5 \<le> 29"
  shows "mapped_to ip bn k 5 2 s (bmap ip bn s)"
proof -
  have dv: "idev (inodes s ip) = 1" using st by (simp add: fstate_def)
  have k2: "k + 2 \<le> 29" and f1: "1 \<le> nfree s" using room free by simp_all
  show ?thesis
  proof (cases "bn < NDIRECT")
    case True
    show ?thesis
    proof (cases "iaddrs (inodes s ip) bn = 0")
      case False
      then show ?thesis using True
        by (intro mapped_toI [of _ "iaddrs (inodes s ip) bn" s, OF _ _ _ _ st]) (simp_all add: bmap_def blk_def)
    next
      case z: True
      have q: "bn \<le> NDIRECT" using True by simp
      from slot_ok [OF st q z f1 k2] obtain b s' k' where
        s': "bindE (balloc 1 s) (\<lambda>(addr, s). Ok (addr, upd_inode ip (\<lambda>x. x\<lparr>iaddrs := (iaddrs x)(bn := addr)\<rparr>) s)) = Ok (b, s')"
        "b \<noteq> 0" "iaddrs (inodes s' ip) bn = b" "k' \<le> k + 2" "fstate ip k' s'" "fsame ip s s'" "nfree s \<le> nfree s' + 1"
        "\<forall>p < MAXFILE * BSIZE. fbyte (view s') (inodes s' ip) p = fbyte (view s) (inodes s ip) p" .
      have "bmap ip bn s = Ok (b, s')" using True z dv s'(1) by (simp add: bmap_def)
      then show ?thesis using s'(2,3,4,7,8) True by (intro mapped_toI [OF _ _ _ _ s'(5,6)]) (simp_all add: blk_def)
    qed
  next
    case False
    then have B: "NDIRECT \<le> bn" "bn - NDIRECT < NINDIRECT" "NDIRECT + (bn - NDIRECT) = bn" using bn by simp_all
    note ind = bmap_indirect [OF B(1) bn dv]
    show ?thesis
    proof (cases "iaddrs (inodes s ip) NDIRECT = 0")
      case False
      have k3: "k + 3 \<le> 29" using room by simp
      have "mapped_to ip bn k 3 1 s (bmap ip bn s)" using entry_ok [OF st refl False B(2) f1 k3] B(3) False ind by simp
      then show ?thesis by (rule mapped_to_trans [of k k ip s s, rotated -1]) simp_all
    next
      case True
      from slot_ok [OF st order_refl True f1 k2] obtain b s1 k1 where
        s1: "bindE (balloc 1 s) (\<lambda>(addr, s). Ok (addr, upd_inode ip (\<lambda>x. x\<lparr>iaddrs := (iaddrs x)(NDIRECT := addr)\<rparr>) s)) = Ok (b, s1)"
        "b \<noteq> 0" "iaddrs (inodes s1 ip) NDIRECT = b" "k1 \<le> k + 2" "fstate ip k1 s1" "fsame ip s s1" "nfree s \<le> nfree s1 + 1"
        "\<forall>p < MAXFILE * BSIZE. fbyte (view s1) (inodes s1 ip) p = fbyte (view s) (inodes s ip) p" .
      have "bmap ip bn s = entry_step b (bn - NDIRECT) s1" unfolding ind using True s1(1) by simp
      moreover have "mapped_to ip bn k1 3 1 s1 (entry_step b (bn - NDIRECT) s1)"
        using entry_ok [OF s1(5,3,2) B(2)] B(3) s1(4,7) free room by simp
      ultimately show ?thesis using s1(8) by (intro mapped_to_trans [OF s1(4,6,7)]) simp_all
    qed
  qed
qed

section \<open>writei\<close>

text \<open>The number of blocks that \<open>n\<close> bytes at \<open>off\<close> touch.\<close>

definition span_blocks :: "nat \<Rightarrow> nat \<Rightarrow> nat" where
  "span_blocks off n = (if n = 0 then 0 else (off + n - 1) div BSIZE + 1 - off div BSIZE)"

lemma block_end: "off + (BSIZE - off mod BSIZE) = (off div BSIZE + 1) * BSIZE"
proof -
  have "off mod BSIZE + (BSIZE - off mod BSIZE) = BSIZE" by simp
  then have "off + (BSIZE - off mod BSIZE) = off div BSIZE * BSIZE + BSIZE"
    using div_mult_mod_eq [of off BSIZE] by (metis add.assoc)
  then show ?thesis by simp
qed

lemma span_next:
  assumes "q \<noteq> off div BSIZE" "off div BSIZE \<le> q" "q * BSIZE < off + n" "m = min n (BSIZE - off mod BSIZE)"
  shows "m < n \<and> (off + m) div BSIZE \<le> q"
proof -
  have le: "off div BSIZE + 1 \<le> q" using assms(1,2) by simp
  then have "(off div BSIZE + 1) * BSIZE \<le> q * BSIZE" by (rule mult_le_mono1)
  then have "BSIZE - off mod BSIZE < n" using assms(3) block_end [of off] by linarith
  then have "m < n" "off + m = (off div BSIZE + 1) * BSIZE" using assms(4) block_end [of off] by simp_all
  then show ?thesis using le by simp
qed

lemma span_step:
  assumes "0 < n" "m = min n (BSIZE - off mod BSIZE)"
  shows "span_blocks (off + m) (n - m) + 1 \<le> span_blocks off n"
proof (cases "n \<le> BSIZE - off mod BSIZE")
  case True
  have "off div BSIZE \<le> (off + n - 1) div BSIZE" using assms(1) by (intro div_le_mono) simp
  then show ?thesis using True assms by (simp add: span_blocks_def)
next
  case False
  then have m: "m = BSIZE - off mod BSIZE" "m < n" using assms by auto
  have "off + m = (off div BSIZE + 1) * BSIZE" unfolding m(1) by (rule block_end)
  then have d: "(off + m) div BSIZE = off div BSIZE + 1" by simp
  have "(off + m) div BSIZE \<le> (off + n - 1) div BSIZE" using m(2) by (intro div_le_mono) simp
  then have "off div BSIZE < (off + n - 1) div BSIZE" using d by simp
  then show ?thesis using m(2) d by (simp add: span_blocks_def Suc_diff_le)
qed

lemma write_block:
  assumes st: "fstate ip k s" and bn: "bn < MAXFILE" "blk (view s) (inodes s ip) bn \<noteq> 0" and k: "k < 29"
  defines "a \<equiv> blk (view s) (inodes s ip) bn"
  obtains bp s1 s2 s' k' where "bread 1 a s = Ok (bp, s1)" "bdata (bufs s1 bp) = view s a" "log_modify bp (f (view s a)) s1 = Ok s2"
    "brelse bp s2 = Ok s'" "k' \<le> k + 1" "fstate ip k' s'" "fsame ip s s'" "nfree s' = nfree s" "blk (view s') (inodes s' ip) bn = a"
    "\<forall>p < MAXFILE * BSIZE. fbyte (view s') (inodes s' ip) p =
       (if p div BSIZE = bn then f (view s a) (p mod BSIZE) else fbyte (view s) (inodes s ip) p)"
proof -
  have S: "tx_ok s k {}" "file_ok (loggable s) (sb s) (view s) (inodes s ip)" "idev (inodes s ip) = 1"
    using st by (auto simp: fstate_def)
  have "good (loggable s) (sb s) (view s) a"
    using data_not_indirect(2) [OF S(2) bn(1)] bn unfolding a_def by (simp add: addr_def)
  then have lg: "loggable s a" by (simp add: good_def)
  from tx.update [OF S(1) lg, of f] k obtain bp s1 s2 s' k' where
    1: "bread 1 a s = Ok (bp, s1)" "bdata (bufs s1 bp) = view s a" "log_modify bp (f (view s a)) s1 = Ok s2" "brelse bp s2 = Ok s'"
    "k' \<le> Suc k" "tx_ok s' k' {}" "view s' = (view s)(a := f (view s a))" "tx_frame s s'" by auto
  note W = write_data [OF S(2) bn, where d = "f (view s a)", folded a_def, folded 1(7)] and e = frame_eqs [OF 1(8)]
  have "fsame ip s s'" by (rule fsame_frame [OF 1(8)]) (use W(5) in simp, use W(4) in blast)
  moreover have "fstate ip k' s'" using W(1) 1(6) S(3) by (simp add: fstate_def e)
  ultimately show ?thesis using that [OF 1(1-4)] 1(5) W(2,3) W(5) [OF bn(1)] by (simp add: e a_def)
qed

lemma in_span:
  assumes "m \<le> BSIZE - off mod BSIZE"
  shows "off \<le> p \<and> p < off + m \<longleftrightarrow> p div BSIZE = off div BSIZE \<and> off mod BSIZE \<le> p mod BSIZE \<and> p mod BSIZE < off mod BSIZE + m"
    "p div BSIZE = off div BSIZE \<Longrightarrow> p - off = p mod BSIZE - off mod BSIZE"
proof -
  have same: "p - off = p mod BSIZE - off mod BSIZE \<and> (off \<le> p \<longleftrightarrow> off mod BSIZE \<le> p mod BSIZE) \<and>
      (p < off + m \<longleftrightarrow> p mod BSIZE < off mod BSIZE + m)" if eq: "p div BSIZE = off div BSIZE"
  proof -
    obtain D R T where "off = D + R" "p = D + T" "off mod BSIZE = R" "p mod BSIZE = T"
      using div_mult_mod_eq [of off BSIZE] div_mult_mod_eq [of p BSIZE] eq by metis
    then show ?thesis by simp
  qed
  then show "p div BSIZE = off div BSIZE \<Longrightarrow> p - off = p mod BSIZE - off mod BSIZE" by blast
  have "p div BSIZE = off div BSIZE" if "off \<le> p" "p < off + m"
    using in_block(1) [of "p - off" off] that assms by simp
  then show "off \<le> p \<and> p < off + m \<longleftrightarrow> p div BSIZE = off div BSIZE \<and> off mod BSIZE \<le> p mod BSIZE \<and> p mod BSIZE < off mod BSIZE + m"
    using same by blast
qed

lemma write_step:
  assumes st: "fstate ip k s" and bn: "off div BSIZE < MAXFILE" and k: "k + 6 \<le> 29" and free: "2 \<le> nfree s"
    and m: "m \<le> BSIZE - off mod BSIZE"
  obtains a s1 bp s2 s3 s' k' where "bmap ip (off div BSIZE) s = Ok (a, s1)" "idev (inodes s1 ip) = 1" "bread 1 a s1 = Ok (bp, s2)"
    "log_modify bp (blit (bdata (bufs s2 bp)) (off mod BSIZE) S src m) s2 = Ok s3" "brelse bp s3 = Ok s'" "k' \<le> k + 6"
    "fstate ip k' s'" "fsame ip s s'" "nfree s \<le> nfree s' + 2" "blk (view s') (inodes s' ip) (off div BSIZE) \<noteq> 0"
    "\<forall>p < MAXFILE * BSIZE. fbyte (view s') (inodes s' ip) p =
       (if off \<le> p \<and> p < off + m then S (src + (p - off)) else fbyte (view s) (inodes s ip) p)"
proof -
  let ?bn = "off div BSIZE" and ?f = "\<lambda>d. blit d (off mod BSIZE) S src m"
  from bmap_ok [OF st bn free] k obtain a s1 k1 where 1: "bmap ip ?bn s = Ok (a, s1)" "a \<noteq> 0" "blk (view s1) (inodes s1 ip) ?bn = a"
    "k1 \<le> k + 5" "fstate ip k1 s1" "fsame ip s s1" "nfree s \<le> nfree s1 + 2"
    "\<forall>p < MAXFILE * BSIZE. fbyte (view s1) (inodes s1 ip) p = fbyte (view s) (inodes s ip) p"
    unfolding mapped_to_def by auto
  have nz: "blk (view s1) (inodes s1 ip) ?bn \<noteq> 0" and k1: "k1 < 29" using 1(2,3,4) k by simp_all
  from write_block [OF 1(5) bn nz k1, of ?f] obtain bp s2 s3 s' k' where 2: "bread 1 a s1 = Ok (bp, s2)" "bdata (bufs s2 bp) = view s1 a"
    "log_modify bp (?f (view s1 a)) s2 = Ok s3" "brelse bp s3 = Ok s'" "k' \<le> k1 + 1" "fstate ip k' s'" "fsame ip s1 s'" "nfree s' = nfree s1"
    "blk (view s') (inodes s' ip) ?bn = a" "\<forall>p < MAXFILE * BSIZE. fbyte (view s') (inodes s' ip) p =
       (if p div BSIZE = ?bn then ?f (view s1 a) (p mod BSIZE) else fbyte (view s1) (inodes s1 ip) p)"
    unfolding 1(3) .
  have "fbyte (view s') (inodes s' ip) p = (if off \<le> p \<and> p < off + m then S (src + (p - off)) else fbyte (view s) (inodes s ip) p)"
    if p: "p < MAXFILE * BSIZE" for p
  proof (cases "p div BSIZE = ?bn")
    case True
    have "fbyte (view s1) (inodes s1 ip) p = view s1 a (p mod BSIZE)" using True 1(2,3) by (simp add: fbyte_def content_def)
    then show ?thesis using 2(10) 1(8) p True in_span [OF m, of p] by (simp add: blit_def)
  next
    case False
    then show ?thesis using 2(10) 1(8) p in_span(1) [OF m, of p] by auto
  qed
  moreover have "idev (inodes s1 ip) = 1" using 1(5) by (simp add: fstate_def)
  ultimately show ?thesis using that [OF 1(1) _ 2(1) _ 2(4) _ 2(6) fsame_trans [OF 1(6) 2(7)]] 2(2,3,5,8,9) 1(2,4,7) by simp
qed

lemma writei_loop_ok:
  assumes "fstate ip k s" "off + (n - tot) \<le> MAXFILE * BSIZE" "k + 6 * span_blocks off (n - tot) \<le> 29"
    "2 * span_blocks off (n - tot) \<le> nfree s"
  shows "\<exists>s' k'. writei_loop ip tot n off src S s = Ok (off + (n - tot), s') \<and> k' \<le> k + 6 * span_blocks off (n - tot) \<and>
     fstate ip k' s' \<and> fsame ip s s' \<and>
     (\<forall>q. tot < n \<and> off div BSIZE \<le> q \<and> q * BSIZE < off + (n - tot) \<longrightarrow> blk (view s') (inodes s' ip) q \<noteq> 0) \<and>
     (\<forall>p < MAXFILE * BSIZE. fbyte (view s') (inodes s' ip) p =
        (if off \<le> p \<and> p < off + (n - tot) then S (src + (p - off)) else fbyte (view s) (inodes s ip) p))"
  using assms
proof (induction "n - tot" arbitrary: tot off src s k rule: less_induct)
  case less
  show ?case
  proof (cases "tot < n")
    case False
    then show ?thesis using less.prems(1) by (subst writei_loop.simps) (intro exI [of _ s] exI [of _ k], auto)
  next
    case True
    define m where "m = min (n - tot) (BSIZE - off mod BSIZE)"
    let ?bn = "off div BSIZE" and ?w = "span_blocks off (n - tot)" and ?w' = "span_blocks (off + m) (n - (tot + m))"
    have "0 < BSIZE - off mod BSIZE" by simp
    then have m: "0 < m" "m \<le> n - tot" "m \<le> BSIZE - off mod BSIZE" using True by (simp_all add: m_def)
    have w: "?w' + 1 \<le> ?w" using span_step [of "n - tot" m off] True m_def by (simp add: diff_diff_left)
    have bn: "?bn < MAXFILE" using less.prems(2) True by (simp add: div_less_iff_less_mult)
    have k6: "k + 6 \<le> 29" and f2: "2 \<le> nfree s" using w less.prems(3,4) by linarith+
    obtain a s1 bp s2 s3 s4 k4 where 1: "bmap ip ?bn s = Ok (a, s1)" "idev (inodes s1 ip) = 1" "bread 1 a s1 = Ok (bp, s2)"
      "log_modify bp (blit (bdata (bufs s2 bp)) (off mod BSIZE) S src m) s2 = Ok s3" "brelse bp s3 = Ok s4" "k4 \<le> k + 6"
      "fstate ip k4 s4" "fsame ip s s4" "nfree s \<le> nfree s4 + 2" "blk (view s4) (inodes s4 ip) ?bn \<noteq> 0"
      "\<forall>p < MAXFILE * BSIZE. fbyte (view s4) (inodes s4 ip) p =
         (if off \<le> p \<and> p < off + m then S (src + (p - off)) else fbyte (view s) (inodes s ip) p)"
      using write_step [OF less.prems(1) bn k6 f2 m(3), of S src] .
    have dec: "n - (tot + m) < n - tot" and sum: "off + m + (n - (tot + m)) = off + (n - tot)" using m True by linarith+
    have pre: "off + m + (n - (tot + m)) \<le> MAXFILE * BSIZE" "k4 + 6 * ?w' \<le> 29" "2 * ?w' \<le> nfree s4"
      using less.prems(2-4) sum 1(6,9) w by linarith+
    from less.hyps [OF dec 1(7) pre, of "src + m"] obtain s' k' where
      2: "writei_loop ip (tot + m) n (off + m) (src + m) S s4 = Ok (off + (n - tot), s')" "k' \<le> k4 + 6 * ?w'" "fstate ip k' s'" "fsame ip s4 s'"
      "\<forall>q. tot + m < n \<and> (off + m) div BSIZE \<le> q \<and> q * BSIZE < off + (n - tot) \<longrightarrow> blk (view s') (inodes s' ip) q \<noteq> 0"
      "\<forall>p < MAXFILE * BSIZE. fbyte (view s') (inodes s' ip) p =
        (if off + m \<le> p \<and> p < off + (n - tot) then S (src + m + (p - (off + m))) else fbyte (view s4) (inodes s4 ip) p)"
      unfolding sum by blast
    have loop: "writei_loop ip tot n off src S s = Ok (off + (n - tot), s')"
      using 1(1-5) 2(1) True by (subst writei_loop.simps) (simp add: m_def [symmetric])
    have "blk (view s') (inodes s' ip) q \<noteq> 0" if q: "?bn \<le> q" "q * BSIZE < off + (n - tot)" for q
    proof (cases "q = ?bn")
      case True
      then show ?thesis using 2(4) 1(10) bn by (simp add: fsame_def)
    next
      case False
      from span_next [OF False q m_def] show ?thesis using 2(5) q(2) True by auto
    qed
    moreover have "fbyte (view s') (inodes s' ip) p = (if off \<le> p \<and> p < off + (n - tot) then S (src + (p - off)) else fbyte (view s) (inodes s ip) p)"
      if p: "p < MAXFILE * BSIZE" for p using 2(6) 1(11) p m(2) by auto
    moreover have "k' \<le> k + 6 * ?w" using 2(2) 1(6) w by linarith
    ultimately show ?thesis using loop 2(3) fsame_trans [OF 1(8) 2(4)] by blast
  qed
qed

text \<open>The block with the inode is in use and belongs to no file; the new size is written there.\<close>

definition at_home :: "nat \<Rightarrow> 'a fs_state_scheme \<Rightarrow> bool" where
  "at_home ip s \<longleftrightarrow> (let ib = IBLOCK (inum (inodes s ip)) (sb s) in loggable s ib \<and> foreign (sb s) (view s) (inodes s ip) ib)"

lemma addr_isize [simp]:
  "addr V (i\<lparr>isize := n\<rparr>) q = addr V i q" "blk V (i\<lparr>isize := n\<rparr>) q = blk V i q" "fbyte V (i\<lparr>isize := n\<rparr>) p = fbyte V i p"
  by (simp_all add: addr_def fbyte_def content_def blk_def)

lemma foreign_write:
  assumes ok: "file_ok L B V i" and c: "foreign B V i c"
  shows "file_ok L B (V(c := d)) i" "p < MAXFILE * BSIZE \<Longrightarrow> fbyte (V(c := d)) i p = fbyte V i p"
    "r < MAXFILE \<Longrightarrow> blk (V(c := d)) i r = blk V i r"
proof -
  let ?V = "V(c := d)"
  have u: "used ?V B b = used V B b" if "b < sb_size B" for b using c that by (intro used_upd) (simp add: foreign_def)
  have ci: "c \<noteq> iaddrs i NDIRECT" using c unfolding foreign_def by (metis addr_def order_refl)
  have A: "addr ?V i r = addr V i r" for r using ci by (auto simp: addr_def blk_def)
  then show blk: "r < MAXFILE \<Longrightarrow> blk ?V i r = blk V i r" for r by (metis addr_def nat_neq_iff)
  have "used ?V B 0 = used V B 0" using c by (intro u) (auto simp: foreign_def)
  then have "bmok L B ?V" using ok u unfolding file_ok_def bmok_def by auto
  moreover have "good L B ?V b = good L B V b" for b using u by (auto simp: good_def)
  ultimately show "file_ok L B ?V i" using ok unfolding file_ok_def A by simp
  assume "p < MAXFILE * BSIZE"
  then have r: "p div BSIZE < MAXFILE" by (simp add: div_less_iff_less_mult)
  then have "blk V i (p div BSIZE) \<noteq> c" using c unfolding foreign_def by (metis addr_def less_imp_le nat_neq_iff)
  then show "fbyte ?V i p = fbyte V i p" using blk [OF r] by (simp add: fbyte_def content_def)
qed

lemma grow_ok:
  assumes st: "fstate ip k s" and k: "k < 29" and ib: "ib = IBLOCK (inum (inodes s ip)) (sb s)" "loggable s ib"
    and foreign: "foreign (sb s) (view s) (inodes s ip) ib"
  obtains s' k' where "iupdate ip (upd_inode ip (\<lambda>x. x\<lparr>isize := n\<rparr>) s) = Ok s'" "k' \<le> Suc k" "fstate ip k' s'"
    "inodes s' = (inodes s)(ip := (inodes s ip)\<lparr>isize := n\<rparr>)" "\<forall>c. c \<noteq> ib \<longrightarrow> view s' c = view s c"
    "\<forall>q < MAXFILE. blk (view s') (inodes s' ip) q = blk (view s) (inodes s ip) q"
    "\<forall>p < MAXFILE * BSIZE. fbyte (view s') (inodes s' ip) p = fbyte (view s) (inodes s ip) p"
proof -
  let ?s = "upd_inode ip (\<lambda>x. x\<lparr>isize := n\<rparr>) s" and ?i = "inodes s ip"
  have S: "tx_ok s k {}" "file_ok (loggable s) (sb s) (view s) ?i" "idev ?i = 1" using st by (auto simp: fstate_def)
  have u: "tx_ok ?s k {}" "idev (inodes ?s ip) = 1" "IBLOCK (inum (inodes ?s ip)) (sb ?s) = ib" "loggable ?s ib"
    "inodes ?s = (inodes s)(ip := ?i\<lparr>isize := n\<rparr>)" using S ib by (auto simp: fun_eq_iff)
  from iupdate_ok [OF u(1,2)] k u(3,4) obtain s' k' d where
    1: "iupdate ip ?s = Ok s'" "k' \<le> Suc k" "tx_ok s' k' {}" "tx_frame ?s s'" "view s' = (view s)(ib := d)"
    by (auto simp: Let_def)
  note e = frame_eqs [OF 1(4)] and F = foreign_write [OF S(2) foreign, where d = d, folded 1(5)]
  have i': "inodes s' = (inodes s)(ip := ?i\<lparr>isize := n\<rparr>)" using e(1) u(5) by simp
  have B: "blk (view s') (inodes s' ip) q = blk (view s) ?i q" if "q < MAXFILE" for q using F(3) [OF that] by (simp add: i')
  have lg: "loggable s' = loggable s" "sb s' = sb s" using e(2,3) by (simp_all add: fun_eq_iff)
  have "file_ok (loggable s') (sb s') (view s') (inodes s' ip)" using F(1) unfolding file_ok_def lg i' by simp
  then have "fstate ip k' s'" using 1(3) S(3) by (simp add: fstate_def i')
  moreover have "fbyte (view s') (inodes s' ip) p = fbyte (view s) ?i p" if "p < MAXFILE * BSIZE" for p
    using F(2) [OF that] by (simp add: i')
  ultimately show ?thesis using that [OF 1(1,2) _ i'] B by (simp add: 1(5))
qed

text \<open>\<open>writei\<close> within the size of a file that exists up to there.\<close>

definition writable :: "nat \<Rightarrow> nat \<Rightarrow> nat \<Rightarrow> nat \<Rightarrow> 'a fs_state_scheme \<Rightarrow> bool" where
  "writable ip k off n s \<longleftrightarrow> fstate ip k s \<and> at_home ip s \<and> itype (inodes s ip) \<noteq> T_DEV \<and> off \<le> isize (inodes s ip) \<and>
     0 < n \<and> off + n \<le> MAXFILE * BSIZE \<and> isize (inodes s ip) \<le> MAXFILE * BSIZE \<and>
     (\<forall>q. q * BSIZE < isize (inodes s ip) \<longrightarrow> blk (view s) (inodes s ip) q \<noteq> 0) \<and>
     k + 6 * span_blocks off n + 1 \<le> 29 \<and> 2 * span_blocks off n \<le> nfree s"

lemma covered:
  assumes same: "fsame ip s s1" and new: "\<forall>q. off div BSIZE \<le> q \<and> q * BSIZE < off + n \<longrightarrow> blk (view s1) (inodes s1 ip) q \<noteq> 0"
    and old: "\<forall>q. q * BSIZE < sz \<longrightarrow> blk (view s) (inodes s ip) q \<noteq> 0" and sz: "sz \<le> MAXFILE * BSIZE" "off \<le> sz"
    and q: "q * BSIZE < max sz (off + n)"
  shows "blk (view s1) (inodes s1 ip) q \<noteq> 0"
proof (cases "q * BSIZE < sz")
  case True
  then have "q * BSIZE < MAXFILE * BSIZE" using sz(1) by linarith
  then have "q < MAXFILE" by simp
  then show ?thesis using True old same by (simp add: fsame_def)
next
  case False
  then have "off div BSIZE \<le> q" using sz(2) div_le_mono [of off "q * BSIZE" BSIZE] by simp
  then show ?thesis using False q new by simp
qed

lemma writei_ok:
  assumes w: "writable ip k off n s"
  obtains s' k' where "writei ip S src off n s = Ok (int n, s')" "fstate ip k' s'" "k' < NBUF"
    "isize (inodes s' ip) = max (isize (inodes s ip)) (off + n)" "itype (inodes s' ip) = itype (inodes s ip)"
    "\<forall>q. q * BSIZE < isize (inodes s' ip) \<longrightarrow> blk (view s') (inodes s' ip) q \<noteq> 0"
    "\<forall>p < MAXFILE * BSIZE. fbyte (view s') (inodes s' ip) p =
       (if off \<le> p \<and> p < off + n then S (src + (p - off)) else fbyte (view s) (inodes s ip) p)"
    "\<forall>c. foreign (sb s) (view s) (inodes s ip) c \<and> c \<noteq> IBLOCK (inum (inodes s ip)) (sb s) \<longrightarrow> view s' c = view s c"
    "\<forall>j. j \<noteq> ip \<longrightarrow> inodes s' j = inodes s j"
proof -
  let ?i = "inodes s ip" and ?ib = "IBLOCK (inum (inodes s ip)) (sb s)"
  have W: "fstate ip k s" "at_home ip s" "itype ?i \<noteq> T_DEV" "off \<le> isize ?i" "0 < n" "off + n \<le> MAXFILE * BSIZE"
    "isize ?i \<le> MAXFILE * BSIZE" "\<forall>q. q * BSIZE < isize ?i \<longrightarrow> blk (view s) ?i q \<noteq> 0"
    "k + 6 * span_blocks off n + 1 \<le> 29" "2 * span_blocks off n \<le> nfree s" using w by (auto simp: writable_def)
  have pre: "off + (n - 0) \<le> MAXFILE * BSIZE" "k + 6 * span_blocks off (n - 0) \<le> 29" "2 * span_blocks off (n - 0) \<le> nfree s"
    using W(6,9,10) by simp_all
  from writei_loop_ok [OF W(1) pre, of src S] W(5) obtain s1 k1 where
    1: "writei_loop ip 0 n off src S s = Ok (off + n, s1)" "k1 \<le> k + 6 * span_blocks off n" "fstate ip k1 s1" "fsame ip s s1"
    "\<forall>q. off div BSIZE \<le> q \<and> q * BSIZE < off + n \<longrightarrow> blk (view s1) (inodes s1 ip) q \<noteq> 0"
    "\<forall>p < MAXFILE * BSIZE. fbyte (view s1) (inodes s1 ip) p =
       (if off \<le> p \<and> p < off + n then S (src + (p - off)) else fbyte (view s) ?i p)" by auto
  have I: "isize (inodes s1 ip) = isize ?i" "itype (inodes s1 ip) = itype ?i" "inum (inodes s1 ip) = inum ?i" "sb s1 = sb s"
    "\<forall>j. j \<noteq> ip \<longrightarrow> inodes s1 j = inodes s j" using 1(4) by (auto simp: fsame_def)
  have old: "\<forall>c. foreign (sb s) (view s) ?i c \<longrightarrow> foreign (sb s) (view s1) (inodes s1 ip) c \<and> view s1 c = view s c"
    using 1(4) by (simp add: fsame_def)
  have blk: "blk (view s1) (inodes s1 ip) q \<noteq> 0" if "q * BSIZE < max (isize ?i) (off + n)" for q
    by (rule covered [OF 1(4,5) W(8,7,4)]) (rule that)
  have head: "writei ip S src off n s = bindE (if 0 < n \<and> isize (inodes s1 ip) < off + n
     then iupdate ip (upd_inode ip (\<lambda>x. x\<lparr>isize := off + n\<rparr>) s1) else Ok s1) (\<lambda>s. Ok (int n, s))"
    using W(3,4,6) 1(1) by (simp add: writei_def Let_def)
  show ?thesis
  proof (cases "isize ?i < off + n")
    case False
    then have "writei ip S src off n s = Ok (int n, s1)" using head I(1) by simp
    moreover have "max (isize ?i) (off + n) = isize ?i" using False by simp
    ultimately show ?thesis using that [of s1 k1] 1(2,3,6) W(9) I blk old by auto
  next
    case True
    have ib: "?ib = IBLOCK (inum (inodes s1 ip)) (sb s1)" "loggable s1 ?ib" "foreign (sb s1) (view s1) (inodes s1 ip) ?ib"
      using W(2) 1(4) old I by (auto simp: at_home_def Let_def fsame_def)
    have k1: "k1 < 29" using 1(2) W(9) by simp
    from grow_ok [OF 1(3) k1 ib, of "off + n"] obtain s' k' where
      2: "iupdate ip (upd_inode ip (\<lambda>x. x\<lparr>isize := off + n\<rparr>) s1) = Ok s'" "k' \<le> Suc k1" "fstate ip k' s'"
      "inodes s' = (inodes s1)(ip := (inodes s1 ip)\<lparr>isize := off + n\<rparr>)" "\<forall>c. c \<noteq> ?ib \<longrightarrow> view s' c = view s1 c"
      "\<forall>q < MAXFILE. blk (view s') (inodes s' ip) q = blk (view s1) (inodes s1 ip) q"
      "\<forall>p < MAXFILE * BSIZE. fbyte (view s') (inodes s' ip) p = fbyte (view s1) (inodes s1 ip) p" .
    have "writei ip S src off n s = Ok (int n, s')" using head I(1) True W(5) 2(1) by simp
    moreover have "blk (view s') (inodes s' ip) q \<noteq> 0" if "q * BSIZE < off + n" for q
    proof -
      have "q * BSIZE < MAXFILE * BSIZE" using that W(6) by linarith
      then have "q < MAXFILE" by simp
      then show ?thesis using 2(6) blk [of q] that by simp
    qed
    ultimately show ?thesis using that [of s' k'] 2(2-5,7) 1(6) I k1 old True by auto
  qed
qed

lemma file_mapped:
  assumes st: "fstate ip k s" and blk: "\<forall>q. q * BSIZE < isize (inodes s ip) \<longrightarrow> blk (view s) (inodes s ip) q \<noteq> 0"
    and sz: "isize (inodes s ip) \<le> MAXFILE * BSIZE"
  shows "mapped s ip 0 ((isize (inodes s ip) + BSIZE - 1) div BSIZE)"
proof -
  let ?i = "inodes s ip" and ?b = "(isize (inodes s ip) + BSIZE - 1) div BSIZE"
  have S: "file_ok (loggable s) (sb s) (view s) ?i" "idev ?i = 1" using st by (auto simp: fstate_def)
  have b: "?b \<le> MAXFILE" using div_le_mono [of "isize ?i + BSIZE - 1" "MAXFILE * BSIZE + BSIZE - 1" BSIZE] sz by simp
  have "blk (view s) ?i q \<noteq> 0 \<and> on_disk s (blk (view s) ?i q) \<and> (NDIRECT \<le> q \<longrightarrow> on_disk s (iaddrs ?i NDIRECT))" if q: "q < ?b" for q
  proof -
    have qm: "q < MAXFILE" using q b by simp
    have "Suc q * BSIZE \<le> isize ?i + BSIZE - 1" using q by (simp add: less_eq_div_iff_mult_less_eq [symmetric])
    then have "q * BSIZE < isize ?i" by simp
    then have nz: "blk (view s) ?i q \<noteq> 0" using blk by simp
    then have "good (loggable s) (sb s) (view s) (blk (view s) ?i q)"
      using data_not_indirect(2) [OF S(1) qm] qm by (simp add: addr_def)
    moreover have "NDIRECT \<le> q \<Longrightarrow> iaddrs ?i NDIRECT \<noteq> 0" using nz by (auto simp: blk_def split: if_splits)
    ultimately show ?thesis using nz file_indirect [OF S(1)] tx.loggable_disk by (auto simp: good_def)
  qed
  then show ?thesis using S(2) b by (simp add: mapped_def)
qed

text \<open>C7: writing a file.  \<open>writei\<close> at an offset within the size of a file that has its blocks, with room on the disk
  and in the log, succeeds: the file is as long as it was or as the write reaches, the bytes written are in their place
  and all others are unchanged, so that \<open>readi\<close> returns what was written; blocks are allocated as needed and
  neither the blocks of other files nor other inodes change.\<close>

theorem write_read:
  assumes "writable ip k off n s"
  shows "\<exists>s' s''. writei ip S src off n s = Ok (int n, s') \<and>
     isize (inodes s' ip) = max (isize (inodes s ip)) (off + n) \<and>
     (\<forall>p < MAXFILE * BSIZE. fbyte (view s') (inodes s' ip) p =
        (if off \<le> p \<and> p < off + n then S (src + (p - off)) else fbyte (view s) (inodes s ip) p)) \<and>
     readi ip D dst off n s' = Ok (int n, blit D dst S src n, s'') \<and>
     (\<forall>c. foreign (sb s) (view s) (inodes s ip) c \<and> c \<noteq> IBLOCK (inum (inodes s ip)) (sb s) \<longrightarrow> view s' c = view s c) \<and>
     (\<forall>j. j \<noteq> ip \<longrightarrow> inodes s' j = inodes s j)"
proof -
  have W: "off + n \<le> MAXFILE * BSIZE" "isize (inodes s ip) \<le> MAXFILE * BSIZE" "itype (inodes s ip) \<noteq> T_DEV"
    using assms by (auto simp: writable_def)
  obtain s' k' where 1: "writei ip S src off n s = Ok (int n, s')" "fstate ip k' s'" "k' < NBUF"
    "isize (inodes s' ip) = max (isize (inodes s ip)) (off + n)" "itype (inodes s' ip) = itype (inodes s ip)"
    "\<forall>q. q * BSIZE < isize (inodes s' ip) \<longrightarrow> blk (view s') (inodes s' ip) q \<noteq> 0"
    "\<forall>p < MAXFILE * BSIZE. fbyte (view s') (inodes s' ip) p =
       (if off \<le> p \<and> p < off + n then S (src + (p - off)) else fbyte (view s) (inodes s ip) p)"
    "\<forall>c. foreign (sb s) (view s) (inodes s ip) c \<and> c \<noteq> IBLOCK (inum (inodes s ip)) (sb s) \<longrightarrow> view s' c = view s c"
    "\<forall>j. j \<noteq> ip \<longrightarrow> inodes s' j = inodes s j"
    using writei_ok [OF assms, of S src] .
  have m: "mapped s' ip 0 ((isize (inodes s' ip) + BSIZE - 1) div BSIZE)"
    by (rule file_mapped [OF 1(2,6)]) (use 1(4) W in simp)
  have "\<not> isize (inodes s' ip) < off" "min n (isize (inodes s' ip) - off) = n" using 1(4) by simp_all
  with readi_ok [of s' k' ip off n D dst] 1(2,3,5) W m obtain s'' where
    2: "readi ip D dst off n s' = Ok (int n, blit D dst (content (view s') (inodes s' ip)) off n, s'')"
    by (auto simp: fstate_def Let_def)
  have "blit D dst (content (view s') (inodes s' ip)) off n = blit D dst S src n"
  proof
    fix x
    have "content (view s') (inodes s' ip) (off + y) = S (src + y)" if y: "y < n" for y
    proof -
      have "(off + y) div BSIZE * BSIZE \<le> off + y" by simp
      then have "(off + y) div BSIZE * BSIZE < isize (inodes s' ip)" using y 1(4) by linarith
      then have "blk (view s') (inodes s' ip) ((off + y) div BSIZE) \<noteq> 0" using 1(6) by blast
      then have "content (view s') (inodes s' ip) (off + y) = fbyte (view s') (inodes s' ip) (off + y)" unfolding fbyte_def by (rule if_not_P [symmetric])
      also have "\<dots> = S (src + y)" using 1(7) y W(1) by simp
      finally show ?thesis .
    qed
    then have "content (view s') (inodes s' ip) (off + (x - dst)) = S (src + (x - dst))" if "dst \<le> x" "x < dst + n"
      using that by (metis add.commute less_diff_conv2)
    then show "blit D dst (content (view s') (inodes s' ip)) off n x = blit D dst S src n x"
      by (cases "dst \<le> x \<and> x < dst + n") (simp_all only: blit_def simp_thms if_True if_False)
  qed
  then have "readi ip D dst off n s' = Ok (int n, blit D dst S src n, s'')" using 2 by simp
  then show ?thesis by (intro exI [of _ s'] exI [of _ s''] conjI 1(1,4,7,8,9))
qed

lemma demo_writable: "writable 0 0 0 600 demo_cons"
proof -
  have i: "isize (inodes demo_cons 0) = 0" "itype (inodes demo_cons 0) = T_DIR" "idev (inodes demo_cons 0) = 1" "inum (inodes demo_cons 0) = 1"
    by (simp_all add: demo_cons_fs small_fs_sel root_inode_def)
  have a: "addr V (inodes demo_cons 0) q = 0" for V q
    by (simp add: demo_cons_fs small_fs_sel root_inode_def addr_def blk_def)
  have sz: "sb_size small_sb = 100" by (simp add: small_sb_def)
  have lg: "loggable demo_cons b \<longleftrightarrow> b < 2 \<or> 32 \<le> b \<and> b < 100" for b
    by (auto simp: loggable_def data_block_def log_area_def demo_cons_fs)
  have bb: "BBLOCK b small_sb = 58" if "b < 100" for b using that by (simp add: BBLOCK_def small_sb_def)
  have u: "used small_disk small_sb b \<longleftrightarrow> b < 59" if "b < 100" for b using small_used that by simp
  have "bmok (loggable demo_cons) small_sb small_disk" using u [of 0] u by (auto simp: bmok_def sz lg bb)
  then have "file_ok (loggable demo_cons) small_sb small_disk (inodes demo_cons 0)" by (simp add: file_ok_def a)
  then have "fstate 0 0 demo_cons" using small_tx i(3) unfolding fstate_def demo_cons_fs(1,2,5) by simp
  moreover have "at_home 0 demo_cons"
    using u [of 32] i(4) by (simp add: at_home_def Let_def lg foreign_def demo_cons_fs(2,5) a bb IBLOCK_def) (simp add: small_sb_def bb [unfolded small_sb_def])
  moreover have "free_blocks small_sb small_disk = {59..<100}" using u by (auto simp: free_blocks_def sz)
  ultimately show ?thesis using i by (simp add: writable_def span_blocks_def demo_cons_fs(2,5))
qed

text \<open>600 bytes written to the empty directory of the small file system: two blocks are allocated.\<close>

theorem write_read_witness:
  "\<exists>s' s''. writei 0 (\<lambda>a. of_nat a) 0 0 600 demo_cons = Ok (600, s') \<and> isize (inodes s' 0) = 600 \<and>
     readi 0 (\<lambda>_. 7) 100 0 600 s' = Ok (600, blit (\<lambda>_. 7) 100 (\<lambda>a. of_nat a) 0 600, s'')"
proof -
  have "isize (inodes demo_cons 0) = 0" by (simp add: demo_cons_fs small_fs_sel root_inode_def)
  with write_read [OF demo_writable, of "\<lambda>a. of_nat a" 0 "\<lambda>_. 7" 100] show ?thesis by auto
qed

end
