(* ===== verification/Dirs.thy ===== *)
theory Dirs
  imports Path Fs_Write
begin

text \<open>
  Directories of \<^verbatim>\<open>src/alarm/fs.c\<close> as maps from names to inode numbers: \<open>dirlink\<close> is the update of the map and \<open>dirlookup\<close> its
  application.  It puts together the search of \<open>Path\<close> and the writing of \<open>Fs_Write\<close>.
\<close>

section \<open>The map of a directory\<close>

definition dir_map :: "(nat \<Rightarrow> mem) \<Rightarrow> inode \<Rightarrow> byte list \<Rightarrow> nat option" where
  "dir_map V i nm = map_option (\<lambda>j. unat (entry_inum V i j)) (find_entry V i nm)"

text \<open>Of all entries in use no two have the same name.\<close>

definition distinct_names :: "(nat \<Rightarrow> mem) \<Rightarrow> inode \<Rightarrow> bool" where
  "distinct_names V i \<longleftrightarrow> (\<forall>j < isize i div de_size. \<forall>k < isize i div de_size.
     entry_inum V i j \<noteq> 0 \<and> entry_inum V i k \<noteq> 0 \<and> entry_name V i j = entry_name V i k \<longrightarrow> j = k)"

definition in_use :: "(nat \<Rightarrow> mem) \<Rightarrow> inode \<Rightarrow> nat \<Rightarrow> byte list \<Rightarrow> bool" where
  "in_use V i j nm \<longleftrightarrow> entry_inum V i j \<noteq> 0 \<and> entry_name V i j = nm"

lemma distinctD:
  "distinct_names V i \<Longrightarrow> j < isize i div de_size \<Longrightarrow> k < isize i div de_size \<Longrightarrow> in_use V i j a \<Longrightarrow> in_use V i k a \<Longrightarrow> j = k"
  by (simp add: distinct_names_def in_use_def)

lemma distinctI:
  "(\<And>j k a. j < isize i div de_size \<Longrightarrow> k < isize i div de_size \<Longrightarrow> in_use V i j a \<Longrightarrow> in_use V i k a \<Longrightarrow> j = k) \<Longrightarrow>
   distinct_names V i"
  by (simp add: distinct_names_def in_use_def)

lemma find_upt: "find P [0..<n] = Some j \<longleftrightarrow> j < n \<and> P j \<and> (\<forall>k < j. \<not> P k)"
proof
  assume "find P [0..<n] = Some j"
  then show "j < n \<and> P j \<and> (\<forall>k < j. \<not> P k)" by (auto simp: find_Some_iff)
next
  assume "j < n \<and> P j \<and> (\<forall>k < j. \<not> P k)"
  then show "find P [0..<n] = Some j" unfolding find_Some_iff by (intro exI [of _ j]) auto
qed

lemma find_upt_None: "find P [0..<n] = None \<longleftrightarrow> (\<forall>k < n. \<not> P k)"
  by (auto simp: find_None_iff)

lemmas find_entry_use = find_entry_def in_use_def [symmetric]

lemma find_entry_Some: "find_entry V i nm = Some j \<longleftrightarrow> j < isize i div de_size \<and> in_use V i j nm \<and> (\<forall>k < j. \<not> in_use V i k nm)"
  unfolding find_entry_def in_use_def by (rule find_upt)

lemma find_entry_None: "find_entry V i nm = None \<longleftrightarrow> (\<forall>k < isize i div de_size. \<not> in_use V i k nm)"
  unfolding find_entry_def in_use_def by (rule find_upt_None)

text \<open>
  One entry is written and the others stay, the new directory being as long as the old one or one entry longer.  When the
  entry was free and gets a new name the map is updated; when it was the one with a name and becomes free the name
  goes away.
\<close>

definition entry_written :: "(nat \<Rightarrow> mem) \<Rightarrow> inode \<Rightarrow> (nat \<Rightarrow> mem) \<Rightarrow> inode \<Rightarrow> nat \<Rightarrow> bool" where
  "entry_written V i V' i' j \<longleftrightarrow> j \<le> isize i div de_size \<and> isize i' div de_size = max (isize i div de_size) (j + 1) \<and>
     (\<forall>k < isize i div de_size. k \<noteq> j \<longrightarrow> entry_inum V' i' k = entry_inum V i k \<and> entry_name V' i' k = entry_name V i k)"

lemma entry_written_use:
  assumes "entry_written V i V' i' j" and "k < isize i' div de_size" and "k \<noteq> j"
  shows "k < isize i div de_size" "in_use V' i' k nm = in_use V i k nm" "entry_inum V' i' k = entry_inum V i k"
proof -
  show "k < isize i div de_size" using assms by (auto simp: entry_written_def max_def split: if_splits)
  then show "in_use V' i' k nm = in_use V i k nm" "entry_inum V' i' k = entry_inum V i k"
    using assms by (auto simp: entry_written_def in_use_def)
qed

lemma link_map:
  assumes w: "entry_written V i V' i' j" and free: "j < isize i div de_size \<longrightarrow> entry_inum V i j = 0"
    and nm: "in_use V' i' j nm" and new: "find_entry V i nm = None"
  shows "find_entry V' i' nm = Some j" "nm' \<noteq> nm \<Longrightarrow> find_entry V' i' nm' = find_entry V i nm'"
    "dir_map V' i' = (dir_map V i)(nm \<mapsto> unat (entry_inum V' i' j))"
    "distinct_names V i \<Longrightarrow> distinct_names V' i'"
proof -
  note U = entry_written_use [OF w]
  have j: "j < isize i' div de_size" and sz: "k < isize i div de_size \<Longrightarrow> k < isize i' div de_size" for k
    using w by (auto simp: entry_written_def)
  have none: "\<not> in_use V' i' k nm" if "k < isize i' div de_size" "k \<noteq> j" for k
    using U [OF that] new by (simp add: find_entry_None)
  show fj: "find_entry V' i' nm = Some j" unfolding find_entry_Some using j nm none by auto
  have other: "in_use V' i' k nm' \<longleftrightarrow> k < isize i div de_size \<and> in_use V i k nm'" if "nm' \<noteq> nm" "k < isize i' div de_size" for nm' k
    using U [OF that(2)] nm that(1) free by (cases "k = j") (auto simp: in_use_def)
  show fo: "find_entry V' i' nm' = find_entry V i nm'" if ne: "nm' \<noteq> nm" for nm'
  proof (cases "find_entry V i nm'")
    case None
    then have "find_entry V' i' nm' = None" using other [OF ne] by (simp add: find_entry_None)
    then show ?thesis using None by simp
  next
    case (Some k)
    then have "find_entry V' i' nm' = Some k" unfolding find_entry_Some using other [OF ne] sz by fastforce
    then show ?thesis using Some by simp
  qed
  show "dir_map V' i' = (dir_map V i)(nm \<mapsto> unat (entry_inum V' i' j))"
  proof
    fix nm'
    have "entry_inum V' i' k = entry_inum V i k" if "find_entry V i nm' = Some k" for k
    proof -
      have k: "k < isize i div de_size" "entry_inum V i k \<noteq> 0" using that by (auto simp: find_entry_Some in_use_def)
      then have "k \<noteq> j" using free by auto
      then show ?thesis using U(3) [OF sz [OF k(1)]] by simp
    qed
    then show "dir_map V' i' nm' = ((dir_map V i)(nm \<mapsto> unat (entry_inum V' i' j))) nm'"
      using fj fo by (cases "find_entry V i nm'") (auto simp: dir_map_def)
  qed
  show "distinct_names V' i'" if d: "distinct_names V i"
  proof (rule distinctI)
    fix k l a assume k: "k < isize i' div de_size" "in_use V' i' k a" and l: "l < isize i' div de_size" "in_use V' i' l a"
    show "k = l"
    proof (cases "a = nm")
      case True
      then show ?thesis using none k l by blast
    next
      case False
      show ?thesis by (rule distinctD [OF d]) (use other [OF False] k l in auto)
    qed
  qed
qed

lemma unlink_map:
  assumes w: "entry_written V i V' i' j" and old: "find_entry V i nm = Some j" and zero: "entry_inum V' i' j = 0"
    and d: "distinct_names V i"
  shows "dir_map V' i' = (dir_map V i)(nm := None)" "distinct_names V' i'"
proof -
  have j: "j < isize i div de_size" "in_use V i j nm" using old by (auto simp: find_entry_Some)
  then have sz: "isize i' div de_size = isize i div de_size" using w by (simp add: entry_written_def)
  note U = entry_written_use [OF w, unfolded sz]
  have use: "in_use V' i' k a \<longleftrightarrow> k \<noteq> j \<and> in_use V i k a" if "k < isize i div de_size" for k a
    using U(2) [OF that] zero by (cases "k = j") (auto simp: in_use_def)
  have only: "k = j" if "k < isize i div de_size" "in_use V i k nm" for k
    using distinctD [OF d that(1) j(1) that(2) j(2)] .
  have f: "find_entry V' i' a = (if a = nm then None else find_entry V i a)" for a
  proof (cases "find_entry V i a")
    case None
    then have "find_entry V' i' a = None" using use by (simp add: find_entry_None sz)
    then show ?thesis using None by simp
  next
    case (Some k)
    have "find_entry V' i' nm = None" unfolding find_entry_None sz using use only by blast
    moreover have "find_entry V' i' a = Some k" if "a \<noteq> nm"
    proof -
      have "k \<noteq> j" using Some that j(2) by (auto simp: find_entry_Some in_use_def)
      then show ?thesis using Some use by (auto simp: find_entry_Some sz)
    qed
    ultimately show ?thesis using Some by auto
  qed
  show "dir_map V' i' = (dir_map V i)(nm := None)"
  proof
    fix a
    have "entry_inum V' i' k = entry_inum V i k" if "find_entry V i a = Some k" "a \<noteq> nm" for k
      using U(3) [of k] that j(2) by (auto simp: find_entry_Some in_use_def)
    then show "dir_map V' i' a = ((dir_map V i)(nm := None)) a"
      using f [of a] by (cases "find_entry V i a") (auto simp: dir_map_def)
  qed
  show "distinct_names V' i'" by (rule distinctI) (use use distinctD [OF d] in \<open>auto simp: sz\<close>)
qed

section \<open>Writing an entry\<close>

text \<open>A directory to which an entry can be written: its blocks exist, and there is room in the log and on the disk.\<close>

definition linkable :: "nat \<Rightarrow> nat \<Rightarrow> 'a cons_state_scheme \<Rightarrow> bool" where
  "linkable dp k s \<longleftrightarrow> fstate dp k s \<and> at_home dp s \<and> itype (inodes s dp) = T_DIR \<and> de_size dvd isize (inodes s dp) \<and>
     isize (inodes s dp) + de_size \<le> MAXFILE * BSIZE \<and>
     (\<forall>q. q * BSIZE < isize (inodes s dp) \<longrightarrow> blk (view s) (inodes s dp) q \<noteq> 0) \<and> k + 7 \<le> 29 \<and> 2 \<le> nfree s"

lemma one_block: "span_blocks (j * de_size) de_size = 1"
proof -
  have "(j * de_size + de_size - 1) div BSIZE = j * de_size div BSIZE" by simp
  then show ?thesis by (simp add: span_blocks_def)
qed

lemma linkable_writable:
  assumes "linkable dp k s" and "j \<le> isize (inodes s dp) div de_size"
  shows "writable dp k (j * de_size) de_size s"
proof -
  have "j * de_size \<le> isize (inodes s dp)" using assms(2) by (simp add: less_eq_div_iff_mult_less_eq)
  then show ?thesis using assms(1) one_block [of j] by (auto simp: linkable_def writable_def)
qed

lemma linkable_dir: "linkable dp k s \<Longrightarrow> dir_ok s dp \<and> tx_ok s k {} \<and> k < NBUF \<and> idev (inodes s dp) = 1"
  using file_mapped [of dp k s] by (auto simp: linkable_def dir_ok_def fstate_def)

lemma linkable_frame:
  assumes "linkable dp k s" and "tx_frame s s'" and "view s' = view s" and "tx_ok s' k {}"
  shows "linkable dp k s'"
  using assms(1,3,4) unfolding linkable_def fstate_def at_home_def by (simp add: frame_eqs [OF assms(2)])

text \<open>Entries through the bytes of the file.\<close>

lemma content_fbyte: "blk V i (p div BSIZE) \<noteq> 0 \<Longrightarrow> content V i p = fbyte V i p"
  by (simp add: fbyte_def)

lemma blk_entry:
  assumes "\<forall>q. q * BSIZE < isize i \<longrightarrow> blk V i q \<noteq> 0" and "j < isize i div de_size" and "x < de_size"
  shows "content V i (j * de_size + x) = fbyte V i (j * de_size + x)"
proof (rule content_fbyte)
  have "j * de_size + de_size \<le> isize i" using assms(2) by (auto simp: less_eq_div_iff_mult_less_eq [symmetric])
  then have "j * de_size + x < isize i" using assms(3) by simp
  moreover have "(j * de_size + x) div BSIZE * BSIZE \<le> j * de_size + x" by (rule div_times_less_eq_dividend)
  ultimately have "(j * de_size + x) div BSIZE * BSIZE < isize i" by linarith
  then show "blk V i ((j * de_size + x) div BSIZE) \<noteq> 0" using assms(1) by blast
qed

text \<open>An entry is its 16 bytes.\<close>

lemma entry_cong:
  assumes "\<And>x. x < de_size \<Longrightarrow> content V i (j * de_size + x) = S (a + x)"
  shows "entry_inum V i j = get16 S a" "entry_name V i j = name_at S (a + 2)"
proof -
  show "entry_inum V i j = get16 S a"
    using assms [of 0] assms [of 1] by (simp add: entry_inum_def get16_def)
  have "read_bytes (content V i) (j * de_size + 2) DIRSIZ = read_bytes S (a + 2) DIRSIZ"
    unfolding read_bytes_def by (rule map_cong) (use assms [of "2 + x" for x] in \<open>auto simp: ac_simps\<close>)
  then show "entry_name V i j = name_at S (a + 2)" by (simp add: entry_name_def name_at_def)
qed

lemma write_entry:
  assumes l: "linkable dp k s" and j: "j \<le> isize (inodes s dp) div de_size"
  obtains s' k' where "writei dp S src (j * de_size) de_size s = Ok (int de_size, s')" "tx_ok s' k' {}" "k' < NBUF" "dir_ok s' dp"
    "entry_written (view s) (inodes s dp) (view s') (inodes s' dp) j" "entry_inum (view s') (inodes s' dp) j = get16 S src"
    "entry_name (view s') (inodes s' dp) j = name_at S (src + 2)" "idev (inodes s' dp) = 1"
    "\<forall>c. foreign (sb s) (view s) (inodes s dp) c \<and> c \<noteq> IBLOCK (inum (inodes s dp)) (sb s) \<longrightarrow> view s' c = view s c"
    "\<forall>i. i \<noteq> dp \<longrightarrow> inodes s' i = inodes s i"
proof -
  let ?V = "view s" and ?i = "inodes s dp" and ?off = "j * de_size"
  have L: "itype ?i = T_DIR" "de_size dvd isize ?i" "isize ?i + de_size \<le> MAXFILE * BSIZE" "\<forall>q. q * BSIZE < isize ?i \<longrightarrow> blk ?V ?i q \<noteq> 0"
    using l by (auto simp: linkable_def)
  obtain s' k' where 1: "writei dp S src ?off de_size s = Ok (int de_size, s')" "fstate dp k' s'" "k' < NBUF"
    "isize (inodes s' dp) = max (isize ?i) (?off + de_size)" "itype (inodes s' dp) = itype ?i"
    "\<forall>q. q * BSIZE < isize (inodes s' dp) \<longrightarrow> blk (view s') (inodes s' dp) q \<noteq> 0"
    "\<forall>p < MAXFILE * BSIZE. fbyte (view s') (inodes s' dp) p =
       (if ?off \<le> p \<and> p < ?off + de_size then S (src + (p - ?off)) else fbyte ?V ?i p)"
    "\<forall>c. foreign (sb s) (view s) (inodes s dp) c \<and> c \<noteq> IBLOCK (inum (inodes s dp)) (sb s) \<longrightarrow> view s' c = view s c"
    "\<forall>i. i \<noteq> dp \<longrightarrow> inodes s' i = inodes s i"
    using writei_ok [OF linkable_writable [OF assms], of S src] .
  let ?V' = "view s'" and ?i' = "inodes s' dp"
  obtain n where n: "isize ?i = n * de_size" using L(2) by (metis dvd_div_mult_self)
  have n': "isize ?i' = max n (j + 1) * de_size" using 1(4) n by (simp add: max_def algebra_simps)
  then have sz: "isize ?i' \<le> MAXFILE * BSIZE" and d': "de_size dvd isize ?i'" and jn: "j \<le> n" using L(3) j n by (auto simp: max_def split: if_splits)
  have B: "m * de_size + x < MAXFILE * BSIZE" if "m < max n (j + 1)" "x < de_size" for m x
  proof -
    have "Suc m * de_size \<le> isize ?i'" unfolding n' using that(1) by (intro mult_le_mono1) simp
    then show ?thesis using sz that(2) by simp
  qed
  have c: "content ?V' ?i' (m * de_size + x) = (if m = j then S (src + x) else fbyte ?V ?i (m * de_size + x))"
    if m: "m < max n (j + 1)" "x < de_size" for m x
  proof -
    have "m = j" if "?off \<le> m * de_size + x" "m * de_size + x < ?off + de_size" using that m(2) by presburger
    moreover have "content ?V' ?i' (m * de_size + x) = fbyte ?V' ?i' (m * de_size + x)" by (rule blk_entry [OF 1(6)]) (use m n' in auto)
    ultimately show ?thesis using 1(7) B [OF m] m(2) by auto
  qed
  have "entry_inum ?V' ?i' m = entry_inum ?V ?i m \<and> entry_name ?V' ?i' m = entry_name ?V ?i m" if m: "m < n" "m \<noteq> j" for m
  proof -
    have "content ?V' ?i' (m * de_size + x) = content ?V ?i (m * de_size + x)" if "x < de_size" for x
      using c [of m x] m that blk_entry [OF L(4), of m x] n by simp
    from entry_cong [OF this] show ?thesis by (simp add: entry_inum_def entry_name_def)
  qed
  then have "entry_written ?V ?i ?V' ?i' j" using n n' jn by (simp add: entry_written_def)
  moreover note entry_cong [of ?V' ?i' j S src, OF c [of j, simplified]]
  moreover have "dir_ok s' dp" using file_mapped [OF 1(2,6) sz] 1(5) L(1) d' by (simp add: dir_ok_def)
  ultimately show thesis using that [OF 1(1) _ 1(3)] 1(2,8,9) by (simp add: fstate_def)
qed

section \<open>Linking a name\<close>

text \<open>\<open>strncpy\<close> copies a name field, padding it with zeros.\<close>

lemma strncpy_pad_other: "i < s \<or> s + n \<le> i \<Longrightarrow> strncpy_pad s n m i = m i"
  by (induction n arbitrary: s m) auto

lemma strncpy_other: "i < s \<or> s + n \<le> i \<Longrightarrow> strncpy_nat s t n m i = m i"
  by (induction n arbitrary: s t m) (auto simp: strncpy_pad_other)

lemma read_bytes_Suc: "read_bytes m a (Suc n) = m a # read_bytes m (a + 1) n"
  by (simp add: read_bytes_def upt_conv_Cons map_Suc_upt [symmetric] del: upt_Suc)

lemma read_bytes_eq: "(\<And>i. a \<le> i \<Longrightarrow> i < a + n \<Longrightarrow> m i = m' i) \<Longrightarrow> read_bytes m a n = read_bytes m' a n"
  by (simp add: read_bytes_def)

lemma strncpy_name:
  "t + n \<le> s \<Longrightarrow> takeWhile (\<lambda>c. c \<noteq> 0) (read_bytes (strncpy_nat s t n m) s n) = takeWhile (\<lambda>c. c \<noteq> 0) (read_bytes m t n)"
proof (induction n arbitrary: s t m)
  case (Suc n)
  define m' where "m' = m(s := m t)"
  have "read_bytes m' (t + 1) n = read_bytes m (t + 1) n" by (rule read_bytes_eq) (use Suc.prems in \<open>auto simp: m'_def\<close>)
  moreover have "takeWhile (\<lambda>c. c \<noteq> 0) (read_bytes (strncpy_nat (s + 1) (t + 1) n m') (s + 1) n) =
      takeWhile (\<lambda>c. c \<noteq> 0) (read_bytes m' (t + 1) n)" by (rule Suc.IH) (use Suc.prems in simp)
  moreover have "m' s = m t" by (simp add: m'_def)
  ultimately show ?case by (simp add: read_bytes_Suc strncpy_other strncpy_pad_other m'_def [symmetric])
qed (simp add: read_bytes_def)

definition free_slot :: "(nat \<Rightarrow> mem) \<Rightarrow> inode \<Rightarrow> nat" where
  "free_slot V i = (case find (\<lambda>j. entry_inum V i j = 0) [0..<isize i div de_size] of
     Some j \<Rightarrow> j | None \<Rightarrow> isize i div de_size)"

lemma free_slot_free: "free_slot V i \<le> isize i div de_size" "free_slot V i < isize i div de_size \<Longrightarrow> entry_inum V i (free_slot V i) = 0"
  by (auto simp: free_slot_def find_upt find_upt_None split: option.splits)

lemma dirlink_step_entry:
  assumes d: "dir_ok s dp" and ok: "tx_ok s k {}" "k < NBUF" and j: "j < isize (inodes s dp) div de_size"
  obtains M' s' where "dirlink_step dp (j * de_size) (M, s) =
      Ok (if entry_inum (view s) (inodes s dp) j = 0 then Some (j * de_size) else None, M', s')"
    "view s' = view s" "tx_frame s s'" "tx_ok s' k {}" "\<And>i. i < link_de \<Longrightarrow> M' i = M i"
proof -
  let ?i = "inodes s dp" and ?V = "view s"
  define N where "N = blit M link_de (content ?V ?i) (j * de_size) de_size"
  have sz: "isize ?i \<le> MAXFILE * BSIZE" by (rule dir_ok_size [OF d])
  have le: "j * de_size + de_size \<le> isize ?i" using j by (auto simp: less_eq_div_iff_mult_less_eq [symmetric])
  have r: "min de_size (isize ?i - j * de_size) = de_size" "\<not> isize ?i < j * de_size" using le by auto
  have lt: "j * de_size + de_size < 2 ^ 32" using sz le by simp
  have ty: "itype ?i \<noteq> T_DEV" using d by (simp add: dir_ok_def)
  from readi_ok [OF ok ty lt, of M link_de] d r le
  obtain s' where 1: "readi dp M link_de (j * de_size) de_size s = Ok (int de_size, N, s')"
    "view s' = view s" "tx_frame s s'" "tx_ok s' k {}"
    by (auto simp: dir_ok_def N_def)
  have "get16 N link_de = entry_inum ?V ?i j" by (simp add: N_def entry_inum_def get16_def blit_def)
  moreover have "i < link_de \<Longrightarrow> N i = M i" for i by (simp add: N_def blit_def)
  ultimately show thesis using that [of N s'] 1 by (simp add: dirlink_step_def)
qed

lemma dir_ok_frame: "dir_ok s dp \<Longrightarrow> tx_frame s s' \<Longrightarrow> view s' = view s \<Longrightarrow> dir_ok s' dp"
  using mapped_frame [of s s'] tx_frame_fs [of s s'] by (simp add: dir_ok_def)

lemma dirlink_scan:
  assumes "dir_ok s dp" "tx_ok s k {}" "k < NBUF" "set js \<subseteq> {..<isize (inodes s dp) div de_size}"
  shows "\<exists>M' s'. loopE (dirlink_step dp) (map (\<lambda>j. j * de_size) js) (M, s) =
       Ok (map_option (\<lambda>j. j * de_size) (find (\<lambda>j. entry_inum (view s) (inodes s dp) j = 0) js), M', s') \<and>
     view s' = view s \<and> tx_frame s s' \<and> tx_ok s' k {} \<and> (\<forall>i < link_de. M' i = M i)"
  using assms
proof (induction js arbitrary: M s)
  case Nil
  then show ?case by (intro exI [of _ M] exI [of _ s]) simp
next
  case (Cons j js)
  have "j < isize (inodes s dp) div de_size" using Cons.prems(4) by simp
  from dirlink_step_entry [OF Cons.prems(1-3) this, of M] obtain M1 s1 where
    1: "dirlink_step dp (j * de_size) (M, s) = Ok (if entry_inum (view s) (inodes s dp) j = 0 then Some (j * de_size) else None, M1, s1)"
    "view s1 = view s" "tx_frame s s1" "tx_ok s1 k {}" "\<And>i. i < link_de \<Longrightarrow> M1 i = M i" by blast
  have f: "inodes s1 = inodes s" using tx_frame_fs [OF 1(3)] by simp
  show ?case
  proof (cases "entry_inum (view s) (inodes s dp) j = 0")
    case True
    then show ?thesis using 1 by (intro exI [of _ M1] exI [of _ s1]) simp
  next
    case False
    have "set js \<subseteq> {..<isize (inodes s1 dp) div de_size}" using Cons.prems(4) f by simp
    from Cons.IH [OF dir_ok_frame [OF Cons.prems(1) 1(3,2)] 1(4) Cons.prems(3) this, of M1] obtain M' s' where
      2: "loopE (dirlink_step dp) (map (\<lambda>j. j * de_size) js) (M1, s1) =
        Ok (map_option (\<lambda>j. j * de_size) (find (\<lambda>j. entry_inum (view s) (inodes s dp) j = 0) js), M', s')"
      "view s' = view s" "tx_frame s1 s'" "tx_ok s' k {}" "\<forall>i < link_de. M' i = M1 i" unfolding f 1(2) by blast
    then show ?thesis using False 1 tx_frame_trans [OF 1(3) 2(3)] by (intro exI [of _ M'] exI [of _ s']) simp
  qed
qed

text \<open>What \<open>dirlink\<close> puts into the entry.\<close>

lemma new_entry:
  fixes M :: mem and w :: word16
  assumes "name + DIRSIZ \<le> link_de"
  defines "M' \<equiv> put16 link_de w (strncpy (link_de + 2) name (int DIRSIZ) M)"
  shows "get16 M' link_de = w" "name_at M' (link_de + 2) = name_at M name"
proof -
  show "get16 M' link_de = w" by (simp add: M'_def)
  have "read_bytes M' (link_de + 2) DIRSIZ = read_bytes (strncpy_nat (link_de + 2) name DIRSIZ M) (link_de + 2) DIRSIZ"
    by (rule read_bytes_eq) (simp add: M'_def put16_other strncpy_def)
  then show "name_at M' (link_de + 2) = name_at M name"
    using strncpy_name [of name DIRSIZ "link_de + 2" M] assms(1) by (simp add: name_at_def)
qed

lemma dirlink_new:
  assumes l: "linkable dp k s" and nm: "name + DIRSIZ \<le> lookup_de" and new: "find_entry (view s) (inodes s dp) (name_at M name) = None"
  obtains M' s' k' where "dirlink dp name ino M s = Ok (0, M', s')" "tx_ok s' k' {}" "k' < NBUF" "dir_ok s' dp" "idev (inodes s' dp) = 1"
    "entry_written (view s) (inodes s dp) (view s') (inodes s' dp) (free_slot (view s) (inodes s dp))"
    "entry_inum (view s') (inodes s' dp) (free_slot (view s) (inodes s dp)) = of_nat ino"
    "entry_name (view s') (inodes s' dp) (free_slot (view s) (inodes s dp)) = name_at M name"
    "\<forall>c. foreign (sb s) (view s) (inodes s dp) c \<and> c \<noteq> IBLOCK (inum (inodes s dp)) (sb s) \<longrightarrow> view s' c = view s c"
    "\<forall>i. i \<noteq> dp \<longrightarrow> inodes s' i = inodes s i"
proof -
  let ?V = "view s" and ?i = "inodes s dp" and ?n = "isize (inodes s dp) div de_size"
  let ?j = "free_slot (view s) (inodes s dp)"
  note D = linkable_dir [OF l]
  from dirlookup_first [of s k dp name M] D nm new obtain M1 s1 where
    1: "view s1 = ?V" "tx_frame s s1" "tx_ok s1 k {}" "dirlookup dp name M s = Ok (None, M1, s1)" by auto
  note e1 = frame_eqs [OF 1(2)]
  have js: "set [0..<?n] \<subseteq> {..<isize (inodes s1 dp) div de_size}" by (auto simp: e1)
  have d1: "dir_ok s1 dp" using dir_ok_frame [OF _ 1(2,1)] D by blast
  have k: "k < NBUF" using D by blast
  from dirlink_scan [OF d1 1(3) k js, of M1] obtain M2 s2 where
    2: "loopE (dirlink_step dp) (map (\<lambda>j. j * de_size) [0..<?n]) (M1, s1) =
       Ok (map_option (\<lambda>j. j * de_size) (find (\<lambda>j. entry_inum ?V ?i j = 0) [0..<?n]), M2, s2)"
    "view s2 = ?V" "tx_frame s1 s2" "tx_ok s2 k {}" "\<forall>i < link_de. M2 i = M1 i" unfolding 1(1) e1(1) by blast
  have f2: "tx_frame s s2" by (rule tx_frame_trans [OF 1(2) 2(3)])
  note e2 = frame_eqs [OF f2]
  have "de_size dvd isize ?i" using D by (simp add: dir_ok_def)
  then have offs: "dir_offs (isize (inodes s1 dp)) = map (\<lambda>j. j * de_size) [0..<?n]"
    unfolding dir_offs_def e1(1) by (elim dvdE) simp
  have off: "(case map_option (\<lambda>j. j * de_size) (find (\<lambda>j. entry_inum ?V ?i j = 0) [0..<?n]) of Some off \<Rightarrow> off
      | None \<Rightarrow> ?n * de_size) = ?j * de_size" by (simp add: free_slot_def split: option.splits)
  have "name_at M2 name = name_at M name"
    by (rule name_at_cong) (use 2(5) dirlookup_frame [OF 1(4)] nm in auto)
  then have N: "get16 N link_de = of_nat ino" "name_at N (link_de + 2) = name_at M name"
    if "N = put16 link_de (of_nat ino) (strncpy (link_de + 2) name (int DIRSIZ) M2)" for N
    using new_entry [of name "of_nat ino" M2] nm unfolding that by simp_all
  define N where "N = put16 link_de (of_nat ino) (strncpy (link_de + 2) name (int DIRSIZ) M2)"
  have l2: "linkable dp k s2" by (rule linkable_frame [OF l f2 2(2,4)])
  have j2: "?j \<le> isize (inodes s2 dp) div de_size" using free_slot_free(1) by (simp add: e2)
  from write_entry [OF l2 j2, of N link_de] obtain s' k' where
    3: "writei dp N link_de (?j * de_size) de_size s2 = Ok (int de_size, s')" "tx_ok s' k' {}" "k' < NBUF" "dir_ok s' dp"
    "entry_written ?V ?i (view s') (inodes s' dp) ?j" "entry_inum (view s') (inodes s' dp) ?j = get16 N link_de"
    "entry_name (view s') (inodes s' dp) ?j = name_at N (link_de + 2)" "idev (inodes s' dp) = 1"
    "\<forall>c. foreign (sb s) ?V ?i c \<and> c \<noteq> IBLOCK (inum ?i) (sb s) \<longrightarrow> view s' c = ?V c"
    "\<forall>i. i \<noteq> dp \<longrightarrow> inodes s' i = inodes s i" unfolding e2 2(2) .
  have "dirlink dp name ino M s = Ok (0, N, s')"
    unfolding dirlink_def 1(4) bindE.simps prod.case option.case(1) Let_def offs 2(1) length_map length_upt diff_zero off N_def [symmetric] 3(1)
    by simp
  from that [OF this 3(2-4,8,5) _ _ 3(9,10)] show thesis unfolding 3(6,7) N [OF N_def] by blast
qed

text \<open>\<open>dirlookup\<close> is the application of the map.\<close>

lemma dirlookup_map:
  assumes "dir_ok s dp" and "tx_ok s k {}" and "k < NBUF" and "name + DIRSIZ \<le> lookup_de"
  shows "\<exists>M' s' off. view s' = view s \<and> inodes s' = inodes s \<and>
     dirlookup dp name M s =
       (case dir_map (view s) (inodes s dp) (name_at M name) of
          None \<Rightarrow> Ok (None, M', s')
        | Some ino \<Rightarrow> bindE (iget (idev (inodes s dp)) ino s') (\<lambda>(ip, s). Ok (Some (ip, off), M', s)))"
proof -
  from dirlookup_first [OF assms(2,3,1,4), of M] obtain M' s' where 1: "view s' = view s" "tx_frame s s'"
    "dirlookup dp name M s =
       (case find_entry (view s) (inodes s dp) (name_at M name) of
          None \<Rightarrow> Ok (None, M', s')
        | Some j \<Rightarrow> bindE (iget (idev (inodes s dp)) (unat (entry_inum (view s) (inodes s dp) j)) s')
            (\<lambda>(ip, s). Ok (Some (ip, j * de_size), M', s)))" by blast
  then show ?thesis using tx_frame_fs [OF 1(2)]
    by (intro exI [of _ M'] exI [of _ s'] exI [of _ "the (find_entry (view s) (inodes s dp) (name_at M name)) * de_size"])
      (auto simp: dir_map_def split: option.splits)
qed

text \<open>\<open>sys_unlink\<close> clears the entry that \<open>dirlookup\<close> found.\<close>

lemma clear_entry:
  assumes l: "linkable dp k s" and j: "find_entry (view s) (inodes s dp) nm = Some j" and d: "distinct_names (view s) (inodes s dp)"
  shows "\<exists>s'. writei dp (memset a 0 de_size M) a (j * de_size) de_size s = Ok (int de_size, s') \<and>
     dir_map (view s') (inodes s' dp) = (dir_map (view s) (inodes s dp))(nm := None) \<and> distinct_names (view s') (inodes s' dp)"
proof -
  have "j \<le> isize (inodes s dp) div de_size" using j by (simp add: find_entry_Some)
  from write_entry [OF l this, of "memset a 0 de_size M" a] obtain s' where
    1: "writei dp (memset a 0 de_size M) a (j * de_size) de_size s = Ok (int de_size, s')"
    "entry_written (view s) (inodes s dp) (view s') (inodes s' dp) j"
    "entry_inum (view s') (inodes s' dp) j = get16 (memset a 0 de_size M) a" by metis
  have "get16 (memset a 0 de_size M) a = 0" by (simp add: get16_def memset_fill fill_def)
  from unlink_map [OF 1(2) j 1(3) [unfolded this] d] 1(1) show ?thesis by blast
qed

text \<open>The directory answers every search as the map \<open>m\<close> says.\<close>

definition answers :: "'a cons_state_scheme \<Rightarrow> nat \<Rightarrow> (byte list \<Rightarrow> nat option) \<Rightarrow> bool" where
  "answers s dp m \<longleftrightarrow> (\<forall>N q. q + DIRSIZ \<le> lookup_de \<longrightarrow>
     (\<exists>N' s' off. view s' = view s \<and> inodes s' = inodes s \<and>
        dirlookup dp q N s = (case m (name_at N q) of None \<Rightarrow> Ok (None, N', s')
          | Some a \<Rightarrow> bindE (iget 1 a s') (\<lambda>(ip, s). Ok (Some (ip, off), N', s)))))"

text \<open>The entry of the inode cache that \<open>iget\<close> uses: that of the inode, or else the first free one.\<close>

definition iget_slot :: "(nat \<Rightarrow> inode) \<Rightarrow> nat \<Rightarrow> nat \<Rightarrow> nat option" where
  "iget_slot t dv ino = (case iget_scan t dv ino [0..<NINODE] None of (Some i, _) \<Rightarrow> Some i | (None, e) \<Rightarrow> e)"

text \<open>The cache after a reference was taken through entry \<open>i\<close> and given back.\<close>

definition ref_back :: "nat \<Rightarrow> (nat \<Rightarrow> inode) \<Rightarrow> (nat \<Rightarrow> inode) \<Rightarrow> bool" where
  "ref_back i t t' \<longleftrightarrow> (\<forall>j. j \<noteq> i \<longrightarrow> t' j = t j) \<and> iref (t' i) = iref (t i) \<and>
     (0 < iref (t i) \<longrightarrow> t' i = (t i)\<lparr>ilk := \<lparr>locked = False, lpid = 0\<rparr>\<rparr>)"

lemma iget_iput:
  fixes s :: "'a fs_state_scheme"
  shows "(case iget_slot (inodes s) dv ino of
     None \<Rightarrow> iget dv ino s = Panic ''iget: no inodes''
   | Some i \<Rightarrow>
       if locked (ilk (inodes s i)) then bindE (iget dv ino s) (\<lambda>(ip, s). iput ip s) = Blocked ''sleep lock''
       else \<exists>s'. bindE (iget dv ino s) (\<lambda>(ip, s). iput ip s) = Ok s' \<and> view s' = view s \<and> ref_back i (inodes s) (inodes s'))"
proof (cases "iget_scan (inodes s) dv ino [0..<NINODE] None")
  case (Pair r e)
  show ?thesis
  proof (cases r)
    case (Some i)
    have "0 < iref (inodes s i)" using iget_scan_Some [of "inodes s" dv ino _ _ i e] Pair Some by blast
    then show ?thesis using Pair Some
      by (auto simp: iget_slot_def iget_def iput_def acquiresleep_def releasesleep_def ref_back_def Let_def comp_def)
  next
    case None
    show ?thesis
    proof (cases e)
      case (Some i)
      have "find (\<lambda>i. iref (inodes s i) = 0) [0..<NINODE] = Some i" using iget_scan_None [of "inodes s" dv ino _ None e] Pair None Some by auto
      then have "iref (inodes s i) = 0" by (auto simp: find_Some_iff)
      then show ?thesis using Pair None Some
        by (auto simp: iget_slot_def iget_def iput_def acquiresleep_def releasesleep_def ref_back_def Let_def comp_def)
    qed (use Pair None in \<open>simp add: iget_slot_def iget_def\<close>)
  qed
qed

text \<open>What \<open>dirlink\<close> does with a name that the directory has, for inode \<open>a\<close>.\<close>

definition link_refused :: "nat \<Rightarrow> nat \<Rightarrow> (int \<times> mem \<times> 'a cons_state_scheme) outcome \<Rightarrow> 'a cons_state_scheme \<Rightarrow> bool" where
  "link_refused dp a r s \<longleftrightarrow>
     (case iget_slot (inodes s) 1 a of
        None \<Rightarrow> r = Panic ''iget: no inodes''
      | Some i \<Rightarrow>
          if locked (ilk (inodes s i)) then r = Blocked ''sleep lock''
          else \<exists>M' s'. r = Ok (-1, M', s') \<and> view s' = view s \<and> ref_back i (inodes s) (inodes s') \<and>
            (0 < iref (inodes s dp) \<longrightarrow> dir_map (view s') (inodes s' dp) = dir_map (view s) (inodes s dp)))"

lemma dir_map_lock: "dir_map V (i\<lparr>ilk := l\<rparr>) = dir_map V i"
proof -
  have "content V (i\<lparr>ilk := l\<rparr>) = content V i" by (simp add: content_def blk_def fun_eq_iff)
  then show ?thesis by (intro ext) (simp add: dir_map_def find_entry_def entry_inum_def entry_name_def)
qed

lemma link_exists:
  assumes l: "linkable dp k s" and nm: "name + DIRSIZ \<le> lookup_de" and a: "dir_map (view s) (inodes s dp) (name_at M name) = Some a"
  shows "link_refused dp a (dirlink dp name ino M s) s"
proof -
  note D = linkable_dir [OF l]
  from dirlookup_map [of s dp k name M] D nm a obtain M' s' off where 1: "view s' = view s" "inodes s' = inodes s"
    "dirlookup dp name M s = bindE (iget 1 a s') (\<lambda>(ip, s). Ok (Some (ip, off), M', s))" by auto
  have d: "dirlink dp name ino M s = bindE (bindE (iget 1 a s') (\<lambda>(ip, s). iput ip s)) (\<lambda>s. Ok (-1, M', s))"
    using 1(3) by (auto simp: dirlink_def bindE_assoc split_beta intro!: bindE_cong)
  show ?thesis
  proof (cases "iget_slot (inodes s) 1 a")
    case None
    then show ?thesis using iget_iput [where s = s' and dv = 1 and ino = a] 1(2) by (simp add: link_refused_def d)
  next
    case (Some i)
    have m: "dir_map V (t' dp) = dir_map V (t dp)" if "ref_back i t t'" "0 < iref (t dp)" for V t t'
      using that by (cases "i = dp") (auto simp: ref_back_def dir_map_lock)
    from iget_iput [where s = s' and dv = 1 and ino = a] Some 1 m show ?thesis unfolding link_refused_def d by (auto split: if_splits)
  qed
qed

lemma link_new:
  assumes l: "linkable dp k s" and nm: "name + DIRSIZ \<le> lookup_de" and ino: "0 < ino" "ino < 2 ^ 16"
    and new: "dir_map (view s) (inodes s dp) (name_at M name) = None"
  shows "\<exists>M' s'. dirlink dp name ino M s = Ok (0, M', s') \<and>
     dir_map (view s') (inodes s' dp) = (dir_map (view s) (inodes s dp))(name_at M name \<mapsto> ino) \<and>
     answers s' dp (dir_map (view s') (inodes s' dp)) \<and>
     (distinct_names (view s) (inodes s dp) \<longrightarrow> distinct_names (view s') (inodes s' dp)) \<and>
     (\<forall>c. foreign (sb s) (view s) (inodes s dp) c \<and> c \<noteq> IBLOCK (inum (inodes s dp)) (sb s) \<longrightarrow> view s' c = view s c) \<and>
     (\<forall>i. i \<noteq> dp \<longrightarrow> inodes s' i = inodes s i)"
proof -
  let ?j = "free_slot (view s) (inodes s dp)"
  have f: "find_entry (view s) (inodes s dp) (name_at M name) = None" using new by (simp add: dir_map_def)
  obtain M' s' k' where 1: "dirlink dp name ino M s = Ok (0, M', s')" "tx_ok s' k' {}" "k' < NBUF" "dir_ok s' dp" "idev (inodes s' dp) = 1"
    "entry_written (view s) (inodes s dp) (view s') (inodes s' dp) ?j" "entry_inum (view s') (inodes s' dp) ?j = of_nat ino"
    "entry_name (view s') (inodes s' dp) ?j = name_at M name"
    "\<forall>c. foreign (sb s) (view s) (inodes s dp) c \<and> c \<noteq> IBLOCK (inum (inodes s dp)) (sb s) \<longrightarrow> view s' c = view s c"
    "\<forall>i. i \<noteq> dp \<longrightarrow> inodes s' i = inodes s i"
    using dirlink_new [OF l nm f, of ino] .
  have w: "unat (of_nat ino :: word16) = ino" using ino(2) by (simp add: unat_of_nat take_bit_nat_eq_self)
  then have use: "in_use (view s') (inodes s' dp) ?j (name_at M name)" using 1(7,8) ino(1) by (auto simp: in_use_def)
  have free: "?j < isize (inodes s dp) div de_size \<longrightarrow> entry_inum (view s) (inodes s dp) ?j = 0" using free_slot_free(2) by blast
  note L = link_map [OF 1(6) free use f, unfolded 1(7) w]
  have "answers s' dp (dir_map (view s') (inodes s' dp))"
    using dirlookup_map [OF 1(4,2,3)] unfolding answers_def 1(5) by blast
  then show ?thesis using 1(1,9,10) L(3,4) by blast
qed

text \<open>C9: a directory is a map from names to inode numbers.  On a directory with room in the log and on the disk,
  \<open>dirlink\<close> of a name that is not in the map enters it, leaving every other name, the blocks of other files and the other inodes as they
  were, and the names stay distinct.  Of a name in the map, \<open>dirlink\<close> takes a reference to its inode and gives it back: it returns
  \<open>-1\<close> with every block, every entry of the inode cache in use and the reference counts as they were (a free entry may have been
  filled), unless the cache is full, when it panics, or the entry is locked, when it sleeps; a caller that has locked that very
  inode, as when the name is \<open>.\<close>, never wakes.  \<open>dirlookup\<close> of any name, before and after, finds exactly what the map says.\<close>

theorem dirlink_map:
  fixes M :: mem
  assumes "linkable dp k s" and "name + DIRSIZ \<le> lookup_de" and "0 < ino" and "ino < 2 ^ 16"
  defines "m \<equiv> dir_map (view s) (inodes s dp)" and "nm \<equiv> name_at M name"
  shows "answers s dp m \<and>
     (\<forall>a. m nm = Some a \<longrightarrow> link_refused dp a (dirlink dp name ino M s) s) \<and>
     (m nm = None \<longrightarrow> (\<exists>M' s'. dirlink dp name ino M s = Ok (0, M', s') \<and>
       dir_map (view s') (inodes s' dp) = m(nm \<mapsto> ino) \<and> answers s' dp (dir_map (view s') (inodes s' dp)) \<and>
       (distinct_names (view s) (inodes s dp) \<longrightarrow> distinct_names (view s') (inodes s' dp)) \<and>
       (\<forall>c. foreign (sb s) (view s) (inodes s dp) c \<and> c \<noteq> IBLOCK (inum (inodes s dp)) (sb s) \<longrightarrow> view s' c = view s c) \<and>
       (\<forall>i. i \<noteq> dp \<longrightarrow> inodes s' i = inodes s i)))"
proof -
  note D = linkable_dir [OF assms(1)]
  have "answers s dp m" unfolding answers_def m_def using dirlookup_map [of s dp k] D by metis
  then show ?thesis unfolding m_def nm_def by (intro conjI allI impI link_exists [OF assms(1,2)] link_new [OF assms(1-4)])
qed

text \<open>The empty root directory of the small file system gets an entry for inode 2.\<close>

lemma demo_linkable: "linkable 0 0 demo_cons"
proof -
  have "isize (inodes demo_cons 0) = 0" "itype (inodes demo_cons 0) = T_DIR" by (simp_all add: demo_cons_fs small_fs_sel root_inode_def)
  then show ?thesis using demo_writable by (auto simp: linkable_def writable_def span_blocks_def)
qed

theorem dirlink_map_witness:
  "\<exists>M' s'. dirlink 0 100 2 (write_bytes 100 [0x61, 0] (\<lambda>_. 0)) demo_cons = Ok (0, M', s') \<and>
     dir_map (view s') (inodes s' 0) = [[0x61] \<mapsto> 2]"
proof -
  let ?M = "write_bytes 100 [0x61, 0] (\<lambda>_. 0)"
  have z: "isize (inodes demo_cons 0) = 0" by (simp add: demo_cons_fs small_fs_sel root_inode_def)
  have e: "dir_map (view demo_cons) (inodes demo_cons 0) = Map.empty" by (simp add: dir_map_def find_entry_def z fun_eq_iff)
  have n: "name_at ?M 100 = [0x61]" by (simp add: name_at_def read_bytes_def upt_rec)
  show ?thesis using dirlink_map [OF demo_linkable, of 100 2 ?M] unfolding e n by auto
qed

end
