(* ===== verification/Mkfs.thy ===== *)
theory Mkfs
  imports Dirs
begin

text \<open>
  \<^verbatim>\<open>src/alarm/mkfs.c\<close>, which builds the disk image on the host, and its agreement with the file system of the kernel.  The
  image is a file of sectors, with its length: reading past the end fails.  The inode buffer of the program is an \<open>inode\<close> of which
  only the fields of \<open>struct dinode\<close> count.  Calls of the host that fail end the program, as the assertions do; the only
  failures left in the model are those that depend on the program: reading past the end of the image, and a file that cannot be
  opened or was not found.  A file to be copied is given by its name and the results of the calls of \<open>read\<close>.
\<close>

abbreviation NINODES :: nat where "NINODES \<equiv> 200"
abbreviation FSSIZE :: nat where "FSSIZE \<equiv> 1000"

definition nbitmap :: nat where
  "nbitmap = FSSIZE div (BSIZE * 8) + 1"

definition ninodeblocks :: nat where
  "ninodeblocks = NINODES div IPB + 1"

definition nlog :: nat where
  "nlog = nat LOGSIZE"

definition nmeta :: nat where
  "nmeta = 2 + nlog + ninodeblocks + nbitmap"

definition msb :: superblock where
  "msb = \<lparr>sb_size = FSSIZE, sb_nblocks = FSSIZE - nmeta, sb_ninodes = NINODES, sb_nlog = nlog, sb_logstart = 2,
     sb_inodestart = 2 + nlog, sb_bmapstart = 2 + nlog + ninodeblocks\<rparr>"

record mkfs_state =
  img :: "nat \<Rightarrow> mem"
  len :: nat
  freeinode :: nat
  freeblock :: nat

text \<open>Numbers in the byte order of the target.\<close>

definition xshort :: "word16 \<Rightarrow> byte list" where
  "xshort x = [ucast x, ucast (drop_bit 8 x)]"

definition xint :: "word32 \<Rightarrow> byte list" where
  "xint x = [ucast x, ucast (drop_bit 8 x), ucast (drop_bit 16 x), ucast (drop_bit 24 x)]"

definition wsect :: "nat \<Rightarrow> mem \<Rightarrow> mkfs_state \<Rightarrow> mkfs_state" where
  "wsect sec buf s = s\<lparr>img := (img s)(sec := buf), len := max (len s) (sec + 1)\<rparr>"

definition rsect :: "nat \<Rightarrow> mkfs_state \<Rightarrow> mem outcome" where
  "rsect sec s = (if sec < len s then Ok (img s sec) else Panic ''read'')"

definition winode :: "nat \<Rightarrow> inode \<Rightarrow> mkfs_state \<Rightarrow> mkfs_state outcome" where
  "winode ino ip s =
     (let bn = IBLOCK ino msb in
      bindE (rsect bn s) (\<lambda>buf. Ok (wsect bn (put_dinode (dinode_off ino) ip buf) s)))"

definition zero_dinode :: inode where
  "zero_dinode = \<lparr>idev = 0, inum = 0, iref = 0, ilk = initsleeplock, ivalid = False, itype = 0, imajor = 0, iminor = 0,
     inlink = 0, isize = 0, iaddrs = \<lambda>_. 0\<rparr>"

definition rinode :: "nat \<Rightarrow> mkfs_state \<Rightarrow> inode outcome" where
  "rinode ino s =
     bindE (rsect (IBLOCK ino msb) s) (\<lambda>buf. Ok (get_dinode (dinode_off ino) buf zero_dinode))"

definition mk_ialloc :: "word16 \<Rightarrow> mkfs_state \<Rightarrow> (nat \<times> mkfs_state) outcome" where
  "mk_ialloc ty s =
     (let ino = freeinode s; s = s\<lparr>freeinode := ino + 1\<rparr> in
      bindE (winode ino (zero_dinode\<lparr>itype := ty, inlink := 1, isize := 0\<rparr>) s) (\<lambda>s. Ok (ino, s)))"

definition mk_balloc :: "nat \<Rightarrow> mkfs_state \<Rightarrow> mkfs_state outcome" where
  "mk_balloc u s =
     (if \<not> u < BSIZE * 8 then Panic ''assert''
      else Ok (wsect (sb_bmapstart msb) (fold (\<lambda>i buf. buf(i div 8 := buf (i div 8) OR bit_mask i)) [0..<u] (\<lambda>_. 0)) s))"

section \<open>Appending to a file\<close>

definition new_block :: "mkfs_state \<Rightarrow> nat \<times> mkfs_state" where
  "new_block s = (freeblock s, s\<lparr>freeblock := freeblock s + 1\<rparr>)"

text \<open>The block for position \<open>fbn\<close>, with the inode and the image after allocating it where necessary.\<close>

definition iappend_block :: "inode \<Rightarrow> nat \<Rightarrow> mkfs_state \<Rightarrow> (nat \<times> inode \<times> mkfs_state) outcome" where
  "iappend_block din fbn s =
     (if fbn < NDIRECT then
        let (din, s) = (if iaddrs din fbn = 0 then let (b, s) = new_block s in (din\<lparr>iaddrs := (iaddrs din)(fbn := b)\<rparr>, s)
                        else (din, s))
        in Ok (iaddrs din fbn, din, s)
      else
        let (din, s) = (if iaddrs din NDIRECT = 0 then let (b, s) = new_block s in (din\<lparr>iaddrs := (iaddrs din)(NDIRECT := b)\<rparr>, s)
                        else (din, s)) in
        bindE (rsect (iaddrs din NDIRECT) s) (\<lambda>ind.
        let j = fbn - NDIRECT;
            (ind, s) = (if get32 ind (4 * j) = 0 then
                          let (b, s) = new_block s; ind = put32 (4 * j) (of_nat b) ind in (ind, wsect (iaddrs din NDIRECT) ind s)
                        else (ind, s))
        in Ok (unat (get32 ind (4 * j)), din, s)))"

lemma block_room: "(off div BSIZE + 1) * BSIZE - off = BSIZE - off mod BSIZE"
  using block_end [of off] by linarith

function iappend_loop :: "inode \<Rightarrow> nat \<Rightarrow> byte list \<Rightarrow> mkfs_state \<Rightarrow> (inode \<times> nat \<times> mkfs_state) outcome" where
  "iappend_loop din off p s =
     (if p = [] then Ok (din, off, s)
      else let fbn = off div BSIZE in
        if \<not> fbn < MAXFILE then Panic ''assert''
        else
          bindE (iappend_block din fbn s) (\<lambda>(x, din, s).
          let n1 = min (length p) ((fbn + 1) * BSIZE - off) in
          bindE (rsect x s) (\<lambda>buf.
          iappend_loop din (off + n1) (drop n1 p) (wsect x (write_bytes (off - fbn * BSIZE) (take n1 p) buf) s))))"
  by pat_completeness auto
termination
proof (relation "measure (\<lambda>(din, off, p, s). length p)", goal_cases)
  case (2 din off p s)
  have "0 < BSIZE - off mod BSIZE" by simp
  then show ?case using 2 by (simp add: block_room)
qed simp

declare iappend_loop.simps [simp del]

definition iappend :: "nat \<Rightarrow> byte list \<Rightarrow> mkfs_state \<Rightarrow> mkfs_state outcome" where
  "iappend ino p s =
     bindE (rinode ino s) (\<lambda>din.
     bindE (iappend_loop din (isize din) p s) (\<lambda>(din, off, s).
     winode ino (din\<lparr>isize := off\<rparr>) s))"

section \<open>The main program\<close>

text \<open>A directory entry: the name is copied into a field of zeros.\<close>

definition dirent_bytes :: "nat \<Rightarrow> byte list \<Rightarrow> byte list" where
  "dirent_bytes ino name = xshort (of_nat ino) @ take DIRSIZ (name @ replicate DIRSIZ 0)"

type_synonym host_file = "byte list \<times> byte list list option"

definition skip_underscore :: "byte list \<Rightarrow> byte list" where
  "skip_underscore name = (case name of c # rest \<Rightarrow> if c = 0x5F then rest else name | [] \<Rightarrow> name)"

definition add_file :: "host_file \<Rightarrow> mkfs_state \<Rightarrow> mkfs_state outcome" where
  "add_file = (\<lambda>(name, reads) s.
     if slash \<in> set name then Panic ''assert''
     else case reads of None \<Rightarrow> Panic ''open''
     | Some chunks \<Rightarrow>
         bindE (mk_ialloc T_FILE s) (\<lambda>(ino, s).
         bindE (iappend ROOTINO (dirent_bytes ino (skip_underscore name)) s) (\<lambda>s.
         forE (iappend ino) chunks s)))"

definition sb_sector :: mem where
  "sb_sector = write_bytes 0 (concat (map (\<lambda>n. xint (of_nat n)) [sb_size msb, sb_nblocks msb, sb_ninodes msb, sb_nlog msb,
     sb_logstart msb, sb_inodestart msb, sb_bmapstart msb])) (\<lambda>_. 0)"

definition blank_image :: mkfs_state where
  "blank_image = wsect 1 sb_sector (fold (\<lambda>i. wsect i (\<lambda>_. 0)) [0..<FSSIZE]
     \<lparr>img = (\<lambda>_ _. 0), len = 0, freeinode = 1, freeblock = nmeta\<rparr>)"

definition fix_root :: "mkfs_state \<Rightarrow> mkfs_state outcome" where
  "fix_root s =
     bindE (rinode ROOTINO s) (\<lambda>din.
     let off = (isize din div BSIZE + 1) * BSIZE in winode ROOTINO (din\<lparr>isize := off\<rparr>) s)"

definition mkfs :: "host_file list \<Rightarrow> mkfs_state outcome" where
  "mkfs files =
     bindE (mk_ialloc T_DIR blank_image) (\<lambda>(rootino, s).
     if rootino \<noteq> ROOTINO then Panic ''assert''
     else
       bindE (iappend rootino (dirent_bytes rootino [0x2E]) s) (\<lambda>s.
       bindE (iappend rootino (dirent_bytes rootino [0x2E, 0x2E]) s) (\<lambda>s.
       bindE (forE add_file files s) (\<lambda>s.
       bindE (fix_root s) (\<lambda>s. mk_balloc (freeblock s) s)))))"

section \<open>The layout of the files\<close>

lemma nmeta_value: "nmeta = 59" "nlog = 30" "ninodeblocks = 26"
  by (simp_all add: nmeta_def nlog_def ninodeblocks_def nbitmap_def)

lemma addr_blk: "q < MAXFILE \<Longrightarrow> addr V i q = blk V i q" "addr V i MAXFILE = iaddrs i NDIRECT"
  by (simp_all add: addr_def)

text \<open>
  \<open>lay V D n fb\<close>: the files \<open>1\<close> to \<open>n - 1\<close>, with the inodes \<open>D\<close>, have blocks of their own between the start of the data area and \<open>fb\<close>,
  and from \<open>fb\<close> on the image is zero.
\<close>

definition lay :: "(nat \<Rightarrow> mem) \<Rightarrow> (nat \<Rightarrow> inode) \<Rightarrow> nat \<Rightarrow> nat \<Rightarrow> bool" where
  "lay V D n fb \<longleftrightarrow> nmeta \<le> fb \<and>
     (\<forall>k q. 0 < k \<and> k < n \<and> q \<le> MAXFILE \<and> addr V (D k) q \<noteq> 0 \<longrightarrow> nmeta \<le> addr V (D k) q \<and> addr V (D k) q < fb) \<and>
     (\<forall>k q l r. 0 < k \<and> k < n \<and> q \<le> MAXFILE \<and> 0 < l \<and> l < n \<and> r \<le> MAXFILE \<and> addr V (D k) q \<noteq> 0 \<and>
        addr V (D k) q = addr V (D l) r \<longrightarrow> k = l \<and> q = r) \<and>
     (\<forall>b x. fb \<le> b \<longrightarrow> V b x = 0)"

lemma layD:
  assumes "lay V D n fb"
  shows "nmeta \<le> fb" "0 < k \<Longrightarrow> k < n \<Longrightarrow> q \<le> MAXFILE \<Longrightarrow> addr V (D k) q \<noteq> 0 \<Longrightarrow> nmeta \<le> addr V (D k) q \<and> addr V (D k) q < fb"
    "0 < k \<Longrightarrow> k < n \<Longrightarrow> q \<le> MAXFILE \<Longrightarrow> 0 < l \<Longrightarrow> l < n \<Longrightarrow> r \<le> MAXFILE \<Longrightarrow> addr V (D k) q \<noteq> 0 \<Longrightarrow>
       addr V (D k) q = addr V (D l) r \<Longrightarrow> k = l \<and> q = r"
    "fb \<le> b \<Longrightarrow> V b x = 0"
  using assms unfolding lay_def by blast+

lemma layI:
  assumes "nmeta \<le> fb" "\<And>k q. 0 < k \<Longrightarrow> k < n \<Longrightarrow> q \<le> MAXFILE \<Longrightarrow> addr V (D k) q \<noteq> 0 \<Longrightarrow> nmeta \<le> addr V (D k) q \<and> addr V (D k) q < fb"
    "\<And>k q l r. 0 < k \<Longrightarrow> k < n \<Longrightarrow> q \<le> MAXFILE \<Longrightarrow> 0 < l \<Longrightarrow> l < n \<Longrightarrow> r \<le> MAXFILE \<Longrightarrow> addr V (D k) q \<noteq> 0 \<Longrightarrow>
       addr V (D k) q = addr V (D l) r \<Longrightarrow> k = l \<and> q = r"
    "\<And>b x. fb \<le> b \<Longrightarrow> V b x = 0"
  shows "lay V D n fb"
  using assms unfolding lay_def by blast

text \<open>Position \<open>q\<close> of file \<open>k\<close>, empty so far, gets the block \<open>fb\<close>; apart from indirect blocks nothing is written.\<close>

definition grows :: "(nat \<Rightarrow> mem) \<Rightarrow> (nat \<Rightarrow> inode) \<Rightarrow> nat \<Rightarrow> nat \<Rightarrow> nat \<Rightarrow> nat \<Rightarrow> (nat \<Rightarrow> mem) \<Rightarrow> (nat \<Rightarrow> inode) \<Rightarrow> bool" where
  "grows V D n fb k q V' D' \<longleftrightarrow> 0 < k \<and> k < n \<and> q \<le> MAXFILE \<and> addr V (D k) q = 0 \<and>
     (\<forall>l r. 0 < l \<and> l < n \<and> r \<le> MAXFILE \<longrightarrow> addr V' (D' l) r = (if l = k \<and> r = q then fb else addr V (D l) r)) \<and>
     (\<forall>b. b \<noteq> addr V (D k) MAXFILE \<or> addr V (D k) MAXFILE = 0 \<longrightarrow> V' b = V b) \<and>
     (\<forall>l. l \<noteq> k \<longrightarrow> D' l = D l)"

lemma growsD:
  assumes "grows V D n fb k q V' D'"
  shows "0 < k" "k < n" "q \<le> MAXFILE" "addr V (D k) q = 0"
    "0 < l \<Longrightarrow> l < n \<Longrightarrow> r \<le> MAXFILE \<Longrightarrow> addr V' (D' l) r = (if l = k \<and> r = q then fb else addr V (D l) r)"
    "b \<noteq> addr V (D k) MAXFILE \<or> addr V (D k) MAXFILE = 0 \<Longrightarrow> V' b = V b" "l \<noteq> k \<Longrightarrow> D' l = D l"
  using assms unfolding grows_def by simp_all

lemma lay_ind:
  assumes "lay V D n fb" "0 < k" "k < n"
  shows "addr V (D k) MAXFILE < fb"
  using layD(1) [OF assms(1)] layD(2) [OF assms, of MAXFILE] nmeta_value by (cases "addr V (D k) MAXFILE = 0") auto

lemma grows_lay:
  assumes l: "lay V D n fb" and g: "grows V D n fb k q V' D'"
  shows "lay V' D' n (fb + 1)"
proof -
  note L = layD [OF l]
  note G = growsD [OF g] and A = growsD(5) [OF g]
  have fresh: "addr V (D l) r \<noteq> fb" if "0 < l" "l < n" "r \<le> MAXFILE" for l r
    using L(2) [OF that] L(1) nmeta_value by (cases "addr V (D l) r = 0") auto
  show ?thesis
  proof (rule layI)
    show "nmeta \<le> fb + 1" using L(1) by simp
    show "nmeta \<le> addr V' (D' l) r \<and> addr V' (D' l) r < fb + 1" if "0 < l" "l < n" "r \<le> MAXFILE" "addr V' (D' l) r \<noteq> 0" for l r
      using A [OF that(1-3)] L(1) L(2) [OF that(1-3)] that(4) by (auto split: if_splits)
    show "l = l' \<and> r = r'" if "0 < l" "l < n" "r \<le> MAXFILE" "0 < l'" "l' < n" "r' \<le> MAXFILE" "addr V' (D' l) r \<noteq> 0"
      "addr V' (D' l) r = addr V' (D' l') r'" for l r l' r'
      using that(7,8) A [OF that(1-3)] A [OF that(4-6)] fresh [OF that(1-3)] fresh [OF that(4-6)] L(3) [OF that(1-6)]
      by (auto split: if_splits)
    show "V' b x = 0" if "fb + 1 \<le> b" for b x using G(6) [of b] lay_ind [OF l G(1,2)] L(4) [of b x] that by simp
  qed
qed

text \<open>The bytes of all files stay, the new block being zero.\<close>

lemma grows_bytes:
  assumes l: "lay V D n fb" and g: "grows V D n fb k q V' D'" and r: "0 < j" "j < n" "p < MAXFILE * BSIZE"
  shows "fbyte V' (D' j) p = fbyte V (D j) p"
proof -
  note L = layD [OF l]
  define t where "t = p div BSIZE"
  have t: "t < MAXFILE" using r(3) unfolding t_def by (simp add: div_less_iff_less_mult)
  note G = growsD [OF g]
  have A: "blk V' (D' j) t = (if j = k \<and> t = q then fb else blk V (D j) t)"
    using G(5) [OF r(1,2), of t] t by (simp add: addr_blk)
  show ?thesis
  proof (cases "j = k \<and> t = q")
    case True
    then have "blk V (D j) t = 0" using G(4) t by (simp add: addr_blk)
    moreover have "V' fb = V fb" using G(6) [of fb] lay_ind [OF l G(1,2)] by simp
    ultimately show ?thesis using A True L(4) [of fb] by (simp add: fbyte_def content_def t_def [symmetric])
  next
    case False
    have B: "blk V' (D' j) t = blk V (D j) t" using A unfolding if_not_P [OF False] .
    have "V' (blk V (D j) t) = V (blk V (D j) t)" if "blk V (D j) t \<noteq> 0"
      using L(3) [OF r(1,2), of t k MAXFILE] G(1,2) t that by (intro G(6)) (auto simp: addr_blk)
    then show ?thesis unfolding fbyte_def content_def t_def [symmetric] B by simp
  qed
qed

text \<open>A block of file \<open>k\<close> is written.\<close>

lemma data_write:
  assumes l: "lay V D n fb" and k: "0 < k" "k < n" "q < MAXFILE" "blk V (D k) q \<noteq> 0"
  shows "\<And>i r. 0 < i \<Longrightarrow> i < n \<Longrightarrow> addr (V(blk V (D k) q := d)) (D i) r = addr V (D i) r" "lay (V(blk V (D k) q := d)) D n fb"
    "\<And>i p. 0 < i \<Longrightarrow> i < n \<Longrightarrow> p < MAXFILE * BSIZE \<Longrightarrow> fbyte (V(blk V (D k) q := d)) (D i) p =
       (if i = k \<and> p div BSIZE = q then d (p mod BSIZE) else fbyte V (D i) p)"
proof -
  note L = layD [OF l]
  let ?a = "blk V (D k) q" and ?V = "V(blk V (D k) q := d)"
  have a: "addr V (D k) q = ?a" using k(3) by (simp add: addr_def)
  have ni: "iaddrs (D i) NDIRECT \<noteq> ?a" if "0 < i" "i < n" for i
    using L(3) [OF k(1,2), of q i MAXFILE] that k a by (auto simp: addr_def)
  show A: "addr ?V (D i) r = addr V (D i) r" if "0 < i" "i < n" for i r
    using ni [OF that] by (simp add: addr_def blk_def)
  show "lay ?V D n fb"
  proof (rule layI)
    show "nmeta \<le> fb" by (rule L(1))
    show "nmeta \<le> addr ?V (D i) r \<and> addr ?V (D i) r < fb" if "0 < i" "i < n" "r \<le> MAXFILE" "addr ?V (D i) r \<noteq> 0" for i r
      using L(2) [OF that(1-3)] A [OF that(1,2)] that(4) by simp
    show "i = j \<and> r = t" if "0 < i" "i < n" "r \<le> MAXFILE" "0 < j" "j < n" "t \<le> MAXFILE" "addr ?V (D i) r \<noteq> 0"
      "addr ?V (D i) r = addr ?V (D j) t" for i r j t using L(3) [OF that(1-6)] A [OF that(1,2)] A [OF that(4,5)] that(7,8) by simp
    show "?V b x = 0" if "fb \<le> b" for b x using L(2) [OF k(1,2), of q] L(4) [OF that] that k(3,4) a by auto
  qed
  show "fbyte ?V (D i) p = (if i = k \<and> p div BSIZE = q then d (p mod BSIZE) else fbyte V (D i) p)"
    if i: "0 < i" "i < n" "p < MAXFILE * BSIZE" for i p
  proof -
    define r where "r = p div BSIZE"
    have r: "r < MAXFILE" using i(3) unfolding r_def by (simp add: div_less_iff_less_mult)
    have B: "blk ?V (D i) r = blk V (D i) r" using A [OF i(1,2), of r] r by (simp add: addr_def)
    have e: "i = k \<and> r = q" if "blk V (D i) r = ?a"
      using L(3) [OF k(1,2) less_imp_le [OF k(3)] i(1,2) less_imp_le [OF r], unfolded addr_blk(1) [OF k(3)] addr_blk(1) [OF r], OF k(4)]
        that by metis
    show ?thesis
    proof (cases "i = k \<and> r = q")
      case True
      then show ?thesis using B k(4) by (simp add: fbyte_def content_def r_def [symmetric])
    next
      case False
      then have "blk V (D i) r \<noteq> ?a" using e by blast
      then show ?thesis unfolding fbyte_def content_def r_def [symmetric] B if_not_P [OF False] by (simp only: fun_upd_apply simp_thms if_False)
    qed
  qed
qed

section \<open>A block more\<close>

lemma take_slot:
  assumes l: "lay V D n fb" and k: "0 < k" "k < n" "q \<le> NDIRECT" "iaddrs (D k) q = 0"
  shows "grows V D n fb k (if q = NDIRECT then MAXFILE else q) V (D(k := (D k)\<lparr>iaddrs := (iaddrs (D k))(q := fb)\<rparr>))"
proof -
  note L = layD [OF l]
  have z: "get32 (V fb) (4 * j) = 0" for j by (rule get32_zero) (simp add: L(4))
  have fb: "fb \<noteq> 0" using L(1) nmeta_value by simp
  define m where "m = (if q = NDIRECT then MAXFILE else q)"
  have "addr V ((D k)\<lparr>iaddrs := (iaddrs (D k))(q := fb)\<rparr>) r = (if r = m then fb else addr V (D k) r)"
    if "r \<le> MAXFILE" for r
  proof (cases "r < NDIRECT")
    case True
    then show ?thesis using k(3) by (simp add: addr_def blk_def m_def)
  next
    case False
    then show ?thesis using that k z fb by (auto simp: addr_def blk_def m_def)
  qed
  moreover have "addr V (D k) m = 0" "m \<le> MAXFILE" using k by (auto simp: addr_def blk_def m_def)
  ultimately show ?thesis using k unfolding m_def [symmetric] by (simp add: grows_def)
qed

lemma take_entry:
  assumes l: "lay V D n fb" "fb < 2 ^ 32" and k: "0 < k" "k < n" and ind: "ind = iaddrs (D k) NDIRECT" "ind \<noteq> 0"
    and j: "j < NINDIRECT" "get32 (V ind) (4 * j) = 0"
  shows "grows V D n fb k (NDIRECT + j) (V(ind := put32 (4 * j) (of_nat fb) (V ind))) D"
proof -
  note L = layD [OF l(1)]
  let ?V = "V(ind := put32 (4 * j) (of_nat fb) (V ind))"
  have bn: "unat (of_nat fb :: word32) = fb" using l(2) by (simp add: unat_of_nat)
  have ik: "addr V (D k) MAXFILE = ind" using ind by (simp add: addr_def)
  have own: "i = k" if "0 < i" "i < n" "iaddrs (D i) NDIRECT = ind" for i
  proof -
    have "addr V (D k) MAXFILE = addr V (D i) MAXFILE" using ind(1) that(3) by (simp only: addr_blk(2))
    then show ?thesis using L(3) [OF k order_refl that(1,2) order_refl] ind(2) unfolding ik by metis
  qed
  have "addr ?V (D i) r = (if i = k \<and> r = NDIRECT + j then fb else addr V (D i) r)" if i: "0 < i" "i < n" "r \<le> MAXFILE" for i r
  proof (cases "NDIRECT \<le> r \<and> r < MAXFILE \<and> iaddrs (D i) NDIRECT = ind")
    case True
    then have ik: "i = k" using own i by blast
    show ?thesis
    proof (cases "r = NDIRECT + j")
      case False
      then have "4 * (r - NDIRECT) + 4 \<le> 4 * j \<or> 4 * j + 4 \<le> 4 * (r - NDIRECT)" using True by auto
      then show ?thesis using True False ind by (auto simp: addr_def blk_def get32_put32_other)
    qed (use True ind j(1) bn ik in \<open>simp add: addr_def blk_def\<close>)
  next
    case False
    then have "\<not> (i = k \<and> r = NDIRECT + j)" using ind(1) j(1) by auto
    moreover have "addr ?V (D i) r = addr V (D i) r" using False i(3) by (auto simp: addr_def blk_def)
    ultimately show ?thesis by (simp only: if_False)
  qed
  moreover have "addr V (D k) (NDIRECT + j) = 0" using ind j by (auto simp: addr_def blk_def)
  ultimately show ?thesis using k j(1) ik ind(2) by (simp add: grows_def)
qed

text \<open>Some positions \<open>Q\<close> of file \<open>k\<close> got blocks; the bytes of all files, the other files and the sectors before the data stay.\<close>

definition bigger :: "nat \<Rightarrow> nat \<Rightarrow> nat set \<Rightarrow> (nat \<Rightarrow> mem) \<Rightarrow> (nat \<Rightarrow> inode) \<Rightarrow> (nat \<Rightarrow> mem) \<Rightarrow> (nat \<Rightarrow> inode) \<Rightarrow> bool" where
  "bigger n k Q V D V' D' \<longleftrightarrow>
     (\<forall>i r. 0 < i \<and> i < n \<and> r \<le> MAXFILE \<and> \<not> (i = k \<and> r \<in> Q) \<longrightarrow> addr V' (D' i) r = addr V (D i) r) \<and>
     (\<forall>i p. 0 < i \<and> i < n \<and> p < MAXFILE * BSIZE \<longrightarrow> fbyte V' (D' i) p = fbyte V (D i) p) \<and>
     (\<forall>i. i \<noteq> k \<longrightarrow> D' i = D i) \<and> (\<forall>b < nmeta. V' b = V b)"

lemma biggerD:
  assumes "bigger n k Q V D V' D'"
  shows "0 < i \<Longrightarrow> i < n \<Longrightarrow> r \<le> MAXFILE \<Longrightarrow> \<not> (i = k \<and> r \<in> Q) \<Longrightarrow> addr V' (D' i) r = addr V (D i) r"
    "0 < i \<Longrightarrow> i < n \<Longrightarrow> p < MAXFILE * BSIZE \<Longrightarrow> fbyte V' (D' i) p = fbyte V (D i) p" "i \<noteq> k \<Longrightarrow> D' i = D i" "b < nmeta \<Longrightarrow> V' b = V b"
  using assms unfolding bigger_def by blast+

lemma bigger_refl: "bigger n k {} V D V D"
  by (simp add: bigger_def)

lemma bigger_trans: "bigger n k Q V D V' D' \<Longrightarrow> bigger n k R V' D' V'' D'' \<Longrightarrow> bigger n k (Q \<union> R) V D V'' D''"
  unfolding bigger_def by (intro conjI) (simp_all)

lemma grows_bigger:
  assumes l: "lay V D n fb" and g: "grows V D n fb k q V' D'"
  shows "bigger n k {q} V D V' D'"
proof -
  note G = growsD [OF g]
  have "V' b = V b" if "b < nmeta" for b
  proof (rule G(6))
    show "b \<noteq> addr V (D k) MAXFILE \<or> addr V (D k) MAXFILE = 0"
      using layD(2) [OF l G(1,2) order_refl] that by linarith
  qed
  moreover have "addr V' (D' i) r = addr V (D i) r" if "0 < i" "i < n" "r \<le> MAXFILE" "\<not> (i = k \<and> r \<in> {q})" for i r
    using G(5) [OF that(1-3)] that(4) by auto
  ultimately show ?thesis unfolding bigger_def using G(7) grows_bytes [OF l g] by blast
qed

text \<open>What a file with the content \<open>xs\<close> looks like, and the number of its blocks.\<close>

definition filled :: "(nat \<Rightarrow> mem) \<Rightarrow> inode \<Rightarrow> byte list \<Rightarrow> bool" where
  "filled V i xs \<longleftrightarrow> length xs \<le> MAXFILE * BSIZE \<and> (\<forall>q < MAXFILE. blk V i q \<noteq> 0 \<longleftrightarrow> q * BSIZE < length xs) \<and>
     (iaddrs i NDIRECT \<noteq> 0 \<longleftrightarrow> NDIRECT * BSIZE < length xs) \<and>
     (\<forall>p < MAXFILE * BSIZE. fbyte V i p = (if p < length xs then xs ! p else 0))"

definition blocks :: "nat \<Rightarrow> nat" where
  "blocks l = (l + BSIZE - 1) div BSIZE + (if NDIRECT * BSIZE < l then 1 else 0)"

definition cost :: "nat \<Rightarrow> nat" where
  "cost off = (if off mod BSIZE \<noteq> 0 then 0 else if off = NDIRECT * BSIZE then 2 else 1)"

lemma blocks_add:
  assumes "0 < n" and "n \<le> BSIZE - off mod BSIZE"
  shows "blocks (off + n) = blocks off + cost off"
proof -
  define q r where "q = off div BSIZE" and "r = off mod BSIZE"
  have off: "off = q * BSIZE + r" and r: "r < BSIZE" by (simp_all add: q_def r_def)
  have "(off + n + BSIZE - 1) div BSIZE = q + 1" using assms r by (intro div_nat_eqI) (simp_all add: off r_def [symmetric])
  moreover have "(off + BSIZE - 1) div BSIZE = (if r = 0 then q else q + 1)" using r by (auto intro!: div_nat_eqI simp: off)
  moreover have "NDIRECT * BSIZE < off + n \<longleftrightarrow> NDIRECT \<le> q" using assms r by (auto simp: off r_def [symmetric])
  moreover have "NDIRECT * BSIZE < off \<longleftrightarrow> NDIRECT < q \<or> NDIRECT = q \<and> 0 < r" using r by (auto simp: off)
  moreover have "off = NDIRECT * BSIZE \<longleftrightarrow> q = NDIRECT \<and> r = 0"
    using div_mult_mod_eq [of off BSIZE] unfolding q_def r_def by auto
  ultimately show ?thesis unfolding blocks_def cost_def r_def [symmetric] by auto
qed

section \<open>Appending\<close>

lemma wsect_sel [simp]: "img (wsect b d s) = (img s)(b := d)" "b < len s \<Longrightarrow> len (wsect b d s) = len s"
  "freeinode (wsect b d s) = freeinode s" "freeblock (wsect b d s) = freeblock s"
  by (simp_all add: wsect_def)

lemma slot_block:
  assumes f: "filled V i ys" and q: "q = length ys div BSIZE" "q < MAXFILE"
  shows "blk V i q \<noteq> 0 \<longleftrightarrow> length ys mod BSIZE \<noteq> 0"
    "NDIRECT \<le> q \<Longrightarrow> iaddrs i NDIRECT = 0 \<longleftrightarrow> length ys = NDIRECT * BSIZE"
proof -
  have e: "length ys = q * BSIZE + length ys mod BSIZE" by (simp add: q(1))
  show "blk V i q \<noteq> 0 \<longleftrightarrow> length ys mod BSIZE \<noteq> 0" using f q(2) e unfolding filled_def by (metis less_add_same_cancel1 neq0_conv)
  show "NDIRECT \<le> q \<Longrightarrow> iaddrs i NDIRECT = 0 \<longleftrightarrow> length ys = NDIRECT * BSIZE"
    using f mult_le_mono1 [of NDIRECT q BSIZE] e unfolding filled_def by auto
qed

lemma block_direct:
  assumes l: "lay (img s) D n (freeblock s)" and k: "0 < k" "k < n" and f: "filled (img s) (D k) ys"
    and q: "q = length ys div BSIZE" "q < NDIRECT"
  obtains i' s' Q where "iappend_block (D k) q s = Ok (blk (img s') i' q, i', s')" "blk (img s') i' q \<noteq> 0"
    "lay (img s') (D(k := i')) n (freeblock s')" "bigger n k Q (img s) D (img s') (D(k := i'))" "Q \<subseteq> {q}"
    "freeblock s' = freeblock s + cost (length ys)" "len s' = len s" "freeinode s' = freeinode s" "i' = (D k)\<lparr>iaddrs := iaddrs i'\<rparr>"
proof (cases "iaddrs (D k) q = 0")
  case True
  let ?i = "(D k)\<lparr>iaddrs := (iaddrs (D k))(q := freeblock s)\<rparr>" and ?s = "s\<lparr>freeblock := freeblock s + 1\<rparr>"
  have b: "blk (img s) (D k) q = iaddrs (D k) q" "blk (img s) ?i q = freeblock s" using q(2) by (simp_all add: blk_def)
  have g: "grows (img s) D n (freeblock s) k q (img s) (D(k := ?i))" using take_slot [OF l k, of q] True q(2) by simp
  have "length ys mod BSIZE = 0" using slot_block(1) [OF f q(1)] True b(1) q(2) by simp
  moreover have "length ys \<noteq> NDIRECT * BSIZE" using q by auto
  ultimately have "cost (length ys) = 1" by (simp add: cost_def)
  moreover have "freeblock s \<noteq> 0" using layD(1) [OF l] nmeta_value by simp
  ultimately show thesis using that [of ?s ?i "{q}"] q(2) True b(2) grows_lay [OF l g] grows_bigger [OF l g]
    by (simp add: iappend_block_def new_block_def)
next
  case False
  have b: "blk (img s) (D k) q = iaddrs (D k) q" using q(2) by (simp add: blk_def)
  have "length ys mod BSIZE \<noteq> 0" using slot_block(1) [OF f q(1)] False b(1) q(2) by simp
  then show thesis using that [of s "D k" "{}"] q(2) False b l bigger_refl [of n k "img s" D] by (simp add: iappend_block_def cost_def)
qed

text \<open>The indirect block of the file, allocated if there is none yet.\<close>

lemma indirect_slot:
  assumes l: "lay (img s) D n (freeblock s)" and k: "0 < k" "k < n" and f: "filled (img s) (D k) ys"
    and q: "q = length ys div BSIZE" "NDIRECT \<le> q" "q < MAXFILE"
  obtains i1 s1 Q where "(if iaddrs (D k) NDIRECT = 0 then let (b, s) = new_block s in ((D k)\<lparr>iaddrs := (iaddrs (D k))(NDIRECT := b)\<rparr>, s)
      else (D k, s)) = (i1, s1)" "lay (img s1) (D(k := i1)) n (freeblock s1)" "bigger n k Q (img s) D (img s1) (D(k := i1))"
    "Q \<subseteq> {MAXFILE}" "freeblock s1 = freeblock s + (if length ys = NDIRECT * BSIZE then 1 else 0)" "len s1 = len s" "freeinode s1 = freeinode s"
    "i1 = (D k)\<lparr>iaddrs := iaddrs i1\<rparr>" "iaddrs i1 NDIRECT \<noteq> 0" "img s1 = img s"
proof (cases "iaddrs (D k) NDIRECT = 0")
  case True
  let ?i = "(D k)\<lparr>iaddrs := (iaddrs (D k))(NDIRECT := freeblock s)\<rparr>" and ?s = "s\<lparr>freeblock := freeblock s + 1\<rparr>"
  have g: "grows (img s) D n (freeblock s) k MAXFILE (img s) (D(k := ?i))" using take_slot [OF l k, of NDIRECT] True by simp
  have "freeblock s \<noteq> 0" using layD(1) [OF l] nmeta_value by simp
  then show thesis using that [of ?i ?s "{MAXFILE}"] True slot_block(2) [OF f q(1,3,2)] grows_lay [OF l g] grows_bigger [OF l g]
    by (simp add: new_block_def)
next
  case False
  then show thesis using that [of "D k" s "{}"] slot_block(2) [OF f q(1,3,2)] l bigger_refl [of n k "img s" D] by simp
qed

lemma block_indirect:
  assumes l: "lay (img s) D n (freeblock s)" and k: "0 < k" "k < n" and f: "filled (img s) (D k) ys"
    and q: "q = length ys div BSIZE" "NDIRECT \<le> q" "q < MAXFILE" and room: "freeblock s + cost (length ys) \<le> len s" "len s < 2 ^ 32"
  obtains i' s' Q where "iappend_block (D k) q s = Ok (blk (img s') i' q, i', s')" "blk (img s') i' q \<noteq> 0"
    "lay (img s') (D(k := i')) n (freeblock s')" "bigger n k Q (img s) D (img s') (D(k := i'))" "Q \<subseteq> {q, MAXFILE}"
    "freeblock s' = freeblock s + cost (length ys)" "len s' = len s" "freeinode s' = freeinode s" "i' = (D k)\<lparr>iaddrs := iaddrs i'\<rparr>"
    "iaddrs i' NDIRECT \<noteq> 0"
proof -
  obtain i1 s1 Q1 where 1: "(if iaddrs (D k) NDIRECT = 0 then let (b, s) = new_block s in ((D k)\<lparr>iaddrs := (iaddrs (D k))(NDIRECT := b)\<rparr>, s)
      else (D k, s)) = (i1, s1)" "lay (img s1) (D(k := i1)) n (freeblock s1)" "bigger n k Q1 (img s) D (img s1) (D(k := i1))"
    "Q1 \<subseteq> {MAXFILE}" "freeblock s1 = freeblock s + (if length ys = NDIRECT * BSIZE then 1 else 0)" "len s1 = len s" "freeinode s1 = freeinode s"
    "i1 = (D k)\<lparr>iaddrs := iaddrs i1\<rparr>" "iaddrs i1 NDIRECT \<noteq> 0" "img s1 = img s" by (rule indirect_slot [OF l k f q])
  let ?ind = "iaddrs i1 NDIRECT" and ?j = "q - NDIRECT"
  have j: "?j < NINDIRECT" "NDIRECT + ?j = q" using q(2,3) by simp_all
  have "?ind < freeblock s1" using lay_ind [OF 1(2) k] by (simp add: addr_def)
  moreover have fb: "freeblock s1 \<le> len s" using 1(5) room(1) by (auto simp: cost_def split: if_splits)
  ultimately have r: "rsect ?ind s1 = Ok (img s1 ?ind)" "?ind < len s1" using 1(6) by (simp_all add: rsect_def)
  have blk: "blk V i1 q = unat (get32 (V ?ind) (4 * ?j))" for V using q(2) 1(9) by (simp add: blk_def)
  have "addr (img s1) i1 q = addr (img s) (D k) q" using biggerD(1) [OF 1(3) k, of q] 1(4) q(3) by auto
  then have "blk (img s1) i1 q = blk (img s) (D k) q" using q(3) by (simp add: addr_def)
  then have z: "get32 (img s1 ?ind) (4 * ?j) = 0 \<longleftrightarrow> length ys mod BSIZE = 0"
    using slot_block(1) [OF f q(1,3)] blk [of "img s1"] by (metis unat_eq_zero)
  show thesis
  proof (cases "length ys mod BSIZE = 0")
    case False
    then have "iappend_block (D k) q s = Ok (blk (img s1) i1 q, i1, s1)"
      using q(2) z r unfolding iappend_block_def 1(1) by (simp add: blk)
    moreover have "length ys \<noteq> NDIRECT * BSIZE" using False by auto
    then have "freeblock s1 = freeblock s + cost (length ys)" using 1(5) False by (simp add: cost_def)
    moreover have "blk (img s1) i1 q \<noteq> 0" using False z unfolding blk by (simp add: unat_eq_zero)
    moreover have "Q1 \<subseteq> {q, MAXFILE}" using 1(4) by blast
    ultimately show thesis using that [of s1 i1 Q1] 1(2,3,6-9) by blast
  next
    case True
    let ?d = "put32 (4 * ?j) (of_nat (freeblock s1)) (img s1 ?ind)"
    let ?s = "wsect ?ind ?d (s1\<lparr>freeblock := freeblock s1 + 1\<rparr>)"
    have fb32: "freeblock s1 < 2 ^ 32" using fb room(2) by simp
    have g: "grows (img s1) (D(k := i1)) n (freeblock s1) k q (img ?s) (D(k := i1))"
      using take_entry [OF 1(2) fb32 k, of ?ind ?j] j 1(9) z True by simp
    have bd: "blk (img ?s) i1 q = unat (get32 ?d (4 * ?j))" using blk [of "img ?s"] by simp
    have "freeblock s1 \<noteq> 0" using layD(1) [OF 1(2)] nmeta_value by simp
    then have b0: "blk (img ?s) i1 q \<noteq> 0" unfolding bd using fb32 by (simp add: unat_of_nat)
    have len: "len ?s = len s" using r(2) 1(6) by simp
    have "iappend_block (D k) q s = Ok (blk (img ?s) i1 q, i1, ?s)"
      using q(2) z True r unfolding iappend_block_def 1(1) bd by (simp add: new_block_def Let_def)
    moreover have "Q1 \<union> {q} \<subseteq> {q, MAXFILE}" using 1(4) by blast
    moreover have "freeblock ?s = freeblock s + cost (length ys)" using 1(5) True by (simp add: cost_def)
    moreover have "lay (img ?s) (D(k := i1)) n (freeblock ?s)" using grows_lay [OF 1(2) g] by simp
    moreover have "freeinode ?s = freeinode s" using 1(7) by simp
    ultimately show thesis using that [OF _ b0 _ bigger_trans [OF 1(3) grows_bigger [OF 1(2) g]] _ _ len _ 1(8,9)] by blast
  qed
qed

lemma block_ok:
  assumes l: "lay (img s) D n (freeblock s)" and k: "0 < k" "k < n" and f: "filled (img s) (D k) ys"
    and q: "q = length ys div BSIZE" "q < MAXFILE" and room: "freeblock s + cost (length ys) \<le> len s" "len s < 2 ^ 32"
  obtains i' s' Q where "iappend_block (D k) q s = Ok (blk (img s') i' q, i', s')" "blk (img s') i' q \<noteq> 0"
    "lay (img s') (D(k := i')) n (freeblock s')" "bigger n k Q (img s) D (img s') (D(k := i'))" "Q \<subseteq> {q, MAXFILE}"
    "freeblock s' = freeblock s + cost (length ys)" "len s' = len s" "freeinode s' = freeinode s" "i' = (D k)\<lparr>iaddrs := iaddrs i'\<rparr>"
    "iaddrs i' NDIRECT \<noteq> 0 \<longleftrightarrow> NDIRECT \<le> q"
proof (cases "q < NDIRECT")
  case True
  obtain i' s' Q where 1: "iappend_block (D k) q s = Ok (blk (img s') i' q, i', s')" "blk (img s') i' q \<noteq> 0"
    "lay (img s') (D(k := i')) n (freeblock s')" "bigger n k Q (img s) D (img s') (D(k := i'))" "Q \<subseteq> {q}"
    "freeblock s' = freeblock s + cost (length ys)" "len s' = len s" "freeinode s' = freeinode s" "i' = (D k)\<lparr>iaddrs := iaddrs i'\<rparr>"
    by (rule block_direct [OF l k f q(1) True])
  have "MAXFILE \<notin> Q"
  proof
    assume "MAXFILE \<in> Q"
    then have "MAXFILE = q" using 1(5) by blast
    then show False using True by simp
  qed
  then have "iaddrs i' NDIRECT = iaddrs (D k) NDIRECT" using biggerD(1) [OF 1(4) k order_refl] by (simp add: addr_def)
  moreover have "length ys < (q + 1) * BSIZE" using block_room [of "length ys"] q(1) by simp
  then have "\<not> NDIRECT * BSIZE < length ys" using mult_le_mono1 [of "q + 1" NDIRECT BSIZE] True by linarith
  then have "iaddrs (D k) NDIRECT = 0" using f unfolding filled_def by blast
  ultimately have "iaddrs i' NDIRECT \<noteq> 0 \<longleftrightarrow> NDIRECT \<le> q" using True by simp
  moreover have "Q \<subseteq> {q, MAXFILE}" using 1(5) by blast
  ultimately show thesis using that [OF 1(1-4) _ 1(6-9)] by blast
next
  case False
  then have d: "NDIRECT \<le> q" by simp
  show thesis by (rule block_indirect [OF l k f q(1) d q(2) room]) (rule that, (assumption | use d in simp)+)
qed

lemma filled_write:
  fixes ys :: "byte list"
  assumes l: "lay V D n fb" and k: "0 < k" "k < n" and q: "q = length ys div BSIZE" "q < MAXFILE" and b: "blk V (D k) q \<noteq> 0"
    and m: "0 < m" "m \<le> BSIZE - length ys mod BSIZE" "m \<le> length xs"
    and pre: "\<forall>r < MAXFILE. r \<noteq> q \<longrightarrow> (blk V (D k) r \<noteq> 0 \<longleftrightarrow> r * BSIZE < length ys)" "iaddrs (D k) NDIRECT \<noteq> 0 \<longleftrightarrow> NDIRECT \<le> q"
    and bytes: "\<forall>p < MAXFILE * BSIZE. fbyte V (D k) p = (if p < length ys then ys ! p else 0)"
  shows "filled (V(blk V (D k) q := write_bytes (length ys mod BSIZE) (take m xs) (V (blk V (D k) q)))) (D k) (ys @ take m xs)"
proof -
  let ?d = "write_bytes (length ys mod BSIZE) (take m xs) (V (blk V (D k) q))"
  note W = data_write [OF l k q(2) b, where d = ?d]
  have le: "length ys + m \<le> (q + 1) * BSIZE" unfolding q(1) block_end [symmetric] using m(2) by (simp only: add_le_cancel_left)
  have ge: "q * BSIZE \<le> length ys" by (simp add: q(1))
  have zs: "length (ys @ take m xs) = length ys + m" using m(3) by simp
  have B: "blk (V(blk V (D k) q := ?d)) (D k) r = blk V (D k) r" if "r < MAXFILE" for r using W(1) [OF k, of r] that by (simp add: addr_def)
  have "r * BSIZE < length ys + m \<longleftrightarrow> (if r = q then True else r * BSIZE < length ys)" for r
  proof (cases "r < q")
    case True
    then show ?thesis using mult_le_mono1 [of "r + 1" q BSIZE] ge by simp
  next
    case False
    then show ?thesis using mult_le_mono1 [of "q + 1" r BSIZE] ge le m(1) by auto
  qed
  then have "blk (V(blk V (D k) q := ?d)) (D k) r \<noteq> 0 \<longleftrightarrow> r * BSIZE < length ys + m" if "r < MAXFILE" for r
    using B [OF that] pre(1) b that by (cases "r = q") auto
  moreover have "iaddrs (D k) NDIRECT \<noteq> 0 \<longleftrightarrow> NDIRECT * BSIZE < length ys + m"
    using pre(2) ge le m(1) mult_le_mono1 [of NDIRECT q BSIZE] mult_le_mono1 [of "q + 1" NDIRECT BSIZE] by (cases "NDIRECT \<le> q") auto
  moreover have "fbyte (V(blk V (D k) q := ?d)) (D k) p = (if p < length ys + m then (ys @ take m xs) ! p else 0)" if p: "p < MAXFILE * BSIZE" for p
  proof (cases "p div BSIZE = q \<and> length ys mod BSIZE \<le> p mod BSIZE \<and> p mod BSIZE < length ys mod BSIZE + m")
    case True
    then have "length ys \<le> p \<and> p < length ys + m" "p - length ys = p mod BSIZE - length ys mod BSIZE"
      using in_span [OF m(2), of p] q(1) by auto
    then show ?thesis using W(3) [OF k p] True m(3) by (simp add: write_bytes_apply nth_append)
  next
    case False
    then have out: "\<not> (length ys \<le> p \<and> p < length ys + m)" using in_span(1) [OF m(2), of p] q(1) by blast
    have "?d (p mod BSIZE) = V (blk V (D k) q) (p mod BSIZE)" if "p div BSIZE = q"
      using False that m(3) by (auto simp: write_bytes_apply)
    then have "fbyte (V(blk V (D k) q := ?d)) (D k) p = fbyte V (D k) p"
      using W(3) [OF k p] b by (cases "p div BSIZE = q") (simp_all add: fbyte_def content_def)
    then show ?thesis using bytes p out by (auto simp: nth_append)
  qed
  moreover have "length ys + m \<le> MAXFILE * BSIZE" using le q(2) mult_le_mono1 [of "q + 1" MAXFILE BSIZE] by linarith
  ultimately show ?thesis unfolding filled_def zs by blast
qed

lemma filled_cong:
  assumes "filled V i zs" and "\<And>r. r \<le> MAXFILE \<Longrightarrow> addr V' i r = addr V i r" and "\<And>p. p < MAXFILE * BSIZE \<Longrightarrow> fbyte V' i p = fbyte V i p"
  shows "filled V' i zs"
proof -
  have "blk V' i r = blk V i r" if "r < MAXFILE" for r using assms(2) [of r] that by (simp add: addr_def)
  then show ?thesis using assms(1,3) unfolding filled_def by simp
qed

text \<open>What appending to file \<open>k\<close> leaves alone.\<close>

definition others :: "nat \<Rightarrow> nat \<Rightarrow> (nat \<Rightarrow> inode) \<Rightarrow> mkfs_state \<Rightarrow> mkfs_state \<Rightarrow> bool" where
  "others n k D s s' \<longleftrightarrow> len s' = len s \<and> freeinode s' = freeinode s \<and> (\<forall>b < nmeta. img s' b = img s b) \<and>
     (\<forall>i zs. 0 < i \<and> i < n \<and> i \<noteq> k \<and> filled (img s) (D i) zs \<longrightarrow> filled (img s') (D i) zs)"

lemma others_refl: "others n k D s s"
  by (simp add: others_def)

lemma others_trans: "others n k D s s1 \<Longrightarrow> others n k (D(k := i)) s1 s' \<Longrightarrow> others n k D s s'"
  unfolding others_def by (auto split: if_splits)

lemma append_step:
  assumes l: "lay (img s) D n (freeblock s)" and k: "0 < k" "k < n" and f: "filled (img s) (D k) ys"
    and q: "q = length ys div BSIZE" "q < MAXFILE" and room: "freeblock s + cost (length ys) \<le> len s" "len s < 2 ^ 32"
    and m: "0 < m" "m \<le> BSIZE - length ys mod BSIZE" "m \<le> length xs"
  obtains x i' s1 buf s' where "iappend_block (D k) q s = Ok (x, i', s1)" "rsect x s1 = Ok buf"
    "s' = wsect x (write_bytes (length ys mod BSIZE) (take m xs) buf) s1" "lay (img s') (D(k := i')) n (freeblock s')"
    "filled (img s') i' (ys @ take m xs)" "others n k D s s'" "freeblock s' = freeblock s + cost (length ys)" "i' = (D k)\<lparr>iaddrs := iaddrs i'\<rparr>"
proof -
  obtain i' s1 Q where 1: "iappend_block (D k) q s = Ok (blk (img s1) i' q, i', s1)" "blk (img s1) i' q \<noteq> 0"
    "lay (img s1) (D(k := i')) n (freeblock s1)" "bigger n k Q (img s) D (img s1) (D(k := i'))" "Q \<subseteq> {q, MAXFILE}"
    "freeblock s1 = freeblock s + cost (length ys)" "len s1 = len s" "freeinode s1 = freeinode s" "i' = (D k)\<lparr>iaddrs := iaddrs i'\<rparr>"
    "iaddrs i' NDIRECT \<noteq> 0 \<longleftrightarrow> NDIRECT \<le> q" by (rule block_ok [OF l k f q room])
  let ?D = "D(k := i')" and ?x = "blk (img s1) i' q"
  let ?d = "write_bytes (length ys mod BSIZE) (take m xs) (img s1 ?x)"
  have Dk: "?D k = i'" by simp
  have b: "blk (img s1) (?D k) q \<noteq> 0" using 1(2) by simp
  note W = data_write [OF 1(3) k q(2) b, unfolded Dk, where d = ?d]
  have x: "nmeta \<le> ?x" "?x < freeblock s1" using layD(2) [OF 1(3) k, of q] q(2) 1(2) by (simp_all add: addr_def)
  have r: "rsect ?x s1 = Ok (img s1 ?x)" "?x < len s1" using x(2) 1(6,7) room(1) by (simp_all add: rsect_def)
  have pre: "blk (img s1) i' t \<noteq> 0 \<longleftrightarrow> t * BSIZE < length ys" if "t < MAXFILE" "t \<noteq> q" for t
  proof -
    have "t \<notin> Q" using 1(5) that by auto
    then have "blk (img s1) i' t = blk (img s) (D k) t" using biggerD(1) [OF 1(4) k, of t] that by (simp add: addr_def)
    then show ?thesis using f that(1) by (simp add: filled_def)
  qed
  have bytes: "fbyte (img s1) i' p = (if p < length ys then ys ! p else 0)" if "p < MAXFILE * BSIZE" for p
    using biggerD(2) [OF 1(4) k that] f that unfolding filled_def by simp
  let ?s = "wsect ?x ?d s1"
  have fill: "filled (img ?s) i' (ys @ take m xs)"
    using filled_write [OF 1(3) k q b m] pre 1(10) bytes unfolding Dk by simp
  have "filled (img ?s) (D i) zs" if i: "0 < i" "i < n" "i \<noteq> k" "filled (img s) (D i) zs" for i zs
  proof (rule filled_cong [OF i(4)])
    have e: "?D i = D i" using i(3) by simp
    show "addr (img ?s) (D i) r = addr (img s) (D i) r" if "r \<le> MAXFILE" for r
      using W(1) [OF i(1,2), of r] biggerD(1) [OF 1(4) i(1,2) that] i(3) unfolding e wsect_sel by simp
    show "fbyte (img ?s) (D i) p = fbyte (img s) (D i) p" if "p < MAXFILE * BSIZE" for p
      using W(3) [OF i(1,2) that] biggerD(2) [OF 1(4) i(1,2) that] i(3) unfolding e wsect_sel by simp
  qed
  moreover have "img ?s c = img s c" if "c < nmeta" for c using biggerD(4) [OF 1(4) that] that x(1) by simp
  ultimately have "others n k D s ?s" using r(2) 1(7,8) unfolding others_def by simp
  moreover have "lay (img ?s) ?D n (freeblock ?s)" unfolding wsect_sel by (rule data_write(2) [OF 1(3) k q(2) b, unfolded Dk])
  moreover have "freeblock ?s = freeblock s + cost (length ys)" using 1(6) by simp
  ultimately show thesis using that [OF 1(1) r(1) refl _ fill _ _ 1(9)] by blast
qed

lemma blocks_mono: "a \<le> b \<Longrightarrow> blocks a \<le> blocks b"
  by (auto simp: blocks_def intro!: add_mono div_le_mono)

lemma loop_step:
  assumes "xs \<noteq> []" and q: "q = length ys div BSIZE" "q < MAXFILE" and m: "m = min (length xs) (BSIZE - length ys mod BSIZE)"
    and "iappend_block i q s = Ok (x, i1, s1)" and "rsect x s1 = Ok buf"
  shows "iappend_loop i (length ys) xs s =
    iappend_loop i1 (length ys + m) (drop m xs) (wsect x (write_bytes (length ys mod BSIZE) (take m xs) buf) s1)"
proof -
  have "length ys - q * BSIZE = length ys mod BSIZE" by (simp add: q(1) minus_div_mult_eq_mod)
  then show ?thesis using assms(1,3,5,6)
    by (subst iappend_loop.simps) (simp add: Let_def q(1) [symmetric] block_room [of "length ys", folded q(1), simplified] m [symmetric])
qed

text \<open>Replacing one of several files changes the number of blocks by the difference.\<close>

lemma blocks_update:
  assumes "k < length F"
  shows "(\<Sum>ys\<leftarrow>F[k := xs]. blocks (length ys)) + blocks (length (F ! k)) = (\<Sum>ys\<leftarrow>F. blocks (length ys)) + blocks (length xs)"
  using assms elem_le_sum_list [of k "map (\<lambda>ys. blocks (length ys)) F"] by (simp add: map_update sum_list_update)

lemma iappend_loop_ok:
  assumes "lay (img s) D n (freeblock s)" "0 < k" "k < n" "filled (img s) (D k) ys" "length ys + length xs \<le> MAXFILE * BSIZE"
    "freeblock s + blocks (length ys + length xs) \<le> len s + blocks (length ys)" "len s < 2 ^ 32"
  shows "\<exists>i' s'. iappend_loop (D k) (length ys) xs s = Ok (i', length ys + length xs, s') \<and> lay (img s') (D(k := i')) n (freeblock s') \<and>
     filled (img s') i' (ys @ xs) \<and> others n k D s s' \<and> freeblock s' + blocks (length ys) = freeblock s + blocks (length ys + length xs) \<and>
     i' = (D k)\<lparr>iaddrs := iaddrs i'\<rparr>"
  using assms
proof (induction "length xs" arbitrary: xs ys s D rule: less_induct)
  case less
  show ?case
  proof (cases "xs = []")
    case True
    then show ?thesis using less.prems others_refl
      by (subst iappend_loop.simps) (simp add: others_refl)
  next
    case False
    define q m where "q = length ys div BSIZE" and "m = min (length xs) (BSIZE - length ys mod BSIZE)"
    have "0 < BSIZE - length ys mod BSIZE" by simp
    then have m: "0 < m" "m \<le> BSIZE - length ys mod BSIZE" "m \<le> length xs" using False by (auto simp: m_def)
    have "length ys < MAXFILE * BSIZE" using less.prems(5) m(1,3) by linarith
    then have q: "q < MAXFILE" unfolding q_def by (simp add: div_less_iff_less_mult)
    have c: "blocks (length ys + m) = blocks (length ys) + cost (length ys)" by (rule blocks_add [OF m(1,2)])
    have mono: "blocks (length ys + m) \<le> blocks (length ys + length xs)" by (rule blocks_mono) (use m(3) in simp)
    have room: "freeblock s + cost (length ys) \<le> len s" using less.prems(6) c mono by linarith
    obtain x i1 s1 buf s2 where 1: "iappend_block (D k) q s = Ok (x, i1, s1)" "rsect x s1 = Ok buf"
      "s2 = wsect x (write_bytes (length ys mod BSIZE) (take m xs) buf) s1" "lay (img s2) (D(k := i1)) n (freeblock s2)"
      "filled (img s2) i1 (ys @ take m xs)" "others n k D s s2" "freeblock s2 = freeblock s + cost (length ys)" "i1 = (D k)\<lparr>iaddrs := iaddrs i1\<rparr>"
      by (rule append_step [OF less.prems(1-4) q_def q room less.prems(7) m])
    let ?ys = "ys @ take m xs" and ?xs = "drop m xs" and ?D = "D(k := i1)"
    have len: "length ?ys = length ys + m" "length ?ys + length ?xs = length ys + length xs" using m(3) by simp_all
    have step: "iappend_loop (D k) (length ys) xs s = iappend_loop (?D k) (length ?ys) ?xs s2"
      using loop_step [OF False q_def q m_def 1(1,2)] 1(3) unfolding len(1) by simp
    have "length ?xs < length xs" using m by simp
    moreover have "filled (img s2) (?D k) ?ys" using 1(5) by simp
    moreover have "length ?ys + length ?xs \<le> MAXFILE * BSIZE" using less.prems(5) len(2) by simp
    moreover have l2: "len s2 = len s" using 1(6) by (simp add: others_def)
    moreover have "freeblock s2 + blocks (length ?ys + length ?xs) \<le> len s2 + blocks (length ?ys)"
      using less.prems(6) 1(7) c l2 unfolding len(2) unfolding len(1) by linarith
    moreover have "len s2 < 2 ^ 32" using less.prems(7) l2 by simp
    ultimately obtain i' s' where 2: "iappend_loop (?D k) (length ?ys) ?xs s2 = Ok (i', length ?ys + length ?xs, s')"
      "lay (img s') (?D(k := i')) n (freeblock s')" "filled (img s') i' (?ys @ ?xs)" "others n k ?D s2 s'"
      "freeblock s' + blocks (length ?ys) = freeblock s2 + blocks (length ?ys + length ?xs)" "i' = (?D k)\<lparr>iaddrs := iaddrs i'\<rparr>"
      using less.hyps [of ?xs s2 ?D ?ys] 1(4) less.prems(2,3) by blast
    have "i' = (D k)\<lparr>iaddrs := iaddrs i'\<rparr>" using 2(6) 1(8) by (metis fun_upd_same inode.update_convs(11) inode.surjective)
    moreover have "freeblock s' + blocks (length ys) = freeblock s + blocks (length ys + length xs)" using 2(5) 1(7) c unfolding len(2) unfolding len(1) by linarith
    moreover have "others n k D s s'" by (rule others_trans [OF 1(6) 2(4)])
    moreover have "?D(k := i') = D(k := i')" "?ys @ ?xs = ys @ xs" by simp_all
    ultimately show ?thesis using step 2(1-3) unfolding len(2) by metis
  qed
qed

section \<open>The image between two operations\<close>

definition dinode :: "mkfs_state \<Rightarrow> nat \<Rightarrow> inode" where
  "dinode s k = get_dinode (dinode_off k) (img s (IBLOCK k msb)) zero_dinode"

text \<open>
  \<open>image T F s\<close>: file \<open>k + 1\<close> has type \<open>T ! k\<close> and content \<open>F ! k\<close>; the blocks in use are those of the files and of nothing else.  The
  inodes fit in their 26 sectors.
\<close>

definition image :: "word16 list \<Rightarrow> byte list list \<Rightarrow> mkfs_state \<Rightarrow> bool" where
  "image T F s \<longleftrightarrow> length T = length F \<and> freeinode s = length F + 1 \<and> freeinode s \<le> ninodeblocks * IPB \<and> len s = FSSIZE \<and>
     freeblock s = nmeta + (\<Sum>xs\<leftarrow>F. blocks (length xs)) \<and> freeblock s \<le> FSSIZE \<and>
     lay (img s) (dinode s) (length F + 1) (freeblock s) \<and> decode_sb (img s 1) = msb \<and> img s 0 = (\<lambda>_. 0) \<and>
     (\<forall>k < length F. filled (img s) (dinode s (k + 1)) (F ! k) \<and> isize (dinode s (k + 1)) = length (F ! k) \<and>
        itype (dinode s (k + 1)) = T ! k \<and> inlink (dinode s (k + 1)) = 1)"

definition same_blocks :: "inode \<Rightarrow> inode \<Rightarrow> bool" where
  "same_blocks i j \<longleftrightarrow> (\<forall>q \<le> NDIRECT. iaddrs i q = iaddrs j q)"

lemma same_addr:
  assumes "same_blocks i j"
  shows "r \<le> MAXFILE \<Longrightarrow> addr V i r = addr V j r" "filled V i xs = filled V j xs"
proof -
  have ia: "iaddrs i q = iaddrs j q" if "q \<le> NDIRECT" for q using assms that by (simp add: same_blocks_def)
  then show A: "addr V i r = addr V j r" if "r \<le> MAXFILE" for r using that by (simp add: addr_def blk_def)
  then have B: "blk V i r = blk V j r" if "r < MAXFILE" for r using A [of r] that by (simp add: addr_def)
  have C: "fbyte V i p = fbyte V j p" if "p < MAXFILE * BSIZE" for p
    using B [of "p div BSIZE"] that by (simp add: fbyte_def content_def div_less_iff_less_mult)
  show "filled V i xs = filled V j xs" unfolding filled_def using B C ia by simp
qed

lemma lay_same:
  assumes l: "lay V D n fb" and s: "\<And>k. 0 < k \<Longrightarrow> k < n \<Longrightarrow> same_blocks (D' k) (D k)"
  shows "lay V D' n fb"
proof -
  note L = layD [OF l]
  have A: "addr V (D' k) r = addr V (D k) r" if "0 < k" "k < n" "r \<le> MAXFILE" for k r
    by (rule same_addr(1) [OF s [OF that(1,2)] that(3)])
  show ?thesis by (rule layI) (use L A in \<open>auto\<close>)
qed

text \<open>A sector before the data is written.\<close>

lemma meta_write:
  assumes l: "lay V D n fb" and b: "b < nmeta"
  shows "\<And>k r. 0 < k \<Longrightarrow> k < n \<Longrightarrow> r \<le> MAXFILE \<Longrightarrow> addr (V(b := d)) (D k) r = addr V (D k) r" "lay (V(b := d)) D n fb"
    "\<And>k xs. 0 < k \<Longrightarrow> k < n \<Longrightarrow> filled V (D k) xs \<Longrightarrow> filled (V(b := d)) (D k) xs"
proof -
  note L = layD [OF l]
  have ind: "iaddrs (D k) NDIRECT = 0 \<or> iaddrs (D k) NDIRECT \<noteq> b" if "0 < k" "k < n" for k
    using L(2) [OF that order_refl] b by (auto simp: addr_def)
  show A: "addr (V(b := d)) (D k) r = addr V (D k) r" if "0 < k" "k < n" "r \<le> MAXFILE" for k r
    using ind [OF that(1,2)] by (auto simp: addr_def blk_def)
  show "lay (V(b := d)) D n fb"
  proof (rule layI)
    show "(V(b := d)) c x = 0" if "fb \<le> c" for c x using L(1) L(4) [of c x] b that by auto
  qed (use L(1) L(2) L(3) A in auto)
  have "fbyte (V(b := d)) (D k) p = fbyte V (D k) p" if "0 < k" "k < n" "p < MAXFILE * BSIZE" for k p
  proof -
    define r where "r = p div BSIZE"
    have r: "r < MAXFILE" using that(3) unfolding r_def by (simp add: div_less_iff_less_mult)
    have B: "blk (V(b := d)) (D k) r = blk V (D k) r" using A [OF that(1,2), of r] r by (simp add: addr_def)
    have "blk V (D k) r = 0 \<or> blk V (D k) r \<noteq> b" using L(2) [OF that(1,2), of r] r b by (auto simp: addr_def)
    then show ?thesis unfolding fbyte_def content_def r_def [symmetric] B by (auto simp: fun_upd_def)
  qed
  then show "filled (V(b := d)) (D k) xs" if "0 < k" "k < n" "filled V (D k) xs" for k xs
    using filled_cong [OF that(3), of "V(b := d)"] A [OF that(1,2)] that(1,2) by blast
qed

lemma iblock_bounds: "k < ninodeblocks * IPB \<Longrightarrow> 2 + nlog \<le> IBLOCK k msb \<and> IBLOCK k msb + 1 < nmeta"
  by (simp add: IBLOCK_def msb_def nmeta_value div_less_iff_less_mult)

lemma winode_ok:
  assumes "len s = FSSIZE" and k: "k < ninodeblocks * IPB" and i: "isize i < 2 ^ 32" "\<forall>j < NDIRECT + 1. iaddrs i j < 2 ^ 32"
  obtains s' d where "winode k i s = Ok s'" "img s' = (img s)(IBLOCK k msb := d)" "len s' = FSSIZE" "freeinode s' = freeinode s"
    "freeblock s' = freeblock s" "same_content (dinode s' k) i" "\<forall>l. l \<noteq> k \<longrightarrow> dinode s' l = dinode s l"
proof -
  let ?b = "IBLOCK k msb" and ?d = "put_dinode (dinode_off k) i (img s (IBLOCK k msb))"
  have b: "?b < len s" using iblock_bounds [OF k] assms(1) nmeta_value by simp
  have o: "dinode (wsect ?b ?d s) l = dinode s l" if "l \<noteq> k" for l
  proof (cases "IBLOCK l msb = ?b")
    case True
    then have "l div IPB = k div IPB" by (simp add: IBLOCK_def)
    then have "k mod IPB \<noteq> l mod IPB" using that by (metis div_mult_mod_eq)
    then show ?thesis using dinode_other [of k l] True by (simp add: dinode_def)
  qed (simp add: dinode_def)
  have "same_content (dinode (wsect ?b ?d s) k) i"
    using dinode_roundtrip [OF i, of "dinode_off k"] by (simp add: dinode_def same_content_def)
  moreover have "winode k i s = Ok (wsect ?b ?d s)" using b by (simp add: winode_def rsect_def Let_def)
  ultimately show thesis using that [of "wsect ?b ?d s" ?d] b assms(1) o by simp
qed

lemma imageD:
  assumes "image T F s"
  shows "length T = length F" "freeinode s = length F + 1" "length F + 1 \<le> ninodeblocks * IPB" "len s = FSSIZE"
    "freeblock s = nmeta + (\<Sum>xs\<leftarrow>F. blocks (length xs))" "freeblock s \<le> FSSIZE"
    "lay (img s) (dinode s) (length F + 1) (freeblock s)" "decode_sb (img s 1) = msb" "img s 0 = (\<lambda>_. 0)"
    "k < length F \<Longrightarrow> filled (img s) (dinode s (k + 1)) (F ! k)" "k < length F \<Longrightarrow> isize (dinode s (k + 1)) = length (F ! k)"
    "k < length F \<Longrightarrow> itype (dinode s (k + 1)) = T ! k" "k < length F \<Longrightarrow> inlink (dinode s (k + 1)) = 1"
  using assms unfolding image_def by auto

lemma imageI:
  assumes "length T = length F" "freeinode s = length F + 1" "length F + 1 \<le> ninodeblocks * IPB" "len s = FSSIZE"
    "freeblock s = nmeta + (\<Sum>xs\<leftarrow>F. blocks (length xs))" "freeblock s \<le> FSSIZE"
    "lay (img s) (dinode s) (length F + 1) (freeblock s)" "decode_sb (img s 1) = msb" "img s 0 = (\<lambda>_. 0)"
    "\<And>k. k < length F \<Longrightarrow> filled (img s) (dinode s (k + 1)) (F ! k)" "\<And>k. k < length F \<Longrightarrow> isize (dinode s (k + 1)) = length (F ! k)"
    "\<And>k. k < length F \<Longrightarrow> itype (dinode s (k + 1)) = T ! k" "\<And>k. k < length F \<Longrightarrow> inlink (dinode s (k + 1)) = 1"
  shows "image T F s"
  using assms unfolding image_def by auto

text \<open>The addresses of an inode are small.\<close>

lemma lay_addr_less:
  assumes "lay V D n fb" "0 < k" "k < n" "j < NDIRECT + 1"
  shows "iaddrs (D k) j < fb"
proof -
  have "iaddrs (D k) j = addr V (D k) (if j = NDIRECT then MAXFILE else j)" using assms(4) by (auto simp: addr_def blk_def)
  then show ?thesis
    using layD(1) [OF assms(1)] layD(2) [OF assms(1-3), of "if j = NDIRECT then MAXFILE else j"] assms(4) nmeta_value
    by (cases "iaddrs (D k) j = 0") (auto split: if_splits)
qed

lemma dinode_cong: "img s' (IBLOCK k msb) = img s (IBLOCK k msb) \<Longrightarrow> dinode s' k = dinode s k"
  by (simp add: dinode_def)

text \<open>The inode of file \<open>k + 1\<close> is written back after its blocks.\<close>

lemma append_inode:
  assumes I: "image T F s" and k: "k < length F" and len: "length (F ! k) + length xs \<le> MAXFILE * BSIZE"
    and lay: "lay (img s1) ((dinode s)(k + 1 := i')) (length F + 1) (freeblock s1)" and fill: "filled (img s1) i' (F ! k @ xs)"
    and others: "others (length F + 1) (k + 1) (dinode s) s s1" and i': "i' = (dinode s (k + 1))\<lparr>iaddrs := iaddrs i'\<rparr>"
    and fb: "freeblock s1 + blocks (length (F ! k)) = freeblock s + blocks (length (F ! k) + length xs)" "freeblock s1 \<le> FSSIZE"
  shows "\<exists>s'. winode (k + 1) (i'\<lparr>isize := length (F ! k) + length xs\<rparr>) s1 = Ok s' \<and> image T (F[k := F ! k @ xs]) s'"
proof -
  note J = imageD [OF I] and O = others [unfolded others_def]
  let ?n = "length F + 1" and ?D = "dinode s" and ?F = "F[k := F ! k @ xs]" and ?i = "i'\<lparr>isize := length (F ! k) + length xs\<rparr>"
  have k1: "0 < k + 1" "k + 1 < ?n" "k + 1 < ninodeblocks * IPB" using k J(3) by simp_all
  have sz: "isize ?i < 2 ^ 32" using len by simp
  have "iaddrs i' j < 2 ^ 32" if "j < NDIRECT + 1" for j using lay_addr_less [OF lay k1(1,2) that] fb(2) by simp
  then have ia: "\<forall>j < NDIRECT + 1. iaddrs ?i j < 2 ^ 32" by simp
  have l1: "len s1 = FSSIZE" using O J(4) by simp
  obtain s' d where 2: "winode (k + 1) ?i s1 = Ok s'" "img s' = (img s1)(IBLOCK (k + 1) msb := d)" "len s' = FSSIZE" "freeinode s' = freeinode s1"
    "freeblock s' = freeblock s1" "same_content (dinode s' (k + 1)) ?i" "\<forall>l. l \<noteq> k + 1 \<longrightarrow> dinode s' l = dinode s1 l"
    by (rule winode_ok [OF l1 k1(3) sz ia])
  have b: "IBLOCK (k + 1) msb < nmeta" "IBLOCK (k + 1) msb \<noteq> 0" "IBLOCK (k + 1) msb \<noteq> 1" using iblock_bounds [OF k1(3)] by auto
  note W = meta_write [OF lay b(1), where d = d, folded 2(2)]
  have D: "dinode s' (l + 1) = ?D (l + 1)" if "l < length F" "l \<noteq> k" for l
  proof -
    have "dinode s1 (l + 1) = ?D (l + 1)" using O iblock_bounds [of "l + 1"] J(3) that by (intro dinode_cong) simp
    then show ?thesis using 2(7) [rule_format, of "l + 1"] that by simp
  qed
  have "itype i' = itype (?D (k + 1))" "inlink i' = inlink (?D (k + 1))" by (subst i', simp)+
  then have K: "isize (dinode s' (k + 1)) = length (F ! k) + length xs" "itype (dinode s' (k + 1)) = T ! k" "inlink (dinode s' (k + 1)) = 1"
    "same_blocks (dinode s' (k + 1)) i'"
    using 2(6) J(12,13) [OF k] by (simp_all add: same_content_def same_blocks_def)
  have B: "same_blocks (dinode s' (l + 1)) ((?D(k + 1 := i')) (l + 1))" if "l < length F" for l
    using K(4) D [OF that] by (cases "l = k") (auto simp: same_blocks_def)
  have lay': "lay (img s') (dinode s') ?n (freeblock s')" unfolding 2(5)
  proof (rule lay_same [OF W(2)])
    fix l assume "0 < l" "l < ?n"
    then have "l - 1 < length F" "l - 1 + 1 = l" by simp_all
    then show "same_blocks (dinode s' l) ((?D(k + 1 := i')) l)" using B [of "l - 1"] by metis
  qed
  have fill': "filled (img s') (dinode s' (l + 1)) (?F ! l)" if "l < length F" for l
  proof -
    have "filled (img s1) ((?D(k + 1 := i')) (l + 1)) (?F ! l)" using fill O J(10) [OF that] that k by (cases "l = k") auto
    then show ?thesis using W(3) [of "l + 1"] that same_addr(2) [OF B [OF that]] by simp
  qed
  have sum: "freeblock s' = nmeta + (\<Sum>ys\<leftarrow>?F. blocks (length ys))"
    using blocks_update [OF k, of "F ! k @ xs"] fb(1) 2(5) J(5) unfolding length_append by linarith
  have "image T ?F s'"
  proof (rule imageI)
    show "length T = length ?F" "freeinode s' = length ?F + 1" "length ?F + 1 \<le> ninodeblocks * IPB" "len s' = FSSIZE" "freeblock s' \<le> FSSIZE"
      using J(1-3) O 2(3-5) fb(2) by simp_all
    show "freeblock s' = nmeta + (\<Sum>xs\<leftarrow>?F. blocks (length xs))" by (rule sum)
    show "lay (img s') (dinode s') (length ?F + 1) (freeblock s')" using lay' by simp
    show "decode_sb (img s' 1) = msb" "img s' 0 = (\<lambda>_. 0)" using J(8,9) O b nmeta_value(1) by (simp_all add: 2(2))
    fix l assume l: "l < length ?F"
    show "filled (img s') (dinode s' (l + 1)) (?F ! l)" using fill' l by simp
    show "isize (dinode s' (l + 1)) = length (?F ! l)" "itype (dinode s' (l + 1)) = T ! l" "inlink (dinode s' (l + 1)) = 1"
      using K D [of l] J(11-13) [of l] l k by (cases "l = k"; simp)+
  qed
  with 2(1) show ?thesis by blast
qed

lemma iappend_ok:
  assumes I: "image T F s" and k: "k < length F" and len: "length (F ! k) + length xs \<le> MAXFILE * BSIZE"
    and room: "freeblock s + blocks (length (F ! k) + length xs) \<le> FSSIZE + blocks (length (F ! k))"
  shows "\<exists>s'. iappend (k + 1) xs s = Ok s' \<and> image T (F[k := F ! k @ xs]) s'"
proof -
  note J = imageD [OF I]
  have k1: "0 < k + 1" "k + 1 < length F + 1" "k + 1 < ninodeblocks * IPB" using k J(3) by simp_all
  have r: "rinode (k + 1) s = Ok (dinode s (k + 1))"
    using iblock_bounds [OF k1(3)] J(4) nmeta_value by (simp add: rinode_def rsect_def dinode_def)
  obtain i' s1 where 1: "iappend_loop (dinode s (k + 1)) (length (F ! k)) xs s = Ok (i', length (F ! k) + length xs, s1)"
    "lay (img s1) ((dinode s)(k + 1 := i')) (length F + 1) (freeblock s1)" "filled (img s1) i' (F ! k @ xs)" "others (length F + 1) (k + 1) (dinode s) s s1"
    "freeblock s1 + blocks (length (F ! k)) = freeblock s + blocks (length (F ! k) + length xs)" "i' = (dinode s (k + 1))\<lparr>iaddrs := iaddrs i'\<rparr>"
    using iappend_loop_ok [OF J(7) k1(1,2) J(10) [OF k] len] room J(4) by auto
  have "freeblock s1 \<le> FSSIZE" using 1(5) room by linarith
  from append_inode [OF I k len 1(2,3,4,6,5) this] r 1(1) J(11) [OF k] show ?thesis by (auto simp: iappend_def)
qed
lemma same_content_blocks: "same_content i j \<Longrightarrow> same_blocks i j"
  by (simp add: same_content_def same_blocks_def)

text \<open>A new inode has no blocks.\<close>

lemma empty_file:
  assumes "same_blocks i zero_dinode"
  shows "r \<le> MAXFILE \<Longrightarrow> addr V i r = 0" "filled V i []"
proof -
  have z: "addr V zero_dinode r = 0" "blk V zero_dinode r = 0" for r by (simp_all add: addr_def blk_def zero_dinode_def)
  then show "addr V i r = 0" if "r \<le> MAXFILE" using same_addr(1) [OF assms that] by simp
  have "filled V zero_dinode []" unfolding filled_def by (simp add: z fbyte_def) (simp add: zero_dinode_def)
  then show "filled V i []" using same_addr(2) [OF assms] by simp
qed

lemma lay_new:
  assumes l: "lay V D n fb" and s: "\<And>k. 0 < k \<Longrightarrow> k < n \<Longrightarrow> D' k = D k" and z: "\<And>r. r \<le> MAXFILE \<Longrightarrow> addr V (D' n) r = 0"
  shows "lay V D' (n + 1) fb"
proof -
  note L = layD [OF l]
  have A: "addr V (D' k) r = (if k = n then 0 else addr V (D k) r)" if "0 < k" "k < n + 1" "r \<le> MAXFILE" for k r
    using s [of k] z [of r] that by auto
  show ?thesis
  proof (rule layI)
    show "nmeta \<le> addr V (D' k) r \<and> addr V (D' k) r < fb" if "0 < k" "k < n + 1" "r \<le> MAXFILE" "addr V (D' k) r \<noteq> 0" for k r
      using A [OF that(1-3)] that L(2) [of k r] by (auto split: if_splits)
    show "k = j \<and> q = r" if "0 < k" "k < n + 1" "q \<le> MAXFILE" "0 < j" "j < n + 1" "r \<le> MAXFILE" "addr V (D' k) q \<noteq> 0"
      "addr V (D' k) q = addr V (D' j) r" for k q j r
      using A [OF that(1-3)] A [OF that(4-6)] that L(3) [of k q j r] by (auto split: if_splits)
  qed (use L(1,4) in auto)
qed

lemma mk_ialloc_ok:
  assumes I: "image T F s" and n: "length F + 2 \<le> ninodeblocks * IPB"
  shows "\<exists>s'. mk_ialloc ty s = Ok (length F + 1, s') \<and> image (T @ [ty]) (F @ [[]]) s'"
proof -
  note J = imageD [OF I]
  let ?n = "length F + 1" and ?i = "zero_dinode\<lparr>itype := ty, inlink := 1, isize := 0\<rparr>" and ?s = "s\<lparr>freeinode := freeinode s + 1\<rparr>"
  have n1: "?n < ninodeblocks * IPB" using n by simp
  have pre: "len ?s = FSSIZE" "isize ?i < 2 ^ 32" "\<forall>j < NDIRECT + 1. iaddrs ?i j < 2 ^ 32" using J(4) by (simp_all add: zero_dinode_def)
  obtain s' d where 1: "winode ?n ?i ?s = Ok s'" "img s' = (img ?s)(IBLOCK ?n msb := d)" "len s' = FSSIZE" "freeinode s' = freeinode ?s"
    "freeblock s' = freeblock ?s" "same_content (dinode s' ?n) ?i" "\<forall>l. l \<noteq> ?n \<longrightarrow> dinode s' l = dinode ?s l"
    by (rule winode_ok [OF pre(1) n1 pre(2,3)])
  have V: "img s' = (img s)(IBLOCK ?n msb := d)" using 1(2) by simp
  have b: "IBLOCK ?n msb < nmeta" "IBLOCK ?n msb \<noteq> 0" "IBLOCK ?n msb \<noteq> 1" using iblock_bounds [OF n1] by auto
  note W = meta_write [OF J(7) b(1), where d = d, folded V]
  have D: "dinode s' l = dinode s l" if "l \<noteq> ?n" for l using 1(7) [rule_format, OF that] by (simp add: dinode_def)
  have "same_blocks (dinode s' ?n) zero_dinode" using same_content_blocks [OF 1(6)] by (simp add: same_blocks_def)
  note Z = empty_file [OF this]
  have "lay (img s') (dinode s') (?n + 1) (freeblock s)" by (rule lay_new [OF W(2) D Z(1)]) simp_all
  have "image (T @ [ty]) (F @ [[]]) s'"
  proof (rule imageI)
    show "lay (img s') (dinode s') (length (F @ [[]]) + 1) (freeblock s')" using \<open>lay (img s') (dinode s') (?n + 1) (freeblock s)\<close> 1(5) by simp
    show "decode_sb (img s' 1) = msb" "img s' 0 = (\<lambda>_. 0)" using J(8,9) b by (simp_all add: V)
    show "freeblock s' = nmeta + (\<Sum>xs\<leftarrow>F @ [[]]. blocks (length xs))" using J(5) 1(5) by (simp add: blocks_def)
    fix l assume "l < length (F @ [[]])"
    then consider "l < length F" | "l = length F" by fastforce
    then show "filled (img s') (dinode s' (l + 1)) ((F @ [[]]) ! l)" "isize (dinode s' (l + 1)) = length ((F @ [[]]) ! l)"
      "itype (dinode s' (l + 1)) = (T @ [ty]) ! l" "inlink (dinode s' (l + 1)) = 1"
      using J(1) J(10-13) [of l] D [of "l + 1"] W(3) [of "l + 1" "F ! l"] Z(2) 1(6) by (cases; simp add: nth_append same_content_def)+
  qed (use J 1 n in simp_all)
  moreover have "mk_ialloc ty s = Ok (?n, s')" using 1(1) J(2) by (simp add: mk_ialloc_def)
  ultimately show ?thesis by blast
qed

lemma fold_zero: "img (fold (\<lambda>i. wsect i (\<lambda>_. 0)) [0..<n] s) = (\<lambda>b. if b < n then (\<lambda>_. 0) else img s b)"
  "len (fold (\<lambda>i. wsect i (\<lambda>_. 0)) [0..<n] s) = max (len s) n" "freeinode (fold (\<lambda>i. wsect i (\<lambda>_. 0)) [0..<n] s) = freeinode s"
  "freeblock (fold (\<lambda>i. wsect i (\<lambda>_. 0)) [0..<n] s) = freeblock s"
  by (induction n) (auto simp: wsect_def fun_eq_iff)

lemma sb_sector_ok: "decode_sb sb_sector = msb"
  by (simp add: decode_sb_def sb_sector_def msb_def nmeta_value xint_def get32_def)

lemma blank_ok: "image [] [] blank_image"
proof -
  have "img blank_image = (\<lambda>_ _. 0)(1 := sb_sector)" "len blank_image = FSSIZE" "freeinode blank_image = 1" "freeblock blank_image = nmeta"
    by (simp_all add: blank_image_def fold_zero wsect_def fun_eq_iff)
  moreover have "lay ((\<lambda>_ _. 0)(1 := sb_sector)) D 1 nmeta" for D by (rule layI) (use nmeta_value in auto)
  ultimately show ?thesis by (intro imageI) (simp_all add: sb_sector_ok nmeta_value)
qed

section \<open>Copying the files\<close>

lemma chunks_ok:
  assumes "image T F s" and "k < length F" and "length (F ! k) + length (concat cs) \<le> MAXFILE * BSIZE"
    and "freeblock s + blocks (length (F ! k) + length (concat cs)) \<le> FSSIZE + blocks (length (F ! k))"
  shows "\<exists>s'. forE (iappend (k + 1)) cs s = Ok s' \<and> image T (F[k := F ! k @ concat cs]) s'"
  using assms
proof (induction cs arbitrary: F s)
  case (Cons c cs)
  have m: "blocks (length (F ! k) + length c) \<le> blocks (length (F ! k) + length (concat (c # cs)))" by (rule blocks_mono) simp
  have "length (F ! k) + length c \<le> MAXFILE * BSIZE" "freeblock s + blocks (length (F ! k) + length c) \<le> FSSIZE + blocks (length (F ! k))"
    using Cons.prems(3,4) m by simp_all
  from iappend_ok [OF Cons.prems(1,2) this] obtain s1 where 1: "iappend (k + 1) c s = Ok s1" "image T (F[k := F ! k @ c]) s1" by blast
  let ?F = "F[k := F ! k @ c]"
  have Fk: "?F ! k = F ! k @ c" using Cons.prems(2) by simp
  have "freeblock s1 + blocks (length (F ! k)) = freeblock s + blocks (length (F ! k) + length c)"
    using blocks_update [OF Cons.prems(2), of "F ! k @ c"] imageD(5) [OF 1(2)] imageD(5) [OF Cons.prems(1)] unfolding length_append by linarith
  then have "freeblock s1 + blocks (length (?F ! k) + length (concat cs)) \<le> FSSIZE + blocks (length (?F ! k))"
    using Cons.prems(4) unfolding Fk by (simp add: add.assoc)
  with Cons.IH [OF 1(2)] Cons.prems(2,3) obtain s' where "forE (iappend (k + 1)) cs s1 = Ok s'" "image T (?F[k := ?F ! k @ concat cs]) s'"
    unfolding Fk by auto
  then show ?case using 1(1) by (simp add: Fk)
qed simp

lemma length_dirent: "length (dirent_bytes ino nm) = de_size"
  by (simp add: dirent_bytes_def xshort_def)

text \<open>What a list of files needs, and what it makes of the root directory.\<close>

definition data_of :: "host_file \<Rightarrow> byte list" where
  "data_of f = concat (the (snd f))"

definition name_of :: "host_file \<Rightarrow> byte list" where
  "name_of f = skip_underscore (fst f)"

definition file_fits :: "host_file \<Rightarrow> bool" where
  "file_fits f \<longleftrightarrow> slash \<notin> set (fst f) \<and> snd f \<noteq> None \<and> length (data_of f) \<le> MAXFILE * BSIZE"

definition dir_bytes :: "(nat \<times> byte list) list \<Rightarrow> byte list" where
  "dir_bytes es = concat (map (\<lambda>(ino, nm). dirent_bytes ino nm) es)"

lemma length_dir_bytes: "length (dir_bytes es) = length es * de_size"
  by (induction es) (auto simp: dir_bytes_def length_dirent)

lemma add_file_ok:
  assumes I: "image (T_DIR # Ts) (R # Fs) s" and f: "file_fits f" and n: "length Fs + 3 \<le> ninodeblocks * IPB"
    and R: "length R + de_size \<le> MAXFILE * BSIZE"
    and room: "nmeta + blocks (length R + de_size) + (\<Sum>xs\<leftarrow>Fs. blocks (length xs)) + blocks (length (data_of f)) \<le> FSSIZE"
  shows "\<exists>s'. add_file f s = Ok s' \<and>
     image (T_DIR # Ts @ [T_FILE]) ((R @ dirent_bytes (length Fs + 2) (name_of f)) # Fs @ [data_of f]) s'"
proof -
  obtain name cs where e: "f = (name, Some cs)" using f by (cases f) (auto simp: file_fits_def)
  have fs: "slash \<notin> set name" "length (concat cs) \<le> MAXFILE * BSIZE" "data_of f = concat cs" "name_of f = skip_underscore name"
    using f by (auto simp: file_fits_def e data_of_def name_of_def)
  let ?de = "dirent_bytes (length Fs + 2) (name_of f)"
  from mk_ialloc_ok [OF I, of T_FILE] n obtain s1 where
    1: "mk_ialloc T_FILE s = Ok (length Fs + 2, s1)" "image (T_DIR # Ts @ [T_FILE]) (R # Fs @ [[]]) s1" by auto
  have b0: "blocks 0 = 0" by (simp add: blocks_def)
  have "\<exists>s2. iappend (0 + 1) ?de s1 = Ok s2 \<and> image (T_DIR # Ts @ [T_FILE]) ((R # Fs @ [[]])[0 := (R # Fs @ [[]]) ! 0 @ ?de]) s2"
    by (rule iappend_ok [OF 1(2)]) (use R room imageD(5) [OF 1(2)] b0 length_dirent in simp_all)
  then obtain s2 where 2: "iappend ROOTINO ?de s1 = Ok s2" "image (T_DIR # Ts @ [T_FILE]) ((R @ ?de) # Fs @ [[]]) s2" by auto
  let ?k = "length Fs + 1"
  have "\<exists>s'. forE (iappend (?k + 1)) cs s2 = Ok s' \<and>
      image (T_DIR # Ts @ [T_FILE]) (((R @ ?de) # Fs @ [[]])[?k := ((R @ ?de) # Fs @ [[]]) ! ?k @ concat cs]) s'"
    by (rule chunks_ok [OF 2(2)]) (use fs room imageD(5) [OF 2(2)] b0 in \<open>simp_all add: length_dirent nth_append\<close>)
  then obtain s' where 3: "forE (iappend (length Fs + 2)) cs s2 = Ok s'" "image (T_DIR # Ts @ [T_FILE]) ((R @ ?de) # Fs @ [concat cs]) s'"
    by (auto simp: nth_append list_update_append)
  have "add_file f s = Ok s'" using 1(1) 2(1) 3(1) fs by (simp add: add_file_def e)
  then show ?thesis using 3(2) fs(3) by auto
qed

lemma add_files_ok:
  assumes "image (T_DIR # replicate (length Fs) T_FILE) (R # Fs) s" and "\<forall>f \<in> set fs. file_fits f" and "length Fs + length fs + 2 \<le> ninodeblocks * IPB"
    and "length R + length fs * de_size \<le> MAXFILE * BSIZE"
    and "nmeta + blocks (length R + length fs * de_size) + (\<Sum>xs\<leftarrow>Fs. blocks (length xs)) + (\<Sum>f\<leftarrow>fs. blocks (length (data_of f))) \<le> FSSIZE"
  shows "\<exists>s'. forE add_file fs s = Ok s' \<and> image (T_DIR # replicate (length Fs + length fs) T_FILE)
     ((R @ dir_bytes (zip [length Fs + 2..<length Fs + 2 + length fs] (map name_of fs))) # Fs @ map data_of fs) s'"
  using assms
proof (induction fs arbitrary: R Fs s)
  case Nil
  then show ?case by (simp add: dir_bytes_def)
next
  case (Cons f fs)
  let ?R = "R @ dirent_bytes (length Fs + 2) (name_of f)" and ?Fs = "Fs @ [data_of f]"
  have m: "blocks (length R + de_size) \<le> blocks (length R + length (f # fs) * de_size)" by (rule blocks_mono) simp
  have "\<exists>s1. add_file f s = Ok s1 \<and> image (T_DIR # replicate (length Fs) T_FILE @ [T_FILE]) (?R # ?Fs) s1"
    by (rule add_file_ok [OF Cons.prems(1)]) (use Cons.prems(2-5) m in auto)
  then obtain s1 where 1: "add_file f s = Ok s1" "image (T_DIR # replicate (length ?Fs) T_FILE) (?R # ?Fs) s1"
    by (auto simp: replicate_append_same)
  have "\<exists>s'. forE add_file fs s1 = Ok s' \<and> image (T_DIR # replicate (length ?Fs + length fs) T_FILE)
     ((?R @ dir_bytes (zip [length ?Fs + 2..<length ?Fs + 2 + length fs] (map name_of fs))) # ?Fs @ map data_of fs) s'"
    by (rule Cons.IH [OF 1(2)]) (use Cons.prems(2-5) in \<open>auto simp: length_dirent algebra_simps\<close>)
  then show ?case using 1(1) by (simp add: dir_bytes_def upt_conv_Cons del: upt_Suc)
qed

section \<open>The finished image\<close>

lemma bitmap_bits:
  "y < 8 \<Longrightarrow> bit (fold (\<lambda>i buf. buf(i div 8 := buf (i div 8) OR bit_mask i)) [0..<u] (\<lambda>_. 0) x) y \<longleftrightarrow> x * 8 + y < u"
proof (induction u)
  case (Suc u)
  have "x * 8 + y = u \<longleftrightarrow> x = u div 8 \<and> y = u mod 8" using Suc.prems by auto
  then show ?case using Suc by auto
qed simp

text \<open>What the kernel finds: as \<open>image\<close>, with the bitmap, and the size of the root directory rounded.\<close>

definition finished :: "word16 list \<Rightarrow> byte list list \<Rightarrow> mkfs_state \<Rightarrow> bool" where
  "finished T F s \<longleftrightarrow> decode_sb (img s 1) = msb \<and> img s 0 = (\<lambda>_. 0) \<and> lay (img s) (dinode s) (length F + 1) (freeblock s) \<and>
     freeblock s = nmeta + (\<Sum>xs\<leftarrow>F. blocks (length xs)) \<and> freeblock s \<le> FSSIZE \<and> (\<forall>b < FSSIZE. used (img s) msb b \<longleftrightarrow> b < freeblock s) \<and>
     (\<forall>k < length F. filled (img s) (dinode s (k + 1)) (F ! k) \<and> itype (dinode s (k + 1)) = T ! k \<and> inlink (dinode s (k + 1)) = 1 \<and>
        isize (dinode s (k + 1)) = (if k = 0 then (length (F ! 0) div BSIZE + 1) * BSIZE else length (F ! k)))"

lemma fix_root_ok:
  assumes I: "image T F s" and F: "F \<noteq> []"
  obtains s' d where "fix_root s = Ok s'" "img s' = (img s)(IBLOCK 1 msb := d)" "len s' = FSSIZE" "freeblock s' = freeblock s"
    "same_content (dinode s' 1) ((dinode s 1)\<lparr>isize := (length (F ! 0) div BSIZE + 1) * BSIZE\<rparr>)" "\<forall>l. l \<noteq> 1 \<longrightarrow> dinode s' l = dinode s l"
proof -
  note J = imageD [OF I]
  have k: "0 < length F" "(1 :: nat) < ninodeblocks * IPB" "(1 :: nat) < length F + 1" using F nmeta_value by simp_all
  let ?i = "(dinode s 1)\<lparr>isize := (length (F ! 0) div BSIZE + 1) * BSIZE\<rparr>"
  have "rinode 1 s = Ok (dinode s 1)" using iblock_bounds [OF k(2)] J(4) nmeta_value by (simp add: rinode_def rsect_def dinode_def)
  then have r: "fix_root s = winode 1 ?i s" using J(11) [OF k(1)] by (simp add: fix_root_def)
  have "length (F ! 0) \<le> MAXFILE * BSIZE" using J(10) [OF k(1)] by (simp add: filled_def)
  then have "length (F ! 0) div BSIZE \<le> MAXFILE" using div_le_mono [of "length (F ! 0)" "MAXFILE * BSIZE" BSIZE] by simp
  then have sz: "isize ?i < 2 ^ 32" by simp
  have "iaddrs (dinode s 1) j < 2 ^ 32" if "j < NDIRECT + 1" for j using lay_addr_less [OF J(7) _ k(3) that] J(6) by simp
  then have ia: "\<forall>j < NDIRECT + 1. iaddrs ?i j < 2 ^ 32" by simp
  obtain s' d where 1: "winode 1 ?i s = Ok s'" "img s' = (img s)(IBLOCK 1 msb := d)" "len s' = FSSIZE" "freeinode s' = freeinode s"
    "freeblock s' = freeblock s" "same_content (dinode s' 1) ?i" "\<forall>l. l \<noteq> 1 \<longrightarrow> dinode s' l = dinode s l"
    by (rule winode_ok [OF J(4) k(2) sz ia])
  show thesis by (rule that [of s' d]) (use 1 r in simp_all)
qed

lemma finish_ok:
  assumes I: "image T F s" and F: "F \<noteq> []"
  shows "\<exists>s'. bindE (fix_root s) (\<lambda>s. mk_balloc (freeblock s) s) = Ok s' \<and> finished T F s'"
proof -
  note J = imageD [OF I]
  let ?n = "length F + 1"
  obtain s1 d where 1: "fix_root s = Ok s1" "img s1 = (img s)(IBLOCK 1 msb := d)" "len s1 = FSSIZE" "freeblock s1 = freeblock s"
    "same_content (dinode s1 1) ((dinode s 1)\<lparr>isize := (length (F ! 0) div BSIZE + 1) * BSIZE\<rparr>)" "\<forall>l. l \<noteq> 1 \<longrightarrow> dinode s1 l = dinode s l"
    by (rule fix_root_ok [OF I F])
  let ?m = "fold (\<lambda>i buf. buf(i div 8 := buf (i div 8) OR bit_mask i)) [0..<freeblock s] (\<lambda>_. 0)"
  let ?s = "wsect (sb_bmapstart msb) ?m s1"
  have bm: "sb_bmapstart msb = 58" by (simp add: msb_def nmeta_value)
  have b: "IBLOCK 1 msb = 32" by (simp add: IBLOCK_def msb_def nmeta_value)
  have V: "img ?s = (img s)(32 := d, 58 := ?m)" by (simp only: wsect_sel bm 1(2) b)
  have "mk_balloc (freeblock s1) s1 = Ok ?s" using J(6) 1(4) by (simp add: mk_balloc_def)
  note W1 = meta_write [OF J(7), where b = 32 and d = d, unfolded nmeta_value, simplified]
  note W2 = meta_write [OF W1(2), where b = 58 and d = ?m, unfolded nmeta_value, simplified]
  have D: "dinode ?s l = dinode s1 l" if "l < ?n" for l
    using iblock_bounds [of l] that J(3) nmeta_value by (intro dinode_cong) (simp add: bm)
  have B: "same_blocks (dinode ?s l) (dinode s l)" if "l < ?n" for l
    using 1(5,6) D [OF that] by (cases "l = 1") (auto simp: same_blocks_def same_content_def)
  have "lay (img ?s) (dinode ?s) ?n (freeblock ?s)" unfolding V using lay_same [OF W2(2), of "dinode ?s"] B 1(4) by simp
  moreover have "filled (img ?s) (dinode ?s (k + 1)) (F ! k)" if "k < length F" for k
    unfolding V using W2(3) [of "k + 1"] W1(3) [of "k + 1"] J(10) [OF that] same_addr(2) [OF B [of "k + 1"]] that by simp
  moreover have "used (img ?s) msb c \<longleftrightarrow> c < freeblock ?s" if "c < FSSIZE" for c
    using that bitmap_bits [of "c mod 8" "freeblock s" "c div 8"] 1(4) unfolding V by (simp add: used_def BBLOCK_def bm)
  moreover have "itype (dinode ?s (k + 1)) = T ! k \<and> inlink (dinode ?s (k + 1)) = 1 \<and>
      isize (dinode ?s (k + 1)) = (if k = 0 then (length (F ! 0) div BSIZE + 1) * BSIZE else length (F ! k))" if "k < length F" for k
    using D [of "k + 1"] J(11-13) [OF that] 1(5,6) that by (cases "k = 0") (auto simp: same_content_def)
  ultimately have "finished T F ?s"
    using J(5,6,8,9) 1(4) V unfolding finished_def by simp
  then show ?thesis using 1(1) \<open>mk_balloc (freeblock s1) s1 = Ok ?s\<close> by auto
qed

section \<open>What the kernel makes of it\<close>

text \<open>Every file satisfies what \<open>Fs_Write\<close> asks of files, in a kernel that has mounted the image and is inside a transaction.\<close>

definition mounted :: "mkfs_state \<Rightarrow> 'a fs_state_scheme \<Rightarrow> bool" where
  "mounted s ks \<longleftrightarrow> view ks = img s \<and> sb ks = decode_sb (img s 1) \<and> disksize ks = sb_size (sb ks) \<and>
     lstart ks = sb_logstart (sb ks) \<and> lsize ks = int (sb_nlog (sb ks)) \<and> 1 \<le> outstanding ks"

lemma finished_file_ok:
  assumes f: "finished T F s" and m: "mounted s ks" and k: "0 < k" "k \<le> length F"
  shows "file_ok (loggable ks) (sb ks) (view ks) (dinode s k)"
proof -
  have V: "view ks = img s" "sb ks = msb" using f m by (auto simp: mounted_def finished_def)
  have lg: "loggable ks b \<longleftrightarrow> b < FSSIZE \<and> (b < 2 \<or> 32 \<le> b)" for b
    using m V(2) by (auto simp: mounted_def loggable_def data_block_def log_area_def msb_def nmeta_value)
  have u: "\<forall>b < FSSIZE. used (img s) msb b \<longleftrightarrow> b < freeblock s" and l: "lay (img s) (dinode s) (length F + 1) (freeblock s)"
    and fb: "freeblock s \<le> FSSIZE" using f by (auto simp: finished_def)
  note L = layD [OF l]
  have sz: "sb_size msb = FSSIZE" and bb: "b < FSSIZE \<Longrightarrow> BBLOCK b msb = 58" for b by (simp_all add: msb_def BBLOCK_def nmeta_value)
  have fb59: "59 \<le> freeblock s" using L(1) nmeta_value by simp
  have "bmok (loggable ks) msb (img s)" unfolding bmok_def using u lg fb59 by (auto simp: sz bb)
  moreover have "good (loggable ks) msb (img s) (addr (img s) (dinode s k) q)" if "q \<le> MAXFILE" "addr (img s) (dinode s k) q \<noteq> 0" for q
  proof -
    have "59 \<le> addr (img s) (dinode s k) q" "addr (img s) (dinode s k) q < freeblock s"
      using L(2) [of k q] k that nmeta_value by auto
    then show ?thesis unfolding good_def using u lg fb by (auto simp: sz bb)
  qed
  moreover have "addr (img s) (dinode s k) q = 0"
    if "q \<le> MAXFILE" "r \<le> MAXFILE" "q \<noteq> r" "addr (img s) (dinode s k) q = addr (img s) (dinode s k) r" for q r
    using L(3) [of k q k r] k that by auto
  ultimately show ?thesis unfolding file_ok_def V by blast
qed

text \<open>A block that does not exist reads as the boot block, which is zero.\<close>

lemma finished_content:
  assumes "finished T F s" and "k < length F" and "p < MAXFILE * BSIZE"
  shows "content (img s) (dinode s (k + 1)) p = (if p < length (F ! k) then F ! k ! p else 0)"
proof -
  have "fbyte (img s) (dinode s (k + 1)) p = (if p < length (F ! k) then F ! k ! p else 0)" "img s 0 = (\<lambda>_. 0)"
    using assms by (auto simp: finished_def filled_def)
  then show ?thesis by (auto simp: fbyte_def content_def split: if_splits)
qed

definition name_field :: "byte list \<Rightarrow> byte list" where
  "name_field nm = takeWhile (\<lambda>c. c \<noteq> 0) (take DIRSIZ nm)"

lemma takeWhile_zeros: "takeWhile (\<lambda>c. c \<noteq> 0) (xs @ replicate n (0 :: byte)) = takeWhile (\<lambda>c. c \<noteq> 0) xs"
  by (induction xs) (auto simp: takeWhile_eq_Nil_iff)

lemma dirent_entry:
  shows "get16 (\<lambda>x. dirent_bytes ino nm ! x) 0 = of_nat ino" "name_at (\<lambda>x. dirent_bytes ino nm ! x) 2 = name_field nm"
proof -
  let ?m = "\<lambda>x. dirent_bytes ino nm ! x"
  have "get16 ?m 0 = get16 (put16 0 (of_nat ino) ?m) 0"
    by (rule get16_cong) (auto simp: put16_def dirent_bytes_def xshort_def less_Suc_eq numeral_2_eq_2)
  then show "get16 ?m 0 = of_nat ino" by simp
  have "read_bytes ?m 2 DIRSIZ = take DIRSIZ (nm @ replicate DIRSIZ 0)"
    by (rule nth_equalityI) (simp_all add: nth_read_bytes dirent_bytes_def xshort_def numeral_2_eq_2)
  then show "name_at ?m 2 = name_field nm" by (simp add: name_at_def name_field_def takeWhile_zeros)
qed

lemma dir_bytes_nth: "j < length es \<Longrightarrow> x < de_size \<Longrightarrow> dir_bytes es ! (j * de_size + x) = dirent_bytes (fst (es ! j)) (snd (es ! j)) ! x"
proof (induction es arbitrary: j)
  case (Cons e es)
  then show ?case
  proof (cases j)
    case (Suc i)
    have "dir_bytes (e # es) ! (j * de_size + x) = dir_bytes es ! (i * de_size + x)"
      using Suc by (simp add: dir_bytes_def nth_append length_dirent split_beta)
    then show ?thesis using Cons Suc by simp
  qed (simp add: dir_bytes_def nth_append length_dirent split_beta)
qed simp

lemma find_map_option: "find P (map f xs) = map_option f (find (\<lambda>x. P (f x)) xs)"
  by (induction xs) auto

lemma map_of_find: "map_of ks a = map_option (\<lambda>j. snd (ks ! j)) (find (\<lambda>j. fst (ks ! j) = a) [0..<length ks])"
proof (induction ks)
  case (Cons k ks)
  have "[0..<length (k # ks)] = 0 # map Suc [0..<length ks]" by (simp add: map_Suc_upt upt_conv_Cons del: upt_Suc)
  then show ?case using Cons by (cases k) (simp add: find_map_option option.map_comp comp_def del: upt_Suc)
qed simp

section \<open>The root directory\<close>

text \<open>The entries of the root directory: itself, its parent (itself again) and the files, whose inodes follow.\<close>

definition root_entries :: "byte list list \<Rightarrow> (nat \<times> byte list) list" where
  "root_entries names = [(1, [0x2E]), (1, [0x2E, 0x2E])] @ zip [2..<2 + length names] names"

lemma root_entries_simps:
  "length (root_entries names) = length names + 2"
  "dir_bytes (root_entries names) = dirent_bytes 1 [0x2E] @ dirent_bytes 1 [0x2E, 0x2E] @ dir_bytes (zip [2..<2 + length names] names)"
  by (simp_all add: root_entries_def dir_bytes_def del: upt_Suc upt.simps)

lemma root_entries_ino:
  assumes "j < length (root_entries names)"
  shows "0 < fst (root_entries names ! j) \<and> fst (root_entries names ! j) < length names + 2"
proof -
  consider "j = 0" | "j = 1" | k where "j = k + 2" "k < length names"
    using assms by (metis One_nat_def Suc_eq_plus1 add_2_eq_Suc' not0_implies_Suc root_entries_simps(1) add_less_cancel_right)
  then show ?thesis by cases (simp_all add: root_entries_def del: upt_Suc)
qed

text \<open>The map of a directory whose bytes are those of a list of entries, with zeros behind them.\<close>

definition holds_entries :: "(nat \<Rightarrow> mem) \<Rightarrow> inode \<Rightarrow> (nat \<times> byte list) list \<Rightarrow> bool" where
  "holds_entries V i es \<longleftrightarrow> (\<forall>p < isize i. content V i p = (if p < length (dir_bytes es) then dir_bytes es ! p else 0)) \<and>
     length es \<le> isize i div de_size \<and> (\<forall>j < length es. 0 < fst (es ! j) \<and> fst (es ! j) < 2 ^ 16)"

lemma entry_inside: "j < isize i div de_size \<Longrightarrow> x < de_size \<Longrightarrow> j * de_size + x < isize i"
proof -
  assume "j < isize i div de_size" "x < de_size"
  moreover from this have "j * de_size + de_size \<le> isize i" by (auto simp: less_eq_div_iff_mult_less_eq [symmetric])
  ultimately show ?thesis by simp
qed

lemma holds_entry:
  assumes h: "holds_entries V i es" and j: "j < length es"
  shows "unat (entry_inum V i j) = fst (es ! j)" "entry_inum V i j \<noteq> 0" "entry_name V i j = name_field (snd (es ! j))"
proof -
  let ?S = "\<lambda>x. dirent_bytes (fst (es ! j)) (snd (es ! j)) ! x"
  note H = h [unfolded holds_entries_def]
  have "content V i (j * de_size + x) = ?S (0 + x)" if "x < de_size" for x
  proof -
    have "j * de_size + de_size \<le> length es * de_size" using j mult_le_mono1 [of "Suc j" "length es" de_size] by simp
    then show ?thesis using H entry_inside [of j i x] j that dir_bytes_nth [OF j that] by (simp add: length_dir_bytes)
  qed
  note C = entry_cong [of V i j ?S 0, OF this]
  have ino: "0 < fst (es ! j)" "fst (es ! j) < 2 ^ 16" using H j by blast+
  then have "unat (of_nat (fst (es ! j)) :: word16) = fst (es ! j)" by (simp add: unat_of_nat take_bit_eq_mod)
  then show "unat (entry_inum V i j) = fst (es ! j)" using C(1) dirent_entry(1) [of "fst (es ! j)" "snd (es ! j)"] by simp
  then show "entry_inum V i j \<noteq> 0" using ino by auto
  show "entry_name V i j = name_field (snd (es ! j))" using C(2) by (simp only: add_0 dirent_entry)
qed

lemma holds_free:
  assumes h: "holds_entries V i es" and j: "length es \<le> j" "j < isize i div de_size"
  shows "entry_inum V i j = 0"
proof -
  have "length es * de_size \<le> j * de_size" using j(1) by simp
  then have "content V i (j * de_size + x) = 0" if "x < de_size" for x
    using h [unfolded holds_entries_def] entry_inside [OF j(2) that] by (simp add: length_dir_bytes)
  from this [of 0] this [of 1] show ?thesis by (simp add: entry_inum_def get16_def)
qed

lemma dir_map_bytes:
  assumes h: "holds_entries V i es"
  shows "dir_map V i = map_of (map (\<lambda>(ino, nm). (name_field nm, ino)) es)"
proof
  fix nm
  let ?ks = "map (\<lambda>(ino, nm). (name_field nm, ino)) es"
  note E = holds_entry [OF h] and Z = holds_free [OF h]
  have n: "length es \<le> isize i div de_size" using h by (simp add: holds_entries_def)
  have "find_entry V i nm = find (\<lambda>j. fst (?ks ! j) = nm) [0..<length ?ks]"
  proof (cases "find (\<lambda>j. fst (?ks ! j) = nm) [0..<length ?ks]")
    case None
    then have "\<forall>k < isize i div de_size. \<not> in_use V i k nm" using E Z unfolding find_upt_None in_use_def
      by (metis (no_types, lifting) case_prod_beta fst_conv length_map not_le nth_map)
    then show ?thesis using None find_entry_None by simp
  next
    case (Some j)
    then have "j < length es" "name_field (snd (es ! j)) = nm" "\<forall>k < j. name_field (snd (es ! k)) \<noteq> nm"
      unfolding find_upt by (auto simp: split_beta)
    then have "find_entry V i nm = Some j" using E n unfolding find_entry_Some in_use_def by auto
    then show ?thesis using Some by simp
  qed
  then have "dir_map V i nm = map_option (\<lambda>j. unat (entry_inum V i j)) (find (\<lambda>j. fst (?ks ! j) = nm) [0..<length ?ks])"
    by (simp only: dir_map_def)
  also have "\<dots> = map_option (\<lambda>j. snd (?ks ! j)) (find (\<lambda>j. fst (?ks ! j) = nm) [0..<length ?ks])"
    using E(1) by (intro option.map_cong0) (auto simp: find_Some_iff split_beta dest: sym)
  finally show "dir_map V i nm = map_of ?ks nm" by (simp only: map_of_find)
qed

section \<open>The image as a whole\<close>

text \<open>The files fit: each into a file, their inodes into the inode blocks, all blocks into the image.\<close>

definition fits :: "host_file list \<Rightarrow> bool" where
  "fits files \<longleftrightarrow> (\<forall>f \<in> set files. file_fits f) \<and> length files + 2 \<le> ninodeblocks * IPB \<and>
     nmeta + blocks ((length files + 2) * de_size) + (\<Sum>f\<leftarrow>files. blocks (length (data_of f))) \<le> FSSIZE"

text \<open>The contents of the files \<open>1, 2, \<dots>\<close> of the image.\<close>

definition contents :: "host_file list \<Rightarrow> byte list list" where
  "contents files = dir_bytes (root_entries (map name_of files)) # map data_of files"

lemma first_entry:
  assumes "image [T_DIR] [R] s" and "length R \<le> de_size"
  shows "\<exists>s'. iappend ROOTINO (dirent_bytes ino nm) s = Ok s' \<and> image [T_DIR] [R @ dirent_bytes ino nm] s'"
proof -
  have b: "blocks (length R) \<le> 1" "blocks (length R + de_size) = 1" using assms(2) by (simp_all add: blocks_def)
  have "\<exists>s'. iappend (0 + 1) (dirent_bytes ino nm) s = Ok s' \<and> image [T_DIR] ([R][0 := [R] ! 0 @ dirent_bytes ino nm]) s'"
    by (rule iappend_ok [OF assms(1)]) (use assms imageD(5) [OF assms(1)] b nmeta_value in \<open>simp_all add: length_dirent\<close>)
  then show ?thesis by simp
qed

lemma mkfs_finished:
  assumes "fits files"
  shows "\<exists>s. mkfs files = Ok s \<and> finished (T_DIR # replicate (length files) T_FILE) (contents files) s"
proof -
  let ?R = "dirent_bytes 1 [0x2E] @ dirent_bytes 1 [0x2E, 0x2E]"
  note F = assms [unfolded fits_def]
  from mk_ialloc_ok [OF blank_ok, of T_DIR] nmeta_value obtain s0 where 0: "mk_ialloc T_DIR blank_image = Ok (1, s0)" "image [T_DIR] [[]] s0"
    by auto
  from first_entry [OF 0(2), of 1 "[0x2E]"] obtain s1 where
    1: "iappend ROOTINO (dirent_bytes 1 [0x2E]) s0 = Ok s1" "image [T_DIR] [dirent_bytes 1 [0x2E]] s1" by auto
  from first_entry [OF 1(2), of 1 "[0x2E, 0x2E]"] length_dirent obtain s2 where
    2: "iappend ROOTINO (dirent_bytes 1 [0x2E, 0x2E]) s1 = Ok s2" "image [T_DIR] [?R] s2" by auto
  have R: "length ?R + length files * de_size = (length files + 2) * de_size" by (simp add: length_dirent)
  have "\<exists>s3. forE add_file files s2 = Ok s3 \<and> image (T_DIR # replicate (length ([] :: byte list list) + length files) T_FILE)
     ((?R @ dir_bytes (zip [length ([] :: byte list list) + 2..<length ([] :: byte list list) + 2 + length files] (map name_of files))) # [] @ map data_of files) s3"
    by (rule add_files_ok) (use 2(2) F R nmeta_value in \<open>simp_all add: ac_simps\<close>)
  then obtain s3 where 3: "forE add_file files s2 = Ok s3" "image (T_DIR # replicate (length files) T_FILE) (contents files) s3"
    by (auto simp: contents_def root_entries_simps numeral_2_eq_2 simp del: upt_Suc upt.simps)
  from finish_ok [OF 3(2)] obtain s where "bindE (fix_root s3) (\<lambda>s. mk_balloc (freeblock s) s) = Ok s"
    "finished (T_DIR # replicate (length files) T_FILE) (contents files) s" by (auto simp: contents_def)
  then show ?thesis using 0(1) 1(1) 2(1) 3(1) by (auto simp: mkfs_def)
qed

lemma all_before:
  assumes "0 < (n :: nat)"
  shows "(\<forall>q \<le> n div 32. q * 32 < n) \<longleftrightarrow> \<not> 32 dvd n"
proof
  assume "\<forall>q \<le> n div 32. q * 32 < n"
  then have "n div 32 * 32 < n" by blast
  then show "\<not> 32 dvd n" by auto
next
  assume "\<not> 32 dvd n"
  then have "n div 32 * 32 < n" using div_times_less_eq_dividend [of n 32] by (metis dvd_triv_right le_neq_implies_less)
  then show "\<forall>q \<le> n div 32. q * 32 < n" by (meson le_less_trans mult_le_mono1)
qed

lemma finished_root:
  assumes f: "finished T (contents files) s" and n: "length files + 2 \<le> ninodeblocks * IPB"
  shows "dir_map (img s) (dinode s 1) = map_of (map (\<lambda>(ino, nm). (name_field nm, ino)) (root_entries (map name_of files)))"
    "isize (dinode s 1) = ((length files + 2) * de_size div BSIZE + 1) * BSIZE"
    "(\<forall>q. q * BSIZE < isize (dinode s 1) \<longrightarrow> blk (img s) (dinode s 1) q \<noteq> 0) \<longleftrightarrow> \<not> 32 dvd length files + 2"
proof -
  let ?es = "root_entries (map name_of files)" and ?i = "dinode s 1"
  have len: "length (dir_bytes ?es) = (length files + 2) * de_size" unfolding length_dir_bytes root_entries_simps(1) by simp
  have F: "contents files ! 0 = dir_bytes ?es" "0 < length (contents files)" by (simp_all add: contents_def)
  have sz: "isize ?i = ((length files + 2) * de_size div BSIZE + 1) * BSIZE" and fill: "filled (img s) ?i (dir_bytes ?es)"
    using f len by (auto simp: finished_def contents_def)
  show "isize ?i = ((length files + 2) * de_size div BSIZE + 1) * BSIZE" by (rule sz)
  have "(length files + 2) * de_size div BSIZE < MAXFILE" using n nmeta_value by simp
  then have m: "isize ?i \<le> MAXFILE * BSIZE" unfolding sz by simp
  show "dir_map (img s) ?i = map_of (map (\<lambda>(ino, nm). (name_field nm, ino)) ?es)"
  proof (rule dir_map_bytes, unfold holds_entries_def, intro conjI allI impI)
    show "content (img s) ?i p = (if p < length (dir_bytes ?es) then dir_bytes ?es ! p else 0)" if "p < isize ?i" for p
      using finished_content [OF f F(2), of p] that m unfolding F(1) by simp
    show "length ?es \<le> isize ?i div de_size" unfolding sz root_entries_simps by simp
    show "0 < fst (?es ! j)" "fst (?es ! j) < 2 ^ 16" if "j < length ?es" for j using root_entries_ino [OF that] n nmeta_value by auto
  qed
  have B: "blk (img s) ?i q \<noteq> 0 \<longleftrightarrow> q * BSIZE < (length files + 2) * de_size" if "q < MAXFILE" for q
    using fill that len by (auto simp: filled_def)
  have "q * BSIZE < (m * de_size div BSIZE + 1) * BSIZE \<longleftrightarrow> q \<le> m div 32" for q m :: nat
    using div_mult_mult2 [of 16 m 32] unfolding mult_less_cancel2 by simp linarith
  then have "q * BSIZE < isize ?i \<longleftrightarrow> q \<le> (length files + 2) div 32" for q unfolding sz .
  moreover have "q * BSIZE < (length files + 2) * de_size \<longleftrightarrow> q * 32 < length files + 2" for q by simp linarith
  moreover have "q < MAXFILE" if "q \<le> (length files + 2) div 32" for q using n that nmeta_value by simp
  ultimately have "(\<forall>q. q * BSIZE < isize ?i \<longrightarrow> blk (img s) ?i q \<noteq> 0) \<longleftrightarrow> (\<forall>q \<le> (length files + 2) div 32. q * 32 < length files + 2)"
    using B by metis
  also have "\<dots> \<longleftrightarrow> \<not> 32 dvd length files + 2" by (rule all_before) simp
  finally show "(\<forall>q. q * BSIZE < isize ?i \<longrightarrow> blk (img s) ?i q \<noteq> 0) \<longleftrightarrow> \<not> 32 dvd length files + 2" .
qed

lemma finishedD:
  assumes "finished T F s" and "k < length F"
  shows "filled (img s) (dinode s (k + 1)) (F ! k)" "itype (dinode s (k + 1)) = T ! k" "inlink (dinode s (k + 1)) = 1"
    "isize (dinode s (k + 1)) = (if k = 0 then (length (F ! 0) div BSIZE + 1) * BSIZE else length (F ! k))"
  using assms unfolding finished_def by blast+

lemma finished_nth:
  assumes f: "finished (T_DIR # replicate (length files) T_FILE) (contents files) s" and k: "k < length files"
  shows "itype (dinode s (k + 2)) = T_FILE \<and> inlink (dinode s (k + 2)) = 1 \<and> isize (dinode s (k + 2)) = length (data_of (files ! k)) \<and>
    map (content (img s) (dinode s (k + 2))) [0..<isize (dinode s (k + 2))] = data_of (files ! k)"
proof -
  have F: "contents files ! (k + 1) = data_of (files ! k)" "k + 1 < length (contents files)" "k + 1 + 1 = k + 2"
    using k by (simp_all add: contents_def)
  note D = finishedD [OF f F(2), unfolded F(1,3)]
  have fill: "filled (img s) (dinode s (k + 2)) (data_of (files ! k))" and
    *: "itype (dinode s (k + 2)) = T_FILE" "inlink (dinode s (k + 2)) = 1" "isize (dinode s (k + 2)) = length (data_of (files ! k))"
    using D k by simp_all
  have "length (data_of (files ! k)) \<le> MAXFILE * BSIZE" using fill by (simp add: filled_def)
  then have c: "content (img s) (dinode s (k + 2)) p = data_of (files ! k) ! p" if "p < length (data_of (files ! k))" for p
    using finished_content [OF f F(2), of p] that unfolding F(1,3) by simp
  have "map (content (img s) (dinode s (k + 2))) [0..<isize (dinode s (k + 2))] = data_of (files ! k)"
    unfolding *(3) by (rule nth_equalityI) (simp_all add: c [simplified])
  with * show ?thesis by blast
qed

text \<open>C8: \<^verbatim>\<open>mkfs\<close> and the kernel agree on the image.  For files that fit, the program ends normally; the kernel reads the
  super block that was meant; the bitmap marks the blocks handed out and those before the data area and no others; every file has its
  inode, with type, link count and size, and its bytes are those read from the host; the root directory is a directory that maps
  \<^verbatim>\<open>.\<close> and \<^verbatim>\<open>..\<close> to itself and the name of every file, without the leading underscore and cut to 14 bytes, to its
  inode (the first one of that name); every file satisfies what the writing operations of the kernel rely on; and the root directory
  has all its blocks up to its size just when the entries do not fill the last block.\<close>

theorem mkfs_image:
  assumes "fits files"
  shows "\<exists>s. mkfs files = Ok s \<and> decode_sb (img s 1) = msb \<and>
    freeblock s = nmeta + blocks ((length files + 2) * de_size) + (\<Sum>f\<leftarrow>files. blocks (length (data_of f))) \<and>
    (\<forall>b < FSSIZE. used (img s) msb b \<longleftrightarrow> b < freeblock s) \<and>
    (\<forall>k < length files. itype (dinode s (k + 2)) = T_FILE \<and> inlink (dinode s (k + 2)) = 1 \<and>
       isize (dinode s (k + 2)) = length (data_of (files ! k)) \<and>
       map (content (img s) (dinode s (k + 2))) [0..<isize (dinode s (k + 2))] = data_of (files ! k)) \<and>
    itype (dinode s 1) = T_DIR \<and> inlink (dinode s 1) = 1 \<and>
    dir_map (img s) (dinode s 1) = map_of (map (\<lambda>(ino, nm). (name_field nm, ino)) (root_entries (map name_of files))) \<and>
    (\<forall>ks :: fs_state. mounted s ks \<longrightarrow> (\<forall>k. 0 < k \<and> k \<le> length files + 1 \<longrightarrow> file_ok (loggable ks) (sb ks) (view ks) (dinode s k))) \<and>
    ((\<forall>q. q * BSIZE < isize (dinode s 1) \<longrightarrow> blk (img s) (dinode s 1) q \<noteq> 0) \<longleftrightarrow> \<not> 32 dvd length files + 2)"
proof -
  let ?F = "contents files"
  from mkfs_finished [OF assms] obtain s where s: "mkfs files = Ok s" and f: "finished (T_DIR # replicate (length files) T_FILE) ?F s" by blast
  have n: "length files + 2 \<le> ninodeblocks * IPB" and F: "length ?F = length files + 1" using assms by (simp_all add: fits_def contents_def)
  note D = f [unfolded finished_def]
  have "freeblock s = nmeta + blocks (length (dir_bytes (root_entries (map name_of files)))) + (\<Sum>f\<leftarrow>files. blocks (length (data_of f)))"
    using D by (simp add: contents_def comp_def)
  then have fb: "freeblock s = nmeta + blocks ((length files + 2) * de_size) + (\<Sum>f\<leftarrow>files. blocks (length (data_of f)))"
    unfolding length_dir_bytes root_entries_simps(1) length_map .
  have files: "itype (dinode s (k + 2)) = T_FILE \<and> inlink (dinode s (k + 2)) = 1 \<and> isize (dinode s (k + 2)) = length (data_of (files ! k)) \<and>
       map (content (img s) (dinode s (k + 2))) [0..<isize (dinode s (k + 2))] = data_of (files ! k)" if k: "k < length files" for k
    by (rule finished_nth [OF f k])
  have root: "itype (dinode s 1) = T_DIR \<and> inlink (dinode s 1) = 1" using D F by fastforce
  have ok: "file_ok (loggable ks) (sb ks) (view ks) (dinode s k)" if "mounted s ks" "0 < k" "k \<le> length files + 1" for ks :: fs_state and k
    using finished_file_ok [OF f that(1,2)] that(3) F by simp
  have "decode_sb (img s 1) = msb" "\<forall>b < FSSIZE. used (img s) msb b \<longleftrightarrow> b < freeblock s" using D by blast+
  with s fb files root ok finished_root(1,3) [OF f n] show ?thesis by blast
qed

theorem mkfs_image_witness:
  "\<exists>s. mkfs [([0x5F, 0x61], Some [[1, 2, 3], [4]])] = Ok s \<and> dir_map (img s) (dinode s 1) [0x61] = Some 2 \<and>
     map (content (img s) (dinode s 2)) [0..<4] = [1, 2, 3, 4] \<and> freeblock s = 61"
proof -
  let ?f = "([0x5F, 0x61], Some [[1, 2, 3], [4]]) :: host_file"
  have d: "data_of ?f = [1, 2, 3, 4]" "name_of ?f = [0x61]" by (simp_all add: data_of_def name_of_def skip_underscore_def)
  have "fits [?f]" unfolding fits_def file_fits_def by (simp add: d blocks_def nmeta_value)
  from mkfs_image [OF this] obtain s where s: "mkfs [?f] = Ok s"
    "freeblock s = nmeta + blocks ((length [?f] + 2) * de_size) + (\<Sum>f\<leftarrow>[?f]. blocks (length (data_of f)))"
    "\<forall>k < length [?f]. itype (dinode s (k + 2)) = T_FILE \<and> inlink (dinode s (k + 2)) = 1 \<and> isize (dinode s (k + 2)) = length (data_of ([?f] ! k)) \<and>
       map (content (img s) (dinode s (k + 2))) [0..<isize (dinode s (k + 2))] = data_of ([?f] ! k)"
    "dir_map (img s) (dinode s 1) = map_of (map (\<lambda>(ino, nm). (name_field nm, ino)) (root_entries (map name_of [?f])))" by blast
  have z: "0 < length [?f]" by simp
  note fl = s(3) [rule_format, OF z, unfolded nth_Cons_0 d add_0]
  have "isize (dinode s 2) = 4" using fl by simp
  moreover have "map (content (img s) (dinode s 2)) [0..<isize (dinode s 2)] = [1, 2, 3, 4]" using fl by (elim conjE)
  moreover have "root_entries (map name_of [?f]) = [(1, [0x2E]), (1, [0x2E, 0x2E]), (2, [0x61])]" by (simp add: root_entries_def d)
  moreover have "freeblock s = 61" using s(2) by (simp add: d nmeta_value blocks_def)
  ultimately show ?thesis using s(1,4) by (intro exI [of _ s]) (simp add: name_field_def)
qed

end
