(* ===== verification/Lock_Interface.thy ===== *)
theory Lock_Interface
  imports Prelude
begin

text \<open>
  What a client of a spin lock relies on: an attempt succeeds exactly on a free lock and leaves the lock
  taken, and unlocking a taken lock frees it; \<open>legal\<close> are the values the lock can have.  \<open>guards l P\<close> says that the
  lock \<open>l\<close> protects the threads in \<open>P\<close>: it is free exactly when there is none, and there is at most
  one.  The lemmas carry this through every step of a client, whatever else the client does.
\<close>

locale spin_lock =
  fixes legal :: "'l \<Rightarrow> bool"
    and attempt :: "'l \<Rightarrow> bool \<times> 'l"
    and unlock :: "'l \<Rightarrow> 'l"
    and is_free :: "'l \<Rightarrow> bool"
  assumes attempt_won: "legal l \<Longrightarrow> fst (attempt l) \<longleftrightarrow> is_free l"
    and attempt_takes: "legal l \<Longrightarrow> legal (snd (attempt l)) \<and> \<not> is_free (snd (attempt l))"
    and unlock_frees: "legal l \<Longrightarrow> \<not> is_free l \<Longrightarrow> legal (unlock l) \<and> is_free (unlock l)"
begin

definition guards :: "'l \<Rightarrow> nat set \<Rightarrow> bool" where
  "guards l P \<longleftrightarrow> legal l \<and> (if is_free l then P = {} else \<exists>i. P = {i})"

lemma guards_unique: "guards l P \<Longrightarrow> i \<in> P \<Longrightarrow> j \<in> P \<Longrightarrow> i = j"
  by (auto simp: guards_def split: if_splits)

lemma guards_start: "legal l \<Longrightarrow> is_free l \<Longrightarrow> guards l {}"
  by (simp add: guards_def)

lemma guards_keep: "guards l P \<Longrightarrow> \<not> fst (attempt l) \<Longrightarrow> guards (snd (attempt l)) P"
  by (simp add: guards_def attempt_won attempt_takes)

lemma guards_take: "guards l P \<Longrightarrow> fst (attempt l) \<Longrightarrow> P = {} \<and> guards (snd (attempt l)) {i}"
  by (simp add: guards_def attempt_won attempt_takes)

lemma guards_drop: "guards l P \<Longrightarrow> i \<in> P \<Longrightarrow> P = {i} \<and> guards (unlock l) {}"
  by (auto simp: guards_def unlock_frees split: if_splits)

lemma guards_blocked: "guards l P \<Longrightarrow> \<not> fst (attempt l) \<Longrightarrow> \<exists>i. P = {i}"
  by (auto simp: guards_def attempt_won split: if_splits)

end

end
