(* ===== verification/Atomic.thy ===== *)
theory Atomic
  imports Lock_Interface
begin

text \<open>
  \<^verbatim>\<open>src/atomic\<close>: the atomic operations of \<^verbatim>\<open>atomic.h\<close> on \<open>int64_t\<close> cells, each one locked instruction, and
  the spin lock of \<^verbatim>\<open>spinlock.h\<close>.  A thread that waits for the lock repeats \<open>SpinLock_attempt\<close>, one
  round of the loop of \<open>SpinLock_Lock\<close>; a round that sees 0 ends the loop.
\<close>

type_synonym word64 = "64 word"

definition AtomicAdd :: "word64 \<Rightarrow> word64 \<Rightarrow> word64" where
  "AtomicAdd atomic value = atomic + value"

definition AtomicSub :: "word64 \<Rightarrow> word64 \<Rightarrow> word64" where
  "AtomicSub atomic value = atomic - value"

text \<open>The value returned and the cell.\<close>

definition AtomicXchg :: "word64 \<Rightarrow> word64 \<Rightarrow> word64 \<times> word64" where
  "AtomicXchg atomic value = (atomic, value)"

text \<open>The flag, the cell and \<open>*expected\<close>: \<open>cmpxchg\<close> loads the cell into it when they differ.\<close>

definition AtomicCas :: "word64 \<Rightarrow> word64 \<Rightarrow> word64 \<Rightarrow> bool \<times> word64 \<times> word64" where
  "AtomicCas atomic expected value =
     (if atomic = expected then (True, value, expected) else (False, atomic, atomic))"

definition AtomicLoad :: "word64 \<Rightarrow> word64" where
  "AtomicLoad atomic = atomic"

record SpinLock =
  lock :: word64

definition SpinLock_Init :: "SpinLock \<Rightarrow> SpinLock" where
  "SpinLock_Init l = l\<lparr>lock := snd (AtomicXchg (lock l) 0)\<rparr>"

definition SpinLock_attempt :: "SpinLock \<Rightarrow> bool \<times> SpinLock" where
  "SpinLock_attempt l = (let (old, new) = AtomicXchg (lock l) 1 in (old = 0, l\<lparr>lock := new\<rparr>))"

definition SpinLock_Unlock :: "SpinLock \<Rightarrow> SpinLock" where
  "SpinLock_Unlock l = (let (_, new, _) = AtomicCas (lock l) 1 0 in l\<lparr>lock := new\<rparr>)"

text \<open>The lock holds 0 or 1: the compare-and-swap of \<open>SpinLock_Unlock\<close> frees it only in the latter case.\<close>

definition lock_legal :: "SpinLock \<Rightarrow> bool" where
  "lock_legal l \<longleftrightarrow> lock l = 0 \<or> lock l = 1"

definition lock_free :: "SpinLock \<Rightarrow> bool" where
  "lock_free l \<longleftrightarrow> lock l = 0"

interpretation sl: spin_lock lock_legal SpinLock_attempt SpinLock_Unlock lock_free
  by unfold_locales
    (auto simp: lock_legal_def lock_free_def SpinLock_attempt_def SpinLock_Unlock_def AtomicXchg_def AtomicCas_def)

lemma SpinLock_Init_guards: "sl.guards (SpinLock_Init l) {}"
  by (rule sl.guards_start) (simp_all add: SpinLock_Init_def AtomicXchg_def lock_legal_def lock_free_def)

end
