(* ===== verification/Rwlock.thy ===== *)
theory Rwlock
  imports Atomic
begin

text \<open>
  \<^verbatim>\<open>src/atomic/rwlock\<close>: the readers-writer lock of \<^verbatim>\<open>rwlock.h\<close> and the program of \<^verbatim>\<open>main.c\<close> that uses it, fifty
  readers and ten writers.  Threads interleave at single memory accesses: \<open>rw_step t\<close> is the next access
  of thread \<open>t\<close>, whose place in the program is its program counter; \<open>++first\<close> is a load and a store.  A run
  is the list of the threads that take a step.
\<close>

section \<open>The lock\<close>

record RwLock =
  readers_count :: word64
  readers_lock :: SpinLock
  writers_lock :: SpinLock

definition RwLock_Init :: "RwLock \<Rightarrow> RwLock" where
  "RwLock_Init l = l\<lparr>readers_count := 0, readers_lock := SpinLock_Init (readers_lock l),
     writers_lock := SpinLock_Init (writers_lock l)\<rparr>"

text \<open>
  The accesses of \<open>RwLock_ReadLock\<close> (\<open>RL\<close>), \<open>RwLock_ReadUnlock\<close> (\<open>RU\<close>), \<open>RwLock_WriteLock\<close> (\<open>WL\<close>)
  and \<open>RwLock_WriteUnlock\<close> (\<open>WU\<close>), and those of \<open>Reader\<close> and \<open>Writer\<close> around them.
\<close>

datatype rw_pc =
    R_Test | RL_Lock | RL_Add | RL_Unlock | R_First | R_Second | R_Count | RU_Lock | RU_Sub | RU_Unlock
  | W_Test | WL_Lock | WL_Wait | W_Load1 | W_Store1 | W_Load2 | W_Store2 | WU_Unlock | W_Count
  | Finished | Aborted

record rw_prog =
  rwl :: RwLock
  rw_first :: word64
  rw_second :: word64
  write_count :: word64
  read_count :: word64
  pc :: "nat \<Rightarrow> rw_pc"
  reg :: "nat \<Rightarrow> word64"    \<comment> \<open>the value a thread has loaded\<close>
  iter :: "nat \<Rightarrow> nat"      \<comment> \<open>the loop variable \<open>i\<close> of a writer\<close>

abbreviation READER_THREAD_COUNT :: nat where "READER_THREAD_COUNT \<equiv> 50"
abbreviation WRITER_THREAD_COUNT :: nat where "WRITER_THREAD_COUNT \<equiv> 10"

definition goto_pc :: "nat \<Rightarrow> rw_pc \<Rightarrow> rw_prog \<Rightarrow> rw_prog" where
  "goto_pc t p s = s\<lparr>pc := (pc s)(t := p)\<rparr>"

definition load_reg :: "nat \<Rightarrow> word64 \<Rightarrow> rw_prog \<Rightarrow> rw_prog" where
  "load_reg t v s = s\<lparr>reg := (reg s)(t := v)\<rparr>"

definition upd_rwl :: "(RwLock \<Rightarrow> RwLock) \<Rightarrow> rw_prog \<Rightarrow> rw_prog" where
  "upd_rwl f s = s\<lparr>rwl := f (rwl s)\<rparr>"

text \<open>One round of waiting for one of the two spin locks, going to \<open>p\<close> once it is won.\<close>

definition take_writers :: "nat \<Rightarrow> rw_pc \<Rightarrow> rw_prog \<Rightarrow> rw_prog" where
  "take_writers t p s =
     (let (won, l) = SpinLock_attempt (writers_lock (rwl s)); s = upd_rwl (\<lambda>r. r\<lparr>writers_lock := l\<rparr>) s
      in if won then goto_pc t p s else s)"

definition take_readers :: "nat \<Rightarrow> rw_pc \<Rightarrow> rw_prog \<Rightarrow> rw_prog" where
  "take_readers t p s =
     (let (won, l) = SpinLock_attempt (readers_lock (rwl s)); s = upd_rwl (\<lambda>r. r\<lparr>readers_lock := l\<rparr>) s
      in if won then goto_pc t p s else s)"

definition drop_writers :: "rw_prog \<Rightarrow> rw_prog" where
  "drop_writers = upd_rwl (\<lambda>r. r\<lparr>writers_lock := SpinLock_Unlock (writers_lock r)\<rparr>)"

definition drop_readers :: "rw_prog \<Rightarrow> rw_prog" where
  "drop_readers = upd_rwl (\<lambda>r. r\<lparr>readers_lock := SpinLock_Unlock (readers_lock r)\<rparr>)"

definition RwLock_ReadLock :: "nat \<Rightarrow> rw_prog \<Rightarrow> rw_prog" where
  "RwLock_ReadLock t s =
     (case pc s t of
        RL_Lock \<Rightarrow> take_writers t RL_Add s
      | RL_Add \<Rightarrow> goto_pc t RL_Unlock (upd_rwl (\<lambda>r. r\<lparr>readers_count := AtomicAdd (readers_count r) 1\<rparr>) s)
      | RL_Unlock \<Rightarrow> goto_pc t R_First (drop_writers s)
      | _ \<Rightarrow> s)"

definition RwLock_ReadUnlock :: "nat \<Rightarrow> rw_prog \<Rightarrow> rw_prog" where
  "RwLock_ReadUnlock t s =
     (case pc s t of
        RU_Lock \<Rightarrow> take_readers t RU_Sub s
      | RU_Sub \<Rightarrow> goto_pc t RU_Unlock (upd_rwl (\<lambda>r. r\<lparr>readers_count := AtomicSub (readers_count r) 1\<rparr>) s)
      | RU_Unlock \<Rightarrow> goto_pc t R_Test (drop_readers s)
      | _ \<Rightarrow> s)"

definition RwLock_WriteLock :: "nat \<Rightarrow> rw_prog \<Rightarrow> rw_prog" where
  "RwLock_WriteLock t s =
     (case pc s t of
        WL_Lock \<Rightarrow> take_writers t WL_Wait s
      | WL_Wait \<Rightarrow> if AtomicLoad (readers_count (rwl s)) \<noteq> 0 then s else goto_pc t W_Load1 s
      | _ \<Rightarrow> s)"

definition RwLock_WriteUnlock :: "nat \<Rightarrow> rw_prog \<Rightarrow> rw_prog" where
  "RwLock_WriteUnlock t s = drop_writers s"

section \<open>The program\<close>

definition Reader :: "nat \<Rightarrow> rw_prog \<Rightarrow> rw_prog" where
  "Reader t s =
     (case pc s t of
        R_Test \<Rightarrow> goto_pc t (if sint (write_count s) < int WRITER_THREAD_COUNT then RL_Lock else Finished) s
      | R_First \<Rightarrow> goto_pc t R_Second (load_reg t (rw_first s) s)
      | R_Second \<Rightarrow> goto_pc t (if reg s t = rw_second s then R_Count else Aborted) s
      | R_Count \<Rightarrow> goto_pc t RU_Lock (s\<lparr>read_count := AtomicAdd (read_count s) 1\<rparr>)
      | RU_Lock \<Rightarrow> RwLock_ReadUnlock t s
      | RU_Sub \<Rightarrow> RwLock_ReadUnlock t s
      | RU_Unlock \<Rightarrow> RwLock_ReadUnlock t s
      | _ \<Rightarrow> RwLock_ReadLock t s)"

definition Writer :: "nat \<Rightarrow> rw_prog \<Rightarrow> rw_prog" where
  "Writer t s =
     (case pc s t of
        W_Test \<Rightarrow> goto_pc t (if iter s t < 2 ^ 10 then WL_Lock else W_Count) s
      | W_Load1 \<Rightarrow> goto_pc t W_Store1 (load_reg t (rw_first s) s)
      | W_Store1 \<Rightarrow> goto_pc t W_Load2 (s\<lparr>rw_first := reg s t + 1\<rparr>)
      | W_Load2 \<Rightarrow> goto_pc t W_Store2 (load_reg t (rw_second s) s)
      | W_Store2 \<Rightarrow> goto_pc t WU_Unlock (s\<lparr>rw_second := reg s t + 1\<rparr>)
      | WU_Unlock \<Rightarrow> goto_pc t W_Test (RwLock_WriteUnlock t (s\<lparr>iter := (iter s)(t := iter s t + 1)\<rparr>))
      | W_Count \<Rightarrow> goto_pc t Finished (s\<lparr>write_count := AtomicAdd (write_count s) 1\<rparr>)
      | _ \<Rightarrow> RwLock_WriteLock t s)"

definition rw_step :: "nat \<Rightarrow> rw_prog \<Rightarrow> rw_prog" where
  "rw_step t s = (if t < READER_THREAD_COUNT then Reader t s else Writer t s)"

text \<open>\<open>main\<close>: the globals are zero; a thread that was not created yet has taken no step.\<close>

definition rw_start :: "RwLock \<Rightarrow> rw_prog" where
  "rw_start l = \<lparr>rwl = RwLock_Init l, rw_first = 0, rw_second = 0, write_count = 0, read_count = 0,
     pc = (\<lambda>t. if t < READER_THREAD_COUNT then R_Test
               else if t < READER_THREAD_COUNT + WRITER_THREAD_COUNT then W_Test else Finished),
     reg = (\<lambda>_. 0), iter = (\<lambda>_. 0)\<rparr>"

definition rw_run :: "nat list \<Rightarrow> rw_prog \<Rightarrow> rw_prog" where
  "rw_run ts s = fold rw_step ts s"

section \<open>The invariant\<close>

text \<open>Where a thread holds the spin locks, is counted as a reader, may read, may write, has written half.\<close>

fun writing :: "rw_pc \<Rightarrow> bool" where
  "writing W_Load1 = True" | "writing W_Store1 = True" | "writing W_Load2 = True" | "writing W_Store2 = True"
| "writing WU_Unlock = True" | "writing _ = False"

fun holds_writers :: "rw_pc \<Rightarrow> bool" where
  "holds_writers RL_Add = True" | "holds_writers RL_Unlock = True" | "holds_writers WL_Wait = True"
| "holds_writers p = writing p"

fun holds_readers :: "rw_pc \<Rightarrow> bool" where
  "holds_readers RU_Sub = True" | "holds_readers RU_Unlock = True" | "holds_readers _ = False"

fun reading :: "rw_pc \<Rightarrow> bool" where
  "reading R_First = True" | "reading R_Second = True" | "reading R_Count = True" | "reading _ = False"

fun counted :: "rw_pc \<Rightarrow> bool" where
  "counted RL_Unlock = True" | "counted RU_Lock = True" | "counted RU_Sub = True" | "counted Aborted = True"
| "counted p = reading p"

fun half :: "rw_pc \<Rightarrow> bool" where
  "half W_Load2 = True" | "half W_Store2 = True" | "half _ = False"

text \<open>The kind of thread that can be at a place; \<open>None\<close> is either.\<close>

fun reader_place :: "rw_pc \<Rightarrow> bool option" where
  "reader_place Finished = None" | "reader_place W_Test = Some False" | "reader_place WL_Lock = Some False"
| "reader_place WL_Wait = Some False" | "reader_place W_Count = Some False" | "reader_place p = Some (\<not> writing p)"

definition at :: "rw_prog \<Rightarrow> (rw_pc \<Rightarrow> bool) \<Rightarrow> nat set" where
  "at s P = {t. P (pc s t)}"

definition rw_lock_inv :: "rw_prog \<Rightarrow> bool" where
  "rw_lock_inv s \<longleftrightarrow>
     sl.guards (writers_lock (rwl s)) (at s holds_writers) \<and> sl.guards (readers_lock (rwl s)) (at s holds_readers) \<and>
     readers_count (rwl s) = of_nat (card (at s counted)) \<and> (at s writing = {} \<or> at s counted = {}) \<and>
     (\<forall>t b. reader_place (pc s t) = Some b \<longrightarrow> (t < READER_THREAD_COUNT \<longleftrightarrow> b))"

definition rw_data_inv :: "rw_prog \<Rightarrow> bool" where
  "rw_data_inv s \<longleftrightarrow>
     (if at s half = {} then rw_first s = rw_second s else rw_first s = rw_second s + 1) \<and>
     (\<forall>t. pc s t = R_Second \<or> pc s t = W_Store1 \<longrightarrow> reg s t = rw_first s) \<and>
     (\<forall>t. pc s t = W_Store2 \<longrightarrow> reg s t = rw_second s) \<and> (\<forall>t. pc s t \<noteq> Aborted)"

lemma rw_upd_sel [simp]:
  "pc (goto_pc t p s) = (pc s)(t := p)" "rwl (goto_pc t p s) = rwl s" "rw_first (goto_pc t p s) = rw_first s"
  "rw_second (goto_pc t p s) = rw_second s" "reg (goto_pc t p s) = reg s"
  "pc (load_reg t v s) = pc s" "rwl (load_reg t v s) = rwl s" "rw_first (load_reg t v s) = rw_first s"
  "rw_second (load_reg t v s) = rw_second s" "reg (load_reg t v s) = (reg s)(t := v)"
  "pc (upd_rwl f s) = pc s" "rwl (upd_rwl f s) = f (rwl s)" "rw_first (upd_rwl f s) = rw_first s"
  "rw_second (upd_rwl f s) = rw_second s" "reg (upd_rwl f s) = reg s"
  by (simp_all add: goto_pc_def load_reg_def upd_rwl_def)

lemma at_cong: "pc s = pc s' \<Longrightarrow> at s A = at s' A"
  by (simp add: at_def)

lemma at_goto [simp]: "at (goto_pc t p s) P = (if P p then insert t (at s P) else at s P - {t})"
  by (auto simp: at_def)

lemma at_sel [simp]:
  "at (load_reg t v s) A = at s A" "at (upd_rwl f s) A = at s A" "at (s\<lparr>rw_first := x\<rparr>) A = at s A"
  "at (s\<lparr>rw_second := x\<rparr>) A = at s A" "at (s\<lparr>iter := g\<rparr>) A = at s A"
  "at (s\<lparr>write_count := x\<rparr>) A = at s A" "at (s\<lparr>read_count := x\<rparr>) A = at s A"
  by (simp_all add: at_def)

lemma at_mem: "t \<in> at s P \<longleftrightarrow> P (pc s t)"
  by (simp add: at_def)

lemma at_stay: "P (pc s t) = P p \<Longrightarrow> (if P p then insert t (at s P) else at s P - {t}) = at s P"
  by (auto simp: at_def)

lemma place_kind: "rw_lock_inv s \<Longrightarrow> reader_place (pc s t) = Some b \<Longrightarrow> (t < READER_THREAD_COUNT \<longleftrightarrow> b)"
  by (simp add: rw_lock_inv_def)

lemma counted_bound:
  assumes "rw_lock_inv s"
  shows "finite (at s counted)" "card (at s counted) \<le> READER_THREAD_COUNT"
proof -
  have place: "counted p \<Longrightarrow> reader_place p = Some True" for p by (cases p) simp_all
  have sub: "at s counted \<subseteq> {..<READER_THREAD_COUNT}"
    using assms place by (fastforce simp: rw_lock_inv_def at_mem)
  then show "finite (at s counted)" by (rule finite_subset) simp
  from card_mono [OF _ sub] show "card (at s counted) \<le> READER_THREAD_COUNT" by simp
qed

lemma count_zero:
  assumes "rw_lock_inv s" and "readers_count (rwl s) = 0"
  shows "at s counted = {}"
proof -
  have "unat (of_nat (card (at s counted)) :: word64) = card (at s counted)"
    using counted_bound(2) [OF assms(1)] by (simp add: unsigned_of_nat take_bit_nat_eq_self)
  then have "card (at s counted) = 0" using assms by (simp add: rw_lock_inv_def)
  then show ?thesis using counted_bound(1) [OF assms(1)] by simp
qed

text \<open>A step that moves one thread to a place where it holds and counts the same keeps the invariant of the locks.\<close>

definition same_place :: "rw_pc \<Rightarrow> rw_pc \<Rightarrow> bool" where
  "same_place q p \<longleftrightarrow> holds_writers q = holds_writers p \<and> holds_readers q = holds_readers p \<and> counted q = counted p \<and>
     writing q = writing p \<and> (reader_place p = reader_place q \<or> reader_place p = None)"

lemma rw_lock_move:
  assumes inv: "rw_lock_inv s" and same: "same_place (pc s t) p" and rwl: "rwl s' = rwl s" and pc: "pc s' = (pc s)(t := p)"
  shows "rw_lock_inv s'"
proof -
  have "at s' P = at s P" if "P (pc s t) = P p" for P using pc that by (auto simp: at_def)
  then show ?thesis using inv same rwl pc unfolding rw_lock_inv_def same_place_def by auto
qed

text \<open>The steps on the spin locks.\<close>

definition other_places :: "rw_pc \<Rightarrow> rw_pc \<Rightarrow> bool" where
  "other_places q p \<longleftrightarrow> counted q = counted p \<and> \<not> writing p \<and> reader_place p = reader_place q"

lemma rw_take_writers:
  assumes inv: "rw_lock_inv s" and o: "other_places (pc s t) p"
    and h: "\<not> holds_writers (pc s t)" "holds_writers p" "holds_readers (pc s t) = holds_readers p" "\<not> writing (pc s t)"
  shows "rw_lock_inv (take_writers t p s)"
proof -
  obtain won l where w: "SpinLock_attempt (writers_lock (rwl s)) = (won, l)" by fastforce
  have g: "sl.guards (writers_lock (rwl s)) (at s holds_writers)" using inv by (simp add: rw_lock_inv_def)
  show ?thesis
  proof (cases won)
    case True
    then have "sl.guards l {t}" "at s holds_writers = {}" using sl.guards_take [OF g, of t] w by auto
    with inv True w h o show ?thesis
      by (auto simp: rw_lock_inv_def take_writers_def other_places_def at_stay)
  next
    case False
    then show ?thesis using inv w sl.guards_keep [OF g] by (simp add: rw_lock_inv_def take_writers_def)
  qed
qed

lemma rw_take_readers:
  assumes inv: "rw_lock_inv s" and o: "other_places (pc s t) p"
    and h: "\<not> holds_readers (pc s t)" "holds_readers p" "holds_writers (pc s t) = holds_writers p" "\<not> writing (pc s t)"
  shows "rw_lock_inv (take_readers t p s)"
proof -
  obtain won l where w: "SpinLock_attempt (readers_lock (rwl s)) = (won, l)" by fastforce
  have g: "sl.guards (readers_lock (rwl s)) (at s holds_readers)" using inv by (simp add: rw_lock_inv_def)
  show ?thesis
  proof (cases won)
    case True
    then have "sl.guards l {t}" "at s holds_readers = {}" using sl.guards_take [OF g, of t] w by auto
    with inv True w h o show ?thesis
      by (auto simp: rw_lock_inv_def take_readers_def other_places_def at_stay)
  next
    case False
    then show ?thesis using inv w sl.guards_keep [OF g] by (simp add: rw_lock_inv_def take_readers_def)
  qed
qed

lemma rw_drop_writers:
  assumes inv: "rw_lock_inv s" and o: "other_places (pc s t) p"
    and h: "holds_writers (pc s t)" "\<not> holds_writers p" "holds_readers (pc s t) = holds_readers p"
    and s': "rwl s' = (rwl s)\<lparr>writers_lock := SpinLock_Unlock (writers_lock (rwl s))\<rparr>" "pc s' = (pc s)(t := p)"
  shows "rw_lock_inv s'"
proof -
  have at': "at s' P = (if P p then insert t (at s P) else at s P - {t})" for P using s'(2) by (auto simp: at_def)
  have "sl.guards (writers_lock (rwl s)) (at s holds_writers)" using inv by (simp add: rw_lock_inv_def)
  from sl.guards_drop [OF this, of t] h(1)
  have "at s holds_writers = {t}" "sl.guards (SpinLock_Unlock (writers_lock (rwl s))) {}" by (auto simp: at_mem)
  then show ?thesis using inv h o s' by (auto simp: rw_lock_inv_def other_places_def at' at_stay)
qed

lemma rw_drop_readers:
  assumes inv: "rw_lock_inv s" and o: "other_places (pc s t) p"
    and h: "holds_readers (pc s t)" "\<not> holds_readers p" "holds_writers (pc s t) = holds_writers p"
    and s': "rwl s' = (rwl s)\<lparr>readers_lock := SpinLock_Unlock (readers_lock (rwl s))\<rparr>" "pc s' = (pc s)(t := p)"
  shows "rw_lock_inv s'"
proof -
  have at': "at s' P = (if P p then insert t (at s P) else at s P - {t})" for P using s'(2) by (auto simp: at_def)
  have "sl.guards (readers_lock (rwl s)) (at s holds_readers)" using inv by (simp add: rw_lock_inv_def)
  from sl.guards_drop [OF this, of t] h(1)
  have "at s holds_readers = {t}" "sl.guards (SpinLock_Unlock (readers_lock (rwl s))) {}" by (auto simp: at_mem)
  then show ?thesis using inv h o s' by (auto simp: rw_lock_inv_def other_places_def at' at_stay)
qed

text \<open>The steps on the count of readers, and the writer's wait for it to be zero.\<close>

lemma holds_writers_one:
  assumes "rw_lock_inv s" and "holds_writers (pc s t)" and "holds_writers (pc s u)"
  shows "u = t"
  using assms sl.guards_unique [of "writers_lock (rwl s)" "at s holds_writers" u t] by (simp add: rw_lock_inv_def at_mem)

lemma writing_holds: "writing p \<Longrightarrow> holds_writers p"
  by (cases p) simp_all

lemma rw_count_in:
  assumes inv: "rw_lock_inv s" and pc: "pc s t = RL_Add"
  shows "rw_lock_inv (goto_pc t RL_Unlock (upd_rwl (\<lambda>r. r\<lparr>readers_count := AtomicAdd (readers_count r) 1\<rparr>) s))"
proof -
  define s' where "s' = goto_pc t RL_Unlock (upd_rwl (\<lambda>r. r\<lparr>readers_count := AtomicAdd (readers_count r) 1\<rparr>) s)"
  have "holds_writers (pc s t)" using pc by simp
  then have "\<not> writing (pc s u)" for u
    using holds_writers_one [OF inv _ writing_holds, of t u] pc by (cases "u = t") auto
  then have "at s writing = {}" by (simp add: at_def)
  moreover have "insert t (at s holds_writers) = at s holds_writers" "at s holds_readers - {t} = at s holds_readers"
    "t \<notin> at s counted" using pc by (auto simp: at_mem)
  moreover from this(3) have "card (insert t (at s counted)) = Suc (card (at s counted))"
    using counted_bound(1) [OF inv] by simp
  ultimately have "at s' holds_writers = at s holds_writers" "at s' holds_readers = at s holds_readers"
    "card (at s' counted) = Suc (card (at s counted))" "at s' writing = {}"
    by (simp_all add: s'_def)
  moreover have "rwl s' = (rwl s)\<lparr>readers_count := readers_count (rwl s) + 1\<rparr>" by (simp add: s'_def AtomicAdd_def)
  moreover have "\<forall>u b. reader_place (pc s' u) = Some b \<longrightarrow> (u < READER_THREAD_COUNT \<longleftrightarrow> b)"
    using inv pc by (auto simp: rw_lock_inv_def s'_def)
  ultimately show ?thesis using inv unfolding rw_lock_inv_def s'_def [symmetric] by (simp add: algebra_simps)
qed

lemma rw_count_out:
  assumes inv: "rw_lock_inv s" and pc: "pc s t = RU_Sub"
  shows "rw_lock_inv (goto_pc t RU_Unlock (upd_rwl (\<lambda>r. r\<lparr>readers_count := AtomicSub (readers_count r) 1\<rparr>) s))"
proof -
  have t: "t \<in> at s counted" using pc by (simp add: at_mem)
  have "card (at s counted) = Suc (card (at s counted - {t}))"
    using card.remove [OF counted_bound(1) [OF inv] t] .
  then show ?thesis using inv pc t
    by (auto simp: rw_lock_inv_def AtomicSub_def at_mem insert_absorb)
qed

lemma rw_wait_over:
  assumes inv: "rw_lock_inv s" and pc: "pc s t = WL_Wait" and z: "readers_count (rwl s) = 0"
  shows "rw_lock_inv (goto_pc t W_Load1 s)"
  using inv pc count_zero [OF inv z] by (auto simp: rw_lock_inv_def at_mem insert_absorb)

lemmas rw_ops = RwLock_ReadLock_def RwLock_ReadUnlock_def RwLock_WriteLock_def RwLock_WriteUnlock_def
  drop_writers_def drop_readers_def AtomicLoad_def

lemma rw_lock_reader:
  assumes inv: "rw_lock_inv s" and t: "t < READER_THREAD_COUNT"
  shows "rw_lock_inv (Reader t s)"
proof -
  have kind: "reader_place (pc s t) \<noteq> Some False" using inv t by (auto simp: rw_lock_inv_def)
  note move = rw_lock_move [OF inv, of t]
  show ?thesis
  proof (cases "pc s t")
    case R_Test then show ?thesis by (auto simp: Reader_def intro!: move simp: same_place_def)
  next
    case R_First then show ?thesis by (auto simp: Reader_def intro!: move simp: same_place_def)
  next
    case R_Second then show ?thesis by (auto simp: Reader_def intro!: move simp: same_place_def)
  next
    case R_Count then show ?thesis by (auto simp: Reader_def intro!: move simp: same_place_def)
  next
    case RL_Lock
    then have "rw_lock_inv (take_writers t RL_Add s)" by (intro rw_take_writers [OF inv]) (simp_all add: other_places_def)
    with RL_Lock show ?thesis by (simp add: Reader_def rw_ops)
  next
    case RL_Add then show ?thesis using rw_count_in [OF inv] by (simp add: Reader_def rw_ops)
  next
    case RL_Unlock
    then show ?thesis by (intro rw_drop_writers [OF inv, of t R_First]) (simp_all add: Reader_def rw_ops other_places_def)
  next
    case RU_Lock
    then have "rw_lock_inv (take_readers t RU_Sub s)" by (intro rw_take_readers [OF inv]) (simp_all add: other_places_def)
    with RU_Lock show ?thesis by (simp add: Reader_def rw_ops)
  next
    case RU_Sub then show ?thesis using rw_count_out [OF inv] by (simp add: Reader_def rw_ops)
  next
    case RU_Unlock
    then show ?thesis by (intro rw_drop_readers [OF inv, of t R_Test]) (simp_all add: Reader_def rw_ops other_places_def)
  qed (use inv kind in \<open>simp_all add: Reader_def rw_ops\<close>)
qed

lemma rw_lock_writer:
  assumes inv: "rw_lock_inv s" and t: "\<not> t < READER_THREAD_COUNT"
  shows "rw_lock_inv (Writer t s)"
proof -
  have kind: "reader_place (pc s t) \<noteq> Some True" using inv t by (auto simp: rw_lock_inv_def)
  note move = rw_lock_move [OF inv, of t]
  show ?thesis
  proof (cases "pc s t")
    case W_Test then show ?thesis by (auto simp: Writer_def intro!: move simp: same_place_def)
  next
    case W_Load1 then show ?thesis by (auto simp: Writer_def intro!: move simp: same_place_def)
  next
    case W_Store1 then show ?thesis by (auto simp: Writer_def intro!: move simp: same_place_def)
  next
    case W_Load2 then show ?thesis by (auto simp: Writer_def intro!: move simp: same_place_def)
  next
    case W_Store2 then show ?thesis by (auto simp: Writer_def intro!: move simp: same_place_def)
  next
    case W_Count then show ?thesis by (auto simp: Writer_def intro!: move simp: same_place_def)
  next
    case WL_Lock
    then have "rw_lock_inv (take_writers t WL_Wait s)" by (intro rw_take_writers [OF inv]) (simp_all add: other_places_def)
    with WL_Lock show ?thesis by (simp add: Writer_def rw_ops)
  next
    case WL_Wait then show ?thesis using inv rw_wait_over [OF inv] by (simp add: Writer_def rw_ops)
  next
    case WU_Unlock
    then show ?thesis by (intro rw_drop_writers [OF inv, of t W_Test]) (simp_all add: Writer_def rw_ops other_places_def)
  qed (use inv kind in \<open>simp_all add: Writer_def rw_ops\<close>)
qed

lemma rw_lock_step: "rw_lock_inv s \<Longrightarrow> rw_lock_inv (rw_step t s)"
  using rw_lock_reader rw_lock_writer by (simp add: rw_step_def)

section \<open>The data\<close>

lemma half_writing: "half p \<Longrightarrow> writing p"
  by (cases p) simp_all

lemma writing_alone:
  assumes inv: "rw_lock_inv s" and w: "writing (pc s t)" and u: "u \<noteq> t"
  shows "\<not> writing (pc s u)" "\<not> half (pc s u)" "\<not> counted (pc s u)"
proof -
  show w': "\<not> writing (pc s u)"
    using holds_writers_one [OF inv writing_holds [OF w] writing_holds, of u] u by blast
  show "\<not> half (pc s u)" using half_writing w' by blast
  have "at s writing \<noteq> {}" using w by (auto simp: at_mem)
  then have "at s counted = {}" using inv unfolding rw_lock_inv_def by blast
  then show "\<not> counted (pc s u)" using at_mem [of u s counted] by simp
qed

text \<open>A step of the only writer, and one of a thread that does not write.\<close>

lemma rw_data_alone:
  assumes inv: "rw_lock_inv s" and w: "writing (pc s t)"
  shows "rw_data_inv s \<longleftrightarrow>
     (if half (pc s t) then rw_first s = rw_second s + 1 else rw_first s = rw_second s) \<and>
     (pc s t = W_Store1 \<longrightarrow> reg s t = rw_first s) \<and> (pc s t = W_Store2 \<longrightarrow> reg s t = rw_second s) \<and> (\<forall>u. pc s u \<noteq> Aborted)"
proof -
  note al = writing_alone [OF inv w]
  have "half (pc s u) \<longleftrightarrow> u = t \<and> half (pc s t)" for u using al(2) [of u] by (cases "u = t") auto
  then have "at s half = {u. u = t \<and> half (pc s t)}" unfolding at_def by (rule Collect_cong)
  then have h: "at s half = (if half (pc s t) then {t} else {})" by auto
  have only: "u = t" if "pc s u = W_Store1 \<or> pc s u = W_Store2 \<or> pc s u = R_Second" for u
    using al(1,3) [of u] that by (cases "u = t") auto
  have "pc s u \<noteq> R_Second" for u using only [of u] w by auto
  then have "(\<forall>u. pc s u = R_Second \<or> pc s u = W_Store1 \<longrightarrow> reg s u = rw_first s) \<longleftrightarrow> (pc s t = W_Store1 \<longrightarrow> reg s t = rw_first s)"
    "(\<forall>u. pc s u = W_Store2 \<longrightarrow> reg s u = rw_second s) \<longleftrightarrow> (pc s t = W_Store2 \<longrightarrow> reg s t = rw_second s)"
    using only by metis+
  then show ?thesis unfolding rw_data_inv_def h by simp
qed

lemma rw_data_move:
  assumes data: "rw_data_inv s"
    and s': "pc s' = (pc s)(t := p)" "rw_first s' = rw_first s" "rw_second s' = rw_second s" "reg s' = reg s"
    and h: "half (pc s t) = half p" and p: "p \<noteq> R_Second" "p \<noteq> W_Store1" "p \<noteq> W_Store2" "p \<noteq> Aborted"
  shows "rw_data_inv s'"
proof -
  have "at s' half = at s half" using h s'(1) by (auto simp: at_def)
  then show ?thesis using data p s' by (auto simp: rw_data_inv_def)
qed

lemma rw_data_take:
  assumes data: "rw_data_inv s" and p: "\<not> half (pc s t)" "\<not> half p" "p \<noteq> R_Second" "p \<noteq> W_Store1" "p \<noteq> Aborted"
  shows "rw_data_inv (take_writers t p s)" "rw_data_inv (take_readers t p s)"
proof -
  have upd: "rw_data_inv (upd_rwl f s)" for f using data by (simp add: rw_data_inv_def)
  have move: "rw_data_inv (goto_pc t p (upd_rwl f s))" for f by (rule rw_data_move [OF data, of _ t]) (use p in auto)
  show "rw_data_inv (take_writers t p s)" "rw_data_inv (take_readers t p s)"
    using upd move by (simp_all add: take_writers_def take_readers_def Let_def split: prod.split)
qed

lemma read_consistent:
  assumes inv: "rw_lock_inv s" and data: "rw_data_inv s" and c: "counted (pc s t)"
  shows "rw_first s = rw_second s"
proof -
  have "at s counted \<noteq> {}" using c by (auto simp: at_mem)
  then have "at s writing = {}" using inv unfolding rw_lock_inv_def by blast
  then have "at s half = {}" using half_writing by (auto simp: at_def)
  then show ?thesis using data by (simp add: rw_data_inv_def)
qed

lemma rw_data_reader:
  assumes inv: "rw_lock_inv s" and data: "rw_data_inv s" and t: "t < READER_THREAD_COUNT"
  shows "rw_data_inv (Reader t s)"
proof -
  note move = rw_data_move [OF data, of _ t]
  have kind: "reader_place (pc s t) \<noteq> Some False" using inv t by (auto simp: rw_lock_inv_def)
  show ?thesis
  proof (cases "pc s t")
    case R_Test then show ?thesis by (auto simp: Reader_def intro!: move)
  next
    case R_First
    then have "at (Reader t s) half = at s half" by (auto simp: Reader_def at_def)
    then show ?thesis using data R_First by (auto simp: rw_data_inv_def Reader_def)
  next
    case R_Second
    then have "reg s t = rw_second s" using data read_consistent [OF inv data, of t] by (simp add: rw_data_inv_def)
    with R_Second show ?thesis by (auto simp: Reader_def intro!: move)
  next
    case RL_Lock then show ?thesis using rw_data_take(1) [OF data, of t RL_Add] by (simp add: Reader_def rw_ops)
  next
    case RU_Lock then show ?thesis using rw_data_take(2) [OF data, of t RU_Sub] by (simp add: Reader_def rw_ops)
  qed (use kind data in \<open>auto simp: Reader_def rw_ops intro!: move\<close>)
qed

lemma rw_data_writer:
  assumes inv: "rw_lock_inv s" and data: "rw_data_inv s" and t: "\<not> t < READER_THREAD_COUNT"
  shows "rw_data_inv (Writer t s)"
proof -
  note move = rw_data_move [OF data, of _ t]
  have kind: "reader_place (pc s t) \<noteq> Some True" using inv t by (auto simp: rw_lock_inv_def)
  have nxt: "rw_data_inv (Writer t s)" if "writing (pc s t)" "writing (pc (Writer t s) t)"
    "(if half (pc (Writer t s) t) then rw_first (Writer t s) = rw_second (Writer t s) + 1 else rw_first (Writer t s) = rw_second (Writer t s)) \<and>
     (pc (Writer t s) t = W_Store1 \<longrightarrow> reg (Writer t s) t = rw_first (Writer t s)) \<and>
     (pc (Writer t s) t = W_Store2 \<longrightarrow> reg (Writer t s) t = rw_second (Writer t s)) \<and> (\<forall>u. pc (Writer t s) u \<noteq> Aborted)"
    using that rw_data_alone [OF rw_lock_writer [OF inv t], of t] by blast
  show ?thesis
  proof (cases "writing (pc s t)")
    case True
    note d = data [unfolded rw_data_alone [OF inv True]]
    from True show ?thesis
    proof (cases "pc s t")
      case WU_Unlock then show ?thesis by (auto simp: Writer_def rw_ops intro!: move)
    qed (rule nxt; use d in \<open>simp add: Writer_def\<close>)+
  next
    case False
    then show ?thesis
    proof (cases "pc s t")
      case WL_Lock then show ?thesis using rw_data_take(1) [OF data, of t WL_Wait] by (simp add: Writer_def rw_ops)
    qed (use kind data in \<open>auto simp: Writer_def rw_ops intro!: move\<close>)
  qed
qed

lemma rw_inv_run:
  assumes "rw_lock_inv s" and "rw_data_inv s"
  shows "rw_lock_inv (rw_run ts s) \<and> rw_data_inv (rw_run ts s)"
  using assms
proof (induction ts arbitrary: s)
  case (Cons t ts)
  then show ?case
    using rw_lock_step rw_data_reader rw_data_writer by (simp add: rw_run_def rw_step_def split: if_splits)
qed (simp add: rw_run_def)

lemma rw_start_inv: "rw_lock_inv (rw_start l)" "rw_data_inv (rw_start l)"
proof -
  have "at (rw_start l) P = {}" if "\<not> P R_Test" "\<not> P W_Test" "\<not> P Finished" for P
    using that by (simp add: at_def rw_start_def)
  then show "rw_lock_inv (rw_start l)" "rw_data_inv (rw_start l)"
    by (auto simp: rw_lock_inv_def rw_data_inv_def rw_start_def RwLock_Init_def SpinLock_Init_guards split: if_splits)
qed

text \<open>C11: the readers-writer lock keeps writers apart from each other and from readers.  In every run of the
  program, whatever the order in which the threads make their memory accesses, at most one writer is
  between lock and unlock and then no reader is, the count of readers is exact, and the assertion
  \<open>first == second\<close> of the readers never fails; when no writer is inside, the two variables are equal.\<close>

theorem rw_exclusion:
  fixes ts :: "nat list" and l :: RwLock
  defines "s \<equiv> rw_run ts (rw_start l)"
  shows "(\<forall>t u. writing (pc s t) \<and> writing (pc s u) \<longrightarrow> t = u) \<and> (\<forall>t u. writing (pc s t) \<longrightarrow> \<not> reading (pc s u)) \<and>
     unat (readers_count (rwl s)) = card (at s counted) \<and> (\<forall>t. pc s t \<noteq> Aborted) \<and>
     ((\<forall>t. \<not> writing (pc s t)) \<longrightarrow> rw_first s = rw_second s)"
proof -
  have inv: "rw_lock_inv s" "rw_data_inv s" using rw_inv_run [OF rw_start_inv] by (simp_all add: s_def)
  have "reading p \<Longrightarrow> counted p" "writing p \<Longrightarrow> \<not> reading p" for p by (cases p; simp)+
  then have rd: "\<not> reading (pc s u)" if "writing (pc s t)" for t u
    using writing_alone(3) [OF inv(1) that, of u] that by (cases "u = t") auto
  have "unat (readers_count (rwl s)) = card (at s counted)"
    using inv(1) counted_bound(2) [OF inv(1)] by (simp add: rw_lock_inv_def unsigned_of_nat take_bit_nat_eq_self)
  moreover have "rw_first s = rw_second s" if "\<forall>t. \<not> writing (pc s t)"
    using inv(2) that half_writing by (auto simp: rw_data_inv_def at_def split: if_splits)
  moreover have "pc s t \<noteq> Aborted" for t using inv(2) by (simp add: rw_data_inv_def)
  ultimately show ?thesis using rd writing_alone(1) [OF inv(1)] by blast
qed

definition rw_garbage :: RwLock where
  "rw_garbage = \<lparr>readers_count = 7, readers_lock = \<lparr>lock = 3\<rparr>, writers_lock = \<lparr>lock = 9\<rparr>\<rparr>"

theorem rw_exclusion_witness:
  "\<not> reading (pc (rw_run [0, 50, 50, 0, 50, 50] (rw_start rw_garbage)) 0)"
proof -
  have "writing (pc (rw_run [0, 50, 50, 0, 50, 50] (rw_start rw_garbage)) 50)"
    by (simp add: rw_run_def rw_step_def rw_start_def Reader_def Writer_def rw_ops goto_pc_def upd_rwl_def take_writers_def
        SpinLock_attempt_def AtomicXchg_def RwLock_Init_def SpinLock_Init_def load_reg_def)
  then show ?thesis using rw_exclusion [of "[0, 50, 50, 0, 50, 50]" rw_garbage] by blast
qed

section \<open>Progress\<close>

text \<open>A thread that is not waiting advances when it is scheduled.\<close>

fun waiting :: "rw_pc \<Rightarrow> bool" where
  "waiting RL_Lock = True" | "waiting RU_Lock = True" | "waiting WL_Lock = True" | "waiting WL_Wait = True"
| "waiting Finished = True" | "waiting Aborted = True" | "waiting _ = False"

lemma advances:
  assumes inv: "rw_lock_inv s" and "\<not> waiting (pc s t)"
  shows "pc (rw_step t s) t \<noteq> pc s t"
proof (cases "t < READER_THREAD_COUNT")
  case True
  then have "reader_place (pc s t) \<noteq> Some False" using inv by (auto simp: rw_lock_inv_def)
  with True assms(2) show ?thesis by (cases "pc s t") (simp_all add: rw_step_def Reader_def rw_ops)
next
  case False
  then have "reader_place (pc s t) \<noteq> Some True" using inv by (auto simp: rw_lock_inv_def)
  with False assms(2) show ?thesis by (cases "pc s t") (simp_all add: rw_step_def Writer_def rw_ops)
qed

lemma pc_take:
  "fst (SpinLock_attempt (writers_lock (rwl s))) \<Longrightarrow> pc (take_writers t p s) t = p"
  "fst (SpinLock_attempt (readers_lock (rwl s))) \<Longrightarrow> pc (take_readers t p s) t = p"
  by (auto simp: take_writers_def take_readers_def Let_def split: prod.split)

lemma lock_won:
  assumes inv: "rw_lock_inv s" and "fst (SpinLock_attempt (writers_lock (rwl s)))"
    and "pc s t = RL_Lock \<or> pc s t = WL_Lock"
  shows "pc (rw_step t s) t \<noteq> pc s t"
proof -
  have "reader_place (pc s t) = Some (t < READER_THREAD_COUNT)" using place_kind [OF inv, of t "pc s t = RL_Lock"] assms(3) by auto
  then show ?thesis using assms(2,3)
    by (auto simp: rw_step_def Reader_def Writer_def rw_ops pc_take)
qed

text \<open>C12: the program cannot deadlock.  In every state a run can reach in which some thread has not finished there is
  a thread whose next step brings it forward: not all of them wait for a spin lock or for the readers to leave.\<close>

theorem rw_progress:
  fixes ts :: "nat list" and l :: RwLock
  defines "s \<equiv> rw_run ts (rw_start l)"
  assumes "pc s u \<noteq> Finished"
  shows "\<exists>t. pc s t \<noteq> Finished \<and> pc (rw_step t s) t \<noteq> pc s t"
proof -
  have inv: "rw_lock_inv s" "rw_data_inv s" using rw_inv_run [OF rw_start_inv] by (simp_all add: s_def)
  have gw: "sl.guards (writers_lock (rwl s)) (at s holds_writers)" and gr: "sl.guards (readers_lock (rwl s)) (at s holds_readers)"
    using inv(1) by (simp_all add: rw_lock_inv_def)
  have go: ?thesis if "\<not> waiting (pc s t)" for t using advances [OF inv(1) that] that by (intro exI [of _ t]) auto
  have leave: ?thesis if "pc s t = RU_Lock" for t
  proof (cases "fst (SpinLock_attempt (readers_lock (rwl s)))")
    case True
    have "t < READER_THREAD_COUNT" using place_kind [OF inv(1), of t] that by auto
    with True that show ?thesis
      by (intro exI [of _ t]) (simp add: rw_step_def Reader_def rw_ops pc_take)
  next
    case False
    from sl.guards_blocked [OF gr this] obtain v where "holds_readers (pc s v)" by (auto simp: at_def)
    then show ?thesis by (intro go [of v]) (cases "pc s v"; simp)
  qed
  have count: ?thesis if "pc s t = WL_Wait" for t
  proof (cases "readers_count (rwl s) = 0")
    case True
    have "\<not> t < READER_THREAD_COUNT" using place_kind [OF inv(1), of t] that by auto
    with True that show ?thesis by (intro exI [of _ t]) (simp add: rw_step_def Writer_def rw_ops)
  next
    case False
    then have "at s counted \<noteq> {}" using inv(1) by (auto simp: rw_lock_inv_def)
    then obtain v where "counted (pc s v)" by (auto simp: at_def)
    then show ?thesis using go [of v] leave [of v] inv(2) by (cases "pc s v") (auto simp: rw_data_inv_def)
  qed
  have enter: ?thesis if "pc s t = RL_Lock \<or> pc s t = WL_Lock" for t
  proof (cases "fst (SpinLock_attempt (writers_lock (rwl s)))")
    case True
    then show ?thesis using lock_won [OF inv(1) _ that] that by (intro exI [of _ t]) auto
  next
    case False
    from sl.guards_blocked [OF gw this] obtain v where "holds_writers (pc s v)" by (auto simp: at_def)
    then show ?thesis using go [of v] count [of v] by (cases "pc s v") auto
  qed
  have "pc s u \<noteq> Aborted" using inv(2) by (simp add: rw_data_inv_def)
  then show ?thesis using assms(2) go [of u] leave [of u] count [of u] enter [of u] by (cases "pc s u") auto
qed

theorem rw_progress_witness:
  "\<exists>t. pc (rw_run [] (rw_start rw_garbage)) t \<noteq> Finished \<and>
     pc (rw_step t (rw_run [] (rw_start rw_garbage))) t \<noteq> pc (rw_run [] (rw_start rw_garbage)) t"
  by (rule rw_progress [of "[]" rw_garbage 0]) (simp add: rw_run_def rw_start_def)

end
