(* ===== verification/Seqlock.thy ===== *)
theory Seqlock
  imports Atomic
begin

text \<open>
  \<^verbatim>\<open>src/atomic/seqlock\<close>: the sequence lock of \<^verbatim>\<open>seqlock.h\<close> and the program of \<^verbatim>\<open>main.c\<close> that uses it, a
  thousand readers and fifty writers.  As for the readers-writer lock, threads interleave at single memory
  accesses: \<open>sq_step t\<close> is the next access of thread \<open>t\<close>.
\<close>

section \<open>The lock\<close>

record SeqLock =
  seq_spin :: SpinLock
  count :: word64

definition SeqLock_Init :: "SeqLock \<Rightarrow> SeqLock" where
  "SeqLock_Init l = l\<lparr>seq_spin := SpinLock_Init (seq_spin l), count := 0\<rparr>"

definition SeqLock_ReadLock :: "SeqLock \<Rightarrow> word64" where
  "SeqLock_ReadLock l = AtomicLoad (count l)"

definition SeqLock_ReadUnlock :: "SeqLock \<Rightarrow> word64 \<Rightarrow> bool" where
  "SeqLock_ReadUnlock l value = (let temp = AtomicLoad (count l) in temp = value \<and> sint temp mod 2 = 0)"

text \<open>
  The places of a thread: \<open>S\<close> in \<open>Reader\<close>, \<open>V\<close> in \<open>Writer\<close>.  \<open>SeqLock_WriteLock\<close> is \<open>V_Lock\<close> and \<open>V_Add1\<close>,
  \<open>SeqLock_WriteUnlock\<close> is \<open>V_Add2\<close> and \<open>V_Unlock\<close>.
\<close>

datatype sq_pc =
    S_Test | S_Begin | S_First | S_Second | S_Check | S_Count
  | V_Test | V_Lock | V_Add1 | V_Load1 | V_Store1 | V_Load2 | V_Store2 | V_Add2 | V_Unlock | V_Count
  | S_Done | S_Abort

record sq_prog =
  sql :: SeqLock
  sq_first :: word64
  sq_second :: word64
  sq_writes :: word64           \<comment> \<open>\<open>write_count\<close>\<close>
  sq_reads :: word64            \<comment> \<open>\<open>read_count\<close>\<close>
  place :: "nat \<Rightarrow> sq_pc"
  seen :: "nat \<Rightarrow> word64"       \<comment> \<open>the local \<open>s\<close>\<close>
  first_value :: "nat \<Rightarrow> word64"
  second_value :: "nat \<Rightarrow> word64"
  temp :: "nat \<Rightarrow> word64"       \<comment> \<open>the value a writer has loaded\<close>
  round :: "nat \<Rightarrow> nat"         \<comment> \<open>the loop variable \<open>i\<close>\<close>

abbreviation READ_THREAD_COUNT :: nat where "READ_THREAD_COUNT \<equiv> 1000"
abbreviation WRITE_THREAD_COUNT :: nat where "WRITE_THREAD_COUNT \<equiv> 50"
abbreviation ITER_COUNT :: nat where "ITER_COUNT \<equiv> 2 ^ 14"

definition at_place :: "nat \<Rightarrow> sq_pc \<Rightarrow> sq_prog \<Rightarrow> sq_prog" where
  "at_place t p s = s\<lparr>place := (place s)(t := p)\<rparr>"

definition upd_sql :: "(SeqLock \<Rightarrow> SeqLock) \<Rightarrow> sq_prog \<Rightarrow> sq_prog" where
  "upd_sql f s = s\<lparr>sql := f (sql s)\<rparr>"

definition SeqLock_WriteLock :: "nat \<Rightarrow> sq_prog \<Rightarrow> sq_prog" where
  "SeqLock_WriteLock t s =
     (case place s t of
        V_Lock \<Rightarrow>
          let (won, l) = SpinLock_attempt (seq_spin (sql s)); s = upd_sql (\<lambda>q. q\<lparr>seq_spin := l\<rparr>) s
          in if won then at_place t V_Add1 s else s
      | V_Add1 \<Rightarrow> at_place t V_Load1 (upd_sql (\<lambda>q. q\<lparr>count := AtomicAdd (count q) 1\<rparr>) s)
      | _ \<Rightarrow> s)"

definition SeqLock_WriteUnlock :: "nat \<Rightarrow> sq_prog \<Rightarrow> sq_prog" where
  "SeqLock_WriteUnlock t s =
     (case place s t of
        V_Add2 \<Rightarrow> at_place t V_Unlock (upd_sql (\<lambda>q. q\<lparr>count := AtomicAdd (count q) 1\<rparr>) s)
      | V_Unlock \<Rightarrow> at_place t V_Test (upd_sql (\<lambda>q. q\<lparr>seq_spin := SpinLock_Unlock (seq_spin q)\<rparr>) s)
      | _ \<Rightarrow> s)"

section \<open>The program\<close>

definition sq_Reader :: "nat \<Rightarrow> sq_prog \<Rightarrow> sq_prog" where
  "sq_Reader t s =
     (case place s t of
        S_Test \<Rightarrow> at_place t (if sint (sq_writes s) < int WRITE_THREAD_COUNT then S_Begin else S_Done) s
      | S_Begin \<Rightarrow> at_place t S_First (s\<lparr>seen := (seen s)(t := SeqLock_ReadLock (sql s))\<rparr>)
      | S_First \<Rightarrow> at_place t S_Second (s\<lparr>first_value := (first_value s)(t := sq_first s)\<rparr>)
      | S_Second \<Rightarrow> at_place t S_Check (s\<lparr>second_value := (second_value s)(t := sq_second s)\<rparr>)
      | S_Check \<Rightarrow>
          at_place t (if \<not> SeqLock_ReadUnlock (sql s) (seen s t) then S_Begin
                      else if first_value s t = second_value s t then S_Count else S_Abort) s
      | S_Count \<Rightarrow> at_place t S_Test (s\<lparr>sq_reads := AtomicAdd (sq_reads s) 1\<rparr>)
      | _ \<Rightarrow> s)"

definition sq_Writer :: "nat \<Rightarrow> sq_prog \<Rightarrow> sq_prog" where
  "sq_Writer t s =
     (case place s t of
        V_Test \<Rightarrow> at_place t (if round s t < ITER_COUNT then V_Lock else V_Count) s
      | V_Load1 \<Rightarrow> at_place t V_Store1 (s\<lparr>temp := (temp s)(t := sq_first s)\<rparr>)
      | V_Store1 \<Rightarrow> at_place t V_Load2 (s\<lparr>sq_first := temp s t + 1\<rparr>)
      | V_Load2 \<Rightarrow> at_place t V_Store2 (s\<lparr>temp := (temp s)(t := sq_second s)\<rparr>)
      | V_Store2 \<Rightarrow> at_place t V_Add2 (s\<lparr>sq_second := temp s t + 1\<rparr>)
      | V_Add2 \<Rightarrow> SeqLock_WriteUnlock t s
      | V_Unlock \<Rightarrow> SeqLock_WriteUnlock t (s\<lparr>round := (round s)(t := round s t + 1)\<rparr>)
      | V_Count \<Rightarrow> at_place t S_Done (s\<lparr>sq_writes := AtomicAdd (sq_writes s) 1\<rparr>)
      | _ \<Rightarrow> SeqLock_WriteLock t s)"

definition sq_step :: "nat \<Rightarrow> sq_prog \<Rightarrow> sq_prog" where
  "sq_step t s = (if t < READ_THREAD_COUNT then sq_Reader t s else sq_Writer t s)"

definition sq_start :: "SeqLock \<Rightarrow> sq_prog" where
  "sq_start l = \<lparr>sql = SeqLock_Init l, sq_first = 0, sq_second = 0, sq_writes = 0, sq_reads = 0,
     place = (\<lambda>t. if t < READ_THREAD_COUNT then S_Test
                  else if t < READ_THREAD_COUNT + WRITE_THREAD_COUNT then V_Test else S_Done),
     seen = (\<lambda>_. 0), first_value = (\<lambda>_. 0), second_value = (\<lambda>_. 0), temp = (\<lambda>_. 0), round = (\<lambda>_. 0)\<rparr>"

definition sq_run :: "nat list \<Rightarrow> sq_prog \<Rightarrow> sq_prog" where
  "sq_run ts s = fold sq_step ts s"

section \<open>The invariant\<close>

text \<open>Where a writer is between its two increments of the count, holds the spin lock, has stored to the variables.\<close>

fun inside :: "sq_pc \<Rightarrow> bool" where
  "inside V_Load1 = True" | "inside V_Store1 = True" | "inside V_Load2 = True" | "inside V_Store2 = True"
| "inside V_Add2 = True" | "inside _ = False"

fun has_spin :: "sq_pc \<Rightarrow> bool" where
  "has_spin V_Add1 = True" | "has_spin V_Unlock = True" | "has_spin p = inside p"

fun stored_first :: "sq_pc \<Rightarrow> bool" where
  "stored_first V_Load2 = True" | "stored_first V_Store2 = True" | "stored_first V_Add2 = True" | "stored_first _ = False"

fun stored_second :: "sq_pc \<Rightarrow> bool" where
  "stored_second V_Add2 = True" | "stored_second _ = False"

text \<open>Increments of the count in the current round.\<close>

fun adds :: "sq_pc \<Rightarrow> nat" where
  "adds V_Unlock = 2" | "adds p = (if inside p then 1 else 0)"

fun reader_at :: "sq_pc \<Rightarrow> bool" where
  "reader_at S_Test = True" | "reader_at S_Begin = True" | "reader_at S_First = True" | "reader_at S_Second = True"
| "reader_at S_Check = True" | "reader_at S_Count = True" | "reader_at S_Abort = True" | "reader_at _ = False"

definition writers :: "nat set" where
  "writers = {READ_THREAD_COUNT..<READ_THREAD_COUNT + WRITE_THREAD_COUNT}"

definition here :: "sq_prog \<Rightarrow> (sq_pc \<Rightarrow> bool) \<Rightarrow> nat set" where
  "here s P = {t. P (place s t)}"

definition bumps :: "sq_prog \<Rightarrow> nat" where
  "bumps s = (\<Sum>t\<in>writers. 2 * round s t + adds (place s t))"

text \<open>The rounds a writer may have done at a place.\<close>

fun round_ok :: "sq_pc \<Rightarrow> nat \<Rightarrow> bool" where
  "round_ok V_Test i \<longleftrightarrow> i \<le> ITER_COUNT"
| "round_ok V_Count i \<longleftrightarrow> i = ITER_COUNT"
| "round_ok S_Done i \<longleftrightarrow> i = ITER_COUNT"
| "round_ok _ i \<longleftrightarrow> i < ITER_COUNT"

definition sq_lock_inv :: "sq_prog \<Rightarrow> bool" where
  "sq_lock_inv s \<longleftrightarrow>
     sl.guards (seq_spin (sql s)) (here s has_spin) \<and> count (sql s) = of_nat (bumps s) \<and>
     (even (bumps s) \<longleftrightarrow> here s inside = {}) \<and>
     (\<forall>t. if t \<in> writers then \<not> reader_at (place s t) \<and> round_ok (place s t) (round s t)
          else if t < READ_THREAD_COUNT then reader_at (place s t) \<or> place s t = S_Done else place s t = S_Done)"

lemma sq_upd_sel [simp]:
  "place (at_place t p s) = (place s)(t := p)" "sql (at_place t p s) = sql s" "round (at_place t p s) = round s"
  "sq_first (at_place t p s) = sq_first s" "sq_second (at_place t p s) = sq_second s" "temp (at_place t p s) = temp s"
  "seen (at_place t p s) = seen s" "first_value (at_place t p s) = first_value s" "second_value (at_place t p s) = second_value s"
  "place (upd_sql f s) = place s" "sql (upd_sql f s) = f (sql s)" "round (upd_sql f s) = round s"
  "sq_first (upd_sql f s) = sq_first s" "sq_second (upd_sql f s) = sq_second s" "temp (upd_sql f s) = temp s"
  "seen (upd_sql f s) = seen s" "first_value (upd_sql f s) = first_value s" "second_value (upd_sql f s) = second_value s"
  by (simp_all add: at_place_def upd_sql_def)

lemma here_mem: "t \<in> here s P \<longleftrightarrow> P (place s t)"
  by (simp add: here_def)

lemma here_upd: "place s' = (place s)(t := p) \<Longrightarrow> here s' P = (if P p then insert t (here s P) else here s P - {t})"
  by (auto simp: here_def)

lemma here_stay: "place s' = (place s)(t := p) \<Longrightarrow> P (place s t) = P p \<Longrightarrow> here s' P = here s P"
  by (auto simp: here_def)

lemma finite_writers [simp]: "finite writers"
  by (simp add: writers_def)

lemma writer_place:
  assumes "sq_lock_inv s" and "t \<in> writers"
  shows "\<not> reader_at (place s t)" "round_ok (place s t) (round s t)"
  using assms unfolding sq_lock_inv_def by presburger+

lemma reader_place:
  assumes "sq_lock_inv s" and "t \<notin> writers"
  shows "t < READ_THREAD_COUNT \<and> reader_at (place s t) \<or> place s t = S_Done"
  using assms unfolding sq_lock_inv_def by metis

lemma bumps_bound:
  assumes "sq_lock_inv s"
  shows "bumps s \<le> WRITE_THREAD_COUNT * (2 * ITER_COUNT)"
proof -
  have "2 * i + adds p \<le> 2 * ITER_COUNT" if "round_ok p i" for p i using that by (cases p) auto
  then have "bumps s \<le> (\<Sum>t\<in>writers. 2 * ITER_COUNT)"
    unfolding bumps_def using assms by (intro sum_mono) (auto simp: sq_lock_inv_def)
  then show ?thesis by (simp add: writers_def)
qed

text \<open>The total after a step of one writer.\<close>

lemma bumps_step:
  assumes "t \<in> writers" and "place s' = (place s)(t := p)" and "round s' = (round s)(t := r)"
    and "2 * r + adds p = 2 * round s t + adds (place s t) + k"
  shows "bumps s' = bumps s + k"
proof -
  have "bumps s' = 2 * r + adds p + (\<Sum>u\<in>writers - {t}. 2 * round s' u + adds (place s' u))"
    unfolding bumps_def using assms(1-3) by (subst sum.remove [of _ t]) simp_all
  also have "(\<Sum>u\<in>writers - {t}. 2 * round s' u + adds (place s' u)) = (\<Sum>u\<in>writers - {t}. 2 * round s u + adds (place s u))"
    by (rule sum.cong) (use assms(2,3) in auto)
  finally show ?thesis unfolding bumps_def using assms(1,4) by (subst sum.remove [of _ t]) simp_all
qed

lemma bumps_other:
  assumes "t \<notin> writers" and "place s' = (place s)(t := p)" and "round s' = round s"
  shows "bumps s' = bumps s"
  unfolding bumps_def by (rule sum.cong) (use assms in auto)

lemma bumps_word:
  assumes "sq_lock_inv s"
  shows "unat (of_nat (bumps s) :: word64) = bumps s"
  using bumps_bound [OF assms] by (simp add: unsigned_of_nat take_bit_nat_eq_self)

text \<open>A writer's step: it adds \<open>k\<close> to the count, entering or leaving with \<open>k = 1\<close>.\<close>

lemma sq_lock_writer:
  assumes inv: "sq_lock_inv s" and t: "t \<in> writers"
    and s': "place s' = (place s)(t := p)" "round s' = (round s)(t := r)"
    and spin: "sl.guards (seq_spin (sql s')) (here s' has_spin)" and count: "count (sql s') = count (sql s) + of_nat k"
    and tot: "2 * r + adds p = 2 * round s t + adds (place s t) + k"
    and par: "k = 0 \<and> inside (place s t) = inside p \<or> k = 1 \<and> (here s inside = {} \<longleftrightarrow> here s' inside \<noteq> {})"
    and p: "\<not> reader_at p" "round_ok p r"
  shows "sq_lock_inv s'"
proof -
  have n: "bumps s' = bumps s + k" by (rule bumps_step [OF t s' tot])
  have "even (bumps s') \<longleftrightarrow> here s' inside = {}"
    using par inv here_stay [OF s'(1), of inside] by (auto simp: sq_lock_inv_def n)
  then show ?thesis using inv spin count p s' t by (auto simp: sq_lock_inv_def n)
qed

text \<open>A step that only moves a thread.\<close>

lemma sq_lock_move:
  assumes inv: "sq_lock_inv s" and s': "place s' = (place s)(t := p)" "round s' = round s" "sql s' = sql s"
    and same: "has_spin (place s t) = has_spin p" "inside (place s t) = inside p" "adds (place s t) = adds p"
    and kind: "if t \<in> writers then \<not> reader_at p \<and> round_ok p (round s t)
               else t < READ_THREAD_COUNT \<and> reader_at p \<or> p = S_Done"
  shows "sq_lock_inv s'"
proof -
  have "bumps s' = bumps s"
    using bumps_step [of t s' s p "round s t" 0] bumps_other [of t s' s p] s' same by (cases "t \<in> writers") auto
  then show ?thesis using inv s' kind here_stay [OF s'(1), of has_spin] here_stay [OF s'(1), of inside] same
    by (auto simp: sq_lock_inv_def)
qed

lemma spin_one:
  assumes "sq_lock_inv s" and "has_spin (place s t)" and "has_spin (place s u)"
  shows "u = t"
  using assms sl.guards_unique [of "seq_spin (sql s)" "here s has_spin" u t] by (simp add: sq_lock_inv_def here_mem)

lemma inside_spin: "inside p \<Longrightarrow> has_spin p"
  by (cases p) simp_all

text \<open>With the spin lock held by \<open>t\<close>, only \<open>t\<close> can be inside.\<close>

lemma here_inside:
  assumes "sq_lock_inv s" and "has_spin (place s t)"
  shows "here s inside = (if inside (place s t) then {t} else {})"
proof -
  have "inside (place s u) \<longleftrightarrow> u = t \<and> inside (place s t)" for u
    using spin_one [OF assms, of u] inside_spin [of "place s u"] by blast
  then have "here s inside = {u. u = t \<and> inside (place s t)}" unfolding here_def by (rule Collect_cong)
  then show ?thesis by auto
qed

lemma sq_take:
  assumes inv: "sq_lock_inv s" and t: "t \<in> writers" and pl: "place s t = V_Lock"
  shows "sq_lock_inv (SeqLock_WriteLock t s)"
proof -
  obtain won l where w: "SpinLock_attempt (seq_spin (sql s)) = (won, l)" by fastforce
  have g: "sl.guards (seq_spin (sql s)) (here s has_spin)" using inv by (simp add: sq_lock_inv_def)
  have r: "round_ok V_Lock (round s t)" using writer_place(2) [OF inv t] pl by simp
  show ?thesis
  proof (cases won)
    case True
    define s' where "s' = at_place t V_Add1 (upd_sql (\<lambda>q. q\<lparr>seq_spin := l\<rparr>) s)"
    have "here s' has_spin = {t}" "sl.guards l {t}"
      using sl.guards_take [OF g, of t] True w by (auto simp: s'_def here_upd)
    then have "sq_lock_inv s'"
      by (intro sq_lock_writer [OF inv t, of s' V_Add1 "round s t" 0]) (use pl r in \<open>auto simp: s'_def\<close>)
    then show ?thesis using True w pl by (simp add: SeqLock_WriteLock_def s'_def)
  next
    case False
    have same: "here (upd_sql f s) P = here s P" "bumps (upd_sql f s) = bumps s" for f P
      by (simp_all add: here_def bumps_def)
    show ?thesis using inv False w pl sl.guards_keep [OF g]
      by (auto simp: SeqLock_WriteLock_def sq_lock_inv_def same)
  qed
qed

lemma sq_enter:
  assumes inv: "sq_lock_inv s" and t: "t \<in> writers" and pl: "place s t = V_Add1"
  shows "sq_lock_inv (SeqLock_WriteLock t s)" "bumps (SeqLock_WriteLock t s) = bumps s + 1" "even (bumps s)"
proof -
  define s' where "s' = SeqLock_WriteLock t s"
  have s': "place s' = (place s)(t := V_Load1)" "round s' = (round s)(t := round s t)"
    "sql s' = (sql s)\<lparr>count := count (sql s) + 1\<rparr>"
    using pl by (simp_all add: s'_def SeqLock_WriteLock_def AtomicAdd_def)
  have i: "here s inside = {}" "here s' inside = {t}"
    using here_inside [OF inv, of t] pl by (auto simp: here_upd [OF s'(1)])
  have "round_ok V_Add1 (round s t)" using writer_place(2) [OF inv t] pl by simp
  then have "sq_lock_inv s'"
    by (intro sq_lock_writer [OF inv t s'(1,2), of 1])
      (use inv pl i in \<open>auto simp: s' sq_lock_inv_def here_stay [OF s'(1), of has_spin]\<close>)
  then show "sq_lock_inv (SeqLock_WriteLock t s)" by (simp add: s'_def)
  show "bumps (SeqLock_WriteLock t s) = bumps s + 1"
    using bumps_step [OF t s'(1,2), of 1] pl by (simp add: s'_def)
  show "even (bumps s)" using inv i by (simp add: sq_lock_inv_def)
qed

lemma sq_exit:
  assumes inv: "sq_lock_inv s" and t: "t \<in> writers" and pl: "place s t = V_Add2"
  shows "sq_lock_inv (SeqLock_WriteUnlock t s)" "bumps (SeqLock_WriteUnlock t s) = bumps s + 1" "odd (bumps s)"
proof -
  define s' where "s' = SeqLock_WriteUnlock t s"
  have s': "place s' = (place s)(t := V_Unlock)" "round s' = (round s)(t := round s t)"
    "sql s' = (sql s)\<lparr>count := count (sql s) + 1\<rparr>"
    using pl by (simp_all add: s'_def SeqLock_WriteUnlock_def AtomicAdd_def)
  have i: "here s inside = {t}" "here s' inside = {}"
    using here_inside [OF inv, of t] pl by (auto simp: here_upd [OF s'(1)])
  have "round_ok V_Add2 (round s t)" using writer_place(2) [OF inv t] pl by simp
  then have "sq_lock_inv s'"
    by (intro sq_lock_writer [OF inv t s'(1,2), of 1])
      (use inv pl i in \<open>auto simp: s' sq_lock_inv_def here_stay [OF s'(1), of has_spin]\<close>)
  then show "sq_lock_inv (SeqLock_WriteUnlock t s)" by (simp add: s'_def)
  show "bumps (SeqLock_WriteUnlock t s) = bumps s + 1"
    using bumps_step [OF t s'(1,2), of 1] pl by (simp add: s'_def)
  show "odd (bumps s)" using inv i by (simp add: sq_lock_inv_def)
qed

lemma sq_release:
  assumes inv: "sq_lock_inv s" and t: "t \<in> writers" and pl: "place s t = V_Unlock"
  shows "sq_lock_inv (SeqLock_WriteUnlock t (s\<lparr>round := (round s)(t := round s t + 1)\<rparr>))"
proof -
  define s' where "s' = SeqLock_WriteUnlock t (s\<lparr>round := (round s)(t := round s t + 1)\<rparr>)"
  have s': "place s' = (place s)(t := V_Test)" "round s' = (round s)(t := round s t + 1)"
    "sql s' = (sql s)\<lparr>seq_spin := SpinLock_Unlock (seq_spin (sql s))\<rparr>"
    using pl by (simp_all add: s'_def SeqLock_WriteUnlock_def)
  have "sl.guards (seq_spin (sql s)) (here s has_spin)" using inv by (simp add: sq_lock_inv_def)
  from sl.guards_drop [OF this, of t] pl
  have "here s has_spin = {t}" "sl.guards (SpinLock_Unlock (seq_spin (sql s))) {}" by (simp_all add: here_mem)
  then have g: "sl.guards (seq_spin (sql s')) (here s' has_spin)" by (simp add: here_upd [OF s'(1)] s'(3))
  have "round_ok V_Unlock (round s t)" using writer_place(2) [OF inv t] pl by simp
  then show ?thesis unfolding s'_def [symmetric]
    by (intro sq_lock_writer [OF inv t s'(1,2) g, of 0]) (use pl in \<open>auto simp: s'\<close>)
qed


text \<open>Every step keeps the invariant of the lock.\<close>

lemma sq_lock_step:
  assumes inv: "sq_lock_inv s"
  shows "sq_lock_inv (sq_step t s)"
proof (cases "t \<in> writers")
  case True
  note kind = writer_place [OF inv True] and move = sq_lock_move [OF inv, of _ t]
  have "sq_lock_inv (sq_Writer t s)"
  proof (cases "place s t")
    case V_Lock then show ?thesis using sq_take [OF inv True] by (simp add: sq_Writer_def)
  next
    case V_Add1 then show ?thesis using sq_enter [OF inv True] by (simp add: sq_Writer_def)
  next
    case V_Add2 then show ?thesis using sq_exit [OF inv True] by (simp add: sq_Writer_def)
  next
    case V_Unlock then show ?thesis using sq_release [OF inv True] by (simp add: sq_Writer_def)
  qed (use True kind inv in \<open>auto simp: sq_Writer_def SeqLock_WriteLock_def intro!: move\<close>)
  with True show ?thesis by (simp add: sq_step_def writers_def)
next
  case False
  note kind = reader_place [OF inv False] and move = sq_lock_move [OF inv, of _ t]
  show ?thesis
  proof (cases "place s t = S_Done")
    case True then show ?thesis using inv by (simp add: sq_step_def sq_Reader_def sq_Writer_def SeqLock_WriteLock_def)
  next
    case NotDone: False
    with kind have "t < READ_THREAD_COUNT" "reader_at (place s t)" by auto
    then show ?thesis using False inv
      by (cases "place s t") (auto simp: sq_step_def sq_Reader_def intro!: move)
  qed
qed

section \<open>The data\<close>

text \<open>The variables count completed stores.  A reader that has begun at an even count which is still
  current has read the current values.\<close>

definition sq_data_inv :: "sq_prog \<Rightarrow> bool" where
  "sq_data_inv s \<longleftrightarrow>
     sq_first s = of_nat (bumps s div 2 + card (here s stored_first)) \<and>
     sq_second s = of_nat (bumps s div 2 + card (here s stored_second)) \<and>
     (\<forall>t. place s t = V_Store1 \<longrightarrow> temp s t = sq_first s) \<and> (\<forall>t. place s t = V_Store2 \<longrightarrow> temp s t = sq_second s)"

definition current :: "sq_prog \<Rightarrow> nat \<Rightarrow> bool" where
  "current s t \<longleftrightarrow>
     (case place s t of
        S_First \<Rightarrow> True
      | S_Second \<Rightarrow> first_value s t = sq_first s
      | S_Check \<Rightarrow> first_value s t = sq_first s \<and> second_value s t = sq_second s
      | _ \<Rightarrow> True)"

fun looking :: "sq_pc \<Rightarrow> bool" where
  "looking S_First = True" | "looking S_Second = True" | "looking S_Check = True" | "looking _ = False"

definition sq_read_inv :: "sq_prog \<Rightarrow> bool" where
  "sq_read_inv s \<longleftrightarrow>
     (\<forall>t. place s t \<noteq> S_Abort) \<and>
     (\<forall>t. looking (place s t) \<longrightarrow> (\<exists>k \<le> bumps s. seen s t = of_nat k \<and> (k = bumps s \<and> even k \<longrightarrow> current s t)))"

lemma spin_only:
  assumes inv: "sq_lock_inv s" and t: "has_spin (place s t)" and P: "\<And>p. P p \<Longrightarrow> has_spin p"
  shows "here s P = (if P (place s t) then {t} else {})"
proof -
  have "P (place s u) \<longleftrightarrow> u = t \<and> P (place s t)" for u
    using spin_one [OF inv t, of u] P [of "place s u"] by blast
  then have "here s P = {u. u = t \<and> P (place s t)}" unfolding here_def by (rule Collect_cong)
  then show ?thesis by auto
qed

lemma stored_spin: "stored_first p \<Longrightarrow> has_spin p" "stored_second p \<Longrightarrow> has_spin p"
  by (cases p; simp)+

text \<open>What the invariant of the data says while \<open>t\<close> holds the spin lock.\<close>

lemma sq_data_spin:
  assumes inv: "sq_lock_inv s" and t: "has_spin (place s t)"
  shows "sq_data_inv s \<longleftrightarrow>
     sq_first s = of_nat (bumps s div 2 + (if stored_first (place s t) then 1 else 0)) \<and>
     sq_second s = of_nat (bumps s div 2 + (if stored_second (place s t) then 1 else 0)) \<and>
     (place s t = V_Store1 \<longrightarrow> temp s t = sq_first s) \<and> (place s t = V_Store2 \<longrightarrow> temp s t = sq_second s)"
proof -
  note only = spin_only [OF inv t]
  have "u = t" if "place s u = V_Store1 \<or> place s u = V_Store2" for u
    using spin_one [OF inv t, of u] that by auto
  then have "(\<forall>u. place s u = V_Store1 \<longrightarrow> temp s u = sq_first s) \<longleftrightarrow> (place s t = V_Store1 \<longrightarrow> temp s t = sq_first s)"
    "(\<forall>u. place s u = V_Store2 \<longrightarrow> temp s u = sq_second s) \<longleftrightarrow> (place s t = V_Store2 \<longrightarrow> temp s t = sq_second s)"
    by metis+
  moreover have "card (if b then {t} else {}) = (if b then 1 else 0)" for b by simp
  moreover have "here s stored_first = (if stored_first (place s t) then {t} else {})"
    "here s stored_second = (if stored_second (place s t) then {t} else {})"
    by (rule only, erule stored_spin)+
  ultimately show ?thesis unfolding sq_data_inv_def by (simp only:)
qed

lemma sq_data_move:
  assumes data: "sq_data_inv s" and s': "place s' = (place s)(t := p)" "sq_first s' = sq_first s" "sq_second s' = sq_second s"
      "temp s' = temp s" and n: "bumps s' = bumps s"
    and p: "stored_first (place s t) = stored_first p" "stored_second (place s t) = stored_second p" "p \<noteq> V_Store1" "p \<noteq> V_Store2"
  shows "sq_data_inv s'"
  using data s' n p here_stay [OF s'(1), of stored_first] here_stay [OF s'(1), of stored_second]
  by (auto simp: sq_data_inv_def)

lemma sq_read_keep:
  assumes rd: "sq_read_inv s"
    and s': "\<And>u. looking (place s' u) \<Longrightarrow> place s' u = place s u" "\<And>u. place s' u \<noteq> S_Abort" "seen s' = seen s"
      "first_value s' = first_value s" "second_value s' = second_value s"
    and n: "bumps s \<le> bumps s'"
    and v: "bumps s' = bumps s \<Longrightarrow> even (bumps s) \<Longrightarrow> sq_first s' = sq_first s \<and> sq_second s' = sq_second s"
  shows "sq_read_inv s'"
proof -
  have "\<exists>k \<le> bumps s'. seen s' u = of_nat k \<and> (k = bumps s' \<and> even k \<longrightarrow> current s' u)" if "looking (place s' u)" for u
  proof -
    have pu: "place s' u = place s u" by (rule s'(1) [OF that])
    with rd that obtain k where k: "k \<le> bumps s" "seen s u = of_nat k" "k = bumps s \<and> even k \<longrightarrow> current s u"
      by (auto simp: sq_read_inv_def)
    have "current s' u" if "k = bumps s'" "even k"
    proof -
      have "bumps s' = bumps s" "even (bumps s)" using that k(1) n by auto
      with k(3) that v pu s'(4,5) show ?thesis by (auto simp: current_def split: sq_pc.splits)
    qed
    with k n s'(3) show ?thesis by (intro exI [of _ k]) auto
  qed
  then show ?thesis using s'(2) by (simp add: sq_read_inv_def)
qed

text \<open>The steps of a writer with the spin lock.\<close>

lemma sq_data_writer:
  assumes inv: "sq_lock_inv s" and data: "sq_data_inv s" and t: "t \<in> writers" and sp: "has_spin (place s t)"
  shows "sq_data_inv (sq_Writer t s)"
proof -
  define s' where "s' = sq_Writer t s"
  have inv': "sq_lock_inv s'" using sq_lock_step [OF inv, of t] t by (simp add: sq_step_def writers_def s'_def)
  note d = data [unfolded sq_data_spin [OF inv sp]]
  have "sq_data_inv s'"
  proof (cases "place s t = V_Unlock")
    case True
    then have n: "place s' = (place s)(t := V_Test)" "round s' = (round s)(t := round s t + 1)"
      by (simp_all add: s'_def sq_Writer_def SeqLock_WriteUnlock_def)
    have "bumps s' = bumps s" using bumps_step [OF t n, of 0] True by simp
    then show ?thesis using True n
      by (intro sq_data_move [OF data, of _ t V_Test]) (simp_all add: s'_def sq_Writer_def SeqLock_WriteUnlock_def)
  next
    case False
    have sp': "has_spin (place s' t)"
      using sp False by (cases "place s t") (simp_all add: s'_def sq_Writer_def SeqLock_WriteUnlock_def SeqLock_WriteLock_def)
    have mv: "bumps s' = bumps s + (if place s t = V_Add1 \<or> place s t = V_Add2 then 1 else 0)"
      using sp False sq_enter(2) [OF inv t] sq_exit(2) [OF inv t]
        bumps_step [OF t, of s' s "place s' t" "round s t" 0]
      by (cases "place s t") (simp_all add: s'_def sq_Writer_def)
    show ?thesis unfolding sq_data_spin [OF inv' sp']
      using sp False d sq_enter(3) [OF inv t] sq_exit(3) [OF inv t]
      by (cases "place s t")
        (auto simp: mv, auto simp: s'_def sq_Writer_def SeqLock_WriteUnlock_def SeqLock_WriteLock_def elim!: oddE evenE)
  qed
  then show ?thesis by (simp add: s'_def)
qed

text \<open>Writers do not disturb a reader whose count is current: they store only while the count is odd.\<close>

lemma sq_read_writer:
  assumes inv: "sq_lock_inv s" and rd: "sq_read_inv s" and t: "t \<in> writers"
  shows "sq_read_inv (sq_Writer t s)"
proof -
  define s' where "s' = sq_Writer t s"
  note kind = writer_place [OF inv t]
  have others: "place s' u = place s u" if "u \<noteq> t" for u
    using that by (simp add: s'_def sq_Writer_def SeqLock_WriteUnlock_def SeqLock_WriteLock_def Let_def split: sq_pc.split prod.split)
  then have pl: "place s' = (place s)(t := place s' t)" by (auto simp: fun_eq_iff)
  have pt: "\<not> looking (place s' t)" "place s' t \<noteq> S_Abort"
    using kind(1) by (cases "place s t"; simp add: s'_def sq_Writer_def SeqLock_WriteUnlock_def SeqLock_WriteLock_def
      Let_def split: prod.split)+
  have rest: "seen s' = seen s" "first_value s' = first_value s" "second_value s' = second_value s"
    by (simp_all add: s'_def sq_Writer_def SeqLock_WriteUnlock_def SeqLock_WriteLock_def Let_def split: sq_pc.split prod.split)
  have store: "inside (place s t) \<or> sq_first s' = sq_first s \<and> sq_second s' = sq_second s"
    by (cases "place s t"; simp add: s'_def sq_Writer_def SeqLock_WriteUnlock_def SeqLock_WriteLock_def Let_def split: prod.split)
  have "round s' u = round s u" if "u \<noteq> t" for u
    using that by (simp add: s'_def sq_Writer_def SeqLock_WriteUnlock_def SeqLock_WriteLock_def Let_def split: sq_pc.split prod.split)
  then have rd': "round s' = (round s)(t := round s' t)" by (auto simp: fun_eq_iff)
  have "2 * round s t + adds (place s t) \<le> 2 * round s' t + adds (place s' t)"
    using kind(1) by (cases "place s t"; simp add: s'_def sq_Writer_def SeqLock_WriteUnlock_def SeqLock_WriteLock_def Let_def split: prod.split)
  from le_Suc_ex [OF this] obtain k where k: "2 * round s' t + adds (place s' t) = 2 * round s t + adds (place s t) + k"
    by auto
  have n: "bumps s' = bumps s + k" by (rule bumps_step [OF t pl rd' k])
  have "sq_read_inv s'"
  proof (rule sq_read_keep [OF rd])
    fix u assume "looking (place s' u)"
    then show "place s' u = place s u" using pt(1) others [of u] by (cases "u = t") auto
  next
    fix u show "place s' u \<noteq> S_Abort" using pt(2) others [of u] rd by (cases "u = t") (auto simp: sq_read_inv_def)
  next
    assume "even (bumps s)"
    then have "\<not> inside (place s t)" using inv here_mem [of t s inside] by (auto simp: sq_lock_inv_def)
    then show "sq_first s' = sq_first s \<and> sq_second s' = sq_second s" using store by blast
  qed (use rest n in auto)
  then show ?thesis by (simp add: s'_def)
qed

text \<open>The check of a reader accepts only an even count equal to the one it began with.\<close>

lemma read_accept:
  assumes inv: "sq_lock_inv s" and data: "sq_data_inv s" and rd: "sq_read_inv s" and pl: "place s t = S_Check"
    and ok: "SeqLock_ReadUnlock (sql s) (seen s t)"
  shows "first_value s t = second_value s t"
proof -
  have "looking (place s t)" using pl by simp
  with rd obtain k where k: "k \<le> bumps s" "seen s t = of_nat k" "k = bumps s \<and> even k \<longrightarrow> current s t"
    unfolding sq_read_inv_def by blast
  have c: "count (sql s) = of_nat (bumps s)" using inv by (simp add: sq_lock_inv_def)
  have le: "bumps s < 2 ^ 62" using bumps_bound [OF inv] by simp
  have "unat (of_nat k :: word64) = k" using k(1) le by (simp add: unsigned_of_nat take_bit_nat_eq_self)
  moreover have "of_nat k = (of_nat (bumps s) :: word64)" using ok k(2) c by (simp add: SeqLock_ReadUnlock_def AtomicLoad_def Let_def)
  ultimately have kn: "k = bumps s" using bumps_word [OF inv] by simp
  have "sint (of_nat (bumps s) :: word64) = int (bumps s)"
    using le by (simp add: signed_of_nat signed_take_bit_int_eq_self)
  then have ev: "even (bumps s)" using ok c unfolding SeqLock_ReadUnlock_def AtomicLoad_def Let_def by simp presburger
  then have "here s inside = {}" using inv by (simp add: sq_lock_inv_def)
  moreover have "stored_first p \<Longrightarrow> inside p" "stored_second p \<Longrightarrow> inside p" for p by (cases p; simp)+
  ultimately have "here s stored_first = {}" "here s stored_second = {}" by (auto simp: here_def)
  then have "sq_first s = sq_second s" using data by (simp add: sq_data_inv_def)
  with k(3) kn ev pl show ?thesis by (simp add: current_def)
qed

lemma sq_read_reader:
  assumes inv: "sq_lock_inv s" and data: "sq_data_inv s" and rd: "sq_read_inv s" and t: "t \<notin> writers" and lt: "t < READ_THREAD_COUNT"
  shows "sq_read_inv (sq_Reader t s)"
proof -
  define s' where "s' = sq_Reader t s"
  have other: "place s' u = place s u" "seen s' u = seen s u" "first_value s' u = first_value s u" "second_value s' u = second_value s u"
    if "u \<noteq> t" for u using that by (simp_all add: s'_def sq_Reader_def split: sq_pc.split)
  have s': "place s' = (place s)(t := place s' t)" using other(1) by (auto simp: fun_eq_iff)
  have r': "round s' = round s" "sq_first s' = sq_first s" "sq_second s' = sq_second s"
    by (simp_all add: s'_def sq_Reader_def split: sq_pc.split)
  have n: "bumps s' = bumps s" by (rule bumps_other [OF t s' r'(1)])
  have keep: "\<exists>k \<le> bumps s. seen s u = of_nat k \<and> (k = bumps s \<and> even k \<longrightarrow> current s u)" if "looking (place s u)" for u
    using rd that by (simp add: sq_read_inv_def)
  have "place s' u \<noteq> S_Abort \<and>
      (looking (place s' u) \<longrightarrow> (\<exists>k \<le> bumps s'. seen s' u = of_nat k \<and> (k = bumps s' \<and> even k \<longrightarrow> current s' u)))" for u
  proof (cases "u = t")
    case False
    then have "current s' u = current s u" using other [OF False] r'(2,3) by (simp add: current_def split: sq_pc.split)
    then show ?thesis using rd keep [of u] other [OF False] n unfolding sq_read_inv_def by simp
  next
    case True
    have c: "count (sql s) = of_nat (bumps s)" using inv by (simp add: sq_lock_inv_def)
    show ?thesis
    proof (cases "place s t")
      case S_Begin
      then show ?thesis using True c unfolding n
        by (auto simp: s'_def sq_Reader_def current_def SeqLock_ReadLock_def AtomicLoad_def intro!: exI [of _ "bumps s"])
    next
      case S_First
      then show ?thesis using True keep [of t] unfolding n by (auto simp: s'_def sq_Reader_def current_def)
    next
      case S_Second
      then show ?thesis using True keep [of t] unfolding n by (auto simp: s'_def sq_Reader_def current_def)
    next
      case S_Check
      then show ?thesis using True read_accept [OF inv data rd S_Check] by (auto simp: s'_def sq_Reader_def)
    qed (use True rd in \<open>auto simp: s'_def sq_Reader_def sq_read_inv_def\<close>)
  qed
  then show ?thesis unfolding sq_read_inv_def s'_def [symmetric] by blast
qed


lemma sq_data_step:
  assumes inv: "sq_lock_inv s" and data: "sq_data_inv s"
  shows "sq_data_inv (sq_step t s)"
proof (cases "has_spin (place s t)")
  case True
  have w: "t \<in> writers" using True reader_place [OF inv, of t] by (cases "place s t") auto
  with sq_data_writer [OF inv data w True] show ?thesis by (simp add: sq_step_def writers_def)
next
  case False
  define s' where "s' = sq_step t s"
  have pl: "place s' = (place s)(t := place s' t)"
    by (auto simp: fun_eq_iff s'_def sq_step_def sq_Reader_def sq_Writer_def SeqLock_WriteUnlock_def SeqLock_WriteLock_def
        Let_def split: sq_pc.split prod.split)
  have rest: "round s' = round s" "sq_first s' = sq_first s" "sq_second s' = sq_second s" "temp s' = temp s"
    using False by (auto simp: s'_def sq_step_def sq_Reader_def sq_Writer_def SeqLock_WriteUnlock_def SeqLock_WriteLock_def
        Let_def split: sq_pc.split prod.split)
  have p: "\<not> stored_first (place s' t)" "\<not> stored_second (place s' t)" "place s' t \<noteq> V_Store1" "place s' t \<noteq> V_Store2" "adds (place s' t) = 0"
    using False by (cases "place s t"; simp add: s'_def sq_step_def sq_Reader_def sq_Writer_def SeqLock_WriteUnlock_def SeqLock_WriteLock_def
        Let_def split: prod.split)+
  have q: "\<not> stored_first (place s t)" "\<not> stored_second (place s t)" "adds (place s t) = 0"
    using False by (cases "place s t"; simp)+
  have n: "bumps s' = bumps s"
    using bumps_step [of t s' s "place s' t" "round s t" 0] bumps_other [OF _ pl rest(1)] pl rest(1) p(5) q(3)
    by (cases "t \<in> writers") auto
  have "sq_data_inv s'" by (rule sq_data_move [OF data pl rest(2,3,4) n]) (use p q in auto)
  then show ?thesis by (simp add: s'_def)
qed

lemma sq_read_step:
  assumes inv: "sq_lock_inv s" and data: "sq_data_inv s" and rd: "sq_read_inv s"
  shows "sq_read_inv (sq_step t s)"
proof (cases "t \<in> writers")
  case True
  then show ?thesis using sq_read_writer [OF inv rd] by (simp add: sq_step_def writers_def)
next
  case False
  show ?thesis
  proof (cases "t < READ_THREAD_COUNT")
    case True then show ?thesis using sq_read_reader [OF inv data rd False] by (simp add: sq_step_def)
  next
    case NotReader: False
    then have "place s t = S_Done" using reader_place [OF inv False] by blast
    then show ?thesis using rd NotReader by (simp add: sq_step_def sq_Writer_def SeqLock_WriteLock_def)
  qed
qed

lemma sq_inv_run:
  assumes "sq_lock_inv s" and "sq_data_inv s" and "sq_read_inv s"
  shows "sq_lock_inv (sq_run ts s) \<and> sq_data_inv (sq_run ts s) \<and> sq_read_inv (sq_run ts s)"
  using assms by (induction ts arbitrary: s) (simp_all add: sq_run_def sq_lock_step sq_data_step sq_read_step)

lemma sq_start_inv: "sq_lock_inv (sq_start l)" "sq_data_inv (sq_start l)" "sq_read_inv (sq_start l)"
proof -
  have e: "here (sq_start l) P = {}" if "\<not> P S_Test" "\<not> P V_Test" "\<not> P S_Done" for P
    using that by (simp add: here_def sq_start_def)
  have n: "bumps (sq_start l) = 0" by (auto simp: bumps_def sq_start_def)
  have h: "here (sq_start l) has_spin = {}" "here (sq_start l) inside = {}" by (simp_all add: e)
  show "sq_lock_inv (sq_start l)" unfolding sq_lock_inv_def n h
    by (auto simp: SeqLock_Init_def SpinLock_Init_guards writers_def sq_start_def)
  show "sq_data_inv (sq_start l)" unfolding sq_data_inv_def n by (auto simp: e) (auto simp: sq_start_def)
  show "sq_read_inv (sq_start l)" by (auto simp: sq_read_inv_def sq_start_def)
qed


text \<open>C10: the sequence lock gives readers consistent pairs, and no update is lost.  In every run of the program, whatever
  the order in which the threads make their memory accesses, at most one writer is between its two
  increments of the count, the assertion \<open>first_value == second_value\<close> of a reader whose
  \<open>SeqLock_ReadUnlock\<close> succeeded never fails, the count is even exactly when no writer is inside and
  then both variables are half of it; it never wraps around.  When all threads have finished, both
  variables are \<open>WRITE_THREAD_COUNT * ITER_COUNT\<close>.\<close>

theorem sq_consistent:
  fixes ts :: "nat list" and l :: SeqLock
  defines "s \<equiv> sq_run ts (sq_start l)"
  shows "(\<forall>t u. inside (place s t) \<and> inside (place s u) \<longrightarrow> t = u) \<and> (\<forall>t. place s t \<noteq> S_Abort) \<and>
     unat (count (sql s)) \<le> WRITE_THREAD_COUNT * (2 * ITER_COUNT) \<and>
     (even (unat (count (sql s))) \<longleftrightarrow> (\<forall>t. \<not> inside (place s t))) \<and>
     ((\<forall>t. \<not> inside (place s t)) \<longrightarrow> sq_first s = of_nat (unat (count (sql s)) div 2) \<and> sq_second s = sq_first s) \<and>
     ((\<forall>t. place s t = S_Done) \<longrightarrow>
        sq_first s = of_nat (WRITE_THREAD_COUNT * ITER_COUNT) \<and> sq_second s = of_nat (WRITE_THREAD_COUNT * ITER_COUNT))"
proof -
  have inv: "sq_lock_inv s" "sq_data_inv s" "sq_read_inv s" using sq_inv_run [OF sq_start_inv] by (simp_all add: s_def)
  have c: "unat (count (sql s)) = bumps s" using inv(1) bumps_word [OF inv(1)] by (simp add: sq_lock_inv_def)
  have out: "sq_first s = of_nat (bumps s div 2) \<and> sq_second s = sq_first s" if "\<forall>t. \<not> inside (place s t)"
  proof -
    have "stored_first p \<Longrightarrow> inside p" "stored_second p \<Longrightarrow> inside p" for p by (cases p; simp)+
    then have "here s stored_first = {}" "here s stored_second = {}" using that by (auto simp: here_def)
    then show ?thesis using inv(2) by (simp add: sq_data_inv_def)
  qed
  have fin: "sq_first s = of_nat (WRITE_THREAD_COUNT * ITER_COUNT) \<and> sq_second s = of_nat (WRITE_THREAD_COUNT * ITER_COUNT)"
    if "\<forall>t. place s t = S_Done"
  proof -
    have "bumps s = (\<Sum>t\<in>writers. 2 * ITER_COUNT)"
      unfolding bumps_def by (rule sum.cong) (use writer_place(2) [OF inv(1)] that in auto)
    then have "bumps s div 2 = WRITE_THREAD_COUNT * ITER_COUNT" by (simp add: writers_def)
    moreover have "\<forall>t. \<not> inside (place s t)" using that by simp
    ultimately show ?thesis using out by simp
  qed
  have "even (bumps s) \<longleftrightarrow> (\<forall>t. \<not> inside (place s t))" using inv(1) by (auto simp: sq_lock_inv_def here_def)
  moreover have "\<forall>t u. inside (place s t) \<and> inside (place s u) \<longrightarrow> t = u" using spin_one [OF inv(1)] inside_spin by blast
  ultimately show ?thesis using c out fin bumps_bound [OF inv(1)] inv(3) by (simp add: sq_read_inv_def)
qed

text \<open>Writer 1000 is inside while reader 0 waits to check.\<close>

definition sq_garbage :: SeqLock where
  "sq_garbage = \<lparr>seq_spin = \<lparr>lock = 5\<rparr>, count = 3\<rparr>"

theorem sq_consistent_witness:
  "odd (unat (count (sql (sq_run [0, 0, 0, 1000, 1000, 1000, 0] (sq_start sq_garbage)))))"
proof -
  have "inside (place (sq_run [0, 0, 0, 1000, 1000, 1000, 0] (sq_start sq_garbage)) 1000)"
    by (simp add: sq_run_def sq_step_def sq_start_def sq_Reader_def sq_Writer_def SeqLock_WriteLock_def at_place_def upd_sql_def
        SpinLock_attempt_def AtomicXchg_def SeqLock_Init_def SpinLock_Init_def)
  then show ?thesis using sq_consistent [of "[0, 0, 0, 1000, 1000, 1000, 0]" sq_garbage] by blast
qed

end
