(* ===== verification/Ulib.thy ===== *)
theory Ulib
  imports Cstring
begin

text \<open>
  \<^verbatim>\<open>src/alarm/ulib.c\<close>: the string functions of the user library.  A \<open>char*\<close> into a NUL-terminated string is the list
  of the characters from there to the terminator; the result of \<open>strchr\<close> is an index into it.
\<close>

definition strchr :: "byte list \<Rightarrow> byte \<Rightarrow> nat option" where
  "strchr s c = find (\<lambda>i. s ! i = c) [0..<length (takeWhile (\<lambda>x. x \<noteq> 0) s)]"

lemma strchr_less: "strchr s c = Some q \<Longrightarrow> q < length s \<and> s ! q = c"
  by (auto simp: strchr_def find_Some_iff intro: less_le_trans [OF _ length_takeWhile_le])

lemma strchr_none: "c \<notin> set xs \<Longrightarrow> strchr xs c = None"
  using strchr_less [of xs c] by (cases "strchr xs c") auto

lemma takeWhile_none: "c \<notin> set xs \<Longrightarrow> takeWhile (\<lambda>x. x \<noteq> c) xs = xs"
  by (induction xs) auto

lemma strchr_iff: "0 \<notin> set s \<Longrightarrow> strchr s c \<noteq> None \<longleftrightarrow> c \<in> set s"
proof
  assume z: "0 \<notin> set s" and c: "c \<in> set s"
  from c show "strchr s c \<noteq> None"
    unfolding strchr_def takeWhile_none [OF z] by (auto simp: find_None_iff in_set_conv_nth)
next
  assume "strchr s c \<noteq> None"
  then show "c \<in> set s" using strchr_none by fastforce
qed

fun strcmp :: "byte list \<Rightarrow> byte list \<Rightarrow> int" where
  "strcmp (x # p) (y # q) = (if x = y then strcmp p q else int (unat x) - int (unat y))"
| "strcmp (x # p) [] = int (unat x)"
| "strcmp [] (y # q) = - int (unat y)"
| "strcmp [] [] = 0"

text \<open>\<open>atoi\<close> on 32-bit integers that wrap around.\<close>

fun atoi_from :: "word32 \<Rightarrow> byte list \<Rightarrow> word32" where
  "atoi_from n [] = n"
| "atoi_from n (c # s) = (if 48 \<le> c \<and> c \<le> 57 then atoi_from (n * 10 + ucast c - 48) s else n)"

definition atoi :: "byte list \<Rightarrow> int" where
  "atoi s = sint (atoi_from 0 s)"

text \<open>\<open>gets\<close>: the line read from the characters at hand, and those left.\<close>

fun gets_from :: "nat \<Rightarrow> byte list \<Rightarrow> byte list \<times> byte list" where
  "gets_from 0 inp = ([], inp)"
| "gets_from (Suc room) [] = ([], [])"
| "gets_from (Suc room) (c # inp) =
     (if c = 10 \<or> c = 13 then ([c], inp) else case gets_from room inp of (line, rest) \<Rightarrow> (c # line, rest))"

definition gets :: "nat \<Rightarrow> byte list \<Rightarrow> byte list \<times> byte list" where
  "gets mx inp = gets_from (mx - 1) inp"

text \<open>The routines that write memory: \<open>strcpy\<close>, which may not end, and \<open>memset\<close> and \<open>memmove\<close>, the second copying forward only.\<close>

partial_function (option) strcpy :: "nat \<Rightarrow> nat \<Rightarrow> mem \<Rightarrow> mem option" where
  "strcpy s t m = (let m' = m(s := m t) in if m t \<noteq> 0 then strcpy (s + 1) (t + 1) m' else Some m')"

definition umemset :: "nat \<Rightarrow> word32 \<Rightarrow> nat \<Rightarrow> mem \<Rightarrow> mem" where
  "umemset dst c n m = stosb dst (ucast c) n m"

definition umemmove :: "nat \<Rightarrow> nat \<Rightarrow> int \<Rightarrow> mem \<Rightarrow> mem" where
  "umemmove vdst vsrc n m = copy_up vdst vsrc (nat n) m"

text \<open>\<open>strcpy\<close> of a string that the destination does not overlap ends with the string at the destination.\<close>

lemma strcpy_copies:
  "cstr m t xs \<Longrightarrow> s + length xs < t \<Longrightarrow> \<exists>m'. strcpy s t m = Some m' \<and> cstr m' s xs \<and> (\<forall>i < s. m' i = m i)"
proof (induction xs arbitrary: s t m)
  case Nil
  then show ?case by (subst strcpy.simps) simp
next
  case (Cons x xs)
  let ?m = "m(s := x)"
  have "cstr ?m (t + 1) xs = cstr m (t + 1) xs" by (rule cstr_cong) (use Cons.prems in auto)
  then have "cstr ?m (t + 1) xs" "s + 1 + length xs < t + 1" using Cons.prems by auto
  from Cons.IH [OF this] obtain m' where m': "strcpy (s + 1) (t + 1) ?m = Some m'" "cstr m' (s + 1) xs" "\<forall>i < s + 1. m' i = ?m i"
    by blast
  moreover have "strcpy s t m = strcpy (s + 1) (t + 1) ?m" using Cons.prems by (subst strcpy.simps) simp
  ultimately show ?case using Cons.prems by auto
qed

end
