(* ===== verification/Grep.thy ===== *)
theory Grep
  imports Ulib
begin

text \<open>
  \<^verbatim>\<open>src/alarm/grep.c\<close>, with \<open>strchr\<close> of \<^verbatim>\<open>src/alarm/ulib.c\<close>.  A \<open>char*\<close> into a NUL-terminated string is the list of
  the characters from there to the terminator, so that the terminator itself is the empty list.  What \<open>read\<close>
  returns is given by a list of chunks, each ready at once: a file is one chunk, the writes into a
  pipe or the lines typed at a console are several.
\<close>

section \<open>The matcher\<close>

abbreviation caret :: byte where "caret \<equiv> 94"
abbreviation dot :: byte where "dot \<equiv> 46"
abbreviation asterisk :: byte where "asterisk \<equiv> 42"
abbreviation dollar :: byte where "dollar \<equiv> 36"
abbreviation newline :: byte where "newline \<equiv> 10"

function (sequential) matchhere :: "byte list \<Rightarrow> byte list \<Rightarrow> bool"
  and matchstar :: "byte \<Rightarrow> byte list \<Rightarrow> byte list \<Rightarrow> bool" where
  "matchhere [] cs = True"
| "matchhere (c # re) cs =
     (if re \<noteq> [] \<and> hd re = asterisk then matchstar c (tl re) cs
      else if c = dollar \<and> re = [] then cs = []
      else if cs \<noteq> [] \<and> (c = dot \<or> c = hd cs) then matchhere re (tl cs)
      else False)"
| "matchstar c re cs =
     (if matchhere re cs then True
      else if cs \<noteq> [] \<and> (hd cs = c \<or> c = dot) then matchstar c re (tl cs)
      else False)"
  by pat_completeness auto
termination
  by (relation "measures [\<lambda>x. case x of Inl (re, cs) \<Rightarrow> length re | Inr (c, re, cs) \<Rightarrow> length re,
                          \<lambda>x. case x of Inl (re, cs) \<Rightarrow> length cs | Inr (c, re, cs) \<Rightarrow> length cs,
                          \<lambda>x. case x of Inl _ \<Rightarrow> 0 | Inr _ \<Rightarrow> 1]")
    (auto simp: neq_Nil_conv)

declare matchstar.simps [simp del]

text \<open>The loop of \<open>match\<close> tries the text from each position, the terminator included.\<close>

fun match_from :: "byte list \<Rightarrow> byte list \<Rightarrow> bool" where
  "match_from re cs = (if matchhere re cs then True else case cs of [] \<Rightarrow> False | _ # rest \<Rightarrow> match_from re rest)"

declare match_from.simps [simp del]

definition match_re :: "byte list \<Rightarrow> byte list \<Rightarrow> bool" where
  "match_re re cs = (if re \<noteq> [] \<and> hd re = caret then matchhere (tl re) cs else match_from re cs)"

section \<open>Patterns and their language\<close>

text \<open>
  A pattern is a sequence of single characters (the dot is any) and repeated ones, and may be anchored at
  the end.  A dollar elsewhere, an asterisk at the beginning and a caret after it are ordinary characters.
\<close>

datatype piece = One byte | Star byte

fun pieces :: "byte list \<Rightarrow> piece list \<times> bool" where
  "pieces [] = ([], False)"
| "pieces (c # re) =
     (if re \<noteq> [] \<and> hd re = asterisk then (case pieces (tl re) of (ps, e) \<Rightarrow> (Star c # ps, e))
      else if c = dollar \<and> re = [] then ([], True)
      else (case pieces re of (ps, e) \<Rightarrow> (One c # ps, e)))"

definition fits :: "byte \<Rightarrow> byte \<Rightarrow> bool" where
  "fits c x \<longleftrightarrow> c = dot \<or> c = x"

fun words_of :: "piece list \<Rightarrow> byte list set" where
  "words_of [] = {[]}"
| "words_of (One c # ps) = {x # w | x w. fits c x \<and> w \<in> words_of ps}"
| "words_of (Star c # ps) = {u @ w | u w. (\<forall>x \<in> set u. fits c x) \<and> w \<in> words_of ps}"

text \<open>\<open>begins re cs\<close>: a word of the pattern begins the text, and is all of it when the end is anchored.\<close>

definition begins :: "piece list \<times> bool \<Rightarrow> byte list \<Rightarrow> bool" where
  "begins p cs \<longleftrightarrow> (\<exists>w rest. cs = w @ rest \<and> w \<in> words_of (fst p) \<and> (snd p \<longrightarrow> rest = []))"

lemma begins_Nil: "begins ([], e) cs \<longleftrightarrow> (e \<longrightarrow> cs = [])"
  by (auto simp: begins_def)

lemma begins_One: "begins (One c # ps, e) cs \<longleftrightarrow> cs \<noteq> [] \<and> fits c (hd cs) \<and> begins (ps, e) (tl cs)"
proof
  assume "begins (One c # ps, e) cs"
  then obtain v rest where v: "cs = v @ rest" "v \<in> words_of (One c # ps)" "e \<longrightarrow> rest = []" unfolding begins_def by auto
  then obtain x w where "cs = x # w @ rest" "fits c x" "w \<in> words_of ps" by auto
  then show "cs \<noteq> [] \<and> fits c (hd cs) \<and> begins (ps, e) (tl cs)" unfolding begins_def using v(3) by auto
next
  assume a: "cs \<noteq> [] \<and> fits c (hd cs) \<and> begins (ps, e) (tl cs)"
  then obtain w rest where "tl cs = w @ rest" "w \<in> words_of ps" "e \<longrightarrow> rest = []" unfolding begins_def by auto
  with a show "begins (One c # ps, e) cs" unfolding begins_def
    by (intro exI [of _ "hd cs # w"] exI [of _ rest]) (cases cs, auto)
qed

lemma begins_Star:
  "begins (Star c # ps, e) cs \<longleftrightarrow>
     begins (ps, e) cs \<or> cs \<noteq> [] \<and> fits c (hd cs) \<and> begins (Star c # ps, e) (tl cs)"
proof
  assume "begins (Star c # ps, e) cs"
  then obtain v rest where v: "cs = v @ rest" "v \<in> words_of (Star c # ps)" "e \<longrightarrow> rest = []" unfolding begins_def by auto
  then obtain u w where t: "cs = u @ w @ rest" "\<forall>x \<in> set u. fits c x" "w \<in> words_of ps" "e \<longrightarrow> rest = []" by auto
  show "begins (ps, e) cs \<or> cs \<noteq> [] \<and> fits c (hd cs) \<and> begins (Star c # ps, e) (tl cs)"
  proof (cases u)
    case Nil then show ?thesis using t by (auto simp: begins_def)
  next
    case (Cons x u')
    then have "begins (Star c # ps, e) (u' @ w @ rest)"
      unfolding begins_def using t by (intro exI [of _ "u' @ w"] exI [of _ rest]) auto
    then show ?thesis using t Cons by simp
  qed
next
  assume "begins (ps, e) cs \<or> cs \<noteq> [] \<and> fits c (hd cs) \<and> begins (Star c # ps, e) (tl cs)"
  then show "begins (Star c # ps, e) cs"
  proof (elim disjE conjE)
    assume "begins (ps, e) cs"
    then obtain w rest where "cs = w @ rest" "w \<in> words_of ps" "e \<longrightarrow> rest = []" by (auto simp: begins_def)
    moreover have "w \<in> words_of (Star c # ps)" using \<open>w \<in> words_of ps\<close> by simp (rule exI [of _ "[]"], simp)
    ultimately show ?thesis unfolding begins_def by auto
  next
    assume a: "cs \<noteq> []" "fits c (hd cs)" "begins (Star c # ps, e) (tl cs)"
    then obtain v rest where v: "tl cs = v @ rest" "v \<in> words_of (Star c # ps)" "e \<longrightarrow> rest = []" unfolding begins_def by auto
    then obtain u w where u: "v = u @ w" "\<forall>x \<in> set u. fits c x" "w \<in> words_of ps" by auto
    have "hd cs # v \<in> words_of (Star c # ps)" using a(2) u by simp (rule exI [of _ "hd cs # u"], simp)
    moreover have "cs = (hd cs # v) @ rest" using a(1) v(1) by (cases cs) auto
    ultimately show ?thesis unfolding begins_def fst_conv snd_conv using v(3) by blast
  qed
qed

lemma matcher_ok:
  "matchhere re cs \<longleftrightarrow> begins (pieces re) cs"
  "matchstar c re cs \<longleftrightarrow> begins (case pieces re of (ps, e) \<Rightarrow> (Star c # ps, e)) cs"
proof (induction re cs and c re cs rule: matchhere_matchstar.induct)
  case (1 cs)
  then show ?case by (simp add: begins_Nil)
next
  case (2 c re cs)
  show ?case
  proof (cases "re \<noteq> [] \<and> hd re = asterisk")
    case True then show ?thesis using "2.IH"(1) by simp
  next
    case NoStar: False
    show ?thesis
    proof (cases "c = dollar \<and> re = []")
      case True then show ?thesis by (simp add: begins_Nil)
    next
      case False
      obtain ps e where p: "pieces re = (ps, e)" by (cases "pieces re") auto
      have "pieces (c # re) = (One c # ps, e)" using False NoStar p by auto
      moreover have "matchhere (c # re) cs \<longleftrightarrow> cs \<noteq> [] \<and> fits c (hd cs) \<and> matchhere re (tl cs)"
        using False NoStar by (auto simp: fits_def)
      moreover have "matchhere re (tl cs) = begins (ps, e) (tl cs)" if "cs \<noteq> []" "fits c (hd cs)"
        using "2.IH"(2) [OF NoStar False] that p by (auto simp: fits_def)
      ultimately show ?thesis by (auto simp: begins_One)
    qed
  qed
next
  case (3 c re cs)
  obtain ps e where p: "pieces re = (ps, e)" by (cases "pieces re") auto
  have "matchstar c re cs \<longleftrightarrow> matchhere re cs \<or> cs \<noteq> [] \<and> fits c (hd cs) \<and> matchstar c re (tl cs)"
    by (subst matchstar.simps) (auto simp: fits_def)
  moreover have "matchhere re cs = begins (ps, e) cs" using "3.IH"(1) p by simp
  moreover have "matchstar c re (tl cs) = begins (Star c # ps, e) (tl cs)"
    if "cs \<noteq> []" "fits c (hd cs)" "\<not> matchhere re cs"
    using "3.IH"(2) that p by (auto simp: fits_def)
  ultimately show ?case unfolding p prod.case by (subst begins_Star) blast
qed

lemma match_from_ok: "match_from re cs \<longleftrightarrow> (\<exists>skip rest. cs = skip @ rest \<and> begins (pieces re) rest)"
proof (induction cs)
  case (Cons x cs)
  then show ?case by (subst match_from.simps) (auto simp: matcher_ok(1) Cons_eq_append_conv)
qed (subst match_from.simps, simp add: matcher_ok(1))

text \<open>C35: \<open>match\<close> decides whether a line contains a word of the pattern.  A pattern that begins with a caret
  must match at the beginning of the text, any other somewhere in it; the dot stands for any
  character, a repeated character for any number of them, none included, and a dollar at the end
  asks the match to reach the end of the text.\<close>

theorem match_correct:
  "match_re re cs \<longleftrightarrow>
     (if re \<noteq> [] \<and> hd re = caret then begins (pieces (tl re)) cs
      else \<exists>skip rest. cs = skip @ rest \<and> begins (pieces re) rest)"
  by (simp add: match_re_def matcher_ok(1) match_from_ok)


section \<open>Selecting lines\<close>

text \<open>\<open>read\<close> of at most \<open>n\<close> bytes; at the end of the input, or for 0 bytes, it returns none.\<close>

fun read_chunk :: "nat \<Rightarrow> byte list list \<Rightarrow> byte list \<times> byte list list" where
  "read_chunk n [] = ([], [])"
| "read_chunk n (c # cs) = (if length c \<le> n then (c, cs) else (take n c, drop n c # cs))"

text \<open>The inner loop: what it writes, and the part of the buffer from \<open>p\<close> when it ends.\<close>

function scan_lines :: "byte list \<Rightarrow> byte list \<Rightarrow> byte list list \<times> byte list" where
  "scan_lines pattern p =
     (case strchr p newline of
        None \<Rightarrow> ([], p)
      | Some q \<Rightarrow>
          let (out, rest) = scan_lines pattern (drop (q + 1) p)
          in (if match_re pattern (take q p) then take (q + 1) p # out else out, rest))"
  by pat_completeness auto
termination
  by (relation "measure (\<lambda>(pattern, p). length p)") (auto dest!: strchr_less)

declare scan_lines.simps [simp del]

abbreviation bufsize :: nat where "bufsize \<equiv> 1024"

text \<open>\<open>grep\<close> with \<open>b\<close> the \<open>m\<close> bytes in the buffer; the list of the buffers it writes.\<close>

function grep_loop :: "byte list \<Rightarrow> byte list \<Rightarrow> byte list list \<Rightarrow> byte list list" where
  "grep_loop pattern b src =
     (case read_chunk (bufsize - length b - 1) src of
        (c, src') \<Rightarrow>
          if c = [] then []
          else case scan_lines pattern (b @ c) of
            (out, p) \<Rightarrow> out @ grep_loop pattern (if length p = length (b @ c) then [] else p) src')"
  by pat_completeness auto
termination
proof (relation "measure (\<lambda>(pattern, b, src). sum_list (map length src))")
  fix pattern b c :: "byte list" and src src' out p
  assume "(c, src') = read_chunk (bufsize - length b - 1) src" "c \<noteq> []"
  then show "((pattern, if length p = length (b @ c) then [] else p, src'), pattern, b, src)
      \<in> measure (\<lambda>(pattern, b, src). sum_list (map length src))"
    by (cases src) (auto split: if_splits)
qed simp

declare grep_loop.simps [simp del]

definition grep :: "byte list \<Rightarrow> byte list list \<Rightarrow> byte list list" where
  "grep pattern src = grep_loop pattern [] src"


text \<open>The complete lines of an input, the characters after the last one, and what should be printed.\<close>

function lines_of :: "byte list \<Rightarrow> byte list list" where
  "lines_of xs =
     (if newline \<in> set xs
      then takeWhile (\<lambda>x. x \<noteq> newline) xs # lines_of (tl (dropWhile (\<lambda>x. x \<noteq> newline) xs)) else [])"
  by pat_completeness auto
termination
proof (relation "measure length")
  fix xs :: "byte list"
  assume "newline \<in> set xs"
  then have "dropWhile (\<lambda>x. x \<noteq> newline) xs \<noteq> []" by (auto simp: dropWhile_eq_Nil_conv)
  then show "(tl (dropWhile (\<lambda>x. x \<noteq> newline) xs), xs) \<in> measure length"
    using length_dropWhile_le [of "\<lambda>x. x \<noteq> newline" xs] by (cases "dropWhile (\<lambda>x. x \<noteq> newline) xs") auto
qed simp

declare lines_of.simps [simp del]

definition last_part :: "byte list \<Rightarrow> byte list" where
  "last_part xs = rev (takeWhile (\<lambda>x. x \<noteq> newline) (rev xs))"

definition wanted :: "byte list \<Rightarrow> byte list \<Rightarrow> byte list list" where
  "wanted pattern xs = map (\<lambda>l. l @ [newline]) (filter (match_re pattern) (lines_of xs))"

lemma takeWhile_stop:
  "c \<notin> set l \<Longrightarrow> takeWhile (\<lambda>x. x \<noteq> c) (l @ c # xs) = l"
  "c \<notin> set l \<Longrightarrow> dropWhile (\<lambda>x. x \<noteq> c) (l @ c # xs) = c # xs"
  by (induction l) auto

lemma lines_of_none: "newline \<notin> set xs \<Longrightarrow> lines_of xs = []"
  by (subst lines_of.simps) simp

lemma lines_of_line: "newline \<notin> set l \<Longrightarrow> lines_of (l @ newline # xs) = l # lines_of xs"
  by (subst lines_of.simps) (simp add: takeWhile_stop)

lemma last_part_none: "newline \<notin> set xs \<Longrightarrow> last_part xs = xs"
  by (simp add: last_part_def takeWhile_none)

lemma last_part_line: "last_part (l @ newline # xs) = last_part xs"
proof (cases "newline \<in> set xs")
  case True
  then show ?thesis by (auto simp: last_part_def takeWhile_append1)
next
  case False
  then have "takeWhile (\<lambda>x. x \<noteq> newline) (rev xs @ newline # rev l) = rev xs" by (intro takeWhile_stop) simp
  then show ?thesis using False by (simp add: last_part_def takeWhile_none)
qed

lemma last_part_clean: "newline \<notin> set (last_part xs)"
  unfolding last_part_def by (auto dest: set_takeWhileD)

lemma split_line:
  assumes "newline \<in> set xs"
  obtains l rest where "xs = l @ newline # rest" and "newline \<notin> set l"
  using split_list_first [OF assms] by auto

lemma lines_of_append: "lines_of (xs @ ys) = lines_of xs @ lines_of (last_part xs @ ys)"
proof (induction xs rule: lines_of.induct)
  case (1 xs)
  show ?case
  proof (cases "newline \<in> set xs")
    case True
    then obtain l rest where xs: "xs = l @ newline # rest" "newline \<notin> set l" by (rule split_line)
    then have "tl (dropWhile (\<lambda>x. x \<noteq> newline) xs) = rest" by (simp add: takeWhile_stop)
    with 1 [OF True] xs show ?thesis by (simp add: lines_of_line last_part_line)
  qed (simp add: lines_of_none last_part_none)
qed

lemma last_part_length: "newline \<in> set xs \<Longrightarrow> length (last_part xs) < length xs"
proof -
  assume "newline \<in> set xs"
  then have "newline \<in> set (rev xs)" by simp
  then obtain l rest where l: "rev xs = l @ newline # rest" "newline \<notin> set l" by (rule split_line)
  then have "takeWhile (\<lambda>x. x \<noteq> newline) (rev xs) = l" by (simp add: takeWhile_stop)
  moreover have "length l < length (rev xs)" using l(1) by simp
  ultimately show ?thesis by (simp add: last_part_def)
qed

lemma wanted_append: "wanted pat (xs @ ys) = wanted pat xs @ wanted pat (last_part xs @ ys)"
  by (subst wanted_def, subst lines_of_append) (simp add: wanted_def)


text \<open>The inner loop on a buffer without NUL characters.\<close>

lemma strchr_line: "0 \<notin> set l \<Longrightarrow> newline \<notin> set l \<Longrightarrow> strchr (l @ newline # xs) newline = Some (length l)"
  by (auto simp: strchr_def find_Some_iff takeWhile_append nth_append in_set_conv_nth intro!: exI [of _ "length l"])

lemma scan_lines_ok:
  assumes "0 \<notin> set xs"
  shows "scan_lines pat xs = (wanted pat xs, last_part xs)"
  using assms
proof (induction xs rule: lines_of.induct)
  case (1 xs)
  show ?case
  proof (cases "newline \<in> set xs")
    case True
    then obtain l rest where xs: "xs = l @ newline # rest" "newline \<notin> set l" by (rule split_line)
    have "tl (dropWhile (\<lambda>x. x \<noteq> newline) xs) = rest" using xs by (simp add: takeWhile_stop)
    with 1 True xs have ih: "scan_lines pat rest = (wanted pat rest, last_part rest)" by simp
    have "strchr xs newline = Some (length l)" using 1 (2) xs by (simp add: strchr_line)
    with ih xs show ?thesis
      by (subst scan_lines.simps) (simp add: wanted_def lines_of_line last_part_line)
  next
    case False
    then show ?thesis by (subst scan_lines.simps) (simp add: strchr_none wanted_def lines_of_none last_part_none)
  qed
qed

lemma grep_loop_end: "grep_loop pat b [] = []"
  by (subst grep_loop.simps) simp

text \<open>A first line that does not end within the buffer.\<close>

lemma long_line:
  assumes "newline \<notin> set b" and "newline \<in> set xs"
  shows "\<exists>l \<in> set (lines_of (b @ xs)). length b \<le> length l"
proof -
  from assms(2) obtain l rest where "xs = l @ newline # rest" "newline \<notin> set l" by (rule split_line)
  with assms(1) show ?thesis using lines_of_line [of "b @ l" rest] by (auto intro!: bexI [of _ "b @ l"])
qed

lemma grep_loop_file:
  assumes "newline \<notin> set b" and "length b < bufsize - 1" and "0 \<notin> set (b @ f)"
    and "\<forall>l \<in> set (lines_of (b @ f)). length l < bufsize - 1"
  shows "grep_loop pat b [f] = wanted pat (b @ f)"
  using assms
proof (induction "length f" arbitrary: b f rule: less_induct)
  case less
  define n where "n = bufsize - length b - 1"
  show ?case
  proof (cases "length f \<le> n")
    case True
    have "wanted pat b = []" using less.prems(1) by (simp add: wanted_def lines_of_none)
    then show ?thesis using True less.prems
      by (subst grep_loop.simps) (simp add: n_def scan_lines_ok grep_loop_end)
  next
    case False
    define c f' where "c = take n f" and "f' = drop n f"
    have f: "f = c @ f'" "c \<noteq> []" "length (b @ c) = bufsize - 1" "length f' < length f"
      using less.prems(2) False by (auto simp: c_def f'_def n_def)
    have lines: "lines_of (b @ f) = lines_of (b @ c) @ lines_of (last_part (b @ c) @ f')"
      using lines_of_append [of "b @ c" f'] f(1) by simp
    have out: "scan_lines pat (b @ c) = (wanted pat (b @ c), last_part (b @ c))"
      by (rule scan_lines_ok) (use less.prems(3) f(1) in auto)
    have step: "grep_loop pat b [f] =
        wanted pat (b @ c) @ grep_loop pat (if length (last_part (b @ c)) = length (b @ c) then [] else last_part (b @ c)) [f']"
    proof -
      have "read_chunk n [f] = (c, [f'])" using False by (simp add: c_def f'_def)
      then show ?thesis unfolding grep_loop.simps [of pat b "[f]"] n_def [symmetric] using f(2) out by simp
    qed
    have want: "wanted pat (b @ f) = wanted pat (b @ c) @ wanted pat (last_part (b @ c) @ f')"
      using wanted_append [of pat "b @ c" f'] f(1) by simp
    have nul: "0 \<notin> set f'" "0 \<notin> set (last_part (b @ c))"
      using less.prems(3) f(1) by (auto simp: last_part_def dest: set_takeWhileD)
    show ?thesis
    proof (cases "newline \<in> set (b @ c)")
      case True
      note lp = last_part_length [OF True]
      have "grep_loop pat (last_part (b @ c)) [f'] = wanted pat (last_part (b @ c) @ f')"
        by (rule less.hyps [OF f(4)]) (use less.prems(4) lines nul lp f(3) last_part_clean in auto)
      then show ?thesis using step want lp by simp
    next
      case NoLine: False
      then have lp: "last_part (b @ c) = b @ c" by (simp add: last_part_none)
      have "newline \<notin> set f'"
        using long_line [OF NoLine, of f'] less.prems(4) f(1,3) by fastforce
      then have e: "wanted pat (b @ c @ f') = []" "wanted pat f' = []"
        using NoLine by (auto simp: wanted_def lines_of_none)
      have "grep_loop pat [] [f'] = wanted pat ([] @ f')"
        by (rule less.hyps [OF f(4)]) (use nul \<open>newline \<notin> set f'\<close> in \<open>auto simp: lines_of_none\<close>)
      then show ?thesis using step want lp e by simp
    qed
  qed
qed

text \<open>On a file \<open>grep\<close> prints exactly the matching lines, in order, each with its newline: for input without NUL
  characters that is read in one piece and whose lines fit the buffer of 1024 characters with newline and terminator.  Where input
  arrives in pieces it is wrong: a piece of a line without a newline, however short, is dropped, as
  if it had never been read.\<close>

lemma grep_lines:
  assumes "0 \<notin> set f" and "\<forall>l \<in> set (lines_of f). length l < bufsize - 1"
    and "newline \<notin> set c" and "c \<noteq> []" and "length c < bufsize"
  shows "grep pat [f] = map (\<lambda>l. l @ [newline]) (filter (match_re pat) (lines_of f)) \<and> grep pat (c # src) = grep pat src"
proof
  show "grep pat [f] = map (\<lambda>l. l @ [newline]) (filter (match_re pat) (lines_of f))"
    using grep_loop_file [of "[]" f pat] assms(1,2) by (simp add: grep_def wanted_def)
  have "scan_lines pat c = ([], c)" using assms(3) by (subst scan_lines.simps) (simp add: strchr_none)
  then show "grep pat (c # src) = grep pat src"
    using assms(4,5) unfolding grep_def by (subst grep_loop.simps) simp
qed

end
