(* ===== verification/Shell.thy ===== *)
theory Shell
  imports Ulib
begin

text \<open>
  \<^verbatim>\<open>src/alarm/sh.c\<close>: the parser of the shell.  The command line is in memory \<open>M\<close> from \<open>s\<close> to its terminator at \<open>es\<close>;
  pointers into it are positions, and a word is the pair of its first position and the one after its
  last.  Commands are trees over words.  A function that recurses has fuel; it ends in \<open>Forever\<close> when that
  runs out, and the fuel \<open>parsecmd\<close> gives is shown to be enough.
\<close>

section \<open>Commands\<close>

datatype 'w cmd =
    EXEC "'w list"
  | REDIR "'w cmd" 'w nat nat      \<comment> \<open>command, file, mode, file descriptor\<close>
  | PIPE "'w cmd" "'w cmd"
  | LIST "'w cmd" "'w cmd"
  | BACK "'w cmd"

type_synonym span = "nat \<times> nat"

abbreviation MAXARGS :: nat where "MAXARGS \<equiv> 10"
abbreviation O_RDONLY :: nat where "O_RDONLY \<equiv> 0"
abbreviation O_WRONLY_CREATE :: nat where "O_WRONLY_CREATE \<equiv> 0x201"

section \<open>Tokens\<close>

abbreviation ws_chars :: "byte list" where "ws_chars \<equiv> [32, 9, 13, 10, 11]"
abbreviation symbol_chars :: "byte list" where "symbol_chars \<equiv> [60, 124, 62, 38, 59, 40, 41]"

abbreviation bar :: byte where "bar \<equiv> 124"
abbreviation lparen :: byte where "lparen \<equiv> 40"
abbreviation rparen :: byte where "rparen \<equiv> 41"
abbreviation semicolon :: byte where "semicolon \<equiv> 59"
abbreviation ampersand :: byte where "ampersand \<equiv> 38"
abbreviation lt :: byte where "lt \<equiv> 60"
abbreviation gt :: byte where "gt \<equiv> 62"
abbreviation plus_tok :: byte where "plus_tok \<equiv> 43"
abbreviation word_tok :: byte where "word_tok \<equiv> 97"

definition isspace :: "byte \<Rightarrow> bool" where
  "isspace c \<longleftrightarrow> strchr ws_chars c \<noteq> None"

definition issymbol :: "byte \<Rightarrow> bool" where
  "issymbol c \<longleftrightarrow> strchr symbol_chars c \<noteq> None"

function skip_space :: "mem \<Rightarrow> nat \<Rightarrow> nat \<Rightarrow> nat" where
  "skip_space M es s = (if s < es \<and> isspace (M s) then skip_space M es (s + 1) else s)"
  by pat_completeness auto
termination
  by (relation "measure (\<lambda>(M, es, s). es - s)") auto

function skip_word :: "mem \<Rightarrow> nat \<Rightarrow> nat \<Rightarrow> nat" where
  "skip_word M es s = (if s < es \<and> \<not> isspace (M s) \<and> \<not> issymbol (M s) then skip_word M es (s + 1) else s)"
  by pat_completeness auto
termination
  by (relation "measure (\<lambda>(M, es, s). es - s)") auto

declare skip_space.simps [simp del] skip_word.simps [simp del]

text \<open>The token, its span, and the position after it and the white space that follows.\<close>

definition gettoken :: "mem \<Rightarrow> nat \<Rightarrow> nat \<Rightarrow> byte \<times> span \<times> nat" where
  "gettoken M es s =
     (let q = skip_space M es s;
          (ret, eq) =
            (if M q = 0 then (M q, q)
             else if M q \<in> {bar, lparen, rparen, semicolon, ampersand, lt} then (M q, q + 1)
             else if M q = gt then (if M (q + 1) = gt then (plus_tok, q + 2) else (M q, q + 1))
             else (word_tok, skip_word M es q))
      in (ret, (q, eq), skip_space M es eq))"

definition peek :: "mem \<Rightarrow> nat \<Rightarrow> byte list \<Rightarrow> nat \<Rightarrow> bool \<times> nat" where
  "peek M es toks s = (let s = skip_space M es s in (M s \<noteq> 0 \<and> strchr toks (M s) \<noteq> None, s))"

section \<open>The parser\<close>

text \<open>An argument goes to the simple command inside the redirections collected so far.\<close>

fun add_arg :: "'w \<Rightarrow> 'w cmd \<Rightarrow> 'w cmd" where
  "add_arg w (EXEC ws) = EXEC (ws @ [w])"
| "add_arg w (REDIR c f m d) = REDIR (add_arg w c) f m d"
| "add_arg w c = c"

fun parseredirs :: "nat \<Rightarrow> mem \<Rightarrow> nat \<Rightarrow> span cmd \<Rightarrow> nat \<Rightarrow> (span cmd \<times> nat) outcome" where
  "parseredirs 0 M es cmd s = Forever"
| "parseredirs (Suc n) M es cmd s =
     (let (more, s) = peek M es [lt, gt] s in
      if more then
        let (tok, _, s) = gettoken M es s; (a, f, s) = gettoken M es s in
        if a \<noteq> word_tok then Panic ''missing file for redirection''
        else if tok = lt then parseredirs n M es (REDIR cmd f O_RDONLY 0) s
        else if tok = gt then parseredirs n M es (REDIR cmd f O_WRONLY_CREATE 1) s
        else if tok = plus_tok then parseredirs n M es (REDIR cmd f O_WRONLY_CREATE 1) s
        else parseredirs n M es cmd s
      else Ok (cmd, s))"

text \<open>The loop of \<open>parseexec\<close> with \<open>argc\<close> arguments collected in \<open>ret\<close>.\<close>

fun parseargs :: "nat \<Rightarrow> mem \<Rightarrow> nat \<Rightarrow> nat \<Rightarrow> span cmd \<Rightarrow> nat \<Rightarrow> (span cmd \<times> nat) outcome" where
  "parseargs 0 M es argc ret s = Forever"
| "parseargs (Suc n) M es argc ret s =
     (let (stop, s) = peek M es [bar, rparen, ampersand, semicolon] s in
      if stop then Ok (ret, s)
      else
        let (tok, w, s) = gettoken M es s in
        if tok = 0 then Ok (ret, s)
        else if tok \<noteq> word_tok then Panic ''syntax''
        else if MAXARGS \<le> argc + 1 then Panic ''too many args''
        else bindE (parseredirs n M es (add_arg w ret) s) (\<lambda>(ret, s). parseargs n M es (argc + 1) ret s))"

fun parsebacks :: "nat \<Rightarrow> mem \<Rightarrow> nat \<Rightarrow> span cmd \<Rightarrow> nat \<Rightarrow> (span cmd \<times> nat) outcome" where
  "parsebacks 0 M es cmd s = Forever"
| "parsebacks (Suc n) M es cmd s =
     (let (more, s) = peek M es [ampersand] s in
      if more then let (_, _, s) = gettoken M es s in parsebacks n M es (BACK cmd) s
      else Ok (cmd, s))"

text \<open>
  \<open>parseline\<close>, \<open>parsepipe\<close>, \<open>parseexec\<close> and \<open>parseblock\<close> call each other in a cycle; the first is a parameter
  of the others, which it closes with less fuel.
\<close>

type_synonym parser = "nat \<Rightarrow> (span cmd \<times> nat) outcome"

definition parseblock :: "parser \<Rightarrow> nat \<Rightarrow> mem \<Rightarrow> nat \<Rightarrow> parser" where
  "parseblock line n M es s =
     (let (open, s) = peek M es [lparen] s in
      if \<not> open then Panic ''parseblock''
      else
        let (_, _, s) = gettoken M es s in
        bindE (line s) (\<lambda>(cmd, s).
        let (close, s) = peek M es [rparen] s in
        if \<not> close then Panic ''syntax - missing )''
        else let (_, _, s) = gettoken M es s in parseredirs n M es cmd s))"

definition parseexec :: "parser \<Rightarrow> nat \<Rightarrow> mem \<Rightarrow> nat \<Rightarrow> parser" where
  "parseexec line n M es s =
     (let (block, s) = peek M es [lparen] s in
      if block then parseblock line n M es s
      else bindE (parseredirs n M es (EXEC []) s) (\<lambda>(ret, s). parseargs n M es 0 ret s))"

fun parsepipe :: "parser \<Rightarrow> nat \<Rightarrow> mem \<Rightarrow> nat \<Rightarrow> parser" where
  "parsepipe line 0 M es s = Forever"
| "parsepipe line (Suc n) M es s =
     bindE (parseexec line n M es s) (\<lambda>(cmd, s).
     let (more, s) = peek M es [bar] s in
     if more then
       let (_, _, s) = gettoken M es s in
       bindE (parsepipe line n M es s) (\<lambda>(right, s). Ok (PIPE cmd right, s))
     else Ok (cmd, s))"

fun parseline :: "nat \<Rightarrow> mem \<Rightarrow> nat \<Rightarrow> parser" where
  "parseline 0 M es s = Forever"
| "parseline (Suc n) M es s =
     bindE (parsepipe (parseline n M es) n M es s) (\<lambda>(cmd, s).
     bindE (parsebacks n M es cmd s) (\<lambda>(cmd, s).
     let (more, s) = peek M es [semicolon] s in
     if more then
       let (_, _, s) = gettoken M es s in
       bindE (parseline n M es s) (\<lambda>(right, s). Ok (LIST cmd right, s))
     else Ok (cmd, s)))"

fun nulterminate :: "span cmd \<Rightarrow> mem \<Rightarrow> mem" where
  "nulterminate (EXEC ws) M = fold (\<lambda>(q, eq) M. M(eq := 0)) ws M"
| "nulterminate (REDIR c (q, eq) m d) M = (nulterminate c M)(eq := 0)"
| "nulterminate (PIPE l r) M = nulterminate r (nulterminate l M)"
| "nulterminate (LIST l r) M = nulterminate r (nulterminate l M)"
| "nulterminate (BACK c) M = nulterminate c M"

text \<open>The tree, and memory with its words terminated; what \<open>panic\<close> prints before it exits is left out.\<close>

definition parsecmd :: "mem \<Rightarrow> nat \<Rightarrow> (span cmd \<times> mem) outcome" where
  "parsecmd M s =
     (case strlen s M of None \<Rightarrow> Forever
      | Some l \<Rightarrow>
          let es = s + l in
          bindE (parseline (es - s + 3) M es s) (\<lambda>(cmd, s').
          let (_, s') = peek M es [] s' in
            if s' \<noteq> es then Panic ''syntax'' else Ok (cmd, nulterminate cmd M)))"


section \<open>What the tokens are\<close>

text \<open>\<open>inp M es s\<close>: from \<open>s\<close> to \<open>es\<close> there is a NUL-terminated string.\<close>

definition inp :: "mem \<Rightarrow> nat \<Rightarrow> nat \<Rightarrow> bool" where
  "inp M es s \<longleftrightarrow> s \<le> es \<and> M es = 0 \<and> (\<forall>i. s \<le> i \<and> i < es \<longrightarrow> M i \<noteq> 0)"

datatype 'w tok = Sym byte | Word 'w

definition tok_of :: "byte \<Rightarrow> 'w \<Rightarrow> 'w tok" where
  "tok_of r w = (if r = word_tok then Word w else Sym r)"

text \<open>The tokens from a position to the end of the line.\<close>

function toks :: "mem \<Rightarrow> nat \<Rightarrow> nat \<Rightarrow> span tok list" where
  "toks M es s =
     (let (r, w, s') = gettoken M es s in
      if r = 0 \<or> s' \<le> s \<or> es \<le> s then [] else tok_of r w # toks M es s')"
  by pat_completeness auto
termination
  by (relation "measure (\<lambda>(M, es, s). es - s)") auto

declare toks.simps [simp del]

definition word_char :: "byte \<Rightarrow> bool" where
  "word_char c \<longleftrightarrow> c \<noteq> 0 \<and> \<not> isspace c \<and> \<not> issymbol c"

lemma isspace_iff: "isspace c \<longleftrightarrow> c \<in> set ws_chars"
  unfolding isspace_def by (rule strchr_iff) simp

lemma issymbol_iff: "issymbol c \<longleftrightarrow> c \<in> set symbol_chars"
  unfolding issymbol_def by (rule strchr_iff) simp

lemma inp_later: "inp M es s \<Longrightarrow> s \<le> s' \<Longrightarrow> s' \<le> es \<Longrightarrow> inp M es s'"
  by (simp add: inp_def)

lemma inp_end: "inp M es s \<Longrightarrow> s \<le> q \<Longrightarrow> q \<le> es \<Longrightarrow> M q = 0 \<longleftrightarrow> q = es"
  by (auto simp: inp_def)

lemma skip_space_range: "s \<le> es \<Longrightarrow> s \<le> skip_space M es s \<and> skip_space M es s \<le> es"
proof (induction M es s rule: skip_space.induct)
  case (1 M es s)
  then show ?case by (subst (1 2) skip_space.simps) force
qed

lemma skip_space_stop: "skip_space M es s < es \<Longrightarrow> \<not> isspace (M (skip_space M es s))"
proof (induction M es s rule: skip_space.induct)
  case (1 M es s)
  then show ?case by (cases "s < es \<and> isspace (M s)") (simp_all add: skip_space.simps [of M es s])
qed

lemma skip_space_fix: "\<not> (s < es \<and> isspace (M s)) \<Longrightarrow> skip_space M es s = s"
  by (subst skip_space.simps) auto

lemma skip_space_idem: "s \<le> es \<Longrightarrow> skip_space M es (skip_space M es s) = skip_space M es s"
  by (rule skip_space_fix) (use skip_space_stop in blast)

lemma skip_word_range: "s \<le> es \<Longrightarrow> s \<le> skip_word M es s \<and> skip_word M es s \<le> es"
proof (induction M es s rule: skip_word.induct)
  case (1 M es s)
  then show ?case by (subst (1 2) skip_word.simps) force
qed

lemma skip_word_chars: "s \<le> i \<Longrightarrow> i < skip_word M es s \<Longrightarrow> i < es \<and> \<not> isspace (M i) \<and> \<not> issymbol (M i)"
proof (induction M es s rule: skip_word.induct)
  case (1 M es s)
  show ?case
  proof (cases "s < es \<and> \<not> isspace (M s) \<and> \<not> issymbol (M s)")
    case True
    then show ?thesis using 1 by (cases "i = s") (simp_all add: skip_word.simps [of M es s])
  next
    case False
    then show ?thesis using "1.prems" by (subst (asm) skip_word.simps) auto
  qed
qed

lemma skip_word_stop: "skip_word M es s < es \<Longrightarrow> isspace (M (skip_word M es s)) \<or> issymbol (M (skip_word M es s))"
proof (induction M es s rule: skip_word.induct)
  case (1 M es s)
  then show ?case
    by (cases "s < es \<and> \<not> isspace (M s) \<and> \<not> issymbol (M s)") (auto simp: skip_word.simps [of M es s])
qed

text \<open>A token is inside the line, and is empty only at its end; a word is a longest run of word characters.\<close>

lemma gettoken_span:
  assumes inp: "inp M es s" and g: "gettoken M es s = (r, (q, eq), s')"
  shows "q = skip_space M es s" "s' = skip_space M es eq" "s \<le> q" "q \<le> eq" "eq \<le> s'" "s' \<le> es"
    "r = 0 \<longleftrightarrow> q = es" "r \<noteq> 0 \<Longrightarrow> q < eq"
    "r = word_tok \<Longrightarrow> (\<forall>i. q \<le> i \<and> i < eq \<longrightarrow> word_char (M i)) \<and> \<not> word_char (M eq)"
    "r \<noteq> word_tok \<Longrightarrow> r \<noteq> 0 \<Longrightarrow> M q = (if r = plus_tok then gt else r) \<and> issymbol (M q)"
proof -
  have se: "s \<le> es" "M es = 0" using inp by (auto simp: inp_def)
  show q: "q = skip_space M es s" and s': "s' = skip_space M es eq"
    using g by (auto simp: gettoken_def Let_def split: if_splits prod.splits)
  have qr: "s \<le> q" "q \<le> es" using skip_space_range [OF se(1), of M] q by auto
  have z: "M q = 0 \<longleftrightarrow> q = es" by (rule inp_end [OF inp qr])
  have sp: "q \<noteq> es \<Longrightarrow> \<not> isspace (M q)" using skip_space_stop [of M es s] q qr by auto
  have g': "(r, eq) = (if M q = 0 then (M q, q)
      else if M q \<in> {bar, lparen, rparen, semicolon, ampersand, lt} then (M q, q + 1)
      else if M q = gt then (if M (q + 1) = gt then (plus_tok, q + 2) else (M q, q + 1))
      else (word_tok, skip_word M es q))"
    using g q by (auto simp: gettoken_def Let_def split: if_splits)
  have gg: "M q \<noteq> 0 \<Longrightarrow> M (q + 1) = gt \<Longrightarrow> q + 2 \<le> es" using z qr se(2) by (cases "q + 1 = es") auto
  have wr: "q \<le> skip_word M es q" "skip_word M es q \<le> es" using skip_word_range [OF qr(2), of M] by auto
  have wq: "q < skip_word M es q" if "M q \<noteq> 0" "M q \<notin> {bar, lparen, rparen, semicolon, ampersand, lt}" "M q \<noteq> gt"
  proof -
    have "q < es" "\<not> isspace (M q)" "\<not> issymbol (M q)" using that z sp qr by (auto simp: issymbol_iff)
    then show ?thesis using skip_word_range [of "q + 1" es M] by (subst skip_word.simps) auto
  qed
  show "s \<le> q" by (rule qr)
  show "r = 0 \<longleftrightarrow> q = es" using g' z by (auto split: if_splits)
  show "r \<noteq> 0 \<Longrightarrow> q < eq" using g' wq by (auto split: if_splits)
  show qe: "q \<le> eq" using g' wr by (auto split: if_splits)
  have "eq \<le> es" using g' wr gg z qr by (auto split: if_splits)
  then show "eq \<le> s'" "s' \<le> es" using skip_space_range [of eq es M] s' by auto
  show "M q = (if r = plus_tok then gt else r) \<and> issymbol (M q)" if "r \<noteq> word_tok" "r \<noteq> 0"
    using g' that by (auto simp: issymbol_iff split: if_splits)
  show "(\<forall>i. q \<le> i \<and> i < eq \<longrightarrow> word_char (M i)) \<and> \<not> word_char (M eq)" if "r = word_tok"
  proof -
    have eq: "eq = skip_word M es q" using g' that z by (auto split: if_splits)
    have "word_char (M i)" if "q \<le> i" "i < eq" for i
      using skip_word_chars [of q i M es] inp that eq qr by (auto simp: word_char_def inp_def)
    moreover have "\<not> word_char (M eq)"
      using skip_word_stop [of M es q] wr(2) se(2) eq by (cases "eq < es") (auto simp: word_char_def)
    ultimately show ?thesis by blast
  qed
qed

text \<open>How \<open>gettoken\<close> and \<open>peek\<close> see the list of tokens.\<close>

lemma gettoken_toks:
  assumes inp: "inp M es s"
  obtains r w s' where "gettoken M es s = (r, w, s')" and "inp M es s'"
    and "case toks M es s of [] \<Rightarrow> r = 0 \<and> toks M es s' = [] | t # ts \<Rightarrow> r \<noteq> 0 \<and> t = tok_of r w \<and> toks M es s' = ts"
proof -
  obtain r q eq s' where g: "gettoken M es s = (r, (q, eq), s')" by (metis prod.exhaust)
  note sp = gettoken_span [OF inp g]
  have inp': "inp M es s'" by (rule inp_later [OF inp]) (use sp in auto)
  have "case toks M es s of [] \<Rightarrow> r = 0 \<and> toks M es s' = [] | t # ts \<Rightarrow> r \<noteq> 0 \<and> t = tok_of r (q, eq) \<and> toks M es s' = ts"
  proof (cases "r = 0")
    case True
    then have "s' = es" using sp by auto
    moreover have "fst (gettoken M es es) = 0"
      using inp by (simp add: gettoken_def Let_def skip_space_fix inp_def)
    ultimately have "toks M es s' = []" by (subst toks.simps) (auto simp: Let_def split: prod.splits)
    then show ?thesis using True g by (subst toks.simps) simp
  next
    case False
    then have "s < s'" "s < es" using sp by auto
    then show ?thesis using False g by (subst toks.simps) simp
  qed
  then show thesis using that g inp' by blast
qed

definition starts :: "'w tok list \<Rightarrow> byte list \<Rightarrow> bool" where
  "starts ts cs \<longleftrightarrow> (case ts of Sym r # _ \<Rightarrow> (if r = plus_tok then gt else r) \<in> set cs | _ \<Rightarrow> False)"

lemma starts_simps [simp]:
  "\<not> starts [] cs" "\<not> starts (Word w # ts) cs"
  "starts (Sym r # ts) cs \<longleftrightarrow> (if r = plus_tok then gt else r) \<in> set cs"
  by (simp_all add: starts_def)

lemma toks_skip: "inp M es s \<Longrightarrow> toks M es (skip_space M es s) = toks M es s"
proof -
  assume inp: "inp M es s"
  define s1 where "s1 = skip_space M es s"
  have s1: "s \<le> s1" "s1 \<le> es" "skip_space M es s1 = s1"
    using inp skip_space_range [of s es M] skip_space_idem [of s es M] by (auto simp: s1_def inp_def)
  have inp1: "inp M es s1" by (rule inp_later [OF inp s1(1,2)])
  have g: "gettoken M es s1 = gettoken M es s" using s1(3) by (simp add: gettoken_def s1_def)
  obtain r q eq s' where gs: "gettoken M es s = (r, (q, eq), s')" by (metis prod.exhaust)
  note sp = gettoken_span [OF inp gs] gettoken_span [OF inp1, unfolded g, OF gs]
  show ?thesis unfolding s1_def [symmetric]
    by (subst (1 2) toks.simps) (use g gs sp in auto)
qed

lemma peek_toks:
  assumes inp: "inp M es s" and cs: "set cs \<subseteq> set symbol_chars"
  obtains s' where "peek M es cs s = (starts (toks M es s) cs, s')" and "inp M es s'" and "toks M es s' = toks M es s"
proof -
  define s1 where "s1 = skip_space M es s"
  have inp1: "inp M es s1"
    by (rule inp_later [OF inp]) (use inp skip_space_range [of s es M] in \<open>auto simp: s1_def inp_def\<close>)
  obtain r w s' where g0: "gettoken M es s = (r, w, s')"
    and ts: "case toks M es s of [] \<Rightarrow> r = 0 \<and> toks M es s' = [] | t # ts \<Rightarrow> r \<noteq> 0 \<and> t = tok_of r w \<and> toks M es s' = ts"
    by (rule gettoken_toks [OF inp])
  obtain q eq where w: "w = (q, eq)" by (cases w)
  note g = g0 [unfolded w]
  note sp = gettoken_span [OF inp g]
  have q: "q = s1" using sp(1) by (simp add: s1_def)
  have "0 \<notin> set cs" using cs by auto
  then have pk: "peek M es cs s = (M s1 \<noteq> 0 \<and> M s1 \<in> set cs, s1)"
    unfolding peek_def Let_def s1_def using strchr_iff [of cs] by blast
  have zero: "M s1 = 0 \<longleftrightarrow> r = 0" using inp_end [OF inp sp(3)] sp q by auto
  have "(M s1 \<noteq> 0 \<and> M s1 \<in> set cs) = starts (toks M es s) cs"
  proof (cases "toks M es s")
    case Nil
    then have "r = 0" using ts by simp
    then show ?thesis using Nil zero by simp
  next
    case (Cons t ts)
    then have t: "r \<noteq> 0" "t = tok_of r (q, eq)" using ts w by simp_all
    show ?thesis
    proof (cases "r = word_tok")
      case True
      then have "word_char (M s1)" using sp(8,9) t(1) q by auto
      then have "M s1 \<notin> set cs" using cs by (auto simp: word_char_def issymbol_iff)
      then show ?thesis using True t Cons by (simp add: tok_of_def)
    next
      case False
      then have "M s1 = (if r = plus_tok then gt else r)" using sp(10) t(1) q by auto
      then show ?thesis using False t Cons zero by (simp add: tok_of_def)
    qed
  qed
  then show thesis using that [of s1] pk inp1 toks_skip [OF inp] by (simp add: s1_def)
qed

lemma toks_length: "inp M es s \<Longrightarrow> length (toks M es s) \<le> es - s"
proof (induction M es s rule: toks.induct)
  case (1 M es s)
  obtain r q eq s' where g: "gettoken M es s = (r, (q, eq), s')" by (metis prod.exhaust)
  note sp = gettoken_span [OF "1.prems" g]
  show ?case
  proof (cases "r = 0 \<or> s' \<le> s \<or> es \<le> s")
    case True
    then show ?thesis using g by (subst toks.simps) auto
  next
    case False
    moreover have "inp M es s'" by (rule inp_later [OF "1.prems"]) (use sp in auto)
    ultimately have "length (toks M es s') \<le> es - s'" using "1.IH" [OF g [symmetric] refl refl] by auto
    then show ?thesis using False g sp(6) by (subst toks.simps) auto
  qed
qed

text \<open>The words among the tokens.\<close>

lemma toks_words:
  assumes "inp M es s" and "Word (q, eq) \<in> set (toks M es s)"
  shows "q < eq \<and> eq \<le> es \<and> (\<forall>i. q \<le> i \<and> i < eq \<longrightarrow> word_char (M i)) \<and> \<not> word_char (M eq)"
  using assms
proof (induction M es s rule: toks.induct)
  case (1 M es s)
  obtain r q' eq' s' where g: "gettoken M es s = (r, (q', eq'), s')" by (metis prod.exhaust)
  note sp = gettoken_span [OF "1.prems"(1) g]
  from "1.prems"(2) g have nz: "\<not> (r = 0 \<or> s' \<le> s \<or> es \<le> s)" by (subst (asm) toks.simps) (auto split: if_splits)
  then have ts: "toks M es s = tok_of r (q', eq') # toks M es s'" using g by (subst toks.simps) auto
  have inp': "inp M es s'" by (rule inp_later [OF "1.prems"(1)]) (use sp in auto)
  from "1.prems"(2) ts consider "tok_of r (q', eq') = Word (q, eq)" | "Word (q, eq) \<in> set (toks M es s')" by auto
  then show ?case
  proof cases
    case 1
    then show ?thesis using sp nz by (auto simp: tok_of_def split: if_splits)
  next
    case 2
    show ?thesis by (rule "1.IH" [OF g [symmetric] refl refl nz inp' 2])
  qed
qed

section \<open>Printing commands\<close>

text \<open>
  \<open>show_cmd l c\<close> are the tokens of the command \<open>c\<close> where the grammar asks for a line (0), a line without list (1), a
  pipeline (2) or a simple command or block (3); a command of a lower level is put in parentheses.
\<close>

definition paren :: "bool \<Rightarrow> 'w tok list \<Rightarrow> 'w tok list" where
  "paren b ts = (if b then Sym lparen # ts @ [Sym rparen] else ts)"

primrec show_cmd :: "nat \<Rightarrow> 'w cmd \<Rightarrow> 'w tok list" where
  "show_cmd l (EXEC ws) = map Word ws"
| "show_cmd l (REDIR c f m d) = show_cmd 3 c @ [Sym (if m = O_RDONLY then lt else gt), Word f]"
| "show_cmd l (PIPE a b) = paren (2 < l) (show_cmd 3 a @ Sym bar # show_cmd 2 b)"
| "show_cmd l (LIST a b) = paren (0 < l) (show_cmd 1 a @ Sym semicolon # show_cmd 0 b)"
| "show_cmd l (BACK c) = paren (1 < l) (show_cmd 1 c @ [Sym ampersand])"

text \<open>The commands the shell can express: fewer than ten arguments, input or output redirections.\<close>

primrec good :: "'w cmd \<Rightarrow> bool" where
  "good (EXEC ws) \<longleftrightarrow> length ws < MAXARGS"
| "good (REDIR c f m d) \<longleftrightarrow> good c \<and> (m = O_RDONLY \<and> d = 0 \<or> m = O_WRONLY_CREATE \<and> d = 1)"
| "good (PIPE a b) \<longleftrightarrow> good a \<and> good b"
| "good (LIST a b) \<longleftrightarrow> good a \<and> good b"
| "good (BACK c) \<longleftrightarrow> good c"

definition reads :: "mem \<Rightarrow> nat \<Rightarrow> nat \<Rightarrow> span tok list \<Rightarrow> bool" where
  "reads M es s ts \<longleftrightarrow> inp M es s \<and> toks M es s = ts"

lemma reads_peek:
  assumes "reads M es s ts" and "set cs \<subseteq> set symbol_chars"
  shows "\<exists>s'. peek M es cs s = (starts ts cs, s') \<and> reads M es s' ts"
  using assms peek_toks [of M es s cs] unfolding reads_def by metis

lemma reads_get:
  assumes "reads M es s (t # ts)"
  obtains r w s' where "gettoken M es s = (r, w, s')" and "r \<noteq> 0" and "t = tok_of r w" and "reads M es s' ts"
proof -
  from assms have inp: "inp M es s" by (simp add: reads_def)
  obtain r w s' where "gettoken M es s = (r, w, s')" "inp M es s'"
    "case toks M es s of [] \<Rightarrow> r = 0 \<and> toks M es s' = [] | t # ts \<Rightarrow> r \<noteq> 0 \<and> t = tok_of r w \<and> toks M es s' = ts"
    by (rule gettoken_toks [OF inp])
  with assms that show thesis by (simp add: reads_def)
qed

lemma reads_get_word:
  assumes "reads M es s (Word w # ts)"
  obtains s' where "gettoken M es s = (word_tok, w, s')" and "reads M es s' ts"
proof -
  from assms obtain r v s' where "gettoken M es s = (r, v, s')" "Word w = tok_of r v" "reads M es s' ts" by (rule reads_get)
  with that show thesis by (auto simp: tok_of_def split: if_splits)
qed

lemma reads_get_sym:
  assumes "reads M es s (Sym r # ts)"
  obtains w s' where "gettoken M es s = (r, w, s')" and "reads M es s' ts"
proof -
  from assms obtain r' v s' where "gettoken M es s = (r', v, s')" "Sym r = tok_of r' v" "reads M es s' ts" by (rule reads_get)
  with that show thesis by (auto simp: tok_of_def split: if_splits)
qed

lemma reads_get_end:
  assumes "reads M es s []"
  obtains w s' where "gettoken M es s = (0, w, s')" and "reads M es s' []"
proof -
  from assms have inp: "inp M es s" by (simp add: reads_def)
  obtain r w s' where "gettoken M es s = (r, w, s')" "inp M es s'"
    "case toks M es s of [] \<Rightarrow> r = 0 \<and> toks M es s' = [] | t # ts \<Rightarrow> r \<noteq> 0 \<and> t = tok_of r w \<and> toks M es s' = ts"
    by (rule gettoken_toks [OF inp])
  with assms that show thesis by (simp add: reads_def)
qed

text \<open>Redirections, innermost first.\<close>

type_synonym 'w redir = "'w \<times> nat \<times> nat"

definition redir_toks :: "'w redir list \<Rightarrow> 'w tok list" where
  "redir_toks rs = concat (map (\<lambda>(f, m, d). [Sym (if m = O_RDONLY then lt else gt), Word f]) rs)"

definition wrap :: "'w redir list \<Rightarrow> 'w cmd \<Rightarrow> 'w cmd" where
  "wrap rs c = fold (\<lambda>(f, m, d) c. REDIR c f m d) rs c"

definition redirs_ok :: "'w redir list \<Rightarrow> bool" where
  "redirs_ok rs \<longleftrightarrow> (\<forall>(f, m, d) \<in> set rs. m = O_RDONLY \<and> d = 0 \<or> m = O_WRONLY_CREATE \<and> d = 1)"

lemma parseredirs_ok:
  assumes "reads M es s (redir_toks rs @ rest)" and "\<not> starts rest [lt, gt]" and "redirs_ok rs" and "length rs < n"
  shows "\<exists>s'. parseredirs n M es c s = Ok (wrap rs c, s') \<and> reads M es s' rest"
  using assms
proof (induction rs arbitrary: n c s)
  case Nil
  then obtain k where n: "n = Suc k" by (cases n) auto
  from Nil(1) have "reads M es s rest" by (simp add: redir_toks_def)
  from reads_peek [OF this, of "[lt, gt]"]
  obtain s' where "peek M es [lt, gt] s = (starts rest [lt, gt], s')" "reads M es s' rest" by auto
  then show ?case using Nil(2) n by (simp add: wrap_def)
next
  case (Cons x rs)
  obtain f m d where x: "x = (f, m, d)" by (cases x)
  from Cons.prems(4) obtain k where n: "n = Suc k" "length rs < k" by (cases n) auto
  define r where "r = (if m = O_RDONLY then lt else gt)"
  from Cons.prems(1) have rd: "reads M es s (Sym r # Word f # redir_toks rs @ rest)" by (simp add: redir_toks_def x r_def)
  from reads_peek [OF rd, of "[lt, gt]"] obtain s1 where s1: "peek M es [lt, gt] s = (True, s1)"
    "reads M es s1 (Sym r # Word f # redir_toks rs @ rest)" by (auto simp: r_def)
  from s1(2) obtain w s2 where s2: "gettoken M es s1 = (r, w, s2)" "reads M es s2 (Word f # redir_toks rs @ rest)" by (rule reads_get_sym)
  from s2(2) obtain s3 where s3: "gettoken M es s2 = (word_tok, f, s3)" "reads M es s3 (redir_toks rs @ rest)" by (rule reads_get_word)
  have md: "m = O_RDONLY \<and> d = 0 \<or> m = O_WRONLY_CREATE \<and> d = 1" "redirs_ok rs" using Cons.prems(3) by (auto simp: redirs_ok_def x)
  have "parseredirs n M es c s = parseredirs k M es (REDIR c f m d) s3"
    using md(1) s1 s2 s3 by (auto simp: n r_def)
  moreover from Cons.IH [OF s3(2) Cons.prems(2) md(2) n(2), of "REDIR c f m d"]
  obtain s' where "parseredirs k M es (REDIR c f m d) s3 = Ok (wrap rs (REDIR c f m d), s')" "reads M es s' rest" by blast
  ultimately show ?case by (simp add: wrap_def x)
qed

abbreviation stoppers :: "byte list" where "stoppers \<equiv> [bar, rparen, ampersand, semicolon]"

lemma stops_redirs: "starts ts stoppers \<or> ts = [] \<Longrightarrow> \<not> starts ts [lt, gt]"
  by (auto simp: starts_def split: list.splits tok.splits if_splits)

lemma parseargs_stop:
  assumes "reads M es s rest" and "starts rest stoppers \<or> rest = []" and "0 < n"
  shows "\<exists>s'. parseargs n M es argc ret s = Ok (ret, s') \<and> reads M es s' rest"
proof -
  obtain k where n: "n = Suc k" using assms(3) by (cases n) auto
  from reads_peek [OF assms(1), of stoppers]
  obtain s1 where s1: "peek M es stoppers s = (starts rest stoppers, s1)" "reads M es s1 rest" by auto
  show ?thesis
  proof (cases "rest = []")
    case True
    with s1(2) obtain w s2 where "gettoken M es s1 = (0, w, s2)" "reads M es s2 []" by (auto elim: reads_get_end)
    then show ?thesis using True s1(1) n by simp
  next
    case False
    then show ?thesis using assms(2) s1 n by simp
  qed
qed

lemma parseargs_ok:
  assumes "reads M es s (map Word ws @ redir_toks rs @ rest)" and "starts rest stoppers \<or> rest = []" and "ws = [] \<longrightarrow> rs = []"
    and "redirs_ok rs" and "length vs + length ws < MAXARGS" and "length ws + length rs < n"
  shows "\<exists>s'. parseargs n M es (length vs) (EXEC vs) s = Ok (wrap rs (EXEC (vs @ ws)), s') \<and> reads M es s' rest"
  using assms
proof (induction ws arbitrary: n vs s)
  case Nil
  then have "reads M es s rest" by (simp add: redir_toks_def)
  from parseargs_stop [OF this Nil(2), of n] Nil(3,6) show ?case by (simp add: wrap_def)
next
  case (Cons w ws)
  from Cons.prems(6) obtain k where n: "n = Suc k" "length ws + length rs < k" by (cases n) auto
  from Cons.prems(1) have rd: "reads M es s (Word w # map Word ws @ redir_toks rs @ rest)" by simp
  from reads_peek [OF rd, of stoppers]
  obtain s1 where s1: "peek M es stoppers s = (False, s1)" "reads M es s1 (Word w # map Word ws @ redir_toks rs @ rest)" by auto
  from s1(2) obtain s2 where s2: "gettoken M es s1 = (word_tok, w, s2)" "reads M es s2 (map Word ws @ redir_toks rs @ rest)"
    by (rule reads_get_word)
  have step: "parseargs n M es (length vs) (EXEC vs) s =
      bindE (parseredirs k M es (EXEC (vs @ [w])) s2) (\<lambda>(ret, s). parseargs k M es (length vs + 1) ret s)"
    using s1(1) s2(1) Cons.prems(5) by (simp add: n)
  show ?case
  proof (cases "ws = []")
    case True
    with s2(2) have rd2: "reads M es s2 (redir_toks rs @ rest)" by simp
    from parseredirs_ok [OF rd2 stops_redirs [OF Cons.prems(2)] Cons.prems(4), of k "EXEC (vs @ [w])"] n(2)
    obtain s3 where s3: "parseredirs k M es (EXEC (vs @ [w])) s2 = Ok (wrap rs (EXEC (vs @ [w])), s3)" "reads M es s3 rest" by auto
    from parseargs_stop [OF s3(2) Cons.prems(2), of k "length vs + 1" "wrap rs (EXEC (vs @ [w]))"] n(2)
    obtain s4 where "parseargs k M es (length vs + 1) (wrap rs (EXEC (vs @ [w]))) s3 = Ok (wrap rs (EXEC (vs @ [w])), s4)" "reads M es s4 rest"
      by auto
    then show ?thesis using step s3(1) True by simp
  next
    case False
    then have "\<not> starts (map Word ws @ redir_toks rs @ rest) [lt, gt]" by (cases ws) auto
    from parseredirs_ok [of M es s2 "[]", simplified redir_toks_def, simplified, OF s2(2) [unfolded redir_toks_def] this [unfolded redir_toks_def], of k "EXEC (vs @ [w])"] n(2)
    obtain s3 where s3: "parseredirs k M es (EXEC (vs @ [w])) s2 = Ok (EXEC (vs @ [w]), s3)" "reads M es s3 (map Word ws @ redir_toks rs @ rest)"
      by (auto simp: redirs_ok_def wrap_def redir_toks_def)
    from Cons.IH [OF s3(2) Cons.prems(2) _ Cons.prems(4), of "vs @ [w]" k] False Cons.prems(5) n(2)
    obtain s' where "parseargs k M es (length vs + 1) (EXEC (vs @ [w])) s3 = Ok (wrap rs (EXEC (vs @ w # ws)), s')" "reads M es s' rest" by auto
    then show ?thesis using step s3(1) by simp
  qed
qed

text \<open>A command is a chain of redirections around a simple command or a block, and a chain of background marks
  around the rest.\<close>

fun is_redir :: "'w cmd \<Rightarrow> bool" where
  "is_redir (REDIR c f m d) = True" | "is_redir _ = False"

fun is_back :: "'w cmd \<Rightarrow> bool" where
  "is_back (BACK c) = True" | "is_back _ = False"

lemma redir_chain:
  assumes "good c"
  shows "\<exists>rs d. c = wrap rs d \<and> \<not> is_redir d \<and> good d \<and> redirs_ok rs \<and> show_cmd 3 c = show_cmd 3 d @ redir_toks rs"
  using assms
proof (induction c)
  case (REDIR c f m e)
  then obtain rs d where "c = wrap rs d" "\<not> is_redir d" "good d" "redirs_ok rs" "show_cmd 3 c = show_cmd 3 d @ redir_toks rs" by auto
  with REDIR.prems show ?case
    by (intro exI [of _ "rs @ [(f, m, e)]"] exI [of _ d]) (auto simp: wrap_def redirs_ok_def redir_toks_def)
qed (rule exI [of _ "[]"], rule exI, auto simp: wrap_def redirs_ok_def redir_toks_def)+

lemma back_chain:
  assumes "good c"
  shows "\<exists>j d. c = (BACK ^^ j) d \<and> \<not> is_back d \<and> good d \<and> show_cmd 1 c = show_cmd 2 d @ replicate j (Sym ampersand)"
  using assms
proof (induction c)
  case (BACK c)
  then obtain j d where "c = (BACK ^^ j) d" "\<not> is_back d" "good d" "show_cmd 1 c = show_cmd 2 d @ replicate j (Sym ampersand)" by auto
  then show ?case
    by (intro exI [of _ "Suc j"] exI [of _ d]) (simp add: paren_def replicate_append_same)
qed (rule exI [of _ 0], rule exI, auto simp: paren_def)+

lemma block_show: "\<not> is_redir d \<Longrightarrow> \<forall>ws. d \<noteq> EXEC ws \<Longrightarrow> show_cmd 3 d = Sym lparen # show_cmd 0 d @ [Sym rparen]"
  by (cases d) (simp_all add: paren_def)

definition line_ok :: "mem \<Rightarrow> nat \<Rightarrow> parser \<Rightarrow> nat \<Rightarrow> bool" where
  "line_ok M es line k \<longleftrightarrow>
     (\<forall>c s rest. good c \<and> reads M es s (show_cmd 0 c @ rest) \<and> (rest = [] \<or> starts rest [rparen]) \<and>
        length (show_cmd 0 c @ rest) + 3 \<le> k \<longrightarrow> (\<exists>s'. line s = Ok (c, s') \<and> reads M es s' rest))"

lemma parsesimple_ok:
  assumes rd: "reads M es s (map Word ws @ redir_toks rs @ rest)" and stop: "starts rest stoppers \<or> rest = []"
    and rs: "redirs_ok rs" and fuel: "length ws < MAXARGS" "length ws + length rs < n"
  shows "\<exists>s'. bindE (parseredirs n M es (EXEC []) s) (\<lambda>(ret, s). parseargs n M es 0 ret s) = Ok (wrap rs (EXEC ws), s') \<and>
     reads M es s' rest"
proof (cases ws)
  case Nil
  from rd Nil have "reads M es s (redir_toks rs @ rest)" by simp
  from parseredirs_ok [OF this stops_redirs [OF stop] rs, of n "EXEC []"] fuel(2)
  obtain s2 where s2: "parseredirs n M es (EXEC []) s = Ok (wrap rs (EXEC []), s2)" "reads M es s2 rest" by auto
  from parseargs_stop [OF s2(2) stop, of n 0 "wrap rs (EXEC [])"] fuel(2) s2(1) Nil show ?thesis by auto
next
  case (Cons w ws')
  have "reads M es s (redir_toks [] @ map Word ws @ redir_toks rs @ rest)" using rd by (simp add: redir_toks_def)
  from parseredirs_ok [OF this, of n "EXEC []"] fuel(2) Cons
  obtain s2 where s2: "parseredirs n M es (EXEC []) s = Ok (EXEC [], s2)" "reads M es s2 (map Word ws @ redir_toks rs @ rest)"
    by (auto simp: redirs_ok_def wrap_def)
  from parseargs_ok [OF s2(2) stop _ rs, of "[]" n] Cons fuel s2(1) show ?thesis by auto
qed

lemma parseblock_ok:
  assumes line: "line_ok M es line k" and d: "good d" and rd: "reads M es s (Sym lparen # show_cmd 0 d @ Sym rparen # redir_toks rs @ rest)"
    and stop: "\<not> starts rest [lt, gt]" and rs: "redirs_ok rs" "length rs < n"
    and fuel: "length (show_cmd 0 d @ Sym rparen # redir_toks rs @ rest) + 3 \<le> k"
  shows "\<exists>s'. parseblock line n M es s = Ok (wrap rs d, s') \<and> reads M es s' rest"
proof -
  from reads_peek [OF rd, of "[lparen]"] obtain s2 where s2: "peek M es [lparen] s = (True, s2)"
    "reads M es s2 (Sym lparen # show_cmd 0 d @ Sym rparen # redir_toks rs @ rest)" by auto
  from s2(2) obtain w s3 where s3: "gettoken M es s2 = (lparen, w, s3)"
    "reads M es s3 (show_cmd 0 d @ Sym rparen # redir_toks rs @ rest)" by (rule reads_get_sym)
  from line d s3(2) fuel obtain s4 where s4: "line s3 = Ok (d, s4)" "reads M es s4 (Sym rparen # redir_toks rs @ rest)"
    unfolding line_ok_def by fastforce
  from reads_peek [OF s4(2), of "[rparen]"] obtain s5 where s5: "peek M es [rparen] s4 = (True, s5)"
    "reads M es s5 (Sym rparen # redir_toks rs @ rest)" by auto
  from s5(2) obtain v s6 where s6: "gettoken M es s5 = (rparen, v, s6)" "reads M es s6 (redir_toks rs @ rest)" by (rule reads_get_sym)
  from parseredirs_ok [OF s6(2) stop rs, of d]
  obtain s7 where "parseredirs n M es d s6 = Ok (wrap rs d, s7)" "reads M es s7 rest" by auto
  then show ?thesis using s2 s3 s4 s5 s6 by (simp add: parseblock_def)
qed

lemma parseexec_ok:
  assumes line: "line_ok M es line k" and c: "good c" and rd: "reads M es s (show_cmd 3 c @ rest)"
    and stop: "starts rest stoppers \<or> rest = []"
    and fuel: "length (show_cmd 3 c @ rest) + 1 \<le> n" "length (show_cmd 3 c @ rest) + 2 \<le> k"
  shows "\<exists>s'. parseexec line n M es s = Ok (c, s') \<and> reads M es s' rest"
proof -
  obtain rs d where d: "c = wrap rs d" "\<not> is_redir d" "good d" "redirs_ok rs" "show_cmd 3 c = show_cmd 3 d @ redir_toks rs"
    using redir_chain [OF c] by blast
  have "length rs \<le> length (redir_toks rs)" by (induction rs) (auto simp: redir_toks_def)
  then have len: "length (show_cmd 3 d) + length rs < n" using fuel(1) d(5) by simp
  have rd3: "reads M es s (show_cmd 3 d @ redir_toks rs @ rest)" using rd d(5) by simp
  show ?thesis
  proof (cases "\<exists>ws. d = EXEC ws")
    case True
    then obtain ws where ws: "d = EXEC ws" by blast
    have "\<not> starts (map Word ws @ redir_toks rs @ rest) [lparen]"
      using stop by (cases ws; cases rs) (auto simp: redir_toks_def starts_def split: list.splits tok.splits if_splits)
    with reads_peek [OF rd3 [unfolded ws], of "[lparen]"]
    obtain s1 where s1: "peek M es [lparen] s = (False, s1)" "reads M es s1 (map Word ws @ redir_toks rs @ rest)" by auto
    from parsesimple_ok [OF s1(2) stop d(4), of n] len d(1,3) ws s1(1) show ?thesis by (simp add: parseexec_def)
  next
    case False
    then have sh: "show_cmd 3 d = Sym lparen # show_cmd 0 d @ [Sym rparen]" using block_show [OF d(2)] by blast
    have rd4: "reads M es s (Sym lparen # show_cmd 0 d @ Sym rparen # redir_toks rs @ rest)" using rd3 sh by simp
    from reads_peek [OF rd4, of "[lparen]"] obtain s1 where s1: "peek M es [lparen] s = (True, s1)"
      "reads M es s1 (Sym lparen # show_cmd 0 d @ Sym rparen # redir_toks rs @ rest)" by auto
    from parseblock_ok [OF line d(3) s1(2) stops_redirs [OF stop] d(4), of n] len fuel(2) d(1,5) sh s1(1)
    show ?thesis by (simp add: parseexec_def)
  qed
qed

lemma pipe_show: "(\<forall>a b. c \<noteq> PIPE a b) \<Longrightarrow> show_cmd 2 c = show_cmd 3 c"
  by (cases c) (simp_all add: paren_def)

lemma parsepipe_ok:
  assumes line: "line_ok M es line k" and "good c" and "reads M es s (show_cmd 2 c @ rest)"
    and "rest = [] \<or> starts rest [rparen, ampersand, semicolon]"
    and "length (show_cmd 2 c @ rest) + 2 \<le> n" "length (show_cmd 2 c @ rest) + 2 \<le> k"
  shows "\<exists>s'. parsepipe line n M es s = Ok (c, s') \<and> reads M es s' rest"
  using assms(2-)
proof (induction n arbitrary: c s)
  case (Suc n)
  have stop: "starts rest stoppers \<or> rest = []" and nobar: "\<not> starts rest [bar]"
    using Suc.prems(3) by (auto simp: starts_def split: list.splits tok.splits if_splits)
  show ?case
  proof (cases "\<exists>a b. c = PIPE a b")
    case True
    then obtain a b where c: "c = PIPE a b" by blast
    have rd: "reads M es s (show_cmd 3 a @ Sym bar # show_cmd 2 b @ rest)" using Suc.prems(2) c by (simp add: paren_def)
    from parseexec_ok [OF line _ rd, of n] Suc.prems(1,4,5) c
    obtain s1 where s1: "parseexec line n M es s = Ok (a, s1)" "reads M es s1 (Sym bar # show_cmd 2 b @ rest)" by (auto simp: paren_def)
    from reads_peek [OF s1(2), of "[bar]"] obtain s2 where s2: "peek M es [bar] s1 = (True, s2)" "reads M es s2 (Sym bar # show_cmd 2 b @ rest)" by auto
    from s2(2) obtain w s3 where s3: "gettoken M es s2 = (bar, w, s3)" "reads M es s3 (show_cmd 2 b @ rest)" by (rule reads_get_sym)
    from Suc.IH [OF _ s3(2) Suc.prems(3)] Suc.prems(1,4,5) c
    obtain s4 where "parsepipe line n M es s3 = Ok (b, s4)" "reads M es s4 rest" by (auto simp: paren_def)
    then show ?thesis using s1 s2 s3 c by simp
  next
    case False
    then have sh: "show_cmd 2 c = show_cmd 3 c" by (intro pipe_show) auto
    from parseexec_ok [OF line Suc.prems(1) Suc.prems(2) [unfolded sh] stop, of n] Suc.prems(4,5) sh
    obtain s1 where s1: "parseexec line n M es s = Ok (c, s1)" "reads M es s1 rest" by auto
    from reads_peek [OF s1(2), of "[bar]"] nobar obtain s2 where "peek M es [bar] s1 = (False, s2)" "reads M es s2 rest" by auto
    then show ?thesis using s1 by simp
  qed
qed simp

lemma parsebacks_ok:
  assumes "reads M es s (replicate j (Sym ampersand) @ rest)" and "\<not> starts rest [ampersand]" and "j < n"
  shows "\<exists>s'. parsebacks n M es c s = Ok ((BACK ^^ j) c, s') \<and> reads M es s' rest"
  using assms
proof (induction j arbitrary: n c s)
  case 0
  then obtain k where n: "n = Suc k" by (cases n) auto
  from reads_peek [of M es s rest "[ampersand]"] 0 show ?case by (auto simp: n)
next
  case (Suc j)
  then obtain k where n: "n = Suc k" "j < k" by (cases n) auto
  have rd: "reads M es s (Sym ampersand # replicate j (Sym ampersand) @ rest)" using Suc.prems(1) by simp
  from reads_peek [OF rd, of "[ampersand]"] obtain s1 where s1: "peek M es [ampersand] s = (True, s1)"
    "reads M es s1 (Sym ampersand # replicate j (Sym ampersand) @ rest)" by auto
  from s1(2) obtain w s2 where s2: "gettoken M es s1 = (ampersand, w, s2)" "reads M es s2 (replicate j (Sym ampersand) @ rest)" by (rule reads_get_sym)
  from Suc.IH [OF s2(2) Suc.prems(2) n(2), of "BACK c"] obtain s' where
    "parsebacks k M es (BACK c) s2 = Ok ((BACK ^^ j) (BACK c), s')" "reads M es s' rest" by blast
  then show ?case using s1 s2 by (simp add: n funpow_swap1)
qed

lemma list_show: "(\<forall>a b. c \<noteq> LIST a b) \<Longrightarrow> show_cmd 0 c = show_cmd 1 c"
  by (cases c) (simp_all add: paren_def)

text \<open>A pipeline with its background marks.\<close>

lemma parsebackground_ok:
  assumes line: "line_ok M es line k" and c: "good c" and rd: "reads M es s (show_cmd 1 c @ rest)"
    and rest: "rest = [] \<or> starts rest [rparen, semicolon]" and fuel: "length (show_cmd 1 c @ rest) + 2 \<le> k"
  shows "\<exists>s1 d s2. parsepipe line k M es s = Ok (d, s1) \<and> parsebacks k M es d s1 = Ok (c, s2) \<and> reads M es s2 rest"
proof -
  obtain j d where d: "c = (BACK ^^ j) d" "good d" "show_cmd 1 c = show_cmd 2 d @ replicate j (Sym ampersand)"
    using back_chain [OF c] by blast
  have rd2: "reads M es s (show_cmd 2 d @ replicate j (Sym ampersand) @ rest)" using rd d(3) by simp
  have "replicate j (Sym ampersand) @ rest = [] \<or> starts (replicate j (Sym ampersand) @ rest) [rparen, ampersand, semicolon]"
    using rest by (cases j) (auto simp: starts_def split: list.splits tok.splits if_splits)
  from parsepipe_ok [OF line d(2) rd2 this, of k] fuel d(3)
  obtain s1 where s1: "parsepipe line k M es s = Ok (d, s1)" "reads M es s1 (replicate j (Sym ampersand) @ rest)" by auto
  have "\<not> starts rest [ampersand]" using rest by (auto simp: starts_def split: list.splits tok.splits if_splits)
  from parsebacks_ok [OF s1(2) this, of k d] fuel d(3) show ?thesis using s1 d(1) by auto
qed

lemma parseline_ok: "line_ok M es (parseline n M es) n"
proof (induction n)
  case 0
  then show ?case by (simp add: line_ok_def)
next
  case (Suc n)
  have "\<exists>s'. parseline (Suc n) M es s = Ok (c, s') \<and> reads M es s' rest"
    if c: "good c" and rd: "reads M es s (show_cmd 0 c @ rest)" and rest: "rest = [] \<or> starts rest [rparen]"
      and fuel: "length (show_cmd 0 c @ rest) + 3 \<le> Suc n" for c s rest
  proof (cases "\<exists>a b. c = LIST a b")
    case True
    then obtain a b where ab: "c = LIST a b" by blast
    have rd1: "reads M es s (show_cmd 1 a @ Sym semicolon # show_cmd 0 b @ rest)" using rd ab by (simp add: paren_def)
    from parsebackground_ok [OF Suc.IH _ rd1] c fuel ab
    obtain s1 d s2 where s: "parsepipe (parseline n M es) n M es s = Ok (d, s1)" "parsebacks n M es d s1 = Ok (a, s2)"
      "reads M es s2 (Sym semicolon # show_cmd 0 b @ rest)" by (auto simp: paren_def)
    from reads_peek [OF s(3), of "[semicolon]"] obtain s3 where s3: "peek M es [semicolon] s2 = (True, s3)"
      "reads M es s3 (Sym semicolon # show_cmd 0 b @ rest)" by auto
    from s3(2) obtain w s4 where s4: "gettoken M es s3 = (semicolon, w, s4)" "reads M es s4 (show_cmd 0 b @ rest)" by (rule reads_get_sym)
    have "good b" "length (show_cmd 0 b @ rest) + 3 \<le> n" using c fuel ab by (auto simp: paren_def)
    with Suc.IH s4(2) rest obtain s5 where "parseline n M es s4 = Ok (b, s5)" "reads M es s5 rest"
      unfolding line_ok_def by blast
    then show ?thesis using s s3 s4 ab by simp
  next
    case False
    then have sh: "show_cmd 0 c = show_cmd 1 c" by (intro list_show) auto
    have rest': "rest = [] \<or> starts rest [rparen, semicolon]" and nosemi: "\<not> starts rest [semicolon]"
      using rest by (auto simp: starts_def split: list.splits tok.splits if_splits)
    from parsebackground_ok [OF Suc.IH c rd [unfolded sh] rest'] fuel sh
    obtain s1 d s2 where s: "parsepipe (parseline n M es) n M es s = Ok (d, s1)" "parsebacks n M es d s1 = Ok (c, s2)" "reads M es s2 rest" by auto
    from reads_peek [OF s(3), of "[semicolon]"] nosemi obtain s3 where "peek M es [semicolon] s2 = (False, s3)" "reads M es s3 rest" by auto
    then show ?thesis using s by simp
  qed
  then show ?case unfolding line_ok_def by blast
qed

section \<open>The strings of a command\<close>

lemma nulterminate_apply: "nulterminate c M i = (if i \<in> snd ` set_cmd c then 0 else M i)"
proof (induction c arbitrary: M)
  case (EXEC ws)
  show ?case by (induction ws arbitrary: M) auto
next
  case (REDIR c f m d)
  then show ?case by (cases f) auto
qed auto

lemma set_paren [simp]: "Word w \<in> set (paren b ts) \<longleftrightarrow> Word w \<in> set ts"
  by (simp add: paren_def)

lemma set_show: "Word w \<in> set (show_cmd l c) \<longleftrightarrow> w \<in> set_cmd c"
  by (induction c arbitrary: l) auto

text \<open>After \<open>nulterminate\<close> every word of the command is a NUL-terminated string, the one that was in the line.\<close>

lemma nulterminate_words:
  assumes inp: "inp M es s" and w: "\<And>w. w \<in> set_cmd c \<Longrightarrow> Word w \<in> set (toks M es s)" and qe: "(q, eq) \<in> set_cmd c"
  shows "cstr (nulterminate c M) q (read_bytes M q (eq - q))"
proof -
  note sp = toks_words [OF inp w [OF qe]]
  have "nulterminate c M i = M i" if "q \<le> i" "i < eq" for i
  proof -
    have "i \<notin> snd ` set_cmd c"
    proof
      assume "i \<in> snd ` set_cmd c"
      then obtain q' where "(q', i) \<in> set_cmd c" by auto
      from toks_words [OF inp w [OF this]] have "\<not> word_char (M i)" by blast
      then show False using sp that by blast
    qed
    then show ?thesis by (simp add: nulterminate_apply)
  qed
  moreover have "nulterminate c M eq = 0" using qe by (force simp: nulterminate_apply)
  moreover have "M i \<noteq> 0" if "q \<le> i" "i < eq" for i using sp that by (auto simp: word_char_def)
  moreover from calculation have "read_bytes (nulterminate c M) q (eq - q) = read_bytes M q (eq - q)"
    by (simp add: read_bytes_def)
  ultimately show ?thesis using cstr_read [of "eq - q" "nulterminate c M" q] sp by simp
qed

section \<open>Text\<close>

text \<open>The text of a list of tokens, each followed by a space; a word must be one for the shell.\<close>

fun tok_text :: "byte list tok \<Rightarrow> byte list" where
  "tok_text (Sym r) = [r]"
| "tok_text (Word w) = w"

definition render :: "byte list tok list \<Rightarrow> byte list" where
  "render ts = concat (map (\<lambda>t. tok_text t @ [32]) ts)"

definition shell_word :: "byte list \<Rightarrow> bool" where
  "shell_word w \<longleftrightarrow> w \<noteq> [] \<and> (\<forall>c \<in> set w. word_char c)"

fun tok_ok :: "byte list tok \<Rightarrow> bool" where
  "tok_ok (Sym r) \<longleftrightarrow> r \<in> {bar, lparen, rparen, semicolon, ampersand, lt, gt}"
| "tok_ok (Word w) \<longleftrightarrow> shell_word w"

definition text_at :: "mem \<Rightarrow> span \<Rightarrow> byte list" where
  "text_at M = (\<lambda>(q, eq). read_bytes M q (eq - q))"

lemma skip_word_to:
  assumes "s \<le> e" and "e < es" and "\<And>i. s \<le> i \<Longrightarrow> i < e \<Longrightarrow> word_char (M i)" and "\<not> word_char (M e)" and "M e \<noteq> 0"
  shows "skip_word M es s = e"
  using assms
proof (induction M es s rule: skip_word.induct)
  case (1 M es s)
  show ?case
  proof (cases "s = e")
    case True
    then show ?thesis using "1.prems"(4,5) by (subst skip_word.simps) (auto simp: word_char_def)
  next
    case False
    then have w: "s < es" "word_char (M s)" "s + 1 \<le> e" using "1.prems"(1,2,3) by auto
    have "skip_word M es (s + 1) = e"
      by (rule "1.IH") (use w "1.prems" in \<open>auto simp: word_char_def\<close>)
    then show ?thesis using w by (subst skip_word.simps) (simp add: word_char_def)
  qed
qed

lemma space_char: "isspace 32" "\<not> word_char 32" "word_char c \<Longrightarrow> \<not> isspace c"
  by (simp_all add: isspace_iff word_char_def)

text \<open>A token at the front of the line that is followed by a space.\<close>

lemma gettoken_front:
  assumes t: "tok_ok t" and tx: "\<And>i. i < length (tok_text t) \<Longrightarrow> M (s + i) = tok_text t ! i"
    and sp: "M (s + length (tok_text t)) = 32" and es: "s + length (tok_text t) < es"
  shows "gettoken M es s = (case t of Sym r \<Rightarrow> r | Word w \<Rightarrow> word_tok,
     (s, s + length (tok_text t)), skip_space M es (s + length (tok_text t)))"
proof (cases t)
  case (Sym r)
  then have Ms: "M s = r" "M (s + 1) = 32" using tx [of 0] sp by auto
  have r: "r \<in> {bar, lparen, rparen, semicolon, ampersand, lt, gt}" using t Sym by simp
  have "skip_space M es s = s" by (rule skip_space_fix) (use Ms r in \<open>auto simp: isspace_iff\<close>)
  then show ?thesis using Ms r Sym by (auto simp: gettoken_def Let_def)
next
  case (Word w)
  then have w: "w \<noteq> []" "\<And>i. i < length w \<Longrightarrow> M (s + i) = w ! i" "\<And>i. i < length w \<Longrightarrow> word_char (w ! i)"
    using t tx by (auto simp: shell_word_def)
  have c: "word_char (M i)" if "s \<le> i" "i < s + length w" for i
    using w(2,3) [of "i - s"] that by (simp add: nat_diff_split)
  have "skip_word M es s = s + length w"
    by (rule skip_word_to) (use c sp es Word space_char in auto)
  moreover have Ms: "word_char (M s)" using c [of s] w(1) by simp
  moreover have "skip_space M es s = s" by (rule skip_space_fix) (use Ms space_char in auto)
  moreover from Ms have "M s \<noteq> 0" "M s \<notin> set symbol_chars" by (auto simp: word_char_def issymbol_iff)
  ultimately show ?thesis using Word by (simp add: gettoken_def Let_def)
qed

lemma inp_cstr: "cstr M s xs \<Longrightarrow> inp M (s + length xs) s"
proof (induction xs arbitrary: s)
  case (Cons x xs)
  then have "inp M (Suc s + length xs) (Suc s)" using Cons.IH [of "Suc s"] by simp
  then show ?case using Cons.prems by (auto simp: inp_def) (metis Suc_leI le_neq_implies_less)
qed (auto simp: inp_def)

lemma cstr_append: "cstr M s (xs @ ys) \<Longrightarrow> cstr M (s + length xs) ys"
proof (induction xs arbitrary: s)
  case (Cons x xs)
  then show ?case using Cons.IH [of "Suc s"] by simp
qed simp

lemma toks_render:
  assumes "cstr M s (render ts)" and "\<forall>t \<in> set ts. tok_ok t"
  shows "map (map_tok (text_at M)) (toks M (s + length (render ts)) s) = ts"
  using assms
proof (induction ts arbitrary: s)
  case Nil
  have "inp M s s" using Nil inp_cstr [of M s "[]"] by (simp add: render_def)
  then show ?case by (subst toks.simps) (simp add: render_def split: prod.split)
next
  case (Cons t ts)
  define n es where "n = length (tok_text t)" and "es = s + length (render (t # ts))"
  have len: "length (render (t # ts)) = n + 1 + length (render ts)" by (simp add: render_def n_def)
  have cs: "cstr M s (tok_text t @ 32 # render ts)" using Cons.prems(1) by (simp add: render_def)
  have inp: "inp M es s" unfolding es_def by (rule inp_cstr [OF Cons.prems(1)])
  have tx: "M (s + i) = tok_text t ! i" if "i < n" for i using cstr_nth [OF cs, of i] that by (simp add: nth_append n_def)
  have sp: "M (s + n) = 32" using cstr_append [OF cs] by (simp add: n_def)
  have cs': "cstr M (s + n + 1) (render ts)" using cstr_append [OF cs] by (simp add: n_def)
  have inp': "inp M es (s + n + 1)" using inp_cstr [OF cs'] by (simp add: es_def len add.assoc)
  have g: "gettoken M es s = (case t of Sym r \<Rightarrow> r | Word w \<Rightarrow> word_tok, (s, s + n), skip_space M es (s + n))"
    unfolding n_def by (rule gettoken_front) (use Cons.prems(2) tx sp es_def len n_def in auto)
  have ss: "skip_space M es (s + n) = skip_space M es (s + n + 1)"
    using sp space_char es_def len by (subst skip_space.simps) auto
  have n1: "0 < n" using Cons.prems(2) by (cases t) (auto simp: n_def shell_word_def)
  have sr: "s + n + 1 \<le> skip_space M es (s + n + 1)" using skip_space_range [of "s + n + 1" es M] es_def len by auto
  have nz: "(case t of Sym r \<Rightarrow> r | Word w \<Rightarrow> word_tok) \<noteq> 0" using Cons.prems(2) by (cases t) auto
  have "toks M es s = tok_of (case t of Sym r \<Rightarrow> r | Word w \<Rightarrow> word_tok) (s, s + n) # toks M es (skip_space M es (s + n + 1))"
    using g ss sr nz es_def len by (subst toks.simps) (simp del: One_nat_def)
  also have "toks M es (skip_space M es (s + n + 1)) = toks M es (s + n + 1)" by (rule toks_skip [OF inp'])
  finally have ts: "toks M es s = tok_of (case t of Sym r \<Rightarrow> r | Word w \<Rightarrow> word_tok) (s, s + n) # toks M es (s + n + 1)" .
  have "map (map_tok (text_at M)) (toks M es (s + n + 1)) = ts"
    using Cons.IH [OF cs'] Cons.prems(2) by (simp add: es_def len add.assoc)
  moreover have "map_tok (text_at M) (tok_of (case t of Sym r \<Rightarrow> r | Word w \<Rightarrow> word_tok) (s, s + n)) = t"
  proof (cases t)
    case (Sym r)
    then show ?thesis using Cons.prems(2) by (auto simp: tok_of_def)
  next
    case (Word w)
    then show ?thesis using tx by (auto simp: tok_of_def text_at_def n_def list_eq_iff_nth_eq)
  qed
  ultimately show ?case using ts by (simp add: es_def)
qed

text \<open>Tokens that look like a printed command are a printed command.\<close>

lemma map_tok_Sym: "map_tok f t = Sym r \<longleftrightarrow> t = Sym r" "Sym r = map_tok f t \<longleftrightarrow> t = Sym r"
  by (cases t; auto)+

lemma map_paren:
  assumes "map (map_tok f) ts = paren b us"
  obtains vs where "ts = paren b vs" and "map (map_tok f) vs = us"
proof (cases b)
  case True
  with assms obtain vs where "ts = Sym lparen # vs @ [Sym rparen]" "map (map_tok f) vs = us"
    by (auto simp: paren_def map_eq_Cons_conv map_eq_append_conv map_tok_Sym)
  with that True show ?thesis by (auto simp: paren_def)
qed (use assms that in \<open>auto simp: paren_def\<close>)

lemma show_inverse:
  "map (map_tok f) ts = show_cmd l c0 \<Longrightarrow> \<exists>c. ts = show_cmd l c \<and> map_cmd f c = c0"
proof (induction c0 arbitrary: l ts)
  case (EXEC ws)
  from EXEC have "\<exists>vs. ts = map Word vs \<and> map f vs = ws"
  proof (induction ws arbitrary: ts)
    case (Cons w ws)
    then obtain t ts' where t: "ts = t # ts'" "map_tok f t = Word w" "map (map_tok f) ts' = map Word ws" by auto
    then obtain v where "t = Word v" "f v = w" by (cases t) auto
    moreover from Cons.IH [of ts'] t(3) obtain vs where "ts' = map Word vs" "map f vs = ws" by auto
    ultimately show ?case using t(1) by (intro exI [of _ "v # vs"]) simp
  qed simp
  then obtain vs where "ts = map Word vs" "map f vs = ws" by blast
  then show ?case by (intro exI [of _ "EXEC vs"]) simp
next
  case (REDIR c0 g m d)
  then obtain ts1 t where ts: "ts = ts1 @ [Sym (if m = O_RDONLY then lt else gt), t]" "map (map_tok f) ts1 = show_cmd 3 c0" "map_tok f t = Word g"
    by (auto simp: map_eq_append_conv map_eq_Cons_conv map_tok_Sym)
  from ts(3) obtain w where "t = Word w" "f w = g" by (cases t) auto
  with REDIR.IH [OF ts(2)] ts(1) show ?case by (metis cmd.map(2) show_cmd.simps(2))
next
  case (PIPE a b)
  obtain vs where vs: "ts = paren (2 < l) vs" "map (map_tok f) vs = show_cmd 3 a @ Sym bar # show_cmd 2 b"
    using PIPE.prems by (auto elim: map_paren)
  from vs(2) obtain us ws where v: "vs = us @ Sym bar # ws" "map (map_tok f) us = show_cmd 3 a" "map (map_tok f) ws = show_cmd 2 b"
    by (auto simp: map_eq_append_conv map_eq_Cons_conv map_tok_Sym)
  from PIPE.IH(1) [OF v(2)] PIPE.IH(2) [OF v(3)] obtain x y where
    "us = show_cmd 3 x" "map_cmd f x = a" "ws = show_cmd 2 y" "map_cmd f y = b" by blast
  then show ?case using vs(1) v(1) by (intro exI [of _ "PIPE x y"]) simp
next
  case (LIST a b)
  obtain vs where vs: "ts = paren (0 < l) vs" "map (map_tok f) vs = show_cmd 1 a @ Sym semicolon # show_cmd 0 b"
    using LIST.prems by (auto elim: map_paren)
  from vs(2) obtain us ws where v: "vs = us @ Sym semicolon # ws" "map (map_tok f) us = show_cmd 1 a" "map (map_tok f) ws = show_cmd 0 b"
    by (auto simp: map_eq_append_conv map_eq_Cons_conv map_tok_Sym)
  from LIST.IH(1) [OF v(2)] LIST.IH(2) [OF v(3)] obtain x y where
    "us = show_cmd 1 x" "map_cmd f x = a" "ws = show_cmd 0 y" "map_cmd f y = b" by blast
  then show ?case using vs(1) v(1) by (intro exI [of _ "LIST x y"]) simp
next
  case (BACK a)
  obtain vs where vs: "ts = paren (1 < l) vs" "map (map_tok f) vs = show_cmd 1 a @ [Sym ampersand]"
    using BACK.prems by (auto elim: map_paren)
  from vs(2) obtain us where v: "vs = us @ [Sym ampersand]" "map (map_tok f) us = show_cmd 1 a"
    by (auto simp: map_eq_append_conv map_eq_Cons_conv map_tok_Sym)
  from BACK.IH [OF v(2)] obtain x where "us = show_cmd 1 x" "map_cmd f x = a" by blast
  then show ?case using vs(1) v(1) by (intro exI [of _ "BACK x"]) simp
qed

lemma good_map: "good (map_cmd f c) \<longleftrightarrow> good c"
  by (induction c) auto

lemma show_toks_ok: "good c \<Longrightarrow> \<forall>w \<in> set_cmd c. shell_word w \<Longrightarrow> \<forall>t \<in> set (show_cmd l c). tok_ok t"
  by (induction c arbitrary: l) (auto simp: paren_def)

text \<open>C17: the shell reads back what it is given.  Take any command built of simple commands with at most nine
  words, redirections, pipelines, lists and background marks, write it as a line, with parentheses
  where the grammar needs them: \<open>parsecmd\<close> on that line returns a tree of the same shape, and in the
  memory it leaves each of its words is the NUL-terminated string the command has there: no terminator
  that \<open>nulterminate\<close> writes damages another word.\<close>

theorem parse_print:
  assumes good: "good c" and words: "\<forall>w \<in> set_cmd c. shell_word w" and line: "cstr M s (render (show_cmd 0 c))"
  shows "\<exists>c' M'. parsecmd M s = Ok (c', M') \<and>
     map_cmd (text_at M) c' = c \<and> (\<forall>(q, eq) \<in> set_cmd c'. cstr M' q (text_at M (q, eq)))"
proof -
  define es where "es = s + length (render (show_cmd 0 c))"
  have inp: "inp M es s" unfolding es_def by (rule inp_cstr [OF line])
  have "map (map_tok (text_at M)) (toks M es s) = show_cmd 0 c"
    unfolding es_def by (rule toks_render [OF line show_toks_ok [OF good words]])
  then obtain c' where c': "toks M es s = show_cmd 0 c'" "map_cmd (text_at M) c' = c" using show_inverse by blast
  have rd: "reads M es s (show_cmd 0 c' @ [])" using inp c'(1) by (simp add: reads_def)
  have "length (show_cmd 0 c' @ []) + 3 \<le> es - s + 3" using toks_length [OF inp] c'(1) by simp
  moreover have "good c'" using good good_map [of "text_at M" c'] c'(2) by simp
  ultimately obtain s1 where s1: "parseline (es - s + 3) M es s = Ok (c', s1)" "reads M es s1 []"
    using parseline_ok [of M es "es - s + 3"] rd unfolding line_ok_def by blast
  have "skip_space M es s1 = es"
  proof -
    obtain r w s2 where "gettoken M es s1 = (r, w, s2)" "r = 0"
      using s1(2) by (auto elim: reads_get_end)
    moreover obtain q eq where "w = (q, eq)" by (cases w)
    ultimately show ?thesis using gettoken_span [of M es s1 r q eq s2] s1(2) by (auto simp: reads_def)
  qed
  then have "parsecmd M s = Ok (c', nulterminate c' M)"
    using s1(1) unfolding parsecmd_def strlen_ok [OF line] es_def [symmetric] by (simp add: es_def [symmetric] peek_def Let_def)
  moreover have "cstr (nulterminate c' M) q (text_at M (q, eq))" if "(q, eq) \<in> set_cmd c'" for q eq
    using nulterminate_words [OF inp _ that] c'(1) by (simp add: set_show text_at_def)
  ultimately show ?thesis using c'(2) by blast
qed

text \<open>The line \<open>( a | b ) > f ; c &\<close>.\<close>

definition demo_cmd :: "byte list cmd" where
  "demo_cmd = LIST (REDIR (PIPE (EXEC [[97]]) (EXEC [[98], [45, 120]])) [102] O_WRONLY_CREATE 1) (BACK (EXEC [[99]]))"

theorem parse_print_witness:
  "\<exists>c' M'. parsecmd (write_bytes 0 (render (show_cmd 0 demo_cmd) @ [0]) (\<lambda>_. 1)) 0 = Ok (c', M') \<and>
     map_cmd (text_at (write_bytes 0 (render (show_cmd 0 demo_cmd) @ [0]) (\<lambda>_. 1))) c' = demo_cmd"
proof -
  have "good demo_cmd" by (simp add: demo_cmd_def)
  moreover have "\<forall>w \<in> set_cmd demo_cmd. shell_word w"
    by (simp add: demo_cmd_def shell_word_def word_char_def isspace_iff issymbol_iff)
  moreover have "cstr (write_bytes 0 (render (show_cmd 0 demo_cmd) @ [0]) (\<lambda>_. 1)) 0 (render (show_cmd 0 demo_cmd))"
    by (rule cstr_write) (simp add: demo_cmd_def render_def paren_def)
  ultimately show ?thesis using parse_print [of demo_cmd _ 0] by fastforce
qed

section \<open>Every line is parsed or rejected\<close>

text \<open>What a parser does at \<open>s\<close> with enough fuel: it panics or returns a position further on.\<close>

definition decides :: "mem \<Rightarrow> nat \<Rightarrow> nat \<Rightarrow> (span cmd \<times> nat) outcome \<Rightarrow> bool" where
  "decides M es s r \<longleftrightarrow>
     (case r of Ok (c, s') \<Rightarrow> inp M es s' \<and> length (toks M es s') \<le> length (toks M es s)
      | Panic e \<Rightarrow> True | Blocked _ \<Rightarrow> False | Forever \<Rightarrow> False)"

lemma decides_simps [simp]:
  "decides M es s (Ok (c, s')) \<longleftrightarrow> inp M es s' \<and> length (toks M es s') \<le> length (toks M es s)"
  "decides M es s (Panic e)" "\<not> decides M es s Forever"
  by (simp_all add: decides_def)

lemma decides_bind:
  assumes "decides M es s m" and "\<And>c s'. m = Ok (c, s') \<Longrightarrow> inp M es s' \<Longrightarrow> length (toks M es s') \<le> length (toks M es s) \<Longrightarrow> decides M es s (f (c, s'))"
  shows "decides M es s (bindE m f)"
  using assms by (cases m) (auto simp: decides_def)

lemma decides_later: "length (toks M es s') \<le> length (toks M es s) \<Longrightarrow> decides M es s' r \<Longrightarrow> decides M es s r"
  by (auto simp: decides_def split: outcome.splits)

text \<open>\<open>peek\<close> keeps the tokens, and when it says yes \<open>gettoken\<close> takes one.\<close>

lemma peek_cases:
  assumes "inp M es s" and "set cs \<subseteq> set symbol_chars"
  obtains b s' where "peek M es cs s = (b, s')" and "inp M es s'" and "toks M es s' = toks M es s" and "b = starts (toks M es s) cs"
  using peek_toks [OF assms] by metis

lemma gettoken_cases:
  assumes "inp M es s"
  obtains r w s' where "gettoken M es s = (r, w, s')" and "inp M es s'"
    and "r = 0 \<longleftrightarrow> toks M es s = []" and "length (toks M es s') = length (toks M es s) - 1"
proof -
  obtain r w s' where "gettoken M es s = (r, w, s')" "inp M es s'"
    "case toks M es s of [] \<Rightarrow> r = 0 \<and> toks M es s' = [] | t # ts \<Rightarrow> r \<noteq> 0 \<and> t = tok_of r w \<and> toks M es s' = ts"
    by (rule gettoken_toks [OF assms])
  then show thesis using that by (cases "toks M es s") auto
qed

lemma parseredirs_decides:
  "inp M es s \<Longrightarrow> length (toks M es s) < n \<Longrightarrow> decides M es s (parseredirs n M es c s)"
proof (induction n arbitrary: c s)
  case (Suc n)
  obtain b s1 where s1: "peek M es [lt, gt] s = (b, s1)" "inp M es s1" "toks M es s1 = toks M es s" "b = starts (toks M es s) [lt, gt]"
    by (rule peek_cases [OF Suc.prems(1), of "[lt, gt]"]) auto
  show ?case
  proof (cases b)
    case True
    then have ne: "toks M es s \<noteq> []" using s1(4) by auto
    obtain r w s2 where s2: "gettoken M es s1 = (r, w, s2)" "inp M es s2" "length (toks M es s2) = length (toks M es s1) - 1"
      by (rule gettoken_cases [OF s1(2)])
    obtain a f s3 where s3: "gettoken M es s2 = (a, f, s3)" "inp M es s3" "length (toks M es s3) = length (toks M es s2) - 1"
      by (rule gettoken_cases [OF s2(2)])
    have len: "length (toks M es s3) < n" "length (toks M es s3) \<le> length (toks M es s)"
      using ne Suc.prems(2) s1(3) s2(3) s3(3) by (cases "toks M es s"; simp)+
    have "decides M es s (parseredirs n M es c' s3)" for c'
      by (rule decides_later [OF len(2) Suc.IH [OF s3(2) len(1)]])
    then show ?thesis using True s1 s2 s3 by simp
  next
    case False
    then show ?thesis using s1 by simp
  qed
qed simp

lemma parseargs_decides:
  "inp M es s \<Longrightarrow> length (toks M es s) < n \<Longrightarrow> decides M es s (parseargs n M es argc c s)"
proof (induction n arbitrary: argc c s)
  case (Suc n)
  obtain b s1 where s1: "peek M es stoppers s = (b, s1)" "inp M es s1" "toks M es s1 = toks M es s"
    by (rule peek_cases [OF Suc.prems(1), of stoppers]) auto
  obtain r w s2 where s2: "gettoken M es s1 = (r, w, s2)" "inp M es s2" "r = 0 \<longleftrightarrow> toks M es s1 = []"
    "length (toks M es s2) = length (toks M es s1) - 1"
    by (rule gettoken_cases [OF s1(2)])
  have "decides M es s (bindE (parseredirs n M es (add_arg w c) s2) (\<lambda>(ret, s). parseargs n M es (argc + 1) ret s))" if "r \<noteq> 0"
  proof -
    have len: "length (toks M es s2) < n" "length (toks M es s2) \<le> length (toks M es s)"
      using that Suc.prems(2) s1(3) s2(3,4) by (cases "toks M es s"; simp)+
    show ?thesis
    proof (rule decides_later [OF len(2)], rule decides_bind [OF parseredirs_decides [OF s2(2) len(1)]], simp only: prod.case)
      fix c' s3 assume "inp M es s3" "length (toks M es s3) \<le> length (toks M es s2)"
      then show "decides M es s2 (parseargs n M es (argc + 1) c' s3)"
        using decides_later [OF _ Suc.IH [of s3 "argc + 1" c']] len(1) by simp
    qed
  qed
  then show ?case using s1 s2 by (cases b) auto
qed simp

lemma parsebacks_decides:
  "inp M es s \<Longrightarrow> length (toks M es s) < n \<Longrightarrow> decides M es s (parsebacks n M es c s)"
proof (induction n arbitrary: c s)
  case (Suc n)
  obtain b s1 where s1: "peek M es [ampersand] s = (b, s1)" "inp M es s1" "toks M es s1 = toks M es s" "b = starts (toks M es s) [ampersand]"
    by (rule peek_cases [OF Suc.prems(1), of "[ampersand]"]) auto
  obtain r w s2 where s2: "gettoken M es s1 = (r, w, s2)" "inp M es s2" "length (toks M es s2) = length (toks M es s1) - 1"
    by (rule gettoken_cases [OF s1(2)])
  have "decides M es s (parsebacks n M es (BACK c) s2)" if b
  proof -
    have len: "length (toks M es s2) < n" "length (toks M es s2) \<le> length (toks M es s)"
      using that Suc.prems(2) s1(3,4) s2(3) by (cases "toks M es s"; simp)+
    show ?thesis by (rule decides_later [OF len(2) Suc.IH [OF s2(2) len(1)]])
  qed
  then show ?case using s1 s2 by (cases b) auto
qed simp

definition line_decides :: "mem \<Rightarrow> nat \<Rightarrow> parser \<Rightarrow> nat \<Rightarrow> bool" where
  "line_decides M es line k \<longleftrightarrow> (\<forall>s. inp M es s \<and> length (toks M es s) + 3 \<le> k \<longrightarrow> decides M es s (line s))"

lemma parseblock_decides:
  assumes line: "line_decides M es line k" and inp: "inp M es s"
    and fuel: "length (toks M es s) < n" "length (toks M es s) + 2 \<le> k"
  shows "decides M es s (parseblock line n M es s)"
proof -
  obtain b s1 where s1: "peek M es [lparen] s = (b, s1)" "inp M es s1" "toks M es s1 = toks M es s" "b = starts (toks M es s) [lparen]"
    by (rule peek_cases [OF inp, of "[lparen]"]) auto
  obtain r w s2 where s2: "gettoken M es s1 = (r, w, s2)" "inp M es s2" "length (toks M es s2) = length (toks M es s1) - 1"
    by (rule gettoken_cases [OF s1(2)])
  have "decides M es s (bindE (line s2) (\<lambda>(cmd, s).
        let (close, s) = peek M es [rparen] s in
        if \<not> close then Panic ''syntax - missing )''
        else let (_, _, s) = gettoken M es s in parseredirs n M es cmd s))" (is "decides M es s (bindE _ ?f)") if b
  proof -
    have ne: "toks M es s \<noteq> []" using that s1(4) by auto
    then have len: "length (toks M es s2) + 3 \<le> k" "length (toks M es s2) \<le> length (toks M es s)"
      using fuel(2) s1(3) s2(3) by (cases "toks M es s"; simp)+
    have "decides M es s2 (?f (c, s3))" if i3: "inp M es s3" "length (toks M es s3) \<le> length (toks M es s2)" for c s3
    proof -
      obtain e s4 where s4: "peek M es [rparen] s3 = (e, s4)" "inp M es s4" "toks M es s4 = toks M es s3"
        by (rule peek_cases [OF i3(1), of "[rparen]"]) auto
      obtain r' w' s5 where s5: "gettoken M es s4 = (r', w', s5)" "inp M es s5" "length (toks M es s5) = length (toks M es s4) - 1"
        by (rule gettoken_cases [OF s4(2)])
      have l5: "length (toks M es s5) < n" "length (toks M es s5) \<le> length (toks M es s2)"
        using i3(2) s4(3) s5(3) len(2) fuel(1) by simp_all
      have "decides M es s2 (parseredirs n M es c s5)" by (rule decides_later [OF l5(2) parseredirs_decides [OF s5(2) l5(1)]])
      then show ?thesis using s4 s5 by simp
    qed
    moreover have "decides M es s2 (line s2)" using line s2(2) len(1) by (simp add: line_decides_def)
    ultimately show ?thesis using decides_later [OF len(2) decides_bind] by blast
  qed
  then show ?thesis using s1 s2 by (simp add: parseblock_def)
qed

lemma parseexec_decides:
  assumes line: "line_decides M es line k" and inp: "inp M es s"
    and fuel: "length (toks M es s) < n" "length (toks M es s) + 2 \<le> k"
  shows "decides M es s (parseexec line n M es s)"
proof -
  obtain b s1 where s1: "peek M es [lparen] s = (b, s1)" "inp M es s1" "toks M es s1 = toks M es s"
    by (rule peek_cases [OF inp, of "[lparen]"]) auto
  have "decides M es s (parseblock line n M es s1)"
    by (rule decides_later [OF _ parseblock_decides [OF line s1(2)]]) (use s1(3) fuel in auto)
  moreover have "decides M es s (bindE (parseredirs n M es (EXEC []) s1) (\<lambda>(ret, s). parseargs n M es 0 ret s))"
  proof (rule decides_bind)
    show "decides M es s (parseredirs n M es (EXEC []) s1)"
      by (rule decides_later [OF _ parseredirs_decides [OF s1(2)]]) (use s1(3) fuel in auto)
    fix c s2 assume "inp M es s2" "length (toks M es s2) \<le> length (toks M es s)"
    then show "decides M es s (case (c, s2) of (ret, s) \<Rightarrow> parseargs n M es 0 ret s)"
      using decides_later [OF _ parseargs_decides [of M es s2 n 0 c]] fuel(1) by simp
  qed
  ultimately show ?thesis using s1(1) by (simp add: parseexec_def)
qed

lemma parsepipe_decides:
  assumes line: "line_decides M es line k"
  shows "inp M es s \<Longrightarrow> length (toks M es s) + 2 \<le> n \<Longrightarrow> length (toks M es s) + 2 \<le> k \<Longrightarrow> decides M es s (parsepipe line n M es s)"
proof (induction n arbitrary: s)
  case (Suc n)
  show ?case unfolding parsepipe.simps
  proof (rule decides_bind)
    show "decides M es s (parseexec line n M es s)"
      by (rule parseexec_decides [OF line Suc.prems(1)]) (use Suc.prems in auto)
    fix c s1 assume i1: "inp M es s1" "length (toks M es s1) \<le> length (toks M es s)"
    obtain b s2 where s2: "peek M es [bar] s1 = (b, s2)" "inp M es s2" "toks M es s2 = toks M es s1" "b = starts (toks M es s1) [bar]"
      by (rule peek_cases [OF i1(1), of "[bar]"]) auto
    obtain r w s3 where s3: "gettoken M es s2 = (r, w, s3)" "inp M es s3" "length (toks M es s3) = length (toks M es s2) - 1"
      by (rule gettoken_cases [OF s2(2)])
    have "decides M es s (bindE (parsepipe line n M es s3) (\<lambda>(right, s). Ok (PIPE c right, s)))" if b
    proof -
      have "toks M es s1 \<noteq> []" using that s2(4) by auto
      then have len: "length (toks M es s3) + 2 \<le> n" "length (toks M es s3) + 2 \<le> k" "length (toks M es s3) \<le> length (toks M es s)"
        using i1(2) s2(3) s3(3) Suc.prems(2,3) by (cases "toks M es s1"; simp)+
      show ?thesis by (rule decides_later [OF len(3) decides_bind [OF Suc.IH [OF s3(2) len(1,2)]]]) simp
    qed
    then show "decides M es s (case (c, s1) of (cmd, s) \<Rightarrow> let (more, s) = peek M es [bar] s in
        if more then let (_, _, s) = gettoken M es s in
          bindE (parsepipe line n M es s) (\<lambda>(right, s). Ok (PIPE cmd right, s)) else Ok (cmd, s))"
      using s2 s3 i1 by (cases b) simp_all
  qed
qed simp

lemma parseline_decides: "line_decides M es (parseline n M es) n"
proof (induction n)
  case (Suc n)
  have "decides M es s (parseline (Suc n) M es s)" if inp: "inp M es s" and fuel: "length (toks M es s) + 3 \<le> Suc n" for s
    unfolding parseline.simps
  proof (rule decides_bind)
    show "decides M es s (parsepipe (parseline n M es) n M es s)"
      by (rule parsepipe_decides [OF Suc.IH inp]) (use fuel in auto)
    fix c s1 assume i1: "inp M es s1" "length (toks M es s1) \<le> length (toks M es s)"
    have "decides M es s (bindE (parsebacks n M es c s1) (\<lambda>(cmd, s). let (more, s) = peek M es [semicolon] s in
        if more then let (_, _, s) = gettoken M es s in
          bindE (parseline n M es s) (\<lambda>(right, s). Ok (LIST cmd right, s)) else Ok (cmd, s)))"
    proof (rule decides_bind)
      show "decides M es s (parsebacks n M es c s1)"
        by (rule decides_later [OF i1(2) parsebacks_decides [OF i1(1)]]) (use i1 fuel in auto)
      fix d s2 assume i2: "inp M es s2" "length (toks M es s2) \<le> length (toks M es s)"
      obtain b s3 where s3: "peek M es [semicolon] s2 = (b, s3)" "inp M es s3" "toks M es s3 = toks M es s2" "b = starts (toks M es s2) [semicolon]"
        by (rule peek_cases [OF i2(1), of "[semicolon]"]) auto
      obtain r w s4 where s4: "gettoken M es s3 = (r, w, s4)" "inp M es s4" "length (toks M es s4) = length (toks M es s3) - 1"
        by (rule gettoken_cases [OF s3(2)])
      have "decides M es s (bindE (parseline n M es s4) (\<lambda>(right, s). Ok (LIST d right, s)))" if b
      proof -
        have "toks M es s2 \<noteq> []" using that s3(4) by auto
        then have len: "length (toks M es s4) + 3 \<le> n" "length (toks M es s4) \<le> length (toks M es s)"
          using i2(2) s3(3) s4(3) fuel by (cases "toks M es s2"; simp)+
        then have "decides M es s4 (parseline n M es s4)" using Suc.IH s4(2) by (simp add: line_decides_def)
        then show ?thesis by (intro decides_later [OF len(2) decides_bind]) auto
      qed
      then show "decides M es s (case (d, s2) of (cmd, s) \<Rightarrow> let (more, s) = peek M es [semicolon] s in
        if more then let (_, _, s) = gettoken M es s in
          bindE (parseline n M es s) (\<lambda>(right, s). Ok (LIST cmd right, s)) else Ok (cmd, s))"
        using s3 s4 i2 by (cases b) simp_all
    qed
    then show "decides M es s (case (c, s1) of (cmd, s) \<Rightarrow> bindE (parsebacks n M es cmd s) (\<lambda>(cmd, s).
        let (more, s) = peek M es [semicolon] s in if more then let (_, _, s) = gettoken M es s in
          bindE (parseline n M es s) (\<lambda>(right, s). Ok (LIST cmd right, s)) else Ok (cmd, s)))" by simp
  qed
  then show ?case by (simp add: line_decides_def)
qed (simp add: line_decides_def)

section \<open>What the parser builds\<close>

text \<open>The parser gives only commands that can be run: its redirections are of descriptors 0 and 1, and there is room for
  the arguments and the null pointer after them.\<close>

definition yields :: "(span cmd \<Rightarrow> bool) \<Rightarrow> (span cmd \<times> nat) outcome \<Rightarrow> bool" where
  "yields P r \<longleftrightarrow> (\<forall>c s. r = Ok (c, s) \<longrightarrow> P c)"

lemma yields_simps [simp]: "yields P (Ok (c, s)) \<longleftrightarrow> P c" "yields P (Panic e)" "yields P Forever"
  by (simp_all add: yields_def)

lemma yields_bind: "yields P m \<Longrightarrow> (\<And>c s. P c \<Longrightarrow> yields Q (f (c, s))) \<Longrightarrow> yields Q (bindE m f)"
  by (cases m) (fastforce simp: yields_def)+

primrec nargs :: "'w cmd \<Rightarrow> nat" where
  "nargs (EXEC ws) = length ws"
| "nargs (REDIR c f m d) = nargs c"
| "nargs (PIPE l r) = 0"
| "nargs (LIST l r) = 0"
| "nargs (BACK c) = 0"

lemma add_arg_good: "good c \<Longrightarrow> nargs c + 1 < MAXARGS \<Longrightarrow> good (add_arg w c) \<and> nargs (add_arg w c) \<le> nargs c + 1"
  by (induction c) auto

lemma parseredirs_good: "good c \<Longrightarrow> nargs c \<le> k \<Longrightarrow> yields (\<lambda>c. good c \<and> nargs c \<le> k) (parseredirs n M es c s)"
  by (induction n M es c s rule: parseredirs.induct) (auto simp: Let_def split: prod.splits)

lemma parseargs_good: "good c \<Longrightarrow> nargs c \<le> argc \<Longrightarrow> yields good (parseargs n M es argc c s)"
proof (induction n arbitrary: argc c s)
  case (Suc n)
  have "yields good (bindE (parseredirs n M es (add_arg w c) s2) (\<lambda>(ret, s). parseargs n M es (argc + 1) ret s))"
    if "\<not> MAXARGS \<le> argc + 1" for w s2
  proof (rule yields_bind [OF parseredirs_good [of _ "argc + 1"]])
    show "good (add_arg w c)" "nargs (add_arg w c) \<le> argc + 1" using add_arg_good [of c w] Suc.prems that by auto
    show "yields good (case (c', s3) of (ret, s) \<Rightarrow> parseargs n M es (argc + 1) ret s)" if "good c' \<and> nargs c' \<le> argc + 1" for c' s3
      using Suc.IH [of c' "argc + 1" s3] that by simp
  qed
  then show ?case using Suc.prems by (auto simp: Let_def split: prod.splits)
qed simp

lemma parsebacks_good: "good c \<Longrightarrow> yields good (parsebacks n M es c s)"
  by (induction n M es c s rule: parsebacks.induct) (auto simp: Let_def split: prod.splits)

lemma parseblock_good:
  assumes "\<And>s. yields good (pl s)"
  shows "yields good (parseblock pl n M es s)"
proof -
  have "yields good (parseredirs n M es c s)" if "good c" for c s
    using parseredirs_good [OF that order_refl, of n M es s] by (auto simp: yields_def)
  then show ?thesis unfolding parseblock_def
    by (auto simp: Let_def split: prod.splits intro!: yields_bind [OF assms])
qed

lemma parseexec_good:
  assumes "\<And>s. yields good (pl s)"
  shows "yields good (parseexec pl n M es s)"
proof -
  have "yields good (bindE (parseredirs n M es (EXEC []) s') (\<lambda>(ret, s). parseargs n M es 0 ret s))" for s'
    by (rule yields_bind [OF parseredirs_good [of _ 0]]) (auto intro: parseargs_good)
  then show ?thesis using parseblock_good [OF assms] by (auto simp: parseexec_def Let_def split: prod.splits)
qed

lemma parsepipe_good: "(\<And>s. yields good (pl s)) \<Longrightarrow> yields good (parsepipe pl n M es s)"
  by (induction n arbitrary: s)
    (auto simp: Let_def split: prod.splits intro!: yields_bind [where P = good] parseexec_good)

lemma parseline_good: "yields good (parseline n M es s)"
  by (induction n arbitrary: s)
    (auto simp: Let_def split: prod.splits intro!: yields_bind [where P = good] parsepipe_good parsebacks_good)

lemma parsecmd_good:
  assumes "parsecmd M s = Ok (c, M')"
  shows "good c"
proof -
  from assms obtain l s' where "parseline (l + 3) M (s + l) s = Ok (c, s')"
    by (auto simp: parsecmd_def bindE_eq_Ok Let_def split_beta split: option.splits if_splits)
  then show ?thesis using parseline_good [of "l + 3" M "s + l" s] by simp
qed

lemma parse_ends:
  assumes "cstr M s xs"
  shows "(\<exists>c M'. parsecmd M s = Ok (c, M') \<and> good c) \<or> (\<exists>e. parsecmd M s = Panic e)"
proof -
  define es where "es = s + length xs"
  have inp: "inp M es s" unfolding es_def by (rule inp_cstr [OF assms])
  then have "decides M es s (parseline (es - s + 3) M es s)"
    using parseline_decides toks_length [OF inp] by (simp add: line_decides_def)
  then have "(\<exists>c M'. parsecmd M s = Ok (c, M')) \<or> (\<exists>e. parsecmd M s = Panic e)" unfolding parsecmd_def strlen_ok [OF assms]
    by (simp add: es_def [symmetric] Let_def, cases "parseline (es - s + 3) M es s") (auto simp: decides_def Let_def split: prod.splits)
  then show ?thesis using parsecmd_good by blast
qed

text \<open>C32: the parser always ends.  On every NUL-terminated line \<open>parsecmd\<close> returns a command or stops with
  one of its error messages; a command it returns has fewer than ten arguments in each program it starts, so that the
  null pointer after them fits, and redirects only descriptors 0 and 1.\<close>

theorem parse_total:
  assumes "cstr M s xs"
  shows "(\<exists>c M'. parsecmd M s = Ok (c, M') \<and> good c) \<or> (\<exists>e. parsecmd M s = Panic e)"
  by (rule parse_ends [OF assms])

theorem parse_total_witness:
  "(\<exists>c M'. parsecmd (write_bytes 0 [62, 40, 0] (\<lambda>_. 1)) 0 = Ok (c, M') \<and> good c) \<or> (\<exists>e. parsecmd (write_bytes 0 [62, 40, 0] (\<lambda>_. 1)) 0 = Panic e)"
proof -
  have "cstr (write_bytes 0 [62, 40, 0] (\<lambda>_. 1)) 0 [62, 40]" by simp
  then show ?thesis by (rule parse_total)
qed

end
