(* ===== verification/Shell_Run.thy ===== *)
theory Shell_Run
  imports Shell Sysfile
begin

text \<open>
  \<^verbatim>\<open>src/alarm/sh.c\<close>: how the shell runs a command.  The descriptors of a process are a table of what they
  refer to; \<open>dup\<close>, \<open>open\<close> and \<open>pipe\<close> take the lowest free entry, as \<open>fdalloc\<close> of \<open>Sysfile\<close> does.  A process of the shell is the
  tree of what it does from here on: its forks, with the child and the rest of the parent, its waits, with
  the place of the command it runs and the table it waits with, and its end.  Whether the kernel has room for a process or a pipe and whether a
  file can be opened is up to the parameter \<open>K\<close>, asked at the place of the command in its tree.
\<close>

section \<open>Descriptors of a process\<close>




definition take_fd :: "'f \<Rightarrow> (nat \<Rightarrow> 'f option) \<Rightarrow> (nat \<times> (nat \<Rightarrow> 'f option)) option" where
  "take_fd f t = (case find (\<lambda>fd. t fd = None) [0..<NOFILE] of
     Some fd \<Rightarrow> Some (fd, t(fd := Some f)) | None \<Rightarrow> None)"





section \<open>Running a command\<close>




section \<open>The main program\<close>







section \<open>The wiring of a command\<close>























section \<open>A line of the shell\<close>




text \<open>The line that \<open>getcmd\<close> leaves in the buffer is a string.\<close>

lemma gets_bounded: "gets_from n typed = (l, rest) \<Longrightarrow> length l \<le> n"
  by (induction n typed arbitrary: l rest rule: gets_from.induct) (auto split: prod.splits if_splits)







text \<open>The kernel hands out descriptors as \<open>take_fd\<close> does.\<close>

lemma fdalloc_take_fd:
  "fdalloc cur f t =
     (case take_fd f (ofile (ptable t cur)) of
        None \<Rightarrow> (None, t) | Some (fd, o') \<Rightarrow> (Some fd, upd_proc cur (\<lambda>p. p\<lparr>ofile := o'\<rparr>) t))"
  by (auto simp: fdalloc_def take_fd_def upd_proc_def split: option.splits)






end
