(* ===== verification/Umalloc.thy ===== *)
theory Umalloc
  imports Prelude
begin

text \<open>
  \<^verbatim>\<open>src/alarm/umalloc.c\<close>: the heap of user programs.  Headers are eight bytes of memory, the address of
  the next free block and the size of the block in units of eight bytes; \<open>base\<close> is the address of the
  static header, chosen by the linker, and \<open>ok\<close> decides whether the kernel finds the pages to grow the process
  from one size to another.  Loops that follow pointers may not end: their value is \<open>None\<close> then.
\<close>

section \<open>State and operations\<close>

record umem =
  um :: mem        \<comment> \<open>memory of the process\<close>
  freep :: nat     \<comment> \<open>0 before the first call\<close>
  brk :: nat       \<comment> \<open>size of the process\<close>

definition hptr :: "mem \<Rightarrow> nat \<Rightarrow> nat" where
  "hptr m a = unat (get32 m a)"

definition hsize :: "mem \<Rightarrow> nat \<Rightarrow> nat" where
  "hsize m a = unat (get32 m (a + 4))"

definition put_ptr :: "nat \<Rightarrow> nat \<Rightarrow> mem \<Rightarrow> mem" where
  "put_ptr a p m = put32 a (of_nat p) m"

definition put_size :: "nat \<Rightarrow> nat \<Rightarrow> mem \<Rightarrow> mem" where
  "put_size a n m = put32 (a + 4) (of_nat n) m"

text \<open>\<open>p + p->s.size\<close> on pointers to headers.\<close>

definition hend :: "mem \<Rightarrow> nat \<Rightarrow> nat" where
  "hend m p = u32 (p + 8 * hsize m p)"

partial_function (option) free_find :: "nat \<Rightarrow> mem \<Rightarrow> nat \<Rightarrow> nat option" where
  "free_find bp m p =
     (if p < bp \<and> bp < hptr m p then Some p
      else if hptr m p \<le> p \<and> (p < bp \<or> bp < hptr m p) then Some p
      else free_find bp m (hptr m p))"

definition join_next :: "nat \<Rightarrow> nat \<Rightarrow> mem \<Rightarrow> mem" where
  "join_next bp p m =
     (if hend m bp = hptr m p then
        let m = put_size bp (hsize m bp + hsize m (hptr m p)) m
        in put_ptr bp (hptr m (hptr m p)) m
      else put_ptr bp (hptr m p) m)"

definition join_prev :: "nat \<Rightarrow> nat \<Rightarrow> mem \<Rightarrow> mem" where
  "join_prev bp p m =
     (if hend m p = bp then
        let m = put_size p (hsize m p + hsize m bp) m
        in put_ptr p (hptr m bp) m
      else put_ptr p bp m)"

definition free :: "nat \<Rightarrow> umem \<Rightarrow> umem option" where
  "free ap s =
     (let bp = ap - 8 in
      case free_find bp (um s) (freep s) of
        None \<Rightarrow> None
      | Some p \<Rightarrow> Some (s\<lparr>um := join_prev bp p (join_next bp p (um s)), freep := p\<rparr>))"

text \<open>
  What the system call (\<open>sys_sbrk\<close>, \<open>growproc\<close>) means to the process: the old size, or \<open>None\<close> for -1.  The argument is an
  \<open>int\<close>; growing stops below the kernel, shrinking by more than the size wraps around and has no effect.  The theory
  \<open>Spec2Isabelle\<close> shows that this is what \<open>growproc\<close> does to the size.
\<close>

definition sbrk :: "(nat \<Rightarrow> nat \<Rightarrow> bool) \<Rightarrow> word32 \<Rightarrow> umem \<Rightarrow> nat option \<times> umem" where
  "sbrk ok n s =
     (let newsz = u32 (brk s + unat n) in
      if 0 < sint n then
        (if newsz < 2 ^ 31 \<and> ok (brk s) newsz then (Some (brk s), s\<lparr>brk := newsz\<rparr>) else (None, s))
      else if sint n < 0 then
        (if brk s \<le> newsz then (if brk s = 0 then None else Some (brk s), s)
         else if newsz = 0 then (None, s) else (Some (brk s), s\<lparr>brk := newsz\<rparr>))
      else (Some (brk s), s))"

definition morecore :: "(nat \<Rightarrow> nat \<Rightarrow> bool) \<Rightarrow> nat \<Rightarrow> umem \<Rightarrow> (nat \<times> umem) option" where
  "morecore ok nu s =
     (let nu = (if nu < 4096 then 4096 else nu) in
      case sbrk ok (of_nat (nu * 8)) s of
        (None, s) \<Rightarrow> Some (0, s)
      | (Some p, s) \<Rightarrow>
          (case free (p + 8) (s\<lparr>um := put_size p nu (um s)\<rparr>) of
             None \<Rightarrow> None
           | Some s \<Rightarrow> Some (freep s, s)))"

definition take_block :: "nat \<Rightarrow> nat \<Rightarrow> nat \<Rightarrow> umem \<Rightarrow> nat \<times> umem" where
  "take_block nunits prevp p s =
     (let m = um s in
      if hsize m p = nunits then (p + 8, s\<lparr>um := put_ptr prevp (hptr m p) m, freep := prevp\<rparr>)
      else
        let m = put_size p (hsize m p - nunits) m; p = hend m p; m = put_size p nunits m
        in (p + 8, s\<lparr>um := m, freep := prevp\<rparr>))"

partial_function (option) malloc_loop ::
  "(nat \<Rightarrow> nat \<Rightarrow> bool) \<Rightarrow> nat \<Rightarrow> nat \<Rightarrow> nat \<Rightarrow> umem \<Rightarrow> (nat \<times> umem) option" where
  "malloc_loop ok nunits prevp p s =
     (if nunits \<le> hsize (um s) p then Some (take_block nunits prevp p s)
      else if p = freep s then
        Option.bind (morecore ok nunits s) (\<lambda>(p, s).
          if p = 0 then Some (0, s) else malloc_loop ok nunits p (hptr (um s) p) s)
      else malloc_loop ok nunits p (hptr (um s) p) s)"

definition malloc :: "(nat \<Rightarrow> nat \<Rightarrow> bool) \<Rightarrow> nat \<Rightarrow> word32 \<Rightarrow> umem \<Rightarrow> (nat \<times> umem) option" where
  "malloc ok base nbytes s =
     (let nunits = unat ((nbytes + 8 - 1) div 8 + 1);
          s = (if freep s = 0 then s\<lparr>um := put_size base 0 (put_ptr base base (um s)), freep := base\<rparr> else s)
      in malloc_loop ok nunits (freep s) (hptr (um s) (freep s)) s)"

section \<open>Headers in memory\<close>

lemma hptr_put_ptr: "p < 2 ^ 32 \<Longrightarrow> hptr (put_ptr a p m) a = p"
  by (simp add: hptr_def put_ptr_def unat_of_nat)

lemma hsize_put_size: "n < 2 ^ 32 \<Longrightarrow> hsize (put_size a n m) a = n"
  by (simp add: hsize_def put_size_def unat_of_nat)

lemma hptr_put_size: "b + 4 \<le> a + 4 \<or> a + 8 \<le> b \<Longrightarrow> hptr (put_size a n m) b = hptr m b"
  unfolding hptr_def put_size_def by (subst get32_put32_other) auto

lemma hsize_put_ptr: "b + 8 \<le> a \<or> a \<le> b \<Longrightarrow> hsize (put_ptr a p m) b = hsize m b"
  unfolding hsize_def put_ptr_def by (subst get32_put32_other) auto

lemma hptr_put_ptr_other: "b + 4 \<le> a \<or> a + 4 \<le> b \<Longrightarrow> hptr (put_ptr a p m) b = hptr m b"
  unfolding hptr_def put_ptr_def by (subst get32_put32_other) auto

lemma hsize_put_size_other: "b + 4 \<le> a \<or> a + 4 \<le> b \<Longrightarrow> hsize (put_size a n m) b = hsize m b"
  unfolding hsize_def put_size_def by (subst get32_put32_other) auto

lemma put_ptr_other: "x < a \<or> a + 8 \<le> x \<Longrightarrow> put_ptr a p m x = m x"
  by (auto simp: put_ptr_def put32_other)

lemma put_size_other: "x < a \<or> a + 8 \<le> x \<Longrightarrow> put_size a n m x = m x"
  by (auto simp: put_size_def put32_other)

lemmas header_simps = hptr_put_ptr hsize_put_size hptr_put_size hsize_put_ptr hptr_put_ptr_other hsize_put_size_other

lemma hptr_cong: "(\<And>x. a \<le> x \<Longrightarrow> x < a + 4 \<Longrightarrow> m' x = m x) \<Longrightarrow> hptr m' a = hptr m a"
  unfolding hptr_def by (metis get32_cong)

lemma hsize_cong: "(\<And>x. a \<le> x \<Longrightarrow> x < a + 8 \<Longrightarrow> m' x = m x) \<Longrightarrow> hsize m' a = hsize m a"
  unfolding hsize_def by (rule arg_cong [where f = unat], rule get32_cong) simp

section \<open>The ring of free blocks\<close>

text \<open>A block is the address of its header and its size in units.\<close>

type_synonym block = "nat \<times> nat"

fun path :: "mem \<Rightarrow> nat \<Rightarrow> block list \<Rightarrow> nat \<Rightarrow> bool" where
  "path m p [] q \<longleftrightarrow> hptr m p = q"
| "path m p ((a, n) # fs) q \<longleftrightarrow> hptr m p = a \<and> hsize m a = n \<and> path m a fs q"

text \<open>Blocks in the order of their addresses, neighbours never adjacent.\<close>

fun spaced :: "nat \<Rightarrow> block list \<Rightarrow> bool" where
  "spaced e [] \<longleftrightarrow> True"
| "spaced e ((a, n) # fs) \<longleftrightarrow> e < a \<and> 0 < n \<and> spaced (a + 8 * n) fs"

fun lend :: "nat \<Rightarrow> block list \<Rightarrow> nat" where
  "lend e [] = e"
| "lend e ((a, n) # fs) = lend (a + 8 * n) fs"

definition extent :: "block \<Rightarrow> nat set" where
  "extent b = {fst b..<fst b + 8 * snd b}"

definition bytes :: "block list \<Rightarrow> nat set" where
  "bytes fs = (\<Union>b \<in> set fs. extent b)"

lemma path_append: "path m p (xs @ (a, n) # ys) q \<longleftrightarrow> path m p xs a \<and> hsize m a = n \<and> path m a ys q"
  by (induction xs arbitrary: p) auto

lemma spaced_append: "spaced e (xs @ ys) \<longleftrightarrow> spaced e xs \<and> spaced (lend e xs) ys"
  by (induction xs arbitrary: e) auto

lemma lend_append [simp]: "lend e (xs @ ys) = lend (lend e xs) ys"
  by (induction xs arbitrary: e) auto

lemma bytes_simps [simp]:
  "bytes [] = {}" "bytes (b # fs) = extent b \<union> bytes fs" "bytes (xs @ ys) = bytes xs \<union> bytes ys"
  by (auto simp: bytes_def)

lemma lend_ge: "spaced e fs \<Longrightarrow> e \<le> lend e fs"
  by (induction e fs rule: spaced.induct) auto

lemma spaced_mem: "spaced e fs \<Longrightarrow> (a, n) \<in> set fs \<Longrightarrow> e < a \<and> 0 < n \<and> a + 8 * n \<le> lend e fs"
proof (induction e fs rule: spaced.induct)
  case (2 e b k fs)
  then have "b + 8 * k \<le> lend (b + 8 * k) fs" by (simp add: lend_ge)
  then show ?case using 2 by (cases "(a, n) = (b, k)") auto
qed simp

lemma bytes_bounds: "spaced e fs \<Longrightarrow> x \<in> bytes fs \<Longrightarrow> e < x \<and> x < lend e fs"
  by (auto simp: bytes_def extent_def dest!: spaced_mem)

lemma spaced_distinct: "spaced e fs \<Longrightarrow> distinct (map fst fs)"
proof (induction e fs rule: spaced.induct)
  case (2 e a n fs)
  then show ?case using spaced_mem [of "a + 8 * n" fs a] by (auto dest: spaced_mem)
qed simp

lemma header_bytes: "spaced e fs \<Longrightarrow> (a, n) \<in> set fs \<Longrightarrow> a \<le> x \<Longrightarrow> x < a + 8 \<Longrightarrow> x \<in> bytes fs"
  by (force simp: bytes_def extent_def dest: spaced_mem)

lemma path_frame:
  assumes "path m p fs q" and "\<And>x. p \<le> x \<Longrightarrow> x < p + 4 \<Longrightarrow> m' x = m x"
    and "\<And>a n x. (a, n) \<in> set fs \<Longrightarrow> a \<le> x \<Longrightarrow> x < a + 8 \<Longrightarrow> m' x = m x"
  shows "path m' p fs q"
  using assms
proof (induction m p fs q rule: path.induct)
  case (2 m p a n fs q)
  have "hptr m' p = hptr m p" by (rule hptr_cong) (rule "2.prems"(2))
  moreover have "hsize m' a = hsize m a" by (rule hsize_cong) (rule "2.prems"(3) [of a n], auto)
  moreover have "path m' a fs q"
  proof (rule "2.IH")
    show "path m a fs q" using "2.prems"(1) by simp
    show "m' x = m x" if "a \<le> x" "x < a + 4" for x by (rule "2.prems"(3) [of a n]) (use that in auto)
    show "m' x = m x" if "(b, k) \<in> set fs" "b \<le> x" "x < b + 8" for b k x
      by (rule "2.prems"(3) [of b k]) (use that in auto)
  qed
  ultimately show ?case using "2.prems"(1) by simp
next
  case (1 m p q)
  have "hptr m' p = hptr m p" by (rule hptr_cong) (rule "1.prems"(2))
  then show ?case using 1 by simp
qed

section \<open>free\<close>

definition next_of :: "nat \<Rightarrow> block list \<Rightarrow> nat" where
  "next_of b ys = (case ys of [] \<Rightarrow> b | y # _ \<Rightarrow> fst y)"

definition prev_of :: "nat \<Rightarrow> block list \<Rightarrow> nat" where
  "prev_of b xs = last (b # map fst xs)"

lemma next_of_simps [simp]: "next_of b [] = b" "next_of b ((a, n) # ys) = a"
  by (simp_all add: next_of_def)

lemma prev_of_simps [simp]: "prev_of b [] = b" "prev_of b (xs @ (a, n) # ys) = prev_of a ys"
  by (simp_all add: prev_of_def)

lemma path_split: "path m p (xs @ ys) q \<Longrightarrow> path m p xs (next_of q ys)"
  by (cases ys) (auto simp: path_append)

lemma spaced_sorted: "spaced e fs \<Longrightarrow> b \<le> e \<Longrightarrow> sorted_wrt (<) (b # map fst fs)"
proof (induction e fs arbitrary: b rule: spaced.induct)
  case (2 e a n fs)
  have "sorted_wrt (<) (a # map fst fs)" by (rule "2.IH") (use "2.prems" in auto)
  moreover have "b < a" using "2.prems" by simp
  ultimately show ?case by (auto intro: less_trans)
qed simp

lemma find_forward:
  "path m p zs r \<Longrightarrow> sorted_wrt (<) (p # map fst zs) \<Longrightarrow> \<forall>a \<in> set (p # map fst zs). a < bp \<Longrightarrow> bp < r \<or> r \<le> p \<Longrightarrow>
   free_find bp m p = Some (prev_of p zs)"
proof (induction m p zs r rule: path.induct)
  case (2 m p a n zs r)
  then have "p < a" "a < bp" "hptr m p = a" by auto
  moreover have "free_find bp m a = Some (prev_of a zs)" using 2 by auto
  ultimately show ?case by (subst free_find.simps) (simp add: prev_of_def)
qed (subst free_find.simps, auto)

lemma find_wrap:
  "path m p zs r \<Longrightarrow> sorted_wrt (<) (p # map fst zs) \<Longrightarrow> bp < p \<Longrightarrow> r < bp \<Longrightarrow> free_find bp m p = free_find bp m r"
proof (induction m p zs r rule: path.induct)
  case (2 m p a n zs r)
  then have "p < a" "hptr m p = a" by auto
  moreover have "free_find bp m a = free_find bp m r" using 2 by auto
  ultimately show ?case using "2.prems"(3) by (subst free_find.simps) simp
qed (subst free_find.simps, auto)

lemma free_find_ok:
  assumes ring: "path m base (xs @ ys) base" "spaced (base + 7) (xs @ ys)"
    and below: "\<forall>b \<in> set xs. fst b < bp" and above: "\<forall>b \<in> set ys. bp < fst b" and base: "base < bp"
    and f: "f = base \<or> f \<in> fst ` set (xs @ ys)"
  shows "free_find bp m f = Some (prev_of base xs)"
proof -
  have sorted: "sorted_wrt (<) (base # map fst (xs @ ys))" by (rule spaced_sorted [OF ring(2)]) simp
  have r: "bp < next_of base ys \<or> next_of base ys \<le> base" using above by (cases ys) auto
  have start: "free_find bp m base = Some (prev_of base xs)"
    by (rule find_forward [OF path_split [OF ring(1)]]) (use sorted below base r in \<open>auto simp: sorted_wrt_append\<close>)
  from f consider "f = base" | k where "(f, k) \<in> set xs" | k where "(f, k) \<in> set ys" by auto
  then show ?thesis
  proof cases
    case 2
    then obtain us vs where xs: "xs = us @ (f, k) # vs" by (meson split_list)
    have "path m f vs (next_of base ys)" using path_split [OF ring(1)] by (simp add: xs path_append)
    moreover have "base < f" using sorted by (auto simp: xs)
    ultimately have "free_find bp m f = Some (prev_of f vs)"
      using find_forward [of m f vs "next_of base ys" bp] sorted below r by (auto simp: xs sorted_wrt_append)
    then show ?thesis by (simp add: xs)
  next
    case 3
    then obtain us vs where ys: "ys = us @ (f, k) # vs" by (meson split_list)
    then have "path m base ((xs @ us) @ (f, k) # vs) base" using ring(1) by simp
    then have "path m f vs base" by (simp only: path_append)
    then have "free_find bp m f = free_find bp m base"
      by (rule find_wrap) (use sorted above base in \<open>auto simp: ys sorted_wrt_append\<close>)
    then show ?thesis using start by simp
  qed (use start in simp)
qed

lemma hptr_less [simp]: "hptr m a < 4294967296"
  unfolding hptr_def using unsigned_less [of "get32 m a"] by simp

lemma hptr_put_ptr_hptr [simp]: "hptr (put_ptr a (hptr m p) m') a = hptr m p"
  using hptr_less [of m p] by (intro hptr_put_ptr) simp

text \<open>The block at \<open>b\<close> gets the successor of \<open>p\<close>, or is joined with it.\<close>

lemma join_next_ok:
  assumes p: "path m p ys base" and b: "hsize m b = n" "0 < n" "base < b" "b + 8 * n < 2 ^ 32" "p + 8 \<le> b"
    and ys: "spaced (b + 8 * n - 1) ys" "lend (b + 8 * n) ys < 2 ^ 32"
  obtains n' ys' where "hsize (join_next b p m) b = n'" "n \<le> n'" "path (join_next b p m) b ys' base"
    "spaced (b + 8 * n') ys'" "bytes ((b, n') # ys') = extent (b, n) \<union> bytes ys" "lend (b + 8 * n') ys' = lend (b + 8 * n) ys"
    "\<And>x. x < b \<or> b + 8 \<le> x \<Longrightarrow> join_next b p m x = m x"
proof (cases "hend m b = hptr m p")
  case True
  have e: "hend m b = b + 8 * n" using b by (simp add: hend_def)
  obtain k zs where zs: "ys = (b + 8 * n, k) # zs"
    using True p b(2,3) unfolding e by (cases ys) auto
  let ?m = "put_size b (n + k) m"
  have k: "hsize m (b + 8 * n) = k" "path m (b + 8 * n) zs base" "0 < k" "spaced (b + 8 * n + 8 * k) zs"
    using p ys by (auto simp: zs)
  have le: "b + 8 * n + 8 * k \<le> lend (b + 8 * n + 8 * k) zs" by (rule lend_ge [OF k(4)])
  have j: "join_next b p m = put_ptr b (hptr ?m (b + 8 * n)) ?m"
    using True b(5) k(1) b(1) e unfolding join_next_def by (simp add: Let_def hptr_put_size)
  have pz: "hptr ?m (b + 8 * n) = hptr m (b + 8 * n)" using b(2) by (intro hptr_put_size) auto
  have out: "join_next b p m x = m x" if "x < b \<or> b + 8 \<le> x" for x
    unfolding j using that by (simp add: put_ptr_other put_size_other)
  have "path (join_next b p m) (b + 8 * n) zs base"
    by (rule path_frame [OF k(2)]) (use out b(2) k(4) spaced_mem in \<open>force+\<close>)
  moreover have "hptr (join_next b p m) b = hptr m (b + 8 * n)" unfolding j pz by simp
  moreover have "hptr (join_next b p m) (b + 8 * n) = hptr m (b + 8 * n)" by (rule hptr_cong) (use out b(2) in auto)
  ultimately have "path (join_next b p m) b zs base" by (cases zs) auto
  moreover have "hsize (join_next b p m) b = n + k"
    unfolding j using le ys(2) by (simp add: hsize_put_ptr hsize_put_size zs)
  moreover have "bytes ((b, n + k) # zs) = extent (b, n) \<union> bytes ys" by (auto simp: zs extent_def)
  moreover have "b + 8 * (n + k) = b + 8 * n + 8 * k" by simp
  ultimately show ?thesis using that [of "n + k" zs] out k(4) by (simp add: zs add.assoc)
next
  case False
  then have j: "join_next b p m = put_ptr b (hptr m p) m" by (simp add: join_next_def)
  have out: "join_next b p m x = m x" if "x < b \<or> b + 8 \<le> x" for x
    unfolding j using that by (simp add: put_ptr_other)
  have "hend m b = b + 8 * n" using b by (simp add: hend_def)
  then have sp: "spaced (b + 8 * n) ys" using False p ys(1) b(2) by (cases ys) (auto split: prod.splits)
  have "path (join_next b p m) b ys base"
  proof (cases ys)
    case Nil
    then show ?thesis using p by (auto simp: j)
  next
    case (Cons y zs)
    then obtain c k where y: "ys = (c, k) # zs" by (cases y) auto
    have c: "b + 8 * n < c" "spaced (c + 8 * k) zs" using sp by (simp_all add: y)
    have "path (join_next b p m) c zs base"
      by (rule path_frame [of m]) (use p y out c b(2) spaced_mem [OF c(2)] in \<open>force+\<close>)
    moreover have "hsize (join_next b p m) c = k"
      using p y out c b(2) hsize_cong [of c "join_next b p m" m] by simp
    moreover have "hptr (join_next b p m) b = c" using p y by (auto simp: j)
    ultimately show ?thesis by (simp add: y)
  qed
  moreover have "hsize (join_next b p m) b = n" using b(1) by (simp add: j hsize_put_ptr)
  ultimately show ?thesis using that [of n ys] out sp by simp
qed

text \<open>
  The predecessor gets the block at \<open>b\<close> as its successor, or is joined with it.  \<open>ring\<close>: the blocks \<open>fs\<close> are
  linked in a circle with the static header, and \<open>f\<close> is in it.
\<close>

definition ring :: "nat \<Rightarrow> mem \<Rightarrow> nat \<Rightarrow> block list \<Rightarrow> bool" where
  "ring base m f fs \<longleftrightarrow> hsize m base = 0 \<and> path m base fs base \<and> spaced (base + 7) fs \<and> (f = base \<or> f \<in> fst ` set fs)"

lemma join_prev_other: "x < p \<or> p + 8 \<le> x \<Longrightarrow> join_prev b p m x = m x"
  by (auto simp: join_prev_def Let_def put_ptr_other put_size_other)

lemma join_prev_above:
  assumes "path m b ys base" "spaced (b + 8 * n) ys" "hsize m b = n" "p + 8 \<le> b"
  shows "path (join_prev b p m) b ys base" "hsize (join_prev b p m) b = n" "hptr (join_prev b p m) b = hptr m b"
proof -
  show "path (join_prev b p m) b ys base"
    by (rule path_frame [OF assms(1)]) (use join_prev_other assms(4) spaced_mem [OF assms(2)] in \<open>force+\<close>)
  show "hsize (join_prev b p m) b = n"
    using assms(3,4) join_prev_other hsize_cong [of b "join_prev b p m" m] by simp
  show "hptr (join_prev b p m) b = hptr m b" by (rule hptr_cong) (use join_prev_other assms(4) in simp)
qed

lemma join_prev_base:
  assumes base: "hsize m base = 0" and b: "path m b ys base" "hsize m b = n" "0 < n" "base + 7 < b" "b < 2 ^ 32" "spaced (b + 8 * n) ys"
  shows "ring base (join_prev b base m) base ((b, n) # ys)"
proof -
  have "hend m base = base" using base b(4,5) by (simp add: hend_def)
  then have j: "join_prev b base m = put_ptr base b m" using b(4) by (simp add: join_prev_def)
  have "hptr (join_prev b base m) base = b" unfolding j using b(5) by (intro hptr_put_ptr) simp
  moreover have "hsize (join_prev b base m) base = 0" unfolding j using base by (simp add: hsize_put_ptr)
  ultimately show ?thesis using join_prev_above [OF b(1,6,2), of base] b by (simp add: ring_def)
qed

lemma join_prev_block:
  assumes p: "path m base (us @ [(p, k)]) q" "hsize m base = 0" "spaced (base + 7) (us @ [(p, k)])"
    and b: "path m b ys base" "hsize m b = n" "0 < n" "p + 8 * k \<le> b" "spaced (b + 8 * n) ys" "b + 8 * n < 2 ^ 32"
  shows "ring base (join_prev b p m) p (us @ (if p + 8 * k = b then (p, k + n) # ys else (p, k) # (b, n) # ys))"
proof -
  let ?m = "join_prev b p m"
  have pk: "path m base us p" "hsize m p = k" using p(1) by (auto simp: path_append)
  have sp: "spaced (base + 7) us" "lend (base + 7) us < p" "0 < k" using p(3) by (auto simp: spaced_append)
  have bp: "base + 8 \<le> p" "p + 8 \<le> b" using lend_ge [OF sp(1)] sp(2,3) b(4) by auto
  have us: "a + 8 \<le> p" if "(a, i) \<in> set us" for a i using spaced_mem [OF sp(1) that] sp(2) by auto
  have e: "hend m p = p + 8 * k" using pk(2) b(4,6) by (simp add: hend_def)
  have below: "path ?m base us p" by (rule path_frame [OF pk(1)]) (use join_prev_other bp us in \<open>force+\<close>)
  note above = join_prev_above [OF b(1,5,2) bp(2)]
  have base: "hsize ?m base = 0" using p(2) bp join_prev_other hsize_cong [of base ?m m] by simp
  show ?thesis
  proof (cases "p + 8 * k = b")
    case True
    have j: "?m = put_ptr p (hptr m b) (put_size p (k + n) m)"
      using True e pk(2) b(2) sp(3) by (simp add: join_prev_def Let_def hptr_put_size)
    have "hsize ?m p = k + n" unfolding j using True b(6) by (simp add: hsize_put_ptr hsize_put_size)
    moreover have "hptr ?m p = hptr ?m b" unfolding above(3) by (simp add: j)
    then have "path ?m p ys base" using above(1) by (cases ys) auto
    moreover have "b + 8 * n = p + 8 * (k + n)" using True by simp
    then have "spaced (p + 8 * (k + n)) ys" using b(5) by metis
    ultimately show ?thesis using below base sp True by (simp add: path_append ring_def spaced_append)
  next
    case False
    have j: "?m = put_ptr p b m" using False e by (simp add: join_prev_def)
    have "hsize ?m p = k" unfolding j using pk(2) by (simp add: hsize_put_ptr)
    moreover have "hptr ?m p = b" unfolding j using b(6) by (intro hptr_put_ptr) simp
    ultimately show ?thesis using below above base False sp b(3,4,5) by (simp add: path_append ring_def spaced_append)
  qed
qed

lemma lend_bound: "spaced e fs \<Longrightarrow> bytes fs \<subseteq> {..<T} \<Longrightarrow> e \<le> T \<Longrightarrow> lend e fs \<le> T"
proof (induction e fs rule: spaced.induct)
  case (2 e a n fs)
  then have "a + 8 * n - 1 \<in> extent (a, n)" unfolding extent_def by auto
  moreover have "extent (a, n) \<subseteq> {..<T}" using "2.prems"(2) by simp
  ultimately have "a + 8 * n - 1 < T" by auto
  then have "a + 8 * n \<le> T" by simp
  then show ?case using 2 by simp
qed simp

lemma split_at:
  "spaced e fs \<Longrightarrow> extent (b, n) \<inter> bytes fs = {} \<Longrightarrow> e \<le> b \<Longrightarrow> 0 < n \<Longrightarrow>
   \<exists>xs ys. fs = xs @ ys \<and> (\<forall>x \<in> set xs. fst x < b) \<and> (\<forall>y \<in> set ys. b < fst y) \<and> lend e xs \<le> b \<and> spaced (b + 8 * n - 1) ys"
proof (induction e fs rule: spaced.induct)
  case (2 e a k fs)
  have b: "b \<in> extent (b, n)" "a \<in> extent (a, k)" using "2.prems" by (auto simp: extent_def)
  show ?case
  proof (cases "a < b")
    case True
    have "b \<notin> extent (a, k)" using b "2.prems"(2) by auto
    then have "a + 8 * k \<le> b" using True by (simp add: extent_def)
    then obtain xs ys where "fs = xs @ ys" "\<forall>x \<in> set xs. fst x < b" "\<forall>y \<in> set ys. b < fst y"
      "lend (a + 8 * k) xs \<le> b" "spaced (b + 8 * n - 1) ys" using 2 by auto
    then show ?thesis using True by (intro exI [of _ "(a, k) # xs"] exI [of _ ys]) auto
  next
    case False
    have "a \<notin> extent (b, n)" using b "2.prems"(2) by auto
    then have ba: "b + 8 * n \<le> a" using False by (simp add: extent_def)
    then have "spaced (b + 8 * n - 1) ((a, k) # fs)" using "2.prems"(1,4) by simp
    moreover from this have "\<forall>y \<in> set ((a, k) # fs). b < fst y" using spaced_mem "2.prems"(4) by fastforce
    ultimately show ?thesis using "2.prems"(3) by (intro exI [of _ "[]"] exI [of _ "(a, k) # fs"]) auto
  qed
qed (auto intro: exI [of _ "[]"])

lemma prev_before: "spaced (base + 7) xs \<Longrightarrow> lend (base + 7) xs \<le> p \<Longrightarrow> base + 8 \<le> p \<Longrightarrow> prev_of base xs + 8 \<le> p"
  by (cases xs rule: rev_cases) (auto simp: prev_of_def spaced_append)

text \<open>The two joins put the block between \<open>xs\<close> and \<open>ys\<close>.\<close>

lemma joins_ok:
  assumes ring: "hsize m base = 0" "path m base (xs @ ys) base" "spaced (base + 7) xs"
    and xy: "lend (base + 7) xs \<le> b" "spaced (b + 8 * n - 1) ys" "lend (b + 8 * n) ys < 2 ^ 32"
    and b: "hsize m b = n" "0 < n" "base + 8 \<le> b" and p: "p = prev_of base xs"
  obtains fs where "ring base (join_prev b p (join_next b p m)) p fs"
    "bytes fs = bytes (xs @ ys) \<union> extent (b, n)" "\<exists>k \<ge> n. k \<in> snd ` set fs"
    "\<And>x. x \<notin> {b..<b + 8} \<union> {p..<p + 8} \<Longrightarrow> join_prev b p (join_next b p m) x = m x"
proof -
  have p8: "p + 8 \<le> b" unfolding p by (rule prev_before [OF ring(3) xy(1) b(3)])
  have path: "path m p ys base" using ring(2) unfolding p
    by (cases xs rule: rev_cases) (auto simp: path_append prev_of_def)
  have "b + 8 * n < 2 ^ 32"
    using lend_ge [of "fst (hd ys) + 8 * snd (hd ys)" "tl ys"] xy(2,3) b(2) by (cases ys) auto
  moreover have "base < b" using b(3) by simp
  ultimately obtain n' ys' where J: "hsize (join_next b p m) b = n'" "n \<le> n'" "path (join_next b p m) b ys' base"
    "spaced (b + 8 * n') ys'" "bytes ((b, n') # ys') = extent (b, n) \<union> bytes ys" "lend (b + 8 * n') ys' = lend (b + 8 * n) ys"
    "\<And>x. x < b \<or> b + 8 \<le> x \<Longrightarrow> join_next b p m x = m x"
    using join_next_ok [OF path b(1,2) _ _ p8 xy(2,3)] by metis
  let ?m = "join_next b p m"
  have n': "0 < n'" "b + 8 * n' < 2 ^ 32" using J(2,6) b(2) xy(3) lend_ge [OF J(4)] by auto
  have base: "hsize ?m base = 0" using ring(1) b(3) J(7) hsize_cong [of base ?m m] by simp
  have xs: "path ?m base xs (next_of base ys)"
    by (rule path_frame [OF path_split [OF ring(2)]]) (use J(7) b(3) spaced_mem [OF ring(3)] xy(1) in \<open>force+\<close>)
  have out: "join_prev b p ?m x = m x" if "x \<notin> {b..<b + 8} \<union> {p..<p + 8}" for x
    using that J(7) join_prev_other [of x p b ?m] by (auto simp: not_less not_le)
  show ?thesis
  proof (cases xs rule: rev_cases)
    case Nil
    with join_prev_base [OF base J(3,1) n'(1) _ _ J(4)] b(3) n'(2)
    show ?thesis using that [of "(b, n') # ys'"] out J(2,5) p by (auto simp: prev_of_def)
  next
    case (snoc us u)
    then obtain k where u: "xs = us @ [(p, k)]" using p by (cases u) (simp add: prev_of_def)
    have k: "p + 8 * k \<le> b" using xy(1) by (simp add: u)
    let ?fs = "us @ (if p + 8 * k = b then (p, k + n') # ys' else (p, k) # (b, n') # ys')"
    have "bytes ?fs = bytes xs \<union> bytes ((b, n') # ys')" unfolding u by (auto simp: extent_def)
    moreover have "\<exists>k \<ge> n. k \<in> snd ` set ?fs" using J(2) by (auto intro: trans_le_add2)
    ultimately show ?thesis using that [of ?fs] join_prev_block [OF xs [unfolded u] base ring(3) [unfolded u] J(3,1) n'(1) k J(4) n'(2)]
        out J(5) by auto
  qed
qed

text \<open>What \<open>free\<close> does to a block outside the ring: it ends, and the block's bytes join those of the ring.\<close>

lemma free_ok:
  assumes ring: "ring base (um s) (freep s) fs"
    and b: "hsize (um s) b = n" "0 < n" "base + 8 \<le> b" "extent (b, n) \<inter> bytes fs = {}"
    and T: "b + 8 * n \<le> T" "bytes fs \<subseteq> {..<T}" "T < 2 ^ 32"
  obtains s' fs' where "free (b + 8) s = Some s'" "ring base (um s') (freep s') fs'" "bytes fs' = bytes fs \<union> extent (b, n)"
    "\<exists>k \<ge> n. k \<in> snd ` set fs'" "brk s' = brk s"
    "\<And>x. x \<notin> {base..<base + 8} \<union> bytes fs' \<Longrightarrow> um s' x = um s x"
proof -
  have R: "hsize (um s) base = 0" "path (um s) base fs base" "spaced (base + 7) fs" "freep s = base \<or> freep s \<in> fst ` set fs"
    using ring by (auto simp: ring_def)
  have "base + 7 \<le> b" using b(3) by simp
  from split_at [OF R(3) b(4) this b(2)] obtain xs ys where xy: "fs = xs @ ys" "\<forall>x \<in> set xs. fst x < b"
    "\<forall>y \<in> set ys. b < fst y" "lend (base + 7) xs \<le> b" "spaced (b + 8 * n - 1) ys" by blast
  define p where "p = prev_of base xs"
  have find: "free_find b (um s) (freep s) = Some p"
    unfolding p_def by (rule free_find_ok [where ys = ys]) (use R xy b(3) in auto)
  have sp: "spaced (base + 7) xs" using R(3) by (simp add: xy spaced_append)
  have "lend (b + 8 * n - 1) ys \<le> T" by (rule lend_bound [OF xy(5)]) (use T xy(1) in auto)
  then have top: "lend (b + 8 * n) ys < 2 ^ 32" using T by (cases ys) auto
  obtain fs' where J: "ring base (join_prev b p (join_next b p (um s))) p fs'" "bytes fs' = bytes (xs @ ys) \<union> extent (b, n)"
    "\<exists>k \<ge> n. k \<in> snd ` set fs'" "\<And>x. x \<notin> {b..<b + 8} \<union> {p..<p + 8} \<Longrightarrow> join_prev b p (join_next b p (um s)) x = um s x"
    using joins_ok [OF R(1) R(2) [unfolded xy(1)] sp xy(4,5) top b(1-3) p_def] by metis
  have "{p..<p + 8} \<subseteq> {base..<base + 8} \<union> bytes fs"
  proof (cases "xs = []")
    case False
    then have "p \<in> fst ` set fs" by (simp add: p_def prev_of_def xy(1) last_map)
    then show ?thesis using header_bytes [OF R(3), of p] by auto
  qed (simp add: p_def)
  moreover have "{b..<b + 8} \<subseteq> extent (b, n)" using b(2) by (auto simp: extent_def)
  ultimately have "join_prev b p (join_next b p (um s)) x = um s x" if "x \<notin> {base..<base + 8} \<union> bytes fs'" for x
    by (intro J(4)) (use that J(2) xy(1) in blast)
  then show ?thesis
    using that [of "s\<lparr>um := join_prev b p (join_next b p (um s)), freep := p\<rparr>" fs'] J(1-3) find
    by (simp add: free_def xy(1))
qed

section \<open>malloc\<close>

text \<open>The states between two calls: a ring of free blocks below the end of the process.\<close>

definition heap :: "nat \<Rightarrow> umem \<Rightarrow> block list \<Rightarrow> bool" where
  "heap base s fs \<longleftrightarrow> 0 < base \<and> ring base (um s) (freep s) fs \<and> bytes fs \<subseteq> {..<brk s} \<and> base + 8 \<le> brk s \<and> brk s < 2 ^ 31"

lemma prev_unique:
  assumes "path m base fs base" "spaced (base + 7) fs" "a = base \<or> a \<in> fst ` set fs" "hptr m a = p" "fs = xs @ (p, n) # ys"
  shows "a = prev_of base xs"
proof -
  have d: "distinct (map fst xs @ p # map fst ys)" using spaced_distinct [OF assms(2)] by (simp add: assms(5))
  have "base + 7 < p" using spaced_mem [OF assms(2), of p n] by (simp add: assms(5))
  from assms(3) consider "a = base" | k where "(a, k) \<in> set fs" by auto
  then show ?thesis
  proof cases
    case 1
    then show ?thesis using assms(1,4,5) d by (cases xs) (auto simp: prev_of_def)
  next
    case 2
    then obtain us vs where f: "fs = us @ (a, k) # vs" by (meson split_list)
    then have "path m a vs base" using assms(1) by (simp add: path_append)
    then obtain i vs' where vs: "vs = (p, i) # vs'" using assms(4) \<open>base + 7 < p\<close> by (cases vs) auto
    have "map fst (us @ [(a, k)]) @ p # map fst vs' = map fst xs @ p # map fst ys"
      using arg_cong [OF assms(5), of "map fst"] by (simp add: f vs)
    then have "map fst (us @ [(a, k)]) = map fst xs"
      by (rule append_Cons_eq_iff [THEN iffD1, THEN conjunct1, rotated 2])
        (use d spaced_distinct [OF assms(2)] in \<open>auto simp: f vs\<close>)
    then have "last (base # map fst (us @ [(a, k)])) = prev_of base xs" unfolding prev_of_def by (simp only:)
    then show ?thesis by simp
  qed
qed

lemma ring_cycle:
  assumes "ring base m f fs"
  obtains ws where "path m f ws f" "f \<notin> fst ` set ws" "insert (f, hsize m f) (set ws) = insert (base, 0) (set fs)"
proof -
  have R: "hsize m base = 0" "path m base fs base" "spaced (base + 7) fs" "f = base \<or> f \<in> fst ` set fs"
    using assms by (auto simp: ring_def)
  from R(4) consider "f = base" | k where "(f, k) \<in> set fs" by auto
  then show ?thesis
  proof cases
    case 1
    then show ?thesis using that [of fs] R spaced_mem [OF R(3), of base] by force
  next
    case 2
    then obtain us vs where f: "fs = us @ (f, k) # vs" by (meson split_list)
    have "path m f (vs @ (base, 0) # us) f" "hsize m f = k" using R(1,2) by (auto simp: f path_append)
    moreover have "f \<notin> fst ` set (vs @ (base, 0) # us)"
      using spaced_distinct [OF R(3)] spaced_mem [OF R(3), of f k] by (auto simp: f)
    ultimately show ?thesis using that [of "vs @ (base, 0) # us"] by (auto simp: f)
  qed
qed

lemma loop_skip:
  "path (um s) prevp ws q \<Longrightarrow> \<forall>(a, n) \<in> set ws. n < nunits \<and> a \<noteq> freep s \<Longrightarrow>
   malloc_loop ok nunits prevp (hptr (um s) prevp) s = malloc_loop ok nunits (prev_of prevp ws) q s"
proof (induction "um s" prevp ws q rule: path.induct)
  case (2 p a n ws q)
  then have "malloc_loop ok nunits p (hptr (um s) p) s = malloc_loop ok nunits a (hptr (um s) a) s"
    by (subst malloc_loop.simps) auto
  also have "\<dots> = malloc_loop ok nunits (prev_of a ws) q s" using 2 by auto
  finally show ?case by (simp add: prev_of_def)
qed simp

lemma path_prev: "path m p us q \<Longrightarrow> hptr m (prev_of p us) = q"
  by (induction m p us q rule: path.induct) (auto simp: prev_of_def)

lemma loop_fit:
  assumes ring: "ring base (um s) (freep s) fs" and fit: "\<exists>k \<ge> nunits. k \<in> snd ` set fs" and pos: "0 < nunits"
  obtains xs p n ys where "fs = xs @ (p, n) # ys" "nunits \<le> n"
    "malloc_loop ok nunits (freep s) (hptr (um s) (freep s)) s = Some (take_block nunits (prev_of base xs) p s)"
proof -
  let ?m = "um s" and ?f = "freep s"
  obtain ws where ws: "path ?m ?f ws ?f" "?f \<notin> fst ` set ws" "insert (?f, hsize ?m ?f) (set ws) = insert (base, 0) (set fs)"
    by (rule ring_cycle [OF ring])
  let ?cs = "ws @ [(?f, hsize ?m ?f)]"
  have cs: "set ?cs = insert (base, 0) (set fs)" using ws(3) by auto
  have path: "path ?m ?f ?cs (hptr ?m ?f)" using ws(1) by (simp add: path_append)
  have "\<exists>c \<in> set ?cs. nunits \<le> snd c" unfolding cs using fit by auto
  from split_list_first_prop [OF this] obtain us c vs where c: "?cs = us @ c # vs" "nunits \<le> snd c" "\<forall>d \<in> set us. \<not> nunits \<le> snd d"
    by blast
  obtain p n where pn: "c = (p, n)" by (cases c)
  have up: "path ?m ?f us p" "hsize ?m p = n" using path unfolding c(1) pn by (auto simp: path_append)
  have "set us \<subseteq> set ws" using c(1) by (cases vs rule: rev_cases) (auto simp: append_eq_append_conv2 Cons_eq_append_conv)
  then have "\<forall>(a, k) \<in> set us. k < nunits \<and> a \<noteq> ?f" using c(3) ws(2) by force
  from loop_skip [OF up(1) this, of ok]
  have loop: "malloc_loop ok nunits ?f (hptr ?m ?f) s = Some (take_block nunits (prev_of ?f us) p s)"
    using c(2) up(2) by (simp add: pn) (subst malloc_loop.simps, simp)
  have "(p, n) \<in> set ?cs" unfolding c(1) pn by simp
  then have "(p, n) \<in> set fs" using c(2) pos unfolding cs pn by auto
  then obtain xs ys where fs: "fs = xs @ (p, n) # ys" by (meson split_list)
  have "prev_of ?f us \<in> insert ?f (fst ` set us)" unfolding prev_of_def by (metis last_in_set list.set(2) list.simps(3) set_map)
  also have "\<dots> \<subseteq> insert base (fst ` set fs)" using \<open>set us \<subseteq> set ws\<close> arg_cong [OF ws(3), of "image fst"] by auto
  finally have "prev_of ?f us = prev_of base xs"
    using prev_unique [of ?m base fs "prev_of ?f us" p xs n ys] ring path_prev [OF up(1)] fs by (auto simp: ring_def)
  then show ?thesis using that [OF fs] c(2) loop by (simp add: pn)
qed

text \<open>Taking a block out of the ring, or its end.\<close>

lemma unlink_ok:
  assumes ring: "ring base m f (xs @ (p, n) # ys)" and d: "d = prev_of base xs"
  shows "ring base (put_ptr d (hptr m p) m) d (xs @ ys)"
proof -
  let ?m = "put_ptr d (hptr m p) m"
  have R: "hsize m base = 0" "path m base xs p" "path m p ys base" "spaced (base + 7) xs" "lend (base + 7) xs < p" "0 < n"
      "spaced (p + 8 * n) ys"
    using ring by (auto simp: ring_def path_append spaced_append)
  have d8: "d + 8 \<le> p" unfolding d using R(4,5) lend_ge [OF R(4)] by (intro prev_before) auto
  have out: "?m x = m x" if "x < d \<or> d + 8 \<le> x" for x using that by (rule put_ptr_other)
  have "path ?m p ys base" by (rule path_frame [OF R(3)]) (use out d8 spaced_mem [OF R(7)] in \<open>force+\<close>)
  moreover have "hptr ?m p = hptr m p" by (rule hptr_cong) (use out d8 in auto)
  ultimately have above: "path ?m d ys base" by (cases ys) auto
  have sp: "spaced (lend (base + 7) xs) ys" using R(5-7) by (cases ys) auto
  show ?thesis
  proof (cases xs rule: rev_cases)
    case Nil
    then show ?thesis using above R(1) sp by (simp add: ring_def d hsize_put_ptr)
  next
    case (snoc us u)
    then obtain k where u: "xs = us @ [(d, k)]" using d by (cases u) (simp add: prev_of_def)
    have ud: "path m base us d" "hsize m d = k" "spaced (base + 7) us" "lend (base + 7) us < d" "0 < k"
      using R(2,4) by (auto simp: u path_append spaced_append)
    have bd: "base + 8 \<le> d" using lend_ge [OF ud(3)] ud(4) by simp
    have "path ?m base us d" by (rule path_frame [OF ud(1)]) (use out bd spaced_mem [OF ud(3)] ud(4) in \<open>force+\<close>)
    moreover have "hsize ?m d = k" using ud(2) by (simp add: hsize_put_ptr)
    moreover have "hsize ?m base = 0" using R(1) bd by (simp add: hsize_put_ptr)
    ultimately show ?thesis using above R(4) sp by (auto simp: ring_def u path_append spaced_append)
  qed
qed

lemma shrink_ok:
  assumes ring: "ring base m f (xs @ (p, n) # ys)" and u: "0 < nunits" "nunits < n" and top: "p + 8 * n < 2 ^ 32"
    and d: "d = prev_of base xs"
  defines "m' \<equiv> put_size (p + 8 * (n - nunits)) nunits (put_size p (n - nunits) m)"
  shows "ring base m' d (xs @ (p, n - nunits) # ys)" "hsize m' (p + 8 * (n - nunits)) = nunits"
proof -
  let ?b = "p + 8 * (n - nunits)"
  have R: "hsize m base = 0" "path m base xs p" "path m p ys base" "spaced (base + 7) xs" "lend (base + 7) xs < p"
      "spaced (p + 8 * n) ys"
    using ring by (auto simp: ring_def path_append spaced_append)
  have b: "p + 8 \<le> ?b" "?b + 8 \<le> p + 8 * n" "base + 8 \<le> p" using u lend_ge [OF R(4)] R(5) by auto
  have out: "m' x = m x" if "x < p + 4 \<or> (p + 8 \<le> x \<and> x < ?b) \<or> ?b + 8 \<le> x" for x
    unfolding m'_def put_size_def using that b by (auto simp: put32_other)
  show "hsize m' ?b = nunits" unfolding m'_def using u top by (simp add: hsize_put_size)
  have "hsize m' p = n - nunits"
    unfolding m'_def using b u top by (simp add: hsize_put_size_other hsize_put_size)
  moreover have "path m' base xs p" by (rule path_frame [OF R(2)]) (use out b spaced_mem [OF R(4)] R(5) in \<open>force+\<close>)
  moreover have "path m' p ys base" by (rule path_frame [OF R(3)]) (use out b spaced_mem [OF R(6)] in \<open>force+\<close>)
  moreover have "hsize m' base = 0" using R(1) out b hsize_cong [of base m' m] by simp
  moreover have "spaced (?b) ys" using R(6) b(2) by (cases ys) auto
  moreover have "d = base \<or> d \<in> fst ` set xs" unfolding d by (cases xs rule: rev_cases) (auto simp: prev_of_def)
  ultimately show "ring base m' d (xs @ (p, n - nunits) # ys)"
    using R(4,5) u by (auto simp: ring_def path_append spaced_append)
qed

lemma prev_in: "prev_of b xs = b \<or> prev_of b xs \<in> fst ` set xs"
  by (cases xs rule: rev_cases) (auto simp: prev_of_def)

lemma spaced_apart:
  assumes "spaced e (xs @ (p, n) # ys)"
  shows "bytes (xs @ ys) \<inter> extent (p, n) = {}"
proof -
  have s: "spaced e xs" "lend e xs < p" "spaced (p + 8 * n) ys" using assms by (auto simp: spaced_append)
  have "x < p \<or> p + 8 * n \<le> x" if "x \<in> bytes (xs @ ys)" for x
    using that bytes_bounds [OF s(1), of x] bytes_bounds [OF s(3), of x] s(2) by auto
  then show ?thesis by (fastforce simp: extent_def)
qed

lemma prev_header:
  assumes "spaced (base + 7) fs" "set xs \<subseteq> set fs"
  shows "{prev_of base xs..<prev_of base xs + 8} \<subseteq> {base..<base + 8} \<union> bytes fs"
proof (cases "prev_of base xs = base")
  case False
  then obtain k where "(prev_of base xs, k) \<in> set fs" using prev_in [of base xs] assms(2) by auto
  then show ?thesis using header_bytes [OF assms(1)] by auto
qed simp

lemma take_block_ok:
  assumes heap: "heap base s fs" and fs: "fs = xs @ (p, n) # ys" and u: "0 < nunits" "nunits \<le> n"
  obtains b s' fs' where "take_block nunits (prev_of base xs) p s = (b + 8, s')" "heap base s' fs'" "brk s' = brk s"
    "bytes fs = bytes fs' \<union> extent (b, nunits)" "bytes fs' \<inter> extent (b, nunits) = {}"
    "hsize (um s') b = nunits" "\<And>x. x \<notin> {base..<base + 8} \<union> bytes fs \<Longrightarrow> um s' x = um s x"
proof -
  let ?d = "prev_of base xs"
  have ring: "ring base (um s) (freep s) (xs @ (p, n) # ys)" using heap by (simp add: heap_def fs)
  then have R: "hsize (um s) p = n" "spaced (base + 7) fs" by (auto simp: ring_def path_append fs)
  have "p + 8 * n \<le> lend (base + 7) fs" using spaced_mem [OF R(2), of p n] by (simp add: fs)
  also have "\<dots> \<le> brk s" by (rule lend_bound [OF R(2)]) (use heap in \<open>auto simp: heap_def\<close>)
  finally have top: "p + 8 * n < 2 ^ 32" using heap by (simp add: heap_def)
  note apart = spaced_apart [OF R(2) [unfolded fs]]
  show ?thesis
  proof (cases "n = nunits")
    case True
    let ?m = "put_ptr ?d (hptr (um s) p) (um s)"
    have "{?d..<?d + 8} \<subseteq> {base..<base + 8} \<union> bytes fs" by (rule prev_header [OF R(2)]) (auto simp: fs)
    then have "x < ?d \<or> ?d + 8 \<le> x" if "x \<notin> {base..<base + 8} \<union> bytes fs" for x
      using that by (meson atLeastLessThan_iff not_less subsetD)
    then have "?m x = um s x" if "x \<notin> {base..<base + 8} \<union> bytes fs" for x
      using that by (intro put_ptr_other) blast
    moreover have "?d \<le> p" using prev_before [of base xs p] R(2) lend_ge [of "base + 7" xs] by (simp add: fs spaced_append)
    then have "hsize ?m p = n" using R(1) by (simp add: hsize_put_ptr)
    moreover have "heap base (s\<lparr>um := ?m, freep := ?d\<rparr>) (xs @ ys)"
      using heap unlink_ok [OF ring refl] by (auto simp: heap_def fs)
    ultimately show ?thesis using that [of p "s\<lparr>um := ?m, freep := ?d\<rparr>" "xs @ ys"] True R(1) apart
      by (simp add: take_block_def Let_def fs Un_ac)
  next
    case False
    let ?b = "p + 8 * (n - nunits)" and ?fs = "xs @ (p, n - nunits) # ys"
    let ?m = "put_size ?b nunits (put_size p (n - nunits) (um s))"
    have lt: "nunits < n" using False u(2) by simp
    have b: "extent (p, n) = extent (p, n - nunits) \<union> extent (?b, nunits)" "extent (p, n - nunits) \<inter> extent (?b, nunits) = {}"
      using lt by (auto simp: extent_def)
    have "?m x = um s x" if "x \<notin> {base..<base + 8} \<union> bytes fs" for x
    proof -
      have "x < p \<or> p + 8 * n \<le> x" using that by (simp add: fs extent_def) linarith
      moreover have "?b + 8 \<le> p + 8 * n" using lt u(1) by simp
      ultimately show ?thesis using lt by (auto simp: put_size_other)
    qed
    moreover have "heap base (s\<lparr>um := ?m, freep := ?d\<rparr>) ?fs"
      using heap shrink_ok(1) [OF ring u(1) lt top refl] b(1) by (auto simp: heap_def fs)
    moreover have "hend (put_size p (n - nunits) (um s)) p = ?b"
      using top lt by (simp add: hend_def hsize_put_size)
    ultimately show ?thesis using that [of ?b "s\<lparr>um := ?m, freep := ?d\<rparr>" ?fs] shrink_ok(2) [OF ring u(1) lt top refl]
        False R(1) apart b by (auto simp: take_block_def Let_def fs)
  qed
qed

text \<open>A search that finds a block, in terms of the bytes it takes from the ring.\<close>

definition takes :: "nat \<Rightarrow> umem \<Rightarrow> block list \<Rightarrow> nat \<Rightarrow> (nat \<times> umem) option \<Rightarrow> bool" where
  "takes base s fs nunits r \<longleftrightarrow>
     (\<exists>b s' fs'. r = Some (b + 8, s') \<and> heap base s' fs' \<and> brk s' = brk s \<and>
        bytes fs = bytes fs' \<union> extent (b, nunits) \<and> bytes fs' \<inter> extent (b, nunits) = {} \<and> hsize (um s') b = nunits \<and>
        (\<forall>x. x \<notin> {base..<base + 8} \<union> bytes fs \<longrightarrow> um s' x = um s x))"

lemma loop_takes:
  assumes heap: "heap base s fs" and fit: "\<exists>k \<ge> nunits. k \<in> snd ` set fs" and pos: "0 < nunits"
  shows "takes base s fs nunits (malloc_loop ok nunits (freep s) (hptr (um s) (freep s)) s)"
proof -
  have "ring base (um s) (freep s) fs" using heap by (simp add: heap_def)
  from loop_fit [OF this fit pos, of ok] obtain xs p n ys where fs: "fs = xs @ (p, n) # ys" "nunits \<le> n"
    "malloc_loop ok nunits (freep s) (hptr (um s) (freep s)) s = Some (take_block nunits (prev_of base xs) p s)" by metis
  show ?thesis by (rule take_block_ok [OF heap fs(1) pos fs(2)]) (auto simp: takes_def fs(3))
qed

lemma sbrk_grow:
  assumes "0 < n" "n < 2 ^ 31" "brk s < 2 ^ 31"
  shows "sbrk ok (of_nat n) s =
    (if brk s + n < 2 ^ 31 \<and> ok (brk s) (brk s + n) then (Some (brk s), s\<lparr>brk := brk s + n\<rparr>) else (None, s))"
proof -
  have u: "unat (of_nat n :: word32) = n" using assms(2) by (simp add: unat_of_nat)
  have "sint (of_nat n :: word32) = int n" using assms(2) by (simp add: signed_of_nat signed_take_bit_int_eq_self)
  then show ?thesis using assms by (simp add: sbrk_def u Let_def)
qed

text \<open>\<open>morecore\<close> adds the bytes the kernel grants to the ring.\<close>

lemma morecore_ok:
  assumes heap: "heap base s fs" and nu: "0 < nu" "nu * 8 < 2 ^ 31"
  shows "(fst (sbrk ok (of_nat (max nu 4096 * 8)) s) = None \<and> morecore ok nu s = Some (0, s)) \<or>
    (\<exists>s' fs'. morecore ok nu s = Some (freep s', s') \<and> freep s' \<noteq> 0 \<and> heap base s' fs' \<and> (\<exists>k \<ge> nu. k \<in> snd ` set fs') \<and>
       brk s \<le> brk s' \<and> bytes fs' = bytes fs \<union> {brk s..<brk s'} \<and>
       (\<forall>x. x \<notin> {base..<base + 8} \<union> bytes fs' \<longrightarrow> um s' x = um s x))"
proof -
  let ?n = "max nu 4096" and ?b = "brk s"
  have n: "(if nu < 4096 then 4096 else nu) = ?n" "0 < ?n * 8" "?n * 8 < 2 ^ 31" using nu by auto
  have H: "0 < base" "ring base (um s) (freep s) fs" "bytes fs \<subseteq> {..<?b}" "base + 8 \<le> ?b" "?b < 2 ^ 31"
    using heap by (auto simp: heap_def)
  note grow = sbrk_grow [OF n(2,3) H(5), of ok]
  show ?thesis
  proof (cases "?b + ?n * 8 < 2 ^ 31 \<and> ok ?b (?b + ?n * 8)")
    case False
    then show ?thesis using grow by (auto simp: morecore_def n(1) Let_def)
  next
    case True
    define s1 where "s1 = s\<lparr>brk := ?b + ?n * 8, um := put_size ?b ?n (um s)\<rparr>"
    have out: "um s1 x = um s x" if "x < ?b" for x using that by (simp add: s1_def put_size_other)
    have R: "path (um s) base fs base" "spaced (base + 7) fs" using H(2) by (auto simp: ring_def)
    have "path (um s1) base fs base"
      by (rule path_frame [OF R(1)]) (use out H(3,4) header_bytes [OF R(2)] in \<open>force+\<close>)
    moreover have "hsize (um s1) base = 0" using H(2,4) out hsize_cong [of base "um s1" "um s"] by (simp add: ring_def)
    ultimately have r1: "ring base (um s1) (freep s1) fs" using H(2) by (simp add: ring_def s1_def)
    have e: "extent (?b, ?n) = {?b..<?b + ?n * 8}" by (auto simp: extent_def)
    have sz: "hsize (um s1) ?b = ?n" using nu by (simp add: s1_def hsize_put_size)
    have ap: "extent (?b, ?n) \<inter> bytes fs = {}" using H(3) unfolding e by auto
    have "\<exists>s' fs'. free (?b + 8) s1 = Some s' \<and> ring base (um s') (freep s') fs' \<and> bytes fs' = bytes fs \<union> extent (?b, ?n) \<and>
       (\<exists>k \<ge> ?n. k \<in> snd ` set fs') \<and> brk s' = brk s1 \<and> (\<forall>x. x \<notin> {base..<base + 8} \<union> bytes fs' \<longrightarrow> um s' x = um s1 x)"
      by (rule free_ok [OF r1 sz _ H(4) ap, of "?b + ?n * 8"]) (use H(3) True n in \<open>auto simp: mult.commute\<close>)
    then obtain s' fs' where F: "free (?b + 8) s1 = Some s'" "ring base (um s') (freep s') fs'" "bytes fs' = bytes fs \<union> extent (?b, ?n)"
      "\<exists>k \<ge> ?n. k \<in> snd ` set fs'" "brk s' = brk s1" "\<forall>x. x \<notin> {base..<base + 8} \<union> bytes fs' \<longrightarrow> um s' x = um s1 x" by blast
    have "morecore ok nu s = Some (freep s', s')"
      using F(1) True unfolding morecore_def n(1) Let_def grow s1_def by simp
    moreover have "um s' x = um s x" if "x \<notin> {base..<base + 8} \<union> bytes fs'" for x
      using that F(3,6) out [of x] nu unfolding e s1_def by (auto simp: put_size_other)
    moreover have "freep s' = base \<or> freep s' \<in> fst ` set fs'" "spaced (base + 7) fs'" using F(2) by (auto simp: ring_def)
    then have "freep s' \<noteq> 0" using H(1) spaced_mem [of "base + 7" fs' "freep s'"] by (metis imageE less_nat_zero_code prod.collapse)
    moreover have "heap base s' fs'" using H F(2,3,5) True unfolding e by (auto simp: heap_def s1_def)
    moreover have "\<exists>k \<ge> nu. k \<in> snd ` set fs'" using F(4) by (auto intro: order_trans)
    ultimately show ?thesis using F(3,5) unfolding e
      by (intro disjI2 exI [of _ s'] exI [of _ fs']) (simp add: s1_def)
  qed
qed

lemma loop_ok:
  assumes heap: "heap base s fs" and nu: "0 < nunits" "nunits * 8 < 2 ^ 31"
  shows "(fst (sbrk ok (of_nat (max nunits 4096 * 8)) s) = None \<and> malloc_loop ok nunits (freep s) (hptr (um s) (freep s)) s = Some (0, s)) \<or>
    (\<exists>s' fs'. heap base s' fs' \<and> brk s \<le> brk s' \<and> bytes fs' = bytes fs \<union> {brk s..<brk s'} \<and>
       (\<forall>x. x \<notin> {base..<base + 8} \<union> bytes fs' \<longrightarrow> um s' x = um s x) \<and>
       ((\<exists>k \<ge> nunits. k \<in> snd ` set fs) \<longrightarrow> s' = s) \<and>
       takes base s' fs' nunits (malloc_loop ok nunits (freep s) (hptr (um s) (freep s)) s))"
proof (cases "\<exists>k \<ge> nunits. k \<in> snd ` set fs")
  case True
  from loop_takes [OF heap True nu(1), of ok] heap show ?thesis
    by (intro disjI2 exI [of _ s] exI [of _ fs]) (simp add: True)
next
  case False
  let ?f = "freep s"
  have ring: "ring base (um s) ?f fs" using heap by (simp add: heap_def)
  obtain ws where ws: "path (um s) ?f ws ?f" "?f \<notin> fst ` set ws" "insert (?f, hsize (um s) ?f) (set ws) = insert (base, 0) (set fs)"
    by (rule ring_cycle [OF ring])
  have small: "n < nunits" if "(a, n) \<in> insert (?f, hsize (um s) ?f) (set ws)" for a n
    using that False nu(1) unfolding ws(3) by (force simp: not_le)
  have "malloc_loop ok nunits ?f (hptr (um s) ?f) s = malloc_loop ok nunits (prev_of ?f ws) ?f s"
    by (rule loop_skip [OF ws(1)]) (use small ws(2) in force)
  also have "\<dots> = Option.bind (morecore ok nunits s) (\<lambda>(p, s).
      if p = 0 then Some (0, s) else malloc_loop ok nunits p (hptr (um s) p) s)"
    using small [of ?f "hsize (um s) ?f"] by (subst malloc_loop.simps) simp
  finally have loop: "malloc_loop ok nunits ?f (hptr (um s) ?f) s = \<dots>" .
  from morecore_ok [OF heap nu, of ok] show ?thesis
  proof (elim disjE exE conjE)
    fix s' fs' k assume m: "morecore ok nunits s = Some (freep s', s')" "freep s' \<noteq> 0" "heap base s' fs'"
      "brk s \<le> brk s'" "bytes fs' = bytes fs \<union> {brk s..<brk s'}" "\<forall>x. x \<notin> {base..<base + 8} \<union> bytes fs' \<longrightarrow> um s' x = um s x"
      and k: "nunits \<le> k" "k \<in> snd ` set fs'"
    then have fit: "\<exists>k \<ge> nunits. k \<in> snd ` set fs'" by blast
    have "takes base s' fs' nunits (malloc_loop ok nunits ?f (hptr (um s) ?f) s)"
      using loop_takes [OF m(3) fit nu(1), of ok] m(1,2) unfolding loop by simp
    then show ?thesis using m False by blast
  qed (simp add: loop)
qed

lemma nunits_ok:
  assumes "unat (nbytes :: word32) + 15 < 2 ^ 31"
  shows "unat ((nbytes + 8 - 1) div 8 + 1) = (unat nbytes + 7) div 8 + 1"
proof -
  have "nbytes + 8 - 1 = 7 + nbytes" by simp
  moreover have "unat (7 + nbytes) = unat nbytes + 7" using assms by (simp add: unat_word_ariths)
  ultimately have "unat ((nbytes + 8 - 1) div 8) = (unat nbytes + 7) div 8" by (simp add: unat_div)
  moreover have "(unat nbytes + 7) div 8 + 1 < 2 ^ 32" using assms by (simp add: div_less_iff_less_mult)
  ultimately show ?thesis by (simp add: unat_word_ariths)
qed

section \<open>A program and its heap\<close>

text \<open>The blocks a program owns: apart from each other and from the ring, with their sizes in their headers.\<close>

definition used :: "nat \<Rightarrow> umem \<Rightarrow> block list \<Rightarrow> block \<Rightarrow> bool" where
  "used base s fs c \<longleftrightarrow> 0 < snd c \<and> base + 8 \<le> fst c \<and> fst c + 8 * snd c \<le> brk s \<and> hsize (um s) (fst c) = snd c \<and>
     extent c \<inter> bytes fs = {}"

definition owned :: "nat \<Rightarrow> umem \<Rightarrow> block list \<Rightarrow> block set \<Rightarrow> bool" where
  "owned base s fs A \<longleftrightarrow> (\<forall>c \<in> A. used base s fs c) \<and> (\<forall>c \<in> A. \<forall>d \<in> A. c \<noteq> d \<longrightarrow> extent c \<inter> extent d = {})"

definition keeps :: "block set \<Rightarrow> umem \<Rightarrow> umem \<Rightarrow> bool" where
  "keeps A s s' \<longleftrightarrow> (\<forall>c \<in> A. \<forall>x \<in> extent c. um s' x = um s x)"

lemma owned_bound:
  assumes "owned base s fs A" "c \<in> A" "x \<in> extent c"
  shows "x < brk s" "base + 8 \<le> x" "x \<notin> bytes fs"
proof -
  have "used base s fs c" using assms(1,2) by (simp add: owned_def)
  then show "x < brk s" "base + 8 \<le> x" "x \<notin> bytes fs" using assms(3) by (auto simp: used_def extent_def)
qed

lemma used_step:
  assumes "used base s fs c" "\<And>x. x \<in> extent c \<Longrightarrow> um s' x = um s x" "brk s \<le> brk s'" "extent c \<inter> bytes fs' = {}"
  shows "used base s' fs' c"
proof -
  have "hsize (um s') (fst c) = hsize (um s) (fst c)"
    by (rule hsize_cong, rule assms(2)) (use assms(1) in \<open>auto simp: used_def extent_def\<close>)
  then show ?thesis using assms(1,3,4) by (simp add: used_def)
qed

lemma owned_step:
  assumes own: "owned base s fs A" and B: "B \<subseteq> A" and keep: "keeps B s s'" and brk: "brk s \<le> brk s'"
    and apart: "\<And>c. c \<in> B \<Longrightarrow> extent c \<inter> bytes fs' = {}"
  shows "owned base s' fs' B"
proof -
  have "used base s' fs' c" if "c \<in> B" for c
    by (rule used_step [of base s fs]) (use own B keep brk apart that in \<open>auto simp: owned_def keeps_def\<close>)
  moreover have "\<forall>c \<in> B. \<forall>d \<in> B. c \<noteq> d \<longrightarrow> extent c \<inter> extent d = {}" using own B unfolding owned_def by blast
  ultimately show ?thesis by (simp add: owned_def)
qed

lemma owned_insert:
  assumes "owned base s fs A" "used base s fs b" "\<And>c. c \<in> A \<Longrightarrow> extent c \<inter> extent b = {}"
  shows "owned base s fs (insert b A)"
  using assms unfolding owned_def by (auto simp: Int_commute)

text \<open>One call of \<open>malloc\<close>: a fresh block, or nothing when the kernel refuses to grow the process.\<close>

lemma loop_owned:
  assumes heap: "heap base s fs" and own: "owned base s fs A" and nu: "0 < u" "u * 8 < 2 ^ 31"
  obtains p s' fs' where "malloc_loop ok u (freep s) (hptr (um s) (freep s)) s = Some (p, s')" "keeps A s s'"
    "p = 0 \<Longrightarrow> fst (sbrk ok (of_nat (max u 4096 * 8)) s) = None \<and> s' = s"
    "p \<noteq> 0 \<Longrightarrow> 8 \<le> p \<and> heap base s' fs' \<and> owned base s' fs' (insert (p - 8, u) A) \<and> (\<forall>c \<in> A. extent c \<inter> extent (p - 8, u) = {})"
    "\<exists>k \<ge> u. k \<in> snd ` set fs \<Longrightarrow> p \<noteq> 0 \<and> brk s' = brk s"
  using loop_ok [OF heap nu, of ok]
proof (elim disjE exE conjE)
  assume "fst (sbrk ok (of_nat (max u 4096 * 8)) s) = None" "malloc_loop ok u (freep s) (hptr (um s) (freep s)) s = Some (0, s)"
  then show thesis using that [of 0 s fs] loop_takes [OF heap _ nu(1), of ok] by (auto simp: keeps_def takes_def)
next
  fix s1 fs1 assume s1: "heap base s1 fs1" "brk s \<le> brk s1" "bytes fs1 = bytes fs \<union> {brk s..<brk s1}"
    "\<forall>x. x \<notin> {base..<base + 8} \<union> bytes fs1 \<longrightarrow> um s1 x = um s x" "(\<exists>k \<ge> u. k \<in> snd ` set fs) \<longrightarrow> s1 = s"
    "takes base s1 fs1 u (malloc_loop ok u (freep s) (hptr (um s) (freep s)) s)"
  from s1(6) obtain b s' fs' where b: "malloc_loop ok u (freep s) (hptr (um s) (freep s)) s = Some (b + 8, s')" "heap base s' fs'"
    "brk s' = brk s1" "bytes fs1 = bytes fs' \<union> extent (b, u)" "bytes fs' \<inter> extent (b, u) = {}" "hsize (um s') b = u"
    "\<forall>x. x \<notin> {base..<base + 8} \<union> bytes fs1 \<longrightarrow> um s' x = um s1 x" unfolding takes_def by blast
  have A: "x \<notin> bytes fs1" "x \<notin> {base..<base + 8}" if "c \<in> A" "x \<in> extent c" for c x
    using owned_bound [OF own that] s1(3) by auto
  have keep: "keeps A s s'" unfolding keeps_def using A b(7) s1(4) by (metis UnE)
  have own': "owned base s' fs' A" by (rule owned_step [OF own _ keep]) (use A(1) b(3,4) s1(2) in \<open>simp, simp, blast\<close>)
  have ap: "extent c \<inter> extent (b, u) = {}" if "c \<in> A" for c using A(1) [OF that] b(4) by blast
  have "b \<in> bytes fs1" "b + 8 * u - 1 \<in> bytes fs1" using b(4) nu(1) by (auto simp: extent_def)
  moreover have "bytes fs1 \<subseteq> {..<brk s1}" "spaced (base + 7) fs1" using s1(1) by (auto simp: heap_def ring_def)
  ultimately have "base + 7 < b" "b + 8 * u - 1 < brk s'" using bytes_bounds [of "base + 7" fs1 b] b(3) by auto
  then have "used base s' fs' (b, u)" using b(5,6) nu(1) by (auto simp: used_def)
  from owned_insert [OF own' this ap] have "owned base s' fs' (insert (b, u) A)" .
  then show thesis using that [of "b + 8" s' fs'] b keep ap s1(5) by auto
qed

text \<open>
  A program that calls \<open>malloc\<close> and \<open>free\<close>, grows the process itself and writes to the memory it was given.
  The set holds the blocks it has and has not given back.
\<close>

definition units :: "word32 \<Rightarrow> nat" where
  "units nbytes = (unat nbytes + 7) div 8 + 1"

inductive uses :: "(nat \<Rightarrow> nat \<Rightarrow> bool) \<Rightarrow> nat \<Rightarrow> umem \<Rightarrow> block set \<Rightarrow> bool" for ok base where
  u_start: "freep s = 0 \<Longrightarrow> 0 < base \<Longrightarrow> base + 8 \<le> brk s \<Longrightarrow> brk s < 2 ^ 31 \<Longrightarrow> uses ok base s {}"
| u_malloc: "uses ok base s A \<Longrightarrow> unat n + 15 < 2 ^ 31 \<Longrightarrow> malloc ok base n s = Some (p, s') \<Longrightarrow>
    uses ok base s' (if p = 0 then A else insert (p - 8, units n) A)"
| u_free: "uses ok base s A \<Longrightarrow> (h, n) \<in> A \<Longrightarrow> free (h + 8) s = Some s' \<Longrightarrow> uses ok base s' (A - {(h, n)})"
| u_write: "uses ok base s A \<Longrightarrow> (h, n) \<in> A \<Longrightarrow> h + 8 \<le> x \<Longrightarrow> x < h + 8 * n \<Longrightarrow> uses ok base (s\<lparr>um := (um s)(x := v)\<rparr>) A"
| u_sbrk: "uses ok base s A \<Longrightarrow> 0 \<le> sint n \<Longrightarrow> uses ok base (snd (sbrk ok n s)) A"

definition uinv :: "nat \<Rightarrow> umem \<Rightarrow> block set \<Rightarrow> bool" where
  "uinv base s A \<longleftrightarrow> (freep s = 0 \<and> A = {} \<and> 0 < base \<and> base + 8 \<le> brk s \<and> brk s < 2 ^ 31) \<or>
     (\<exists>fs. heap base s fs \<and> owned base s fs A)"

lemma heap_freep: "heap base s fs \<Longrightarrow> freep s \<noteq> 0"
  by (fastforce simp: heap_def ring_def dest: spaced_mem)

lemma heap_start:
  assumes "0 < base" "base + 8 \<le> brk s" "brk s < 2 ^ 31"
  shows "heap base (s\<lparr>um := put_size base 0 (put_ptr base base (um s)), freep := base\<rparr>) []"
  using assms by (simp add: heap_def ring_def hsize_put_size hptr_put_size hptr_put_ptr)

lemma malloc_uinv:
  assumes inv: "uinv base s A" and n: "unat n + 15 < 2 ^ 31"
  obtains p s' where "malloc ok base n s = Some (p, s')" "keeps A s s'"
    "p = 0 \<Longrightarrow> fst (sbrk ok (of_nat (max (units n) 4096 * 8)) s) = None \<and> uinv base s' A"
    "p \<noteq> 0 \<Longrightarrow> 8 \<le> p \<and> uinv base s' (insert (p - 8, units n) A) \<and> (\<forall>c \<in> A. extent c \<inter> extent (p - 8, units n) = {})"
proof -
  define s0 where "s0 = (if freep s = 0 then s\<lparr>um := put_size base 0 (put_ptr base base (um s)), freep := base\<rparr> else s)"
  obtain fs where s0: "heap base s0 fs" "owned base s0 fs A" "keeps A s s0"
    using inv heap_start [of base s] heap_freep unfolding uinv_def s0_def by (fastforce simp: owned_def keeps_def)
  have "unat ((n + 8 - 1) div 8 + 1) = units n" unfolding units_def by (rule nunits_ok [OF n])
  then have m: "malloc ok base n s = malloc_loop ok (units n) (freep s0) (hptr (um s0) (freep s0)) s0"
    unfolding malloc_def Let_def s0_def [symmetric] by simp
  have u: "0 < units n" "units n * 8 < 2 ^ 31" using n by (auto simp: units_def)
  have k: "keeps A s s'" if "keeps A s0 s'" for s' using that s0(3) by (simp add: keeps_def)
  have b: "fst (sbrk ok x s0) = fst (sbrk ok x s)" for x by (simp add: s0_def sbrk_def Let_def)
  show ?thesis
    by (rule loop_owned [OF s0(1,2) u, of ok], rule that) (use m k b s0(1,2) in \<open>auto simp: uinv_def\<close>)
qed

lemma malloc_fits:
  assumes "heap base s fs" "unat n + 15 < 2 ^ 31" "\<exists>k \<ge> units n. k \<in> snd ` set fs"
  shows "\<exists>p s'. malloc ok base n s = Some (p, s') \<and> p \<noteq> 0 \<and> brk s' = brk s"
proof -
  have "malloc ok base n s = malloc_loop ok (units n) (freep s) (hptr (um s) (freep s)) s"
    using heap_freep [OF assms(1)] nunits_ok [OF assms(2)] by (simp add: malloc_def units_def Let_def)
  moreover have "0 < units n" by (simp add: units_def)
  ultimately show ?thesis using loop_takes [OF assms(1,3), of ok] by (auto simp: takes_def)
qed

lemma free_uinv:
  assumes inv: "uinv base s A" and h: "(h, n) \<in> A"
  obtains s' fs' where "free (h + 8) s = Some s'" "keeps (A - {(h, n)}) s s'" "brk s' = brk s" "heap base s' fs'"
    "owned base s' fs' (A - {(h, n)})" "\<exists>k \<ge> n. k \<in> snd ` set fs'"
proof -
  obtain fs where fs: "heap base s fs" "owned base s fs A" using inv h by (auto simp: uinv_def)
  have H: "ring base (um s) (freep s) fs" "bytes fs \<subseteq> {..<brk s}" "brk s < 2 ^ 32" using fs(1) by (auto simp: heap_def)
  have U: "used base s fs (h, n)" using fs(2) h by (simp add: owned_def)
  then have u: "hsize (um s) h = n" "0 < n" "base + 8 \<le> h" "extent (h, n) \<inter> bytes fs = {}" "h + 8 * n \<le> brk s"
    by (auto simp: used_def)
  obtain s' fs' where F: "free (h + 8) s = Some s'" "ring base (um s') (freep s') fs'" "bytes fs' = bytes fs \<union> extent (h, n)"
    "\<exists>k \<ge> n. k \<in> snd ` set fs'" "brk s' = brk s" "\<And>x. x \<notin> {base..<base + 8} \<union> bytes fs' \<Longrightarrow> um s' x = um s x"
    using free_ok [OF H(1) u(1-4) u(5) H(2,3)] by metis
  let ?B = "A - {(h, n)}"
  have ap: "extent c \<inter> bytes fs' = {}" if "c \<in> ?B" for c
    using fs(2) that h unfolding F(3) owned_def used_def by blast
  have keep: "keeps ?B s s'" unfolding keeps_def
  proof (intro ballI)
    fix c x assume c: "c \<in> ?B" "x \<in> extent c"
    then have "x \<notin> {base..<base + 8}" using owned_bound(2) [OF fs(2), of c x] by auto
    then show "um s' x = um s x" using ap [OF c(1)] c(2) by (intro F(6)) blast
  qed
  have "owned base s' fs' ?B" by (rule owned_step [OF fs(2) _ keep]) (use ap F(5) in auto)
  moreover have "heap base s' fs'" using fs(1) F(2,3,5) u(5) by (auto simp: heap_def extent_def)
  ultimately show ?thesis using that F(1,4,5) keep by blast
qed

lemma write_uinv:
  assumes inv: "uinv base s A" and h: "(h, n) \<in> A" "h + 8 \<le> x" "x < h + 8 * n"
  shows "uinv base (s\<lparr>um := (um s)(x := v)\<rparr>) A"
proof -
  let ?s = "s\<lparr>um := (um s)(x := v)\<rparr>"
  obtain fs where fs: "heap base s fs" "owned base s fs A" using inv h(1) by (auto simp: uinv_def)
  have x: "x \<in> extent (h, n)" using h by (simp add: extent_def)
  note bx = owned_bound [OF fs(2) h(1) x]
  have R: "hsize (um s) base = 0" "path (um s) base fs base" "spaced (base + 7) fs"
    using fs(1) by (auto simp: heap_def ring_def)
  have "path (um ?s) base fs base"
    by (rule path_frame [OF R(2)]) (use bx header_bytes [OF R(3)] in \<open>auto\<close>)
  moreover have "hsize (um ?s) base = 0" using R(1) bx(2) hsize_cong [of base "um ?s" "um s"] by simp
  ultimately have heap: "heap base ?s fs" using fs(1) by (simp add: heap_def ring_def)
  have "used base ?s fs c" if c: "c \<in> A" for c
  proof -
    have u: "used base s fs c" using fs(2) c by (simp add: owned_def)
    have "\<not> (fst c \<le> x \<and> x < fst c + 8)"
    proof (cases "c = (h, n)")
      case False
      then have "x \<notin> extent c" using fs(2) c h(1) x unfolding owned_def by blast
      then show ?thesis using u by (auto simp: used_def extent_def)
    qed (use h(2) in simp)
    then have "hsize (um ?s) (fst c) = hsize (um s) (fst c)" by (intro hsize_cong) auto
    then show ?thesis using u by (simp add: used_def)
  qed
  then show ?thesis using heap fs(2) unfolding uinv_def owned_def by auto
qed

lemma sbrk_uinv:
  assumes inv: "uinv base s A" and n: "0 \<le> sint n"
  shows "uinv base (snd (sbrk ok n s)) A"
proof -
  have b: "brk s < 2 ^ 31" using inv by (auto simp: uinv_def heap_def)
  have "uint n = sint n"
    using n sint_less [of n] by (simp add: uint_sint take_bit_int_eq_self)
  then have n': "unat n < 2 ^ 31" using sint_less [of n] by (simp flip: nat_uint_eq)
  have le: "brk s \<le> brk (snd (sbrk ok n s))" "brk (snd (sbrk ok n s)) < 2 ^ 31" "um (snd (sbrk ok n s)) = um s"
      "freep (snd (sbrk ok n s)) = freep s"
    using b n n' by (auto simp: sbrk_def Let_def)
  have "owned base (snd (sbrk ok n s)) fs A" if "owned base s fs A" for fs
    by (rule owned_step [OF that]) (use le that in \<open>auto simp: keeps_def owned_def used_def\<close>)
  moreover have "heap base (snd (sbrk ok n s)) fs" if "heap base s fs" for fs using that le by (auto simp: heap_def)
  ultimately show ?thesis using inv le unfolding uinv_def by auto
qed

lemma uses_uinv: "uses ok base s A \<Longrightarrow> uinv base s A"
proof (induction rule: uses.induct)
  case (u_malloc s A n p s')
  obtain q t where "malloc ok base n s = Some (q, t)" "q = 0 \<Longrightarrow> uinv base t A" "q \<noteq> 0 \<Longrightarrow> uinv base t (insert (q - 8, units n) A)"
    by (rule malloc_uinv [OF u_malloc.IH u_malloc.hyps(2), of ok]) blast
  then show ?case using u_malloc.hyps(3) by auto
next
  case (u_free s A h n s')
  obtain s1 fs' where "free (h + 8) s = Some s1" "heap base s1 fs'" "owned base s1 fs' (A - {(h, n)})"
    using free_uinv [OF u_free.IH u_free.hyps(2)] by metis
  then show ?case using u_free.hyps(3) by (auto simp: uinv_def)
qed (auto simp: uinv_def [of base _ "{}"] intro: write_uinv sbrk_uinv)

text \<open>C14: the heap of user programs.  Take a program that only asks \<open>malloc\<close> for less than 2 GB (15 bytes less, exactly), frees what
  it has, writes into the blocks it has and grows but never shrinks its memory by calling \<open>sbrk\<close> itself.  Whatever sequence of such
  calls it has made, a call of \<open>malloc\<close> returns; it returns 0 only when the kernel refuses to grow the process,
  and otherwise a block of at least the size asked for inside the process, apart from every block in use.
  \<open>free\<close> of a block in use returns too.  Neither changes a byte of the other blocks in use, and after
  \<open>free\<close> a request that the freed block can hold is met without more memory.  (Larger requests are not safe: see \<open>huge_request\<close>.)\<close>

theorem malloc_free:
  assumes "uses ok base s A" and "unat n + 15 < 2 ^ 31"
  shows "(\<exists>p s'. malloc ok base n s = Some (p, s') \<and> keeps A s s' \<and>
        (if p = 0 then fst (sbrk ok (of_nat (max (units n) 4096 * 8)) s) = None
         else base + 16 \<le> p \<and> p + unat n \<le> brk s' \<and> (\<forall>c \<in> A. extent c \<inter> {p - 8..<p + unat n} = {}))) \<and>
    (\<forall>(h, k) \<in> A. \<exists>s'. free (h + 8) s = Some s' \<and> keeps (A - {(h, k)}) s s' \<and>
        (units n \<le> k \<longrightarrow> (\<exists>p s''. malloc ok base n s' = Some (p, s'') \<and> p \<noteq> 0 \<and> brk s'' = brk s)))"
proof (intro conjI ballI, unfold split_paired_all, unfold prod.case)
  note inv = uses_uinv [OF assms(1)]
  obtain p s' where m: "malloc ok base n s = Some (p, s')" "keeps A s s'"
    "p = 0 \<Longrightarrow> fst (sbrk ok (of_nat (max (units n) 4096 * 8)) s) = None"
    "p \<noteq> 0 \<Longrightarrow> 8 \<le> p \<and> uinv base s' (insert (p - 8, units n) A) \<and> (\<forall>c \<in> A. extent c \<inter> extent (p - 8, units n) = {})"
    by (rule malloc_uinv [OF inv assms(2), of ok]) blast
  have u: "unat n + 8 \<le> 8 * units n" unfolding units_def by presburger
  have "base + 16 \<le> p \<and> p + unat n \<le> brk s' \<and> (\<forall>c \<in> A. extent c \<inter> {p - 8..<p + unat n} = {})" if "p \<noteq> 0"
  proof -
    note m4 = m(4) [OF that]
    obtain fs where "used base s' fs (p - 8, units n)" using m4 by (auto simp: uinv_def owned_def)
    moreover have "{p - 8..<p + unat n} \<subseteq> extent (p - 8, units n)" using u m4 by (auto simp: extent_def)
    ultimately show ?thesis using u m4 by (fastforce simp: used_def)
  qed
  then show "\<exists>p s'. malloc ok base n s = Some (p, s') \<and> keeps A s s' \<and>
        (if p = 0 then fst (sbrk ok (of_nat (max (units n) 4096 * 8)) s) = None
         else base + 16 \<le> p \<and> p + unat n \<le> brk s' \<and> (\<forall>c \<in> A. extent c \<inter> {p - 8..<p + unat n} = {}))"
    using m(1-3) by auto
  fix h k assume "(h, k) \<in> A"
  from free_uinv [OF inv this] obtain t fs where f: "free (h + 8) s = Some t" "keeps (A - {(h, k)}) s t" "brk t = brk s" "heap base t fs"
    "\<exists>i \<ge> k. i \<in> snd ` set fs" by metis
  have "\<exists>p s''. malloc ok base n t = Some (p, s'') \<and> p \<noteq> 0 \<and> brk s'' = brk s" if "units n \<le> k"
    using malloc_fits [OF f(4) assms(2), of ok] f(3,5) that by (metis order_trans)
  then show "\<exists>s'. free (h + 8) s = Some s' \<and> keeps (A - {(h, k)}) s s' \<and>
        (units n \<le> k \<longrightarrow> (\<exists>p s''. malloc ok base n s' = Some (p, s'') \<and> p \<noteq> 0 \<and> brk s'' = brk s))"
    using f(1,2) by blast
qed

text \<open>A first call for ten bytes in a process of 16 KB; the block is given back and used again.\<close>

definition demo_heap :: umem where
  "demo_heap = \<lparr>um = (\<lambda>_. 0), freep = 0, brk = 0x4000\<rparr>"

theorem malloc_free_witness:
  "\<exists>p s s'. malloc (\<lambda>_ _. True) 0x1000 10 demo_heap = Some (p, s) \<and> p + 10 \<le> brk s \<and> free p s = Some s' \<and>
     (\<exists>q s''. malloc (\<lambda>_ _. True) 0x1000 16 s' = Some (q, s'') \<and> q \<noteq> 0 \<and> brk s'' = brk s)"
proof -
  have start: "uses (\<lambda>_ _. True) 0x1000 demo_heap {}" by (rule u_start) (simp_all add: demo_heap_def)
  have "fst (sbrk (\<lambda>_ _. True) (of_nat (max (units 10) 4096 * 8)) demo_heap) \<noteq> None"
    by (subst sbrk_grow) (simp_all add: demo_heap_def units_def)
  with malloc_free [OF start, of 10] obtain p s where p: "malloc (\<lambda>_ _. True) 0x1000 10 demo_heap = Some (p, s)"
    "0x1000 + 16 \<le> p" "p + 10 \<le> brk s" by (auto split: if_splits)
  have "uses (\<lambda>_ _. True) 0x1000 s {(p - 8, units 10)}" using u_malloc [OF start _ p(1)] p(2) by simp
  from malloc_free [OF this, of 16] p show ?thesis by (fastforce simp: units_def)
qed

text \<open>A request for 2 GB, \<open>0x10000001\<close> units, makes \<open>morecore\<close> ask \<open>sbrk\<close> for a negative number of bytes.  The call succeeds without
  growing the process, and the new block, with its header, begins where the process ends.\<close>

lemma huge_request:
  assumes "0 < brk s" and "brk s < 2 ^ 31 - 8"
  shows "unat ((0x80000000 + 8 - 1) div 8 + 1 :: word32) = 0x10000001" "sbrk ok (of_nat (0x10000001 * 8)) s = (Some (brk s), s)"
    "morecore ok 0x10000001 s =
       (case free (brk s + 8) (s\<lparr>um := put_size (brk s) 0x10000001 (um s)\<rparr>) of None \<Rightarrow> None | Some s \<Rightarrow> Some (freep s, s))"
proof -
  show "unat ((0x80000000 + 8 - 1) div 8 + 1 :: word32) = 0x10000001" by simp
  have "u32 (brk s + 0x80000008) = brk s + 0x80000008" using assms(2) by (intro u32_id) simp
  moreover have "sint (0x80000008 :: word32) < 0" by simp
  ultimately show "sbrk ok (of_nat (0x10000001 * 8)) s = (Some (brk s), s)" using assms(1) by (simp add: sbrk_def Let_def)
  then show "morecore ok 0x10000001 s =
       (case free (brk s + 8) (s\<lparr>um := put_size (brk s) 0x10000001 (um s)\<rparr>) of None \<Rightarrow> None | Some s \<Rightarrow> Some (freep s, s))"
    by (simp add: morecore_def Let_def)
qed

text \<open>The size is computed with wrap-around: a request close to the whole address space is served as if for 0 bytes.\<close>

lemma malloc_wraps: "2 ^ 32 - 7 \<le> unat n \<Longrightarrow> malloc ok base n s = malloc ok base 0 s"
proof -
  assume n: "2 ^ 32 - 7 \<le> unat n"
  have "unat n < 2 ^ 32" using unsigned_less [of n] by simp
  then have "unat (7 + n) < 8" using n by (simp add: unat_word_ariths mod_if) linarith
  then have "(7 + n) div 8 = 0" by (simp add: div_word_less word_less_nat_alt)
  then show ?thesis by (simp add: malloc_def)
qed

end
