(* ===== verification/Printfmt.thy ===== *)
theory Printfmt
  imports Digits
begin

text \<open>
  \<^verbatim>\<open>src/gate/lib/printfmt.c\<close> and \<open>strtol\<close> of \<^verbatim>\<open>src/gate/lib/string.c\<close>, compiled for x86-64: an \<open>int\<close> has 32 bits, a \<open>long\<close>,
  a \<open>long long\<close> and a pointer 64.  A format and a string are the lists of their characters up to the terminator;
  what a function passes to \<open>putch\<close>, in order, is a list of characters.  The variable arguments are a list; \<open>None\<close>
  is a call whose arguments do not fit the format, or one that reads outside the table of the error names.  Widths and counters
  are of type \<open>int\<close> and wrap around.
\<close>

section \<open>Arguments and numbers\<close>

datatype varg = AInt word32 | ALong "64 word" | AStr "byte list option"

fun va_int :: "varg list \<Rightarrow> (word32 \<times> varg list) option" where
  "va_int (AInt w # ap) = Some (w, ap)"
| "va_int _ = None"

fun va_long :: "varg list \<Rightarrow> (64 word \<times> varg list) option" where
  "va_long (ALong w # ap) = Some (w, ap)"
| "va_long _ = None"

fun va_str :: "varg list \<Rightarrow> (byte list option \<times> varg list) option" where
  "va_str (AStr p # ap) = Some (p, ap)"
| "va_str _ = None"

definition getuint :: "nat \<Rightarrow> varg list \<Rightarrow> (64 word \<times> varg list) option" where
  "getuint lflag ap = (if 1 \<le> lflag then va_long ap else map_option (\<lambda>(w, ap). (ucast w, ap)) (va_int ap))"

definition getint :: "nat \<Rightarrow> varg list \<Rightarrow> (64 word \<times> varg list) option" where
  "getint lflag ap = (if 1 \<le> lflag then va_long ap else map_option (\<lambda>(w, ap). (scast w, ap)) (va_int ap))"

text \<open>The bases in use are 10 and 16; with a base below 2 the recursion would not end.\<close>

function printnum :: "nat \<Rightarrow> nat \<Rightarrow> int \<Rightarrow> byte \<Rightarrow> byte list" where
  "printnum num base width padc =
     (if base \<le> num \<and> 2 \<le> base then printnum (num div base) base (i32 (width - 1)) padc
      else replicate (nat (i32 (width - 1))) padc) @ [digit_lower (num mod base)]"
  by pat_completeness auto
termination
  by (relation "measure (\<lambda>(num, base, width, padc). num)") auto

declare printnum.simps [simp del]

section \<open>Formatting\<close>

record spec =
  padc :: byte
  width :: int
  precision :: int
  lflag :: nat
  altflag :: bool

definition spec0 :: spec where
  "spec0 = \<lparr>padc = 32, width = -1, precision = -1, lflag = 0, altflag = False\<rparr>"

definition process_precision :: "spec \<Rightarrow> spec" where
  "process_precision sp = (if width sp < 0 then sp\<lparr>width := precision sp, precision := -1\<rparr> else sp)"

fun error_string :: "nat \<Rightarrow> string option" where
  "error_string n =
     (if n = 1 then Some ''unspecified error'' else if n = 2 then Some ''bad environment''
      else if n = 3 then Some ''invalid parameter'' else if n = 4 then Some ''out of memory''
      else if n = 5 then Some ''out of environments'' else if n = 6 then Some ''segmentation fault'' else None)"

definition chars :: "string \<Rightarrow> byte list" where
  "chars s = map (\<lambda>c. of_nat (of_char c)) s"

text \<open>\<open>%d\<close>: the sign first, then the padding and the digits.\<close>

definition signed_number :: "spec \<Rightarrow> 64 word \<Rightarrow> byte list" where
  "signed_number sp num =
     (if sint num < 0 then 45 # printnum (unat (- num)) 10 (width sp) (padc sp)
      else printnum (unat num) 10 (width sp) (padc sp))"

definition strnlen :: "byte list \<Rightarrow> int \<Rightarrow> nat" where
  "strnlen p n = (if n < 0 then length p else min (nat n) (length p))"

definition put_string :: "spec \<Rightarrow> byte list \<Rightarrow> byte list" where
  "put_string sp p =
     (let left = 0 < width sp \<and> padc sp \<noteq> 45;
          w = (if left then i32 (width sp - int (strnlen p (precision sp))) else width sp);
          pad = (if left then replicate (nat w) (padc sp) else []);
          w = (if left then min w 0 else w);
          body = (if precision sp < 0 then p else take (nat (precision sp)) p);
          w = i32 (w - int (length body))
      in pad @ map (\<lambda>c. if altflag sp \<and> (c < 32 \<or> 126 < c) then 63 else c) body @ replicate (nat w) 32)"

text \<open>
  \<open>%e\<close> calls \<open>printfmt\<close> with the format \<open>error %d\<close> or \<open>%s\<close>.  The smallest integer is its own negation: the table is then
  read outside its bounds, which the model answers with \<open>None\<close>.
\<close>

definition put_error :: "word32 \<Rightarrow> byte list option" where
  "put_error err =
     (let err = (if sint err < 0 then - err else err) in
      if sint err < 0 then None
      else case (if sint err \<ge> 7 then None else error_string (unat err)) of
        None \<Rightarrow> Some (chars ''error '' @ signed_number spec0 (scast err))
      | Some p \<Rightarrow> Some (put_string spec0 (chars p)))"

abbreviation isdigit :: "byte \<Rightarrow> bool" where
  "isdigit c \<equiv> 48 \<le> c \<and> c \<le> 57"

definition decimal :: "byte list \<Rightarrow> int" where
  "decimal ds = foldl (\<lambda>v c. i32 (v * 10 + int (unat c) - 48)) 0 ds"

text \<open>
  What follows a percent sign: the output, the rest of the format and of the arguments.  No rest of the format
  means that the sequence is not recognised: its characters are printed as they are.
\<close>

function escape :: "spec \<Rightarrow> byte list \<Rightarrow> varg list \<Rightarrow> (byte list \<times> byte list option \<times> varg list) option" where
  "escape sp [] ap = Some ([37], None, ap)"
| "escape sp (ch # fmt) ap =
     (if ch = 45 then escape (sp\<lparr>padc := 45\<rparr>) fmt ap
      else if ch = 48 then escape (sp\<lparr>padc := 48\<rparr>) fmt ap
      else if isdigit ch then
        escape (process_precision (sp\<lparr>precision := decimal (ch # takeWhile isdigit fmt)\<rparr>)) (dropWhile isdigit fmt) ap
      else if ch = 42 then
        Option.bind (va_int ap) (\<lambda>(w, ap). escape (process_precision (sp\<lparr>precision := sint w\<rparr>)) fmt ap)
      else if ch = 46 then escape (if width sp < 0 then sp\<lparr>width := 0\<rparr> else sp) fmt ap
      else if ch = 35 then escape (sp\<lparr>altflag := True\<rparr>) fmt ap
      else if ch = 108 then escape (sp\<lparr>lflag := lflag sp + 1\<rparr>) fmt ap
      else if ch = 99 then Option.bind (va_int ap) (\<lambda>(w, ap). Some ([ucast w], Some fmt, ap))
      else if ch = 101 then Option.bind (va_int ap) (\<lambda>(w, ap). map_option (\<lambda>out. (out, Some fmt, ap)) (put_error w))
      else if ch = 115 then
        Option.bind (va_str ap) (\<lambda>(p, ap). Some (put_string sp (case p of None \<Rightarrow> chars ''(null)'' | Some p \<Rightarrow> p), Some fmt, ap))
      else if ch = 100 then Option.bind (getint (lflag sp) ap) (\<lambda>(num, ap). Some (signed_number sp num, Some fmt, ap))
      else if ch = 117 then
        Option.bind (getuint (lflag sp) ap) (\<lambda>(num, ap). Some (printnum (unat num) 10 (width sp) (padc sp), Some fmt, ap))
      else if ch = 111 then Some ([88, 88, 88], Some fmt, ap)
      else if ch = 112 then
        Option.bind (va_long ap) (\<lambda>(num, ap). Some ([48, 120] @ printnum (unat num) 16 (width sp) (padc sp), Some fmt, ap))
      else if ch = 120 then
        Option.bind (getuint (lflag sp) ap) (\<lambda>(num, ap). Some (printnum (unat num) 16 (width sp) (padc sp), Some fmt, ap))
      else if ch = 37 then Some ([ch], Some fmt, ap)
      else Some ([37], None, ap))"
  by pat_completeness auto
termination
  by (relation "measure (\<lambda>(sp, fmt, ap). length fmt)") (auto intro: le_less_trans [OF length_dropWhile_le])

lemma escape_shorter: "escape sp fmt ap = Some (out, Some rest, ap') \<Longrightarrow> length rest < length fmt"
proof (induction sp fmt ap rule: escape.induct)
  case (2 sp ch fmt ap)
  have d: "length rest < length (dropWhile isdigit fmt) \<Longrightarrow> length rest < length (ch # fmt)"
    using length_dropWhile_le [of isdigit fmt] by simp
  from 2 d show ?case by (auto simp: bind_eq_Some_conv split: if_splits intro: less_SucI)
qed simp

function vprintfmt :: "byte list \<Rightarrow> varg list \<Rightarrow> byte list option" where
  "vprintfmt [] ap = Some []"
| "vprintfmt (ch # fmt) ap =
     (if ch \<noteq> 37 then map_option (\<lambda>out. ch # out) (vprintfmt fmt ap)
      else case escape spec0 fmt ap of
        None \<Rightarrow> None
      | Some (out, rest, ap) \<Rightarrow> map_option (\<lambda>out'. out @ out') (vprintfmt (case rest of None \<Rightarrow> fmt | Some r \<Rightarrow> r) ap))"
  by pat_completeness auto
termination
  by (relation "measure (\<lambda>(fmt, ap). length fmt)") (auto dest: escape_shorter split: option.splits)

section \<open>Printing into a buffer\<close>

record sprintbuf =
  buf :: nat
  ebuf :: nat
  cnt :: int

definition sprintputch :: "byte \<Rightarrow> sprintbuf \<times> mem \<Rightarrow> sprintbuf \<times> mem" where
  "sprintputch ch = (\<lambda>(b, m).
     let b = b\<lparr>cnt := i32 (cnt b + 1)\<rparr> in
     if buf b < ebuf b then (b\<lparr>buf := buf b + 1\<rparr>, m(buf b := ch)) else (b, m))"

abbreviation E_INVAL :: int where "E_INVAL \<equiv> 3"

definition vsnprintf :: "nat \<Rightarrow> int \<Rightarrow> byte list \<Rightarrow> varg list \<Rightarrow> mem \<Rightarrow> (int \<times> mem) option" where
  "vsnprintf bf n fmt ap m =
     (let b = \<lparr>buf = bf, ebuf = nat (int bf + n - 1), cnt = 0\<rparr> in
      if bf = 0 \<or> n < 1 then Some (- E_INVAL, m)
      else map_option (\<lambda>out. let (b, m) = fold sprintputch out (b, m) in (cnt b, m(buf b := 0))) (vprintfmt fmt ap))"

section \<open>Reading a number\<close>

definition dig :: "byte \<Rightarrow> nat option" where
  "dig c = (if 48 \<le> c \<and> c \<le> 57 then Some (unat c - 48)
     else if 97 \<le> c \<and> c \<le> 122 then Some (unat c - 97 + 10)
     else if 65 \<le> c \<and> c \<le> 90 then Some (unat c - 65 + 10) else None)"

fun strtol_digits :: "nat \<Rightarrow> 64 word \<Rightarrow> byte list \<Rightarrow> 64 word \<times> byte list" where
  "strtol_digits base val [] = (val, [])"
| "strtol_digits base val (c # s) =
     (case dig c of None \<Rightarrow> (val, c # s)
      | Some d \<Rightarrow> if base \<le> d then (val, c # s) else strtol_digits base (val * of_nat base + of_nat d) s)"

text \<open>The value, and what \<open>endptr\<close> points to.\<close>

definition strtol :: "byte list \<Rightarrow> nat \<Rightarrow> int \<times> byte list" where
  "strtol s base =
     (let s = dropWhile (\<lambda>c. c = 32 \<or> c = 9) s;
          (neg, s) = (case s of c # r \<Rightarrow> if c = 43 then (False, r) else if c = 45 then (True, r) else (False, s) | [] \<Rightarrow> (False, s));
          (base, s) =
            (if (base = 0 \<or> base = 16) \<and> take 2 s = [48, 120] then (16, drop 2 s)
             else if base = 0 \<and> take 1 s = [48] then (8, drop 1 s)
             else if base = 0 then (10, s) else (base, s));
          (val, s) = strtol_digits base 0 s
      in (sint (if neg then - val else val), s))"

section \<open>Numbers that are printed\<close>

abbreviation digits :: "nat \<Rightarrow> nat \<Rightarrow> byte list" where
  "digits base num \<equiv> map digit_lower (rev (rev_digits base num))"

lemma digits_rec:
  assumes "2 \<le> base"
  shows "digits base num = (if base \<le> num then digits base (num div base) else []) @ [digit_lower (num mod base)]"
proof -
  have "num div base = 0 \<longleftrightarrow> \<not> base \<le> num" using assms by (auto simp: div_eq_0_iff)
  then show ?thesis using assms by (subst rev_digits.simps) auto
qed

text \<open>Whatever the width, the digits have some padding in front; with none asked for, or one that is used up, there is none.\<close>

lemma printnum_pads: "2 \<le> base \<Longrightarrow> \<exists>n. \<forall>c. printnum num base w c = replicate n c @ digits base num"
proof (induction num arbitrary: w rule: less_induct)
  case (less num)
  show ?case
  proof (cases "base \<le> num")
    case True
    then have "num div base < num" using less.prems by simp
    from less.IH [OF this less.prems, of "i32 (w - 1)"] True less.prems show ?thesis
      by (subst printnum.simps) (simp add: digits_rec [of base num])
  next
    case False
    then show ?thesis using less.prems by (subst printnum.simps) (auto simp: digits_rec [of base num])
  qed
qed

lemma printnum_plain:
  "2 \<le> base \<Longrightarrow> num < 2 ^ k \<Longrightarrow> int k - 2 ^ 31 < w \<Longrightarrow> w \<le> 1 \<Longrightarrow> printnum num base w c = digits base num"
proof (induction k arbitrary: num w)
  case 0
  then have "i32 (w - 1) = w - 1" by (intro i32_id) auto
  then show ?case using 0 by (subst printnum.simps) (auto simp: digits_rec [of base 0])
next
  case (Suc k)
  have w: "i32 (w - 1) = w - 1" using Suc.prems by (intro i32_id) auto
  show ?case
  proof (cases "base \<le> num")
    case True
    have "num div base \<le> num div 2" using Suc.prems(1) by (intro div_le_mono2) auto
    also have "\<dots> < 2 ^ k" using Suc.prems(2) by (simp add: div_less_iff_less_mult)
    finally have "printnum (num div base) base (w - 1) c = digits base (num div base)" using Suc.prems by (intro Suc.IH) auto
    then show ?thesis using True Suc.prems(1) w by (subst printnum.simps) (simp add: digits_rec [of base num])
  next
    case False
    then show ?thesis using Suc.prems(1,4) w by (subst printnum.simps) (simp add: digits_rec [of base num])
  qed
qed

section \<open>Numbers that are read back\<close>

lemma dig_lower: "d < 16 \<Longrightarrow> dig (digit_lower d) = Some d"
  by (auto simp: dig_def digit_lower_def word_le_nat_alt unat_of_nat)

lemma strtol_digits_ok:
  assumes "\<forall>d \<in> set ds. d < base" "base \<le> 16" "rest = [] \<or> dig (hd rest) = None \<or> base \<le> the (dig (hd rest))"
  shows "strtol_digits base v (map digit_lower ds @ rest) = (v * of_nat base ^ length ds + of_nat (horner base ds), rest)"
  using assms(1)
proof (induction ds arbitrary: v)
  case Nil
  then show ?case using assms(3) by (cases rest) (auto split: option.splits)
next
  case (Cons d ds)
  have h: "horner base (d # ds) = d * base ^ length ds + horner base ds"
  proof (induction ds rule: rev_induct)
    case (snoc x xs)
    have "horner base (d # xs @ [x]) = horner base (d # xs) * base + x" using horner_snoc [of base "d # xs" x] by simp
    then show ?case using snoc by (simp add: algebra_simps)
  qed (simp add: horner_def)
  have "d < base" using Cons.prems by simp
  then have "strtol_digits base v (map digit_lower (d # ds) @ rest) = strtol_digits base (v * of_nat base + of_nat d) (map digit_lower ds @ rest)"
    using assms(2) by (simp add: dig_lower)
  also have "\<dots> = ((v * of_nat base + of_nat d) * of_nat base ^ length ds + of_nat (horner base ds), rest)"
    using Cons by simp
  finally show ?case by (simp add: h algebra_simps)
qed

text \<open>Zeros in front do not change the number.\<close>

lemma strtol_digits_zeros: "2 \<le> base \<Longrightarrow> strtol_digits base 0 (replicate n 48 @ s) = strtol_digits base 0 s"
  by (induction n) (auto simp: dig_def)

definition ends :: "nat \<Rightarrow> byte list \<Rightarrow> bool" where
  "ends base rest \<longleftrightarrow> rest = [] \<or> dig (hd rest) = None \<or> base \<le> the (dig (hd rest))"

lemma strtol_printnum:
  assumes "2 \<le> base" "base \<le> 16" "num < 2 ^ 64" "ends base rest"
  shows "strtol_digits base 0 (printnum num base w 48 @ rest) = (of_nat num, rest)"
proof -
  have "\<forall>d \<in> set (rev (rev_digits base num)). d < base" using rev_digits_range [OF assms(1)] by auto
  from strtol_digits_ok [OF this assms(2), of rest 0] rev_digits_value [OF assms(1), of num] assms(4)
  have "strtol_digits base 0 (digits base num @ rest) = (of_nat num, rest)" unfolding ends_def by simp
  with printnum_pads [OF assms(1), of num w] show ?thesis by (auto simp: strtol_digits_zeros assms(1))
qed

lemma digits_head:
  assumes "2 \<le> base" "base \<le> 16"
  obtains d ds where "map digit_lower (rev (rev_digits base num)) = digit_lower d # ds" "d < 16"
proof -
  have "rev_digits base num \<noteq> []" by (subst rev_digits.simps) simp
  then obtain d ds where r: "rev (rev_digits base num) = d # ds" by (cases "rev (rev_digits base num)") auto
  then have "d \<in> set (rev (rev_digits base num))" by simp
  then have "d < 16" using rev_digits_range [OF assms(1)] assms(2) by fastforce
  then show ?thesis using that [of d "map digit_lower ds"] r by simp
qed

lemma lower_plain: "d < 16 \<Longrightarrow> digit_lower d \<notin> {32, 9, 43, 45, 120}"
proof -
  assume d: "d < 16"
  have "unat (digit_lower d) = (if d < 10 then 48 + d else 87 + d)" using d by (simp add: digit_lower_def unat_of_nat)
  then have "unat (digit_lower d) \<notin> {32, 9, 43, 45, 120}" using d by auto
  then show ?thesis by auto
qed

lemma printnum_head:
  assumes "2 \<le> base" "base \<le> 16"
  obtains x xs where "printnum num base w 48 = x # xs" "x \<notin> {32, 9, 43, 45, 120}"
proof -
  obtain n where n: "printnum num base w 48 = replicate n 48 @ digits base num" using printnum_pads [OF assms(1)] by blast
  show thesis
  proof (cases n)
    case 0
    obtain d ds where "digits base num = digit_lower d # ds" "d < 16" by (rule digits_head [OF assms])
    then show ?thesis using that [of "digit_lower d" ds] lower_plain n 0 by simp
  next
    case (Suc k)
    then show ?thesis using that [of 48] n by simp
  qed
qed

lemma pad_blank:
  assumes "2 \<le> base" "num < 2 ^ 64"
  obtains n where "printnum num base w 32 = replicate n 32 @ printnum num base (-1) 48"
  using that printnum_pads [OF assms(1), of num w] printnum_plain [OF assms, of "-1" 48] by auto

lemma strtol_plain:
  assumes "s = x # xs" "x \<notin> {32, 9, 43, 45, 120}"
  shows "strtol s 10 = (case strtol_digits 10 0 s of (v, r) \<Rightarrow> (sint v, r))"
    "strtol (45 # s) 10 = (case strtol_digits 10 0 s of (v, r) \<Rightarrow> (sint (- v), r))"
    "strtol (replicate n 32 @ s) 10 = strtol s 10"
proof -
  have "dropWhile (\<lambda>c. c = 32 \<or> c = 9) (replicate n 32 @ s) = dropWhile (\<lambda>c. c = 32 \<or> c = 9) s" by (induction n) auto
  then show "strtol (replicate n 32 @ s) 10 = strtol s 10" by (simp add: strtol_def)
qed (use assms in \<open>simp_all add: strtol_def split: prod.splits\<close>)

lemma signed_read:
  assumes pad: "padc sp = 48 \<or> padc sp = 32 \<and> (width sp = -1 \<or> 0 \<le> sint v)" and e: "ends 10 rest"
  shows "strtol (signed_number sp v @ rest) 10 = (sint v, rest)"
proof -
  have lt: "unat x < 2 ^ 64" for x :: "64 word" using unsigned_less [of x] by simp
  have z: "strtol (printnum (unat x) 10 w 48 @ rest) 10 = (sint x, rest)"
    "strtol (45 # printnum (unat x) 10 w 48 @ rest) 10 = (sint (- x), rest)"
    "strtol (replicate n 32 @ printnum (unat x) 10 w 48 @ rest) 10 = (sint x, rest)" for x :: "64 word" and w n
  proof -
    obtain y ys where h: "printnum (unat x) 10 w 48 = y # ys" "y \<notin> {32, 9, 43, 45, 120}"
      using printnum_head [of 10 "unat x" w] by auto
    then have s: "printnum (unat x) 10 w 48 @ rest = y # ys @ rest" by simp
    have d: "strtol_digits 10 0 (printnum (unat x) 10 w 48 @ rest) = (x, rest)"
      using strtol_printnum [OF _ _ lt e, of x w] by simp
    from strtol_plain [OF s h(2)] d show "strtol (printnum (unat x) 10 w 48 @ rest) 10 = (sint x, rest)"
      "strtol (45 # printnum (unat x) 10 w 48 @ rest) 10 = (sint (- x), rest)"
      "strtol (replicate n 32 @ printnum (unat x) 10 w 48 @ rest) 10 = (sint x, rest)" by simp_all
  qed
  have np: "printnum (unat x) 10 (width sp) 32 = printnum (unat x) 10 (width sp) 48" if "width sp = -1" for x :: "64 word"
    using printnum_plain [of 10 "unat x" 64 "-1"] lt [of x] that by simp
  show ?thesis
  proof (cases "sint v < 0")
    case True
    then have "signed_number sp v = 45 # printnum (unat (- v)) 10 (width sp) 48" using pad np by (auto simp: signed_number_def)
    then show ?thesis using z(2) [of "- v" "width sp"] by simp
  next
    case False
    obtain n where "printnum (unat v) 10 (width sp) 32 = replicate n 32 @ printnum (unat v) 10 (-1) 48"
      by (rule pad_blank [of 10 "unat v"]) (use lt in simp_all)
    then show ?thesis using False pad z(1) [of v "width sp"] z(3) [of n v "-1"] by (auto simp: signed_number_def)
  qed
qed

section \<open>Formats for numbers\<close>

text \<open>A conversion with an optional zero flag and an optional width.\<close>

definition field :: "bool \<Rightarrow> byte list \<Rightarrow> byte list" where
  "field z wd = 37 # (if z then [48] else []) @ wd"

definition width_ok :: "byte list \<Rightarrow> bool" where
  "width_ok wd \<longleftrightarrow> (\<forall>c \<in> set wd. isdigit c) \<and> (wd \<noteq> [] \<longrightarrow> hd wd \<noteq> 48)"

definition field_spec :: "bool \<Rightarrow> byte list \<Rightarrow> spec" where
  "field_spec z wd = spec0\<lparr>padc := if z then 48 else 32, width := if wd = [] then -1 else decimal wd\<rparr>"

lemma escape_field:
  assumes "width_ok wd" "\<not> isdigit (hd conv)" "conv \<noteq> []"
  shows "escape spec0 ((if z then [48] else []) @ wd @ conv) ap = escape (field_spec z wd) conv ap"
proof -
  have w: "escape sp (wd @ conv) ap = escape (if wd = [] then sp else sp\<lparr>width := decimal wd\<rparr>) conv ap"
    if sp: "width sp < 0" "precision sp = -1" for sp
  proof (cases wd)
    case (Cons c cs)
    have t: "takeWhile isdigit (cs @ conv) = cs" "dropWhile isdigit (cs @ conv) = conv"
      using assms Cons by (auto simp: width_ok_def takeWhile_append dropWhile_append) (cases conv; auto)+
    have c: "isdigit c" "c \<noteq> 48" "c \<noteq> 45" using assms(1) Cons by (auto simp: width_ok_def)
    have "escape sp (wd @ conv) ap = escape (process_precision (sp\<lparr>precision := decimal wd\<rparr>)) conv ap" using c t Cons by simp
    also have "process_precision (sp\<lparr>precision := decimal wd\<rparr>) = sp\<lparr>width := decimal wd\<rparr>" using sp by (simp add: process_precision_def)
    finally show ?thesis using Cons by simp
  qed simp
  have s: "width (spec0\<lparr>padc := 48\<rparr>) < 0" "precision (spec0\<lparr>padc := 48\<rparr>) = -1" "width spec0 < 0" "precision spec0 = -1"
    "spec0\<lparr>padc := 32\<rparr> = spec0" "spec0\<lparr>width := -1\<rparr> = spec0" by (simp_all add: spec0_def)
  show ?thesis
  proof (cases z)
    case True
    then show ?thesis using w [OF s(1,2)] by (simp add: field_spec_def spec0_def)
  next
    case False
    then show ?thesis using w [OF s(3,4)] by (simp add: field_spec_def spec0_def)
  qed
qed

lemma vprintfmt_field:
  assumes "width_ok wd" "\<not> isdigit (hd conv)" "conv \<noteq> []" "escape (field_spec z wd) conv ap = Some (out, Some [], ap')"
  shows "vprintfmt (field z wd @ conv) ap = Some out"
  using escape_field [OF assms(1-3), of z ap] assms(4) by (simp add: field_def)

lemma sint_extend: "sint (scast (w :: word32) :: 64 word) = sint w"
proof -
  have "- (2 ^ 63) \<le> sint w \<and> sint w < 2 ^ 63" using sint_ge [of w] sint_less [of w] by simp
  then show ?thesis by (simp add: signed_scast_eq signed_take_bit_int_eq_self)
qed

lemma spec_pad: "z \<or> wd = [] \<or> 0 \<le> sint v \<Longrightarrow>
    padc (field_spec z wd) = 48 \<or> padc (field_spec z wd) = 32 \<and> (width (field_spec z wd) = -1 \<or> 0 \<le> sint v)"
  by (auto simp: field_spec_def)

lemma pointer_read:
  assumes "ends 16 rest" "base = 0 \<or> base = 16"
  shows "strtol ([48, 120] @ printnum (unat (v :: 64 word)) 16 w 48 @ rest) base = (sint v, rest)"
proof -
  have "unat v < 2 ^ 64" using unsigned_less [of v] by simp
  from strtol_printnum [OF _ _ this assms(1), of w] show ?thesis using assms(2) by (auto simp: strtol_def)
qed

lemma pointer_printed:
  assumes "width_ok wd" "z \<or> wd = []"
  shows "\<exists>w. vprintfmt (field z wd @ [112]) [ALong v] = Some ([48, 120] @ printnum (unat v) 16 w 48)"
proof -
  let ?sp = "field_spec z wd"
  have p: "vprintfmt (field z wd @ [112]) [ALong v] = Some ([48, 120] @ printnum (unat v) 16 (width ?sp) (padc ?sp))"
    by (rule vprintfmt_field [OF assms(1)]) simp_all
  have "unat v < 2 ^ 64" using unsigned_less [of v] by simp
  then have "printnum (unat v) 16 (-1) 32 = printnum (unat v) 16 (-1) 48" using printnum_plain [of 16 "unat v" 64 "-1"] by simp
  then show ?thesis using p assms(2) by (cases z) (auto simp: field_spec_def)
qed

lemma print_examples:
  "vprintfmt (chars ''%5d'') [AInt (- 42)] = Some (chars ''-   42'')" "vprintfmt (chars ''%-5d'') [AInt 42] = Some (chars ''---42'')"
  "vprintfmt (chars ''%6p'') [ALong 0x1a] = Some (chars ''0x    1a'')" "strtol (chars ''0x    1a'') 16 = (0, chars ''    1a'')"
  by code_simp+

text \<open>C33: printing and reading numbers.  What \<open>%d\<close> or \<open>%ld\<close> prints, with any width (one too large for an \<open>int\<close> wraps around), is
  read back by \<open>strtol\<close> as the same number as long as the padding is zeros or the number is not negative; what \<open>%p\<close> prints is
  read back with base 0 or 16 as long as the padding is zeros or there is no width.  The conditions are needed: the padding is
  put between the sign, or the \<open>0x\<close> of a pointer, and the digits, and the flag for padding on the right pads with
  minus signs on the left.\<close>

theorem print_read:
  assumes "width_ok wd" and "ends 10 rest" and "ends 16 rest"
  shows "(z \<or> wd = [] \<or> 0 \<le> sint w \<longrightarrow>
        (\<exists>out. vprintfmt (field z wd @ [100]) [AInt w] = Some out \<and> strtol (out @ rest) 10 = (sint w, rest))) \<and>
     (z \<or> wd = [] \<or> 0 \<le> sint v \<longrightarrow>
        (\<exists>out. vprintfmt (field z wd @ [108, 100]) [ALong v] = Some out \<and> strtol (out @ rest) 10 = (sint v, rest))) \<and>
     (z \<or> wd = [] \<longrightarrow>
        (\<exists>out. vprintfmt (field z wd @ [112]) [ALong v] = Some out \<and> strtol (out @ rest) 16 = (sint v, rest) \<and>
           strtol (out @ rest) 0 = (sint v, rest))) \<and>
     vprintfmt (chars ''%5d'') [AInt (- 42)] = Some (chars ''-   42'') \<and>
     vprintfmt (chars ''%-5d'') [AInt 42] = Some (chars ''---42'') \<and>
     vprintfmt (chars ''%6p'') [ALong 0x1a] = Some (chars ''0x    1a'') \<and> strtol (chars ''0x    1a'') 16 = (0, chars ''    1a'')"
proof (intro conjI impI)
  let ?sp = "field_spec z wd"
  assume c: "z \<or> wd = [] \<or> 0 \<le> sint w"
  note s = sint_extend [of w]
  have c': "z \<or> wd = [] \<or> 0 \<le> sint (scast w :: 64 word)" using c s by simp
  have "vprintfmt (field z wd @ [100]) [AInt w] = Some (signed_number ?sp (scast w))"
    by (rule vprintfmt_field [OF assms(1)]) (simp_all add: getint_def field_spec_def spec0_def)
  then show "\<exists>out. vprintfmt (field z wd @ [100]) [AInt w] = Some out \<and> strtol (out @ rest) 10 = (sint w, rest)"
    using signed_read [OF spec_pad [OF c'] assms(2)] by (simp add: s)
next
  let ?sp = "field_spec z wd"
  assume c: "z \<or> wd = [] \<or> 0 \<le> sint v"
  have "vprintfmt (field z wd @ [108, 100]) [ALong v] = Some (signed_number (?sp\<lparr>lflag := 1\<rparr>) v)"
    by (rule vprintfmt_field [OF assms(1)]) (simp_all add: getint_def field_spec_def spec0_def)
  then show "\<exists>out. vprintfmt (field z wd @ [108, 100]) [ALong v] = Some out \<and> strtol (out @ rest) 10 = (sint v, rest)"
    using signed_read [OF _ assms(2), of "?sp\<lparr>lflag := 1\<rparr>" v] spec_pad [OF c] by auto
next
  assume "z \<or> wd = []"
  from pointer_printed [OF assms(1) this, of v] obtain w where
    "vprintfmt (field z wd @ [112]) [ALong v] = Some ([48, 120] @ printnum (unat v) 16 w 48)" by blast
  then show "\<exists>out. vprintfmt (field z wd @ [112]) [ALong v] = Some out \<and> strtol (out @ rest) 16 = (sint v, rest) \<and>
      strtol (out @ rest) 0 = (sint v, rest)"
    using pointer_read [OF assms(3), of 16 v w] pointer_read [OF assms(3), of 0 v w] by simp
qed (simp_all add: print_examples)

text \<open>A width of eight with zeros, in front of a comma.\<close>

theorem print_read_witness:
  "\<exists>out. vprintfmt (field True [56] @ [100]) [AInt (- 42)] = Some out \<and> strtol (out @ [44]) 10 = (- 42, [44])"
proof -
  have "width_ok [56]" "ends 10 [44]" "ends 16 [44]" by (simp_all add: width_ok_def ends_def dig_def)
  from print_read [OF this, of True "- 42"] show ?thesis by simp
qed

section \<open>Bounded printing\<close>

lemma fold_sprintputch:
  "cnt b = i32 c \<Longrightarrow> fold sprintputch out (b, m) =
     (b\<lparr>buf := buf b + min (ebuf b - buf b) (length out), cnt := i32 (c + int (length out))\<rparr>,
      write_bytes (buf b) (take (ebuf b - buf b) out) m)"
proof (induction out arbitrary: b c m)
  case (Cons x out)
  have i: "i32 (cnt b + 1) = i32 (c + 1)" using Cons.prems i32_Suc by simp
  note IH = Cons.IH [where c = "c + 1"]
  show ?case
  proof (cases "buf b < ebuf b")
    case True
    then obtain k where k: "ebuf b - buf b = Suc k" by (metis Suc_diff_Suc)
    then have "ebuf b - Suc (buf b) = k" by simp
    moreover have "sprintputch x (b, m) = (b\<lparr>cnt := i32 (c + 1), buf := buf b + 1\<rparr>, m(buf b := x))"
      using True i by (simp add: sprintputch_def Let_def)
    ultimately show ?thesis using k IH [of "b\<lparr>cnt := i32 (c + 1), buf := buf b + 1\<rparr>" "m(buf b := x)"]
      by (simp add: fun_upd_def ac_simps)
  next
    case False
    then have "sprintputch x (b, m) = (b\<lparr>cnt := i32 (c + 1)\<rparr>, m)" using i by (simp add: sprintputch_def Let_def)
    then show ?thesis using False IH [of "b\<lparr>cnt := i32 (c + 1)\<rparr>" m] by (simp add: ac_simps)
  qed
qed simp

lemma write_bytes_snoc: "(write_bytes a xs m)(a + length xs := y) = write_bytes a (xs @ [y]) m"
  by (rule ext) (auto simp: write_bytes_apply nth_append)

text \<open>C34: printing into a buffer.  \<open>vsnprintf\<close> writes what the format produces, cut to one character less than the size,
  and a terminator, and nothing outside the buffer; it returns the length the whole output has as long as that fits an
  \<open>int\<close>, and that length wrapped around otherwise.  Without a buffer or room it writes nothing and returns an error.\<close>

theorem snprintf_bounded:
  assumes "vprintfmt fmt ap = Some out"
  shows "if bf = 0 \<or> n < 1 then vsnprintf bf n fmt ap m = Some (- E_INVAL, m)
     else vsnprintf bf n fmt ap m = Some (i32 (int (length out)), write_bytes bf (take (nat (n - 1)) out @ [0]) m) \<and>
       (length out < 2 ^ 31 \<longrightarrow> i32 (int (length out)) = int (length out)) \<and>
       (\<forall>m'. m' = write_bytes bf (take (nat (n - 1)) out @ [0]) m \<longrightarrow>
          (\<forall>x. x < bf \<or> bf + nat n \<le> x \<longrightarrow> m' x = m x) \<and> (0 \<notin> set out \<longrightarrow> cstr m' bf (take (nat (n - 1)) out)))"
proof (cases "bf = 0 \<or> n < 1")
  case False
  have e: "nat (int bf + n - 1) - bf = nat (n - 1)" using False by linarith
  have "min (nat (n - 1)) (length out) = length (take (nat (n - 1)) out)" by simp
  then have "vsnprintf bf n fmt ap m = Some (i32 (int (length out)), (write_bytes bf (take (nat (n - 1)) out) m)(bf + length (take (nat (n - 1)) out) := 0))"
    using False assms fold_sprintputch [of _ 0 out m] by (simp add: vsnprintf_def Let_def i32_nat [of 0, simplified] e del: length_take)
  moreover have "0 \<notin> set out \<Longrightarrow> 0 \<notin> set (take (nat (n - 1)) out)" by (meson in_set_takeD)
  then have "0 \<notin> set out \<Longrightarrow> cstr (write_bytes bf (take (nat (n - 1)) out @ [0]) m) bf (take (nat (n - 1)) out)"
    by (intro cstr_write)
  moreover have "nat n = Suc (nat (n - 1))" using False by linarith
  then have "length (take (nat (n - 1)) out @ [0 :: byte]) \<le> nat n" by simp
  ultimately show ?thesis using False unfolding write_bytes_snoc by (auto simp: write_bytes_other i32_nat simp del: length_append length_take)
qed (simp add: vsnprintf_def Let_def)

theorem snprintf_bounded_witness:
  "vsnprintf 100 4 (chars ''%s!'') [AStr (Some (chars ''hello''))] (\<lambda>_. 7) = Some (6, write_bytes 100 (chars ''hel'' @ [0]) (\<lambda>_. 7))"
proof -
  have "vprintfmt (chars ''%s!'') [AStr (Some (chars ''hello''))] = Some (chars ''hello!'')"
    by (simp add: chars_def spec0_def put_string_def Let_def i32_id)
  from snprintf_bounded [OF this, of 100 4] show ?thesis by (simp add: chars_def)
qed

end
