(* ===== verification/Fibers.thy ===== *)
theory Fibers
  imports Ring
begin

text \<open>
  \<^verbatim>\<open>src/fibers\<close>: fibers, switched by \<open>FiberYield\<close>.  The functions that run in fibers are not part of the library:
  \<open>prog l g\<close> runs the local state \<open>l\<close> and the globals \<open>g\<close> up to the next call of the library, which it returns with the
  changed globals, and \<open>enter f d\<close> is the local state in which \<open>f(d)\<close> starts.  A saved context is where execution goes
  on: at \<open>start_func\<close>, or behind one of the two calls of \<open>save_context\<close> in \<open>FiberYield\<close> with the stack of the caller, which
  nothing else uses meanwhile.
\<close>

section \<open>State\<close>

datatype 'l frame = InMain 'l | InFiber 'l

datatype 'l fcontext = Start | After_first "'l frame" | After_save "'l frame"

record 'l fiber =
  func :: nat
  data :: nat
  ctx :: "'l fcontext"
  fdone :: int
  repeat :: int

record 'l fstate =
  fibers :: nat
  first :: int
  fnext :: "nat \<Rightarrow> nat"
  fprev :: "nat \<Rightarrow> nat"
  fib :: "nat \<Rightarrow> 'l fiber"
  live :: "nat list"

abbreviation upd_fib :: "nat \<Rightarrow> ('l fiber \<Rightarrow> 'l fiber) \<Rightarrow> 'l fstate \<Rightarrow> 'l fstate" where
  "upd_fib a u w \<equiv> w\<lparr>fib := (fib w)(a := u (fib w a))\<rparr>"

definition fstart :: "'l fstate" where
  "fstart = \<lparr>fibers = 0, first = 0, fnext = (\<lambda>_. 0), fprev = (\<lambda>_. 0),
     fib = (\<lambda>_. \<lparr>func = 0, data = 0, ctx = Start, fdone = 0, repeat = 0\<rparr>), live = []\<rparr>"

text \<open>What the three calls of the C library's allocator in \<open>create_new_fiber\<close> bring: the fiber at an address, or the first of them that fails.\<close>

datatype alloc = Got nat | No_fiber | No_stack | No_context

datatype 'l call = Spawn nat nat 'l | Yield 'l | Try_join "int \<Rightarrow> 'l" | Return

datatype ('l, 'g) run = Running "'l frame" 'g "'l fstate" | Finished 'g | Exited nat | Crashed

section \<open>Operations\<close>

definition create_new_fiber :: "('l fstate \<Rightarrow> alloc) \<Rightarrow> 'l fstate \<Rightarrow> 'l fstate option" where
  "create_new_fiber mal w =
     (case mal w of
        Got a \<Rightarrow>
          let w = w\<lparr>live := a # live w, fib := (fib w)(a := (fib w a)\<lparr>ctx := Start, fdone := 0, repeat := 1\<rparr>)\<rparr> in
          if fibers w = 0 then
            Some (w\<lparr>fibers := a, fnext := (fnext w)(a := a), fprev := (fprev w)(a := a)\<rparr>)
          else
            let w = w\<lparr>fnext := (fnext w)(fprev w (fibers w) := a)\<rparr>;
                w = w\<lparr>fnext := (fnext w)(a := fibers w)\<rparr>;
                w = w\<lparr>fprev := (fprev w)(a := fprev w (fibers w))\<rparr>
            in Some (w\<lparr>fprev := (fprev w)(fibers w := a)\<rparr>)
      | _ \<Rightarrow> None)"

definition FiberSpawn :: "('l fstate \<Rightarrow> alloc) \<Rightarrow> nat \<Rightarrow> nat \<Rightarrow> 'l fstate \<Rightarrow> 'l fstate option" where
  "FiberSpawn mal f d w =
     map_option (\<lambda>w. upd_fib (fprev w (fibers w)) (\<lambda>b. b\<lparr>func := f, data := d\<rparr>) w) (create_new_fiber mal w)"

definition FiberTryJoin :: "'l fstate \<Rightarrow> int" where
  "FiberTryJoin w = (if first w = 1 \<and> fnext w (fibers w) = fibers w then 1 else 0)"

text \<open>\<open>FiberYield\<close> behind the second call of \<open>save_context\<close>, up to the tests that follow.\<close>

definition after_save :: "'l fstate \<Rightarrow> 'l fstate" where
  "after_save w =
     (let w = upd_fib (fibers w) (\<lambda>b. b\<lparr>repeat := 0\<rparr>) w
      in if fdone (fib w (fibers w)) = 0 then w\<lparr>fibers := fnext w (fibers w)\<rparr> else w)"

text \<open>
  \<open>get_context(fibers->ctx)\<close> and what runs until the next return into a function of a fiber.  A fiber
  that was switched away returns from \<open>FiberYield\<close> or, as the code has it, switches again.
\<close>

partial_function (option) get_context ::
    "(nat \<Rightarrow> nat \<Rightarrow> 'l) \<Rightarrow> 'g \<Rightarrow> 'l fstate \<Rightarrow> ('l, 'g) run option" where
  "get_context enter g w =
     (case ctx (fib w (fibers w)) of
        Start \<Rightarrow> Some (Running (InFiber (enter (func (fib w (fibers w))) (data (fib w (fibers w))))) g w)
      | After_first fr \<Rightarrow>
          if fdone (fib w (fibers w)) = 1 then Some (Running fr g (upd_fib (fibers w) (\<lambda>b. b\<lparr>fdone := 0\<rparr>) w))
          else if repeat (fib w (fibers w)) = 0 then get_context enter g (upd_fib (fibers w) (\<lambda>b. b\<lparr>fdone := 1\<rparr>) w)
          else get_context enter g w
      | After_save fr \<Rightarrow>
          let w = after_save w in
          if fdone (fib w (fibers w)) = 1 then Some (Running fr g (upd_fib (fibers w) (\<lambda>b. b\<lparr>fdone := 0\<rparr>) w))
          else if repeat (fib w (fibers w)) = 0 then get_context enter g (upd_fib (fibers w) (\<lambda>b. b\<lparr>fdone := 1\<rparr>) w)
          else get_context enter g w)"

text \<open>The end of \<open>FiberYield\<close>, from the test of \<open>done\<close> on.\<close>

definition yield_tail :: "(nat \<Rightarrow> nat \<Rightarrow> 'l) \<Rightarrow> 'l frame \<Rightarrow> 'g \<Rightarrow> 'l fstate \<Rightarrow> ('l, 'g) run option" where
  "yield_tail enter fr g w =
     (if fdone (fib w (fibers w)) = 1 then Some (Running fr g (upd_fib (fibers w) (\<lambda>b. b\<lparr>fdone := 0\<rparr>) w))
      else if repeat (fib w (fibers w)) = 0 then get_context enter g (upd_fib (fibers w) (\<lambda>b. b\<lparr>fdone := 1\<rparr>) w)
      else get_context enter g w)"

definition FiberYield ::
    "('l fstate \<Rightarrow> alloc) \<Rightarrow> (nat \<Rightarrow> nat \<Rightarrow> 'l) \<Rightarrow> 'l frame \<Rightarrow> 'g \<Rightarrow> 'l fstate \<Rightarrow> ('l, 'g) run option" where
  "FiberYield mal enter fr g w =
     (if fibers w = 0 then Some (Running fr g w)
      else if first w = 0 \<and> fnext w (fibers w) = fibers w then
        case create_new_fiber mal (w\<lparr>first := 1\<rparr>) of
          None \<Rightarrow> Some (Exited 1)
        | Some w \<Rightarrow>
            yield_tail enter fr g
              (upd_fib (fprev w (fibers w)) (\<lambda>b. b\<lparr>func := 0, data := 0, repeat := 0, ctx := After_first fr\<rparr>) w)
      else yield_tail enter fr g (after_save (upd_fib (fibers w) (\<lambda>b. b\<lparr>ctx := After_save fr\<rparr>) w)))"

text \<open>
  \<open>start_func\<close> behind the call of the function.  The stack that is freed is still the one in use, until the switch: \<open>keep\<close>
  says whether the allocator leaves freed memory as it is for so long, or gives it back to the system, so that the next
  access faults.
\<close>

abbreviation kept :: "'l fstate \<Rightarrow> bool" where "kept \<equiv> \<lambda>_. True"

definition start_func_end :: "('l fstate \<Rightarrow> bool) \<Rightarrow> (nat \<Rightarrow> nat \<Rightarrow> 'l) \<Rightarrow> 'g \<Rightarrow> 'l fstate \<Rightarrow> ('l, 'g) run option" where
  "start_func_end keep enter g w =
     (let tmp = fibers w; nxt = fnext w tmp;
          w = w\<lparr>fnext := (fnext w)(fprev w tmp := fnext w tmp)\<rparr>;
          w = w\<lparr>fprev := (fprev w)(fnext w tmp := fprev w tmp)\<rparr>;
          w = w\<lparr>live := removeAll tmp (live w), fibers := nxt\<rparr>
      in if \<not> keep w \<or> nxt \<notin> set (live w) then Some Crashed
         else get_context enter g (upd_fib nxt (\<lambda>b. b\<lparr>fdone := 1\<rparr>) w))"

fun put_local :: "'l frame \<Rightarrow> 'l \<Rightarrow> 'l frame" where
  "put_local (InMain _) l = InMain l"
| "put_local (InFiber _) l = InFiber l"

fun get_local :: "'l frame \<Rightarrow> 'l" where
  "get_local (InMain l) = l"
| "get_local (InFiber l) = l"

fun is_main :: "'l frame \<Rightarrow> bool" where
  "is_main (InMain _) = True"
| "is_main (InFiber _) = False"

text \<open>One call of the library by whatever runs.\<close>

fun frun :: "('l fstate \<Rightarrow> bool) \<Rightarrow> ('l fstate \<Rightarrow> alloc) \<Rightarrow> (nat \<Rightarrow> nat \<Rightarrow> 'l) \<Rightarrow> ('l \<Rightarrow> 'g \<Rightarrow> 'g \<times> 'l call) \<Rightarrow> ('l, 'g) run \<Rightarrow> ('l, 'g) run option" where
  "frun keep mal enter prog (Running fr g w) =
     (case prog (get_local fr) g of
        (g, Spawn f d l) \<Rightarrow>
          (case FiberSpawn mal f d w of None \<Rightarrow> Some (Exited 1) | Some w \<Rightarrow> Some (Running (put_local fr l) g w))
      | (g, Yield l) \<Rightarrow> FiberYield mal enter (put_local fr l) g w
      | (g, Try_join k) \<Rightarrow> Some (Running (put_local fr (k (FiberTryJoin w))) g w)
      | (g, Return) \<Rightarrow> if is_main fr then Some (Finished g) else start_func_end keep enter g w)"
| "frun keep mal enter prog r = Some r"

section \<open>Round robin\<close>

text \<open>
  What \<open>fiber.h\<close> promises.  The fiber that runs, \<open>main\<close> at first, has a queue of fibers behind it, each new or suspended.
  A spawn puts a new fiber at the end of the queue, a yield puts the running fiber at the end and runs the first, a
  fiber that ends leaves the first to run, and \<open>FiberTryJoin\<close> says whether the caller is the only one.
\<close>

datatype 'l entry = New nat nat | Susp "'l frame"

fun entry_frame :: "(nat \<Rightarrow> nat \<Rightarrow> 'l) \<Rightarrow> 'l entry \<Rightarrow> 'l frame" where
  "entry_frame enter (New f d) = InFiber (enter f d)"
| "entry_frame enter (Susp fr) = fr"

datatype ('l, 'g) robin = Now "'l frame" 'g "'l entry list" | Over 'g

fun rr_next :: "(nat \<Rightarrow> nat \<Rightarrow> 'l) \<Rightarrow> 'g \<Rightarrow> 'l entry list \<Rightarrow> ('l, 'g) robin" where
  "rr_next enter g [] = Over g"
| "rr_next enter g (e # q) = Now (entry_frame enter e) g q"

fun rr :: "(nat \<Rightarrow> nat \<Rightarrow> 'l) \<Rightarrow> ('l \<Rightarrow> 'g \<Rightarrow> 'g \<times> 'l call) \<Rightarrow> ('l, 'g) robin \<Rightarrow> ('l, 'g) robin" where
  "rr enter prog (Now fr g q) =
     (case prog (get_local fr) g of
        (g, Spawn f d l) \<Rightarrow> Now (put_local fr l) g (q @ [New f d])
      | (g, Yield l) \<Rightarrow> rr_next enter g (q @ [Susp (put_local fr l)])
      | (g, Try_join k) \<Rightarrow> Now (put_local fr (k (if q = [] then 1 else 0))) g q
      | (g, Return) \<Rightarrow> if is_main fr then Over g else rr_next enter g q)"
| "rr enter prog (Over g) = Over g"

text \<open>
  Where the code keeps that promise: \<open>main\<close> calls \<open>FiberTryJoin\<close> only after its first spawn, spawns one fiber before
  its first switch, and a fiber that was started because another one ended does not yield.  \<open>within\<close> follows this along
  a run; it is \<open>None\<close> when the next call breaks it.
\<close>

datatype stage = Unswitched | Switched | Handed

fun within :: "('l \<Rightarrow> 'g \<Rightarrow> 'g \<times> 'l call) \<Rightarrow> stage \<Rightarrow> ('l, 'g) robin \<Rightarrow> stage option" where
  "within prog h (Now fr g q) =
     (case snd (prog (get_local fr) g) of
        Spawn f d l \<Rightarrow> if h = Unswitched \<and> q \<noteq> [] then None else Some h
      | Yield l \<Rightarrow> if h = Handed then None else if h = Unswitched \<and> q = [] then Some h else Some Switched
      | Try_join k \<Rightarrow> if h = Unswitched \<and> q = [] then None else Some h
      | Return \<Rightarrow> if is_main fr then Some h else (case q of [] \<Rightarrow> None | New f d # _ \<Rightarrow> Some Handed | Susp fr # _ \<Rightarrow> Some Switched))"
| "within prog h (Over g) = Some h"

fun usage :: "nat \<Rightarrow> (nat \<Rightarrow> nat \<Rightarrow> 'l) \<Rightarrow> ('l \<Rightarrow> 'g \<Rightarrow> 'g \<times> 'l call) \<Rightarrow> stage \<Rightarrow> ('l, 'g) robin \<Rightarrow> stage option" where
  "usage 0 enter prog h s = Some h"
| "usage (Suc n) enter prog h s = Option.bind (within prog h s) (\<lambda>h. usage n enter prog h (rr enter prog s))"

text \<open>
  What the code does, its departures included: the flag of \<open>Turn\<close> is that of a fiber which was started because another one
  ended and returns at once from its first yield; \<open>Boot\<close> and \<open>One\<close> are \<open>main\<close> before the first switch, with no fiber and
  with one; more of them are \<open>Outside\<close>.
\<close>

datatype ('l, 'g) spec =
    Boot 'l 'g
  | One 'l 'g nat nat
  | Turn "'l frame" bool 'g "'l entry list"
  | Ended 'g
  | Outside

fun dispatch :: "(nat \<Rightarrow> nat \<Rightarrow> 'l) \<Rightarrow> bool \<Rightarrow> 'g \<Rightarrow> 'l entry list \<Rightarrow> ('l, 'g) spec" where
  "dispatch enter after_end g (New f d # q) = Turn (InFiber (enter f d)) after_end g q"
| "dispatch enter after_end g (Susp fr # q) = Turn fr False g q"
| "dispatch enter after_end g [] = Outside"

fun turns :: "(nat \<Rightarrow> nat \<Rightarrow> 'l) \<Rightarrow> ('l \<Rightarrow> 'g \<Rightarrow> 'g \<times> 'l call) \<Rightarrow> ('l, 'g) spec \<Rightarrow> ('l, 'g) spec" where
  "turns enter prog (Boot l g) =
     (case prog l g of
        (g, Spawn f d l) \<Rightarrow> One l g f d
      | (g, Yield l) \<Rightarrow> Boot l g
      | (g, Try_join k) \<Rightarrow> Boot (k 0) g
      | (g, Return) \<Rightarrow> Ended g)"
| "turns enter prog (One l g f d) =
     (case prog l g of
        (g, Spawn f' d' l) \<Rightarrow> Outside
      | (g, Yield l) \<Rightarrow> Turn (InFiber (enter f d)) False g [Susp (InMain l)]
      | (g, Try_join k) \<Rightarrow> One (k 0) g f d
      | (g, Return) \<Rightarrow> Ended g)"
| "turns enter prog (Turn fr skip g q) =
     (case prog (get_local fr) g of
        (g, Spawn f d l) \<Rightarrow> Turn (put_local fr l) skip g (q @ [New f d])
      | (g, Yield l) \<Rightarrow>
          if skip then Turn (put_local fr l) False g q else dispatch enter False g (q @ [Susp (put_local fr l)])
      | (g, Try_join k) \<Rightarrow> Turn (put_local fr (k (if q = [] then 1 else 0))) skip g q
      | (g, Return) \<Rightarrow> if is_main fr then Ended g else dispatch enter True g q)"
| "turns enter prog s = s"

section \<open>The ring of fibers\<close>

lemma ring_rotate: "ring nx pv h (x # xs) \<Longrightarrow> ring nx pv x (xs @ [h])"
  using linked_append [of nx pv "x # xs" h "[]"] linked_append [of nx pv "x # xs" h "[x]"] by (auto simp: ring_def)

lemma ring_link_end:
  assumes r: "ring nx pv h xs" and b: "b \<notin> set (h # xs)"
  shows "ring (nx(pv h := b, b := h)) (pv(b := pv h, h := b)) h (xs @ [b])"
proof -
  have "pv h \<in> set (h # xs)" using ring_first [OF ring_rev [OF r]] by (cases "rev xs") (auto dest: arg_cong [where f = set])
  then have ne: "pv h \<noteq> b" using b by auto
  have "ring (nx(b := h, pv h := b)) (pv(b := pv h, h := b)) h (rev (b # rev xs))"
    using ring_link [OF ring_rev [OF r], of b] b by (intro ring_rev) auto
  then show ?thesis using ne by (simp add: fun_upd_twist)
qed

lemma ring_last: "ring nx pv h xs \<Longrightarrow> pv h = last (h # xs)"
  using ring_first [OF ring_rev, of nx pv h xs] by (cases xs rule: rev_cases) auto

definition entry_ok :: "'l fiber \<Rightarrow> 'l entry \<Rightarrow> bool" where
  "entry_ok b e \<longleftrightarrow> fdone b = 0 \<and>
     (case e of New f d \<Rightarrow> ctx b = Start \<and> func b = f \<and> data b = d \<and> repeat b = 1
      | Susp fr \<Rightarrow> (ctx b = After_first fr \<or> ctx b = After_save fr) \<and> repeat b = 0)"

lemma fib_idem: "b = fib w a \<Longrightarrow> w\<lparr>fib := (fib w)(a := b)\<rparr> = w"
  by simp

lemma resume_done:
  assumes "entry_ok (fib w (fibers w)) e"
  shows "get_context enter g (upd_fib (fibers w) (\<lambda>b. b\<lparr>fdone := 1\<rparr>) w) =
     Some (Running (entry_frame enter e) g (case e of New f d \<Rightarrow> upd_fib (fibers w) (\<lambda>b. b\<lparr>fdone := 1\<rparr>) w | Susp _ \<Rightarrow> w))"
proof (cases e)
  case (New f d)
  then show ?thesis using assms by (subst get_context.simps) (simp add: entry_ok_def)
next
  case (Susp fr)
  then have "ctx (fib w (fibers w)) = After_first fr \<or> ctx (fib w (fibers w)) = After_save fr" using assms by (simp add: entry_ok_def)
  then show ?thesis
  proof
    assume "ctx (fib w (fibers w)) = After_first fr"
    then show ?thesis using assms Susp by (subst get_context.simps) (simp add: entry_ok_def fib_idem)
  next
    assume "ctx (fib w (fibers w)) = After_save fr"
    then show ?thesis using assms Susp
      by (subst get_context.simps) (simp add: entry_ok_def after_save_def Let_def fib_idem)
  qed
qed

lemma switch_to:
  assumes "entry_ok (fib w (fibers w)) e"
  shows "yield_tail enter fr g w = Some (Running (entry_frame enter e) g w)"
proof (cases e)
  case (New f d)
  then show ?thesis using assms by (simp add: entry_ok_def yield_tail_def get_context.simps [of _ _ w])
next
  case (Susp fr)
  then show ?thesis using assms resume_done [OF assms, of enter g] by (simp add: entry_ok_def yield_tail_def)
qed

text \<open>The ring has the running fiber and the queue behind it.\<close>

definition on_ring :: "'l fstate \<Rightarrow> bool \<Rightarrow> nat list \<Rightarrow> 'l entry list \<Rightarrow> bool" where
  "on_ring w skip xs q \<longleftrightarrow>
     ring (fnext w) (fprev w) (fibers w) xs \<and> 0 \<notin> set (fibers w # xs) \<and> set (fibers w # xs) = set (live w) \<and> first w = 1 \<and>
     fdone (fib w (fibers w)) = (if skip then 1 else 0) \<and> list_all2 (\<lambda>x e. entry_ok (fib w x) e) xs q"

fun refines :: "('l, 'g) run \<Rightarrow> ('l, 'g) spec \<Rightarrow> bool" where
  "refines (Running fr g w) (Boot l g') \<longleftrightarrow> fr = InMain l \<and> g = g' \<and> fibers w = 0 \<and> first w = 0 \<and> live w = []"
| "refines (Running fr g w) (One l g' f d) \<longleftrightarrow> fr = InMain l \<and> g = g' \<and> first w = 0 \<and> fibers w \<noteq> 0 \<and> live w = [fibers w] \<and>
     ring (fnext w) (fprev w) (fibers w) [] \<and> entry_ok (fib w (fibers w)) (New f d)"
| "refines (Running fr g w) (Turn fr' skip g' q) \<longleftrightarrow> fr = fr' \<and> g = g' \<and> (\<exists>xs. on_ring w skip xs q)"
| "refines (Finished g) (Ended g') \<longleftrightarrow> g = g'"
| "refines _ _ \<longleftrightarrow> False"

text \<open>Allocated fibers are fresh.\<close>

definition fresh :: "('l fstate \<Rightarrow> alloc) \<Rightarrow> bool" where
  "fresh mal \<longleftrightarrow> (\<forall>w a. mal w = Got a \<longrightarrow> a \<noteq> 0 \<and> a \<notin> set (live w))"

lemma entries_cong:
  "list_all2 (\<lambda>x e. entry_ok (h x) e) xs q \<Longrightarrow> (\<And>x. x \<in> set xs \<Longrightarrow> h x = h' x) \<Longrightarrow> list_all2 (\<lambda>x e. entry_ok (h' x) e) xs q"
  by (auto simp: list_all2_conv_all_nth)

lemma create_ring:
  assumes "on_ring w skip xs q" "fresh mal" "create_new_fiber mal w = Some w'"
  obtains a where "fibers w' = fibers w" "fprev w' (fibers w') = a" "a \<notin> set (fibers w # xs)" "fib w' (fibers w') = fib w (fibers w)"
    "ctx (fib w' a) = Start" "fdone (fib w' a) = 0" "repeat (fib w' a) = 1"
    "\<forall>u e. entry_ok (u (fib w' a)) e \<longrightarrow> on_ring (upd_fib a u w') skip (xs @ [a]) (q @ [e])"
proof -
  from assms(3) obtain a where m: "mal w = Got a" by (auto simp: create_new_fiber_def split: alloc.splits)
  have a: "a \<noteq> 0" "a \<notin> set (fibers w # xs)" using assms(1,2) m by (auto simp: fresh_def on_ring_def)
  have r: "ring (fnext w) (fprev w) (fibers w) xs" and "fibers w \<noteq> 0" using assms(1) by (auto simp: on_ring_def)
  then have w': "w' = w\<lparr>live := a # live w, fib := (fib w)(a := (fib w a)\<lparr>ctx := Start, fdone := 0, repeat := 1\<rparr>),
      fnext := (fnext w)(fprev w (fibers w) := a, a := fibers w), fprev := (fprev w)(a := fprev w (fibers w), fibers w := a)\<rparr>"
    using assms(3) a m by (auto simp: create_new_fiber_def Let_def)
  note l = ring_link_end [OF r a(2)]
  have "on_ring (upd_fib a u w') skip (xs @ [a]) (q @ [e])" if e: "entry_ok (u (fib w' a)) e" for u e
    unfolding on_ring_def
  proof (intro conjI)
    have "list_all2 (\<lambda>x e. entry_ok (fib (upd_fib a u w') x) e) xs q"
    proof (rule entries_cong)
      show "list_all2 (\<lambda>x e. entry_ok (fib w x) e) xs q" using assms(1) by (simp add: on_ring_def)
      show "fib w x = fib (upd_fib a u w') x" if "x \<in> set xs" for x using that a(2) by (auto simp: w')
    qed
    then show "list_all2 (\<lambda>x e. entry_ok (fib (upd_fib a u w') x) e) (xs @ [a]) (q @ [e])"
      using e by (intro list_all2_appendI) auto
  qed (use assms(1) a l in \<open>auto simp: on_ring_def w'\<close>)
  then show thesis using a w' by (intro that) auto
qed

lemma create_fails: "create_new_fiber mal w = None \<Longrightarrow> \<exists>w. \<forall>a. mal w \<noteq> Got a"
  by (auto simp: create_new_fiber_def Let_def split: alloc.splits if_splits intro: exI [of _ w])

lemma spawn_fails: "FiberSpawn mal f d w = None \<Longrightarrow> \<exists>w. \<forall>a. mal w \<noteq> Got a"
  by (auto simp: FiberSpawn_def intro: create_fails)

lemma spawn_turn:
  assumes "on_ring w skip xs q" "fresh mal" "FiberSpawn mal f d w = Some w'"
  shows "\<exists>xs. on_ring w' skip xs (q @ [New f d])"
proof -
  from assms(3) obtain v where v: "create_new_fiber mal w = Some v" and
    w': "w' = upd_fib (fprev v (fibers v)) (\<lambda>b. b\<lparr>func := f, data := d\<rparr>) v" by (auto simp: FiberSpawn_def)
  from create_ring [OF assms(1,2) v] obtain a where a: "fprev v (fibers v) = a" "ctx (fib v a) = Start" "fdone (fib v a) = 0" "repeat (fib v a) = 1"
    "\<forall>u e. entry_ok (u (fib v a)) e \<longrightarrow> on_ring (upd_fib a u v) skip (xs @ [a]) (q @ [e])" by metis
  then have "entry_ok ((fib v a)\<lparr>func := f, data := d\<rparr>) (New f d)" by (simp add: entry_ok_def)
  with a(5) [rule_format, of "\<lambda>b. b\<lparr>func := f, data := d\<rparr>" "New f d"] show ?thesis unfolding w' a(1) by blast
qed

lemma spawn_boot:
  assumes "fibers w = 0" "first w = 0" "live w = []" "fresh mal" "FiberSpawn mal f d w = Some w'"
  shows "refines (Running (InMain l) g w') (One l g f d)"
proof -
  from assms(1,5) obtain a where m: "mal w = Got a"
    and w': "w' = w\<lparr>live := a # live w, fib := (fib w)(a := (fib w a)\<lparr>ctx := Start, fdone := 0, repeat := 1, func := f, data := d\<rparr>),
      fibers := a, fnext := (fnext w)(a := a), fprev := (fprev w)(a := a)\<rparr>"
    by (auto simp: FiberSpawn_def create_new_fiber_def Let_def split: alloc.splits)
  have "a \<noteq> 0" using m assms(4) by (auto simp: fresh_def)
  then show ?thesis using assms by (auto simp: w' ring_def entry_ok_def)
qed

lemma yield_first:
  assumes "refines (Running fr g w) (One l g f d)" "fresh mal"
  obtains "FiberYield mal enter fr' g' w = Some (Exited 1)" "\<exists>w. \<forall>a. mal w \<noteq> Got a"
  | w' where "FiberYield mal enter fr' g' w = Some (Running (InFiber (enter f d)) g' w')" "\<exists>xs. on_ring w' False xs [Susp fr']"
proof (cases "create_new_fiber mal (w\<lparr>first := 1\<rparr>)")
  case None
  then show thesis using assms(1) create_fails [OF None] by (intro that(1)) (auto simp: FiberYield_def ring_def)
next
  case (Some v)
  have "on_ring (w\<lparr>first := 1\<rparr>) False [] []" using assms(1) by (auto simp: on_ring_def entry_ok_def)
  then show thesis
  proof (rule create_ring [OF _ assms(2) Some])
    fix a assume "fibers v = fibers (w\<lparr>first := 1\<rparr>)" "fib v (fibers v) = fib (w\<lparr>first := 1\<rparr>) (fibers (w\<lparr>first := 1\<rparr>))"
      "fprev v (fibers v) = a" "fdone (fib v a) = 0" "a \<notin> set (fibers (w\<lparr>first := 1\<rparr>) # [])"
      and all: "\<forall>u e. entry_ok (u (fib v a)) e \<longrightarrow> on_ring (upd_fib a u v) False ([] @ [a]) ([] @ [e])"
    then have a: "fibers v = fibers w" "fib v (fibers w) = fib w (fibers w)" "fprev v (fibers w) = a" "fdone (fib v a) = 0" "a \<noteq> fibers w" by auto
    let ?u = "\<lambda>b. b\<lparr>func := 0, data := 0, repeat := 0, ctx := After_first fr'\<rparr>"
    have r: "on_ring (upd_fib a ?u v) False [a] [Susp fr']"
      using all [rule_format, of ?u "Susp fr'"] a(4) by (simp add: entry_ok_def)
    have "entry_ok (fib (upd_fib a ?u v) (fibers (upd_fib a ?u v))) (New f d)" using assms(1) a by simp
    from switch_to [OF this, of enter fr' g']
    have "FiberYield mal enter fr' g' w = Some (Running (InFiber (enter f d)) g' (upd_fib a ?u v))"
      using assms(1) Some a by (simp add: FiberYield_def ring_def)
    then show thesis using r by (rule that(2) [OF _ exI])
  qed
qed

lemma yield_turn:
  assumes "on_ring w False xs q"
  obtains w' e q' xs' where "q @ [Susp fr] = e # q'" "FiberYield mal enter fr g w = Some (Running (entry_frame enter e) g w')"
    "on_ring w' False xs' q'"
proof -
  let ?h = "fibers w" and ?v = "upd_fib (fibers w) (\<lambda>b. b\<lparr>ctx := After_save fr, repeat := 0\<rparr>) w"
  obtain x ys where x: "xs @ [?h] = x # ys" by (cases "xs @ [?h]") auto
  obtain e q' where e: "q @ [Susp fr] = e # q'" by (cases "q @ [Susp fr]") auto
  let ?w = "?v\<lparr>fibers := x\<rparr>"
  have r: "ring (fnext w) (fprev w) ?h xs" and d: "fdone (fib w ?h) = 0" and l: "list_all2 (\<lambda>x e. entry_ok (fib w x) e) xs q"
    using assms by (auto simp: on_ring_def)
  have "fnext w ?h = x" using ring_first [OF r] x by (cases xs) auto
  then have y: "FiberYield mal enter fr g w = yield_tail enter fr g ?w"
    using assms d by (auto simp: FiberYield_def on_ring_def after_save_def Let_def)
  have "list_all2 (\<lambda>x e. entry_ok (fib ?v x) e) xs q"
    by (rule entries_cong [OF l]) (use r in \<open>auto simp: ring_def\<close>)
  moreover have "entry_ok (fib ?v ?h) (Susp fr)" using d by (simp add: entry_ok_def)
  ultimately have "list_all2 (\<lambda>x e. entry_ok (fib ?v x) e) (xs @ [?h]) (q @ [Susp fr])" by (intro list_all2_appendI) auto
  then have k: "entry_ok (fib ?w x) e" "list_all2 (\<lambda>x e. entry_ok (fib ?w x) e) ys q'" unfolding x e by auto
  have "ring (fnext w) (fprev w) x ys" using r x ring_rotate [of _ _ ?h] by (cases xs) auto
  moreover have "set (x # ys) = set (?h # xs)" unfolding x [symmetric] by auto
  moreover have "fdone (fib ?w x) = 0" using k(1) by (simp only: entry_ok_def)
  moreover have "0 \<notin> set (live w)" using assms unfolding on_ring_def by metis
  ultimately have "on_ring ?w False ys q'" using assms k(2) unfolding on_ring_def by auto
  with y switch_to [of ?w e enter fr g] k(1) e that show thesis by auto
qed

lemma yield_skip:
  assumes "on_ring w True xs q"
  obtains w' where "FiberYield mal enter fr g w = Some (Running fr g w')" "on_ring w' False xs q"
proof
  let ?w = "upd_fib (fibers w) (\<lambda>b. b\<lparr>ctx := After_save fr, repeat := 0, fdone := 0\<rparr>) w"
  have d: "fdone (fib w (fibers w)) = 1" using assms by (simp add: on_ring_def)
  show "FiberYield mal enter fr g w = Some (Running fr g ?w)"
    using assms d by (simp add: FiberYield_def on_ring_def after_save_def yield_tail_def Let_def)
  have "list_all2 (\<lambda>x e. entry_ok (fib ?w x) e) xs q"
    by (rule entries_cong [of "fib w"]) (use assms in \<open>auto simp: on_ring_def ring_def\<close>)
  moreover have "0 \<notin> set (live w)" using assms unfolding on_ring_def by metis
  ultimately show "on_ring ?w False xs q" using assms by (simp add: on_ring_def)
qed

lemma end_turn:
  assumes "on_ring w skip xs (e # q)"
  obtains w' xs' where "start_func_end kept enter g w = Some (Running (entry_frame enter e) g w')"
    "on_ring w' (\<exists>f d. e = New f d) xs' q"
proof -
  obtain x ys where x: "xs = x # ys" using assms by (cases xs) (auto simp: on_ring_def)
  let ?h = "fibers w"
  let ?v = "w\<lparr>fnext := (fnext w)(fprev w ?h := fnext w ?h), fprev := (fprev w)(fnext w ?h := fprev w ?h), live := removeAll ?h (live w), fibers := x\<rparr>"
  let ?u = "upd_fib x (\<lambda>b. b\<lparr>fdone := 1\<rparr>) ?v"
  let ?w = "case e of New f d \<Rightarrow> ?u | Susp _ \<Rightarrow> ?v"
  have r: "ring (fnext w) (fprev w) ?h (x # ys)" using assms x by (simp add: on_ring_def)
  have d: "?h \<noteq> x" "?h \<notin> set ys" "x \<notin> set ys" using r by (auto simp: ring_def)
  have "last (x # ys) \<in> set (x # ys)" by (rule last_in_set) simp
  then have n: "fnext w ?h = x" "fprev w ?h \<noteq> ?h" using ring_first [OF r] ring_last [OF r] d by auto
  have "ring (fnext ?v) (fprev ?v) x ys" using ring_unlink [of "fnext w" "fprev w" x ys ?h "[]"] ring_rotate [OF r] by simp
  moreover have "set (live ?v) = set (x # ys)" using assms d unfolding on_ring_def x by auto
  moreover have "0 \<notin> set (x # ys)" "first w = 1" using assms unfolding on_ring_def x by auto
  moreover have k: "entry_ok (fib ?v x) e" and l: "list_all2 (\<lambda>x e. entry_ok (fib ?v x) e) ys q"
    using assms x by (auto simp: on_ring_def)
  moreover have "list_all2 (\<lambda>x e. entry_ok (fib ?u x) e) ys q"
    by (rule entries_cong [OF l]) (use d in auto)
  moreover have "fdone (fib w x) = 0" using k by (simp add: entry_ok_def)
  ultimately have "on_ring ?w (\<exists>f d. e = New f d) ys q" by (cases e) (simp_all add: on_ring_def)
  moreover have "start_func_end kept enter g w = get_context enter g ?u"
    using n d \<open>set (live ?v) = set (x # ys)\<close> by (auto simp: start_func_end_def Let_def)
  moreover have "get_context enter g ?u = Some (Running (entry_frame enter e) g ?w)"
    using resume_done [of ?v e enter g] k by (cases e) simp_all
  ultimately have "start_func_end kept enter g w = Some (Running (entry_frame enter e) g ?w)" and "on_ring ?w (\<exists>f d. e = New f d) ys q" by simp_all
  then show thesis by (rule that)
qed

lemma dispatch_Cons: "dispatch enter b g (e # q) = Turn (entry_frame enter e) (b \<and> (\<exists>f d. e = New f d)) g q"
  by (cases e) auto

lemma frun_turn:
  assumes "on_ring w skip xs q" "fresh mal" "turns enter prog (Turn fr skip g q) \<noteq> Outside"
  shows "\<exists>r'. frun kept mal enter prog (Running fr g w) = Some r' \<and>
     (r' = Exited 1 \<and> (\<exists>w. \<forall>a. mal w \<noteq> Got a) \<or> refines r' (turns enter prog (Turn fr skip g q)))"
proof -
  obtain g' c where p: "prog (get_local fr) g = (g', c)" by fastforce
  show ?thesis
  proof (cases c)
    case (Spawn f d l)
    then show ?thesis using p spawn_turn [OF assms(1,2)] spawn_fails [of mal f d w] by (cases "FiberSpawn mal f d w") auto
  next
    case (Yield l)
    show ?thesis
    proof (cases skip)
      case True
      then have "on_ring w True xs q" using assms(1) by simp
      then obtain w' where "FiberYield mal enter (put_local fr l) g' w = Some (Running (put_local fr l) g' w')" "on_ring w' False xs q"
        by (rule yield_skip)
      then show ?thesis using p Yield True by auto
    next
      case False
      then have "on_ring w False xs q" using assms(1) by simp
      then obtain w' e q' xs' where "q @ [Susp (put_local fr l)] = e # q'"
        "FiberYield mal enter (put_local fr l) g' w = Some (Running (entry_frame enter e) g' w')" "on_ring w' False xs' q'"
        by (rule yield_turn)
      then show ?thesis using p Yield False by (auto simp: dispatch_Cons)
    qed
  next
    case (Try_join k)
    have "FiberTryJoin w = (if q = [] then 1 else 0)"
      using assms(1) ring_first [of "fnext w" "fprev w" "fibers w" xs]
      by (cases xs; cases q) (auto simp: FiberTryJoin_def on_ring_def ring_def)
    then show ?thesis using p Try_join assms(1) by auto
  next
    case Return
    then show ?thesis
    proof (cases "is_main fr")
      case False
      then obtain e q' where q: "q = e # q'" using assms(3) p Return by (cases q) auto
      with assms(1) have "on_ring w skip xs (e # q')" by simp
      then obtain w' xs' where "start_func_end kept enter g' w = Some (Running (entry_frame enter e) g' w')"
        "on_ring w' (\<exists>f d. e = New f d) xs' q'" by (rule end_turn)
      then show ?thesis using p Return False q by (auto simp: dispatch_Cons)
    qed (use p in auto)
  qed
qed

lemma frun_refines:
  assumes "refines r s" "fresh mal" "turns enter prog s \<noteq> Outside"
  shows "\<exists>r'. frun kept mal enter prog r = Some r' \<and> (r' = Exited 1 \<and> (\<exists>w. \<forall>a. mal w \<noteq> Got a) \<or> refines r' (turns enter prog s))"
  using assms
proof (induction r s rule: refines.induct)
  case (1 fr g w l g')
  then show ?case
  proof (cases "prog l g")
    case (Pair g2 c)
    with 1 spawn_boot [of w mal] show ?thesis
      by (cases c) (auto dest: spawn_fails simp: FiberYield_def FiberTryJoin_def split: option.splits)
  qed
next
  case (2 fr g w l g' f d)
  have r: "refines (Running fr g w) (One l g f d)" using 2 by auto
  show ?case
  proof (cases "prog l g")
    case (Pair g2 c)
    show ?thesis
    proof (cases c)
      case (Yield l')
      from yield_first [OF r "2.prems"(2), of enter "InMain l'" g2] show ?thesis
        by (cases rule: yield_first [OF r "2.prems"(2), of enter "InMain l'" g2]) (use 2 Pair Yield in auto)
    qed (use 2 Pair in \<open>auto simp: FiberTryJoin_def\<close>)
  qed
next
  case (3 fr g w fr' skip g' q)
  then obtain xs where "on_ring w skip xs q" by auto
  with 3 frun_turn [of w skip xs q mal enter prog fr g] show ?case by auto
qed auto

section \<open>Programs with fibers\<close>

fun fruns :: "nat \<Rightarrow> ('l fstate \<Rightarrow> bool) \<Rightarrow> ('l fstate \<Rightarrow> alloc) \<Rightarrow> (nat \<Rightarrow> nat \<Rightarrow> 'l) \<Rightarrow> ('l \<Rightarrow> 'g \<Rightarrow> 'g \<times> 'l call) \<Rightarrow> ('l, 'g) run \<Rightarrow> ('l, 'g) run option" where
  "fruns 0 keep mal enter prog r = Some r"
| "fruns (Suc n) keep mal enter prog r = Option.bind (fruns n keep mal enter prog r) (frun keep mal enter prog)"

lemma fruns_refines:
  assumes "refines r s" "fresh mal" "(turns enter prog ^^ n) s \<noteq> Outside"
  shows "\<exists>r'. fruns n kept mal enter prog r = Some r' \<and> (r' = Exited 1 \<and> (\<exists>w. \<forall>a. mal w \<noteq> Got a) \<or> refines r' ((turns enter prog ^^ n) s))"
  using assms(3)
proof (induction n)
  case (Suc n)
  then have "(turns enter prog ^^ n) s \<noteq> Outside" by auto
  with Suc obtain r' where r': "fruns n kept mal enter prog r = Some r'" "r' = Exited 1 \<and> (\<exists>w. \<forall>a. mal w \<noteq> Got a) \<or> refines r' ((turns enter prog ^^ n) s)" by blast
  then show ?case using frun_refines [OF _ assms(2), of r' "(turns enter prog ^^ n) s" enter prog] Suc.prems
    by (auto simp: Option.bind_eq_Some_conv) blast
qed (use assms(1) in simp)

text \<open>Within its limits the code does what it promises.\<close>

fun promised :: "('l, 'g) spec \<Rightarrow> stage \<Rightarrow> ('l, 'g) robin \<Rightarrow> bool" where
  "promised (Boot l g) h s \<longleftrightarrow> h = Unswitched \<and> s = Now (InMain l) g []"
| "promised (One l g f d) h s \<longleftrightarrow> h = Unswitched \<and> s = Now (InMain l) g [New f d]"
| "promised (Turn fr skip g q) h s \<longleftrightarrow> h = (if skip then Handed else Switched) \<and> s = Now fr g q"
| "promised (Ended g) h s \<longleftrightarrow> s = Over g"
| "promised Outside h s \<longleftrightarrow> False"

lemma promised_dispatch: "q \<noteq> [] \<Longrightarrow>
    promised (dispatch enter e g q) (case q of New f d # _ \<Rightarrow> if e then Handed else Switched | _ \<Rightarrow> Switched) (rr_next enter g q)"
  by (induction enter e g q rule: dispatch.induct) auto

lemma turns_step:
  assumes "promised t h s" "within prog h s = Some h'"
  shows "promised (turns enter prog t) h' (rr enter prog s)"
proof (cases t)
  case (Turn fr skip g q)
  obtain g' c where p: "prog (get_local fr) g = (g', c)" by fastforce
  show ?thesis using assms Turn p promised_dispatch [of "q @ [Susp (put_local fr l)]" enter False g' for l] promised_dispatch [of q enter True g']
    by (cases c; cases q) (auto split: if_splits entry.splits)
qed (use assms in \<open>auto split: call.splits if_splits prod.splits\<close>)

lemma turns_promised:
  "usage n enter prog h s = Some h' \<Longrightarrow> promised t h s \<Longrightarrow> promised ((turns enter prog ^^ n) t) h' ((rr enter prog ^^ n) s)"
proof (induction n arbitrary: h s t)
  case (Suc n)
  then obtain h0 where h: "within prog h s = Some h0" "usage n enter prog h0 (rr enter prog s) = Some h'"
    by (auto simp: Option.bind_eq_Some_conv)
  from Suc.IH [OF h(2) turns_step [OF Suc.prems(2) h(1)]] show ?case by (simp add: funpow_swap1)
qed simp

text \<open>What a run and its specification show: who runs, and the globals.\<close>

fun seen :: "('l, 'g) run \<Rightarrow> ('l frame option \<times> 'g) option" where
  "seen (Running fr g w) = Some (Some fr, g)"
| "seen (Finished g) = Some (None, g)"
| "seen _ = None"

fun shown :: "('l, 'g) robin \<Rightarrow> 'l frame option \<times> 'g" where
  "shown (Now fr g q) = (Some fr, g)"
| "shown (Over g) = (None, g)"

lemma refines_seen: "refines r t \<Longrightarrow> promised t h s \<Longrightarrow> seen r = Some (shown s)"
  by (induction r t rule: refines.induct) auto

text \<open>Memory that is given back ends the run, and changes nothing else.\<close>

lemma frun_keep: "frun keep mal enter prog r = frun kept mal enter prog r \<or> frun keep mal enter prog r = Some Crashed \<and> (\<exists>w. \<not> keep w)"
  by (cases r) (auto simp: start_func_end_def Let_def split: call.splits prod.splits)

lemma fruns_keep: "fruns n keep mal enter prog r = fruns n kept mal enter prog r \<or> fruns n keep mal enter prog r = Some Crashed \<and> (\<exists>w. \<not> keep w)"
proof (induction n)
  case (Suc n)
  then show ?case
  proof
    assume "fruns n keep mal enter prog r = fruns n kept mal enter prog r"
    then show ?thesis using frun_keep [of keep mal enter prog] by (cases "fruns n kept mal enter prog r") auto
  qed simp
qed simp

lemma start_refines: "refines (Running (InMain l) g fstart) (Boot l g)"
  by (simp add: fstart_def)

subsection \<open>The program of \<open>main.c\<close>\<close>

text \<open>
  The locals say where a function stands: \<open>FuncB\<close> with its counter, \<open>FuncA\<close>, and \<open>Test\<close> before and in its loop.
  The globals are \<open>FiberIds\<close> up to \<open>CurrentId\<close>.
\<close>

datatype point = At_test | At_join | At_loop int | At_yielded | At_A | At_B | At_B_yield nat | At_B_back nat

fun main_enter :: "nat \<Rightarrow> nat \<Rightarrow> point" where
  "main_enter f d = (if f = 1 \<and> d = 0xAAA then At_A else At_B)"

fun main_prog :: "point \<Rightarrow> nat list \<Rightarrow> nat list \<times> point call" where
  "main_prog At_test ids = (ids, Spawn 2 0xBBB At_join)"
| "main_prog At_join ids = (ids @ [0], Try_join At_loop)"
| "main_prog (At_loop j) ids = (ids, if j = 0 then Yield At_yielded else Return)"
| "main_prog At_yielded ids = (ids @ [0], Try_join At_loop)"
| "main_prog At_A ids = (ids @ [2], Return)"
| "main_prog At_B ids = (ids @ [1], Spawn 1 0xAAA (At_B_yield 0))"
| "main_prog (At_B_yield i) ids = (ids, Yield (At_B_back i))"
| "main_prog (At_B_back i) ids = (ids @ [1], if Suc i < 3 then Spawn 1 0xAAA (At_B_yield (Suc i)) else Return)"

text \<open>An allocator that never reuses a fiber.\<close>

definition bump :: "'l fstate \<Rightarrow> alloc" where
  "bump w = Got (Suc (sum_list (live w)))"

lemma fresh_bump: "fresh bump"
  using member_le_sum_list by (fastforce simp: fresh_def bump_def)

text \<open>C15: fibers run in turn.  For every program and every allocator that hands out fresh memory, as long as the calls stay
  \<open>within\<close> the limits above, every run of the library shows exactly what the round robin of \<open>fiber.h\<close> shows: the same
  function runs, with the same locals and the same globals, after every call.  The run never gets stuck in
  \<open>get_context\<close>; it ends early only when there is no memory for a fiber, or in a crash when the allocator gives back the
  freed stack on which \<open>start_func\<close> still runs.\<close>

theorem fibers_round_robin:
  assumes "fresh mal" and "usage n enter prog Unswitched (Now (InMain l) g []) \<noteq> None"
  shows "\<exists>r. fruns n keep mal enter prog (Running (InMain l) g fstart) = Some r \<and>
     (r = Exited 1 \<and> (\<exists>w. \<forall>a. mal w \<noteq> Got a) \<or> r = Crashed \<and> (\<exists>w. \<not> keep w) \<or>
      seen r = Some (shown ((rr enter prog ^^ n) (Now (InMain l) g []))))"
proof -
  obtain h where h: "usage n enter prog Unswitched (Now (InMain l) g []) = Some h" using assms(2) by auto
  have p: "promised ((turns enter prog ^^ n) (Boot l g)) h ((rr enter prog ^^ n) (Now (InMain l) g []))"
    by (rule turns_promised [OF h]) simp
  have "(turns enter prog ^^ n) (Boot l g) \<noteq> Outside" using p by auto
  from fruns_refines [OF start_refines assms(1) this] p refines_seen [OF _ p] fruns_keep [of n keep mal enter prog "Running (InMain l) g fstart"]
  show ?thesis by metis
qed

text \<open>The program of \<open>main.c\<close> stays within the limits and leaves the numbers that its assertions ask for.\<close>

lemma main_spec:
  "(rr main_enter main_prog ^^ 30) (Now (InMain At_test) [] []) = Over [0, 1, 0, 2, 1, 0, 2, 1, 0, 2, 1, 0]"
  "usage 30 main_enter main_prog Unswitched (Now (InMain At_test) [] []) \<noteq> None"
  by (simp_all add: numeral_eq_Suc funpow_swap1)

lemma seen_over: "seen r = Some (None, g) \<Longrightarrow> r = Finished g"
  by (cases r) auto

theorem fibers_round_robin_witness:
  "fruns 30 kept bump main_enter main_prog (Running (InMain At_test) [] fstart) =
     Some (Finished [0, 1, 0, 2, 1, 0, 2, 1, 0, 2, 1, 0])"
  using fibers_round_robin [OF fresh_bump main_spec(2), of kept] unfolding main_spec(1)
  by (auto simp: bump_def dest: seen_over)

text \<open>Where the code departs from \<open>fiber.h\<close>.  A fiber that starts because another one ended returns at once from its first yield,
  without letting any other fiber run.\<close>

lemma handed_yield:
  assumes "on_ring w True xs q"
  shows "\<exists>w'. FiberYield mal enter fr g w = Some (Running fr g w') \<and> on_ring w' False xs q"
  using yield_skip [OF assms] by metis

section \<open>Two fibers before the first switch\<close>

lemma lost_fiber:
  assumes "fresh mal" "FiberSpawn mal f1 d1 fstart = Some w1" "FiberSpawn mal f2 d2 w1 = Some w2"
  shows "\<exists>w. FiberYield mal enter (InMain l) g w2 = Some (Running (InFiber (enter f2 d2)) g w) \<and>
     (\<forall>a. a \<in> set (live w) \<and> a \<noteq> fibers w \<longrightarrow> ctx (fib w a) = After_save (InMain l))"
proof -
  have f: "fibers fstart = 0" "first fstart = 0" "live fstart = []" by (simp_all add: fstart_def)
  have w1: "refines (Running (InMain l) g w1) (One l g f1 d1)" by (rule spawn_boot [OF f assms(1,2)])
  let ?h = "fibers w1"
  have h: "?h \<noteq> 0" "fnext w1 ?h = ?h" "fprev w1 ?h = ?h" "live w1 = [?h]" "first w1 = 0" "fdone (fib w1 ?h) = 0"
    using w1 by (auto simp: ring_def entry_ok_def)
  from assms(3) obtain a where m: "mal w1 = Got a" by (auto simp: FiberSpawn_def create_new_fiber_def split: alloc.splits)
  with assms(1) have "a \<noteq> 0" "a \<notin> set (live w1)" by (auto simp: fresh_def)
  then have a: "a \<noteq> 0" "a \<noteq> ?h" unfolding h(4) by simp_all
  have w2: "fibers w2 = ?h" "first w2 = 0" "fnext w2 ?h = a" "live w2 = [a, ?h]" "fib w2 ?h = fib w1 ?h"
    "fdone (fib w2 a) = 0" "repeat (fib w2 a) = 1" "ctx (fib w2 a) = Start" "func (fib w2 a) = f2" "data (fib w2 a) = d2"
    using assms(3) m a h by (auto simp: FiberSpawn_def create_new_fiber_def Let_def)
  let ?w = "upd_fib ?h (\<lambda>b. b\<lparr>ctx := After_save (InMain l), repeat := 0\<rparr>) w2\<lparr>fibers := a\<rparr>"
  have "entry_ok (fib ?w (fibers ?w)) (New f2 d2)" using w2 a by (simp add: entry_ok_def)
  from switch_to [OF this, of enter "InMain l" g]
  have "FiberYield mal enter (InMain l) g w2 = Some (Running (InFiber (enter f2 d2)) g ?w)"
    using w2 a h by (simp add: FiberYield_def after_save_def Let_def)
  moreover have "ctx (fib ?w x) = After_save (InMain l)" if "x \<in> set (live ?w)" "x \<noteq> fibers ?w" for x using that w2 by auto
  ultimately show ?thesis by blast
qed

datatype wait_point = W_one | W_two | W_join | W_got int | W_fiber

fun wait_prog :: "wait_point \<Rightarrow> unit \<Rightarrow> unit \<times> wait_point call" where
  "wait_prog W_one g = (g, Spawn 1 0 W_two)"
| "wait_prog W_two g = (g, Spawn 2 0 W_join)"
| "wait_prog W_join g = (g, Try_join W_got)"
| "wait_prog (W_got j) g = (g, if j = 0 then Yield W_join else Return)"
| "wait_prog W_fiber g = (g, Return)"

abbreviation wait_runs :: "nat \<Rightarrow> (wait_point, unit) run option" where
  "wait_runs n \<equiv> fruns n kept bump (\<lambda>_ _. W_fiber) wait_prog (Running (InMain W_one) () fstart)"

text \<open>Two contexts of \<open>main\<close> take turns.\<close>

lemma wait_turn: "\<exists>w. wait_runs 11 = Some (Running (InMain W_join) () w) \<and> on_ring w False [2] [Susp (InMain W_join)]"
  by (simp add: numeral_eq_Suc fstart_def FiberSpawn_def create_new_fiber_def bump_def Let_def FiberYield_def FiberTryJoin_def
      yield_tail_def get_context.simps after_save_def start_func_end_def on_ring_def entry_ok_def ring_def insert_commute)

lemma wait_more:
  "\<exists>r l. wait_runs (11 + n) = Some r \<and> l \<in> {W_join, W_got 0} \<and> refines r (Turn (InMain l) False () [Susp (InMain W_join)])"
proof (induction n)
  case 0
  then show ?case using wait_turn by fastforce
next
  case (Suc n)
  then obtain r l where r: "wait_runs (11 + n) = Some r" "l \<in> {W_join, W_got 0}" "refines r (Turn (InMain l) False () [Susp (InMain W_join)])"
    by blast
  have s: "turns (\<lambda>_ _. W_fiber) wait_prog (Turn (InMain l) False () [Susp (InMain W_join)]) =
      Turn (InMain (if l = W_join then W_got 0 else W_join)) False () [Susp (InMain W_join)]" using r(2) by auto
  from frun_refines [OF r(3) fresh_bump, of "\<lambda>_ _. W_fiber" wait_prog] obtain r' where
    "frun kept bump (\<lambda>_ _. W_fiber) wait_prog r = Some r'" "refines r' (Turn (InMain (if l = W_join then W_got 0 else W_join)) False () [Susp (InMain W_join)])"
    unfolding s by (auto simp: bump_def)
  moreover have "wait_runs (11 + Suc n) = Option.bind (wait_runs (11 + n)) (frun kept bump (\<lambda>_ _. W_fiber) wait_prog)"
    by (simp only: add_Suc_right fruns.simps)
  ultimately have "wait_runs (11 + Suc n) = Some r'" using r(1) by (simp only: Option.bind.simps)
  with \<open>refines r' _\<close> show ?case by (intro exI conjI) auto
qed

lemma fruns_finished: "fruns n kept mal enter prog r = Some (Finished g) \<Longrightarrow> fruns (n + k) kept mal enter prog r = Some (Finished g)"
  by (induction k) auto

lemma wait_forever: "fruns n keep bump (\<lambda>_ _. W_fiber) wait_prog (Running (InMain W_one) () fstart) \<noteq> Some (Finished g)"
proof -
  have "wait_runs n \<noteq> Some (Finished g)"
    using wait_more [of n] fruns_finished [of n bump "\<lambda>_ _. W_fiber" wait_prog _ g 11] by (auto simp: add.commute)
  then show ?thesis using fruns_keep [of n keep bump "\<lambda>_ _. W_fiber" wait_prog "Running (InMain W_one) () fstart"] by auto
qed

text \<open>C16: a fiber that is lost.  When \<open>main\<close> spawns two fibers before it first yields, the yield saves the context of \<open>main\<close>
  over that of the first fiber and runs the second: every other fiber continues \<open>main\<close>, and none is left that would
  start the function of the first.  A \<open>main\<close> that then waits with \<open>FiberTryJoin\<close> for fibers that end at once waits forever.\<close>

theorem fiber_lost:
  assumes "fresh mal" and "FiberSpawn mal f1 d1 fstart = Some w1" and "FiberSpawn mal f2 d2 w1 = Some w2"
  shows "(\<exists>w. FiberYield mal enter (InMain l) g w2 = Some (Running (InFiber (enter f2 d2)) g w) \<and>
       (\<forall>a. a \<in> set (live w) \<and> a \<noteq> fibers w \<longrightarrow> ctx (fib w a) = After_save (InMain l))) \<and>
     (\<forall>n keep. fruns n keep bump (\<lambda>_ _. W_fiber) wait_prog (Running (InMain W_one) () fstart) \<noteq> Some (Finished ()))"
  by (intro conjI allI lost_fiber [OF assms] wait_forever)

theorem fiber_lost_witness:
  "\<exists>w1 w2 w. FiberSpawn bump 1 0 fstart = Some w1 \<and> FiberSpawn bump 2 0 w1 = Some w2 \<and>
     FiberYield bump (\<lambda>_ _. W_fiber) (InMain W_join) () w2 = Some (Running (InFiber W_fiber) () w)"
proof -
  have "FiberSpawn bump f d w \<noteq> None" for f d and w :: "wait_point fstate"
    using spawn_fails [of bump f d w] by (auto simp: bump_def)
  then obtain w1 w2 :: "wait_point fstate" where w: "FiberSpawn bump 1 0 fstart = Some w1" "FiberSpawn bump 2 0 w1 = Some w2"
    by (metis option.exhaust)
  from fiber_lost [OF fresh_bump w, of "\<lambda>_ _. W_fiber" W_join "()"] w show ?thesis by auto
qed

end
