(* ===== verification/Ide.thy ===== *)
theory Ide
  imports Bio
begin

text \<open>
  \<^verbatim>\<open>src/alarm/ide.c\<close>: the driver of the IDE disk, whose requests wait in a queue and are finished by interrupts.  Blocks
  have the size of a sector, so that a request is one sector.  The disk is not part of the program: it is the parameter \<open>D\<close>, with
  what the driver relies on in the predicate \<open>ata_disk\<close>.  \<open>st k\<close> is the status byte that the \<open>k\<close>-th read of port \<open>0x1f7\<close> in a
  call returns.  The lock \<open>idelock\<close> makes \<open>ideintr\<close>, and \<open>iderw\<close> up to its sleep, one step each.
\<close>

section \<open>The disk\<close>

abbreviation FSSIZE :: nat where "FSSIZE \<equiv> 1000"
abbreviation SECTOR_SIZE :: nat where "SECTOR_SIZE \<equiv> 512"
abbreviation IDE_BSY :: byte where "IDE_BSY \<equiv> 0x80"
abbreviation IDE_DRDY :: byte where "IDE_DRDY \<equiv> 0x40"
abbreviation IDE_DF :: byte where "IDE_DF \<equiv> 0x20"
abbreviation IDE_ERR :: byte where "IDE_ERR \<equiv> 0x01"
abbreviation IDE_CMD_READ :: byte where "IDE_CMD_READ \<equiv> 0x20"
abbreviation IDE_CMD_WRITE :: byte where "IDE_CMD_WRITE \<equiv> 0x30"
abbreviation IDE_CMD_RDMUL :: byte where "IDE_CMD_RDMUL \<equiv> 0xc4"
abbreviation IDE_CMD_WRMUL :: byte where "IDE_CMD_WRMUL \<equiv> 0xc5"

text \<open>What the ATA standard speaks of: the task file registers, the command under way, the data sent with it, and the sectors of
  the two disks.\<close>

record idedisk =
  nsect :: byte
  lba0 :: byte
  lba1 :: byte
  lba2 :: byte
  drive :: byte
  cmd :: "byte option"
  sent :: mem
  sectors :: "bool \<Rightarrow> nat \<Rightarrow> mem"

text \<open>A device: what writing a port, and writing and reading a block through the data port do to it, how it is when the command
  under way has ended, without or with an error, and what there is to observe.\<close>

record 'd device =
  d_outb :: "nat \<Rightarrow> byte \<Rightarrow> 'd \<Rightarrow> 'd"
  d_outsl :: "mem \<Rightarrow> 'd \<Rightarrow> 'd"
  d_insl :: "'d \<Rightarrow> mem \<times> 'd"
  d_done :: "bool \<Rightarrow> 'd \<Rightarrow> 'd"
  d_obs :: "'d \<Rightarrow> idedisk"

text \<open>The disk that the registers select, and the sector, a number of 28 bits (in LBA mode, bit 6 of the drive register).\<close>

definition hd_unit :: "idedisk \<Rightarrow> bool" where
  "hd_unit d = bit (drive d) 4"

definition hd_lba :: "idedisk \<Rightarrow> nat" where
  "hd_lba d = unat (lba0 d) + 256 * unat (lba1 d) + 65536 * unat (lba2 d) + 16777216 * unat (drive d AND 0x0f)"

definition one_sector :: "idedisk \<Rightarrow> bool" where
  "one_sector d \<longleftrightarrow> nsect d = 1 \<and> bit (drive d) 6"

text \<open>
  The behaviour of ATA disks in PIO mode, as far as the driver uses it.  An idle disk takes its registers and a command; the
  data of a write follow the command; a command ends and leaves the disk idle.  A write of one sector that ends without an
  error has changed that sector and no other; after a read of one sector its bytes are at the data port.  Nothing is said
  of the sectors after an error.
\<close>

definition ata_registers :: "'d device \<Rightarrow> bool" where
  "ata_registers D \<longleftrightarrow> (\<forall>d v. cmd (d_obs D d) = None \<longrightarrow>
     d_obs D (d_outb D 0x3f6 0 d) = d_obs D d \<and> d_obs D (d_outb D 0x1f2 v d) = (d_obs D d)\<lparr>nsect := v\<rparr> \<and>
     d_obs D (d_outb D 0x1f3 v d) = (d_obs D d)\<lparr>lba0 := v\<rparr> \<and> d_obs D (d_outb D 0x1f4 v d) = (d_obs D d)\<lparr>lba1 := v\<rparr> \<and>
     d_obs D (d_outb D 0x1f5 v d) = (d_obs D d)\<lparr>lba2 := v\<rparr> \<and> d_obs D (d_outb D 0x1f6 v d) = (d_obs D d)\<lparr>drive := v\<rparr> \<and>
     d_obs D (d_outb D 0x1f7 v d) = (d_obs D d)\<lparr>cmd := Some v\<rparr>)"

definition ata_transfers :: "'d device \<Rightarrow> bool" where
  "ata_transfers D \<longleftrightarrow>
     (\<forall>d m. cmd (d_obs D d) = Some IDE_CMD_WRITE \<longrightarrow> d_obs D (d_outsl D m d) = (d_obs D d)\<lparr>sent := m\<rparr>) \<and>
     (\<forall>d fail. cmd (d_obs D d) \<noteq> None \<longrightarrow> cmd (d_obs D (d_done D fail d)) = None) \<and>
     (\<forall>d. cmd (d_obs D d) = Some IDE_CMD_WRITE \<and> one_sector (d_obs D d) \<longrightarrow>
        sectors (d_obs D (d_done D False d)) = (let o' = d_obs D d in
          (sectors o')(hd_unit o' := (sectors o' (hd_unit o'))(hd_lba o' := sent o')))) \<and>
     (\<forall>d. cmd (d_obs D d) = Some IDE_CMD_READ \<and> one_sector (d_obs D d) \<longrightarrow>
        sectors (d_obs D (d_done D False d)) = sectors (d_obs D d) \<and>
        fst (d_insl D (d_done D False d)) = sectors (d_obs D d) (hd_unit (d_obs D d)) (hd_lba (d_obs D d))) \<and>
     (\<forall>d. sectors (d_obs D (snd (d_insl D d))) = sectors (d_obs D d) \<and> cmd (d_obs D (snd (d_insl D d))) = cmd (d_obs D d))"

definition ata_disk :: "'d device \<Rightarrow> bool" where
  "ata_disk D \<longleftrightarrow> ata_registers D \<and> ata_transfers D"

section \<open>The driver\<close>

record 'd ide =
  ibufs :: "nat \<Rightarrow> buf"
  qnext :: "nat \<Rightarrow> nat option"
  idequeue :: "nat option"
  havedisk1 :: bool
  hdisk :: 'd

abbreviation upd_ibuf :: "nat \<Rightarrow> (buf \<Rightarrow> buf) \<Rightarrow> 'd ide \<Rightarrow> 'd ide" where
  "upd_ibuf b f s \<equiv> s\<lparr>ibufs := (ibufs s)(b := f (ibufs s b))\<rparr>"

partial_function (option) idewait_from :: "(nat \<Rightarrow> byte) \<Rightarrow> nat \<Rightarrow> byte option" where
  "idewait_from st k = (if st k AND (IDE_BSY OR IDE_DRDY) \<noteq> IDE_DRDY then idewait_from st (Suc k) else Some (st k))"

definition idewait :: "(nat \<Rightarrow> byte) \<Rightarrow> bool \<Rightarrow> int option" where
  "idewait st checkerr =
     map_option (\<lambda>r. if checkerr \<and> r AND (IDE_DF OR IDE_ERR) \<noteq> 0 then -1 else 0) (idewait_from st 0)"

text \<open>\<open>ideinit\<close>: up to a thousand reads of the status look for the second disk.\<close>

definition ideinit :: "'d device \<Rightarrow> (nat \<Rightarrow> byte) \<Rightarrow> (nat \<Rightarrow> byte) \<Rightarrow> 'd ide \<Rightarrow> 'd ide outcome" where
  "ideinit D st st1 s =
     (case idewait st False of None \<Rightarrow> Forever
      | Some _ \<Rightarrow>
          let s = s\<lparr>hdisk := d_outb D 0x1f6 (0xe0 OR push_bit 4 1) (hdisk s)\<rparr>;
              s = (if \<exists>i<1000. st1 i \<noteq> 0 then s\<lparr>havedisk1 := True\<rparr> else s)
          in Ok (s\<lparr>hdisk := d_outb D 0x1f6 (0xe0 OR push_bit 4 0) (hdisk s)\<rparr>))"

definition idestart :: "'d device \<Rightarrow> (nat \<Rightarrow> byte) \<Rightarrow> nat option \<Rightarrow> 'd ide \<Rightarrow> 'd ide outcome" where
  "idestart D st ob s =
     (case ob of None \<Rightarrow> Panic ''idestart''
      | Some b \<Rightarrow>
          if FSSIZE \<le> blockno (ibufs s b) then Panic ''incorrect blockno''
          else
            let sector_per_block = BSIZE div SECTOR_SIZE;
                sector = word_of_nat (blockno (ibufs s b) * sector_per_block) :: word32;
                read_cmd = (if sector_per_block = 1 then IDE_CMD_READ else IDE_CMD_RDMUL);
                write_cmd = (if sector_per_block = 1 then IDE_CMD_WRITE else IDE_CMD_WRMUL)
            in if 7 < sector_per_block then Panic ''idestart''
            else case idewait st False of None \<Rightarrow> Forever
            | Some _ \<Rightarrow>
                let d = hdisk s;
                    d = d_outb D 0x3f6 0 d;
                    d = d_outb D 0x1f2 (of_nat sector_per_block) d;
                    d = d_outb D 0x1f3 (ucast (sector AND 0xff)) d;
                    d = d_outb D 0x1f4 (ucast (drop_bit 8 sector AND 0xff)) d;
                    d = d_outb D 0x1f5 (ucast (drop_bit 16 sector AND 0xff)) d;
                    d = d_outb D 0x1f6 (0xe0 OR push_bit 4 (of_nat (bdev (ibufs s b)) AND 1) OR ucast (drop_bit 24 sector AND 0x0f)) d
                in Ok (s\<lparr>hdisk := (if bflags (ibufs s b) AND B_DIRTY \<noteq> 0
                     then d_outsl D (bdata (ibufs s b)) (d_outb D 0x1f7 write_cmd d)
                     else d_outb D 0x1f7 read_cmd d)\<rparr>))"

text \<open>The buffer whose sleeper is woken comes with the new state.\<close>

definition ideintr :: "'d device \<Rightarrow> (nat \<Rightarrow> byte) \<Rightarrow> (nat \<Rightarrow> byte) \<Rightarrow> 'd ide \<Rightarrow> (nat option \<times> 'd ide) outcome" where
  "ideintr D st st' s =
     (case idequeue s of None \<Rightarrow> Ok (None, s)
      | Some b \<Rightarrow>
          let s = s\<lparr>idequeue := qnext s b\<rparr> in
          case (if bflags (ibufs s b) AND B_DIRTY = 0 then idewait st True else Some (-1)) of
            None \<Rightarrow> Forever
          | Some r \<Rightarrow>
              let s = (if bflags (ibufs s b) AND B_DIRTY = 0 \<and> 0 \<le> r
                       then (case d_insl D (hdisk s) of (m, d) \<Rightarrow> (upd_ibuf b (\<lambda>x. x\<lparr>bdata := m\<rparr>) s)\<lparr>hdisk := d\<rparr>) else s);
                  s = upd_ibuf b (\<lambda>x. x\<lparr>bflags := bflags x OR B_VALID\<rparr>) s;
                  s = upd_ibuf b (\<lambda>x. x\<lparr>bflags := bflags x AND NOT B_DIRTY\<rparr>) s
              in if idequeue s \<noteq> None then bindE (idestart D st' (idequeue s) s) (\<lambda>s. Ok (Some b, s)) else Ok (Some b, s))"

partial_function (option) queue_tail :: "(nat \<Rightarrow> nat option) \<Rightarrow> nat \<Rightarrow> nat option" where
  "queue_tail nx b = (case nx b of None \<Rightarrow> Some b | Some c \<Rightarrow> queue_tail nx c)"

text \<open>\<open>iderw\<close> up to its loop, and the test of the loop.\<close>

definition iderw_queue :: "nat \<Rightarrow> 'd ide \<Rightarrow> 'd ide option" where
  "iderw_queue b s =
     (let s = s\<lparr>qnext := (qnext s)(b := None)\<rparr> in
      case idequeue s of
        None \<Rightarrow> Some (s\<lparr>idequeue := Some b\<rparr>)
      | Some h \<Rightarrow> map_option (\<lambda>t. s\<lparr>qnext := (qnext s)(t := Some b)\<rparr>) (queue_tail (qnext s) h))"

definition iderw_start :: "'d device \<Rightarrow> (nat \<Rightarrow> byte) \<Rightarrow> nat \<Rightarrow> 'd ide \<Rightarrow> 'd ide outcome" where
  "iderw_start D st b s =
     (if \<not> holdingsleep (block_lock (ibufs s b)) then Panic ''iderw: buf not locked''
      else if bflags (ibufs s b) AND (B_VALID OR B_DIRTY) = B_VALID then Panic ''iderw: nothing to do''
      else if bdev (ibufs s b) \<noteq> 0 \<and> \<not> havedisk1 s then Panic ''iderw: ide disk 1 not present''
      else case iderw_queue b s of None \<Rightarrow> Forever
      | Some s \<Rightarrow> if idequeue s = Some b then idestart D st (Some b) s else Ok s)"

definition iderw_done :: "nat \<Rightarrow> 'd ide \<Rightarrow> bool" where
  "iderw_done b s \<longleftrightarrow> bflags (ibufs s b) AND (B_VALID OR B_DIRTY) = B_VALID"

section \<open>Processes and interrupts\<close>

text \<open>
  A process that holds a buffer may change it, except while it waits for the disk.  \<open>phase\<close> says for a
  buffer whether its holder is outside \<open>iderw\<close>, asleep in it, or woken and about to test the flags.  The disk interrupts when
  the command under way is done, with or without an error; a ready disk shows it in its status sooner or later.
\<close>

datatype iphase = Out | Asleep | Woken

definition ready :: "(nat \<Rightarrow> byte) \<Rightarrow> bool" where
  "ready st \<longleftrightarrow> (\<exists>k. st k AND (IDE_BSY OR IDE_DRDY) = IDE_DRDY)"

definition failed :: "(nat \<Rightarrow> byte) \<Rightarrow> bool" where
  "failed st \<longleftrightarrow> idewait st True = Some (-1)"

inductive ide_step :: "'d device \<Rightarrow> 'd ide \<times> (nat \<Rightarrow> iphase) \<Rightarrow> 'd ide \<times> (nat \<Rightarrow> iphase) \<Rightarrow> bool" for D where
  change: "ph b = Out \<Longrightarrow> ide_step D (s, ph) (upd_ibuf b (\<lambda>_. x) s, ph)"
| request: "ph b = Out \<Longrightarrow> blockno (ibufs s b) < FSSIZE \<Longrightarrow> ready st \<Longrightarrow> iderw_start D st b s = Ok s' \<Longrightarrow>
    ide_step D (s, ph) (s', ph(b := Asleep))"
| interrupt: "cmd (d_obs D (hdisk s)) \<noteq> None \<Longrightarrow> ready st \<Longrightarrow> ready st' \<Longrightarrow>
    ideintr D st st' (s\<lparr>hdisk := d_done D (failed st) (hdisk s)\<rparr>) = Ok (Some b, s') \<Longrightarrow>
    ide_step D (s, ph) (s', if ph b = Asleep then ph(b := Woken) else ph)"
| resume: "ph b = Woken \<Longrightarrow> ide_step D (s, ph) (s, ph(b := if iderw_done b s then Out else Asleep))"

inductive ide_reach :: "'d device \<Rightarrow> 'd ide \<times> (nat \<Rightarrow> iphase) \<Rightarrow> bool" for D where
  ide_boot: "idequeue s = None \<Longrightarrow> cmd (d_obs D (hdisk s)) = None \<Longrightarrow> ide_reach D (s, \<lambda>_. Out)"
| ide_run: "ide_reach D c \<Longrightarrow> ide_step D c c' \<Longrightarrow> ide_reach D c'"

section \<open>The command for a buffer\<close>

definition started :: "'d device \<Rightarrow> nat \<Rightarrow> 'd ide \<Rightarrow> bool" where
  "started D b s \<longleftrightarrow> (let o' = d_obs D (hdisk s) in
     one_sector o' \<and> hd_unit o' = odd (bdev (ibufs s b)) \<and> hd_lba o' = blockno (ibufs s b) \<and>
     cmd o' = Some (if bit (bflags (ibufs s b)) 2 then IDE_CMD_WRITE else IDE_CMD_READ) \<and>
     (bit (bflags (ibufs s b)) 2 \<longrightarrow> sent o' = bdata (ibufs s b)))"

lemma idewait_from_ready: "st (k + n) AND (IDE_BSY OR IDE_DRDY) = IDE_DRDY \<Longrightarrow> \<exists>r. idewait_from st k = Some r"
  by (induction n arbitrary: k; subst idewait_from.simps) auto

lemma idewait_ready: "ready st \<Longrightarrow> \<exists>r. idewait st c = Some r"
  unfolding ready_def idewait_def using idewait_from_ready [of st 0] by auto

lemma idewait_value: "idewait st True = Some r \<Longrightarrow> 0 \<le> r \<longleftrightarrow> \<not> failed st"
  by (auto simp: idewait_def failed_def split: if_splits)

text \<open>The four registers hold the 28 bits of the sector and the number of the disk.\<close>

lemma sector_bytes:
  fixes w :: word32
  shows "unat (ucast (w AND 0xff) :: byte) = unat w mod 256"
    "unat (ucast (drop_bit 8 w AND 0xff) :: byte) = unat w div 256 mod 256"
    "unat (ucast (drop_bit 16 w AND 0xff) :: byte) = unat w div 65536 mod 256"
    "unat (ucast (drop_bit 24 w AND 0x0f) :: byte) = unat w div 16777216 mod 16"
proof -
  have m: "w AND 0xff = take_bit 8 w" "w AND 0x0f = take_bit 4 w" for w :: word32
    by (simp_all add: take_bit_eq_mask mask_eq_exp_minus_1)
  have u: "unat (ucast (take_bit k w) :: byte) = unat w mod 2 ^ k" if "k \<le> 8" for k and w :: word32
  proof -
    have "unat w mod 2 ^ k < 2 ^ k" by simp
    also have "(2::nat) ^ k \<le> 2 ^ 8" using that by (intro power_increasing) auto
    finally have "unat w mod 2 ^ k mod 2 ^ 8 = unat w mod 2 ^ k" by simp
    moreover have "unat (take_bit k w) = unat w mod 2 ^ k" by (simp add: unsigned_take_bit_eq flip: take_bit_eq_mod)
    ultimately show ?thesis using that by (simp add: unsigned_ucast_eq min_absorb2 flip: take_bit_eq_mod)
  qed
  show "unat (ucast (w AND 0xff) :: byte) = unat w mod 256"
    "unat (ucast (drop_bit 8 w AND 0xff) :: byte) = unat w div 256 mod 256"
    "unat (ucast (drop_bit 16 w AND 0xff) :: byte) = unat w div 65536 mod 256"
    "unat (ucast (drop_bit 24 w AND 0x0f) :: byte) = unat w div 16777216 mod 16"
    unfolding m by (simp_all add: u unat_drop_bit_eq) (simp_all add: drop_bit_eq_div)
qed

lemma drive_byte:
  fixes u :: byte
  shows "(0xe0 OR push_bit 4 (u AND 1)) AND 0x0f = 0" "bit (0xe0 OR push_bit 4 (u AND 1)) 4 = odd u"
    "bit (0xe0 OR push_bit 4 (u AND 1)) 6"
  by (cases "odd u"; simp add: and_one_eq odd_iff_mod_2_eq_one even_iff_mod_2_eq_zero bit_or_iff bit_push_bit_iff)+

lemma ata_outb:
  assumes "ata_disk D" "cmd (d_obs D d) = None"
  shows "d_obs D (d_outb D 0x3f6 0 d) = d_obs D d" "d_obs D (d_outb D 0x1f2 v d) = (d_obs D d)\<lparr>nsect := v\<rparr>"
    "d_obs D (d_outb D 0x1f3 v d) = (d_obs D d)\<lparr>lba0 := v\<rparr>" "d_obs D (d_outb D 0x1f4 v d) = (d_obs D d)\<lparr>lba1 := v\<rparr>"
    "d_obs D (d_outb D 0x1f5 v d) = (d_obs D d)\<lparr>lba2 := v\<rparr>" "d_obs D (d_outb D 0x1f6 v d) = (d_obs D d)\<lparr>drive := v\<rparr>"
    "d_obs D (d_outb D 0x1f7 v d) = (d_obs D d)\<lparr>cmd := Some v\<rparr>"
  using assms unfolding ata_disk_def ata_registers_def by blast+

text \<open>The registers that \<open>idestart\<close> writes, and the command.\<close>

lemma ata_command:
  assumes D: "ata_disk D" "cmd (d_obs D d) = None" and w: "wr \<Longrightarrow> c = IDE_CMD_WRITE"
    and e_def: "e = d_outb D 0x1f7 c (d_outb D 0x1f6 dr (d_outb D 0x1f5 l2 (d_outb D 0x1f4 l1 (d_outb D 0x1f3 l0 (d_outb D 0x1f2 n (d_outb D 0x3f6 0 d))))))"
  shows "d_obs D (if wr then d_outsl D m e else e) = (let o' = (d_obs D d)\<lparr>nsect := n, lba0 := l0, lba1 := l1, lba2 := l2, drive := dr, cmd := Some c\<rparr>
     in if wr then o'\<lparr>sent := m\<rparr> else o')"
proof -
  have e: "d_obs D e = (d_obs D d)\<lparr>nsect := n, lba0 := l0, lba1 := l1, lba2 := l2, drive := dr, cmd := Some c\<rparr>"
    using D(2) by (simp add: e_def ata_outb [OF D(1)])
  moreover have "d_obs D (d_outsl D m e) = (d_obs D e)\<lparr>sent := m\<rparr>" if wr
    using D(1) w [OF that] e unfolding ata_disk_def ata_transfers_def by simp
  ultimately show ?thesis by (simp add: Let_def)
qed

lemma startedI:
  assumes "d_obs D h = o'" "one_sector o'" "hd_unit o' = odd (bdev (ibufs s b))" "hd_lba o' = blockno (ibufs s b)"
    "cmd o' = Some (if bit (bflags (ibufs s b)) 2 then IDE_CMD_WRITE else IDE_CMD_READ)"
    "bit (bflags (ibufs s b)) 2 \<Longrightarrow> sent o' = bdata (ibufs s b)"
  shows "started D b (s\<lparr>hdisk := h\<rparr>)"
  using assms by (simp add: started_def Let_def)

lemma idestart_ok:
  assumes D: "ata_disk D" "cmd (d_obs D (hdisk s)) = None" and b: "blockno (ibufs s b) < FSSIZE" "ready st"
  obtains h where "idestart D st (Some b) s = Ok (s\<lparr>hdisk := h\<rparr>)" "started D b (s\<lparr>hdisk := h\<rparr>)"
    "sectors (d_obs D h) = sectors (d_obs D (hdisk s))"
proof -
  let ?n = "blockno (ibufs s b)" and ?w = "word_of_nat (blockno (ibufs s b)) :: word32"
  let ?u = "of_nat (bdev (ibufs s b)) :: byte" and ?wr = "bit (bflags (ibufs s b)) 2"
  have n: "unat ?w = ?n" using b(1) by (simp add: unat_of_nat)
  have "unat (ucast (drop_bit 24 ?w AND 0x0f) :: byte) = 0" unfolding sector_bytes n using b(1) by simp
  then have z: "ucast (drop_bit 24 ?w AND 0x0f) = (0 :: byte)" by (simp only: unsigned_eq_0_iff)
  obtain r where r: "idewait st False = Some r" using idewait_ready [OF b(2)] by blast
  let ?c = "if ?wr then IDE_CMD_WRITE else IDE_CMD_READ"
  let ?e = "d_outb D 0x1f7 ?c (d_outb D 0x1f6 (0xe0 OR push_bit 4 (?u AND 1)) (d_outb D 0x1f5 (ucast (drop_bit 16 ?w AND 0xff))
    (d_outb D 0x1f4 (ucast (drop_bit 8 ?w AND 0xff)) (d_outb D 0x1f3 (ucast (?w AND 0xff)) (d_outb D 0x1f2 1 (d_outb D 0x3f6 0 (hdisk s)))))))"
  let ?h = "if ?wr then d_outsl D (bdata (ibufs s b)) ?e else ?e"
  let ?o = "(d_obs D (hdisk s))\<lparr>nsect := 1, lba0 := ucast (?w AND 0xff), lba1 := ucast (drop_bit 8 ?w AND 0xff),
    lba2 := ucast (drop_bit 16 ?w AND 0xff), drive := 0xe0 OR push_bit 4 (?u AND 1), cmd := Some ?c\<rparr>"
  have h: "d_obs D ?h = (if ?wr then ?o\<lparr>sent := bdata (ibufs s b)\<rparr> else ?o)"
    using ata_command [OF D _ refl, of ?wr ?c] by (simp add: Let_def)
  have i: "idestart D st (Some b) s = Ok (s\<lparr>hdisk := ?h\<rparr>)" using b(1) r by (simp add: idestart_def Let_def z)
  have "unat (lba0 ?o) = ?n mod 256" "unat (lba1 ?o) = ?n div 256 mod 256" "unat (lba2 ?o) = ?n div 65536 mod 256"
    using sector_bytes [of ?w, unfolded n] by simp_all
  then have "hd_lba ?o = ?n" using b(1) drive_byte(1) [of ?u] unfolding hd_lba_def by simp
  moreover have "hd_unit ?o = odd (bdev (ibufs s b))" "one_sector ?o" using drive_byte(2,3) [of ?u] by (simp_all add: hd_unit_def one_sector_def)
  ultimately have "started D b (s\<lparr>hdisk := ?h\<rparr>)"
    by (intro startedI [OF h]) (simp_all add: hd_lba_def hd_unit_def one_sector_def)
  then show thesis by (rule that [OF i]) (simp only: h, simp)
qed

section \<open>The queue\<close>

fun qchain :: "(nat \<Rightarrow> nat option) \<Rightarrow> nat list \<Rightarrow> bool" where
  "qchain nx [] \<longleftrightarrow> True"
| "qchain nx [x] \<longleftrightarrow> nx x = None"
| "qchain nx (x # y # xs) \<longleftrightarrow> nx x = Some y \<and> qchain nx (y # xs)"

fun first_of :: "nat list \<Rightarrow> nat option" where
  "first_of [] = None"
| "first_of (x # xs) = Some x"

lemma qchain_next: "qchain nx (x # xs) \<Longrightarrow> nx x = first_of xs \<and> qchain nx xs"
  by (cases xs) auto

lemma qchain_cong: "(\<And>x. x \<in> set xs \<Longrightarrow> nx x = nx' x) \<Longrightarrow> qchain nx xs = qchain nx' xs"
  by (induction nx xs rule: qchain.induct) auto

lemma queue_tail_last: "qchain nx (x # xs) \<Longrightarrow> queue_tail nx x = Some (last (x # xs))"
  by (induction xs arbitrary: x; subst queue_tail.simps) auto

lemma qchain_append: "qchain nx (x # xs) \<Longrightarrow> distinct (x # xs @ [b]) \<Longrightarrow> qchain (nx(b := None, last (x # xs) := Some b)) (x # xs @ [b])"
proof (induction xs arbitrary: x)
  case (Cons y ys)
  then have "last (y # ys) \<noteq> x" using last_in_set [of "y # ys"] by auto
  with Cons show ?case by auto
qed auto

text \<open>The buffers in the queue are those with a sleeper, each with something to do, and the command under way is the one for the first.\<close>

definition ide_inv :: "'d device \<Rightarrow> nat list \<Rightarrow> 'd ide \<Rightarrow> (nat \<Rightarrow> iphase) \<Rightarrow> bool" where
  "ide_inv D xs s ph \<longleftrightarrow>
     idequeue s = first_of xs \<and> qchain (qnext s) xs \<and> distinct xs \<and> (\<forall>b. ph b = Asleep \<longleftrightarrow> b \<in> set xs) \<and>
     (\<forall>b. ph b = Woken \<longrightarrow> iderw_done b s) \<and> (\<forall>b \<in> set xs. \<not> iderw_done b s \<and> blockno (ibufs s b) < FSSIZE \<and> holdingsleep (block_lock (ibufs s b))) \<and>
     (case xs of [] \<Rightarrow> cmd (d_obs D (hdisk s)) = None | b # _ \<Rightarrow> started D b s)"

lemma ide_invI:
  assumes "idequeue s = first_of xs" "qchain (qnext s) xs" "distinct xs" "\<And>b. ph b = Asleep \<longleftrightarrow> b \<in> set xs"
    "\<And>b. ph b = Woken \<Longrightarrow> iderw_done b s" "\<And>b. b \<in> set xs \<Longrightarrow> \<not> iderw_done b s \<and> blockno (ibufs s b) < FSSIZE \<and> holdingsleep (block_lock (ibufs s b))"
    "xs = [] \<Longrightarrow> cmd (d_obs D (hdisk s)) = None" "\<And>b ys. xs = b # ys \<Longrightarrow> started D b s"
  shows "ide_inv D xs s ph"
  using assms by (cases xs) (auto simp: ide_inv_def)

text \<open>A request is put at the end; the disk is started when it was idle.\<close>

lemma queue_append:
  assumes "ide_inv D xs s ph" "b \<notin> set xs"
  obtains q where "iderw_queue b s = Some (s\<lparr>qnext := q, idequeue := first_of (xs @ [b])\<rparr>)" "qchain q (xs @ [b])"
proof (cases xs)
  case Nil
  with assms show thesis by (intro that [of "(qnext s)(b := None)"]) (auto simp: iderw_queue_def ide_inv_def)
next
  case (Cons x ys)
  let ?n = "(qnext s)(b := None)"
  have "qchain (qnext s) xs" using assms(1) by (simp add: ide_inv_def)
  then have c: "qchain ?n (x # ys)" unfolding Cons using assms(2) Cons by (subst qchain_cong [of _ _ "qnext s"]) auto
  have "qchain (?n(b := None, last (x # ys) := Some b)) (x # ys @ [b])"
    by (rule qchain_append [OF c]) (use assms Cons in \<open>auto simp: ide_inv_def\<close>)
  with queue_tail_last [OF c] show thesis using assms(1) Cons
    by (intro that [of "?n(last (x # ys) := Some b)"]) (auto simp: iderw_queue_def ide_inv_def Let_def)
qed

lemma request_ok:
  assumes "ide_inv D xs s ph" "ph b = Out" "blockno (ibufs s b) < FSSIZE" "ready st" "holdingsleep (block_lock (ibufs s b))"
    "\<not> iderw_done b s" "bdev (ibufs s b) = 0 \<or> havedisk1 s" and D: "ata_disk D"
  obtains s' where "iderw_start D st b s = Ok s'" "ide_inv D (xs @ [b]) s' (ph(b := Asleep))" "ibufs s' = ibufs s"
    "sectors (d_obs D (hdisk s')) = sectors (d_obs D (hdisk s))"
proof -
  have b: "b \<notin> set xs" using assms(1,2) unfolding ide_inv_def by (metis iphase.distinct(1))
  obtain q where q: "iderw_queue b s = Some (s\<lparr>qnext := q, idequeue := first_of (xs @ [b])\<rparr>)" "qchain q (xs @ [b])"
    by (rule queue_append [OF assms(1) b])
  let ?s = "s\<lparr>qnext := q, idequeue := first_of (xs @ [b])\<rparr>"
  have g: "iderw_start D st b s = (if idequeue ?s = Some b then idestart D st (Some b) ?s else Ok ?s)"
    using assms(5-7) q(1) by (auto simp: iderw_start_def iderw_done_def)
  show thesis
  proof (cases xs)
    case Nil
    obtain h where h: "idestart D st (Some b) ?s = Ok (?s\<lparr>hdisk := h\<rparr>)" "started D b (?s\<lparr>hdisk := h\<rparr>)" "sectors (d_obs D h) = sectors (d_obs D (hdisk ?s))"
      by (rule idestart_ok [OF D, of ?s b st]) (use assms(1,3,4) Nil in \<open>auto simp: ide_inv_def\<close>)
    have "ide_inv D (xs @ [b]) (?s\<lparr>hdisk := h\<rparr>) (ph(b := Asleep))"
      using assms(1-3,5,6) q(2) h(2) Nil by (intro ide_invI) (auto simp: ide_inv_def iderw_done_def split: if_splits)
    then show thesis using g h Nil by (intro that [of "?s\<lparr>hdisk := h\<rparr>"]) auto
  next
    case (Cons x ys)
    have "ide_inv D (xs @ [b]) ?s (ph(b := Asleep))"
      using assms(1-3,5,6) q(2) b Cons by (intro ide_invI) (auto simp: ide_inv_def iderw_done_def started_def split: if_splits)
    then show thesis using g b Cons by (intro that [of ?s]) auto
  qed
qed

text \<open>What an interrupt leaves in the buffer and on the disk.\<close>

definition served_buf :: "'d device \<Rightarrow> bool \<Rightarrow> nat \<Rightarrow> 'd ide \<Rightarrow> buf" where
  "served_buf D fail b s =
     (let x = ibufs s b;
          x = (if \<not> bit (bflags x) 2 \<and> \<not> fail then x\<lparr>bdata := sectors (d_obs D (hdisk s)) (odd (bdev x)) (blockno x)\<rparr> else x)
      in x\<lparr>bflags := (bflags x OR B_VALID) AND NOT B_DIRTY\<rparr>)"

definition served_disk :: "'d device \<Rightarrow> nat \<Rightarrow> 'd ide \<Rightarrow> bool \<Rightarrow> nat \<Rightarrow> mem" where
  "served_disk D b s =
     (let x = ibufs s b; d = sectors (d_obs D (hdisk s)) in
      if bit (bflags x) 2 then d(odd (bdev x) := (d (odd (bdev x)))(blockno x := bdata x)) else d)"

definition served_hd :: "'d device \<Rightarrow> bool \<Rightarrow> nat \<Rightarrow> 'd ide \<Rightarrow> 'd" where
  "served_hd D fail b s =
     (let d = d_done D fail (hdisk s) in if \<not> bit (bflags (ibufs s b)) 2 \<and> \<not> fail then snd (d_insl D d) else d)"

lemma served_done: "bit (bflags (served_buf D fail b s)) (Suc 0) \<and> \<not> bit (bflags (served_buf D fail b s)) 2"
  by (auto simp: served_buf_def Let_def bit_simps)

lemma ata_done:
  assumes "ata_disk D" "started D b s"
  shows "cmd (d_obs D (served_hd D fail b s)) = None" "sectors (d_obs D (served_hd D False b s)) = served_disk D b s"
    "\<not> bit (bflags (ibufs s b)) 2 \<Longrightarrow>
      fst (d_insl D (d_done D False (hdisk s))) = sectors (d_obs D (hdisk s)) (odd (bdev (ibufs s b))) (blockno (ibufs s b))"
  using assms unfolding ata_disk_def ata_transfers_def started_def served_hd_def served_disk_def Let_def
  by (simp_all split: if_splits)

lemma ide_swap: "s\<lparr>idequeue := q, hdisk := h\<rparr> = s\<lparr>hdisk := h, idequeue := q\<rparr>"
  by simp

lemma ideintr_serves:
  assumes "ata_disk D" "idequeue s = Some b" "started D b s" "ready st"
  shows "ideintr D st st' (s\<lparr>hdisk := d_done D (failed st) (hdisk s)\<rparr>) =
     (let s = s\<lparr>hdisk := served_hd D (failed st) b s, idequeue := qnext s b, ibufs := (ibufs s)(b := served_buf D (failed st) b s)\<rparr>
      in if idequeue s \<noteq> None then bindE (idestart D st' (idequeue s) s) (\<lambda>s. Ok (Some b, s)) else Ok (Some b, s))"
proof -
  obtain r where r: "idewait st True = Some r" using idewait_ready [OF assms(4)] by blast
  show ?thesis using assms(2) r idewait_value [OF r] ata_done(3) [OF assms(1,3)]
    by (auto simp: ideintr_def Let_def served_buf_def served_hd_def ide_swap split: prod.splits)
qed

lemma interrupt_ok:
  assumes D: "ata_disk D" and "ide_inv D (b # xs) s ph" "ready st" "ready st'"
  obtains s' where "ideintr D st st' (s\<lparr>hdisk := d_done D (failed st) (hdisk s)\<rparr>) = Ok (Some b, s')"
    "ide_inv D xs s' (ph(b := Woken))" "ibufs s' = (ibufs s)(b := served_buf D (failed st) b s)"
    "\<not> failed st \<Longrightarrow> sectors (d_obs D (hdisk s')) = served_disk D b s" "havedisk1 s' = havedisk1 s"
proof -
  let ?s = "s\<lparr>hdisk := served_hd D (failed st) b s, idequeue := qnext s b, ibufs := (ibufs s)(b := served_buf D (failed st) b s)\<rparr>"
  have i: "idequeue s = Some b" "started D b s" "b \<notin> set xs" "qnext s b = first_of xs" "qchain (qnext s) xs"
    using assms(2) qchain_next [of "qnext s" b xs] by (auto simp: ide_inv_def)
  have inv: "ide_inv D xs (?s\<lparr>hdisk := h\<rparr>) (ph(b := Woken))"
    if "xs = [] \<Longrightarrow> cmd (d_obs D h) = None" "\<And>c ys. xs = c # ys \<Longrightarrow> started D c (?s\<lparr>hdisk := h\<rparr>)" for h
    using assms(2) i that served_done [of D "failed st" b s]
    by (intro ide_invI) (auto simp: ide_inv_def iderw_done_def)
  note f = ata_done(1,2) [OF D i(2)]
  show thesis
  proof (cases xs)
    case Nil
    have e: "?s = ?s\<lparr>hdisk := served_hd D (failed st) b s\<rparr>" by simp
    have v: "ide_inv D xs ?s (ph(b := Woken))" by (subst e, rule inv) (use f Nil in auto)
    show thesis using ideintr_serves [OF D i(1,2) assms(3), of st'] f i Nil
      by (intro that [of ?s, OF _ v]) (auto simp: Let_def)
  next
    case (Cons c ys)
    obtain h where h: "idestart D st' (Some c) ?s = Ok (?s\<lparr>hdisk := h\<rparr>)" "started D c (?s\<lparr>hdisk := h\<rparr>)"
      "sectors (d_obs D h) = sectors (d_obs D (hdisk ?s))"
      by (rule idestart_ok [OF D, of ?s c st']) (use assms i f Cons in \<open>auto simp: ide_inv_def\<close>)
    then show thesis using ideintr_serves [OF D i(1,2) assms(3), of st'] inv [of h] f i Cons
      by (intro that [of "?s\<lparr>hdisk := h\<rparr>"]) (auto simp: Let_def)
  qed
qed

lemma step_inv: "ata_disk D \<Longrightarrow> ide_step D c c' \<Longrightarrow> \<exists>xs. ide_inv D xs (fst c) (snd c) \<Longrightarrow> \<exists>xs. ide_inv D xs (fst c') (snd c')"
proof (rotate_tac, induction rule: ide_step.induct)
  case (change ph b s x)
  then obtain xs where "ide_inv D xs s ph" "b \<notin> set xs" unfolding ide_inv_def by (metis fst_conv snd_conv iphase.distinct(1))
  then have "ide_inv D xs (upd_ibuf b (\<lambda>_. x) s) ph"
    using change(1) by (cases xs) (auto simp: ide_inv_def iderw_done_def started_def)
  then show ?case by auto
next
  case (request ph b s st s')
  then obtain xs where i: "ide_inv D xs s ph" by auto
  have "holdingsleep (block_lock (ibufs s b))" "\<not> iderw_done b s" "bdev (ibufs s b) = 0 \<or> havedisk1 s"
    using request(4) by (auto simp: iderw_start_def iderw_done_def split: if_splits)
  from request_ok [OF i request(1-3) this] request(4,6) show ?case by (metis fst_conv snd_conv outcome.inject(1))
next
  case (interrupt s st st' b s' ph)
  then obtain xs where i: "ide_inv D xs s ph" by auto
  then obtain c ys where x: "xs = c # ys" using interrupt(1) by (cases xs) (auto simp: ide_inv_def)
  obtain s2 where s2: "ideintr D st st' (s\<lparr>hdisk := d_done D (failed st) (hdisk s)\<rparr>) = Ok (Some c, s2)" "ide_inv D ys s2 (ph(c := Woken))"
    by (rule interrupt_ok [of D c ys s ph st st']) (use i x interrupt in auto)
  then have "b = c" "s' = s2" using interrupt(4) by auto
  moreover have "ph c = Asleep" using i x by (simp add: ide_inv_def)
  ultimately show ?case using s2(2) by (intro exI [of _ ys]) (simp add: fun_upd_def)
next
  case (resume ph b s)
  then obtain xs where i: "ide_inv D xs s ph" by auto
  then have "iderw_done b s" using resume(1) by (simp add: ide_inv_def)
  moreover have "ide_inv D xs s (ph(b := Out))" using i resume(1) by (auto simp: ide_inv_def)
  ultimately show ?case by (intro exI [of _ xs]) (simp add: fun_upd_def)
qed

lemma reach_inv: "ide_reach D c \<Longrightarrow> ata_disk D \<Longrightarrow> \<exists>xs. ide_inv D xs (fst c) (snd c)"
proof (induction rule: ide_reach.induct)
  case (ide_boot s)
  then have "ide_inv D [] s (\<lambda>_. Out)" by (simp add: ide_inv_def)
  then show ?case by auto
qed (rule step_inv)

section \<open>Properties\<close>

text \<open>C6: the queue of the IDE driver.  In every reachable state the buffers in the queue are exactly those whose holder
  sleeps, and the disk works on the first of them, with the registers addressing its block.  A proper request returns and
  goes to the end; every interrupt returns, finishes the first request and wakes its process; a process that was woken
  finds its request done, so nobody sleeps for a request that is finished.\<close>

theorem ide_queue:
  assumes D: "ata_disk D" and "ide_reach D (s, ph)"
  shows "\<exists>xs. ide_inv D xs s ph \<and>
     (\<forall>b st. ph b = Out \<and> blockno (ibufs s b) < FSSIZE \<and> ready st \<and> holdingsleep (block_lock (ibufs s b)) \<and> \<not> iderw_done b s \<and>
        (bdev (ibufs s b) = 0 \<or> havedisk1 s) \<longrightarrow> (\<exists>s'. iderw_start D st b s = Ok s' \<and> ide_inv D (xs @ [b]) s' (ph(b := Asleep)))) \<and>
     (\<forall>b ys st st'. xs = b # ys \<and> ready st \<and> ready st' \<longrightarrow>
        (\<exists>s'. ideintr D st st' (s\<lparr>hdisk := d_done D (failed st) (hdisk s)\<rparr>) = Ok (Some b, s') \<and> ide_inv D ys s' (ph(b := Woken)))) \<and>
     (\<forall>b. ph b = Woken \<longrightarrow> iderw_done b s)"
proof -
  obtain xs where i: "ide_inv D xs s ph" using reach_inv [OF assms(2) D] by auto
  have "\<exists>s'. iderw_start D st b s = Ok s' \<and> ide_inv D (xs @ [b]) s' (ph(b := Asleep))"
    if "ph b = Out \<and> blockno (ibufs s b) < FSSIZE \<and> ready st \<and> holdingsleep (block_lock (ibufs s b)) \<and> \<not> iderw_done b s \<and>
        (bdev (ibufs s b) = 0 \<or> havedisk1 s)" for b st
    using that by (elim conjE) (rule request_ok [OF i _ _ _ _ _ _ D], assumption+, blast)
  moreover have "\<exists>s'. ideintr D st st' (s\<lparr>hdisk := d_done D (failed st) (hdisk s)\<rparr>) = Ok (Some b, s') \<and> ide_inv D ys s' (ph(b := Woken))"
    if "xs = b # ys" "ready st" "ready st'" for b ys st st'
    using i that(1) by (auto intro: interrupt_ok [OF D _ that(2,3), of b ys s ph])
  moreover have "\<forall>b. ph b = Woken \<longrightarrow> iderw_done b s" using i by (simp add: ide_inv_def)
  ultimately show ?thesis using i by blast
qed

text \<open>The state as the driver of the memory disk has it.\<close>

definition bio_view :: "'d device \<Rightarrow> bio_state \<Rightarrow> 'd ide \<Rightarrow> bio_state" where
  "bio_view D z s = z\<lparr>bufs := ibufs s, disk := sectors (d_obs D (hdisk s)) True, disksize := FSSIZE\<rparr>"

lemma flag_bit: "bit B_VALID n \<longleftrightarrow> n = Suc 0" "bit B_DIRTY n \<longleftrightarrow> n = 2"
  using bit_exp_iff [of 1 n, where 'a = "32 word"] bit_exp_iff [of 2 n, where 'a = "32 word"] by auto

lemma flags_commute:
  "\<not> bit f 2 \<Longrightarrow> (f OR B_VALID) AND NOT B_DIRTY = f OR B_VALID"
  "(f OR B_VALID) AND NOT B_DIRTY = (f AND NOT B_DIRTY) OR B_VALID"
  by (rule bit_word_eqI, auto simp only: bit_and_iff bit_or_iff bit_not_iff flag_bit possible_bit_word; simp)+


lemma served_iderw:
  assumes "holdingsleep (block_lock (ibufs s b))" "\<not> iderw_done b s" "bdev (ibufs s b) = 1" "blockno (ibufs s b) < FSSIZE"
    and s': "ibufs s' = (ibufs s)(b := served_buf D False b s)" "sectors (d_obs D (hdisk s')) = served_disk D b s"
  shows "\<exists>w. iderw b (bio_view D z s) = Ok ((bio_view D z s')\<lparr>diskwrites := w\<rparr>)"
proof (cases "bit (bflags (ibufs s b)) 2")
  case True
  have f: "served_buf D False b s = (ibufs s b)\<lparr>bflags := (bflags (ibufs s b) AND NOT B_DIRTY) OR B_VALID\<rparr>"
    using True unfolding served_buf_def Let_def flags_commute(2) by simp
  show ?thesis using True assms(1-4) unfolding iderw_def bio_view_def s' f
    by (intro exI [of _ "diskwrites z @ [(blockno (ibufs s b), bdata (ibufs s b))]"]) (simp add: upd_buf_def iderw_done_def served_disk_def Let_def)
next
  case False
  have f: "served_buf D False b s = (ibufs s b)\<lparr>bdata := sectors (d_obs D (hdisk s)) True (blockno (ibufs s b)), bflags := bflags (ibufs s b) OR B_VALID\<rparr>"
    using False assms(3) flags_commute(1) [of "bflags (ibufs s b)"] unfolding served_buf_def Let_def by simp
  show ?thesis using False assms(1-4) unfolding iderw_def bio_view_def s' f
    by (intro exI [of _ "diskwrites z"]) (simp add: upd_buf_def iderw_done_def served_disk_def Let_def)
qed

text \<open>A device that does what \<open>ata_disk\<close> says, such a disk at rest with buffers that ask for block 5, and the state after the
  request for buffer 3.  A failed command leaves the sectors as they were.\<close>

definition demo_outb :: "nat \<Rightarrow> byte \<Rightarrow> idedisk \<Rightarrow> idedisk" where
  "demo_outb p v d =
     (if p = 0x1f2 then d\<lparr>nsect := v\<rparr> else if p = 0x1f3 then d\<lparr>lba0 := v\<rparr> else if p = 0x1f4 then d\<lparr>lba1 := v\<rparr>
      else if p = 0x1f5 then d\<lparr>lba2 := v\<rparr> else if p = 0x1f6 then d\<lparr>drive := v\<rparr> else if p = 0x1f7 then d\<lparr>cmd := Some v\<rparr> else d)"

definition demo_done :: "bool \<Rightarrow> idedisk \<Rightarrow> idedisk" where
  "demo_done fail d = (if cmd d = Some IDE_CMD_WRITE \<and> \<not> fail
     then d\<lparr>cmd := None, sectors := (sectors d)(hd_unit d := (sectors d (hd_unit d))(hd_lba d := sent d))\<rparr> else d\<lparr>cmd := None\<rparr>)"

definition demo_device :: "idedisk device" where
  "demo_device = \<lparr>d_outb = demo_outb, d_outsl = \<lambda>m d. d\<lparr>sent := m\<rparr>, d_insl = \<lambda>d. (sectors d (hd_unit d) (hd_lba d), d),
     d_done = demo_done, d_obs = \<lambda>d. d\<rparr>"

lemma demo_ata: "ata_disk demo_device"
  unfolding ata_disk_def ata_registers_def ata_transfers_def demo_device_def
  by (auto simp: demo_outb_def demo_done_def Let_def hd_unit_def hd_lba_def)

definition demo_ide :: "idedisk ide" where
  "demo_ide = \<lparr>ibufs = \<lambda>_. \<lparr>bflags = 0, bdev = 1, blockno = 5, block_lock = \<lparr>locked = True, lpid = 1\<rparr>, refcnt = 1, bdata = \<lambda>_. 0\<rparr>,
     qnext = \<lambda>_. None, idequeue = None, havedisk1 = True,
     hdisk = \<lparr>nsect = 0, lba0 = 0, lba1 = 0, lba2 = 0, drive = 0, cmd = None, sent = \<lambda>_. 0, sectors = \<lambda>_ n i. of_nat (n + i)\<rparr>\<rparr>"

lemma demo_boot: "ide_reach demo_device (demo_ide, \<lambda>_. Out)"
  by (rule ide_boot) (simp_all add: demo_ide_def demo_device_def)

lemma demo_ready: "ready (\<lambda>_. 0x40)" "\<not> failed (\<lambda>_. 0x40)" "ready (\<lambda>_. 0x41)" "failed (\<lambda>_. 0x41)"
  by (simp_all add: ready_def failed_def idewait_def idewait_from.simps)

lemma demo_request: "\<exists>s ph. ide_reach demo_device (s, ph) \<and> idequeue s = Some 3 \<and> ibufs s = ibufs demo_ide"
proof -
  have i: "ide_inv demo_device [] demo_ide (\<lambda>_. Out)" by (simp add: ide_inv_def demo_ide_def demo_device_def)
  obtain s where s: "iderw_start demo_device (\<lambda>_. 0x40) 3 demo_ide = Ok s" "ide_inv demo_device ([] @ [3]) s ((\<lambda>_. Out)(3 := Asleep))"
    "ibufs s = ibufs demo_ide"
    by (rule request_ok [OF i, of 3 "\<lambda>_. 0x40"]) (auto simp: demo_ata demo_ready demo_ide_def holdingsleep_def iderw_done_def)
  have "ide_step demo_device (demo_ide, \<lambda>_. Out) (s, (\<lambda>_. Out)(3 := Asleep))"
    by (rule request [OF _ _ demo_ready(1) s(1)]) (simp_all add: demo_ide_def)
  with demo_boot have "ide_reach demo_device (s, (\<lambda>_. Out)(3 := Asleep))" by (rule ide_run)
  then show ?thesis using s(2,3) by (auto simp: ide_inv_def)
qed

theorem ide_queue_witness:
  "\<exists>s'. iderw_start demo_device (\<lambda>_. 0x40) 3 demo_ide = Ok s' \<and> idequeue s' = Some 3"
proof -
  from ide_queue [OF demo_ata demo_boot] obtain xs where x: "ide_inv demo_device xs demo_ide (\<lambda>_. Out)" and
    r: "\<forall>b st. blockno (ibufs demo_ide b) < FSSIZE \<and> ready st \<and> holdingsleep (block_lock (ibufs demo_ide b)) \<and> \<not> iderw_done b demo_ide \<and>
        (bdev (ibufs demo_ide b) = 0 \<or> havedisk1 demo_ide) \<longrightarrow>
        (\<exists>s'. iderw_start demo_device st b demo_ide = Ok s' \<and> ide_inv demo_device (xs @ [b]) s' ((\<lambda>_. Out)(b := Asleep)))"
    by auto
  have "xs = []" using x by (cases xs) (auto simp: ide_inv_def demo_ide_def)
  with r [rule_format, of 3 "\<lambda>_. 0x40"] demo_ready show ?thesis
    by (auto simp: demo_ide_def holdingsleep_def iderw_done_def ide_inv_def)
qed

text \<open>C5: the IDE driver as an atomic disk.  At an interrupt without an error the first request in the queue, when it is for
  the disk of the file system (device 1), takes effect exactly as \<open>iderw\<close> of the memory disk does it in one step: the block is
  written, or read into the buffer, the flags say so, and no other buffer or block changes.  The disk is any device that
  behaves as \<open>ata_disk\<close> says.\<close>

theorem ide_atomic:
  assumes "ata_disk D" and "ide_reach D (s, ph)" and "idequeue s = Some b" and "bdev (ibufs s b) = 1"
    and "ready st" and "\<not> failed st" and "ready st'"
  shows "\<exists>s' w. ideintr D st st' (s\<lparr>hdisk := d_done D False (hdisk s)\<rparr>) = Ok (Some b, s') \<and>
     iderw b (bio_view D z s) = Ok ((bio_view D z s')\<lparr>diskwrites := w\<rparr>) \<and>
     sectors (d_obs D (hdisk s')) False = sectors (d_obs D (hdisk s)) False"
proof -
  obtain xs where i: "ide_inv D xs s ph" using reach_inv [OF assms(2,1)] by auto
  then obtain ys where x: "xs = b # ys" using assms(3) by (cases xs) (auto simp: ide_inv_def)
  have f: "failed st = False" using assms(6) by simp
  obtain s' where s': "ideintr D st st' (s\<lparr>hdisk := d_done D False (hdisk s)\<rparr>) = Ok (Some b, s')"
    "ibufs s' = (ibufs s)(b := served_buf D False b s)" "sectors (d_obs D (hdisk s')) = served_disk D b s"
    by (rule interrupt_ok [OF assms(1) i [unfolded x] assms(5,7), unfolded f]) blast
  have "holdingsleep (block_lock (ibufs s b))" "\<not> iderw_done b s" "blockno (ibufs s b) < FSSIZE" using i x by (auto simp: ide_inv_def)
  from served_iderw [OF this(1,2) assms(4) this(3), of s' D z] s' assms(4) show ?thesis by (auto simp: served_disk_def Let_def)
qed

theorem ide_atomic_witness:
  "\<forall>z. \<exists>s s' w. idequeue s = Some 3 \<and>
     ideintr demo_device (\<lambda>_. 0x40) (\<lambda>_. 0x40) (s\<lparr>hdisk := d_done demo_device False (hdisk s)\<rparr>) = Ok (Some 3, s') \<and>
     iderw 3 (bio_view demo_device z s) = Ok ((bio_view demo_device z s')\<lparr>diskwrites := w\<rparr>)"
proof
  fix z
  obtain s ph where s: "ide_reach demo_device (s, ph)" "idequeue s = Some 3" "ibufs s = ibufs demo_ide" using demo_request by blast
  then have "bdev (ibufs s 3) = 1" by (simp add: demo_ide_def)
  from ide_atomic [OF demo_ata s(1,2) this demo_ready(1,2,1), of z] s(2)
  show "\<exists>s s' w. idequeue s = Some 3 \<and>
     ideintr demo_device (\<lambda>_. 0x40) (\<lambda>_. 0x40) (s\<lparr>hdisk := d_done demo_device False (hdisk s)\<rparr>) = Ok (Some 3, s') \<and>
     iderw 3 (bio_view demo_device z s) = Ok ((bio_view demo_device z s')\<lparr>diskwrites := w\<rparr>)" by blast
qed

text \<open>Disk errors that nobody sees.  When the disk reports an error, the driver marks the buffer as valid and clean all the
  same: a read leaves what was in the buffer before, and whether a write changed the disk nobody knows; the caller goes on.\<close>

lemma ide_silent_error:
  assumes "ata_disk D" and "ide_reach D (s, ph)" and "idequeue s = Some b" and "ready st" and "failed st" and "ready st'"
  shows "\<exists>s'. ideintr D st st' (s\<lparr>hdisk := d_done D True (hdisk s)\<rparr>) = Ok (Some b, s') \<and> iderw_done b s' \<and>
     bdata (ibufs s' b) = bdata (ibufs s b)"
proof -
  obtain xs where i: "ide_inv D xs s ph" using reach_inv [OF assms(2,1)] by auto
  then obtain ys where x: "xs = b # ys" using assms(3) by (cases xs) (auto simp: ide_inv_def)
  have f: "failed st = True" using assms(5) by simp
  obtain s' where s': "ideintr D st st' (s\<lparr>hdisk := d_done D True (hdisk s)\<rparr>) = Ok (Some b, s')"
    "ibufs s' = (ibufs s)(b := served_buf D True b s)"
    by (rule interrupt_ok [OF assms(1) i [unfolded x] assms(4,6), unfolded f]) blast
  then show ?thesis using served_done [of D True b s] by (auto simp: iderw_done_def served_buf_def Let_def)
qed

end
