(* ===== verification/Mapheap.thy ===== *)
theory Mapheap
  imports Prelude
begin

text \<open>
  \<^verbatim>\<open>src/memory/malloc\<close>: a heap that asks the kernel of the host for every block.  The system calls of \<^verbatim>\<open>syscall.S\<close> return what
  the kernel leaves in \<open>rax\<close>, an unsigned 64-bit value here; they are the parameter \<open>K\<close>, and \<open>linux K\<close> says what is documented
  of them: an error is one of the 4095 highest values and changes nothing, otherwise whole pages are mapped or unmapped.
\<close>

section \<open>The kernel\<close>

record space =
  mapped :: "nat \<Rightarrow> bool"
  content :: mem

record kernel =
  mmap :: "nat \<Rightarrow> space \<Rightarrow> nat \<times> space"
  munmap :: "nat \<Rightarrow> nat \<Rightarrow> space \<Rightarrow> nat \<times> space"
  mremap :: "nat \<Rightarrow> nat \<Rightarrow> nat \<Rightarrow> space \<Rightarrow> nat \<times> space"

definition pages :: "nat \<Rightarrow> nat \<Rightarrow> nat set" where
  "pages a n = {a ..< a + (n + 4095) div 4096 * 4096}"

definition refused :: "nat \<Rightarrow> bool" where
  "refused r \<longleftrightarrow> 2 ^ 64 - 4095 \<le> r \<and> r < 2 ^ 64"

text \<open>Where the kernel may put a mapping: on a page boundary of the user half.\<close>

definition placed :: "nat \<Rightarrow> nat \<Rightarrow> bool" where
  "placed r n \<longleftrightarrow> r mod 4096 = 0 \<and> 0 < r \<and> (\<forall>x \<in> pages r n. x < 2 ^ 47)"

definition linux_mmap :: "kernel \<Rightarrow> bool" where
  "linux_mmap K \<longleftrightarrow> (\<forall>n S. let (r, S') = mmap K n S in
     refused r \<and> S' = S \<or>
     placed r n \<and> (\<forall>x \<in> pages r n. \<not> mapped S x) \<and>
       (\<forall>x. mapped S' x \<longleftrightarrow> x \<in> pages r n \<or> mapped S x) \<and> (\<forall>x. x \<notin> pages r n \<longrightarrow> content S' x = content S x))"

definition linux_munmap :: "kernel \<Rightarrow> bool" where
  "linux_munmap K \<longleftrightarrow> (\<forall>a n S. let (r, S') = munmap K a n S in
     refused r \<and> S' = S \<or>
     r = 0 \<and> (\<forall>x. mapped S' x \<longleftrightarrow> mapped S x \<and> x \<notin> pages a n) \<and> (\<forall>x. x \<notin> pages a n \<longrightarrow> content S' x = content S x))"

definition linux_mremap :: "kernel \<Rightarrow> bool" where
  "linux_mremap K \<longleftrightarrow> (\<forall>a old n S. let (r, S') = mremap K a old n S in
     refused r \<and> S' = S \<or>
     placed r n \<and> (\<forall>x \<in> pages r n. mapped S x \<longrightarrow> x \<in> pages a old) \<and>
       (\<forall>x. mapped S' x \<longleftrightarrow> x \<in> pages r n \<or> mapped S x \<and> x \<notin> pages a old) \<and>
       (\<forall>i < min old n. content S' (r + i) = content S (a + i)) \<and>
       (\<forall>x. x \<notin> pages r n \<and> x \<notin> pages a old \<longrightarrow> content S' x = content S x))"

definition linux :: "kernel \<Rightarrow> bool" where
  "linux K \<longleftrightarrow> linux_mmap K \<and> linux_munmap K \<and> linux_mremap K"

section \<open>The heap\<close>

text \<open>A call returns, touches memory that is not mapped, or ends the program.\<close>

datatype 'a call_result = Ret 'a | Fault | Exit nat

definition u64 :: "nat \<Rightarrow> nat" where
  "u64 n = n mod 2 ^ 64"

abbreviation MAP_FAILED :: nat where
  "MAP_FAILED \<equiv> 2 ^ 64 - 1"

definition get64 :: "mem \<Rightarrow> nat \<Rightarrow> nat" where
  "get64 m a = unat (get32 m a) + 2 ^ 32 * unat (get32 m (a + 4))"

definition put64 :: "nat \<Rightarrow> nat \<Rightarrow> mem \<Rightarrow> mem" where
  "put64 a v m = put32 (a + 4) (of_nat (v div 2 ^ 32)) (put32 a (of_nat v) m)"

definition load64 :: "nat \<Rightarrow> space \<Rightarrow> nat call_result" where
  "load64 a S = (if \<forall>i<8. mapped S (a + i) then Ret (get64 (content S) a) else Fault)"

definition store64 :: "nat \<Rightarrow> nat \<Rightarrow> space \<Rightarrow> space call_result" where
  "store64 a v S = (if \<forall>i<8. mapped S (a + i) then Ret (S\<lparr>content := put64 a v (content S)\<rparr>) else Fault)"

definition malloc_map :: "kernel \<Rightarrow> nat \<Rightarrow> space \<Rightarrow> (nat \<times> space) call_result" where
  "malloc_map K sz S =
     (let (adr, S) = mmap K (u64 (sz + 8)) S in
      if adr = MAP_FAILED then Ret (0, S)
      else case store64 adr (u64 (sz + 8)) S of Ret S \<Rightarrow> Ret (u64 (adr + 8), S) | Fault \<Rightarrow> Fault | Exit n \<Rightarrow> Exit n)"

text \<open>\<open>munmap\<close> is declared to return an \<open>int\<close>: the low 32 bits are compared with \<open>-1\<close>.\<close>

definition free_map :: "kernel \<Rightarrow> nat \<Rightarrow> space \<Rightarrow> space call_result" where
  "free_map K ptr S =
     (if ptr = 0 then Ret S
      else case load64 (ptr - 8) S of
        Ret sz \<Rightarrow> let (r, S) = munmap K (ptr - 8) sz S in if s32 r = -1 then Exit 1 else Ret S
      | Fault \<Rightarrow> Fault | Exit n \<Rightarrow> Exit n)"

definition realloc :: "kernel \<Rightarrow> nat \<Rightarrow> nat \<Rightarrow> space \<Rightarrow> (nat \<times> space) call_result" where
  "realloc K ptr sz S =
     (if ptr = 0 then malloc_map K sz S
      else if sz = 0 then
        case free_map K ptr S of Ret S \<Rightarrow> Ret (0, S) | Fault \<Rightarrow> Fault | Exit n \<Rightarrow> Exit n
      else case load64 (ptr - 8) S of
        Ret old_size \<Rightarrow>
          let (new_adr, S) = mremap K (ptr - 8) old_size (u64 (sz + 8)) S in
          if new_adr = MAP_FAILED then Ret (0, S)
          else (case store64 new_adr (u64 (sz + 8)) S of Ret S \<Rightarrow> Ret (u64 (new_adr + 8), S) | Fault \<Rightarrow> Fault | Exit n \<Rightarrow> Exit n)
      | Fault \<Rightarrow> Fault | Exit n \<Rightarrow> Exit n)"

section \<open>Blocks\<close>

lemma get64_put64 [simp]: "v < 2 ^ 64 \<Longrightarrow> get64 (put64 a v m) a = v"
proof -
  assume v: "v < 2 ^ 64"
  have "v div 2 ^ 32 < 2 ^ 32" using v by (simp add: div_less_iff_less_mult)
  then have "unat (of_nat (v div 2 ^ 32) :: word32) = v div 2 ^ 32" by (simp add: unat_of_nat)
  moreover have "unat (of_nat v :: word32) = v mod 2 ^ 32" by (simp add: unat_of_nat)
  ultimately show ?thesis by (simp add: get64_def put64_def get32_put32_other)
qed

lemma put64_other [mem_simps]: "x < a \<or> a + 8 \<le> x \<Longrightarrow> put64 a v m x = m x"
  by (auto simp: put64_def put32_other)

lemma get64_cong: "(\<And>i. i < 8 \<Longrightarrow> m (a + i) = m' (b + i)) \<Longrightarrow> get64 m a = get64 m' b"
proof -
  assume e: "\<And>i. i < 8 \<Longrightarrow> m (a + i) = m' (b + i)"
  have "m a = m' b" using e [of 0] by simp
  with e [of 1] e [of 2] e [of 3] e [of 4] e [of 5] e [of 6] e [of 7] show ?thesis
    by (simp add: get64_def get32_def add.commute)
qed

text \<open>The blocks a program has, by their addresses and sizes: mapped, with their size in front, on pages of their own.\<close>

definition block_pages :: "nat \<Rightarrow> nat \<Rightarrow> nat set" where
  "block_pages p n = pages (p - 8) (n + 8)"

definition heap_ok :: "space \<Rightarrow> (nat \<rightharpoonup> nat) \<Rightarrow> bool" where
  "heap_ok S H \<longleftrightarrow>
     (\<forall>x. mapped S x \<longrightarrow> x < 2 ^ 47) \<and>
     (\<forall>p n. H p = Some n \<longrightarrow> 8 < p \<and> placed (p - 8) (n + 8) \<and> (\<forall>x \<in> block_pages p n. mapped S x) \<and> get64 (content S) (p - 8) = n + 8) \<and>
     (\<forall>p n q k. H p = Some n \<and> H q = Some k \<and> p \<noteq> q \<longrightarrow> block_pages p n \<inter> block_pages q k = {})"

definition same_blocks :: "(nat \<rightharpoonup> nat) \<Rightarrow> space \<Rightarrow> space \<Rightarrow> bool" where
  "same_blocks H S S' \<longleftrightarrow> (\<forall>q n i. H q = Some n \<and> i < n \<longrightarrow> content S' (q + i) = content S (q + i))"

lemma pages_in: "i < n \<Longrightarrow> a + i \<in> pages a n"
proof -
  assume "i < n"
  also have "n \<le> (n + 4095) div 4096 * 4096"
    using div_mult_mod_eq [of "n + 4095" 4096] mod_less_divisor [of 4096 "n + 4095"] by linarith
  finally show ?thesis by (simp add: pages_def)
qed

lemma pages_self: "0 < n \<Longrightarrow> a \<in> pages a n"
  using pages_in [of 0 n a] by simp

lemma linux_mmapD:
  assumes "linux K" "mmap K n S = (r, S')" "\<not> refused r"
  shows "placed r n" "\<And>x. x \<in> pages r n \<Longrightarrow> \<not> mapped S x" "\<And>x. mapped S' x \<longleftrightarrow> x \<in> pages r n \<or> mapped S x"
    "\<And>x. x \<notin> pages r n \<Longrightarrow> content S' x = content S x"
proof -
  have "placed r n \<and> (\<forall>x \<in> pages r n. \<not> mapped S x) \<and> (\<forall>x. mapped S' x \<longleftrightarrow> x \<in> pages r n \<or> mapped S x) \<and>
      (\<forall>x. x \<notin> pages r n \<longrightarrow> content S' x = content S x)"
    using assms(1) [unfolded linux_def linux_mmap_def, THEN conjunct1, rule_format, of n S] assms(2,3) by simp
  then show "placed r n" "\<And>x. x \<in> pages r n \<Longrightarrow> \<not> mapped S x" "\<And>x. mapped S' x \<longleftrightarrow> x \<in> pages r n \<or> mapped S x"
    "\<And>x. x \<notin> pages r n \<Longrightarrow> content S' x = content S x" by blast+
qed

lemma placed_bound: "placed r n \<Longrightarrow> 0 < n \<Longrightarrow> r + n \<le> 2 ^ 47"
  using pages_in [of "n - 1" n r] by (auto simp: placed_def)

lemma placed_not_refused: "placed r n \<Longrightarrow> 0 < n \<Longrightarrow> \<not> refused r \<and> r \<noteq> MAP_FAILED"
  using placed_bound [of r n] by (auto simp: refused_def)

lemma heap_block:
  assumes "heap_ok S H" "H p = Some n"
  shows "8 < p" "placed (p - 8) (n + 8)" "\<And>x. x \<in> block_pages p n \<Longrightarrow> mapped S x" "get64 (content S) (p - 8) = n + 8"
    "\<And>i. i < n + 8 \<Longrightarrow> p - 8 + i \<in> block_pages p n"
  using assms pages_in [of _ "n + 8" "p - 8"] by (auto simp: heap_ok_def block_pages_def)

lemma heap_load: "heap_ok S H \<Longrightarrow> H p = Some n \<Longrightarrow> load64 (p - 8) S = Ret (n + 8)"
  using heap_block [of S H p n] by (auto simp: load64_def)

text \<open>A new block next to blocks that stay, its header not yet written.\<close>

lemma heap_add:
  assumes H: "\<And>q k x. H q = Some k \<Longrightarrow> x \<in> block_pages q k \<Longrightarrow> mapped S x \<and> x \<notin> pages r (sz + 8)"
    "\<And>q k. H q = Some k \<Longrightarrow> 8 < q \<and> placed (q - 8) (k + 8) \<and> get64 (content S) (q - 8) = k + 8"
    "\<And>q k q' k'. H q = Some k \<Longrightarrow> H q' = Some k' \<Longrightarrow> q \<noteq> q' \<Longrightarrow> block_pages q k \<inter> block_pages q' k' = {}"
    and S: "\<And>x. mapped S x \<Longrightarrow> x < 2 ^ 47" "\<And>x. x \<in> pages r (sz + 8) \<Longrightarrow> mapped S x" and r: "placed r (sz + 8)"
  obtains S' where "store64 r (sz + 8) S = Ret S'" "u64 (r + 8) = r + 8" "H (r + 8) = None" "heap_ok S' (H(r + 8 \<mapsto> sz))" "same_blocks H S S'"
    "\<And>i. i < sz \<Longrightarrow> content S' (r + 8 + i) = content S (r + 8 + i)"
proof -
  let ?S = "S\<lparr>content := put64 r (sz + 8) (content S)\<rparr>"
  have b: "r + (sz + 8) \<le> 2 ^ 47" and r0: "0 < r" using placed_bound [OF r] r by (auto simp: placed_def)
  have in8: "r + i \<in> pages r (sz + 8)" if "i < 8" for i using that by (intro pages_in) simp
  have st: "store64 r (sz + 8) S = Ret ?S" using S(2) in8 by (auto simp: store64_def)
  have far: "x < r \<or> r + 8 \<le> x" if "H q = Some k" "x \<in> block_pages q k" for q k x
  proof (rule ccontr)
    assume "\<not> (x < r \<or> r + 8 \<le> x)"
    then obtain i where "x = r + i" "i < 8" using nat_le_iff_add [of r x] by auto
    with H(1) [OF that] in8 show False by blast
  qed
  have new: "H (r + 8) = None"
  proof (rule ccontr)
    assume "H (r + 8) \<noteq> None"
    then obtain k where k: "H (r + 8) = Some k" by auto
    then have "r \<in> block_pages (r + 8) k" using pages_self [of "k + 8" r] by (simp add: block_pages_def)
    with H(1) [OF k this] show False using in8 [of 0] by simp
  qed
  have old: "content ?S x = content S x" if "H q = Some k" "x \<in> block_pages q k" for q k x
    using far [OF that] by (simp add: put64_other)
  have g: "get64 (content ?S) (q - 8) = k + 8" if q: "H q = Some k" for q k
    using get64_cong [of "content ?S" "q - 8" "content S" "q - 8"] old [OF q] H(2) [OF q] pages_in [of _ "k + 8" "q - 8"]
    by (simp add: block_pages_def)
  have v: "sz + 8 < 2 ^ 64" using b by simp
  have "heap_ok ?S (H(r + 8 \<mapsto> sz))"
    unfolding heap_ok_def
  proof (intro conjI allI impI)
    fix p n q k assume a: "(H(r + 8 \<mapsto> sz)) p = Some n \<and> (H(r + 8 \<mapsto> sz)) q = Some k \<and> p \<noteq> q"
    then show "block_pages p n \<inter> block_pages q k = {}"
      using H(1,3) by (auto simp: block_pages_def split: if_splits)
  qed (use S H(1,2) g r r0 v in \<open>auto simp: block_pages_def split: if_splits\<close>)
  moreover have "same_blocks H S ?S"
    unfolding same_blocks_def
  proof (intro allI impI)
    fix q k i assume q: "H q = Some k \<and> i < k"
    then have "q - 8 + (i + 8) \<in> block_pages q k" unfolding block_pages_def by (intro pages_in) simp
    with old [of q k] H(2) [of q k] q show "content ?S (q + i) = content S (q + i)" by (simp del: space.simps)
  qed
  moreover have "u64 (r + 8) = r + 8" using b by (simp add: u64_def)
  moreover have "content ?S (r + 8 + i) = content S (r + 8 + i)" for i by (simp add: put64_other)
  ultimately show thesis using st new by (intro that [of ?S]) auto
qed

lemma store_refused: "refused r \<Longrightarrow> heap_ok S H \<Longrightarrow> store64 r v S = Fault"
proof -
  assume "refused r" "heap_ok S H"
  then have "\<not> mapped S (r + 0)" by (auto simp: refused_def heap_ok_def)
  then show ?thesis unfolding store64_def by (metis zero_less_numeral)
qed

lemma malloc_ok:
  assumes "linux K" "heap_ok S H" "sz + 8 < 2 ^ 64" "\<not> refused (fst (mmap K (sz + 8) S))"
  obtains p S' where "malloc_map K sz S = Ret (p, S')" "p \<noteq> 0" "H p = None" "heap_ok S' (H(p \<mapsto> sz))" "same_blocks H S S'"
proof -
  obtain r S1 where m: "mmap K (sz + 8) S = (r, S1)" by fastforce
  note L = linux_mmapD [OF assms(1) m] 
  have n: "\<not> refused r" using assms(4) m by simp
  note B = heap_block [OF assms(2)]
  have eq: "content S1 x = content S x" if "H q = Some k" "x \<in> block_pages q k" for q k x
    using L(2,4) [OF n] B(3) [OF that] by blast
  obtain S2 where S2: "store64 r (sz + 8) S1 = Ret S2" "u64 (r + 8) = r + 8" "H (r + 8) = None" "heap_ok S2 (H(r + 8 \<mapsto> sz))" "same_blocks H S1 S2"
  proof (rule heap_add [of H S1 r sz])
    show "mapped S1 x \<and> x \<notin> pages r (sz + 8)" if "H q = Some k" "x \<in> block_pages q k" for q k x
      using L(2,3) [OF n] B(3) [OF that] by blast
    show "8 < q \<and> placed (q - 8) (k + 8) \<and> get64 (content S1) (q - 8) = k + 8" if "H q = Some k" for q k
      using B(1,2,4,5) [OF that] eq [OF that] get64_cong [of "content S1" "q - 8" "content S" "q - 8"] by simp
    show "block_pages q k \<inter> block_pages q' k' = {}" if "H q = Some k" "H q' = Some k'" "q \<noteq> q'" for q k q' k'
      using assms(2) that unfolding heap_ok_def by blast
    show "x < 2 ^ 47" if "mapped S1 x" for x
      using that L(1,3) [OF n] assms(2) unfolding heap_ok_def placed_def by blast
  qed (use L n in auto)
  have "same_blocks H S S2" unfolding same_blocks_def
  proof (intro allI impI)
    fix q k i assume q: "H q = Some k \<and> i < k"
    then have "q + i \<in> block_pages q k" using B(1) [of q k] B(5) [of q k "i + 8"] by simp
    then show "content S2 (q + i) = content S (q + i)" using S2(5) q eq unfolding same_blocks_def by metis
  qed
  moreover have "malloc_map K sz S = Ret (r + 8, S2)"
    using placed_not_refused [OF L(1) [OF n]] S2(1,2) m assms(3) by (simp add: malloc_map_def u64_def)
  ultimately show thesis using S2 by (intro that) auto
qed

lemma linux_munmapD:
  assumes "linux K" "munmap K a n S = (r, S')"
  shows "refused r \<and> S' = S \<or> r = 0 \<and> (\<forall>x. mapped S' x \<longleftrightarrow> mapped S x \<and> x \<notin> pages a n) \<and> (\<forall>x. x \<notin> pages a n \<longrightarrow> content S' x = content S x)"
  using assms(1) [unfolded linux_def linux_munmap_def, THEN conjunct2, THEN conjunct1, rule_format, of a n S] assms(2) by simp

lemma refused_int: "refused r \<Longrightarrow> s32 r = -1 \<longleftrightarrow> r = MAP_FAILED"
proof -
  assume "refused r"
  then obtain e where "r = 2 ^ 64 - e" "1 \<le> e" "e \<le> 4095"
    by (intro that [of "2 ^ 64 - r"]) (auto simp: refused_def)
  moreover from this have "int r mod 2 ^ 32 = 2 ^ 32 - int e"
    by (simp add: of_nat_diff mod_diff_eq [symmetric] zmod_zminus1_eq_if)
  ultimately show ?thesis by (auto simp: s32_def)
qed

text \<open>Blocks that are left alone stay blocks.\<close>

lemma heap_keep:
  assumes "heap_ok S H" "H' \<subseteq>\<^sub>m H" "\<And>x. mapped S' x \<Longrightarrow> mapped S x"
    "\<And>q k x. H' q = Some k \<Longrightarrow> x \<in> block_pages q k \<Longrightarrow> mapped S' x \<and> content S' x = content S x"
  shows "heap_ok S' H'" "same_blocks H' S S'"
proof -
  have sub: "H q = Some k" if "H' q = Some k" for q k using that assms(2) by (metis domI map_le_def)
  have g: "get64 (content S') (q - 8) = k + 8" if q: "H' q = Some k" for q k
    using heap_block [OF assms(1) sub [OF q]] assms(4) [OF q] get64_cong [of "content S'" "q - 8" "content S" "q - 8"] by simp
  show "heap_ok S' H'"
    unfolding heap_ok_def
  proof (intro conjI allI impI)
    fix p n q k assume "H' p = Some n \<and> H' q = Some k \<and> p \<noteq> q"
    then show "block_pages p n \<inter> block_pages q k = {}" using sub assms(1) unfolding heap_ok_def by blast
  next
    fix x assume "mapped S' x"
    then show "x < 2 ^ 47" using assms(1,3) unfolding heap_ok_def by blast
  qed (use heap_block [OF assms(1) sub] assms(4) g in auto)
  show "same_blocks H' S S'"
    unfolding same_blocks_def
  proof (intro allI impI)
    fix q k i assume q: "H' q = Some k \<and> i < k"
    then have "q + i \<in> block_pages q k" using heap_block(1) [OF assms(1) sub, of q k] heap_block(5) [OF assms(1) sub, of q k "i + 8"] by simp
    then show "content S' (q + i) = content S (q + i)" using assms(4) q by blast
  qed
qed

lemma free_map_ok:
  assumes "linux K" "heap_ok S H" "H p = Some n" "fst (munmap K (p - 8) (n + 8) S) \<noteq> MAP_FAILED"
  obtains S' where "free_map K p S = Ret S'" "heap_ok S' (H(p := None))" "same_blocks (H(p := None)) S S'"
    "fst (munmap K (p - 8) (n + 8) S) = 0 \<longrightarrow> (\<forall>x \<in> block_pages p n. \<not> mapped S' x)"
proof -
  obtain r S' where m: "munmap K (p - 8) (n + 8) S = (r, S')" by fastforce
  have D: "refused r \<and> S' = S \<or> r = 0 \<and> (\<forall>x. mapped S' x \<longleftrightarrow> mapped S x \<and> x \<notin> block_pages p n) \<and> (\<forall>x. x \<notin> block_pages p n \<longrightarrow> content S' x = content S x)"
    using linux_munmapD [OF assms(1) m] by (simp add: block_pages_def)
  have s: "mapped S' x \<and> content S' x = content S x" if "(H(p := None)) q = Some k" "x \<in> block_pages q k" for q k x
  proof -
    have "H q = Some k" "q \<noteq> p" using that(1) by (auto split: if_splits)
    then have "x \<notin> block_pages p n" "mapped S x" using assms(2,3) that(2) unfolding heap_ok_def by blast+
    then show ?thesis using D by auto
  qed
  have "H(p := None) \<subseteq>\<^sub>m H" by (auto simp: map_le_def)
  then have k: "heap_ok S' (H(p := None))" "same_blocks (H(p := None)) S S'"
    using heap_keep [OF assms(2), of "H(p := None)" S'] D s by blast+
  have "p \<noteq> 0" using heap_block(1) [OF assms(2,3)] by auto
  moreover have "s32 r \<noteq> -1" using D refused_int [of r] assms(4) m by (auto simp: s32_def)
  ultimately have "free_map K p S = Ret S'" using heap_load [OF assms(2,3)] m by (simp add: free_map_def)
  then show thesis using k D m by (intro that) (auto simp: refused_def)
qed

lemma linux_mremapD:
  assumes "linux K" "mremap K a old n S = (r, S')" "\<not> refused r"
  shows "placed r n" "\<And>x. x \<in> pages r n \<Longrightarrow> mapped S x \<Longrightarrow> x \<in> pages a old"
    "\<And>x. mapped S' x \<longleftrightarrow> x \<in> pages r n \<or> mapped S x \<and> x \<notin> pages a old"
    "\<And>i. i < min old n \<Longrightarrow> content S' (r + i) = content S (a + i)"
    "\<And>x. x \<notin> pages r n \<Longrightarrow> x \<notin> pages a old \<Longrightarrow> content S' x = content S x"
  using assms(1) [unfolded linux_def linux_mremap_def, THEN conjunct2, THEN conjunct2, rule_format, of a old n S] assms(2,3) by simp_all

lemma realloc_ok:
  assumes "linux K" "heap_ok S H" "H p = Some n" "0 < sz" "sz + 8 < 2 ^ 64" "\<not> refused (fst (mremap K (p - 8) (n + 8) (sz + 8) S))"
  obtains q S' where "realloc K p sz S = Ret (q, S')" "q \<noteq> 0" "(H(p := None)) q = None" "heap_ok S' (H(p := None, q \<mapsto> sz))"
    "same_blocks (H(p := None)) S S'" "\<forall>i < min n sz. content S' (q + i) = content S (p + i)"
proof -
  let ?H = "H(p := None)"
  obtain r S1 where m: "mremap K (p - 8) (n + 8) (sz + 8) S = (r, S1)" by fastforce
  have n: "\<not> refused r" using assms(6) m by simp
  note L = linux_mremapD [OF assms(1) m n, folded block_pages_def]
  have old: "x \<notin> block_pages p n \<and> mapped S x \<and> x \<notin> pages r (sz + 8)" if "?H q = Some k" "x \<in> block_pages q k" for q k x
  proof -
    have "H q = Some k" "q \<noteq> p" using that(1) by (auto split: if_splits)
    then have "x \<notin> block_pages p n" "mapped S x" using assms(2,3) that(2) unfolding heap_ok_def by blast+
    then show ?thesis using L(2) by blast
  qed
  have B: "8 < q" "placed (q - 8) (k + 8)" "get64 (content S) (q - 8) = k + 8" "\<And>i. i < k + 8 \<Longrightarrow> q - 8 + i \<in> block_pages q k"
    if "?H q = Some k" for q k
    using heap_block [OF assms(2), of q k] that by (auto split: if_splits)
  have eq: "content S1 x = content S x" if "?H q = Some k" "x \<in> block_pages q k" for q k x using L(5) old [OF that] by blast
  obtain S2 where S2: "store64 r (sz + 8) S1 = Ret S2" "u64 (r + 8) = r + 8" "?H (r + 8) = None" "heap_ok S2 (?H(r + 8 \<mapsto> sz))" "same_blocks ?H S1 S2"
    "\<And>i. i < sz \<Longrightarrow> content S2 (r + 8 + i) = content S1 (r + 8 + i)"
  proof (rule heap_add [of ?H S1 r sz])
    show "mapped S1 x \<and> x \<notin> pages r (sz + 8)" if "?H q = Some k" "x \<in> block_pages q k" for q k x
      using L(3) old [OF that] by blast
    show "8 < q \<and> placed (q - 8) (k + 8) \<and> get64 (content S1) (q - 8) = k + 8" if "?H q = Some k" for q k
      using B [OF that] eq [OF that] get64_cong [of "content S1" "q - 8" "content S" "q - 8"] by simp
    show "block_pages q k \<inter> block_pages q' k' = {}" if "?H q = Some k" "?H q' = Some k'" "q \<noteq> q'" for q k q' k'
      using assms(2) that unfolding heap_ok_def by (metis fun_upd_apply option.distinct(1))
    show "x < 2 ^ 47" if "mapped S1 x" for x
      using that L(1,3) assms(2) unfolding heap_ok_def placed_def by blast
  qed (use L in auto)
  have "same_blocks ?H S S2" unfolding same_blocks_def
  proof (intro allI impI)
    fix q k i assume q: "?H q = Some k \<and> i < k"
    then have "q + i \<in> block_pages q k" using B(1) [of q k] B(4) [of q k "i + 8"] by simp
    then show "content S2 (q + i) = content S (q + i)" using S2(5) q eq unfolding same_blocks_def by metis
  qed
  moreover have p: "8 < p" using heap_block(1) [OF assms(2,3)] .
  moreover have "content S2 (r + 8 + i) = content S (p + i)" if "i < min n sz" for i
    using S2(6) [of i] L(4) [of "8 + i"] that p by (simp add: add.assoc)
  moreover have "realloc K p sz S = Ret (r + 8, S2)"
    using placed_not_refused [OF L(1)] S2(1,2) m assms(3-5) p heap_load [OF assms(2,3)] by (simp add: realloc_def u64_def)
  ultimately show thesis using S2 by (intro that [of "r + 8" S2]) auto
qed

section \<open>Programs with a heap\<close>

text \<open>
  A program allocates, frees and resizes blocks and writes into those it has.  The parameter \<open>H\<close> collects them; an
  allocation that returned \<open>NULL\<close> changes nothing.
\<close>

inductive heap_reach :: "kernel \<Rightarrow> space \<Rightarrow> (nat \<rightharpoonup> nat) \<Rightarrow> bool" for K where
  hr_start: "(\<And>x. mapped S x \<Longrightarrow> x < 2 ^ 47) \<Longrightarrow> heap_reach K S Map.empty"
| hr_malloc: "heap_reach K S H \<Longrightarrow> sz + 8 < 2 ^ 64 \<Longrightarrow> malloc_map K sz S = Ret (p, S') \<Longrightarrow> p \<noteq> 0 \<Longrightarrow> heap_reach K S' (H(p \<mapsto> sz))"
| hr_free: "heap_reach K S H \<Longrightarrow> H p = Some n \<Longrightarrow> free_map K p S = Ret S' \<Longrightarrow> heap_reach K S' (H(p := None))"
| hr_realloc: "heap_reach K S H \<Longrightarrow> H p = Some n \<Longrightarrow> 0 < sz \<Longrightarrow> sz + 8 < 2 ^ 64 \<Longrightarrow> realloc K p sz S = Ret (q, S') \<Longrightarrow> q \<noteq> 0 \<Longrightarrow>
    heap_reach K S' (H(p := None, q \<mapsto> sz))"
| hr_write: "heap_reach K S H \<Longrightarrow> H p = Some n \<Longrightarrow> i < n \<Longrightarrow> heap_reach K (S\<lparr>content := (content S)(p + i := c)\<rparr>) H"

text \<open>A refused system call: \<open>NULL\<close> only for the one error that equals \<open>MAP_FAILED\<close>.\<close>

lemma malloc_refused:
  assumes "linux K" "heap_ok S H" "sz + 8 < 2 ^ 64" "refused (fst (mmap K (sz + 8) S))"
  shows "malloc_map K sz S = (if fst (mmap K (sz + 8) S) = MAP_FAILED then Ret (0, S) else Fault)"
proof -
  obtain r S' where m: "mmap K (sz + 8) S = (r, S')" by fastforce
  have "S' = S" using assms(1) [unfolded linux_def linux_mmap_def, THEN conjunct1, rule_format, of "sz + 8" S] m assms(4)
    placed_not_refused [of r "sz + 8"] by auto
  then show ?thesis using m assms store_refused [of r S H] by (simp add: malloc_map_def u64_def)
qed

lemma realloc_refused:
  assumes "linux K" "heap_ok S H" "H p = Some n" "0 < sz" "sz + 8 < 2 ^ 64" "refused (fst (mremap K (p - 8) (n + 8) (sz + 8) S))"
  shows "realloc K p sz S = (if fst (mremap K (p - 8) (n + 8) (sz + 8) S) = MAP_FAILED then Ret (0, S) else Fault)"
proof -
  obtain r S' where m: "mremap K (p - 8) (n + 8) (sz + 8) S = (r, S')" by fastforce
  have "S' = S" using assms(1) [unfolded linux_def linux_mremap_def, THEN conjunct2, THEN conjunct2, rule_format, of "p - 8" "n + 8" "sz + 8" S] m assms(6)
    placed_not_refused [of r "sz + 8"] by auto
  then show ?thesis using m assms store_refused [of r S H] heap_load [OF assms(2,3)] heap_block(1) [OF assms(2,3)] by (simp add: realloc_def u64_def)
qed

lemma free_refused:
  assumes "linux K" "heap_ok S H" "H p = Some n" "fst (munmap K (p - 8) (n + 8) S) = MAP_FAILED"
  shows "free_map K p S = Exit 1"
proof -
  obtain r S' where m: "munmap K (p - 8) (n + 8) S = (r, S')" by fastforce
  then have "refused r" using assms(4) by (simp add: refused_def)
  then show ?thesis using m assms(4) refused_int [of r] heap_load [OF assms(2,3)] heap_block(1) [OF assms(2,3)] by (simp add: free_map_def)
qed

lemma reach_ok: "heap_reach K S H \<Longrightarrow> linux K \<Longrightarrow> heap_ok S H"
proof (induction rule: heap_reach.induct)
  case (hr_malloc S H sz p S')
  then have "\<not> refused (fst (mmap K (sz + 8) S))" using malloc_refused [of K S H sz] by (auto split: if_splits)
  with hr_malloc show ?case using malloc_ok [of K S H sz "heap_ok S' (H(p \<mapsto> sz))"] by fastforce
next
  case (hr_free S H p n S')
  then have "fst (munmap K (p - 8) (n + 8) S) \<noteq> MAP_FAILED" using free_refused [of K S H p n] by auto
  with hr_free show ?case using free_map_ok [of K S H p n "heap_ok S' (H(p := None))"] by fastforce
next
  case (hr_realloc S H p n sz q S')
  then have "\<not> refused (fst (mremap K (p - 8) (n + 8) (sz + 8) S))" using realloc_refused [of K S H p n sz] by (auto split: if_splits)
  with hr_realloc show ?case using realloc_ok [of K S H p n sz "heap_ok S' (H(p := None, q \<mapsto> sz))"] by fastforce
next
  case (hr_write S H p n i c)
  let ?S = "S\<lparr>content := (content S)(p + i := c)\<rparr>"
  have ok: "heap_ok S H" using hr_write by simp
  have "p + i \<notin> {q - 8..<q}" if q: "H q = Some k" for q k
  proof (cases "q = p")
    case True
    then show ?thesis by simp
  next
    case False
    have "p + i \<in> block_pages p n" using heap_block(1) [OF ok hr_write(2)] heap_block(5) [OF ok hr_write(2), of "i + 8"] hr_write(3) by simp
    then have "p + i \<notin> block_pages q k" using ok hr_write(2) q False unfolding heap_ok_def by blast
    moreover have "x \<in> block_pages q k" if "x \<in> {q - 8..<q}" for x
      using that heap_block(1) [OF ok q] heap_block(5) [OF ok q, of "x - (q - 8)"] by auto
    ultimately show ?thesis by blast
  qed
  then have "get64 (content ?S) (q - 8) = get64 (content S) (q - 8)" if "H q = Some k" for q k
    using that heap_block(1) [OF ok that] by (intro get64_cong) fastforce
  then show ?case using ok unfolding heap_ok_def by simp
qed (simp add: heap_ok_def)

section \<open>Properties\<close>

text \<open>C18: the heap over \<open>mmap\<close>.  For every program that uses its blocks properly and every kernel that keeps to its
  documentation, the blocks lie on mapped pages of their own.  \<open>malloc\<close> returns a new block and leaves the others alone unless
  the kernel refuses; \<open>free\<close> returns, unmaps the block when the kernel does, and leaves the others alone; \<open>realloc\<close> returns a block of the new size that
  begins with the bytes of the old one, and leaves the others alone.\<close>

theorem map_heap_safe:
  assumes "linux K" and "heap_reach K S H"
  shows "heap_ok S H \<and>
     (\<forall>sz. sz + 8 < 2 ^ 64 \<and> \<not> refused (fst (mmap K (sz + 8) S)) \<longrightarrow>
        (\<exists>p S'. malloc_map K sz S = Ret (p, S') \<and> p \<noteq> 0 \<and> H p = None \<and> heap_ok S' (H(p \<mapsto> sz)) \<and> same_blocks H S S')) \<and>
     (\<forall>p n. H p = Some n \<and> fst (munmap K (p - 8) (n + 8) S) \<noteq> MAP_FAILED \<longrightarrow>
        (\<exists>S'. free_map K p S = Ret S' \<and> heap_ok S' (H(p := None)) \<and> same_blocks (H(p := None)) S S' \<and>
          (fst (munmap K (p - 8) (n + 8) S) = 0 \<longrightarrow> (\<forall>x \<in> block_pages p n. \<not> mapped S' x)))) \<and>
     (\<forall>p n sz. H p = Some n \<and> 0 < sz \<and> sz + 8 < 2 ^ 64 \<and> \<not> refused (fst (mremap K (p - 8) (n + 8) (sz + 8) S)) \<longrightarrow>
        (\<exists>q S'. realloc K p sz S = Ret (q, S') \<and> q \<noteq> 0 \<and> heap_ok S' (H(p := None, q \<mapsto> sz)) \<and>
          same_blocks (H(p := None)) S S' \<and> (\<forall>i < min n sz. content S' (q + i) = content S (p + i))))"
proof -
  note ok = reach_ok [OF assms(2,1)]
  have "\<exists>p S'. malloc_map K sz S = Ret (p, S') \<and> p \<noteq> 0 \<and> H p = None \<and> heap_ok S' (H(p \<mapsto> sz)) \<and> same_blocks H S S'"
    if "sz + 8 < 2 ^ 64" "\<not> refused (fst (mmap K (sz + 8) S))" for sz
    by (rule malloc_ok [OF assms(1) ok that]) blast
  moreover have "\<exists>S'. free_map K p S = Ret S' \<and> heap_ok S' (H(p := None)) \<and> same_blocks (H(p := None)) S S' \<and>
      (fst (munmap K (p - 8) (n + 8) S) = 0 \<longrightarrow> (\<forall>x \<in> block_pages p n. \<not> mapped S' x))"
    if "H p = Some n" "fst (munmap K (p - 8) (n + 8) S) \<noteq> MAP_FAILED" for p n
    by (rule free_map_ok [OF assms(1) ok that]) (intro exI conjI, assumption+)
  moreover have "\<exists>q S'. realloc K p sz S = Ret (q, S') \<and> q \<noteq> 0 \<and> heap_ok S' (H(p := None, q \<mapsto> sz)) \<and>
      same_blocks (H(p := None)) S S' \<and> (\<forall>i < min n sz. content S' (q + i) = content S (p + i))"
    if "H p = Some n" "0 < sz" "sz + 8 < 2 ^ 64" "\<not> refused (fst (mremap K (p - 8) (n + 8) (sz + 8) S))" for p n sz
    by (rule realloc_ok [OF assms(1) ok that]) blast
  ultimately show ?thesis using ok by blast
qed

text \<open>A kernel with room for one mapping, which it resizes in place.\<close>

definition demo_kernel :: kernel where
  "demo_kernel = \<lparr>
     mmap = \<lambda>n S. if n \<le> 2 ^ 20 \<and> (\<forall>x \<in> pages 0x100000 n. \<not> mapped S x)
       then (0x100000, \<lparr>mapped = \<lambda>x. x \<in> pages 0x100000 n \<or> mapped S x, content = \<lambda>x. if x \<in> pages 0x100000 n then 0 else content S x\<rparr>)
       else (2 ^ 64 - 12, S),
     munmap = \<lambda>a n S. (0, S\<lparr>mapped := \<lambda>x. mapped S x \<and> x \<notin> pages a n\<rparr>),
     mremap = \<lambda>a old n S. if a mod 4096 = 0 \<and> 0 < a \<and> a + n + 4096 < 2 ^ 47 \<and> (\<forall>x \<in> pages a n. mapped S x \<longrightarrow> x \<in> pages a old)
       then (a, S\<lparr>mapped := \<lambda>x. x \<in> pages a n \<or> mapped S x \<and> x \<notin> pages a old\<rparr>) else (2 ^ 64 - 12, S)\<rparr>"

lemma pages_bound: "x \<in> pages a n \<Longrightarrow> x < a + n + 4096"
proof -
  assume "x \<in> pages a n"
  then have "x < a + (n + 4095) div 4096 * 4096" by (simp add: pages_def)
  also have "(n + 4095) div 4096 * 4096 \<le> n + 4095" by (rule div_times_less_eq_dividend)
  finally show ?thesis by simp
qed

lemma demo_placed: "a mod 4096 = 0 \<Longrightarrow> 0 < a \<Longrightarrow> a + n + 4096 < 2 ^ 47 \<Longrightarrow> placed a n"
  unfolding placed_def by (auto dest!: pages_bound)

lemma demo_refused: "refused (2 ^ 64 - 12)"
  by (simp add: refused_def)

lemma demo_linux: "linux demo_kernel"
  unfolding linux_def
proof (intro conjI)
  show "linux_mmap demo_kernel"
    unfolding linux_mmap_def demo_kernel_def kernel.simps
    by (intro allI) (simp add: Let_def demo_refused [simplified] demo_placed)
  show "linux_munmap demo_kernel"
    unfolding linux_munmap_def demo_kernel_def kernel.simps by (intro allI) (simp add: Let_def)
  show "linux_mremap demo_kernel"
    unfolding linux_mremap_def demo_kernel_def kernel.simps
    by (intro allI) (simp add: Let_def demo_refused [simplified] demo_placed)
qed

lemma demo_empty: "heap_reach demo_kernel \<lparr>mapped = \<lambda>_. False, content = \<lambda>_. 0\<rparr> Map.empty"
  by (rule hr_start) simp

theorem map_heap_safe_witness:
  "\<exists>p S'. malloc_map demo_kernel 100 \<lparr>mapped = \<lambda>_. False, content = \<lambda>_. 0\<rparr> = Ret (p, S') \<and> p \<noteq> 0 \<and> heap_ok S' [p \<mapsto> 100]"
proof -
  have "\<not> refused (fst (mmap demo_kernel (100 + 8) \<lparr>mapped = \<lambda>_. False, content = \<lambda>_. 0\<rparr>))" by (simp add: demo_kernel_def refused_def)
  with map_heap_safe [OF demo_linux demo_empty, THEN conjunct2, THEN conjunct1, rule_format, of 100] show ?thesis by auto
qed

text \<open>C19: refused system calls.  The system calls return negative error numbers, but the heap tests for \<open>-1\<close>.  When the
  kernel has no memory, \<open>malloc\<close> and \<open>realloc\<close> store through the error number and fault instead of returning \<open>NULL\<close>, and when it
  refuses to unmap, \<open>free\<close> goes on as if it had.  A size close to the largest wraps around, and the block gets a few bytes.\<close>

theorem map_heap_errors:
  assumes "linux K" and "heap_reach K S H" and "H p = Some n" and "0 < sz" and "sz + 8 < 2 ^ 64"
  shows "(refused (fst (mmap K (sz + 8) S)) \<and> fst (mmap K (sz + 8) S) \<noteq> MAP_FAILED \<longrightarrow> malloc_map K sz S = Fault) \<and>
     (refused (fst (mremap K (p - 8) (n + 8) (sz + 8) S)) \<and> fst (mremap K (p - 8) (n + 8) (sz + 8) S) \<noteq> MAP_FAILED \<longrightarrow>
        realloc K p sz S = Fault) \<and>
     (refused (fst (munmap K (p - 8) (n + 8) S)) \<and> fst (munmap K (p - 8) (n + 8) S) \<noteq> MAP_FAILED \<longrightarrow> free_map K p S = Ret S) \<and>
     (\<not> refused (fst (mmap K 4 S)) \<longrightarrow> (\<exists>q S'. malloc_map K (2 ^ 64 - 4) S = Ret (q, S') \<and> q \<noteq> 0 \<and> get64 (content S') (q - 8) = 4))"
proof -
  note ok = reach_ok [OF assms(2,1)]
  have "free_map K p S = Ret S" if f: "refused (fst (munmap K (p - 8) (n + 8) S))" "fst (munmap K (p - 8) (n + 8) S) \<noteq> MAP_FAILED"
  proof -
    obtain r S' where m: "munmap K (p - 8) (n + 8) S = (r, S')" by fastforce
    have "S' = S" using linux_munmapD [OF assms(1) m] f m by (auto simp: refused_def)
    then show ?thesis using m f refused_int [of r] heap_load [OF ok assms(3)] heap_block(1) [OF ok assms(3)] by (simp add: free_map_def)
  qed
  moreover have "\<exists>q S'. malloc_map K (2 ^ 64 - 4) S = Ret (q, S') \<and> q \<noteq> 0 \<and> get64 (content S') (q - 8) = 4" if f: "\<not> refused (fst (mmap K 4 S))"
  proof -
    obtain r S' where m: "mmap K 4 S = (r, S')" by fastforce
    with f have n: "\<not> refused r" by simp
    note L = linux_mmapD [OF assms(1) m n]
    have "r + i \<in> pages r 4" if "i < 8" for i using that by (simp add: pages_def)
    then have "store64 r 4 S' = Ret (S'\<lparr>content := put64 r 4 (content S')\<rparr>)" using L(3) by (simp add: store64_def)
    then show ?thesis using m placed_not_refused [OF L(1)] placed_bound [OF L(1)] by (simp add: malloc_map_def u64_def)
  qed
  moreover have "malloc_map K sz S = Fault" if "refused (fst (mmap K (sz + 8) S))" "fst (mmap K (sz + 8) S) \<noteq> MAP_FAILED"
    using malloc_refused [OF assms(1) ok assms(5) that(1)] that(2) by (simp only: if_False)
  moreover have "realloc K p sz S = Fault" if "refused (fst (mremap K (p - 8) (n + 8) (sz + 8) S))" "fst (mremap K (p - 8) (n + 8) (sz + 8) S) \<noteq> MAP_FAILED"
    using realloc_refused [OF assms(1) ok assms(3-5) that(1)] that(2) by (simp only: if_False)
  ultimately show ?thesis by blast
qed

text \<open>The one block that the kernel had room for is taken.\<close>

theorem map_heap_errors_witness:
  "\<exists>S. malloc_map demo_kernel 100 \<lparr>mapped = \<lambda>_. False, content = \<lambda>_. 0\<rparr> = Ret (0x100008, S) \<and> malloc_map demo_kernel 200 S = Fault"
proof -
  obtain S where m: "malloc_map demo_kernel 100 \<lparr>mapped = \<lambda>_. False, content = \<lambda>_. 0\<rparr> = Ret (0x100008, S)" and u: "mapped S 0x100000"
    by (simp add: malloc_map_def demo_kernel_def u64_def store64_def pages_def)
  have r: "heap_reach demo_kernel S [0x100008 \<mapsto> 100]" by (rule hr_malloc [OF demo_empty _ m]) simp_all
  have "0x100000 \<in> pages 0x100000 (200 + 8)" by (simp add: pages_def)
  then have f: "fst (mmap demo_kernel (200 + 8) S) = 2 ^ 64 - 12" using u by (auto simp: demo_kernel_def)
  have "refused (fst (mmap demo_kernel (200 + 8) S))" "fst (mmap demo_kernel (200 + 8) S) \<noteq> MAP_FAILED"
    unfolding f by (simp_all add: refused_def)
  moreover have "[0x100008 \<mapsto> 100] 0x100008 = Some (100 :: nat)" "0 < (200 :: nat)" "200 + 8 < (2 ^ 64 :: nat)" by simp_all
  note map_heap_errors [OF demo_linux r this, THEN conjunct1]
  ultimately have "malloc_map demo_kernel 200 S = Fault" by blast
  with m show ?thesis by blast
qed

end
