(* ===== verification/Hugearray.thy ===== *)
theory Hugearray
  imports Mapheap
begin

text \<open>
  \<^verbatim>\<open>src/memory/hugearray\<close>: a table of square roots that is larger than the memory a process may use.  Its pages are computed when
  they are touched: \<open>HandleSigsegv\<close> unmaps the page before, maps the one that faulted and fills it.  A \<open>double\<close> is its 64 bits;
  \<open>sqrt\<close> of the C library is a parameter.  The calls of the kernel at fixed addresses are parameters too; \<open>linux_fixed\<close> is
  what is documented of them.
\<close>

section \<open>State\<close>

record table =
  tmapped :: "nat \<Rightarrow> bool"
  cell :: "nat \<Rightarrow> 64 word"
  prev_page :: nat

record host =
  PAGE_SIZE :: nat
  SQRTS :: nat
  csqrt :: "int \<Rightarrow> 64 word"
  unmap_at :: "nat \<Rightarrow> nat \<Rightarrow> table \<Rightarrow> bool \<times> table"
  map_at :: "nat \<Rightarrow> nat \<Rightarrow> table \<Rightarrow> bool \<times> table"

abbreviation MAX_SQRTS :: nat where "MAX_SQRTS \<equiv> 2 ^ 27"

definition linux_unmap :: "host \<Rightarrow> bool" where
  "linux_unmap h \<longleftrightarrow> (\<forall>a n s. let (ok, s') = unmap_at h a n s in
     (ok \<longrightarrow> (\<forall>x. tmapped s' x \<longleftrightarrow> tmapped s x \<and> \<not> (a \<le> x \<and> x < a + n))) \<and>
     (\<forall>x. \<not> (a \<le> x \<and> x < a + n) \<longrightarrow> cell s' x = cell s x) \<and> prev_page s' = prev_page s)"

definition linux_map :: "host \<Rightarrow> bool" where
  "linux_map h \<longleftrightarrow> (\<forall>a n s. let (ok, s') = map_at h a n s in
     (ok \<longrightarrow> (\<forall>x. tmapped s' x \<longleftrightarrow> tmapped s x \<or> a \<le> x \<and> x < a + n)) \<and>
     (\<forall>x. \<not> (a \<le> x \<and> x < a + n) \<longrightarrow> cell s' x = cell s x) \<and> prev_page s' = prev_page s)"

text \<open>A page size is a power of two with room for a \<open>double\<close>; mappings begin on a page, and not at address 0.\<close>

definition linux_fixed :: "host \<Rightarrow> bool" where
  "linux_fixed h \<longleftrightarrow> (\<exists>k. 3 \<le> k \<and> k < 30 \<and> PAGE_SIZE h = 2 ^ k) \<and> PAGE_SIZE h dvd SQRTS h \<and> 0 < SQRTS h \<and>
     SQRTS h + 2 ^ 31 < 2 ^ 47 \<and> linux_unmap h \<and> linux_map h"

section \<open>The handler\<close>

text \<open>A store to a page that is not mapped would fault again, inside the handler.\<close>

fun CalculateSqrts :: "host \<Rightarrow> nat \<Rightarrow> int \<Rightarrow> nat \<Rightarrow> table \<Rightarrow> table call_result" where
  "CalculateSqrts h sqrt_pos start 0 s = Ret s"
| "CalculateSqrts h sqrt_pos start (Suc n) s =
     (case CalculateSqrts h sqrt_pos start n s of
        Ret s \<Rightarrow> if tmapped s (sqrt_pos + 8 * n) then Ret (s\<lparr>cell := (cell s)(sqrt_pos + 8 * n := csqrt h (start + int n))\<rparr>) else Fault
      | r \<Rightarrow> r)"

definition HandleSigsegv :: "host \<Rightarrow> nat \<Rightarrow> table \<Rightarrow> table call_result" where
  "HandleSigsegv h si_addr s =
     (let (ok, s) = (if prev_page s \<noteq> 0 then unmap_at h (prev_page s) (PAGE_SIZE h) s else (True, s)) in
      if \<not> ok then Exit 1
      else
        let fault_adr = si_addr in
        if fault_adr < SQRTS h \<or> SQRTS h + 8 * MAX_SQRTS \<le> fault_adr then Exit 1
        else
          let fault_adr = unat ((word_of_nat fault_adr :: 64 word) AND NOT (word_of_nat (PAGE_SIZE h) - 1));
              (ok, s) = map_at h fault_adr (PAGE_SIZE h) s
          in if \<not> ok then Exit 1
          else
            let pos = (int (PAGE_SIZE h * (fault_adr div PAGE_SIZE h)) - int (SQRTS h)) div 8
            in case CalculateSqrts h fault_adr pos (PAGE_SIZE h div 8) s of
                 Ret s \<Rightarrow> Ret (s\<lparr>prev_page := fault_adr\<rparr>)
               | r \<Rightarrow> r)"

text \<open>A read of \<open>SQRTS[pos]\<close>; the instruction that faulted is repeated after the handler.\<close>

definition read_sqrt :: "host \<Rightarrow> nat \<Rightarrow> table \<Rightarrow> (64 word \<times> table) call_result" where
  "read_sqrt h pos s =
     (let a = SQRTS h + 8 * pos in
      if tmapped s a then Ret (cell s a, s)
      else case HandleSigsegv h a s of
        Ret s \<Rightarrow> if tmapped s a then Ret (cell s a, s) else Fault
      | Fault \<Rightarrow> Fault | Exit n \<Rightarrow> Exit n)"

fun read_all :: "host \<Rightarrow> nat list \<Rightarrow> table \<Rightarrow> (64 word list \<times> table) call_result" where
  "read_all h [] s = Ret ([], s)"
| "read_all h (p # ps) s =
     (case read_sqrt h p s of
        Ret (v, s) \<Rightarrow> (case read_all h ps s of Ret (vs, s) \<Rightarrow> Ret (v # vs, s) | Fault \<Rightarrow> Fault | Exit n \<Rightarrow> Exit n)
      | Fault \<Rightarrow> Fault | Exit n \<Rightarrow> Exit n)"

section \<open>One page at a time\<close>

lemma mask_page: "k < 64 \<Longrightarrow> n < 2 ^ 64 \<Longrightarrow> unat ((word_of_nat n :: 64 word) AND NOT (word_of_nat (2 ^ k) - 1)) = n div 2 ^ k * 2 ^ k"
proof -
  assume k: "k < 64" and n: "n < 2 ^ 64"
  have "(word_of_nat (2 ^ k) - 1 :: 64 word) = mask k" by (simp add: mask_eq_exp_minus_1)
  moreover have "w AND NOT (mask k) = push_bit k (drop_bit k w)" for w :: "64 word"
    by (rule bit_word_eqI) (auto simp: bit_simps)
  moreover have "unat (push_bit k (drop_bit k (word_of_nat n :: 64 word))) = take_bit 64 (push_bit k (drop_bit k n))"
    using n by (simp add: unsigned_push_bit_eq unat_drop_bit_eq unat_of_nat)
  moreover have "n div 2 ^ k * 2 ^ k < 2 ^ 64" using n div_times_less_eq_dividend [of n "2 ^ k"] by linarith
  then have "take_bit 64 (push_bit k (drop_bit k n)) = n div 2 ^ k * 2 ^ k"
    by (simp add: push_bit_eq_mult drop_bit_eq_div take_bit_eq_mod)
  ultimately show ?thesis by (simp only:)
qed

lemma CalculateSqrts_ok:
  "(\<And>i. i < n \<Longrightarrow> tmapped s (a + 8 * i)) \<Longrightarrow> \<exists>s'. CalculateSqrts h a start n s = Ret s' \<and> tmapped s' = tmapped s \<and> prev_page s' = prev_page s \<and>
     (\<forall>i<n. cell s' (a + 8 * i) = csqrt h (start + int i)) \<and> (\<forall>x. x < a \<or> a + 8 * n \<le> x \<longrightarrow> cell s' x = cell s x)"
proof (induction n)
  case (Suc n)
  then obtain s' where "CalculateSqrts h a start n s = Ret s'" "tmapped s' = tmapped s" "prev_page s' = prev_page s"
    "\<forall>i<n. cell s' (a + 8 * i) = csqrt h (start + int i)" "\<forall>x. x < a \<or> a + 8 * n \<le> x \<longrightarrow> cell s' x = cell s x" by auto
  with Suc.prems [of n] show ?case by (auto simp: less_Suc_eq)
qed simp

text \<open>Of the table at most the page that was computed last is mapped, and it is right.\<close>

definition table_ok :: "host \<Rightarrow> table \<Rightarrow> bool" where
  "table_ok h s \<longleftrightarrow>
     (\<forall>x. SQRTS h \<le> x \<and> x < SQRTS h + 8 * MAX_SQRTS \<and> tmapped s x \<longrightarrow> prev_page s \<noteq> 0 \<and> prev_page s \<le> x \<and> x < prev_page s + PAGE_SIZE h) \<and>
     (prev_page s \<noteq> 0 \<longrightarrow> SQRTS h \<le> prev_page s \<and> PAGE_SIZE h dvd prev_page s \<and>
        (\<forall>pos. prev_page s \<le> SQRTS h + 8 * pos \<and> SQRTS h + 8 * pos < prev_page s + PAGE_SIZE h \<longrightarrow> cell s (SQRTS h + 8 * pos) = csqrt h (int pos)))"

lemma linux_unmapD:
  assumes "linux_fixed h" "unmap_at h a n s = (True, s')"
  shows "tmapped s' x \<longleftrightarrow> tmapped s x \<and> \<not> (a \<le> x \<and> x < a + n)" "prev_page s' = prev_page s"
  using assms(1) [unfolded linux_fixed_def linux_unmap_def, THEN conjunct2, THEN conjunct2, THEN conjunct2, THEN conjunct2, THEN conjunct1, rule_format, of a n s] assms(2) by simp_all

lemma linux_mapD:
  assumes "linux_fixed h" "map_at h a n s = (True, s')"
  shows "tmapped s' x \<longleftrightarrow> tmapped s x \<or> a \<le> x \<and> x < a + n" "prev_page s' = prev_page s"
  using assms(1) [unfolded linux_fixed_def linux_map_def, THEN conjunct2, THEN conjunct2, THEN conjunct2, THEN conjunct2, THEN conjunct2, rule_format, of a n s] assms(2) by simp_all

lemma page_of:
  assumes "linux_fixed h" "SQRTS h \<le> a" "a < SQRTS h + 8 * MAX_SQRTS"
  obtains f where "f = unat ((word_of_nat a :: 64 word) AND NOT (word_of_nat (PAGE_SIZE h) - 1))" "f \<le> a" "a < f + PAGE_SIZE h"
    "PAGE_SIZE h dvd f" "SQRTS h \<le> f" "8 dvd f" "8 dvd PAGE_SIZE h" "8 dvd SQRTS h" "0 < PAGE_SIZE h" "0 < SQRTS h" "PAGE_SIZE h * (f div PAGE_SIZE h) = f"
proof -
  obtain k where k: "3 \<le> k" "k < 30" "PAGE_SIZE h = 2 ^ k" using assms(1) by (auto simp: linux_fixed_def)
  have s: "PAGE_SIZE h dvd SQRTS h" "0 < SQRTS h" "a < 2 ^ 64" using assms by (auto simp: linux_fixed_def)
  let ?P = "PAGE_SIZE h" and ?f = "a div PAGE_SIZE h * PAGE_SIZE h"
  have P: "0 < ?P" "8 dvd ?P" using k by (auto simp: le_imp_power_dvd [of 3 k "2 :: nat", simplified])
  have e: "?f = unat ((word_of_nat a :: 64 word) AND NOT (word_of_nat ?P - 1))"
    unfolding k(3) using k s(3) by (intro mask_page [symmetric]) auto
  have b: "?f \<le> a" "a < ?f + ?P"
    using div_mult_mod_eq [of a ?P] mod_less_divisor [OF P(1), of a] by linarith+
  have g: "SQRTS h \<le> ?f"
  proof -
    obtain c where c: "SQRTS h = ?P * c" using s(1) by auto
    then have "c \<le> a div ?P" using assms(2) P(1) by (simp add: less_eq_div_iff_mult_less_eq mult.commute)
    then show ?thesis using c by (simp add: mult.commute)
  qed
  have d: "?P dvd ?f" "?P * (?f div ?P) = ?f" using P(1) by simp_all
  show thesis
    by (rule that [OF e b d(1) g dvd_trans [OF P(2) d(1)] P(2) dvd_trans [OF P(2) s(1)] P(1) s(2) d(2)])
qed

text \<open>Some call is refused.\<close>

definition host_refuses :: "host \<Rightarrow> bool" where
  "host_refuses h \<longleftrightarrow> (\<exists>a n s. \<not> fst (unmap_at h a n s) \<or> \<not> fst (map_at h a n s))"

lemma handler_ok:
  assumes h: "linux_fixed h" and ok: "table_ok h s" and a: "SQRTS h \<le> a" "a < SQRTS h + 8 * MAX_SQRTS"
  shows "HandleSigsegv h a s = Exit 1 \<and> host_refuses h \<or> (\<exists>s'. HandleSigsegv h a s = Ret s' \<and> table_ok h s' \<and> tmapped s' a)"
proof -
  obtain f where f: "f = unat ((word_of_nat a :: 64 word) AND NOT (word_of_nat (PAGE_SIZE h) - 1))" "f \<le> a" "a < f + PAGE_SIZE h"
    "PAGE_SIZE h dvd f" "SQRTS h \<le> f" "8 dvd f" "8 dvd PAGE_SIZE h" "8 dvd SQRTS h" "0 < PAGE_SIZE h" "0 < SQRTS h" "PAGE_SIZE h * (f div PAGE_SIZE h) = f"
    by (rule page_of [OF h a])
  obtain ok1 s1 where u: "(if prev_page s \<noteq> 0 then unmap_at h (prev_page s) (PAGE_SIZE h) s else (True, s)) = (ok1, s1)" by fastforce
  obtain ok2 s2 where m: "map_at h f (PAGE_SIZE h) s1 = (ok2, s2)" by fastforce
  show ?thesis
  proof (cases "ok1 \<and> ok2")
    case False
    have "host_refuses h"
      unfolding host_refuses_def using False u m by (metis fst_conv)
    then show ?thesis using False u m a f(1) by (auto simp: HandleSigsegv_def Let_def)
  next
    case True
    have s1: "\<not> tmapped s1 x" if "SQRTS h \<le> x" "x < SQRTS h + 8 * MAX_SQRTS" for x
    proof (cases "prev_page s = 0")
      case True
      then show ?thesis using u that ok unfolding table_ok_def by auto
    next
      case False
      then have "unmap_at h (prev_page s) (PAGE_SIZE h) s = (True, s1)" using u \<open>ok1 \<and> ok2\<close> by simp
      from linux_unmapD(1) [OF h this, of x] show ?thesis using that ok unfolding table_ok_def by blast
    qed
    have m2: "map_at h f (PAGE_SIZE h) s1 = (True, s2)" using m True by simp
    note M = linux_mapD [OF h m2]
    let ?n = "PAGE_SIZE h div 8" and ?pos = "(int f - int (SQRTS h)) div 8"
    have n8: "8 * ?n = PAGE_SIZE h" using f(7) by simp
    obtain s3 where s3: "CalculateSqrts h f ?pos ?n s2 = Ret s3" "tmapped s3 = tmapped s2"
      "\<forall>i < ?n. cell s3 (f + 8 * i) = csqrt h (?pos + int i)"
      using CalculateSqrts_ok [of ?n s2 f h ?pos] M n8 by fastforce
    have "HandleSigsegv h a s = Ret (s3\<lparr>prev_page := f\<rparr>)"
      using u m2 True a s3(1) f(11) unfolding HandleSigsegv_def Let_def f(1) [symmetric] by simp
    moreover have "cell s3 (SQRTS h + 8 * pos) = csqrt h (int pos)" if p: "f \<le> SQRTS h + 8 * pos" "SQRTS h + 8 * pos < f + PAGE_SIZE h" for pos
    proof -
      obtain c d where c: "f = 8 * c" "SQRTS h = 8 * d" using f(6,8) unfolding dvd_def by blast
      then have "d \<le> c" "c \<le> d + pos" "d + pos < c + ?n" using f(5) p n8 by linarith+
      moreover from this have "SQRTS h + 8 * pos = f + 8 * (d + pos - c)" "?pos + int (d + pos - c) = int pos" using c by auto
      ultimately show ?thesis using s3(3) by (metis less_diff_conv2 add.commute)
    qed
    then have "table_ok h (s3\<lparr>prev_page := f\<rparr>)" using s1 M f s3(2) unfolding table_ok_def by auto
    ultimately show ?thesis using M f s3(2) by auto
  qed
qed

lemma read_ok:
  assumes "linux_fixed h" "table_ok h s" "pos < MAX_SQRTS"
  shows "read_sqrt h pos s = Exit 1 \<and> host_refuses h \<or> (\<exists>s'. read_sqrt h pos s = Ret (csqrt h (int pos), s') \<and> table_ok h s')"
proof -
  let ?a = "SQRTS h + 8 * pos"
  have a: "SQRTS h \<le> ?a" "?a < SQRTS h + 8 * MAX_SQRTS" using assms(3) by auto
  have v: "cell s' ?a = csqrt h (int pos)" if "table_ok h s'" "tmapped s' ?a" for s'
    using that a unfolding table_ok_def by blast
  show ?thesis
  proof (cases "tmapped s ?a")
    case True
    then show ?thesis using v assms(2) by (simp add: read_sqrt_def)
  next
    case False
    then show ?thesis using handler_ok [OF assms(1,2) a] v by (auto simp: read_sqrt_def)
  qed
qed

text \<open>C20: the table of square roots.  Reads of the table, in any order, return the right square roots, although at any time at
  most one page of the table is mapped, the one computed last, unless the kernel refuses to map or unmap a page.\<close>

theorem huge_reads:
  assumes "linux_fixed h" and "table_ok h s" and "\<forall>p \<in> set ps. p < MAX_SQRTS"
  shows "read_all h ps s = Exit 1 \<and> host_refuses h \<or>
     (\<exists>s'. read_all h ps s = Ret (map (\<lambda>p. csqrt h (int p)) ps, s') \<and> table_ok h s')"
  using assms(2,3)
proof (induction ps arbitrary: s)
  case (Cons p ps)
  then have "p < MAX_SQRTS" by simp
  from read_ok [OF assms(1) Cons.prems(1) this] show ?case
  proof
    assume "\<exists>s'. read_sqrt h p s = Ret (csqrt h (int p), s') \<and> table_ok h s'"
    then obtain s' where "read_sqrt h p s = Ret (csqrt h (int p), s')" "table_ok h s'" by blast
    then show ?thesis using Cons.IH [of s'] Cons.prems(2) by auto
  qed simp
qed simp

definition demo_host :: host where
  "demo_host = \<lparr>PAGE_SIZE = 4096, SQRTS = 0x10000000, csqrt = \<lambda>i. word_of_int i,
     unmap_at = \<lambda>a n s. (True, s\<lparr>tmapped := \<lambda>x. tmapped s x \<and> \<not> (a \<le> x \<and> x < a + n)\<rparr>),
     map_at = \<lambda>a n s. (True, s\<lparr>tmapped := \<lambda>x. tmapped s x \<or> a \<le> x \<and> x < a + n\<rparr>)\<rparr>"

lemma demo_fixed: "linux_fixed demo_host" "\<not> host_refuses demo_host"
proof -
  have "\<exists>k\<ge>3. k < 30 \<and> (4096 :: nat) = 2 ^ k" by (intro exI [of _ 12]) simp
  then show "linux_fixed demo_host" "\<not> host_refuses demo_host"
    by (simp_all add: linux_fixed_def linux_unmap_def linux_map_def demo_host_def host_refuses_def Let_def)
qed

theorem huge_reads_witness:
  "\<exists>s'. read_all demo_host [5, 100000, 6] \<lparr>tmapped = \<lambda>_. False, cell = \<lambda>_. 0, prev_page = 0\<rparr> = Ret ([5, 100000, 6], s')"
proof -
  have "table_ok demo_host \<lparr>tmapped = \<lambda>_. False, cell = \<lambda>_. 0, prev_page = 0\<rparr>" by (simp add: table_ok_def)
  from huge_reads [OF demo_fixed(1) this, of "[5, 100000, 6]"] demo_fixed(2) show ?thesis by (auto simp: demo_host_def)
qed

end
