(* ===== verification/Bash.thy ===== *)
theory Bash
  imports Prelude
begin

text \<open>
  \<^verbatim>\<open>src/bash/pipe\<close>: a command interpreter with redirections and pipelines.  A line is the list of its characters up to the
  terminator; a token is its type with its characters.  Modelled are the tokenizer and the whole of \<open>Exec\<close>: the check of
  the syntax, the arguments of every stage, and the processes it starts with their files and pipes.  What the system calls
  do is a parameter, the record \<open>os\<close>.  Allocations, and the one \<open>dup\<close> of the standard output, are taken to succeed.  The
  interpreters of \<^verbatim>\<open>src/bash/io\<close> and \<^verbatim>\<open>src/bash/base\<close> are earlier versions of the same code.
\<close>

section \<open>Tokens\<close>

datatype TokenType = TT_WORD | TT_INFILE | TT_OUTFILE | TT_PIPE

type_synonym token = "TokenType \<times> byte list"

abbreviation blank :: "byte \<Rightarrow> bool" where
  "blank c \<equiv> c = 32 \<or> c = 9 \<or> c = 10"

definition token_type :: "byte \<Rightarrow> TokenType" where
  "token_type c = (if c = 60 then TT_INFILE else if c = 62 then TT_OUTFILE else if c = 124 then TT_PIPE else TT_WORD)"

function TokenizerInit :: "byte list \<Rightarrow> token list" where
  "TokenizerInit line =
     (case dropWhile blank line of
        [] \<Rightarrow> []
      | c # r \<Rightarrow>
          if token_type c = TT_WORD
          then (TT_WORD, c # takeWhile (\<lambda>x. \<not> blank x) r) # TokenizerInit (dropWhile (\<lambda>x. \<not> blank x) r)
          else (token_type c, [c]) # TokenizerInit r)"
  by pat_completeness auto
termination
proof (relation "measure length")
  fix line c r assume "dropWhile blank line = c # r"
  then have l: "length r < length line" using length_dropWhile_le [of blank line] by simp
  then show "(dropWhile (\<lambda>x. \<not> blank x) r, line) \<in> measure length"
    using length_dropWhile_le [of "\<lambda>x. \<not> blank x" r] by simp
  show "(r, line) \<in> measure length" using l by simp
qed simp

declare TokenizerInit.simps [simp del]

section \<open>The syntax check\<close>

record scan =
  argv :: "byte list list"
  infile_count :: nat
  outfile_count :: nat
  infile_before :: bool
  outfile_before :: bool
  pipe_before :: bool
  infile_name :: "byte list option"
  outfile_name :: "byte list option"
  outfile_block :: "nat option"
  block_count :: nat

definition scan0 :: scan where
  "scan0 = \<lparr>argv = [], infile_count = 0, outfile_count = 0, infile_before = False, outfile_before = False, pipe_before = False,
     infile_name = None, outfile_name = None, outfile_block = None, block_count = 0\<rparr>"

text \<open>One round of the loop; \<open>None\<close> is \<open>Syntax error\<close>.\<close>

definition scan_token :: "token \<Rightarrow> scan \<Rightarrow> scan option" where
  "scan_token t s =
     (case fst t of
        TT_INFILE \<Rightarrow>
          if infile_before s \<or> outfile_before s then None
          else if block_count s \<noteq> 0 then None
          else Some (s\<lparr>infile_count := infile_count s + 1, infile_before := True\<rparr>)
      | TT_OUTFILE \<Rightarrow>
          if infile_before s \<or> outfile_before s then None
          else
            let s = (if outfile_block s = None then s\<lparr>outfile_block := Some (block_count s)\<rparr> else s)
            in Some (s\<lparr>outfile_count := outfile_count s + 1, outfile_before := True\<rparr>)
      | TT_PIPE \<Rightarrow>
          if pipe_before s then None else Some (s\<lparr>pipe_before := True, block_count := block_count s + 1\<rparr>)
      | TT_WORD \<Rightarrow>
          let s = (if infile_before s then s\<lparr>infile_name := Some (snd t)\<rparr>
                   else if outfile_before s then s\<lparr>outfile_name := Some (snd t)\<rparr>
                   else s\<lparr>argv := argv s @ [snd t]\<rparr>)
          in Some (s\<lparr>infile_before := False, outfile_before := False, pipe_before := False\<rparr>))"

fun scan_all :: "token list \<Rightarrow> scan \<Rightarrow> scan option" where
  "scan_all [] s = Some s"
| "scan_all (t # ts) s = Option.bind (scan_token t s) (scan_all ts)"

definition scan_bad :: "scan \<Rightarrow> bool" where
  "scan_bad s \<longleftrightarrow> (outfile_block s \<noteq> None \<and> outfile_block s \<noteq> Some (block_count s)) \<or>
     (infile_before s \<or> outfile_before s) \<or> (1 < infile_count s \<or> 1 < outfile_count s)"

section \<open>The stages of a pipeline\<close>

text \<open>The tokens of one stage: its words, and what is left with the two flags.\<close>

fun stage :: "token list \<Rightarrow> bool \<Rightarrow> bool \<Rightarrow> byte list list \<times> token list \<times> bool \<times> bool" where
  "stage [] ib ob = ([], [], ib, ob)"
| "stage ((ty, w) # ts) ib ob =
     (case ty of
        TT_PIPE \<Rightarrow> ([], (ty, w) # ts, ib, ob)
      | TT_INFILE \<Rightarrow> stage ts True ob
      | TT_OUTFILE \<Rightarrow> stage ts ib True
      | TT_WORD \<Rightarrow>
          let (ws, r) = stage ts False False in (if \<not> ib \<and> \<not> ob then (w # ws, r) else (ws, r)))"

section \<open>Starting processes\<close>

text \<open>
  The host: whether the \<open>i\<close>-th \<open>pipe\<close> and \<open>fork\<close> of a line succeed and the \<open>i\<close>-th child comes to its end; whether a file can be
  opened for writing, or for reading when the same child has opened another (perhaps the same) for writing before; whether
  \<open>dup2\<close> of the descriptor of a file succeeds; and whether \<open>execvp\<close> starts a program.
\<close>

record os =
  pipes :: "nat \<Rightarrow> bool"
  forks :: "nat \<Rightarrow> bool"
  ends :: "nat \<Rightarrow> bool"
  creates :: "byte list \<Rightarrow> bool"
  opens :: "byte list option \<Rightarrow> byte list \<Rightarrow> bool"
  dups :: "byte list \<Rightarrow> bool"
  finds :: "byte list list \<Rightarrow> bool"

text \<open>
  Where a child reads or writes: where the interpreter does, a file, or the pipe made for a stage.  What a child does: it is the
  program with its standard input and output, or prints a message to where its standard output leads and returns from
  \<open>Exec\<close>; \<open>Freed_twice\<close> is the message \<open>Command not found\<close> followed by a second \<open>free\<close> of the name of the input file.
\<close>

datatype place = Std | File "byte list" | Pipe nat

datatype child = Started "byte list list" place place | Io_error place | Not_found place | Freed_twice place

definition exec_program :: "os \<Rightarrow> byte list list \<Rightarrow> place \<Rightarrow> place \<Rightarrow> child" where
  "exec_program h ws src dst = (if finds h ws then Started ws src dst else Not_found dst)"

text \<open>The child of a line without a pipe.\<close>

definition single_in :: "os \<Rightarrow> byte list option \<Rightarrow> byte list option \<Rightarrow> byte list list \<Rightarrow> place \<Rightarrow> child" where
  "single_in h fi fo ws dst =
     (case fi of
        None \<Rightarrow> exec_program h ws Std dst
      | Some f \<Rightarrow>
          if \<not> opens h fo f then Io_error Std
          else if \<not> dups h f then Io_error dst
          else exec_program h ws (File f) dst)"

definition single_child :: "os \<Rightarrow> byte list option \<Rightarrow> byte list option \<Rightarrow> byte list list \<Rightarrow> child" where
  "single_child h fi fo ws =
     (case fo of
        None \<Rightarrow> single_in h fi fo ws Std
      | Some f \<Rightarrow>
          if \<not> creates h f then Io_error Std
          else if \<not> dups h f then Io_error Std
          else single_in h fi fo ws (File f))"

text \<open>The child of stage \<open>i\<close>, which is the last one if \<open>lst\<close>.\<close>

definition stage_out :: "os \<Rightarrow> byte list option \<Rightarrow> bool \<Rightarrow> byte list list \<Rightarrow> place \<Rightarrow> place \<Rightarrow> child" where
  "stage_out h fo lst ws src dst =
     (case (if lst then fo else None) of
        None \<Rightarrow> exec_program h ws src dst
      | Some f \<Rightarrow>
          if \<not> creates h f then Io_error dst
          else if \<not> dups h f then Io_error dst
          else exec_program h ws src (File f))"

definition stage_child :: "os \<Rightarrow> byte list option \<Rightarrow> byte list option \<Rightarrow> nat \<Rightarrow> bool \<Rightarrow> byte list list \<Rightarrow> child" where
  "stage_child h fi fo i lst ws =
     (let src = (if 0 < i then Pipe (i - 1) else Std);
          dst = (if \<not> lst then Pipe i else Std)
      in case (if i = 0 then fi else None) of
        None \<Rightarrow> stage_out h fo lst ws src dst
      | Some f \<Rightarrow>
          if \<not> opens h None f then Io_error Std
          else if \<not> dups h f then Io_error dst
          else (case stage_out h fo lst ws (File f) dst of Not_found d \<Rightarrow> Freed_twice d | c \<Rightarrow> c))"

text \<open>
  What \<open>Exec\<close> does, with the children it has started one after the other: it prints nothing, or \<open>Syntax error\<close>; it has run
  all stages; it gives up because a \<open>fork\<close> or the first \<open>pipe\<close> failed; a later \<open>pipe\<close> failed, when it frees a pointer that was
  never set; it waits for a child that does not end; or it reads a token through \<open>NULL\<close>.
\<close>

datatype exec_result =
    Quiet
  | Syntax_error
  | Ran "child list"
  | Stopped "child list"
  | Wild_free "child list"
  | Stuck "child list"
  | Segfault "child list"

fun after_child :: "child \<Rightarrow> exec_result \<Rightarrow> exec_result" where
  "after_child c (Ran cs) = Ran (c # cs)"
| "after_child c (Stopped cs) = Stopped (c # cs)"
| "after_child c (Wild_free cs) = Wild_free (c # cs)"
| "after_child c (Stuck cs) = Stuck (c # cs)"
| "after_child c (Segfault cs) = Segfault (c # cs)"
| "after_child c r = r"

text \<open>The loop over the stages, from stage \<open>i\<close> on with \<open>n\<close> of them to go.\<close>

fun run_stages :: "os \<Rightarrow> byte list option \<Rightarrow> byte list option \<Rightarrow> nat \<Rightarrow> nat \<Rightarrow> token list \<Rightarrow> bool \<Rightarrow> bool \<Rightarrow> exec_result" where
  "run_stages h fi fo i 0 cur ib ob = Ran []"
| "run_stages h fi fo i (Suc n) cur ib ob =
     (if \<not> pipes h i then (if i = 0 then Stopped [] else Wild_free [])
      else case cur of
        [] \<Rightarrow> Segfault []
      | t # ts \<Rightarrow>
          let cur = (if fst t = TT_PIPE then ts else t # ts);
              (ws, cur, ib, ob) = stage cur ib ob
          in if \<not> forks h i then Stopped []
             else let c = stage_child h fi fo i (n = 0) ws
                  in if \<not> ends h i then Stuck [c] else after_child c (run_stages h fi fo (Suc i) n cur ib ob))"

definition Exec :: "os \<Rightarrow> token list \<Rightarrow> exec_result" where
  "Exec h ts =
     (if ts = [] then Quiet
      else case scan_all ts scan0 of
        None \<Rightarrow> Syntax_error
      | Some s \<Rightarrow>
          if scan_bad s then Syntax_error
          else if block_count s = 0 then
            (if \<not> forks h 0 then Stopped []
             else let c = single_child h (infile_name s) (outfile_name s) (argv s)
                  in if \<not> ends h 0 then Stuck [c] else Ran [c])
          else run_stages h (infile_name s) (outfile_name s) 0 (block_count s + 1) ts (infile_before s) (outfile_before s))"

section \<open>The plan of a line\<close>

text \<open>
  What does not depend on the host: the words of the stages that are to be started, with a flag that says that the token
  after the last one is read through \<open>NULL\<close>.
\<close>

fun stages :: "nat \<Rightarrow> token list \<Rightarrow> bool \<Rightarrow> bool \<Rightarrow> byte list list list \<times> bool" where
  "stages 0 cur ib ob = ([], False)"
| "stages (Suc n) [] ib ob = ([], True)"
| "stages (Suc n) (t # ts) ib ob =
     (let cur = (if fst t = TT_PIPE then ts else t # ts);
          (ws, r, ib, ob) = stage cur ib ob;
          (bs, crash) = stages n r ib ob
      in (ws # bs, crash))"

datatype line_plan =
    Empty
  | Bad
  | One "byte list list" "byte list option" "byte list option"
  | Many "byte list list list" bool "byte list option" "byte list option"

definition plan :: "token list \<Rightarrow> line_plan" where
  "plan ts =
     (if ts = [] then Empty
      else case scan_all ts scan0 of
        None \<Rightarrow> Bad
      | Some s \<Rightarrow>
          if scan_bad s then Bad
          else if block_count s = 0 then One (argv s) (infile_name s) (outfile_name s)
          else case stages (block_count s + 1) ts (infile_before s) (outfile_before s) of
            (bs, crash) \<Rightarrow> Many bs crash (infile_name s) (outfile_name s))"

text \<open>On a host where every \<open>pipe\<close>, \<open>fork\<close> and \<open>dup2\<close> succeeds and children end, the plan is carried out.\<close>

definition willing :: "os \<Rightarrow> bool" where
  "willing h \<longleftrightarrow> (\<forall>i. pipes h i \<and> forks h i \<and> ends h i) \<and> (\<forall>f. dups h f)"

fun children :: "os \<Rightarrow> byte list option \<Rightarrow> byte list option \<Rightarrow> bool \<Rightarrow> nat \<Rightarrow> byte list list list \<Rightarrow> child list" where
  "children h fi fo b i [] = []"
| "children h fi fo b i (ws # bs) = stage_child h fi fo i (b \<and> bs = []) ws # children h fi fo b (Suc i) bs"

lemma stages_length: "stages n cur ib ob = (bs, False) \<Longrightarrow> length bs = n"
  by (induction n cur ib ob arbitrary: bs rule: stages.induct) (auto split: prod.splits)

lemma run_stages_willing:
  assumes "willing h"
  shows "run_stages h fi fo i n cur ib ob = (case stages n cur ib ob of (bs, crash) \<Rightarrow>
     if crash then Segfault (children h fi fo False i bs) else Ran (children h fi fo True i bs))"
proof (induction n cur ib ob arbitrary: i rule: stages.induct)
  case (3 n t ts ib ob)
  define c where "c = (if fst t = TT_PIPE then ts else t # ts)"
  obtain ws r ib' ob' where s: "stage c ib ob = (ws, r, ib', ob')" by (metis prod_cases4)
  obtain bs crash where q: "stages n r ib' ob' = (bs, crash)" by fastforce
  have IH: "run_stages h fi fo (Suc i) n r ib' ob' =
      (if crash then Segfault (children h fi fo False (Suc i) bs) else Ran (children h fi fo True (Suc i) bs))"
    using "3.IH" [OF c_def s [symmetric]] s q by simp
  have "n = 0 \<Longrightarrow> \<not> crash" using q by auto
  moreover have "\<not> crash \<Longrightarrow> bs = [] \<longleftrightarrow> n = 0" using stages_length [of n r ib' ob' bs] q by auto
  ultimately have l: "(n = 0) = (\<not> crash \<and> bs = [])" by auto
  show ?case using assms IH s q unfolding run_stages.simps stages.simps willing_def list.case c_def [symmetric] Let_def
    by (simp add: l)
qed (use assms in \<open>simp_all add: willing_def\<close>)

lemma exec_plan:
  assumes "willing h"
  shows "Exec h ts = (case plan ts of Empty \<Rightarrow> Quiet | Bad \<Rightarrow> Syntax_error | One ws fi fo \<Rightarrow> Ran [single_child h fi fo ws]
     | Many bs crash fi fo \<Rightarrow> if crash then Segfault (children h fi fo False 0 bs) else Ran (children h fi fo True 0 bs))"
  using assms run_stages_willing [OF assms]
  by (auto simp: Exec_def plan_def willing_def Let_def simp del: run_stages.simps stages.simps split: option.splits prod.splits)

section \<open>Command lines\<close>

text \<open>
  A command is a sequence of words and redirections; a pipeline is a sequence of commands, of which only the first may
  redirect its input, only the last its output, and each only once.
\<close>

datatype item = Word "byte list" | In "byte list" | Out "byte list"

fun item_tokens :: "item \<Rightarrow> token list" where
  "item_tokens (Word w) = [(TT_WORD, w)]"
| "item_tokens (In f) = [(TT_INFILE, [60]), (TT_WORD, f)]"
| "item_tokens (Out f) = [(TT_OUTFILE, [62]), (TT_WORD, f)]"

definition command_tokens :: "item list \<Rightarrow> token list" where
  "command_tokens c = concat (map item_tokens c)"

fun pipeline_tokens :: "item list list \<Rightarrow> token list" where
  "pipeline_tokens [] = []"
| "pipeline_tokens [c] = command_tokens c"
| "pipeline_tokens (c # cs) = command_tokens c @ (TT_PIPE, [124]) # pipeline_tokens cs"

fun item_words :: "item \<Rightarrow> byte list list" where
  "item_words (Word w) = [w]"
| "item_words _ = []"

fun item_in :: "item \<Rightarrow> byte list list" where
  "item_in (In f) = [f]"
| "item_in _ = []"

fun item_out :: "item \<Rightarrow> byte list list" where
  "item_out (Out f) = [f]"
| "item_out _ = []"

abbreviation command_words :: "item list \<Rightarrow> byte list list" where
  "command_words c \<equiv> concat (map item_words c)"

abbreviation command_in :: "item list \<Rightarrow> byte list list" where
  "command_in c \<equiv> concat (map item_in c)"

abbreviation command_out :: "item list \<Rightarrow> byte list list" where
  "command_out c \<equiv> concat (map item_out c)"

definition last_name :: "byte list list \<Rightarrow> byte list option" where
  "last_name fs = (if fs = [] then None else Some (last fs))"

definition proper :: "item list list \<Rightarrow> bool" where
  "proper cs \<longleftrightarrow> cs \<noteq> [] \<and> [] \<notin> set cs \<and>
     length (command_in (hd cs)) \<le> 1 \<and> (\<forall>c \<in> set (tl cs). command_in c = []) \<and>
     length (command_out (last cs)) \<le> 1 \<and> (\<forall>c \<in> set (butlast cs). command_out c = [])"

section \<open>Proper lines pass the check\<close>

text \<open>What the loop has done after an item; no redirection is open.\<close>

definition item_scan :: "item \<Rightarrow> scan \<Rightarrow> scan" where
  "item_scan i s =
     (let s = (case i of
          Word w \<Rightarrow> s\<lparr>argv := argv s @ [w]\<rparr>
        | In f \<Rightarrow> s\<lparr>infile_count := infile_count s + 1, infile_name := Some f\<rparr>
        | Out f \<Rightarrow> s\<lparr>outfile_count := outfile_count s + 1, outfile_name := Some f,
            outfile_block := (if outfile_block s = None then Some (block_count s) else outfile_block s)\<rparr>)
      in s\<lparr>pipe_before := False\<rparr>)"

definition closed :: "scan \<Rightarrow> bool" where
  "closed s \<longleftrightarrow> \<not> infile_before s \<and> \<not> outfile_before s"

lemma scan_item:
  assumes "closed s" "item_in i = [] \<or> block_count s = 0"
  shows "scan_all (item_tokens i @ ts) s = scan_all ts (item_scan i s)" "closed (item_scan i s)" "block_count (item_scan i s) = block_count s"
  using assms by (cases i; cases s; auto simp: scan_token_def item_scan_def closed_def Let_def)+

lemma scan_command:
  assumes "closed s" "command_in c = [] \<or> block_count s = 0"
  shows "scan_all (command_tokens c @ ts) s = scan_all ts (fold item_scan c s) \<and> closed (fold item_scan c s) \<and>
     block_count (fold item_scan c s) = block_count s"
  using assms
proof (induction c arbitrary: s)
  case Nil
  then show ?case by (simp add: command_tokens_def)
next
  case (Cons i c)
  have i: "item_in i = [] \<or> block_count s = 0" and c: "command_in c = [] \<or> block_count (item_scan i s) = 0"
    using Cons.prems scan_item(3) [of s i] by auto
  note I = scan_item [OF Cons.prems(1) i]
  from Cons.IH [OF I(2) c] show ?case
    using I(1) [of "command_tokens c @ ts"] I(3) by (simp add: command_tokens_def)
qed

text \<open>The fields after a command.\<close>

lemma fold_item_fields:
  "argv (fold item_scan c s) = argv s @ command_words c"
  "infile_count (fold item_scan c s) = infile_count s + length (command_in c)"
  "outfile_count (fold item_scan c s) = outfile_count s + length (command_out c)"
  "infile_name (fold item_scan c s) = (if command_in c = [] then infile_name s else last_name (command_in c))"
  "outfile_name (fold item_scan c s) = (if command_out c = [] then outfile_name s else last_name (command_out c))"
  "block_count (fold item_scan c s) = block_count s"
  "c \<noteq> [] \<Longrightarrow> \<not> pipe_before (fold item_scan c s)"
  "outfile_block (fold item_scan c s) = (if command_out c = [] \<or> outfile_block s \<noteq> None then outfile_block s else Some (block_count s))"
proof (induction c rule: rev_induct)
  case (snoc i c)
  { case 1 then show ?case using snoc by (cases i) (auto simp: item_scan_def Let_def) }
  { case 2 then show ?case using snoc by (cases i) (auto simp: item_scan_def Let_def) }
  { case 3 then show ?case using snoc by (cases i) (auto simp: item_scan_def Let_def) }
  { case 4 then show ?case using snoc by (cases i) (auto simp: item_scan_def Let_def last_name_def) }
  { case 5 then show ?case using snoc by (cases i) (auto simp: item_scan_def Let_def last_name_def) }
  { case 6 then show ?case using snoc by (cases i) (auto simp: item_scan_def Let_def) }
  { case 7 then show ?case by (cases i) (auto simp: item_scan_def Let_def) }
  { case 8 then show ?case using snoc by (cases i) (auto simp: item_scan_def Let_def) }
qed simp_all

lemma scan_pipeline:
  assumes "closed s" "cs \<noteq> []" "[] \<notin> set cs" "command_in (hd cs) = [] \<or> block_count s = 0"
    "\<forall>c \<in> set (tl cs). command_in c = []" "\<forall>c \<in> set (butlast cs). command_out c = []"
  shows "\<exists>s'. scan_all (pipeline_tokens cs) s = Some s' \<and> closed s' \<and> block_count s' + 1 = block_count s + length cs \<and>
     argv s' = argv s @ concat (map command_words cs) \<and>
     infile_count s' = infile_count s + length (command_in (hd cs)) \<and> outfile_count s' = outfile_count s + length (command_out (last cs)) \<and>
     infile_name s' = (if command_in (hd cs) = [] then infile_name s else last_name (command_in (hd cs))) \<and>
     outfile_name s' = (if command_out (last cs) = [] then outfile_name s else last_name (command_out (last cs))) \<and>
     outfile_block s' = (if command_out (last cs) = [] \<or> outfile_block s \<noteq> None then outfile_block s else Some (block_count s'))"
  using assms
proof (induction cs arbitrary: s rule: pipeline_tokens.induct)
  case (2 c)
  with scan_command [of s c "[]"] show ?case by (simp add: fold_item_fields)
next
  case (3 c d cs)
  let ?s = "fold item_scan c s"
  let ?p = "?s\<lparr>pipe_before := True, block_count := block_count ?s + 1\<rparr>"
  have c: "scan_all (command_tokens c @ ts) s = scan_all ts ?s \<and> closed ?s \<and> block_count ?s = block_count s" for ts
    using scan_command [of s c ts] "3.prems" by simp
  have "\<not> pipe_before ?s" using "3.prems"(3) by (intro fold_item_fields(7)) auto
  then have p: "scan_all (pipeline_tokens (c # d # cs)) s = scan_all (pipeline_tokens (d # cs)) ?p"
    using c by (simp add: scan_token_def)
  have q: "closed ?p" "command_in (hd (d # cs)) = [] \<or> block_count ?p = 0" using c "3.prems"(5) by (simp_all add: closed_def)
  have o: "command_out c = []" using "3.prems"(6) by simp
  from "3.IH" [of ?p] q "3.prems" obtain s' where "scan_all (pipeline_tokens (d # cs)) ?p = Some s'" "closed s'"
    "block_count s' + 1 = block_count ?p + length (d # cs)" "argv s' = argv ?p @ concat (map command_words (d # cs))"
    "infile_count s' = infile_count ?p" "outfile_count s' = outfile_count ?p + length (command_out (last (d # cs)))"
    "infile_name s' = infile_name ?p"
    "outfile_name s' = (if command_out (last (d # cs)) = [] then outfile_name ?p else last_name (command_out (last (d # cs))))"
    "outfile_block s' = (if command_out (last (d # cs)) = [] \<or> outfile_block ?p \<noteq> None then outfile_block ?p else Some (block_count s'))"
    by auto
  then show ?case using c o unfolding p by (intro exI [of _ s']) (simp add: fold_item_fields)
qed simp

lemma stage_command:
  "stage (command_tokens c @ ts) False False = (let (ws, r) = stage ts False False in (command_words c @ ws, r))"
proof (induction c)
  case (Cons i c)
  then show ?case by (cases i) (auto simp: command_tokens_def split: prod.splits)
qed (simp add: command_tokens_def)

lemma command_tokens_first: "c \<noteq> [] \<Longrightarrow> \<exists>t ts. command_tokens c = t # ts \<and> fst t \<noteq> TT_PIPE"
proof (cases c)
  case (Cons i js)
  then show ?thesis by (cases i) (auto simp: command_tokens_def)
qed simp

lemma stages_pipeline:
  assumes "cs \<noteq> []" "[] \<notin> set cs" "toks = pipeline_tokens cs \<or> toks = (TT_PIPE, w) # pipeline_tokens cs"
  shows "stages (length cs + n) toks False False = (map command_words cs @ fst (stages n [] False False), snd (stages n [] False False))"
  using assms
proof (induction cs arbitrary: toks w rule: pipeline_tokens.induct)
  case (2 c)
  obtain t ts where t: "command_tokens c = t # ts" "fst t \<noteq> TT_PIPE" using command_tokens_first [of c] 2 by auto
  have "stage (t # ts) False False = (command_words c, [], False, False)"
    using stage_command [of c "[]"] t(1) by simp
  with 2 t show ?case by (auto split: prod.splits)
next
  case (3 c d cs)
  let ?r = "(TT_PIPE, [124]) # pipeline_tokens (d # cs)"
  obtain t ts where t: "command_tokens c = t # ts" "fst t \<noteq> TT_PIPE" using command_tokens_first [of c] 3 by auto
  have "stage (t # ts @ ?r) False False = (command_words c, ?r, False, False)"
    using stage_command [of c ?r] t(1) by simp
  moreover have "stages (length (d # cs) + n) ?r False False = (map command_words (d # cs) @ fst (stages n [] False False), snd (stages n [] False False))"
    using 3 by (intro "3.IH") auto
  moreover have "toks = t # ts @ ?r \<or> toks = (TT_PIPE, w) # t # ts @ ?r" using "3.prems"(3) t(1) by simp
  ultimately show ?case using t(2) by (auto simp: Let_def)
qed simp



section \<open>The tokenizer\<close>





section \<open>Properties\<close>







text \<open>A host on which every program exists and every file but \<open>x\<close> can be opened.\<close>

definition demo_os :: os where
  "demo_os = \<lparr>pipes = \<lambda>_. True, forks = \<lambda>_. True, ends = \<lambda>_. True, creates = \<lambda>_. True, opens = \<lambda>_ f. f \<noteq> [120], dups = \<lambda>_. True, finds = \<lambda>_. True\<rparr>"

lemma demo_willing: "willing demo_os"
  by (simp add: willing_def demo_os_def)


text \<open>The exception: the child of the first stage has freed the name of its input file before \<open>execvp\<close> and frees it again when the
  command does not exist.\<close>

lemma not_found_twice:
  "willing h \<Longrightarrow> opens h None f \<Longrightarrow> \<not> finds h ws \<Longrightarrow> stage_child h (Some f) fo 0 False ws = Freed_twice (Pipe 0)"
  by (simp add: stage_child_def stage_out_def exec_program_def willing_def Let_def)

lemma plan_leading_pipe:
  assumes "proper cs" "command_in (hd cs) = []"
  shows "\<exists>fi fo. plan ((TT_PIPE, w) # pipeline_tokens cs) = Many (map command_words cs) True fi fo \<and> fi = None"
proof -
  let ?s = "scan0\<lparr>pipe_before := True, block_count := 1\<rparr>"
  have p: "cs \<noteq> []" "[] \<notin> set cs" "\<forall>c \<in> set (tl cs). command_in c = []"
    "length (command_out (last cs)) \<le> 1" "\<forall>c \<in> set (butlast cs). command_out c = []" using assms by (auto simp: proper_def)
  have z: "closed ?s" "block_count ?s = 1" "outfile_block ?s = None" "infile_count ?s = 0" "outfile_count ?s = 0" "infile_name ?s = None"
    by (simp_all add: closed_def scan0_def)
  from scan_pipeline [OF z(1) p(1,2) disjI1 [OF assms(2)] p(3,5), unfolded z]
  obtain s where s: "scan_all (pipeline_tokens cs) ?s = Some s" "closed s" "block_count s + 1 = 1 + length cs"
    "infile_count s = 0 + length (command_in (hd cs))" "outfile_count s = 0 + length (command_out (last cs))"
    "infile_name s = (if command_in (hd cs) = [] then None else last_name (command_in (hd cs)))"
    "outfile_block s = (if command_out (last cs) = [] \<or> None \<noteq> (None :: nat option) then None else Some (block_count s))"
    by (elim exE conjE) (rule that)
  have "\<not> scan_bad s" using s assms(2) p(4) by (auto simp: scan_bad_def closed_def)
  moreover have "scan_all ((TT_PIPE, w) # pipeline_tokens cs) scan0 = Some s" using s(1) by (simp add: scan_token_def scan0_def)
  moreover have "stages (block_count s + 1) ((TT_PIPE, w) # pipeline_tokens cs) False False = (map command_words cs, True)"
    using s(3) stages_pipeline [OF p(1,2) disjI2 [OF refl], of 1 w] by simp
  moreover have "block_count s \<noteq> 0" using s(3) p(1) by simp
  ultimately show ?thesis using s(2,6) assms(2) by (simp add: plan_def closed_def)
qed

lemma children_into_pipes: "children h None fo False i bs = children h None None False i bs"
  by (induction bs arbitrary: i) (simp_all add: stage_child_def stage_out_def)

text \<open>C27: lines that should be rejected and are not.  A pipeline with a pipe in front passes the check, and after all its commands
  have been started, the last of them writing into a pipe too, the interpreter reads a token through \<open>NULL\<close>.  A pipe at the end
  starts a stage without a command.  A redirection that is followed by a pipe takes the name of its file from behind the
  pipe, and the stage there has no command left.\<close>

theorem bash_accepts_bad:
  assumes "willing h" and "proper cs" and "command_in (hd cs) = []"
  shows "Exec h ((TT_PIPE, w) # pipeline_tokens cs) = Segfault (children h None None False 0 (map command_words cs)) \<and>
     Exec h [(TT_WORD, a), (TT_PIPE, w)] = Ran [stage_child h None None 0 False [a], stage_child h None None 1 True []] \<and>
     Exec h [(TT_WORD, a), (TT_INFILE, v), (TT_PIPE, w), (TT_WORD, b)] =
       Ran [stage_child h (Some b) None 0 False [a], stage_child h (Some b) None 1 True []]"
proof (intro conjI)
  obtain fo where "plan ((TT_PIPE, w) # pipeline_tokens cs) = Many (map command_words cs) True None fo"
    using plan_leading_pipe [OF assms(2,3)] by blast
  then show "Exec h ((TT_PIPE, w) # pipeline_tokens cs) = Segfault (children h None None False 0 (map command_words cs))"
    using children_into_pipes [of h fo] by (simp add: exec_plan [OF assms(1)])
qed (simp_all add: exec_plan [OF assms(1)] plan_def scan_token_def scan0_def scan_bad_def)

theorem bash_accepts_bad_witness:
  "Exec demo_os (TokenizerInit [124, 32, 119, 10]) = Segfault [Started [[119]] Std (Pipe 0)]"
proof -
  have "proper [[Word [119]]]" "command_in (hd [[Word [119]]]) = []" by (simp_all add: proper_def)
  from bash_accepts_bad [OF demo_willing this, of "[124]"]
  have "Exec demo_os [(TT_PIPE, [124]), (TT_WORD, [119])] = Segfault (children demo_os None None False 0 [[[119]]])"
    by (simp add: command_tokens_def)
  moreover have "TokenizerInit [124, 32, 119, 10] = [(TT_PIPE, [124]), (TT_WORD, [119])]"
    by (simp add: TokenizerInit.simps token_type_def)
  ultimately show ?thesis by (simp add: stage_child_def stage_out_def exec_program_def demo_os_def)
qed

end
