(* ===== verification/Spec2Isabelle.thy ===== *)
theory Spec2Isabelle
  imports Trap Mkfs Rwlock Seqlock Grep Shell_Run Umalloc Printfmt Fibers Ide Hugearray Bash
begin

text \<open>
  \<^bold>\<open>What is verified.\<close>  The repository holds the exercises of an operating systems course.  Its core is xv6, a small
  Unix for the x86, in two copies: \<^verbatim>\<open>src/alarm\<close> (with an \<open>alarm\<close> system call) and \<^verbatim>\<open>src/date\<close> (with a \<open>date\<close> call); the
  rest are programs of their own: locks built from atomic instructions (\<^verbatim>\<open>src/atomic\<close>), the formatting library of a
  second kernel (\<^verbatim>\<open>src/gate\<close>), a command interpreter (\<^verbatim>\<open>src/bash\<close>), fibers that share a thread (\<^verbatim>\<open>src/fibers\<close>), a heap made
  of mappings and an array computed on page faults (\<^verbatim>\<open>src/memory\<close>), and small exercises.  The files of the two
  copies of xv6 agree except for the added call, so the model follows \<^verbatim>\<open>src/alarm\<close>, and \<^verbatim>\<open>src/date\<close> for the calls that
  only it has.

  \<^bold>\<open>How the parts of xv6 interact.\<close>  A trap (\<^verbatim>\<open>trap.c\<close>) is a system call, a clock tick or a fault.  System calls fetch
  their arguments from the memory of the process (\<^verbatim>\<open>syscall.c\<close>) and work on processes (\<^verbatim>\<open>proc.c\<close>, over page tables
  \<^verbatim>\<open>vm.c\<close> and pages \<^verbatim>\<open>kalloc.c\<close>) or on files (\<^verbatim>\<open>sysfile.c\<close>, over \<^verbatim>\<open>file.c\<close>, \<^verbatim>\<open>pipe.c\<close> and \<^verbatim>\<open>fs.c\<close>).  The file system reads
  and writes blocks inside transactions of the log (\<^verbatim>\<open>log.c\<close>), which uses the buffer cache (\<^verbatim>\<open>bio.c\<close>) over a disk, the memory disk
  (\<^verbatim>\<open>memide.c\<close>) or the IDE disk with its queue of requests (\<^verbatim>\<open>ide.c\<close>).
  User programs (\<^verbatim>\<open>sh.c\<close>, \<^verbatim>\<open>grep.c\<close>) use the library \<^verbatim>\<open>ulib.c\<close>, \<^verbatim>\<open>umalloc.c\<close>.

  \<^bold>\<open>Conventions.\<close>
  \<^item> An operation that changes state takes the state and returns it changed, in the outcome type of \<open>Prelude\<close>:
    \<open>Ok\<close> a result, \<open>Panic\<close> a call of \<open>panic\<close> with its message, \<open>Blocked\<close> a process that has to wait (the source sleeps and
    tests again), \<open>Forever\<close> a loop that never ends.  Error returns of the C code are values of the result.
  \<^item> Memory is a function from addresses to bytes, with little-endian words.  \<open>M\<close> is the memory of the calling
    process as its page table shows it.  Locals of the C code are naturals or integers, with \<open>u32\<close>, \<open>s32\<close> and \<open>i32\<close> or a word
    type where the code can wrap.
  \<^item> Kernel code under a spin lock is one step; the lock itself is verified in \<open>Spinlock\<close> at the grain of single
    instructions.  The lock programs of \<^verbatim>\<open>src/atomic\<close> are interleaved at single memory accesses.
  \<^item> Loops whose end depends on the data are \<open>partial_function (option)\<close>, and it is proved that they return.  Fuel
    occurs in four places: a path is walked with its length plus one (each round consumes a character), a command line
    is parsed with its length plus three (each level of the grammar consumes a character or is one of three in a row),
    \<open>sys_exec\<close> reads at most 32 arguments and \<open>getcallerpcs\<close> ten frames, as the source does.
  \<^item> Loops over pointers and over device status (\<open>queue_tail\<close> and \<open>idewait\<close> of \<open>Ide\<close>, \<open>get_context\<close> of \<open>Fibers\<close>) are
    \<open>partial_function (option)\<close> as well; under the invariant, or when the device becomes ready, they return.
  \<^item> Code outside the repository is a parameter: the kernel under \<open>Mapheap\<close> (\<open>linux\<close>) with the documented promise of
    \<open>mmap\<close> and \<open>mremap\<close>, the storage that \<open>malloc\<close> hands to \<open>Fibers\<close> (\<open>fresh\<close>) and whether it keeps freed memory (\<open>keep\<close>), the functions that fibers
    run, the IDE disk with the status bytes it answers with (\<open>device\<close>, which is assumed to behave as the ATA standard says,
    \<open>ata_disk\<close>), the system calls under \<open>Bash\<close> (\<open>os\<close>), and \<open>sqrt\<close> in \<open>Hugearray\<close>.  Each has a concrete instance in a witness.

  \<^bold>\<open>Theories and what they show.\<close>
  \<^item> \<open>Prelude\<close>, \<open>Ring\<close>, \<open>Digits\<close>: outcomes, machine integers, memory; doubly linked rings; digits of numbers.
  \<^item> \<open>Kalloc\<close> (\<^verbatim>\<open>kalloc.c\<close>): the free list in memory; the locale \<open>page_allocator\<close> is its contract.  After start-up every page
    is allocated exactly once.
  \<^item> \<open>Sleeplock\<close>, \<open>Spinlock\<close> (\<^verbatim>\<open>sleeplock.c\<close>, \<^verbatim>\<open>spinlock.c\<close>): mutual exclusion, the second for any number of processors under
    every interleaving, with interrupts off inside; \<open>pushcli\<close> and \<open>popcli\<close> nest.
  \<^item> \<open>Block_Interface\<close>, \<open>Bio\<close> (\<^verbatim>\<open>bio.c\<close>, \<^verbatim>\<open>memide.c\<close>): the cache is a block store, the locale \<open>block_cache\<close>.
  \<^item> \<open>Ide\<close> (\<^verbatim>\<open>ide.c\<close>): over any disk that behaves as the ATA standard says, the queue of requests and its interrupts do for each
    buffer of the file system's disk what one atomic transfer of \<open>Bio\<close> does, and the disk works on the first request of the
    queue; a failed transfer is reported as a success.
  \<^item> \<open>Tx_Interface\<close>, \<open>Log\<close> (\<^verbatim>\<open>log.c\<close>): a crash after any prefix of the disk writes and any number of crashed recoveries
    leave all of a transaction or nothing; the locale \<open>logged_store\<close> is what the file system uses.  The admission test
    of \<open>begin_op\<close> is off by one block against \<open>log_write\<close>.
  \<^item> \<open>Inode\<close>, \<open>Fs_Data\<close>, \<open>Fs_Write\<close>, \<open>Path\<close> (\<^verbatim>\<open>fs.c\<close>): block and inode allocation, reference counts of the inode cache, what \<open>iupdate\<close>
    writes \<open>ilock\<close> reads; \<open>readi\<close> delivers the content of a file, and what \<open>writei\<close> writes, with blocks allocated on the
    way, is read back (the log must have room for six blocks per block touched); directory search; \<open>namex\<close> walks a
    path as a reference definition on its elements does.
  \<^item> \<open>Dirs\<close> (\<^verbatim>\<open>fs.c\<close>): the two put together: a directory is a map from names to inode numbers, which \<open>dirlink\<close> updates and
    \<open>dirlookup\<close> applies; a name that exists is refused with everything in use as it was, if the inode cache has room and
    the inode is not locked; clearing an entry removes its name.
  \<^item> \<open>Mkfs\<close> (\<^verbatim>\<open>mkfs.c\<close>): the program that builds the disk image on the host.  For files that fit (140 blocks each, 206 files, the blocks
    of all together with the 59 of the layout at most 1000) the kernel finds in the image the files, the root directory and the
    bitmap that were meant, in the state that \<open>Fs_Write\<close> asks for; the root directory may end in a hole.
  \<^item> \<open>Cstring\<close>, \<open>Ulib\<close>, \<open>Console\<close> (\<^verbatim>\<open>string.c\<close>, \<^verbatim>\<open>ulib.c\<close>, \<^verbatim>\<open>console.c\<close>): block and string routines against simultaneous copies; line editing
    as a refinement of a queue of lines; \<open>printint\<close> prints the number.
  \<^item> \<open>Vm\<close> (\<^verbatim>\<open>vm.c\<close>): page tables in memory as maps; \<open>mappages\<close> maps the range and nothing else.
  \<^item> \<open>Pipe\<close>, \<open>File\<close> (\<^verbatim>\<open>pipe.c\<close>, \<^verbatim>\<open>file.c\<close>): bytes arrive in order, once; no wake-up is missed, except by a writer that is killed; open
    files are reference counted.
  \<^item> \<open>Proc\<close>, \<open>Sysproc\<close>, \<open>Sysfile\<close>, \<open>Exec\<close>, \<open>Trap\<close> (\<^verbatim>\<open>proc.c\<close>, \<^verbatim>\<open>syscall.c\<close>, \<^verbatim>\<open>sysproc.c\<close>, \<^verbatim>\<open>sysfile.c\<close>, \<^verbatim>\<open>exec.c\<close>, \<^verbatim>\<open>trap.c\<close>, \<^verbatim>\<open>lapic.c\<close>): the invariant
    of the process table from boot on, under every interleaving of any number of processors (identifiers are unique until
    \<open>nextpid\<close> wraps); accepted arguments lie inside the process; descriptors; an alarm handler returns to exactly the
    interrupted frame; the store on the stack of the process goes through the page tables, and faults forever or hits the
    kernel when the stack pointer is bad; the clock is read consistently.
  \<^item> \<open>Grep\<close>, \<open>Shell\<close>, \<open>Shell_Run\<close>, \<open>Umalloc\<close> (\<^verbatim>\<open>grep.c\<close>, \<^verbatim>\<open>sh.c\<close>, \<^verbatim>\<open>umalloc.c\<close>): the matcher against the language of the pattern; printed
    commands are parsed back and every line is parsed or rejected; the processes of a line have the descriptors that its
    pipes and redirections say and no others; every sequence of \<open>malloc\<close> (of less than 2 GB) and \<open>free\<close> hands out disjoint
    blocks whose content stays.
  \<^item> \<open>Lock_Interface\<close>, \<open>Atomic\<close>, \<open>Rwlock\<close>, \<open>Seqlock\<close> (\<^verbatim>\<open>src/atomic\<close>): the locale \<open>spin_lock\<close> and its instance; exclusion and progress of the
    readers-writer lock; accepted reads under the sequence lock are consistent.
  \<^item> \<open>Printfmt\<close> (\<^verbatim>\<open>src/gate/lib\<close>): printed numbers are read back; bounded printing stays in its buffer.
  \<^item> \<open>Fibers\<close> (\<^verbatim>\<open>src/fibers\<close>): the doubly linked list of contexts is the round-robin queue that \<^verbatim>\<open>fiber.h\<close> promises, for programs
    within three limits; of two fibers spawned before the first yield one is lost, and a fiber that starts because another
    one ended ignores its first yield.
  \<^item> \<open>Mapheap\<close>, \<open>Hugearray\<close> (\<^verbatim>\<open>src/memory\<close>): blocks of the mapped heap are disjoint, hold what was asked for and keep their
    content over \<open>realloc\<close>; a read of the huge array gives the square root at its index, whatever pages are present.
  \<^item> \<open>Bash\<close> (\<^verbatim>\<open>src/bash/pipe\<close>): printed pipelines are run as processes with the words, files and pipes that they say, or with the
    error messages that are asked for; some malformed lines pass the check of the syntax.
  \<^item> Below: \<open>sbrk\<close> as \<open>Umalloc\<close> has it is what \<open>growproc\<close> of \<open>Proc\<close> does to the size of a process.

  \<^bold>\<open>Not modelled.\<close>  Device registers and start-up code (\<^verbatim>\<open>kbd.c\<close>, \<^verbatim>\<open>uart.c\<close>, \<^verbatim>\<open>ioapic.c\<close>, \<^verbatim>\<open>mp.c\<close>, \<^verbatim>\<open>main.c\<close>, \<^verbatim>\<open>bootmain.c\<close>, the
  console and the start-up of \<^verbatim>\<open>src/gate\<close>) have no behaviour apart from the hardware.  User programs that only issue
  system calls (\<^verbatim>\<open>cat.c\<close>, \<^verbatim>\<open>ls.c\<close>, \<^verbatim>\<open>usertests.c\<close> and others) are left out; \<^verbatim>\<open>src/date\<close> repeats
  \<^verbatim>\<open>src/alarm\<close>, \<^verbatim>\<open>src/bash/base\<close> and \<^verbatim>\<open>src/bash/io\<close> are earlier stages of \<^verbatim>\<open>src/bash/pipe\<close>.  Left out are also
  the signal set-up of the huge array, the exercises in assembly (\<^verbatim>\<open>src/asm\<close>, \<^verbatim>\<open>src/sse\<close>) and those that only drive the host's processes and files (\<^verbatim>\<open>src/elf\<close>, \<^verbatim>\<open>src/fs\<close>).
\<close>

section \<open>The size of a process\<close>

text \<open>
  \<open>Umalloc\<close> gives \<open>sbrk\<close> the meaning it has for the program.  It is the one of the kernel: whatever \<open>growproc\<close> makes of
  the size of a process that lies below the kernel is what that \<open>sbrk\<close> makes of it, for an answer \<open>ok\<close> to the question whether
  there is memory.
\<close>

lemma loopE_result:
  "(\<And>x s r s'. f x s = Ok (r, s') \<Longrightarrow> r = None \<or> r = Some v) \<Longrightarrow> loopE f xs s = Ok (r, s') \<Longrightarrow> r = None \<or> r = Some v"
proof (induction xs arbitrary: s)
  case (Cons x xs)
  from Cons.prems(2) obtain r1 s1 where 1: "f x s = Ok (r1, s1)" "(case r1 of Some v \<Rightarrow> Ok (Some v, s1) | None \<Rightarrow> loopE f xs s1) = Ok (r, s')"
    by (auto simp: bindE_eq_Ok)
  then show ?case using Cons.prems(1) [OF 1(1)] Cons.IH [OF Cons.prems(1)] by (cases r1) auto
qed simp

lemma allocuvm_step_result: "allocuvm_step pgdir oldsz newsz a s = Ok (r, s') \<Longrightarrow> r = None \<or> r = Some 0"
  by (auto simp: allocuvm_step_def Let_def bindE_eq_Ok split: prod.splits if_splits)

lemma allocuvm_result:
  assumes "allocuvm pgdir oldsz newsz s = Ok (r, s')" "oldsz \<le> newsz"
  shows "r = 0 \<or> r = newsz \<and> newsz < KERNBASE"
proof (cases "KERNBASE \<le> newsz")
  case False
  then obtain q s1 where q: "loopE (allocuvm_step pgdir oldsz newsz) (map (\<lambda>o'. PGROUNDUP oldsz + o') (page_offs (newsz - PGROUNDUP oldsz))) s = Ok (q, s1)"
    "r = (case q of Some v \<Rightarrow> v | None \<Rightarrow> newsz)"
    using assms by (auto simp: allocuvm_def Let_def bindE_eq_Ok)
  have "q = None \<or> q = Some 0" by (rule loopE_result [OF allocuvm_step_result q(1)])
  then show ?thesis using q(2) False by auto
qed (use assms in \<open>simp add: allocuvm_def\<close>)

lemma of_s32_sint: "of_s32 (sint n) = unat n" for n :: word32
proof -
  have "take_bit 32 (sint n) = uint n" using uint_lt2p [of n] by (simp add: sint_uint take_bit_signed_take_bit) (simp add: take_bit_eq_mod)
  then have "sint n mod 2 ^ 32 = uint n" by (simp only: take_bit_eq_mod)
  then show ?thesis by (simp add: of_s32_def)
qed

lemma sbrk_growproc:
  assumes "growproc cur (sint n) t s = Ok (r, t', s')" and "psz (ptable t cur) < KERNBASE" and "brk u = psz (ptable t cur)"
  shows "\<exists>ok. Umalloc.sbrk ok n u = (if r < 0 then None else Some (psz (ptable t cur)), u\<lparr>brk := psz (ptable t' cur)\<rparr>)"
proof -
  let ?sz = "psz (ptable t cur)" and ?new = "u32 (psz (ptable t cur) + unat n)"
  consider "0 < sint n" | "sint n < 0" | "sint n = 0" by linarith
  then show ?thesis
  proof cases
    case 1
    from assms(1) 1 obtain q s1 where a: "allocuvm (ppgdir (ptable t cur)) ?sz ?new s = Ok (q, s1)"
      "r = (if q = 0 then -1 else 0)" "psz (ptable t' cur) = (if q = 0 then ?sz else q)"
      by (auto simp: growproc_def Let_def bindE_eq_Ok of_s32_sint split: if_splits)
    have l: "sint n < 2 ^ 31" using sint_less [of n] by simp
    then have "nat (sint n) = unat n" using 1 of_s32_sint [of n] by (simp add: of_s32_def)
    with l 1 have "0 < unat n" "unat n < 2147483648" by simp_all
    then have new: "?new = ?sz + unat n" "0 < unat n" using assms(2) by (simp_all add: u32_def)
    have "q = 0 \<or> q = ?new \<and> ?new < KERNBASE" by (rule allocuvm_result [OF a(1)]) (use new in simp)
    then show ?thesis using a(2,3) new 1 assms(3) by (intro exI [of _ "\<lambda>_ _. q \<noteq> 0"]) (auto simp: Umalloc.sbrk_def Let_def)
  next
    case 2
    then show ?thesis using assms
      by (auto simp: growproc_def deallocuvm_def Umalloc.sbrk_def Let_def bindE_eq_Ok of_s32_sint split: if_splits)
  next
    case 3
    then show ?thesis using assms by (auto simp: growproc_def Umalloc.sbrk_def Let_def bindE_eq_Ok)
  qed
qed

end
